(* ===== verification/Prelude.thy ===== *)
theory Prelude
  imports Main "HOL-Library.Multiset" "HOL-Library.Monad_Syntax" "HOL-Library.Word"
begin

text \<open>
  Shared vocabulary of the development.

  Sequence algorithms of \<^verbatim>\<open>cuda/std/__algorithm\<close> work on iterators into memory.  The model of
  memory is a list, the model of a (random access) iterator is a position in it, and every
  dereference goes through \<open>rd\<close> and \<open>wr\<close>, which return \<open>None\<close> when the position
  is outside the memory: a result \<open>None\<close> of a model is the undefined behaviour of the source,
  and a theorem that a result is \<open>Some\<close> shows that the code stays inside its ranges.
  A move assignment is a copy: elements are values, and what a moved-from object holds is not
  observed.

  The theory also holds the generic lemmas the components share: slices of memory, sums of
  slices as multisets, and the facts that let \<open>simp\<close> execute the memory accesses.
\<close>

section \<open>Collections and types\<close>

named_theorems mem_simps \<open>execution of memory accesses\<close>

type_synonym 'a mem = "'a list"
type_synonym iter = nat

text \<open>The iterator category, on which an algorithm dispatches where the source does.\<close>

datatype category = Forward | Bidirectional | Random_Access

section \<open>Memory accesses\<close>

definition rd :: "'a mem \<Rightarrow> iter \<Rightarrow> 'a option" where
  "rd m i = (if i < length m then Some (m ! i) else None)"

definition wr :: "'a mem \<Rightarrow> iter \<Rightarrow> 'a \<Rightarrow> 'a mem option" where
  "wr m i v = (if i < length m then Some (m[i := v]) else None)"

lemma rd_Some [mem_simps]: "i < length m \<Longrightarrow> rd m i = Some (m ! i)"
  by (simp add: rd_def)

lemma wr_Some [mem_simps]: "i < length m \<Longrightarrow> wr m i v = Some (m[i := v])"
  by (simp add: wr_def)

lemma rd_eq_Some [simp]: "rd m i = Some x \<longleftrightarrow> i < length m \<and> x = m ! i"
  by (auto simp: rd_def)

lemma wr_eq_Some [simp]: "wr m i v = Some m' \<longleftrightarrow> i < length m \<and> m' = m[i := v]"
  by (auto simp: wr_def)

lemma rd_eq_None [simp]: "rd m i = None \<longleftrightarrow> length m \<le> i"
  by (auto simp: rd_def)

lemma wr_eq_None [simp]: "wr m i v = None \<longleftrightarrow> length m \<le> i"
  by (auto simp: wr_def)

section \<open>Slices\<close>

definition seg :: "'a list \<Rightarrow> nat \<Rightarrow> nat \<Rightarrow> 'a list" where
  "seg m i j = take (j - i) (drop i m)"

definition put_seg :: "'a list \<Rightarrow> nat \<Rightarrow> nat \<Rightarrow> 'a list \<Rightarrow> 'a list" where
  "put_seg m i j xs = take i m @ xs @ drop j m"

lemma length_seg [simp]: "j \<le> length m \<Longrightarrow> length (seg m i j) = j - i"
  by (simp add: seg_def)

lemma seg_empty [simp]: "j \<le> i \<Longrightarrow> seg m i j = []"
  by (simp add: seg_def)

lemma nth_seg [simp]: "k < j - i \<Longrightarrow> j \<le> length m \<Longrightarrow> seg m i j ! k = m ! (i + k)"
  by (simp add: seg_def)

lemma seg_full [simp]: "seg m 0 (length m) = m"
  by (simp add: seg_def)

lemma seg_Cons: "i < j \<Longrightarrow> i < length m \<Longrightarrow> seg m i j = m ! i # seg m (Suc i) j"
  by (simp add: seg_def Cons_nth_drop_Suc [symmetric] Suc_diff_Suc [symmetric])

lemma seg_snoc: "i \<le> j \<Longrightarrow> j < length m \<Longrightarrow> seg m i (Suc j) = seg m i j @ [m ! j]"
  by (simp add: seg_def Suc_diff_le take_Suc_conv_app_nth)

lemma seg_append: "i \<le> j \<Longrightarrow> j \<le> k \<Longrightarrow> seg m i k = seg m i j @ seg m j k"
  using take_add [of "j - i" "k - j" "drop i m"] by (simp add: seg_def)

lemma in_set_seg:
  "j \<le> length m \<Longrightarrow> x \<in> set (seg m i j) \<longleftrightarrow> (\<exists>k. i \<le> k \<and> k < j \<and> x = m ! k)"
proof
  assume j: "j \<le> length m" and "x \<in> set (seg m i j)"
  then obtain k where "k < j - i" "x = seg m i j ! k" by (auto simp: in_set_conv_nth)
  with j show "\<exists>k. i \<le> k \<and> k < j \<and> x = m ! k" by (intro exI [of _ "i + k"]) auto
next
  assume j: "j \<le> length m" and "\<exists>k. i \<le> k \<and> k < j \<and> x = m ! k"
  then obtain k where "i \<le> k" "k < j" "x = m ! k" by blast
  with j have "k - i < length (seg m i j)" "x = seg m i j ! (k - i)" by auto
  then show "x \<in> set (seg m i j)" by (metis nth_mem)
qed

section \<open>Frames and permutations\<close>

text \<open>
  \<open>frame m m' a b\<close>: memory \<open>m'\<close> differs from \<open>m\<close> at most inside \<open>[a, b)\<close>;
  \<open>permuted m m' a b\<close>: it is a rearrangement of that range.
\<close>

definition frame :: "'a mem \<Rightarrow> 'a mem \<Rightarrow> iter \<Rightarrow> iter \<Rightarrow> bool" where
  "frame m m' a b \<longleftrightarrow> length m' = length m \<and> (\<forall>i. i < a \<or> b \<le> i \<longrightarrow> m' ! i = m ! i)"

definition permuted :: "'a mem \<Rightarrow> 'a mem \<Rightarrow> iter \<Rightarrow> iter \<Rightarrow> bool" where
  "permuted m m' a b \<longleftrightarrow> frame m m' a b \<and> mset m' = mset m"

lemma frame_length: "frame m m' a b \<Longrightarrow> length m' = length m"
  by (simp add: frame_def)

lemma frame_nth: "frame m m' a b \<Longrightarrow> i < a \<or> b \<le> i \<Longrightarrow> m' ! i = m ! i"
  by (auto simp: frame_def)

lemma frame_refl [simp]: "frame m m a b"
  by (simp add: frame_def)

lemma frame_trans: "frame m m' a b \<Longrightarrow> frame m' m'' a b \<Longrightarrow> frame m m'' a b"
  by (simp add: frame_def)

lemma frame_mono: "frame m m' a b \<Longrightarrow> a' \<le> a \<Longrightarrow> b \<le> b' \<Longrightarrow> frame m m' a' b'"
  by (simp add: frame_def)

lemma frame_update: "a \<le> i \<Longrightarrow> i < b \<Longrightarrow> frame m m' a b \<Longrightarrow> frame m (m'[i := v]) a b"
  by (auto simp: frame_def)

lemma permuted_refl [simp]: "permuted m m a b"
  by (simp add: permuted_def)

lemma permuted_trans: "permuted m m' a b \<Longrightarrow> permuted m' m'' a b \<Longrightarrow> permuted m m'' a b"
  by (auto simp: permuted_def intro: frame_trans)

lemma permuted_mono: "permuted m m' a b \<Longrightarrow> a' \<le> a \<Longrightarrow> b \<le> b' \<Longrightarrow> permuted m m' a' b'"
  by (auto simp: permuted_def intro: frame_mono)

lemma permuted_length: "permuted m m' a b \<Longrightarrow> length m' = length m"
  by (auto simp: permuted_def frame_length)

lemma permuted_nth: "permuted m m' a b \<Longrightarrow> i < a \<or> b \<le> i \<Longrightarrow> m' ! i = m ! i"
  unfolding permuted_def by (blast dest: frame_nth)

lemma frame_take: "frame m m' a b \<Longrightarrow> take a m' = take a m"
  by (rule nth_equalityI) (auto simp: frame_def)

lemma frame_drop: "frame m m' a b \<Longrightarrow> drop b m' = drop b m"
  by (rule nth_equalityI) (auto simp: frame_def)

lemma split_seg: "a \<le> b \<Longrightarrow> m = take a m @ seg m a b @ drop b m"
  by (metis append_take_drop_id drop_drop le_add_diff_inverse2 seg_def)

lemma frame_seg_out: "frame m m' a b \<Longrightarrow> j \<le> a \<or> b \<le> i \<Longrightarrow> seg m' i j = seg m i j"
  by (rule nth_equalityI) (auto simp: frame_def seg_def)

lemma frame_put_seg: "a \<le> b \<Longrightarrow> frame m m' a b \<Longrightarrow> m' = put_seg m a b (seg m' a b)"
  using split_seg [of a b m'] by (simp add: put_seg_def frame_take frame_drop)

lemma permuted_mset_seg:
  assumes "permuted m m' a b" "a \<le> b"
  shows "mset (seg m' a b) = mset (seg m a b)"
proof -
  have "mset (take a m' @ seg m' a b @ drop b m') = mset (take a m @ seg m a b @ drop b m)"
    using assms split_seg [of a b] by (metis permuted_def)
  moreover have "take a m' = take a m" "drop b m' = drop b m"
    using assms frame_take frame_drop by (auto simp: permuted_def)
  ultimately show ?thesis by simp
qed

lemma permuted_set_seg:
  "permuted m m' a b \<Longrightarrow> a \<le> b \<Longrightarrow> set (seg m' a b) = set (seg m a b)"
  using permuted_mset_seg by (metis set_mset_mset)

lemma mset_hole_move:
  assumes "p < length m" "c < length m" "p \<noteq> c"
  shows "mset (m[p := m ! c, c := t]) = mset (m[p := t])"
proof -
  let ?w = "m[p := t]"
  have "m[p := m ! c, c := t] = ?w[p := ?w ! c, c := ?w ! p]"
    using assms by (simp add: list_update_swap)
  moreover have "mset (?w[p := ?w ! c, c := ?w ! p]) = mset ?w"
    using assms by (intro mset_swap) simp_all
  ultimately show ?thesis by simp
qed

section \<open>Swapping\<close>

definition iter_swap :: "'a mem \<Rightarrow> iter \<Rightarrow> iter \<Rightarrow> 'a mem option" where
  "iter_swap m i j = do { x \<leftarrow> rd m i; y \<leftarrow> rd m j; m1 \<leftarrow> wr m i y; wr m1 j x }"

lemma iter_swap_Some [mem_simps]:
  "i < length m \<Longrightarrow> j < length m \<Longrightarrow> iter_swap m i j = Some (m[i := m ! j, j := m ! i])"
  by (simp add: iter_swap_def mem_simps)

lemma iter_swap_eq_Some [simp]:
  "iter_swap m i j = Some m' \<longleftrightarrow>
     i < length m \<and> j < length m \<and> m' = m[i := m ! j, j := m ! i]"
  by (auto simp: iter_swap_def bind_eq_Some_conv)

lemma permuted_swap:
  "a \<le> i \<Longrightarrow> i < b \<Longrightarrow> a \<le> j \<Longrightarrow> j < b \<Longrightarrow> b \<le> length m \<Longrightarrow>
     permuted m (m[i := m ! j, j := m ! i]) a b"
  by (auto simp: permuted_def mset_swap intro!: frame_update)

end
