(* ===== verification/Comparators.thy ===== *)
theory Comparators
  imports Prelude
begin

text \<open>
  Comparators and the algorithms that select or compare by them:
  \<^verbatim>\<open>comp.h\<close>, \<^verbatim>\<open>min.h\<close>, \<^verbatim>\<open>max.h\<close>, \<^verbatim>\<open>minmax.h\<close>, \<^verbatim>\<open>clamp.h\<close>, \<^verbatim>\<open>min_element.h\<close>,
  \<^verbatim>\<open>max_element.h\<close>, \<^verbatim>\<open>minmax_element.h\<close>, \<^verbatim>\<open>is_sorted_until.h\<close>, \<^verbatim>\<open>is_sorted.h\<close> and
  \<^verbatim>\<open>lexicographical_compare.h\<close> of \<^verbatim>\<open>cuda/std/__algorithm\<close>.

  The contract every ordering algorithm of the library asks of its comparator is the locale
  \<open>strict_weak_order\<close>; the default comparator \<^verbatim>\<open>__less\<close> is shown to meet it.
\<close>

section \<open>The comparators of comp.h\<close>

definition less_op :: "'a::linorder \<Rightarrow> 'a \<Rightarrow> bool" where
  "less_op lhs rhs = (lhs < rhs)"

definition equal_to_op :: "'a \<Rightarrow> 'a \<Rightarrow> bool" where
  "equal_to_op lhs rhs = (lhs = rhs)"

section \<open>Two values\<close>

definition max_by :: "('a \<Rightarrow> 'a \<Rightarrow> bool) \<Rightarrow> 'a \<Rightarrow> 'a \<Rightarrow> 'a" where
  "max_by cmp a b = (if cmp a b then b else a)"

definition max_less :: "'a::linorder \<Rightarrow> 'a \<Rightarrow> 'a" where
  "max_less a b = (if a < b then b else a)"

definition min_by :: "('a \<Rightarrow> 'a \<Rightarrow> bool) \<Rightarrow> 'a \<Rightarrow> 'a \<Rightarrow> 'a" where
  "min_by cmp a b = (if cmp b a then b else a)"

definition min_less :: "'a::linorder \<Rightarrow> 'a \<Rightarrow> 'a" where
  "min_less a b = (if b < a then b else a)"

definition minmax_by :: "('a \<Rightarrow> 'a \<Rightarrow> bool) \<Rightarrow> 'a \<Rightarrow> 'a \<Rightarrow> 'a \<times> 'a" where
  "minmax_by cmp a b = (if cmp b a then (b, a) else (a, b))"

definition minmax_less :: "'a::linorder \<Rightarrow> 'a \<Rightarrow> 'a \<times> 'a" where
  "minmax_less a b = minmax_by less_op a b"

text \<open>The assertion on the bounds is a precondition: violating it is the result \<open>None\<close>.\<close>

definition clamp_by :: "('a \<Rightarrow> 'a \<Rightarrow> bool) \<Rightarrow> 'a \<Rightarrow> 'a \<Rightarrow> 'a \<Rightarrow> 'a option" where
  "clamp_by cmp v lo hi =
     (if cmp hi lo then None
      else Some (if cmp v lo then lo else if cmp hi v then hi else v))"

definition clamp_less :: "'a::linorder \<Rightarrow> 'a \<Rightarrow> 'a \<Rightarrow> 'a option" where
  "clamp_less v lo hi =
     (if hi < lo then None
      else Some (if v < lo then lo else if hi < v then hi else v))"

section \<open>Extremal elements of a range\<close>

text \<open>\<^verbatim>\<open>while (++__i != __last) if (comp(proj(*__i), proj(*__first))) __first = __i;\<close>\<close>

function min_element_loop ::
    "'a mem \<Rightarrow> ('p \<Rightarrow> 'p \<Rightarrow> bool) \<Rightarrow> ('a \<Rightarrow> 'p) \<Rightarrow> iter \<Rightarrow> iter \<Rightarrow> iter \<Rightarrow> iter option" where
  "min_element_loop m cmp proj first last' i =
     (let i = Suc i in
      if i \<noteq> last' then do {
        x \<leftarrow> rd m i;
        y \<leftarrow> rd m first;
        min_element_loop m cmp proj (if cmp (proj x) (proj y) then i else first) last' i
      } else Some first)"
  by pat_completeness auto
termination
  by (relation "measure (\<lambda>(m, cmp, proj, first, last', i). length m - i)") (auto split: if_splits)

definition min_element_proj ::
    "'a mem \<Rightarrow> iter \<Rightarrow> iter \<Rightarrow> ('p \<Rightarrow> 'p \<Rightarrow> bool) \<Rightarrow> ('a \<Rightarrow> 'p) \<Rightarrow> iter option" where
  "min_element_proj m first last' cmp proj =
     (if first = last' then Some first else min_element_loop m cmp proj first last' first)"

definition min_element_impl :: "'a mem \<Rightarrow> iter \<Rightarrow> iter \<Rightarrow> ('a \<Rightarrow> 'a \<Rightarrow> bool) \<Rightarrow> iter option" where
  "min_element_impl m first last' cmp = min_element_proj m first last' cmp id"

definition min_element :: "'a mem \<Rightarrow> iter \<Rightarrow> iter \<Rightarrow> ('a \<Rightarrow> 'a \<Rightarrow> bool) \<Rightarrow> iter option" where
  "min_element m first last' cmp = min_element_impl m first last' cmp"

definition min_element_less :: "'a::linorder mem \<Rightarrow> iter \<Rightarrow> iter \<Rightarrow> iter option" where
  "min_element_less m first last' = min_element m first last' less_op"

text \<open>\<^verbatim>\<open>while (++__i != __last) if (comp(*__first, *__i)) __first = __i;\<close>\<close>

function max_element_loop ::
    "'a mem \<Rightarrow> ('a \<Rightarrow> 'a \<Rightarrow> bool) \<Rightarrow> iter \<Rightarrow> iter \<Rightarrow> iter \<Rightarrow> iter option" where
  "max_element_loop m cmp first last' i =
     (let i = Suc i in
      if i \<noteq> last' then do {
        y \<leftarrow> rd m first;
        x \<leftarrow> rd m i;
        max_element_loop m cmp (if cmp y x then i else first) last' i
      } else Some first)"
  by pat_completeness auto
termination
  by (relation "measure (\<lambda>(m, cmp, first, last', i). length m - i)") (auto split: if_splits)

definition max_element_impl :: "'a mem \<Rightarrow> iter \<Rightarrow> iter \<Rightarrow> ('a \<Rightarrow> 'a \<Rightarrow> bool) \<Rightarrow> iter option" where
  "max_element_impl m first last' cmp =
     (if first \<noteq> last' then max_element_loop m cmp first last' first else Some first)"

definition max_element :: "'a mem \<Rightarrow> iter \<Rightarrow> iter \<Rightarrow> ('a \<Rightarrow> 'a \<Rightarrow> bool) \<Rightarrow> iter option" where
  "max_element m first last' cmp = max_element_impl m first last' cmp"

definition max_element_less :: "'a::linorder mem \<Rightarrow> iter \<Rightarrow> iter \<Rightarrow> iter option" where
  "max_element_less m first last' = max_element m first last' less_op"

text \<open>The \<^verbatim>\<open>initializer_list\<close> overloads dereference the iterator they get back.\<close>

definition max_list_by :: "'a list \<Rightarrow> ('a \<Rightarrow> 'a \<Rightarrow> bool) \<Rightarrow> 'a option" where
  "max_list_by t cmp = do { i \<leftarrow> max_element_impl t 0 (length t) cmp; rd t i }"

definition max_list_less :: "'a::linorder list \<Rightarrow> 'a option" where
  "max_list_less t = do { i \<leftarrow> max_element t 0 (length t) less_op; rd t i }"

definition min_list_by :: "'a list \<Rightarrow> ('a \<Rightarrow> 'a \<Rightarrow> bool) \<Rightarrow> 'a option" where
  "min_list_by t cmp = do { i \<leftarrow> min_element_impl t 0 (length t) cmp; rd t i }"

definition min_list_less :: "'a::linorder list \<Rightarrow> 'a option" where
  "min_list_less t = do { i \<leftarrow> min_element t 0 (length t) less_op; rd t i }"

text \<open>
  \<^verbatim>\<open>__minmax_element_impl\<close> takes two elements per round.  \<open>minmax_less_func\<close> is the function
  object \<^verbatim>\<open>_MinmaxElementLessFunc\<close>, which dereferences both iterators.
\<close>

definition minmax_less_func ::
    "'a mem \<Rightarrow> ('p \<Rightarrow> 'p \<Rightarrow> bool) \<Rightarrow> ('a \<Rightarrow> 'p) \<Rightarrow> iter \<Rightarrow> iter \<Rightarrow> bool option" where
  "minmax_less_func m cmp proj it1 it2 =
     do { x \<leftarrow> rd m it1; y \<leftarrow> rd m it2; Some (cmp (proj x) (proj y)) }"

lemma minmax_less_func_eq_Some [simp]:
  "minmax_less_func m cmp proj i j = Some b \<longleftrightarrow>
     i < length m \<and> j < length m \<and> b = cmp (proj (m ! i)) (proj (m ! j))"
  by (auto simp: minmax_less_func_def bind_eq_Some_conv)

function minmax_element_loop ::
    "'a mem \<Rightarrow> ('p \<Rightarrow> 'p \<Rightarrow> bool) \<Rightarrow> ('a \<Rightarrow> 'p) \<Rightarrow> iter \<Rightarrow> iter \<Rightarrow> iter \<Rightarrow> iter \<Rightarrow> (iter \<times> iter) option"
where
  "minmax_element_loop m cmp proj first last' mn mx =
     (let less = minmax_less_func m cmp proj; first = Suc first in
      if first \<noteq> last' then
        let i = first; first = Suc first in
        if first = last' then do {
          a \<leftarrow> less i mn;
          if a then Some (i, mx)
          else do { b \<leftarrow> less i mx; Some (mn, if \<not> b then i else mx) }
        } else do {
          c \<leftarrow> less first i;
          (if c then do {
             a \<leftarrow> less first mn;
             b \<leftarrow> less i mx;
             minmax_element_loop m cmp proj first last'
               (if a then first else mn) (if \<not> b then i else mx)
           } else do {
             a \<leftarrow> less i mn;
             b \<leftarrow> less first mx;
             minmax_element_loop m cmp proj first last'
               (if a then i else mn) (if \<not> b then first else mx)
           })
        }
      else Some (mn, mx))"
  by pat_completeness auto
termination
  by (relation "measure (\<lambda>(m, cmp, proj, first, last', mn, mx). length m - first)") auto

definition minmax_element_impl ::
    "'a mem \<Rightarrow> iter \<Rightarrow> iter \<Rightarrow> ('p \<Rightarrow> 'p \<Rightarrow> bool) \<Rightarrow> ('a \<Rightarrow> 'p) \<Rightarrow> (iter \<times> iter) option" where
  "minmax_element_impl m first last' cmp proj =
     (if first = last' then Some (first, first)
      else if Suc first = last' then Some (first, first)
      else do {
        a \<leftarrow> minmax_less_func m cmp proj (Suc first) first;
        if a then minmax_element_loop m cmp proj (Suc first) last' (Suc first) first
        else minmax_element_loop m cmp proj (Suc first) last' first (Suc first)
      })"

definition minmax_element ::
    "'a mem \<Rightarrow> iter \<Rightarrow> iter \<Rightarrow> ('a \<Rightarrow> 'a \<Rightarrow> bool) \<Rightarrow> (iter \<times> iter) option" where
  "minmax_element m first last' cmp = minmax_element_impl m first last' cmp id"

definition minmax_element_less :: "'a::linorder mem \<Rightarrow> iter \<Rightarrow> iter \<Rightarrow> (iter \<times> iter) option" where
  "minmax_element_less m first last' = minmax_element m first last' less_op"

definition minmax_list_by :: "'a list \<Rightarrow> ('a \<Rightarrow> 'a \<Rightarrow> bool) \<Rightarrow> ('a \<times> 'a) option" where
  "minmax_list_by t cmp = do {
     r \<leftarrow> minmax_element_impl t 0 (length t) cmp id;
     a \<leftarrow> rd t (fst r);
     b \<leftarrow> rd t (snd r);
     Some (a, b)
   }"

definition minmax_list_less :: "'a::linorder list \<Rightarrow> ('a \<times> 'a) option" where
  "minmax_list_less t = minmax_list_by t less_op"

section \<open>Sortedness of a range\<close>

function is_sorted_until_loop ::
    "'a mem \<Rightarrow> ('a \<Rightarrow> 'a \<Rightarrow> bool) \<Rightarrow> iter \<Rightarrow> iter \<Rightarrow> iter \<Rightarrow> iter option" where
  "is_sorted_until_loop m cmp first last' i =
     (let i = Suc i in
      if i \<noteq> last' then do {
        x \<leftarrow> rd m i;
        y \<leftarrow> rd m first;
        if cmp x y then Some i else is_sorted_until_loop m cmp i last' i
      } else Some last')"
  by pat_completeness auto
termination
  by (relation "measure (\<lambda>(m, cmp, first, last', i). length m - i)") auto

definition is_sorted_until_impl ::
    "'a mem \<Rightarrow> iter \<Rightarrow> iter \<Rightarrow> ('a \<Rightarrow> 'a \<Rightarrow> bool) \<Rightarrow> iter option" where
  "is_sorted_until_impl m first last' cmp =
     (if first \<noteq> last' then is_sorted_until_loop m cmp first last' first else Some last')"

definition is_sorted_until :: "'a mem \<Rightarrow> iter \<Rightarrow> iter \<Rightarrow> ('a \<Rightarrow> 'a \<Rightarrow> bool) \<Rightarrow> iter option" where
  "is_sorted_until m first last' cmp = is_sorted_until_impl m first last' cmp"

definition is_sorted_until_less :: "'a::linorder mem \<Rightarrow> iter \<Rightarrow> iter \<Rightarrow> iter option" where
  "is_sorted_until_less m first last' = is_sorted_until m first last' less_op"

definition is_sorted :: "'a mem \<Rightarrow> iter \<Rightarrow> iter \<Rightarrow> ('a \<Rightarrow> 'a \<Rightarrow> bool) \<Rightarrow> bool option" where
  "is_sorted m first last' cmp = do { r \<leftarrow> is_sorted_until_impl m first last' cmp; Some (r = last') }"

definition is_sorted_less :: "'a::linorder mem \<Rightarrow> iter \<Rightarrow> iter \<Rightarrow> bool option" where
  "is_sorted_less m first last' = is_sorted m first last' less_op"

section \<open>Lexicographical comparison\<close>

function lexicographical_compare_impl ::
    "'a mem \<Rightarrow> iter \<Rightarrow> iter \<Rightarrow> 'a mem \<Rightarrow> iter \<Rightarrow> iter \<Rightarrow> ('a \<Rightarrow> 'a \<Rightarrow> bool) \<Rightarrow> bool option" where
  "lexicographical_compare_impl m1 first1 last1 m2 first2 last2 cmp =
     (if first2 \<noteq> last2 then
        if first1 = last1 then Some True
        else do {
          x \<leftarrow> rd m1 first1;
          y \<leftarrow> rd m2 first2;
          if cmp x y then Some True
          else if cmp y x then Some False
          else lexicographical_compare_impl m1 (Suc first1) last1 m2 (Suc first2) last2 cmp
        }
      else Some False)"
  by pat_completeness auto
termination
  by (relation "measure (\<lambda>(m1, first1, last1, m2, first2, last2, cmp). length m1 - first1)") auto

definition lexicographical_compare ::
    "'a mem \<Rightarrow> iter \<Rightarrow> iter \<Rightarrow> 'a mem \<Rightarrow> iter \<Rightarrow> iter \<Rightarrow> ('a \<Rightarrow> 'a \<Rightarrow> bool) \<Rightarrow> bool option" where
  "lexicographical_compare m1 first1 last1 m2 first2 last2 cmp =
     lexicographical_compare_impl m1 first1 last1 m2 first2 last2 cmp"

definition lexicographical_compare_less ::
    "'a::linorder mem \<Rightarrow> iter \<Rightarrow> iter \<Rightarrow> 'a mem \<Rightarrow> iter \<Rightarrow> iter \<Rightarrow> bool option" where
  "lexicographical_compare_less m1 first1 last1 m2 first2 last2 =
     lexicographical_compare m1 first1 last1 m2 first2 last2 less_op"

declare min_element_loop.simps [simp del] max_element_loop.simps [simp del]
  minmax_element_loop.simps [simp del] is_sorted_until_loop.simps [simp del]
  lexicographical_compare_impl.simps [simp del]

section \<open>Strict weak orders\<close>

text \<open>
  The contract of a comparator: \<^verbatim>\<open>Compare\<close> requirements of the C++ standard library.
  Equivalence of elements is incomparability, and incomparability is transitive because the
  negation of the comparator is.
\<close>

locale strict_weak_order =
  fixes cmp :: "'a \<Rightarrow> 'a \<Rightarrow> bool"
  assumes irrefl: "\<not> cmp x x"
    and trans: "cmp x y \<Longrightarrow> cmp y z \<Longrightarrow> cmp x z"
    and neg_trans: "\<not> cmp x y \<Longrightarrow> \<not> cmp y z \<Longrightarrow> \<not> cmp x z"
begin

lemma asym: "cmp x y \<Longrightarrow> \<not> cmp y x"
  using irrefl trans by blast

lemma less_le_trans: "cmp x y \<Longrightarrow> \<not> cmp z y \<Longrightarrow> cmp x z"
  using neg_trans by blast

lemma le_less_trans: "\<not> cmp y x \<Longrightarrow> cmp y z \<Longrightarrow> cmp x z"
  using neg_trans by blast

lemma transp_le: "transp (\<lambda>x y. \<not> cmp y x)"
  by (rule transpI) (blast dest: neg_trans)

lemma strict_weak_order_on: "strict_weak_order (\<lambda>x y. cmp (f x) (f y))"
  by unfold_locales (use irrefl trans neg_trans in blast)+

lemma strict_weak_order_inverse: "strict_weak_order (\<lambda>x y. cmp y x)"
  by unfold_locales (use irrefl trans neg_trans in blast)+

end

interpretation less: strict_weak_order less_op
  by unfold_locales (auto simp: less_op_def)

definition sorted_by :: "('a \<Rightarrow> 'a \<Rightarrow> bool) \<Rightarrow> 'a list \<Rightarrow> bool" where
  "sorted_by cmp xs = sorted_wrt (\<lambda>x y. \<not> cmp y x) xs"

lemma sorted_by_simps [simp]:
  "sorted_by cmp []"
  "sorted_by cmp (x # xs) \<longleftrightarrow> (\<forall>y \<in> set xs. \<not> cmp y x) \<and> sorted_by cmp xs"
  by (auto simp: sorted_by_def)

lemma sorted_by_append [simp]:
  "sorted_by cmp (xs @ ys) \<longleftrightarrow>
     sorted_by cmp xs \<and> sorted_by cmp ys \<and> (\<forall>x \<in> set xs. \<forall>y \<in> set ys. \<not> cmp y x)"
  by (simp add: sorted_by_def sorted_wrt_append)

lemma sorted_by_less: "sorted_by less_op xs = sorted xs"
  by (simp add: sorted_by_def less_op_def not_less)

lemma sorted_by_seg_iff:
  "b \<le> length m \<Longrightarrow>
     sorted_by cmp (seg m a b) \<longleftrightarrow> (\<forall>i j. a \<le> i \<and> i < j \<and> j < b \<longrightarrow> \<not> cmp (m ! j) (m ! i))"
  (is "?b \<Longrightarrow> ?l = ?r")
proof
  assume ?b ?l
  show ?r
  proof (intro allI impI)
    fix i j assume "a \<le> i \<and> i < j \<and> j < b"
    with \<open>?l\<close> \<open>?b\<close> sorted_wrt_nth_less [of "\<lambda>x y. \<not> cmp y x" "seg m a b" "i - a" "j - a"]
    show "\<not> cmp (m ! j) (m ! i)" by (simp add: sorted_by_def diff_less_mono)
  qed
next
  assume ?b ?r
  then show ?l by (auto simp: sorted_by_def sorted_wrt_iff_nth_less)
qed

lemma sorted_by_sub_seg:
  "sorted_by cmp (seg m a b) \<Longrightarrow> a \<le> a' \<Longrightarrow> b' \<le> b \<Longrightarrow> b \<le> length m \<Longrightarrow> sorted_by cmp (seg m a' b')"
  by (simp add: sorted_by_seg_iff)

section \<open>Correctness: extremal elements\<close>

definition first_min :: "('a \<Rightarrow> 'a \<Rightarrow> bool) \<Rightarrow> 'a mem \<Rightarrow> iter \<Rightarrow> iter \<Rightarrow> iter \<Rightarrow> bool" where
  "first_min cmp m a b k \<longleftrightarrow> a \<le> k \<and> k < b \<and>
     (\<forall>i \<in> {a..<b}. \<not> cmp (m ! i) (m ! k)) \<and> (\<forall>i \<in> {a..<k}. cmp (m ! k) (m ! i))"

definition first_max :: "('a \<Rightarrow> 'a \<Rightarrow> bool) \<Rightarrow> 'a mem \<Rightarrow> iter \<Rightarrow> iter \<Rightarrow> iter \<Rightarrow> bool" where
  "first_max cmp m a b k \<longleftrightarrow> a \<le> k \<and> k < b \<and>
     (\<forall>i \<in> {a..<b}. \<not> cmp (m ! k) (m ! i)) \<and> (\<forall>i \<in> {a..<k}. cmp (m ! i) (m ! k))"

definition last_max :: "('a \<Rightarrow> 'a \<Rightarrow> bool) \<Rightarrow> 'a mem \<Rightarrow> iter \<Rightarrow> iter \<Rightarrow> iter \<Rightarrow> bool" where
  "last_max cmp m a b k \<longleftrightarrow> a \<le> k \<and> k < b \<and>
     (\<forall>i \<in> {a..<b}. \<not> cmp (m ! k) (m ! i)) \<and> (\<forall>i \<in> {Suc k..<b}. cmp (m ! i) (m ! k))"

lemma first_max_inverse: "first_max cmp m a b k = first_min (\<lambda>x y. cmp y x) m a b k"
  by (simp add: first_max_def first_min_def)

context strict_weak_order
begin

lemma first_min_step:
  "first_min cmp m a b k \<Longrightarrow> cmp (m ! b) (m ! k) \<Longrightarrow> first_min cmp m a (Suc b) b"
  unfolding first_min_def by (auto simp: less_Suc_eq irrefl dest: asym less_le_trans trans)

lemma first_min_skip:
  "first_min cmp m a b k \<Longrightarrow> \<not> cmp (m ! b) (m ! k) \<Longrightarrow> first_min cmp m a (Suc b) k"
  unfolding first_min_def by (auto simp: less_Suc_eq)

lemma last_max_step:
  "last_max cmp m a b k \<Longrightarrow> \<not> cmp (m ! b) (m ! k) \<Longrightarrow> last_max cmp m a (Suc b) b"
  unfolding last_max_def by (auto simp: less_Suc_eq irrefl dest: neg_trans)

lemma last_max_skip:
  "last_max cmp m a b k \<Longrightarrow> cmp (m ! b) (m ! k) \<Longrightarrow> last_max cmp m a (Suc b) k"
  unfolding last_max_def by (auto simp: less_Suc_eq dest: asym)

lemma min_element_loop_correct:
  assumes "first_min cmp m a (Suc i) k" "i < b" "b \<le> length m"
  shows "\<exists>r. min_element_loop m cmp id k b i = Some r \<and> first_min cmp m a b r"
  using assms
proof (induction "b - i" arbitrary: i k)
  case (Suc n)
  have k: "k < length m" using Suc.prems by (auto simp: first_min_def)
  show ?case
  proof (cases "Suc i = b")
    case True
    with Suc.prems show ?thesis by (auto simp: min_element_loop.simps [of _ _ _ _ _ i])
  next
    case False
    let ?k = "if cmp (m ! Suc i) (m ! k) then Suc i else k"
    have "first_min cmp m a (Suc (Suc i)) ?k"
      using Suc.prems(1) by (simp add: first_min_step first_min_skip)
    with Suc.hyps(1) [of "Suc i" ?k] Suc.hyps(2) Suc.prems False k show ?thesis
      by (auto simp: min_element_loop.simps [of _ _ _ _ _ i] mem_simps)
  qed
qed simp

lemma first_min_pair_lt:
  assumes "first_min cmp m a b k" "cmp (m ! Suc b) (m ! b)"
  shows "first_min cmp m a (Suc (Suc b)) (if cmp (m ! Suc b) (m ! k) then Suc b else k)"
proof (cases "cmp (m ! b) (m ! k)")
  case True
  with assms show ?thesis by (auto intro: first_min_step dest: trans)
next
  case False
  with assms show ?thesis by (auto intro: first_min_step first_min_skip)
qed

lemma first_min_pair_ge:
  assumes "first_min cmp m a b k" "\<not> cmp (m ! Suc b) (m ! b)"
  shows "first_min cmp m a (Suc (Suc b)) (if cmp (m ! b) (m ! k) then b else k)"
proof (cases "cmp (m ! b) (m ! k)")
  case True
  with assms show ?thesis by (auto intro: first_min_skip first_min_step)
next
  case False
  with assms show ?thesis by (auto intro!: first_min_skip dest: neg_trans)
qed

lemma last_max_pair_lt:
  assumes "last_max cmp m a b k" "cmp (m ! Suc b) (m ! b)"
  shows "last_max cmp m a (Suc (Suc b)) (if \<not> cmp (m ! b) (m ! k) then b else k)"
proof (cases "cmp (m ! b) (m ! k)")
  case True
  with assms show ?thesis by (auto intro!: last_max_skip dest: trans)
next
  case False
  with assms show ?thesis by (auto intro: last_max_skip last_max_step)
qed

lemma last_max_pair_ge:
  assumes "last_max cmp m a b k" "\<not> cmp (m ! Suc b) (m ! b)"
  shows "last_max cmp m a (Suc (Suc b)) (if \<not> cmp (m ! Suc b) (m ! k) then Suc b else k)"
proof (cases "cmp (m ! b) (m ! k)")
  case True
  with assms show ?thesis by (auto intro: last_max_skip last_max_step)
next
  case False
  with assms show ?thesis by (auto intro: last_max_step dest: neg_trans)
qed

lemma new_min_below_max:
  assumes "first_min cmp m a b k" "last_max cmp m a b l" "cmp x (m ! k)"
  shows "cmp x (m ! l)"
proof -
  have "\<not> cmp (m ! l) (m ! k)" using assms by (auto simp: first_min_def last_max_def)
  with assms(3) show ?thesis by (rule less_le_trans)
qed

lemma minmax_element_loop_correct:
  assumes "first_min cmp m a (Suc i) mn" "last_max cmp m a (Suc i) mx" "i < b" "b \<le> length m"
  shows "\<exists>r s. minmax_element_loop m cmp id i b mn mx = Some (r, s) \<and>
           first_min cmp m a b r \<and> last_max cmp m a b s"
  using assms
proof (induction "b - i" arbitrary: i mn mx rule: less_induct)
  case less
  note unfold = minmax_element_loop.simps [of _ _ _ i]
  have k: "mn < length m" "mx < length m" "i < length m"
    using less.prems by (auto simp: first_min_def last_max_def)
  note min_max = new_min_below_max [OF less.prems(1,2)]
  consider "Suc i = b" | "Suc (Suc i) = b" | "Suc (Suc i) < b" using less.prems(3) by linarith
  then show ?case
  proof cases
    case 1
    with less.prems show ?thesis by (auto simp: unfold)
  next
    case 2
    with less.prems k show ?thesis
      by (auto simp: unfold mem_simps minmax_less_func_def dest: min_max
          intro: first_min_step first_min_skip last_max_step last_max_skip)
  next
    case 3
    let ?j = "Suc (Suc i)"
    have IH: "\<And>mn mx. first_min cmp m a (Suc ?j) mn \<Longrightarrow> last_max cmp m a (Suc ?j) mx \<Longrightarrow>
        \<exists>r s. minmax_element_loop m cmp id ?j b mn mx = Some (r, s) \<and>
          first_min cmp m a b r \<and> last_max cmp m a b s"
      using less.hyps [of ?j] 3 less.prems by simp
    have eq: "minmax_element_loop m cmp id i b mn mx =
       (if cmp (m ! ?j) (m ! Suc i) then
          minmax_element_loop m cmp id ?j b (if cmp (m ! ?j) (m ! mn) then ?j else mn)
            (if \<not> cmp (m ! Suc i) (m ! mx) then Suc i else mx)
        else
          minmax_element_loop m cmp id ?j b (if cmp (m ! Suc i) (m ! mn) then Suc i else mn)
            (if \<not> cmp (m ! ?j) (m ! mx) then ?j else mx))"
      using 3 less.prems k by (simp add: unfold mem_simps minmax_less_func_def)
    show ?thesis
    proof (cases "cmp (m ! ?j) (m ! Suc i)")
      case True
      then show ?thesis unfolding eq
        using IH [OF first_min_pair_lt [OF less.prems(1)] last_max_pair_lt [OF less.prems(2)]]
        by (simp only: if_True)
    next
      case False
      then show ?thesis unfolding eq
        using IH [OF first_min_pair_ge [OF less.prems(1)] last_max_pair_ge [OF less.prems(2)]]
        by (simp only: if_False not_False_eq_True)
    qed
  qed
qed

lemma sorted_by_seg_extend:
  assumes "sorted_by cmp (seg m a (Suc i))" "\<not> cmp (m ! Suc i) (m ! i)" "a \<le> i" "Suc i < length m"
  shows "sorted_by cmp (seg m a (Suc (Suc i)))"
  using assms by (auto simp: seg_snoc) (blast dest: neg_trans)

lemma is_sorted_until_loop_correct:
  assumes "sorted_by cmp (seg m a (Suc i))" "a \<le> i" "i < b" "b \<le> length m"
  shows "\<exists>r. is_sorted_until_loop m cmp i b i = Some r \<and> a < r \<and> r \<le> b \<and>
           sorted_by cmp (seg m a r) \<and> (r < b \<longrightarrow> cmp (m ! r) (m ! (r - 1)))"
  using assms
proof (induction "b - i" arbitrary: i)
  case (Suc n)
  show ?case
  proof (cases "Suc i = b \<or> cmp (m ! Suc i) (m ! i)")
    case True
    with Suc.prems show ?thesis
      by (auto simp: is_sorted_until_loop.simps [of _ _ _ _ i] mem_simps)
  next
    case False
    with Suc.prems have "sorted_by cmp (seg m a (Suc (Suc i)))"
      by (intro sorted_by_seg_extend) auto
    with Suc.hyps(1) [of "Suc i"] Suc.hyps(2) Suc.prems False show ?thesis
      by (auto simp: is_sorted_until_loop.simps [of _ _ _ _ i] mem_simps)
  qed
qed simp

lemma min_element_swo:
  assumes "a < b" "b \<le> length m"
  shows "\<exists>r. min_element m a b cmp = Some r \<and> first_min cmp m a b r"
  using min_element_loop_correct [of m a a a b] assms
  by (simp add: min_element_def min_element_impl_def min_element_proj_def first_min_def irrefl)

lemma minmax_element_swo:
  assumes "a < b" "b \<le> length m"
  shows "\<exists>r s. minmax_element m a b cmp = Some (r, s) \<and> first_min cmp m a b r \<and> last_max cmp m a b s"
proof (cases "Suc a = b")
  case True
  then have "first_min cmp m a b a" "last_max cmp m a b a"
    by (auto simp: first_min_def last_max_def less_Suc_eq irrefl)
  with True show ?thesis by (auto simp: minmax_element_def minmax_element_impl_def)
next
  case False
  have base: "first_min cmp m a (Suc a) a" "last_max cmp m a (Suc a) a"
    by (auto simp: first_min_def last_max_def irrefl)
  have "cmp (m ! Suc a) (m ! a) \<Longrightarrow>
      first_min cmp m a (Suc (Suc a)) (Suc a) \<and> last_max cmp m a (Suc (Suc a)) a"
    using base by (auto intro: first_min_step last_max_skip)
  moreover have "\<not> cmp (m ! Suc a) (m ! a) \<Longrightarrow>
      first_min cmp m a (Suc (Suc a)) a \<and> last_max cmp m a (Suc (Suc a)) (Suc a)"
    using base by (auto intro: first_min_skip last_max_step)
  ultimately show ?thesis
    using False assms minmax_element_loop_correct [of m a "Suc a" _ _ b]
    by (auto simp: minmax_element_def minmax_element_impl_def minmax_less_func_def mem_simps)
qed

lemma is_sorted_until_swo:
  assumes "a < b" "b \<le> length m"
  shows "\<exists>r. is_sorted_until m a b cmp = Some r \<and> a < r \<and> r \<le> b \<and>
           sorted_by cmp (seg m a r) \<and> (r < b \<longrightarrow> cmp (m ! r) (m ! (r - 1)))"
  using is_sorted_until_loop_correct [of m a a b] assms
  by (simp add: is_sorted_until_def is_sorted_until_impl_def seg_Cons)

lemma is_sorted_swo:
  assumes "a \<le> b" "b \<le> length m"
  shows "is_sorted m a b cmp = Some (sorted_by cmp (seg m a b))"
proof (cases "a = b")
  case True
  then show ?thesis by (simp add: is_sorted_def is_sorted_until_impl_def)
next
  case False
  with assms obtain r where r: "is_sorted_until m a b cmp = Some r" "a < r" "r \<le> b"
      "sorted_by cmp (seg m a r)" "r < b \<longrightarrow> cmp (m ! r) (m ! (r - 1))"
    using is_sorted_until_swo [of a b m] by auto
  have "r = b" if "sorted_by cmp (seg m a b)"
  proof (rule ccontr)
    assume "r \<noteq> b"
    with r have "r < b" by simp
    with that r assms have "\<not> cmp (m ! r) (m ! (r - 1))"
      by (simp add: sorted_by_seg_iff less_imp_diff_less)
    with r \<open>r < b\<close> show False by simp
  qed
  with r show ?thesis by (auto simp: is_sorted_def is_sorted_until_def)
qed

end

lemma max_element_loop_inverse:
  "max_element_loop m cmp first last' i = min_element_loop m (\<lambda>x y. cmp y x) id first last' i"
proof (induction m cmp first last' i rule: max_element_loop.induct)
  case (1 m cmp first last' i)
  show ?case
  proof (cases "Suc i \<noteq> last' \<and> Suc i < length m \<and> first < length m")
    case True
    with 1 show ?thesis
      by (simp add: max_element_loop.simps [of _ _ _ _ i] min_element_loop.simps [of _ _ _ _ _ i]
          mem_simps)
  next
    case False
    then show ?thesis
      by (auto simp: max_element_loop.simps [of _ _ _ _ i] min_element_loop.simps [of _ _ _ _ _ i]
          rd_def Let_def)
  qed
qed

lemma max_element_inverse: "max_element m a b cmp = min_element m a b (\<lambda>x y. cmp y x)"
  by (simp add: max_element_def max_element_impl_def min_element_def min_element_impl_def
      min_element_proj_def max_element_loop_inverse)

lemma max_element_swo:
  assumes "strict_weak_order cmp" "a < b" "b \<le> length m"
  shows "\<exists>r. max_element m a b cmp = Some r \<and> first_max cmp m a b r"
  using strict_weak_order.min_element_swo
    [OF strict_weak_order.strict_weak_order_inverse [OF assms(1)] assms(2,3)]
  by (simp add: max_element_inverse first_max_inverse)

lemma lexicographical_compare_correct:
  assumes "f1 \<le> l1" "l1 \<le> length m1" "f2 \<le> l2" "l2 \<le> length m2"
  shows "lexicographical_compare m1 f1 l1 m2 f2 l2 cmp =
           Some (ord.lexordp cmp (seg m1 f1 l1) (seg m2 f2 l2))"
  using assms unfolding lexicographical_compare_def
proof (induction "l1 - f1" arbitrary: f1 f2)
  case 0
  then show ?case
    by (auto simp: lexicographical_compare_impl.simps [of _ f1] seg_Cons ord.lexordp_simps)
next
  case (Suc n)
  then show ?case
    by (auto simp: lexicographical_compare_impl.simps [of _ f1] seg_Cons ord.lexordp_simps mem_simps)
qed

section \<open>Properties\<close>

text \<open>
  On a non-empty range and for every strict weak order, the pairwise \<^verbatim>\<open>minmax_element\<close>
  stays inside the range and returns the first smallest and the last largest element.
\<close>

theorem minmax_element_correct:
  assumes "strict_weak_order cmp" "a < b" "b \<le> length m"
  shows "\<exists>r s. minmax_element m a b cmp = Some (r, s) \<and>
           first_min cmp m a b r \<and> last_max cmp m a b s"
  using assms by (rule strict_weak_order.minmax_element_swo)

theorem minmax_element_correct_witness:
  "\<exists>r s. minmax_element [9, 3, 5, 1, 7, 1, 7, 0 :: int] 1 7 less_op = Some (r, s) \<and>
     first_min less_op [9, 3, 5, 1, 7, 1, 7, 0 :: int] 1 7 r \<and>
     last_max less_op [9, 3, 5, 1, 7, 1, 7, 0 :: int] 1 7 s"
  by (rule minmax_element_correct [OF less.strict_weak_order_axioms]) simp_all

text \<open>
  \<^verbatim>\<open>is_sorted\<close>, which compares neighbours only, decides whether the whole range is sorted
  by a strict weak order, without leaving the range.
\<close>

theorem is_sorted_correct:
  assumes "strict_weak_order cmp" "a \<le> b" "b \<le> length m"
  shows "is_sorted m a b cmp = Some (sorted_by cmp (seg m a b))"
  using assms by (rule strict_weak_order.is_sorted_swo)

theorem is_sorted_correct_witness:
  "is_sorted [4, 1, 2, 2, 0 :: int] 1 4 less_op = Some True"
  using is_sorted_correct [OF less.strict_weak_order_axioms, of 1 4 "[4, 1, 2, 2, 0 :: int]"]
  by (simp add: seg_def less_op_def)

end
