(* ===== verification/Binary_Search.thy ===== *)
theory Binary_Search
  imports Comparators
begin

text \<open>
  Bisection: \<^verbatim>\<open>half_positive.h\<close>, \<^verbatim>\<open>partition_point.h\<close>, \<^verbatim>\<open>lower_bound.h\<close>, \<^verbatim>\<open>upper_bound.h\<close>,
  \<^verbatim>\<open>equal_range.h\<close> and \<^verbatim>\<open>binary_search.h\<close> of \<^verbatim>\<open>cuda/std/__algorithm\<close>.  Each loop is a
  recursive function on the remaining length, which halves.  All bounds are computed as the length
  of the longest prefix of the range on which a predicate holds; the comparator of the bounds may
  take its two arguments from different types, and the range is only required to be partitioned.
\<close>

section \<open>Definitions\<close>

text \<open>The overload for integral types divides as an unsigned value; the generic one divides.\<close>

definition half_positive :: "nat \<Rightarrow> nat" where
  "half_positive val = val div 2"

function partition_point_loop :: "'a mem \<Rightarrow> ('a \<Rightarrow> bool) \<Rightarrow> iter \<Rightarrow> nat \<Rightarrow> iter option" where
  "partition_point_loop m pred first len =
     (if len \<noteq> 0 then
        let l2 = half_positive len; mid = first + l2 in do {
          x \<leftarrow> rd m mid;
          if pred x then partition_point_loop m pred (Suc mid) (len - (l2 + 1))
          else partition_point_loop m pred first l2
        }
      else Some first)"
  by pat_completeness auto
termination
  by (relation "measure (\<lambda>(m, pred, first, len). len)") (auto simp: half_positive_def)

definition partition_point :: "'a mem \<Rightarrow> iter \<Rightarrow> iter \<Rightarrow> ('a \<Rightarrow> bool) \<Rightarrow> iter option" where
  "partition_point m first last' pred = partition_point_loop m pred first (last' - first)"

function lower_bound_loop ::
    "'a mem \<Rightarrow> 'v \<Rightarrow> ('p \<Rightarrow> 'v \<Rightarrow> bool) \<Rightarrow> ('a \<Rightarrow> 'p) \<Rightarrow> iter \<Rightarrow> nat \<Rightarrow> iter option" where
  "lower_bound_loop m val cmp proj first len =
     (if len \<noteq> 0 then
        let l2 = half_positive len; mid = first + l2 in do {
          x \<leftarrow> rd m mid;
          if cmp (proj x) val then lower_bound_loop m val cmp proj (Suc mid) (len - (l2 + 1))
          else lower_bound_loop m val cmp proj first l2
        }
      else Some first)"
  by pat_completeness auto
termination
  by (relation "measure (\<lambda>(m, val, cmp, proj, first, len). len)") (auto simp: half_positive_def)

definition lower_bound_impl ::
    "'a mem \<Rightarrow> iter \<Rightarrow> iter \<Rightarrow> 'v \<Rightarrow> ('p \<Rightarrow> 'v \<Rightarrow> bool) \<Rightarrow> ('a \<Rightarrow> 'p) \<Rightarrow> iter option" where
  "lower_bound_impl m first last' val cmp proj =
     lower_bound_loop m val cmp proj first (last' - first)"

definition lower_bound ::
    "'a mem \<Rightarrow> iter \<Rightarrow> iter \<Rightarrow> 'v \<Rightarrow> ('a \<Rightarrow> 'v \<Rightarrow> bool) \<Rightarrow> iter option" where
  "lower_bound m first last' val cmp = lower_bound_impl m first last' val cmp id"

definition lower_bound_less :: "'a::linorder mem \<Rightarrow> iter \<Rightarrow> iter \<Rightarrow> 'a \<Rightarrow> iter option" where
  "lower_bound_less m first last' val = lower_bound m first last' val less_op"

function upper_bound_loop ::
    "'a mem \<Rightarrow> 'v \<Rightarrow> ('v \<Rightarrow> 'p \<Rightarrow> bool) \<Rightarrow> ('a \<Rightarrow> 'p) \<Rightarrow> iter \<Rightarrow> nat \<Rightarrow> iter option" where
  "upper_bound_loop m val cmp proj first len =
     (if len \<noteq> 0 then
        let half_len = half_positive len; mid = first + half_len in do {
          x \<leftarrow> rd m mid;
          if cmp val (proj x) then upper_bound_loop m val cmp proj first half_len
          else upper_bound_loop m val cmp proj (Suc mid) (len - (half_len + 1))
        }
      else Some first)"
  by pat_completeness auto
termination
  by (relation "measure (\<lambda>(m, val, cmp, proj, first, len). len)") (auto simp: half_positive_def)

definition upper_bound_impl ::
    "'a mem \<Rightarrow> iter \<Rightarrow> iter \<Rightarrow> 'v \<Rightarrow> ('v \<Rightarrow> 'p \<Rightarrow> bool) \<Rightarrow> ('a \<Rightarrow> 'p) \<Rightarrow> iter option" where
  "upper_bound_impl m first last' val cmp proj =
     upper_bound_loop m val cmp proj first (last' - first)"

definition upper_bound ::
    "'a mem \<Rightarrow> iter \<Rightarrow> iter \<Rightarrow> 'v \<Rightarrow> ('v \<Rightarrow> 'a \<Rightarrow> bool) \<Rightarrow> iter option" where
  "upper_bound m first last' val cmp = upper_bound_impl m first last' val cmp id"

definition upper_bound_less :: "'a::linorder mem \<Rightarrow> iter \<Rightarrow> iter \<Rightarrow> 'a \<Rightarrow> iter option" where
  "upper_bound_less m first last' val = upper_bound m first last' val less_op"

text \<open>
  \<^verbatim>\<open>__equal_range\<close> narrows \<open>[first, first + len)\<close> until it meets an equivalent element, then
  bisects the two sides of it.
\<close>

function equal_range_loop ::
    "'a mem \<Rightarrow> 'p \<Rightarrow> ('p \<Rightarrow> 'p \<Rightarrow> bool) \<Rightarrow> ('a \<Rightarrow> 'p) \<Rightarrow> iter \<Rightarrow> iter \<Rightarrow> nat \<Rightarrow> (iter \<times> iter) option" where
  "equal_range_loop m val cmp proj first end' len =
     (if len \<noteq> 0 then
        let half_len = half_positive len; mid = first + half_len in do {
          x \<leftarrow> rd m mid;
          if cmp (proj x) val then
            equal_range_loop m val cmp proj (Suc mid) end' (len - (half_len + 1))
          else if cmp val (proj x) then
            equal_range_loop m val cmp proj first mid half_len
          else do {
            lb \<leftarrow> lower_bound_impl m first mid val cmp proj;
            ub \<leftarrow> upper_bound_impl m (Suc mid) end' val cmp proj;
            Some (lb, ub)
          }
        }
      else Some (first, first))"
  by pat_completeness auto
termination
  by (relation "measure (\<lambda>(m, val, cmp, proj, first, end', len). len)") (auto simp: half_positive_def)

definition equal_range_impl ::
    "'a mem \<Rightarrow> iter \<Rightarrow> iter \<Rightarrow> 'p \<Rightarrow> ('p \<Rightarrow> 'p \<Rightarrow> bool) \<Rightarrow> ('a \<Rightarrow> 'p) \<Rightarrow> (iter \<times> iter) option" where
  "equal_range_impl m first last' val cmp proj =
     equal_range_loop m val cmp proj first last' (last' - first)"

definition equal_range ::
    "'a mem \<Rightarrow> iter \<Rightarrow> iter \<Rightarrow> 'a \<Rightarrow> ('a \<Rightarrow> 'a \<Rightarrow> bool) \<Rightarrow> (iter \<times> iter) option" where
  "equal_range m first last' val cmp = equal_range_impl m first last' val cmp id"

definition equal_range_less ::
    "'a::linorder mem \<Rightarrow> iter \<Rightarrow> iter \<Rightarrow> 'a \<Rightarrow> (iter \<times> iter) option" where
  "equal_range_less m first last' val = equal_range m first last' val less_op"

definition binary_search ::
    "'a mem \<Rightarrow> iter \<Rightarrow> iter \<Rightarrow> 'a \<Rightarrow> ('a \<Rightarrow> 'a \<Rightarrow> bool) \<Rightarrow> bool option" where
  "binary_search m first last' val cmp = do {
     first \<leftarrow> lower_bound m first last' val cmp;
     if first \<noteq> last' then do { x \<leftarrow> rd m first; Some (\<not> cmp val x) } else Some False
   }"

definition binary_search_less :: "'a::linorder mem \<Rightarrow> iter \<Rightarrow> iter \<Rightarrow> 'a \<Rightarrow> bool option" where
  "binary_search_less m first last' val = binary_search m first last' val less_op"

declare partition_point_loop.simps [simp del] lower_bound_loop.simps [simp del]
  upper_bound_loop.simps [simp del] equal_range_loop.simps [simp del]

section \<open>Bisection of a partitioned range\<close>

definition prefix_end :: "'a mem \<Rightarrow> iter \<Rightarrow> iter \<Rightarrow> ('a \<Rightarrow> bool) \<Rightarrow> iter" where
  "prefix_end m a b pred = a + length (takeWhile pred (seg m a b))"

definition partitioned_by :: "('a \<Rightarrow> bool) \<Rightarrow> 'a list \<Rightarrow> bool" where
  "partitioned_by pred xs \<longleftrightarrow> sorted_wrt (\<lambda>x y. pred y \<longrightarrow> pred x) xs"

lemma partitioned_by_seg_iff:
  "b \<le> length m \<Longrightarrow> partitioned_by pred (seg m a b) \<longleftrightarrow>
     (\<forall>i j. a \<le> i \<and> i < j \<and> j < b \<longrightarrow> pred (m ! j) \<longrightarrow> pred (m ! i))"
  using sorted_by_seg_iff [of b m "\<lambda>x y. pred x \<and> \<not> pred y" a]
  by (simp add: partitioned_by_def sorted_by_def)

lemma prefix_end_from:
  assumes "a \<le> k" "k \<le> b" "b \<le> length m" "\<And>i. a \<le> i \<Longrightarrow> i < k \<Longrightarrow> pred (m ! i)"
  shows "prefix_end m a b pred = prefix_end m k b pred"
proof -
  have "\<forall>x \<in> set (seg m a k). pred x" using assms by (auto simp: in_set_seg)
  with assms seg_append [of a k b m] show ?thesis
    by (simp add: prefix_end_def takeWhile_append2)
qed

lemma prefix_end_upto:
  assumes "a \<le> k" "k < b" "b \<le> length m" "\<not> pred (m ! k)"
  shows "prefix_end m a b pred = prefix_end m a k pred"
  using assms seg_append [of a k b m] by (simp add: prefix_end_def seg_Cons takeWhile_tail)

lemma prefix_end_bounds:
  assumes "a \<le> b" "b \<le> length m"
  shows "a \<le> prefix_end m a b pred" "prefix_end m a b pred \<le> b"
  using assms length_takeWhile_le [of pred "seg m a b"] by (simp_all add: prefix_end_def)

lemma prefix_end_in:
  assumes "a \<le> i" "i < prefix_end m a b pred" "b \<le> length m"
  shows "pred (m ! i)"
proof -
  have "i - a < length (takeWhile pred (seg m a b))" using assms by (simp add: prefix_end_def)
  then have "pred (seg m a b ! (i - a))" "i - a < length (seg m a b)"
    using length_takeWhile_le [of pred "seg m a b"] nth_mem set_takeWhileD takeWhile_nth
    by (metis, linarith)
  with assms show ?thesis by simp
qed

lemma prefix_end_out:
  assumes "prefix_end m a b pred < b" "a \<le> b" "b \<le> length m"
  shows "\<not> pred (m ! prefix_end m a b pred)"
  using assms nth_length_takeWhile [of pred "seg m a b"] by (simp add: prefix_end_def)

lemma prefix_end_spec:
  assumes "a \<le> b" "b \<le> length m" "partitioned_by pred (seg m a b)"
  shows "\<forall>x \<in> set (seg m a (prefix_end m a b pred)). pred x"
    and "\<forall>x \<in> set (seg m (prefix_end m a b pred) b). \<not> pred x"
proof -
  let ?k = "prefix_end m a b pred"
  note k = prefix_end_bounds [OF assms(1,2), of pred]
  show "\<forall>x \<in> set (seg m a ?k). pred x"
    using k assms prefix_end_in [of a _ m b pred] by (auto simp: in_set_seg)
  show "\<forall>x \<in> set (seg m ?k b). \<not> pred x"
  proof (clarsimp simp: in_set_seg assms)
    fix i assume i: "?k \<le> i" "i < b" "pred (m ! i)"
    have "pred (m ! ?k)"
    proof (cases "i = ?k")
      case False
      with i have "?k < i" by simp
      with i k assms show ?thesis by (auto simp: partitioned_by_seg_iff)
    qed (use i in simp)
    with prefix_end_out [of m a b pred] i assms show False by simp
  qed
qed

lemma partition_point_loop_correct:
  assumes "first + len \<le> length m"
    and "\<And>i j. first \<le> i \<Longrightarrow> i < j \<Longrightarrow> j < first + len \<Longrightarrow> pred (m ! j) \<Longrightarrow> pred (m ! i)"
  shows "partition_point_loop m pred first len = Some (prefix_end m first (first + len) pred)"
  using assms
proof (induction m pred first len rule: partition_point_loop.induct)
  case (1 m pred first len)
  let ?l = "half_positive len" let ?mid = "first + ?l"
  note unfold = partition_point_loop.simps [of m pred first len]
  show ?case
  proof (cases "len = 0")
    case True
    then show ?thesis by (simp add: partition_point_loop.simps [of m pred first 0] prefix_end_def)
  next
    case False
    then have l: "?l < len" by (simp add: half_positive_def)
    show ?thesis
    proof (cases "pred (m ! ?mid)")
      case True
      have "pred (m ! i)" if "first \<le> i" "i < Suc ?mid" for i
        using 1(4) [of i ?mid] that l True by (cases "i = ?mid") auto
      then have "prefix_end m first (first + len) pred = prefix_end m (Suc ?mid) (first + len) pred"
        using l 1(3) by (intro prefix_end_from) auto
      moreover have "partition_point_loop m pred (Suc ?mid) (len - (?l + 1)) =
          Some (prefix_end m (Suc ?mid) (Suc ?mid + (len - (?l + 1))) pred)"
        using False l True 1(3,4) by (intro 1(1)) auto
      ultimately show ?thesis using False l True 1(3) by (simp add: unfold mem_simps Let_def)
    next
      case mid: False
      have "partition_point_loop m pred first ?l = Some (prefix_end m first ?mid pred)"
        using False l mid 1(3,4) by (intro 1(2)) auto
      with mid False l 1(3) show ?thesis
        by (simp add: unfold mem_simps Let_def prefix_end_upto [of first ?mid "first + len"])
    qed
  qed
qed

text \<open>The loops of the two bounds are the same bisection under their own predicate.\<close>

lemma lower_bound_loop_eq:
  "lower_bound_loop m val cmp proj first len =
     partition_point_loop m (\<lambda>x. cmp (proj x) val) first len"
proof (induction m val cmp proj first len rule: lower_bound_loop.induct)
  case (1 m val cmp proj first len)
  then show ?case
    by (simp add: lower_bound_loop.simps [of m val cmp proj first len]
        partition_point_loop.simps [of m _ first len] Let_def rd_def)
qed

lemma upper_bound_loop_eq:
  "upper_bound_loop m val cmp proj first len =
     partition_point_loop m (\<lambda>x. \<not> cmp val (proj x)) first len"
proof (induction m val cmp proj first len rule: upper_bound_loop.induct)
  case (1 m val cmp proj first len)
  then show ?case
    by (simp add: upper_bound_loop.simps [of m val cmp proj first len]
        partition_point_loop.simps [of m _ first len] Let_def rd_def)
qed

lemma partition_point_eq:
  assumes "a \<le> b" "b \<le> length m" "partitioned_by pred (seg m a b)"
  shows "partition_point m a b pred = Some (prefix_end m a b pred)"
  using assms partition_point_loop_correct [of a "b - a" m pred]
  by (simp add: partition_point_def partitioned_by_seg_iff)

lemma lower_bound_impl_eq:
  assumes "a \<le> b" "b \<le> length m" "partitioned_by (\<lambda>x. cmp (proj x) val) (seg m a b)"
  shows "lower_bound_impl m a b val cmp proj = Some (prefix_end m a b (\<lambda>x. cmp (proj x) val))"
  using partition_point_eq [OF assms]
  by (simp add: lower_bound_impl_def lower_bound_loop_eq partition_point_def)

lemma upper_bound_impl_eq:
  assumes "a \<le> b" "b \<le> length m" "partitioned_by (\<lambda>x. \<not> cmp val (proj x)) (seg m a b)"
  shows "upper_bound_impl m a b val cmp proj = Some (prefix_end m a b (\<lambda>x. \<not> cmp val (proj x)))"
  using partition_point_eq [OF assms]
  by (simp add: upper_bound_impl_def upper_bound_loop_eq partition_point_def)

section \<open>Strict weak orders: bounds, equal range, search\<close>

context strict_weak_order
begin

lemma sorted_partitioned_lower:
  "sorted_by cmp xs \<Longrightarrow> partitioned_by (\<lambda>x. cmp x v) xs"
  unfolding sorted_by_def partitioned_by_def
  by (erule sorted_wrt_mono_rel [rotated]) (blast intro: le_less_trans)

lemma sorted_partitioned_upper:
  "sorted_by cmp xs \<Longrightarrow> partitioned_by (\<lambda>x. \<not> cmp v x) xs"
  unfolding sorted_by_def partitioned_by_def
  by (erule sorted_wrt_mono_rel [rotated]) (blast intro: less_le_trans)

lemma lower_bound_swo:
  assumes "a \<le> b" "b \<le> length m" "sorted_by cmp (seg m a b)"
  shows "lower_bound m a b v cmp = Some (prefix_end m a b (\<lambda>x. cmp x v))"
  using lower_bound_impl_eq [OF assms(1,2), of cmp id v] sorted_partitioned_lower [OF assms(3)]
  by (simp add: lower_bound_def)

lemma upper_bound_swo:
  assumes "a \<le> b" "b \<le> length m" "sorted_by cmp (seg m a b)"
  shows "upper_bound m a b v cmp = Some (prefix_end m a b (\<lambda>x. \<not> cmp v x))"
  using upper_bound_impl_eq [OF assms(1,2), of cmp v id] sorted_partitioned_upper [OF assms(3)]
  by (simp add: upper_bound_def)

lemma equal_range_loop_swo:
  assumes "f + len = e" "e \<le> length m" "sorted_by cmp (seg m f e)"
  shows "equal_range_loop m v cmp id f e len =
           Some (prefix_end m f e (\<lambda>x. cmp x v), prefix_end m f e (\<lambda>x. \<not> cmp v x))"
  using assms
proof (induction len arbitrary: f e rule: less_induct)
  case (less len)
  let ?l = "half_positive len" let ?mid = "f + ?l"
  let ?P = "\<lambda>x. cmp x v" let ?Q = "\<lambda>x. \<not> cmp v x"
  note unfold = equal_range_loop.simps [of m v cmp _ f e len]
  have srt: "\<not> cmp (m ! ?mid) (m ! i)" if "f \<le> i" "i \<le> ?mid" "?mid < e" for i
    using that less.prems irrefl by (cases "i = ?mid") (simp_all add: sorted_by_seg_iff)
  show ?case
  proof (cases "len = 0")
    case True
    with less.prems show ?thesis
      by (simp add: equal_range_loop.simps [of m v cmp _ _ _ 0] prefix_end_def)
  next
    case False
    then have l: "?l < len" by (simp add: half_positive_def)
    then have mid: "?mid < e" "?mid < length m" using less.prems by simp_all
    have sub: "sorted_by cmp (seg m a b)" if "f \<le> a" "b \<le> e" for a b
      using sorted_by_sub_seg [OF less.prems(3)] that less.prems by blast
    consider "?P (m ! ?mid)" | "cmp v (m ! ?mid)" "\<not> ?P (m ! ?mid)"
      | "\<not> ?P (m ! ?mid)" "?Q (m ! ?mid)" by blast
    then show ?thesis
    proof cases
      case 1
      have P: "?P (m ! i)" if "f \<le> i" "i < Suc ?mid" for i
        using le_less_trans [OF srt [of i] 1] that mid by simp
      then have Q: "?Q (m ! i)" if "f \<le> i" "i < Suc ?mid" for i using that asym by blast
      have "prefix_end m f e ?P = prefix_end m (Suc ?mid) e ?P"
        "prefix_end m f e ?Q = prefix_end m (Suc ?mid) e ?Q"
        using P Q mid less.prems by (intro prefix_end_from; simp)+
      with 1 False l mid less.prems(1,2) less.IH [of "len - (?l + 1)" "Suc ?mid" e] sub [of "Suc ?mid" e]
      show ?thesis by (simp add: unfold mem_simps Let_def)
    next
      case 2
      then have "prefix_end m f e ?P = prefix_end m f ?mid ?P"
        "prefix_end m f e ?Q = prefix_end m f ?mid ?Q"
        using mid less.prems by (simp_all add: prefix_end_upto)
      with 2 False l mid less.prems(1,2) less.IH [of ?l f ?mid] sub [of f ?mid]
      show ?thesis by (simp add: unfold mem_simps Let_def)
    next
      case 3
      have "?Q (m ! i)" if "f \<le> i" "i < Suc ?mid" for i
        using neg_trans [OF 3(2) srt [of i]] that mid by simp
      then have "prefix_end m f e ?Q = prefix_end m (Suc ?mid) e ?Q"
        using mid less.prems by (intro prefix_end_from) simp_all
      moreover have "prefix_end m f e ?P = prefix_end m f ?mid ?P"
        using 3 mid less.prems by (simp add: prefix_end_upto)
      ultimately show ?thesis
        using 3 False l mid less.prems(1,2) lower_bound_swo [of f ?mid m v, OF _ _ sub]
          upper_bound_swo [of "Suc ?mid" e m v, OF _ _ sub]
        by (simp add: unfold mem_simps Let_def lower_bound_def upper_bound_def id_def)
    qed
  qed
qed

lemma equal_range_swo:
  assumes "a \<le> b" "b \<le> length m" "sorted_by cmp (seg m a b)"
  shows "equal_range m a b v cmp =
           Some (prefix_end m a b (\<lambda>x. cmp x v), prefix_end m a b (\<lambda>x. \<not> cmp v x))"
  using equal_range_loop_swo [of a "b - a" b m v] assms
  by (simp add: equal_range_def equal_range_impl_def)

lemma bounds_ordered:
  assumes "a \<le> b" "b \<le> length m"
  shows "prefix_end m a b (\<lambda>x. cmp x v) \<le> prefix_end m a b (\<lambda>x. \<not> cmp v x)" (is "?i \<le> ?j")
proof (rule ccontr)
  assume "\<not> ?i \<le> ?j"
  with prefix_end_bounds [OF assms] have "a \<le> ?j" "?j < ?i" "?j < b" by (simp_all add: not_le order_less_le_trans)
  with assms prefix_end_in [of a ?j m b "\<lambda>x. cmp x v"] prefix_end_out [of m a b "\<lambda>x. \<not> cmp v x"]
  show False using asym by blast
qed

lemma equal_range_spec:
  assumes "a \<le> b" "b \<le> length m" "sorted_by cmp (seg m a b)"
    and "i = prefix_end m a b (\<lambda>x. cmp x v)" "j = prefix_end m a b (\<lambda>x. \<not> cmp v x)"
  shows "a \<le> i \<and> i \<le> j \<and> j \<le> b \<and>
           (\<forall>x \<in> set (seg m a i). cmp x v) \<and> (\<forall>x \<in> set (seg m j b). cmp v x) \<and>
           (\<forall>x \<in> set (seg m i j). \<not> cmp x v \<and> \<not> cmp v x)"
proof -
  note P = prefix_end_spec [OF assms(1,2) sorted_partitioned_lower [OF assms(3)], of v, folded assms(4)]
  note Q = prefix_end_spec [OF assms(1,2) sorted_partitioned_upper [OF assms(3)], of v, folded assms(5)]
  have ij: "a \<le> i" "i \<le> j" "j \<le> b"
    unfolding assms(4,5) using prefix_end_bounds [OF assms(1,2)] bounds_ordered [OF assms(1,2)] by simp_all
  have "set (seg m i j) \<subseteq> set (seg m i b)" "set (seg m i j) \<subseteq> set (seg m a j)"
    using seg_append [of i j b m] seg_append [of a i j m] ij by auto
  with P Q ij show ?thesis by blast
qed

lemma binary_search_swo:
  assumes "a \<le> b" "b \<le> length m" "sorted_by cmp (seg m a b)"
  shows "binary_search m a b v cmp = Some (\<exists>x \<in> set (seg m a b). \<not> cmp x v \<and> \<not> cmp v x)"
proof -
  let ?P = "\<lambda>x. cmp x v" let ?k = "prefix_end m a b ?P"
  note k = prefix_end_bounds [OF assms(1,2), of ?P]
  note lb = lower_bound_swo [OF assms, of v]
  have "(\<exists>x \<in> set (seg m a b). \<not> ?P x \<and> \<not> cmp v x) \<longleftrightarrow> ?k < b \<and> \<not> cmp v (m ! ?k)" (is "?l \<longleftrightarrow> ?r")
  proof
    assume ?l
    then obtain i where i: "a \<le> i" "i < b" "\<not> ?P (m ! i)" "\<not> cmp v (m ! i)"
      using assms by (auto simp: in_set_seg)
    then have "?k \<le> i" using prefix_end_in [of a i m b ?P] assms by force
    moreover from this have "\<not> cmp (m ! i) (m ! ?k)"
      using assms k i by (cases "i = ?k") (auto simp: sorted_by_seg_iff irrefl)
    ultimately show ?r using i neg_trans [OF i(4)] by simp
  next
    assume ?r
    moreover from this have "m ! ?k \<in> set (seg m a b)" using k assms by (auto simp: in_set_seg)
    ultimately show ?l using prefix_end_out [of m a b ?P] assms by blast
  qed
  with k lb assms show ?thesis by (auto simp: binary_search_def mem_simps)
qed

end

section \<open>Properties\<close>

text \<open>
  C28: \<^verbatim>\<open>partition_point\<close> returns the end of the prefix on which the predicate holds, for every
  range partitioned by it.
\<close>

theorem partition_point_correct:
  assumes "a \<le> b" "b \<le> length m" "partitioned_by pred (seg m a b)"
  shows "\<exists>k. partition_point m a b pred = Some k \<and> a \<le> k \<and> k \<le> b \<and>
           (\<forall>x \<in> set (seg m a k). pred x) \<and> (\<forall>x \<in> set (seg m k b). \<not> pred x)"
  using partition_point_eq [OF assms] prefix_end_bounds [OF assms(1,2)] prefix_end_spec [OF assms]
  by blast

theorem partition_point_correct_witness:
  "\<exists>k. partition_point [7, 1, 3, 2, 8, 9 :: int] 1 6 (\<lambda>x. x < 5) = Some k \<and> 1 \<le> k \<and> k \<le> 6 \<and>
     (\<forall>x \<in> set (seg [7, 1, 3, 2, 8, 9 :: int] 1 k). x < 5) \<and>
     (\<forall>x \<in> set (seg [7, 1, 3, 2, 8, 9 :: int] k 6). \<not> x < 5)"
  by (rule partition_point_correct) (simp_all add: seg_def partitioned_by_def)

text \<open>
  On a range sorted by a strict weak order, \<^verbatim>\<open>equal_range\<close> stays inside the range and returns
  exactly the pair of \<^verbatim>\<open>lower_bound\<close> and \<^verbatim>\<open>upper_bound\<close>: the elements before the first bound are
  smaller than the value, those from the second bound on are larger, those between are equivalent.
\<close>

theorem equal_range_correct:
  assumes "strict_weak_order cmp" "a \<le> b" "b \<le> length m" "sorted_by cmp (seg m a b)"
  shows "\<exists>i j. equal_range m a b v cmp = Some (i, j) \<and>
           lower_bound m a b v cmp = Some i \<and> upper_bound m a b v cmp = Some j \<and>
           a \<le> i \<and> i \<le> j \<and> j \<le> b \<and>
           (\<forall>x \<in> set (seg m a i). cmp x v) \<and> (\<forall>x \<in> set (seg m j b). cmp v x) \<and>
           (\<forall>x \<in> set (seg m i j). \<not> cmp x v \<and> \<not> cmp v x)"
  using strict_weak_order.equal_range_swo [OF assms] strict_weak_order.lower_bound_swo [OF assms]
    strict_weak_order.upper_bound_swo [OF assms] strict_weak_order.equal_range_spec [OF assms refl refl]
  by blast

theorem equal_range_correct_witness:
  "\<exists>i j. equal_range [9, 1, 3, 3, 8 :: int] 1 5 3 less_op = Some (i, j) \<and>
     lower_bound [9, 1, 3, 3, 8 :: int] 1 5 3 less_op = Some i \<and>
     upper_bound [9, 1, 3, 3, 8 :: int] 1 5 3 less_op = Some j \<and> 1 \<le> i \<and> i \<le> j \<and> j \<le> 5 \<and>
     (\<forall>x \<in> set (seg [9, 1, 3, 3, 8 :: int] 1 i). less_op x 3) \<and>
     (\<forall>x \<in> set (seg [9, 1, 3, 3, 8 :: int] j 5). less_op 3 x) \<and>
     (\<forall>x \<in> set (seg [9, 1, 3, 3, 8 :: int] i j). \<not> less_op x 3 \<and> \<not> less_op 3 x)"
  by (rule equal_range_correct [OF less.strict_weak_order_axioms]) (simp_all add: seg_def less_op_def)

text \<open>
  On a sorted range \<^verbatim>\<open>binary_search\<close> answers whether an equivalent element exists, without
  reading outside the range.
\<close>

theorem binary_search_correct:
  assumes "strict_weak_order cmp" "a \<le> b" "b \<le> length m" "sorted_by cmp (seg m a b)"
  shows "binary_search m a b v cmp = Some (\<exists>x \<in> set (seg m a b). \<not> cmp x v \<and> \<not> cmp v x)"
  using assms by (rule strict_weak_order.binary_search_swo)

theorem binary_search_correct_witness:
  "binary_search [9, 1, 3, 3, 8 :: int] 1 5 3 less_op = Some True"
  using binary_search_correct [OF less.strict_weak_order_axioms, of 1 5 "[9, 1, 3, 3, 8 :: int]" 3]
  by (simp add: seg_def less_op_def)

end
