(* ===== verification/Sort_Contract.thy ===== *)
theory Sort_Contract
  imports Binary_Search
begin

text \<open>
  The contract of the algorithms that sort a range in place, as a locale: for every strict weak
  order the algorithm succeeds inside its range, permutes it and leaves it sorted.  What a client
  may rely on afterwards (the sortedness test and the searches) is proved once here; each sorting
  component shows that it meets the contract.
\<close>

locale range_sorter = strict_weak_order cmp for cmp :: "'a \<Rightarrow> 'a \<Rightarrow> bool" +
  fixes sort_range :: "'a mem \<Rightarrow> iter \<Rightarrow> iter \<Rightarrow> 'a mem option"
  assumes sorts: "a \<le> b \<Longrightarrow> b \<le> length m \<Longrightarrow>
    \<exists>m'. sort_range m a b = Some m' \<and> permuted m m' a b \<and> sorted_by cmp (seg m' a b)"
begin

lemma is_sorted_after_sort:
  assumes "a \<le> b" "b \<le> length m"
  shows "do { m' \<leftarrow> sort_range m a b; is_sorted m' a b cmp } = Some True"
  using sorts [OF assms] assms by (auto simp: is_sorted_swo permuted_length)

lemma binary_search_after_sort:
  assumes "a \<le> b" "b \<le> length m"
  shows "do { m' \<leftarrow> sort_range m a b; binary_search m' a b v cmp } =
           Some (\<exists>x \<in> set (seg m a b). \<not> cmp x v \<and> \<not> cmp v x)"
proof -
  obtain m' where m': "sort_range m a b = Some m'" "permuted m m' a b" "sorted_by cmp (seg m' a b)"
    using sorts [OF assms] by blast
  then show ?thesis
    using binary_search_swo [of a b m'] permuted_set_seg [OF m'(2) assms(1)] permuted_length [OF m'(2)] assms
    by simp
qed

lemma sort_outside_unchanged:
  assumes "a \<le> b" "b \<le> length m" "sort_range m a b = Some m'" "i < a \<or> b \<le> i"
  shows "m' ! i = m ! i"
  using sorts [OF assms(1,2)] assms(3,4) permuted_nth by fastforce

end

text \<open>On a linearly ordered type the sorted permutation of a range is unique.\<close>

lemma sorted_permutation_unique:
  assumes "permuted m m' a b" "a \<le> b" "sorted_by less_op (seg m' a b)"
  shows "m' = put_seg m a b (sort (seg m a b))"
proof -
  have "seg m' a b = sort (seg m a b)"
    using permuted_mset_seg [OF assms(1,2)] assms(3)
    by (metis mset_sort properties_for_sort sorted_by_less)
  then show ?thesis using frame_put_seg [OF assms(2)] assms(1) by (metis permuted_def)
qed

end
