(* ===== verification/Heap_Ops.thy ===== *)
theory Heap_Ops
  imports Sort_Contract
begin

text \<open>
  Binary heaps in a range: \<^verbatim>\<open>push_heap.h\<close>, \<^verbatim>\<open>sift_down.h\<close>, \<^verbatim>\<open>pop_heap.h\<close>,
  \<^verbatim>\<open>make_heap.h\<close>, \<^verbatim>\<open>sort_heap.h\<close>, \<^verbatim>\<open>is_heap_until.h\<close>, \<^verbatim>\<open>is_heap.h\<close>,
  \<^verbatim>\<open>partial_sort.h\<close> and \<^verbatim>\<open>partial_sort_copy.h\<close> of \<^verbatim>\<open>cuda/std/__algorithm\<close>.

  The loops move a hole instead of swapping, as the source does.  Heap order is stated on the
  elements relative to the first iterator; the invariants weaken it at the hole.
\<close>

section \<open>Definitions\<close>

subsection \<open>Sifting up\<close>

text \<open>The body of the \<^verbatim>\<open>do ... while\<close> of \<^verbatim>\<open>__sift_up\<close>, with the hole at \<open>hole\<close>.\<close>

function sift_up_loop ::
    "'a mem \<Rightarrow> ('a \<Rightarrow> 'a \<Rightarrow> bool) \<Rightarrow> iter \<Rightarrow> 'a \<Rightarrow> iter \<Rightarrow> nat \<Rightarrow> iter \<Rightarrow> 'a mem option" where
  "sift_up_loop m cmp first t hole len ptr = do {
     p \<leftarrow> rd m ptr;
     m \<leftarrow> wr m hole p;
     let hole = ptr;
     if len = 0 then wr m hole t
     else do {
       let len = (len - 1) div 2;
       let ptr = first + len;
       q \<leftarrow> rd m ptr;
       if cmp q t then sift_up_loop m cmp first t hole len ptr else wr m hole t
     }
   }"
  by pat_completeness auto
termination
  by (relation "measure (\<lambda>(m, cmp, first, t, hole, len, ptr). len)") auto

definition sift_up :: "'a mem \<Rightarrow> iter \<Rightarrow> iter \<Rightarrow> ('a \<Rightarrow> 'a \<Rightarrow> bool) \<Rightarrow> nat \<Rightarrow> 'a mem option" where
  "sift_up m first last' cmp len =
     (if len > 1 then do {
        let len = (len - 2) div 2;
        let ptr = first + len;
        let last' = last' - 1;
        p \<leftarrow> rd m ptr;
        t \<leftarrow> rd m last';
        if cmp p t then sift_up_loop m cmp first t last' len ptr else Some m
      } else Some m)"

definition push_heap_impl :: "'a mem \<Rightarrow> iter \<Rightarrow> iter \<Rightarrow> ('a \<Rightarrow> 'a \<Rightarrow> bool) \<Rightarrow> 'a mem option" where
  "push_heap_impl m first last' cmp = sift_up m first last' cmp (last' - first)"

definition push_heap :: "'a mem \<Rightarrow> iter \<Rightarrow> iter \<Rightarrow> ('a \<Rightarrow> 'a \<Rightarrow> bool) \<Rightarrow> 'a mem option" where
  "push_heap m first last' cmp = push_heap_impl m first last' cmp"

definition push_heap_less :: "'a::linorder mem \<Rightarrow> iter \<Rightarrow> iter \<Rightarrow> 'a mem option" where
  "push_heap_less m first last' = push_heap m first last' less_op"

subsection \<open>Sifting down\<close>

text \<open>
  The step both sift-downs share: move from the left to the right child when the right one exists
  and is greater.
\<close>

definition larger_child ::
    "'a mem \<Rightarrow> ('a \<Rightarrow> 'a \<Rightarrow> bool) \<Rightarrow> nat \<Rightarrow> nat \<Rightarrow> iter \<Rightarrow> (nat \<times> iter) option" where
  "larger_child m cmp len child child_i =
     (if child + 1 < len then do {
        x \<leftarrow> rd m child_i;
        y \<leftarrow> rd m (child_i + 1);
        Some (if cmp x y then (child + 1, child_i + 1) else (child, child_i))
      } else Some (child, child_i))"

function sift_down_loop ::
    "'a mem \<Rightarrow> iter \<Rightarrow> ('a \<Rightarrow> 'a \<Rightarrow> bool) \<Rightarrow> nat \<Rightarrow> 'a \<Rightarrow> iter \<Rightarrow> nat \<Rightarrow> iter \<Rightarrow> 'a mem option" where
  "sift_down_loop m first cmp len topv start child child_i = do {
     c \<leftarrow> rd m child_i;
     m \<leftarrow> wr m start c;
     let start = child_i;
     if (len - 2) div 2 < child then wr m start topv
     else do {
       let child = 2 * child + 1;
       (child, child_i) \<leftarrow> larger_child m cmp len child (first + child);
       x \<leftarrow> rd m child_i;
       if \<not> cmp x topv then sift_down_loop m first cmp len topv start child child_i
       else wr m start topv
     }
   }"
  by pat_completeness auto
termination
  by (relation "measure (\<lambda>(m, first, cmp, len, topv, start, child, child_i). len + 1 - child)")
    (auto simp: larger_child_def bind_eq_Some_conv split: if_splits)

definition sift_down ::
    "'a mem \<Rightarrow> iter \<Rightarrow> ('a \<Rightarrow> 'a \<Rightarrow> bool) \<Rightarrow> nat \<Rightarrow> iter \<Rightarrow> 'a mem option" where
  "sift_down m first cmp len start =
     (let child = start - first in
      if len < 2 \<or> (len - 2) div 2 < child then Some m
      else do {
        let child = 2 * child + 1;
        (child, child_i) \<leftarrow> larger_child m cmp len child (first + child);
        x \<leftarrow> rd m child_i;
        topv \<leftarrow> rd m start;
        if cmp x topv then Some m
        else sift_down_loop m first cmp len topv start child child_i
      })"

function floyd_sift_down_loop ::
    "'a mem \<Rightarrow> ('a \<Rightarrow> 'a \<Rightarrow> bool) \<Rightarrow> nat \<Rightarrow> iter \<Rightarrow> nat \<Rightarrow> iter \<Rightarrow> ('a mem \<times> iter) option" where
  "floyd_sift_down_loop m cmp len hole child child_i = do {
     (child, child_i) \<leftarrow> larger_child m cmp len (2 * child + 1) (child_i + (child + 1));
     c \<leftarrow> rd m child_i;
     m \<leftarrow> wr m hole c;
     let hole = child_i;
     if child > (len - 2) div 2 then Some (m, hole)
     else floyd_sift_down_loop m cmp len hole child child_i
   }"
  by pat_completeness auto
termination
  by (relation "measure (\<lambda>(m, cmp, len, hole, child, child_i). len + 1 - child)")
    (auto simp: larger_child_def bind_eq_Some_conv split: if_splits)

text \<open>The assertion \<^verbatim>\<open>__len >= 2\<close> is a precondition.\<close>

definition floyd_sift_down ::
    "'a mem \<Rightarrow> iter \<Rightarrow> ('a \<Rightarrow> 'a \<Rightarrow> bool) \<Rightarrow> nat \<Rightarrow> ('a mem \<times> iter) option" where
  "floyd_sift_down m first cmp len =
     (if len < 2 then None else floyd_sift_down_loop m cmp len first 0 first)"

subsection \<open>Removing the largest element\<close>

text \<open>The assertion that the heap is not empty is a precondition.\<close>

definition pop_heap_impl ::
    "'a mem \<Rightarrow> iter \<Rightarrow> iter \<Rightarrow> ('a \<Rightarrow> 'a \<Rightarrow> bool) \<Rightarrow> nat \<Rightarrow> 'a mem option" where
  "pop_heap_impl m first last' cmp len =
     (if len = 0 then None
      else if len > 1 then do {
        topv \<leftarrow> rd m first;
        (m, hole) \<leftarrow> floyd_sift_down m first cmp len;
        let last' = last' - 1;
        if hole = last' then wr m hole topv
        else do {
          x \<leftarrow> rd m last';
          m \<leftarrow> wr m hole x;
          let hole = hole + 1;
          m \<leftarrow> wr m last' topv;
          sift_up m first hole cmp (hole - first)
        }
      } else Some m)"

definition pop_heap :: "'a mem \<Rightarrow> iter \<Rightarrow> iter \<Rightarrow> ('a \<Rightarrow> 'a \<Rightarrow> bool) \<Rightarrow> 'a mem option" where
  "pop_heap m first last' cmp = pop_heap_impl m first last' cmp (last' - first)"

definition pop_heap_less :: "'a::linorder mem \<Rightarrow> iter \<Rightarrow> iter \<Rightarrow> 'a mem option" where
  "pop_heap_less m first last' = pop_heap m first last' less_op"

subsection \<open>Building and unwinding a heap\<close>

fun make_heap_loop ::
    "'a mem \<Rightarrow> iter \<Rightarrow> ('a \<Rightarrow> 'a \<Rightarrow> bool) \<Rightarrow> nat \<Rightarrow> nat \<Rightarrow> 'a mem option" where
  "make_heap_loop m first cmp n 0 = sift_down m first cmp n (first + 0)"
| "make_heap_loop m first cmp n (Suc start) = do {
     m \<leftarrow> sift_down m first cmp n (first + Suc start);
     make_heap_loop m first cmp n start
   }"

definition make_heap_impl :: "'a mem \<Rightarrow> iter \<Rightarrow> iter \<Rightarrow> ('a \<Rightarrow> 'a \<Rightarrow> bool) \<Rightarrow> 'a mem option" where
  "make_heap_impl m first last' cmp =
     (let n = last' - first in
      if n > 1 then make_heap_loop m first cmp n ((n - 2) div 2) else Some m)"

definition make_heap :: "'a mem \<Rightarrow> iter \<Rightarrow> iter \<Rightarrow> ('a \<Rightarrow> 'a \<Rightarrow> bool) \<Rightarrow> 'a mem option" where
  "make_heap m first last' cmp = make_heap_impl m first last' cmp"

definition make_heap_less :: "'a::linorder mem \<Rightarrow> iter \<Rightarrow> iter \<Rightarrow> 'a mem option" where
  "make_heap_less m first last' = make_heap m first last' less_op"

fun sort_heap_loop ::
    "'a mem \<Rightarrow> iter \<Rightarrow> iter \<Rightarrow> ('a \<Rightarrow> 'a \<Rightarrow> bool) \<Rightarrow> nat \<Rightarrow> 'a mem option" where
  "sort_heap_loop m first last' cmp n =
     (if n > 1 then do {
        m \<leftarrow> pop_heap_impl m first last' cmp n;
        sort_heap_loop m first (last' - 1) cmp (n - 1)
      } else Some m)"

definition sort_heap_impl :: "'a mem \<Rightarrow> iter \<Rightarrow> iter \<Rightarrow> ('a \<Rightarrow> 'a \<Rightarrow> bool) \<Rightarrow> 'a mem option" where
  "sort_heap_impl m first last' cmp = sort_heap_loop m first last' cmp (last' - first)"

definition sort_heap :: "'a mem \<Rightarrow> iter \<Rightarrow> iter \<Rightarrow> ('a \<Rightarrow> 'a \<Rightarrow> bool) \<Rightarrow> 'a mem option" where
  "sort_heap m first last' cmp = sort_heap_impl m first last' cmp"

definition sort_heap_less :: "'a::linorder mem \<Rightarrow> iter \<Rightarrow> iter \<Rightarrow> 'a mem option" where
  "sort_heap_less m first last' = sort_heap m first last' less_op"

subsection \<open>Testing heap order\<close>

function is_heap_until_loop ::
    "'a mem \<Rightarrow> iter \<Rightarrow> iter \<Rightarrow> ('a \<Rightarrow> 'a \<Rightarrow> bool) \<Rightarrow> nat \<Rightarrow> nat \<Rightarrow> nat \<Rightarrow> iter \<Rightarrow> iter option" where
  "is_heap_until_loop m first last' cmp len p c pp =
     (if c < len then do {
        let cp = first + c;
        x \<leftarrow> rd m pp;
        y \<leftarrow> rd m cp;
        if cmp x y then Some cp
        else do {
          let c = Suc c;
          let cp = Suc cp;
          if c = len then Some last'
          else do {
            x \<leftarrow> rd m pp;
            y \<leftarrow> rd m cp;
            if cmp x y then Some cp
            else do {
              let p = Suc p;
              is_heap_until_loop m first last' cmp len p (2 * p + 1) (Suc pp)
            }
          }
        }
      } else Some last')"
  by pat_completeness auto
termination
  by (relation "measure (\<lambda>(m, first, last', cmp, len, p, c, pp). length m - pp)") auto

definition is_heap_until_impl ::
    "'a mem \<Rightarrow> iter \<Rightarrow> iter \<Rightarrow> ('a \<Rightarrow> 'a \<Rightarrow> bool) \<Rightarrow> iter option" where
  "is_heap_until_impl m first last' cmp =
     is_heap_until_loop m first last' cmp (last' - first) 0 1 first"

definition is_heap_until :: "'a mem \<Rightarrow> iter \<Rightarrow> iter \<Rightarrow> ('a \<Rightarrow> 'a \<Rightarrow> bool) \<Rightarrow> iter option" where
  "is_heap_until m first last' cmp = is_heap_until_impl m first last' cmp"

definition is_heap_until_less :: "'a::linorder mem \<Rightarrow> iter \<Rightarrow> iter \<Rightarrow> iter option" where
  "is_heap_until_less m first last' = is_heap_until_impl m first last' less_op"

definition is_heap :: "'a mem \<Rightarrow> iter \<Rightarrow> iter \<Rightarrow> ('a \<Rightarrow> 'a \<Rightarrow> bool) \<Rightarrow> bool option" where
  "is_heap m first last' cmp = do { r \<leftarrow> is_heap_until_impl m first last' cmp; Some (r = last') }"

definition is_heap_less :: "'a::linorder mem \<Rightarrow> iter \<Rightarrow> iter \<Rightarrow> bool option" where
  "is_heap_less m first last' = is_heap m first last' less_op"

subsection \<open>Partial sorts\<close>

declare sift_up_loop.simps [simp del] sift_down_loop.simps [simp del]
  floyd_sift_down_loop.simps [simp del] sort_heap_loop.simps [simp del]
  is_heap_until_loop.simps [simp del]

lemma sift_down_loop_length:
  "sift_down_loop m first cmp len topv start child child_i = Some m' \<Longrightarrow> length m' = length m"
proof (induction m first cmp len topv start child child_i arbitrary: m'
    rule: sift_down_loop.induct)
  case (1 m first cmp len topv start child child_i)
  then show ?case
    by (subst (asm) sift_down_loop.simps)
      (auto simp: Let_def bind_eq_Some_conv split: if_splits prod.splits)
qed

lemma sift_down_length: "sift_down m first cmp len start = Some m' \<Longrightarrow> length m' = length m"
  by (auto simp: sift_down_def Let_def bind_eq_Some_conv sift_down_loop_length
      split: if_splits prod.splits)

function partial_sort_loop ::
    "'a mem \<Rightarrow> iter \<Rightarrow> ('a \<Rightarrow> 'a \<Rightarrow> bool) \<Rightarrow> nat \<Rightarrow> iter \<Rightarrow> iter \<Rightarrow> ('a mem \<times> iter) option" where
  "partial_sort_loop m first cmp len last' i =
     (if i \<noteq> last' then do {
        x \<leftarrow> rd m i;
        y \<leftarrow> rd m first;
        if cmp x y then do {
          m1 \<leftarrow> iter_swap m i first;
          m2 \<leftarrow> sift_down m1 first cmp len first;
          partial_sort_loop m2 first cmp len last' (Suc i)
        } else partial_sort_loop m first cmp len last' (Suc i)
      } else Some (m, i))"
  by pat_completeness auto
termination
  by (relation "measure (\<lambda>(m, first, cmp, len, last', i). length m - i)")
    (auto dest: sift_down_length)

text \<open>The result is the memory and the iterator to the end of the range.\<close>

definition partial_sort_impl ::
    "'a mem \<Rightarrow> iter \<Rightarrow> iter \<Rightarrow> iter \<Rightarrow> ('a \<Rightarrow> 'a \<Rightarrow> bool) \<Rightarrow> ('a mem \<times> iter) option" where
  "partial_sort_impl m first middle last' cmp =
     (if first = middle then Some (m, last')
      else do {
        m \<leftarrow> make_heap_impl m first middle cmp;
        let len = middle - first;
        (m, i) \<leftarrow> partial_sort_loop m first cmp len last' middle;
        m \<leftarrow> sort_heap_impl m first middle cmp;
        Some (m, i)
      })"

definition partial_sort_alg ::
    "'a mem \<Rightarrow> iter \<Rightarrow> iter \<Rightarrow> iter \<Rightarrow> ('a \<Rightarrow> 'a \<Rightarrow> bool) \<Rightarrow> ('a mem \<times> iter) option" where
  "partial_sort_alg m first middle last' cmp =
     (if first = middle then Some (m, last') else partial_sort_impl m first middle last' cmp)"

definition partial_sort ::
    "'a mem \<Rightarrow> iter \<Rightarrow> iter \<Rightarrow> iter \<Rightarrow> ('a \<Rightarrow> 'a \<Rightarrow> bool) \<Rightarrow> 'a mem option" where
  "partial_sort m first middle last' cmp = map_option fst (partial_sort_alg m first middle last' cmp)"

definition partial_sort_less ::
    "'a::linorder mem \<Rightarrow> iter \<Rightarrow> iter \<Rightarrow> iter \<Rightarrow> 'a mem option" where
  "partial_sort_less m first middle last' = partial_sort m first middle last' less_op"

text \<open>
  \<^verbatim>\<open>__partial_sort_copy\<close> reads the input memory \<open>src\<close> and writes \<open>m\<close>.  The two
  projections apply to the input and to the output elements.
\<close>

function partial_sort_copy_fill ::
    "'a mem \<Rightarrow> iter \<Rightarrow> iter \<Rightarrow> 'a mem \<Rightarrow> iter \<Rightarrow> iter \<Rightarrow> ('a mem \<times> iter \<times> iter) option" where
  "partial_sort_copy_fill src first last' m r result_last =
     (if first \<noteq> last' \<and> r \<noteq> result_last then do {
        x \<leftarrow> rd src first;
        m \<leftarrow> wr m r x;
        partial_sort_copy_fill src (Suc first) last' m (Suc r) result_last
      } else Some (m, first, r))"
  by pat_completeness auto
termination
  by (relation "measure (\<lambda>(src, first, last', m, r, result_last). length src - first)") auto

function partial_sort_copy_scan ::
    "'a mem \<Rightarrow> iter \<Rightarrow> iter \<Rightarrow> 'a mem \<Rightarrow> iter \<Rightarrow> nat \<Rightarrow> ('p \<Rightarrow> 'p \<Rightarrow> bool) \<Rightarrow> ('a \<Rightarrow> 'p) \<Rightarrow> ('a \<Rightarrow> 'p) \<Rightarrow>
      ('a mem \<times> iter) option" where
  "partial_sort_copy_scan src first last' m result_first len cmp proj1 proj2 =
     (if first \<noteq> last' then do {
        x \<leftarrow> rd src first;
        y \<leftarrow> rd m result_first;
        if cmp (proj1 x) (proj2 y) then do {
          m \<leftarrow> wr m result_first x;
          m \<leftarrow> sift_down m result_first (\<lambda>a b. cmp (proj2 a) (proj2 b)) len result_first;
          partial_sort_copy_scan src (Suc first) last' m result_first len cmp proj1 proj2
        } else partial_sort_copy_scan src (Suc first) last' m result_first len cmp proj1 proj2
      } else Some (m, first))"
  by pat_completeness auto
termination
  by (relation "measure (\<lambda>(src, first, last', m, result_first, len, cmp, proj1, proj2).
      length src - first)") auto

definition partial_sort_copy_impl ::
    "'a mem \<Rightarrow> iter \<Rightarrow> iter \<Rightarrow> 'a mem \<Rightarrow> iter \<Rightarrow> iter \<Rightarrow> ('p \<Rightarrow> 'p \<Rightarrow> bool) \<Rightarrow> ('a \<Rightarrow> 'p) \<Rightarrow> ('a \<Rightarrow> 'p) \<Rightarrow>
      ('a mem \<times> iter \<times> iter) option" where
  "partial_sort_copy_impl src first last' m result_first result_last cmp proj1 proj2 =
     (let projected_comp = (\<lambda>a b. cmp (proj2 a) (proj2 b)) in
      if result_first \<noteq> result_last then do {
        (m, first, r) \<leftarrow> partial_sort_copy_fill src first last' m result_first result_last;
        m \<leftarrow> make_heap_impl m result_first r projected_comp;
        let len = r - result_first;
        (m, first) \<leftarrow> partial_sort_copy_scan src first last' m result_first len cmp proj1 proj2;
        m \<leftarrow> sort_heap_impl m result_first r projected_comp;
        Some (m, last', r)
      } else Some (m, last', result_first))"

definition partial_sort_copy ::
    "'a mem \<Rightarrow> iter \<Rightarrow> iter \<Rightarrow> 'a mem \<Rightarrow> iter \<Rightarrow> iter \<Rightarrow> ('a \<Rightarrow> 'a \<Rightarrow> bool) \<Rightarrow> ('a mem \<times> iter) option" where
  "partial_sort_copy src first last' m result_first result_last cmp = do {
     (m, _, r) \<leftarrow> partial_sort_copy_impl src first last' m result_first result_last cmp id id;
     Some (m, r)
   }"

definition partial_sort_copy_less ::
    "'a::linorder mem \<Rightarrow> iter \<Rightarrow> iter \<Rightarrow> 'a mem \<Rightarrow> iter \<Rightarrow> iter \<Rightarrow> ('a mem \<times> iter) option" where
  "partial_sort_copy_less src first last' m result_first result_last =
     partial_sort_copy src first last' m result_first result_last less_op"

declare partial_sort_loop.simps [simp del] partial_sort_copy_fill.simps [simp del] partial_sort_copy_scan.simps [simp del]

section \<open>Heap order\<close>

definition par :: "nat \<Rightarrow> nat" where
  "par i = (i - 1) div 2"

definition at_from :: "'a mem \<Rightarrow> iter \<Rightarrow> nat \<Rightarrow> 'a" where
  "at_from m f i = m ! (f + i)"

text \<open>Heap order among the first \<open>n\<close> elements whose parent is at least \<open>s\<close>.\<close>

definition heap_from :: "('a \<Rightarrow> 'a \<Rightarrow> bool) \<Rightarrow> nat \<Rightarrow> nat \<Rightarrow> (nat \<Rightarrow> 'a) \<Rightarrow> bool" where
  "heap_from cmp s n h \<longleftrightarrow> (\<forall>i. 0 < i \<and> i < n \<and> s \<le> par i \<longrightarrow> \<not> cmp (h (par i)) (h i))"

definition heap_at :: "('a \<Rightarrow> 'a \<Rightarrow> bool) \<Rightarrow> 'a mem \<Rightarrow> iter \<Rightarrow> nat \<Rightarrow> bool" where
  "heap_at cmp m f n \<longleftrightarrow> heap_from cmp 0 n (at_from m f)"

text \<open>Heap order up to the element at \<open>p\<close>, which may be too small for its place.\<close>

definition down_hole :: "('a \<Rightarrow> 'a \<Rightarrow> bool) \<Rightarrow> nat \<Rightarrow> nat \<Rightarrow> nat \<Rightarrow> (nat \<Rightarrow> 'a) \<Rightarrow> bool" where
  "down_hole cmp s n p h \<longleftrightarrow>
     (\<forall>i. 0 < i \<and> i < n \<and> s \<le> par i \<longrightarrow>
        (par i \<noteq> p \<longrightarrow> \<not> cmp (h (par i)) (h i)) \<and>
        (par i = p \<and> 0 < p \<and> s \<le> par p \<longrightarrow> \<not> cmp (h (par p)) (h i)))"

text \<open>Heap order up to the element at \<open>p\<close>, which may be too large for its place.\<close>

definition up_hole :: "('a \<Rightarrow> 'a \<Rightarrow> bool) \<Rightarrow> nat \<Rightarrow> nat \<Rightarrow> (nat \<Rightarrow> 'a) \<Rightarrow> bool" where
  "up_hole cmp n p h \<longleftrightarrow>
     (\<forall>i. 0 < i \<and> i < n \<longrightarrow>
        (i \<noteq> p \<longrightarrow> \<not> cmp (h (par i)) (h i)) \<and>
        (par i = p \<and> 0 < p \<longrightarrow> \<not> cmp (h (par p)) (h i)))"

text \<open>Heap order that ignores the element at \<open>p\<close>.\<close>

definition free_hole :: "('a \<Rightarrow> 'a \<Rightarrow> bool) \<Rightarrow> nat \<Rightarrow> nat \<Rightarrow> (nat \<Rightarrow> 'a) \<Rightarrow> bool" where
  "free_hole cmp n p h \<longleftrightarrow>
     (\<forall>i. 0 < i \<and> i < n \<longrightarrow>
        (i \<noteq> p \<and> par i \<noteq> p \<longrightarrow> \<not> cmp (h (par i)) (h i)) \<and>
        (par i = p \<and> 0 < p \<longrightarrow> \<not> cmp (h (par p)) (h i)))"

definition big_child :: "('a \<Rightarrow> 'a \<Rightarrow> bool) \<Rightarrow> nat \<Rightarrow> (nat \<Rightarrow> 'a) \<Rightarrow> nat \<Rightarrow> nat \<Rightarrow> bool" where
  "big_child cmp n h p c \<longleftrightarrow>
     0 < c \<and> c < n \<and> par c = p \<and> (\<forall>i. 0 < i \<and> i < n \<and> par i = p \<longrightarrow> \<not> cmp (h c) (h i))"

lemma par_less: "0 < i \<Longrightarrow> par i < i"
  by (auto simp: par_def)

lemma child_cases: "0 < i \<Longrightarrow> par i = p \<longleftrightarrow> i = 2 * p + 1 \<or> i = 2 * p + 2"
  by (auto simp: par_def)

lemma par_child [simp]: "par (Suc (2 * p)) = p" "par (Suc (Suc (2 * p))) = p"
  by (simp_all add: par_def)

lemma par_leaf: "0 < i \<Longrightarrow> i < n \<Longrightarrow> n \<le> 2 * p + 1 \<Longrightarrow> par i < p"
  by (auto simp: par_def)

lemma big_childI:
  assumes "c = 2 * p + 1 \<or> c = 2 * p + 2" "c < n"
    "\<And>i. i = 2 * p + 1 \<or> i = 2 * p + 2 \<Longrightarrow> i < n \<Longrightarrow> \<not> cmp (h c) (h i)"
  shows "big_child cmp n h p c"
  using assms child_cases by (auto simp: big_child_def)

lemma big_child_upd: "big_child cmp n h p c \<Longrightarrow> big_child cmp n (h(p := x)) p c"
  unfolding big_child_def by (metis fun_upd_other less_irrefl par_less)

lemma leaf_iff: "2 \<le> n \<Longrightarrow> (n - 2) div 2 < c \<longleftrightarrow> n \<le> 2 * c + 1" for n c :: nat
  by auto

lemma at_from_update:
  "f + p < length m \<Longrightarrow> at_from (m[f + p := x]) f = (at_from m f)(p := x)"
  by (auto simp: at_from_def fun_eq_iff nth_list_update)

lemma at_from_frame: "frame m m' a b \<Longrightarrow> b \<le> f + n \<Longrightarrow> n \<le> i \<Longrightarrow> at_from m' f i = at_from m f i"
  by (simp add: at_from_def frame_nth)

lemma heap_fromI:
  "(\<And>i. 0 < i \<Longrightarrow> i < n \<Longrightarrow> s \<le> par i \<Longrightarrow> \<not> cmp (h (par i)) (h i)) \<Longrightarrow> heap_from cmp s n h"
  by (simp add: heap_from_def)

lemma heap_fromD: "heap_from cmp s n h \<Longrightarrow> 0 < i \<Longrightarrow> i < n \<Longrightarrow> s \<le> par i \<Longrightarrow> \<not> cmp (h (par i)) (h i)"
  by (simp add: heap_from_def)

lemma down_holeD:
  "down_hole cmp s n p h \<Longrightarrow> 0 < i \<Longrightarrow> i < n \<Longrightarrow> s \<le> par i \<Longrightarrow> par i \<noteq> p \<Longrightarrow> \<not> cmp (h (par i)) (h i)"
  "down_hole cmp s n p h \<Longrightarrow> 0 < i \<Longrightarrow> i < n \<Longrightarrow> par i = p \<Longrightarrow> 0 < p \<Longrightarrow> s \<le> par p \<Longrightarrow>
     \<not> cmp (h (par p)) (h i)"
  using par_less [of p] by (auto simp: down_hole_def)

lemma heap_from_cong:
  assumes "\<And>i. i < n \<Longrightarrow> h i = h' i"
  shows "heap_from cmp s n h = heap_from cmp s n h'"
proof -
  have "h (par i) = h' (par i)" if "0 < i" "i < n" for i
    using that par_less [of i] by (intro assms) simp
  with assms show ?thesis by (auto simp: heap_from_def)
qed

lemma heap_from_trivial:
  assumes "n \<le> 2 * s + 1"
  shows "heap_from cmp s n h"
proof (rule heap_fromI)
  fix i assume "0 < i" "i < n" "s \<le> par i"
  with par_leaf [of i n s] assms show "\<not> cmp (h (par i)) (h i)" by simp
qed

lemma heap_from_smaller: "heap_from cmp s n h \<Longrightarrow> n' \<le> n \<Longrightarrow> heap_from cmp s n' h"
  by (auto simp: heap_from_def)

lemma larger_child_cases:
  assumes "c = 2 * p + 1" "c < n" "f + n \<le> length m" "\<And>x y. cmp x y \<Longrightarrow> \<not> cmp y x" "\<And>x. \<not> cmp x x"
  shows "\<exists>c'. larger_child m cmp n c (f + c) = Some (c', f + c') \<and>
           big_child cmp n (at_from m f) p c' \<and> c \<le> c'"
proof (cases "Suc c < n \<and> cmp (m ! (f + c)) (m ! Suc (f + c))")
  case True
  then have "larger_child m cmp n c (f + c) = Some (Suc c, f + Suc c)"
    using assms by (simp add: larger_child_def mem_simps)
  moreover have "big_child cmp n (at_from m f) p (Suc c)"
    using True assms by (intro big_childI) (auto simp: at_from_def)
  ultimately show ?thesis by auto
next
  case False
  then have "larger_child m cmp n c (f + c) = Some (c, f + c)"
    using assms by (auto simp: larger_child_def mem_simps)
  moreover have "big_child cmp n (at_from m f) p c"
    using False assms by (intro big_childI) (auto simp: at_from_def)
  ultimately show ?thesis by auto
qed

context strict_weak_order
begin

lemma down_start: "heap_from cmp (Suc s) n h \<Longrightarrow> down_hole cmp s n s h"
  using par_less [of s] by (auto simp: heap_from_def down_hole_def)

lemma down_done_leaf:
  assumes "down_hole cmp s n p h" "n \<le> 2 * p + 1"
  shows "heap_from cmp s n h"
proof (rule heap_fromI)
  fix i assume "0 < i" "i < n" "s \<le> par i"
  with down_holeD(1) [OF assms(1), of i] par_leaf [of i n p] assms(2)
  show "\<not> cmp (h (par i)) (h i)" by simp
qed

lemma down_done:
  assumes "down_hole cmp s n p h" "big_child cmp n h p c" "\<not> cmp (h p) (h c)"
  shows "heap_from cmp s n h"
  unfolding heap_from_def
proof (intro allI impI)
  fix i assume i: "0 < i \<and> i < n \<and> s \<le> par i"
  show "\<not> cmp (h (par i)) (h i)"
  proof (cases "par i = p")
    case True
    with i assms(2) have "\<not> cmp (h c) (h i)" by (simp add: big_child_def)
    with assms(3) True neg_trans [OF assms(3), of "h i"] show ?thesis by simp
  next
    case False
    with i assms(1) show ?thesis by (simp add: down_holeD)
  qed
qed

lemma down_step:
  assumes "down_hole cmp s n p h" "big_child cmp n h p c" "\<not> cmp (h c) (h p)" "p < n"
  shows "down_hole cmp s n c (h(p := h c, c := h p))"
proof -
  have pc: "p \<noteq> c" "par c = p" "0 < c" "c < n" using assms(2) par_less [of c] by (auto simp: big_child_def)
  show ?thesis
    unfolding down_hole_def
  proof (intro allI impI conjI)
    fix i assume i: "0 < i \<and> i < n \<and> s \<le> par i" and "par i \<noteq> c"
    let ?h = "h(p := h c, c := h p)"
    consider "i = p" | "i = c" | "i \<noteq> c" "par i = p" | "i \<noteq> p" "i \<noteq> c" "par i \<noteq> p" by blast
    then show "\<not> cmp (?h (par i)) (?h i)"
    proof cases
      case 1
      then have "\<not> cmp (h (par p)) (h c)" using i pc down_holeD(2) [OF assms(1), of c] by simp
      then show ?thesis using 1 i pc \<open>par i \<noteq> c\<close> par_less [of p] by auto
    next
      case 2
      then show ?thesis using pc assms(3) by simp
    next
      case 3
      then show ?thesis using i pc assms(2) par_less [of i] by (auto simp: big_child_def)
    next
      case 4
      then show ?thesis using i assms(1) \<open>par i \<noteq> c\<close> by (simp add: down_holeD)
    qed
  next
    fix i assume i: "0 < i \<and> i < n \<and> s \<le> par i" and c: "par i = c \<and> 0 < c \<and> s \<le> par c"
    have "i \<noteq> c" "i \<noteq> p" using i c pc par_less [of i] par_less [of c] by auto
    moreover have "\<not> cmp (h c) (h i)" using i c pc down_holeD(1) [OF assms(1), of i] by simp
    ultimately show "\<not> cmp ((h(p := h c, c := h p)) (par c)) ((h(p := h c, c := h p)) i)"
      using pc by simp
  qed
qed

lemma sift_down_loop_correct:
  assumes "down_hole cmp s n p ((at_from m f)(p := t))" "big_child cmp n (at_from m f) p c"
    "\<not> cmp (m ! (f + c)) t" "p < n" "f + n \<le> length m" "2 \<le> n"
  shows "\<exists>m'. sift_down_loop m f cmp n t (f + p) c (f + c) = Some m' \<and>
           heap_from cmp s n (at_from m' f) \<and> frame m m' f (f + n) \<and> mset m' = mset (m[f + p := t])"
  using assms
proof (induction "n - c" arbitrary: m p c rule: less_induct)
  case less
  let ?m = "m[f + p := m ! (f + c)]" let ?v = "?m[f + c := t]"
  let ?h = "(at_from m f)(p := t)"
  note unfold = sift_down_loop.simps [of m f cmp n t "f + p" c "f + c"]
  have c: "c < n" "p < c" "p \<noteq> c" "p < n" "f + c < length m" "f + p < length m"
    using less.prems par_less [of c] by (auto simp: big_child_def)
  have v: "at_from ?v f = ?h(p := ?h c, c := ?h p)"
    using c by (simp add: at_from_update) (simp add: at_from_def fun_upd_twist)
  have big: "big_child cmp n ?h p c"
    using less.prems(2) by (rule big_child_upd)
  have hole: "down_hole cmp s n c (at_from ?v f)"
    unfolding v using less.prems(1) big less.prems(3) c by (intro down_step) (auto simp: at_from_def)
  have fr: "frame m ?v f (f + n)" using c by (intro frame_update frame_refl) auto
  have ms: "mset ?v = mset (m[f + p := t])" using c by (intro mset_hole_move) auto
  show ?case
  proof (cases "n \<le> 2 * c + 1")
    case True
    with c less.prems(6) have "sift_down_loop m f cmp n t (f + p) c (f + c) = Some ?v"
      by (simp add: unfold mem_simps leaf_iff)
    with hole True fr ms show ?thesis by (blast intro: down_done_leaf)
  next
    case False
    then obtain c' where lc: "larger_child ?m cmp n (2 * c + 1) (f + (2 * c + 1)) = Some (c', f + c')"
      and c': "big_child cmp n (at_from ?m f) c c'" "c < c'"
      using larger_child_cases [of "2 * c + 1" c n f ?m cmp] less.prems(5) asym irrefl by fastforce
    have c'n: "c' < n" "f + c' < length m" using c' less.prems(5) by (auto simp: big_child_def)
    have vm: "at_from ?v f = (at_from ?m f)(c := t)" using c by (simp add: at_from_update)
    have eq: "sift_down_loop m f cmp n t (f + p) c (f + c) =
        (if \<not> cmp (?m ! (f + c')) t then sift_down_loop ?m f cmp n t (f + c) c' (f + c') else Some ?v)"
      using c c'n False less.prems(6) lc by (simp add: unfold mem_simps leaf_iff Let_def)
    show ?thesis
    proof (cases "cmp (?m ! (f + c')) t")
      case True
      then have "\<not> cmp (at_from ?v f c) (at_from ?v f c')"
        using asym c'(2) by (simp add: vm) (simp add: at_from_def)
      then have "heap_from cmp s n (at_from ?v f)"
        using hole c'(1) by (intro down_done [of s n c _ c']) (simp_all add: vm big_child_upd)
      with True eq fr ms show ?thesis by auto
    next
      case False
      have "n - c' < n - c" using c'(2) c'n by simp
      with False c'n c less.prems hole c' obtain m' where
        "sift_down_loop ?m f cmp n t (f + c) c' (f + c') = Some m'" "heap_from cmp s n (at_from m' f)"
        "frame ?m m' f (f + n)" "mset m' = mset ?v"
        using less.hyps [of c' c ?m] by (auto simp: vm)
      moreover have "frame m ?m f (f + n)" using c by (intro frame_update frame_refl) auto
      ultimately show ?thesis using False eq ms by (auto intro: frame_trans)
    qed
  qed
qed

lemma sift_down_correct:
  assumes "heap_from cmp (Suc s) n (at_from m f)" "f + n \<le> length m"
  shows "\<exists>m'. sift_down m f cmp n (f + s) = Some m' \<and>
           heap_from cmp s n (at_from m' f) \<and> permuted m m' f (f + n)"
proof (cases "n < 2 \<or> (n - 2) div 2 < s")
  case True
  then have "n \<le> 2 * s + 1" by auto
  with True show ?thesis by (auto simp: sift_down_def heap_from_trivial)
next
  case False
  then have n: "2 * s + 1 < n" by auto
  then obtain c where lc: "larger_child m cmp n (2 * s + 1) (f + (2 * s + 1)) = Some (c, f + c)"
    and c: "big_child cmp n (at_from m f) s c"
    using larger_child_cases [of "2 * s + 1" s n f m cmp] assms asym irrefl by fastforce
  have cn: "c < n" "f + c < length m" "f + s < length m" using c n assms by (auto simp: big_child_def)
  have eq: "sift_down m f cmp n (f + s) =
      (if cmp (m ! (f + c)) (m ! (f + s)) then Some m
       else sift_down_loop m f cmp n (m ! (f + s)) (f + s) c (f + c))"
    using lc cn False by (simp add: sift_down_def mem_simps)
  have same: "(at_from m f)(s := m ! (f + s)) = at_from m f" by (auto simp: at_from_def fun_eq_iff)
  note start = down_start [OF assms(1)]
  show ?thesis
  proof (cases "cmp (m ! (f + c)) (m ! (f + s))")
    case True
    then have "\<not> cmp (at_from m f s) (at_from m f c)" using asym by (simp add: at_from_def)
    with start c have "heap_from cmp s n (at_from m f)" by (rule down_done)
    with True eq show ?thesis by auto
  next
    case False
    with sift_down_loop_correct [of s n s m f "m ! (f + s)" c] start same c n assms eq
    show ?thesis by (auto simp: permuted_def)
  qed
qed

lemma make_heap_loop_correct:
  assumes "heap_from cmp (Suc s) n (at_from m f)" "f + n \<le> length m"
  shows "\<exists>m'. make_heap_loop m f cmp n s = Some m' \<and>
           heap_from cmp 0 n (at_from m' f) \<and> permuted m m' f (f + n)"
  using assms
proof (induction s arbitrary: m)
  case 0
  then show ?case using sift_down_correct [of 0 n m f] by simp
next
  case (Suc s)
  obtain m1 where m1: "sift_down m f cmp n (f + Suc s) = Some m1" "permuted m m1 f (f + n)"
      "heap_from cmp (Suc s) n (at_from m1 f)"
    using sift_down_correct [OF Suc.prems] by blast
  with Suc.IH [of m1] Suc.prems show ?case
    by (auto simp: permuted_length intro: permuted_trans)
qed

lemma make_heap_impl_swo:
  assumes "a \<le> b" "b \<le> length m"
  shows "\<exists>m'. make_heap_impl m a b cmp = Some m' \<and> heap_at cmp m' a (b - a) \<and> permuted m m' a b"
proof (cases "b - a > 1")
  case True
  have "heap_from cmp (Suc ((b - a - 2) div 2)) (b - a) (at_from m a)"
    by (rule heap_from_trivial) (use True in arith)
  with True assms make_heap_loop_correct [of "(b - a - 2) div 2" "b - a" m a] show ?thesis
    by (auto simp: make_heap_impl_def heap_at_def)
next
  case False
  then show ?thesis
    by (auto simp: make_heap_impl_def heap_at_def Let_def intro: heap_from_trivial)
qed

text \<open>The element at the front of a heap is a largest one.\<close>

lemma heap_front_largest:
  assumes "heap_from cmp 0 n h" "i < n"
  shows "\<not> cmp (h 0) (h i)"
  using assms(2)
proof (induction i rule: less_induct)
  case (less i)
  show ?case
  proof (cases "i = 0")
    case True
    then show ?thesis by (simp add: irrefl)
  next
    case False
    with less.prems par_less [of i] have "\<not> cmp (h 0) (h (par i))" by (intro less.IH) auto
    moreover have "\<not> cmp (h (par i)) (h i)" using False less.prems assms(1) by (simp add: heap_fromD)
    ultimately show ?thesis by (rule neg_trans)
  qed
qed

lemma heap_at_front_largest:
  assumes "heap_at cmp m f n" "x \<in> set (seg m f (f + n))" "f + n \<le> length m"
  shows "\<not> cmp (m ! f) x"
proof -
  from assms obtain i where i: "i < n" "x = m ! (f + i)"
    by (auto simp: in_set_seg) (metis le_add_diff_inverse nat_add_left_cancel_less)
  with heap_front_largest [of n "at_from m f" i] assms(1) show ?thesis
    by (simp add: heap_at_def at_from_def)
qed

lemma up_holeD:
  "up_hole cmp n p h \<Longrightarrow> 0 < i \<Longrightarrow> i < n \<Longrightarrow> i \<noteq> p \<Longrightarrow> \<not> cmp (h (par i)) (h i)"
  "up_hole cmp n p h \<Longrightarrow> 0 < i \<Longrightarrow> i < n \<Longrightarrow> par i = p \<Longrightarrow> 0 < p \<Longrightarrow> \<not> cmp (h (par p)) (h i)"
  by (auto simp: up_hole_def)

lemma up_done_root: "up_hole cmp n 0 h \<Longrightarrow> heap_from cmp 0 n h"
  by (rule heap_fromI) (simp add: up_holeD)

lemma up_done: "up_hole cmp n p h \<Longrightarrow> \<not> cmp (h (par p)) (h p) \<Longrightarrow> heap_from cmp 0 n h"
  by (rule heap_fromI) (metis up_holeD(1))

lemma up_step:
  assumes "up_hole cmp n p h" "cmp (h (par p)) (h p)" "0 < p" "p < n"
  shows "up_hole cmp n (par p) (h(p := h (par p), par p := h p))"
proof -
  let ?q = "par p" let ?h = "h(p := h (par p), par p := h p)"
  have q: "?q < p" using assms(3) by (rule par_less)
  show ?thesis
    unfolding up_hole_def
  proof (intro allI impI conjI)
    fix i assume i: "0 < i \<and> i < n" and "i \<noteq> ?q"
    consider "i = p" | "i \<noteq> p" "par i = ?q" | "i \<noteq> p" "par i = p" | "i \<noteq> p" "par i \<noteq> ?q" "par i \<noteq> p"
      by blast
    then show "\<not> cmp (?h (par i)) (?h i)"
    proof cases
      case 1
      then show ?thesis using q asym [OF assms(2)] by simp
    next
      case 2
      then have "\<not> cmp (h ?q) (h i)" using i up_holeD(1) [OF assms(1), of i] by simp
      then show ?thesis using 2 q \<open>i \<noteq> ?q\<close> trans [OF assms(2), of "h i"] by auto
    next
      case 3
      then show ?thesis
        using i q \<open>i \<noteq> ?q\<close> assms(3) up_holeD(2) [OF assms(1), of i] by auto
    next
      case 4
      then show ?thesis using i \<open>i \<noteq> ?q\<close> up_holeD(1) [OF assms(1), of i] by simp
    qed
  next
    fix i assume i: "0 < i \<and> i < n" and qi: "par i = ?q \<and> 0 < ?q"
    have pq: "\<not> cmp (h (par ?q)) (h ?q)" using up_holeD(1) [OF assms(1), of ?q] q qi assms(4) by simp
    have ne: "par ?q \<noteq> ?q" "par ?q \<noteq> p" "i \<noteq> ?q" using q qi i par_less [of ?q] par_less [of i] by auto
    show "\<not> cmp (?h (par ?q)) (?h i)"
    proof (cases "i = p")
      case True
      with pq ne q show ?thesis by simp
    next
      case False
      then have "\<not> cmp (h ?q) (h i)" using i qi up_holeD(1) [OF assms(1), of i] by simp
      with pq have "\<not> cmp (h (par ?q)) (h i)" by (rule neg_trans)
      with False ne show ?thesis by simp
    qed
  qed
qed

lemma sift_up_loop_correct:
  assumes "up_hole cmp n p ((at_from m f)(p := t))" "cmp (m ! (f + par p)) t"
    "0 < p" "p < n" "f + n \<le> length m"
  shows "\<exists>m'. sift_up_loop m cmp f t (f + p) (par p) (f + par p) = Some m' \<and>
           heap_from cmp 0 n (at_from m' f) \<and> frame m m' f (f + Suc p) \<and>
           mset m' = mset (m[f + p := t])"
  using assms
proof (induction p arbitrary: m rule: less_induct)
  case (less p)
  let ?q = "par p"
  let ?m = "m[f + p := m ! (f + ?q)]" let ?v = "?m[f + ?q := t]"
  let ?h = "(at_from m f)(p := t)"
  note unfold = sift_up_loop.simps [of m cmp f t "f + p" ?q "f + ?q"]
  have q: "?q < p" "p \<noteq> ?q" "f + p < length m" "f + ?q < length m"
    using less.prems par_less [of p] by auto
  have v: "at_from ?v f = ?h(p := ?h ?q, ?q := ?h p)"
    using q by (simp add: at_from_update) (simp add: at_from_def fun_upd_twist)
  have vm: "at_from ?v f = (at_from ?m f)(?q := t)" using q by (simp add: at_from_update)
  have hole: "up_hole cmp n ?q (at_from ?v f)"
    unfolding v using less.prems(2-4) q
    by (intro up_step [OF less.prems(1)]) (simp_all add: at_from_def)
  have fr: "frame m ?m f (f + Suc p)" "frame m ?v f (f + Suc p)"
    using q by (auto intro!: frame_update frame_refl)
  have ms: "mset ?v = mset (m[f + p := t])" using q by (intro mset_hole_move) auto
  have eq: "sift_up_loop m cmp f t (f + p) ?q (f + ?q) =
      (if 0 < ?q \<and> cmp (?m ! (f + par ?q)) t then sift_up_loop ?m cmp f t (f + ?q) (par ?q) (f + par ?q)
       else Some ?v)"
    using q par_less [of ?q] by (auto simp: unfold mem_simps Let_def par_def [of "par p"])
  show ?case
  proof (cases "0 < ?q \<and> cmp (?m ! (f + par ?q)) t")
    case True
    have "up_hole cmp n ?q ((at_from ?m f)(?q := t))" using hole unfolding vm .
    from less.IH [OF q(1) this] True q less.prems(3-5) obtain m' where
      "sift_up_loop ?m cmp f t (f + ?q) (par ?q) (f + par ?q) = Some m'"
      "heap_from cmp 0 n (at_from m' f)" "frame ?m m' f (f + Suc ?q)" "mset m' = mset ?v"
      by auto
    moreover from this q have "frame ?m m' f (f + Suc p)" by (auto intro: frame_mono)
    ultimately show ?thesis using True eq ms fr by (auto intro: frame_trans)
  next
    case False
    have "heap_from cmp 0 n (at_from ?v f)"
    proof (cases "?q = 0")
      case True
      with hole show ?thesis by (simp add: up_done_root)
    next
      case nz: False
      then have "\<not> cmp (at_from ?v f (par ?q)) (at_from ?v f ?q)"
        using False par_less [of ?q] q by (auto simp: vm) (simp add: at_from_def)
      with hole show ?thesis by (rule up_done)
    qed
    with False eq fr ms show ?thesis by auto
  qed
qed

lemma sift_up_correct:
  assumes "up_hole cmp n p (at_from m f)" "p < n" "f + n \<le> length m"
  shows "\<exists>m'. sift_up m f (f + Suc p) cmp (Suc p) = Some m' \<and>
           heap_from cmp 0 n (at_from m' f) \<and> permuted m m' f (f + Suc p)"
proof (cases "p = 0")
  case True
  with assms show ?thesis by (auto simp: sift_up_def intro: up_done_root)
next
  case False
  have same: "(at_from m f)(p := m ! (f + p)) = at_from m f" by (auto simp: at_from_def fun_eq_iff)
  have q: "par p < p" "f + par p < length m" "f + p < length m"
    using False assms par_less [of p] by auto
  have eq: "sift_up m f (f + Suc p) cmp (Suc p) =
      (if cmp (m ! (f + par p)) (m ! (f + p)) then
         sift_up_loop m cmp f (m ! (f + p)) (f + p) (par p) (f + par p) else Some m)"
    using False q by (simp add: sift_up_def mem_simps par_def numeral_2_eq_2 Let_def)
  show ?thesis
  proof (cases "cmp (m ! (f + par p)) (m ! (f + p))")
    case True
    with False sift_up_loop_correct [of n p m f "m ! (f + p)"] same assms eq show ?thesis
      by (auto simp: permuted_def)
  next
    case False
    then have "heap_from cmp 0 n (at_from m f)"
      using assms(1) by (intro up_done) (auto simp: at_from_def)
    with False eq show ?thesis by auto
  qed
qed

lemma free_holeD:
  "free_hole cmp n p h \<Longrightarrow> 0 < i \<Longrightarrow> i < n \<Longrightarrow> i \<noteq> p \<Longrightarrow> par i \<noteq> p \<Longrightarrow> \<not> cmp (h (par i)) (h i)"
  "free_hole cmp n p h \<Longrightarrow> 0 < i \<Longrightarrow> i < n \<Longrightarrow> par i = p \<Longrightarrow> 0 < p \<Longrightarrow> \<not> cmp (h (par p)) (h i)"
  by (auto simp: free_hole_def)

lemma free_start: "heap_from cmp 0 n h \<Longrightarrow> free_hole cmp n 0 h"
  by (auto simp: heap_from_def free_hole_def)

lemma free_step:
  assumes "free_hole cmp n p h" "big_child cmp n h p c"
  shows "free_hole cmp n c (h(p := h c))"
proof -
  have c: "p < c" "par c = p" "0 < c" "c < n" using assms(2) par_less [of c] by (auto simp: big_child_def)
  show ?thesis
    unfolding free_hole_def
  proof (intro allI impI conjI)
    fix i assume i: "0 < i \<and> i < n" and ne: "i \<noteq> c \<and> par i \<noteq> c"
    consider "i = p" | "i \<noteq> p" "par i = p" | "i \<noteq> p" "par i \<noteq> p" by blast
    then show "\<not> cmp ((h(p := h c)) (par i)) ((h(p := h c)) i)"
    proof cases
      case 1
      then show ?thesis using i c free_holeD(2) [OF assms(1), of c] par_less [of p] by auto
    next
      case 2
      then show ?thesis using i assms(2) by (simp add: big_child_def)
    next
      case 3
      then show ?thesis using i free_holeD(1) [OF assms(1), of i] by simp
    qed
  next
    fix i assume i: "0 < i \<and> i < n" and ci: "par i = c \<and> 0 < c"
    then have "p \<noteq> i" "i \<noteq> p" using c par_less [of i] by auto
    with i ci c free_holeD(1) [OF assms(1), of i] show "\<not> cmp ((h(p := h c)) (par c)) ((h(p := h c)) i)"
      by simp
  qed
qed

lemma floyd_sift_down_loop_correct:
  assumes "free_hole cmp n p (at_from m f)" "2 * p + 1 < n" "f + n \<le> length m"
  shows "\<exists>m' p'. floyd_sift_down_loop m cmp n (f + p) p (f + p) = Some (m', f + p') \<and>
           0 < p' \<and> p' < n \<and> n \<le> 2 * p' + 1 \<and> free_hole cmp n p' (at_from m' f) \<and>
           frame m m' f (f + n) \<and> (\<forall>x. mset (m'[f + p' := x]) = mset (m[f + p := x]))"
  using assms
proof (induction "n - p" arbitrary: m p rule: less_induct)
  case less
  note unfold = floyd_sift_down_loop.simps [of m cmp n "f + p" p "f + p"]
  obtain c where lc: "larger_child m cmp n (2 * p + 1) (f + (2 * p + 1)) = Some (c, f + c)"
    and big: "big_child cmp n (at_from m f) p c"
    using larger_child_cases [of "2 * p + 1" p n f m cmp] less.prems asym irrefl by blast
  let ?m = "m[f + p := m ! (f + c)]"
  have c: "p < c" "c < n" "0 < c" "f + c < length m" "f + p < length m"
    using big par_less [of c] less.prems by (auto simp: big_child_def)
  have hole: "free_hole cmp n c (at_from ?m f)"
    using free_step [OF less.prems(1) big] c by (simp add: at_from_update) (simp add: at_from_def)
  have fr: "frame m ?m f (f + n)" using c by (intro frame_update frame_refl) auto
  have ms: "mset (?m[f + c := x]) = mset (m[f + p := x])" for x using c by (intro mset_hole_move) auto
  have eq: "floyd_sift_down_loop m cmp n (f + p) p (f + p) =
      (if n \<le> 2 * c + 1 then Some (?m, f + c) else floyd_sift_down_loop ?m cmp n (f + c) c (f + c))"
    using lc c less.prems(2) by (simp add: unfold mem_simps Let_def leaf_iff mult_2 add.assoc)
  show ?case
  proof (cases "n \<le> 2 * c + 1")
    case True
    with eq c hole fr ms show ?thesis by auto
  next
    case False
    have "n - c < n - p" using c by simp
    from less.hyps [OF this hole] False less.prems(3) eq ms frame_trans [OF fr] show ?thesis
      by simp blast
  qed
qed

text \<open>\<^verbatim>\<open>__pop_heap\<close> puts the largest element last and leaves a heap before it.\<close>

lemma pop_heap_impl_swo:
  assumes "heap_at cmp m f n" "2 \<le> n" "f + n \<le> length m"
  shows "\<exists>m'. pop_heap_impl m f (f + n) cmp n = Some m' \<and> heap_at cmp m' f (n - 1) \<and>
           m' ! (f + n - 1) = m ! f \<and> permuted m m' f (f + n)"
proof -
  let ?l = "f + n - 1" let ?t = "m ! f"
  obtain m1 p where fl: "floyd_sift_down m f cmp n = Some (m1, f + p)"
    and p: "0 < p" "p < n" "n \<le> 2 * p + 1" and free: "free_hole cmp n p (at_from m1 f)"
    and fr: "frame m m1 f (f + n)" and ms: "\<And>x. mset (m1[f + p := x]) = mset (m[f := x])"
    using floyd_sift_down_loop_correct [OF free_start, of n m f] assms
    by (auto simp: floyd_sift_down_def heap_at_def)
  have len: "length m1 = length m" using fr by (rule frame_length)
  have ok: "\<not> cmp (at_from m1 f (par i)) (at_from m1 f i)" if "0 < i" "i < n" "i \<noteq> p" for i
    using free_holeD(1) [OF free, of i] par_leaf [of i n p] that p by simp
  have "mset (m1[f + p := ?t]) = mset m" using ms [of ?t] by simp
  note ms' = this
  show ?thesis
  proof (cases "p = n - 1")
    case True
    let ?m = "m1[f + p := ?t]"
    have "pop_heap_impl m f (f + n) cmp n = Some ?m"
      using fl True assms len p by (simp add: pop_heap_impl_def mem_simps)
    moreover have "heap_at cmp ?m f (n - 1)"
      unfolding heap_at_def
    proof (rule heap_fromI)
      fix i assume i: "0 < i" "i < n - 1"
      have v: "at_from ?m f = (at_from m1 f)(p := ?t)" using p len assms(3) by (simp add: at_from_update)
      show "\<not> cmp (at_from ?m f (par i)) (at_from ?m f i)"
        using ok [of i] True par_less [of i] i unfolding v by auto
    qed
    moreover have "permuted m ?m f (f + n)"
      using ms' fr p by (auto simp: permuted_def intro: frame_update)
    ultimately show ?thesis using True p len assms by (auto simp: Nat.add_diff_assoc)
  next
    case False
    let ?m2 = "m1[f + p := m1 ! ?l]" let ?m3 = "?m2[?l := ?t]"
    have l: "?l < length m1" "f + p \<noteq> ?l" "?l = f + (n - 1)" using p len assms False by auto
    have "up_hole cmp (n - 1) p (at_from ?m3 f)"
      unfolding up_hole_def
    proof (intro allI impI conjI)
      fix i assume i: "0 < i \<and> i < n - 1" and "i \<noteq> p"
      then have "i < n" by linarith
      have v: "at_from ?m3 f = (at_from m1 f)(p := m1 ! ?l, n - 1 := ?t)"
        unfolding l(3) using l p len assms(3) by (subst at_from_update; simp add: at_from_update)
      show "\<not> cmp (at_from ?m3 f (par i)) (at_from ?m3 f i)"
        using ok [of i] par_leaf [of i n p] par_less [of i] p i \<open>i \<noteq> p\<close> \<open>i < n\<close> unfolding v by auto
    next
      fix i assume "0 < i \<and> i < n - 1" and pi: "par i = p \<and> 0 < p"
      then have "0 < i" "i < n" by linarith+
      with pi par_leaf [of i n p] p show "\<not> cmp (at_from ?m3 f (par p)) (at_from ?m3 f i)" by simp
    qed
    moreover have "p < n - 1" "f + (n - 1) \<le> length ?m3" using p False len assms by auto
    ultimately obtain m' where m': "sift_up ?m3 f (f + Suc p) cmp (Suc p) = Some m'"
      "heap_from cmp 0 (n - 1) (at_from m' f)" "permuted ?m3 m' f (f + Suc p)"
      using sift_up_correct [of "n - 1" p ?m3 f] by blast
    have "mset ?m3 = mset m"
      using ms' mset_hole_move [of "f + p" m1 ?l ?t] l p len assms by simp
    moreover have "frame m ?m3 f (f + n)"
      using fr p l by (auto intro!: frame_update)
    ultimately have "permuted m m' f (f + n)"
      using permuted_mono [OF m'(3)] p by (auto simp: permuted_def intro: frame_trans)
    moreover have "m' ! ?l = ?t"
    proof -
      have "f + Suc p \<le> ?l" using p False by linarith
      with permuted_nth [OF m'(3), of ?l] l show ?thesis by simp
    qed
    moreover have "pop_heap_impl m f (f + n) cmp n = Some m'"
      using fl m'(1) l p False assms len by (simp add: pop_heap_impl_def mem_simps)
    ultimately show ?thesis using m'(2) by (simp add: heap_at_def)
  qed
qed

lemma sort_heap_loop_correct:
  assumes "heap_at cmp m f n" "f + n \<le> b" "b \<le> length m" "sorted_by cmp (seg m (f + n) b)"
    "\<forall>x \<in> set (seg m f (f + n)). \<forall>y \<in> set (seg m (f + n) b). \<not> cmp y x"
  shows "\<exists>m'. sort_heap_loop m f (f + n) cmp n = Some m' \<and> permuted m m' f (f + n) \<and>
           sorted_by cmp (seg m' f b)"
  using assms
proof (induction n arbitrary: m rule: less_induct)
  case (less n)
  note unfold = sort_heap_loop.simps [of m f "f + n" cmp n]
  show ?case
  proof (cases "n \<le> 1")
    case True
    then have "seg m f b = seg m f (f + n) @ seg m (f + n) b" "length (seg m f (f + n)) \<le> 1"
      using less.prems seg_append [of f "f + n" b m] by simp_all
    moreover from this have "sorted_by cmp (seg m f (f + n))"
      by (cases "seg m f (f + n)") simp_all
    ultimately have "sorted_by cmp (seg m f b)" using less.prems by auto
    with True show ?thesis by (auto simp: unfold)
  next
    case False
    let ?k = "n - 1"
    have fk: "f + n - 1 = f + ?k" "Suc (f + ?k) = f + n" using False by auto
    obtain m1 where m1: "pop_heap_impl m f (f + n) cmp n = Some m1" "heap_at cmp m1 f ?k"
        "m1 ! (f + ?k) = m ! f" "permuted m m1 f (f + n)"
      using pop_heap_impl_swo [OF less.prems(1)] False less.prems fk by auto
    have len: "length m1 = length m" using m1(4) by (rule permuted_length)
    have top: "\<not> cmp (m ! f) x" if "x \<in> set (seg m f (f + n))" for x
      using heap_at_front_largest [OF less.prems(1) that] less.prems by simp
    have tail: "seg m1 (f + n) b = seg m (f + n) b"
      using m1(4) by (auto simp: permuted_def intro: frame_seg_out)
    have sets: "set (seg m1 f (f + n)) = set (seg m f (f + n))"
      using m1(4) by (rule permuted_set_seg) simp
    have mf: "m ! f \<in> set (seg m f (f + n))"
      using False less.prems by (auto simp: in_set_seg intro: exI [of _ f])
    have split: "seg m1 f (f + n) = seg m1 f (f + ?k) @ [m ! f]"
      using seg_snoc [of f "f + ?k" m1] m1(3) fk less.prems len False by simp
    have tail': "seg m1 (f + ?k) b = m ! f # seg m (f + n) b"
      using seg_Cons [of "f + ?k" b m1] m1(3) fk less.prems len False tail by simp
    have kb: "?k < n" "f + ?k \<le> b" "b \<le> length m1" using fk less.prems len False by auto
    have "sorted_by cmp (seg m1 (f + ?k) b)"
      using less.prems(4,5) mf unfolding tail' by simp
    moreover have "\<forall>x \<in> set (seg m1 f (f + ?k)). \<forall>y \<in> set (seg m1 (f + ?k) b). \<not> cmp y x"
      using less.prems(5) top sets split unfolding tail' by auto
    ultimately obtain m2 where m2: "sort_heap_loop m1 f (f + ?k) cmp ?k = Some m2"
      "permuted m1 m2 f (f + ?k)" "sorted_by cmp (seg m2 f b)"
      using less.IH [OF kb(1) m1(2) kb(2,3)] by auto
    moreover have "permuted m m2 f (f + n)"
      using m1(4) permuted_mono [OF m2(2)] by (auto intro: permuted_trans)
    moreover have "sort_heap_loop m f (f + n) cmp n = Some m2"
      using m1(1) m2(1) False fk by (simp add: unfold)
    ultimately show ?thesis by blast
  qed
qed

lemma sort_heap_impl_swo:
  assumes "heap_at cmp m a (b - a)" "a \<le> b" "b \<le> length m"
  shows "\<exists>m'. sort_heap_impl m a b cmp = Some m' \<and> permuted m m' a b \<and> sorted_by cmp (seg m' a b)"
  using sort_heap_loop_correct [of m a "b - a" b] assms by (simp add: sort_heap_impl_def)

lemma push_heap_swo:
  assumes "heap_at cmp m a (b - a - 1)" "a < b" "b \<le> length m"
  shows "\<exists>m'. push_heap m a b cmp = Some m' \<and> heap_at cmp m' a (b - a) \<and> permuted m m' a b"
proof -
  let ?p = "b - a - 1"
  have "up_hole cmp (b - a) ?p (at_from m a)"
    unfolding up_hole_def
  proof (intro allI impI conjI)
    fix i assume "0 < i \<and> i < b - a" "i \<noteq> ?p"
    with assms(1) show "\<not> cmp (at_from m a (par i)) (at_from m a i)"
      by (intro heap_fromD [of cmp 0 ?p]) (auto simp: heap_at_def)
  next
    fix i assume "0 < i \<and> i < b - a" "par i = ?p \<and> 0 < ?p"
    with par_less [of i] show "\<not> cmp (at_from m a (par ?p)) (at_from m a i)" by simp
  qed
  with sift_up_correct [of "b - a" ?p m a] assms show ?thesis
    by (auto simp: push_heap_def push_heap_impl_def heap_at_def Suc_diff_Suc)
qed

lemma heap_front_free:
  assumes "heap_at cmp m f n" "\<And>j. 0 < j \<Longrightarrow> j < n \<Longrightarrow> m' ! (f + j) = m ! (f + j)"
  shows "heap_from cmp (Suc 0) n (at_from m' f)"
proof (rule heap_fromI)
  fix j assume j: "0 < j" "j < n" "Suc 0 \<le> par j"
  with par_less [of j] have "0 < par j" "par j < n" by auto
  with j assms show "\<not> cmp (at_from m' f (par j)) (at_from m' f j)"
    by (simp add: heap_at_def heap_from_def at_from_def)
qed

lemma partial_sort_loop_correct:
  assumes "heap_at cmp m f n" "0 < n" "f + n \<le> i" "i \<le> b" "b \<le> length m"
    "\<forall>x \<in> set (seg m (f + n) i). \<not> cmp x (m ! f)"
  shows "\<exists>m'. partial_sort_loop m f cmp n b i = Some (m', b) \<and> heap_at cmp m' f n \<and>
           permuted m m' f b \<and> (\<forall>x \<in> set (seg m' (f + n) b). \<not> cmp x (m' ! f))"
  using assms
proof (induction "b - i" arbitrary: m i)
  case 0
  then show ?case by (auto simp: partial_sort_loop.simps [of m])
next
  case (Suc k)
  note unfold = partial_sort_loop.simps [of m f cmp n b i]
  have i: "i < b" "i \<noteq> b" "i < length m" "f < length m" "f \<noteq> i" using Suc by auto
  have snoc: "seg m' (f + n) (Suc i) = seg m' (f + n) i @ [m' ! i]" if "length m' = length m" for m'
    using that i Suc.prems(3) by (intro seg_snoc) auto
  show ?case
  proof (cases "cmp (m ! i) (m ! f)")
    case False
    have "\<forall>x \<in> set (seg m (f + n) (Suc i)). \<not> cmp x (m ! f)"
      using Suc.prems(6) False by (auto simp: snoc)
    with Suc.hyps(1) [of "Suc i" m] Suc.hyps(2) Suc.prems i False show ?thesis
      by (simp add: unfold mem_simps)
  next
    case True
    let ?m1 = "m[i := m ! f, f := m ! i]"
    have "heap_from cmp (Suc 0) n (at_from ?m1 f)"
      using Suc.prems(1) by (rule heap_front_free) (use Suc.prems(3) in simp)
    with sift_down_correct [of 0 n ?m1 f] obtain m2 where m2: "sift_down ?m1 f cmp n f = Some m2"
      "heap_at cmp m2 f n" "permuted ?m1 m2 f (f + n)"
      using Suc.prems by (auto simp: heap_at_def)
    have len: "length m2 = length m" using permuted_length [OF m2(3)] by simp
    have p1: "permuted m m2 f b"
      using permuted_swap [of f i b f m] permuted_mono [OF m2(3), of f b] i Suc.prems
      by (auto intro: permuted_trans)
    have "seg m2 (f + n) i = seg m (f + n) i"
      using m2(3) by (intro nth_equalityI) (use i len Suc.prems in \<open>auto simp: permuted_nth [OF m2(3)]\<close>)
    moreover have "m2 ! i = m ! f"
      using permuted_nth [OF m2(3), of i] i Suc.prems by simp
    moreover have front: "\<not> cmp (m ! f) (m2 ! f)"
    proof -
      have "m2 ! f \<in> set (seg m2 f (f + n))"
        using Suc.prems len by (auto simp: in_set_seg intro: exI [of _ f])
      also have "\<dots> = set (seg ?m1 f (f + n))" using m2(3) by (rule permuted_set_seg) simp
      finally have "m2 ! f = m ! i \<or> m2 ! f \<in> set (seg m f (f + n))"
        using Suc.prems i by (auto simp: in_set_seg nth_list_update split: if_splits)
      then show ?thesis
        using asym [OF True] heap_at_front_largest [OF Suc.prems(1)] Suc.prems by auto
    qed
    ultimately have "\<forall>x \<in> set (seg m2 (f + n) (Suc i)). \<not> cmp x (m2 ! f)"
      using Suc.prems(6) by (auto simp: snoc [OF len] dest: neg_trans [OF _ front])
    moreover have "k = b - Suc i" using Suc.hyps(2) by simp
    ultimately obtain m' where
      "partial_sort_loop m2 f cmp n b (Suc i) = Some (m', b)" "heap_at cmp m' f n"
      "permuted m2 m' f b" "\<forall>x \<in> set (seg m' (f + n) b). \<not> cmp x (m' ! f)"
      using Suc.hyps(1) [of "Suc i" m2] m2(2) Suc.prems(2-5) i len by auto
    moreover have "partial_sort_loop m f cmp n b i = partial_sort_loop m2 f cmp n b (Suc i)"
      using i True m2(1) by (simp add: unfold mem_simps)
    ultimately show ?thesis using p1 by (auto intro: permuted_trans)
  qed
qed

lemma partial_sort_swo:
  assumes "a \<le> k" "k \<le> b" "b \<le> length m"
  shows "\<exists>m'. partial_sort m a k b cmp = Some m' \<and> permuted m m' a b \<and> sorted_by cmp (seg m' a k) \<and>
           (\<forall>x \<in> set (seg m' a k). \<forall>y \<in> set (seg m' k b). \<not> cmp y x)"
proof (cases "a = k")
  case True
  then show ?thesis by (auto simp: partial_sort_def partial_sort_alg_def)
next
  case False
  with assms have ak: "a + (k - a) = k" "0 < k - a" by auto
  obtain m1 where m1: "make_heap_impl m a k cmp = Some m1" "heap_at cmp m1 a (k - a)" "permuted m m1 a k"
    using make_heap_impl_swo [of a k m] assms by auto
  obtain m2 where m2: "partial_sort_loop m1 a cmp (k - a) b k = Some (m2, b)" "heap_at cmp m2 a (k - a)"
      "permuted m1 m2 a b" "\<forall>x \<in> set (seg m2 k b). \<not> cmp x (m2 ! a)"
    using partial_sort_loop_correct [of m1 a "k - a" k b] m1 ak assms by (auto simp: permuted_length)
  obtain m3 where m3: "sort_heap_impl m2 a k cmp = Some m3" "permuted m2 m3 a k" "sorted_by cmp (seg m3 a k)"
    using sort_heap_impl_swo [OF m2(2)] assms m1 m2 by (auto simp: permuted_length)
  have len: "length m2 = length m" using m1(3) m2(3) by (simp add: permuted_length)
  have "\<not> cmp y x" if "x \<in> set (seg m3 a k)" "y \<in> set (seg m3 k b)" for x y
  proof -
    have "x \<in> set (seg m2 a k)" using that(1) permuted_set_seg [OF m3(2) assms(1)] by simp
    then have "\<not> cmp (m2 ! a) x"
      using heap_at_front_largest [OF m2(2), of x] ak assms len by simp
    moreover have "seg m3 k b = seg m2 k b"
      using m3(2) by (auto simp: permuted_def intro: frame_seg_out)
    ultimately show ?thesis using that(2) m2(4) neg_trans [of y "m2 ! a" x] by simp
  qed
  moreover have "permuted m m3 a b"
    using permuted_mono [OF m1(3)] permuted_mono [OF m3(2)] m2(3) assms
    by (blast intro: permuted_trans)
  moreover have "partial_sort m a k b cmp = Some m3"
    using m1(1) m2(1) m3(1) False by (simp add: partial_sort_def partial_sort_alg_def partial_sort_impl_def)
  ultimately show ?thesis using m3(3) by blast
qed

end

lemma heap_from_Suc:
  "heap_from cmp 0 n h \<Longrightarrow> 0 < n \<Longrightarrow> heap_from cmp 0 (Suc n) h \<longleftrightarrow> \<not> cmp (h (par n)) (h n)"
  by (auto simp: heap_from_def less_Suc_eq)

lemma is_heap_until_loop_correct:
  assumes "heap_from cmp 0 (min n (2 * p + 1)) (at_from m f)" "f + n \<le> length m"
  shows "\<exists>k. is_heap_until_loop m f (f + n) cmp n p (2 * p + 1) (f + p) = Some (f + k) \<and> k \<le> n \<and>
           heap_at cmp m f k \<and> (k < n \<longrightarrow> \<not> heap_at cmp m f (Suc k))"
  using assms
proof (induction "n - p" arbitrary: p rule: less_induct)
  case less
  note unfold = is_heap_until_loop.simps [of m f "f + n" cmp n p "Suc (2 * p)" "f + p"]
  let ?h = "at_from m f"
  show ?case
  proof (cases "2 * p + 1 < n")
    case False
    with less.prems show ?thesis
      by (intro exI [of _ n]) (simp add: unfold heap_at_def min_def)
  next
    case True
    then have h1: "heap_from cmp 0 (2 * p + 1) ?h" using less.prems(1) by (simp add: min_def)
    note s1 = heap_from_Suc [OF h1, simplified]
    show ?thesis
    proof (cases "cmp (?h p) (?h (2 * p + 1))")
      case c: True
      with h1 s1 True less.prems show ?thesis
        by (intro exI [of _ "2 * p + 1"]) (simp add: unfold mem_simps heap_at_def at_from_def Let_def)
    next
      case False
      then have h2: "heap_from cmp 0 (2 * p + 2) ?h" using s1 by simp
      note s2 = heap_from_Suc [OF h2, simplified]
      consider "2 * p + 2 = n" | "2 * p + 2 < n" "cmp (?h p) (?h (2 * p + 2))"
        | "2 * p + 2 < n" "\<not> cmp (?h p) (?h (2 * p + 2))" using True by linarith
      then show ?thesis
      proof cases
        case 1
        with False h2 less.prems show ?thesis
          by (intro exI [of _ n]) (simp add: unfold mem_simps heap_at_def at_from_def Let_def)
      next
        case 2
        with False h2 s2 less.prems show ?thesis
          by (intro exI [of _ "2 * p + 2"])
            (simp add: unfold mem_simps heap_at_def at_from_def Let_def)
      next
        case 3
        then have "heap_from cmp 0 (min n (2 * Suc p + 1)) ?h"
          using s2 by (simp add: min_def eval_nat_numeral) (metis Suc_le_eq heap_from_smaller le_antisym not_less_eq_eq)
        moreover have "n - Suc p < n - p" using 3 by simp
        moreover have "is_heap_until_loop m f (f + n) cmp n p (2 * p + 1) (f + p) =
            is_heap_until_loop m f (f + n) cmp n (Suc p) (2 * Suc p + 1) (f + Suc p)"
          using 3 False less.prems by (simp add: unfold mem_simps at_from_def Let_def)
        ultimately show ?thesis using less.hyps [of "Suc p"] less.prems by simp
      qed
    qed
  qed
qed

lemma is_heap_until_eq:
  assumes "a \<le> b" "b \<le> length m"
  shows "\<exists>k. is_heap_until_impl m a b cmp = Some (a + k) \<and> k \<le> b - a \<and>
           heap_at cmp m a k \<and> (k < b - a \<longrightarrow> \<not> heap_at cmp m a (Suc k))"
proof -
  have "heap_from cmp 0 (min (b - a) (2 * 0 + 1)) (at_from m a)" by (rule heap_from_trivial) simp
  from is_heap_until_loop_correct [OF this] assms show ?thesis by (simp add: is_heap_until_impl_def)
qed

lemma is_heap_eq:
  assumes "a \<le> b" "b \<le> length m"
  shows "is_heap m a b cmp = Some (heap_at cmp m a (b - a))"
proof -
  obtain k where k: "is_heap_until_impl m a b cmp = Some (a + k)" "k \<le> b - a"
    "heap_at cmp m a k" "k < b - a \<longrightarrow> \<not> heap_at cmp m a (Suc k)"
    using is_heap_until_eq [OF assms] by blast
  moreover have "\<not> heap_at cmp m a (b - a)" if "k < b - a"
    using that k(4) heap_from_smaller [of cmp 0 "b - a" "at_from m a" "Suc k"] by (auto simp: heap_at_def)
  ultimately show ?thesis using assms by (cases "k = b - a") (auto simp: is_heap_def)
qed

section \<open>Partial sort into another range\<close>

lemma partial_sort_copy_fill_correct:
  assumes "f \<le> l" "l \<le> length src" "r \<le> rl" "rl \<le> length m"
  shows "\<exists>m' k. partial_sort_copy_fill src f l m r rl = Some (m', f + k, r + k) \<and>
           k = min (l - f) (rl - r) \<and> frame m m' r (r + k) \<and> seg m' r (r + k) = seg src f (f + k)"
  using assms
proof (induction "l - f" arbitrary: f r m)
  case 0
  then show ?case by (auto simp: partial_sort_copy_fill.simps [of src])
next
  case (Suc n)
  note unfold = partial_sort_copy_fill.simps [of src f l m r rl]
  show ?case
  proof (cases "r = rl")
    case True
    then show ?thesis
      using Suc.prems by (simp add: partial_sort_copy_fill.simps [of src f l m rl rl])
  next
    case False
    let ?m = "m[r := src ! f]"
    have "n = l - Suc f" "Suc f \<le> l" "Suc r \<le> rl" using Suc.hyps(2) Suc.prems(3) False by auto
    then obtain m' k where m': "partial_sort_copy_fill src (Suc f) l ?m (Suc r) rl = Some (m', Suc f + k, Suc r + k)"
      "k = min (l - Suc f) (rl - Suc r)" "frame ?m m' (Suc r) (Suc r + k)"
      "seg m' (Suc r) (Suc r + k) = seg src (Suc f) (Suc f + k)"
      using Suc.hyps(1) [of "Suc f" "Suc r" ?m] Suc.prems by auto
    have "frame m m' r (r + Suc k)"
      using frame_mono [OF m'(3), of r "r + Suc k"] frame_update [of r r "r + Suc k" m m]
      by (auto intro: frame_trans)
    moreover have "seg m' r (r + Suc k) = seg src f (f + Suc k)"
      using m'(2-4) frame_nth [OF m'(3), of r] frame_length [OF m'(3)] Suc.hyps(2) Suc.prems False
      by (simp add: seg_Cons)
    moreover have "Suc k = min (l - f) (rl - r)" using m'(2) Suc.hyps(2) Suc.prems False by arith
    ultimately show ?thesis
      using m'(1) Suc.hyps(2) Suc.prems False by (intro exI [of _ m'] exI [of _ "Suc k"]) (auto simp: unfold mem_simps)
  qed
qed

context strict_weak_order
begin

lemma partial_sort_copy_scan_correct:
  assumes "heap_at cmp m rf n" "0 < n" "rf + n \<le> length m" "i \<le> l" "l \<le> length src"
  shows "\<exists>m' rest. partial_sort_copy_scan src i l m rf n cmp id id = Some (m', l) \<and>
           heap_at cmp m' rf n \<and> frame m m' rf (rf + n) \<and>
           mset (seg m rf (rf + n)) + mset (seg src i l) = mset (seg m' rf (rf + n)) + rest \<and>
           (\<forall>x \<in># rest. \<not> cmp x (m' ! rf)) \<and> \<not> cmp (m ! rf) (m' ! rf)"
  using assms
proof (induction "l - i" arbitrary: i m)
  case 0
  then show ?case
    by (intro exI [of _ m] exI [of _ "{#}"]) (simp add: partial_sort_copy_scan.simps [of src] irrefl)
next
  case (Suc k)
  note unfold = partial_sort_copy_scan.simps [of src i l m rf n cmp]
  let ?x = "src ! i"
  have i: "i < l" "i < length src" "k = l - Suc i" "rf < length m" "Suc i \<le> l" using Suc by auto
  show ?case
  proof (cases "cmp ?x (m ! rf)")
    case False
    obtain m' rest where m': "partial_sort_copy_scan src (Suc i) l m rf n cmp id id = Some (m', l)"
      "heap_at cmp m' rf n" "frame m m' rf (rf + n)" "\<not> cmp (m ! rf) (m' ! rf)"
      "mset (seg m rf (rf + n)) + mset (seg src (Suc i) l) = mset (seg m' rf (rf + n)) + rest"
      "\<forall>x \<in># rest. \<not> cmp x (m' ! rf)"
      using Suc.hyps(1) [OF i(3) Suc.prems(1-3) i(5) Suc.prems(5)] by blast
    then show ?thesis
      using i False neg_trans [OF False m'(4)]
      by (intro exI [of _ m'] exI [of _ "add_mset ?x rest"]) (simp add: unfold mem_simps seg_Cons)
  next
    case True
    let ?m1 = "m[rf := ?x]" let ?T = "seg m (Suc rf) (rf + n)"
    have "heap_from cmp (Suc 0) n (at_from ?m1 rf)"
      using Suc.prems(1) by (rule heap_front_free) simp
    with sift_down_correct [of 0 n ?m1 rf] Suc.prems obtain m2 where
      m2: "sift_down ?m1 rf cmp n rf = Some m2" "heap_at cmp m2 rf n" "permuted ?m1 m2 rf (rf + n)"
      by (auto simp: heap_at_def)
    have len: "length m2 = length m" using permuted_length [OF m2(3)] by simp
    have "seg ?m1 (Suc rf) (rf + n) = ?T" by (intro frame_seg_out [of _ _ rf "Suc rf"] frame_update) auto
    then have segs: "seg ?m1 rf (rf + n) = ?x # ?T" "seg m rf (rf + n) = m ! rf # ?T"
      using Suc.prems(2) i by (simp_all add: seg_Cons)
    have ms: "mset (seg m2 rf (rf + n)) = add_mset ?x (mset ?T)"
      using permuted_mset_seg [OF m2(3)] segs by simp
    have "m2 ! rf \<in> set (seg m2 rf (rf + n))" using seg_Cons [of rf "rf + n" m2] len Suc.prems(2) i by simp
    then have "m2 ! rf = ?x \<or> m2 ! rf \<in> set ?T" using ms by (metis insert_iff set_mset_add_mset_insert set_mset_mset)
    then have front: "\<not> cmp (m ! rf) (m2 ! rf)"
      using asym [OF True] heap_at_front_largest [OF Suc.prems(1)] Suc.prems(3) segs by auto
    have fr: "frame m m2 rf (rf + n)"
      using m2(3) frame_update [of rf rf "rf + n" m m] Suc.prems(2) by (auto simp: permuted_def intro: frame_trans)
    obtain m' rest where m': "partial_sort_copy_scan src (Suc i) l m2 rf n cmp id id = Some (m', l)"
      "heap_at cmp m' rf n" "frame m2 m' rf (rf + n)" "\<not> cmp (m2 ! rf) (m' ! rf)"
      "mset (seg m2 rf (rf + n)) + mset (seg src (Suc i) l) = mset (seg m' rf (rf + n)) + rest"
      "\<forall>x \<in># rest. \<not> cmp x (m' ! rf)"
      using Suc.hyps(1) [OF i(3) m2(2) Suc.prems(2) _ i(5) Suc.prems(5)] Suc.prems(3) len by auto
    have "partial_sort_copy_scan src i l m rf n cmp id id = Some (m', l)"
      using i True m2(1) m'(1) by (simp add: unfold mem_simps)
    moreover have "mset (seg m rf (rf + n)) + mset (seg src i l) =
        mset (seg m' rf (rf + n)) + add_mset (m ! rf) rest"
      using m'(5) ms segs i by (simp add: seg_Cons [of i])
    ultimately show ?thesis
      using m' frame_trans [OF fr m'(3)] neg_trans [OF front m'(4)]
      by (intro exI [of _ m'] exI [of _ "add_mset (m ! rf) rest"]) simp
  qed
qed

lemma partial_sort_copy_swo:
  assumes "f \<le> l" "l \<le> length src" "rf \<le> rl" "rl \<le> length m"
  shows "\<exists>m' r rest. partial_sort_copy src f l m rf rl cmp = Some (m', r) \<and>
           r = rf + min (l - f) (rl - rf) \<and> frame m m' rf r \<and> sorted_by cmp (seg m' rf r) \<and>
           mset (seg src f l) = mset (seg m' rf r) + rest \<and>
           (\<forall>x \<in># rest. \<forall>y \<in> set (seg m' rf r). \<not> cmp x y)"
proof (cases "rf = rl \<or> f = l")
  case True
  then consider "rf = rl" | "f = l" "rf \<noteq> rl" by blast
  then show ?thesis
  proof cases
    case 1
    then show ?thesis
      by (simp add: partial_sort_copy_def partial_sort_copy_impl_def partial_sort_copy_fill.simps [of src f])
  next
    case 2
    then show ?thesis
      by (simp add: partial_sort_copy_def partial_sort_copy_impl_def partial_sort_copy_fill.simps [of src l]
        partial_sort_copy_scan.simps [of src l] make_heap_impl_def sort_heap_impl_def sort_heap_loop.simps)
  qed
next
  case False
  let ?k = "min (l - f) (rl - rf)" let ?r = "rf + ?k"
  have k: "0 < ?k" "?r \<le> length m" "f + ?k \<le> l" using False assms by auto
  obtain m1 where m1: "partial_sort_copy_fill src f l m rf rl = Some (m1, f + ?k, ?r)" "frame m m1 rf ?r"
      "seg m1 rf ?r = seg src f (f + ?k)"
    using partial_sort_copy_fill_correct [OF assms] by auto
  obtain m2 where m2: "make_heap_impl m1 rf ?r cmp = Some m2" "heap_at cmp m2 rf ?k" "permuted m1 m2 rf ?r"
    using make_heap_impl_swo [of rf ?r m1] k frame_length [OF m1(2)] by auto
  have len: "length m2 = length m" using m1 m2 by (simp add: permuted_length frame_length)
  obtain m3 rest where m3: "partial_sort_copy_scan src (f + ?k) l m2 rf ?k cmp id id = Some (m3, l)"
      "heap_at cmp m3 rf ?k" "frame m2 m3 rf ?r" "\<forall>x \<in># rest. \<not> cmp x (m3 ! rf)"
      "mset (seg m2 rf ?r) + mset (seg src (f + ?k) l) = mset (seg m3 rf ?r) + rest"
    using partial_sort_copy_scan_correct [OF m2(2) k(1) _ k(3) assms(2)] k(2) len by auto
  obtain m4 where m4: "sort_heap_impl m3 rf ?r cmp = Some m4" "permuted m3 m4 rf ?r" "sorted_by cmp (seg m4 rf ?r)"
    using sort_heap_impl_swo [of m3 rf ?r] m3(2) k len frame_length [OF m3(3)] by auto
  have fr: "frame m m4 rf ?r"
    using m1(2) m2(3) m3(3) m4(2) by (auto simp: permuted_def intro: frame_trans)
  have m4m3: "mset (seg m4 rf ?r) = mset (seg m3 rf ?r)" using m4(2) by (rule permuted_mset_seg) simp
  have "mset (seg src f l) = mset (seg src f (f + ?k)) + mset (seg src (f + ?k) l)"
    using seg_append [of f "f + ?k" l src] k by simp
  also have "\<dots> = mset (seg m2 rf ?r) + mset (seg src (f + ?k) l)"
    using m1(3) permuted_mset_seg [OF m2(3)] by simp
  finally have ms: "mset (seg src f l) = mset (seg m4 rf ?r) + rest" using m3(5) m4m3 by simp
  have "\<not> cmp x y" if "x \<in># rest" "y \<in> set (seg m4 rf ?r)" for x y
  proof -
    have "y \<in> set (seg m3 rf ?r)" using that(2) m4m3 by (metis set_mset_mset)
    then have "\<not> cmp (m3 ! rf) y"
      using heap_at_front_largest [OF m3(2)] k len frame_length [OF m3(3)] by simp
    with that(1) m3(4) neg_trans [of x "m3 ! rf" y] show ?thesis by blast
  qed
  moreover have "partial_sort_copy src f l m rf rl cmp = Some (m4, ?r)"
    using m1(1) m2(1) m3(1) m4(1) False
    by (simp add: partial_sort_copy_def partial_sort_copy_impl_def id_def)
  ultimately show ?thesis using fr m4(3) ms by blast
qed

lemma pop_heap_swo:
  assumes "heap_at cmp m a (b - a)" "a < b" "b \<le> length m"
  shows "\<exists>m'. pop_heap m a b cmp = Some m' \<and> heap_at cmp m' a (b - a - 1) \<and>
           m' ! (b - 1) = m ! a \<and> permuted m m' a b"
proof (cases "b = Suc a")
  case True
  then show ?thesis by (simp add: pop_heap_def pop_heap_impl_def heap_at_def heap_from_def)
next
  case False
  then have "2 \<le> b - a" "a + (b - a) = b" using assms(2) by auto
  then show ?thesis using pop_heap_impl_swo [OF assms(1)] assms(3) by (simp add: pop_heap_def)
qed

lemma heap_sort_swo:
  assumes "a \<le> b" "b \<le> length m"
  shows "\<exists>m'. do { m1 \<leftarrow> make_heap m a b cmp; sort_heap m1 a b cmp } = Some m' \<and>
           permuted m m' a b \<and> sorted_by cmp (seg m' a b)"
proof -
  obtain m1 where m1: "make_heap_impl m a b cmp = Some m1" "heap_at cmp m1 a (b - a)" "permuted m m1 a b"
    using make_heap_impl_swo [OF assms] by blast
  then show ?thesis
    using sort_heap_impl_swo [OF m1(2) assms(1)] permuted_length [OF m1(3)] assms permuted_trans [OF m1(3)]
    by (auto simp: make_heap_def sort_heap_def)
qed

end

section \<open>The sorting contract\<close>

interpretation less_heap: range_sorter less_op
  "\<lambda>m a b. do { m1 \<leftarrow> make_heap m a b less_op; sort_heap m1 a b less_op }"
  by unfold_locales (rule less.heap_sort_swo)

sublocale strict_weak_order \<subseteq> heap_sorter:
  range_sorter cmp "\<lambda>m a b. do { m1 \<leftarrow> make_heap m a b cmp; sort_heap m1 a b cmp }"
  by unfold_locales (rule heap_sort_swo)

sublocale strict_weak_order \<subseteq> partial_sorter:
  range_sorter cmp "\<lambda>m a b. partial_sort m a b b cmp"
  by unfold_locales (use partial_sort_swo in blast)

section \<open>Properties\<close>

text \<open>
  C29: \<^verbatim>\<open>make_heap\<close> stays inside its range, rearranges it and establishes heap order, so that the
  front is a largest element.
\<close>

theorem make_heap_correct:
  assumes "strict_weak_order cmp" "a \<le> b" "b \<le> length m"
  shows "\<exists>m'. make_heap m a b cmp = Some m' \<and> permuted m m' a b \<and> heap_at cmp m' a (b - a) \<and>
           (\<forall>x \<in> set (seg m' a b). \<not> cmp (m' ! a) x)"
proof -
  obtain m' where m': "make_heap_impl m a b cmp = Some m'" "heap_at cmp m' a (b - a)" "permuted m m' a b"
    using strict_weak_order.make_heap_impl_swo [OF assms] by blast
  then have "\<not> cmp (m' ! a) x" if "x \<in> set (seg m' a b)" for x
    using strict_weak_order.heap_at_front_largest [OF assms(1) m'(2)] that assms permuted_length [OF m'(3)]
    by simp
  with m' show ?thesis by (auto simp: make_heap_def)
qed

theorem make_heap_correct_witness:
  "\<exists>m'. make_heap [9, 1, 3, 7, 5, 0 :: int] 1 5 less_op = Some m' \<and>
     permuted [9, 1, 3, 7, 5, 0] m' 1 5 \<and> heap_at less_op m' 1 (5 - 1) \<and>
     (\<forall>x \<in> set (seg m' 1 5). \<not> less_op (m' ! 1) x)"
  by (rule make_heap_correct [OF less.strict_weak_order_axioms]) simp_all

text \<open>
  \<^verbatim>\<open>push_heap\<close>: when all but the last element of the range form a heap, the whole range does
  afterwards, and it holds the same elements.
\<close>

theorem push_heap_correct:
  assumes "strict_weak_order cmp" "a < b" "b \<le> length m" "heap_at cmp m a (b - a - 1)"
  shows "\<exists>m'. push_heap m a b cmp = Some m' \<and> heap_at cmp m' a (b - a) \<and> permuted m m' a b"
  using strict_weak_order.push_heap_swo [OF assms(1,4,2,3)] .

lemma heap_at_code:
  "heap_at cmp m f n \<longleftrightarrow> (\<forall>i \<in> set [1..<n]. \<not> cmp (m ! (f + (i - 1) div 2)) (m ! (f + i)))"
  by (auto simp: heap_at_def heap_from_def at_from_def par_def)

theorem push_heap_correct_witness:
  "\<exists>m'. push_heap [9, 7, 5, 3, 8 :: int] 1 5 less_op = Some m' \<and>
     heap_at less_op m' 1 (5 - 1) \<and> permuted [9, 7, 5, 3, 8] m' 1 5"
  by (rule push_heap_correct [OF less.strict_weak_order_axioms]) (simp_all add: heap_at_code less_op_def upt_rec)

text \<open>
  \<^verbatim>\<open>pop_heap\<close> moves the front of a non-empty heap, a largest element, to the end of the range
  and leaves a heap of the others before it.
\<close>

theorem pop_heap_correct:
  assumes "strict_weak_order cmp" "a < b" "b \<le> length m" "heap_at cmp m a (b - a)"
  shows "\<exists>m'. pop_heap m a b cmp = Some m' \<and> heap_at cmp m' a (b - a - 1) \<and> permuted m m' a b \<and>
           m' ! (b - 1) = m ! a \<and> (\<forall>x \<in> set (seg m a b). \<not> cmp (m' ! (b - 1)) x)"
proof -
  have "\<not> cmp (m ! a) x" if "x \<in> set (seg m a b)" for x
    using strict_weak_order.heap_at_front_largest [OF assms(1,4)] that assms by simp
  then show ?thesis using strict_weak_order.pop_heap_swo [OF assms(1,4,2,3)] by auto
qed

theorem pop_heap_correct_witness:
  "\<exists>m'. pop_heap [0, 9, 7, 5, 3 :: int] 1 5 less_op = Some m' \<and> heap_at less_op m' 1 (5 - 1 - 1) \<and>
     permuted [0, 9, 7, 5, 3] m' 1 5 \<and> m' ! (5 - 1) = [0, 9, 7, 5, 3] ! 1 \<and>
     (\<forall>x \<in> set (seg [0, 9, 7, 5, 3] 1 5). \<not> less_op (m' ! (5 - 1)) x)"
  by (rule pop_heap_correct [OF less.strict_weak_order_axioms]) (simp_all add: heap_at_code less_op_def upt_rec)

text \<open>
  Heap sort: \<^verbatim>\<open>make_heap\<close> followed by \<^verbatim>\<open>sort_heap\<close> leaves exactly the sorted arrangement of
  the range and nothing else changed, on every linearly ordered element type.
\<close>

theorem heap_sort_correct:
  assumes "a \<le> b" "b \<le> length m"
  shows "do { m1 \<leftarrow> make_heap_less m a b; sort_heap_less m1 a b } =
           Some (put_seg m a b (sort (seg m a b)))"
  using less_heap.sorts [OF assms] sorted_permutation_unique [OF _ assms(1)]
  by (auto simp: make_heap_less_def sort_heap_less_def)

theorem heap_sort_correct_witness:
  "do { m1 \<leftarrow> make_heap_less [9, 4, 7, 1, 8 :: int] 1 4; sort_heap_less m1 1 4 } = Some [9, 1, 4, 7, 8]"
  using heap_sort_correct [of 1 4 "[9, 4, 7, 1, 8 :: int]"] by (simp add: put_seg_def seg_def)

text \<open>
  \<^verbatim>\<open>is_heap_until\<close> returns the end of the longest prefix of the range that is a heap, and
  \<^verbatim>\<open>is_heap\<close> decides heap order, for every comparator.
\<close>

theorem is_heap_until_correct:
  assumes "a \<le> b" "b \<le> length m"
  shows "\<exists>k. is_heap_until m a b cmp = Some (a + k) \<and> k \<le> b - a \<and> heap_at cmp m a k \<and>
           (k < b - a \<longrightarrow> \<not> heap_at cmp m a (Suc k)) \<and>
           is_heap m a b cmp = Some (heap_at cmp m a (b - a))"
  using is_heap_until_eq [OF assms, of cmp] is_heap_eq [OF assms, of cmp] by (auto simp: is_heap_until_def)

theorem is_heap_until_correct_witness:
  "\<exists>k. is_heap_until [5, 3, 4, 2, 9 :: int] 0 5 less_op = Some (0 + k) \<and> k \<le> 5 - 0 \<and>
     heap_at less_op [5, 3, 4, 2, 9 :: int] 0 k \<and> (k < 5 - 0 \<longrightarrow> \<not> heap_at less_op [5, 3, 4, 2, 9 :: int] 0 (Suc k)) \<and>
     is_heap [5, 3, 4, 2, 9 :: int] 0 5 less_op = Some (heap_at less_op [5, 3, 4, 2, 9 :: int] 0 (5 - 0))"
  by (rule is_heap_until_correct) simp_all

text \<open>
  \<^verbatim>\<open>partial_sort\<close> rearranges its range so that the part before \<^verbatim>\<open>middle\<close> is sorted and holds
  the smallest elements: none of the rest is smaller than one of them.
\<close>

theorem partial_sort_correct:
  assumes "strict_weak_order cmp" "a \<le> k" "k \<le> b" "b \<le> length m"
  shows "\<exists>m'. partial_sort m a k b cmp = Some m' \<and> permuted m m' a b \<and> sorted_by cmp (seg m' a k) \<and>
           (\<forall>x \<in> set (seg m' a k). \<forall>y \<in> set (seg m' k b). \<not> cmp y x)"
  using assms by (rule strict_weak_order.partial_sort_swo)

theorem partial_sort_correct_witness:
  "\<exists>m'. partial_sort [5, 3, 4, 2, 9, 0 :: int] 0 2 5 less_op = Some m' \<and>
     permuted [5, 3, 4, 2, 9, 0] m' 0 5 \<and> sorted_by less_op (seg m' 0 2) \<and>
     (\<forall>x \<in> set (seg m' 0 2). \<forall>y \<in> set (seg m' 2 5). \<not> less_op y x)"
  by (rule partial_sort_correct [OF less.strict_weak_order_axioms]) simp_all

text \<open>
  \<^verbatim>\<open>partial_sort_copy\<close> writes the smallest elements of the input, sorted, as many as both
  ranges have room for, and nothing outside that part of the output; every input element left out
  is not smaller than one written.
\<close>

theorem partial_sort_copy_correct:
  assumes "strict_weak_order cmp" "f \<le> l" "l \<le> length src" "rf \<le> rl" "rl \<le> length m"
  shows "\<exists>m' r rest. partial_sort_copy src f l m rf rl cmp = Some (m', r) \<and>
           r = rf + min (l - f) (rl - rf) \<and> frame m m' rf r \<and> sorted_by cmp (seg m' rf r) \<and>
           mset (seg src f l) = mset (seg m' rf r) + rest \<and>
           (\<forall>x \<in># rest. \<forall>y \<in> set (seg m' rf r). \<not> cmp x y)"
  using assms by (rule strict_weak_order.partial_sort_copy_swo)

theorem partial_sort_copy_correct_witness:
  "\<exists>m' r rest. partial_sort_copy [5, 3, 4, 2, 9 :: int] 0 5 [0, 0, 0] 0 2 less_op = Some (m', r) \<and>
     r = 0 + min (5 - 0) (2 - 0) \<and> frame [0, 0, 0] m' 0 r \<and> sorted_by less_op (seg m' 0 r) \<and>
     mset (seg [5, 3, 4, 2, 9] 0 5) = mset (seg m' 0 r) + rest \<and>
     (\<forall>x \<in># rest. \<forall>y \<in> set (seg m' 0 r). \<not> less_op x y)"
  by (rule partial_sort_copy_correct [OF less.strict_weak_order_axioms]) simp_all

end
