(* ===== verification/Linear_Search.thy ===== *)
theory Linear_Search
  imports Binary_Search
begin

text \<open>
  The non-modifying sequence operations of \<^verbatim>\<open>cuda/std/__algorithm\<close> that scan a range:
  \<^verbatim>\<open>all_of.h\<close>, \<^verbatim>\<open>any_of.h\<close>, \<^verbatim>\<open>none_of.h\<close>, \<^verbatim>\<open>find.h\<close>, \<^verbatim>\<open>find_if.h\<close>,
  \<^verbatim>\<open>find_if_not.h\<close>, \<^verbatim>\<open>find_first_of.h\<close>, \<^verbatim>\<open>count.h\<close>, \<^verbatim>\<open>count_if.h\<close>,
  \<^verbatim>\<open>adjacent_find.h\<close>, \<^verbatim>\<open>mismatch.h\<close>, \<^verbatim>\<open>equal.h\<close>, \<^verbatim>\<open>is_partitioned.h\<close>,
  \<^verbatim>\<open>is_permutation.h\<close>, \<^verbatim>\<open>search.h\<close>, \<^verbatim>\<open>search_n.h\<close> and \<^verbatim>\<open>find_end.h\<close>.

  Each loop is a function of the current iterator; each is related to the list function that the
  C++ standard describes it with.
\<close>

section \<open>Definitions\<close>

subsection \<open>Quantifiers, find, count\<close>

function all_of :: "'a mem \<Rightarrow> iter \<Rightarrow> iter \<Rightarrow> ('a \<Rightarrow> bool) \<Rightarrow> bool option" where
  "all_of m first last' pred =
     (if first \<noteq> last' then do {
        x \<leftarrow> rd m first;
        if \<not> pred x then Some False else all_of m (Suc first) last' pred
      } else Some True)"
  by pat_completeness auto
termination
  by (relation "measure (\<lambda>(m, first, last', pred). length m - first)") auto

function any_of :: "'a mem \<Rightarrow> iter \<Rightarrow> iter \<Rightarrow> ('a \<Rightarrow> bool) \<Rightarrow> bool option" where
  "any_of m first last' pred =
     (if first \<noteq> last' then do {
        x \<leftarrow> rd m first;
        if pred x then Some True else any_of m (Suc first) last' pred
      } else Some False)"
  by pat_completeness auto
termination
  by (relation "measure (\<lambda>(m, first, last', pred). length m - first)") auto

function none_of :: "'a mem \<Rightarrow> iter \<Rightarrow> iter \<Rightarrow> ('a \<Rightarrow> bool) \<Rightarrow> bool option" where
  "none_of m first last' pred =
     (if first \<noteq> last' then do {
        x \<leftarrow> rd m first;
        if pred x then Some False else none_of m (Suc first) last' pred
      } else Some True)"
  by pat_completeness auto
termination
  by (relation "measure (\<lambda>(m, first, last', pred). length m - first)") auto

function find_impl :: "'a mem \<Rightarrow> iter \<Rightarrow> iter \<Rightarrow> 'p \<Rightarrow> ('a \<Rightarrow> 'p) \<Rightarrow> iter option" where
  "find_impl m first last' val proj =
     (if first \<noteq> last' then do {
        x \<leftarrow> rd m first;
        if proj x = val then Some first else find_impl m (Suc first) last' val proj
      } else Some first)"
  by pat_completeness auto
termination
  by (relation "measure (\<lambda>(m, first, last', val, proj). length m - first)") auto

function find_value :: "'a mem \<Rightarrow> iter \<Rightarrow> iter \<Rightarrow> 'a \<Rightarrow> iter option" where
  "find_value m first last' val =
     (if first \<noteq> last' then do {
        x \<leftarrow> rd m first;
        if x = val then Some first else find_value m (Suc first) last' val
      } else Some first)"
  by pat_completeness auto
termination
  by (relation "measure (\<lambda>(m, first, last', val). length m - first)") auto

function find_if :: "'a mem \<Rightarrow> iter \<Rightarrow> iter \<Rightarrow> ('a \<Rightarrow> bool) \<Rightarrow> iter option" where
  "find_if m first last' pred =
     (if first \<noteq> last' then do {
        x \<leftarrow> rd m first;
        if pred x then Some first else find_if m (Suc first) last' pred
      } else Some first)"
  by pat_completeness auto
termination
  by (relation "measure (\<lambda>(m, first, last', pred). length m - first)") auto

function find_if_not :: "'a mem \<Rightarrow> iter \<Rightarrow> iter \<Rightarrow> ('a \<Rightarrow> bool) \<Rightarrow> iter option" where
  "find_if_not m first last' pred =
     (if first \<noteq> last' then do {
        x \<leftarrow> rd m first;
        if \<not> pred x then Some first else find_if_not m (Suc first) last' pred
      } else Some first)"
  by pat_completeness auto
termination
  by (relation "measure (\<lambda>(m, first, last', pred). length m - first)") auto

function count_loop :: "'a mem \<Rightarrow> iter \<Rightarrow> iter \<Rightarrow> 'a \<Rightarrow> nat \<Rightarrow> nat option" where
  "count_loop m first last' val r =
     (if first \<noteq> last' then do {
        x \<leftarrow> rd m first;
        count_loop m (Suc first) last' val (if x = val then Suc r else r)
      } else Some r)"
  by pat_completeness auto
termination
  by (relation "measure (\<lambda>(m, first, last', val, r). length m - first)") auto

definition count_value :: "'a mem \<Rightarrow> iter \<Rightarrow> iter \<Rightarrow> 'a \<Rightarrow> nat option" where
  "count_value m first last' val = count_loop m first last' val 0"

function count_if_loop :: "'a mem \<Rightarrow> iter \<Rightarrow> iter \<Rightarrow> ('a \<Rightarrow> bool) \<Rightarrow> nat \<Rightarrow> nat option" where
  "count_if_loop m first last' pred r =
     (if first \<noteq> last' then do {
        x \<leftarrow> rd m first;
        count_if_loop m (Suc first) last' pred (if pred x then Suc r else r)
      } else Some r)"
  by pat_completeness auto
termination
  by (relation "measure (\<lambda>(m, first, last', pred, r). length m - first)") auto

definition count_if :: "'a mem \<Rightarrow> iter \<Rightarrow> iter \<Rightarrow> ('a \<Rightarrow> bool) \<Rightarrow> nat option" where
  "count_if m first last' pred = count_if_loop m first last' pred 0"

text \<open>The inner loop of \<^verbatim>\<open>__find_first_of_ce\<close> tells whether \<open>x\<close> matches an element of the second range.\<close>

function find_first_of_inner ::
    "'b mem \<Rightarrow> iter \<Rightarrow> iter \<Rightarrow> ('a \<Rightarrow> 'b \<Rightarrow> bool) \<Rightarrow> 'a \<Rightarrow> bool option" where
  "find_first_of_inner m2 j last2 pred x =
     (if j \<noteq> last2 then do {
        y \<leftarrow> rd m2 j;
        if pred x y then Some True else find_first_of_inner m2 (Suc j) last2 pred x
      } else Some False)"
  by pat_completeness auto
termination
  by (relation "measure (\<lambda>(m2, j, last2, pred, x). length m2 - j)") auto

function find_first_of_ce ::
    "'a mem \<Rightarrow> iter \<Rightarrow> iter \<Rightarrow> 'b mem \<Rightarrow> iter \<Rightarrow> iter \<Rightarrow> ('a \<Rightarrow> 'b \<Rightarrow> bool) \<Rightarrow> iter option" where
  "find_first_of_ce m1 first1 last1 m2 first2 last2 pred =
     (if first1 \<noteq> last1 then do {
        x \<leftarrow> rd m1 first1;
        found \<leftarrow> find_first_of_inner m2 first2 last2 pred x;
        if found then Some first1 else find_first_of_ce m1 (Suc first1) last1 m2 first2 last2 pred
      } else Some last1)"
  by pat_completeness auto
termination
  by (relation "measure (\<lambda>(m1, first1, last1, m2, first2, last2, pred). length m1 - first1)") auto

definition find_first_of ::
    "'a mem \<Rightarrow> iter \<Rightarrow> iter \<Rightarrow> 'b mem \<Rightarrow> iter \<Rightarrow> iter \<Rightarrow> ('a \<Rightarrow> 'b \<Rightarrow> bool) \<Rightarrow> iter option" where
  "find_first_of m1 first1 last1 m2 first2 last2 pred =
     find_first_of_ce m1 first1 last1 m2 first2 last2 pred"

definition find_first_of_eq ::
    "'a mem \<Rightarrow> iter \<Rightarrow> iter \<Rightarrow> 'a mem \<Rightarrow> iter \<Rightarrow> iter \<Rightarrow> iter option" where
  "find_first_of_eq m1 first1 last1 m2 first2 last2 =
     find_first_of_ce m1 first1 last1 m2 first2 last2 equal_to_op"

function adjacent_find_loop :: "'a mem \<Rightarrow> iter \<Rightarrow> iter \<Rightarrow> iter \<Rightarrow> ('a \<Rightarrow> 'a \<Rightarrow> bool) \<Rightarrow> iter option" where
  "adjacent_find_loop m first last' i pred =
     (let i = Suc i in
      if i \<noteq> last' then do {
        x \<leftarrow> rd m first;
        y \<leftarrow> rd m i;
        if pred x y then Some first else adjacent_find_loop m i last' i pred
      } else Some last')"
  by pat_completeness auto
termination
  by (relation "measure (\<lambda>(m, first, last', i, pred). length m - i)") auto

definition adjacent_find :: "'a mem \<Rightarrow> iter \<Rightarrow> iter \<Rightarrow> ('a \<Rightarrow> 'a \<Rightarrow> bool) \<Rightarrow> iter option" where
  "adjacent_find m first last' pred =
     (if first \<noteq> last' then adjacent_find_loop m first last' first pred else Some last')"

definition adjacent_find_eq :: "'a mem \<Rightarrow> iter \<Rightarrow> iter \<Rightarrow> iter option" where
  "adjacent_find_eq m first last' = adjacent_find m first last' equal_to_op"

subsection \<open>Comparing two ranges\<close>

text \<open>The overloads with one and a half ranges (\<^verbatim>\<open>_half\<close>) and with two ranges.\<close>

function mismatch_half ::
    "'a mem \<Rightarrow> iter \<Rightarrow> iter \<Rightarrow> 'b mem \<Rightarrow> iter \<Rightarrow> ('a \<Rightarrow> 'b \<Rightarrow> bool) \<Rightarrow> (iter \<times> iter) option" where
  "mismatch_half m1 first1 last1 m2 first2 pred =
     (if first1 \<noteq> last1 then do {
        x \<leftarrow> rd m1 first1;
        y \<leftarrow> rd m2 first2;
        if \<not> pred x y then Some (first1, first2)
        else mismatch_half m1 (Suc first1) last1 m2 (Suc first2) pred
      } else Some (first1, first2))"
  by pat_completeness auto
termination
  by (relation "measure (\<lambda>(m1, first1, last1, m2, first2, pred). length m1 - first1)") auto

definition mismatch_half_eq ::
    "'a mem \<Rightarrow> iter \<Rightarrow> iter \<Rightarrow> 'a mem \<Rightarrow> iter \<Rightarrow> (iter \<times> iter) option" where
  "mismatch_half_eq m1 first1 last1 m2 first2 = mismatch_half m1 first1 last1 m2 first2 equal_to_op"

function mismatch ::
    "'a mem \<Rightarrow> iter \<Rightarrow> iter \<Rightarrow> 'b mem \<Rightarrow> iter \<Rightarrow> iter \<Rightarrow> ('a \<Rightarrow> 'b \<Rightarrow> bool) \<Rightarrow> (iter \<times> iter) option" where
  "mismatch m1 first1 last1 m2 first2 last2 pred =
     (if first1 \<noteq> last1 \<and> first2 \<noteq> last2 then do {
        x \<leftarrow> rd m1 first1;
        y \<leftarrow> rd m2 first2;
        if \<not> pred x y then Some (first1, first2)
        else mismatch m1 (Suc first1) last1 m2 (Suc first2) last2 pred
      } else Some (first1, first2))"
  by pat_completeness auto
termination
  by (relation "measure (\<lambda>(m1, first1, last1, m2, first2, last2, pred). length m1 - first1)") auto

definition mismatch_eq ::
    "'a mem \<Rightarrow> iter \<Rightarrow> iter \<Rightarrow> 'a mem \<Rightarrow> iter \<Rightarrow> iter \<Rightarrow> (iter \<times> iter) option" where
  "mismatch_eq m1 first1 last1 m2 first2 last2 = mismatch m1 first1 last1 m2 first2 last2 equal_to_op"

function equal_half ::
    "'a mem \<Rightarrow> iter \<Rightarrow> iter \<Rightarrow> 'b mem \<Rightarrow> iter \<Rightarrow> ('a \<Rightarrow> 'b \<Rightarrow> bool) \<Rightarrow> bool option" where
  "equal_half m1 first1 last1 m2 first2 pred =
     (if first1 \<noteq> last1 then do {
        x \<leftarrow> rd m1 first1;
        y \<leftarrow> rd m2 first2;
        if \<not> pred x y then Some False
        else equal_half m1 (Suc first1) last1 m2 (Suc first2) pred
      } else Some True)"
  by pat_completeness auto
termination
  by (relation "measure (\<lambda>(m1, first1, last1, m2, first2, pred). length m1 - first1)") auto

definition equal_half_eq :: "'a mem \<Rightarrow> iter \<Rightarrow> iter \<Rightarrow> 'a mem \<Rightarrow> iter \<Rightarrow> bool option" where
  "equal_half_eq m1 first1 last1 m2 first2 = equal_half m1 first1 last1 m2 first2 equal_to_op"

text \<open>\<^verbatim>\<open>__equal\<close> for input iterators, and its overload for random access iterators.\<close>

function equal_input ::
    "'a mem \<Rightarrow> iter \<Rightarrow> iter \<Rightarrow> 'b mem \<Rightarrow> iter \<Rightarrow> iter \<Rightarrow> ('a \<Rightarrow> 'b \<Rightarrow> bool) \<Rightarrow> bool option" where
  "equal_input m1 first1 last1 m2 first2 last2 pred =
     (if first1 \<noteq> last1 \<and> first2 \<noteq> last2 then do {
        x \<leftarrow> rd m1 first1;
        y \<leftarrow> rd m2 first2;
        if \<not> pred x y then Some False
        else equal_input m1 (Suc first1) last1 m2 (Suc first2) last2 pred
      } else Some (first1 = last1 \<and> first2 = last2))"
  by pat_completeness auto
termination
  by (relation "measure (\<lambda>(m1, first1, last1, m2, first2, last2, pred). length m1 - first1)") auto

definition equal_random ::
    "'a mem \<Rightarrow> iter \<Rightarrow> iter \<Rightarrow> 'b mem \<Rightarrow> iter \<Rightarrow> iter \<Rightarrow> ('a \<Rightarrow> 'b \<Rightarrow> bool) \<Rightarrow> bool option" where
  "equal_random m1 first1 last1 m2 first2 last2 pred =
     (if last1 - first1 \<noteq> last2 - first2 then Some False
      else equal_half m1 first1 last1 m2 first2 pred)"

text \<open>\<^verbatim>\<open>equal\<close> dispatches on the iterator categories; \<open>ra\<close> says that both are random access.\<close>

definition equal_ranges ::
    "bool \<Rightarrow> 'a mem \<Rightarrow> iter \<Rightarrow> iter \<Rightarrow> 'b mem \<Rightarrow> iter \<Rightarrow> iter \<Rightarrow> ('a \<Rightarrow> 'b \<Rightarrow> bool) \<Rightarrow> bool option" where
  "equal_ranges ra m1 first1 last1 m2 first2 last2 pred =
     (if ra then equal_random m1 first1 last1 m2 first2 last2 pred
      else equal_input m1 first1 last1 m2 first2 last2 pred)"

definition equal_ranges_eq ::
    "bool \<Rightarrow> 'a mem \<Rightarrow> iter \<Rightarrow> iter \<Rightarrow> 'a mem \<Rightarrow> iter \<Rightarrow> iter \<Rightarrow> bool option" where
  "equal_ranges_eq ra m1 first1 last1 m2 first2 last2 =
     equal_ranges ra m1 first1 last1 m2 first2 last2 equal_to_op"

subsection \<open>Partitioned ranges\<close>

text \<open>The two loops of \<^verbatim>\<open>is_partitioned\<close>.\<close>

function skip_while :: "'a mem \<Rightarrow> iter \<Rightarrow> iter \<Rightarrow> ('a \<Rightarrow> bool) \<Rightarrow> iter option" where
  "skip_while m first last' pred =
     (if first \<noteq> last' then do {
        x \<leftarrow> rd m first;
        if \<not> pred x then Some first else skip_while m (Suc first) last' pred
      } else Some first)"
  by pat_completeness auto
termination
  by (relation "measure (\<lambda>(m, first, last', pred). length m - first)") auto

function no_more :: "'a mem \<Rightarrow> iter \<Rightarrow> iter \<Rightarrow> ('a \<Rightarrow> bool) \<Rightarrow> bool option" where
  "no_more m first last' pred =
     (if first \<noteq> last' then do {
        x \<leftarrow> rd m first;
        if pred x then Some False else no_more m (Suc first) last' pred
      } else Some True)"
  by pat_completeness auto
termination
  by (relation "measure (\<lambda>(m, first, last', pred). length m - first)") auto

definition is_partitioned :: "'a mem \<Rightarrow> iter \<Rightarrow> iter \<Rightarrow> ('a \<Rightarrow> bool) \<Rightarrow> bool option" where
  "is_partitioned m first last' pred = do {
     first \<leftarrow> skip_while m first last' pred;
     if first = last' then Some True else no_more m (Suc first) last' pred
   }"

subsection \<open>Permutations\<close>

text \<open>
  The loops of \<^verbatim>\<open>is_permutation\<close>: has \<^verbatim>\<open>*__i\<close> an equivalent before it in the first range, and how
  often does it occur in a range.
\<close>

function perm_match :: "'a mem \<Rightarrow> ('a \<Rightarrow> 'a \<Rightarrow> bool) \<Rightarrow> iter \<Rightarrow> iter \<Rightarrow> iter option" where
  "perm_match m1 pred match i =
     (if match \<noteq> i then do {
        x \<leftarrow> rd m1 match;
        y \<leftarrow> rd m1 i;
        if pred x y then Some match else perm_match m1 pred (Suc match) i
      } else Some match)"
  by pat_completeness auto
termination
  by (relation "measure (\<lambda>(m1, pred, match, i). length m1 - match)") auto

function perm_count :: "'a mem \<Rightarrow> ('a \<Rightarrow> 'a \<Rightarrow> bool) \<Rightarrow> 'a \<Rightarrow> iter \<Rightarrow> iter \<Rightarrow> nat \<Rightarrow> nat option" where
  "perm_count m pred x j last' c =
     (if j \<noteq> last' then do {
        y \<leftarrow> rd m j;
        perm_count m pred x (Suc j) last' (if pred x y then Suc c else c)
      } else Some c)"
  by pat_completeness auto
termination
  by (relation "measure (\<lambda>(m, pred, x, j, last', c). length m - j)") auto

function perm_loop ::
    "'a mem \<Rightarrow> iter \<Rightarrow> iter \<Rightarrow> 'a mem \<Rightarrow> iter \<Rightarrow> iter \<Rightarrow> ('a \<Rightarrow> 'a \<Rightarrow> bool) \<Rightarrow> iter \<Rightarrow> bool option" where
  "perm_loop m1 first1 last1 m2 first2 last2 pred i =
     (if i \<noteq> last1 then do {
        x \<leftarrow> rd m1 i;
        match \<leftarrow> perm_match m1 pred first1 i;
        if match = i then do {
          c2 \<leftarrow> perm_count m2 pred x first2 last2 0;
          if c2 = 0 then Some False
          else do {
            c1 \<leftarrow> perm_count m1 pred x (Suc i) last1 1;
            if c1 \<noteq> c2 then Some False
            else perm_loop m1 first1 last1 m2 first2 last2 pred (Suc i)
          }
        } else perm_loop m1 first1 last1 m2 first2 last2 pred (Suc i)
      } else Some True)"
  by pat_completeness auto
termination
  by (relation "measure (\<lambda>(m1, first1, last1, m2, first2, last2, pred, i). length m1 - i)") auto

text \<open>The first loop of both versions drops the equal prefix: it is \<^verbatim>\<open>mismatch\<close>.\<close>

definition is_permutation_half ::
    "'a mem \<Rightarrow> iter \<Rightarrow> iter \<Rightarrow> 'a mem \<Rightarrow> iter \<Rightarrow> ('a \<Rightarrow> 'a \<Rightarrow> bool) \<Rightarrow> bool option" where
  "is_permutation_half m1 first1 last1 m2 first2 pred = do {
     (first1, first2) \<leftarrow> mismatch_half m1 first1 last1 m2 first2 pred;
     if first1 = last1 then Some True
     else do {
       let l1 = last1 - first1;
       if l1 = 1 then Some False
       else do {
         let last2 = first2 + l1;
         perm_loop m1 first1 last1 m2 first2 last2 pred first1
       }
     }
   }"

definition is_permutation_half_eq ::
    "'a mem \<Rightarrow> iter \<Rightarrow> iter \<Rightarrow> 'a mem \<Rightarrow> iter \<Rightarrow> bool option" where
  "is_permutation_half_eq m1 first1 last1 m2 first2 =
     is_permutation_half m1 first1 last1 m2 first2 equal_to_op"

definition is_permutation_forward ::
    "'a mem \<Rightarrow> iter \<Rightarrow> iter \<Rightarrow> 'a mem \<Rightarrow> iter \<Rightarrow> iter \<Rightarrow> ('a \<Rightarrow> 'a \<Rightarrow> bool) \<Rightarrow> bool option" where
  "is_permutation_forward m1 first1 last1 m2 first2 last2 pred = do {
     (first1, first2) \<leftarrow> mismatch m1 first1 last1 m2 first2 last2 pred;
     if first1 = last1 then Some (first2 = last2)
     else if first2 = last2 then Some False
     else do {
       let l1 = last1 - first1;
       let l2 = last2 - first2;
       if l1 \<noteq> l2 then Some False
       else perm_loop m1 first1 last1 m2 first2 last2 pred first1
     }
   }"

definition is_permutation_random ::
    "'a mem \<Rightarrow> iter \<Rightarrow> iter \<Rightarrow> 'a mem \<Rightarrow> iter \<Rightarrow> iter \<Rightarrow> ('a \<Rightarrow> 'a \<Rightarrow> bool) \<Rightarrow> bool option" where
  "is_permutation_random m1 first1 last1 m2 first2 last2 pred =
     (if last1 - first1 \<noteq> last2 - first2 then Some False
      else is_permutation_half m1 first1 last1 m2 first2 pred)"

definition is_permutation ::
    "bool \<Rightarrow> 'a mem \<Rightarrow> iter \<Rightarrow> iter \<Rightarrow> 'a mem \<Rightarrow> iter \<Rightarrow> iter \<Rightarrow> ('a \<Rightarrow> 'a \<Rightarrow> bool) \<Rightarrow> bool option" where
  "is_permutation ra m1 first1 last1 m2 first2 last2 pred =
     (if ra then is_permutation_random m1 first1 last1 m2 first2 last2 pred
      else is_permutation_forward m1 first1 last1 m2 first2 last2 pred)"

definition is_permutation_eq ::
    "bool \<Rightarrow> 'a mem \<Rightarrow> iter \<Rightarrow> iter \<Rightarrow> 'a mem \<Rightarrow> iter \<Rightarrow> iter \<Rightarrow> bool option" where
  "is_permutation_eq ra m1 first1 last1 m2 first2 last2 =
     is_permutation ra m1 first1 last1 m2 first2 last2 equal_to_op"

declare all_of.simps [simp del] any_of.simps [simp del] none_of.simps [simp del]
  find_impl.simps [simp del] find_value.simps [simp del] find_if.simps [simp del]
  find_if_not.simps [simp del] count_loop.simps [simp del] count_if_loop.simps [simp del]
  find_first_of_inner.simps [simp del] find_first_of_ce.simps [simp del]
  adjacent_find_loop.simps [simp del] mismatch_half.simps [simp del] mismatch.simps [simp del]
  equal_half.simps [simp del] equal_input.simps [simp del] skip_while.simps [simp del]
  no_more.simps [simp del] perm_match.simps [simp del] perm_count.simps [simp del]
  perm_loop.simps [simp del]

section \<open>The scans as list functions\<close>

lemma all_of_eq:
  "a \<le> b \<Longrightarrow> b \<le> length m \<Longrightarrow> all_of m a b pred = Some (\<forall>x \<in> set (seg m a b). pred x)"
  by (induction a rule: inc_induct) (subst all_of.simps, simp add: mem_simps seg_Cons)+

lemma any_of_eq:
  "a \<le> b \<Longrightarrow> b \<le> length m \<Longrightarrow> any_of m a b pred = Some (\<exists>x \<in> set (seg m a b). pred x)"
  by (induction a rule: inc_induct) (subst any_of.simps, simp add: mem_simps seg_Cons)+

lemma none_of_eq:
  "a \<le> b \<Longrightarrow> b \<le> length m \<Longrightarrow> none_of m a b pred = Some (\<forall>x \<in> set (seg m a b). \<not> pred x)"
  by (induction a rule: inc_induct) (subst none_of.simps, simp add: mem_simps seg_Cons)+

lemma prefix_end_same [simp]: "prefix_end m b b pred = b"
  by (simp add: prefix_end_def)

lemma prefix_end_step:
  "a < b \<Longrightarrow> b \<le> length m \<Longrightarrow>
     prefix_end m a b pred = (if pred (m ! a) then prefix_end m (Suc a) b pred else a)"
  by (simp add: prefix_end_def seg_Cons)

lemma seg_prefix_end:
  assumes "a \<le> b" "b \<le> length m"
  shows "seg m a (prefix_end m a b pred) = takeWhile pred (seg m a b)"
proof -
  have "length (takeWhile pred (seg m a b)) \<le> b - a"
    using length_takeWhile_le [of pred "seg m a b"] assms by simp
  then show ?thesis
    using takeWhile_eq_take [of pred "seg m a b"] by (simp add: prefix_end_def seg_def min_absorb1)
qed

lemma find_if_eq: "a \<le> b \<Longrightarrow> b \<le> length m \<Longrightarrow> find_if m a b pred = Some (prefix_end m a b (\<lambda>x. \<not> pred x))"
  by (induction a rule: inc_induct) (subst find_if.simps, simp add: mem_simps prefix_end_step)+

lemma find_if_not_eq: "a \<le> b \<Longrightarrow> b \<le> length m \<Longrightarrow> find_if_not m a b pred = Some (prefix_end m a b pred)"
  by (induction a rule: inc_induct) (subst find_if_not.simps, simp add: mem_simps prefix_end_step)+

lemma skip_while_eq: "a \<le> b \<Longrightarrow> b \<le> length m \<Longrightarrow> skip_while m a b pred = Some (prefix_end m a b pred)"
  by (induction a rule: inc_induct) (subst skip_while.simps, simp add: mem_simps prefix_end_step)+

lemma find_value_eq: "find_value m a b v = find_if m a b (\<lambda>x. x = v)"
  by (induction m a b v rule: find_value.induct)
    (subst find_value.simps, subst find_if.simps, auto simp: rd_def)

lemma find_impl_eq: "find_impl m a b v proj = find_if m a b (\<lambda>x. proj x = v)"
  by (induction m a b v proj rule: find_impl.induct)
    (subst find_impl.simps, subst find_if.simps, auto simp: rd_def)

lemma no_more_eq:
  "a \<le> b \<Longrightarrow> b \<le> length m \<Longrightarrow> no_more m a b pred = Some (\<forall>x \<in> set (seg m a b). \<not> pred x)"
  by (induction a rule: inc_induct) (subst no_more.simps, simp add: mem_simps seg_Cons)+

lemma count_if_loop_eq:
  "a \<le> b \<Longrightarrow> b \<le> length m \<Longrightarrow> count_if_loop m a b pred r = Some (r + length (filter pred (seg m a b)))"
  by (induction a arbitrary: r rule: inc_induct) (subst count_if_loop.simps, simp add: mem_simps seg_Cons)+

lemma count_loop_eq: "count_loop m a b v r = count_if_loop m a b (\<lambda>x. x = v) r"
  by (induction m a b v r rule: count_loop.induct)
    (subst count_loop.simps, subst count_if_loop.simps, auto simp: rd_def)

lemma find_first_of_inner_eq:
  "a \<le> b \<Longrightarrow> b \<le> length m \<Longrightarrow> find_first_of_inner m a b pred x = Some (\<exists>y \<in> set (seg m a b). pred x y)"
  by (induction a rule: inc_induct) (subst find_first_of_inner.simps, simp add: mem_simps seg_Cons)+

lemma find_first_of_ce_eq:
  "a \<le> b \<Longrightarrow> b \<le> length m \<Longrightarrow> c \<le> d \<Longrightarrow> d \<le> length m2 \<Longrightarrow>
     find_first_of_ce m a b m2 c d pred = Some (prefix_end m a b (\<lambda>x. \<forall>y \<in> set (seg m2 c d). \<not> pred x y))"
  by (induction a rule: inc_induct)
    (subst find_first_of_ce.simps, simp add: mem_simps prefix_end_step find_first_of_inner_eq)+

lemma equal_half_eq_list:
  "a \<le> b \<Longrightarrow> b \<le> length m1 \<Longrightarrow> c + (b - a) \<le> length m2 \<Longrightarrow>
     equal_half m1 a b m2 c pred = Some (list_all2 pred (seg m1 a b) (seg m2 c (c + (b - a))))"
  by (induction a arbitrary: c rule: inc_induct)
    (subst equal_half.simps, simp add: mem_simps seg_Cons Suc_diff_Suc [symmetric])+

lemma equal_input_eq:
  "a \<le> b \<Longrightarrow> b \<le> length m1 \<Longrightarrow> c \<le> d \<Longrightarrow> d \<le> length m2 \<Longrightarrow>
     equal_input m1 a b m2 c d pred = Some (list_all2 pred (seg m1 a b) (seg m2 c d))"
proof (induction a arbitrary: c rule: inc_induct)
  case base
  then show ?case
    by (subst equal_input.simps) (cases "c = d", simp_all add: seg_Cons)
next
  case (step a)
  then show ?case
    by (subst equal_input.simps) (cases "c = d", simp_all add: mem_simps seg_Cons)
qed

lemma equal_random_eq:
  assumes "a \<le> b" "b \<le> length m1" "c \<le> d" "d \<le> length m2"
  shows "equal_random m1 a b m2 c d pred = Some (list_all2 pred (seg m1 a b) (seg m2 c d))"
proof (cases "b - a = d - c")
  case True
  then have "c + (b - a) = d" using assms by simp
  with True assms show ?thesis by (simp add: equal_random_def equal_half_eq_list)
next
  case False
  then show ?thesis using assms list_all2_lengthD [of pred "seg m1 a b" "seg m2 c d"]
    by (auto simp: equal_random_def)
qed

definition common_prefix :: "('a \<Rightarrow> 'b \<Rightarrow> bool) \<Rightarrow> 'a list \<Rightarrow> 'b list \<Rightarrow> nat" where
  "common_prefix pred xs ys = length (takeWhile (\<lambda>(x, y). pred x y) (zip xs ys))"

lemma common_prefix_simps [simp]:
  "common_prefix pred [] ys = 0" "common_prefix pred xs [] = 0"
  "common_prefix pred (x # xs) (y # ys) = (if pred x y then Suc (common_prefix pred xs ys) else 0)"
  by (simp_all add: common_prefix_def)

lemma mismatch_eq_prefix:
  "a \<le> b \<Longrightarrow> b \<le> length m1 \<Longrightarrow> c \<le> d \<Longrightarrow> d \<le> length m2 \<Longrightarrow>
     mismatch m1 a b m2 c d pred =
       (let k = common_prefix pred (seg m1 a b) (seg m2 c d) in Some (a + k, c + k))"
proof (induction a arbitrary: c rule: inc_induct)
  case base
  then show ?case by (subst mismatch.simps) simp
next
  case (step a)
  then show ?case
    by (subst mismatch.simps) (cases "c = d", simp_all add: mem_simps seg_Cons Let_def)
qed

lemma mismatch_half_eq_prefix:
  "a \<le> b \<Longrightarrow> b \<le> length m1 \<Longrightarrow> c + (b - a) \<le> length m2 \<Longrightarrow>
     mismatch_half m1 a b m2 c pred =
       (let k = common_prefix pred (seg m1 a b) (seg m2 c (c + (b - a))) in Some (a + k, c + k))"
  by (induction a arbitrary: c rule: inc_induct)
    (subst mismatch_half.simps, simp add: mem_simps seg_Cons Suc_diff_Suc [symmetric] Let_def)+

lemma adjacent_find_loop_spec:
  assumes "a < b" "b \<le> length m"
  shows "\<exists>k. adjacent_find_loop m a b a pred = Some k \<and> a \<le> k \<and> k \<le> b \<and>
           (k < b \<longrightarrow> Suc k < b \<and> pred (m ! k) (m ! Suc k)) \<and>
           (\<forall>i. a \<le> i \<and> i < k \<and> Suc i < b \<longrightarrow> \<not> pred (m ! i) (m ! Suc i))"
  using assms
proof (induction "b - a" arbitrary: a)
  case 0
  then show ?case by simp
next
  case (Suc n)
  note unfold = adjacent_find_loop.simps [of m a b a pred]
  consider "Suc a = b" | "Suc a < b" "pred (m ! a) (m ! Suc a)" | "Suc a < b" "\<not> pred (m ! a) (m ! Suc a)"
    using Suc.prems by linarith
  then show ?case
  proof cases
    case 1
    then show ?thesis by (auto simp: unfold)
  next
    case 2
    with Suc.prems show ?thesis by (auto simp: unfold mem_simps Let_def)
  next
    case 3
    have "n = b - Suc a" using Suc.hyps(2) by simp
    with 3 obtain k where k: "adjacent_find_loop m (Suc a) b (Suc a) pred = Some k" "Suc a \<le> k" "k \<le> b"
        "k < b \<longrightarrow> Suc k < b \<and> pred (m ! k) (m ! Suc k)"
        "\<forall>i. Suc a \<le> i \<and> i < k \<and> Suc i < b \<longrightarrow> \<not> pred (m ! i) (m ! Suc i)"
      using Suc.hyps(1) [of "Suc a"] Suc.prems by auto
    have "\<not> pred (m ! i) (m ! Suc i)" if "a \<le> i \<and> i < k \<and> Suc i < b" for i
      using that k(5) 3(2) by (cases "i = a") auto
    with k 3 Suc.prems show ?thesis by (intro exI [of _ k]) (simp add: unfold mem_simps Let_def)
  qed
qed

lemma partitioned_by_prefix_end:
  assumes "a \<le> b" "b \<le> length m"
  shows "partitioned_by pred (seg m a b) \<longleftrightarrow> (\<forall>x \<in> set (seg m (prefix_end m a b pred) b). \<not> pred x)"
    (is "_ \<longleftrightarrow> ?r")
proof
  assume "partitioned_by pred (seg m a b)"
  then show ?r by (rule prefix_end_spec(2) [OF assms])
next
  assume r: ?r
  have "pred (m ! i)" if i: "a \<le> i" "i < j" "j < b" "pred (m ! j)" for i j
  proof (rule prefix_end_in [of a i m b])
    have "j < prefix_end m a b pred"
      using r i assms in_set_seg [of b m "m ! j" "prefix_end m a b pred"] by force
    with i show "i < prefix_end m a b pred" by simp
  qed (use i assms in auto)
  then show "partitioned_by pred (seg m a b)" using assms by (auto simp: partitioned_by_seg_iff)
qed

lemma is_partitioned_eq:
  assumes "a \<le> b" "b \<le> length m"
  shows "is_partitioned m a b pred = Some (partitioned_by pred (seg m a b))"
proof -
  let ?k = "prefix_end m a b pred"
  note k = prefix_end_bounds [OF assms, of pred]
  have "(\<forall>x \<in> set (seg m ?k b). \<not> pred x) \<longleftrightarrow> ?k = b \<or> (\<forall>x \<in> set (seg m (Suc ?k) b). \<not> pred x)"
    using prefix_end_out [of m a b pred] k assms seg_Cons [of ?k b m] by (cases "?k = b") auto
  then show ?thesis
    using k assms by (auto simp: is_partitioned_def skip_while_eq no_more_eq partitioned_by_prefix_end)
qed

section \<open>Permutations\<close>

text \<open>
  What the predicate of \<^verbatim>\<open>is_permutation\<close> has to be: an equivalence.  The answer is then that every
  class occurs equally often in both ranges.
\<close>

locale equivalence_pred =
  fixes pred :: "'a \<Rightarrow> 'a \<Rightarrow> bool"
  assumes pred_refl: "pred x x"
    and pred_sym: "pred x y \<Longrightarrow> pred y x"
    and pred_trans: "pred x y \<Longrightarrow> pred y z \<Longrightarrow> pred x z"

definition occurrences :: "('a \<Rightarrow> 'a \<Rightarrow> bool) \<Rightarrow> 'a \<Rightarrow> 'a list \<Rightarrow> nat" where
  "occurrences pred x xs = length (filter (pred x) xs)"

lemma occurrences_simps [simp]:
  "occurrences pred x [] = 0"
  "occurrences pred x (y # ys) = (if pred x y then Suc else id) (occurrences pred x ys)"
  "occurrences pred x (xs @ ys) = occurrences pred x xs + occurrences pred x ys"
  by (simp_all add: occurrences_def)

lemma perm_count_eq:
  "a \<le> b \<Longrightarrow> b \<le> length m \<Longrightarrow> perm_count m pred x a b c = Some (c + occurrences pred x (seg m a b))"
  by (induction a arbitrary: c rule: inc_induct) (subst perm_count.simps, simp add: mem_simps seg_Cons)+

lemma perm_match_eq:
  "a \<le> i \<Longrightarrow> i < length m \<Longrightarrow> perm_match m pred a i = Some (prefix_end m a i (\<lambda>x. \<not> pred x (m ! i)))"
  by (induction a rule: inc_induct) (subst perm_match.simps, simp add: mem_simps prefix_end_step)+

lemma prefix_end_is_end:
  assumes "a \<le> b" "b \<le> length m"
  shows "prefix_end m a b pred = b \<longleftrightarrow> (\<forall>x \<in> set (seg m a b). pred x)"
proof -
  have "prefix_end m a b pred = b \<longleftrightarrow> takeWhile pred (seg m a b) = seg m a b"
    using assms by (metis add_diff_inverse_nat length_seg not_le prefix_end_def takeWhile_eq_take
      take_all order_refl diff_add_inverse)
  then show ?thesis by (simp add: takeWhile_eq_all_conv)
qed

context equivalence_pred
begin

lemma occurrences_class: "pred x y \<Longrightarrow> occurrences pred x xs = occurrences pred y xs"
  by (induction xs) (auto dest: pred_trans pred_sym)

lemma occurrences_none: "\<forall>y \<in> set xs. \<not> pred x y \<Longrightarrow> occurrences pred x xs = 0"
  by (induction xs) auto

lemma occurrences_pos: "y \<in> set xs \<Longrightarrow> pred x y \<Longrightarrow> 0 < occurrences pred x xs"
  by (auto simp: occurrences_def filter_empty_conv)

lemma occurrences_skip: "\<not> pred z x \<Longrightarrow> occurrences pred x (z # xs) = occurrences pred x xs"
  using pred_sym by auto

lemma perm_split:
  "(\<forall>x \<in> set (z # xs). (\<forall>y \<in> set ys. \<not> pred y x) \<longrightarrow> occurrences pred x (z # xs) = occurrences pred x zs) \<longleftrightarrow>
     ((\<forall>y \<in> set ys. \<not> pred y z) \<longrightarrow> Suc (occurrences pred z xs) = occurrences pred z zs) \<and>
     (\<forall>x \<in> set xs. (\<forall>y \<in> set (ys @ [z]). \<not> pred y x) \<longrightarrow> occurrences pred x xs = occurrences pred x zs)"
    (is "?l \<longleftrightarrow> ?z \<and> ?r")
proof (intro iffI conjI)
  assume l: ?l
  then show ?z using pred_refl [of z] by simp
  show ?r using l occurrences_skip by fastforce
next
  assume r: "?z \<and> ?r"
  show ?l
  proof (intro ballI impI)
    fix x assume x: "x \<in> set (z # xs)" and new: "\<forall>y \<in> set ys. \<not> pred y x"
    show "occurrences pred x (z # xs) = occurrences pred x zs"
    proof (cases "pred z x")
      case True
      then have "\<forall>y \<in> set ys. \<not> pred y z" using new pred_trans by blast
      with r have "occurrences pred z (z # xs) = occurrences pred z zs" using pred_refl [of z] by simp
      with occurrences_class [OF True] show ?thesis by metis
    next
      case False
      then have "x \<in> set xs" using x pred_refl [of x] by auto
      with False new r occurrences_skip [OF False] show ?thesis by auto
    qed
  qed
qed

lemma perm_loop_correct:
  assumes "a \<le> i" "i \<le> b" "b \<le> length m1" "c \<le> d" "d \<le> length m2"
  shows "perm_loop m1 a b m2 c d pred i =
    Some (\<forall>x \<in> set (seg m1 i b). (\<forall>y \<in> set (seg m1 a i). \<not> pred y x) \<longrightarrow>
            occurrences pred x (seg m1 i b) = occurrences pred x (seg m2 c d))"
  using assms(2,1)
proof (induction i rule: inc_induct)
  case base
  then show ?case by (subst perm_loop.simps) simp
next
  case (step i)
  let ?z = "m1 ! i" let ?T = "seg m1 (Suc i) b" let ?S = "seg m1 a i" let ?Z = "seg m2 c d"
  have i: "i < length m1" using step.hyps assms by simp
  have IH: "perm_loop m1 a b m2 c d pred (Suc i) =
      Some (\<forall>x \<in> set ?T. (\<forall>y \<in> set (?S @ [?z]). \<not> pred y x) \<longrightarrow> occurrences pred x ?T = occurrences pred x ?Z)"
    using step seg_snoc [of a i m1] i by simp
  have seg_i: "seg m1 i b = ?z # ?T" using step.hyps i by (intro seg_Cons) auto
  have match: "perm_match m1 pred a i = Some i \<longleftrightarrow> (\<forall>y \<in> set ?S. \<not> pred y ?z)"
    using step.prems i prefix_end_is_end [of a i m1 "\<lambda>x. \<not> pred x ?z"] by (simp add: perm_match_eq)
  obtain j where j: "perm_match m1 pred a i = Some j" using step.prems i by (simp add: perm_match_eq)
  have "perm_loop m1 a b m2 c d pred i =
      Some (((\<forall>y \<in> set ?S. \<not> pred y ?z) \<longrightarrow> Suc (occurrences pred ?z ?T) = occurrences pred ?z ?Z) \<and>
        (\<forall>x \<in> set ?T. (\<forall>y \<in> set (?S @ [?z]). \<not> pred y x) \<longrightarrow> occurrences pred x ?T = occurrences pred x ?Z))"
    using step.hyps assms i match j IH
    by (subst perm_loop.simps) (cases "j = i", auto simp: mem_simps perm_count_eq)
  then show ?case unfolding seg_i perm_split .
qed

lemma occurrences_other:
  "occurrences pred x (filter (\<lambda>y. \<not> pred z y) xs) = (if pred x z then 0 else occurrences pred x xs)"
  by (induction xs) (auto dest: pred_trans pred_sym)

lemma occurrences_all:
  assumes "length xs = length ys" "\<forall>x \<in> set xs. occurrences pred x xs = occurrences pred x ys"
  shows "occurrences pred x xs = occurrences pred x ys"
  using assms
proof (induction "length xs" arbitrary: xs ys rule: less_induct)
  case less
  show ?case
  proof (cases xs)
    case Nil
    then show ?thesis using less.prems by simp
  next
    case (Cons z zs)
    let ?f = "filter (\<lambda>y. \<not> pred z y)"
    have z: "occurrences pred z xs = occurrences pred z ys" using less.prems Cons by simp
    have "length (?f xs) < length xs" using Cons pred_refl [of z] by (simp add: le_imp_less_Suc)
    moreover have "length (?f xs) = length (?f ys)"
      using z less.prems(1) sum_length_filter_compl [of "pred z" xs] sum_length_filter_compl [of "pred z" ys]
      by (simp add: occurrences_def)
    moreover have "\<forall>x \<in> set (?f xs). occurrences pred x (?f xs) = occurrences pred x (?f ys)"
      using less.prems(2) by (simp add: occurrences_other)
    ultimately have "occurrences pred x (?f xs) = occurrences pred x (?f ys)" by (rule less.hyps)
    then show ?thesis using z occurrences_class [of x z] by (simp add: occurrences_other split: if_splits)
  qed
qed

lemma occurrences_list_all2:
  "list_all2 pred xs ys \<Longrightarrow> occurrences pred x xs = occurrences pred x ys"
  by (induction rule: list_all2_induct) (auto dest: pred_trans pred_sym)

lemma common_prefix_take:
  "k = common_prefix pred xs ys \<Longrightarrow> list_all2 pred (take k xs) (take k ys) \<and> k \<le> length xs \<and> k \<le> length ys"
  by (induction xs ys arbitrary: k rule: list_induct2') auto

lemma common_prefix_differ:
  "k = common_prefix pred xs ys \<Longrightarrow> k < length xs \<Longrightarrow> k < length ys \<Longrightarrow> \<not> pred (xs ! k) (ys ! k)"
  by (induction xs ys arbitrary: k rule: list_induct2') (auto split: if_splits)

lemma perm_loop_start:
  assumes "a \<le> b" "b \<le> length m1" "c \<le> d" "d \<le> length m2" "b - a = d - c"
  shows "perm_loop m1 a b m2 c d pred a =
    Some (\<forall>x. occurrences pred x (seg m1 a b) = occurrences pred x (seg m2 c d))"
proof -
  have "(\<forall>x \<in> set (seg m1 a b). occurrences pred x (seg m1 a b) = occurrences pred x (seg m2 c d)) \<longleftrightarrow>
      (\<forall>x. occurrences pred x (seg m1 a b) = occurrences pred x (seg m2 c d))"
    using occurrences_all [of "seg m1 a b" "seg m2 c d"] assms by (simp only: length_seg) blast
  with perm_loop_correct [OF order_refl assms(1-4)] show ?thesis by simp
qed

lemma is_permutation_forward_correct:
  assumes "a \<le> b" "b \<le> length m1" "c \<le> d" "d \<le> length m2"
  shows "is_permutation_forward m1 a b m2 c d pred =
    Some (length (seg m1 a b) = length (seg m2 c d) \<and>
      (\<forall>x. occurrences pred x (seg m1 a b) = occurrences pred x (seg m2 c d)))"
proof -
  define k where "k = common_prefix pred (seg m1 a b) (seg m2 c d)"
  have k: "list_all2 pred (take k (seg m1 a b)) (take k (seg m2 c d))" "k \<le> b - a" "k \<le> d - c"
    using common_prefix_take [OF k_def] assms by auto
  have s1: "seg m1 a b = seg m1 a (a + k) @ seg m1 (a + k) b" and s2: "seg m2 c d = seg m2 c (c + k) @ seg m2 (c + k) d"
    using k assms by (auto intro!: seg_append)
  have "take k (seg m1 a b) = seg m1 a (a + k)" "take k (seg m2 c d) = seg m2 c (c + k)"
    using k assms unfolding s1 s2 by auto
  with k have pre: "occurrences pred x (seg m1 a (a + k)) = occurrences pred x (seg m2 c (c + k))" for x
    using occurrences_list_all2 by metis
  have eq: "(\<forall>x. occurrences pred x (seg m1 a b) = occurrences pred x (seg m2 c d)) \<longleftrightarrow>
      (\<forall>x. occurrences pred x (seg m1 (a + k) b) = occurrences pred x (seg m2 (c + k) d))"
    unfolding s1 s2 by (simp add: pre)
  have mis: "mismatch m1 a b m2 c d pred = Some (a + k, c + k)"
    using mismatch_eq_prefix [OF assms] by (simp add: k_def Let_def)
  have len: "length (seg m1 a b) = length (seg m2 c d) \<longleftrightarrow> b - (a + k) = d - (c + k)"
    using k assms by auto
  show ?thesis
  proof (cases "b - (a + k) = d - (c + k)")
    case True
    then have "a + k = b \<longleftrightarrow> c + k = d" "b - a = d - c" using k assms by linarith+
    with True show ?thesis
      using assms k perm_loop_start [of "a + k" b m1 "c + k" d m2]
      by (cases "a + k = b") (simp_all add: is_permutation_forward_def mis eq len)
  next
    case False
    then have "\<not> (a + k = b \<and> c + k = d)" by auto
    with False show ?thesis by (auto simp: is_permutation_forward_def mis len)
  qed
qed

lemma is_permutation_half_correct:
  assumes "a \<le> b" "b \<le> length m1" "c + (b - a) \<le> length m2"
  shows "is_permutation_half m1 a b m2 c pred =
    Some (\<forall>x. occurrences pred x (seg m1 a b) = occurrences pred x (seg m2 c (c + (b - a))))"
proof -
  let ?d = "c + (b - a)"
  define k where "k = common_prefix pred (seg m1 a b) (seg m2 c ?d)"
  have k: "k \<le> b - a" using common_prefix_take [OF k_def] assms by auto
  have half: "mismatch_half m1 a b m2 c pred = Some (a + k, c + k)"
    using mismatch_half_eq_prefix [OF assms, of pred] by (simp add: k_def Let_def)
  have full: "mismatch m1 a b m2 c ?d pred = Some (a + k, c + k)"
    using mismatch_eq_prefix [of a b m1 c ?d m2 pred] assms by (simp add: k_def Let_def)
  have fw: "is_permutation_forward m1 a b m2 c ?d pred =
      Some (\<forall>x. occurrences pred x (seg m1 a b) = occurrences pred x (seg m2 c ?d))"
    using is_permutation_forward_correct [of a b m1 c ?d m2] assms by simp
  have single: "perm_loop m1 (a + k) b m2 (c + k) ?d pred (a + k) = Some False" if "b - (a + k) = 1"
  proof -
    have "\<not> pred (m1 ! (a + k)) (m2 ! (c + k))"
      using common_prefix_differ [OF k_def] that assms by (simp add: k_def [symmetric])
    moreover have "seg m1 (a + k) b = [m1 ! (a + k)]" "seg m2 (c + k) ?d = [m2 ! (c + k)]"
      using that assms k by (auto simp: seg_Cons)
    ultimately have "occurrences pred (m1 ! (a + k)) (seg m1 (a + k) b) \<noteq> occurrences pred (m1 ! (a + k)) (seg m2 (c + k) ?d)"
      using pred_refl by simp
    then show ?thesis using perm_loop_start [of "a + k" b m1 "c + k" ?d m2] assms k by auto
  qed
  have "c + k + (b - (a + k)) = ?d" using k by simp
  then have "is_permutation_half m1 a b m2 c pred = is_permutation_forward m1 a b m2 c ?d pred"
    using k single assms unfolding is_permutation_half_def is_permutation_forward_def half full
    by (auto simp: Let_def)
  with fw show ?thesis by simp
qed

lemma is_permutation_pred:
  assumes "a \<le> b" "b \<le> length m1" "c \<le> d" "d \<le> length m2"
  shows "is_permutation ra m1 a b m2 c d pred =
    Some (length (seg m1 a b) = length (seg m2 c d) \<and>
      (\<forall>x. occurrences pred x (seg m1 a b) = occurrences pred x (seg m2 c d)))"
proof (cases "ra \<and> b - a = d - c")
  case True
  then have "c + (b - a) = d" using assms by simp
  with True assms is_permutation_half_correct [of a b m1 c m2] show ?thesis
    by (simp add: is_permutation_def is_permutation_random_def)
next
  case False
  then show ?thesis
    using assms by (auto simp: is_permutation_def is_permutation_random_def is_permutation_forward_correct)
qed

end

interpretation equal_to: equivalence_pred equal_to_op
  by unfold_locales (simp_all add: equal_to_op_def)

lemma occurrences_equal_to: "occurrences equal_to_op x xs = count (mset xs) x"
  by (induction xs) (auto simp: equal_to_op_def)

section \<open>Properties\<close>

text \<open>
  \<^verbatim>\<open>find_if\<close> returns the first position whose element satisfies the predicate, or the end of the
  range; \<^verbatim>\<open>find\<close> and \<^verbatim>\<open>find_if_not\<close> are its instances.
\<close>

theorem find_if_correct:
  assumes "a \<le> b" "b \<le> length m"
  shows "(\<exists>k. find_if m a b pred = Some k \<and> find_if_not m a b (\<lambda>x. \<not> pred x) = Some k \<and>
            a \<le> k \<and> k \<le> b \<and> (\<forall>x \<in> set (seg m a k). \<not> pred x) \<and> (k < b \<longrightarrow> pred (m ! k))) \<and>
         find_value m a b v = find_if m a b (\<lambda>x. x = v)"
proof (intro conjI exI)
  let ?k = "prefix_end m a b (\<lambda>x. \<not> pred x)"
  show "find_if m a b pred = Some ?k" by (rule find_if_eq [OF assms])
  show "find_if_not m a b (\<lambda>x. \<not> pred x) = Some ?k" by (rule find_if_not_eq [OF assms])
  show "a \<le> ?k" "?k \<le> b" by (rule prefix_end_bounds [OF assms])+
  show "\<forall>x \<in> set (seg m a ?k). \<not> pred x"
  proof
    fix x assume "x \<in> set (seg m a ?k)"
    then have "x \<in> set (takeWhile (\<lambda>x. \<not> pred x) (seg m a b))" by (simp only: seg_prefix_end [OF assms])
    from set_takeWhileD [OF this] show "\<not> pred x" ..
  qed
  show "?k < b \<longrightarrow> pred (m ! ?k)" using prefix_end_out [OF _ assms] by blast
qed (rule find_value_eq)

theorem find_if_correct_witness:
  "(\<exists>k. find_if [4, 6, 7, 8 :: int] 0 4 (\<lambda>x. 6 < x) = Some k \<and>
     find_if_not [4, 6, 7, 8 :: int] 0 4 (\<lambda>x. \<not> 6 < x) = Some k \<and> 0 \<le> k \<and> k \<le> 4 \<and>
     (\<forall>x \<in> set (seg [4, 6, 7, 8 :: int] 0 k). \<not> 6 < x) \<and> (k < 4 \<longrightarrow> 6 < [4, 6, 7, 8 :: int] ! k)) \<and>
   find_value [4, 6, 7, 8 :: int] 0 4 7 = find_if [4, 6, 7, 8 :: int] 0 4 (\<lambda>x. x = 7)"
  by (rule find_if_correct) simp_all

text \<open>
  \<^verbatim>\<open>equal\<close> on two ranges decides that they have the same length and match element by element, the
  same for both of its implementations.
\<close>

theorem equal_ranges_correct:
  assumes "a \<le> b" "b \<le> length m1" "c \<le> d" "d \<le> length m2"
  shows "equal_ranges ra m1 a b m2 c d pred = Some (list_all2 pred (seg m1 a b) (seg m2 c d))"
  using assms by (simp add: equal_ranges_def equal_random_eq equal_input_eq)

theorem equal_ranges_correct_witness:
  "equal_ranges True [4, 6, 7 :: int] 0 2 [1, 4, 6] 1 3 (=) = Some True"
  using equal_ranges_correct [of 0 2 "[4, 6, 7 :: int]" 1 3 "[1, 4, 6]" True "(=)"] by (simp add: seg_def)

text \<open>\<^verbatim>\<open>is_partitioned\<close> decides that no element satisfying the predicate follows one that does not.\<close>

theorem is_partitioned_correct:
  assumes "a \<le> b" "b \<le> length m"
  shows "is_partitioned m a b pred = Some (partitioned_by pred (seg m a b))"
  using assms by (rule is_partitioned_eq)

theorem is_partitioned_correct_witness:
  "is_partitioned [1, 3, 8, 9 :: int] 0 4 (\<lambda>x. x < 5) = Some True"
  using is_partitioned_correct [of 0 4 "[1, 3, 8, 9 :: int]" "\<lambda>x. x < 5"] by (simp add: seg_def partitioned_by_def)

text \<open>
  \<^verbatim>\<open>is_permutation\<close> with \<^verbatim>\<open>==\<close> decides that the two ranges hold the same multiset of elements, in
  the forward and in the random access version.
\<close>

theorem is_permutation_correct:
  assumes "a \<le> b" "b \<le> length m1" "c \<le> d" "d \<le> length m2"
  shows "is_permutation_eq ra m1 a b m2 c d = Some (mset (seg m1 a b) = mset (seg m2 c d))"
  unfolding is_permutation_eq_def equal_to.is_permutation_pred [OF assms] occurrences_equal_to
  using mset_eq_length by (auto simp: multiset_eq_iff)

theorem is_permutation_correct_witness:
  "is_permutation_eq False [2, 1, 1, 3 :: int] 0 3 [1, 2, 1] 0 3 = Some True"
  using is_permutation_correct [of 0 3 "[2, 1, 1, 3 :: int]" 0 3 "[1, 2, 1]" False] by (simp add: seg_def)

text \<open>
  \<^verbatim>\<open>is_permutation\<close> with any equivalence decides that the ranges are equally long and every class
  of equivalent elements occurs equally often in both.
\<close>

theorem is_permutation_equivalence:
  assumes "equivalence_pred pred" "a \<le> b" "b \<le> length m1" "c \<le> d" "d \<le> length m2"
  shows "is_permutation ra m1 a b m2 c d pred =
    Some (b - a = d - c \<and>
      (\<forall>x. length (filter (pred x) (seg m1 a b)) = length (filter (pred x) (seg m2 c d))))"
  using equivalence_pred.is_permutation_pred [OF assms] assms by (simp add: occurrences_def)

lemma equivalence_pred_of: "equivalence_pred (\<lambda>x y. f x = f y)"
  by unfold_locales simp_all

theorem is_permutation_equivalence_witness:
  "is_permutation True [1, 2, 3 :: int] 0 3 [12, 11, 23] 0 3 (\<lambda>x y. x mod 10 = y mod 10) =
    Some (3 - 0 = (3 - 0 :: nat) \<and>
      (\<forall>x. length (filter (\<lambda>y. x mod 10 = y mod 10) (seg [1, 2, 3 :: int] 0 3)) =
           length (filter (\<lambda>y. x mod 10 = y mod 10) (seg [12, 11, 23 :: int] 0 3))))"
  by (rule is_permutation_equivalence [OF equivalence_pred_of]) simp_all

end
