(* ===== verification/Subsequence_Search.thy ===== *)
theory Subsequence_Search
  imports Linear_Search
begin

text \<open>
  Searching a range for a pattern: \<^verbatim>\<open>search.h\<close>, \<^verbatim>\<open>search_n.h\<close>, \<^verbatim>\<open>find_end.h\<close> of
  \<^verbatim>\<open>cuda/std/__algorithm\<close> and \<^verbatim>\<open>default_searcher\<close> of \<^verbatim>\<open>cuda/std/__functional\<close>, each in the versions
  for the iterator categories.

  An inner loop that can leave its outer loop returns a \<open>match_result\<close>; an inner loop that can
  only return \<^verbatim>\<open>__last\<close> from the whole function returns the iterator it stopped at.
\<close>

section \<open>Definitions\<close>

subsection \<open>search\<close>

datatype match_result = Matched iter | Exhausted | Mismatch

function search_scan ::
    "'a mem \<Rightarrow> iter \<Rightarrow> iter \<Rightarrow> 'b mem \<Rightarrow> iter \<Rightarrow> ('a \<Rightarrow> 'b \<Rightarrow> bool) \<Rightarrow> iter option" where
  "search_scan m1 first1 s m2 first2 pred =
     (if first1 = s then Some first1
      else do {
        x \<leftarrow> rd m1 first1;
        y \<leftarrow> rd m2 first2;
        if pred x y then Some first1 else search_scan m1 (Suc first1) s m2 first2 pred
      })"
  by pat_completeness auto
termination
  by (relation "measure (\<lambda>(m1, first1, s, m2, first2, pred). length m1 - first1)") auto

function search_match ::
    "'a mem \<Rightarrow> iter \<Rightarrow> 'b mem \<Rightarrow> iter \<Rightarrow> ('a \<Rightarrow> 'b \<Rightarrow> bool) \<Rightarrow> iter \<Rightarrow> iter \<Rightarrow> match_result option" where
  "search_match m1 last1 m2 last2 pred i j =
     (let j = Suc j in
      if j = last2 then Some (Matched i)
      else let i = Suc i in
        if i = last1 then Some Exhausted
        else do {
          x \<leftarrow> rd m1 i;
          y \<leftarrow> rd m2 j;
          if \<not> pred x y then Some Mismatch else search_match m1 last1 m2 last2 pred i j
        })"
  by pat_completeness auto
termination
  by (relation "measure (\<lambda>(m1, last1, m2, last2, pred, i, j). length m1 - i)") auto

declare search_scan.simps [simp del] search_match.simps [simp del]

lemma search_scan_bounds:
  "search_scan m1 f s m2 g pred = Some i \<Longrightarrow> f \<le> i \<and> (i \<noteq> s \<longrightarrow> i < length m1)"
proof (induction m1 f s m2 g pred rule: search_scan.induct)
  case (1 m1 f s m2 g pred)
  then show ?case
    by (subst (asm) (2) search_scan.simps) (fastforce simp: bind_eq_Some_conv split: if_splits)
qed

function search_forward_loop ::
    "'a mem \<Rightarrow> iter \<Rightarrow> iter \<Rightarrow> 'b mem \<Rightarrow> iter \<Rightarrow> iter \<Rightarrow> ('a \<Rightarrow> 'b \<Rightarrow> bool) \<Rightarrow> (iter \<times> iter) option" where
  "search_forward_loop m1 first1 last1 m2 first2 last2 pred = do {
     i \<leftarrow> search_scan m1 first1 last1 m2 first2 pred;
     if i = last1 then Some (last1, last1)
     else do {
       r \<leftarrow> search_match m1 last1 m2 last2 pred i first2;
       case r of
         Matched j \<Rightarrow> Some (i, j)
       | Exhausted \<Rightarrow> Some (last1, last1)
       | Mismatch \<Rightarrow> search_forward_loop m1 (Suc i) last1 m2 first2 last2 pred
     }
   }"
  by pat_completeness auto
termination
  by (relation "measure (\<lambda>(m1, first1, last1, m2, first2, last2, pred). length m1 - first1)")
    (auto dest!: search_scan_bounds)

definition search_forward ::
    "'a mem \<Rightarrow> iter \<Rightarrow> iter \<Rightarrow> 'b mem \<Rightarrow> iter \<Rightarrow> iter \<Rightarrow> ('a \<Rightarrow> 'b \<Rightarrow> bool) \<Rightarrow> (iter \<times> iter) option" where
  "search_forward m1 first1 last1 m2 first2 last2 pred =
     (if first2 = last2 then Some (first1, first1)
      else search_forward_loop m1 first1 last1 m2 first2 last2 pred)"

function search_random_match ::
    "'a mem \<Rightarrow> 'b mem \<Rightarrow> iter \<Rightarrow> ('a \<Rightarrow> 'b \<Rightarrow> bool) \<Rightarrow> iter \<Rightarrow> iter \<Rightarrow> bool option" where
  "search_random_match m1 m2 last2 pred i j =
     (let j = Suc j in
      if j = last2 then Some True
      else let i = Suc i in do {
        x \<leftarrow> rd m1 i;
        y \<leftarrow> rd m2 j;
        if \<not> pred x y then Some False else search_random_match m1 m2 last2 pred i j
      })"
  by pat_completeness auto
termination
  by (relation "measure (\<lambda>(m1, m2, last2, pred, i, j). length m1 - i)") auto

function search_random_loop ::
    "'a mem \<Rightarrow> iter \<Rightarrow> iter \<Rightarrow> iter \<Rightarrow> nat \<Rightarrow> 'b mem \<Rightarrow> iter \<Rightarrow> iter \<Rightarrow> ('a \<Rightarrow> 'b \<Rightarrow> bool) \<Rightarrow>
      (iter \<times> iter) option" where
  "search_random_loop m1 first1 last1 s len2 m2 first2 last2 pred = do {
     i \<leftarrow> search_scan m1 first1 s m2 first2 pred;
     if i = s then Some (last1, last1)
     else do {
       found \<leftarrow> search_random_match m1 m2 last2 pred i first2;
       if found then Some (i, i + len2)
       else search_random_loop m1 (Suc i) last1 s len2 m2 first2 last2 pred
     }
   }"
  by pat_completeness auto
termination
  by (relation "measure (\<lambda>(m1, first1, last1, s, len2, m2, first2, last2, pred). length m1 - first1)")
    (auto dest!: search_scan_bounds)

definition search_random ::
    "'a mem \<Rightarrow> iter \<Rightarrow> iter \<Rightarrow> 'b mem \<Rightarrow> iter \<Rightarrow> iter \<Rightarrow> ('a \<Rightarrow> 'b \<Rightarrow> bool) \<Rightarrow> (iter \<times> iter) option" where
  "search_random m1 first1 last1 m2 first2 last2 pred =
     (let len2 = last2 - first2 in
      if len2 = 0 then Some (first1, first1)
      else let len1 = last1 - first1 in
        if len1 < len2 then Some (last1, last1)
        else let s = last1 - (len2 - 1) in
          search_random_loop m1 first1 last1 s len2 m2 first2 last2 pred)"

text \<open>
  The dispatch on the iterator categories, \<open>ra\<close> when both are random access;
  \<^verbatim>\<open>default_searcher\<close> hands out the pair, \<^verbatim>\<open>search\<close> its first component.
\<close>

definition default_searcher_call ::
    "bool \<Rightarrow> 'b mem \<Rightarrow> iter \<Rightarrow> iter \<Rightarrow> ('a \<Rightarrow> 'b \<Rightarrow> bool) \<Rightarrow> 'a mem \<Rightarrow> iter \<Rightarrow> iter \<Rightarrow> (iter \<times> iter) option" where
  "default_searcher_call ra m2 first2 last2 pred m1 f l =
     (if ra then search_random m1 f l m2 first2 last2 pred
      else search_forward m1 f l m2 first2 last2 pred)"

definition search ::
    "bool \<Rightarrow> 'a mem \<Rightarrow> iter \<Rightarrow> iter \<Rightarrow> 'b mem \<Rightarrow> iter \<Rightarrow> iter \<Rightarrow> ('a \<Rightarrow> 'b \<Rightarrow> bool) \<Rightarrow> iter option" where
  "search ra m1 first1 last1 m2 first2 last2 pred =
     map_option fst (if ra then search_random m1 first1 last1 m2 first2 last2 pred
                     else search_forward m1 first1 last1 m2 first2 last2 pred)"

definition search_eq ::
    "bool \<Rightarrow> 'a mem \<Rightarrow> iter \<Rightarrow> iter \<Rightarrow> 'a mem \<Rightarrow> iter \<Rightarrow> iter \<Rightarrow> iter option" where
  "search_eq ra m1 first1 last1 m2 first2 last2 =
     search ra m1 first1 last1 m2 first2 last2 equal_to_op"

definition search_searcher ::
    "'a mem \<Rightarrow> iter \<Rightarrow> iter \<Rightarrow> ('a mem \<Rightarrow> iter \<Rightarrow> iter \<Rightarrow> (iter \<times> iter) option) \<Rightarrow> iter option" where
  "search_searcher m f l searcher = map_option fst (searcher m f l)"

subsection \<open>search\_n\<close>

text \<open>
  The count has a signed type \<^verbatim>\<open>_Size\<close> of \<open>w\<close> bits; the random access version converts the length
  of the range to it, which wraps.
\<close>

definition to_size :: "nat \<Rightarrow> int \<Rightarrow> int" where
  "to_size w x = (x + 2 ^ (w - 1)) mod 2 ^ w - 2 ^ (w - 1)"

function search_n_scan :: "'a mem \<Rightarrow> iter \<Rightarrow> iter \<Rightarrow> 'v \<Rightarrow> ('a \<Rightarrow> 'v \<Rightarrow> bool) \<Rightarrow> iter option" where
  "search_n_scan m first last' val pred =
     (if first = last' then Some first
      else do {
        x \<leftarrow> rd m first;
        if pred x val then Some first else search_n_scan m (Suc first) last' val pred
      })"
  by pat_completeness auto
termination
  by (relation "measure (\<lambda>(m, first, last', val, pred). length m - first)") auto

text \<open>The result \<open>Mismatch\<close> comes with the iterator of the mismatch.\<close>

function search_n_match ::
    "'a mem \<Rightarrow> iter \<Rightarrow> int \<Rightarrow> 'v \<Rightarrow> ('a \<Rightarrow> 'v \<Rightarrow> bool) \<Rightarrow> iter \<Rightarrow> int \<Rightarrow> (match_result \<times> iter) option" where
  "search_n_match m last' count' val pred i c =
     (let c = c + 1 in
      if c = count' then Some (Matched i, i)
      else let i = Suc i in
        if i = last' then Some (Exhausted, i)
        else do {
          x \<leftarrow> rd m i;
          if \<not> pred x val then Some (Mismatch, i)
          else search_n_match m last' count' val pred i c
        })"
  by pat_completeness auto
termination
  by (relation "measure (\<lambda>(m, last', count', val, pred, i, c). length m - i)") auto

declare search_n_scan.simps [simp del] search_n_match.simps [simp del]

lemma search_n_scan_bounds:
  "search_n_scan m f s v pred = Some i \<Longrightarrow> f \<le> i \<and> (i \<noteq> s \<longrightarrow> i < length m)"
proof (induction m f s v pred rule: search_n_scan.induct)
  case (1 m f s v pred)
  then show ?case
    by (subst (asm) (2) search_n_scan.simps) (fastforce simp: bind_eq_Some_conv split: if_splits)
qed

lemma search_n_match_bounds:
  "search_n_match m l n v pred i c = Some (r, j) \<Longrightarrow> i \<le> j \<and> (r = Mismatch \<longrightarrow> i < j)"
proof (induction m l n v pred i c rule: search_n_match.induct)
  case (1 m l n v pred i c)
  then show ?case
    by (subst (asm) (2) search_n_match.simps) (fastforce simp: bind_eq_Some_conv Let_def split: if_splits)
qed

function search_n_forward_loop ::
    "'a mem \<Rightarrow> iter \<Rightarrow> iter \<Rightarrow> int \<Rightarrow> 'v \<Rightarrow> ('a \<Rightarrow> 'v \<Rightarrow> bool) \<Rightarrow> iter option" where
  "search_n_forward_loop m first last' count' val pred = do {
     i \<leftarrow> search_n_scan m first last' val pred;
     if i = last' then Some last'
     else do {
       (r, j) \<leftarrow> search_n_match m last' count' val pred i 0;
       case r of
         Matched _ \<Rightarrow> Some i
       | Exhausted \<Rightarrow> Some last'
       | Mismatch \<Rightarrow> search_n_forward_loop m (Suc j) last' count' val pred
     }
   }"
  by pat_completeness auto
termination
  by (relation "measure (\<lambda>(m, first, last', count', val, pred). length m - first)")
    (auto dest!: search_n_scan_bounds search_n_match_bounds)

definition search_n_forward ::
    "'a mem \<Rightarrow> iter \<Rightarrow> iter \<Rightarrow> int \<Rightarrow> 'v \<Rightarrow> ('a \<Rightarrow> 'v \<Rightarrow> bool) \<Rightarrow> iter option" where
  "search_n_forward m first last' count' val pred =
     (if count' \<le> 0 then Some first else search_n_forward_loop m first last' count' val pred)"

function search_n_random_scan :: "'a mem \<Rightarrow> iter \<Rightarrow> iter \<Rightarrow> 'v \<Rightarrow> ('a \<Rightarrow> 'v \<Rightarrow> bool) \<Rightarrow> iter option" where
  "search_n_random_scan m first s val pred =
     (if s \<le> first then Some first
      else do {
        x \<leftarrow> rd m first;
        if pred x val then Some first else search_n_random_scan m (Suc first) s val pred
      })"
  by pat_completeness auto
termination
  by (relation "measure (\<lambda>(m, first, s, val, pred). length m - first)") auto

text \<open>\<open>Inr ()\<close>: the pattern is exhausted; \<open>Inl j\<close>: mismatch at \<open>j\<close>.\<close>

function search_n_random_match ::
    "'a mem \<Rightarrow> int \<Rightarrow> 'v \<Rightarrow> ('a \<Rightarrow> 'v \<Rightarrow> bool) \<Rightarrow> iter \<Rightarrow> int \<Rightarrow> (iter + unit) option" where
  "search_n_random_match m count' val pred i c =
     (let c = c + 1 in
      if c = count' then Some (Inr ())
      else let i = Suc i in do {
        x \<leftarrow> rd m i;
        if \<not> pred x val then Some (Inl i) else search_n_random_match m count' val pred i c
      })"
  by pat_completeness auto
termination
  by (relation "measure (\<lambda>(m, count', val, pred, i, c). length m - i)") auto

declare search_n_random_scan.simps [simp del] search_n_random_match.simps [simp del]

lemma search_n_random_scan_bounds:
  "search_n_random_scan m f s v pred = Some i \<Longrightarrow> f \<le> i \<and> (i < s \<longrightarrow> i < length m)"
proof (induction m f s v pred rule: search_n_random_scan.induct)
  case (1 m f s v pred)
  then show ?case
    by (subst (asm) (2) search_n_random_scan.simps) (fastforce simp: bind_eq_Some_conv split: if_splits)
qed

lemma search_n_random_match_bounds: "search_n_random_match m n v pred i c = Some (Inl j) \<Longrightarrow> i < j"
proof (induction m n v pred i c rule: search_n_random_match.induct)
  case (1 m n v pred i c)
  then show ?case
    by (subst (asm) (2) search_n_random_match.simps)
      (fastforce simp: bind_eq_Some_conv Let_def split: if_splits)
qed

function search_n_random_loop ::
    "'a mem \<Rightarrow> iter \<Rightarrow> iter \<Rightarrow> iter \<Rightarrow> int \<Rightarrow> 'v \<Rightarrow> ('a \<Rightarrow> 'v \<Rightarrow> bool) \<Rightarrow> iter option" where
  "search_n_random_loop m first last' s count' val pred = do {
     i \<leftarrow> search_n_random_scan m first s val pred;
     if s \<le> i then Some last'
     else do {
       r \<leftarrow> search_n_random_match m count' val pred i 0;
       case r of
         Inr _ \<Rightarrow> Some i
       | Inl j \<Rightarrow> search_n_random_loop m (Suc j) last' s count' val pred
     }
   }"
  by pat_completeness auto
termination
  by (relation "measure (\<lambda>(m, first, last', s, count', val, pred). length m - first)")
    (auto dest!: search_n_random_scan_bounds search_n_random_match_bounds)

definition search_n_random ::
    "nat \<Rightarrow> 'a mem \<Rightarrow> iter \<Rightarrow> iter \<Rightarrow> int \<Rightarrow> 'v \<Rightarrow> ('a \<Rightarrow> 'v \<Rightarrow> bool) \<Rightarrow> iter option" where
  "search_n_random w m first last' count' val pred =
     (if count' \<le> 0 then Some first
      else let len = to_size w (int (last' - first)) in
        if len < count' then Some last'
        else let s = nat (int last' - (count' - 1)) in
          search_n_random_loop m first last' s count' val pred)"

definition search_n ::
    "bool \<Rightarrow> nat \<Rightarrow> 'a mem \<Rightarrow> iter \<Rightarrow> iter \<Rightarrow> int \<Rightarrow> 'v \<Rightarrow> ('a \<Rightarrow> 'v \<Rightarrow> bool) \<Rightarrow> iter option" where
  "search_n ra w m first last' count' val pred =
     (if ra then search_n_random w m first last' count' val pred
      else search_n_forward m first last' count' val pred)"

definition search_n_eq ::
    "bool \<Rightarrow> nat \<Rightarrow> 'a mem \<Rightarrow> iter \<Rightarrow> iter \<Rightarrow> int \<Rightarrow> 'a \<Rightarrow> iter option" where
  "search_n_eq ra w m first last' count' val = search_n ra w m first last' count' val equal_to_op"

subsection \<open>find\_end\<close>

function find_end_forward_loop ::
    "'a mem \<Rightarrow> iter \<Rightarrow> iter \<Rightarrow> 'b mem \<Rightarrow> iter \<Rightarrow> iter \<Rightarrow> ('a \<Rightarrow> 'b \<Rightarrow> bool) \<Rightarrow> iter \<Rightarrow> iter option" where
  "find_end_forward_loop m1 first1 last1 m2 first2 last2 pred r = do {
     i \<leftarrow> search_scan m1 first1 last1 m2 first2 pred;
     if i = last1 then Some r
     else do {
       res \<leftarrow> search_match m1 last1 m2 last2 pred i first2;
       case res of
         Matched _ \<Rightarrow> find_end_forward_loop m1 (Suc i) last1 m2 first2 last2 pred i
       | Exhausted \<Rightarrow> Some r
       | Mismatch \<Rightarrow> find_end_forward_loop m1 (Suc i) last1 m2 first2 last2 pred r
     }
   }"
  by pat_completeness auto
termination
  by (relation "measure (\<lambda>(m1, first1, last1, m2, first2, last2, pred, r). length m1 - first1)")
    (auto dest!: search_scan_bounds)

definition find_end_forward ::
    "'a mem \<Rightarrow> iter \<Rightarrow> iter \<Rightarrow> 'b mem \<Rightarrow> iter \<Rightarrow> iter \<Rightarrow> ('a \<Rightarrow> 'b \<Rightarrow> bool) \<Rightarrow> iter option" where
  "find_end_forward m1 first1 last1 m2 first2 last2 pred =
     (if first2 = last2 then Some last1
      else find_end_forward_loop m1 first1 last1 m2 first2 last2 pred last1)"

text \<open>
  The two versions that search backwards.  The scan returns the position of the matching element,
  or \<open>None\<close> inside the option when it reaches \<open>s\<close>.
\<close>

fun find_end_scan ::
    "'a mem \<Rightarrow> iter \<Rightarrow> 'b mem \<Rightarrow> iter \<Rightarrow> ('a \<Rightarrow> 'b \<Rightarrow> bool) \<Rightarrow> iter \<Rightarrow> iter option option" where
  "find_end_scan m1 s m2 l2 pred l1 =
     (if s = l1 then Some None
      else if l1 = 0 then None
      else do {
        x \<leftarrow> rd m1 (l1 - 1);
        y \<leftarrow> rd m2 l2;
        if pred x y then Some (Some (l1 - 1)) else find_end_scan m1 s m2 l2 pred (l1 - 1)
      })"

declare find_end_scan.simps [simp del]

lemma find_end_scan_bounds: "find_end_scan m1 s m2 l2 pred l1 = Some (Some i) \<Longrightarrow> i < l1"
proof (induction m1 s m2 l2 pred l1 rule: find_end_scan.induct)
  case (1 m1 s m2 l2 pred l1)
  then show ?case
    by (subst (asm) (2) find_end_scan.simps) (fastforce simp: bind_eq_Some_conv split: if_splits)
qed

fun find_end_bidi_match ::
    "'a mem \<Rightarrow> iter \<Rightarrow> 'b mem \<Rightarrow> iter \<Rightarrow> ('a \<Rightarrow> 'b \<Rightarrow> bool) \<Rightarrow> iter \<Rightarrow> iter \<Rightarrow> match_result option" where
  "find_end_bidi_match m1 first1 m2 first2 pred i j =
     (if j = first2 then Some (Matched i)
      else if i = first1 then Some Exhausted
      else if i = 0 \<or> j = 0 then None
      else do {
        x \<leftarrow> rd m1 (i - 1);
        y \<leftarrow> rd m2 (j - 1);
        if \<not> pred x y then Some Mismatch
        else find_end_bidi_match m1 first1 m2 first2 pred (i - 1) (j - 1)
      })"

function find_end_bidi_loop ::
    "'a mem \<Rightarrow> iter \<Rightarrow> iter \<Rightarrow> 'b mem \<Rightarrow> iter \<Rightarrow> iter \<Rightarrow> ('a \<Rightarrow> 'b \<Rightarrow> bool) \<Rightarrow> iter \<Rightarrow> iter option" where
  "find_end_bidi_loop m1 first1 last1 m2 first2 l2 pred l1 = do {
     r \<leftarrow> find_end_scan m1 first1 m2 l2 pred l1;
     case r of
       None \<Rightarrow> Some last1
     | Some i \<Rightarrow> do {
         res \<leftarrow> find_end_bidi_match m1 first1 m2 first2 pred i l2;
         case res of
           Matched j \<Rightarrow> Some j
         | Exhausted \<Rightarrow> Some last1
         | Mismatch \<Rightarrow> find_end_bidi_loop m1 first1 last1 m2 first2 l2 pred i
       }
   }"
  by pat_completeness auto
termination
  by (relation "measure (\<lambda>(m1, first1, last1, m2, first2, l2, pred, l1). l1)") (auto dest: find_end_scan_bounds)

definition find_end_bidi ::
    "'a mem \<Rightarrow> iter \<Rightarrow> iter \<Rightarrow> 'b mem \<Rightarrow> iter \<Rightarrow> iter \<Rightarrow> ('a \<Rightarrow> 'b \<Rightarrow> bool) \<Rightarrow> iter option" where
  "find_end_bidi m1 first1 last1 m2 first2 last2 pred =
     (if first2 = last2 then Some last1
      else find_end_bidi_loop m1 first1 last1 m2 first2 (last2 - 1) pred last1)"

fun find_end_random_match ::
    "'a mem \<Rightarrow> 'b mem \<Rightarrow> iter \<Rightarrow> ('a \<Rightarrow> 'b \<Rightarrow> bool) \<Rightarrow> iter \<Rightarrow> iter \<Rightarrow> match_result option" where
  "find_end_random_match m1 m2 first2 pred i j =
     (if j = first2 then Some (Matched i)
      else if i = 0 \<or> j = 0 then None
      else do {
        x \<leftarrow> rd m1 (i - 1);
        y \<leftarrow> rd m2 (j - 1);
        if \<not> pred x y then Some Mismatch
        else find_end_random_match m1 m2 first2 pred (i - 1) (j - 1)
      })"

function find_end_random_loop ::
    "'a mem \<Rightarrow> iter \<Rightarrow> iter \<Rightarrow> 'b mem \<Rightarrow> iter \<Rightarrow> iter \<Rightarrow> ('a \<Rightarrow> 'b \<Rightarrow> bool) \<Rightarrow> iter \<Rightarrow> iter option" where
  "find_end_random_loop m1 s last1 m2 first2 l2 pred l1 = do {
     r \<leftarrow> find_end_scan m1 s m2 l2 pred l1;
     case r of
       None \<Rightarrow> Some last1
     | Some i \<Rightarrow> do {
         res \<leftarrow> find_end_random_match m1 m2 first2 pred i l2;
         case res of
           Matched j \<Rightarrow> Some j
         | _ \<Rightarrow> find_end_random_loop m1 s last1 m2 first2 l2 pred i
       }
   }"
  by pat_completeness auto
termination
  by (relation "measure (\<lambda>(m1, s, last1, m2, first2, l2, pred, l1). l1)") (auto dest: find_end_scan_bounds)

definition find_end_random ::
    "'a mem \<Rightarrow> iter \<Rightarrow> iter \<Rightarrow> 'b mem \<Rightarrow> iter \<Rightarrow> iter \<Rightarrow> ('a \<Rightarrow> 'b \<Rightarrow> bool) \<Rightarrow> iter option" where
  "find_end_random m1 first1 last1 m2 first2 last2 pred =
     (let len2 = last2 - first2 in
      if len2 = 0 then Some last1
      else let len1 = last1 - first1 in
        if len1 < len2 then Some last1
        else let s = first1 + (len2 - 1) in
          find_end_random_loop m1 s last1 m2 first2 (last2 - 1) pred last1)"

definition find_end ::
    "category \<Rightarrow> 'a mem \<Rightarrow> iter \<Rightarrow> iter \<Rightarrow> 'b mem \<Rightarrow> iter \<Rightarrow> iter \<Rightarrow> ('a \<Rightarrow> 'b \<Rightarrow> bool) \<Rightarrow> iter option" where
  "find_end cat m1 first1 last1 m2 first2 last2 pred =
     (case cat of
        Forward \<Rightarrow> find_end_forward m1 first1 last1 m2 first2 last2 pred
      | Bidirectional \<Rightarrow> find_end_bidi m1 first1 last1 m2 first2 last2 pred
      | Random_Access \<Rightarrow> find_end_random m1 first1 last1 m2 first2 last2 pred)"

definition find_end_eq ::
    "category \<Rightarrow> 'a mem \<Rightarrow> iter \<Rightarrow> iter \<Rightarrow> 'a mem \<Rightarrow> iter \<Rightarrow> iter \<Rightarrow> iter option" where
  "find_end_eq cat m1 first1 last1 m2 first2 last2 =
     find_end cat m1 first1 last1 m2 first2 last2 equal_to_op"

declare search_forward_loop.simps [simp del] search_random_match.simps [simp del]
  search_random_loop.simps [simp del] search_n_forward_loop.simps [simp del]
  search_n_random_loop.simps [simp del] find_end_forward_loop.simps [simp del]
  find_end_bidi_match.simps [simp del] find_end_bidi_loop.simps [simp del]
  find_end_random_match.simps [simp del] find_end_random_loop.simps [simp del]

section \<open>Occurrences of a pattern\<close>

definition match_at :: "('a \<Rightarrow> 'b \<Rightarrow> bool) \<Rightarrow> 'a mem \<Rightarrow> iter \<Rightarrow> 'b mem \<Rightarrow> iter \<Rightarrow> nat \<Rightarrow> bool" where
  "match_at pred m1 i m2 j n \<longleftrightarrow> (\<forall>k < n. pred (m1 ! (i + k)) (m2 ! (j + k)))"

definition occurs :: "('a \<Rightarrow> 'b \<Rightarrow> bool) \<Rightarrow> 'a mem \<Rightarrow> iter \<Rightarrow> 'b mem \<Rightarrow> iter \<Rightarrow> iter \<Rightarrow> iter \<Rightarrow> bool" where
  "occurs pred m1 last1 m2 f2 l2 i \<longleftrightarrow> i + (l2 - f2) \<le> last1 \<and> match_at pred m1 i m2 f2 (l2 - f2)"

definition first_such :: "(iter \<Rightarrow> bool) \<Rightarrow> iter \<Rightarrow> iter \<Rightarrow> iter \<Rightarrow> bool" where
  "first_such P f l r \<longleftrightarrow> f \<le> r \<and> r \<le> l \<and> (\<forall>i. f \<le> i \<and> i < r \<longrightarrow> \<not> P i) \<and> (r < l \<longrightarrow> P r)"

definition last_such :: "(iter \<Rightarrow> bool) \<Rightarrow> iter \<Rightarrow> iter \<Rightarrow> iter \<Rightarrow> bool" where
  "last_such P f l r \<longleftrightarrow> f \<le> r \<and> r \<le> l \<and>
     (if r = l then (\<forall>i. f \<le> i \<and> i < l \<longrightarrow> \<not> P i) else P r \<and> (\<forall>i. r < i \<and> i < l \<longrightarrow> \<not> P i))"

lemma match_at_0 [simp]: "match_at pred m1 i m2 j 0"
  by (simp add: match_at_def)

lemma match_at_Suc:
  "match_at pred m1 i m2 j (Suc n) \<longleftrightarrow> pred (m1 ! i) (m2 ! j) \<and> match_at pred m1 (Suc i) m2 (Suc j) n"
  by (auto simp: match_at_def less_Suc_eq_0_disj)

lemma match_at_snoc:
  "match_at pred m1 i m2 j (Suc n) \<longleftrightarrow> match_at pred m1 i m2 j n \<and> pred (m1 ! (i + n)) (m2 ! (j + n))"
  by (auto simp: match_at_def less_Suc_eq)

lemma occurs_head: "f2 < l2 \<Longrightarrow> occurs pred m1 last1 m2 f2 l2 i \<longleftrightarrow>
    i + (l2 - f2) \<le> last1 \<and> pred (m1 ! i) (m2 ! f2) \<and> match_at pred m1 (Suc i) m2 (Suc f2) (l2 - Suc f2)"
  using match_at_Suc [of pred m1 i m2 f2 "l2 - Suc f2"] by (simp add: occurs_def Suc_diff_Suc)

lemma first_such_skip:
  assumes "first_such P (Suc k) l r" "f \<le> k" "\<And>i. f \<le> i \<Longrightarrow> i \<le> k \<Longrightarrow> \<not> P i"
  shows "first_such P f l r"
  using assms(1,2) assms(3) not_less_eq_eq unfolding first_such_def by (metis Suc_leD order_trans)

lemma first_such_unique: "first_such P f l r \<Longrightarrow> first_such P f l r' \<Longrightarrow> r = r'"
  unfolding first_such_def by (metis linorder_neqE_nat le_less_trans nat_less_le)

section \<open>search\<close>

lemma search_scan_eq:
  "a \<le> s \<Longrightarrow> s \<le> length m1 \<Longrightarrow> g < length m2 \<Longrightarrow>
     search_scan m1 a s m2 g pred = Some (prefix_end m1 a s (\<lambda>x. \<not> pred x (m2 ! g)))"
  by (induction a rule: inc_induct) (subst search_scan.simps, simp add: mem_simps prefix_end_step)+

lemma search_random_match_eq:
  assumes "j < l2" "l2 \<le> length m2" "i + (l2 - j) \<le> length m1"
  shows "search_random_match m1 m2 l2 pred i j = Some (match_at pred m1 (Suc i) m2 (Suc j) (l2 - Suc j))"
  using assms
proof (induction "l2 - Suc j" arbitrary: i j)
  case 0
  then show ?case by (subst search_random_match.simps) simp
next
  case (Suc n)
  then have e: "l2 - Suc j = Suc (l2 - Suc (Suc j))" "n = l2 - Suc (Suc j)" "Suc j \<noteq> l2" by auto
  with Suc.hyps(1) [of "Suc j" "Suc i"] Suc.prems show ?case
    by (subst search_random_match.simps) (simp add: mem_simps match_at_Suc Let_def)
qed

lemma search_match_spec:
  assumes "j < l2" "l2 \<le> length m2" "i < l1" "l1 \<le> length m1"
  shows "\<exists>r. search_match m1 l1 m2 l2 pred i j = Some r \<and>
    (case r of
       Matched e \<Rightarrow> e + 1 = i + (l2 - j) \<and> i + (l2 - j) \<le> l1 \<and> match_at pred m1 (Suc i) m2 (Suc j) (l2 - Suc j)
     | Exhausted \<Rightarrow> l1 < i + (l2 - j)
     | Mismatch \<Rightarrow> \<not> match_at pred m1 (Suc i) m2 (Suc j) (l2 - Suc j))"
  using assms
proof (induction "l2 - Suc j" arbitrary: i j)
  case 0
  then have "l2 = Suc j" by simp
  with 0 show ?case by (subst search_match.simps) simp
next
  case (Suc n)
  then have e: "l2 - Suc j = Suc (l2 - Suc (Suc j))" "n = l2 - Suc (Suc j)" "Suc j \<noteq> l2" by auto
  note unfold = search_match.simps [of m1 l1 m2 l2 pred i j]
  consider "Suc i = l1" | "Suc i < l1" "\<not> pred (m1 ! Suc i) (m2 ! Suc j)" | "Suc i < l1" "pred (m1 ! Suc i) (m2 ! Suc j)"
    using Suc.prems by linarith
  then show ?case
  proof cases
    case 1
    with Suc.prems e show ?thesis by (simp add: unfold)
  next
    case 2
    with Suc.prems e show ?thesis by (simp add: unfold mem_simps Let_def match_at_Suc)
  next
    case 3
    have len: "Suc i + (l2 - Suc j) = i + (l2 - j)" using Suc.prems by simp
    obtain r where r: "search_match m1 l1 m2 l2 pred (Suc i) (Suc j) = Some r"
      "case r of
         Matched e \<Rightarrow> e + 1 = i + (l2 - j) \<and> i + (l2 - j) \<le> l1 \<and>
           match_at pred m1 (Suc (Suc i)) m2 (Suc (Suc j)) (l2 - Suc (Suc j))
       | Exhausted \<Rightarrow> l1 < i + (l2 - j)
       | Mismatch \<Rightarrow> \<not> match_at pred m1 (Suc (Suc i)) m2 (Suc (Suc j)) (l2 - Suc (Suc j))"
      using Suc.hyps(1) [OF e(2) _ Suc.prems(2) 3(1) Suc.prems(4)] e Suc.prems(1) unfolding len by auto
    have "search_match m1 l1 m2 l2 pred i j = Some r"
      using r(1) 3 Suc.prems e by (simp add: unfold mem_simps Let_def)
    with r(2) 3(2) show ?thesis unfolding e(1) match_at_Suc by (auto split: match_result.splits)
  qed
qed

lemma scan_no_occurs:
  assumes "f2 < l2" "a \<le> i" "i < prefix_end m1 a s (\<lambda>x. \<not> pred x (m2 ! f2))" "s \<le> length m1"
  shows "\<not> occurs pred m1 l1 m2 f2 l2 i"
  using prefix_end_in [OF assms(2,3,4)] assms(1) by (simp add: occurs_head)

lemma search_random_loop_spec:
  assumes "f2 < l2" "l2 \<le> length m2" "n = l2 - f2" "l1 + 1 = s + n" "l1 \<le> length m1" "a \<le> s"
  shows "\<exists>r. search_random_loop m1 a l1 s n m2 f2 l2 pred = Some (r, if r = l1 then l1 else r + n) \<and>
           first_such (occurs pred m1 l1 m2 f2 l2) a l1 r"
  using assms
proof (induction "s - a" arbitrary: a rule: less_induct)
  case less
  let ?P = "occurs pred m1 l1 m2 f2 l2"
  define k where "k = prefix_end m1 a s (\<lambda>x. \<not> pred x (m2 ! f2))"
  have s: "s \<le> length m1" "s \<le> l1" using less.prems by auto
  have k: "a \<le> k" "k \<le> s" using prefix_end_bounds [of a s m1] less.prems s by (auto simp: k_def)
  have scan: "search_scan m1 a s m2 f2 pred = Some k" using search_scan_eq [of a s m1 f2 m2 pred] less.prems s by (simp add: k_def)
  have none: "\<not> ?P i" if "a \<le> i" "i < k" for i
    using scan_no_occurs [of f2 l2 a i m1 s pred m2] that less.prems s by (simp add: k_def)
  have past: "\<not> ?P i" if "s \<le> i" for i using that less.prems by (auto simp: occurs_def)
  note unfold = search_random_loop.simps [of m1 a l1 s n m2 f2 l2 pred]
  show ?case
  proof (cases "k = s")
    case True
    then have "first_such ?P a l1 l1" using none past k s by (auto simp: first_such_def) (meson not_le)
    with True scan show ?thesis by (intro exI [of _ l1]) (simp add: unfold)
  next
    case False
    with k have ks: "k < s" by simp
    then have "pred (m1 ! k) (m2 ! f2)"
      using prefix_end_out [of m1 a s "\<lambda>x. \<not> pred x (m2 ! f2)"] less.prems s by (simp add: k_def)
    then have match: "search_random_match m1 m2 l2 pred k f2 = Some (?P k)"
      using search_random_match_eq [of f2 l2 m2 k m1 pred] less.prems ks occurs_head [of f2 l2 pred m1 l1 m2 k]
      by auto
    show ?thesis
    proof (cases "?P k")
      case True
      then have "first_such ?P a l1 k" using none k s by (auto simp: first_such_def)
      with True False scan match ks s show ?thesis by (intro exI [of _ k]) (simp add: unfold)
    next
      case nP: False
      obtain r where r: "search_random_loop m1 (Suc k) l1 s n m2 f2 l2 pred = Some (r, if r = l1 then l1 else r + n)"
          "first_such ?P (Suc k) l1 r"
        using less.hyps [of "Suc k"] less.prems diff_less_mono2 [of a "Suc k" s] ks k by auto
      have "\<not> ?P i" if "a \<le> i" "i \<le> k" for i using that none nP by (cases "i = k") auto
      with r(2) k(1) have "first_such ?P a l1 r" by (rule first_such_skip)
      with r(1) nP False scan match show ?thesis by (intro exI [of _ r]) (simp add: unfold)
    qed
  qed
qed

lemma search_forward_step:
  assumes "f2 < l2" "l2 \<le> length m2" "l1 \<le> length m1" "a \<le> l1"
  shows "\<exists>k. search_scan m1 a l1 m2 f2 pred = Some k \<and> a \<le> k \<and> k \<le> l1 \<and>
    (\<forall>i. a \<le> i \<and> i < k \<longrightarrow> \<not> occurs pred m1 l1 m2 f2 l2 i) \<and>
    (k < l1 \<longrightarrow> (\<exists>r. search_match m1 l1 m2 l2 pred k f2 = Some r \<and>
      (case r of
         Matched e \<Rightarrow> e + 1 = k + (l2 - f2) \<and> occurs pred m1 l1 m2 f2 l2 k
       | Exhausted \<Rightarrow> \<forall>i \<ge> k. \<not> occurs pred m1 l1 m2 f2 l2 i
       | Mismatch \<Rightarrow> \<not> occurs pred m1 l1 m2 f2 l2 k)))"
proof -
  let ?P = "occurs pred m1 l1 m2 f2 l2"
  define k where "k = prefix_end m1 a l1 (\<lambda>x. \<not> pred x (m2 ! f2))"
  have k: "a \<le> k" "k \<le> l1" using prefix_end_bounds [of a l1 m1] assms by (auto simp: k_def)
  have "search_scan m1 a l1 m2 f2 pred = Some k" using search_scan_eq [of a l1 m1 f2 m2 pred] assms by (simp add: k_def)
  moreover have "\<not> ?P i" if "a \<le> i" "i < k" for i
    using scan_no_occurs [of f2 l2 a i m1 l1 pred m2] that assms by (simp add: k_def)
  moreover have "\<exists>r. search_match m1 l1 m2 l2 pred k f2 = Some r \<and>
      (case r of Matched e \<Rightarrow> e + 1 = k + (l2 - f2) \<and> ?P k | Exhausted \<Rightarrow> \<forall>i \<ge> k. \<not> ?P i | Mismatch \<Rightarrow> \<not> ?P k)"
    if "k < l1"
  proof -
    have "pred (m1 ! k) (m2 ! f2)"
      using prefix_end_out [of m1 a l1 "\<lambda>x. \<not> pred x (m2 ! f2)"] assms that by (simp add: k_def)
    moreover have "\<not> ?P i" if "l1 < k + (l2 - f2)" "k \<le> i" for i using that by (auto simp: occurs_def)
    ultimately show ?thesis
      using search_match_spec [OF assms(1,2) that assms(3), of pred] occurs_head [OF assms(1), of pred m1 l1 m2 k]
      by (auto split: match_result.splits)
  qed
  ultimately show ?thesis using k by blast
qed

lemma search_forward_loop_spec:
  assumes "f2 < l2" "l2 \<le> length m2" "l1 \<le> length m1" "a \<le> l1"
  shows "\<exists>r. search_forward_loop m1 a l1 m2 f2 l2 pred = Some (r, if r = l1 then l1 else r + (l2 - f2) - 1) \<and>
           first_such (occurs pred m1 l1 m2 f2 l2) a l1 r"
  using assms(4)
proof (induction "l1 - a" arbitrary: a rule: less_induct)
  case less
  let ?P = "occurs pred m1 l1 m2 f2 l2"
  obtain k where k: "search_scan m1 a l1 m2 f2 pred = Some k" "a \<le> k" "k \<le> l1"
    "\<forall>i. a \<le> i \<and> i < k \<longrightarrow> \<not> ?P i"
    "k < l1 \<Longrightarrow> \<exists>r. search_match m1 l1 m2 l2 pred k f2 = Some r \<and>
      (case r of Matched e \<Rightarrow> e + 1 = k + (l2 - f2) \<and> ?P k | Exhausted \<Rightarrow> \<forall>i \<ge> k. \<not> ?P i | Mismatch \<Rightarrow> \<not> ?P k)"
    using search_forward_step [OF assms(1-3) less.prems, of pred] by blast
  note unfold = search_forward_loop.simps [of m1 a l1 m2 f2 l2 pred]
  show ?case
  proof (cases "k = l1")
    case True
    with k show ?thesis by (intro exI [of _ l1]) (simp add: unfold first_such_def)
  next
    case False
    with k(3) have "k < l1" by simp
    from k(5) [OF this] obtain r where r: "search_match m1 l1 m2 l2 pred k f2 = Some r"
      "case r of Matched e \<Rightarrow> e + 1 = k + (l2 - f2) \<and> ?P k | Exhausted \<Rightarrow> \<forall>i \<ge> k. \<not> ?P i | Mismatch \<Rightarrow> \<not> ?P k"
      by blast
    show ?thesis
    proof (cases r)
      case (Matched e)
      then have "e = k + (l2 - f2) - 1" using r(2) by auto
      with Matched r k False show ?thesis by (intro exI [of _ k]) (simp add: unfold first_such_def)
    next
      case Exhausted
      have "\<not> ?P i" if "a \<le> i" for i using that k(4) r(2) Exhausted by (cases "i < k") auto
      then have "first_such ?P a l1 l1" using less.prems by (simp add: first_such_def)
      with Exhausted r k False show ?thesis by (intro exI [of _ l1]) (simp add: unfold)
    next
      case Mismatch
      obtain q where q: "search_forward_loop m1 (Suc k) l1 m2 f2 l2 pred = Some (q, if q = l1 then l1 else q + (l2 - f2) - 1)"
          "first_such ?P (Suc k) l1 q"
        using less.hyps [of "Suc k"] diff_less_mono2 [of a "Suc k" l1] k(2,3) False by auto
      have "\<not> ?P i" if "a \<le> i" "i \<le> k" for i using that k(4) r(2) Mismatch by (cases "i = k") auto
      with q(2) k(2) have "first_such ?P a l1 q" by (rule first_such_skip)
      with q(1) Mismatch r(1) k(1) False show ?thesis by (intro exI [of _ q]) (simp add: unfold)
    qed
  qed
qed

lemma search_pair_spec:
  assumes "f1 \<le> l1" "l1 \<le> length m1" "f2 \<le> l2" "l2 \<le> length m2"
  shows "\<exists>r e. default_searcher_call ra m2 f2 l2 pred m1 f1 l1 = Some (r, e) \<and>
    (if f2 = l2 then r = f1 \<and> e = f1
     else first_such (occurs pred m1 l1 m2 f2 l2) f1 l1 r \<and>
       e = (if r = l1 then l1 else if ra then r + (l2 - f2) else r + (l2 - f2) - 1))"
proof (cases "f2 = l2")
  case True
  then show ?thesis by (simp add: default_searcher_call_def search_random_def search_forward_def)
next
  case False
  with assms have lt: "f2 < l2" by simp
  show ?thesis
  proof (cases "ra \<and> l2 - f2 \<le> l1 - f1")
    case True
    then have "f1 \<le> l1 - (l2 - f2 - 1)" "l1 + 1 = l1 - (l2 - f2 - 1) + (l2 - f2)" using assms lt by linarith+
    then obtain r where "search_random_loop m1 f1 l1 (l1 - (l2 - f2 - 1)) (l2 - f2) m2 f2 l2 pred =
        Some (r, if r = l1 then l1 else r + (l2 - f2))" "first_such (occurs pred m1 l1 m2 f2 l2) f1 l1 r"
      using search_random_loop_spec [OF lt assms(4) refl _ assms(2)] by blast
    with True lt show ?thesis
      by (intro exI [of _ r] exI [of _ "if r = l1 then l1 else r + (l2 - f2)"])
        (simp add: default_searcher_call_def search_random_def)
  next
    case no: False
    show ?thesis
    proof (cases ra)
      case True
      then have "first_such (occurs pred m1 l1 m2 f2 l2) f1 l1 l1"
        using no assms by (auto simp: first_such_def occurs_def)
      with True no lt assms show ?thesis by (auto simp: default_searcher_call_def search_random_def Let_def)
    next
      case False
      then show ?thesis
        using search_forward_loop_spec [OF lt assms(4,2,1), of pred] lt
        by (auto simp: default_searcher_call_def search_forward_def)
    qed
  qed
qed

section \<open>find\_end\<close>

text \<open>\<open>r\<close> is the answer so far: the last occurrence before \<open>a\<close>, or the end of the range.\<close>

lemma find_end_forward_loop_spec:
  assumes "f2 < l2" "l2 \<le> length m2" "l1 \<le> length m1" "f1 \<le> a" "a \<le> l1"
    "r = l1 \<and> (\<forall>i. f1 \<le> i \<and> i < a \<longrightarrow> \<not> occurs pred m1 l1 m2 f2 l2 i) \<or>
     f1 \<le> r \<and> r < a \<and> occurs pred m1 l1 m2 f2 l2 r \<and> (\<forall>i. r < i \<and> i < a \<longrightarrow> \<not> occurs pred m1 l1 m2 f2 l2 i)"
  shows "\<exists>q. find_end_forward_loop m1 a l1 m2 f2 l2 pred r = Some q \<and>
           last_such (occurs pred m1 l1 m2 f2 l2) f1 l1 q"
  using assms(4-)
proof (induction "l1 - a" arbitrary: a r rule: less_induct)
  case less
  let ?P = "occurs pred m1 l1 m2 f2 l2"
  obtain k where k: "search_scan m1 a l1 m2 f2 pred = Some k" "a \<le> k" "k \<le> l1"
    "\<forall>i. a \<le> i \<and> i < k \<longrightarrow> \<not> ?P i"
    "k < l1 \<Longrightarrow> \<exists>r. search_match m1 l1 m2 l2 pred k f2 = Some r \<and>
      (case r of Matched e \<Rightarrow> e + 1 = k + (l2 - f2) \<and> ?P k | Exhausted \<Rightarrow> \<forall>i \<ge> k. \<not> ?P i | Mismatch \<Rightarrow> \<not> ?P k)"
    using search_forward_step [OF assms(1-3) less.prems(2), of pred] by blast
  have sofar: "r = l1 \<and> (\<forall>i. f1 \<le> i \<and> i < k \<longrightarrow> \<not> ?P i) \<or>
      f1 \<le> r \<and> r < k \<and> ?P r \<and> (\<forall>i. r < i \<and> i < k \<longrightarrow> \<not> ?P i)"
    using less.prems(3) k(2,4) by (meson le_less_trans not_le_imp_less less_le_trans)
  note unfold = find_end_forward_loop.simps [of m1 a l1 m2 f2 l2 pred]
  show ?case
  proof (cases "k = l1")
    case True
    with sofar have "last_such ?P f1 l1 r" using less.prems by (auto simp: last_such_def)
    with True k show ?thesis by (simp add: unfold)
  next
    case False
    with k(3) have kl: "k < l1" by simp
    from k(5) [OF this] obtain res where r: "search_match m1 l1 m2 l2 pred k f2 = Some res"
      "case res of Matched e \<Rightarrow> e + 1 = k + (l2 - f2) \<and> ?P k | Exhausted \<Rightarrow> \<forall>i \<ge> k. \<not> ?P i | Mismatch \<Rightarrow> \<not> ?P k"
      by blast
    have dec: "l1 - Suc k < l1 - a" "f1 \<le> Suc k" "Suc k \<le> l1" using k(2) kl less.prems by auto
    show ?thesis
    proof (cases res)
      case (Matched e)
      have "f1 \<le> k \<and> k < Suc k \<and> ?P k \<and> (\<forall>i. k < i \<and> i < Suc k \<longrightarrow> \<not> ?P i)"
        using r(2) Matched less.prems k by auto
      with less.hyps [OF dec, of k] Matched r(1) k(1) False show ?thesis by (simp add: unfold)
    next
      case Exhausted
      then have "\<not> ?P i" if "k \<le> i" for i using that r(2) by simp
      with sofar have "last_such ?P f1 l1 r" using less.prems kl by (auto simp: last_such_def) (meson not_le)+
      with Exhausted r(1) k(1) False show ?thesis by (simp add: unfold)
    next
      case Mismatch
      then have "\<not> ?P k" using r(2) by simp
      with sofar have "r = l1 \<and> (\<forall>i. f1 \<le> i \<and> i < Suc k \<longrightarrow> \<not> ?P i) \<or>
          f1 \<le> r \<and> r < Suc k \<and> ?P r \<and> (\<forall>i. r < i \<and> i < Suc k \<longrightarrow> \<not> ?P i)"
        by (metis less_Suc_eq)
      with less.hyps [OF dec, of r] Mismatch r(1) k(1) False show ?thesis by (simp add: unfold)
    qed
  qed
qed

lemma find_end_scan_spec:
  assumes "s \<le> l1" "l1 \<le> length m1" "l2 < length m2"
  shows "\<exists>r. find_end_scan m1 s m2 l2 pred l1 = Some r \<and>
    (case r of
       None \<Rightarrow> \<forall>i. s \<le> i \<and> i < l1 \<longrightarrow> \<not> pred (m1 ! i) (m2 ! l2)
     | Some k \<Rightarrow> s \<le> k \<and> k < l1 \<and> pred (m1 ! k) (m2 ! l2) \<and> (\<forall>i. k < i \<and> i < l1 \<longrightarrow> \<not> pred (m1 ! i) (m2 ! l2)))"
  using assms(1,2)
proof (induction l1 rule: dec_induct)
  case base
  then show ?case by (subst find_end_scan.simps) auto
next
  case (step l)
  note unfold = find_end_scan.simps [of m1 s m2 l2 pred "Suc l"]
  show ?case
  proof (cases "pred (m1 ! l) (m2 ! l2)")
    case True
    with step assms show ?thesis by (auto simp: unfold mem_simps)
  next
    case False
    from step obtain r where r: "find_end_scan m1 s m2 l2 pred l = Some r"
      "case r of None \<Rightarrow> \<forall>i. s \<le> i \<and> i < l \<longrightarrow> \<not> pred (m1 ! i) (m2 ! l2)
       | Some k \<Rightarrow> s \<le> k \<and> k < l \<and> pred (m1 ! k) (m2 ! l2) \<and> (\<forall>i. k < i \<and> i < l \<longrightarrow> \<not> pred (m1 ! i) (m2 ! l2))"
      by auto
    with step assms False show ?thesis
      by (intro exI [of _ r]) (auto simp: unfold mem_simps less_Suc_eq split: option.splits)
  qed
qed

lemma find_end_random_match_eq:
  "f2 + n \<le> length m2 \<Longrightarrow> e + n \<le> length m1 \<Longrightarrow>
     find_end_random_match m1 m2 f2 pred (e + n) (f2 + n) =
       Some (if match_at pred m1 e m2 f2 n then Matched e else Mismatch)"
proof (induction n)
  case 0
  then show ?case by (subst find_end_random_match.simps) simp
next
  case (Suc n)
  then show ?case by (subst find_end_random_match.simps) (simp add: mem_simps match_at_snoc)
qed

lemma find_end_bidi_match_spec:
  "f2 + n \<le> length m2 \<Longrightarrow> i \<le> length m1 \<Longrightarrow> f1 \<le> i \<Longrightarrow>
     \<exists>r. find_end_bidi_match m1 f1 m2 f2 pred i (f2 + n) = Some r \<and>
       (case r of
          Matched e \<Rightarrow> e + n = i \<and> f1 \<le> e \<and> match_at pred m1 e m2 f2 n
        | Exhausted \<Rightarrow> i < f1 + n
        | Mismatch \<Rightarrow> \<forall>e. e + n = i \<longrightarrow> \<not> match_at pred m1 e m2 f2 n)"
proof (induction n arbitrary: i)
  case 0
  then show ?case by (subst find_end_bidi_match.simps) simp
next
  case (Suc n)
  note unfold = find_end_bidi_match.simps [of m1 f1 m2 f2 pred i "Suc (f2 + n)"]
  show ?case
  proof (cases "i = f1 \<or> \<not> pred (m1 ! (i - 1)) (m2 ! (f2 + n))")
    case True
    with Suc.prems show ?thesis
      by (cases "i = f1") (auto simp: unfold find_end_bidi_match.simps [of m1 f1 m2 f2 pred f1] mem_simps match_at_snoc)
  next
    case False
    then have i: "i - 1 \<le> length m1" "f1 \<le> i - 1" "i = Suc (i - 1)" using Suc.prems by auto
    with Suc obtain r where r: "find_end_bidi_match m1 f1 m2 f2 pred (i - 1) (f2 + n) = Some r"
      "case r of
          Matched e \<Rightarrow> e + n = i - 1 \<and> f1 \<le> e \<and> match_at pred m1 e m2 f2 n
        | Exhausted \<Rightarrow> i - 1 < f1 + n
        | Mismatch \<Rightarrow> \<forall>e. e + n = i - 1 \<longrightarrow> \<not> match_at pred m1 e m2 f2 n"
      by fastforce
    have "find_end_bidi_match m1 f1 m2 f2 pred i (f2 + Suc n) = Some r"
      using r(1) False i Suc.prems by (simp add: unfold mem_simps)
    with r(2) False i show ?thesis
      by (intro exI [of _ r]) (auto simp: match_at_snoc split: match_result.splits)
  qed
qed

lemma no_occurs_scan:
  assumes "f2 + Suc n = l2" "\<forall>j. k < j \<and> j < l \<longrightarrow> \<not> pred (m1 ! j) (m2 ! (f2 + n))"
    "\<And>j. l \<le> j + n \<Longrightarrow> \<not> occurs pred m1 l1 m2 f2 l2 j" "k < i + n"
  shows "\<not> occurs pred m1 l1 m2 f2 l2 i"
proof (cases "i + n < l")
  case True
  with assms(2,4) have "\<not> pred (m1 ! (i + n)) (m2 ! (f2 + n))" by blast
  moreover have "l2 - f2 = Suc n" using assms(1) by simp
  ultimately show ?thesis by (simp add: occurs_def match_at_snoc)
qed (use assms(3) in simp)

lemma last_such_none: "(\<And>i. f \<le> i \<Longrightarrow> \<not> P i) \<Longrightarrow> f \<le> l \<Longrightarrow> last_such P f l l"
  by (simp add: last_such_def)

lemma last_such_found: "P r \<Longrightarrow> f \<le> r \<Longrightarrow> r < l \<Longrightarrow> (\<And>i. r < i \<Longrightarrow> \<not> P i) \<Longrightarrow> last_such P f l r"
  by (simp add: last_such_def)

lemma find_end_random_loop_spec:
  assumes "f2 + Suc n = l2" "l2 \<le> length m2" "l1 \<le> length m1" "f1 + n \<le> l" "l \<le> l1"
    "\<And>i. l \<le> i + n \<Longrightarrow> \<not> occurs pred m1 l1 m2 f2 l2 i"
  shows "\<exists>q. find_end_random_loop m1 (f1 + n) l1 m2 f2 (f2 + n) pred l = Some q \<and>
           last_such (occurs pred m1 l1 m2 f2 l2) f1 l1 q"
  using assms(4-)
proof (induction l rule: less_induct)
  case (less l)
  let ?P = "occurs pred m1 l1 m2 f2 l2"
  note unfold = find_end_random_loop.simps [of m1 "f1 + n" l1 m2 f2 "f2 + n" pred l]
  obtain r where r: "find_end_scan m1 (f1 + n) m2 (f2 + n) pred l = Some r"
    "case r of
       None \<Rightarrow> \<forall>i. f1 + n \<le> i \<and> i < l \<longrightarrow> \<not> pred (m1 ! i) (m2 ! (f2 + n))
     | Some k \<Rightarrow> f1 + n \<le> k \<and> k < l \<and> pred (m1 ! k) (m2 ! (f2 + n)) \<and>
         (\<forall>i. k < i \<and> i < l \<longrightarrow> \<not> pred (m1 ! i) (m2 ! (f2 + n)))"
    using find_end_scan_spec [of "f1 + n" l m1 "f2 + n" m2 pred] less.prems assms by auto
  show ?case
  proof (cases r)
    case None
    have "\<not> ?P i" if "f1 \<le> i" for i
    proof (cases "l \<le> i + n")
      case True then show ?thesis by (rule less.prems(3))
    next
      case False
      then have "\<not> pred (m1 ! (i + n)) (m2 ! (f2 + n))" using r(2) None that by simp
      moreover have "l2 - f2 = Suc n" using assms(1) by simp
      ultimately show ?thesis by (simp add: occurs_def match_at_snoc)
    qed
    then have "last_such ?P f1 l1 l1" using less.prems(1,2) by (intro last_such_none) auto
    with None r(1) show ?thesis by (simp add: unfold)
  next
    case (Some k)
    then have k: "f1 + n \<le> k" "k < l" "pred (m1 ! k) (m2 ! (f2 + n))"
        "\<forall>i. k < i \<and> i < l \<longrightarrow> \<not> pred (m1 ! i) (m2 ! (f2 + n))" using r(2) by auto
    have none: "\<not> ?P i" if "k < i + n" for i
      using assms(1) k(4) less.prems(3) that by (rule no_occurs_scan)
    define e where "e = k - n"
    have e: "k = e + n" "f1 \<le> e" using k(1) by (auto simp: e_def)
    have Pe: "?P e \<longleftrightarrow> match_at pred m1 e m2 f2 n"
      using e k assms less.prems match_at_snoc [of pred m1 e m2 f2 n] by (auto simp: occurs_def Suc_diff_le)
    have match: "find_end_random_match m1 m2 f2 pred k (f2 + n) = Some (if ?P e then Matched e else Mismatch)"
      unfolding Pe e(1) by (rule find_end_random_match_eq) (use assms e k less.prems in auto)
    show ?thesis
    proof (cases "?P e")
      case True
      then have "last_such ?P f1 l1 e"
        by (rule last_such_found) (use e k less.prems none in auto)
      with True Some r(1) match show ?thesis by (simp add: unfold)
    next
      case False
      have "\<not> ?P i" if "k \<le> i + n" for i using none that False e by (cases "k = i + n") auto
      with less.IH [of k] k less.prems False Some r(1) match show ?thesis by (simp add: unfold)
    qed
  qed
qed

lemma find_end_bidi_loop_spec:
  assumes "f2 + Suc n = l2" "l2 \<le> length m2" "l1 \<le> length m1" "f1 \<le> l" "l \<le> l1"
    "\<And>i. l \<le> i + n \<Longrightarrow> \<not> occurs pred m1 l1 m2 f2 l2 i"
  shows "\<exists>q. find_end_bidi_loop m1 f1 l1 m2 f2 (f2 + n) pred l = Some q \<and>
           last_such (occurs pred m1 l1 m2 f2 l2) f1 l1 q"
  using assms(4-)
proof (induction l rule: less_induct)
  case (less l)
  let ?P = "occurs pred m1 l1 m2 f2 l2"
  have n: "l2 - f2 = Suc n" using assms(1) by simp
  note unfold = find_end_bidi_loop.simps [of m1 f1 l1 m2 f2 "f2 + n" pred l]
  obtain r where r: "find_end_scan m1 f1 m2 (f2 + n) pred l = Some r"
    "case r of
       None \<Rightarrow> \<forall>i. f1 \<le> i \<and> i < l \<longrightarrow> \<not> pred (m1 ! i) (m2 ! (f2 + n))
     | Some k \<Rightarrow> f1 \<le> k \<and> k < l \<and> pred (m1 ! k) (m2 ! (f2 + n)) \<and>
         (\<forall>i. k < i \<and> i < l \<longrightarrow> \<not> pred (m1 ! i) (m2 ! (f2 + n)))"
    using find_end_scan_spec [of f1 l m1 "f2 + n" m2 pred] less.prems assms by auto
  show ?case
  proof (cases r)
    case None
    have "\<not> ?P i" if "f1 \<le> i" for i
    proof (cases "l \<le> i + n")
      case True then show ?thesis by (rule less.prems(3))
    next
      case False
      then show ?thesis using r(2) None that by (simp add: occurs_def match_at_snoc n)
    qed
    then have "last_such ?P f1 l1 l1" using less.prems(1,2) by (intro last_such_none) auto
    with None r(1) show ?thesis by (simp add: unfold)
  next
    case (Some k)
    then have k: "f1 \<le> k" "k < l" "pred (m1 ! k) (m2 ! (f2 + n))"
        "\<forall>i. k < i \<and> i < l \<longrightarrow> \<not> pred (m1 ! i) (m2 ! (f2 + n))" using r(2) by auto
    have none: "\<not> ?P i" if "k < i + n" for i
      using assms(1) k(4) less.prems(3) that by (rule no_occurs_scan)
    obtain res where res: "find_end_bidi_match m1 f1 m2 f2 pred k (f2 + n) = Some res"
      "case res of
          Matched e \<Rightarrow> e + n = k \<and> f1 \<le> e \<and> match_at pred m1 e m2 f2 n
        | Exhausted \<Rightarrow> k < f1 + n
        | Mismatch \<Rightarrow> \<forall>e. e + n = k \<longrightarrow> \<not> match_at pred m1 e m2 f2 n"
      using find_end_bidi_match_spec [of f2 n m2 k m1 f1 pred] assms k less.prems by auto
    show ?thesis
    proof (cases res)
      case (Matched e)
      then have e: "k = e + n" "f1 \<le> e" "?P e" using res(2) k less.prems n by (auto simp: occurs_def match_at_snoc)
      then have "last_such ?P f1 l1 e" using k none less.prems by (intro last_such_found) auto
      with Matched Some r(1) res(1) show ?thesis by (simp add: unfold)
    next
      case Exhausted
      then have "last_such ?P f1 l1 l1" using res(2) none less.prems by (intro last_such_none) auto
      with Exhausted Some r(1) res(1) show ?thesis by (simp add: unfold)
    next
      case Mismatch
      have "\<not> ?P i" if "k \<le> i + n" for i
        using none that Mismatch res(2) n by (cases "k = i + n") (auto simp: occurs_def match_at_snoc)
      with less.IH [of k] k less.prems Mismatch Some r(1) res(1) show ?thesis by (simp add: unfold)
    qed
  qed
qed

lemma find_end_spec:
  assumes "f1 \<le> l1" "l1 \<le> length m1" "f2 < l2" "l2 \<le> length m2"
  shows "\<exists>q. find_end cat m1 f1 l1 m2 f2 l2 pred = Some q \<and> last_such (occurs pred m1 l1 m2 f2 l2) f1 l1 q"
proof -
  define n where "n = l2 - f2 - 1"
  have n: "f2 + Suc n = l2" "f2 + n = l2 - 1" "l2 - f2 = Suc n" using assms by (auto simp: n_def)
  have none: "\<not> occurs pred m1 l1 m2 f2 l2 i" if "l1 \<le> i + n" for i using that n by (auto simp: occurs_def)
  have fw: "\<exists>q. find_end_forward m1 f1 l1 m2 f2 l2 pred = Some q \<and> last_such (occurs pred m1 l1 m2 f2 l2) f1 l1 q"
    using find_end_forward_loop_spec [OF assms(3,4,2) order_refl assms(1), of l1 pred] assms(3)
    by (fastforce simp: find_end_forward_def)
  have bi: "\<exists>q. find_end_bidi m1 f1 l1 m2 f2 l2 pred = Some q \<and> last_such (occurs pred m1 l1 m2 f2 l2) f1 l1 q"
    using find_end_bidi_loop_spec [OF n(1) assms(4,2,1) order_refl none] assms n(2) by (simp add: find_end_bidi_def)
  have ra: "\<exists>q. find_end_random m1 f1 l1 m2 f2 l2 pred = Some q \<and> last_such (occurs pred m1 l1 m2 f2 l2) f1 l1 q"
  proof (cases "l1 - f1 < Suc n")
    case True
    then have "last_such (occurs pred m1 l1 m2 f2 l2) f1 l1 l1"
      using n assms by (intro last_such_none) (auto simp: occurs_def)
    with True n show ?thesis by (simp add: find_end_random_def)
  next
    case False
    then show ?thesis
      using find_end_random_loop_spec [OF n(1) assms(4,2) _ order_refl none] assms n by (simp add: find_end_random_def)
  qed
  show ?thesis using fw bi ra by (cases cat) (simp_all add: find_end_def)
qed

section \<open>search\_n\<close>

text \<open>\<open>n\<close> consecutive elements from \<open>i\<close> that match the value.\<close>

definition run_at :: "('a \<Rightarrow> 'v \<Rightarrow> bool) \<Rightarrow> 'a mem \<Rightarrow> iter \<Rightarrow> 'v \<Rightarrow> nat \<Rightarrow> iter \<Rightarrow> bool" where
  "run_at pred m l v n i \<longleftrightarrow> i + n \<le> l \<and> (\<forall>k < n. pred (m ! (i + k)) v)"

lemma search_n_scan_eq:
  "a \<le> s \<Longrightarrow> s \<le> length m \<Longrightarrow> search_n_scan m a s v pred = Some (prefix_end m a s (\<lambda>x. \<not> pred x v))"
  by (induction a rule: inc_induct) (subst search_n_scan.simps, simp add: mem_simps prefix_end_step)+

lemma search_n_random_scan_eq:
  "a \<le> s \<Longrightarrow> s \<le> length m \<Longrightarrow> search_n_random_scan m a s v pred = Some (prefix_end m a s (\<lambda>x. \<not> pred x v))"
  by (induction a rule: inc_induct) (subst search_n_random_scan.simps, simp add: mem_simps prefix_end_step)+

lemma search_n_match_spec:
  "c < n \<Longrightarrow> i < l \<Longrightarrow> l \<le> length m \<Longrightarrow>
     \<exists>r j. search_n_match m l (int n) v pred i (int c) = Some (r, j) \<and>
       (case r of
          Matched _ \<Rightarrow> i + (n - c) \<le> l \<and> (\<forall>k. 0 < k \<and> k < n - c \<longrightarrow> pred (m ! (i + k)) v)
        | Exhausted \<Rightarrow> l < i + (n - c)
        | Mismatch \<Rightarrow> i < j \<and> j < i + (n - c) \<and> j < l \<and> \<not> pred (m ! j) v)"
proof (induction "n - c" arbitrary: i c)
  case 0
  then show ?case by simp
next
  case (Suc d)
  note unfold = search_n_match.simps [of m l "int n" v pred i "int c"]
  have c: "int c + 1 = int n \<longleftrightarrow> Suc c = n" "int (Suc c) = int c + 1" by auto
  consider "Suc c = n" | "Suc c < n" "Suc i = l" | "Suc c < n" "Suc i < l" "\<not> pred (m ! Suc i) v"
    | "Suc c < n" "Suc i < l" "pred (m ! Suc i) v" using Suc.prems by linarith
  then show ?case
  proof cases
    case 1
    then show ?thesis using Suc.prems by (intro exI [of _ "Matched i"] exI [of _ i]) (auto simp: unfold c)
  next
    case 2
    then show ?thesis by (intro exI [of _ Exhausted] exI [of _ "Suc i"]) (auto simp: unfold c)
  next
    case 3
    then show ?thesis using Suc.prems
      by (intro exI [of _ Mismatch] exI [of _ "Suc i"]) (auto simp: unfold c mem_simps Let_def)
  next
    case 4
    have e: "d = n - Suc c" "n - c = Suc (n - Suc c)" using Suc.hyps(2) 4 by auto
    obtain r j where r: "search_n_match m l (int n) v pred (Suc i) (int (Suc c)) = Some (r, j)"
       "case r of
          Matched _ \<Rightarrow> Suc i + (n - Suc c) \<le> l \<and> (\<forall>k. 0 < k \<and> k < n - Suc c \<longrightarrow> pred (m ! (Suc i + k)) v)
        | Exhausted \<Rightarrow> l < Suc i + (n - Suc c)
        | Mismatch \<Rightarrow> Suc i < j \<and> j < Suc i + (n - Suc c) \<and> j < l \<and> \<not> pred (m ! j) v"
      using Suc.hyps(1) [OF e(1) 4(1,2) Suc.prems(3)] by blast
    have "search_n_match m l (int n) v pred i (int c) = Some (r, j)"
      using r(1) 4 Suc.prems by (simp add: unfold c(1) mem_simps Let_def c(2) [symmetric] del: of_nat_Suc)
    moreover have "pred (m ! (i + k)) v" if "\<forall>k. 0 < k \<and> k < n - Suc c \<longrightarrow> pred (m ! (Suc i + k)) v" "0 < k" "k < n - c" for k
      using that(1) [rule_format, of "k - 1"] that(2,3) 4(3) e(2) by (cases "k = 1") auto
    ultimately show ?thesis using r(2) e(2)
      by (intro exI [of _ r] exI [of _ j]) (auto split: match_result.splits)
  qed
qed

lemma search_n_random_match_spec:
  "c < n \<Longrightarrow> i + (n - c) \<le> length m \<Longrightarrow>
     \<exists>r. search_n_random_match m (int n) v pred i (int c) = Some r \<and>
       (case r of
          Inr _ \<Rightarrow> \<forall>k. 0 < k \<and> k < n - c \<longrightarrow> pred (m ! (i + k)) v
        | Inl j \<Rightarrow> i < j \<and> j < i + (n - c) \<and> \<not> pred (m ! j) v)"
proof (induction "n - c" arbitrary: i c)
  case 0
  then show ?case by simp
next
  case (Suc d)
  note unfold = search_n_random_match.simps [of m "int n" v pred i "int c"]
  have c: "int c + 1 = int n \<longleftrightarrow> Suc c = n" "int (Suc c) = int c + 1" by auto
  consider "Suc c = n" | "Suc c < n" "\<not> pred (m ! Suc i) v" | "Suc c < n" "pred (m ! Suc i) v"
    using Suc.prems by linarith
  then show ?case
  proof cases
    case 1
    then show ?thesis by (intro exI [of _ "Inr ()"]) (auto simp: unfold c)
  next
    case 2
    then show ?thesis using Suc.prems by (intro exI [of _ "Inl (Suc i)"]) (auto simp: unfold c mem_simps Let_def)
  next
    case 3
    have e: "d = n - Suc c" "n - c = Suc (n - Suc c)" "Suc i + (n - Suc c) \<le> length m"
      using Suc.hyps(2) Suc.prems 3 by auto
    obtain r where r: "search_n_random_match m (int n) v pred (Suc i) (int (Suc c)) = Some r"
       "case r of
          Inr _ \<Rightarrow> \<forall>k. 0 < k \<and> k < n - Suc c \<longrightarrow> pred (m ! (Suc i + k)) v
        | Inl j \<Rightarrow> Suc i < j \<and> j < Suc i + (n - Suc c) \<and> \<not> pred (m ! j) v"
      using Suc.hyps(1) [OF e(1) 3(1) e(3)] by blast
    have "search_n_random_match m (int n) v pred i (int c) = Some r"
      using r(1) 3 e by (simp add: unfold c(1) mem_simps Let_def c(2) [symmetric] del: of_nat_Suc)
    moreover have "pred (m ! (i + k)) v" if "\<forall>k. 0 < k \<and> k < n - Suc c \<longrightarrow> pred (m ! (Suc i + k)) v" "0 < k" "k < n - c" for k
      using that(1) [rule_format, of "k - 1"] that(2,3) 3(2) e(2) by (cases "k = 1") auto
    ultimately show ?thesis using r(2) e(2) by (intro exI [of _ r]) (auto split: sum.splits)
  qed
qed

lemma run_at_misses:
  "j < i + n \<Longrightarrow> i \<le> j \<Longrightarrow> \<not> pred (m ! j) v \<Longrightarrow> \<not> run_at pred m l v n i"
  unfolding run_at_def by (metis add_less_cancel_left le_add_diff_inverse)

lemma first_such_mismatch:
  assumes "first_such (run_at pred m l v n) (Suc j) l r" "a \<le> i" "i < j" "j < i + n" "\<not> pred (m ! j) v" "0 < n"
    "\<And>k. a \<le> k \<Longrightarrow> k < i \<Longrightarrow> \<not> run_at pred m l v n k"
  shows "first_such (run_at pred m l v n) a l r"
proof (rule first_such_skip [OF assms(1)])
  show "a \<le> j" using assms by simp
  show "\<not> run_at pred m l v n k" if "a \<le> k" "k \<le> j" for k
    using assms that run_at_misses [of j k n pred m v l] by (cases "k < i") auto
qed

lemma run_at_start: "0 < n \<Longrightarrow> run_at pred m l v n i \<Longrightarrow> pred (m ! i) v"
  unfolding run_at_def by (metis add.right_neutral)

lemma run_at_iff:
  "0 < n \<Longrightarrow> run_at pred m l v n i \<longleftrightarrow>
     i + n \<le> l \<and> pred (m ! i) v \<and> (\<forall>k. 0 < k \<and> k < n \<longrightarrow> pred (m ! (i + k)) v)"
  unfolding run_at_def by (metis add.right_neutral gr0I)

lemma search_n_forward_loop_spec:
  assumes "0 < n" "l \<le> length m" "a \<le> l"
  shows "\<exists>r. search_n_forward_loop m a l (int n) v pred = Some r \<and> first_such (run_at pred m l v n) a l r"
  using assms(3)
proof (induction "l - a" arbitrary: a rule: less_induct)
  case less
  let ?P = "run_at pred m l v n"
  define k where "k = prefix_end m a l (\<lambda>x. \<not> pred x v)"
  have k: "a \<le> k" "k \<le> l" using prefix_end_bounds [OF less.prems assms(2)] by (auto simp: k_def)
  have scan: "search_n_scan m a l v pred = Some k" using search_n_scan_eq [OF less.prems assms(2)] by (simp add: k_def)
  have none: "\<not> ?P i" if "a \<le> i" "i < k" for i
    using prefix_end_in [of a i m l "\<lambda>x. \<not> pred x v"] that assms run_at_start [OF assms(1), of pred m l v i] by (auto simp: k_def)
  note unfold = search_n_forward_loop.simps [of m a l "int n" v pred]
  show ?case
  proof (cases "k = l")
    case True
    with scan none k show ?thesis by (auto simp: unfold first_such_def)
  next
    case False
    then have kl: "k < l" using k by simp
    then have pk: "pred (m ! k) v" using prefix_end_out [of m a l] less.prems assms by (auto simp: k_def)
    obtain r j where r: "search_n_match m l (int n) v pred k 0 = Some (r, j)"
       "case r of
          Matched _ \<Rightarrow> k + n \<le> l \<and> (\<forall>i. 0 < i \<and> i < n \<longrightarrow> pred (m ! (k + i)) v)
        | Exhausted \<Rightarrow> l < k + n
        | Mismatch \<Rightarrow> k < j \<and> j < k + n \<and> j < l \<and> \<not> pred (m ! j) v"
      using search_n_match_spec [OF assms(1) kl assms(2), of v pred] unfolding diff_zero int_ops(1) by blast
    show ?thesis
    proof (cases r)
      case (Matched e)
      then have "?P k" using r(2) pk assms(1) by (simp add: run_at_iff)
      then have "first_such ?P a l k" using none k by (auto simp: first_such_def)
      with Matched r(1) scan False show ?thesis by (simp add: unfold)
    next
      case Exhausted
      have "\<not> ?P i" if "a \<le> i" for i
        using none [OF that] r(2) Exhausted by (cases "i < k") (auto simp: run_at_def)
      then have "first_such ?P a l l" using less.prems by (simp add: first_such_def)
      with Exhausted r(1) scan False show ?thesis by (simp add: unfold)
    next
      case Mismatch
      then have j: "k < j" "j < k + n" "j < l" "\<not> pred (m ! j) v" using r(2) by auto
      obtain q where q: "search_n_forward_loop m (Suc j) l (int n) v pred = Some q" "first_such ?P (Suc j) l q"
        using less.hyps [of "Suc j"] diff_less_mono2 [of a "Suc j" l] k j by auto
      have "first_such ?P a l q" using q(2) k(1) j(1,2,4) assms(1) none by (rule first_such_mismatch)
      with q(1) Mismatch r(1) scan False show ?thesis by (simp add: unfold)
    qed
  qed
qed

lemma search_n_random_loop_spec:
  assumes "0 < n" "l \<le> length m" "a \<le> l" "s + n = l + 1"
  shows "\<exists>r. search_n_random_loop m a l s (int n) v pred = Some r \<and> first_such (run_at pred m l v n) a l r"
  using assms(3)
proof (induction "l - a" arbitrary: a rule: less_induct)
  case less
  let ?P = "run_at pred m l v n"
  have past: "\<not> ?P i" if "s \<le> i" for i using that assms(4) by (simp add: run_at_def)
  note unfold = search_n_random_loop.simps [of m a l s "int n" v pred]
  show ?case
  proof (cases "s \<le> a")
    case True
    then have "first_such ?P a l l" using past less.prems by (simp add: first_such_def)
    with True show ?thesis by (simp add: unfold search_n_random_scan.simps [of m a])
  next
    case False
    then have as: "a \<le> s" "s \<le> length m" "s \<le> l" using assms by auto
    define k where "k = prefix_end m a s (\<lambda>x. \<not> pred x v)"
    have k: "a \<le> k" "k \<le> s" using prefix_end_bounds [OF as(1,2)] by (auto simp: k_def)
    have scan: "search_n_random_scan m a s v pred = Some k"
      using search_n_random_scan_eq [OF as(1,2)] by (simp add: k_def)
    have none: "\<not> ?P i" if "a \<le> i" "i < k" for i
      using prefix_end_in [of a i m s "\<lambda>x. \<not> pred x v"] that as run_at_start [OF assms(1), of pred m l v i] by (auto simp: k_def)
    show ?thesis
    proof (cases "k = s")
      case True
      have "\<not> ?P i" if "a \<le> i" for i using that none past True by (cases "i < k") auto
      then have "first_such ?P a l l" using less.prems by (simp add: first_such_def)
      with True scan show ?thesis by (simp add: unfold)
    next
      case ks: False
      then have pk: "pred (m ! k) v" using prefix_end_out [of m a s "\<lambda>x. \<not> pred x v"] as k by (auto simp: k_def)
      have kn: "k + n \<le> l" using ks k assms(4) by simp
      obtain r where r: "search_n_random_match m (int n) v pred k 0 = Some r"
         "case r of
            Inr _ \<Rightarrow> \<forall>i. 0 < i \<and> i < n \<longrightarrow> pred (m ! (k + i)) v
          | Inl j \<Rightarrow> k < j \<and> j < k + n \<and> \<not> pred (m ! j) v"
        using search_n_random_match_spec [OF assms(1), of k m v pred] order_trans [OF kn assms(2)]
        unfolding diff_zero int_ops(1) by blast
      show ?thesis
      proof (cases r)
        case (Inr u)
        then have "?P k" using r(2) pk assms(1) kn by (simp add: run_at_iff)
        then have "first_such ?P a l k" using none k as by (auto simp: first_such_def)
        with Inr r(1) scan ks k show ?thesis by (simp add: unfold)
      next
        case (Inl j)
        then have j: "k < j" "j < k + n" "\<not> pred (m ! j) v" using r(2) by auto
        obtain q where q: "search_n_random_loop m (Suc j) l s (int n) v pred = Some q" "first_such ?P (Suc j) l q"
          using less.hyps [of "Suc j"] diff_less_mono2 [of a "Suc j" l] k j kn by auto
        have "first_such ?P a l q" using q(2) k(1) j(1,2,3) assms(1) none by (rule first_such_mismatch)
        with q(1) Inl r(1) scan ks k show ?thesis by (simp add: unfold)
      qed
    qed
  qed
qed

lemma to_size_id: "0 \<le> x \<Longrightarrow> x < 2 ^ (w - 1) \<Longrightarrow> 0 < w \<Longrightarrow> to_size w x = x"
  by (cases w) (simp_all add: to_size_def mod_pos_pos_trivial)

lemma to_size_wraps: "2 ^ (w - 1) \<le> x \<Longrightarrow> x < 2 ^ w \<Longrightarrow> 0 < w \<Longrightarrow> to_size w x = x - 2 ^ w"
proof (cases w)
  case (Suc v)
  assume x: "2 ^ (w - 1) \<le> x" "x < 2 ^ w"
  have "(x + 2 ^ v) mod 2 ^ Suc v = (x + 2 ^ v - 2 ^ Suc v) mod 2 ^ Suc v"
    by (metis minus_mod_self2)
  also have "\<dots> = x + 2 ^ v - 2 ^ Suc v" using x Suc by (intro mod_pos_pos_trivial) auto
  finally show ?thesis using Suc by (simp add: to_size_def)
qed simp

section \<open>Properties\<close>

text \<open>
  \<^verbatim>\<open>search\<close> returns the first position at which the non-empty pattern occurs inside the range, or
  the end of the range when there is none; the versions for forward and for random access
  iterators agree, and neither reads outside the two ranges.
\<close>

theorem search_correct:
  assumes "f1 \<le> l1" "l1 \<le> length m1" "f2 < l2" "l2 \<le> length m2"
  shows "\<exists>r. search True m1 f1 l1 m2 f2 l2 pred = Some r \<and> search False m1 f1 l1 m2 f2 l2 pred = Some r \<and>
           first_such (occurs pred m1 l1 m2 f2 l2) f1 l1 r"
proof -
  have "\<exists>r. search ra m1 f1 l1 m2 f2 l2 pred = Some r \<and> first_such (occurs pred m1 l1 m2 f2 l2) f1 l1 r" for ra
    using search_pair_spec [OF assms(1,2) less_imp_le [OF assms(3)] assms(4), of ra pred] assms(3)
    by (auto simp: search_def default_searcher_call_def split: if_splits)
  from this [of True] this [of False] show ?thesis by (metis first_such_unique)
qed

theorem search_correct_witness:
  "\<exists>r. search True [1, 2, 1, 2, 3 :: int] 0 5 [1, 2, 3] 0 3 (=) = Some r \<and>
     search False [1, 2, 1, 2, 3 :: int] 0 5 [1, 2, 3] 0 3 (=) = Some r \<and>
     first_such (occurs (=) [1, 2, 1, 2, 3 :: int] 5 [1, 2, 3] 0 3) 0 5 r"
  by (rule search_correct) simp_all

text \<open>
  The pair of \<^verbatim>\<open>__search\<close> that \<^verbatim>\<open>default_searcher\<close> hands out: when the pattern is found at \<open>r\<close>,
  the random access version returns the end of the occurrence, the forward version the position of
  its last element, one before the end.
\<close>

theorem default_searcher_pair:
  assumes "f1 \<le> l1" "l1 \<le> length m1" "f2 < l2" "l2 \<le> length m2"
    "first_such (occurs pred m1 l1 m2 f2 l2) f1 l1 r" "r < l1"
  shows "default_searcher_call True m2 f2 l2 pred m1 f1 l1 = Some (r, r + (l2 - f2)) \<and>
         default_searcher_call False m2 f2 l2 pred m1 f1 l1 = Some (r, r + (l2 - f2) - 1)"
proof -
  have "\<exists>r' e. default_searcher_call ra m2 f2 l2 pred m1 f1 l1 = Some (r', e) \<and> r' = r \<and>
      e = (if ra then r + (l2 - f2) else r + (l2 - f2) - 1)" for ra
    using search_pair_spec [OF assms(1,2) less_imp_le [OF assms(3)] assms(4), of ra pred]
      first_such_unique [OF _ assms(5)] assms(3,6)
    by (auto split: if_splits)
  from this [of True] this [of False] show ?thesis by simp
qed

theorem default_searcher_pair_witness:
  "default_searcher_call True [1, 2] 0 2 (=) [5, 1, 2, 7 :: int] 0 4 = Some (1, 1 + (2 - 0)) \<and>
   default_searcher_call False [1, 2] 0 2 (=) [5, 1, 2, 7 :: int] 0 4 = Some (1, 1 + (2 - 0) - 1)"
proof (rule default_searcher_pair)
  have "match_at (=) [5, 1, 2, 7 :: int] 1 [1, 2] 0 2" by (simp add: match_at_def less_Suc_eq numeral_2_eq_2)
  moreover have "\<not> match_at (=) [5, 1, 2, 7 :: int] 0 [1, 2] 0 2"
    by (auto simp: match_at_def intro: exI [of _ 0])
  ultimately show "first_such (occurs (=) [5, 1, 2, 7 :: int] 4 [1, 2] 0 2) 0 4 1"
    by (auto simp: first_such_def occurs_def)
qed simp_all

text \<open>
  \<^verbatim>\<open>find_end\<close> returns the last position at which the non-empty pattern occurs inside the range, or
  the end of the range when there is none, for all three iterator categories.
\<close>

theorem find_end_correct:
  assumes "f1 \<le> l1" "l1 \<le> length m1" "f2 < l2" "l2 \<le> length m2"
  shows "\<exists>q. find_end cat m1 f1 l1 m2 f2 l2 pred = Some q \<and> last_such (occurs pred m1 l1 m2 f2 l2) f1 l1 q"
  using assms by (rule find_end_spec)

theorem find_end_correct_witness:
  "\<exists>q. find_end Bidirectional [1, 2, 1, 2, 3 :: int] 0 5 [1, 2] 0 2 (=) = Some q \<and>
     last_such (occurs (=) [1, 2, 1, 2, 3 :: int] 5 [1, 2] 0 2) 0 5 q"
  by (rule find_end_correct) simp_all

text \<open>
  \<^verbatim>\<open>search_n\<close> returns the first position of a run of \<open>n\<close> matching elements, or the end of the
  range when there is none, in both versions, when the length of the range fits the type of the
  count.
\<close>

theorem search_n_correct:
  assumes "f \<le> l" "l \<le> length m" "0 < n" "int (l - f) < 2 ^ (w - 1)" "0 < w"
  shows "\<exists>r. search_n ra w m f l (int n) v pred = Some r \<and> first_such (run_at pred m l v n) f l r"
proof (cases "ra \<and> n \<le> l - f")
  case True
  have s: "nat (int l - (int n - 1)) + n = l + 1" using True assms by (auto simp: nat_diff_distrib)
  show ?thesis
    using search_n_random_loop_spec [OF assms(3,2,1) s, of v pred] True assms(1,3) to_size_id [OF _ assms(4,5)]
    by (auto simp: search_n_def search_n_random_def)
next
  case no: False
  show ?thesis
  proof (cases ra)
    case True
    then have "first_such (run_at pred m l v n) f l l" using no assms by (auto simp: first_such_def run_at_def)
    moreover have "to_size w (int (l - f)) < int n" using True no to_size_id [OF _ assms(4,5)] by simp
    ultimately show ?thesis using True assms(3) by (simp add: search_n_def search_n_random_def)
  next
    case False
    then show ?thesis
      using search_n_forward_loop_spec [OF assms(3,2,1), of v pred] assms(3)
      by (simp add: search_n_def search_n_forward_def)
  qed
qed

theorem search_n_correct_witness:
  "\<exists>r. search_n True 32 [1, 2, 2, 1, 2, 2, 2 :: int] 0 7 (int 3) 2 (=) = Some r \<and>
     first_such (run_at (=) [1, 2, 2, 1, 2, 2, 2 :: int] 7 2 3) 0 7 r"
  by (rule search_n_correct) simp_all

text \<open>
  When the length of the range does not fit the signed type of the count (an \<^verbatim>\<open>int\<close> count and
  \<open>2\<^sup>3\<^sup>1\<close> elements or more), the random access version of \<^verbatim>\<open>search_n\<close> reports no run for every
  positive count that is not larger than the type can hold, whatever the range holds.
\<close>

theorem search_n_length_wraps:
  assumes "2 ^ (w - 1) \<le> int (l - f)" "int (l - f) < 2 ^ w" "0 < w" "0 < c"
  shows "search_n True w m f l c v pred = Some l"
proof -
  have "to_size w (int (l - f)) < c" using to_size_wraps [OF assms(1-3)] assms(2,4) by linarith
  with assms(4) show ?thesis by (simp add: search_n_def search_n_random_def)
qed

theorem search_n_length_wraps_witness:
  "search_n True 32 (replicate (2 ^ 31) (0 :: int)) 0 (2 ^ 31) 1 0 (=) = Some (2 ^ 31)"
  by (rule search_n_length_wraps) simp_all

end
