(* ===== verification/Copy_Ops.thy ===== *)
theory Copy_Ops
  imports Linear_Search
begin

text \<open>
  Algorithms that write an output range or overwrite a range element by element: \<^verbatim>\<open>copy.h\<close>,
  \<^verbatim>\<open>copy_backward.h\<close>, \<^verbatim>\<open>copy_if.h\<close>, \<^verbatim>\<open>copy_n.h\<close>, \<^verbatim>\<open>move.h\<close>, \<^verbatim>\<open>move_backward.h\<close>, \<^verbatim>\<open>fill.h\<close>,
  \<^verbatim>\<open>fill_n.h\<close>, \<^verbatim>\<open>generate.h\<close>, \<^verbatim>\<open>generate_n.h\<close>, \<^verbatim>\<open>for_each.h\<close>, \<^verbatim>\<open>for_each_n.h\<close>,
  \<^verbatim>\<open>transform.h\<close>, \<^verbatim>\<open>replace.h\<close>, \<^verbatim>\<open>replace_if.h\<close>, \<^verbatim>\<open>replace_copy.h\<close>, \<^verbatim>\<open>replace_copy_if.h\<close>,
  \<^verbatim>\<open>remove_copy.h\<close>, \<^verbatim>\<open>remove_copy_if.h\<close>, \<^verbatim>\<open>partition_copy.h\<close>, \<^verbatim>\<open>reverse_copy.h\<close>,
  \<^verbatim>\<open>rotate_copy.h\<close>, \<^verbatim>\<open>unique_copy.h\<close> of \<^verbatim>\<open>cuda/std/__algorithm\<close>.

  An algorithm whose input and output may not overlap reads a memory \<open>src\<close> and writes a memory
  \<open>m\<close>; where source and destination may overlap (\<^verbatim>\<open>copy\<close>, \<^verbatim>\<open>move\<close> and their backward versions
  on pointers) they are positions of one memory.  A function object with state is a function that
  takes and returns that state.
\<close>

section \<open>Writing a list into memory\<close>

definition put_at :: "'a mem \<Rightarrow> iter \<Rightarrow> 'a list \<Rightarrow> 'a mem" where
  "put_at m r xs = put_seg m r (r + length xs) xs"

lemma put_at_Nil [simp]: "put_at m r [] = m"
  by (simp add: put_at_def put_seg_def)

lemma length_put_at [simp]: "r + length xs \<le> length m \<Longrightarrow> length (put_at m r xs) = length m"
  by (simp add: put_at_def put_seg_def)

lemma put_at_Cons: "r < length m \<Longrightarrow> put_at (m[r := x]) (Suc r) xs = put_at m r (x # xs)"
  by (simp add: put_at_def put_seg_def take_Suc_conv_app_nth)

lemma put_at_nth:
  assumes "r + length xs \<le> length m"
  shows "put_at m r xs ! i = (if r \<le> i \<and> i < r + length xs then xs ! (i - r) else m ! i)"
  using assms by (auto simp: put_at_def put_seg_def nth_append)

lemma put_at_append:
  assumes "r + length xs + length ys \<le> length m"
  shows "put_at (put_at m r xs) (r + length xs) ys = put_at m r (xs @ ys)"
  by (rule nth_equalityI) (use assms in \<open>auto simp: put_at_nth nth_append\<close>)

lemma put_at_snoc:
  assumes "r < length m" "r = q + length xs"
  shows "(put_at m q xs)[r := x] = put_at m q (xs @ [x])"
  by (rule nth_equalityI) (use assms in \<open>auto simp: put_at_nth nth_append nth_list_update\<close>)

lemma put_at_before:
  assumes "Suc r + length xs \<le> length m"
  shows "(put_at m (Suc r) xs)[r := x] = put_at m r (x # xs)"
  by (rule nth_equalityI) (use assms in \<open>auto simp: put_at_nth nth_list_update nth_Cons'\<close>)

lemma seg_put_at [simp]: "r + length xs \<le> length m \<Longrightarrow> seg (put_at m r xs) r (r + length xs) = xs"
  by (simp add: put_at_def put_seg_def seg_def)

lemma frame_put_at: "r + length xs \<le> length m \<Longrightarrow> frame m (put_at m r xs) r (r + length xs)"
  by (auto simp: frame_def put_at_nth)

lemma put_at_seg_id: "a \<le> b \<Longrightarrow> b \<le> length m \<Longrightarrow> put_at m a (seg m a b) = m"
  using split_seg [of a b m] by (simp add: put_at_def put_seg_def)

section \<open>Definitions\<close>

subsection \<open>copy\<close>

function copy_impl :: "'a mem \<Rightarrow> iter \<Rightarrow> iter \<Rightarrow> 'a mem \<Rightarrow> iter \<Rightarrow> ('a mem \<times> iter \<times> iter) option" where
  "copy_impl src first last' m result =
     (if first \<noteq> last' then do {
        x \<leftarrow> rd src first;
        m \<leftarrow> wr m result x;
        copy_impl src (Suc first) last' m (Suc result)
      } else Some (m, last', result))"
  by pat_completeness auto
termination
  by (relation "measure (\<lambda>(src, first, last', m, result). length src - first)") auto

text \<open>
  The overload for pointers to trivially copyable objects.  Both ranges lie in one memory;
  \<^verbatim>\<open>memmove\<close> is the library function of that name.  \<open>has_memmove\<close> is the result of
  \<^verbatim>\<open>__dispatch_memmove\<close>; \<open>fallback\<close> says that overlap is tested by the loop instead of by comparing
  the pointers.
\<close>

definition memmove :: "'a mem \<Rightarrow> iter \<Rightarrow> iter \<Rightarrow> nat \<Rightarrow> 'a mem option" where
  "memmove m dest src n =
     (if dest + n \<le> length m \<and> src + n \<le> length m then Some (put_at m dest (seg m src (src + n))) else None)"

definition dispatch_memmove :: "bool \<Rightarrow> 'a mem \<Rightarrow> iter \<Rightarrow> iter \<Rightarrow> nat \<Rightarrow> ('a mem \<times> bool) option" where
  "dispatch_memmove has_memmove m result first n =
     (if has_memmove then do { m \<leftarrow> memmove m result first n; Some (m, True) } else Some (m, False))"

function constexpr_tail_overlap_fallback :: "iter \<Rightarrow> iter \<Rightarrow> iter \<Rightarrow> bool option" where
  "constexpr_tail_overlap_fallback first needle last' =
     (if first \<noteq> last' then
        (if first = needle then Some True
         else if last' < first then None
         else constexpr_tail_overlap_fallback (Suc first) needle last')
      else Some False)"
  by pat_completeness auto
termination
  by (relation "measure (\<lambda>(first, needle, last'). last' - first)") auto

text \<open>
  Without the fallback the pointers are compared, as the source does in a constant evaluation where the compiler can and at run time: in one
  memory both give the same.
\<close>

definition constexpr_tail_overlap :: "bool \<Rightarrow> iter \<Rightarrow> iter \<Rightarrow> iter \<Rightarrow> bool option" where
  "constexpr_tail_overlap fallback first needle last' =
     (if fallback then constexpr_tail_overlap_fallback first needle last' else Some (first < needle))"

fun copy_ptr_down :: "'a mem \<Rightarrow> iter \<Rightarrow> iter \<Rightarrow> nat \<Rightarrow> 'a mem option" where
  "copy_ptr_down m first result 0 = Some m"
| "copy_ptr_down m first result (Suc i) = do {
     x \<leftarrow> rd m (first + i);
     m \<leftarrow> wr m (result + i) x;
     copy_ptr_down m first result i
   }"

function copy_ptr_up :: "'a mem \<Rightarrow> iter \<Rightarrow> iter \<Rightarrow> nat \<Rightarrow> nat \<Rightarrow> 'a mem option" where
  "copy_ptr_up m first result n i =
     (if i < n then do {
        x \<leftarrow> rd m (first + i);
        m \<leftarrow> wr m (result + i) x;
        copy_ptr_up m first result n (Suc i)
      } else Some m)"
  by pat_completeness auto
termination
  by (relation "measure (\<lambda>(m, first, result, n, i). n - i)") auto

definition copy_ptr ::
    "bool \<Rightarrow> bool \<Rightarrow> 'a mem \<Rightarrow> iter \<Rightarrow> iter \<Rightarrow> iter \<Rightarrow> ('a mem \<times> iter \<times> iter) option" where
  "copy_ptr has_memmove fallback m first last' result =
     (let n = last' - first in
      if n > 0 then do {
        (m, moved) \<leftarrow> dispatch_memmove has_memmove m result first n;
        if moved then Some (m, last', result + n)
        else do {
          overlap \<leftarrow> constexpr_tail_overlap fallback first result last';
          m \<leftarrow> (if overlap then copy_ptr_down m first result n else copy_ptr_up m first result n 0);
          Some (m, last', result + n)
        }
      } else Some (m, last', result + n))"

definition copy :: "'a mem \<Rightarrow> iter \<Rightarrow> iter \<Rightarrow> 'a mem \<Rightarrow> iter \<Rightarrow> ('a mem \<times> iter) option" where
  "copy src first last' m result = do {
     (m, _, r) \<leftarrow> copy_impl src first last' m result;
     Some (m, r)
   }"

text \<open>\<^verbatim>\<open>copy_n\<close> for input iterators and for random access iterators; the count may be negative.\<close>

fun copy_n_loop :: "'a mem \<Rightarrow> iter \<Rightarrow> nat \<Rightarrow> 'a mem \<Rightarrow> iter \<Rightarrow> ('a mem \<times> iter) option" where
  "copy_n_loop src first 0 m result = Some (m, result)"
| "copy_n_loop src first (Suc n) m result = do {
     x \<leftarrow> rd src (Suc first);
     m \<leftarrow> wr m result x;
     copy_n_loop src (Suc first) n m (Suc result)
   }"

definition copy_n_input :: "'a mem \<Rightarrow> iter \<Rightarrow> int \<Rightarrow> 'a mem \<Rightarrow> iter \<Rightarrow> ('a mem \<times> iter) option" where
  "copy_n_input src first n m result =
     (if n > 0 then do {
        x \<leftarrow> rd src first;
        m \<leftarrow> wr m result x;
        copy_n_loop src first (nat (n - 1)) m (Suc result)
      } else Some (m, result))"

definition copy_n_random :: "'a mem \<Rightarrow> iter \<Rightarrow> int \<Rightarrow> 'a mem \<Rightarrow> iter \<Rightarrow> ('a mem \<times> iter) option" where
  "copy_n_random src first n m result =
     (if int first + n < 0 then None else copy src first (nat (int first + n)) m result)"

function copy_if :: "'a mem \<Rightarrow> iter \<Rightarrow> iter \<Rightarrow> 'a mem \<Rightarrow> iter \<Rightarrow> ('a \<Rightarrow> bool) \<Rightarrow> ('a mem \<times> iter) option" where
  "copy_if src first last' m result pred =
     (if first \<noteq> last' then do {
        x \<leftarrow> rd src first;
        if pred x then do {
          m \<leftarrow> wr m result x;
          copy_if src (Suc first) last' m (Suc result) pred
        } else copy_if src (Suc first) last' m result pred
      } else Some (m, result))"
  by pat_completeness auto
termination
  by (relation "measure (\<lambda>(src, first, last', m, result, pred). length src - first)") auto

subsection \<open>copy\_backward, move, move\_backward\<close>

text \<open>These read and write one memory, so that overlapping ranges are covered.\<close>

function copy_backward_impl :: "'a mem \<Rightarrow> iter \<Rightarrow> iter \<Rightarrow> iter \<Rightarrow> ('a mem \<times> iter) option" where
  "copy_backward_impl m first last' result =
     (if first \<noteq> last' then
        (if last' = 0 \<or> result = 0 then None
         else do {
           let last' = last' - 1;
           let result = result - 1;
           x \<leftarrow> rd m last';
           m \<leftarrow> wr m result x;
           copy_backward_impl m first last' result
         })
      else Some (m, result))"
  by pat_completeness auto
termination
  by (relation "measure (\<lambda>(m, first, last', result). last')") auto

function copy_backward_ptr_loop :: "'a mem \<Rightarrow> iter \<Rightarrow> iter \<Rightarrow> nat \<Rightarrow> nat \<Rightarrow> 'a mem option" where
  "copy_backward_ptr_loop m last' result n i =
     (if i \<le> n then
        (if last' < i \<or> result < i then None
         else do {
           x \<leftarrow> rd m (last' - i);
           m \<leftarrow> wr m (result - i) x;
           copy_backward_ptr_loop m last' result n (Suc i)
         })
      else Some m)"
  by pat_completeness auto
termination
  by (relation "measure (\<lambda>(m, last', result, n, i). Suc n - i)") auto

definition copy_backward_ptr ::
    "bool \<Rightarrow> 'a mem \<Rightarrow> iter \<Rightarrow> iter \<Rightarrow> iter \<Rightarrow> ('a mem \<times> iter) option" where
  "copy_backward_ptr has_memmove m first last' result =
     (let n = last' - first in
      if result < n then None
      else if n > 0 then do {
        (m, moved) \<leftarrow> dispatch_memmove has_memmove m (result - n) first n;
        if moved then Some (m, result - n)
        else do {
          m \<leftarrow> copy_backward_ptr_loop m last' result n 1;
          Some (m, result - n)
        }
      } else Some (m, result - n))"

definition copy_backward :: "'a mem \<Rightarrow> iter \<Rightarrow> iter \<Rightarrow> iter \<Rightarrow> ('a mem \<times> iter) option" where
  "copy_backward m first last' result = copy_backward_impl m first last' result"

function move_impl :: "'a mem \<Rightarrow> iter \<Rightarrow> iter \<Rightarrow> iter \<Rightarrow> ('a mem \<times> iter \<times> iter) option" where
  "move_impl m first last' result =
     (if first \<noteq> last' then do {
        x \<leftarrow> rd m first;
        m \<leftarrow> wr m result x;
        move_impl m (Suc first) last' (Suc result)
      } else Some (m, last', result))"
  by pat_completeness auto
termination
  by (relation "measure (\<lambda>(m, first, last', result). length m - first)") auto

function move_ptr_loop :: "'a mem \<Rightarrow> iter \<Rightarrow> iter \<Rightarrow> nat \<Rightarrow> nat \<Rightarrow> 'a mem option" where
  "move_ptr_loop m first result n i =
     (if i < n then do {
        x \<leftarrow> rd m (first + i);
        m \<leftarrow> wr m (result + i) x;
        move_ptr_loop m first result n (Suc i)
      } else Some m)"
  by pat_completeness auto
termination
  by (relation "measure (\<lambda>(m, first, result, n, i). n - i)") auto

definition move_ptr ::
    "bool \<Rightarrow> 'a mem \<Rightarrow> iter \<Rightarrow> iter \<Rightarrow> iter \<Rightarrow> ('a mem \<times> iter \<times> iter) option" where
  "move_ptr has_memmove m first last' result =
     (let n = last' - first in
      if n > 0 then do {
        (m, moved) \<leftarrow> dispatch_memmove has_memmove m result first n;
        if moved then Some (m, first + n, result + n)
        else do {
          m \<leftarrow> move_ptr_loop m first result n 0;
          Some (m, last', result + n)
        }
      } else Some (m, last', result + n))"

definition move :: "'a mem \<Rightarrow> iter \<Rightarrow> iter \<Rightarrow> iter \<Rightarrow> ('a mem \<times> iter) option" where
  "move m first last' result = do {
     (m, _, r) \<leftarrow> move_impl m first last' result;
     Some (m, r)
   }"

function move_backward_impl :: "'a mem \<Rightarrow> iter \<Rightarrow> iter \<Rightarrow> iter \<Rightarrow> ('a mem \<times> iter \<times> iter) option" where
  "move_backward_impl m first last' result =
     (if first \<noteq> last' then
        (if last' = 0 \<or> result = 0 then None
         else do {
           let last' = last' - 1;
           let result = result - 1;
           x \<leftarrow> rd m last';
           m \<leftarrow> wr m result x;
           move_backward_impl m first last' result
         })
      else Some (m, first, result))"
  by pat_completeness auto
termination
  by (relation "measure (\<lambda>(m, first, last', result). last')") auto

definition move_backward_ptr ::
    "bool \<Rightarrow> 'a mem \<Rightarrow> iter \<Rightarrow> iter \<Rightarrow> iter \<Rightarrow> ('a mem \<times> iter \<times> iter) option" where
  "move_backward_ptr has_memmove m first last' result =
     (let n = last' - first in
      if result < n then None
      else if n > 0 then do {
        (m, moved) \<leftarrow> dispatch_memmove has_memmove m (result - n) first n;
        if moved then Some (m, last', result - n)
        else do {
          m \<leftarrow> copy_backward_ptr_loop m last' result n 1;
          Some (m, last', result - n)
        }
      } else Some (m, last', result - n))"

definition move_backward :: "'a mem \<Rightarrow> iter \<Rightarrow> iter \<Rightarrow> iter \<Rightarrow> ('a mem \<times> iter) option" where
  "move_backward m first last' result = do {
     (m, _, r) \<leftarrow> move_backward_impl m first last' result;
     Some (m, r)
   }"

subsection \<open>fill, generate, for\_each\<close>

function fill_forward :: "'a mem \<Rightarrow> iter \<Rightarrow> iter \<Rightarrow> 'a \<Rightarrow> 'a mem option" where
  "fill_forward m first last' val =
     (if first \<noteq> last' then do {
        m \<leftarrow> wr m first val;
        fill_forward m (Suc first) last' val
      } else Some m)"
  by pat_completeness auto
termination
  by (relation "measure (\<lambda>(m, first, last', val). length m - first)") auto

function fill_n_impl :: "'a mem \<Rightarrow> iter \<Rightarrow> int \<Rightarrow> 'a \<Rightarrow> ('a mem \<times> iter) option" where
  "fill_n_impl m first n val =
     (if n > 0 then do {
        m \<leftarrow> wr m first val;
        fill_n_impl m (Suc first) (n - 1) val
      } else Some (m, first))"
  by pat_completeness auto
termination
  by (relation "measure (\<lambda>(m, first, n, val). nat n)") auto

definition fill_n :: "'a mem \<Rightarrow> iter \<Rightarrow> int \<Rightarrow> 'a \<Rightarrow> ('a mem \<times> iter) option" where
  "fill_n m first n val = fill_n_impl m first n val"

definition fill_random :: "'a mem \<Rightarrow> iter \<Rightarrow> iter \<Rightarrow> 'a \<Rightarrow> 'a mem option" where
  "fill_random m first last' val = map_option fst (fill_n m first (int last' - int first) val)"

definition fill :: "bool \<Rightarrow> 'a mem \<Rightarrow> iter \<Rightarrow> iter \<Rightarrow> 'a \<Rightarrow> 'a mem option" where
  "fill ra m first last' val =
     (if ra then fill_random m first last' val else fill_forward m first last' val)"

text \<open>A generator returns a value and its next state.\<close>

function generate :: "'a mem \<Rightarrow> iter \<Rightarrow> iter \<Rightarrow> ('s \<Rightarrow> 'a \<times> 's) \<Rightarrow> 's \<Rightarrow> ('a mem \<times> 's) option" where
  "generate m first last' gen s =
     (if first \<noteq> last' then do {
        m \<leftarrow> wr m first (fst (gen s));
        generate m (Suc first) last' gen (snd (gen s))
      } else Some (m, s))"
  by pat_completeness auto
termination
  by (relation "measure (\<lambda>(m, first, last', gen, s). length m - first)") auto

function generate_n ::
    "'a mem \<Rightarrow> iter \<Rightarrow> int \<Rightarrow> ('s \<Rightarrow> 'a \<times> 's) \<Rightarrow> 's \<Rightarrow> ('a mem \<times> iter \<times> 's) option" where
  "generate_n m first n gen s =
     (if n > 0 then do {
        m \<leftarrow> wr m first (fst (gen s));
        generate_n m (Suc first) (n - 1) gen (snd (gen s))
      } else Some (m, first, s))"
  by pat_completeness auto
termination
  by (relation "measure (\<lambda>(m, first, n, gen, s). nat n)") auto

text \<open>The function object of \<^verbatim>\<open>for_each\<close> may change the element it gets a reference to.\<close>

function for_each :: "'a mem \<Rightarrow> iter \<Rightarrow> iter \<Rightarrow> ('s \<Rightarrow> 'a \<Rightarrow> 'a \<times> 's) \<Rightarrow> 's \<Rightarrow> ('a mem \<times> 's) option" where
  "for_each m first last' f s =
     (if first \<noteq> last' then do {
        x \<leftarrow> rd m first;
        m \<leftarrow> wr m first (fst (f s x));
        for_each m (Suc first) last' f (snd (f s x))
      } else Some (m, s))"
  by pat_completeness auto
termination
  by (relation "measure (\<lambda>(m, first, last', f, s). length m - first)") auto

function for_each_n ::
    "'a mem \<Rightarrow> iter \<Rightarrow> int \<Rightarrow> ('s \<Rightarrow> 'a \<Rightarrow> 'a \<times> 's) \<Rightarrow> 's \<Rightarrow> ('a mem \<times> iter \<times> 's) option" where
  "for_each_n m first n f s =
     (if n > 0 then do {
        x \<leftarrow> rd m first;
        m \<leftarrow> wr m first (fst (f s x));
        for_each_n m (Suc first) (n - 1) f (snd (f s x))
      } else Some (m, first, s))"
  by pat_completeness auto
termination
  by (relation "measure (\<lambda>(m, first, n, f, s). nat n)") auto

subsection \<open>transform, replace, remove\_copy, partition\_copy\<close>

function transform :: "'a mem \<Rightarrow> iter \<Rightarrow> iter \<Rightarrow> 'b mem \<Rightarrow> iter \<Rightarrow> ('a \<Rightarrow> 'b) \<Rightarrow> ('b mem \<times> iter) option" where
  "transform src first last' m result opr =
     (if first \<noteq> last' then do {
        x \<leftarrow> rd src first;
        m \<leftarrow> wr m result (opr x);
        transform src (Suc first) last' m (Suc result) opr
      } else Some (m, result))"
  by pat_completeness auto
termination
  by (relation "measure (\<lambda>(src, first, last', m, result, opr). length src - first)") auto

function transform_binary ::
    "'a mem \<Rightarrow> iter \<Rightarrow> iter \<Rightarrow> 'b mem \<Rightarrow> iter \<Rightarrow> 'c mem \<Rightarrow> iter \<Rightarrow> ('a \<Rightarrow> 'b \<Rightarrow> 'c) \<Rightarrow> ('c mem \<times> iter) option" where
  "transform_binary src1 first1 last1 src2 first2 m result binary_op =
     (if first1 \<noteq> last1 then do {
        x \<leftarrow> rd src1 first1;
        y \<leftarrow> rd src2 first2;
        m \<leftarrow> wr m result (binary_op x y);
        transform_binary src1 (Suc first1) last1 src2 (Suc first2) m (Suc result) binary_op
      } else Some (m, result))"
  by pat_completeness auto
termination
  by (relation "measure (\<lambda>(src1, first1, last1, src2, first2, m, result, binary_op). length src1 - first1)") auto

function replace :: "'a mem \<Rightarrow> iter \<Rightarrow> iter \<Rightarrow> 'a \<Rightarrow> 'a \<Rightarrow> 'a mem option" where
  "replace m first last' old_value new_value =
     (if first \<noteq> last' then do {
        x \<leftarrow> rd m first;
        m' \<leftarrow> (if x = old_value then wr m first new_value else Some m);
        replace m' (Suc first) last' old_value new_value
      } else Some m)"
  by pat_completeness auto
termination
  by (relation "measure (\<lambda>(m, first, last', old_value, new_value). length m - first)") (auto split: if_splits)

function replace_if :: "'a mem \<Rightarrow> iter \<Rightarrow> iter \<Rightarrow> ('a \<Rightarrow> bool) \<Rightarrow> 'a \<Rightarrow> 'a mem option" where
  "replace_if m first last' pred new_value =
     (if first \<noteq> last' then do {
        x \<leftarrow> rd m first;
        m' \<leftarrow> (if pred x then wr m first new_value else Some m);
        replace_if m' (Suc first) last' pred new_value
      } else Some m)"
  by pat_completeness auto
termination
  by (relation "measure (\<lambda>(m, first, last', pred, new_value). length m - first)") (auto split: if_splits)

function replace_copy ::
    "'a mem \<Rightarrow> iter \<Rightarrow> iter \<Rightarrow> 'a mem \<Rightarrow> iter \<Rightarrow> 'a \<Rightarrow> 'a \<Rightarrow> ('a mem \<times> iter) option" where
  "replace_copy src first last' m result old_value new_value =
     (if first \<noteq> last' then do {
        x \<leftarrow> rd src first;
        m \<leftarrow> (if x = old_value then wr m result new_value else wr m result x);
        replace_copy src (Suc first) last' m (Suc result) old_value new_value
      } else Some (m, result))"
  by pat_completeness auto
termination
  by (relation "measure (\<lambda>(src, first, last', m, result, old_value, new_value). length src - first)") auto

function replace_copy_if ::
    "'a mem \<Rightarrow> iter \<Rightarrow> iter \<Rightarrow> 'a mem \<Rightarrow> iter \<Rightarrow> ('a \<Rightarrow> bool) \<Rightarrow> 'a \<Rightarrow> ('a mem \<times> iter) option" where
  "replace_copy_if src first last' m result pred new_value =
     (if first \<noteq> last' then do {
        x \<leftarrow> rd src first;
        m \<leftarrow> (if pred x then wr m result new_value else wr m result x);
        replace_copy_if src (Suc first) last' m (Suc result) pred new_value
      } else Some (m, result))"
  by pat_completeness auto
termination
  by (relation "measure (\<lambda>(src, first, last', m, result, pred, new_value). length src - first)") auto

function remove_copy :: "'a mem \<Rightarrow> iter \<Rightarrow> iter \<Rightarrow> 'a mem \<Rightarrow> iter \<Rightarrow> 'a \<Rightarrow> ('a mem \<times> iter) option" where
  "remove_copy src first last' m result val =
     (if first \<noteq> last' then do {
        x \<leftarrow> rd src first;
        if \<not> x = val then do {
          m \<leftarrow> wr m result x;
          remove_copy src (Suc first) last' m (Suc result) val
        } else remove_copy src (Suc first) last' m result val
      } else Some (m, result))"
  by pat_completeness auto
termination
  by (relation "measure (\<lambda>(src, first, last', m, result, val). length src - first)") auto

function remove_copy_if ::
    "'a mem \<Rightarrow> iter \<Rightarrow> iter \<Rightarrow> 'a mem \<Rightarrow> iter \<Rightarrow> ('a \<Rightarrow> bool) \<Rightarrow> ('a mem \<times> iter) option" where
  "remove_copy_if src first last' m result pred =
     (if first \<noteq> last' then do {
        x \<leftarrow> rd src first;
        if \<not> pred x then do {
          m \<leftarrow> wr m result x;
          remove_copy_if src (Suc first) last' m (Suc result) pred
        } else remove_copy_if src (Suc first) last' m result pred
      } else Some (m, result))"
  by pat_completeness auto
termination
  by (relation "measure (\<lambda>(src, first, last', m, result, pred). length src - first)") auto

function partition_copy ::
    "'a mem \<Rightarrow> iter \<Rightarrow> iter \<Rightarrow> 'a mem \<Rightarrow> iter \<Rightarrow> 'a mem \<Rightarrow> iter \<Rightarrow> ('a \<Rightarrow> bool) \<Rightarrow>
      ('a mem \<times> iter \<times> 'a mem \<times> iter) option" where
  "partition_copy src first last' mt out_true mf out_false pred =
     (if first \<noteq> last' then do {
        x \<leftarrow> rd src first;
        if pred x then do {
          mt \<leftarrow> wr mt out_true x;
          partition_copy src (Suc first) last' mt (Suc out_true) mf out_false pred
        } else do {
          mf \<leftarrow> wr mf out_false x;
          partition_copy src (Suc first) last' mt out_true mf (Suc out_false) pred
        }
      } else Some (mt, out_true, mf, out_false))"
  by pat_completeness auto
termination
  by (relation "measure (\<lambda>(src, first, last', mt, out_true, mf, out_false, pred). length src - first)") auto

function reverse_copy :: "'a mem \<Rightarrow> iter \<Rightarrow> iter \<Rightarrow> 'a mem \<Rightarrow> iter \<Rightarrow> ('a mem \<times> iter) option" where
  "reverse_copy src first last' m result =
     (if first \<noteq> last' then
        (if last' = 0 then None
         else do {
           x \<leftarrow> rd src (last' - 1);
           m \<leftarrow> wr m result x;
           reverse_copy src first (last' - 1) m (Suc result)
         })
      else Some (m, result))"
  by pat_completeness auto
termination
  by (relation "measure (\<lambda>(src, first, last', m, result). last')") auto

definition rotate_copy :: "'a mem \<Rightarrow> iter \<Rightarrow> iter \<Rightarrow> iter \<Rightarrow> 'a mem \<Rightarrow> iter \<Rightarrow> ('a mem \<times> iter) option" where
  "rotate_copy src first middle last' m result = do {
     (m, r) \<leftarrow> copy src middle last' m result;
     copy src first middle m r
   }"

subsection \<open>unique\_copy\<close>

text \<open>The three versions: from a temporary value, rereading the input, rereading the output.\<close>

function unique_copy_tmp_loop ::
    "'a mem \<Rightarrow> iter \<Rightarrow> iter \<Rightarrow> 'a mem \<Rightarrow> iter \<Rightarrow> ('a \<Rightarrow> 'a \<Rightarrow> bool) \<Rightarrow> 'a \<Rightarrow> ('a mem \<times> iter \<times> iter) option" where
  "unique_copy_tmp_loop src first last' m result pred t =
     (let first = Suc first in
      if first \<noteq> last' then do {
        x \<leftarrow> rd src first;
        if \<not> pred t x then do {
          m \<leftarrow> wr m result x;
          unique_copy_tmp_loop src first last' m (Suc result) pred x
        } else unique_copy_tmp_loop src first last' m result pred t
      } else Some (m, first, result))"
  by pat_completeness auto
termination
  by (relation "measure (\<lambda>(src, first, last', m, result, pred, t). length src - first)") auto

definition unique_copy_tmp ::
    "'a mem \<Rightarrow> iter \<Rightarrow> iter \<Rightarrow> 'a mem \<Rightarrow> iter \<Rightarrow> ('a \<Rightarrow> 'a \<Rightarrow> bool) \<Rightarrow> ('a mem \<times> iter \<times> iter) option" where
  "unique_copy_tmp src first last' m result pred =
     (if first \<noteq> last' then do {
        t \<leftarrow> rd src first;
        m \<leftarrow> wr m result t;
        unique_copy_tmp_loop src first last' m (Suc result) pred t
      } else Some (m, first, result))"

function unique_copy_in_loop ::
    "'a mem \<Rightarrow> iter \<Rightarrow> iter \<Rightarrow> 'a mem \<Rightarrow> iter \<Rightarrow> ('a \<Rightarrow> 'a \<Rightarrow> bool) \<Rightarrow> iter \<Rightarrow> ('a mem \<times> iter \<times> iter) option" where
  "unique_copy_in_loop src first last' m result pred i =
     (let first = Suc first in
      if first \<noteq> last' then do {
        t \<leftarrow> rd src i;
        x \<leftarrow> rd src first;
        if \<not> pred t x then do {
          m \<leftarrow> wr m result x;
          unique_copy_in_loop src first last' m (Suc result) pred first
        } else unique_copy_in_loop src first last' m result pred i
      } else Some (m, first, result))"
  by pat_completeness auto
termination
  by (relation "measure (\<lambda>(src, first, last', m, result, pred, i). length src - first)") auto

definition unique_copy_in ::
    "'a mem \<Rightarrow> iter \<Rightarrow> iter \<Rightarrow> 'a mem \<Rightarrow> iter \<Rightarrow> ('a \<Rightarrow> 'a \<Rightarrow> bool) \<Rightarrow> ('a mem \<times> iter \<times> iter) option" where
  "unique_copy_in src first last' m result pred =
     (if first \<noteq> last' then do {
        let i = first;
        x \<leftarrow> rd src i;
        m \<leftarrow> wr m result x;
        unique_copy_in_loop src first last' m (Suc result) pred i
      } else Some (m, first, result))"

function unique_copy_out_loop ::
    "'a mem \<Rightarrow> iter \<Rightarrow> iter \<Rightarrow> 'a mem \<Rightarrow> iter \<Rightarrow> ('a \<Rightarrow> 'a \<Rightarrow> bool) \<Rightarrow> ('a mem \<times> iter \<times> iter) option" where
  "unique_copy_out_loop src first last' m result pred =
     (let first = Suc first in
      if first \<noteq> last' then do {
        t \<leftarrow> rd m result;
        x \<leftarrow> rd src first;
        if \<not> pred t x then do {
          m \<leftarrow> wr m (Suc result) x;
          unique_copy_out_loop src first last' m (Suc result) pred
        } else unique_copy_out_loop src first last' m result pred
      } else Some (m, first, Suc result))"
  by pat_completeness auto
termination
  by (relation "measure (\<lambda>(src, first, last', m, result, pred). length src - first)") auto

definition unique_copy_out ::
    "'a mem \<Rightarrow> iter \<Rightarrow> iter \<Rightarrow> 'a mem \<Rightarrow> iter \<Rightarrow> ('a \<Rightarrow> 'a \<Rightarrow> bool) \<Rightarrow> ('a mem \<times> iter \<times> iter) option" where
  "unique_copy_out src first last' m result pred =
     (if first \<noteq> last' then do {
        x \<leftarrow> rd src first;
        m \<leftarrow> wr m result x;
        unique_copy_out_loop src first last' m result pred
      } else Some (m, first, result))"

datatype unique_copy_tag = Read_From_Tmp_Value | Reread_From_Input | Reread_From_Output

text \<open>
  The tag: the input is a forward iterator; otherwise the output is one and has the same value type.
\<close>

definition unique_copy_algo_tag :: "bool \<Rightarrow> bool \<Rightarrow> unique_copy_tag" where
  "unique_copy_algo_tag in_forward out_forward_same =
     (if in_forward then Reread_From_Input
      else if out_forward_same then Reread_From_Output else Read_From_Tmp_Value)"

definition unique_copy ::
    "unique_copy_tag \<Rightarrow> 'a mem \<Rightarrow> iter \<Rightarrow> iter \<Rightarrow> 'a mem \<Rightarrow> iter \<Rightarrow> ('a \<Rightarrow> 'a \<Rightarrow> bool) \<Rightarrow> ('a mem \<times> iter) option" where
  "unique_copy tag src first last' m result pred = do {
     (m, _, r) \<leftarrow> (case tag of
        Read_From_Tmp_Value \<Rightarrow> unique_copy_tmp src first last' m result pred
      | Reread_From_Input \<Rightarrow> unique_copy_in src first last' m result pred
      | Reread_From_Output \<Rightarrow> unique_copy_out src first last' m result pred);
     Some (m, r)
   }"

definition unique_copy_eq ::
    "unique_copy_tag \<Rightarrow> 'a mem \<Rightarrow> iter \<Rightarrow> iter \<Rightarrow> 'a mem \<Rightarrow> iter \<Rightarrow> ('a mem \<times> iter) option" where
  "unique_copy_eq tag src first last' m result = unique_copy tag src first last' m result equal_to_op"

declare copy_impl.simps [simp del] constexpr_tail_overlap_fallback.simps [simp del]
  copy_ptr_up.simps [simp del] copy_if.simps [simp del] copy_backward_impl.simps [simp del]
  copy_backward_ptr_loop.simps [simp del] move_impl.simps [simp del] move_ptr_loop.simps [simp del]
  move_backward_impl.simps [simp del] fill_forward.simps [simp del] fill_n_impl.simps [simp del]
  generate.simps [simp del] generate_n.simps [simp del] for_each.simps [simp del]
  for_each_n.simps [simp del] transform.simps [simp del] transform_binary.simps [simp del]
  replace.simps [simp del] replace_if.simps [simp del] replace_copy.simps [simp del]
  replace_copy_if.simps [simp del] remove_copy.simps [simp del] remove_copy_if.simps [simp del]
  partition_copy.simps [simp del] reverse_copy.simps [simp del] unique_copy_tmp_loop.simps [simp del]
  unique_copy_in_loop.simps [simp del] unique_copy_out_loop.simps [simp del]

section \<open>The output as a list\<close>

lemma seg_update_before [simp]: "i < a \<Longrightarrow> seg (m[i := x]) a b = seg m a b"
  by (simp add: seg_def)

lemma put_at_keep: "r < length m \<Longrightarrow> put_at m (Suc r) xs = put_at m r (m ! r # xs)"
  using put_at_Cons [of r m "m ! r" xs] by simp

lemma put_at_update [simp]: "put_at (m[r := x]) r (y # ys) = put_at m r (y # ys)"
  by (simp add: put_at_def put_seg_def)

lemma copy_impl_eq:
  "f \<le> l \<Longrightarrow> l \<le> length src \<Longrightarrow> r + (l - f) \<le> length m \<Longrightarrow>
     copy_impl src f l m r = Some (put_at m r (seg src f l), l, r + (l - f))"
  by (induction f arbitrary: m r rule: inc_induct)
    (subst copy_impl.simps, simp add: mem_simps seg_Cons put_at_Cons Suc_diff_Suc [symmetric])+

lemma copy_eq:
  "f \<le> l \<Longrightarrow> l \<le> length src \<Longrightarrow> r + (l - f) \<le> length m \<Longrightarrow>
     copy src f l m r = Some (put_at m r (seg src f l), r + (l - f))"
  by (simp add: copy_def copy_impl_eq)

lemma copy_if_eq:
  "f \<le> l \<Longrightarrow> l \<le> length src \<Longrightarrow> r + length (filter pred (seg src f l)) \<le> length m \<Longrightarrow>
     copy_if src f l m r pred =
       (let ys = filter pred (seg src f l) in Some (put_at m r ys, r + length ys))"
  by (induction f arbitrary: m r rule: inc_induct)
    (subst copy_if.simps, simp add: mem_simps seg_Cons put_at_Cons Let_def split: if_splits)+

lemma remove_copy_if_eq: "remove_copy_if src f l m r pred = copy_if src f l m r (\<lambda>x. \<not> pred x)"
  by (induction src f l m r pred rule: remove_copy_if.induct)
    (subst remove_copy_if.simps, subst copy_if.simps, auto simp: rd_def wr_def)

lemma remove_copy_eq: "remove_copy src f l m r v = copy_if src f l m r (\<lambda>x. x \<noteq> v)"
  by (induction src f l m r v rule: remove_copy.induct)
    (subst remove_copy.simps, subst copy_if.simps, auto simp: rd_def wr_def)

lemma transform_eq:
  "f \<le> l \<Longrightarrow> l \<le> length src \<Longrightarrow> r + (l - f) \<le> length m \<Longrightarrow>
     transform src f l m r opr = Some (put_at m r (map opr (seg src f l)), r + (l - f))"
  by (induction f arbitrary: m r rule: inc_induct)
    (subst transform.simps, simp add: mem_simps seg_Cons put_at_Cons Suc_diff_Suc [symmetric])+

lemma transform_binary_eq:
  "f \<le> l \<Longrightarrow> l \<le> length src1 \<Longrightarrow> g + (l - f) \<le> length src2 \<Longrightarrow> r + (l - f) \<le> length m \<Longrightarrow>
     transform_binary src1 f l src2 g m r bop =
       Some (put_at m r (map2 bop (seg src1 f l) (seg src2 g (g + (l - f)))), r + (l - f))"
  by (induction f arbitrary: m r g rule: inc_induct)
    (subst transform_binary.simps, simp add: mem_simps seg_Cons put_at_Cons Suc_diff_Suc [symmetric])+

lemma replace_copy_if_eq:
  "replace_copy_if src f l m r pred v = transform src f l m r (\<lambda>x. if pred x then v else x)"
  by (induction src f l m r pred v rule: replace_copy_if.induct)
    (subst replace_copy_if.simps, subst transform.simps, auto simp: rd_def wr_def)

lemma replace_copy_eq:
  "replace_copy src f l m r u v = transform src f l m r (\<lambda>x. if x = u then v else x)"
  by (induction src f l m r u v rule: replace_copy.induct)
    (subst replace_copy.simps, subst transform.simps, auto simp: rd_def wr_def)

lemma replace_if_eq:
  "a \<le> b \<Longrightarrow> b \<le> length m \<Longrightarrow>
     replace_if m a b pred v = Some (put_at m a (map (\<lambda>x. if pred x then v else x) (seg m a b)))"
  by (induction a arbitrary: m rule: inc_induct)
    (subst replace_if.simps, simp add: mem_simps seg_Cons put_at_Cons put_at_keep)+

lemma replace_eq: "replace m a b u v = replace_if m a b (\<lambda>x. x = u) v"
  by (induction m a b u v rule: replace.induct)
    (subst replace.simps, subst replace_if.simps, auto simp: rd_def wr_def)

lemma fill_forward_eq:
  "a \<le> b \<Longrightarrow> b \<le> length m \<Longrightarrow> fill_forward m a b v = Some (put_at m a (replicate (b - a) v))"
  by (induction a arbitrary: m rule: inc_induct)
    (subst fill_forward.simps, simp add: mem_simps put_at_Cons Suc_diff_Suc [symmetric])+

lemma fill_n_eq:
  "a + n \<le> length m \<Longrightarrow> fill_n m a (int n) v = Some (put_at m a (replicate n v), a + n)"
  unfolding fill_n_def
  by (induction n arbitrary: a m) (subst fill_n_impl.simps, simp add: mem_simps put_at_Cons)+

primrec gen_list :: "('s \<Rightarrow> 'a \<times> 's) \<Rightarrow> 's \<Rightarrow> nat \<Rightarrow> 'a list \<times> 's" where
  "gen_list gen s 0 = ([], s)"
| "gen_list gen s (Suc n) = (let (xs, t) = gen_list gen (snd (gen s)) n in (fst (gen s) # xs, t))"

lemma length_gen_list [simp]: "length (fst (gen_list gen s n)) = n"
  by (induction n arbitrary: s) (auto simp: Let_def split_beta)

lemma generate_eq:
  "a \<le> b \<Longrightarrow> b \<le> length m \<Longrightarrow>
     generate m a b gen s = (let (xs, t) = gen_list gen s (b - a) in Some (put_at m a xs, t))"
  by (induction a arbitrary: m s rule: inc_induct)
    (subst generate.simps, simp add: mem_simps put_at_Cons Suc_diff_Suc [symmetric] Let_def split: prod.splits)+

lemma generate_n_eq:
  "a + n \<le> length m \<Longrightarrow>
     generate_n m a (int n) gen s = (let (xs, t) = gen_list gen s n in Some (put_at m a xs, a + n, t))"
  by (induction n arbitrary: a m s)
    (subst generate_n.simps, simp add: mem_simps put_at_Cons Let_def split: prod.splits)+

primrec map_state :: "('s \<Rightarrow> 'a \<Rightarrow> 'a \<times> 's) \<Rightarrow> 's \<Rightarrow> 'a list \<Rightarrow> 'a list \<times> 's" where
  "map_state f s [] = ([], s)"
| "map_state f s (x # xs) = (let (ys, t) = map_state f (snd (f s x)) xs in (fst (f s x) # ys, t))"

lemma for_each_eq:
  "a \<le> b \<Longrightarrow> b \<le> length m \<Longrightarrow>
     for_each m a b f s = (let (xs, t) = map_state f s (seg m a b) in Some (put_at m a xs, t))"
  by (induction a arbitrary: m s rule: inc_induct)
    (subst for_each.simps, simp add: mem_simps put_at_Cons seg_Cons Let_def split: prod.splits)+

lemma for_each_n_eq:
  "a + n \<le> length m \<Longrightarrow>
     for_each_n m a (int n) f s = (let (xs, t) = map_state f s (seg m a (a + n)) in Some (put_at m a xs, a + n, t))"
  by (induction n arbitrary: a m s)
    (subst for_each_n.simps, simp add: mem_simps put_at_Cons seg_Cons Let_def split: prod.splits)+

lemma partition_copy_eq:
  "f \<le> l \<Longrightarrow> l \<le> length src \<Longrightarrow> t + length (filter pred (seg src f l)) \<le> length mt \<Longrightarrow>
     u + length (filter (\<lambda>x. \<not> pred x) (seg src f l)) \<le> length mf \<Longrightarrow>
     partition_copy src f l mt t mf u pred =
       (let (ys, ns) = partition pred (seg src f l) in
        Some (put_at mt t ys, t + length ys, put_at mf u ns, u + length ns))"
  by (induction f arbitrary: mt t mf u rule: inc_induct)
    (subst partition_copy.simps, simp add: mem_simps put_at_Cons seg_Cons Let_def o_def split: prod.splits if_splits)+

lemma reverse_copy_eq:
  "f \<le> l \<Longrightarrow> l \<le> length src \<Longrightarrow> r + (l - f) \<le> length m \<Longrightarrow>
     reverse_copy src f l m r = Some (put_at m r (rev (seg src f l)), r + (l - f))"
  by (induction l arbitrary: m r rule: dec_induct)
    (subst reverse_copy.simps, simp add: mem_simps seg_snoc put_at_Cons Suc_diff_le)+

lemma rotate_copy_eq:
  assumes "f \<le> k" "k \<le> l" "l \<le> length src" "r + (l - f) \<le> length m"
  shows "rotate_copy src f k l m r = Some (put_at m r (seg src k l @ seg src f k), r + (l - f))"
  using assms put_at_append [of r "seg src k l" "seg src f k" m] by (simp add: rotate_copy_def copy_eq)

lemma copy_n_loop_eq:
  "f + n < length src \<Longrightarrow> r + n \<le> length m \<Longrightarrow>
     copy_n_loop src f n m r = Some (put_at m r (seg src (Suc f) (Suc f + n)), r + n)"
  by (induction n arbitrary: f r m) (simp_all add: mem_simps seg_Cons put_at_Cons)

lemma copy_n_input_eq:
  "f + n \<le> length src \<Longrightarrow> r + n \<le> length m \<Longrightarrow>
     copy_n_input src f (int n) m r = Some (put_at m r (seg src f (f + n)), r + n)"
  by (cases n) (simp_all add: copy_n_input_def mem_simps copy_n_loop_eq seg_Cons put_at_Cons)

lemma copy_n_random_eq:
  "f + n \<le> length src \<Longrightarrow> r + n \<le> length m \<Longrightarrow>
     copy_n_random src f (int n) m r = Some (put_at m r (seg src f (f + n)), r + n)"
  by (simp add: copy_n_random_def copy_eq nat_add_distrib)

lemma copy_impl_past: "l < f \<Longrightarrow> copy_impl src f l m r = None"
proof (induction src f l m r rule: copy_impl.induct)
  case (1 src f l m r)
  then show ?case by (subst copy_impl.simps) (auto simp: rd_def wr_def)
qed

subsection \<open>unique\_copy\<close>

text \<open>What remains of a list behind \<open>t\<close> when elements matching the last one kept are dropped.\<close>

fun unique_from :: "('a \<Rightarrow> 'a \<Rightarrow> bool) \<Rightarrow> 'a \<Rightarrow> 'a list \<Rightarrow> 'a list" where
  "unique_from pred t [] = []"
| "unique_from pred t (x # xs) =
     (if pred t x then unique_from pred t xs else x # unique_from pred x xs)"

fun unique_list :: "('a \<Rightarrow> 'a \<Rightarrow> bool) \<Rightarrow> 'a list \<Rightarrow> 'a list" where
  "unique_list pred [] = []"
| "unique_list pred (x # xs) = x # unique_from pred x xs"

lemma length_unique_from: "length (unique_from pred t xs) \<le> length xs"
  by (induction pred t xs rule: unique_from.induct) auto

lemma unique_copy_tmp_loop_eq:
  assumes "f < l" "l \<le> length src" "r + length (unique_from pred t (seg src (Suc f) l)) \<le> length m"
  shows "unique_copy_tmp_loop src f l m r pred t =
    (let ys = unique_from pred t (seg src (Suc f) l) in Some (put_at m r ys, l, r + length ys))"
  using assms
proof (induction "l - f" arbitrary: f m r t)
  case (Suc n)
  note unfold = unique_copy_tmp_loop.simps [of src f l m r pred t]
  show ?case
  proof (cases "Suc f = l")
    case True
    then show ?thesis by (simp add: unfold)
  next
    case False
    with Suc.hyps(1) [of "Suc f"] Suc.hyps(2) Suc.prems show ?thesis
      by (auto simp: unfold mem_simps seg_Cons put_at_Cons Let_def)
  qed
qed simp

lemma unique_copy_in_loop_eq:
  assumes "f < l" "l \<le> length src" "i \<le> f"
  shows "unique_copy_in_loop src f l m r pred i = unique_copy_tmp_loop src f l m r pred (src ! i)"
  using assms
proof (induction "l - f" arbitrary: f m r i)
  case (Suc n)
  show ?case
  proof (cases "Suc f = l")
    case True
    then show ?thesis by (simp add: unique_copy_tmp_loop.simps [of src f] unique_copy_in_loop.simps [of src f])
  next
    case False
    with Suc show ?thesis
      by (simp add: unique_copy_tmp_loop.simps [of src f] unique_copy_in_loop.simps [of src f] mem_simps Let_def wr_def)
  qed
qed simp

lemma unique_copy_out_loop_eq:
  assumes "f < l" "l \<le> length src" "r < length m"
  shows "unique_copy_out_loop src f l m r pred = unique_copy_tmp_loop src f l m (Suc r) pred (m ! r)"
  using assms
proof (induction "l - f" arbitrary: f m r)
  case (Suc n)
  show ?case
  proof (cases "Suc f = l")
    case True
    then show ?thesis by (simp add: unique_copy_tmp_loop.simps [of src f] unique_copy_out_loop.simps [of src f])
  next
    case False
    with Suc show ?thesis
      by (simp add: unique_copy_tmp_loop.simps [of src f] unique_copy_out_loop.simps [of src f] mem_simps Let_def wr_def)
  qed
qed simp

lemma unique_copy_list:
  assumes "f \<le> l" "l \<le> length src" "r + length (unique_list pred (seg src f l)) \<le> length m"
  shows "unique_copy tag src f l m r pred =
    (let ys = unique_list pred (seg src f l) in Some (put_at m r ys, r + length ys))"
proof (cases "f = l")
  case True
  then show ?thesis
    by (cases tag) (simp_all add: unique_copy_def unique_copy_tmp_def unique_copy_in_def unique_copy_out_def)
next
  case False
  then show ?thesis using assms
    by (cases tag) (simp_all add: unique_copy_def unique_copy_tmp_def unique_copy_in_def unique_copy_out_def
        unique_copy_in_loop_eq unique_copy_out_loop_eq unique_copy_tmp_loop_eq mem_simps seg_Cons put_at_Cons Let_def)
qed

section \<open>Overlapping copies\<close>

lemma copy_ptr_down_eq:
  assumes "i \<le> n" "f \<le> r" "r + n \<le> length m"
  shows "copy_ptr_down (put_at m (r + i) (seg m (f + i) (f + n))) f r i = Some (put_at m r (seg m f (f + n)))"
  using assms(1)
proof (induction i)
  case (Suc i)
  have "(put_at m (Suc (r + i)) (seg m (Suc (f + i)) (f + n)))[r + i := m ! (f + i)] =
      put_at m (r + i) (seg m (f + i) (f + n))"
    using Suc.prems assms by (subst put_at_before) (simp_all add: seg_Cons)
  with Suc assms show ?case by (simp add: mem_simps put_at_nth)
qed simp

lemma copy_ptr_up_eq:
  assumes "i \<le> n" "r \<le> f \<or> f + n \<le> r" "r + n \<le> length m" "f + n \<le> length m"
  shows "copy_ptr_up (put_at m r (seg m f (f + i))) f r n i = Some (put_at m r (seg m f (f + n)))"
  using assms(1)
proof (induction i rule: inc_induct)
  case base
  then show ?case by (subst copy_ptr_up.simps) simp
next
  case (step i)
  have len: "length (put_at m r (seg m f (f + i))) = length m" using step assms by simp
  moreover have "put_at m r (seg m f (f + i)) ! (f + i) = m ! (f + i)"
    using step assms by (auto simp: put_at_nth)
  moreover have "(put_at m r (seg m f (f + i)))[r + i := m ! (f + i)] = put_at m r (seg m f (Suc (f + i)))"
    using step assms by (subst put_at_snoc) (simp_all add: seg_snoc)
  ultimately show ?case
    using step assms by (subst copy_ptr_up.simps) (simp add: mem_simps)
qed

lemma move_ptr_loop_eq: "move_ptr_loop m f r n i = copy_ptr_up m f r n i"
  by (induction m f r n i rule: move_ptr_loop.induct)
    (subst move_ptr_loop.simps, subst copy_ptr_up.simps, auto simp: rd_def wr_def)

lemma move_impl_up:
  "i \<le> n \<Longrightarrow> move_impl m (f + i) (f + n) (r + i) = do { m' \<leftarrow> copy_ptr_up m f r n i; Some (m', f + n, r + n) }"
proof (induction i arbitrary: m rule: inc_induct)
  case base
  then show ?case by (subst move_impl.simps, subst copy_ptr_up.simps) simp
next
  case (step i)
  then show ?case by (subst move_impl.simps, subst copy_ptr_up.simps) (simp add: rd_def wr_def)
qed

lemma move_backward_impl_down:
  "move_backward_impl m f (f + i) (r + i) = do { m' \<leftarrow> copy_ptr_down m f r i; Some (m', f, r) }"
  by (induction i arbitrary: m) (subst move_backward_impl.simps, simp add: rd_def wr_def)+

lemma copy_backward_impl_down:
  "copy_backward_impl m f (f + i) (r + i) = do { m' \<leftarrow> copy_ptr_down m f r i; Some (m', r) }"
  by (induction i arbitrary: m) (subst copy_backward_impl.simps, simp add: rd_def wr_def)+

lemma copy_backward_ptr_loop_down:
  "i \<le> n \<Longrightarrow> copy_backward_ptr_loop m (f + n) (r + n) n (Suc n - i) = copy_ptr_down m f r i"
proof (induction i arbitrary: m)
  case 0
  then show ?case by (subst copy_backward_ptr_loop.simps) simp
next
  case (Suc i)
  then have "Suc n - Suc i = n - i" "Suc (n - i) = Suc n - i" "f + n - (n - i) = f + i" "r + n - (n - i) = r + i"
    "\<not> f + n < n - i" "\<not> r + n < n - i" by auto
  with Suc show ?case by (subst copy_backward_ptr_loop.simps) (simp add: rd_def wr_def)
qed

lemma move_eq:
  assumes "f \<le> l" "l \<le> length m" "r + (l - f) \<le> length m" "r \<le> f \<or> l \<le> r"
  shows "move m f l r = Some (put_at m r (seg m f l), r + (l - f))"
  using move_impl_up [of 0 "l - f" m f r] copy_ptr_up_eq [of 0 "l - f" r f m] assms
  by (simp add: move_def)

lemma move_backward_eq:
  assumes "f \<le> l" "l \<le> r" "r \<le> length m"
  shows "move_backward m f l r = Some (put_at m (r - (l - f)) (seg m f l), r - (l - f))"
  using move_backward_impl_down [of m f "l - f" "r - (l - f)"] copy_ptr_down_eq [of "l - f" "l - f" f "r - (l - f)" m] assms
  by (simp add: move_backward_def)

lemma fallback_eq:
  "f \<le> l \<Longrightarrow> constexpr_tail_overlap_fallback f needle l = Some (f \<le> needle \<and> needle < l)"
  by (induction f rule: inc_induct) (subst constexpr_tail_overlap_fallback.simps, auto)+

lemma copy_ptr_eq:
  assumes "f \<le> l" "l \<le> length m" "r + (l - f) \<le> length m"
  shows "copy_ptr has_memmove fallback m f l r = Some (put_at m r (seg m f l), l, r + (l - f))"
proof (cases "f = l")
  case False
  let ?n = "l - f"
  have n: "f + ?n = l" "0 < ?n" using False assms by auto
  have dn: "copy_ptr_down m f r ?n = Some (put_at m r (seg m f l))" if "f \<le> r"
    using copy_ptr_down_eq [of ?n ?n f r m] that assms n by simp
  have up: "copy_ptr_up m f r ?n 0 = Some (put_at m r (seg m f l))" if "r \<le> f \<or> l \<le> r"
    using copy_ptr_up_eq [of 0 ?n r f m] that assms n by simp
  show ?thesis using assms n dn up
    by (auto simp: copy_ptr_def dispatch_memmove_def memmove_def constexpr_tail_overlap_def fallback_eq Let_def)
qed (simp add: copy_ptr_def)

lemma copy_backward_ptr_eq:
  assumes "f \<le> l" "l \<le> r" "r \<le> length m"
  shows "copy_backward_ptr has_memmove m f l r = copy_backward m f l r \<and>
         move_backward_ptr has_memmove m f l r = Some (put_at m (r - (l - f)) (seg m f l), l, r - (l - f)) \<and>
         copy_backward m f l r = Some (put_at m (r - (l - f)) (seg m f l), r - (l - f))"
proof -
  let ?n = "l - f" let ?r = "r - (l - f)"
  have n: "f + ?n = l" "?r + ?n = r" "f \<le> ?r" "\<not> r < ?n" using assms by auto
  have dn: "copy_ptr_down m f ?r ?n = Some (put_at m ?r (seg m f l))"
    using copy_ptr_down_eq [of ?n ?n f ?r m] assms n by simp
  moreover have "copy_backward_ptr_loop m l r ?n 1 = copy_ptr_down m f ?r ?n"
    using copy_backward_ptr_loop_down [of ?n ?n m f ?r] n by simp
  moreover have "copy_backward_impl m f l r = do { m' \<leftarrow> copy_ptr_down m f ?r ?n; Some (m', ?r) }"
    using copy_backward_impl_down [of m f ?n ?r] n by simp
  moreover have "?n = 0 \<Longrightarrow> put_at m ?r (seg m f l) = m" by simp
  ultimately show ?thesis using n assms
    by (cases "?n = 0") (auto simp: copy_backward_ptr_def move_backward_ptr_def copy_backward_def
        dispatch_memmove_def memmove_def Let_def)
qed

section \<open>Properties\<close>

text \<open>
  C21: \<^verbatim>\<open>copy\<close> of trivially copyable objects through pointers writes the old contents of the source range
  to the destination also when the ranges overlap in either direction, and changes nothing else, on
  each of its paths: \<^verbatim>\<open>memmove\<close>, the loops with the pointer comparison, the loops with the search for
  the overlap.
\<close>

theorem copy_ptr_correct:
  assumes "f \<le> l" "l \<le> length m" "r + (l - f) \<le> length m"
  shows "\<exists>m'. copy_ptr has_memmove fallback m f l r = Some (m', l, r + (l - f)) \<and>
           seg m' r (r + (l - f)) = seg m f l \<and> frame m m' r (r + (l - f))"
  using copy_ptr_eq [OF assms] seg_put_at [of r "seg m f l" m] frame_put_at [of r "seg m f l" m] assms by simp

theorem copy_ptr_correct_witness:
  "\<exists>m'. copy_ptr False True [1, 2, 3, 4, 5 :: int] 0 3 1 = Some (m', 3, 1 + (3 - 0)) \<and>
     seg m' 1 (1 + (3 - 0)) = seg [1, 2, 3, 4, 5] 0 3 \<and> frame [1, 2, 3, 4, 5] m' 1 (1 + (3 - 0))"
  by (rule copy_ptr_correct) simp_all

text \<open>
  The three versions of \<^verbatim>\<open>unique_copy\<close> write the same output: the first element of every run of
  elements that match the last element kept.
\<close>

theorem unique_copy_correct:
  assumes "f \<le> l" "l \<le> length src" "r + length (unique_list pred (seg src f l)) \<le> length m"
  shows "unique_copy tag src f l m r pred =
    Some (put_at m r (unique_list pred (seg src f l)), r + length (unique_list pred (seg src f l)))"
  using unique_copy_list [OF assms] by (simp add: Let_def)

theorem unique_copy_correct_witness:
  "unique_copy Reread_From_Output [1, 1, 2, 2, 1 :: int] 0 5 [0, 0, 0, 0] 0 (=) = Some ([1, 2, 1, 0], 3)"
  using unique_copy_correct [of 0 5 "[1, 1, 2, 2, 1 :: int]" 0 "(=)" "[0, 0, 0, 0]" Reread_From_Output]
  by (simp add: seg_def put_at_def put_seg_def)

text \<open>
  With a negative count \<^verbatim>\<open>copy_n\<close> for input iterators copies nothing, as the C++ standard asks;
  the version for random access iterators forms a range that ends before it begins and runs out of
  the memory.
\<close>

theorem copy_n_negative:
  assumes "n < 0"
  shows "copy_n_input src f n m r = Some (m, r) \<and> copy_n_random src f n m r = None"
  using assms by (auto simp: copy_n_input_def copy_n_random_def copy_def copy_impl_past)

theorem copy_n_negative_witness:
  "copy_n_input [1, 2, 3 :: int] 2 (- 1) [0, 0] 0 = Some ([0, 0], 0) \<and>
   copy_n_random [1, 2, 3 :: int] 2 (- 1) [0, 0] 0 = None"
  by (rule copy_n_negative) simp

end
