(* ===== verification/Rearrange_Ops.thy ===== *)
theory Rearrange_Ops
  imports Copy_Ops
begin

text \<open>
  Algorithms that rearrange a range in place: \<^verbatim>\<open>remove.h\<close>, \<^verbatim>\<open>remove_if.h\<close>, \<^verbatim>\<open>unique.h\<close>,
  \<^verbatim>\<open>reverse.h\<close>, \<^verbatim>\<open>swap_ranges.h\<close>, \<^verbatim>\<open>rotate.h\<close>, \<^verbatim>\<open>shift_left.h\<close>, \<^verbatim>\<open>shift_right.h\<close> and
  \<^verbatim>\<open>partition.h\<close> of \<^verbatim>\<open>cuda/std/__algorithm\<close>, in the versions for the iterator categories.
  Swapping is \<open>iter_swap\<close> of the prelude.
\<close>

section \<open>Definitions\<close>

subsection \<open>remove, unique\<close>

function remove_loop :: "'a mem \<Rightarrow> iter \<Rightarrow> iter \<Rightarrow> iter \<Rightarrow> 'a \<Rightarrow> ('a mem \<times> iter) option" where
  "remove_loop m first i last' val =
     (let i = Suc i in
      if i \<noteq> last' then do {
        x \<leftarrow> rd m i;
        if \<not> x = val then do {
          m1 \<leftarrow> wr m first x;
          remove_loop m1 (Suc first) i last' val
        } else remove_loop m first i last' val
      } else Some (m, first))"
  by pat_completeness auto
termination
  by (relation "measure (\<lambda>(m, first, i, last', val). length m - i)") auto

definition remove :: "'a mem \<Rightarrow> iter \<Rightarrow> iter \<Rightarrow> 'a \<Rightarrow> ('a mem \<times> iter) option" where
  "remove m first last' val = do {
     first \<leftarrow> find_value m first last' val;
     if first \<noteq> last' then remove_loop m first first last' val else Some (m, first)
   }"

function remove_if_loop :: "'a mem \<Rightarrow> iter \<Rightarrow> iter \<Rightarrow> iter \<Rightarrow> ('a \<Rightarrow> bool) \<Rightarrow> ('a mem \<times> iter) option" where
  "remove_if_loop m first i last' pred =
     (let i = Suc i in
      if i \<noteq> last' then do {
        x \<leftarrow> rd m i;
        if \<not> pred x then do {
          m1 \<leftarrow> wr m first x;
          remove_if_loop m1 (Suc first) i last' pred
        } else remove_if_loop m first i last' pred
      } else Some (m, first))"
  by pat_completeness auto
termination
  by (relation "measure (\<lambda>(m, first, i, last', pred). length m - i)") auto

definition remove_if :: "'a mem \<Rightarrow> iter \<Rightarrow> iter \<Rightarrow> ('a \<Rightarrow> bool) \<Rightarrow> ('a mem \<times> iter) option" where
  "remove_if m first last' pred = do {
     first \<leftarrow> find_if m first last' pred;
     if first \<noteq> last' then remove_if_loop m first first last' pred else Some (m, first)
   }"

function unique_loop :: "'a mem \<Rightarrow> iter \<Rightarrow> iter \<Rightarrow> iter \<Rightarrow> ('a \<Rightarrow> 'a \<Rightarrow> bool) \<Rightarrow> ('a mem \<times> iter \<times> iter) option" where
  "unique_loop m first i last' pred =
     (let i = Suc i in
      if i \<noteq> last' then do {
        x \<leftarrow> rd m first;
        y \<leftarrow> rd m i;
        if \<not> pred x y then do {
          m1 \<leftarrow> wr m (Suc first) y;
          unique_loop m1 (Suc first) i last' pred
        } else unique_loop m first i last' pred
      } else Some (m, Suc first, i))"
  by pat_completeness auto
termination
  by (relation "measure (\<lambda>(m, first, i, last', pred). length m - i)") auto

definition unique_impl :: "'a mem \<Rightarrow> iter \<Rightarrow> iter \<Rightarrow> ('a \<Rightarrow> 'a \<Rightarrow> bool) \<Rightarrow> ('a mem \<times> iter \<times> iter) option" where
  "unique_impl m first last' pred = do {
     first \<leftarrow> adjacent_find m first last' pred;
     if first \<noteq> last' then unique_loop m first (Suc first) last' pred
     else Some (m, first, first)
   }"

definition unique :: "'a mem \<Rightarrow> iter \<Rightarrow> iter \<Rightarrow> ('a \<Rightarrow> 'a \<Rightarrow> bool) \<Rightarrow> ('a mem \<times> iter) option" where
  "unique m first last' pred = do {
     (m, first, _) \<leftarrow> unique_impl m first last' pred;
     Some (m, first)
   }"

definition unique_eq :: "'a mem \<Rightarrow> iter \<Rightarrow> iter \<Rightarrow> ('a mem \<times> iter) option" where
  "unique_eq m first last' = unique m first last' equal_to_op"

subsection \<open>reverse, swap\_ranges\<close>

function reverse_bidirectional :: "'a mem \<Rightarrow> iter \<Rightarrow> iter \<Rightarrow> 'a mem option" where
  "reverse_bidirectional m first last' =
     (if first \<noteq> last' then
        (if last' = 0 then None
         else let last' = last' - 1 in
           if first = last' then Some m
           else do {
             m \<leftarrow> iter_swap m first last';
             reverse_bidirectional m (Suc first) last'
           })
      else Some m)"
  by pat_completeness auto
termination
  by (relation "measure (\<lambda>(m, first, last'). last')") auto

function reverse_random_loop :: "'a mem \<Rightarrow> iter \<Rightarrow> iter \<Rightarrow> 'a mem option" where
  "reverse_random_loop m first last' =
     (if last' = 0 then None
      else let last' = last' - 1 in
        if first < last' then do {
          m \<leftarrow> iter_swap m first last';
          reverse_random_loop m (Suc first) last'
        } else Some m)"
  by pat_completeness auto
termination
  by (relation "measure (\<lambda>(m, first, last'). last')") auto

definition reverse_random :: "'a mem \<Rightarrow> iter \<Rightarrow> iter \<Rightarrow> 'a mem option" where
  "reverse_random m first last' =
     (if first \<noteq> last' then reverse_random_loop m first last' else Some m)"

definition reverse_impl :: "bool \<Rightarrow> 'a mem \<Rightarrow> iter \<Rightarrow> iter \<Rightarrow> 'a mem option" where
  "reverse_impl ra m first last' =
     (if ra then reverse_random m first last' else reverse_bidirectional m first last')"

definition reverse :: "bool \<Rightarrow> 'a mem \<Rightarrow> iter \<Rightarrow> iter \<Rightarrow> 'a mem option" where
  "reverse ra m first last' = reverse_impl ra m first last'"

text \<open>Both ranges lie in one memory.\<close>

function swap_ranges_2 :: "'a mem \<Rightarrow> iter \<Rightarrow> iter \<Rightarrow> iter \<Rightarrow> iter \<Rightarrow> ('a mem \<times> iter \<times> iter) option" where
  "swap_ranges_2 m first1 last1 first2 last2 =
     (if first1 \<noteq> last1 \<and> first2 \<noteq> last2 then do {
        m \<leftarrow> iter_swap m first1 first2;
        swap_ranges_2 m (Suc first1) last1 (Suc first2) last2
      } else Some (m, first1, first2))"
  by pat_completeness auto
termination
  by (relation "measure (\<lambda>(m, first1, last1, first2, last2). length m - first1)") auto

function swap_ranges_1 :: "'a mem \<Rightarrow> iter \<Rightarrow> iter \<Rightarrow> iter \<Rightarrow> ('a mem \<times> iter \<times> iter) option" where
  "swap_ranges_1 m first1 last1 first2 =
     (if first1 \<noteq> last1 then do {
        m \<leftarrow> iter_swap m first1 first2;
        swap_ranges_1 m (Suc first1) last1 (Suc first2)
      } else Some (m, first1, first2))"
  by pat_completeness auto
termination
  by (relation "measure (\<lambda>(m, first1, last1, first2). length m - first1)") auto

definition swap_ranges :: "'a mem \<Rightarrow> iter \<Rightarrow> iter \<Rightarrow> iter \<Rightarrow> ('a mem \<times> iter) option" where
  "swap_ranges m first1 last1 first2 = do {
     (m, _, r) \<leftarrow> swap_ranges_1 m first1 last1 first2;
     Some (m, r)
   }"

subsection \<open>rotate\<close>

definition rotate_left :: "'a mem \<Rightarrow> iter \<Rightarrow> iter \<Rightarrow> ('a mem \<times> iter) option" where
  "rotate_left m first last' = do {
     tmp \<leftarrow> rd m first;
     (m, _, lm1) \<leftarrow> move_impl m (Suc first) last' first;
     m \<leftarrow> wr m lm1 tmp;
     Some (m, lm1)
   }"

definition rotate_right :: "'a mem \<Rightarrow> iter \<Rightarrow> iter \<Rightarrow> ('a mem \<times> iter) option" where
  "rotate_right m first last' =
     (if last' = 0 then None
      else do {
        let lm1 = last' - 1;
        tmp \<leftarrow> rd m lm1;
        (m, _, fp1) \<leftarrow> move_backward_impl m first lm1 last';
        m \<leftarrow> wr m first tmp;
        Some (m, fp1)
      })"

text \<open>The two loops of \<^verbatim>\<open>__rotate_forward\<close>.\<close>

function rotate_forward_loop1 ::
    "'a mem \<Rightarrow> iter \<Rightarrow> iter \<Rightarrow> iter \<Rightarrow> iter \<Rightarrow> ('a mem \<times> iter \<times> iter) option" where
  "rotate_forward_loop1 m first middle i last' = do {
     m1 \<leftarrow> iter_swap m first i;
     let first = Suc first;
     let i = Suc i;
     if i = last' then Some (m1, first, middle)
     else rotate_forward_loop1 m1 first (if first = middle then i else middle) i last'
   }"
  by pat_completeness auto
termination
  by (relation "measure (\<lambda>(m, first, middle, i, last'). length m - first)") auto

function rotate_forward_loop2 :: "'a mem \<Rightarrow> iter \<Rightarrow> iter \<Rightarrow> iter \<Rightarrow> iter \<Rightarrow> 'a mem option" where
  "rotate_forward_loop2 m first middle i last' = do {
     m1 \<leftarrow> iter_swap m first i;
     let first = Suc first;
     let i = Suc i;
     if i = last' then
       (if first = middle then Some m1
        else rotate_forward_loop2 m1 first middle middle last')
     else rotate_forward_loop2 m1 first (if first = middle then i else middle) i last'
   }"
  by pat_completeness auto
termination
  by (relation "measure (\<lambda>(m, first, middle, i, last'). length m - first)") auto

definition rotate_forward :: "'a mem \<Rightarrow> iter \<Rightarrow> iter \<Rightarrow> iter \<Rightarrow> ('a mem \<times> iter) option" where
  "rotate_forward m first middle last' = do {
     (m, first, middle) \<leftarrow> rotate_forward_loop1 m first middle middle last';
     let r = first;
     if first \<noteq> middle then do {
       m \<leftarrow> rotate_forward_loop2 m first middle middle last';
       Some (m, r)
     } else Some (m, r)
   }"

text \<open>Division by zero is undefined; the caller never passes \<^verbatim>\<open>__y = 0\<close>.\<close>

function algo_gcd :: "nat \<Rightarrow> nat \<Rightarrow> nat option" where
  "algo_gcd x y =
     (if y = 0 then None
      else let t = x mod y in if t \<noteq> 0 then algo_gcd y t else Some y)"
  by pat_completeness auto
termination
  by (relation "measure snd") auto

text \<open>
  The inner loop of \<^verbatim>\<open>__rotate_gcd\<close> walks the cycle of \<open>p\<close>.  That it comes back to \<open>p\<close> is a fact of
  the arithmetic, so the loop carries fuel; \<open>last' - first\<close> rounds are enough.
\<close>

fun rotate_gcd_cycle ::
    "nat \<Rightarrow> 'a mem \<Rightarrow> iter \<Rightarrow> iter \<Rightarrow> nat \<Rightarrow> iter \<Rightarrow> iter \<Rightarrow> iter \<Rightarrow> ('a mem \<times> iter) option" where
  "rotate_gcd_cycle 0 m first last' m1 p p1 p2 = None"
| "rotate_gcd_cycle (Suc fuel) m first last' m1 p p1 p2 = do {
     x \<leftarrow> rd m p2;
     m' \<leftarrow> wr m p1 x;
     let p1 = p2;
     let d = last' - p2;
     let p2 = (if m1 < d then p2 + m1 else first + (m1 - d));
     if p2 \<noteq> p then rotate_gcd_cycle fuel m' first last' m1 p p1 p2 else Some (m', p1)
   }"

fun rotate_gcd_loop :: "'a mem \<Rightarrow> iter \<Rightarrow> iter \<Rightarrow> nat \<Rightarrow> nat \<Rightarrow> 'a mem option" where
  "rotate_gcd_loop m first last' m1 0 = Some m"
| "rotate_gcd_loop m first last' m1 (Suc k) = do {
     let p = first + k;
     t \<leftarrow> rd m p;
     (m, p1) \<leftarrow> rotate_gcd_cycle (last' - first) m first last' m1 p p (p + m1);
     m \<leftarrow> wr m p1 t;
     rotate_gcd_loop m first last' m1 k
   }"

definition rotate_gcd :: "'a mem \<Rightarrow> iter \<Rightarrow> iter \<Rightarrow> iter \<Rightarrow> ('a mem \<times> iter) option" where
  "rotate_gcd m first middle last' =
     (let m1 = middle - first; m2 = last' - middle in
      if m1 = m2 then do {
        (m, _, _) \<leftarrow> swap_ranges_2 m first middle middle last';
        Some (m, middle)
      } else do {
        g \<leftarrow> algo_gcd m1 m2;
        m \<leftarrow> rotate_gcd_loop m first last' m1 g;
        Some (m, first + m2)
      })"

text \<open>\<open>triv\<close>: the value type is trivially move assignable.\<close>

definition rotate_impl :: "category \<Rightarrow> bool \<Rightarrow> 'a mem \<Rightarrow> iter \<Rightarrow> iter \<Rightarrow> iter \<Rightarrow> ('a mem \<times> iter) option" where
  "rotate_impl cat triv m first middle last' =
     (case cat of
        Forward \<Rightarrow>
          if triv \<and> Suc first = middle then rotate_left m first last'
          else rotate_forward m first middle last'
      | Bidirectional \<Rightarrow>
          if triv \<and> Suc first = middle then rotate_left m first last'
          else if triv \<and> Suc middle = last' then rotate_right m first last'
          else rotate_forward m first middle last'
      | Random_Access \<Rightarrow>
          if triv \<and> Suc first = middle then rotate_left m first last'
          else if triv \<and> Suc middle = last' then rotate_right m first last'
          else if triv then rotate_gcd m first middle last'
          else rotate_forward m first middle last')"

definition rotate_pair ::
    "category \<Rightarrow> bool \<Rightarrow> 'a mem \<Rightarrow> iter \<Rightarrow> iter \<Rightarrow> iter \<Rightarrow> ('a mem \<times> iter \<times> iter) option" where
  "rotate_pair cat triv m first middle last' =
     (if first = middle then Some (m, last', last')
      else if middle = last' then Some (m, first, last')
      else do {
        (m, r) \<leftarrow> rotate_impl cat triv m first middle last';
        Some (m, r, last')
      })"

definition rotate_range ::
    "category \<Rightarrow> bool \<Rightarrow> 'a mem \<Rightarrow> iter \<Rightarrow> iter \<Rightarrow> iter \<Rightarrow> ('a mem \<times> iter) option" where
  "rotate_range cat triv m first middle last' = do {
     (m, r, _) \<leftarrow> rotate_pair cat triv m first middle last';
     Some (m, r)
   }"

subsection \<open>shift\_left, shift\_right\<close>

text \<open>
  The number of positions is not negative, a precondition of both.  The result \<open>None\<close> of
  \<open>shift_advance\<close> is the early return of its callers.
\<close>

fun shift_advance :: "iter \<Rightarrow> iter \<Rightarrow> nat \<Rightarrow> iter option" where
  "shift_advance m last' 0 = Some m"
| "shift_advance m last' (Suc n) = (if m = last' then None else shift_advance (Suc m) last' n)"

definition shift_left_random :: "'a mem \<Rightarrow> iter \<Rightarrow> iter \<Rightarrow> nat \<Rightarrow> ('a mem \<times> iter) option" where
  "shift_left_random m first last' n =
     (if n \<ge> last' - first then Some (m, first)
      else move m (first + n) last' first)"

definition shift_left_forward :: "'a mem \<Rightarrow> iter \<Rightarrow> iter \<Rightarrow> nat \<Rightarrow> ('a mem \<times> iter) option" where
  "shift_left_forward m first last' n =
     (case shift_advance first last' n of
        None \<Rightarrow> Some (m, first)
      | Some k \<Rightarrow> move m k last' first)"

definition shift_left :: "category \<Rightarrow> 'a mem \<Rightarrow> iter \<Rightarrow> iter \<Rightarrow> nat \<Rightarrow> ('a mem \<times> iter) option" where
  "shift_left cat m first last' n =
     (if n = 0 then Some (m, last')
      else if cat = Random_Access then shift_left_random m first last' n
      else shift_left_forward m first last' n)"

definition shift_right_random :: "'a mem \<Rightarrow> iter \<Rightarrow> iter \<Rightarrow> nat \<Rightarrow> ('a mem \<times> iter) option" where
  "shift_right_random m first last' n =
     (let d = last' - first in
      if n \<ge> d then Some (m, last')
      else move_backward m first (first + (d - n)) last')"

fun shift_right_back :: "iter \<Rightarrow> iter \<Rightarrow> nat \<Rightarrow> iter option" where
  "shift_right_back m first 0 = Some m"
| "shift_right_back m first (Suc n) = (if m = first then None else shift_right_back (m - 1) first n)"

definition shift_right_bidirectional :: "'a mem \<Rightarrow> iter \<Rightarrow> iter \<Rightarrow> nat \<Rightarrow> ('a mem \<times> iter) option" where
  "shift_right_bidirectional m first last' n =
     (case shift_right_back last' first n of
        None \<Rightarrow> Some (m, last')
      | Some k \<Rightarrow> move_backward m first k last')"

text \<open>The first loop stops with \<open>lead = last'\<close> or with \<open>trail = ret\<close>.\<close>

function shift_right_slide :: "iter \<Rightarrow> iter \<Rightarrow> iter \<Rightarrow> iter \<Rightarrow> iter \<times> iter" where
  "shift_right_slide trail lead ret last' =
     (if trail < ret \<and> lead \<noteq> last' then shift_right_slide (Suc trail) (Suc lead) ret last'
      else (trail, lead))"
  by pat_completeness auto
termination
  by (relation "measure (\<lambda>(trail, lead, ret, last'). ret - trail)") auto

function shift_right_swap ::
    "'a mem \<Rightarrow> iter \<Rightarrow> iter \<Rightarrow> iter \<Rightarrow> iter \<Rightarrow> iter \<Rightarrow> iter \<Rightarrow> ('a mem \<times> iter) option" where
  "shift_right_swap m first ret mid trail lead last' =
     (if lead = last' then do {
        (m, trail) \<leftarrow> move m mid ret trail;
        (m, _) \<leftarrow> move m first mid trail;
        Some (m, ret)
      } else do {
        m1 \<leftarrow> iter_swap m mid trail;
        let mid = Suc mid;
        let trail = Suc trail;
        let lead = Suc lead;
        shift_right_swap m1 first ret (if mid = ret then first else mid) trail lead last'
      })"
  by pat_completeness auto
termination
  by (relation "measure (\<lambda>(m, first, ret, mid, trail, lead, last'). length m - trail)") auto

definition shift_right_forward :: "'a mem \<Rightarrow> iter \<Rightarrow> iter \<Rightarrow> nat \<Rightarrow> ('a mem \<times> iter) option" where
  "shift_right_forward m first last' n =
     (case shift_advance first last' n of
        None \<Rightarrow> Some (m, last')
      | Some ret \<Rightarrow>
          let (trail, lead) = shift_right_slide first ret ret last' in
          if trail \<noteq> ret then do {
            (m, _) \<leftarrow> move m first trail ret;
            Some (m, ret)
          } else shift_right_swap m first ret first trail lead last')"

definition shift_right :: "category \<Rightarrow> 'a mem \<Rightarrow> iter \<Rightarrow> iter \<Rightarrow> nat \<Rightarrow> ('a mem \<times> iter) option" where
  "shift_right cat m first last' n =
     (if n = 0 then Some (m, first)
      else case cat of
        Random_Access \<Rightarrow> shift_right_random m first last' n
      | Bidirectional \<Rightarrow> shift_right_bidirectional m first last' n
      | Forward \<Rightarrow> shift_right_forward m first last' n)"

subsection \<open>partition\<close>

function partition_forward_loop :: "'a mem \<Rightarrow> iter \<Rightarrow> iter \<Rightarrow> iter \<Rightarrow> ('a \<Rightarrow> bool) \<Rightarrow> ('a mem \<times> iter \<times> iter) option" where
  "partition_forward_loop m first p last' pred =
     (let p = Suc p in
      if p \<noteq> last' then do {
        x \<leftarrow> rd m p;
        if pred x then do {
          m1 \<leftarrow> iter_swap m first p;
          partition_forward_loop m1 (Suc first) p last' pred
        } else partition_forward_loop m first p last' pred
      } else Some (m, first, p))"
  by pat_completeness auto
termination
  by (relation "measure (\<lambda>(m, first, p, last', pred). length m - p)") auto

text \<open>The first loop is the scan of \<^verbatim>\<open>find_if_not\<close>.\<close>

definition partition_forward :: "'a mem \<Rightarrow> iter \<Rightarrow> iter \<Rightarrow> ('a \<Rightarrow> bool) \<Rightarrow> ('a mem \<times> iter \<times> iter) option" where
  "partition_forward m first last' pred = do {
     first \<leftarrow> find_if_not m first last' pred;
     if first = last' then Some (m, first, first)
     else partition_forward_loop m first first last' pred
   }"

text \<open>The \<^verbatim>\<open>do ... while\<close> loop from the right; \<open>None\<close> inside the option when it meets \<open>first\<close>.\<close>

fun partition_back :: "'a mem \<Rightarrow> iter \<Rightarrow> iter \<Rightarrow> ('a \<Rightarrow> bool) \<Rightarrow> iter option option" where
  "partition_back m first last' pred =
     (if last' = 0 then None
      else let last' = last' - 1 in
        if first = last' then Some None
        else do {
          x \<leftarrow> rd m last';
          if \<not> pred x then partition_back m first last' pred else Some (Some last')
        })"

declare partition_back.simps [simp del]

lemma partition_back_bounds: "partition_back m f l pred = Some (Some k) \<Longrightarrow> k < l"
proof (induction m f l pred rule: partition_back.induct)
  case (1 m f l pred)
  then show ?case
    by (subst (asm) (2) partition_back.simps) (fastforce simp: bind_eq_Some_conv Let_def split: if_splits)
qed

function partition_bidirectional_loop ::
    "'a mem \<Rightarrow> iter \<Rightarrow> iter \<Rightarrow> iter \<Rightarrow> ('a \<Rightarrow> bool) \<Rightarrow> ('a mem \<times> iter \<times> iter) option" where
  "partition_bidirectional_loop m first last' original_last pred = do {
     first \<leftarrow> find_if_not m first last' pred;
     if first = last' then Some (m, first, original_last)
     else do {
       r \<leftarrow> partition_back m first last' pred;
       case r of
         None \<Rightarrow> Some (m, first, original_last)
       | Some last' \<Rightarrow> do {
           m \<leftarrow> iter_swap m first last';
           partition_bidirectional_loop m (Suc first) last' original_last pred
         }
     }
   }"
  by pat_completeness auto
termination
  by (relation "measure (\<lambda>(m, first, last', original_last, pred). last')") (auto dest: partition_back_bounds)

definition partition_impl ::
    "category \<Rightarrow> 'a mem \<Rightarrow> iter \<Rightarrow> iter \<Rightarrow> ('a \<Rightarrow> bool) \<Rightarrow> ('a mem \<times> iter \<times> iter) option" where
  "partition_impl cat m first last' pred =
     (if cat = Forward then partition_forward m first last' pred
      else partition_bidirectional_loop m first last' last' pred)"

definition partition_range ::
    "category \<Rightarrow> 'a mem \<Rightarrow> iter \<Rightarrow> iter \<Rightarrow> ('a \<Rightarrow> bool) \<Rightarrow> ('a mem \<times> iter) option" where
  "partition_range cat m first last' pred = do {
     (m, r, _) \<leftarrow> partition_impl cat m first last' pred;
     Some (m, r)
   }"

declare remove_loop.simps [simp del] remove_if_loop.simps [simp del] unique_loop.simps [simp del]
  reverse_bidirectional.simps [simp del] reverse_random_loop.simps [simp del]
  swap_ranges_1.simps [simp del] swap_ranges_2.simps [simp del]
  rotate_forward_loop1.simps [simp del] rotate_forward_loop2.simps [simp del] algo_gcd.simps [simp del]
  shift_right_slide.simps [simp del] shift_right_swap.simps [simp del]
  partition_forward_loop.simps [simp del] partition_bidirectional_loop.simps [simp del]

section \<open>remove and unique\<close>

lemma remove_if_loop_eq:
  assumes "f \<le> i" "i < l" "l \<le> length m"
  shows "remove_if_loop m f i l pred =
    (let ys = filter (\<lambda>x. \<not> pred x) (seg m (Suc i) l) in Some (put_at m f ys, f + length ys))"
  using assms
proof (induction "l - i" arbitrary: f i m)
  case (Suc n)
  note unfold = remove_if_loop.simps [of m f i l pred]
  show ?case
  proof (cases "Suc i = l")
    case True
    then show ?thesis by (simp add: unfold)
  next
    case False
    with Suc.hyps(1) [of "Suc i"] Suc.hyps(2) Suc.prems show ?thesis
      by (simp add: unfold mem_simps seg_Cons put_at_Cons Let_def)
  qed
qed simp

lemma remove_loop_eq: "remove_loop m f i l v = remove_if_loop m f i l (\<lambda>x. x = v)"
  by (induction m f i l v rule: remove_loop.induct)
    (subst remove_loop.simps, subst remove_if_loop.simps, auto simp: rd_def wr_def Let_def)

lemma put_at_prefix:
  assumes "a \<le> k" "k + length ys \<le> length m"
  shows "put_at m k ys = put_at m a (seg m a k @ ys)"
  using put_at_append [of a "seg m a k" ys m] put_at_seg_id [of a k m] assms by simp

lemma filter_takeWhile_id: "filter P (takeWhile P xs) = takeWhile P xs"
  by (induction xs) simp_all

lemma filter_prefix_end:
  assumes "a \<le> b" "b \<le> length m" "k = prefix_end m a b (\<lambda>x. \<not> pred x)"
  shows "filter (\<lambda>x. \<not> pred x) (seg m a b) = seg m a k @ filter (\<lambda>x. \<not> pred x) (seg m (Suc k) b)"
proof -
  have k: "a \<le> k" "k \<le> b" using prefix_end_bounds [OF assms(1,2)] assms(3) by auto
  have pre: "filter (\<lambda>x. \<not> pred x) (seg m a k) = seg m a k"
    unfolding assms(3) seg_prefix_end [OF assms(1,2)] by (rule filter_takeWhile_id)
  have "filter (\<lambda>x. \<not> pred x) (seg m k b) = filter (\<lambda>x. \<not> pred x) (seg m (Suc k) b)"
    using k assms prefix_end_out [of m a b "\<lambda>x. \<not> pred x"] by (cases "k = b") (auto simp: seg_Cons)
  then show ?thesis using seg_append [OF k, of m] pre by simp
qed

lemma remove_if_eq:
  assumes "a \<le> b" "b \<le> length m"
  shows "remove_if m a b pred =
    (let ys = filter (\<lambda>x. \<not> pred x) (seg m a b) in Some (put_at m a ys, a + length ys))"
proof -
  define k where "k = prefix_end m a b (\<lambda>x. \<not> pred x)"
  let ?ys = "filter (\<lambda>x. \<not> pred x) (seg m (Suc k) b)"
  have k: "a \<le> k" "k \<le> b" using prefix_end_bounds [OF assms] by (auto simp: k_def)
  have "length ?ys \<le> length (seg m (Suc k) b)" by (rule length_filter_le)
  then have len: "k + length ?ys \<le> length m" using k assms by (cases "k = b") auto
  have "remove_if m a b pred = Some (put_at m k ?ys, k + length ?ys)"
    using k assms remove_if_loop_eq [of k k b m pred] by (simp add: remove_if_def find_if_eq k_def [symmetric] Let_def)
  then show ?thesis
    using filter_prefix_end [OF assms k_def] put_at_prefix [OF k(1) len] k assms by (simp add: Let_def)
qed

lemma remove_eq: "remove m a b v = remove_if m a b (\<lambda>x. x = v)"
  unfolding remove_def remove_if_def find_value_eq remove_loop_eq ..

lemma unique_loop_eq:
  assumes "f < i" "i < l" "l \<le> length m"
  shows "unique_loop m f i l pred =
    (let ys = unique_from pred (m ! f) (seg m (Suc i) l) in Some (put_at m (Suc f) ys, Suc f + length ys, l))"
  using assms
proof (induction "l - i" arbitrary: f i m)
  case (Suc n)
  note unfold = unique_loop.simps [of m f i l pred]
  show ?case
  proof (cases "Suc i = l")
    case True
    then show ?thesis by (simp add: unfold)
  next
    case False
    with Suc.hyps(1) [of "Suc i"] Suc.hyps(2) Suc.prems show ?thesis
      by (simp add: unfold mem_simps seg_Cons put_at_Cons Let_def)
  qed
qed simp

lemma unique_list_prefix:
  assumes "a \<le> k" "k < b" "b \<le> length m" "\<forall>i. a \<le> i \<and> i < k \<longrightarrow> \<not> pred (m ! i) (m ! Suc i)"
  shows "unique_list pred (seg m a b) = seg m a (Suc k) @ unique_from pred (m ! k) (seg m (Suc k) b)"
  using assms
proof (induction a rule: inc_induct)
  case base
  then show ?case by (simp add: seg_Cons)
next
  case (step a)
  then have "seg m a b = m ! a # m ! Suc a # seg m (Suc (Suc a)) b" "seg m a (Suc k) = m ! a # seg m (Suc a) (Suc k)"
    "seg m (Suc a) b = m ! Suc a # seg m (Suc (Suc a)) b" "\<not> pred (m ! a) (m ! Suc a)"
    by (auto simp: seg_Cons)
  with step show ?case by simp
qed

lemma unique_all_distinct:
  assumes "a \<le> b" "b \<le> length m" "\<forall>i. a \<le> i \<and> Suc i < b \<longrightarrow> \<not> pred (m ! i) (m ! Suc i)"
  shows "unique_list pred (seg m a b) = seg m a b"
proof (cases "a = b")
  case False
  then obtain c where c: "b = Suc c" "a \<le> c" using assms by (cases b) auto
  then show ?thesis using unique_list_prefix [of a c b m pred] assms by simp
qed simp

lemma unique_impl_eq:
  assumes "a \<le> b" "b \<le> length m"
  shows "unique m a b pred =
    (let ys = unique_list pred (seg m a b) in Some (put_at m a ys, a + length ys))"
proof (cases "a = b")
  case True
  then show ?thesis by (simp add: unique_def unique_impl_def adjacent_find_def)
next
  case False
  then have lt: "a < b" using assms by simp
  obtain k where k: "adjacent_find_loop m a b a pred = Some k" "a \<le> k" "k \<le> b"
      "k < b \<longrightarrow> Suc k < b \<and> pred (m ! k) (m ! Suc k)"
      "\<forall>i. a \<le> i \<and> i < k \<and> Suc i < b \<longrightarrow> \<not> pred (m ! i) (m ! Suc i)"
    using adjacent_find_loop_spec [OF lt assms(2), of pred] by blast
  show ?thesis
  proof (cases "k = b")
    case True
    then have "unique_list pred (seg m a b) = seg m a b" using k(5) assms by (intro unique_all_distinct) auto
    with True k(1) lt assms show ?thesis
      by (simp add: unique_def unique_impl_def adjacent_find_def put_at_seg_id)
  next
    case False
    let ?ys = "unique_from pred (m ! k) (seg m (Suc (Suc k)) b)"
    have kb: "k < b" "Suc k < b" "pred (m ! k) (m ! Suc k)" using False k(3,4) by auto
    have "unique_list pred (seg m a b) = seg m a (Suc k) @ unique_from pred (m ! k) (seg m (Suc k) b)"
      using k kb assms by (intro unique_list_prefix) auto
    then have ul: "unique_list pred (seg m a b) = seg m a (Suc k) @ ?ys" using kb assms by (simp add: seg_Cons)
    have "length ?ys \<le> b - Suc (Suc k)" using length_unique_from [of pred "m ! k" "seg m (Suc (Suc k)) b"] assms by simp
    then have "put_at m (Suc k) ?ys = put_at m a (unique_list pred (seg m a b))"
      unfolding ul using k kb assms by (intro put_at_prefix) auto
    moreover have "Suc k + length ?ys = a + length (unique_list pred (seg m a b))" using ul k kb assms by simp
    ultimately show ?thesis using k(1) kb lt assms unique_loop_eq [of k "Suc k" b m pred]
      by (simp add: unique_def unique_impl_def adjacent_find_def Let_def)
  qed
qed

section \<open>reverse\<close>

lemma seg_update_after [simp]: "b \<le> i \<Longrightarrow> seg (m[i := x]) a b = seg m a b"
  by (cases "a \<le> i") (simp_all add: seg_def drop_update_swap)

lemma put_at_update_other:
  assumes "i < r \<or> r + length xs \<le> i" "r + length xs \<le> length m" "i < length m"
  shows "put_at (m[i := x]) r xs = (put_at m r xs)[i := x]"
  by (rule nth_equalityI) (use assms in \<open>auto simp: put_at_nth nth_list_update\<close>)

lemma swap_ends_rev:
  assumes "Suc a < b" "b \<le> length m"
  shows "put_at (m[a := m ! (b - 1), b - 1 := m ! a]) (Suc a) (rev (seg m (Suc a) (b - 1))) = put_at m a (rev (seg m a b))"
proof -
  let ?mid = "seg m (Suc a) (b - 1)" let ?m = "m[a := m ! (b - 1)]"
  have "seg m a b = m ! a # ?mid @ [m ! (b - 1)]"
    using assms seg_Cons [of a b m] seg_snoc [of "Suc a" "b - 1" m] by simp
  then have "put_at m a (rev (seg m a b)) = put_at ?m (Suc a) (rev ?mid @ [m ! a])"
    using assms put_at_Cons [of a m "m ! (b - 1)" "rev ?mid @ [m ! a]"] by simp
  also have "\<dots> = (put_at ?m (Suc a) (rev ?mid))[b - 1 := m ! a]"
    by (rule put_at_snoc [symmetric]) (use assms in auto)
  also have "\<dots> = put_at (?m[b - 1 := m ! a]) (Suc a) (rev ?mid)"
    by (rule put_at_update_other [symmetric]) (use assms in auto)
  finally show ?thesis by simp
qed

lemma reverse_bidirectional_eq:
  assumes "a \<le> b" "b \<le> length m"
  shows "reverse_bidirectional m a b = Some (put_at m a (rev (seg m a b)))"
  using assms
proof (induction "b - a" arbitrary: a b m rule: less_induct)
  case less
  note unfold = reverse_bidirectional.simps [of m a b]
  consider "a = b" | "Suc a = b" | "Suc a < b" using less.prems by linarith
  then show ?case
  proof cases
    case 1
    then show ?thesis by (simp add: reverse_bidirectional.simps [of m b])
  next
    case 2
    then have "put_at m a (rev (seg m a b)) = m" using less.prems put_at_seg_id [of a b m] by (simp add: seg_Cons)
    with 2 show ?thesis by (auto simp: unfold)
  next
    case 3
    let ?m = "m[a := m ! (b - 1), b - 1 := m ! a]"
    have "reverse_bidirectional ?m (Suc a) (b - 1) = Some (put_at ?m (Suc a) (rev (seg ?m (Suc a) (b - 1))))"
      by (rule less.hyps) (use 3 less.prems in auto)
    with 3 less.prems swap_ends_rev [OF 3 less.prems(2)] show ?thesis
      by (simp add: unfold mem_simps Let_def)
  qed
qed

lemma reverse_random_loop_eq:
  assumes "a \<le> b" "0 < b" "b \<le> length m"
  shows "reverse_random_loop m a b = Some (put_at m a (rev (seg m a b)))"
  using assms
proof (induction "b - a" arbitrary: a b m rule: less_induct)
  case less
  note unfold = reverse_random_loop.simps [of m a b]
  consider "b \<le> Suc a" | "Suc a < b" by linarith
  then show ?case
  proof cases
    case 1
    then have "put_at m a (rev (seg m a b)) = m"
      using less.prems put_at_seg_id [of a b m] by (cases "a = b") (auto simp: seg_Cons le_Suc_eq)
    with 1 less.prems show ?thesis by (auto simp: unfold Let_def)
  next
    case 2
    let ?m = "m[a := m ! (b - 1), b - 1 := m ! a]"
    have "reverse_random_loop ?m (Suc a) (b - 1) = Some (put_at ?m (Suc a) (rev (seg ?m (Suc a) (b - 1))))"
      by (rule less.hyps) (use 2 less.prems in auto)
    with 2 less.prems swap_ends_rev [OF 2 less.prems(3)] show ?thesis
      by (simp add: unfold mem_simps Let_def)
  qed
qed

lemma reverse_eq:
  "a \<le> b \<Longrightarrow> b \<le> length m \<Longrightarrow> reverse ra m a b = Some (put_at m a (rev (seg m a b)))"
  by (auto simp: reverse_def reverse_impl_def reverse_random_def reverse_bidirectional_eq reverse_random_loop_eq)

section \<open>swap\_ranges\<close>

definition swapped :: "'a mem \<Rightarrow> 'a mem \<Rightarrow> iter \<Rightarrow> iter \<Rightarrow> nat \<Rightarrow> bool" where
  "swapped m m' f1 f2 n \<longleftrightarrow> length m' = length m \<and>
     (\<forall>i. m' ! i = (if f1 \<le> i \<and> i < f1 + n then m ! (f2 + (i - f1))
                    else if f2 \<le> i \<and> i < f2 + n then m ! (f1 + (i - f2)) else m ! i))"

lemma swapped_Suc:
  assumes "swapped (m[f1 := m ! f2, f2 := m ! f1]) m' (Suc f1) (Suc f2) n"
    "f1 + Suc n \<le> f2 \<or> f2 + Suc n \<le> f1" "f1 + Suc n \<le> length m" "f2 + Suc n \<le> length m"
  shows "swapped m m' f1 f2 (Suc n)"
  unfolding swapped_def
proof (intro conjI allI)
  show "length m' = length m" using assms(1) by (simp add: swapped_def)
  fix i
  have *: "m' ! i = (if Suc f1 \<le> i \<and> i < Suc f1 + n then (m[f1 := m ! f2, f2 := m ! f1]) ! (Suc f2 + (i - Suc f1))
      else if Suc f2 \<le> i \<and> i < Suc f2 + n then (m[f1 := m ! f2, f2 := m ! f1]) ! (Suc f1 + (i - Suc f2))
      else (m[f1 := m ! f2, f2 := m ! f1]) ! i)"
    using assms(1) by (simp add: swapped_def)
  consider (1) "i = f1" | (2) "i = f2" | (in1) "f1 < i" "i < f1 + Suc n" | (in2) "f2 < i" "i < f2 + Suc n"
    | (out) "i < f1 \<or> f1 + Suc n \<le> i" "i < f2 \<or> f2 + Suc n \<le> i" by linarith
  then show "m' ! i = (if f1 \<le> i \<and> i < f1 + Suc n then m ! (f2 + (i - f1))
      else if f2 \<le> i \<and> i < f2 + Suc n then m ! (f1 + (i - f2)) else m ! i)"
  proof cases
    case 1
    with * assms(2-4) show ?thesis by (auto simp: nth_list_update)
  next
    case 2
    with * assms(2-4) show ?thesis by (auto simp: nth_list_update)
  next
    case in1
    then have "Suc f2 + (i - Suc f1) = f2 + (i - f1)" "f2 + (i - f1) \<noteq> f1" "f2 + (i - f1) \<noteq> f2"
      using assms(2) by auto
    with in1 show ?thesis by (simp add: *)
  next
    case in2
    then have "Suc f1 + (i - Suc f2) = f1 + (i - f2)" "f1 + (i - f2) \<noteq> f1" "f1 + (i - f2) \<noteq> f2"
      "\<not> (f1 < i \<and> i < f1 + Suc n)" "\<not> (f1 \<le> i \<and> i < f1 + Suc n)" "i \<noteq> f1"
      using assms(2) by auto
    with in2 show ?thesis by (auto simp: *)
  next
    case out
    then have "\<not> (f1 \<le> i \<and> i < f1 + Suc n)" "\<not> (f2 \<le> i \<and> i < f2 + Suc n)" "i \<noteq> f1" "i \<noteq> f2" by auto
    with out show ?thesis by (auto simp: *)
  qed
qed

lemma swap_ranges_1_spec:
  assumes "f1 + n \<le> f2 \<or> f2 + n \<le> f1" "f1 + n \<le> length m" "f2 + n \<le> length m"
  shows "\<exists>m'. swap_ranges_1 m f1 (f1 + n) f2 = Some (m', f1 + n, f2 + n) \<and> swapped m m' f1 f2 n"
  using assms
proof (induction n arbitrary: m f1 f2)
  case 0
  then show ?case by (auto simp: swap_ranges_1.simps [of m f1] swapped_def)
next
  case (Suc n)
  let ?m = "m[f1 := m ! f2, f2 := m ! f1]"
  obtain m' where "swap_ranges_1 ?m (Suc f1) (Suc f1 + n) (Suc f2) = Some (m', Suc f1 + n, Suc f2 + n)"
      "swapped ?m m' (Suc f1) (Suc f2) n"
    using Suc.IH [of "Suc f1" "Suc f2" ?m] Suc.prems by auto
  with Suc.prems swapped_Suc [of m f1 f2 m' n] show ?case
    by (simp add: swap_ranges_1.simps [of m f1] mem_simps)
qed

lemma swap_ranges_2_eq:
  "l1 - f1 = l2 - f2 \<Longrightarrow> f1 \<le> l1 \<Longrightarrow> f2 \<le> l2 \<Longrightarrow> swap_ranges_2 m f1 l1 f2 l2 = swap_ranges_1 m f1 l1 f2"
proof (induction m f1 l1 f2 l2 rule: swap_ranges_2.induct)
  case (1 m f1 l1 f2 l2)
  then show ?case
  proof (cases "f1 = l1")
    case True
    with 1 show ?thesis by (simp add: swap_ranges_2.simps [of m] swap_ranges_1.simps [of m])
  next
    case False
    with 1 show ?thesis
      by (subst swap_ranges_2.simps, subst swap_ranges_1.simps) (auto simp: iter_swap_def rd_def wr_def)
  qed
qed

section \<open>partition\<close>

definition split_at :: "('a \<Rightarrow> bool) \<Rightarrow> 'a mem \<Rightarrow> iter \<Rightarrow> iter \<Rightarrow> iter \<Rightarrow> bool" where
  "split_at pred m a k b \<longleftrightarrow> a \<le> k \<and> k \<le> b \<and>
     (\<forall>i. a \<le> i \<and> i < k \<longrightarrow> pred (m ! i)) \<and> (\<forall>i. k \<le> i \<and> i < b \<longrightarrow> \<not> pred (m ! i))"

lemma partition_forward_loop_spec:
  assumes "f \<le> p" "p < l" "l \<le> length m" "\<forall>i. f \<le> i \<and> i \<le> p \<longrightarrow> \<not> pred (m ! i)"
  shows "\<exists>m' k. partition_forward_loop m f p l pred = Some (m', k, l) \<and> permuted m m' f l \<and> split_at pred m' f k l"
  using assms
proof (induction "l - p" arbitrary: f p m)
  case (Suc n)
  note unfold = partition_forward_loop.simps [of m f p l pred]
  consider "Suc p = l" | "Suc p < l" "\<not> pred (m ! Suc p)" | "Suc p < l" "pred (m ! Suc p)" using Suc.prems by linarith
  then show ?case
  proof cases
    case 1
    with Suc.prems show ?thesis by (auto simp: unfold split_at_def less_Suc_eq_le)
  next
    case 2
    then have "\<forall>i. f \<le> i \<and> i \<le> Suc p \<longrightarrow> \<not> pred (m ! i)" using Suc.prems(4) by (auto simp: le_Suc_eq)
    with 2 Suc.hyps(1) [of "Suc p" f m] Suc.hyps(2) Suc.prems show ?thesis
      by (simp add: unfold mem_simps Let_def)
  next
    case 3
    let ?m = "m[f := m ! Suc p, Suc p := m ! f]"
    have n: "n = l - Suc p" using Suc.hyps(2) by simp
    have "\<forall>i. Suc f \<le> i \<and> i \<le> Suc p \<longrightarrow> \<not> pred (?m ! i)"
      using Suc.prems 3 by (auto simp: nth_list_update le_Suc_eq)
    then obtain m' k where m': "partition_forward_loop ?m (Suc f) (Suc p) l pred = Some (m', k, l)"
        "permuted ?m m' (Suc f) l" "split_at pred m' (Suc f) k l"
      using Suc.hyps(1) [OF n, of "Suc f" ?m] Suc.prems 3 by auto
    have "pred (m' ! f)" using permuted_nth [OF m'(2), of f] 3 Suc.prems by simp
    then have "split_at pred m' f k l"
      using m'(3) unfolding split_at_def by (metis Suc_leI le_eq_less_or_eq order_trans le_SucI Suc_leD)
    moreover have "permuted m m' f l"
      using permuted_trans [OF permuted_swap [of f f l "Suc p" m] permuted_mono [OF m'(2)]] Suc.prems 3 by simp
    ultimately show ?thesis using m'(1) 3 Suc.prems by (simp add: unfold mem_simps Let_def)
  qed
qed simp

lemma partition_back_spec:
  assumes "f < l" "l \<le> length m"
  shows "\<exists>r. partition_back m f l pred = Some r \<and>
    (case r of
       None \<Rightarrow> \<forall>i. f < i \<and> i < l \<longrightarrow> \<not> pred (m ! i)
     | Some k \<Rightarrow> f < k \<and> k < l \<and> pred (m ! k) \<and> (\<forall>i. k < i \<and> i < l \<longrightarrow> \<not> pred (m ! i)))"
  using assms
proof (induction l)
  case (Suc l)
  note unfold = partition_back.simps [of m f "Suc l" pred]
  consider "f = l" | "f < l" "pred (m ! l)" | "f < l" "\<not> pred (m ! l)" using Suc.prems by linarith
  then show ?case
  proof cases
    case 1
    then show ?thesis by (auto simp: partition_back.simps [of m l "Suc l"] Let_def)
  next
    case 2
    with Suc.prems show ?thesis by (auto simp: unfold Let_def mem_simps)
  next
    case 3
    with Suc.IH Suc.prems obtain r where "partition_back m f l pred = Some r"
      "case r of None \<Rightarrow> \<forall>i. f < i \<and> i < l \<longrightarrow> \<not> pred (m ! i)
       | Some k \<Rightarrow> f < k \<and> k < l \<and> pred (m ! k) \<and> (\<forall>i. k < i \<and> i < l \<longrightarrow> \<not> pred (m ! i))" by auto
    with 3 Suc.prems show ?thesis
      by (intro exI [of _ r]) (auto simp: unfold Let_def mem_simps less_Suc_eq split: option.splits)
  qed
qed simp

lemma partition_bidirectional_loop_spec:
  assumes "f \<le> l" "l \<le> length m"
  shows "\<exists>m' k. partition_bidirectional_loop m f l ol pred = Some (m', k, ol) \<and> permuted m m' f l \<and> split_at pred m' f k l"
  using assms
proof (induction "l - f" arbitrary: f l m rule: less_induct)
  case less
  define j where "j = prefix_end m f l pred"
  have j: "f \<le> j" "j \<le> l" using prefix_end_bounds [OF less.prems] by (auto simp: j_def)
  have scan: "find_if_not m f l pred = Some j" using find_if_not_eq [OF less.prems] by (simp add: j_def)
  have before: "pred (m ! i)" if "f \<le> i" "i < j" for i using prefix_end_in [of f i m l pred] that less.prems by (simp add: j_def)
  note unfold = partition_bidirectional_loop.simps [of m f l ol pred]
  show ?case
  proof (cases "j = l")
    case True
    with scan before less.prems show ?thesis by (auto simp: unfold split_at_def)
  next
    case False
    then have jl: "j < l" "\<not> pred (m ! j)" using j prefix_end_out [of m f l pred] less.prems by (auto simp: j_def)
    obtain r where r: "partition_back m j l pred = Some r"
      "case r of None \<Rightarrow> \<forall>i. j < i \<and> i < l \<longrightarrow> \<not> pred (m ! i)
       | Some k \<Rightarrow> j < k \<and> k < l \<and> pred (m ! k) \<and> (\<forall>i. k < i \<and> i < l \<longrightarrow> \<not> pred (m ! i))"
      using partition_back_spec [OF jl(1) less.prems(2), of pred] by blast
    show ?thesis
    proof (cases r)
      case None
      have "\<not> pred (m ! i)" if "j \<le> i" "i < l" for i using that jl r(2) None by (cases "i = j") auto
      then have "split_at pred m f j l" using before j by (simp add: split_at_def)
      with None r(1) scan False show ?thesis by (simp add: unfold)
    next
      case (Some k)
      then have k: "j < k" "k < l" "pred (m ! k)" "\<forall>i. k < i \<and> i < l \<longrightarrow> \<not> pred (m ! i)" using r(2) by auto
      let ?m = "m[j := m ! k, k := m ! j]"
      obtain m' q where m': "partition_bidirectional_loop ?m (Suc j) k ol pred = Some (m', q, ol)"
          "permuted ?m m' (Suc j) k" "split_at pred m' (Suc j) q k"
        using less.hyps [of k "Suc j" ?m] diff_less_mono2 [of f "Suc j" k] diff_le_mono [of k l f] k j less.prems by force
      have out: "m' ! i = ?m ! i" if "i \<le> j \<or> k \<le> i" for i using permuted_nth [OF m'(2), of i] that by auto
      have "pred (m' ! i)" if "f \<le> i" "i < q" for i
        using that before out [of i] k jl m'(3) less.prems
        by (cases "i = j"; cases "i < j") (auto simp: split_at_def nth_list_update)
      moreover have "\<not> pred (m' ! i)" if "q \<le> i" "i < l" for i
        using that out [of i] k jl m'(3) less.prems
        by (cases "i = k"; cases "i < k") (auto simp: split_at_def nth_list_update)
      ultimately have "split_at pred m' f q l" using m'(3) j k by (auto simp: split_at_def)
      moreover have "permuted m m' f l"
        using permuted_trans [OF permuted_swap [of f j l k m] permuted_mono [OF m'(2), of f l]] j k less.prems by simp
      ultimately show ?thesis using m'(1) Some r(1) scan False k less.prems
        by (intro exI [of _ m'] exI [of _ q]) (simp add: unfold mem_simps)
    qed
  qed
qed

lemma partition_range_spec:
  assumes "a \<le> b" "b \<le> length m"
  shows "\<exists>m' k. partition_range cat m a b pred = Some (m', k) \<and> permuted m m' a b \<and> split_at pred m' a k b"
proof (cases "cat = Forward")
  case True
  define j where "j = prefix_end m a b pred"
  have j: "a \<le> j" "j \<le> b" using prefix_end_bounds [OF assms] by (auto simp: j_def)
  have scan: "find_if_not m a b pred = Some j" using find_if_not_eq [OF assms] by (simp add: j_def)
  have before: "pred (m ! i)" if "a \<le> i" "i < j" for i using prefix_end_in [of a i m b pred] that assms by (simp add: j_def)
  show ?thesis
  proof (cases "j = b")
    case j': True
    with scan before assms True show ?thesis
      by (auto simp: partition_range_def partition_impl_def partition_forward_def split_at_def)
  next
    case False
    then have jb: "j < b" "\<not> pred (m ! j)" using j prefix_end_out [of m a b pred] assms by (auto simp: j_def)
    then have "\<forall>i. j \<le> i \<and> i \<le> j \<longrightarrow> \<not> pred (m ! i)" by auto
    from partition_forward_loop_spec [OF order_refl jb(1) assms(2) this] obtain m' k where
      m': "partition_forward_loop m j j b pred = Some (m', k, b)" "permuted m m' j b" "split_at pred m' j k b" by blast
    have "pred (m' ! i)" if "a \<le> i" "i < k" for i
      using that before [of i] permuted_nth [OF m'(2), of i] m'(3) by (cases "i < j") (auto simp: split_at_def)
    then have "split_at pred m' a k b" using m'(3) j by (auto simp: split_at_def)
    with m' permuted_mono [OF m'(2) j(1)] True False scan show ?thesis
      by (simp add: partition_range_def partition_impl_def partition_forward_def)
  qed
next
  case False
  then show ?thesis
    using partition_bidirectional_loop_spec [OF assms, of b pred] by (auto simp: partition_range_def partition_impl_def)
qed

section \<open>rotate\<close>

lemma put_at_overwrites: "r \<le> i \<Longrightarrow> i < r + length xs \<Longrightarrow> put_at (m[i := x]) r xs = put_at m r xs"
  by (simp add: put_at_def put_seg_def)

lemma rotate_left_eq:
  assumes "f < l" "l \<le> length m"
  shows "rotate_left m f l = Some (put_at m f (seg m (Suc f) l @ [m ! f]), f + (l - Suc f))"
proof -
  have "move_impl m (Suc f) l f = Some (put_at m f (seg m (Suc f) l), l, f + (l - Suc f))"
    using move_impl_up [of 0 "l - Suc f" m "Suc f" f] copy_ptr_up_eq [of 0 "l - Suc f" f "Suc f" m] assms by simp
  moreover have "(put_at m f (seg m (Suc f) l))[f + (l - Suc f) := m ! f] = put_at m f (seg m (Suc f) l @ [m ! f])"
    by (rule put_at_snoc) (use assms in auto)
  ultimately show ?thesis using assms by (simp add: rotate_left_def mem_simps)
qed

lemma rotate_right_eq:
  assumes "f < l" "l \<le> length m"
  shows "rotate_right m f l = Some (put_at m f (m ! (l - 1) # seg m f (l - 1)), Suc f)"
proof -
  have "move_backward_impl m f (l - 1) l = Some (put_at m (Suc f) (seg m f (l - 1)), f, Suc f)"
    using move_backward_impl_down [of m f "l - 1 - f" "Suc f"] copy_ptr_down_eq [of "l - 1 - f" "l - 1 - f" f "Suc f" m] assms
    by simp
  moreover have "(put_at m (Suc f) (seg m f (l - 1)))[f := m ! (l - 1)] = put_at m f (m ! (l - 1) # seg m f (l - 1))"
    by (rule put_at_before) (use assms in auto)
  ultimately show ?thesis using assms by (simp add: rotate_right_def mem_simps Let_def)
qed

text \<open>
  One step of \<^verbatim>\<open>__rotate_forward\<close>: \<open>[f, mid)\<close>, \<open>[mid, i)\<close>, \<open>[i, l)\<close> hold \<open>X\<close>, \<open>Y\<close>, \<open>Z\<close>, and
  \<open>Z @ Y @ X\<close> is what the range has to become.
\<close>

definition rotated :: "'a mem \<Rightarrow> iter \<Rightarrow> iter \<Rightarrow> iter \<Rightarrow> iter \<Rightarrow> 'a mem" where
  "rotated m f mid i l = put_at m f (seg m i l @ seg m mid i @ seg m f mid)"

lemma rotated_step:
  assumes "f < mid" "mid \<le> i" "i < l" "l \<le> length m"
  shows "rotated (m[f := m ! i, i := m ! f]) (Suc f) mid (Suc i) l = rotated m f mid i l"
proof -
  let ?m = "m[f := m ! i, i := m ! f]"
  let ?X = "seg m (Suc f) mid" let ?Y = "seg m mid i" let ?Z = "seg m (Suc i) l"
  have "seg ?m (Suc f) mid = ?X" "seg ?m mid i = ?Y" "seg ?m (Suc i) l = ?Z" using assms by simp_all
  then have s: "seg ?m (Suc i) l @ seg ?m mid (Suc i) @ seg ?m (Suc f) mid = ?Z @ (?Y @ [m ! f]) @ ?X"
    using assms seg_snoc [of mid i ?m] by simp
  have len: "length (?Z @ (?Y @ [m ! f]) @ ?X) = l - Suc f" using assms by simp
  have "rotated ?m (Suc f) mid (Suc i) l = put_at (m[f := m ! i]) (Suc f) (?Z @ (?Y @ [m ! f]) @ ?X)"
    unfolding rotated_def s by (rule put_at_overwrites) (use assms len in auto)
  also have "\<dots> = put_at m f (m ! i # ?Z @ (?Y @ [m ! f]) @ ?X)" using assms by (intro put_at_Cons) auto
  also have "m ! i # ?Z @ (?Y @ [m ! f]) @ ?X = seg m i l @ ?Y @ seg m f mid" using assms by (simp add: seg_Cons)
  finally show ?thesis by (simp add: rotated_def)
qed

lemma rotated_turn: "rotated m f mid l l = rotated m f mid mid l"
  by (simp add: rotated_def)

lemma rotated_jump: "rotated m mid mid i l = rotated m mid i i l"
  by (simp add: rotated_def)

lemma rotated_done: "mid \<le> l \<Longrightarrow> l \<le> length m \<Longrightarrow> rotated m mid mid l l = m"
  by (simp add: rotated_def put_at_seg_id)

lemma rotate_forward_loop2_eq:
  assumes "f < mid" "mid \<le> i" "i < l" "l \<le> length m"
  shows "rotate_forward_loop2 m f mid i l = Some (rotated m f mid i l)"
  using assms
proof (induction "l - f" arbitrary: f mid i m rule: less_induct)
  case less
  let ?m = "m[f := m ! i, i := m ! f]"
  note unfold = rotate_forward_loop2.simps [of m f mid i l]
  note step = rotated_step [OF less.prems]
  have IH: "rotate_forward_loop2 ?m (Suc f) mid' i' l = Some (rotated ?m (Suc f) mid' i' l)"
    if "Suc f < mid'" "mid' \<le> i'" "i' < l" for mid' i'
    by (rule less.hyps) (use that less.prems in auto)
  consider "Suc i = l" "Suc f = mid" | "Suc i = l" "Suc f < mid" | "Suc i < l" "Suc f = mid" | "Suc i < l" "Suc f < mid"
    using less.prems by linarith
  then show ?case
  proof cases
    case 1
    then have "rotated m f mid i l = ?m" using step rotated_done [of "Suc f" l ?m] less.prems by simp
    with 1 less.prems show ?thesis by (simp add: unfold mem_simps)
  next
    case 2
    then have "rotated m f mid i l = rotated ?m (Suc f) mid mid l" using step rotated_turn [of ?m "Suc f" mid l] by simp
    with 2 IH [of mid mid] less.prems show ?thesis by (simp add: unfold mem_simps)
  next
    case 3
    then have "rotated m f mid i l = rotated ?m (Suc f) (Suc i) (Suc i) l" using step rotated_jump [of ?m "Suc f" "Suc i" l] by simp
    with 3 IH [of "Suc i" "Suc i"] less.prems show ?thesis by (simp add: unfold mem_simps)
  next
    case 4
    with 4 IH [of mid "Suc i"] step less.prems show ?thesis by (simp add: unfold mem_simps)
  qed
qed

lemma rotate_forward_loop1_spec:
  assumes "f < mid" "mid \<le> i" "i < l" "l \<le> length m"
  shows "\<exists>m1 mid'. rotate_forward_loop1 m f mid i l = Some (m1, f + (l - i), mid') \<and> length m1 = length m \<and>
    f + (l - i) \<le> mid' \<and> mid' < l \<and> rotated m f mid i l = rotated m1 (f + (l - i)) mid' mid' l"
  using assms
proof (induction "l - i" arbitrary: f mid i m rule: less_induct)
  case less
  let ?m = "m[f := m ! i, i := m ! f]"
  note unfold = rotate_forward_loop1.simps [of m f mid i l]
  note step = rotated_step [OF less.prems]
  show ?case
  proof (cases "Suc i = l")
    case True
    then have "rotated m f mid i l = rotated ?m (Suc f) mid mid l"
      using step rotated_turn [of ?m "Suc f" mid l] by simp
    moreover have "f + (l - i) = Suc f" using True by auto
    ultimately show ?thesis using True less.prems by (simp add: unfold mem_simps)
  next
    case False
    let ?mid = "if Suc f = mid then Suc i else mid"
    have i: "Suc i < l" using False less.prems by simp
    have "rotated m f mid i l = rotated ?m (Suc f) ?mid (Suc i) l"
      using step rotated_jump [of ?m "Suc f" "Suc i" l] by (cases "Suc f = mid") auto
    moreover have "\<exists>m1 mid'. rotate_forward_loop1 ?m (Suc f) ?mid (Suc i) l = Some (m1, Suc f + (l - Suc i), mid') \<and>
        length m1 = length ?m \<and> Suc f + (l - Suc i) \<le> mid' \<and> mid' < l \<and>
        rotated ?m (Suc f) ?mid (Suc i) l = rotated m1 (Suc f + (l - Suc i)) mid' mid' l"
      by (rule less.hyps) (use i less.prems in auto)
    moreover have "Suc f + (l - Suc i) = f + (l - i)" using i by simp
    ultimately show ?thesis using False less.prems by (simp add: unfold mem_simps)
  qed
qed

lemma rotate_forward_eq:
  assumes "f < k" "k < l" "l \<le> length m"
  shows "rotate_forward m f k l = Some (put_at m f (seg m k l @ seg m f k), f + (l - k))"
proof -
  obtain m1 k' where m1: "rotate_forward_loop1 m f k k l = Some (m1, f + (l - k), k')" "length m1 = length m"
    "f + (l - k) \<le> k'" "k' < l" "rotated m f k k l = rotated m1 (f + (l - k)) k' k' l"
    using rotate_forward_loop1_spec [of f k k l m] assms by auto
  have goal: "put_at m f (seg m k l @ seg m f k) = rotated m f k k l" by (simp add: rotated_def)
  show ?thesis
  proof (cases "f + (l - k) = k'")
    case True
    then have "rotated m1 (f + (l - k)) k' k' l = m1"
      using rotated_turn [of m1 k' k' l] rotated_done [of k' l m1] m1 assms by simp
    with True m1 show ?thesis unfolding goal by (simp add: rotate_forward_def)
  next
    case False
    with m1 show ?thesis
      unfolding goal using rotate_forward_loop2_eq [of "f + (l - k)" k' k' l m1] assms by (simp add: rotate_forward_def)
  qed
qed

subsection \<open>The cycles of the gcd version\<close>

lemma algo_gcd_eq: "0 < y \<Longrightarrow> algo_gcd x y = Some (gcd x y)"
proof (induction x y rule: algo_gcd.induct)
  case (1 x y)
  then show ?case
    by (subst algo_gcd.simps) (auto simp: Let_def gcd_non_0_nat [of y x])
qed

text \<open>\<open>orbit q d n i\<close> is the position reached from \<open>q\<close> after \<open>i\<close> steps of \<open>d\<close> modulo \<open>n\<close>.\<close>

definition orbit :: "nat \<Rightarrow> nat \<Rightarrow> nat \<Rightarrow> nat \<Rightarrow> nat" where
  "orbit q d n i = (q + i * d) mod n"

lemma orbit_Suc: "orbit q d n (Suc i) = (orbit q d n i + d) mod n"
proof -
  have "q + Suc i * d = q + i * d + d" by simp
  then show ?thesis unfolding orbit_def by (simp only: mod_add_left_eq)
qed

lemma orbit_inj:
  assumes "0 < n" "i < j" "j < n div gcd d n"
  shows "orbit q d n i \<noteq> orbit q d n j"
proof
  let ?g = "gcd d n"
  assume "orbit q d n i = orbit q d n j"
  then have "n dvd (q + j * d) - (q + i * d)"
    using assms(2) mod_eq_dvd_iff_nat [of "q + i * d" "q + j * d" n] by (simp add: orbit_def)
  then have "n dvd (j - i) * d" by (simp add: diff_mult_distrib)
  moreover have "n = ?g * (n div ?g)" "(j - i) * d = ?g * ((j - i) * (d div ?g))" "?g \<noteq> 0"
    using assms(1) by (simp_all add: mult.left_commute)
  ultimately have "n div ?g dvd (j - i) * (d div ?g)" by (metis dvd_times_left_cancel_iff)
  moreover have "coprime (n div ?g) (d div ?g)"
    using assms(1) div_gcd_coprime [of d n] by (simp add: coprime_commute)
  ultimately have "n div ?g dvd j - i" by (simp add: coprime_dvd_mult_left_iff)
  with assms show False by (simp add: nat_dvd_not_less)
qed

lemma orbit_0: "q < n \<Longrightarrow> orbit q d n 0 = q"
  by (simp add: orbit_def)

lemma orbit_period: "q < n \<Longrightarrow> orbit q d n (n div gcd d n) = q"
proof -
  assume q: "q < n"
  have "(n div gcd d n) * d = n * (d div gcd d n)"
    by (metis div_mult_swap dvd_div_mult gcd_dvd1 gcd_dvd2)
  then show ?thesis using q by (simp add: orbit_def)
qed

lemma orbit_range:
  assumes "q < gcd d n" "0 < n"
  shows "orbit q d n ` {..<n div gcd d n} = {j. j < n \<and> j mod gcd d n = q}"
proof (rule card_seteq)
  let ?g = "gcd d n" let ?N = "n div ?g"
  show "finite {j. j < n \<and> j mod ?g = q}" by simp
  show "orbit q d n ` {..<?N} \<subseteq> {j. j < n \<and> j mod ?g = q}"
  proof
    fix j assume "j \<in> orbit q d n ` {..<?N}"
    then obtain i where j: "j = (q + i * d) mod n" by (auto simp: orbit_def)
    have "j mod ?g = (q + i * d) mod ?g" unfolding j by (rule mod_mod_cancel) simp
    also have "i * d = ?g * (i * (d div ?g))" by (simp add: mult.left_commute)
    also have "(q + ?g * (i * (d div ?g))) mod ?g = q" using assms(1) by (simp only: mod_mult_self2 mod_less)
    finally show "j \<in> {j. j < n \<and> j mod ?g = q}" using assms j by simp
  qed
  have "{j. j < n \<and> j mod ?g = q} \<subseteq> (\<lambda>s. q + ?g * s) ` {..<?N}"
  proof
    fix j assume j: "j \<in> {j. j < n \<and> j mod ?g = q}"
    then have "j = q + ?g * (j div ?g)" using mod_mult_div_eq [of j ?g] by simp
    moreover have "j div ?g < ?N" using j by (intro less_mult_imp_div_less) simp
    ultimately show "j \<in> (\<lambda>s. q + ?g * s) ` {..<?N}" by blast
  qed
  then have "card {j. j < n \<and> j mod ?g = q} \<le> card ((\<lambda>s. q + ?g * s) ` {..<?N})" by (intro card_mono) auto
  also have "\<dots> \<le> ?N" using card_image_le [of "{..<?N}"] by simp
  also have "\<dots> = card (orbit q d n ` {..<?N})"
  proof (subst card_image)
    show "inj_on (orbit q d n) {..<?N}"
      by (rule inj_onI) (metis assms(2) lessThan_iff linorder_neqE_nat orbit_inj)
  qed simp
  finally show "card {j. j < n \<and> j mod ?g = q} \<le> card (orbit q d n ` {..<?N})" .
qed

text \<open>One element of a cycle moved: positions \<open>f + orbit t\<close> with \<open>t < i\<close> hold what was one step ahead.\<close>

definition cycled :: "'a mem \<Rightarrow> 'a mem \<Rightarrow> iter \<Rightarrow> nat \<Rightarrow> nat \<Rightarrow> nat set \<Rightarrow> bool" where
  "cycled m m' f d n A \<longleftrightarrow> length m' = length m \<and>
     (\<forall>x. m' ! x = (if f \<le> x \<and> x - f \<in> A then m ! (f + (x - f + d) mod n) else m ! x))"

lemma cycled_insert:
  assumes "cycled m m' f d n A" "f + j < length m" "j \<notin> A"
  shows "cycled m (m'[f + j := m ! (f + (j + d) mod n)]) f d n (insert j A)"
  using assms by (auto simp: cycled_def nth_list_update)

lemma rotate_gcd_cycle_spec:
  assumes "0 < d" "d < n" "f + n \<le> length m" "q < gcd d n" "N = n div gcd d n"
    "0 < i" "i < N" "N - i \<le> fuel" "cycled m m' f d n (orbit q d n ` {..<i - 1})"
  shows "\<exists>m''. rotate_gcd_cycle fuel m' f (f + n) d (f + q) (f + orbit q d n (i - 1)) (f + orbit q d n i) =
      Some (m'', f + orbit q d n (N - 1)) \<and> cycled m m'' f d n (orbit q d n ` {..<N - 1})"
  using assms(6-)
proof (induction "N - i" arbitrary: i m' fuel)
  case 0
  then show ?case by simp
next
  case (Suc r)
  let ?c = "orbit q d n"
  have n: "0 < n" using assms(2) by simp
  have lt: "?c t < n" for t using n by (simp add: orbit_def)
  have inj: "?c s \<noteq> ?c t" if "s < t" "t < N" for s t using orbit_inj [OF n that(1)] that(2) assms(5) by simp
  have len: "length m' = length m" using Suc.prems(4) by (simp add: cycled_def)
  obtain fuel' where fuel: "fuel = Suc fuel'" using Suc.prems(2,3) by (cases fuel) auto
  have "?c t \<noteq> ?c i \<and> ?c t \<noteq> ?c (i - 1)" if "t < i - 1" for t
    using that inj [of t i] inj [of t "i - 1"] Suc.prems(1,2) by simp
  then have fresh: "?c i \<notin> ?c ` {..<i - 1}" "?c (i - 1) \<notin> ?c ` {..<i - 1}" by (metis imageE lessThan_iff)+
  have "m' ! (f + ?c i) = m ! (f + ?c i)" using Suc.prems(4) fresh(1) by (simp add: cycled_def)
  moreover have ci: "?c i = (?c (i - 1) + d) mod n" using orbit_Suc [of q d n "i - 1"] Suc.prems(1) by simp
  ultimately have read: "m' ! (f + ?c i) = m ! (f + (?c (i - 1) + d) mod n)" by simp
  let ?m = "m'[f + ?c (i - 1) := m' ! (f + ?c i)]"
  have cyc: "cycled m ?m f d n (?c ` {..<i})"
  proof -
    have "{..<i} = insert (i - 1) {..<i - 1}" using Suc.prems(1) by auto
    then show ?thesis
      unfolding read using cycled_insert [OF Suc.prems(4) _ fresh(2)] lt [of "i - 1"] assms(3) by simp
  qed
  have next': "(if d < f + n - (f + ?c i) then f + ?c i + d else f + (d - (f + n - (f + ?c i)))) = f + ?c (Suc i)"
  proof (cases "?c i + d < n")
    case True
    then have "d < f + n - (f + ?c i)" by linarith
    with True show ?thesis by (simp add: orbit_Suc)
  next
    case False
    then have "(?c i + d) mod n = ?c i + d - n" using lt [of i] assms(2) by (simp add: le_mod_geq)
    moreover have "\<not> d < f + n - (f + ?c i)" using False by linarith
    ultimately show ?thesis using lt [of i] False by (simp add: orbit_Suc add.commute)
  qed
  have step: "rotate_gcd_cycle fuel m' f (f + n) d (f + q) (f + ?c (i - 1)) (f + ?c i) =
      (if ?c (Suc i) \<noteq> q then rotate_gcd_cycle fuel' ?m f (f + n) d (f + q) (f + ?c i) (f + ?c (Suc i))
       else Some (?m, f + ?c i))"
    using lt [of i] lt [of "i - 1"] assms(3) len unfolding fuel rotate_gcd_cycle.simps Let_def next'
    by (simp add: mem_simps)
  show ?case
  proof (cases "Suc i = N")
    case True
    then have "?c (Suc i) = q" using orbit_period [of q n d] assms(4,5) n
      by (metis gcd_le2_nat less_le_trans nat_neq_iff)
    moreover have "i = N - 1" using True by simp
    ultimately show ?thesis using step cyc by auto
  next
    case False
    then have "Suc i < N" using Suc.prems(2) by simp
    moreover from inj [OF _ this, of 0] have "?c (Suc i) \<noteq> q"
      using orbit_0 [of q n d] assms(4) gcd_le2_nat [of n d] n by (metis less_le_trans nat_neq_iff zero_less_Suc)
    ultimately show ?thesis
      using Suc.hyps(1) [of "Suc i" fuel' ?m] Suc.hyps(2) Suc.prems fuel step cyc by simp
  qed
qed

lemma cycled_trans:
  assumes "cycled m m' f d n A" "cycled m' m'' f d n B" "A \<inter> B = {}" "\<And>j. j \<in> B \<Longrightarrow> (j + d) mod n \<notin> A"
  shows "cycled m m'' f d n (A \<union> B)"
  unfolding cycled_def
proof (intro conjI allI)
  have 1: "m' ! x = (if f \<le> x \<and> x - f \<in> A then m ! (f + (x - f + d) mod n) else m ! x)" for x
    using assms(1) by (simp add: cycled_def)
  have 2: "m'' ! x = (if f \<le> x \<and> x - f \<in> B then m' ! (f + (x - f + d) mod n) else m' ! x)" for x
    using assms(2) by (simp add: cycled_def)
  show "length m'' = length m" using assms(1,2) by (simp add: cycled_def)
  fix x
  show "m'' ! x = (if f \<le> x \<and> x - f \<in> A \<union> B then m ! (f + (x - f + d) mod n) else m ! x)"
    using assms(3) assms(4) [of "x - f"] 1 [of "f + (x - f + d) mod n"] unfolding 2 [of x] 1 [of x] by auto
qed

lemma rotate_gcd_loop_spec:
  assumes "0 < d" "d < n" "f + n \<le> length m" "gcd d n \<le> n - d" "k \<le> gcd d n"
    "cycled m m' f d n {j. j < n \<and> k \<le> j mod gcd d n}"
  shows "\<exists>m''. rotate_gcd_loop m' f (f + n) d k = Some m'' \<and> cycled m m'' f d n {j. j < n}"
  using assms(5-)
proof (induction k arbitrary: m')
  case 0
  then show ?case by simp
next
  case (Suc q)
  let ?g = "gcd d n" let ?c = "orbit q d n" let ?N = "n div gcd d n"
  have q: "q < ?g" "q < n" "q + d < n" using Suc.prems(1) assms(2,4) gcd_le2_nat [of n d] by auto
  have len: "length m' = length m" using Suc.prems(2) by (simp add: cycled_def)
  have N: "1 < ?N"
  proof -
    have "?g \<le> d" using assms(1) by (intro gcd_le1_nat) simp
    then have "?g < n" using assms(2) by simp
    moreover have "n = ?N * ?g" by simp
    ultimately show ?thesis by (metis less_irrefl less_one linorder_neqE_nat mult.left_neutral mult_zero_left not_less_zero)
  qed
  have fu: "?N - 1 \<le> n" using div_le_dividend [of n ?g] by linarith
  have "cycled m' m' f d n (?c ` {..<1 - 1})" by (simp add: cycled_def)
  then obtain m1 where m1: "rotate_gcd_cycle n m' f (f + n) d (f + q) (f + ?c 0) (f + ?c 1) = Some (m1, f + ?c (?N - 1))"
      "cycled m' m1 f d n (?c ` {..<?N - 1})"
    using rotate_gcd_cycle_spec [OF assms(1,2) _ q(1) refl zero_less_one N fu, of f m' m'] assms(3) len by auto
  have c: "?c 0 = q" "?c 1 = q + d" using q by (simp_all add: orbit_def)
  have last: "(?c (?N - 1) + d) mod n = q" using orbit_Suc [of q d n "?N - 1"] orbit_period [OF q(2), of d] N by simp
  have lt: "?c (?N - 1) < n" using q by (simp add: orbit_def)
  let ?m2 = "m1[f + ?c (?N - 1) := m' ! (f + q)]"
  have fresh: "?c (?N - 1) \<notin> ?c ` {..<?N - 1}" using orbit_inj [of n _ "?N - 1" d q] N q(2) by fastforce
  have "{..<?N} = insert (?N - 1) {..<?N - 1}" using N by auto
  then have "?c ` {..<?N} = insert (?c (?N - 1)) (?c ` {..<?N - 1})" by (metis image_insert)
  then have m2: "cycled m' ?m2 f d n {j. j < n \<and> j mod ?g = q}"
    using cycled_insert [OF m1(2) _ fresh] orbit_range [OF q(1)] last lt len assms(3) q(2) by simp
  have same: "(j + d) mod n mod ?g = j mod ?g" for j
  proof -
    have "j + d = j + ?g * (d div ?g)" by simp
    then have "(j + d) mod ?g = j mod ?g" by (simp only: mod_mult_self2)
    moreover have "(j + d) mod n mod ?g = (j + d) mod ?g" by (rule mod_mod_cancel) simp
    ultimately show ?thesis by simp
  qed
  have "{j. j < n \<and> q \<le> j mod ?g} = {j. j < n \<and> Suc q \<le> j mod ?g} \<union> {j. j < n \<and> j mod ?g = q}" by auto
  moreover have "{j. j < n \<and> Suc q \<le> j mod ?g} \<inter> {j. j < n \<and> j mod ?g = q} = {}" by auto
  ultimately have "cycled m ?m2 f d n {j. j < n \<and> q \<le> j mod ?g}"
    using cycled_trans [OF Suc.prems(2) m2] same by simp
  with Suc.IH [of ?m2] Suc.prems(1) obtain m'' where
    "rotate_gcd_loop ?m2 f (f + n) d q = Some m''" "cycled m m'' f d n {j. j < n}" by auto
  moreover have "length m1 = length m" using m1(2) len by (simp add: cycled_def)
  ultimately show ?case
    using m1(1) len lt q assms(3) unfolding c by (simp add: mem_simps Let_def add.assoc)
qed

lemma cycled_rotated:
  assumes "cycled m m' f (k - f) (l - f) {j. j < l - f}" "f < k" "k < l" "l \<le> length m"
  shows "m' = put_at m f (seg m k l @ seg m f k)"
proof (rule nth_equalityI)
  show "length m' = length (put_at m f (seg m k l @ seg m f k))" using assms by (simp add: cycled_def)
  fix x assume "x < length m'"
  have x: "m' ! x = (if f \<le> x \<and> x < l then m ! (f + (x - f + (k - f)) mod (l - f)) else m ! x)"
    using assms by (auto simp: cycled_def)
  have put: "put_at m f (seg m k l @ seg m f k) ! x = (if f \<le> x \<and> x < l then (seg m k l @ seg m f k) ! (x - f) else m ! x)"
    using assms by (simp add: put_at_nth)
  consider "x < f \<or> l \<le> x" | "f \<le> x" "x - f < l - k" | "f \<le> x" "x < l" "l - k \<le> x - f" by linarith
  then show "m' ! x = put_at m f (seg m k l @ seg m f k) ! x"
  proof cases
    case 1
    then show ?thesis unfolding x put by auto
  next
    case 2
    then have "x - f + (k - f) < l - f" "x < l" "f + (x - f + (k - f)) = k + (x - f)" using assms by auto
    with 2 assms show ?thesis unfolding x put by (simp add: nth_append)
  next
    case 3
    have "(x - f + (k - f)) mod (l - f) = x - f + (k - f) - (l - f)"
      using 3 assms by (subst le_mod_geq) auto
    moreover have "f + (x - f + (k - f) - (l - f)) = f + (x - f - (l - k))" using 3 assms by simp
    ultimately show ?thesis unfolding x put using 3 assms by (simp add: nth_append)
  qed
qed

lemma rotate_gcd_eq:
  assumes "f < k" "k < l" "l \<le> length m"
  shows "rotate_gcd m f k l = Some (put_at m f (seg m k l @ seg m f k), f + (l - k))"
proof (cases "k - f = l - k")
  case True
  have k: "f + (k - f) = k" "k + (k - f) = l" using True assms by auto
  obtain m' where m': "swap_ranges_1 m f k k = Some (m', k, l)" "swapped m m' f k (k - f)"
    using swap_ranges_1_spec [of f "k - f" k m] k assms by auto
  have "m' = put_at m f (seg m k l @ seg m f k)"
  proof (rule nth_equalityI)
    show "length m' = length (put_at m f (seg m k l @ seg m f k))" using m'(2) assms by (simp add: swapped_def)
    show "m' ! x = put_at m f (seg m k l @ seg m f k) ! x" for x
      using m'(2) True k assms by (auto simp: swapped_def put_at_nth nth_append)
  qed
  with m' True k assms show ?thesis by (simp add: rotate_gcd_def swap_ranges_2_eq)
next
  case False
  let ?d = "k - f" let ?n = "l - f"
  have n: "0 < ?d" "?d < ?n" "f + ?n = l" "?n - ?d = l - k" using assms by auto
  have g: "gcd ?d (l - k) = gcd ?d ?n" using gcd_add2 [of ?d "l - k"] assms by simp
  have gle: "gcd ?d ?n \<le> ?n - ?d" unfolding g [symmetric] n(4) using assms by (intro gcd_le2_nat) simp
  have "j mod gcd ?d ?n < gcd ?d ?n" for j using n(1) by simp
  then have "{j. j < ?n \<and> gcd ?d ?n \<le> j mod gcd ?d ?n} = {}" by (auto simp: not_le)
  then have "cycled m m f ?d ?n {j. j < ?n \<and> gcd ?d ?n \<le> j mod gcd ?d ?n}" unfolding cycled_def by (simp only:) simp
  from rotate_gcd_loop_spec [OF n(1,2) _ gle order_refl this] obtain m' where
    "rotate_gcd_loop m f l ?d (gcd ?d ?n) = Some m'" "cycled m m' f ?d ?n {j. j < ?n}" using n assms by auto
  with cycled_rotated [OF this(2) assms] False g assms show ?thesis
    by (simp add: rotate_gcd_def algo_gcd_eq)
qed

lemma rotate_impl_eq:
  assumes "f < k" "k < l" "l \<le> length m"
  shows "rotate_impl cat triv m f k l = Some (put_at m f (seg m k l @ seg m f k), f + (l - k))"
proof -
  have left: "rotate_left m f l = Some (put_at m f (seg m k l @ seg m f k), f + (l - k))" if "Suc f = k"
    using rotate_left_eq [of f l m] that assms by (auto simp: seg_Cons)
  have right: "rotate_right m f l = Some (put_at m f (seg m k l @ seg m f k), f + (l - k))" if "Suc k = l"
  proof -
    have "l - 1 = k" "l - k = 1" "seg m k l = [m ! k]" using that assms by (auto simp: seg_Cons)
    then show ?thesis using rotate_right_eq [of f l m] assms by simp
  qed
  show ?thesis
    using left right rotate_forward_eq [OF assms] rotate_gcd_eq [OF assms]
    by (cases cat) (simp_all add: rotate_impl_def)
qed

lemma rotate_pair_eq:
  assumes "f \<le> k" "k \<le> l" "l \<le> length m"
  shows "rotate_pair cat triv m f k l = Some (put_at m f (seg m k l @ seg m f k), f + (l - k), l)"
proof -
  consider "f = k" | "f < k" "k = l" | "f < k" "k < l" using assms by linarith
  then show ?thesis
  proof cases
    case 1
    with assms show ?thesis by (simp add: rotate_pair_def put_at_seg_id)
  next
    case 2
    with assms show ?thesis by (simp add: rotate_pair_def put_at_seg_id)
  next
    case 3
    with assms rotate_impl_eq [OF 3 assms(3), of cat triv] show ?thesis by (simp add: rotate_pair_def)
  qed
qed

section \<open>shift\_left and shift\_right\<close>

lemma shift_advance_eq: "m \<le> l \<Longrightarrow> shift_advance m l n = (if n \<le> l - m then Some (m + n) else None)"
  by (induction m l n rule: shift_advance.induct) auto

lemma shift_right_back_eq: "f \<le> m \<Longrightarrow> shift_right_back m f n = (if n \<le> m - f then Some (m - n) else None)"
  by (induction m f n rule: shift_right_back.induct) auto

lemma shift_left_eq:
  assumes "a \<le> b" "b \<le> length m" "0 < n"
  shows "shift_left cat m a b n =
    (if n < b - a then Some (put_at m a (seg m (a + n) b), b - n) else Some (m, a))"
proof -
  have "move m (a + n) b a = Some (put_at m a (seg m (a + n) b), b - n)" if "n \<le> b - a"
    using move_eq [of "a + n" b m a] that assms by simp
  then show ?thesis
    using assms by (auto simp: shift_left_def shift_left_random_def shift_left_forward_def shift_advance_eq)
qed

text \<open>
  The scratch space \<open>[f, ret)\<close> of the forward version holds the \<open>n\<close> elements before \<open>trail\<close>, in
  cyclic order from \<open>mid\<close>.
\<close>

lemma shift_right_swap_eq:
  assumes "ret = f + n" "f \<le> mid" "mid < ret" "ret \<le> trail" "lead = trail + n" "lead \<le> l" "l \<le> length m"
    "length m = length m0" "seg m mid ret @ seg m f mid = seg m0 (trail - n) trail"
    "\<And>x. trail \<le> x \<Longrightarrow> m ! x = m0 ! x" "seg m ret trail = seg m0 f (trail - n)" "\<And>x. x < f \<Longrightarrow> m ! x = m0 ! x"
  shows "\<exists>m'. shift_right_swap m f ret mid trail lead l = Some (m', ret) \<and>
    seg m' ret l = seg m0 f (l - n) \<and> frame m0 m' f l"
  using assms
proof (induction "l - lead" arbitrary: m mid trail lead)
  case 0
  then have l: "lead = l" "l = trail + n" by auto
  note H = 0(2-)
  let ?m1 = "put_at m trail (seg m mid ret)"
  let ?m2 = "put_at ?m1 (trail + (ret - mid)) (seg m f mid)"
  have len: "trail + (ret - mid) + (mid - f) = l" using l H by auto
  have e1: "move m mid ret trail = Some (?m1, trail + (ret - mid))"
    by (rule move_eq) (use l H in auto)
  have s: "seg ?m1 f mid = seg m f mid"
    using frame_seg_out [OF frame_put_at [of trail "seg m mid ret" m], of mid f] l H by simp
  have e2: "move ?m1 f mid (trail + (ret - mid)) = Some (put_at ?m1 (trail + (ret - mid)) (seg ?m1 f mid), l)"
    using move_eq [of f mid ?m1 "trail + (ret - mid)"] l H len trans_le_add1 [of mid trail "ret - mid"] by simp
  have m2: "?m2 = put_at m trail (seg m0 (trail - n) trail)"
    using put_at_append [of trail "seg m mid ret" "seg m f mid" m] H l len by simp
  have run: "shift_right_swap m f ret mid trail lead l = Some (?m2, ret)"
    using l e1 e2 s by (simp add: shift_right_swap.simps [of m])
  have nn: "trail - n + n = trail" "f \<le> trail - n" using H by auto
  have "seg ?m2 ret l = seg ?m2 ret trail @ seg ?m2 trail l" using H l by (intro seg_append) auto
  also have "seg ?m2 ret trail = seg m0 f (trail - n)"
    unfolding m2 using frame_seg_out [OF frame_put_at [of trail "seg m0 (trail - n) trail" m], of trail ret] H l by simp
  also have "seg ?m2 trail l = seg m0 (trail - n) trail"
    unfolding m2 using seg_put_at [of trail "seg m0 (trail - n) trail" m] H l nn by simp
  also have "seg m0 f (trail - n) @ seg m0 (trail - n) trail = seg m0 f (l - n)"
    using seg_append [of f "trail - n" trail m0] nn l by simp
  finally have "seg ?m2 ret l = seg m0 f (l - n)" .
  moreover have "frame m0 ?m2 f l"
    unfolding m2 frame_def using H l nn by (auto simp: put_at_nth)
  ultimately show ?case using run by blast
next
  case (Suc r)
  note H = Suc(3-)
  let ?m = "m[mid := m ! trail, trail := m ! mid]"
  let ?mid = "if Suc mid = ret then f else Suc mid"
  have lead: "lead < l" "lead \<noteq> l" "r = l - Suc lead" using Suc.hyps(2) by auto
  have bounds: "mid < length m" "trail < length m" "mid < trail" using H lead by auto
  have head: "m ! mid = m0 ! (trail - n)" "seg m (Suc mid) ret @ seg m f mid = seg m0 (Suc (trail - n)) trail"
    using H(9) seg_Cons [of mid ret m] seg_Cons [of "trail - n" trail m0] H bounds by auto
  have "seg ?m (Suc mid) ret @ seg ?m f (Suc mid) = seg m (Suc mid) ret @ seg m f mid @ [m ! trail]"
    using seg_snoc [of f mid ?m] bounds H by simp
  also have "\<dots> = seg m0 (Suc trail - n) (Suc trail)"
    using head(2) seg_snoc [of "Suc (trail - n)" trail m0] H bounds by (simp add: Suc_diff_le)
  finally have cyc: "seg ?m ?mid ret @ seg ?m f ?mid = seg m0 (Suc trail - n) (Suc trail)" by auto
  have done': "seg ?m ret (Suc trail) = seg m0 f (Suc trail - n)"
    using seg_snoc [of ret trail ?m] seg_snoc [of f "trail - n" m0] H head(1) bounds by (simp add: Suc_diff_le)
  have "\<exists>m'. shift_right_swap ?m f ret ?mid (Suc trail) (Suc lead) l = Some (m', ret) \<and>
      seg m' ret l = seg m0 f (l - n) \<and> frame m0 m' f l"
    by (rule Suc.hyps(1)) (use H lead bounds cyc done' in auto)
  then show ?case using bounds lead by (simp add: shift_right_swap.simps [of m f] mem_simps Let_def)
qed

lemma shift_right_slide_eq:
  "trail \<le> ret \<Longrightarrow> lead \<le> l \<Longrightarrow>
     shift_right_slide trail lead ret l = (let k = min (ret - trail) (l - lead) in (trail + k, lead + k))"
proof (induction "ret - trail" arbitrary: trail lead)
  case 0
  then show ?case by (simp add: shift_right_slide.simps [of trail])
next
  case (Suc n)
  show ?case
  proof (cases "lead = l")
    case True
    then show ?thesis by (simp add: shift_right_slide.simps [of trail])
  next
    case False
    with Suc have "shift_right_slide trail lead ret l = shift_right_slide (Suc trail) (Suc lead) ret l"
      by (simp add: shift_right_slide.simps [of trail])
    also have "\<dots> = (let k = min (ret - Suc trail) (l - Suc lead) in (Suc trail + k, Suc lead + k))"
      using Suc False by (intro Suc.hyps(1)) auto
    finally show ?thesis using Suc False by (simp add: Let_def min_def) auto
  qed
qed

definition shifted_right :: "'a mem \<Rightarrow> 'a mem \<Rightarrow> iter \<Rightarrow> iter \<Rightarrow> nat \<Rightarrow> bool" where
  "shifted_right m m' a b n \<longleftrightarrow> seg m' (a + n) b = seg m a (b - n) \<and> frame m m' a b"

lemma shifted_right_put:
  assumes "a + n \<le> b" "b \<le> length m"
  shows "shifted_right m (put_at m (a + n) (seg m a (b - n))) a b n"
proof -
  have "a + n + length (seg m a (b - n)) = b" using assms by simp
  then show ?thesis
    using assms seg_put_at [of "a + n" "seg m a (b - n)" m] frame_mono [OF frame_put_at [of "a + n" "seg m a (b - n)" m], of a b]
    by (simp add: shifted_right_def)
qed

lemma shift_right_forward_spec:
  assumes "a \<le> b" "b \<le> length m" "0 < n" "n < b - a"
  shows "\<exists>m'. shift_right_forward m a b n = Some (m', a + n) \<and> shifted_right m m' a b n"
proof -
  let ?ret = "a + n"
  have adv: "shift_advance a b n = Some ?ret" using assms by (simp add: shift_advance_eq)
  have slide: "shift_right_slide a ?ret ?ret b = (let k = min n (b - ?ret) in (a + k, ?ret + k))"
    using shift_right_slide_eq [of a ?ret ?ret b] assms by simp
  show ?thesis
  proof (cases "b - ?ret < n")
    case True
    then have mv: "move m a (a + (b - ?ret)) ?ret = Some (put_at m ?ret (seg m a (b - n)), b)"
      using move_eq [of a "a + (b - ?ret)" m ?ret] assms by simp
    have "shift_right_slide a ?ret ?ret b = (a + (b - ?ret), b)" using slide True assms by simp
    moreover have "a + (b - ?ret) \<noteq> ?ret" using True by simp
    ultimately show ?thesis using adv mv assms shifted_right_put [of a n b m] by (simp add: shift_right_forward_def)
  next
    case False
    then have sl: "shift_right_slide a ?ret ?ret b = (?ret, ?ret + n)" using slide by simp
    have "\<exists>m'. shift_right_swap m a ?ret a ?ret (?ret + n) b = Some (m', ?ret) \<and>
        seg m' ?ret b = seg m a (b - n) \<and> frame m m' a b"
      by (rule shift_right_swap_eq [where n = n]) (use assms False in auto)
    with adv sl show ?thesis by (auto simp: shift_right_forward_def shifted_right_def)
  qed
qed

lemma shift_right_spec:
  assumes "a \<le> b" "b \<le> length m" "0 < n" "n < b - a"
  shows "\<exists>m'. shift_right cat m a b n = Some (m', a + n) \<and> shifted_right m m' a b n"
proof -
  have "move_backward m a (b - n) b = Some (put_at m (a + n) (seg m a (b - n)), a + n)"
    using move_backward_eq [of a "b - n" b m] assms by (simp add: add.commute)
  moreover have "a + (b - a - n) = b - n" using assms by simp
  ultimately show ?thesis
    using assms shift_right_forward_spec [OF assms] shifted_right_put [of a n b m]
    by (cases cat) (simp_all add: shift_right_def shift_right_random_def shift_right_bidirectional_def shift_right_back_eq)
qed

section \<open>Properties\<close>

text \<open>
  C22: \<^verbatim>\<open>rotate\<close> exchanges the two parts of the range and returns the new position of its first element,
  for every iterator category, whether it shifts by one, swaps blocks or follows the cycles of the
  greatest common divisor; nothing outside the range changes and the loops end.
\<close>

theorem rotate_correct:
  assumes "f \<le> k" "k \<le> l" "l \<le> length m"
  shows "rotate_range cat triv m f k l = Some (put_at m f (seg m k l @ seg m f k), f + (l - k))"
  using rotate_pair_eq [OF assms, of cat triv] by (simp add: rotate_range_def)

theorem rotate_correct_witness:
  "rotate_range Random_Access True [0, 1, 2, 3, 4, 5, 6 :: int] 1 3 7 = Some ([0, 3, 4, 5, 6, 1, 2], 5)"
  using rotate_correct [of 1 3 7 "[0, 1, 2, 3, 4, 5, 6 :: int]" Random_Access True]
  by (simp add: seg_def put_at_def put_seg_def)

text \<open>
  C23: \<^verbatim>\<open>partition\<close> rearranges the range so that the elements that satisfy the predicate come first and
  returns the end of them, in the forward and in the bidirectional version.
\<close>

theorem partition_correct:
  assumes "a \<le> b" "b \<le> length m"
  shows "\<exists>m' k. partition_range cat m a b pred = Some (m', k) \<and> permuted m m' a b \<and> a \<le> k \<and> k \<le> b \<and>
           (\<forall>x \<in> set (seg m' a k). pred x) \<and> (\<forall>x \<in> set (seg m' k b). \<not> pred x)"
proof -
  obtain m' k where "partition_range cat m a b pred = Some (m', k)" "permuted m m' a b" "split_at pred m' a k b"
    using partition_range_spec [OF assms] by blast
  then show ?thesis
    using assms permuted_length [of m m' a b] in_set_seg [of k m' _ a] in_set_seg [of b m' _ k]
    by (intro exI [of _ m'] exI [of _ k]) (auto simp: split_at_def)
qed

theorem partition_correct_witness:
  "\<exists>m' k. partition_range Bidirectional [9, 1, 8, 2, 7 :: int] 0 5 (\<lambda>x. x < 5) = Some (m', k) \<and>
     permuted [9, 1, 8, 2, 7] m' 0 5 \<and> 0 \<le> k \<and> k \<le> 5 \<and>
     (\<forall>x \<in> set (seg m' 0 k). x < 5) \<and> (\<forall>x \<in> set (seg m' k 5). \<not> x < 5)"
  by (rule partition_correct) simp_all

text \<open>
  \<^verbatim>\<open>remove_if\<close> keeps the elements that do not satisfy the predicate, in order, at the front of the
  range, and \<^verbatim>\<open>unique\<close> the first element of every run; both return the end of what they keep and
  leave the rest of the memory as it was.
\<close>

theorem remove_if_unique_correct:
  assumes "a \<le> b" "b \<le> length m"
  shows "remove_if m a b pred =
           Some (put_at m a (filter (\<lambda>x. \<not> pred x) (seg m a b)), a + length (filter (\<lambda>x. \<not> pred x) (seg m a b))) \<and>
         unique m a b eqv =
           Some (put_at m a (unique_list eqv (seg m a b)), a + length (unique_list eqv (seg m a b)))"
  using remove_if_eq [OF assms] unique_impl_eq [OF assms] by (simp add: Let_def)

theorem remove_if_unique_correct_witness:
  "remove_if [1, 5, 2, 6, 3 :: int] 0 5 (\<lambda>x. 4 < x) = Some ([1, 2, 3, 6, 3], 3) \<and>
   unique [1, 1, 2, 2, 1 :: int] 0 5 (=) = Some ([1, 2, 1, 2, 1], 3)"
  using remove_if_unique_correct [of 0 5 "[1, 5, 2, 6, 3 :: int]" "\<lambda>x. 4 < x" "(=)"]
    remove_if_unique_correct [of 0 5 "[1, 1, 2, 2, 1 :: int]" "\<lambda>x. 4 < x" "(=)"]
  by (simp add: seg_def put_at_def put_seg_def)

text \<open>
  \<^verbatim>\<open>shift_right\<close> by less than the length of the range moves every element \<open>n\<close> positions to the right,
  for all iterator categories (the forward version through a rotating scratch space), and returns
  the first shifted position.
\<close>

theorem shift_right_correct:
  assumes "a \<le> b" "b \<le> length m" "0 < n" "n < b - a"
  shows "\<exists>m'. shift_right cat m a b n = Some (m', a + n) \<and> seg m' (a + n) b = seg m a (b - n) \<and> frame m m' a b"
  using shift_right_spec [OF assms] by (simp add: shifted_right_def)

theorem shift_right_correct_witness:
  "\<exists>m'. shift_right Forward [1, 2, 3, 4, 5, 6, 7 :: int] 0 7 2 = Some (m', 0 + 2) \<and>
     seg m' (0 + 2) 7 = seg [1, 2, 3, 4, 5, 6, 7] 0 (7 - 2) \<and> frame [1, 2, 3, 4, 5, 6, 7] m' 0 7"
  by (rule shift_right_correct) simp_all

end
