(* ===== verification/Merge_Ops.thy ===== *)
theory Merge_Ops
  imports Copy_Ops Sort_Contract
begin

text \<open>
  Algorithms on two sorted ranges: \<^verbatim>\<open>merge.h\<close>, \<^verbatim>\<open>includes.h\<close>, \<^verbatim>\<open>set_union.h\<close>,
  \<^verbatim>\<open>set_intersection.h\<close>, \<^verbatim>\<open>set_difference.h\<close> and \<^verbatim>\<open>set_symmetric_difference.h\<close> of
  \<^verbatim>\<open>cuda/std/__algorithm\<close>.  The inputs are ranges of the memories \<open>s1\<close> and \<open>s2\<close>, the output
  goes to the memory \<open>m\<close>.

  Every loop is shown equal to a function on lists, and the list functions are characterised for
  every strict weak order by the elements of each equivalence class: which of them are kept, from
  which input, and in which order.
\<close>

section \<open>Definitions\<close>

function merge_impl ::
    "'a mem \<Rightarrow> iter \<Rightarrow> iter \<Rightarrow> 'a mem \<Rightarrow> iter \<Rightarrow> iter \<Rightarrow> 'a mem \<Rightarrow> iter \<Rightarrow> ('a \<Rightarrow> 'a \<Rightarrow> bool) \<Rightarrow> ('a mem \<times> iter) option" where
  "merge_impl s1 first1 last1 s2 first2 last2 m result cmp =
     (if first1 \<noteq> last1 then
        (if first2 = last2 then copy s1 first1 last1 m result
         else do {
           y \<leftarrow> rd s2 first2;
           x \<leftarrow> rd s1 first1;
           if cmp y x then do {
             m \<leftarrow> wr m result y;
             merge_impl s1 first1 last1 s2 (Suc first2) last2 m (Suc result) cmp
           } else do {
             m \<leftarrow> wr m result x;
             merge_impl s1 (Suc first1) last1 s2 first2 last2 m (Suc result) cmp
           }
         })
      else copy s2 first2 last2 m result)"
  by pat_completeness auto
termination
  by (relation "measure (\<lambda>(s1, first1, last1, s2, first2, last2, m, result, cmp). (length s1 - first1) + (length s2 - first2))") auto

definition merge ::
    "'a mem \<Rightarrow> iter \<Rightarrow> iter \<Rightarrow> 'a mem \<Rightarrow> iter \<Rightarrow> iter \<Rightarrow> 'a mem \<Rightarrow> iter \<Rightarrow> ('a \<Rightarrow> 'a \<Rightarrow> bool) \<Rightarrow> ('a mem \<times> iter) option" where
  "merge s1 first1 last1 s2 first2 last2 m result cmp = merge_impl s1 first1 last1 s2 first2 last2 m result cmp"

definition merge_less ::
    "'a::linorder mem \<Rightarrow> iter \<Rightarrow> iter \<Rightarrow> 'a mem \<Rightarrow> iter \<Rightarrow> iter \<Rightarrow> 'a mem \<Rightarrow> iter \<Rightarrow> ('a mem \<times> iter) option" where
  "merge_less s1 first1 last1 s2 first2 last2 m result = merge s1 first1 last1 s2 first2 last2 m result less_op"

function includes_impl ::
    "'a mem \<Rightarrow> iter \<Rightarrow> iter \<Rightarrow> 'b mem \<Rightarrow> iter \<Rightarrow> iter \<Rightarrow> ('c \<Rightarrow> 'c \<Rightarrow> bool) \<Rightarrow> ('a \<Rightarrow> 'c) \<Rightarrow> ('b \<Rightarrow> 'c) \<Rightarrow> bool option" where
  "includes_impl s1 first1 last1 s2 first2 last2 cmp proj1 proj2 =
     (if first2 \<noteq> last2 then
        (if first1 = last1 then Some False
         else do {
           y \<leftarrow> rd s2 first2;
           x \<leftarrow> rd s1 first1;
           if cmp (proj2 y) (proj1 x) then Some False
           else if \<not> cmp (proj1 x) (proj2 y)
           then includes_impl s1 (Suc first1) last1 s2 (Suc first2) last2 cmp proj1 proj2
           else includes_impl s1 (Suc first1) last1 s2 first2 last2 cmp proj1 proj2
         })
      else Some True)"
  by pat_completeness auto
termination
  by (relation "measure (\<lambda>(s1, first1, last1, s2, first2, last2, cmp, proj1, proj2). length s1 - first1)") auto

definition includes_range ::
    "'a mem \<Rightarrow> iter \<Rightarrow> iter \<Rightarrow> 'a mem \<Rightarrow> iter \<Rightarrow> iter \<Rightarrow> ('a \<Rightarrow> 'a \<Rightarrow> bool) \<Rightarrow> bool option" where
  "includes_range s1 first1 last1 s2 first2 last2 cmp = includes_impl s1 first1 last1 s2 first2 last2 cmp id id"

definition includes_less ::
    "'a::linorder mem \<Rightarrow> iter \<Rightarrow> iter \<Rightarrow> 'a mem \<Rightarrow> iter \<Rightarrow> iter \<Rightarrow> bool option" where
  "includes_less s1 first1 last1 s2 first2 last2 = includes_range s1 first1 last1 s2 first2 last2 less_op"

text \<open>
  The result of a set operation: the output memory and the three iterators of
  \<^verbatim>\<open>__set_union_result\<close> and its siblings.
\<close>

record 'a set_result =
  out_mem :: "'a mem"
  in1 :: iter
  in2 :: iter
  out :: iter

definition copy_tail1 :: "'a mem \<Rightarrow> iter \<Rightarrow> iter \<Rightarrow> iter \<Rightarrow> 'a mem \<Rightarrow> iter \<Rightarrow> 'a set_result option" where
  "copy_tail1 s1 first1 last1 first2 m result = do {
     (m, i, r) \<leftarrow> copy_impl s1 first1 last1 m result;
     Some \<lparr>out_mem = m, in1 = i, in2 = first2, out = r\<rparr>
   }"

definition copy_tail2 :: "iter \<Rightarrow> 'a mem \<Rightarrow> iter \<Rightarrow> iter \<Rightarrow> 'a mem \<Rightarrow> iter \<Rightarrow> 'a set_result option" where
  "copy_tail2 first1 s2 first2 last2 m result = do {
     (m, i, r) \<leftarrow> copy_impl s2 first2 last2 m result;
     Some \<lparr>out_mem = m, in1 = first1, in2 = i, out = r\<rparr>
   }"

function set_union_impl ::
    "'a mem \<Rightarrow> iter \<Rightarrow> iter \<Rightarrow> 'a mem \<Rightarrow> iter \<Rightarrow> iter \<Rightarrow> 'a mem \<Rightarrow> iter \<Rightarrow> ('a \<Rightarrow> 'a \<Rightarrow> bool) \<Rightarrow> 'a set_result option" where
  "set_union_impl s1 first1 last1 s2 first2 last2 m result cmp =
     (if first1 \<noteq> last1 then
        (if first2 = last2 then copy_tail1 s1 first1 last1 first2 m result
         else do {
           y \<leftarrow> rd s2 first2;
           x \<leftarrow> rd s1 first1;
           if cmp y x then do {
             m \<leftarrow> wr m result y;
             set_union_impl s1 first1 last1 s2 (Suc first2) last2 m (Suc result) cmp
           } else do {
             let first2 = (if \<not> cmp x y then Suc first2 else first2);
             m \<leftarrow> wr m result x;
             set_union_impl s1 (Suc first1) last1 s2 first2 last2 m (Suc result) cmp
           }
         })
      else copy_tail2 first1 s2 first2 last2 m result)"
  by pat_completeness auto
termination
  by (relation "measure (\<lambda>(s1, first1, last1, s2, first2, last2, m, result, cmp). (length s1 - first1) + (length s2 - first2))") auto

definition set_union ::
    "'a mem \<Rightarrow> iter \<Rightarrow> iter \<Rightarrow> 'a mem \<Rightarrow> iter \<Rightarrow> iter \<Rightarrow> 'a mem \<Rightarrow> iter \<Rightarrow> ('a \<Rightarrow> 'a \<Rightarrow> bool) \<Rightarrow> ('a mem \<times> iter) option" where
  "set_union s1 first1 last1 s2 first2 last2 m result cmp = do {
     r \<leftarrow> set_union_impl s1 first1 last1 s2 first2 last2 m result cmp;
     Some (out_mem r, out r)
   }"

definition set_union_less ::
    "'a::linorder mem \<Rightarrow> iter \<Rightarrow> iter \<Rightarrow> 'a mem \<Rightarrow> iter \<Rightarrow> iter \<Rightarrow> 'a mem \<Rightarrow> iter \<Rightarrow> ('a mem \<times> iter) option" where
  "set_union_less s1 first1 last1 s2 first2 last2 m result = set_union s1 first1 last1 s2 first2 last2 m result less_op"

function set_intersection_impl ::
    "'a mem \<Rightarrow> iter \<Rightarrow> iter \<Rightarrow> 'a mem \<Rightarrow> iter \<Rightarrow> iter \<Rightarrow> 'a mem \<Rightarrow> iter \<Rightarrow> ('a \<Rightarrow> 'a \<Rightarrow> bool) \<Rightarrow> 'a set_result option" where
  "set_intersection_impl s1 first1 last1 s2 first2 last2 m result cmp =
     (if first1 \<noteq> last1 \<and> first2 \<noteq> last2 then do {
        x \<leftarrow> rd s1 first1;
        y \<leftarrow> rd s2 first2;
        if cmp x y then set_intersection_impl s1 (Suc first1) last1 s2 first2 last2 m result cmp
        else if \<not> cmp y x then do {
          m \<leftarrow> wr m result x;
          set_intersection_impl s1 (Suc first1) last1 s2 (Suc first2) last2 m (Suc result) cmp
        } else set_intersection_impl s1 first1 last1 s2 (Suc first2) last2 m result cmp
      } else Some \<lparr>out_mem = m, in1 = last1, in2 = last2, out = result\<rparr>)"
  by pat_completeness auto
termination
  by (relation "measure (\<lambda>(s1, first1, last1, s2, first2, last2, m, result, cmp). (length s1 - first1) + (length s2 - first2))") auto

definition set_intersection ::
    "'a mem \<Rightarrow> iter \<Rightarrow> iter \<Rightarrow> 'a mem \<Rightarrow> iter \<Rightarrow> iter \<Rightarrow> 'a mem \<Rightarrow> iter \<Rightarrow> ('a \<Rightarrow> 'a \<Rightarrow> bool) \<Rightarrow> ('a mem \<times> iter) option" where
  "set_intersection s1 first1 last1 s2 first2 last2 m result cmp = do {
     r \<leftarrow> set_intersection_impl s1 first1 last1 s2 first2 last2 m result cmp;
     Some (out_mem r, out r)
   }"

definition set_intersection_less ::
    "'a::linorder mem \<Rightarrow> iter \<Rightarrow> iter \<Rightarrow> 'a mem \<Rightarrow> iter \<Rightarrow> iter \<Rightarrow> 'a mem \<Rightarrow> iter \<Rightarrow> ('a mem \<times> iter) option" where
  "set_intersection_less s1 first1 last1 s2 first2 last2 m result = do {
     r \<leftarrow> set_intersection_impl s1 first1 last1 s2 first2 last2 m result less_op;
     Some (out_mem r, out r)
   }"

function set_difference_impl ::
    "'a mem \<Rightarrow> iter \<Rightarrow> iter \<Rightarrow> 'a mem \<Rightarrow> iter \<Rightarrow> iter \<Rightarrow> 'a mem \<Rightarrow> iter \<Rightarrow> ('a \<Rightarrow> 'a \<Rightarrow> bool) \<Rightarrow>
      ('a mem \<times> iter \<times> iter) option" where
  "set_difference_impl s1 first1 last1 s2 first2 last2 m result cmp =
     (if first1 \<noteq> last1 \<and> first2 \<noteq> last2 then do {
        x \<leftarrow> rd s1 first1;
        y \<leftarrow> rd s2 first2;
        if cmp x y then do {
          m \<leftarrow> wr m result x;
          set_difference_impl s1 (Suc first1) last1 s2 first2 last2 m (Suc result) cmp
        } else if cmp y x then set_difference_impl s1 first1 last1 s2 (Suc first2) last2 m result cmp
        else set_difference_impl s1 (Suc first1) last1 s2 (Suc first2) last2 m result cmp
      } else copy_impl s1 first1 last1 m result)"
  by pat_completeness auto
termination
  by (relation "measure (\<lambda>(s1, first1, last1, s2, first2, last2, m, result, cmp). (length s1 - first1) + (length s2 - first2))") auto

definition set_difference ::
    "'a mem \<Rightarrow> iter \<Rightarrow> iter \<Rightarrow> 'a mem \<Rightarrow> iter \<Rightarrow> iter \<Rightarrow> 'a mem \<Rightarrow> iter \<Rightarrow> ('a \<Rightarrow> 'a \<Rightarrow> bool) \<Rightarrow> ('a mem \<times> iter) option" where
  "set_difference s1 first1 last1 s2 first2 last2 m result cmp = do {
     (m, _, r) \<leftarrow> set_difference_impl s1 first1 last1 s2 first2 last2 m result cmp;
     Some (m, r)
   }"

definition set_difference_less ::
    "'a::linorder mem \<Rightarrow> iter \<Rightarrow> iter \<Rightarrow> 'a mem \<Rightarrow> iter \<Rightarrow> iter \<Rightarrow> 'a mem \<Rightarrow> iter \<Rightarrow> ('a mem \<times> iter) option" where
  "set_difference_less s1 first1 last1 s2 first2 last2 m result = do {
     (m, _, r) \<leftarrow> set_difference_impl s1 first1 last1 s2 first2 last2 m result less_op;
     Some (m, r)
   }"

function set_symmetric_difference_impl ::
    "'a mem \<Rightarrow> iter \<Rightarrow> iter \<Rightarrow> 'a mem \<Rightarrow> iter \<Rightarrow> iter \<Rightarrow> 'a mem \<Rightarrow> iter \<Rightarrow> ('a \<Rightarrow> 'a \<Rightarrow> bool) \<Rightarrow> 'a set_result option" where
  "set_symmetric_difference_impl s1 first1 last1 s2 first2 last2 m result cmp =
     (if first1 \<noteq> last1 then
        (if first2 = last2 then copy_tail1 s1 first1 last1 first2 m result
         else do {
           x \<leftarrow> rd s1 first1;
           y \<leftarrow> rd s2 first2;
           if cmp x y then do {
             m \<leftarrow> wr m result x;
             set_symmetric_difference_impl s1 (Suc first1) last1 s2 first2 last2 m (Suc result) cmp
           } else if cmp y x then do {
             m \<leftarrow> wr m result y;
             set_symmetric_difference_impl s1 first1 last1 s2 (Suc first2) last2 m (Suc result) cmp
           } else set_symmetric_difference_impl s1 (Suc first1) last1 s2 (Suc first2) last2 m result cmp
         })
      else copy_tail2 first1 s2 first2 last2 m result)"
  by pat_completeness auto
termination
  by (relation "measure (\<lambda>(s1, first1, last1, s2, first2, last2, m, result, cmp). (length s1 - first1) + (length s2 - first2))") auto

definition set_symmetric_difference ::
    "'a mem \<Rightarrow> iter \<Rightarrow> iter \<Rightarrow> 'a mem \<Rightarrow> iter \<Rightarrow> iter \<Rightarrow> 'a mem \<Rightarrow> iter \<Rightarrow> ('a \<Rightarrow> 'a \<Rightarrow> bool) \<Rightarrow> ('a mem \<times> iter) option" where
  "set_symmetric_difference s1 first1 last1 s2 first2 last2 m result cmp = do {
     r \<leftarrow> set_symmetric_difference_impl s1 first1 last1 s2 first2 last2 m result cmp;
     Some (out_mem r, out r)
   }"

definition set_symmetric_difference_less ::
    "'a::linorder mem \<Rightarrow> iter \<Rightarrow> iter \<Rightarrow> 'a mem \<Rightarrow> iter \<Rightarrow> iter \<Rightarrow> 'a mem \<Rightarrow> iter \<Rightarrow> ('a mem \<times> iter) option" where
  "set_symmetric_difference_less s1 first1 last1 s2 first2 last2 m result =
     set_symmetric_difference s1 first1 last1 s2 first2 last2 m result less_op"

declare merge_impl.simps [simp del] includes_impl.simps [simp del] set_union_impl.simps [simp del]
  set_intersection_impl.simps [simp del] set_difference_impl.simps [simp del]
  set_symmetric_difference_impl.simps [simp del]

section \<open>The functions on lists\<close>

fun merge_list :: "('a \<Rightarrow> 'a \<Rightarrow> bool) \<Rightarrow> 'a list \<Rightarrow> 'a list \<Rightarrow> 'a list" where
  "merge_list cmp [] ys = ys"
| "merge_list cmp xs [] = xs"
| "merge_list cmp (x # xs) (y # ys) =
     (if cmp y x then y # merge_list cmp (x # xs) ys else x # merge_list cmp xs (y # ys))"

fun includes_list :: "('a \<Rightarrow> 'a \<Rightarrow> bool) \<Rightarrow> 'a list \<Rightarrow> 'a list \<Rightarrow> bool" where
  "includes_list cmp xs [] = True"
| "includes_list cmp [] ys = False"
| "includes_list cmp (x # xs) (y # ys) =
     (if cmp y x then False else if cmp x y then includes_list cmp xs (y # ys) else includes_list cmp xs ys)"

fun union_list :: "('a \<Rightarrow> 'a \<Rightarrow> bool) \<Rightarrow> 'a list \<Rightarrow> 'a list \<Rightarrow> 'a list" where
  "union_list cmp [] ys = ys"
| "union_list cmp xs [] = xs"
| "union_list cmp (x # xs) (y # ys) =
     (if cmp y x then y # union_list cmp (x # xs) ys
      else x # union_list cmp xs (if cmp x y then y # ys else ys))"

fun inter_list :: "('a \<Rightarrow> 'a \<Rightarrow> bool) \<Rightarrow> 'a list \<Rightarrow> 'a list \<Rightarrow> 'a list" where
  "inter_list cmp [] ys = []"
| "inter_list cmp xs [] = []"
| "inter_list cmp (x # xs) (y # ys) =
     (if cmp x y then inter_list cmp xs (y # ys)
      else if cmp y x then inter_list cmp (x # xs) ys else x # inter_list cmp xs ys)"

fun diff_list :: "('a \<Rightarrow> 'a \<Rightarrow> bool) \<Rightarrow> 'a list \<Rightarrow> 'a list \<Rightarrow> 'a list" where
  "diff_list cmp [] ys = []"
| "diff_list cmp xs [] = xs"
| "diff_list cmp (x # xs) (y # ys) =
     (if cmp x y then x # diff_list cmp xs (y # ys)
      else if cmp y x then diff_list cmp (x # xs) ys else diff_list cmp xs ys)"

fun sdiff_list :: "('a \<Rightarrow> 'a \<Rightarrow> bool) \<Rightarrow> 'a list \<Rightarrow> 'a list \<Rightarrow> 'a list" where
  "sdiff_list cmp [] ys = ys"
| "sdiff_list cmp xs [] = xs"
| "sdiff_list cmp (x # xs) (y # ys) =
     (if cmp x y then x # sdiff_list cmp xs (y # ys)
      else if cmp y x then y # sdiff_list cmp (x # xs) ys else sdiff_list cmp xs ys)"

lemma length_merge_list [simp]: "length (merge_list cmp xs ys) = length xs + length ys"
  by (induction cmp xs ys rule: merge_list.induct) auto

lemma length_list_ops:
  "length (union_list cmp xs ys) \<le> length xs + length ys" "length (inter_list cmp xs ys) \<le> length xs"
  "length (diff_list cmp xs ys) \<le> length xs" "length (sdiff_list cmp xs ys) \<le> length xs + length ys"
proof -
  show "length (union_list cmp xs ys) \<le> length xs + length ys"
    by (induction cmp xs ys rule: union_list.induct) (auto split: if_splits)
  show "length (inter_list cmp xs ys) \<le> length xs"
    by (induction cmp xs ys rule: inter_list.induct) auto
  show "length (diff_list cmp xs ys) \<le> length xs"
    by (induction cmp xs ys rule: diff_list.induct) auto
  show "length (sdiff_list cmp xs ys) \<le> length xs + length ys"
    by (induction cmp xs ys rule: sdiff_list.induct) auto
qed

lemma list_op_Nil2 [simp]:
  "merge_list cmp xs [] = xs" "union_list cmp xs [] = xs" "inter_list cmp xs [] = []"
  "diff_list cmp xs [] = xs" "sdiff_list cmp xs [] = xs"
  by (cases xs; simp)+

section \<open>The loops compute the list functions\<close>

lemma merge_impl_eq:
  assumes "f1 \<le> l1" "l1 \<le> length s1" "f2 \<le> l2" "l2 \<le> length s2" "r + (l1 - f1) + (l2 - f2) \<le> length m"
  shows "merge_impl s1 f1 l1 s2 f2 l2 m r cmp =
    (let xs = merge_list cmp (seg s1 f1 l1) (seg s2 f2 l2) in Some (put_at m r xs, r + length xs))"
  using assms
proof (induction "(l1 - f1) + (l2 - f2)" arbitrary: f1 f2 m r rule: less_induct)
  case less
  note unfold = merge_impl.simps [of s1 f1 l1 s2 f2 l2 m r cmp]
  show ?case
  proof (cases "f1 = l1 \<or> f2 = l2")
    case True
    with less.prems show ?thesis by (auto simp: unfold copy_eq)
  next
    case False
    with less.prems have "f1 < l1" "f2 < l2" "r < length m" by linarith+
    with less.prems show ?thesis
      by (simp add: unfold less.hyps mem_simps seg_Cons put_at_Cons Let_def)
  qed
qed

lemma copy_tail_eq:
  "f \<le> l \<Longrightarrow> l \<le> length s \<Longrightarrow> r + (l - f) \<le> length m \<Longrightarrow>
     copy_tail1 s f l f2 m r = Some \<lparr>out_mem = put_at m r (seg s f l), in1 = l, in2 = f2, out = r + (l - f)\<rparr>"
  "f \<le> l \<Longrightarrow> l \<le> length s \<Longrightarrow> r + (l - f) \<le> length m \<Longrightarrow>
     copy_tail2 f1 s f l m r = Some \<lparr>out_mem = put_at m r (seg s f l), in1 = f1, in2 = l, out = r + (l - f)\<rparr>"
  by (simp_all add: copy_tail1_def copy_tail2_def copy_impl_eq)

lemma set_union_impl_eq:
  assumes "f1 \<le> l1" "l1 \<le> length s1" "f2 \<le> l2" "l2 \<le> length s2"
    "r + length (union_list cmp (seg s1 f1 l1) (seg s2 f2 l2)) \<le> length m"
  shows "set_union_impl s1 f1 l1 s2 f2 l2 m r cmp =
    (let xs = union_list cmp (seg s1 f1 l1) (seg s2 f2 l2) in
     Some \<lparr>out_mem = put_at m r xs, in1 = l1, in2 = l2, out = r + length xs\<rparr>)"
  using assms
proof (induction "(l1 - f1) + (l2 - f2)" arbitrary: f1 f2 m r rule: less_induct)
  case less
  note unfold = set_union_impl.simps [of s1 f1 l1 s2 f2 l2 m r cmp]
  show ?case
  proof (cases "f1 = l1 \<or> f2 = l2")
    case True
    with less.prems show ?thesis by (auto simp: unfold copy_tail_eq)
  next
    case False
    with less.prems show ?thesis
      by (simp add: unfold less.hyps mem_simps seg_Cons put_at_Cons Let_def split: if_splits)
  qed
qed

lemma set_intersection_impl_eq:
  assumes "f1 \<le> l1" "l1 \<le> length s1" "f2 \<le> l2" "l2 \<le> length s2"
    "r + length (inter_list cmp (seg s1 f1 l1) (seg s2 f2 l2)) \<le> length m"
  shows "set_intersection_impl s1 f1 l1 s2 f2 l2 m r cmp =
    (let xs = inter_list cmp (seg s1 f1 l1) (seg s2 f2 l2) in
     Some \<lparr>out_mem = put_at m r xs, in1 = l1, in2 = l2, out = r + length xs\<rparr>)"
  using assms
proof (induction "(l1 - f1) + (l2 - f2)" arbitrary: f1 f2 m r rule: less_induct)
  case less
  note unfold = set_intersection_impl.simps [of s1 f1 l1 s2 f2 l2 m r cmp]
  show ?case
  proof (cases "f1 = l1 \<or> f2 = l2")
    case True
    with less.prems show ?thesis by (auto simp: unfold)
  next
    case False
    with less.prems show ?thesis
      by (simp add: unfold less.hyps mem_simps seg_Cons put_at_Cons Let_def split: if_splits)
  qed
qed

lemma set_difference_impl_eq:
  assumes "f1 \<le> l1" "l1 \<le> length s1" "f2 \<le> l2" "l2 \<le> length s2"
    "r + length (diff_list cmp (seg s1 f1 l1) (seg s2 f2 l2)) \<le> length m"
  shows "set_difference_impl s1 f1 l1 s2 f2 l2 m r cmp =
    (let xs = diff_list cmp (seg s1 f1 l1) (seg s2 f2 l2) in Some (put_at m r xs, l1, r + length xs))"
  using assms
proof (induction "(l1 - f1) + (l2 - f2)" arbitrary: f1 f2 m r rule: less_induct)
  case less
  note unfold = set_difference_impl.simps [of s1 f1 l1 s2 f2 l2 m r cmp]
  show ?case
  proof (cases "f1 = l1 \<or> f2 = l2")
    case True
    with less.prems show ?thesis by (auto simp: unfold copy_impl_eq)
  next
    case False
    with less.prems show ?thesis
      by (simp add: unfold less.hyps mem_simps seg_Cons put_at_Cons Let_def split: if_splits)
  qed
qed

lemma set_symmetric_difference_impl_eq:
  assumes "f1 \<le> l1" "l1 \<le> length s1" "f2 \<le> l2" "l2 \<le> length s2"
    "r + length (sdiff_list cmp (seg s1 f1 l1) (seg s2 f2 l2)) \<le> length m"
  shows "set_symmetric_difference_impl s1 f1 l1 s2 f2 l2 m r cmp =
    (let xs = sdiff_list cmp (seg s1 f1 l1) (seg s2 f2 l2) in
     Some \<lparr>out_mem = put_at m r xs, in1 = l1, in2 = l2, out = r + length xs\<rparr>)"
  using assms
proof (induction "(l1 - f1) + (l2 - f2)" arbitrary: f1 f2 m r rule: less_induct)
  case less
  note unfold = set_symmetric_difference_impl.simps [of s1 f1 l1 s2 f2 l2 m r cmp]
  show ?case
  proof (cases "f1 = l1 \<or> f2 = l2")
    case True
    with less.prems show ?thesis by (auto simp: unfold copy_tail_eq)
  next
    case False
    with less.prems show ?thesis
      by (simp add: unfold less.hyps mem_simps seg_Cons put_at_Cons Let_def split: if_splits)
  qed
qed

lemma includes_impl_eq:
  assumes "f1 \<le> l1" "l1 \<le> length s1" "f2 \<le> l2" "l2 \<le> length s2"
  shows "includes_impl s1 f1 l1 s2 f2 l2 cmp proj1 proj2 =
    Some (includes_list cmp (map proj1 (seg s1 f1 l1)) (map proj2 (seg s2 f2 l2)))"
  using assms
proof (induction f1 arbitrary: f2 rule: inc_induct)
  case base
  then show ?case by (cases "f2 = l2") (simp_all add: includes_impl.simps [of s1 l1] seg_Cons)
next
  case (step f1)
  then show ?case
    by (cases "f2 = l2") (simp_all add: includes_impl.simps [of s1 f1] seg_Cons mem_simps)
qed

section \<open>Equivalence classes\<close>

text \<open>The elements of a list that are equivalent to \<open>z\<close>, in order.\<close>

definition eq_class :: "('a \<Rightarrow> 'a \<Rightarrow> bool) \<Rightarrow> 'a \<Rightarrow> 'a list \<Rightarrow> 'a list" where
  "eq_class cmp z xs = filter (\<lambda>x. \<not> cmp z x \<and> \<not> cmp x z) xs"

lemma eq_class_simps [simp]:
  "eq_class cmp z [] = []"
  "eq_class cmp z (x # xs) = (if \<not> cmp z x \<and> \<not> cmp x z then x # eq_class cmp z xs else eq_class cmp z xs)"
  by (simp_all add: eq_class_def)

lemma set_list_ops:
  "set (merge_list cmp xs ys) = set xs \<union> set ys"
  "set (union_list cmp xs ys) \<subseteq> set xs \<union> set ys"
  "set (inter_list cmp xs ys) \<subseteq> set xs"
  "set (diff_list cmp xs ys) \<subseteq> set xs"
  "set (sdiff_list cmp xs ys) \<subseteq> set xs \<union> set ys"
proof -
  show "set (merge_list cmp xs ys) = set xs \<union> set ys"
    by (induction cmp xs ys rule: merge_list.induct) auto
  show "set (union_list cmp xs ys) \<subseteq> set xs \<union> set ys"
    by (induction cmp xs ys rule: union_list.induct) auto
  show "set (inter_list cmp xs ys) \<subseteq> set xs"
    by (induction cmp xs ys rule: inter_list.induct) auto
  show "set (diff_list cmp xs ys) \<subseteq> set xs"
    by (induction cmp xs ys rule: diff_list.induct) auto
  show "set (sdiff_list cmp xs ys) \<subseteq> set xs \<union> set ys"
    by (induction cmp xs ys rule: sdiff_list.induct) auto
qed

lemma two_lists_induct [case_names Nil1 Nil2 Cons_Cons]:
  assumes "\<And>ys. P [] ys" "\<And>xs. P xs []"
    "\<And>x xs y ys. P (x # xs) ys \<Longrightarrow> P xs (y # ys) \<Longrightarrow> P xs ys \<Longrightarrow> P (x # xs) (y # ys)"
  shows "P xs ys"
proof (induction "length xs + length ys" arbitrary: xs ys rule: less_induct)
  case less
  then show ?case using assms by (cases xs; cases ys) auto
qed

lemma mset_merge_list: "mset (merge_list cmp xs ys) = mset xs + mset ys"
  by (induction xs ys rule: two_lists_induct) auto

context strict_weak_order
begin

lemma class_below_empty:
  assumes "sorted_by cmp (x # xs)" "cmp y x" "\<not> cmp z y" "\<not> cmp y z"
  shows "eq_class cmp z (x # xs) = []"
proof -
  have "cmp z v" if "v \<in> set (x # xs)" for v
    using that assms less_le_trans le_less_trans by (metis set_ConsD sorted_by_simps(2))
  then show ?thesis by (auto simp: eq_class_def)
qed

lemma below_sorted:
  "sorted_by cmp (x # xs) \<Longrightarrow> \<not> cmp x y \<Longrightarrow> v \<in> set (x # xs) \<Longrightarrow> \<not> cmp v y"
  using neg_trans by (metis set_ConsD sorted_by_simps(2))

lemma merge_list_class:
  "sorted_by cmp xs \<Longrightarrow> sorted_by cmp ys \<Longrightarrow>
     eq_class cmp z (merge_list cmp xs ys) = eq_class cmp z xs @ eq_class cmp z ys"
proof (induction xs ys rule: two_lists_induct)
  case (Cons_Cons x xs y ys)
  then show ?case
    using class_below_empty [of x xs y z] by (cases "cmp y x") (auto split: if_splits)
qed auto

lemma heads_cases:
  assumes "sorted_by cmp (x # xs)" "sorted_by cmp (y # ys)"
  obtains "cmp y x" "\<not> cmp x y" "\<not> cmp z y \<and> \<not> cmp y z \<longrightarrow> eq_class cmp z (x # xs) = []"
  | "cmp x y" "\<not> cmp y x" "\<not> cmp z x \<and> \<not> cmp x z \<longrightarrow> eq_class cmp z (y # ys) = []"
  | "\<not> cmp x y" "\<not> cmp y x" "(\<not> cmp z x \<and> \<not> cmp x z) = (\<not> cmp z y \<and> \<not> cmp y z)"
proof -
  consider "cmp y x" "\<not> cmp x y" | "cmp x y" "\<not> cmp y x" | "\<not> cmp x y" "\<not> cmp y x" using asym by blast
  then show thesis
    using that class_below_empty [OF assms(1)] class_below_empty [OF assms(2)] neg_trans by cases blast+
qed

lemma union_list_class:
  "sorted_by cmp xs \<Longrightarrow> sorted_by cmp ys \<Longrightarrow>
     eq_class cmp z (union_list cmp xs ys) =
       eq_class cmp z xs @ drop (length (eq_class cmp z xs)) (eq_class cmp z ys)"
proof (induction xs ys rule: two_lists_induct)
  case (Cons_Cons x xs y ys)
  show ?case
    by (rule heads_cases [OF Cons_Cons.prems, of z]) (use Cons_Cons in \<open>auto split: if_splits\<close>)
qed auto

lemma inter_list_class:
  "sorted_by cmp xs \<Longrightarrow> sorted_by cmp ys \<Longrightarrow>
     eq_class cmp z (inter_list cmp xs ys) = take (length (eq_class cmp z ys)) (eq_class cmp z xs)"
proof (induction xs ys rule: two_lists_induct)
  case (Cons_Cons x xs y ys)
  show ?case
    by (rule heads_cases [OF Cons_Cons.prems, of z]) (use Cons_Cons in \<open>auto split: if_splits\<close>)
qed auto

lemma diff_list_class:
  "sorted_by cmp xs \<Longrightarrow> sorted_by cmp ys \<Longrightarrow>
     eq_class cmp z (diff_list cmp xs ys) = drop (length (eq_class cmp z ys)) (eq_class cmp z xs)"
proof (induction xs ys rule: two_lists_induct)
  case (Cons_Cons x xs y ys)
  show ?case
    by (rule heads_cases [OF Cons_Cons.prems, of z]) (use Cons_Cons in \<open>auto split: if_splits\<close>)
qed auto

lemma sdiff_list_class:
  "sorted_by cmp xs \<Longrightarrow> sorted_by cmp ys \<Longrightarrow>
     eq_class cmp z (sdiff_list cmp xs ys) =
       drop (length (eq_class cmp z ys)) (eq_class cmp z xs) @ drop (length (eq_class cmp z xs)) (eq_class cmp z ys)"
proof (induction xs ys rule: two_lists_induct)
  case (Cons_Cons x xs y ys)
  show ?case
    by (rule heads_cases [OF Cons_Cons.prems, of z]) (use Cons_Cons in \<open>auto split: if_splits\<close>)
qed auto

lemma includes_list_class:
  "sorted_by cmp xs \<Longrightarrow> sorted_by cmp ys \<Longrightarrow>
     includes_list cmp xs ys \<longleftrightarrow> (\<forall>z. length (eq_class cmp z ys) \<le> length (eq_class cmp z xs))"
proof (induction xs ys rule: two_lists_induct)
  case (Nil1 ys)
  then show ?case by (cases ys) (auto simp: irrefl intro: exI [of _ "hd ys"])
next
  case (Cons_Cons x xs y ys)
  consider "cmp y x" "\<not> cmp x y" | "cmp x y" "\<not> cmp y x" | "\<not> cmp x y" "\<not> cmp y x" using asym by blast
  then show ?case
  proof cases
    case 1
    have "eq_class cmp y (x # xs) = []" using class_below_empty [of x xs y y] 1 Cons_Cons.prems irrefl by blast
    with 1 show ?thesis using irrefl by (auto intro!: exI [of _ y])
  next
    case 2
    have "eq_class cmp z (y # ys) = []" if "\<not> cmp z x" "\<not> cmp x z" for z
      using class_below_empty [of y ys x z] that 2 Cons_Cons.prems by blast
    then have "length (eq_class cmp z (y # ys)) \<le> length (eq_class cmp z (x # xs)) \<longleftrightarrow>
        length (eq_class cmp z (y # ys)) \<le> length (eq_class cmp z xs)" for z
      by (cases "\<not> cmp z x \<and> \<not> cmp x z") (auto simp del: eq_class_simps(2) simp: eq_class_simps(2) [of _ _ x])
    with 2 Cons_Cons show ?thesis by (simp del: eq_class_simps)
  next
    case 3
    then have "(\<not> cmp z x \<and> \<not> cmp x z) = (\<not> cmp z y \<and> \<not> cmp y z)" for z using neg_trans by blast
    then have "length (eq_class cmp z (y # ys)) \<le> length (eq_class cmp z (x # xs)) \<longleftrightarrow>
        length (eq_class cmp z ys) \<le> length (eq_class cmp z xs)" for z by auto
    with 3 Cons_Cons show ?thesis by (simp del: eq_class_simps)
  qed
qed auto

lemma sorted_by_Cons_sub:
  "sorted_by cmp ws \<Longrightarrow> set ws \<subseteq> A \<Longrightarrow> \<forall>v \<in> A. \<not> cmp v x \<Longrightarrow> sorted_by cmp (x # ws)"
  by auto

lemma lower_head:
  assumes "sorted_by cmp (x # xs)" "sorted_by cmp (y # ys)"
  shows "\<not> cmp y x \<Longrightarrow> \<forall>v \<in> set (x # xs) \<union> set (y # ys). \<not> cmp v x"
    and "cmp y x \<Longrightarrow> \<forall>v \<in> set (x # xs) \<union> set (y # ys). \<not> cmp v y"
proof -
  note below = below_sorted [OF assms(1)] below_sorted [OF assms(2)]
  show "\<not> cmp y x \<Longrightarrow> \<forall>v \<in> set (x # xs) \<union> set (y # ys). \<not> cmp v x"
    using below(1) [OF irrefl] below(2) [of x] by blast
  show "cmp y x \<Longrightarrow> \<forall>v \<in> set (x # xs) \<union> set (y # ys). \<not> cmp v y"
    using below(1) [of y] below(2) [OF irrefl] asym by blast
qed

lemma sorted_merge_list:
  "sorted_by cmp xs \<Longrightarrow> sorted_by cmp ys \<Longrightarrow> sorted_by cmp (merge_list cmp xs ys)"
proof (induction xs ys rule: two_lists_induct)
  case (Cons_Cons x xs y ys)
  note lo = lower_head [OF Cons_Cons.prems]
  have ih: "sorted_by cmp (merge_list cmp (x # xs) ys)" "sorted_by cmp (merge_list cmp xs (y # ys))"
    "sorted_by cmp (merge_list cmp xs ys)" using Cons_Cons by simp_all
  have sub: "set (merge_list cmp a b) \<subseteq> set (x # xs) \<union> set (y # ys)"
    if "set a \<subseteq> set (x # xs)" "set b \<subseteq> set (y # ys)" for a b
    using set_list_ops(1) [of cmp a b] that by blast
  have 1: "sorted_by cmp (y # merge_list cmp (x # xs) ys)" if "cmp y x"
    by (rule sorted_by_Cons_sub [OF ih(1) sub lo(2)]) (use that asym in auto)
  have 2: "sorted_by cmp (x # merge_list cmp xs (y # ys))" if "\<not> cmp y x"
    by (rule sorted_by_Cons_sub [OF ih(2) sub lo(1)]) (use that asym in auto)
  show ?case using 1 2 ih by (simp del: sorted_by_simps)
qed auto

lemma sorted_union_list:
  "sorted_by cmp xs \<Longrightarrow> sorted_by cmp ys \<Longrightarrow> sorted_by cmp (union_list cmp xs ys)"
proof (induction xs ys rule: two_lists_induct)
  case (Cons_Cons x xs y ys)
  note lo = lower_head [OF Cons_Cons.prems]
  have ih: "sorted_by cmp (union_list cmp (x # xs) ys)" "sorted_by cmp (union_list cmp xs (y # ys))"
    "sorted_by cmp (union_list cmp xs ys)" using Cons_Cons by simp_all
  have sub: "set (union_list cmp a b) \<subseteq> set (x # xs) \<union> set (y # ys)"
    if "set a \<subseteq> set (x # xs)" "set b \<subseteq> set (y # ys)" for a b
    using set_list_ops(2) [of cmp a b] that by blast
  have 1: "sorted_by cmp (y # union_list cmp (x # xs) ys)" if "cmp y x"
    by (rule sorted_by_Cons_sub [OF ih(1) sub lo(2)]) (use that asym in auto)
  have 2: "sorted_by cmp (x # union_list cmp xs (y # ys))" if "\<not> cmp y x"
    by (rule sorted_by_Cons_sub [OF ih(2) sub lo(1)]) (use that asym in auto)
  have 3: "sorted_by cmp (x # union_list cmp xs ys)" if "\<not> cmp y x"
    by (rule sorted_by_Cons_sub [OF ih(3) sub lo(1)]) (use that asym in auto)
  show ?case using 1 2 3 ih by (simp del: sorted_by_simps)
qed auto

lemma sorted_inter_list:
  "sorted_by cmp xs \<Longrightarrow> sorted_by cmp ys \<Longrightarrow> sorted_by cmp (inter_list cmp xs ys)"
proof (induction xs ys rule: two_lists_induct)
  case (Cons_Cons x xs y ys)
  note lo = lower_head [OF Cons_Cons.prems]
  have ih: "sorted_by cmp (inter_list cmp (x # xs) ys)" "sorted_by cmp (inter_list cmp xs (y # ys))"
    "sorted_by cmp (inter_list cmp xs ys)" using Cons_Cons by simp_all
  have sub: "set (inter_list cmp a b) \<subseteq> set (x # xs) \<union> set (y # ys)"
    if "set a \<subseteq> set (x # xs)" "set b \<subseteq> set (y # ys)" for a b
    using set_list_ops(3) [of cmp a b] that by blast
  have 1: "sorted_by cmp (x # inter_list cmp xs ys)" if "\<not> cmp y x"
    by (rule sorted_by_Cons_sub [OF ih(3) sub lo(1)]) (use that asym in auto)
  show ?case using 1 ih by (simp del: sorted_by_simps)
qed auto

lemma sorted_diff_list:
  "sorted_by cmp xs \<Longrightarrow> sorted_by cmp ys \<Longrightarrow> sorted_by cmp (diff_list cmp xs ys)"
proof (induction xs ys rule: two_lists_induct)
  case (Cons_Cons x xs y ys)
  note lo = lower_head [OF Cons_Cons.prems]
  have ih: "sorted_by cmp (diff_list cmp (x # xs) ys)" "sorted_by cmp (diff_list cmp xs (y # ys))"
    "sorted_by cmp (diff_list cmp xs ys)" using Cons_Cons by simp_all
  have sub: "set (diff_list cmp a b) \<subseteq> set (x # xs) \<union> set (y # ys)"
    if "set a \<subseteq> set (x # xs)" "set b \<subseteq> set (y # ys)" for a b
    using set_list_ops(4) [of cmp a b] that by blast
  have 1: "sorted_by cmp (x # diff_list cmp xs (y # ys))" if "cmp x y"
    by (rule sorted_by_Cons_sub [OF ih(2) sub lo(1)]) (use that asym in auto)
  show ?case using 1 ih by (simp del: sorted_by_simps)
qed auto

lemma sorted_sdiff_list:
  "sorted_by cmp xs \<Longrightarrow> sorted_by cmp ys \<Longrightarrow> sorted_by cmp (sdiff_list cmp xs ys)"
proof (induction xs ys rule: two_lists_induct)
  case (Cons_Cons x xs y ys)
  note lo = lower_head [OF Cons_Cons.prems]
  have ih: "sorted_by cmp (sdiff_list cmp (x # xs) ys)" "sorted_by cmp (sdiff_list cmp xs (y # ys))"
    "sorted_by cmp (sdiff_list cmp xs ys)" using Cons_Cons by simp_all
  have sub: "set (sdiff_list cmp a b) \<subseteq> set (x # xs) \<union> set (y # ys)"
    if "set a \<subseteq> set (x # xs)" "set b \<subseteq> set (y # ys)" for a b
    using set_list_ops(5) [of cmp a b] that by blast
  have 1: "sorted_by cmp (x # sdiff_list cmp xs (y # ys))" if "cmp x y"
    by (rule sorted_by_Cons_sub [OF ih(2) sub lo(1)]) (use that asym in auto)
  have 2: "sorted_by cmp (y # sdiff_list cmp (x # xs) ys)" if "cmp y x"
    by (rule sorted_by_Cons_sub [OF ih(1) sub lo(2)]) (use that asym in auto)
  show ?case using 1 2 ih by (simp del: sorted_by_simps)
qed auto

end

section \<open>Properties\<close>

text \<open>
  C19: \<^verbatim>\<open>merge\<close> of two sorted ranges, under every strict weak order, stays inside its ranges, returns the
  end of the output, and writes there a sorted list that holds the elements of both inputs; it is
  stable: of equivalent elements those of the first range come first, each in their order.
\<close>

theorem merge_correct:
  assumes "strict_weak_order cmp" "f1 \<le> l1" "l1 \<le> length s1" "f2 \<le> l2" "l2 \<le> length s2"
    "r + (l1 - f1) + (l2 - f2) \<le> length m" "sorted_by cmp (seg s1 f1 l1)" "sorted_by cmp (seg s2 f2 l2)"
  shows "\<exists>xs. merge s1 f1 l1 s2 f2 l2 m r cmp = Some (put_at m r xs, r + length xs) \<and>
    sorted_by cmp xs \<and> mset xs = mset (seg s1 f1 l1) + mset (seg s2 f2 l2) \<and>
    (\<forall>z. eq_class cmp z xs = eq_class cmp z (seg s1 f1 l1) @ eq_class cmp z (seg s2 f2 l2))"
  using assms(2-6) strict_weak_order.merge_list_class [OF assms(1,7,8)] strict_weak_order.sorted_merge_list [OF assms(1,7,8)]
  by (intro exI [of _ "merge_list cmp (seg s1 f1 l1) (seg s2 f2 l2)"])
    (simp add: merge_def merge_impl_eq Let_def mset_merge_list)

theorem merge_correct_witness:
  "\<exists>xs. merge [(1, 0), (2, 0 :: int)] 0 2 [(1 :: int, 1), (3, 1)] 0 2 [(0, 0), (0, 0), (0, 0), (0, 0)] 0 (\<lambda>x y. fst x < fst y) =
      Some (put_at [(0, 0), (0, 0), (0, 0), (0, 0)] 0 xs, 0 + length xs) \<and>
    sorted_by (\<lambda>x y. fst x < fst y) xs \<and>
    mset xs = mset (seg [(1, 0), (2, 0)] 0 2) + mset (seg [(1, 1), (3, 1)] 0 2) \<and>
    (\<forall>z. eq_class (\<lambda>x y. fst x < fst y) z xs =
       eq_class (\<lambda>x y. fst x < fst y) z (seg [(1, 0), (2, 0)] 0 2) @ eq_class (\<lambda>x y. fst x < fst y) z (seg [(1, 1), (3, 1)] 0 2))"
  by (rule merge_correct) (unfold_locales, auto simp: seg_def sorted_by_def)

text \<open>
  C27: The set operations on two sorted ranges, under every strict weak order, write a sorted list; of each
  equivalence class the union has all elements of the first range followed by the surplus of the
  second, the intersection as many elements of the first range as the second has, the difference
  the surplus of the first range, and the symmetric difference both surpluses; \<^verbatim>\<open>includes\<close> tests
  that no class of the second range has a surplus.
\<close>

theorem set_operations_correct:
  assumes "strict_weak_order cmp" "f1 \<le> l1" "l1 \<le> length s1" "f2 \<le> l2" "l2 \<le> length s2"
    "xs = seg s1 f1 l1" "ys = seg s2 f2 l2" "sorted_by cmp xs" "sorted_by cmp ys" "r + length xs + length ys \<le> length m"
  shows "(\<exists>us. set_union s1 f1 l1 s2 f2 l2 m r cmp = Some (put_at m r us, r + length us) \<and> sorted_by cmp us \<and>
      (\<forall>z. eq_class cmp z us = eq_class cmp z xs @ drop (length (eq_class cmp z xs)) (eq_class cmp z ys)))
    \<and> (\<exists>us. set_intersection s1 f1 l1 s2 f2 l2 m r cmp = Some (put_at m r us, r + length us) \<and> sorted_by cmp us \<and>
      (\<forall>z. eq_class cmp z us = take (length (eq_class cmp z ys)) (eq_class cmp z xs)))
    \<and> (\<exists>us. set_difference s1 f1 l1 s2 f2 l2 m r cmp = Some (put_at m r us, r + length us) \<and> sorted_by cmp us \<and>
      (\<forall>z. eq_class cmp z us = drop (length (eq_class cmp z ys)) (eq_class cmp z xs)))
    \<and> (\<exists>us. set_symmetric_difference s1 f1 l1 s2 f2 l2 m r cmp = Some (put_at m r us, r + length us) \<and> sorted_by cmp us \<and>
      (\<forall>z. eq_class cmp z us = drop (length (eq_class cmp z ys)) (eq_class cmp z xs) @
                                drop (length (eq_class cmp z xs)) (eq_class cmp z ys)))
    \<and> includes_range s1 f1 l1 s2 f2 l2 cmp =
        Some (\<forall>z. length (eq_class cmp z ys) \<le> length (eq_class cmp z xs))"
proof (intro conjI)
  note ops = strict_weak_order.union_list_class strict_weak_order.inter_list_class strict_weak_order.diff_list_class
    strict_weak_order.sdiff_list_class strict_weak_order.includes_list_class
    strict_weak_order.sorted_union_list strict_weak_order.sorted_inter_list strict_weak_order.sorted_diff_list
    strict_weak_order.sorted_sdiff_list
  note facts = ops [OF assms(1,8,9)]
  note len = length_list_ops [of cmp xs ys]
  note eqs = set_union_impl_eq set_intersection_impl_eq set_difference_impl_eq set_symmetric_difference_impl_eq
  note eqs = eqs [OF assms(2-5), of r cmp m, folded assms(6,7)]
  show "\<exists>us. set_union s1 f1 l1 s2 f2 l2 m r cmp = Some (put_at m r us, r + length us) \<and> sorted_by cmp us \<and>
      (\<forall>z. eq_class cmp z us = eq_class cmp z xs @ drop (length (eq_class cmp z xs)) (eq_class cmp z ys))"
    using assms(10) len eqs(1) facts by (intro exI [of _ "union_list cmp xs ys"]) (simp add: set_union_def Let_def)
  show "\<exists>us. set_intersection s1 f1 l1 s2 f2 l2 m r cmp = Some (put_at m r us, r + length us) \<and> sorted_by cmp us \<and>
      (\<forall>z. eq_class cmp z us = take (length (eq_class cmp z ys)) (eq_class cmp z xs))"
    using assms(10) len eqs(2) facts by (intro exI [of _ "inter_list cmp xs ys"]) (simp add: set_intersection_def Let_def)
  show "\<exists>us. set_difference s1 f1 l1 s2 f2 l2 m r cmp = Some (put_at m r us, r + length us) \<and> sorted_by cmp us \<and>
      (\<forall>z. eq_class cmp z us = drop (length (eq_class cmp z ys)) (eq_class cmp z xs))"
    using assms(10) len eqs(3) facts by (intro exI [of _ "diff_list cmp xs ys"]) (simp add: set_difference_def Let_def)
  show "\<exists>us. set_symmetric_difference s1 f1 l1 s2 f2 l2 m r cmp = Some (put_at m r us, r + length us) \<and> sorted_by cmp us \<and>
      (\<forall>z. eq_class cmp z us = drop (length (eq_class cmp z ys)) (eq_class cmp z xs) @
                                drop (length (eq_class cmp z xs)) (eq_class cmp z ys))"
    using assms(10) len eqs(4) facts by (intro exI [of _ "sdiff_list cmp xs ys"]) (simp add: set_symmetric_difference_def Let_def)
  show "includes_range s1 f1 l1 s2 f2 l2 cmp = Some (\<forall>z. length (eq_class cmp z ys) \<le> length (eq_class cmp z xs))"
    using includes_impl_eq [OF assms(2-5), of cmp id id] facts(5) by (simp add: includes_range_def assms(6,7))
qed

theorem set_operations_correct_witness:
  "(\<exists>us. set_symmetric_difference [1, 2, 2, 5 :: int] 0 4 [2, 3] 0 2 [0, 0, 0, 0, 0, 0] 0 less_op =
     Some (put_at [0, 0, 0, 0, 0, 0] 0 us, 0 + length us) \<and> sorted_by less_op us) \<and>
   set_symmetric_difference [1, 2, 2, 5 :: int] 0 4 [2, 3] 0 2 [0, 0, 0, 0, 0, 0] 0 less_op = Some ([1, 2, 3, 5, 0, 0], 4)"
proof
  have seg: "[1, 2, 2, 5] = seg [1, 2, 2, 5 :: int] 0 4" "[2, 3] = seg [2, 3 :: int] 0 2"
    and srt: "sorted_by less_op [1, 2, 2, 5 :: int]" "sorted_by less_op [2, 3 :: int]"
    by (simp_all add: seg_def less_op_def)
  show "\<exists>us. set_symmetric_difference [1, 2, 2, 5 :: int] 0 4 [2, 3] 0 2 [0, 0, 0, 0, 0, 0] 0 less_op =
     Some (put_at [0, 0, 0, 0, 0, 0] 0 us, 0 + length us) \<and> sorted_by less_op us"
    using set_operations_correct [OF less.strict_weak_order_axioms _ _ _ _ seg srt, of 0 "[0, 0, 0, 0, 0, 0]"] by auto
qed code_simp

end
