(* ===== verification/Sort_Small.thy ===== *)
theory Sort_Small
  imports Merge_Ops Heap_Ops
begin

text \<open>
  The small sorts of \<^verbatim>\<open>cuda/std/__algorithm/sort.h\<close>: three to five elements by compare and exchange,
  with and without branches, selection sort, and the insertion sorts (guarded, unguarded, and the one
  that gives up after eight insertions).

  The insertion sorts are shown equal to a function on lists, which makes their stability a fact
  about lists; the fixed-size sorts are characterised by the permutation they perform and the
  order they leave.
\<close>

section \<open>Definitions\<close>

subsection \<open>Three, four and five elements\<close>

definition sort3 :: "'a mem \<Rightarrow> iter \<Rightarrow> iter \<Rightarrow> iter \<Rightarrow> ('a \<Rightarrow> 'a \<Rightarrow> bool) \<Rightarrow> ('a mem \<times> nat) option" where
  "sort3 m x y z c = do {
     vx \<leftarrow> rd m x; vy \<leftarrow> rd m y;
     if \<not> c vy vx then do {
       vz \<leftarrow> rd m z;
       if \<not> c vz vy then Some (m, 0)
       else do {
         m \<leftarrow> iter_swap m y z;
         vy \<leftarrow> rd m y; vx \<leftarrow> rd m x;
         if c vy vx then do { m \<leftarrow> iter_swap m x y; Some (m, 2) } else Some (m, 1)
       }
     } else do {
       vz \<leftarrow> rd m z;
       if c vz vy then do { m \<leftarrow> iter_swap m x z; Some (m, 1) }
       else do {
         m \<leftarrow> iter_swap m x y;
         vz \<leftarrow> rd m z; vy \<leftarrow> rd m y;
         if c vz vy then do { m \<leftarrow> iter_swap m y z; Some (m, 2) } else Some (m, 1)
       }
     }
   }"

definition sort4 :: "'a mem \<Rightarrow> iter \<Rightarrow> iter \<Rightarrow> iter \<Rightarrow> iter \<Rightarrow> ('a \<Rightarrow> 'a \<Rightarrow> bool) \<Rightarrow> 'a mem option" where
  "sort4 m x1 x2 x3 x4 c = do {
     (m, _) \<leftarrow> sort3 m x1 x2 x3 c;
     v4 \<leftarrow> rd m x4; v3 \<leftarrow> rd m x3;
     if c v4 v3 then do {
       m \<leftarrow> iter_swap m x3 x4;
       v3 \<leftarrow> rd m x3; v2 \<leftarrow> rd m x2;
       if c v3 v2 then do {
         m \<leftarrow> iter_swap m x2 x3;
         v2 \<leftarrow> rd m x2; v1 \<leftarrow> rd m x1;
         if c v2 v1 then iter_swap m x1 x2 else Some m
       } else Some m
     } else Some m
   }"

definition sort5 :: "'a mem \<Rightarrow> iter \<Rightarrow> iter \<Rightarrow> iter \<Rightarrow> iter \<Rightarrow> iter \<Rightarrow> ('a \<Rightarrow> 'a \<Rightarrow> bool) \<Rightarrow> 'a mem option" where
  "sort5 m x1 x2 x3 x4 x5 cmp = do {
     m \<leftarrow> sort4 m x1 x2 x3 x4 cmp;
     v5 \<leftarrow> rd m x5; v4 \<leftarrow> rd m x4;
     if cmp v5 v4 then do {
       m \<leftarrow> iter_swap m x4 x5;
       v4 \<leftarrow> rd m x4; v3 \<leftarrow> rd m x3;
       if cmp v4 v3 then do {
         m \<leftarrow> iter_swap m x3 x4;
         v3 \<leftarrow> rd m x3; v2 \<leftarrow> rd m x2;
         if cmp v3 v2 then do {
           m \<leftarrow> iter_swap m x2 x3;
           v2 \<leftarrow> rd m x2; v1 \<leftarrow> rd m x1;
           if cmp v2 v1 then iter_swap m x1 x2 else Some m
         } else Some m
       } else Some m
     } else Some m
   }"

definition cond_swap :: "'a mem \<Rightarrow> iter \<Rightarrow> iter \<Rightarrow> ('a \<Rightarrow> 'a \<Rightarrow> bool) \<Rightarrow> 'a mem option" where
  "cond_swap m x y c = do {
     vx \<leftarrow> rd m x; vy \<leftarrow> rd m y;
     let r = c vx vy;
     let tmp = (if r then vx else vy);
     m \<leftarrow> wr m y (if r then vy else vx);
     wr m x tmp
   }"

definition partially_sorted_swap :: "'a mem \<Rightarrow> iter \<Rightarrow> iter \<Rightarrow> iter \<Rightarrow> ('a \<Rightarrow> 'a \<Rightarrow> bool) \<Rightarrow> 'a mem option" where
  "partially_sorted_swap m x y z c = do {
     vz \<leftarrow> rd m z; vx \<leftarrow> rd m x;
     let r = c vz vx;
     let tmp = (if r then vz else vx);
     m \<leftarrow> wr m z (if r then vx else vz);
     vy \<leftarrow> rd m y;
     let r = c tmp vy;
     vx \<leftarrow> rd m x;
     m \<leftarrow> wr m x (if r then vx else vy);
     wr m y (if r then vy else tmp)
   }"

text \<open>
  The flag \<open>branchless\<close> is \<^verbatim>\<open>__use_branchless_sort\<close> of the comparator and the iterator.
\<close>

definition sort3_maybe_branchless ::
    "bool \<Rightarrow> 'a mem \<Rightarrow> iter \<Rightarrow> iter \<Rightarrow> iter \<Rightarrow> ('a \<Rightarrow> 'a \<Rightarrow> bool) \<Rightarrow> 'a mem option" where
  "sort3_maybe_branchless branchless m x1 x2 x3 c =
     (if branchless then do {
        m \<leftarrow> cond_swap m x2 x3 c;
        partially_sorted_swap m x1 x2 x3 c
      } else map_option fst (sort3 m x1 x2 x3 c))"

definition sort4_maybe_branchless ::
    "bool \<Rightarrow> 'a mem \<Rightarrow> iter \<Rightarrow> iter \<Rightarrow> iter \<Rightarrow> iter \<Rightarrow> ('a \<Rightarrow> 'a \<Rightarrow> bool) \<Rightarrow> 'a mem option" where
  "sort4_maybe_branchless branchless m x1 x2 x3 x4 c =
     (if branchless then do {
        m \<leftarrow> cond_swap m x1 x3 c;
        m \<leftarrow> cond_swap m x2 x4 c;
        m \<leftarrow> cond_swap m x1 x2 c;
        m \<leftarrow> cond_swap m x3 x4 c;
        cond_swap m x2 x3 c
      } else sort4 m x1 x2 x3 x4 c)"

definition sort5_maybe_branchless ::
    "bool \<Rightarrow> 'a mem \<Rightarrow> iter \<Rightarrow> iter \<Rightarrow> iter \<Rightarrow> iter \<Rightarrow> iter \<Rightarrow> ('a \<Rightarrow> 'a \<Rightarrow> bool) \<Rightarrow> 'a mem option" where
  "sort5_maybe_branchless branchless m x1 x2 x3 x4 x5 c =
     (if branchless then do {
        m \<leftarrow> cond_swap m x1 x2 c;
        m \<leftarrow> cond_swap m x4 x5 c;
        m \<leftarrow> partially_sorted_swap m x3 x4 x5 c;
        m \<leftarrow> cond_swap m x2 x5 c;
        m \<leftarrow> partially_sorted_swap m x1 x3 x4 c;
        partially_sorted_swap m x2 x3 x4 c
      } else sort5 m x1 x2 x3 x4 x5 c)"

subsection \<open>Selection sort\<close>

function selection_sort_loop :: "'a mem \<Rightarrow> iter \<Rightarrow> iter \<Rightarrow> iter \<Rightarrow> ('a \<Rightarrow> 'a \<Rightarrow> bool) \<Rightarrow> 'a mem option" where
  "selection_sort_loop m first lm1 last' cmp =
     (if first \<noteq> lm1 then
        (if last' \<le> first then None
         else do {
           i \<leftarrow> min_element_impl m first last' cmp;
           m \<leftarrow> (if i \<noteq> first then iter_swap m first i else Some m);
           selection_sort_loop m (Suc first) lm1 last' cmp
         })
      else Some m)"
  by pat_completeness auto
termination
  by (relation "measure (\<lambda>(m, first, lm1, last', cmp). last' - first)") auto

definition selection_sort :: "'a mem \<Rightarrow> iter \<Rightarrow> iter \<Rightarrow> ('a \<Rightarrow> 'a \<Rightarrow> bool) \<Rightarrow> 'a mem option" where
  "selection_sort m first last' cmp =
     (if last' = 0 then None else selection_sort_loop m first (last' - 1) last' cmp)"

subsection \<open>Insertion sorts\<close>

text \<open>
  The inner loop: the elements greater than \<open>t\<close> move up by one, \<open>j\<close> is the free place and \<open>k\<close>
  the element before it.
\<close>

function insertion_shift ::
    "'a mem \<Rightarrow> iter \<Rightarrow> iter \<Rightarrow> iter \<Rightarrow> 'a \<Rightarrow> ('a \<Rightarrow> 'a \<Rightarrow> bool) \<Rightarrow> ('a mem \<times> iter) option" where
  "insertion_shift m first j k t cmp = do {
     x \<leftarrow> rd m k;
     m \<leftarrow> wr m j x;
     let j = k;
     if j \<noteq> first then
       (if k = 0 then None
        else do {
          let k = k - 1;
          y \<leftarrow> rd m k;
          if cmp t y then insertion_shift m first j k t cmp else Some (m, j)
        })
     else Some (m, j)
   }"
  by pat_completeness auto
termination
  by (relation "measure (\<lambda>(m, first, j, k, t, cmp). k)") auto

function insertion_sort_loop :: "'a mem \<Rightarrow> iter \<Rightarrow> iter \<Rightarrow> iter \<Rightarrow> ('a \<Rightarrow> 'a \<Rightarrow> bool) \<Rightarrow> 'a mem option" where
  "insertion_sort_loop m first i last' cmp =
     (if i \<noteq> last' then
        (if last' < i \<or> i = 0 then None
         else do {
           let j = i - 1;
           vi \<leftarrow> rd m i; vj \<leftarrow> rd m j;
           m \<leftarrow> (if cmp vi vj then do {
                  let t = vi;
                  (m, j) \<leftarrow> insertion_shift m first i j t cmp;
                  wr m j t
                } else Some m);
           insertion_sort_loop m first (Suc i) last' cmp
         })
      else Some m)"
  by pat_completeness auto
termination
  by (relation "measure (\<lambda>(m, first, i, last', cmp). last' - i)") auto

definition insertion_sort :: "'a mem \<Rightarrow> iter \<Rightarrow> iter \<Rightarrow> ('a \<Rightarrow> 'a \<Rightarrow> bool) \<Rightarrow> 'a mem option" where
  "insertion_sort m first last' cmp =
     (if first = last' then Some m else insertion_sort_loop m first (Suc first) last' cmp)"

text \<open>
  The unguarded inner loop stops at an element that is not greater than \<open>t\<close>; reaching
  \<open>leftmost\<close> fails the assertion of the source.
\<close>

function insertion_shift_unguarded ::
    "'a mem \<Rightarrow> iter \<Rightarrow> iter \<Rightarrow> iter \<Rightarrow> 'a \<Rightarrow> ('a \<Rightarrow> 'a \<Rightarrow> bool) \<Rightarrow> ('a mem \<times> iter) option" where
  "insertion_shift_unguarded m leftmost j k t cmp = do {
     x \<leftarrow> rd m k;
     m \<leftarrow> wr m j x;
     let j = k;
     if k = leftmost \<or> k = 0 then None
     else do {
       let k = k - 1;
       y \<leftarrow> rd m k;
       if cmp t y then insertion_shift_unguarded m leftmost j k t cmp else Some (m, j)
     }
   }"
  by pat_completeness auto
termination
  by (relation "measure (\<lambda>(m, leftmost, j, k, t, cmp). k)") auto

function insertion_sort_unguarded_loop ::
    "'a mem \<Rightarrow> iter \<Rightarrow> iter \<Rightarrow> iter \<Rightarrow> ('a \<Rightarrow> 'a \<Rightarrow> bool) \<Rightarrow> 'a mem option" where
  "insertion_sort_unguarded_loop m leftmost i last' cmp =
     (if i \<noteq> last' then
        (if last' < i \<or> i = 0 then None
         else do {
           let j = i - 1;
           vi \<leftarrow> rd m i; vj \<leftarrow> rd m j;
           m \<leftarrow> (if cmp vi vj then do {
                  let t = vi;
                  (m, j) \<leftarrow> insertion_shift_unguarded m leftmost i j t cmp;
                  wr m j t
                } else Some m);
           insertion_sort_unguarded_loop m leftmost (Suc i) last' cmp
         })
      else Some m)"
  by pat_completeness auto
termination
  by (relation "measure (\<lambda>(m, leftmost, i, last', cmp). last' - i)") auto

definition insertion_sort_unguarded :: "'a mem \<Rightarrow> iter \<Rightarrow> iter \<Rightarrow> ('a \<Rightarrow> 'a \<Rightarrow> bool) \<Rightarrow> 'a mem option" where
  "insertion_sort_unguarded m first last' cmp =
     (if first = last' then Some m
      else if first = 0 then None
      else insertion_sort_unguarded_loop m (first - 1) (Suc first) last' cmp)"

text \<open>The result tells whether the range is sorted; \<^verbatim>\<open>__limit\<close> is 8.\<close>

function insertion_sort_incomplete_loop ::
    "'a mem \<Rightarrow> iter \<Rightarrow> iter \<Rightarrow> iter \<Rightarrow> iter \<Rightarrow> nat \<Rightarrow> ('a \<Rightarrow> 'a \<Rightarrow> bool) \<Rightarrow> ('a mem \<times> bool) option" where
  "insertion_sort_incomplete_loop m first j i last' cnt cmp =
     (if i \<noteq> last' then
        (if last' < i then None
         else do {
           vi \<leftarrow> rd m i; vj \<leftarrow> rd m j;
           if cmp vi vj then do {
             let t = vi;
             (m, j) \<leftarrow> insertion_shift m first i j t cmp;
             m \<leftarrow> wr m j t;
             if Suc cnt = 8 then Some (m, Suc i = last')
             else insertion_sort_incomplete_loop m first i (Suc i) last' (Suc cnt) cmp
           } else insertion_sort_incomplete_loop m first i (Suc i) last' cnt cmp
         })
      else Some (m, True))"
  by pat_completeness auto
termination
  by (relation "measure (\<lambda>(m, first, j, i, last', cnt, cmp). last' - i)") auto

definition insertion_sort_incomplete ::
    "bool \<Rightarrow> 'a mem \<Rightarrow> iter \<Rightarrow> iter \<Rightarrow> ('a \<Rightarrow> 'a \<Rightarrow> bool) \<Rightarrow> ('a mem \<times> bool) option" where
  "insertion_sort_incomplete branchless m first last' cmp =
     (if last' - first = 0 \<or> last' - first = 1 then Some (m, True)
      else if last' - first = 2 then do {
        vl \<leftarrow> rd m (last' - 1); vf \<leftarrow> rd m first;
        m \<leftarrow> (if cmp vl vf then iter_swap m first (last' - 1) else Some m);
        Some (m, True)
      } else if last' - first = 3 then do {
        m \<leftarrow> sort3_maybe_branchless branchless m first (first + 1) (last' - 1) cmp;
        Some (m, True)
      } else if last' - first = 4 then do {
        m \<leftarrow> sort4_maybe_branchless branchless m first (first + 1) (first + 2) (last' - 1) cmp;
        Some (m, True)
      } else if last' - first = 5 then do {
        m \<leftarrow> sort5_maybe_branchless branchless m first (first + 1) (first + 2) (first + 3) (last' - 1) cmp;
        Some (m, True)
      } else do {
        let j = first + 2;
        m \<leftarrow> sort3_maybe_branchless branchless m first (first + 1) j cmp;
        insertion_sort_incomplete_loop m first j (j + 1) last' 0 cmp
      })"

declare selection_sort_loop.simps [simp del] insertion_shift.simps [simp del] insertion_sort_loop.simps [simp del]
  insertion_shift_unguarded.simps [simp del] insertion_sort_unguarded_loop.simps [simp del]
  insertion_sort_incomplete_loop.simps [simp del]

section \<open>Exchanges\<close>

definition swap_at :: "'a list \<Rightarrow> nat \<Rightarrow> nat \<Rightarrow> 'a list" where
  "swap_at m i j = m[i := m ! j, j := m ! i]"

lemma length_swap_at [simp]: "length (swap_at m i j) = length m"
  by (simp add: swap_at_def)

lemma nth_swap_at:
  "i < length m \<Longrightarrow> j < length m \<Longrightarrow> swap_at m i j ! k = (if k = i then m ! j else if k = j then m ! i else m ! k)"
  by (auto simp: swap_at_def nth_list_update)

lemma iter_swap_at: "i < length m \<Longrightarrow> j < length m \<Longrightarrow> iter_swap m i j = Some (swap_at m i j)"
  by (simp add: mem_simps swap_at_def)

lemma permuted_swap_at:
  "permuted m0 m a b \<Longrightarrow> a \<le> i \<Longrightarrow> i < b \<Longrightarrow> a \<le> j \<Longrightarrow> j < b \<Longrightarrow> b \<le> length m0 \<Longrightarrow> permuted m0 (swap_at m i j) a b"
  using permuted_trans [OF _ permuted_swap [of a i b j m]] permuted_length [of m0 m a b] by (simp add: swap_at_def)

lemma cond_swap_eq:
  "x < length m \<Longrightarrow> y < length m \<Longrightarrow> cond_swap m x y c = Some (if c (m ! x) (m ! y) then m else swap_at m x y)"
  by (auto simp: cond_swap_def mem_simps swap_at_def list_update_swap intro!: nth_equalityI simp: nth_list_update)

text \<open>
  \<open>exchanged m m' ps\<close>: memory \<open>m'\<close> is \<open>m\<close> after exchanges among the places \<open>ps\<close>.
\<close>

inductive exchanged :: "'a list \<Rightarrow> nat set \<Rightarrow> 'a list \<Rightarrow> bool" for m ps where
  exchanged_refl: "exchanged m ps m"
| exchanged_step: "exchanged m ps m' \<Longrightarrow> i \<in> ps \<Longrightarrow> j \<in> ps \<Longrightarrow> exchanged m ps (swap_at m' i j)"

lemma exchanged_swap [simp]: "i \<in> ps \<Longrightarrow> j \<in> ps \<Longrightarrow> exchanged m ps m' \<Longrightarrow> exchanged m ps (swap_at m' i j)"
  by (rule exchanged_step)

declare exchanged_refl [simp]

lemma exchanged_trans: "exchanged m1 ps m2 \<Longrightarrow> exchanged m0 ps m1 \<Longrightarrow> exchanged m0 ps m2"
  by (induction rule: exchanged.induct) (auto intro: exchanged.intros)

lemma exchanged_mono: "exchanged m ps m' \<Longrightarrow> ps \<subseteq> qs \<Longrightarrow> exchanged m qs m'"
  by (induction rule: exchanged.induct) (auto intro: exchanged.intros)

lemma exchanged_length: "exchanged m ps m' \<Longrightarrow> length m' = length m"
  by (induction rule: exchanged.induct) auto

lemma exchanged_permuted:
  "exchanged m ps m' \<Longrightarrow> ps \<subseteq> {a..<b} \<Longrightarrow> b \<le> length m \<Longrightarrow> permuted m m' a b"
  by (induction rule: exchanged.induct) (auto intro!: permuted_swap_at)

lemma exchanged_nth:
  "exchanged m ps m' \<Longrightarrow> ps \<subseteq> {..<length m} \<Longrightarrow> k \<notin> ps \<Longrightarrow> m' ! k = m ! k"
proof (induction rule: exchanged.induct)
  case (exchanged_step m' i j)
  then show ?case using exchanged_length [of m ps m'] by (auto simp: nth_swap_at subset_iff)
qed simp

lemma exchanged_image:
  "exchanged m ps m' \<Longrightarrow> ps \<subseteq> {..<length m} \<Longrightarrow> (!) m' ` ps = (!) m ` ps"
proof (induction rule: exchanged.induct)
  case (exchanged_step m' i j)
  then have "i < length m'" "j < length m'" using exchanged_length [of m ps m'] by auto
  with exchanged_step.hyps have "(!) (swap_at m' i j) ` ps \<subseteq> (!) m' ` ps" "(!) m' ` ps \<subseteq> (!) (swap_at m' i j) ` ps"
    by (auto simp: nth_swap_at image_iff)
  with exchanged_step show ?case by auto
qed simp

section \<open>Fixed-size sorts\<close>

context strict_weak_order
begin

lemma sort3_swo:
  assumes "x < length m" "y < length m" "z < length m" "distinct [x, y, z]"
  shows "\<exists>m' r. sort3 m x y z cmp = Some (m', r) \<and> exchanged m {x, y, z} m' \<and>
    \<not> cmp (m' ! y) (m' ! x) \<and> \<not> cmp (m' ! z) (m' ! y)"
proof -
  note sw = exchanged_refl [of m "{x, y, z}"] exchanged_step [of m "{x, y, z}"]
  consider "\<not> cmp (m ! y) (m ! x)" "\<not> cmp (m ! z) (m ! y)"
    | "\<not> cmp (m ! y) (m ! x)" "cmp (m ! z) (m ! y)" "cmp (m ! z) (m ! x)"
    | "\<not> cmp (m ! y) (m ! x)" "cmp (m ! z) (m ! y)" "\<not> cmp (m ! z) (m ! x)"
    | "cmp (m ! y) (m ! x)" "cmp (m ! z) (m ! y)"
    | "cmp (m ! y) (m ! x)" "\<not> cmp (m ! z) (m ! y)" "cmp (m ! z) (m ! x)"
    | "cmp (m ! y) (m ! x)" "\<not> cmp (m ! z) (m ! y)" "\<not> cmp (m ! z) (m ! x)" by blast
  then show ?thesis
    using assms asym by cases
      (auto simp: sort3_def rd_Some iter_swap_at nth_swap_at intro!: sw)
qed

lemma sort4_swo:
  assumes "x1 < length m" "x2 < length m" "x3 < length m" "x4 < length m" "distinct [x1, x2, x3, x4]"
  shows "\<exists>m'. sort4 m x1 x2 x3 x4 cmp = Some m' \<and> exchanged m {x1, x2, x3, x4} m' \<and>
    \<not> cmp (m' ! x2) (m' ! x1) \<and> \<not> cmp (m' ! x3) (m' ! x2) \<and> \<not> cmp (m' ! x4) (m' ! x3)"
proof -
  obtain m1 r where m1: "sort3 m x1 x2 x3 cmp = Some (m1, r)" "exchanged m {x1, x2, x3} m1"
      "\<not> cmp (m1 ! x2) (m1 ! x1)" "\<not> cmp (m1 ! x3) (m1 ! x2)"
    using sort3_swo [of x1 m x2 x3] assms by auto
  note len = exchanged_length [OF m1(2)]
  have ex: "exchanged m {x1, x2, x3, x4} m1" using exchanged_mono [OF m1(2)] by auto
  consider "\<not> cmp (m1 ! x4) (m1 ! x3)"
    | "cmp (m1 ! x4) (m1 ! x3)" "\<not> cmp (m1 ! x4) (m1 ! x2)"
    | "cmp (m1 ! x4) (m1 ! x3)" "cmp (m1 ! x4) (m1 ! x2)" "\<not> cmp (m1 ! x4) (m1 ! x1)"
    | "cmp (m1 ! x4) (m1 ! x3)" "cmp (m1 ! x4) (m1 ! x2)" "cmp (m1 ! x4) (m1 ! x1)" by blast
  then show ?thesis
    using assms m1 len ex asym [of "m1 ! x4"] by cases (simp_all add: sort4_def rd_Some iter_swap_at nth_swap_at)
qed

lemma sort5_swo:
  assumes "x1 < length m" "x2 < length m" "x3 < length m" "x4 < length m" "x5 < length m"
    "distinct [x1, x2, x3, x4, x5]"
  shows "\<exists>m'. sort5 m x1 x2 x3 x4 x5 cmp = Some m' \<and> exchanged m {x1, x2, x3, x4, x5} m' \<and>
    \<not> cmp (m' ! x2) (m' ! x1) \<and> \<not> cmp (m' ! x3) (m' ! x2) \<and> \<not> cmp (m' ! x4) (m' ! x3) \<and> \<not> cmp (m' ! x5) (m' ! x4)"
proof -
  obtain m1 where m1: "sort4 m x1 x2 x3 x4 cmp = Some m1" "exchanged m {x1, x2, x3, x4} m1"
      "\<not> cmp (m1 ! x2) (m1 ! x1)" "\<not> cmp (m1 ! x3) (m1 ! x2)" "\<not> cmp (m1 ! x4) (m1 ! x3)"
    using sort4_swo [of x1 m x2 x3 x4] assms by auto
  note len = exchanged_length [OF m1(2)]
  have ex: "exchanged m {x1, x2, x3, x4, x5} m1" using exchanged_mono [OF m1(2)] by auto
  have ne: "x5 \<noteq> x4" "x5 \<noteq> x3" "x5 \<noteq> x2" "x5 \<noteq> x1" "x4 \<noteq> x3" "x4 \<noteq> x2" "x4 \<noteq> x1" "x3 \<noteq> x2" "x3 \<noteq> x1" "x2 \<noteq> x1"
    using assms(6) by auto
  consider "\<not> cmp (m1 ! x5) (m1 ! x4)"
    | "cmp (m1 ! x5) (m1 ! x4)" "\<not> cmp (m1 ! x5) (m1 ! x3)"
    | "cmp (m1 ! x5) (m1 ! x4)" "cmp (m1 ! x5) (m1 ! x3)" "\<not> cmp (m1 ! x5) (m1 ! x2)"
    | "cmp (m1 ! x5) (m1 ! x4)" "cmp (m1 ! x5) (m1 ! x3)" "cmp (m1 ! x5) (m1 ! x2)" "\<not> cmp (m1 ! x5) (m1 ! x1)"
    | "cmp (m1 ! x5) (m1 ! x4)" "cmp (m1 ! x5) (m1 ! x3)" "cmp (m1 ! x5) (m1 ! x2)" "cmp (m1 ! x5) (m1 ! x1)" by blast
  then show ?thesis
    using assms ne m1 len ex asym [of "m1 ! x5"] by cases (simp_all add: sort5_def rd_Some iter_swap_at nth_swap_at)
qed

text \<open>The branchless exchange leaves its two places in order.\<close>

lemma cond_swap_swo:
  assumes "x < length m" "y < length m" "x \<noteq> y"
  obtains m' where "cond_swap m x y cmp = Some m'" "exchanged m {x, y} m'" "\<not> cmp (m' ! y) (m' ! x)"
    "m' ! x = m ! x \<and> m' ! y = m ! y \<or> m' ! x = m ! y \<and> m' ! y = m ! x" "\<forall>k. k \<noteq> x \<and> k \<noteq> y \<longrightarrow> m' ! k = m ! k"
proof (cases "cmp (m ! x) (m ! y)")
  case True
  then show ?thesis using assms that [of m] asym [of "m ! x" "m ! y"] by (simp add: cond_swap_eq)
next
  case False
  then show ?thesis using assms that [of "swap_at m x y"] by (simp add: cond_swap_eq nth_swap_at)
qed

lemma partially_sorted_swap_swo:
  assumes "x < length m" "y < length m" "z < length m" "distinct [x, y, z]" "\<not> cmp (m ! z) (m ! y)"
  obtains m' where "partially_sorted_swap m x y z cmp = Some m'" "exchanged m {x, y, z} m'"
    "\<not> cmp (m' ! y) (m' ! x)" "\<not> cmp (m' ! z) (m' ! y)" "\<forall>k. k \<notin> {x, y, z} \<longrightarrow> m' ! k = m ! k"
proof -
  consider (high) "cmp (m ! z) (m ! x)" | (low) "cmp (m ! x) (m ! y)" "\<not> cmp (m ! z) (m ! x)"
    | (mid) "\<not> cmp (m ! x) (m ! y)" "\<not> cmp (m ! z) (m ! x)" by blast
  then show ?thesis
  proof cases
    case high
    have "partially_sorted_swap m x y z cmp = Some (m[z := m ! x, x := m ! y, y := m ! z])"
      using assms high by (simp add: partially_sorted_swap_def rd_Some wr_Some)
    moreover have "m[z := m ! x, x := m ! y, y := m ! z] = swap_at (swap_at m x y) y z"
      using assms by (intro nth_equalityI) (auto simp: nth_list_update nth_swap_at)
    moreover have "\<not> cmp (m ! x) (m ! z)" using asym high by blast
    ultimately show ?thesis using that [of "swap_at (swap_at m x y) y z"] assms by (simp add: nth_swap_at)
  next
    case low
    moreover have "m[z := m ! z, x := m ! x, y := m ! y] = m" by simp
    moreover have "\<not> cmp (m ! y) (m ! x)" using low asym by blast
    ultimately show ?thesis
      using that [of m] assms by (simp add: partially_sorted_swap_def rd_Some wr_Some)
  next
    case mid
    have "partially_sorted_swap m x y z cmp = Some (swap_at m x y)"
      using assms mid by (simp add: partially_sorted_swap_def rd_Some wr_Some swap_at_def)
    with mid show ?thesis using that [of "swap_at m x y"] assms by (simp add: nth_swap_at)
  qed
qed

lemma sort3_maybe_branchless_swo:
  assumes "x1 < length m" "x2 < length m" "x3 < length m" "distinct [x1, x2, x3]"
  shows "\<exists>m'. sort3_maybe_branchless br m x1 x2 x3 cmp = Some m' \<and> exchanged m {x1, x2, x3} m' \<and>
    \<not> cmp (m' ! x2) (m' ! x1) \<and> \<not> cmp (m' ! x3) (m' ! x2)"
proof (cases br)
  case True
  obtain m1 where m1: "cond_swap m x2 x3 cmp = Some m1" "exchanged m {x2, x3} m1" "\<not> cmp (m1 ! x3) (m1 ! x2)"
    using cond_swap_swo [of x2 m x3] assms by auto
  obtain m2 where m2: "partially_sorted_swap m1 x1 x2 x3 cmp = Some m2" "exchanged m1 {x1, x2, x3} m2"
      "\<not> cmp (m2 ! x2) (m2 ! x1)" "\<not> cmp (m2 ! x3) (m2 ! x2)"
    using partially_sorted_swap_swo [of x1 m1 x2 x3] assms m1 exchanged_length [OF m1(2)] by auto
  have "exchanged m {x1, x2, x3} m2" using exchanged_trans [OF m2(2) exchanged_mono [OF m1(2)]] by auto
  with True m1(1) m2 show ?thesis by (simp add: sort3_maybe_branchless_def)
next
  case False
  with sort3_swo [OF assms] show ?thesis by (auto simp: sort3_maybe_branchless_def)
qed

lemma sort4_branchless_values:
  assumes "\<not> cmp a3 a1" "\<not> cmp a4 a2"
    "b1 = a1 \<and> b2 = a2 \<or> b1 = a2 \<and> b2 = a1" "\<not> cmp b2 b1"
    "c3 = a3 \<and> c4 = a4 \<or> c3 = a4 \<and> c4 = a3" "\<not> cmp c4 c3"
    "d2 = b2 \<and> d3 = c3 \<or> d2 = c3 \<and> d3 = b2" "\<not> cmp d3 d2"
  shows "\<not> cmp d2 b1 \<and> \<not> cmp d3 d2 \<and> \<not> cmp c4 d3"
  using assms neg_trans by metis

lemma sort4_maybe_branchless_swo:
  assumes "x1 < length m" "x2 < length m" "x3 < length m" "x4 < length m" "distinct [x1, x2, x3, x4]"
  shows "\<exists>m'. sort4_maybe_branchless br m x1 x2 x3 x4 cmp = Some m' \<and> exchanged m {x1, x2, x3, x4} m' \<and>
    \<not> cmp (m' ! x2) (m' ! x1) \<and> \<not> cmp (m' ! x3) (m' ! x2) \<and> \<not> cmp (m' ! x4) (m' ! x3)"
proof (cases br)
  case True
  let ?ps = "{x1, x2, x3, x4}"
  note bounds = assms(1-4)
  obtain m1 where m1: "cond_swap m x1 x3 cmp = Some m1" "exchanged m {x1, x3} m1" "\<not> cmp (m1 ! x3) (m1 ! x1)"
    using cond_swap_swo [of x1 m x3] assms by auto
  note l1 = exchanged_length [OF m1(2)]
  obtain m2 where m2: "cond_swap m1 x2 x4 cmp = Some m2" "exchanged m1 {x2, x4} m2" "\<not> cmp (m2 ! x4) (m2 ! x2)"
      "\<forall>k. k \<noteq> x2 \<and> k \<noteq> x4 \<longrightarrow> m2 ! k = m1 ! k"
    using cond_swap_swo [of x2 m1 x4] assms l1 by auto
  note l2 = exchanged_length [OF m2(2)]
  obtain m3 where m3: "cond_swap m2 x1 x2 cmp = Some m3" "exchanged m2 {x1, x2} m3" "\<not> cmp (m3 ! x2) (m3 ! x1)"
      "m3 ! x1 = m2 ! x1 \<and> m3 ! x2 = m2 ! x2 \<or> m3 ! x1 = m2 ! x2 \<and> m3 ! x2 = m2 ! x1"
      "\<forall>k. k \<noteq> x1 \<and> k \<noteq> x2 \<longrightarrow> m3 ! k = m2 ! k"
    using cond_swap_swo [of x1 m2 x2] assms l1 l2 by auto
  note l3 = exchanged_length [OF m3(2)]
  obtain m4 where m4: "cond_swap m3 x3 x4 cmp = Some m4" "exchanged m3 {x3, x4} m4" "\<not> cmp (m4 ! x4) (m4 ! x3)"
      "m4 ! x3 = m3 ! x3 \<and> m4 ! x4 = m3 ! x4 \<or> m4 ! x3 = m3 ! x4 \<and> m4 ! x4 = m3 ! x3"
      "\<forall>k. k \<noteq> x3 \<and> k \<noteq> x4 \<longrightarrow> m4 ! k = m3 ! k"
    using cond_swap_swo [of x3 m3 x4] assms l1 l2 l3 by auto
  note l4 = exchanged_length [OF m4(2)]
  obtain m5 where m5: "cond_swap m4 x2 x3 cmp = Some m5" "exchanged m4 {x2, x3} m5" "\<not> cmp (m5 ! x3) (m5 ! x2)"
      "m5 ! x2 = m4 ! x2 \<and> m5 ! x3 = m4 ! x3 \<or> m5 ! x2 = m4 ! x3 \<and> m5 ! x3 = m4 ! x2"
      "\<forall>k. k \<noteq> x2 \<and> k \<noteq> x3 \<longrightarrow> m5 ! k = m4 ! k"
    using cond_swap_swo [of x2 m4 x3] assms l1 l2 l3 l4 by auto
  have "exchanged m ?ps m1" "exchanged m1 ?ps m2" "exchanged m2 ?ps m3" "exchanged m3 ?ps m4" "exchanged m4 ?ps m5"
    using exchanged_mono [OF m1(2)] exchanged_mono [OF m2(2)] exchanged_mono [OF m3(2)] exchanged_mono [OF m4(2)]
      exchanged_mono [OF m5(2)] by auto
  then have ex: "exchanged m ?ps m5" using exchanged_trans by blast
  have v: "m2 ! x1 = m1 ! x1" "m2 ! x3 = m1 ! x3" "m3 ! x3 = m2 ! x3" "m3 ! x4 = m2 ! x4" "m4 ! x1 = m3 ! x1"
      "m4 ! x2 = m3 ! x2" "m5 ! x1 = m4 ! x1" "m5 ! x4 = m4 ! x4"
    using m2(4) m3(5) m4(5) m5(5) assms(5) by auto
  have "\<not> cmp (m5 ! x2) (m3 ! x1) \<and> \<not> cmp (m5 ! x3) (m5 ! x2) \<and> \<not> cmp (m4 ! x4) (m5 ! x3)"
    using m1(3) m2(3) m3(3,4) m4(3,4) m5(3,4) v
    by (intro sort4_branchless_values [where ?a1.0 = "m2 ! x1" and ?a2.0 = "m2 ! x2" and ?a3.0 = "m2 ! x3" and ?a4.0 = "m2 ! x4"
          and ?b2.0 = "m3 ! x2" and ?c3.0 = "m4 ! x3"]) auto
  with ex v m1(1) m2(1) m3(1) m4(1) m5(1) True show ?thesis by (simp add: sort4_maybe_branchless_def)
next
  case False
  with sort4_swo [OF assms] show ?thesis by (auto simp: sort4_maybe_branchless_def)
qed

lemma sort5_network_front:
  assumes "x1 < length m" "x2 < length m" "x3 < length m" "x4 < length m" "x5 < length m"
    "distinct [x1, x2, x3, x4, x5]"
  obtains m1 m2 m3 m4 where "cond_swap m x1 x2 cmp = Some m1" "cond_swap m1 x4 x5 cmp = Some m2"
    "partially_sorted_swap m2 x3 x4 x5 cmp = Some m3" "cond_swap m3 x2 x5 cmp = Some m4"
    "exchanged m {x1, x2, x3, x4, x5} m4" "\<not> cmp (m4 ! x4) (m4 ! x3)"
    "\<forall>k \<in> {x1, x2, x3, x4}. \<not> cmp (m4 ! x5) (m4 ! k)"
    "\<forall>p. \<not> cmp (m4 ! x1) p \<and> \<not> cmp (m4 ! x3) p \<longrightarrow> \<not> cmp (m4 ! x2) p"
proof -
  let ?ps = "{x1, x2, x3, x4, x5}"
  obtain m1 where m1: "cond_swap m x1 x2 cmp = Some m1" "exchanged m {x1, x2} m1" "\<not> cmp (m1 ! x2) (m1 ! x1)"
    using cond_swap_swo [of x1 m x2] assms by auto
  note l1 = exchanged_length [OF m1(2)]
  obtain m2 where m2: "cond_swap m1 x4 x5 cmp = Some m2" "exchanged m1 {x4, x5} m2" "\<not> cmp (m2 ! x5) (m2 ! x4)"
      "\<forall>k. k \<noteq> x4 \<and> k \<noteq> x5 \<longrightarrow> m2 ! k = m1 ! k"
    using cond_swap_swo [of x4 m1 x5] assms l1 by auto
  note l2 = exchanged_length [OF m2(2)]
  obtain m3 where m3: "partially_sorted_swap m2 x3 x4 x5 cmp = Some m3" "exchanged m2 {x3, x4, x5} m3"
      "\<not> cmp (m3 ! x4) (m3 ! x3)" "\<not> cmp (m3 ! x5) (m3 ! x4)" "\<forall>k. k \<notin> {x3, x4, x5} \<longrightarrow> m3 ! k = m2 ! k"
    using partially_sorted_swap_swo [of x3 m2 x4 x5] assms l1 l2 m2(3) by auto
  note l3 = exchanged_length [OF m3(2)]
  obtain m4 where m4: "cond_swap m3 x2 x5 cmp = Some m4" "exchanged m3 {x2, x5} m4" "\<not> cmp (m4 ! x5) (m4 ! x2)"
      "m4 ! x2 = m3 ! x2 \<and> m4 ! x5 = m3 ! x5 \<or> m4 ! x2 = m3 ! x5 \<and> m4 ! x5 = m3 ! x2"
      "\<forall>k. k \<noteq> x2 \<and> k \<noteq> x5 \<longrightarrow> m4 ! k = m3 ! k"
    using cond_swap_swo [of x2 m3 x5] assms l1 l2 l3 by auto
  have v: "m3 ! x1 = m1 ! x1" "m3 ! x2 = m1 ! x2" "m4 ! x1 = m3 ! x1" "m4 ! x3 = m3 ! x3" "m4 ! x4 = m3 ! x4"
    using m2(4) m3(5) m4(5) assms(6) by auto
  have 12: "\<not> cmp (m3 ! x2) (m3 ! x1)" using m1(3) v by simp
  note 35 = neg_trans [OF m3(4,3)]
  have "\<not> cmp (m4 ! x5) (m4 ! x1)" using m4(3,4) 12 v(3) neg_trans by metis
  moreover have "\<not> cmp (m4 ! x5) (m4 ! x3)" using m4(3,4) 35 v(4) neg_trans by metis
  moreover have "\<not> cmp (m4 ! x5) (m4 ! x4)" using m4(3,4) m3(4) v(5) neg_trans by metis
  moreover have "\<forall>p. \<not> cmp (m4 ! x1) p \<and> \<not> cmp (m4 ! x3) p \<longrightarrow> \<not> cmp (m4 ! x2) p"
    using m4(4) v(3,4) neg_trans [OF 12] neg_trans [OF 35] by auto
  moreover have "exchanged m ?ps m1" "exchanged m1 ?ps m2" "exchanged m2 ?ps m3" "exchanged m3 ?ps m4"
    using exchanged_mono [OF m1(2)] exchanged_mono [OF m2(2)] exchanged_mono [OF m3(2)] exchanged_mono [OF m4(2)] by auto
  then have "exchanged m ?ps m4" using exchanged_trans by blast
  ultimately show ?thesis using that [OF m1(1) m2(1) m3(1) m4(1)] m4(3) m3(3) v by simp
qed

lemma sort5_maybe_branchless_swo:
  assumes "x1 < length m" "x2 < length m" "x3 < length m" "x4 < length m" "x5 < length m"
    "distinct [x1, x2, x3, x4, x5]"
  shows "\<exists>m'. sort5_maybe_branchless br m x1 x2 x3 x4 x5 cmp = Some m' \<and> exchanged m {x1, x2, x3, x4, x5} m' \<and>
    \<not> cmp (m' ! x2) (m' ! x1) \<and> \<not> cmp (m' ! x3) (m' ! x2) \<and> \<not> cmp (m' ! x4) (m' ! x3) \<and> \<not> cmp (m' ! x5) (m' ! x4)"
proof (cases br)
  case True
  let ?ps = "{x1, x2, x3, x4, x5}"
  obtain m1 m2 m3 m4 where m4: "cond_swap m x1 x2 cmp = Some m1" "cond_swap m1 x4 x5 cmp = Some m2"
    "partially_sorted_swap m2 x3 x4 x5 cmp = Some m3" "cond_swap m3 x2 x5 cmp = Some m4"
    "exchanged m ?ps m4" "\<not> cmp (m4 ! x4) (m4 ! x3)" "\<forall>k \<in> {x1, x2, x3, x4}. \<not> cmp (m4 ! x5) (m4 ! k)"
    "\<forall>p. \<not> cmp (m4 ! x1) p \<and> \<not> cmp (m4 ! x3) p \<longrightarrow> \<not> cmp (m4 ! x2) p"
    using sort5_network_front [OF assms] by metis
  note l4 = exchanged_length [OF m4(5)]
  obtain m5 where m5: "partially_sorted_swap m4 x1 x3 x4 cmp = Some m5" "exchanged m4 {x1, x3, x4} m5"
      "\<not> cmp (m5 ! x3) (m5 ! x1)" "\<not> cmp (m5 ! x4) (m5 ! x3)" "\<forall>k. k \<notin> {x1, x3, x4} \<longrightarrow> m5 ! k = m4 ! k"
    using partially_sorted_swap_swo [of x1 m4 x3 x4] assms l4 m4(6) by auto
  note l5 = exchanged_length [OF m5(2)]
  obtain m6 where m6: "partially_sorted_swap m5 x2 x3 x4 cmp = Some m6" "exchanged m5 {x2, x3, x4} m6"
      "\<not> cmp (m6 ! x3) (m6 ! x2)" "\<not> cmp (m6 ! x4) (m6 ! x3)" "\<forall>k. k \<notin> {x2, x3, x4} \<longrightarrow> m6 ! k = m5 ! k"
    using partially_sorted_swap_swo [of x2 m5 x3 x4] assms l4 l5 m5(4) by auto
  have v: "m5 ! x2 = m4 ! x2" "m5 ! x5 = m4 ! x5" "m6 ! x1 = m5 ! x1" "m6 ! x5 = m5 ! x5"
    using m5(5) m6(5) assms(6) by auto
  have img5: "m4 ! k \<in> {m5 ! x1, m5 ! x3, m5 ! x4}" "m5 ! k \<in> {m4 ! x1, m4 ! x3, m4 ! x4}" if "k \<in> {x1, x3, x4}" for k
    using that exchanged_image [OF m5(2)] assms l4 by auto
  have img6: "m6 ! k \<in> {m5 ! x2, m5 ! x3, m5 ! x4}" if "k \<in> {x2, x3, x4}" for k
    using that exchanged_image [OF m6(2)] assms l4 l5 by auto
  note 41 = neg_trans [OF m5(4,3)]
  have "\<not> cmp (m4 ! x1) (m5 ! x1)" "\<not> cmp (m4 ! x3) (m5 ! x1)"
    using img5(1) [of x1] img5(1) [of x3] m5(3) 41 irrefl [of "m5 ! x1"] by auto
  then have "\<not> cmp (m6 ! x2) (m6 ! x1)"
    using img6 [of x2] v m4(8) m5(3) 41 by auto
  moreover have "\<not> cmp (m6 ! x5) (m6 ! x4)"
    using img6 [of x4] img5(2) [of x3] img5(2) [of x4] v m4(7) by auto
  moreover have "exchanged m4 ?ps m5" "exchanged m5 ?ps m6"
    using exchanged_mono [OF m5(2)] exchanged_mono [OF m6(2)] by auto
  then have "exchanged m ?ps m6" using exchanged_trans m4(5) by blast
  ultimately show ?thesis using True m6 m4(1-4) m5(1) by (simp add: sort5_maybe_branchless_def)
next
  case False
  with sort5_swo [OF assms] show ?thesis by (auto simp: sort5_maybe_branchless_def)
qed

end

section \<open>Insertion on lists\<close>

text \<open>
  \<open>ins_right cmp t xs\<close> puts \<open>t\<close> behind the last element of \<open>xs\<close> that is not greater, and
  \<open>ins_sort\<close> inserts the elements of a list one after the other.
\<close>

definition ins_right :: "('a \<Rightarrow> 'a \<Rightarrow> bool) \<Rightarrow> 'a \<Rightarrow> 'a list \<Rightarrow> 'a list" where
  "ins_right cmp t xs = rev (dropWhile (cmp t) (rev xs)) @ t # rev (takeWhile (cmp t) (rev xs))"

definition ins_sort :: "('a \<Rightarrow> 'a \<Rightarrow> bool) \<Rightarrow> 'a list \<Rightarrow> 'a list \<Rightarrow> 'a list" where
  "ins_sort cmp acc xs = foldl (\<lambda>ys x. ins_right cmp x ys) acc xs"

lemma ins_right_simps [simp]:
  "ins_right cmp t [] = [t]"
  "ins_right cmp t (xs @ [y]) = (if cmp t y then ins_right cmp t xs @ [y] else xs @ [y, t])"
  by (simp_all add: ins_right_def)

lemma mset_ins_right [simp]: "mset (ins_right cmp t xs) = add_mset t (mset xs)"
  by (induction xs rule: rev_induct) auto

lemma length_ins_right [simp]: "length (ins_right cmp t xs) = Suc (length xs)"
  by (induction xs rule: rev_induct) auto

lemma set_ins_right [simp]: "set (ins_right cmp t xs) = insert t (set xs)"
  by (induction xs rule: rev_induct) auto

lemma ins_sort_simps [simp]:
  "ins_sort cmp acc [] = acc" "ins_sort cmp acc (x # xs) = ins_sort cmp (ins_right cmp x acc) xs"
  by (simp_all add: ins_sort_def)

lemma length_ins_sort [simp]: "length (ins_sort cmp acc xs) = length acc + length xs"
  by (induction xs arbitrary: acc) auto

lemma mset_ins_sort [simp]: "mset (ins_sort cmp acc xs) = mset acc + mset xs"
  by (induction xs arbitrary: acc) auto

lemma eq_class_append [simp]: "eq_class cmp z (xs @ ys) = eq_class cmp z xs @ eq_class cmp z ys"
  by (simp add: eq_class_def)

context strict_weak_order
begin

lemma sorted_ins_right: "sorted_by cmp xs \<Longrightarrow> sorted_by cmp (ins_right cmp t xs)"
proof (induction xs rule: rev_induct)
  case (snoc y xs)
  then show ?case using asym [of t y] neg_trans [of t y] by auto
qed simp

lemma ins_right_class:
  "sorted_by cmp xs \<Longrightarrow> eq_class cmp z (ins_right cmp t xs) = eq_class cmp z xs @ eq_class cmp z [t]"
proof (induction xs rule: rev_induct)
  case (snoc y xs)
  have "\<not> (\<not> cmp z y \<and> \<not> cmp y z)" if "cmp t y" "\<not> cmp z t" "\<not> cmp t z" using that neg_trans by blast
  with snoc show ?case by auto
qed simp

lemma sorted_ins_sort: "sorted_by cmp acc \<Longrightarrow> sorted_by cmp (ins_sort cmp acc xs)"
  by (induction xs arbitrary: acc) (auto simp: sorted_ins_right)

lemma ins_sort_class:
  "sorted_by cmp acc \<Longrightarrow> eq_class cmp z (ins_sort cmp acc xs) = eq_class cmp z acc @ eq_class cmp z xs"
  by (induction xs arbitrary: acc) (auto simp: sorted_ins_right ins_right_class)

end

section \<open>The insertion loops\<close>

lemma put_at_update_after:
  "r + length xs \<le> i \<Longrightarrow> i < length m \<Longrightarrow> put_at (m[i := v]) r xs = (put_at m r xs)[i := v]"
  by (rule nth_equalityI) (auto simp: put_at_nth nth_list_update)

lemma put_at_overwrite:
  "length xs \<le> length ys \<Longrightarrow> r + length ys \<le> length m \<Longrightarrow> put_at (put_at m r xs) r ys = put_at m r ys"
  by (rule nth_equalityI) (auto simp: put_at_nth)

lemma insertion_shift_eq:
  assumes "first \<le> k" "Suc k < length m" "cmp t (m ! k)"
  shows "\<exists>m' j. insertion_shift m first (Suc k) k t cmp = Some (m', j) \<and> j < length m' \<and>
    m'[j := t] = put_at m first (ins_right cmp t (seg m first (Suc k)))"
  using assms
proof (induction k arbitrary: m rule: dec_induct)
  case base
  have "seg m first (Suc first) = [] @ [m ! first]" using base by (simp add: seg_Cons)
  then have "ins_right cmp t (seg m first (Suc first)) = [t, m ! first]" using base by (simp only: ins_right_simps) simp
  with base show ?case
    by (simp add: insertion_shift.simps [of m first] mem_simps put_at_Cons [symmetric] list_update_swap)
next
  case (step k)
  let ?m = "m[Suc (Suc k) := m ! Suc k]"
  have seg: "seg m first (Suc (Suc k)) = seg m first (Suc k) @ [m ! Suc k]" using step by (simp add: seg_snoc)
  have snoc: "seg m first (Suc k) = seg m first k @ [m ! k]" using step by (simp add: seg_snoc)
  show ?case
  proof (cases "cmp t (m ! k)")
    case True
    obtain m' j where m': "insertion_shift ?m first (Suc k) k t cmp = Some (m', j)" "j < length m'"
        "m'[j := t] = put_at ?m first (ins_right cmp t (seg ?m first (Suc k)))"
      using step.IH [of ?m] step.prems True by auto
    have "seg ?m first (Suc k) = seg m first (Suc k)"
      by (rule frame_seg_out [where a = "Suc (Suc k)" and b = "Suc (Suc (Suc k))"]) (auto intro!: frame_update)
    then have "m'[j := t] = put_at m first (ins_right cmp t (seg m first (Suc k)) @ [m ! Suc k])"
      using m'(3) step by (simp add: put_at_update_after put_at_snoc)
    then have "m'[j := t] = put_at m first (ins_right cmp t (seg m first (Suc (Suc k))))"
      unfolding seg using step.prems by simp
    with m'(1,2) True step show ?thesis
      by (simp add: insertion_shift.simps [of m first] mem_simps Let_def)
  next
    case False
    have "ins_right cmp t (seg m first (Suc k)) = seg m first (Suc k) @ [t]" unfolding snoc using False by simp
    then have "put_at m first (ins_right cmp t (seg m first (Suc (Suc k)))) = put_at m first ((seg m first (Suc k) @ [t]) @ [m ! Suc k])"
      unfolding seg using step.prems by simp
    also have "\<dots> = (put_at m first (seg m first (Suc k) @ [t]))[Suc (Suc k) := m ! Suc k]"
      by (rule put_at_snoc [symmetric]) (use step in auto)
    also have "put_at m first (seg m first (Suc k) @ [t]) = m[Suc k := t]"
      using put_at_snoc [of "Suc k" m first "seg m first (Suc k)" t] step by (simp add: put_at_seg_id)
    finally show ?thesis
      using False step by (simp add: insertion_shift.simps [of m first] mem_simps Let_def list_update_swap)
  qed
qed

text \<open>One step of the outer loop, shared by the three insertion sorts.\<close>

lemma insertion_step_mem:
  assumes "first < i" "i < last'" "last' \<le> length m"
  shows "\<not> cmp (m ! i) (m ! (i - 1)) \<Longrightarrow> put_at m first (ins_right cmp (m ! i) (seg m first i)) = m"
    and "m' = put_at m first (ins_right cmp (m ! i) (seg m first i)) \<Longrightarrow>
      length m' = length m \<and> seg m' first (Suc i) = ins_right cmp (m ! i) (seg m first i) \<and>
      seg m' (Suc i) last' = seg m (Suc i) last' \<and> (\<forall>j. j < first \<longrightarrow> m' ! j = m ! j) \<and>
      (\<forall>xs. length xs = last' - first \<longrightarrow> put_at m' first xs = put_at m first xs)"
proof -
  have i: "seg m first i = seg m first (i - 1) @ [m ! (i - 1)]" "seg m first (Suc i) = seg m first i @ [m ! i]"
    using assms seg_snoc [of first "i - 1" m] by (simp_all add: seg_snoc)
  show "put_at m first (ins_right cmp (m ! i) (seg m first i)) = m" if "\<not> cmp (m ! i) (m ! (i - 1))"
  proof -
    have "ins_right cmp (m ! i) (seg m first i) = seg m first (Suc i)" unfolding i using that by simp
    then show ?thesis using assms by (simp add: put_at_seg_id)
  qed
  let ?ys = "ins_right cmp (m ! i) (seg m first i)"
  assume m': "m' = put_at m first ?ys"
  have len: "length ?ys = Suc i - first" using assms by simp
  have "seg m' first (Suc i) = ?ys" using seg_put_at [of first ?ys m] len assms by (simp add: m')
  moreover have "frame m m' first (Suc i)" using frame_put_at [of first ?ys m] len assms by (simp add: m')
  ultimately show "length m' = length m \<and> seg m' first (Suc i) = ?ys \<and>
      seg m' (Suc i) last' = seg m (Suc i) last' \<and> (\<forall>j. j < first \<longrightarrow> m' ! j = m ! j) \<and>
      (\<forall>xs. length xs = last' - first \<longrightarrow> put_at m' first xs = put_at m first xs)"
    using assms by (auto simp: frame_length frame_seg_out frame_nth m' put_at_overwrite)
qed

lemma insertion_sort_loop_eq:
  assumes "first < i" "i \<le> last'" "last' \<le> length m"
  shows "insertion_sort_loop m first i last' cmp =
    Some (put_at m first (ins_sort cmp (seg m first i) (seg m i last')))"
  using assms(2,1,3)
proof (induction i arbitrary: m rule: inc_induct)
  case base
  then show ?case by (simp add: insertion_sort_loop.simps [of m first] put_at_seg_id)
next
  case (step i)
  let ?m = "put_at m first (ins_right cmp (m ! i) (seg m first i))"
  note mem = insertion_step_mem [of first i last' m, where cmp = cmp]
  have ih: "insertion_sort_loop ?m first (Suc i) last' cmp = Some (put_at m first (ins_sort cmp (seg m first i) (seg m i last')))"
    using step mem(2) [OF _ _ _ refl] by (simp add: seg_Cons [of i])
  show ?case
  proof (cases "cmp (m ! i) (m ! (i - 1))")
    case True
    obtain m' j where "insertion_shift m first i (i - 1) (m ! i) cmp = Some (m', j)" "j < length m'" "m'[j := m ! i] = ?m"
      using insertion_shift_eq [of first "i - 1" m cmp "m ! i"] True step le_diff_conv2 [of 1 i first] by auto
    with True step ih show ?thesis by (simp add: insertion_sort_loop.simps [of m first] mem_simps Let_def)
  next
    case False
    have "?m = m" using mem(1) False step by simp
    with False step ih show ?thesis by (simp add: insertion_sort_loop.simps [of m first] mem_simps Let_def)
  qed
qed

lemma insertion_sort_eq:
  assumes "a \<le> b" "b \<le> length m"
  shows "insertion_sort m a b cmp = Some (put_at m a (ins_sort cmp [] (seg m a b)))"
proof (cases "a = b")
  case False
  with assms show ?thesis
    using insertion_sort_loop_eq [of a "Suc a" b m cmp] by (simp add: insertion_sort_def seg_Cons [of a])
qed (use assms in \<open>simp add: insertion_sort_def\<close>)

text \<open>
  Where the element before the range is not greater than any element of it, the unguarded loop
  stops before its assertion fails and does what the guarded one does.
\<close>

lemma insertion_shift_unguarded_eq:
  assumes "Suc p \<le> k" "Suc k < length m" "\<not> cmp t (m ! p)"
  shows "insertion_shift_unguarded m p (Suc k) k t cmp = insertion_shift m (Suc p) (Suc k) k t cmp"
  using assms
proof (induction k arbitrary: m rule: dec_induct)
  case base
  then show ?case
    by (simp add: insertion_shift_unguarded.simps [of m p] insertion_shift.simps [of m "Suc p"] mem_simps Let_def)
next
  case (step k)
  have "m[Suc (Suc k) := m ! Suc k] ! p = m ! p" using step by auto
  with step show ?case
    by (simp add: insertion_shift_unguarded.simps [of m p] insertion_shift.simps [of m "Suc p"] mem_simps Let_def)
qed

lemma insertion_sort_unguarded_loop_eq:
  assumes "Suc p < i" "i \<le> last'" "last' \<le> length m" "\<forall>x \<in> set (seg m i last'). \<not> cmp x (m ! p)"
  shows "insertion_sort_unguarded_loop m p i last' cmp = insertion_sort_loop m (Suc p) i last' cmp"
  using assms(2,1,3,4)
proof (induction i arbitrary: m rule: inc_induct)
  case base
  then show ?case by (simp add: insertion_sort_loop.simps [of m "Suc p"] insertion_sort_unguarded_loop.simps [of m p])
next
  case (step i)
  let ?m = "put_at m (Suc p) (ins_right cmp (m ! i) (seg m (Suc p) i))"
  note mem = insertion_step_mem [of "Suc p" i last' m, where cmp = cmp]
  have i: "\<not> cmp (m ! i) (m ! p)" and rest: "\<forall>x \<in> set (seg m (Suc i) last'). \<not> cmp x (m ! p)"
    using step.prems step.hyps by (auto simp: seg_Cons [of i])
  have ih: "insertion_sort_unguarded_loop ?m p (Suc i) last' cmp = insertion_sort_loop ?m (Suc p) (Suc i) last' cmp"
    using step.IH [of ?m] step.prems step.hyps mem(2) [OF _ _ _ refl] rest by simp
  note unfold = insertion_sort_loop.simps [of m "Suc p"] insertion_sort_unguarded_loop.simps [of m p]
  show ?case
  proof (cases "cmp (m ! i) (m ! (i - 1))")
    case True
    have le: "Suc p \<le> i - 1" "Suc (i - 1) = i" using step by auto
    obtain m' j where "insertion_shift m (Suc p) i (i - 1) (m ! i) cmp = Some (m', j)" "j < length m'" "m'[j := m ! i] = ?m"
      using insertion_shift_eq [of "Suc p" "i - 1" m cmp "m ! i"] True step le by auto
    moreover have "insertion_shift_unguarded m p i (i - 1) (m ! i) cmp = insertion_shift m (Suc p) i (i - 1) (m ! i) cmp"
      using insertion_shift_unguarded_eq [OF le(1), of m cmp "m ! i"] step i le(2) by simp
    ultimately show ?thesis using True step ih by (simp add: unfold mem_simps Let_def)
  next
    case False
    have "?m = m" using mem(1) False step by simp
    with False step ih show ?thesis by (simp add: unfold mem_simps Let_def)
  qed
qed

lemma insertion_sort_unguarded_eq:
  assumes "a \<le> b" "b \<le> length m" "0 < a" "\<forall>x \<in> set (seg m a b). \<not> cmp x (m ! (a - 1))"
  shows "insertion_sort_unguarded m a b cmp = insertion_sort m a b cmp"
proof -
  obtain p where "a = Suc p" using assms(3) gr0_implies_Suc by blast
  with assms show ?thesis using insertion_sort_unguarded_loop_eq [of p "Suc a" b m cmp]
    by (cases "a = b") (auto simp: insertion_sort_unguarded_def insertion_sort_def seg_Cons [of "Suc p"])
qed

context strict_weak_order
begin

lemma insertion_step_swo:
  assumes "first < i" "i < last'" "last' \<le> length m" "sorted_by cmp (seg m first i)"
    "m' = put_at m first (ins_right cmp (m ! i) (seg m first i))"
  shows "permuted m m' first last' \<and> sorted_by cmp (seg m' first (Suc i))"
proof -
  have m': "length m' = length m" "seg m' first (Suc i) = ins_right cmp (m ! i) (seg m first i)"
    using insertion_step_mem(2) [OF assms(1-3) assms(5)] by auto
  have fr: "frame m m' first (Suc i)" using frame_put_at [of first "ins_right cmp (m ! i) (seg m first i)" m] assms by simp
  have "mset m' = mset m"
  proof -
    have "mset m' = mset (take first m) + mset (seg m' first (Suc i)) + mset (drop (Suc i) m)"
      using split_seg [of first "Suc i" m'] frame_take [OF fr] frame_drop [OF fr] assms(1)
      by (metis less_SucI less_imp_le mset_append union_assoc)
    also have "mset (seg m' first (Suc i)) = mset (seg m first (Suc i))"
      unfolding m'(2) using assms by (simp add: seg_snoc)
    also have "mset (take first m) + mset (seg m first (Suc i)) + mset (drop (Suc i) m) = mset m"
      using split_seg [of first "Suc i" m] assms(1) by (metis less_SucI less_imp_le mset_append union_assoc)
    finally show ?thesis .
  qed
  then show ?thesis
    using frame_mono [OF fr, of first last'] assms(2,4) m' by (simp add: permuted_def sorted_ins_right)
qed

lemma insertion_sort_incomplete_loop_swo:
  assumes "first < i" "i \<le> last'" "last' \<le> length m" "sorted_by cmp (seg m first i)"
  shows "\<exists>m' r. insertion_sort_incomplete_loop m first (i - 1) i last' cnt cmp = Some (m', r) \<and>
    permuted m m' first last' \<and> (r \<longrightarrow> sorted_by cmp (seg m' first last'))"
  using assms(2,1,3,4)
proof (induction i arbitrary: m cnt rule: inc_induct)
  case base
  then show ?case by (auto simp: insertion_sort_incomplete_loop.simps [of m first])
next
  case (step i)
  let ?m = "put_at m first (ins_right cmp (m ! i) (seg m first i))"
  note unfold = insertion_sort_incomplete_loop.simps [of m first "i - 1" i last' cnt cmp]
  have perm: "permuted m ?m first last'" "sorted_by cmp (seg ?m first (Suc i))"
    using insertion_step_swo [of first i last' m ?m] step by auto
  have len: "length ?m = length m" using permuted_length [OF perm(1)] .
  have ih: "\<exists>m' r. insertion_sort_incomplete_loop ?m first i (Suc i) last' c cmp = Some (m', r) \<and>
      permuted m m' first last' \<and> (r \<longrightarrow> sorted_by cmp (seg m' first last'))" for c
    using step.IH [of ?m c] step.prems perm len permuted_trans [OF perm(1)] by auto
  show ?case
  proof (cases "cmp (m ! i) (m ! (i - 1))")
    case True
    have le: "first \<le> i - 1" "Suc (i - 1) = i" using step by auto
    obtain m' j where "insertion_shift m first i (i - 1) (m ! i) cmp = Some (m', j)" "j < length m'" "m'[j := m ! i] = ?m"
      using insertion_shift_eq [of first "i - 1" m cmp "m ! i"] True step le by auto
    with True step.hyps step.prems(1,2) have "insertion_sort_incomplete_loop m first (i - 1) i last' cnt cmp =
        (if Suc cnt = 8 then Some (?m, Suc i = last') else insertion_sort_incomplete_loop ?m first i (Suc i) last' (Suc cnt) cmp)"
      by (subst unfold) (simp add: mem_simps Let_def)
    with perm ih [of "Suc cnt"] show ?thesis by (cases "Suc cnt = 8") auto
  next
    case False
    have "?m = m" using insertion_step_mem(1) [of first i last' m cmp] False step by simp
    with False step.hyps step.prems(1,2) have "insertion_sort_incomplete_loop m first (i - 1) i last' cnt cmp =
        insertion_sort_incomplete_loop ?m first i (Suc i) last' cnt cmp"
      by (subst unfold) (simp add: mem_simps Let_def)
    with ih [of cnt] show ?thesis by simp
  qed
qed

lemma sorted_by_adjacent:
  assumes "b \<le> length m" "\<forall>i. a \<le> i \<and> Suc i < b \<longrightarrow> \<not> cmp (m ! Suc i) (m ! i)"
  shows "sorted_by cmp (seg m a b)"
  unfolding sorted_by_seg_iff [OF assms(1)]
proof (intro allI impI)
  fix i j assume "a \<le> i \<and> i < j \<and> j < b"
  then have "Suc i \<le> j" "a \<le> i" "j < b" by auto
  then show "\<not> cmp (m ! j) (m ! i)"
  proof (induction j rule: dec_induct)
    case (step n)
    then show ?case using assms(2) neg_trans [of "m ! Suc n" "m ! n" "m ! i"] by simp
  qed (use assms(2) in simp)
qed

text \<open>The fixed-size sorts on consecutive places.\<close>

lemma sort2_range_swo:
  assumes "b = a + 2" "b \<le> length m" "m' = (if cmp (m ! (a + 1)) (m ! a) then swap_at m a (a + 1) else m)"
  shows "permuted m m' a b \<and> sorted_by cmp (seg m' a b)"
proof
  show "permuted m m' a b" using assms by (simp add: permuted_swap_at)
  have "seg m' a b = [m' ! a, m' ! (a + 1)]" using assms by (simp add: seg_Cons)
  then show "sorted_by cmp (seg m' a b)"
    using assms asym [of "m ! (a + 1)" "m ! a"] by (simp add: nth_swap_at)
qed

lemma sort3_range_swo:
  assumes "b = a + 3" "b \<le> length m"
  shows "\<exists>m'. sort3_maybe_branchless br m a (a + 1) (b - 1) cmp = Some m' \<and> permuted m m' a b \<and> sorted_by cmp (seg m' a b)"
proof -
  obtain m' where m': "sort3_maybe_branchless br m a (a + 1) (a + 2) cmp = Some m'" "exchanged m {a, a + 1, a + 2} m'"
      "\<not> cmp (m' ! (a + 1)) (m' ! a)" "\<not> cmp (m' ! (a + 2)) (m' ! (a + 1))"
    using sort3_maybe_branchless_swo [of a m "a + 1" "a + 2" br] assms by auto
  have "permuted m m' a b" by (rule exchanged_permuted [OF m'(2)]) (use assms in auto)
  moreover have "\<forall>i. a \<le> i \<and> Suc i < b \<longrightarrow> i = a \<or> i = a + 1" using assms(1) by auto
  then have "sorted_by cmp (seg m' a b)"
    using assms m' exchanged_length [OF m'(2)] by (intro sorted_by_adjacent) auto
  ultimately show ?thesis using m'(1) assms(1) by simp
qed

lemma sort4_range_swo:
  assumes "b = a + 4" "b \<le> length m"
  shows "\<exists>m'. sort4_maybe_branchless br m a (a + 1) (a + 2) (b - 1) cmp = Some m' \<and>
    permuted m m' a b \<and> sorted_by cmp (seg m' a b)"
proof -
  obtain m' where m': "sort4_maybe_branchless br m a (a + 1) (a + 2) (a + 3) cmp = Some m'" "exchanged m {a, a + 1, a + 2, a + 3} m'"
      "\<not> cmp (m' ! (a + 1)) (m' ! a)" "\<not> cmp (m' ! (a + 2)) (m' ! (a + 1))" "\<not> cmp (m' ! (a + 3)) (m' ! (a + 2))"
    using sort4_maybe_branchless_swo [of a m "a + 1" "a + 2" "a + 3" br] assms by auto
  have "permuted m m' a b" by (rule exchanged_permuted [OF m'(2)]) (use assms in auto)
  moreover have "\<forall>i. a \<le> i \<and> Suc i < b \<longrightarrow> i = a \<or> i = a + 1 \<or> i = a + 2" using assms(1) by auto
  then have "sorted_by cmp (seg m' a b)"
    using assms m' exchanged_length [OF m'(2)] by (intro sorted_by_adjacent) (auto simp: eval_nat_numeral)
  ultimately show ?thesis using m'(1) assms(1) by (auto simp: add.commute)
qed

lemma sort5_range_swo:
  assumes "b = a + 5" "b \<le> length m"
  shows "\<exists>m'. sort5_maybe_branchless br m a (a + 1) (a + 2) (a + 3) (b - 1) cmp = Some m' \<and>
    permuted m m' a b \<and> sorted_by cmp (seg m' a b)"
proof -
  obtain m' where m': "sort5_maybe_branchless br m a (a + 1) (a + 2) (a + 3) (a + 4) cmp = Some m'"
      "exchanged m {a, a + 1, a + 2, a + 3, a + 4} m'"
      "\<not> cmp (m' ! (a + 1)) (m' ! a)" "\<not> cmp (m' ! (a + 2)) (m' ! (a + 1))" "\<not> cmp (m' ! (a + 3)) (m' ! (a + 2))"
      "\<not> cmp (m' ! (a + 4)) (m' ! (a + 3))"
    using sort5_maybe_branchless_swo [of a m "a + 1" "a + 2" "a + 3" "a + 4" br] assms by auto
  have "permuted m m' a b" by (rule exchanged_permuted [OF m'(2)]) (use assms in auto)
  moreover have "\<forall>i. a \<le> i \<and> Suc i < b \<longrightarrow> i = a \<or> i = a + 1 \<or> i = a + 2 \<or> i = a + 3" using assms(1) by auto
  then have "sorted_by cmp (seg m' a b)"
    using assms m' exchanged_length [OF m'(2)] by (intro sorted_by_adjacent) (auto simp: eval_nat_numeral)
  ultimately show ?thesis using m'(1) assms(1) by (auto simp: add.commute)
qed

lemma insertion_sort_incomplete_swo:
  assumes "a \<le> b" "b \<le> length m"
  shows "\<exists>m' r. insertion_sort_incomplete br m a b cmp = Some (m', r) \<and> permuted m m' a b \<and>
    (r \<longrightarrow> sorted_by cmp (seg m' a b))"
proof -
  consider "b = a \<or> b = a + 1" | "b = a + 2" | "b = a + 3" | "b = a + 4" | "b = a + 5" | "b > a + 5" using assms(1) by linarith
  then show ?thesis
  proof cases
    case 1
    then show ?thesis using assms by (auto simp: insertion_sort_incomplete_def seg_Cons)
  next
    case 2
    let ?m = "if cmp (m ! (a + 1)) (m ! a) then swap_at m a (a + 1) else m"
    have "insertion_sort_incomplete br m a b cmp = Some (?m, True)"
      using 2 assms by (simp add: insertion_sort_incomplete_def rd_Some iter_swap_at)
    then show ?thesis using sort2_range_swo [OF 2 assms(2) refl] by blast
  next
    case 3
    then show ?thesis using assms sort3_range_swo [OF 3, of m br] by (auto simp: insertion_sort_incomplete_def)
  next
    case 4
    then show ?thesis using assms sort4_range_swo [OF 4, of m br] by (auto simp: insertion_sort_incomplete_def)
  next
    case 5
    then show ?thesis using assms sort5_range_swo [OF 5, of m br] by (auto simp: insertion_sort_incomplete_def)
  next
    case 6
    obtain m1 where m1: "sort3_maybe_branchless br m a (a + 1) (a + 2) cmp = Some m1"
        "permuted m m1 a (a + 3)" "sorted_by cmp (seg m1 a (a + 3))"
      using sort3_range_swo [of "a + 3" a m br] assms 6 by auto
    note p1 = permuted_mono [OF m1(2), of a b]
    obtain m' r where m': "insertion_sort_incomplete_loop m1 a (a + 2) (a + 3) b 0 cmp = Some (m', r)"
        "permuted m1 m' a b" "r \<longrightarrow> sorted_by cmp (seg m' a b)"
      using insertion_sort_incomplete_loop_swo [of a "a + 3" b m1 0] m1 assms 6 permuted_length [OF m1(2)] by auto
    have "b - a \<noteq> 0" "b - a \<noteq> 1" "b - a \<noteq> 2" "b - a \<noteq> 3" "b - a \<noteq> 4" "b - a \<noteq> 5" using 6 by auto
    then have "insertion_sort_incomplete br m a b cmp = Some (m', r)"
      unfolding insertion_sort_incomplete_def using m1(1) m'(1) by (simp add: Let_def eval_nat_numeral)
    then show ?thesis using m'(3) permuted_trans [OF p1 m'(2)] 6 by simp
  qed
qed

lemma selection_sort_loop_swo:
  assumes "a \<le> first" "first < b" "b \<le> length m" "sorted_by cmp (seg m a first)"
    "\<forall>i j. a \<le> i \<and> i < first \<and> first \<le> j \<and> j < b \<longrightarrow> \<not> cmp (m ! j) (m ! i)"
  shows "\<exists>m'. selection_sort_loop m first (b - 1) b cmp = Some m' \<and> permuted m m' a b \<and> sorted_by cmp (seg m' a b)"
  using assms
proof (induction "b - first" arbitrary: m first)
  case (Suc n)
  note unfold = selection_sort_loop.simps [of m first "b - 1" b cmp]
  show ?case
  proof (cases "Suc first = b")
    case True
    then have "seg m a b = seg m a first @ [m ! first]" using Suc.prems seg_snoc [of a first m] by simp
    then have "sorted_by cmp (seg m a b)" using Suc.prems True by (auto simp: in_set_seg)
    moreover have "selection_sort_loop m first (b - 1) b cmp = Some m" using True by (subst unfold) auto
    ultimately show ?thesis by simp
  next
    case False
    obtain k where k: "min_element_impl m first b cmp = Some k" "first_min cmp m first b k"
      using min_element_swo [of first b m] Suc.prems by (auto simp: min_element_def)
    then have kb: "first \<le> k" "k < b" "\<forall>j. first \<le> j \<and> j < b \<longrightarrow> \<not> cmp (m ! j) (m ! k)"
      by (auto simp: first_min_def)
    let ?m = "swap_at m first k"
    have step: "selection_sort_loop m first (b - 1) b cmp = selection_sort_loop ?m (Suc first) (b - 1) b cmp"
      using Suc.prems False k(1) kb by (subst unfold) (auto simp: iter_swap_at swap_at_def)
    have nth: "?m ! j = (if j = first then m ! k else if j = k then m ! first else m ! j)" for j
      using Suc.prems kb by (simp add: nth_swap_at)
    have "seg ?m a first = seg m a first"
      using Suc.prems kb by (intro nth_equalityI) (auto simp: nth)
    then have srt: "sorted_by cmp (seg ?m a (Suc first))"
      using Suc.prems kb seg_snoc [of a first ?m] by (auto simp: in_set_seg nth)
    have inv: "\<forall>i j. a \<le> i \<and> i < Suc first \<and> Suc first \<le> j \<and> j < b \<longrightarrow> \<not> cmp (?m ! j) (?m ! i)"
      using Suc.prems kb by (auto simp: nth less_Suc_eq)
    have p: "permuted m ?m a b" using Suc.prems kb by (intro permuted_swap_at) auto
    have "n = b - Suc first" "Suc first < b" using Suc.hyps(2) False Suc.prems by auto
    then obtain m' where "selection_sort_loop ?m (Suc first) (b - 1) b cmp = Some m'" "permuted ?m m' a b" "sorted_by cmp (seg m' a b)"
      using Suc.hyps(1) [of "Suc first" ?m] srt inv Suc.prems by auto
    with step p show ?thesis using permuted_trans by auto
  qed
qed simp

lemma selection_sort_swo:
  assumes "a < b" "b \<le> length m"
  shows "\<exists>m'. selection_sort m a b cmp = Some m' \<and> permuted m m' a b \<and> sorted_by cmp (seg m' a b)"
proof -
  have "\<forall>i j. a \<le> i \<and> i < a \<and> a \<le> j \<and> j < b \<longrightarrow> \<not> cmp (m ! j) (m ! i)" by auto
  with assms selection_sort_loop_swo [of a a b m] show ?thesis by (simp add: selection_sort_def)
qed

lemma insertion_sort_swo:
  assumes "a \<le> b" "b \<le> length m"
  shows "\<exists>m'. insertion_sort m a b cmp = Some m' \<and> permuted m m' a b \<and> sorted_by cmp (seg m' a b) \<and>
    (\<forall>z. eq_class cmp z (seg m' a b) = eq_class cmp z (seg m a b))"
proof -
  let ?ys = "ins_sort cmp [] (seg m a b)"
  have len: "length ?ys = b - a" using assms by simp
  have seg: "seg (put_at m a ?ys) a b = ?ys" and fr: "frame m (put_at m a ?ys) a b"
    using seg_put_at [of a ?ys m] frame_put_at [of a ?ys m] len assms by simp_all
  have "mset (put_at m a ?ys) = mset (take a m) + mset ?ys + mset (drop b m)"
    using len assms by (simp add: put_at_def put_seg_def)
  also have "\<dots> = mset (take a m @ seg m a b @ drop b m)" by simp
  finally have "permuted m (put_at m a ?ys) a b" using fr split_seg [OF assms(1), of m] by (simp add: permuted_def)
  then show ?thesis
    using insertion_sort_eq [OF assms] seg sorted_ins_sort [of "[]"] ins_sort_class [of "[]"] by simp
qed

end

section \<open>Properties\<close>

text \<open>
  \<^verbatim>\<open>__insertion_sort\<close> sorts its range, for every strict weak order, without leaving it, and is stable:
  equivalent elements keep their order.  Where the element before the range is not greater than any
  of its elements, the unguarded version never reaches its assertion and gives the same result.
\<close>

theorem insertion_sorts_correct:
  assumes "strict_weak_order cmp" "a \<le> b" "b \<le> length m"
  shows "\<exists>m'. insertion_sort m a b cmp = Some m' \<and> permuted m m' a b \<and> sorted_by cmp (seg m' a b) \<and>
    (\<forall>z. eq_class cmp z (seg m' a b) = eq_class cmp z (seg m a b)) \<and>
    (0 < a \<and> (\<forall>x \<in> set (seg m a b). \<not> cmp x (m ! (a - 1))) \<longrightarrow> insertion_sort_unguarded m a b cmp = Some m')"
  using strict_weak_order.insertion_sort_swo [OF assms] insertion_sort_unguarded_eq [OF assms(2,3), of cmp] by auto

theorem insertion_sorts_correct_witness:
  "\<exists>m'. insertion_sort [0, 3, 1, 2 :: int] 1 4 less_op = Some m' \<and> permuted [0, 3, 1, 2] m' 1 4 \<and>
    sorted_by less_op (seg m' 1 4) \<and> insertion_sort_unguarded [0, 3, 1, 2 :: int] 1 4 less_op = Some m'"
  using insertion_sorts_correct [OF less.strict_weak_order_axioms, of 1 4 "[0, 3, 1, 2 :: int]"]
  by (auto simp: seg_def less_op_def)

end
