(* ===== verification/Sort_Partition.thy ===== *)
theory Sort_Partition
  imports Sort_Small
begin

text \<open>
  The partition steps of \<^verbatim>\<open>__introsort\<close> in \<^verbatim>\<open>sort.h\<close>: \<^verbatim>\<open>__partition_with_equals_on_right\<close>
  and \<^verbatim>\<open>__partition_with_equals_on_left\<close>.  The scans of the source have no bounds check: they
  rely on an element of the other side, which the choice of the pivot provides; running past it
  fails an assertion of the source, which is \<open>None\<close> here.
\<close>

section \<open>Definitions\<close>

text \<open>
  The four scan loops; \<open>q\<close> is the loop condition on the element, and in the bounded scans the
  condition that ends the loop.
\<close>

function scan_up :: "'a mem \<Rightarrow> iter \<Rightarrow> iter \<Rightarrow> ('a \<Rightarrow> bool) \<Rightarrow> iter option" where
  "scan_up m first end' q =
     (let first = Suc first in
      if first = end' then None
      else do { x \<leftarrow> rd m first; if q x then scan_up m first end' q else Some first })"
  by pat_completeness auto
termination
  by (relation "measure (\<lambda>(m, first, end', q). length m - first)") auto

function scan_down :: "'a mem \<Rightarrow> iter \<Rightarrow> iter \<Rightarrow> ('a \<Rightarrow> bool) \<Rightarrow> iter option" where
  "scan_down m begin' last' q =
     (if last' = begin' \<or> last' = 0 then None
      else do {
        let last' = last' - 1;
        x \<leftarrow> rd m last';
        if q x then scan_down m begin' last' q else Some last'
      })"
  by pat_completeness auto
termination
  by (relation "measure (\<lambda>(m, begin', last', q). last')") auto

function scan_up_bounded :: "'a mem \<Rightarrow> iter \<Rightarrow> iter \<Rightarrow> ('a \<Rightarrow> bool) \<Rightarrow> iter option" where
  "scan_up_bounded m first last' q =
     (let first = Suc first in
      if first < last' then do { x \<leftarrow> rd m first; if q x then Some first else scan_up_bounded m first last' q }
      else Some first)"
  by pat_completeness auto
termination
  by (relation "measure (\<lambda>(m, first, last', q). last' - first)") auto

function scan_down_bounded :: "'a mem \<Rightarrow> iter \<Rightarrow> iter \<Rightarrow> ('a \<Rightarrow> bool) \<Rightarrow> iter option" where
  "scan_down_bounded m first last' q =
     (if first < last' then do {
        let last' = last' - 1;
        x \<leftarrow> rd m last';
        if q x then Some last' else scan_down_bounded m first last' q
      } else Some last')"
  by pat_completeness auto
termination
  by (relation "measure (\<lambda>(m, first, last', q). last')") auto

declare scan_up.simps [simp del] scan_down.simps [simp del] scan_up_bounded.simps [simp del]
  scan_down_bounded.simps [simp del]

lemma scan_up_greater: "scan_up m first e q = Some f \<Longrightarrow> first < f \<and> f < length m"
proof (induction m first e q rule: scan_up.induct)
  case (1 m first e q)
  then show ?case by (subst (asm) (2) scan_up.simps) (auto simp: Let_def bind_eq_Some_conv split: if_splits)
qed

text \<open>
  The main loop of both partitions: exchange, then scan for the next pair; \<open>q_up\<close> and \<open>q_down\<close>
  are the loop conditions of the two scans.
\<close>

function partition_swap_loop ::
    "'a mem \<Rightarrow> iter \<Rightarrow> iter \<Rightarrow> iter \<Rightarrow> iter \<Rightarrow> ('a \<Rightarrow> bool) \<Rightarrow> ('a \<Rightarrow> bool) \<Rightarrow> ('a mem \<times> iter) option" where
  "partition_swap_loop m begin' end' first last' q_up q_down =
     (if first < last' then do {
        m \<leftarrow> iter_swap m first last';
        first \<leftarrow> scan_up m first end' q_up;
        last' \<leftarrow> scan_down m begin' last' q_down;
        partition_swap_loop m begin' end' first last' q_up q_down
      } else Some (m, first))"
  by pat_completeness auto
termination
  by (relation "measure (\<lambda>(m, begin', end', first, last', q_up, q_down). length m - first)")
    (auto dest!: scan_up_greater)

declare partition_swap_loop.simps [simp del]

text \<open>The pivot moves to the place before \<open>first\<close>.\<close>

definition place_pivot :: "'a mem \<Rightarrow> iter \<Rightarrow> iter \<Rightarrow> 'a \<Rightarrow> ('a mem \<times> iter) option" where
  "place_pivot m begin' first pivot =
     (if first = 0 then None
      else do {
        let pivot_pos = first - 1;
        m \<leftarrow> (if begin' \<noteq> pivot_pos then do { x \<leftarrow> rd m pivot_pos; wr m begin' x } else Some m);
        m \<leftarrow> wr m pivot_pos pivot;
        Some (m, pivot_pos)
      })"

definition partition_with_equals_on_right ::
    "'a mem \<Rightarrow> iter \<Rightarrow> iter \<Rightarrow> ('a \<Rightarrow> 'a \<Rightarrow> bool) \<Rightarrow> ('a mem \<times> iter \<times> bool) option" where
  "partition_with_equals_on_right m begin' end' cmp =
     (if end' - begin' < 3 then None
      else do {
        pivot \<leftarrow> rd m begin';
        first \<leftarrow> scan_up m begin' end' (\<lambda>x. cmp x pivot);
        last' \<leftarrow> (if begin' = first - 1 then scan_down_bounded m first end' (\<lambda>x. cmp x pivot)
                  else scan_down m begin' end' (\<lambda>x. \<not> cmp x pivot));
        let already_partitioned = (first \<ge> last');
        (m, first) \<leftarrow> partition_swap_loop m begin' end' first last' (\<lambda>x. cmp x pivot) (\<lambda>x. \<not> cmp x pivot);
        (m, pivot_pos) \<leftarrow> place_pivot m begin' first pivot;
        Some (m, pivot_pos, already_partitioned)
      })"

definition partition_with_equals_on_left ::
    "'a mem \<Rightarrow> iter \<Rightarrow> iter \<Rightarrow> ('a \<Rightarrow> 'a \<Rightarrow> bool) \<Rightarrow> ('a mem \<times> iter) option" where
  "partition_with_equals_on_left m begin' end' cmp = do {
     pivot \<leftarrow> rd m begin';
     z \<leftarrow> rd m (end' - 1);
     first \<leftarrow> (if cmp pivot z then scan_up m begin' end' (\<lambda>x. \<not> cmp pivot x)
               else scan_up_bounded m begin' end' (\<lambda>x. cmp pivot x));
     last' \<leftarrow> (if first < end' then scan_down m begin' end' (\<lambda>x. cmp pivot x) else Some end');
     (m, first) \<leftarrow> partition_swap_loop m begin' end' first last' (\<lambda>x. \<not> cmp pivot x) (\<lambda>x. cmp pivot x);
     (m, _) \<leftarrow> place_pivot m begin' first pivot;
     Some (m, first)
   }"

section \<open>The scans\<close>

lemma scan_up_spec:
  assumes "first < k" "k < e" "e \<le> length m" "\<not> q (m ! k)"
  shows "\<exists>f. scan_up m first e q = Some f \<and> first < f \<and> f \<le> k \<and> \<not> q (m ! f) \<and> (\<forall>i. first < i \<and> i < f \<longrightarrow> q (m ! i))"
  using assms
proof (induction "k - first" arbitrary: first)
  case (Suc n)
  note unfold = scan_up.simps [of m first]
  show ?case
  proof (cases "q (m ! Suc first)")
    case True
    with Suc.prems have "Suc first < k" by (metis Suc_lessI)
    moreover have "n = k - Suc first" using Suc.hyps(2) by simp
    ultimately obtain f where "scan_up m (Suc first) e q = Some f" "Suc first < f" "f \<le> k" "\<not> q (m ! f)"
        "\<forall>i. Suc first < i \<and> i < f \<longrightarrow> q (m ! i)"
      using Suc.hyps(1) Suc.prems by blast
    moreover have "\<forall>i. first < i \<and> i < f \<longrightarrow> q (m ! i)" using calculation(5) True by (metis Suc_lessI)
    ultimately show ?thesis using True Suc.prems by (auto simp: unfold Let_def rd_Some)
  next
    case False
    with Suc.prems show ?thesis by (auto simp: unfold Let_def rd_Some)
  qed
qed simp

lemma scan_down_spec:
  assumes "b \<le> k" "k < last'" "last' \<le> length m" "\<not> q (m ! k)"
  shows "\<exists>l. scan_down m b last' q = Some l \<and> k \<le> l \<and> l < last' \<and> \<not> q (m ! l) \<and> (\<forall>i. l < i \<and> i < last' \<longrightarrow> q (m ! i))"
  using assms
proof (induction last')
  case (Suc l)
  note unfold = scan_down.simps [of m b "Suc l"]
  show ?case
  proof (cases "q (m ! l)")
    case True
    with Suc.prems have "k < l" by (metis less_SucE)
    with Suc obtain r where r: "scan_down m b l q = Some r" "k \<le> r" "r < l" "\<not> q (m ! r)" "\<forall>i. r < i \<and> i < l \<longrightarrow> q (m ! i)"
      by auto
    then have "\<forall>i. r < i \<and> i < Suc l \<longrightarrow> q (m ! i)" using True by (auto simp: less_Suc_eq)
    with r True Suc.prems \<open>k < l\<close> show ?thesis by (auto simp: unfold Let_def rd_Some)
  next
    case False
    with Suc.prems show ?thesis by (auto simp: unfold Let_def rd_Some)
  qed
qed simp

lemma scan_up_bounded_spec:
  assumes "first < e" "e \<le> length m"
  shows "\<exists>f. scan_up_bounded m first e q = Some f \<and> first < f \<and> f \<le> e \<and> (f < e \<longrightarrow> q (m ! f)) \<and>
    (\<forall>i. first < i \<and> i < f \<longrightarrow> \<not> q (m ! i))"
  using assms
proof (induction "e - first" arbitrary: first)
  case (Suc n)
  note unfold = scan_up_bounded.simps [of m first]
  consider "Suc first = e" | "Suc first < e" "q (m ! Suc first)" | "Suc first < e" "\<not> q (m ! Suc first)"
    using Suc.prems by linarith
  then show ?case
  proof cases
    case 3
    have "n = e - Suc first" using Suc.hyps(2) by simp
    with Suc.hyps(1) 3 Suc.prems obtain f where f: "scan_up_bounded m (Suc first) e q = Some f" "Suc first < f" "f \<le> e"
        "f < e \<longrightarrow> q (m ! f)" "\<forall>i. Suc first < i \<and> i < f \<longrightarrow> \<not> q (m ! i)" by blast
    have "\<forall>i. first < i \<and> i < f \<longrightarrow> \<not> q (m ! i)" using f(5) 3 by (metis Suc_lessI)
    with f 3 Suc.prems show ?thesis by (auto simp: unfold Let_def rd_Some)
  qed (use Suc.prems in \<open>auto simp: unfold Let_def rd_Some\<close>)
qed simp

lemma scan_down_bounded_spec:
  assumes "first \<le> e" "e \<le> length m"
  shows "\<exists>l. scan_down_bounded m first e q = Some l \<and> first \<le> l \<and> l \<le> e \<and> (first < l \<and> l < e \<longrightarrow> q (m ! l)) \<and>
    (first < l \<longrightarrow> l < e) \<and> (\<forall>i. l < i \<and> i < e \<longrightarrow> \<not> q (m ! i))"
  using assms
proof (induction e)
  case 0
  then show ?case by (simp add: scan_down_bounded.simps [of m])
next
  case (Suc e)
  note unfold = scan_down_bounded.simps [of m first "Suc e"]
  consider "first = Suc e" | "first \<le> e" "q (m ! e)" | "first \<le> e" "\<not> q (m ! e)" using Suc.prems by linarith
  then show ?case
  proof cases
    case 1
    then show ?thesis by (auto simp: scan_down_bounded.simps [of m "Suc e"])
  next
    case 3
    with Suc obtain l where l: "scan_down_bounded m first e q = Some l" "first \<le> l" "l \<le> e" "first < l \<and> l < e \<longrightarrow> q (m ! l)"
        "first < l \<longrightarrow> l < e" "\<forall>i. l < i \<and> i < e \<longrightarrow> \<not> q (m ! i)" by auto
    then have "\<forall>i. l < i \<and> i < Suc e \<longrightarrow> \<not> q (m ! i)" using 3 by (auto simp: less_Suc_eq)
    with l 3 Suc.prems show ?thesis by (auto simp: unfold Let_def rd_Some)
  qed (use Suc.prems in \<open>auto simp: unfold Let_def rd_Some\<close>)
qed

section \<open>The main loop\<close>

text \<open>
  \<open>lo\<close> holds of the elements that belong to the left side.  The places \<open>(b, first)\<close> are done
  on the left, the places \<open>(last, e)\<close> on the right.
\<close>

lemma partition_swap_loop_spec:
  assumes "b < first" "first \<le> e" "last' \<le> e" "e \<le> length m" "first \<le> Suc last'" "first < last' \<longrightarrow> last' < e \<and> lo (m ! last')"
    "first < e \<longrightarrow> \<not> lo (m ! first)" "\<forall>i. b < i \<and> i < first \<longrightarrow> lo (m ! i)" "\<forall>i. last' < i \<and> i < e \<longrightarrow> \<not> lo (m ! i)"
  shows "\<exists>m' f. partition_swap_loop m b e first last' lo (\<lambda>x. \<not> lo x) = Some (m', f) \<and> permuted m m' (Suc b) e \<and>
    first \<le> f \<and> f \<le> e \<and> (\<forall>i. b < i \<and> i < f \<longrightarrow> lo (m' ! i)) \<and> (\<forall>i. f \<le> i \<and> i < e \<longrightarrow> \<not> lo (m' ! i))"
  using assms
proof (induction "last' - first" arbitrary: m first last' rule: less_induct)
  case less
  note unfold = partition_swap_loop.simps [of m b e first last' lo "\<lambda>x. \<not> lo x"]
  show ?case
  proof (cases "first < last'")
    case False
    have "\<not> lo (m ! i)" if "first \<le> i" "i < e" for i
    proof (cases "last' < i")
      case True
      with less.prems(9) that show ?thesis by blast
    next
      case nl: False
      with False that have "i = first" by simp
      with less.prems(7) that show ?thesis by simp
    qed
    with False less.prems(1,2,8) show ?thesis by (subst unfold) (auto intro!: exI [of _ m])
  next
    case True
    then have last: "last' < e" "lo (m ! last')" "\<not> lo (m ! first)" using less.prems by auto
    let ?m = "swap_at m first last'"
    have nth: "?m ! i = (if i = first then m ! last' else if i = last' then m ! first else m ! i)" for i
      using True last less.prems by (simp add: nth_swap_at)
    obtain f where f: "scan_up ?m first e lo = Some f" "first < f" "f \<le> last'" "\<not> lo (?m ! f)"
        "\<forall>i. first < i \<and> i < f \<longrightarrow> lo (?m ! i)"
      using scan_up_spec [of first last' e ?m lo] True last less.prems by (auto simp: nth)
    obtain l where l: "scan_down ?m b last' (\<lambda>x. \<not> lo x) = Some l" "first \<le> l" "l < last'" "lo (?m ! l)"
        "\<forall>i. l < i \<and> i < last' \<longrightarrow> \<not> lo (?m ! i)"
      using scan_down_spec [of b first last' ?m "\<lambda>x. \<not> lo x"] True last less.prems by (auto simp: nth)
    have left: "\<forall>i. b < i \<and> i < f \<longrightarrow> lo (?m ! i)"
    proof (intro allI impI)
      fix i assume "b < i \<and> i < f"
      then consider "b < i" "i < first" | "i = first" | "first < i" "i < f" by linarith
      then show "lo (?m ! i)" using f(5) less.prems(8) last True by cases (auto simp: nth)
    qed
    have right: "\<forall>i. l < i \<and> i < e \<longrightarrow> \<not> lo (?m ! i)"
    proof (intro allI impI)
      fix i assume "l < i \<and> i < e"
      then consider "l < i" "i < last'" | "i = last'" | "last' < i" "i < e" by linarith
      then show "\<not> lo (?m ! i)" using l(5) less.prems(9) last True by cases (auto simp: nth)
    qed
    have "f \<le> Suc l" using left right f l last by (metis Suc_lessI less_Suc_eq not_less_eq_eq le_less_trans leI)
    then have "\<exists>m' f'. partition_swap_loop ?m b e f l lo (\<lambda>x. \<not> lo x) = Some (m', f') \<and> permuted ?m m' (Suc b) e \<and>
        f \<le> f' \<and> f' \<le> e \<and> (\<forall>i. b < i \<and> i < f' \<longrightarrow> lo (m' ! i)) \<and> (\<forall>i. f' \<le> i \<and> i < e \<longrightarrow> \<not> lo (m' ! i))"
      using f l last less.prems left right by (intro less.hyps) auto
    then obtain m' f' where m': "partition_swap_loop ?m b e f l lo (\<lambda>x. \<not> lo x) = Some (m', f')" "permuted ?m m' (Suc b) e"
        "f \<le> f'" "f' \<le> e" "\<forall>i. b < i \<and> i < f' \<longrightarrow> lo (m' ! i)" "\<forall>i. f' \<le> i \<and> i < e \<longrightarrow> \<not> lo (m' ! i)" by blast
    have "permuted m ?m (Suc b) e" using less.prems last True by (intro permuted_swap_at) auto
    then have "permuted m m' (Suc b) e" using m'(2) permuted_trans by blast
    moreover have "partition_swap_loop m b e first last' lo (\<lambda>x. \<not> lo x) = Some (m', f')"
      using True last less.prems f(1) l(1) m'(1) by (subst unfold) (simp add: iter_swap_at)
    ultimately show ?thesis using m' f(2) by auto
  qed
qed

section \<open>The partitions\<close>

lemma place_pivot_spec:
  assumes "b < first" "first \<le> e" "e \<le> length m" "pivot = m ! b"
    "\<forall>i. b < i \<and> i < first \<longrightarrow> lo (m ! i)" "\<forall>i. first \<le> i \<and> i < e \<longrightarrow> hi (m ! i)"
  shows "\<exists>m'. place_pivot m b first pivot = Some (m', first - 1) \<and> permuted m m' b e \<and> m' ! (first - 1) = pivot \<and>
    (\<forall>i. b \<le> i \<and> i < first - 1 \<longrightarrow> lo (m' ! i)) \<and> (\<forall>i. first - 1 < i \<and> i < e \<longrightarrow> hi (m' ! i))"
proof -
  obtain p where p: "first = Suc p" "b \<le> p" "p < e" "p < length m" using assms by (cases first) auto
  let ?m = "swap_at m b p"
  have nth: "?m ! i = (if i = b then m ! p else if i = p then m ! b else m ! i)" for i
    using p assms by (simp add: nth_swap_at)
  have "place_pivot m b first pivot = Some (?m, p)"
    using p assms by (auto simp: place_pivot_def Let_def rd_Some wr_Some swap_at_def)
  moreover have "permuted m ?m b e" using p assms by (intro permuted_swap_at) auto
  moreover have "?m ! p = pivot" using assms(4) by (simp add: nth)
  moreover have "lo (?m ! i)" if "b \<le> i" "i < p" for i using that assms(5) p by (auto simp: nth)
  moreover have "hi (?m ! i)" if "p < i" "i < e" for i using that assms(6) p by (auto simp: nth)
  ultimately show ?thesis using p(1) by auto
qed

lemma permuted_outside: "permuted m m' (Suc b) e \<Longrightarrow> m' ! b = m ! b \<and> permuted m m' b e"
  by (auto simp: permuted_nth intro: permuted_mono)

lemma partition_with_equals_on_right_spec:
  assumes "b + 3 \<le> e" "e \<le> length m" "b < k" "k < e" "\<not> cmp (m ! k) (m ! b)"
  shows "\<exists>m' p al. partition_with_equals_on_right m b e cmp = Some (m', p, al) \<and> permuted m m' b e \<and>
    b \<le> p \<and> p < e \<and> (\<forall>i. b \<le> i \<and> i < p \<longrightarrow> cmp (m' ! i) (m' ! p)) \<and> (\<forall>i. p < i \<and> i < e \<longrightarrow> \<not> cmp (m' ! i) (m' ! p))"
proof -
  let ?lo = "\<lambda>x. cmp x (m ! b)"
  obtain f where f: "scan_up m b e ?lo = Some f" "b < f" "f \<le> k" "\<not> ?lo (m ! f)" "\<forall>i. b < i \<and> i < f \<longrightarrow> ?lo (m ! i)"
    using scan_up_spec [of b k e m ?lo] assms by auto
  obtain l where l: "(if b = f - 1 then scan_down_bounded m f e ?lo else scan_down m b e (\<lambda>x. \<not> ?lo x)) = Some l"
      "l \<le> e" "f \<le> Suc l" "f < l \<longrightarrow> l < e \<and> ?lo (m ! l)" "\<forall>i. l < i \<and> i < e \<longrightarrow> \<not> ?lo (m ! i)"
  proof (cases "b = f - 1")
    case True
    then show ?thesis using that scan_down_bounded_spec [of f e m ?lo] f assms by auto
  next
    case False
    then have "b < f - 1" "?lo (m ! (f - 1))" "f - 1 < e" using f assms by auto
    then obtain l where "scan_down m b e (\<lambda>x. \<not> ?lo x) = Some l" "f - 1 \<le> l" "l < e" "?lo (m ! l)"
        "\<forall>i. l < i \<and> i < e \<longrightarrow> \<not> ?lo (m ! i)"
      using scan_down_spec [of b "f - 1" e m "\<lambda>x. \<not> ?lo x"] f assms by auto
    then show ?thesis using that False f by auto
  qed
  obtain m1 f1 where m1: "partition_swap_loop m b e f l ?lo (\<lambda>x. \<not> ?lo x) = Some (m1, f1)" "permuted m m1 (Suc b) e"
      "f \<le> f1" "f1 \<le> e" "\<forall>i. b < i \<and> i < f1 \<longrightarrow> ?lo (m1 ! i)" "\<forall>i. f1 \<le> i \<and> i < e \<longrightarrow> \<not> ?lo (m1 ! i)"
    using partition_swap_loop_spec [of b f e l m ?lo] f l assms by auto
  note out = permuted_outside [OF m1(2)]
  obtain m2 where m2: "place_pivot m1 b f1 (m ! b) = Some (m2, f1 - 1)" "permuted m1 m2 b e" "m2 ! (f1 - 1) = m ! b"
      "\<forall>i. b \<le> i \<and> i < f1 - 1 \<longrightarrow> ?lo (m2 ! i)" "\<forall>i. f1 - 1 < i \<and> i < e \<longrightarrow> \<not> ?lo (m2 ! i)"
    using place_pivot_spec [of b f1 e m1 "m ! b" ?lo "\<lambda>x. \<not> ?lo x"] m1 f(2) out permuted_length [OF m1(2)] assms(2) by auto
  have "partition_with_equals_on_right m b e cmp = Some (m2, f1 - 1, f \<ge> l)"
    using assms(1,2) f(1) l(1) m1(1) m2(1) by (simp add: partition_with_equals_on_right_def rd_Some Let_def)
  moreover have "permuted m m2 b e" using out m2(2) permuted_trans by blast
  moreover have "b \<le> f1 - 1" "f1 - 1 < e" using f(2) m1(3,4) by auto
  ultimately show ?thesis using m2(3-5) by auto
qed

text \<open>The first two scans of the partitions that keep equivalent elements on the left.\<close>

lemma pivot_scan_up:
  assumes "b + 1 < e" "e \<le> length m"
  shows "\<exists>f. (if cmp (m ! b) (m ! (e - 1)) then scan_up m b e (\<lambda>x. \<not> cmp (m ! b) x) else scan_up_bounded m b e (cmp (m ! b))) = Some f \<and>
    b < f \<and> f \<le> e \<and> (f < e \<longrightarrow> cmp (m ! b) (m ! f)) \<and> (\<forall>i. b < i \<and> i < f \<longrightarrow> \<not> cmp (m ! b) (m ! i))"
proof (cases "cmp (m ! b) (m ! (e - 1))")
  case True
  have "b < e - 1" using assms by arith
  then show ?thesis using True scan_up_spec [of b "e - 1" e m "\<lambda>x. \<not> cmp (m ! b) x"] assms by auto
next
  case False
  then show ?thesis using scan_up_bounded_spec [of b e m "cmp (m ! b)"] assms by auto
qed

lemma pivot_scan_down:
  assumes "b < k" "k < e" "\<not> cmp (m ! b) (m ! k)" "e \<le> length m"
    "b < f" "f \<le> e" "f < e \<longrightarrow> cmp (m ! b) (m ! f)" "\<forall>i. b < i \<and> i < f \<longrightarrow> \<not> cmp (m ! b) (m ! i)"
  shows "\<exists>l. (if f < e then scan_down m b e (cmp (m ! b)) else Some e) = Some l \<and> l \<le> e \<and> f \<le> Suc l \<and>
    (f < l \<longrightarrow> l < e \<and> \<not> cmp (m ! b) (m ! l)) \<and> (\<forall>i. l < i \<and> i < e \<longrightarrow> cmp (m ! b) (m ! i)) \<and> b < l \<and> (f < e \<longrightarrow> f \<noteq> l)"
proof (cases "f < e")
  case True
  obtain l where l: "scan_down m b e (cmp (m ! b)) = Some l" "k \<le> l" "l < e" "\<not> cmp (m ! b) (m ! l)"
      "\<forall>i. l < i \<and> i < e \<longrightarrow> cmp (m ! b) (m ! i)"
    using scan_down_spec [of b k e m "cmp (m ! b)"] assms by auto
  have "f \<le> Suc l"
  proof (rule ccontr)
    assume "\<not> f \<le> Suc l"
    then have "b < Suc l" "Suc l < f" using l(2) assms(1) by auto
    with assms(6,8) l(5) show False by (metis lessI less_le_trans)
  qed
  with True l assms show ?thesis by auto
next
  case False
  with assms show ?thesis by auto
qed

lemma partition_with_equals_on_left_spec:
  assumes "b < k" "k < e" "e \<le> length m" "\<not> cmp (m ! b) (m ! k)"
  shows "\<exists>m' f. partition_with_equals_on_left m b e cmp = Some (m', f) \<and> permuted m m' b e \<and>
    b < f \<and> f \<le> e \<and> m' ! (f - 1) = m ! b \<and> (\<forall>i. b \<le> i \<and> i < f - 1 \<longrightarrow> \<not> cmp (m ! b) (m' ! i)) \<and>
    (\<forall>i. f \<le> i \<and> i < e \<longrightarrow> cmp (m ! b) (m' ! i))"
proof -
  let ?lo = "\<lambda>x. \<not> cmp (m ! b) x"
  obtain f where f: "(if cmp (m ! b) (m ! (e - 1)) then scan_up m b e ?lo else scan_up_bounded m b e (cmp (m ! b))) = Some f"
      "b < f" "f \<le> e" "f < e \<longrightarrow> \<not> ?lo (m ! f)" "\<forall>i. b < i \<and> i < f \<longrightarrow> ?lo (m ! i)"
    using pivot_scan_up [of b e m cmp] assms by auto
  obtain l where l: "(if f < e then scan_down m b e (cmp (m ! b)) else Some e) = Some l"
      "l \<le> e" "f \<le> Suc l" "f < l \<longrightarrow> l < e \<and> ?lo (m ! l)" "\<forall>i. l < i \<and> i < e \<longrightarrow> \<not> ?lo (m ! i)"
    using pivot_scan_down [of b k e cmp m f] assms f by auto
  obtain m1 f1 where m1: "partition_swap_loop m b e f l ?lo (\<lambda>x. \<not> ?lo x) = Some (m1, f1)" "permuted m m1 (Suc b) e"
      "f \<le> f1" "f1 \<le> e" "\<forall>i. b < i \<and> i < f1 \<longrightarrow> ?lo (m1 ! i)" "\<forall>i. f1 \<le> i \<and> i < e \<longrightarrow> \<not> ?lo (m1 ! i)"
    using partition_swap_loop_spec [of b f e l m ?lo] f l assms by auto
  note out = permuted_outside [OF m1(2)]
  obtain m2 where m2: "place_pivot m1 b f1 (m ! b) = Some (m2, f1 - 1)" "permuted m1 m2 b e" "m2 ! (f1 - 1) = m ! b"
      "\<forall>i. b \<le> i \<and> i < f1 - 1 \<longrightarrow> ?lo (m2 ! i)" "\<forall>i. f1 - 1 < i \<and> i < e \<longrightarrow> \<not> ?lo (m2 ! i)"
    using place_pivot_spec [of b f1 e m1 "m ! b" ?lo "\<lambda>x. \<not> ?lo x"] m1 f(2) out permuted_length [OF m1(2)] assms(3) by auto
  have "partition_with_equals_on_left m b e cmp = Some (m2, f1)"
    using assms f(1) l(1) m1(1) m2(1) by (simp add: partition_with_equals_on_left_def rd_Some Let_def)
  moreover have "permuted m m2 b e" using out m2(2) permuted_trans by blast
  moreover have "b < f1" using f(2) m1(3) by auto
  ultimately show ?thesis using m2(3-5) m1(4) by auto
qed

end
