(* ===== verification/Bit_Ops.thy ===== *)
theory Bit_Ops
  imports Prelude
begin

unbundle bit_operations_syntax

text \<open>
  Bit counting and related functions of \<^verbatim>\<open>cuda/std/__bit\<close>: \<^verbatim>\<open>countr.h\<close>, \<^verbatim>\<open>countl.h\<close>,
  \<^verbatim>\<open>blsr.h\<close>, \<^verbatim>\<open>integral.h\<close>, \<^verbatim>\<open>rotl.h\<close>, \<^verbatim>\<open>rotr.h\<close>, and \<^verbatim>\<open>bit_ffs.h\<close>, \<^verbatim>\<open>bit_msb.h\<close>
  of \<^verbatim>\<open>cuda/__bit\<close>.  An unsigned integer type of \<open>n\<close> bits is the type of words of that
  length.  The model follows the portable code paths; compiler builtins and device intrinsics are
  not part of the repository.
\<close>

section \<open>Definitions\<close>

subsection \<open>countr\_zero\<close>

function countr_zero_loop :: "32 word \<Rightarrow> nat \<Rightarrow> nat \<Rightarrow> nat" where
  "countr_zero_loop v pos i =
     (if i \<ge> 2 then
        (let mark = drop_bit (32 - i) (- 1) in
         if v AND mark = 0 then countr_zero_loop (drop_bit i v) (pos + i) (i div 2)
         else countr_zero_loop v pos (i div 2))
      else pos - unat (v AND 1))"
  by pat_completeness auto
termination
  by (relation "measure (\<lambda>(v, pos, i). i)") auto

definition countr_zero_impl_32 :: "32 word \<Rightarrow> nat" where
  "countr_zero_impl_32 v = (if v = 0 then 32 else if v AND 1 \<noteq> 0 then 0 else countr_zero_loop v 1 16)"

definition countr_zero_impl_64 :: "64 word \<Rightarrow> nat" where
  "countr_zero_impl_64 v =
     (if v = 0 then 32
      else let hi = ucast (drop_bit 32 v) :: 32 word; lo = ucast v :: 32 word in
        if lo \<noteq> 0 then countr_zero_impl_32 lo else 32 + countr_zero_impl_32 hi)"

fun countr_zero_chunks :: "nat \<Rightarrow> 'a::len word \<Rightarrow> nat" where
  "countr_zero_chunks 0 v = 0"
| "countr_zero_chunks (Suc n) v =
     (let value64 = ucast v :: 64 word in
      if value64 \<noteq> 0 then countr_zero_impl_64 value64 else 64 + countr_zero_chunks n (drop_bit 64 v))"

definition countr_zero :: "'a::len word \<Rightarrow> nat" where
  "countr_zero v =
     (if LENGTH('a) \<le> 32 then (if v \<noteq> 0 then countr_zero_impl_32 (ucast v) else LENGTH('a))
      else if LENGTH('a) \<le> 64 then (if v \<noteq> 0 then countr_zero_impl_64 (ucast v) else LENGTH('a))
      else countr_zero_chunks (LENGTH('a) div 64) v)"

definition countr_one :: "'a::len word \<Rightarrow> nat" where
  "countr_one v = countr_zero (NOT v)"

subsection \<open>countl\_zero\<close>

function countl_zero_loop :: "32 word \<Rightarrow> nat \<Rightarrow> nat \<Rightarrow> nat" where
  "countl_zero_loop v res i =
     (if i \<ge> 1 then
        (let mark = push_bit i (drop_bit (32 - i) (- 1)) in
         if v AND mark \<noteq> 0 then countl_zero_loop (drop_bit i v) (res OR i) (i div 2)
         else countl_zero_loop v res (i div 2))
      else 32 - 1 - res)"
  by pat_completeness auto
termination
  by (relation "measure (\<lambda>(v, res, i). i)") auto

definition countl_zero_impl_32 :: "32 word \<Rightarrow> nat" where
  "countl_zero_impl_32 v = (if v = 0 then 32 else countl_zero_loop v 0 16)"

definition countl_zero_impl_64 :: "64 word \<Rightarrow> nat" where
  "countl_zero_impl_64 v =
     (if v = 0 then 64
      else let hi = ucast (drop_bit 32 v) :: 32 word; lo = ucast v :: 32 word in
        if hi \<noteq> 0 then countl_zero_impl_32 hi else 32 + countl_zero_impl_32 lo)"

fun countl_zero_chunks :: "nat \<Rightarrow> 'a::len word \<Rightarrow> nat" where
  "countl_zero_chunks 0 v = 0"
| "countl_zero_chunks (Suc i) v =
     (let value64 = ucast (drop_bit (i * 64) v) :: 64 word in
      if value64 \<noteq> 0 then countl_zero_impl_64 value64 else 64 + countl_zero_chunks i v)"

definition countl_zero :: "'a::len word \<Rightarrow> nat" where
  "countl_zero v =
     (if LENGTH('a) \<le> 32 then countl_zero_impl_32 (ucast v) - (32 - LENGTH('a))
      else if LENGTH('a) \<le> 64 then countl_zero_impl_64 (ucast v) - (64 - LENGTH('a))
      else countl_zero_chunks (LENGTH('a) div 64) v)"

definition countl_one :: "'a::len word \<Rightarrow> nat" where
  "countl_one v = countl_zero (NOT v)"

subsection \<open>blsr, bit\_log2, bit\_width, bit\_ceil, bit\_floor\<close>

definition cccl_blsr :: "'a::len word \<Rightarrow> 'a word" where
  "cccl_blsr x = x XOR (x AND - x)"

text \<open>The result type of \<^verbatim>\<open>__bit_log2\<close> is \<^verbatim>\<open>uint32_t\<close>: for 0 it is the largest value.\<close>

definition bit_log2 :: "'a::len word \<Rightarrow> 32 word" where
  "bit_log2 t = word_of_int (int LENGTH('a) - 1 - int (countl_zero t))"

definition bit_width :: "'a::len word \<Rightarrow> int" where
  "bit_width t = sint (bit_log2 t + 1)"

text \<open>
  \<^verbatim>\<open>bit_ceil\<close> computes in \<^verbatim>\<open>_Up\<close>, at least 32 bits wide; here the wider type is the type of the
  argument itself, which gives the same: under the assertion the shifted bit fits the type of the argument.
  \<open>None\<close> is the failing assertion.
\<close>

definition bit_ceil :: "'a::len word \<Rightarrow> 'a word option" where
  "bit_ceil t =
     (if t \<le> (- 1) div 2
      then Some (if t \<le> 1 then 1 else push_bit (nat (bit_width (t - 1))) 1) else None)"

definition bit_floor :: "'a::len word \<Rightarrow> 'a word" where
  "bit_floor t = (if t = 0 then 0 else push_bit (unat (bit_log2 t)) 1)"

definition bit_ffs_impl_generic :: "'a::len word \<Rightarrow> nat" where
  "bit_ffs_impl_generic v = (if v = 0 then 0 else countr_zero v + 1)"

definition bit_msb :: "'a::len word \<Rightarrow> int" where
  "bit_msb v = sint (bit_log2 v)"

subsection \<open>Rotations\<close>

definition rotl_impl_generic :: "'a::len word \<Rightarrow> nat \<Rightarrow> 'a word" where
  "rotl_impl_generic v cnt =
     (let cnt_mod = cnt mod LENGTH('a) in
      if cnt_mod = 0 then v else push_bit cnt_mod v OR drop_bit (LENGTH('a) - cnt_mod) v)"

definition rotr_impl_generic :: "'a::len word \<Rightarrow> nat \<Rightarrow> 'a word" where
  "rotr_impl_generic v cnt =
     (let cnt_mod = cnt mod LENGTH('a) in
      if cnt_mod = 0 then v else drop_bit cnt_mod v OR push_bit (LENGTH('a) - cnt_mod) v)"

declare countr_zero_loop.simps [simp del] countl_zero_loop.simps [simp del]

section \<open>Lowest and highest set bit\<close>

definition lowest_bit :: "'a::len word \<Rightarrow> nat \<Rightarrow> bool" where
  "lowest_bit v n \<longleftrightarrow> bit v n \<and> (\<forall>k < n. \<not> bit v k)"

definition highest_bit :: "'a::len word \<Rightarrow> nat \<Rightarrow> bool" where
  "highest_bit v n \<longleftrightarrow> bit v n \<and> (\<forall>k. n < k \<longrightarrow> \<not> bit v k)"

lemma lowest_bit_unique: "lowest_bit v n \<Longrightarrow> lowest_bit v n' \<Longrightarrow> n = n'"
  unfolding lowest_bit_def by (metis linorder_neqE_nat)

lemma highest_bit_unique: "highest_bit v n \<Longrightarrow> highest_bit v n' \<Longrightarrow> n = n'"
  unfolding highest_bit_def by (metis linorder_neqE_nat)

lemma word_nonzero_bit: "v \<noteq> 0 \<longleftrightarrow> (\<exists>n. bit v n)" for v :: "'a::len word"
  by (metis bit_0_eq bot_apply bot_bool_def bit_eqI)

lemma highest_bit_length: "highest_bit v n \<Longrightarrow> n < LENGTH('a)" for v :: "'a::len word"
  by (auto simp: highest_bit_def dest: bit_imp_le_length)

lemma lowest_bit_length: "lowest_bit v n \<Longrightarrow> n < LENGTH('a)" for v :: "'a::len word"
  by (auto simp: lowest_bit_def dest: bit_imp_le_length)

lemma mask_low_zero: "i \<le> 32 \<Longrightarrow> v AND drop_bit (32 - i) (- 1) = 0 \<longleftrightarrow> (\<forall>n < i. \<not> bit v n)" for v :: "32 word"
proof -
  assume "i \<le> 32"
  then have "bit (v AND drop_bit (32 - i) (- 1)) n \<longleftrightarrow> n < i \<and> bit v n" for n
    using bit_imp_le_length [of v n] by (auto simp: bit_simps)
  then show ?thesis using word_nonzero_bit [of "v AND drop_bit (32 - i) (- 1)"] by blast
qed

lemma mask_high_zero:
  "2 * i \<le> 32 \<Longrightarrow> v AND push_bit i (drop_bit (32 - i) (- 1)) = 0 \<longleftrightarrow> (\<forall>n. i \<le> n \<and> n < 2 * i \<longrightarrow> \<not> bit v n)" for v :: "32 word"
proof -
  assume "2 * i \<le> 32"
  then have "bit (v AND push_bit i (drop_bit (32 - i) (- 1))) n \<longleftrightarrow> i \<le> n \<and> n < 2 * i \<and> bit v n" for n
    using bit_imp_le_length [of v n] by (auto simp: bit_simps)
  then show ?thesis using word_nonzero_bit [of "v AND push_bit i (drop_bit (32 - i) (- 1))"] by blast
qed

lemma lowest_bit_drop: "\<forall>n < i. \<not> bit v n \<Longrightarrow> lowest_bit (drop_bit i v) n \<Longrightarrow> lowest_bit v (i + n)"
  unfolding lowest_bit_def by (auto simp: bit_drop_bit_eq) (metis add_diff_inverse_nat nat_add_left_cancel_less)

lemma highest_bit_drop: "highest_bit (drop_bit i v) n \<Longrightarrow> highest_bit v (i + n)"
  unfolding highest_bit_def
  by (auto simp: bit_drop_bit_eq) (metis add_lessD1 less_imp_add_positive nat_add_left_cancel_less add.assoc)

lemma lowest_bit_exists: "v \<noteq> 0 \<Longrightarrow> \<exists>n. lowest_bit v n" for v :: "'a::len word"
  unfolding word_nonzero_bit lowest_bit_def using exists_least_iff [of "bit v"] by auto

lemma highest_bit_exists: "v \<noteq> 0 \<Longrightarrow> \<exists>n. highest_bit v n" for v :: "'a::len word"
proof -
  assume "v \<noteq> 0"
  then obtain k where "bit v k" by (auto simp: word_nonzero_bit)
  moreover have "finite {n. bit v n}" using finite_subset [of "{n. bit v n}" "{..<LENGTH('a)}"] by (auto dest: bit_imp_le_length)
  ultimately have "highest_bit v (Max {n. bit v n})"
    unfolding highest_bit_def using Max_in [of "{n. bit v n}"] Max_ge [of "{n. bit v n}"]
    by (metis (mono_tags, lifting) empty_iff leD mem_Collect_eq)
  then show ?thesis ..
qed

section \<open>The counting loops\<close>

lemma countr_zero_loop_step:
  "2 \<le> i \<Longrightarrow> i \<le> 32 \<Longrightarrow> countr_zero_loop v pos i =
     (if \<forall>n < i. \<not> bit v n then countr_zero_loop (drop_bit i v) (pos + i) (i div 2) else countr_zero_loop v pos (i div 2))"
  using mask_low_zero [of i v] unfolding Let_def by (subst countr_zero_loop.simps) (simp only: Let_def if_True)

lemma countl_zero_loop_step:
  "1 \<le> i \<Longrightarrow> 2 * i \<le> 32 \<Longrightarrow> countl_zero_loop v res i =
     (if \<forall>n. i \<le> n \<and> n < 2 * i \<longrightarrow> \<not> bit v n then countl_zero_loop v res (i div 2)
      else countl_zero_loop (drop_bit i v) (res OR i) (i div 2))"
  using mask_high_zero [of i v] unfolding Let_def by (subst countl_zero_loop.simps) (simp only: Let_def if_True not_True_eq_False if_False split: if_split, blast)

lemma countr_zero_loop_spec:
  assumes "lowest_bit v n" "n < 2 ^ Suc k" "k \<le> 4" "0 < pos"
  shows "countr_zero_loop v pos (2 ^ k) = pos - 1 + n"
  using assms
proof (induction k arbitrary: v n pos)
  case 0
  then have "n = 0 \<or> n = 1" by auto
  moreover have "v AND 1 = (if n = 0 then 1 else 0)"
    using 0(1) by (auto simp: lowest_bit_def and_one_eq odd_iff_mod_2_eq_one even_iff_mod_2_eq_zero bit_0)
  ultimately show ?case using 0 by (auto simp: countr_zero_loop.simps [of v])
next
  case (Suc k)
  let ?i = "2 ^ Suc k :: nat"
  have i: "2 \<le> ?i" "?i \<le> 32" "?i div 2 = 2 ^ k"
    using Suc.prems(3) power_increasing [of "Suc k" 5 "2::nat"] by simp_all
  note unfold = countr_zero_loop_step [OF i(1,2), of v pos, unfolded i(3)]
  show ?case
  proof (cases "\<forall>j < ?i. \<not> bit v j")
    case True
    have n: "?i \<le> n" using Suc.prems(1) True by (auto simp: lowest_bit_def not_less [symmetric])
    then have "lowest_bit (drop_bit ?i v) (n - ?i)"
      using Suc.prems(1) by (auto simp: lowest_bit_def bit_drop_bit_eq less_diff_conv2 add.commute)
    then have "countr_zero_loop (drop_bit ?i v) (pos + ?i) (2 ^ k) = pos + ?i - 1 + (n - ?i)"
      using Suc.IH [of "drop_bit ?i v" "n - ?i" "pos + ?i"] Suc.prems n by simp
    with True i n Suc.prems(4) show ?thesis by (subst unfold) auto
  next
    case False
    then have "n < ?i" using Suc.prems(1) unfolding lowest_bit_def by (metis not_less_iff_gr_or_eq order.strict_trans)
    then have "countr_zero_loop v pos (2 ^ k) = pos - 1 + n" using Suc by simp
    with False i show ?thesis by (subst unfold) auto
  qed
qed

lemma countr_zero_impl_32_spec: "lowest_bit v n \<Longrightarrow> countr_zero_impl_32 v = n"
proof -
  assume n: "lowest_bit v n"
  then have v: "v \<noteq> 0" "n < 32" by (auto simp: word_nonzero_bit lowest_bit_def dest: bit_imp_le_length)
  show ?thesis
  proof (cases "bit v 0")
    case True
    then have "n = 0" "v AND 1 \<noteq> 0" using n by (auto simp: lowest_bit_def and_one_eq bit_0 odd_iff_mod_2_eq_one)
    with v show ?thesis by (simp add: countr_zero_impl_32_def)
  next
    case False
    then have "v AND 1 = 0" by (simp add: and_one_eq bit_0 even_iff_mod_2_eq_zero)
    with v show ?thesis using countr_zero_loop_spec [OF n, of 4 1] by (simp add: countr_zero_impl_32_def)
  qed
qed

lemma countl_zero_loop_spec:
  assumes "highest_bit v n" "n < 2 ^ k" "k \<le> 5" "2 ^ k dvd res"
  shows "countl_zero_loop v res (2 ^ k div 2) = 31 - (res + n)"
  using assms
proof (induction k arbitrary: v n res)
  case 0
  then show ?case by (simp add: countl_zero_loop.simps [of v])
next
  case (Suc k)
  let ?i = "2 ^ k :: nat"
  have i: "1 \<le> ?i" "2 * ?i \<le> 32" "2 ^ Suc k div 2 = ?i"
    using Suc.prems(3) power_increasing [of "Suc k" 5 "2::nat"] by simp_all
  note unfold = countl_zero_loop_step [OF i(1,2), of v res]
  have dvd: "?i dvd res" using Suc.prems(4) by (metis dvd_mult_left dvd_trans power_Suc dvd_triv_right mult.commute)
  have "\<not> bit res k"
  proof -
    obtain q where "res = 2 ^ Suc k * q" using Suc.prems(4) by (rule dvdE)
    then have "res div 2 ^ k = 2 * q" by simp
    then show ?thesis by (simp add: bit_iff_odd)
  qed
  then have orr: "res OR ?i = res + ?i"
    by (intro disjunctive_add [symmetric]) (auto simp: bit_exp_iff)
  show ?case
  proof (cases "?i \<le> n")
    case True
    then have hi: "highest_bit (drop_bit ?i v) (n - ?i)"
      using Suc.prems(1) by (auto simp: highest_bit_def bit_drop_bit_eq)
    have "\<not> (\<forall>j. ?i \<le> j \<and> j < 2 * ?i \<longrightarrow> \<not> bit v j)" using True Suc.prems by (auto simp: highest_bit_def)
    moreover have "countl_zero_loop (drop_bit ?i v) (res + ?i) (2 ^ k div 2) = 31 - (res + ?i + (n - ?i))"
      using Suc.IH [OF hi, of "res + ?i"] Suc.prems dvd True by simp
    ultimately show ?thesis using i orr True unfolding i(3) by (subst unfold) auto
  next
    case False
    then have "\<forall>j. ?i \<le> j \<and> j < 2 * ?i \<longrightarrow> \<not> bit v j" using Suc.prems(1) by (auto simp: highest_bit_def)
    moreover have "countl_zero_loop v res (2 ^ k div 2) = 31 - (res + n)"
      using Suc.IH [OF Suc.prems(1), of res] Suc.prems dvd False by simp
    ultimately show ?thesis using i unfolding i(3) by (subst unfold) auto
  qed
qed

lemma countl_zero_impl_32_spec: "highest_bit v n \<Longrightarrow> countl_zero_impl_32 v = 31 - n"
proof -
  assume n: "highest_bit v n"
  then have v: "v \<noteq> 0" "n < 32" by (auto simp: word_nonzero_bit highest_bit_def dest: bit_imp_le_length)
  then show ?thesis using countl_zero_loop_spec [OF n, of 5 0] by (simp add: countl_zero_impl_32_def)
qed

lemma lowest_bit_ucast_low:
  "lowest_bit v n \<Longrightarrow> n < LENGTH('b) \<Longrightarrow> lowest_bit (ucast v :: 'b::len word) n" for v :: "'a::len word"
  by (auto simp: lowest_bit_def bit_simps)

lemma highest_bit_ucast_low:
  "highest_bit v n \<Longrightarrow> n < LENGTH('b) \<Longrightarrow> highest_bit (ucast v :: 'b::len word) n" for v :: "'a::len word"
  by (auto simp: highest_bit_def bit_simps)

lemma ucast_low_zero: "(ucast v :: 'b::len word) = 0 \<longleftrightarrow> (\<forall>n < LENGTH('b). \<not> bit v n)" for v :: "'a::len word"
  using word_nonzero_bit [of "ucast v :: 'b word"] by (auto simp: bit_simps)

lemma countr_zero_impl_64_spec: "lowest_bit v n \<Longrightarrow> countr_zero_impl_64 v = n"
proof -
  assume n: "lowest_bit v n"
  then have v: "v \<noteq> 0" "n < 64" by (auto simp: word_nonzero_bit lowest_bit_def dest: bit_imp_le_length)
  show ?thesis
  proof (cases "n < 32")
    case True
    then have "(ucast v :: 32 word) \<noteq> 0" using n by (auto simp: ucast_low_zero lowest_bit_def)
    with v True show ?thesis
      using countr_zero_impl_32_spec [OF lowest_bit_ucast_low [OF n]] by (simp add: countr_zero_impl_64_def Let_def)
  next
    case False
    then have "(ucast v :: 32 word) = 0" using n by (auto simp: ucast_low_zero lowest_bit_def)
    moreover have "lowest_bit (drop_bit 32 v) (n - 32)"
      using n False by (auto simp: lowest_bit_def bit_drop_bit_eq less_diff_conv2 add.commute)
    ultimately show ?thesis
      using v False countr_zero_impl_32_spec [OF lowest_bit_ucast_low [where 'b = 32], of "drop_bit 32 v" "n - 32"]
      by (simp add: countr_zero_impl_64_def Let_def)
  qed
qed

lemma countl_zero_impl_64_spec: "highest_bit v n \<Longrightarrow> countl_zero_impl_64 v = 63 - n"
proof -
  assume n: "highest_bit v n"
  then have v: "v \<noteq> 0" "n < 64" by (auto simp: word_nonzero_bit highest_bit_def dest: bit_imp_le_length)
  have bit32: "bit (ucast (drop_bit 32 v) :: 32 word) j \<longleftrightarrow> j < 32 \<and> bit v (32 + j)" for j
    by (auto simp: bit_simps)
  show ?thesis
  proof (cases "n < 32")
    case True
    then have "(ucast (drop_bit 32 v) :: 32 word) = 0"
      using n word_nonzero_bit [of "ucast (drop_bit 32 v) :: 32 word"] by (auto simp: bit32 highest_bit_def)
    with v True show ?thesis
      using countl_zero_impl_32_spec [OF highest_bit_ucast_low [OF n]] by (simp add: countl_zero_impl_64_def Let_def)
  next
    case False
    then have hi: "highest_bit (ucast (drop_bit 32 v) :: 32 word) (n - 32)" using n v(2) by (auto simp: highest_bit_def bit32)
    then have "(ucast (drop_bit 32 v) :: 32 word) \<noteq> 0" by (auto simp: word_nonzero_bit highest_bit_def)
    with v False show ?thesis
      using countl_zero_impl_32_spec [OF hi] by (simp add: countl_zero_impl_64_def Let_def)
  qed
qed

lemma countr_zero_chunks_spec:
  "lowest_bit v n \<Longrightarrow> n < 64 * c \<Longrightarrow> countr_zero_chunks c v = n" for v :: "'a::len word"
proof (induction c arbitrary: v n)
  case (Suc c)
  show ?case
  proof (cases "n < 64")
    case True
    then have "(ucast v :: 64 word) \<noteq> 0" using Suc.prems(1) by (auto simp: ucast_low_zero lowest_bit_def)
    with True show ?thesis
      using countr_zero_impl_64_spec [OF lowest_bit_ucast_low [OF Suc.prems(1)]] by (simp add: Let_def)
  next
    case False
    then have "(ucast v :: 64 word) = 0" using Suc.prems(1) by (auto simp: ucast_low_zero lowest_bit_def)
    moreover have "lowest_bit (drop_bit 64 v) (n - 64)"
      using Suc.prems(1) False by (auto simp: lowest_bit_def bit_drop_bit_eq less_diff_conv2 add.commute)
    ultimately show ?thesis using Suc.IH [of "drop_bit 64 v" "n - 64"] False Suc.prems(2) by (simp add: Let_def)
  qed
qed simp

lemma countl_zero_chunks_spec:
  "highest_bit v n \<Longrightarrow> n < 64 * c \<Longrightarrow> countl_zero_chunks c v = 64 * c - 1 - n" for v :: "'a::len word"
proof (induction c)
  case (Suc c)
  have bit64: "bit (ucast (drop_bit (c * 64) v) :: 64 word) j \<longleftrightarrow> j < 64 \<and> bit v (c * 64 + j)" for j
    by (auto simp: bit_simps)
  show ?case
  proof (cases "64 * c \<le> n")
    case True
    then have hi: "highest_bit (ucast (drop_bit (c * 64) v) :: 64 word) (n - c * 64)"
      using Suc.prems by (auto simp: highest_bit_def bit64 mult.commute)
    then have "(ucast (drop_bit (c * 64) v) :: 64 word) \<noteq> 0" by (auto simp: word_nonzero_bit highest_bit_def)
    with True Suc.prems show ?thesis using countl_zero_impl_64_spec [OF hi] by (simp add: Let_def)
  next
    case False
    then have "(ucast (drop_bit (c * 64) v) :: 64 word) = 0"
      using Suc.prems(1) word_nonzero_bit [of "ucast (drop_bit (c * 64) v) :: 64 word"] by (auto simp: bit64 highest_bit_def)
    with False Suc show ?thesis by (simp add: Let_def)
  qed
qed simp

section \<open>Results for every width\<close>

text \<open>Widths above 64 are multiples of 64.\<close>

definition wide_ok :: "nat \<Rightarrow> bool" where
  "wide_ok len \<longleftrightarrow> len \<le> 64 \<or> 64 dvd len"

lemma countr_zero_spec:
  fixes v :: "'a::len word"
  assumes "wide_ok LENGTH('a)" "lowest_bit v n"
  shows "countr_zero v = n"
proof -
  have v: "v \<noteq> 0" "n < LENGTH('a)" using assms(2) lowest_bit_length by (auto simp: word_nonzero_bit lowest_bit_def)
  then show ?thesis
    using assms countr_zero_impl_32_spec [OF lowest_bit_ucast_low [OF assms(2)]]
      countr_zero_impl_64_spec [OF lowest_bit_ucast_low [OF assms(2)]] countr_zero_chunks_spec [OF assms(2)]
    by (auto simp: countr_zero_def wide_ok_def)
qed

lemma countl_zero_spec:
  fixes v :: "'a::len word"
  assumes "wide_ok LENGTH('a)" "highest_bit v n"
  shows "countl_zero v = LENGTH('a) - 1 - n"
proof -
  have v: "v \<noteq> 0" "n < LENGTH('a)" using assms(2) highest_bit_length by (auto simp: word_nonzero_bit highest_bit_def)
  then show ?thesis
    using assms countl_zero_impl_32_spec [OF highest_bit_ucast_low [OF assms(2)]]
      countl_zero_impl_64_spec [OF highest_bit_ucast_low [OF assms(2)]] countl_zero_chunks_spec [OF assms(2)]
    by (auto simp: countl_zero_def wide_ok_def)
qed

lemma countr_zero_0:
  assumes "wide_ok LENGTH('a)"
  shows "countr_zero (0 :: 'a::len word) = LENGTH('a)"
proof -
  have "countr_zero_chunks c (0 :: 'a word) = 64 * c" for c by (induction c) (auto simp: Let_def)
  then show ?thesis using assms by (auto simp: countr_zero_def wide_ok_def)
qed

lemma countl_zero_0:
  assumes "wide_ok LENGTH('a)"
  shows "countl_zero (0 :: 'a::len word) = LENGTH('a)"
proof -
  have "countl_zero_chunks c (0 :: 'a word) = 64 * c" for c by (induction c) (auto simp: Let_def)
  then show ?thesis using assms by (auto simp: countl_zero_def wide_ok_def countl_zero_impl_32_def countl_zero_impl_64_def)
qed

lemma odd_and_minus: "odd u \<Longrightarrow> u AND - u = 1" for u :: "'a::len word"
proof -
  assume "odd u"
  then have "u - 1 = u XOR 1" by (auto simp: xor_one_eq)
  then have "- u = NOT (u XOR 1)" by (simp add: minus_eq_not_minus_1)
  then show ?thesis using \<open>odd u\<close> by (intro bit_eqI) (auto simp: bit_simps bit_0)
qed

lemma lowest_bit_push:
  assumes "lowest_bit v n"
  shows "v = push_bit n (drop_bit n v)" "odd (drop_bit n v)"
proof -
  have le: "n \<le> k" if "bit v k" for k using assms that unfolding lowest_bit_def by (meson not_le)
  show "v = push_bit n (drop_bit n v)"
    by (intro bit_eqI) (auto simp: bit_simps le dest: bit_imp_le_length)
  show "odd (drop_bit n v)" using assms by (simp add: lowest_bit_def bit_0 [symmetric] bit_drop_bit_eq)
qed

lemma lowest_bit_and_minus: "lowest_bit v n \<Longrightarrow> v AND - v = push_bit n 1" for v :: "'a::len word"
proof -
  assume n: "lowest_bit v n"
  let ?u = "drop_bit n v"
  have "v AND - v = push_bit n (?u AND - ?u)"
    by (metis lowest_bit_push(1) [OF n] push_bit_and push_bit_minus)
  then show ?thesis using odd_and_minus [OF lowest_bit_push(2) [OF n]] by simp
qed

lemma bit_cccl_blsr: "lowest_bit v n \<Longrightarrow> bit (cccl_blsr v) k \<longleftrightarrow> bit v k \<and> k \<noteq> n" for v :: "'a::len word"
  using lowest_bit_and_minus [of v n]
  by (auto simp: cccl_blsr_def bit_simps lowest_bit_def dest: bit_imp_le_length)

lemma highest_bit_bounds:
  fixes v :: "'a::len word"
  assumes "highest_bit v n"
  shows "2 ^ n \<le> unat v" "unat v < 2 ^ Suc n"
proof -
  have le: "k \<le> n" if "bit v k" for k using assms that unfolding highest_bit_def by (meson not_le)
  have "take_bit (Suc n) v = v"
    by (intro bit_eqI) (auto simp: bit_simps less_Suc_eq_le le dest: bit_imp_le_length)
  then have "unat v = take_bit (Suc n) (unat v)" by (metis unsigned_take_bit_eq)
  then show "unat v < 2 ^ Suc n" by (metis take_bit_nat_less_exp)
  have "odd (unat v div 2 ^ n)" using assms by (simp add: highest_bit_def bit_iff_odd [symmetric] bit_unsigned_iff)
  then have "unat v div 2 ^ n \<noteq> 0" by (metis even_zero)
  then show "2 ^ n \<le> unat v" by (metis div_less not_le)
qed

lemma bit_log2_spec:
  fixes v :: "'a::len word"
  assumes "wide_ok LENGTH('a)" "highest_bit v n" "LENGTH('a) < 2 ^ 31"
  shows "unat (bit_log2 v) = n" "bit_width v = int n + 1" "bit_msb v = int n"
proof -
  have n: "n < LENGTH('a)" by (rule highest_bit_length [OF assms(2)])
  then have eq: "bit_log2 v = of_nat n"
    using countl_zero_spec [OF assms(1,2)] by (simp add: bit_log2_def of_nat_diff)
  then show "unat (bit_log2 v) = n" using n assms(3) by (simp add: unsigned_of_nat take_bit_nat_eq_self)
  have *: "sint (of_nat k :: 32 word) = int k" if "k < 2 ^ 31" for k
    using that by (simp add: signed_of_nat signed_take_bit_int_eq_self)
  have "bit_log2 v + 1 = of_nat (Suc n)" by (simp add: eq add.commute)
  then show "bit_width v = int n + 1" using * [of "Suc n"] n assms(3) by (simp add: bit_width_def add.commute)
  show "bit_msb v = int n" using * [of n] n assms(3) by (simp add: bit_msb_def eq)
qed

lemma bit_log2_0:
  assumes "wide_ok LENGTH('a)"
  shows "bit_log2 (0 :: 'a::len word) = - 1" "bit_width (0 :: 'a word) = 0" "bit_msb (0 :: 'a word) = - 1"
  using countl_zero_0 [OF assms] by (simp_all add: bit_log2_def bit_width_def bit_msb_def)

lemma unat_push_bit_1: "n < LENGTH('a) \<Longrightarrow> unat (push_bit n (1 :: 'a::len word)) = 2 ^ n"
  by (simp only: unsigned_push_bit_eq unsigned_1) (simp add: push_bit_eq_mult take_bit_nat_eq_self)

lemma unat_exp: "n < LENGTH('a) \<Longrightarrow> unat ((2 :: 'a::len word) ^ n) = 2 ^ n"
  using unat_push_bit_1 [of n, where 'a = 'a] by simp

lemma bit_floor_spec:
  fixes v :: "'a::len word"
  assumes "wide_ok LENGTH('a)" "highest_bit v n" "LENGTH('a) < 2 ^ 31"
  shows "unat (bit_floor v) = 2 ^ n"
proof -
  have "v \<noteq> 0" using assms(2) by (auto simp: word_nonzero_bit highest_bit_def)
  then show ?thesis
    using bit_log2_spec [OF assms] highest_bit_length [OF assms(2)]
    by (simp add: bit_floor_def unat_exp)
qed

lemma bit_ceil_spec:
  fixes v :: "'a::len word"
  assumes "wide_ok LENGTH('a)" "LENGTH('a) < 2 ^ 31" "v \<le> (- 1) div 2"
  shows "\<exists>k r. bit_ceil v = Some r \<and> unat r = 2 ^ k \<and> unat v \<le> 2 ^ k \<and> (\<forall>j. unat v \<le> 2 ^ j \<longrightarrow> k \<le> j)"
proof (cases "v \<le> 1")
  case True
  then have "bit_ceil v = Some 1" "unat v \<le> 2 ^ 0" using assms(3) by (auto simp: bit_ceil_def word_le_nat_alt)
  then show ?thesis by (intro exI [of _ 0] exI [of _ 1]) auto
next
  case False
  then have v: "1 < unat v" by (simp add: word_le_nat_alt)
  then have v1: "unat (v - 1) = unat v - 1" by (intro unat_minus_one) auto
  with v have "v - 1 \<noteq> 0" by (metis unat_0 zero_less_diff less_irrefl)
  then obtain n where n: "highest_bit (v - 1) n" using highest_bit_exists by blast
  note b = highest_bit_bounds [OF n, unfolded v1]
  have "(2 :: nat) ^ 1 \<le> unat v" using v by simp
  also have "unat v < 2 ^ LENGTH('a)" by (rule unsigned_less)
  finally have "(2 :: nat) ^ 1 < 2 ^ LENGTH('a)" .
  then have "1 < LENGTH('a)" by (rule power_less_imp_less_exp [rotated]) simp
  then have two: "unat (2 :: 'a word) = 2" using unat_exp [of 1, where 'a = 'a] by simp
  have "unat ((- 1 :: 'a word) div 2) = (2 ^ LENGTH('a) - 1) div 2"
    unfolding unat_div two by (simp add: unsigned_minus_1_eq_mask mask_eq_exp_minus_1)
  moreover have "unat v \<le> unat ((- 1 :: 'a word) div 2)" using assms(3) by (simp only: word_le_nat_alt)
  moreover have "2 * y < x" if "y \<le> (x - 1) div 2" "0 < x" for x y :: nat using that by arith
  ultimately have "2 * unat v < 2 ^ LENGTH('a)" by (metis zero_less_power zero_less_numeral)
  with b(1) v have "(2 :: nat) ^ Suc n < 2 ^ LENGTH('a)" by (simp add: power_Suc)
  then have sn: "Suc n < LENGTH('a)" by (rule power_less_imp_less_exp [rotated]) simp
  have "bit_ceil v = Some (push_bit (Suc n) 1)"
    using assms False bit_log2_spec(2) [OF assms(1) n assms(2)] by (simp add: bit_ceil_def nat_add_distrib)
  moreover have "n < j" if "unat v \<le> 2 ^ j" for j
  proof (rule power_less_imp_less_exp [of 2])
    show "(2 :: nat) ^ n < 2 ^ j" using that b(1) v by linarith
  qed simp
  ultimately show ?thesis
    using sn b(2) v by (intro exI [of _ "Suc n"] exI [of _ "push_bit (Suc n) 1"]) (auto simp: unat_push_bit_1 Suc_le_eq simp del: push_bit_of_1 push_bit_Suc)
qed

lemma rotl_impl_generic_eq: "rotl_impl_generic v cnt = word_rotl cnt v" for v :: "'a::len word"
proof (rule bit_word_eqI)
  fix n assume n: "n < LENGTH('a)"
  define c where "c = cnt mod LENGTH('a)"
  have c: "c < LENGTH('a)" by (simp add: c_def)
  have rot: "bit (word_rotl cnt v) n \<longleftrightarrow> bit v ((n + (LENGTH('a) - c)) mod LENGTH('a))"
    using n by (simp add: bit_word_rotl_iff c_def)
  have gen: "rotl_impl_generic v cnt = (if c = 0 then v else push_bit c v OR drop_bit (LENGTH('a) - c) v)"
    by (simp add: rotl_impl_generic_def Let_def c_def)
  have high: "\<not> bit v k" if "LENGTH('a) \<le> k" for k using that bit_imp_le_length [of v k] by auto
  show "bit (rotl_impl_generic v cnt) n = bit (word_rotl cnt v) n"
  proof (cases "c \<le> n")
    case True
    then have "n + (LENGTH('a) - c) = LENGTH('a) + (n - c)" using c by simp
    then have "(n + (LENGTH('a) - c)) mod LENGTH('a) = n - c" using n by (simp only: mod_add_self1) simp
    with True n c high [of "LENGTH('a) - c + n"] show ?thesis
      unfolding rot gen by (auto simp: bit_push_bit_iff bit_or_iff bit_drop_bit_eq)
  next
    case False
    then have "(n + (LENGTH('a) - c)) mod LENGTH('a) = LENGTH('a) - c + n" using c by simp
    with False n c show ?thesis
      unfolding rot gen by (auto simp: bit_push_bit_iff bit_or_iff bit_drop_bit_eq)
  qed
qed

lemma rotr_impl_generic_eq: "rotr_impl_generic v cnt = word_rotr cnt v" for v :: "'a::len word"
proof (rule bit_word_eqI)
  fix n assume n: "n < LENGTH('a)"
  define c where "c = cnt mod LENGTH('a)"
  have c: "c < LENGTH('a)" by (simp add: c_def)
  have rot: "bit (word_rotr cnt v) n \<longleftrightarrow> bit v ((n + c) mod LENGTH('a))"
    using n by (simp add: bit_word_rotr_iff c_def mod_add_right_eq)
  have gen: "rotr_impl_generic v cnt = (if c = 0 then v else drop_bit c v OR push_bit (LENGTH('a) - c) v)"
    by (simp add: rotr_impl_generic_def Let_def c_def)
  have high: "\<not> bit v k" if "LENGTH('a) \<le> k" for k using that bit_imp_le_length [of v k] by auto
  show "bit (rotr_impl_generic v cnt) n = bit (word_rotr cnt v) n"
  proof (cases "n + c < LENGTH('a)")
    case True
    then show ?thesis using n c unfolding rot gen by (auto simp: bit_push_bit_iff bit_or_iff bit_drop_bit_eq add.commute)
  next
    case False
    then have "(n + c) mod LENGTH('a) = n + c - LENGTH('a)" using n c by (simp add: mod_if)
    moreover have "n - (LENGTH('a) - c) = n + c - LENGTH('a)" using False c by simp
    ultimately show ?thesis
      using False n c high [of "c + n"] unfolding rot gen by (auto simp: bit_push_bit_iff bit_or_iff bit_drop_bit_eq)
  qed
qed

section \<open>Properties\<close>

text \<open>
  On every unsigned type (up to 64 bits, or a multiple of 64 bits), \<^verbatim>\<open>countr_zero\<close> and
  \<^verbatim>\<open>countl_zero\<close> find the lowest and the highest set bit, also through the halving loops and the
  splitting into words; \<^verbatim>\<open>__cccl_blsr\<close> clears exactly the lowest set bit.
\<close>

theorem count_zero_correct:
  fixes v :: "'a::len word"
  assumes "wide_ok LENGTH('a)" "v \<noteq> 0"
  shows "lowest_bit v (countr_zero v) \<and> highest_bit v (LENGTH('a) - 1 - countl_zero v) \<and>
    (\<forall>k. bit (cccl_blsr v) k \<longleftrightarrow> bit v k \<and> k \<noteq> countr_zero v)"
proof -
  obtain n h where n: "lowest_bit v n" "highest_bit v h"
    using lowest_bit_exists [OF assms(2)] highest_bit_exists [OF assms(2)] by blast
  then show ?thesis
    using countr_zero_spec [OF assms(1)] countl_zero_spec [OF assms(1)] bit_cccl_blsr [of v n] highest_bit_length [of v h] by simp
qed

theorem count_zero_correct_witness:
  "lowest_bit (0x50 :: 16 word) (countr_zero (0x50 :: 16 word)) \<and> countr_zero (0x50 :: 16 word) = 4 \<and>
   countl_zero (0x50 :: 16 word) = 9 \<and> cccl_blsr (0x50 :: 16 word) = 0x40"
proof -
  have "lowest_bit (0x50 :: 16 word) (countr_zero (0x50 :: 16 word))"
    using count_zero_correct [of "0x50 :: 16 word"] by (simp add: wide_ok_def)
  moreover have "countr_zero (0x50 :: 16 word) = 4" "countl_zero (0x50 :: 16 word) = 9" "cccl_blsr (0x50 :: 16 word) = 0x40"
    by code_simp+
  ultimately show ?thesis by blast
qed

text \<open>
  C36: \<^verbatim>\<open>bit_ceil\<close> of a value up to half of the largest value is the least power of two that is not
  smaller.  For the one larger value whose result is representable, the highest power of two of
  the type, the assertion of the source fails although the value itself is the result.
\<close>

theorem bit_ceil_correct:
  fixes v :: "'a::len word"
  assumes "wide_ok LENGTH('a)" "LENGTH('a) < 2 ^ 31" "1 < LENGTH('a)"
  shows "(v \<le> (- 1) div 2 \<longrightarrow> (\<exists>k r. bit_ceil v = Some r \<and> unat r = 2 ^ k \<and> unat v \<le> 2 ^ k \<and> (\<forall>j. unat v \<le> 2 ^ j \<longrightarrow> k \<le> j)))
    \<and> bit_ceil (push_bit (LENGTH('a) - 1) 1 :: 'a word) = None"
proof
  show "v \<le> (- 1) div 2 \<longrightarrow> (\<exists>k r. bit_ceil v = Some r \<and> unat r = 2 ^ k \<and> unat v \<le> 2 ^ k \<and> (\<forall>j. unat v \<le> 2 ^ j \<longrightarrow> k \<le> j))"
    using bit_ceil_spec [OF assms(1,2)] by blast
  have two: "unat (2 :: 'a word) = 2" using unat_exp [of 1, where 'a = 'a] assms(3) by simp
  have "unat ((- 1 :: 'a word) div 2) = (2 ^ LENGTH('a) - 1) div 2"
    unfolding unat_div two by (simp add: unsigned_minus_1_eq_mask mask_eq_exp_minus_1)
  moreover have "(2 :: nat) ^ LENGTH('a) = 2 * 2 ^ (LENGTH('a) - 1)" by (metis len_gt_0 power_eq_if not_gr_zero)
  moreover have "(2 * x - 1) div 2 < x" if "0 < x" for x :: nat using that by arith
  moreover have "unat (push_bit (LENGTH('a) - 1) 1 :: 'a word) = 2 ^ (LENGTH('a) - 1)" by (rule unat_push_bit_1) simp
  ultimately have "unat ((- 1 :: 'a word) div 2) < unat (push_bit (LENGTH('a) - 1) 1 :: 'a word)"
    by (simp only: zero_less_power zero_less_numeral)
  then show "bit_ceil (push_bit (LENGTH('a) - 1) 1 :: 'a word) = None"
    by (simp only: bit_ceil_def word_le_nat_alt not_le [symmetric] if_False)
qed

theorem bit_ceil_correct_witness:
  "(\<exists>k r. bit_ceil (100 :: 8 word) = Some r \<and> unat r = 2 ^ k \<and> unat (100 :: 8 word) \<le> 2 ^ k \<and>
     (\<forall>j. unat (100 :: 8 word) \<le> 2 ^ j \<longrightarrow> k \<le> j)) \<and> bit_ceil (128 :: 8 word) = None"
proof -
  have "(100 :: 8 word) \<le> (- 1) div 2" "push_bit (LENGTH(8) - 1) 1 = (128 :: 8 word)" by code_simp+
  then show ?thesis using bit_ceil_correct [of "100 :: 8 word"] by (simp add: wide_ok_def)
qed

text \<open>
  The portable rotations undo each other, for every width and every count.
\<close>

theorem rotate_roundtrip:
  "rotr_impl_generic (rotl_impl_generic v cnt) cnt = v \<and> rotl_impl_generic (rotr_impl_generic v cnt) cnt = v"
  by (simp add: rotl_impl_generic_eq rotr_impl_generic_eq word_rot_rl word_rot_lr)

end
