(* ===== verification/Bitset_Partition.thy ===== *)
theory Bitset_Partition
  imports Sort_Partition Bit_Ops "HOL-Library.Signed_Division"
begin

unbundle bit_operations_syntax

text \<open>
  The block partition of \<^verbatim>\<open>sort.h\<close> for arithmetic types (\<^verbatim>\<open>__bitset_partition\<close> and its helpers):
  the outcomes of 64 comparisons on either side are collected in two 64-bit words, and misplaced
  elements are exchanged in pairs by taking the set bits of both words.  The bit counting functions
  are those of the theory of \<^verbatim>\<open>cuda/std/__bit\<close>.
\<close>

section \<open>Definitions\<close>

type_synonym bitset = "64 word"

text \<open>The loops that record the comparisons of \<open>size\<close> elements, upwards and downwards.\<close>

function populate_left_loop ::
    "'a mem \<Rightarrow> iter \<Rightarrow> ('a \<Rightarrow> 'a \<Rightarrow> bool) \<Rightarrow> 'a \<Rightarrow> nat \<Rightarrow> nat \<Rightarrow> bitset \<Rightarrow> bitset option" where
  "populate_left_loop m first cmp pivot size' j left_bitset =
     (if j < size' then do {
        x \<leftarrow> rd m (first + j);
        let comp_result = \<not> cmp x pivot;
        populate_left_loop m first cmp pivot size' (Suc j) (left_bitset OR push_bit j (of_bool comp_result))
      } else Some left_bitset)"
  by pat_completeness auto
termination
  by (relation "measure (\<lambda>(m, first, cmp, pivot, size', j, left_bitset). size' - j)") auto

function populate_right_loop ::
    "'a mem \<Rightarrow> iter \<Rightarrow> ('a \<Rightarrow> 'a \<Rightarrow> bool) \<Rightarrow> 'a \<Rightarrow> nat \<Rightarrow> nat \<Rightarrow> bitset \<Rightarrow> bitset option" where
  "populate_right_loop m lm1 cmp pivot size' j right_bitset =
     (if j < size' then
        (if lm1 < j then None
         else do {
           x \<leftarrow> rd m (lm1 - j);
           let comp_result = cmp x pivot;
           populate_right_loop m lm1 cmp pivot size' (Suc j) (right_bitset OR push_bit j (of_bool comp_result))
         })
      else Some right_bitset)"
  by pat_completeness auto
termination
  by (relation "measure (\<lambda>(m, lm1, cmp, pivot, size', j, right_bitset). size' - j)") auto

definition populate_left_bitset :: "'a mem \<Rightarrow> iter \<Rightarrow> ('a \<Rightarrow> 'a \<Rightarrow> bool) \<Rightarrow> 'a \<Rightarrow> bitset \<Rightarrow> bitset option" where
  "populate_left_bitset m first cmp pivot left_bitset = populate_left_loop m first cmp pivot 64 0 left_bitset"

definition populate_right_bitset :: "'a mem \<Rightarrow> iter \<Rightarrow> ('a \<Rightarrow> 'a \<Rightarrow> bool) \<Rightarrow> 'a \<Rightarrow> bitset \<Rightarrow> bitset option" where
  "populate_right_bitset m lm1 cmp pivot right_bitset = populate_right_loop m lm1 cmp pivot 64 0 right_bitset"

lemma wide_ok_64 [simp]: "wide_ok 64"
  by (simp add: wide_ok_def)

lemma card_blsr: "v \<noteq> 0 \<Longrightarrow> card {n. bit (cccl_blsr v) n} < card {n. bit v n}" for v :: bitset
proof -
  assume "v \<noteq> 0"
  then obtain n where n: "lowest_bit v n" using lowest_bit_exists by blast
  have "finite {n. bit v n}" using finite_subset [of "{n. bit v n}" "{..<64}"] by (auto dest: bit_imp_le_length)
  moreover have "{k. bit (cccl_blsr v) k} = {k. bit v k} - {n}" using bit_cccl_blsr [OF n] by auto
  ultimately show ?thesis using n by (metis card_Diff1_less lowest_bit_def mem_Collect_eq)
qed

function swap_bitmap_pos :: "'a mem \<Rightarrow> iter \<Rightarrow> iter \<Rightarrow> bitset \<Rightarrow> bitset \<Rightarrow> ('a mem \<times> bitset \<times> bitset) option" where
  "swap_bitmap_pos m first last' left_bitset right_bitset =
     (if left_bitset \<noteq> 0 \<and> right_bitset \<noteq> 0 then do {
        let tz_left = countr_zero left_bitset;
        let left_bitset = cccl_blsr left_bitset;
        let tz_right = countr_zero right_bitset;
        let right_bitset = cccl_blsr right_bitset;
        if last' < tz_right then None
        else do {
          m \<leftarrow> iter_swap m (first + tz_left) (last' - tz_right);
          swap_bitmap_pos m first last' left_bitset right_bitset
        }
      } else Some (m, left_bitset, right_bitset))"
  by pat_completeness auto
termination
  by (relation "measure (\<lambda>(m, first, last', left_bitset, right_bitset). card {n. bit left_bitset n})") (auto simp: card_blsr)

declare swap_bitmap_pos.simps [simp del] populate_left_loop.simps [simp del] populate_right_loop.simps [simp del]

lemma swap_bitmap_pos_exit:
  "swap_bitmap_pos m first last' l r = Some (m', l', r') \<Longrightarrow> l' = 0 \<or> r' = 0"
proof (induction m first last' l r rule: swap_bitmap_pos.induct)
  case (1 m first last' l r)
  show ?case
  proof (cases "l \<noteq> 0 \<and> r \<noteq> 0")
    case True
    with 1(2) obtain m1 where "iter_swap m (first + countr_zero l) (last' - countr_zero r) = Some m1"
        "\<not> last' < countr_zero r" "swap_bitmap_pos m1 first last' (cccl_blsr l) (cccl_blsr r) = Some (m', l', r')"
      by (subst (asm) swap_bitmap_pos.simps) (auto simp: Let_def bind_eq_Some_conv split: if_splits)
    with 1(1) [OF True refl refl refl refl] show ?thesis by blast
  next
    case False
    with 1(2) show ?thesis by (subst (asm) swap_bitmap_pos.simps) auto
  qed
qed

text \<open>
  The blocks that are left over; the lengths are signed: when the two sides have crossed, the
  remaining length is \<open>- 1\<close>.
\<close>

definition bitset_partition_partial_blocks ::
    "'a mem \<Rightarrow> iter \<Rightarrow> iter \<Rightarrow> ('a \<Rightarrow> 'a \<Rightarrow> bool) \<Rightarrow> 'a \<Rightarrow> bitset \<Rightarrow> bitset \<Rightarrow>
      ('a mem \<times> iter \<times> iter \<times> bitset \<times> bitset) option" where
  "bitset_partition_partial_blocks m first lm1 cmp pivot left_bitset right_bitset = do {
     let remaining_len = int lm1 - int first + 1;
     let (l_size, r_size) =
       (if left_bitset = 0 \<and> right_bitset = 0 then (remaining_len sdiv 2, remaining_len - remaining_len sdiv 2)
        else if left_bitset = 0 then (remaining_len - 64, 64)
        else (64, remaining_len - 64));
     left_bitset \<leftarrow> (if left_bitset = 0 then populate_left_loop m first cmp pivot (nat l_size) 0 left_bitset else Some left_bitset);
     right_bitset \<leftarrow> (if right_bitset = 0 then populate_right_loop m lm1 cmp pivot (nat r_size) 0 right_bitset else Some right_bitset);
     (m, left_bitset, right_bitset) \<leftarrow> swap_bitmap_pos m first lm1 left_bitset right_bitset;
     let first' = int first + (if left_bitset = 0 then l_size else 0);
     let lm1' = int lm1 - (if right_bitset = 0 then r_size else 0);
     if first' < 0 \<or> lm1' < 0 then None else Some (m, nat first', nat lm1', left_bitset, right_bitset)
   }"

lemma bits_below_mask: "bit (v AND (2 ^ n - 1)) k \<longleftrightarrow> k < n \<and> bit v k" if "n < 64" for v :: bitset
proof -
  have "2 ^ n - 1 = (mask n :: bitset)" by (simp add: mask_eq_exp_minus_1)
  then show ?thesis using that by (auto simp: bit_simps dest: bit_imp_le_length)
qed

lemma card_below_mask:
  "v \<noteq> 0 \<Longrightarrow> card {n. bit (v AND (2 ^ (63 - countl_zero v) - 1)) n} < card {n. bit v n}" for v :: bitset
proof -
  assume "v \<noteq> 0"
  then obtain n where n: "highest_bit v n" using highest_bit_exists by blast
  then have n63: "63 - countl_zero v = n" "n < 64"
    using countl_zero_spec [of v n] highest_bit_length [OF n] by simp_all
  have "finite {n. bit v n}" using finite_subset [of "{n. bit v n}" "{..<64}"] by (auto dest: bit_imp_le_length)
  moreover have "{k. bit (v AND (2 ^ n - 1)) k} \<subset> {k. bit v k}"
    using n n63(2) by (auto simp: bits_below_mask highest_bit_def)
  ultimately show ?thesis unfolding n63(1) by (rule psubset_card_mono)
qed

function swap_within_left :: "'a mem \<Rightarrow> iter \<Rightarrow> iter \<Rightarrow> bitset \<Rightarrow> ('a mem \<times> iter) option" where
  "swap_within_left m first lm1 left_bitset =
     (if left_bitset \<noteq> 0 then do {
        let tz_left = 64 - 1 - countl_zero left_bitset;
        let left_bitset = left_bitset AND (push_bit tz_left 1 - 1);
        let it = first + tz_left;
        m \<leftarrow> (if it \<noteq> lm1 then iter_swap m it lm1 else Some m);
        if lm1 = 0 then None else swap_within_left m first (lm1 - 1) left_bitset
      } else Some (m, lm1))"
  by pat_completeness auto
termination
  by (relation "measure (\<lambda>(m, first, lm1, left_bitset). card {n. bit left_bitset n})")
    (auto simp: card_below_mask)

function swap_within_right :: "'a mem \<Rightarrow> iter \<Rightarrow> iter \<Rightarrow> bitset \<Rightarrow> ('a mem \<times> iter) option" where
  "swap_within_right m first lm1 right_bitset =
     (if right_bitset \<noteq> 0 then do {
        let tz_right = 64 - 1 - countl_zero right_bitset;
        let right_bitset = right_bitset AND (push_bit tz_right 1 - 1);
        if lm1 < tz_right then None
        else do {
          let it = lm1 - tz_right;
          m \<leftarrow> (if it \<noteq> first then iter_swap m it first else Some m);
          swap_within_right m (Suc first) lm1 right_bitset
        }
      } else Some (m, first))"
  by pat_completeness auto
termination
  by (relation "measure (\<lambda>(m, first, lm1, right_bitset). card {n. bit right_bitset n})")
    (auto simp: card_below_mask)

definition swap_bitmap_pos_within ::
    "'a mem \<Rightarrow> iter \<Rightarrow> iter \<Rightarrow> bitset \<Rightarrow> bitset \<Rightarrow> ('a mem \<times> iter \<times> iter) option" where
  "swap_bitmap_pos_within m first lm1 left_bitset right_bitset =
     (if left_bitset \<noteq> 0 then do {
        (m, lm1) \<leftarrow> swap_within_left m first lm1 left_bitset;
        Some (m, Suc lm1, lm1)
      } else if right_bitset \<noteq> 0 then do {
        (m, first) \<leftarrow> swap_within_right m first lm1 right_bitset;
        Some (m, first, lm1)
      } else Some (m, first, lm1))"

function bitset_partition_loop ::
    "'a mem \<Rightarrow> iter \<Rightarrow> iter \<Rightarrow> ('a \<Rightarrow> 'a \<Rightarrow> bool) \<Rightarrow> 'a \<Rightarrow> bitset \<Rightarrow> bitset \<Rightarrow>
      ('a mem \<times> iter \<times> iter \<times> bitset \<times> bitset) option" where
  "bitset_partition_loop m first lm1 cmp pivot left_bitset right_bitset =
     (if int lm1 - int first \<ge> 2 * 64 - 1 then do {
        left_bitset \<leftarrow> (if left_bitset = 0 then populate_left_bitset m first cmp pivot left_bitset else Some left_bitset);
        right_bitset \<leftarrow> (if right_bitset = 0 then populate_right_bitset m lm1 cmp pivot right_bitset else Some right_bitset);
        (m, left_bitset, right_bitset) \<leftarrow> swap_bitmap_pos m first lm1 left_bitset right_bitset;
        bitset_partition_loop m (first + (if left_bitset = 0 then 64 else 0)) (lm1 - (if right_bitset = 0 then 64 else 0))
          cmp pivot left_bitset right_bitset
      } else Some (m, first, lm1, left_bitset, right_bitset))"
  by pat_completeness auto
termination
  by (relation "measure (\<lambda>(m, first, lm1, cmp, pivot, left_bitset, right_bitset). lm1 + 1 - first)")
    (auto dest!: swap_bitmap_pos_exit)

declare swap_within_left.simps [simp del] swap_within_right.simps [simp del] bitset_partition_loop.simps [simp del]

definition bitset_partition ::
    "'a mem \<Rightarrow> iter \<Rightarrow> iter \<Rightarrow> ('a \<Rightarrow> 'a \<Rightarrow> bool) \<Rightarrow> ('a mem \<times> iter \<times> bool) option" where
  "bitset_partition m begin' end' cmp =
     (if end' - begin' < 3 then None
      else do {
        pivot \<leftarrow> rd m begin';
        z \<leftarrow> rd m (end' - 1);
        first \<leftarrow> (if cmp pivot z then scan_up m begin' end' (\<lambda>x. \<not> cmp pivot x)
                  else scan_up_bounded m begin' end' (\<lambda>x. cmp pivot x));
        last' \<leftarrow> (if first < end' then scan_down m begin' end' (\<lambda>x. cmp pivot x) else Some end');
        let already_partitioned = (first \<ge> last');
        (m, first) \<leftarrow> (if \<not> already_partitioned then do { m \<leftarrow> iter_swap m first last'; Some (m, Suc first) }
                       else Some (m, first));
        if last' = 0 then None
        else do {
          let lm1 = last' - 1;
          (m, first, lm1, left_bitset, right_bitset) \<leftarrow> bitset_partition_loop m first lm1 cmp pivot 0 0;
          (m, first, lm1, left_bitset, right_bitset) \<leftarrow>
            bitset_partition_partial_blocks m first lm1 cmp pivot left_bitset right_bitset;
          (m, first, lm1) \<leftarrow> swap_bitmap_pos_within m first lm1 left_bitset right_bitset;
          (m, pivot_pos) \<leftarrow> place_pivot m begin' first pivot;
          Some (m, pivot_pos, already_partitioned)
        }
      })"

section \<open>Recording comparisons\<close>

lemma populate_left_loop_eq:
  assumes "first + size' \<le> length m" "size' \<le> 64" "j \<le> size'"
  shows "\<exists>l'. populate_left_loop m first cmp pivot size' j l = Some l' \<and>
    (\<forall>k. bit l' k \<longleftrightarrow> bit l k \<or> (j \<le> k \<and> k < size' \<and> \<not> cmp (m ! (first + k)) pivot))"
  using assms(3)
proof (induction j arbitrary: l rule: inc_induct)
  case base
  then show ?case by (subst populate_left_loop.simps) auto
next
  case (step j)
  obtain l' where l': "populate_left_loop m first cmp pivot size' (Suc j) (l OR push_bit j (of_bool (\<not> cmp (m ! (first + j)) pivot))) = Some l'"
      "\<forall>k. bit l' k \<longleftrightarrow> bit (l OR push_bit j (of_bool (\<not> cmp (m ! (first + j)) pivot))) k \<or> (Suc j \<le> k \<and> k < size' \<and> \<not> cmp (m ! (first + k)) pivot)"
    using step.IH by blast
  have "bit (l OR push_bit j (of_bool b)) k \<longleftrightarrow> bit l k \<or> (k = j \<and> b)" for b k
    using step.hyps assms(2) by (cases b) (auto simp: bit_or_iff bit_exp_iff bit_simps)
  then have "\<forall>k. bit l' k \<longleftrightarrow> bit l k \<or> (j \<le> k \<and> k < size' \<and> \<not> cmp (m ! (first + k)) pivot)"
    using l'(2) step.hyps by (auto simp: Suc_le_eq le_less)
  with l'(1) step.hyps assms(1) show ?case
    by (intro exI [of _ l']) (subst populate_left_loop.simps, simp add: rd_Some Let_def)
qed

lemma populate_right_loop_eq:
  assumes "size' \<le> Suc lm1" "lm1 < length m" "size' \<le> 64" "j \<le> size'"
  shows "\<exists>r'. populate_right_loop m lm1 cmp pivot size' j r = Some r' \<and>
    (\<forall>k. bit r' k \<longleftrightarrow> bit r k \<or> (j \<le> k \<and> k < size' \<and> cmp (m ! (lm1 - k)) pivot))"
  using assms(4)
proof (induction j arbitrary: r rule: inc_induct)
  case base
  then show ?case by (subst populate_right_loop.simps) auto
next
  case (step j)
  obtain r' where r': "populate_right_loop m lm1 cmp pivot size' (Suc j) (r OR push_bit j (of_bool (cmp (m ! (lm1 - j)) pivot))) = Some r'"
      "\<forall>k. bit r' k \<longleftrightarrow> bit (r OR push_bit j (of_bool (cmp (m ! (lm1 - j)) pivot))) k \<or> (Suc j \<le> k \<and> k < size' \<and> cmp (m ! (lm1 - k)) pivot)"
    using step.IH by blast
  have "bit (r OR push_bit j (of_bool b)) k \<longleftrightarrow> bit r k \<or> (k = j \<and> b)" for b k
    using step.hyps assms(3) by (cases b) (auto simp: bit_or_iff bit_exp_iff bit_simps)
  then have "\<forall>k. bit r' k \<longleftrightarrow> bit r k \<or> (j \<le> k \<and> k < size' \<and> cmp (m ! (lm1 - k)) pivot)"
    using r'(2) step.hyps by (auto simp: Suc_le_eq le_less)
  with r'(1) step.hyps assms(1,2) show ?case
    by (intro exI [of _ r']) (subst populate_right_loop.simps, simp add: rd_Some Let_def)
qed

section \<open>Exchanging pairs\<close>

text \<open>
  The words describe blocks: bit \<open>k\<close> of the left word is set when the element at \<open>first + k\<close>
  belongs to the right, bit \<open>k\<close> of the right word when the element at \<open>lm1 - k\<close> belongs to
  the left.
\<close>

definition left_block :: "('a \<Rightarrow> bool) \<Rightarrow> 'a mem \<Rightarrow> iter \<Rightarrow> nat \<Rightarrow> bitset \<Rightarrow> bool" where
  "left_block lo m first size' l \<longleftrightarrow> (\<forall>k. bit l k \<longleftrightarrow> k < size' \<and> \<not> lo (m ! (first + k)))"

definition right_block :: "('a \<Rightarrow> bool) \<Rightarrow> 'a mem \<Rightarrow> iter \<Rightarrow> nat \<Rightarrow> bitset \<Rightarrow> bool" where
  "right_block lo m lm1 size' r \<longleftrightarrow> (\<forall>k. bit r k \<longleftrightarrow> k < size' \<and> lo (m ! (lm1 - k)))"

lemma left_block_0: "left_block lo m first size' 0 \<Longrightarrow> k < size' \<Longrightarrow> lo (m ! (first + k))"
  by (auto simp: left_block_def)

lemma right_block_0: "right_block lo m lm1 size' 0 \<Longrightarrow> k < size' \<Longrightarrow> \<not> lo (m ! (lm1 - k))"
  by (auto simp: right_block_def)

lemma swap_bitmap_pos_spec:
  assumes "first + ls + rs \<le> Suc lm1" "lm1 < length m" "left_block lo m first ls l" "right_block lo m lm1 rs r"
  shows "\<exists>m' l' r'. swap_bitmap_pos m first lm1 l r = Some (m', l', r') \<and> permuted m m' first (Suc lm1) \<and>
    left_block lo m' first ls l' \<and> right_block lo m' lm1 rs r' \<and> (l' = 0 \<or> r' = 0)"
  using assms
proof (induction m first lm1 l r rule: swap_bitmap_pos.induct)
  case (1 m first lm1 l r)
  note unfold = swap_bitmap_pos.simps [of m first lm1 l r]
  show ?case
  proof (cases "l \<noteq> 0 \<and> r \<noteq> 0")
    case False
    with 1(4,5) show ?thesis by (subst unfold) auto
  next
    case True
    then obtain x y where x: "lowest_bit l x" and y: "lowest_bit r y" using lowest_bit_exists by blast
    have cz: "countr_zero l = x" "countr_zero r = y" using countr_zero_spec [OF _ x] countr_zero_spec [OF _ y] by simp_all
    have xl: "x < ls" "\<not> lo (m ! (first + x))" using x 1(4) by (auto simp: left_block_def lowest_bit_def)
    have yr: "y < rs" "lo (m ! (lm1 - y))" using y 1(5) by (auto simp: right_block_def lowest_bit_def)
    let ?i = "first + x" and ?j = "lm1 - y"
    let ?m = "swap_at m ?i ?j"
    have ij: "?i < length m" "?j < length m" "?i < ?j" "y \<le> lm1" using xl yr 1(2,3) by auto
    have nth: "?m ! k = (if k = ?i then m ! ?j else if k = ?j then m ! ?i else m ! k)" for k
      using ij by (simp add: nth_swap_at)
    have lb: "left_block lo ?m first ls (cccl_blsr l)"
      unfolding left_block_def bit_cccl_blsr [OF x]
    proof
      fix k
      have "first + k \<noteq> ?j" if "k < ls" using that yr 1(2) by auto
      then show "(bit l k \<and> k \<noteq> x) \<longleftrightarrow> k < ls \<and> \<not> lo (?m ! (first + k))"
        using 1(4) yr(2) by (auto simp: nth left_block_def)
    qed
    have rb: "right_block lo ?m lm1 rs (cccl_blsr r)"
      unfolding right_block_def bit_cccl_blsr [OF y]
    proof
      fix k
      have "lm1 - k \<noteq> ?i" "lm1 - k = ?j \<longleftrightarrow> k = y" if "k < rs" using that xl yr 1(2) by auto
      then show "(bit r k \<and> k \<noteq> y) \<longleftrightarrow> k < rs \<and> lo (?m ! (lm1 - k))"
        using 1(5) xl(2) by (auto simp: nth right_block_def)
    qed
    obtain m' l' r' where m': "swap_bitmap_pos ?m first lm1 (cccl_blsr l) (cccl_blsr r) = Some (m', l', r')"
        "permuted ?m m' first (Suc lm1)" "left_block lo m' first ls l'" "right_block lo m' lm1 rs r'" "l' = 0 \<or> r' = 0"
      using 1(1) [OF True refl refl refl refl, unfolded cz, of ?m] ij lb rb 1(2,3) by (auto simp: iter_swap_at)
    have "permuted m ?m first (Suc lm1)" using ij 1(3) by (intro permuted_swap_at) auto
    then have "permuted m m' first (Suc lm1)" using m'(2) permuted_trans by blast
    moreover have "swap_bitmap_pos m first lm1 l r = Some (m', l', r')"
      using True ij m'(1) by (subst unfold) (simp add: Let_def cz iter_swap_at)
    ultimately show ?thesis using m' by blast
  qed
qed

text \<open>
  One step of the block phase: \<open>le\<close> holds of the elements that may stay on the left, \<open>lo\<close> of
  those that have to; a side whose word is empty afterwards is done.
\<close>

definition sides :: "('a \<Rightarrow> bool) \<Rightarrow> ('a \<Rightarrow> bool) \<Rightarrow> 'a mem \<Rightarrow> iter \<Rightarrow> iter \<Rightarrow> iter \<Rightarrow> iter \<Rightarrow> bool" where
  "sides le lo m b e first last' \<longleftrightarrow>
     (\<forall>i. b < i \<and> i < first \<longrightarrow> le (m ! i)) \<and> (\<forall>i. last' \<le> i \<and> i < e \<longrightarrow> \<not> lo (m ! i))"

lemma block_step:
  assumes "b < first" "first + ls + rs \<le> Suc lm1" "Suc lm1 \<le> e" "e \<le> length m" "sides le lo m b e first (Suc lm1)"
    "left_block lo m first ls l" "right_block lo m lm1 rs r" "\<And>x. lo x \<Longrightarrow> le x"
  shows "\<exists>m' l' r'. swap_bitmap_pos m first lm1 l r = Some (m', l', r') \<and> permuted m m' (Suc b) e \<and>
    left_block lo m' first ls l' \<and> right_block lo m' lm1 rs r' \<and> (l' = 0 \<or> r' = 0) \<and>
    sides le lo m' b e (first + (if l' = 0 then ls else 0)) (Suc lm1 - (if r' = 0 then rs else 0))"
proof -
  obtain m' l' r' where m': "swap_bitmap_pos m first lm1 l r = Some (m', l', r')" "permuted m m' first (Suc lm1)"
      "left_block lo m' first ls l'" "right_block lo m' lm1 rs r'" "l' = 0 \<or> r' = 0"
    using swap_bitmap_pos_spec [of first ls rs lm1 m lo l r] assms by auto
  have left: "le (m' ! i)" if "b < i" "i < first + (if l' = 0 then ls else 0)" for i
  proof (cases "i < first")
    case True
    with that(1) assms(5) permuted_nth [OF m'(2)] show ?thesis by (simp add: sides_def)
  next
    case False
    with that(2) have "l' = 0" "i - first < ls" by (auto split: if_splits)
    with False m'(3) left_block_0 [of lo m' first ls "i - first"] assms(8) show ?thesis by simp
  qed
  have right: "\<not> lo (m' ! i)" if "Suc lm1 - (if r' = 0 then rs else 0) \<le> i" "i < e" for i
  proof (cases "Suc lm1 \<le> i")
    case True
    with that(2) assms(5) permuted_nth [OF m'(2)] show ?thesis by (simp add: sides_def)
  next
    case False
    with that(1) have "r' = 0" "lm1 - i < rs" by (auto split: if_splits)
    with False m'(4) right_block_0 [of lo m' lm1 rs "lm1 - i"] show ?thesis by simp
  qed
  have "permuted m m' (Suc b) e" using permuted_mono [OF m'(2)] assms by simp
  with m' left right show ?thesis by (simp add: sides_def)
qed

section \<open>The block phase\<close>

text \<open>
  The invariant of the main loop: at most one side has recorded comparisons, of a whole block.  The
  remaining window \<open>[first, lm1]\<close> may be empty with the ends crossed by one.
\<close>

definition blocks_inv ::
    "('a \<Rightarrow> bool) \<Rightarrow> ('a \<Rightarrow> bool) \<Rightarrow> 'a mem \<Rightarrow> iter \<Rightarrow> iter \<Rightarrow> iter \<Rightarrow> iter \<Rightarrow> bitset \<Rightarrow> bitset \<Rightarrow> bool" where
  "blocks_inv le lo m b e first lm1 l r \<longleftrightarrow>
     b < first \<and> first \<le> lm1 + 2 \<and> first \<le> e \<and> Suc lm1 \<le> e \<and> e \<le> length m \<and> sides le lo m b e first (max first (Suc lm1)) \<and>
     (l = 0 \<or> r = 0) \<and> (l \<noteq> 0 \<longrightarrow> left_block lo m first 64 l \<and> first + 64 \<le> Suc lm1) \<and>
     (r \<noteq> 0 \<longrightarrow> right_block lo m lm1 64 r \<and> first + 64 \<le> Suc lm1)"

lemma fill_left:
  assumes "l \<noteq> 0 \<longrightarrow> left_block (\<lambda>x. cmp x pivot) m first n l" "first + n \<le> length m" "n \<le> 64"
  shows "\<exists>l'. (if l = 0 then populate_left_loop m first cmp pivot n 0 l else Some l) = Some l' \<and>
    left_block (\<lambda>x. cmp x pivot) m first n l'"
  using populate_left_loop_eq [of first n m 0 cmp pivot 0] assms by (auto simp: left_block_def)

lemma fill_right:
  assumes "r \<noteq> 0 \<longrightarrow> right_block (\<lambda>x. cmp x pivot) m lm1 n r" "n \<le> Suc lm1" "lm1 < length m" "n \<le> 64"
  shows "\<exists>r'. (if r = 0 then populate_right_loop m lm1 cmp pivot n 0 r else Some r) = Some r' \<and>
    right_block (\<lambda>x. cmp x pivot) m lm1 n r'"
  using populate_right_loop_eq [of n lm1 m 0 cmp pivot 0] assms by (auto simp: right_block_def)

lemma bitset_partition_loop_spec:
  assumes "blocks_inv le (\<lambda>x. cmp x pivot) m b e first lm1 l r" "\<And>x. cmp x pivot \<Longrightarrow> le x"
  shows "\<exists>m' f' l1' l' r'. bitset_partition_loop m first lm1 cmp pivot l r = Some (m', f', l1', l', r') \<and>
    permuted m m' (Suc b) e \<and> blocks_inv le (\<lambda>x. cmp x pivot) m' b e f' l1' l' r' \<and> l1' < f' + 127"
  using assms(1)
proof (induction "Suc lm1 - first" arbitrary: m first lm1 l r rule: less_induct)
  case less
  note unfold = bitset_partition_loop.simps [of m first lm1 cmp pivot l r]
  note inv = less.prems [unfolded blocks_inv_def]
  show ?case
  proof (cases "first + 127 \<le> lm1")
    case False
    then have "\<not> int lm1 - int first \<ge> 2 * 64 - 1" by linarith
    with False less.prems show ?thesis by (subst unfold) auto
  next
    case True
    let ?lo = "\<lambda>x. cmp x pivot"
    have c: "l \<noteq> 0 \<longrightarrow> left_block ?lo m first 64 l" "first + 64 \<le> length m" "r \<noteq> 0 \<longrightarrow> right_block ?lo m lm1 64 r"
        "64 \<le> Suc lm1" "lm1 < length m" "sides le ?lo m b e first (Suc lm1)"
      using inv True by (auto simp: max_def)
    obtain l1 where l1: "(if l = 0 then populate_left_bitset m first cmp pivot l else Some l) = Some l1"
        "left_block ?lo m first 64 l1"
      unfolding populate_left_bitset_def using fill_left [of l cmp pivot m first 64, OF c(1,2) order.refl] by blast
    obtain r1 where r1: "(if r = 0 then populate_right_bitset m lm1 cmp pivot r else Some r) = Some r1"
        "right_block ?lo m lm1 64 r1"
      unfolding populate_right_bitset_def using fill_right [of r cmp pivot m lm1 64, OF c(3-5) order.refl] by blast
    obtain m2 l2 r2 where m2: "swap_bitmap_pos m first lm1 l1 r1 = Some (m2, l2, r2)" "permuted m m2 (Suc b) e"
        "left_block ?lo m2 first 64 l2" "right_block ?lo m2 lm1 64 r2" "l2 = 0 \<or> r2 = 0"
        "sides le ?lo m2 b e (first + (if l2 = 0 then 64 else 0)) (Suc lm1 - (if r2 = 0 then 64 else 0))"
      using block_step [of b first 64 64 lm1 e m le ?lo l1 r1] inv True l1(2) r1(2) assms(2) c(6) by auto
    let ?f = "first + (if l2 = 0 then 64 else 0)" and ?l = "lm1 - (if r2 = 0 then 64 else 0)"
    have "blocks_inv le ?lo m2 b e ?f ?l l2 r2"
      using inv m2 True permuted_length [OF m2(2)] by (auto simp: blocks_inv_def max_def Suc_diff_le)
    moreover have "Suc ?l - ?f < Suc lm1 - first" using True m2(5) by auto
    ultimately obtain m' f' l1' l' r' where m': "bitset_partition_loop m2 ?f ?l cmp pivot l2 r2 = Some (m', f', l1', l', r')"
        "permuted m2 m' (Suc b) e" "blocks_inv le ?lo m' b e f' l1' l' r'" "l1' < f' + 127"
      using less.hyps by blast
    have "bitset_partition_loop m first lm1 cmp pivot l r = Some (m', f', l1', l', r')"
      using True l1(1) r1(1) m2(1) m'(1) by (subst unfold) simp
    with m' m2(2) permuted_trans show ?thesis by blast
  qed
qed

section \<open>The remaining blocks\<close>

definition partial_sizes :: "iter \<Rightarrow> iter \<Rightarrow> bitset \<Rightarrow> bitset \<Rightarrow> nat \<times> nat" where
  "partial_sizes first lm1 l r =
     (let n = Suc lm1 - first in if l = 0 \<and> r = 0 then (n div 2, n - n div 2) else if l = 0 then (n - 64, 64) else (64, n - 64))"

lemma sdiv_half: "int n sdiv 2 = int (n div 2)" "(1 :: int) sdiv 2 = 0"
  by (simp_all add: signed_divide_int_def sgn_if zdiv_int)

lemma partial_blocks_eq:
  assumes "first \<le> Suc lm1" "l \<noteq> 0 \<or> r \<noteq> 0 \<longrightarrow> first + 64 \<le> Suc lm1" "partial_sizes first lm1 l r = (ls, rs)" "0 < first"
    "(if l = 0 then populate_left_loop m first cmp pivot ls 0 l else Some l) = Some l1"
    "(if r = 0 then populate_right_loop m lm1 cmp pivot rs 0 r else Some r) = Some r1"
    "swap_bitmap_pos m first lm1 l1 r1 = Some (m2, l2, r2)"
  shows "bitset_partition_partial_blocks m first lm1 cmp pivot l r =
    Some (m2, first + (if l2 = 0 then ls else 0), lm1 - (if r2 = 0 then rs else 0), l2, r2)"
proof -
  define n where "n = Suc lm1 - first"
  have rem: "int lm1 - int first + 1 = int n" using assms(1) by (simp add: n_def)
  have sizes: "(if l = 0 \<and> r = 0 then (int n sdiv 2, int n - int n sdiv 2) else if l = 0 then (int n - 64, 64) else (64, int n - 64))
      = (int ls, int rs)"
    using assms(2,3) by (auto simp: partial_sizes_def n_def [symmetric] sdiv_half Let_def zdiv_int split: if_splits)
      (auto simp: n_def)
  have "rs \<le> n" using assms(2,3) by (auto simp: partial_sizes_def Let_def n_def split: if_splits)
  then have "int lm1 - int rs \<ge> 0" using assms(1,4) by (auto simp: n_def)
  then show ?thesis using assms(5-7)
    unfolding bitset_partition_partial_blocks_def rem Let_def sizes by (auto simp: nat_add_distrib)
qed

lemma bitset_partition_partial_blocks_spec:
  assumes "blocks_inv le (\<lambda>x. cmp x pivot) m b e first lm1 l r" "lm1 < first + 127" "\<And>x. cmp x pivot \<Longrightarrow> le x"
  shows "\<exists>m' f' l1' l' r'. bitset_partition_partial_blocks m first lm1 cmp pivot l r = Some (m', f', l1', l', r') \<and>
    permuted m m' (Suc b) e \<and> b < f' \<and> f' \<le> Suc l1' \<and> Suc l1' \<le> e \<and> sides le (\<lambda>x. cmp x pivot) m' b e f' (Suc l1') \<and>
    (l' = 0 \<or> r' = 0) \<and> left_block (\<lambda>x. cmp x pivot) m' f' (if r' = 0 then Suc l1' - f' else 0) l' \<and>
    right_block (\<lambda>x. cmp x pivot) m' l1' (if l' = 0 then Suc l1' - f' else 0) r'"
proof (cases "first \<le> Suc lm1")
  case False
  note inv = assms(1) [unfolded blocks_inv_def]
  have "l = 0" "r = 0" "first = lm1 + 2" using inv False by auto
  then have "bitset_partition_partial_blocks m first lm1 cmp pivot l r = Some (m, first, Suc lm1, 0, 0)"
    by (simp add: bitset_partition_partial_blocks_def Let_def sdiv_half populate_left_loop.simps [of m _ _ _ 0]
      populate_right_loop.simps [of m _ _ _ 0] swap_bitmap_pos.simps [of m _ _ 0]) linarith
  with inv \<open>first = lm1 + 2\<close> show ?thesis by (auto simp: left_block_def right_block_def)
next
  case True
  let ?lo = "\<lambda>x. cmp x pivot"
  note inv = assms(1) [unfolded blocks_inv_def]
  obtain ls rs where sz: "partial_sizes first lm1 l r = (ls, rs)" by fastforce
  then have n: "ls + rs = Suc lm1 - first" "ls \<le> 64" "rs \<le> 64" "l \<noteq> 0 \<longrightarrow> ls = 64" "r \<noteq> 0 \<longrightarrow> rs = 64"
    using inv True assms(2) by (auto simp: partial_sizes_def Let_def split: if_splits)
  have c: "l \<noteq> 0 \<longrightarrow> left_block ?lo m first ls l" "first + ls \<le> length m" "r \<noteq> 0 \<longrightarrow> right_block ?lo m lm1 rs r"
      "rs \<le> Suc lm1" "lm1 < length m" "sides le ?lo m b e first (Suc lm1)"
    using inv n True by (auto simp: max_def)
  have bounds: "b < first" "first + ls + rs \<le> Suc lm1" "Suc lm1 \<le> e" "e \<le> length m" using inv n(1) True by auto
  obtain l1 where l1: "(if l = 0 then populate_left_loop m first cmp pivot ls 0 l else Some l) = Some l1" "left_block ?lo m first ls l1"
    using fill_left [of l cmp pivot, OF c(1,2) n(2)] by blast
  obtain r1 where r1: "(if r = 0 then populate_right_loop m lm1 cmp pivot rs 0 r else Some r) = Some r1" "right_block ?lo m lm1 rs r1"
    using fill_right [of r cmp pivot, OF c(3-5) n(3)] by blast
  obtain m2 l2 r2 where m2: "swap_bitmap_pos m first lm1 l1 r1 = Some (m2, l2, r2)" "permuted m m2 (Suc b) e"
      "left_block ?lo m2 first ls l2" "right_block ?lo m2 lm1 rs r2" "l2 = 0 \<or> r2 = 0"
      "sides le ?lo m2 b e (first + (if l2 = 0 then ls else 0)) (Suc lm1 - (if r2 = 0 then rs else 0))"
    using block_step [OF bounds c(6) l1(2) r1(2) assms(3)] by blast
  let ?f = "first + (if l2 = 0 then ls else 0)" and ?l = "lm1 - (if r2 = 0 then rs else 0)"
  have eq: "bitset_partition_partial_blocks m first lm1 cmp pivot l r = Some (m2, ?f, ?l, l2, r2)"
    using partial_blocks_eq [OF True _ sz _ l1(1) r1(1) m2(1)] inv by auto
  have l: "Suc ?l = Suc lm1 - (if r2 = 0 then rs else 0)" "?f \<le> Suc ?l" using n(1) bounds by auto
  have left: "left_block ?lo m2 ?f (if r2 = 0 then Suc ?l - ?f else 0) l2"
  proof -
    have "(if r2 = 0 then Suc ?l - ?f else 0) = (if l2 = 0 then 0 else ls)" using l(1) n(1) m2(5) bounds by auto
    then show ?thesis using m2(3) by (cases "l2 = 0") (simp_all only: if_True if_False simp_thms, simp_all add: left_block_def)
  qed
  have right: "right_block ?lo m2 ?l (if l2 = 0 then Suc ?l - ?f else 0) r2"
  proof -
    have "(if l2 = 0 then Suc ?l - ?f else 0) = (if r2 = 0 then 0 else rs)" using l(1) n(1) m2(5) bounds by auto
    then show ?thesis using m2(4) by (cases "r2 = 0") (simp_all only: if_True if_False simp_thms, simp_all add: right_block_def)
  qed
  show ?thesis using eq m2(2,5,6) left right l inv by (intro exI conjI) auto
qed

section \<open>Exchanging within one side\<close>

lemma clear_highest:
  fixes v :: bitset
  assumes "v \<noteq> 0"
  obtains n where "63 - countl_zero v = n" "n < 64" "bit v n" "\<And>k. n < k \<Longrightarrow> \<not> bit v k"
    "\<And>k. bit (v AND (2 ^ n - 1)) k \<longleftrightarrow> k < n \<and> bit v k"
proof -
  obtain n where n: "highest_bit v n" using assms highest_bit_exists by blast
  then have "63 - countl_zero v = n" "n < 64"
    using countl_zero_spec [of v n] highest_bit_length [OF n] by simp_all
  with n that bits_below_mask show ?thesis unfolding highest_bit_def by blast
qed

lemma swap_unless_same:
  "i < length m \<Longrightarrow> j < length m \<Longrightarrow> (if i \<noteq> j then iter_swap m i j else Some m) = Some (swap_at m i j)"
  by (auto simp: iter_swap_at swap_at_def)

lemma swap_within_left_spec:
  assumes "0 < first" "first \<le> Suc lm1" "lm1 < length m" "left_block lo m first (Suc lm1 - first) l"
  shows "\<exists>m' x. swap_within_left m first lm1 l = Some (m', x) \<and> permuted m m' first (Suc lm1) \<and> first \<le> Suc x \<and> x \<le> lm1 \<and>
    (\<forall>i. first \<le> i \<and> i \<le> x \<longrightarrow> lo (m' ! i)) \<and> (\<forall>i. x < i \<and> i \<le> lm1 \<longrightarrow> \<not> lo (m' ! i))"
  using assms
proof (induction m first lm1 l rule: swap_within_left.induct)
  case (1 m first lm1 l)
  note unfold = swap_within_left.simps [of m first lm1 l]
  show ?case
  proof (cases "l = 0")
    case True
    have "lo (m ! i)" if "first \<le> i" "i \<le> lm1" for i
      using left_block_0 [of lo m first "Suc lm1 - first" "i - first"] that 1(5) True by auto
    with True 1(3,4) show ?thesis by (subst unfold) auto
  next
    case False
    then obtain n where n: "63 - countl_zero l = n" "n < 64" "bit l n" "\<And>k. n < k \<Longrightarrow> \<not> bit l k"
        "\<And>k. bit (l AND (2 ^ n - 1)) k \<longleftrightarrow> k < n \<and> bit l k" by (rule clear_highest) blast
    then have it: "first + n \<le> lm1" "\<not> lo (m ! (first + n))" "0 < lm1" using 1(2,5) by (auto simp: left_block_def)
    let ?m = "swap_at m (first + n) lm1" and ?l = "l AND (2 ^ n - 1)"
    have nth: "?m ! k = (if k = first + n then m ! lm1 else if k = lm1 then m ! (first + n) else m ! k)" for k
      using it 1(4) by (simp add: nth_swap_at)
    have above: "lo (m ! (first + k))" if "n < k" "first + k \<le> lm1" for k
      using n(4) [OF that(1)] that(2) 1(5) by (auto simp: left_block_def)
    have tz: "64 - 1 - countl_zero l = n" using n(1) by simp
    have sw: "(if first + n \<noteq> lm1 then iter_swap m (first + n) lm1 else Some m) = Some ?m"
      using it 1(4) by (intro swap_unless_same) auto
    have bl: "bit l k \<longleftrightarrow> first + k \<le> lm1 \<and> \<not> lo (m ! (first + k))" for k using 1(3,5) unfolding left_block_def by (simp add: less_diff_conv) linarith
    have "left_block lo ?m first (Suc (lm1 - 1) - first) ?l"
      unfolding left_block_def n(5)
    proof
      fix k
      consider "k < n" | "k = n" | "n < k" by linarith
      then show "(k < n \<and> bit l k) \<longleftrightarrow> k < Suc (lm1 - 1) - first \<and> \<not> lo (?m ! (first + k))"
      proof cases
        case 1
        with it bl [of k] show ?thesis by (simp add: nth) linarith
      next
        case 2
        with it above [of "lm1 - first"] show ?thesis by (simp add: nth)
      next
        case 3
        with it above [of k] show ?thesis by (simp add: nth) linarith
      qed
    qed
    then obtain m' x where m': "swap_within_left ?m first (lm1 - 1) ?l = Some (m', x)" "permuted ?m m' first (Suc (lm1 - 1))"
        "first \<le> Suc x" "x \<le> lm1 - 1" "\<forall>i. first \<le> i \<and> i \<le> x \<longrightarrow> lo (m' ! i)" "\<forall>i. x < i \<and> i \<le> lm1 - 1 \<longrightarrow> \<not> lo (m' ! i)"
      using 1(1) [OF False refl refl refl, unfolded tz push_bit_of_1, OF sw] it 1(2-4) less_imp_diff_less [OF 1(4), of 1] by auto
    have "m' ! lm1 = m ! (first + n)" using permuted_nth [OF m'(2), of lm1] it by (simp add: nth)
    then have "\<not> lo (m' ! i)" if "x < i" "i \<le> lm1" for i
      using that m'(6) it(2) by (cases "i = lm1") auto
    moreover have "permuted m m' first (Suc lm1)"
      using it 1(4) by (intro permuted_trans [OF permuted_swap_at [OF permuted_refl] permuted_mono [OF m'(2)]]) auto
    moreover have "swap_within_left m first lm1 l = Some (m', x)"
      using False it 1(4) m'(1) sw unfolding unfold Let_def tz push_bit_of_1 by simp
    ultimately show ?thesis using m'(3-5) by auto
  qed
qed

lemma swap_within_right_spec:
  assumes "first \<le> Suc lm1" "lm1 < length m" "right_block lo m lm1 (Suc lm1 - first) r"
  shows "\<exists>m' x. swap_within_right m first lm1 r = Some (m', x) \<and> permuted m m' first (Suc lm1) \<and> first \<le> x \<and> x \<le> Suc lm1 \<and>
    (\<forall>i. first \<le> i \<and> i < x \<longrightarrow> lo (m' ! i)) \<and> (\<forall>i. x \<le> i \<and> i \<le> lm1 \<longrightarrow> \<not> lo (m' ! i))"
  using assms
proof (induction m first lm1 r rule: swap_within_right.induct)
  case (1 m first lm1 r)
  note unfold = swap_within_right.simps [of m first lm1 r]
  show ?case
  proof (cases "r = 0")
    case True
    have "\<not> lo (m ! i)" if "first \<le> i" "i \<le> lm1" for i
      using right_block_0 [of lo m lm1 "Suc lm1 - first" "lm1 - i"] that 1(4) True by auto
    with True 1(2) show ?thesis by (subst unfold) auto
  next
    case False
    then obtain n where n: "63 - countl_zero r = n" "n < 64" "bit r n" "\<And>k. n < k \<Longrightarrow> \<not> bit r k"
        "\<And>k. bit (r AND (2 ^ n - 1)) k \<longleftrightarrow> k < n \<and> bit r k" by (rule clear_highest) blast
    then have it: "first + n \<le> lm1" "lo (m ! (lm1 - n))" using 1(4) by (auto simp: right_block_def)
    let ?m = "swap_at m (lm1 - n) first" and ?r = "r AND (2 ^ n - 1)"
    have nth: "?m ! k = (if k = lm1 - n then m ! first else if k = first then m ! (lm1 - n) else m ! k)" for k
      using it 1(3) by (simp add: nth_swap_at)
    have above: "\<not> lo (m ! (lm1 - k))" if "n < k" "first + k \<le> lm1" for k
      using n(4) [OF that(1)] that(2) 1(4) by (auto simp: right_block_def)
    have tz: "64 - 1 - countl_zero r = n" using n(1) by simp
    have sw: "(if lm1 - n \<noteq> first then iter_swap m (lm1 - n) first else Some m) = Some ?m"
      using it 1(3) by (intro swap_unless_same) auto
    have br: "bit r k \<longleftrightarrow> first + k \<le> lm1 \<and> lo (m ! (lm1 - k))" for k using 1(2,4) unfolding right_block_def by (simp add: less_diff_conv) linarith
    have "right_block lo ?m lm1 (Suc lm1 - Suc first) ?r"
      unfolding right_block_def n(5)
    proof
      fix k
      consider "k < n" | "k = n" | "n < k" by linarith
      then show "(k < n \<and> bit r k) \<longleftrightarrow> k < Suc lm1 - Suc first \<and> lo (?m ! (lm1 - k))"
      proof cases
        case 1
        with it br [of k] show ?thesis by (simp add: nth) linarith
      next
        case 2
        with it above [of "lm1 - first"] show ?thesis by (simp add: nth)
      next
        case 3
        with it above [of k] show ?thesis by (simp add: nth) linarith
      qed
    qed
    then obtain m' x where m': "swap_within_right ?m (Suc first) lm1 ?r = Some (m', x)" "permuted ?m m' (Suc first) (Suc lm1)"
        "Suc first \<le> x" "x \<le> Suc lm1" "\<forall>i. Suc first \<le> i \<and> i < x \<longrightarrow> lo (m' ! i)" "\<forall>i. x \<le> i \<and> i \<le> lm1 \<longrightarrow> \<not> lo (m' ! i)"
      using 1(1) [OF False refl refl _ refl, unfolded tz push_bit_of_1, OF _ sw] it 1(2-3) by auto
    have "m' ! first = m ! (lm1 - n)" using permuted_nth [OF m'(2), of first] it by (simp add: nth)
    then have "lo (m' ! i)" if "first \<le> i" "i < x" for i
      using that m'(5) it(2) by (cases "i = first") auto
    moreover have "permuted m m' first (Suc lm1)"
      using it 1(3) by (intro permuted_trans [OF permuted_swap_at [OF permuted_refl] permuted_mono [OF m'(2)]]) auto
    moreover have "swap_within_right m first lm1 r = Some (m', x)"
      using False it 1(3) m'(1) sw unfolding unfold Let_def tz push_bit_of_1 by simp
    ultimately show ?thesis using m'(3,4,6) by auto
  qed
qed

section \<open>The whole partition\<close>

lemma swap_bitmap_pos_within_spec:
  assumes "b < first" "first \<le> Suc lm1" "Suc lm1 \<le> e" "e \<le> length m" "sides le lo m b e first (Suc lm1)" "l = 0 \<or> r = 0"
    "left_block lo m first (if r = 0 then Suc lm1 - first else 0) l" "right_block lo m lm1 (if l = 0 then Suc lm1 - first else 0) r"
    "\<And>x. lo x \<Longrightarrow> le x"
  shows "\<exists>m' f x. swap_bitmap_pos_within m first lm1 l r = Some (m', f, x) \<and> permuted m m' (Suc b) e \<and> b < f \<and> f \<le> e \<and>
    sides le lo m' b e f f"
proof -
  have combine: "permuted m m' (Suc b) e \<and> sides le lo m' b e x x"
    if "permuted m m' first (Suc lm1)" "\<And>i. first \<le> i \<Longrightarrow> i < x \<Longrightarrow> lo (m' ! i)" "\<And>i. x \<le> i \<Longrightarrow> i \<le> lm1 \<Longrightarrow> \<not> lo (m' ! i)"
      "first \<le> x" "x \<le> Suc lm1" for m' x
  proof -
    have "le (m' ! i)" if "b < i" "i < x" for i
      using that \<open>permuted m m' first (Suc lm1)\<close> \<open>first \<le> x\<close> assms(5,9) \<open>\<And>i. first \<le> i \<Longrightarrow> i < x \<Longrightarrow> lo (m' ! i)\<close> [of i]
      by (cases "i < first") (auto simp: sides_def permuted_nth)
    moreover have "\<not> lo (m' ! i)" if "x \<le> i" "i < e" for i
      using that \<open>permuted m m' first (Suc lm1)\<close> \<open>x \<le> Suc lm1\<close> assms(5) \<open>\<And>i. x \<le> i \<Longrightarrow> i \<le> lm1 \<Longrightarrow> \<not> lo (m' ! i)\<close> [of i]
      by (cases "i \<le> lm1") (auto simp: sides_def permuted_nth)
    ultimately show ?thesis using permuted_mono [OF \<open>permuted m m' first (Suc lm1)\<close>] assms(1,3) by (simp add: sides_def)
  qed
  consider "l \<noteq> 0" "r = 0" | "l = 0" "r \<noteq> 0" | "l = 0" "r = 0" using assms(6) by blast
  then show ?thesis
  proof cases
    case 1
    with swap_within_left_spec [of first lm1 m lo l] assms obtain m' x where
        x: "swap_within_left m first lm1 l = Some (m', x)" "permuted m m' first (Suc lm1)" "first \<le> Suc x" "x \<le> lm1"
        "\<forall>i. first \<le> i \<and> i \<le> x \<longrightarrow> lo (m' ! i)" "\<forall>i. x < i \<and> i \<le> lm1 \<longrightarrow> \<not> lo (m' ! i)" by auto
    then have "permuted m m' (Suc b) e \<and> sides le lo m' b e (Suc x) (Suc x)" by (intro combine) auto
    with 1 x assms show ?thesis by (simp add: swap_bitmap_pos_within_def)
  next
    case 2
    with swap_within_right_spec [of first lm1 m lo r] assms obtain m' x where
        x: "swap_within_right m first lm1 r = Some (m', x)" "permuted m m' first (Suc lm1)" "first \<le> x" "x \<le> Suc lm1"
        "\<forall>i. first \<le> i \<and> i < x \<longrightarrow> lo (m' ! i)" "\<forall>i. x \<le> i \<and> i \<le> lm1 \<longrightarrow> \<not> lo (m' ! i)" by auto
    then have "permuted m m' (Suc b) e \<and> sides le lo m' b e x x" by (intro combine) auto
    with 2 x assms show ?thesis by (simp add: swap_bitmap_pos_within_def)
  next
    case 3
    have "lo (m ! i)" if "first \<le> i" "i \<le> lm1" for i
      using left_block_0 [of lo m first "Suc lm1 - first" "i - first"] that assms(7) 3 by auto
    moreover have "\<not> lo (m ! i)" if "first \<le> i" "i \<le> lm1" for i
      using right_block_0 [of lo m lm1 "Suc lm1 - first" "lm1 - i"] that assms(8) 3 by auto
    ultimately have "first = Suc lm1" using assms(2) by (metis le_antisym not_less_eq_eq order.refl)
    with 3 assms show ?thesis by (auto simp: swap_bitmap_pos_within_def sides_def)
  qed
qed

lemma bitset_partition_spec:
  assumes "strict_weak_order cmp" "b + 3 \<le> e" "e \<le> length m" "b < k" "k < e" "\<not> cmp (m ! b) (m ! k)"
  shows "\<exists>m' p al. bitset_partition m b e cmp = Some (m', p, al) \<and> permuted m m' b e \<and> b \<le> p \<and> p < e \<and>
    (\<forall>i. b \<le> i \<and> i < p \<longrightarrow> \<not> cmp (m' ! p) (m' ! i)) \<and> (\<forall>i. p < i \<and> i < e \<longrightarrow> \<not> cmp (m' ! i) (m' ! p))"
proof -
  let ?p = "m ! b"
  let ?le = "\<lambda>x. \<not> cmp ?p x" and ?lo = "\<lambda>x. cmp x ?p"
  have asym: "cmp x y \<Longrightarrow> \<not> cmp y x" for x y using strict_weak_order.asym [OF assms(1)] by blast
  obtain f where f: "(if cmp ?p (m ! (e - 1)) then scan_up m b e ?le else scan_up_bounded m b e (cmp ?p)) = Some f"
      "b < f" "f \<le> e" "f < e \<longrightarrow> cmp ?p (m ! f)" "\<forall>i. b < i \<and> i < f \<longrightarrow> ?le (m ! i)"
    using pivot_scan_up [of b e m cmp] assms by auto
  obtain l where l: "(if f < e then scan_down m b e (cmp ?p) else Some e) = Some l"
      "l \<le> e" "f \<le> Suc l" "f < l \<longrightarrow> l < e \<and> ?le (m ! l)" "\<forall>i. l < i \<and> i < e \<longrightarrow> cmp ?p (m ! i)" "b < l" "f < e \<longrightarrow> f \<noteq> l"
    using pivot_scan_down [of b k e cmp m f, OF assms(4-6,3) f(2-5)] by blast
  define m1 f1 where "m1 = (if f < l then swap_at m f l else m)" and "f1 = (if f < l then Suc f else f)"
  have nth1: "m1 ! i = (if f < l \<and> i = f then m ! l else if f < l \<and> i = l then m ! f else m ! i)" for i
    using l(2,4) assms(3) by (auto simp: m1_def nth_swap_at)
  have le1: "?le (m1 ! i)" if "b < i" "i < f1" for i
    using that f(5) l(4) by (auto simp: nth1 f1_def less_Suc_eq split: if_splits)
  have lo1: "\<not> ?lo (m1 ! i)" if "max f1 l \<le> i" "i < e" for i
  proof -
    have "cmp ?p (m1 ! i)" using that f(2,4) l by (auto simp: nth1 f1_def le_less split: if_splits)
    then show ?thesis by (rule asym)
  qed
  have perm1: "permuted m m1 (Suc b) e" using f l assms by (auto simp: m1_def intro!: permuted_swap_at)
  have "blocks_inv ?le ?lo m1 b e f1 (l - 1) 0 0"
    using f l le1 lo1 permuted_length [OF perm1] assms(3) by (auto simp: blocks_inv_def sides_def f1_def)
  then obtain m2 f2 l2 lb2 rb2 where m2: "bitset_partition_loop m1 f1 (l - 1) cmp ?p 0 0 = Some (m2, f2, l2, lb2, rb2)"
      "permuted m1 m2 (Suc b) e" "blocks_inv ?le ?lo m2 b e f2 l2 lb2 rb2" "l2 < f2 + 127"
    using bitset_partition_loop_spec [of ?le cmp ?p m1 b e f1 "l - 1" 0 0] asym by blast
  then obtain m3 f3 l3 lb3 rb3 where m3: "bitset_partition_partial_blocks m2 f2 l2 cmp ?p lb2 rb2 = Some (m3, f3, l3, lb3, rb3)"
      "permuted m2 m3 (Suc b) e" "b < f3" "f3 \<le> Suc l3" "Suc l3 \<le> e" "sides ?le ?lo m3 b e f3 (Suc l3)" "lb3 = 0 \<or> rb3 = 0"
      "left_block ?lo m3 f3 (if rb3 = 0 then Suc l3 - f3 else 0) lb3" "right_block ?lo m3 l3 (if lb3 = 0 then Suc l3 - f3 else 0) rb3"
    using bitset_partition_partial_blocks_spec [of ?le cmp ?p m2 b e f2 l2 lb2 rb2] asym by blast
  have perm3: "permuted m m3 (Suc b) e" using perm1 m2(2) m3(2) permuted_trans by blast
  then obtain m4 f4 l4 where m4: "swap_bitmap_pos_within m3 f3 l3 lb3 rb3 = Some (m4, f4, l4)" "permuted m3 m4 (Suc b) e"
      "b < f4" "f4 \<le> e" "sides ?le ?lo m4 b e f4 f4"
    using swap_bitmap_pos_within_spec [OF m3(3-5) _ m3(6-9) asym] permuted_length [OF perm3] assms(3) by auto
  have perm4: "permuted m m4 (Suc b) e" using perm3 m4(2) permuted_trans by blast
  note out = permuted_outside [OF perm4]
  obtain m5 where m5: "place_pivot m4 b f4 ?p = Some (m5, f4 - 1)" "permuted m4 m5 b e" "m5 ! (f4 - 1) = ?p"
      "\<forall>i. b \<le> i \<and> i < f4 - 1 \<longrightarrow> ?le (m5 ! i)" "\<forall>i. f4 - 1 < i \<and> i < e \<longrightarrow> \<not> ?lo (m5 ! i)"
    using place_pivot_spec [of b f4 e m4 ?p ?le "\<lambda>x. \<not> ?lo x"] m4(3-5) out permuted_length [OF perm4] assms(3)
    by (auto simp: sides_def)
  have start: "(if \<not> f \<ge> l then do { m \<leftarrow> iter_swap m f l; Some (m, Suc f) } else Some (m, f)) = Some (m1, f1)"
    using f l assms(3) by (auto simp: m1_def f1_def iter_swap_at)
  have "bitset_partition m b e cmp = Some (m5, f4 - 1, f \<ge> l)"
    using assms(2,3) f(1) l(1,6) start m2(1) m3(1) m4(1) m5(1) by (simp add: bitset_partition_def rd_Some Let_def)
  moreover have "permuted m m5 b e" using out m5(2) permuted_trans by blast
  moreover have "b \<le> f4 - 1" "f4 - 1 < e" using m4(3,4) by auto
  ultimately show ?thesis using m5(3-5) by auto
qed

end
