(* ===== verification/Introsort.thy ===== *)
theory Introsort
  imports Bitset_Partition
begin

text \<open>
  The main sorting function of \<^verbatim>\<open>sort.h\<close>: \<^verbatim>\<open>__introsort\<close>, with the small sorts for short ranges, the
  ninther or the median of three for the pivot, both partitions, the test for a partition that was
  already there and the heap sort when the recursion is too deep; then the dispatch of
  \<^verbatim>\<open>cuda::std::sort\<close>.  The template arguments that select code at compile time are the
  Booleans \<open>branchless\<close> (\<^verbatim>\<open>__use_branchless_sort\<close> of the comparator as the small sorts see it)
  and \<open>use_bitset\<close> (\<^verbatim>\<open>_UseBitSetPartition\<close>).
\<close>

section \<open>Definitions\<close>

definition choose_pivot :: "'a mem \<Rightarrow> iter \<Rightarrow> iter \<Rightarrow> nat \<Rightarrow> ('a \<Rightarrow> 'a \<Rightarrow> bool) \<Rightarrow> 'a mem option" where
  "choose_pivot m first last' len cmp =
     (let half_len = len div 2 in
      if len > 128 then do {
        (m, _) \<leftarrow> sort3 m first (first + half_len) (last' - 1) cmp;
        (m, _) \<leftarrow> sort3 m (first + 1) (first + (half_len - 1)) (last' - 2) cmp;
        (m, _) \<leftarrow> sort3 m (first + 2) (first + (half_len + 1)) (last' - 3) cmp;
        (m, _) \<leftarrow> sort3 m (first + (half_len - 1)) (first + half_len) (first + (half_len + 1)) cmp;
        iter_swap m first (first + half_len)
      } else do {
        (m, _) \<leftarrow> sort3 m (first + half_len) first (last' - 1) cmp;
        Some m
      })"

text \<open>
  One turn of the loop either returns, continues with another range, or calls itself for the left
  part and continues with the right part; each but the first lowers \<open>depth\<close>, which is the measure.
\<close>

function introsort ::
    "bool \<Rightarrow> bool \<Rightarrow> 'a mem \<Rightarrow> iter \<Rightarrow> iter \<Rightarrow> ('a \<Rightarrow> 'a \<Rightarrow> bool) \<Rightarrow> nat \<Rightarrow> bool \<Rightarrow> 'a mem option" where
  "introsort branchless use_bitset m first last' cmp depth leftmost =
     (let len = last' - first in
      if last' < first then None
      else if len = 0 \<or> len = 1 then Some m
      else if len = 2 then do {
        y \<leftarrow> rd m (last' - 1); x \<leftarrow> rd m first;
        if cmp y x then iter_swap m first (last' - 1) else Some m
      }
      else if len = 3 then sort3_maybe_branchless branchless m first (first + 1) (last' - 1) cmp
      else if len = 4 then sort4_maybe_branchless branchless m first (first + 1) (first + 2) (last' - 1) cmp
      else if len = 5 then sort5_maybe_branchless branchless m first (first + 1) (first + 2) (first + 3) (last' - 1) cmp
      else if len < 24 then
        (if leftmost then insertion_sort m first last' cmp else insertion_sort_unguarded m first last' cmp)
      else if depth = 0 then partial_sort m first last' last' cmp
      else do {
        let depth' = depth - 1;
        m \<leftarrow> choose_pivot m first last' len cmp;
        same_as_left \<leftarrow> (if leftmost then Some False
                         else if first = 0 then None
                         else do { p \<leftarrow> rd m (first - 1); x \<leftarrow> rd m first; Some (\<not> cmp p x) });
        if same_as_left then do {
          (m, first) \<leftarrow> partition_with_equals_on_left m first last' cmp;
          introsort branchless use_bitset m first last' cmp depth' leftmost
        }
        else do {
          (m, i, already) \<leftarrow>
            (if use_bitset then bitset_partition m first last' cmp else partition_with_equals_on_right m first last' cmp);
          (m, left_done, right_done) \<leftarrow>
            (if already then do {
               (m, fs) \<leftarrow> insertion_sort_incomplete branchless m first i cmp;
               (m, rs) \<leftarrow> insertion_sort_incomplete branchless m (Suc i) last' cmp;
               Some (m, fs, rs)
             } else Some (m, False, False));
          if right_done then
            (if left_done then Some m else introsort branchless use_bitset m first i cmp depth' leftmost)
          else if left_done then introsort branchless use_bitset m (Suc i) last' cmp depth' leftmost
          else do {
            m \<leftarrow> introsort branchless use_bitset m first i cmp depth' leftmost;
            introsort branchless use_bitset m (Suc i) last' cmp depth' False
          }
        }
      })"
  by pat_completeness auto
termination
  by (relation "measure (\<lambda>(branchless, use_bitset, m, first, last', cmp, depth, leftmost). depth)") auto

declare introsort.simps [simp del]

text \<open>The depth limits: \<^verbatim>\<open>__log2i\<close> of the signed length, and \<^verbatim>\<open>__bit_log2\<close> of the length as \<^verbatim>\<open>size_t\<close>.\<close>

function log2i_loop :: "nat \<Rightarrow> nat \<Rightarrow> nat" where
  "log2i_loop n log2' = (if n > 1 then log2i_loop (n div 2) (Suc log2') else log2')"
  by pat_completeness auto
termination
  by (relation "measure (\<lambda>(n, log2'). n)") auto

declare log2i_loop.simps [simp del]

definition log2i :: "nat \<Rightarrow> nat \<Rightarrow> nat" where
  "log2i size' n =
     (if n = 0 then 0
      else if size' \<le> 4 then 4 * 8 - 1 - countl_zero (of_nat n :: 32 word)
      else if size' \<le> 8 then 8 * 8 - 1 - countl_zero (of_nat n :: 64 word)
      else log2i_loop n 0)"

definition sort_lib :: "bool \<Rightarrow> 'a mem \<Rightarrow> iter \<Rightarrow> iter \<Rightarrow> ('a \<Rightarrow> 'a \<Rightarrow> bool) \<Rightarrow> 'a mem option" where
  "sort_lib branchless m first last' cmp =
     (let depth_limit = 2 * bit_log2 (of_nat (last' - first) :: 64 word) in
      introsort branchless branchless m first last' cmp (unat depth_limit) True)"

text \<open>
  The overloads of \<^verbatim>\<open>__sort_dispatch\<close>: for the generic one the difference type is 64 bits wide; the
  others, for pointers to the listed arithmetic types and the default order, call \<^verbatim>\<open>__sort\<close>.
\<close>

datatype sort_overload = Generic_Overload bool bool | Library_Overload bool

fun sort_dispatch :: "sort_overload \<Rightarrow> 'a mem \<Rightarrow> iter \<Rightarrow> iter \<Rightarrow> ('a \<Rightarrow> 'a \<Rightarrow> bool) \<Rightarrow> 'a mem option" where
  "sort_dispatch (Generic_Overload branchless use_bitset) m first last' cmp =
     introsort branchless use_bitset m first last' cmp (2 * log2i 8 (last' - first)) True"
| "sort_dispatch (Library_Overload branchless) m first last' cmp = sort_lib branchless m first last' cmp"

definition sort_impl :: "bool \<Rightarrow> sort_overload \<Rightarrow> 'a mem \<Rightarrow> iter \<Rightarrow> iter \<Rightarrow> ('a \<Rightarrow> 'a \<Rightarrow> bool) \<Rightarrow> 'a mem option" where
  "sort_impl consteval ov m first last' cmp =
     (if consteval then partial_sort m first last' last' cmp else sort_dispatch ov m first last' cmp)"

definition sort_alg :: "bool \<Rightarrow> sort_overload \<Rightarrow> 'a mem \<Rightarrow> iter \<Rightarrow> iter \<Rightarrow> ('a \<Rightarrow> 'a \<Rightarrow> bool) \<Rightarrow> 'a mem option" where
  "sort_alg consteval ov m first last' cmp = sort_impl consteval ov m first last' cmp"

definition sort_alg_less :: "bool \<Rightarrow> sort_overload \<Rightarrow> 'a::linorder mem \<Rightarrow> iter \<Rightarrow> iter \<Rightarrow> 'a mem option" where
  "sort_alg_less consteval ov m first last' = sort_alg consteval ov m first last' less_op"

section \<open>Guards and splits\<close>

text \<open>
  What the unguarded loops rely on: a range that is not the leftmost one has a predecessor that is
  a lower bound.
\<close>

definition sort_guard :: "('a \<Rightarrow> 'a \<Rightarrow> bool) \<Rightarrow> bool \<Rightarrow> 'a mem \<Rightarrow> iter \<Rightarrow> iter \<Rightarrow> bool" where
  "sort_guard cmp leftmost m a b \<longleftrightarrow> leftmost \<or> (0 < a \<and> (\<forall>x \<in> set (seg m a b). \<not> cmp x (m ! (a - 1))))"

definition pivot_split :: "('a \<Rightarrow> 'a \<Rightarrow> bool) \<Rightarrow> 'a mem \<Rightarrow> iter \<Rightarrow> iter \<Rightarrow> iter \<Rightarrow> bool" where
  "pivot_split cmp m a p b \<longleftrightarrow> a \<le> p \<and> p < b \<and> b \<le> length m \<and>
     (\<forall>x \<in> set (seg m a p). \<not> cmp (m ! p) x) \<and> (\<forall>y \<in> set (seg m (Suc p) b). \<not> cmp y (m ! p))"

lemma permuted_seg_out: "permuted m m' a b \<Longrightarrow> j \<le> a \<or> b \<le> i \<Longrightarrow> seg m' i j = seg m i j"
  unfolding permuted_def by (blast intro: frame_seg_out)

lemma sort_guard_permuted: "sort_guard cmp lm m a b \<Longrightarrow> permuted m m' a b \<Longrightarrow> a \<le> b \<Longrightarrow> sort_guard cmp lm m' a b"
  using permuted_set_seg [of m m' a b] permuted_nth [of m m' a b "a - 1"] by (auto simp: sort_guard_def)

lemma sort_guard_prefix: "sort_guard cmp lm m a b \<Longrightarrow> p \<le> b \<Longrightarrow> b \<le> length m \<Longrightarrow> sort_guard cmp lm m a p"
  using seg_append [of a p b m] by (cases "a \<le> p") (auto simp: sort_guard_def)

lemma sort_guard_behind: "pivot_split cmp m a p b \<Longrightarrow> sort_guard cmp lm m (Suc p) b"
  by (auto simp: sort_guard_def pivot_split_def)

lemma pivot_split_left:
  assumes "pivot_split cmp m a p b" "permuted m m' a p"
  shows "pivot_split cmp m' a p b" "permuted m m' a b" "seg m' (Suc p) b = seg m (Suc p) b"
  using assms permuted_set_seg [OF assms(2)] permuted_nth [OF assms(2), of p] permuted_length [OF assms(2)]
    permuted_seg_out [OF assms(2), of b "Suc p"] permuted_mono [OF assms(2), of a b]
  by (auto simp: pivot_split_def)

lemma pivot_split_right:
  assumes "pivot_split cmp m a p b" "permuted m m' (Suc p) b"
  shows "pivot_split cmp m' a p b" "permuted m m' a b" "seg m' a p = seg m a p"
  using assms permuted_set_seg [OF assms(2)] permuted_nth [OF assms(2), of p] permuted_length [OF assms(2)]
    permuted_seg_out [OF assms(2), of p a] permuted_mono [OF assms(2), of a b]
  by (auto simp: pivot_split_def)

section \<open>The pivot\<close>

context strict_weak_order
begin

lemma sort3_in_range:
  assumes "exchanged m0 {a..<b} m" "b \<le> length m0" "{x, y, z} \<subseteq> {a..<b}" "distinct [x, y, z]"
  obtains m' r where "sort3 m x y z cmp = Some (m', r)" "exchanged m0 {a..<b} m'" "\<not> cmp (m' ! y) (m' ! x)" "\<not> cmp (m' ! z) (m' ! y)"
proof -
  obtain m' r where "sort3 m x y z cmp = Some (m', r)" "exchanged m {x, y, z} m'" "\<not> cmp (m' ! y) (m' ! x)" "\<not> cmp (m' ! z) (m' ! y)"
    using sort3_swo [of x m y z] assms exchanged_length [OF assms(1)] by auto
  with that exchanged_trans [OF exchanged_mono assms(1)] assms(3) show ?thesis by blast
qed

lemma choose_pivot_swo:
  assumes "a + 24 \<le> b" "b \<le> length m"
  shows "\<exists>m' k1 k2. choose_pivot m a b (b - a) cmp = Some m' \<and> permuted m m' a b \<and> a < k1 \<and> k1 < b \<and> a < k2 \<and> k2 < b \<and>
    \<not> cmp (m' ! a) (m' ! k1) \<and> \<not> cmp (m' ! k2) (m' ! a)"
proof -
  define h where "h = (b - a) div 2"
  obtain c where b: "b = c + 4" using assms(1) that [of "b - 4"] by simp
  have h: "9 < h" "a + h + 1 < c" using assms(1) by (auto simp: h_def b)
  note range = sort3_in_range [where a = a and b = b, OF _ assms(2)]
  show ?thesis
  proof (cases "128 < b - a")
    case True
    obtain m1 r1 where m1: "sort3 m a (a + h) (b - 1) cmp = Some (m1, r1)" "exchanged m {a..<b} m1"
      by (rule range [of m a "a + h" "b - 1"]) (use h in \<open>auto simp: b\<close>)
    obtain m2 r2 where m2: "sort3 m1 (a + 1) (a + (h - 1)) (b - 2) cmp = Some (m2, r2)" "exchanged m {a..<b} m2"
      by (rule range [OF m1(2), of "a + 1" "a + (h - 1)" "b - 2"]) (use h in \<open>auto simp: b\<close>)
    obtain m3 r3 where m3: "sort3 m2 (a + 2) (a + (h + 1)) (b - 3) cmp = Some (m3, r3)" "exchanged m {a..<b} m3"
      by (rule range [OF m2(2), of "a + 2" "a + (h + 1)" "b - 3"]) (use h in \<open>auto simp: b\<close>)
    obtain m4 r4 where m4: "sort3 m3 (a + (h - 1)) (a + h) (a + (h + 1)) cmp = Some (m4, r4)" "exchanged m {a..<b} m4"
        "\<not> cmp (m4 ! (a + h)) (m4 ! (a + (h - 1)))" "\<not> cmp (m4 ! (a + (h + 1))) (m4 ! (a + h))"
      by (rule range [OF m3(2), of "a + (h - 1)" "a + h" "a + (h + 1)"]) (use h in \<open>auto simp: b\<close>)
    note l4 = exchanged_length [OF m4(2)]
    let ?m = "swap_at m4 a (a + h)"
    have "choose_pivot m a b (b - a) cmp = Some ?m"
      using True m1(1) m2(1) m3(1) m4(1) h assms(2) l4 unfolding choose_pivot_def Let_def h_def [symmetric]
      by (simp add: iter_swap_at b)
    moreover have "permuted m ?m a b"
      using exchanged_permuted [OF exchanged_swap [OF _ _ m4(2), of a "a + h"]] h assms(2) by (auto simp: b)
    moreover have "\<not> cmp (?m ! a) (?m ! (a + (h - 1)))" "\<not> cmp (?m ! (a + (h + 1))) (?m ! a)"
      using m4(3,4) h assms(2) l4 by (auto simp: nth_swap_at b)
    ultimately show ?thesis using h by (intro exI [of _ ?m] exI [of _ "a + (h - 1)"] exI [of _ "a + (h + 1)"]) (auto simp: b)
  next
    case False
    obtain m1 r1 where m1: "sort3 m (a + h) a (b - 1) cmp = Some (m1, r1)" "exchanged m {a..<b} m1"
        "\<not> cmp (m1 ! a) (m1 ! (a + h))" "\<not> cmp (m1 ! (b - 1)) (m1 ! a)"
      by (rule range [of m "a + h" a "b - 1"]) (use h in \<open>auto simp: b\<close>)
    have "permuted m m1 a b" using exchanged_permuted [OF m1(2)] assms by auto
    moreover have "choose_pivot m a b (b - a) cmp = Some m1" using False m1(1) by (simp add: choose_pivot_def Let_def h_def)
    ultimately show ?thesis using m1(3,4) h by (intro exI [of _ m1] exI [of _ "a + h"] exI [of _ "b - 1"]) (auto simp: b)
  qed
qed

lemma sorted_around_pivot:
  assumes "pivot_split cmp m a p b" "sorted_by cmp (seg m a p)" "sorted_by cmp (seg m (Suc p) b)"
  shows "sorted_by cmp (seg m a b)"
proof -
  have "seg m a b = seg m a p @ m ! p # seg m (Suc p) b"
    using assms(1) seg_append [of a p b m] by (simp add: pivot_split_def seg_Cons)
  moreover have "\<not> cmp y x" if "x \<in> set (seg m a p)" "y \<in> set (seg m (Suc p) b)" for x y
    using assms(1) that neg_trans [of y "m ! p" x] by (simp add: pivot_split_def)
  ultimately show ?thesis using assms by (simp add: pivot_split_def)
qed

lemma introsort_partition_swo:
  assumes "a + 24 \<le> b" "b \<le> length m" "a < k1" "k1 < b" "a < k2" "k2 < b" "\<not> cmp (m ! a) (m ! k1)" "\<not> cmp (m ! k2) (m ! a)"
  shows "\<exists>m' p al. (if bs then bitset_partition m a b cmp else partition_with_equals_on_right m a b cmp) = Some (m', p, al) \<and>
    permuted m m' a b \<and> pivot_split cmp m' a p b"
proof -
  have "\<exists>m' p al. (if bs then bitset_partition m a b cmp else partition_with_equals_on_right m a b cmp) = Some (m', p, al) \<and>
      permuted m m' a b \<and> a \<le> p \<and> p < b \<and>
      (\<forall>i. a \<le> i \<and> i < p \<longrightarrow> \<not> cmp (m' ! p) (m' ! i)) \<and> (\<forall>i. p < i \<and> i < b \<longrightarrow> \<not> cmp (m' ! i) (m' ! p))"
  proof (cases bs)
    case True
    then show ?thesis using bitset_partition_spec [OF strict_weak_order_axioms, of a b m k1] assms by simp
  next
    case False
    then show ?thesis using partition_with_equals_on_right_spec [of a b m k2 cmp] assms asym by (simp, blast)
  qed
  then obtain m' p al where "(if bs then bitset_partition m a b cmp else partition_with_equals_on_right m a b cmp) = Some (m', p, al)"
      and m': "permuted m m' a b" "a \<le> p" "p < b" "\<forall>i. a \<le> i \<and> i < p \<longrightarrow> \<not> cmp (m' ! p) (m' ! i)"
      "\<forall>i. p < i \<and> i < b \<longrightarrow> \<not> cmp (m' ! i) (m' ! p)" by blast
  moreover have "pivot_split cmp m' a p b"
    using m' permuted_length [OF m'(1)] assms(2) by (auto simp: pivot_split_def in_set_seg Suc_le_eq)
  ultimately show ?thesis by blast
qed

text \<open>
  The pivot equals the largest element on the left of the range: the elements up to it are all
  equivalent, and the search goes on behind them.
\<close>

lemma equals_on_left_swo:
  assumes "a < k" "k < b" "b \<le> length m" "\<not> cmp (m ! a) (m ! k)" "sort_guard cmp False m a b" "\<not> cmp (m ! (a - 1)) (m ! a)"
  shows "\<exists>m' f. partition_with_equals_on_left m a b cmp = Some (m', f) \<and> permuted m m' a b \<and> a < f \<and> f \<le> b \<and>
    sort_guard cmp False m' f b \<and> sorted_by cmp (seg m' a f) \<and> (\<forall>x \<in> set (seg m' a f). \<forall>y \<in> set (seg m' f b). \<not> cmp y x)"
proof -
  let ?p = "m ! a"
  obtain m' f where f: "partition_with_equals_on_left m a b cmp = Some (m', f)" "permuted m m' a b" "a < f" "f \<le> b" "m' ! (f - 1) = ?p"
      "\<forall>i. a \<le> i \<and> i < f - 1 \<longrightarrow> \<not> cmp ?p (m' ! i)" "\<forall>i. f \<le> i \<and> i < b \<longrightarrow> cmp ?p (m' ! i)"
    using partition_with_equals_on_left_spec [of a k b m cmp, OF assms(1-4)] by blast
  have len: "b \<le> length m'" "f \<le> length m'" using permuted_length [OF f(2)] assms(3) f(4) by auto
  have left: "\<not> cmp ?p x \<and> \<not> cmp x ?p" if "x \<in> set (seg m' a f)" for x
  proof -
    obtain i where i: "a \<le> i" "i < f" "x = m' ! i" using \<open>x \<in> set (seg m' a f)\<close> len by (auto simp: in_set_seg)
    then have "x \<in> set (seg m' a b)" using f(4) len by (auto simp: in_set_seg)
    then have "\<not> cmp x (m ! (a - 1))"
      using assms(1,2,5) permuted_set_seg [OF f(2)] by (simp add: sort_guard_def)
    then have "\<not> cmp x ?p" using assms(6) by (rule neg_trans)
    moreover have "\<not> cmp ?p x" using i f(5,6) irrefl by (cases "i = f - 1") auto
    ultimately show ?thesis by blast
  qed
  have right: "cmp ?p y" if "y \<in> set (seg m' f b)" for y using that f(7) len by (auto simp: in_set_seg)
  have "sort_guard cmp False m' f b" using f(3,5) right asym by (simp add: sort_guard_def)
  moreover have "sorted_by cmp (seg m' a f)"
    unfolding sorted_by_seg_iff [OF len(2)]
  proof (intro allI impI)
    fix i j assume "a \<le> i \<and> i < j \<and> j < f"
    then have "m' ! i \<in> set (seg m' a f)" "m' ! j \<in> set (seg m' a f)" using len(2) by (auto simp: in_set_seg intro: less_trans order.strict_implies_order le_less_trans exI [of _ j])
    then show "\<not> cmp (m' ! j) (m' ! i)" using left neg_trans [of "m' ! j" ?p "m' ! i"] by blast
  qed
  moreover have "\<not> cmp y x" if "x \<in> set (seg m' a f)" "y \<in> set (seg m' f b)" for x y
    using neg_trans [of y ?p x] left [OF that(1)] right [OF that(2)] asym [of ?p y] by blast
  ultimately show ?thesis using f(1-4) by blast
qed

text \<open>Ranges below the limit, and the heap sort when the depth is used up.\<close>

lemma introsort_base_swo:
  assumes "a \<le> b" "b \<le> length m" "sort_guard cmp leftmost m a b" "b < a + 24 \<or> depth = 0"
  shows "\<exists>m'. introsort br bs m a b cmp depth leftmost = Some m' \<and> permuted m m' a b \<and> sorted_by cmp (seg m' a b)"
proof -
  note unfold = introsort.simps [of br bs m a b cmp depth leftmost]
  consider "b = a" | "b = a + 1" | "b = a + 2" | "b = a + 3" | "b = a + 4" | "b = a + 5" | "a + 5 < b" "b < a + 24" | "a + 24 \<le> b" "depth = 0"
    using assms(1,4) by linarith
  then show ?thesis
  proof cases
    case 1
    then show ?thesis using assms(2) by (subst unfold) simp
  next
    case 2
    then show ?thesis using assms(2) by (subst unfold) (simp add: seg_Cons)
  next
    case 3
    then show ?thesis using sort2_range_swo [OF 3 assms(2) refl] assms(2) by (subst unfold) (auto simp: Let_def rd_Some iter_swap_at)
  next
    case 4
    then show ?thesis using sort3_range_swo [OF 4 assms(2), of br] assms(2) by (subst unfold) (simp add: Let_def)
  next
    case 5
    then show ?thesis using sort4_range_swo [OF 5 assms(2), of br] assms(2) by (subst unfold) (simp add: Let_def)
  next
    case 6
    then show ?thesis using sort5_range_swo [OF 6 assms(2), of br] assms(2) by (subst unfold) (simp add: Let_def)
  next
    case 7
    then have len: "\<not> b < a" "b \<noteq> a" "5 < b - a" "b - a < 24" by auto
    then have "introsort br bs m a b cmp depth leftmost = (if leftmost then insertion_sort m a b cmp else insertion_sort_unguarded m a b cmp)"
      by (subst unfold) (simp add: Let_def)
    then have "introsort br bs m a b cmp depth leftmost = insertion_sort m a b cmp"
      using insertion_sort_unguarded_eq [OF assms(1,2), of cmp] assms(3) by (auto simp: sort_guard_def)
    then show ?thesis using insertion_sort_swo [OF assms(1,2)] by auto
  next
    case 8
    then have "\<not> b < a" "24 \<le> b - a" by auto
    with 8 have "introsort br bs m a b cmp depth leftmost = partial_sort m a b b cmp" by (subst unfold) (simp add: Let_def)
    then show ?thesis using partial_sort_swo [OF assms(1) order.refl assms(2)] by auto
  qed
qed

text \<open>Both parts are sorted: one of them may have been finished by the insertion sort.\<close>

lemma introsort_parts_swo:
  assumes "pivot_split cmp m a p b" "sort_guard cmp leftmost m a b"
    and IH: "\<And>m a b lm. a \<le> b \<Longrightarrow> b \<le> length m \<Longrightarrow> sort_guard cmp lm m a b \<Longrightarrow>
      \<exists>m'. introsort br bs m a b cmp d lm = Some m' \<and> permuted m m' a b \<and> sorted_by cmp (seg m' a b)"
    and fin: "left_done \<longrightarrow> sorted_by cmp (seg m a p)" "right_done \<longrightarrow> sorted_by cmp (seg m (Suc p) b)"
  shows "\<exists>m'. (if right_done then (if left_done then Some m else introsort br bs m a p cmp d leftmost)
      else if left_done then introsort br bs m (Suc p) b cmp d leftmost
      else do { m \<leftarrow> introsort br bs m a p cmp d leftmost; introsort br bs m (Suc p) b cmp d False }) = Some m' \<and>
    permuted m m' a b \<and> sorted_by cmp (seg m' a b)"
proof -
  have p: "a \<le> p" "p < b" "b \<le> length m" using assms(1) by (auto simp: pivot_split_def)
  have left: "\<exists>m'. introsort br bs m a p cmp d leftmost = Some m' \<and> permuted m m' a p \<and> sorted_by cmp (seg m' a p)"
    using p sort_guard_prefix [OF assms(2), of p] by (intro IH) auto
  have right: "\<exists>m'. introsort br bs m1 (Suc p) b cmp d lm = Some m' \<and> permuted m1 m' (Suc p) b \<and> sorted_by cmp (seg m' (Suc p) b)"
    if "pivot_split cmp m1 a p b" for m1 lm
    using that sort_guard_behind [OF that] by (intro IH) (auto simp: pivot_split_def)
  consider "right_done" "left_done" | "right_done" "\<not> left_done" | "\<not> right_done" "left_done" | "\<not> right_done" "\<not> left_done" by blast
  then show ?thesis
  proof cases
    case 1
    then show ?thesis using sorted_around_pivot [OF assms(1)] fin by simp
  next
    case 2
    from left obtain m' where m': "introsort br bs m a p cmp d leftmost = Some m'" "permuted m m' a p" "sorted_by cmp (seg m' a p)" by blast
    note split = pivot_split_left [OF assms(1) m'(2)]
    with 2 m' fin(2) sorted_around_pivot [OF split(1)] show ?thesis by simp
  next
    case 3
    from right [OF assms(1)] obtain m' where m': "introsort br bs m (Suc p) b cmp d leftmost = Some m'" "permuted m m' (Suc p) b"
        "sorted_by cmp (seg m' (Suc p) b)" by blast
    note split = pivot_split_right [OF assms(1) m'(2)]
    with 3 m' fin(1) sorted_around_pivot [OF split(1)] show ?thesis by simp
  next
    case 4
    from left obtain m1 where m1: "introsort br bs m a p cmp d leftmost = Some m1" "permuted m m1 a p" "sorted_by cmp (seg m1 a p)" by blast
    note split1 = pivot_split_left [OF assms(1) m1(2)]
    from right [OF split1(1)] obtain m' where m': "introsort br bs m1 (Suc p) b cmp d False = Some m'" "permuted m1 m' (Suc p) b"
        "sorted_by cmp (seg m' (Suc p) b)" by blast
    note split = pivot_split_right [OF split1(1) m'(2)]
    then have "sorted_by cmp (seg m' a b)" using sorted_around_pivot [OF split(1)] m1(3) m'(3) by simp
    with 4 m1(1) m'(1) permuted_trans [OF split1(2) split(2)] show ?thesis by simp
  qed
qed

lemma insertion_sort_incomplete_parts:
  assumes "pivot_split cmp m a p b" "sort_guard cmp leftmost m a b"
  shows "\<exists>m' fs rs. (if al then do {
      (m, fs) \<leftarrow> insertion_sort_incomplete br m a p cmp; (m, rs) \<leftarrow> insertion_sort_incomplete br m (Suc p) b cmp; Some (m, fs, rs)
    } else Some (m, False, False)) = Some (m', fs, rs) \<and> permuted m m' a b \<and> pivot_split cmp m' a p b \<and> sort_guard cmp leftmost m' a b \<and>
    (fs \<longrightarrow> sorted_by cmp (seg m' a p)) \<and> (rs \<longrightarrow> sorted_by cmp (seg m' (Suc p) b))"
proof (cases al)
  case True
  have p: "a \<le> p" "p < b" "b \<le> length m" using assms(1) by (auto simp: pivot_split_def)
  obtain m1 fs where m1: "insertion_sort_incomplete br m a p cmp = Some (m1, fs)" "permuted m m1 a p" "fs \<longrightarrow> sorted_by cmp (seg m1 a p)"
    using insertion_sort_incomplete_swo [of a p m br] p by auto
  note split1 = pivot_split_left [OF assms(1) m1(2)]
  obtain m2 rs where m2: "insertion_sort_incomplete br m1 (Suc p) b cmp = Some (m2, rs)" "permuted m1 m2 (Suc p) b"
      "rs \<longrightarrow> sorted_by cmp (seg m2 (Suc p) b)"
    using insertion_sort_incomplete_swo [of "Suc p" b m1 br] p permuted_length [OF m1(2)] by auto
  note split2 = pivot_split_right [OF split1(1) m2(2)]
  have perm: "permuted m m2 a b" using split1(2) split2(2) permuted_trans by blast
  have "sort_guard cmp leftmost m2 a b" using sort_guard_permuted [OF assms(2) perm] p by simp
  with True m1 m2 split2 perm show ?thesis by auto
qed (use assms in auto)

lemma introsort_swo:
  assumes "a \<le> b" "b \<le> length m" "sort_guard cmp leftmost m a b"
  shows "\<exists>m'. introsort br bs m a b cmp depth leftmost = Some m' \<and> permuted m m' a b \<and> sorted_by cmp (seg m' a b)"
  using assms
proof (induction depth arbitrary: m a b leftmost)
  case 0
  then show ?case by (intro introsort_base_swo) auto
next
  case (Suc d)
  note unfold = introsort.simps [of br bs m a b cmp "Suc d" leftmost]
  show ?case
  proof (cases "b < a + 24")
    case True
    with Suc.prems show ?thesis by (intro introsort_base_swo) auto
  next
    case False
    then have len: "\<not> b < a" "24 \<le> b - a" "a + 24 \<le> b" by auto
    obtain m1 k1 k2 where m1: "choose_pivot m a b (b - a) cmp = Some m1" "permuted m m1 a b" "a < k1" "k1 < b" "a < k2" "k2 < b"
        "\<not> cmp (m1 ! a) (m1 ! k1)" "\<not> cmp (m1 ! k2) (m1 ! a)"
      using choose_pivot_swo [OF len(3) Suc.prems(2)] by blast
    have l1: "b \<le> length m1" "a < length m1" using permuted_length [OF m1(2)] Suc.prems(2) len by auto
    have g1: "sort_guard cmp leftmost m1 a b" using sort_guard_permuted [OF Suc.prems(3) m1(2)] Suc.prems(1) .
    define sl where "sl \<longleftrightarrow> \<not> leftmost \<and> \<not> cmp (m1 ! (a - 1)) (m1 ! a)"
    have sl: "(if leftmost then Some False else if a = 0 then None
        else do { p \<leftarrow> rd m1 (a - 1); x \<leftarrow> rd m1 a; Some (\<not> cmp p x) }) = Some sl"
      using g1 l1(2) by (auto simp: sl_def sort_guard_def rd_Some)
    show ?thesis
    proof (cases sl)
      case True
      then have nl: "\<not> leftmost" "\<not> cmp (m1 ! (a - 1)) (m1 ! a)" by (auto simp: sl_def)
      with g1 have "sort_guard cmp False m1 a b" by (simp add: sort_guard_def)
      then obtain m2 f where m2: "partition_with_equals_on_left m1 a b cmp = Some (m2, f)" "permuted m1 m2 a b" "a < f" "f \<le> b"
          "sort_guard cmp False m2 f b" "sorted_by cmp (seg m2 a f)" "\<forall>x \<in> set (seg m2 a f). \<forall>y \<in> set (seg m2 f b). \<not> cmp y x"
        using equals_on_left_swo [OF m1(3,4) l1(1) m1(7)] nl(2) by blast
      have l2: "b \<le> length m2" using permuted_length [OF m2(2)] l1 by simp
      obtain m3 where m3: "introsort br bs m2 f b cmp d leftmost = Some m3" "permuted m2 m3 f b" "sorted_by cmp (seg m3 f b)"
        using Suc.IH [OF m2(4) l2, of leftmost] m2(5) nl(1) by auto
      have "seg m3 a b = seg m2 a f @ seg m3 f b"
        using seg_append [of a f b m3] permuted_seg_out [OF m3(2), of f a] m2(3,4) by simp
      then have "sorted_by cmp (seg m3 a b)" using m2(6,7) m3(3) permuted_set_seg [OF m3(2) m2(4)] by simp
      moreover have "permuted m m3 a b"
        using permuted_trans [OF permuted_trans [OF m1(2) m2(2)] permuted_mono [OF m3(2)]] m2(3) by simp
      moreover have "introsort br bs m a b cmp (Suc d) leftmost = Some m3"
        using len m1(1) sl True m2(1) m3(1) by (subst unfold) (simp add: Let_def)
      ultimately show ?thesis by blast
    next
      case False
      obtain m2 p al where m2: "(if bs then bitset_partition m1 a b cmp else partition_with_equals_on_right m1 a b cmp) = Some (m2, p, al)"
          "permuted m1 m2 a b" "pivot_split cmp m2 a p b"
        using introsort_partition_swo [OF len(3) l1(1) m1(3-8)] by blast
      have g2: "sort_guard cmp leftmost m2 a b" using sort_guard_permuted [OF g1 m2(2)] Suc.prems(1) .
      obtain m3 fs rs where m3: "(if al then do {
            (m, fs) \<leftarrow> insertion_sort_incomplete br m2 a p cmp; (m, rs) \<leftarrow> insertion_sort_incomplete br m (Suc p) b cmp; Some (m, fs, rs)
          } else Some (m2, False, False)) = Some (m3, fs, rs)" "permuted m2 m3 a b" "pivot_split cmp m3 a p b"
          "sort_guard cmp leftmost m3 a b" "fs \<longrightarrow> sorted_by cmp (seg m3 a p)" "rs \<longrightarrow> sorted_by cmp (seg m3 (Suc p) b)"
        using insertion_sort_incomplete_parts [OF m2(3) g2] by blast
      obtain m4 where m4: "(if rs then (if fs then Some m3 else introsort br bs m3 a p cmp d leftmost)
          else if fs then introsort br bs m3 (Suc p) b cmp d leftmost
          else do { m \<leftarrow> introsort br bs m3 a p cmp d leftmost; introsort br bs m (Suc p) b cmp d False }) = Some m4"
          "permuted m3 m4 a b" "sorted_by cmp (seg m4 a b)"
        using introsort_parts_swo [OF m3(3,4) Suc.IH m3(5,6)] by blast
      have "permuted m m4 a b"
        using permuted_trans [OF permuted_trans [OF m1(2) m2(2)] permuted_trans [OF m3(2) m4(2)]] .
      moreover have "introsort br bs m a b cmp (Suc d) leftmost = Some m4"
        using len m1(1) sl False m2(1) m3(1) m4(1) by (subst unfold) (simp add: Let_def)
      ultimately show ?thesis using m4(3) by blast
    qed
  qed
qed

lemma sort_alg_swo:
  assumes "a \<le> b" "b \<le> length m"
  shows "\<exists>m'. sort_alg consteval ov m a b cmp = Some m' \<and> permuted m m' a b \<and> sorted_by cmp (seg m' a b)"
proof (cases consteval)
  case True
  then show ?thesis
    using partial_sort_swo [OF assms(1) order.refl assms(2)] by (auto simp: sort_alg_def sort_impl_def)
next
  case False
  have "sort_guard cmp True m a b" by (simp add: sort_guard_def)
  with False show ?thesis using introsort_swo [OF assms]
    by (cases ov) (simp_all add: sort_alg_def sort_impl_def sort_lib_def Let_def)
qed

end

text \<open>Every way to compile \<^verbatim>\<open>sort\<close> meets the contract of the sorting algorithms.\<close>

sublocale strict_weak_order \<subseteq> std_sorter: range_sorter cmp "\<lambda>m a b. sort_alg consteval ov m a b cmp" for consteval ov
  by unfold_locales (rule sort_alg_swo)

interpretation less_sort: range_sorter less_op "\<lambda>m a b. sort_alg_less consteval ov m a b" for consteval ov
  unfolding sort_alg_less_def by unfold_locales (rule less.sort_alg_swo)

section \<open>The depth limit\<close>

lemma log2i_loop_eq: "0 < n \<Longrightarrow> n < 2 ^ Suc k \<Longrightarrow> 2 ^ k \<le> n \<Longrightarrow> log2i_loop n c = c + k"
proof (induction k arbitrary: n c)
  case 0
  then show ?case by (simp add: log2i_loop.simps [of n])
next
  case (Suc k)
  have "1 \<le> (2 ^ k :: nat)" by simp
  then have "1 < n" using Suc.prems(3) unfolding power_Suc by linarith
  moreover have "log2i_loop (n div 2) (Suc c) = Suc c + k" using Suc.prems calculation by (intro Suc.IH) (auto simp: less_mult_imp_div_less)
  ultimately show ?case by (simp add: log2i_loop.simps [of n])
qed

lemma highest_bit_of_nat:
  assumes "2 ^ k \<le> n" "n < 2 ^ Suc k" "k < LENGTH('a)"
  shows "highest_bit (of_nat n :: 'a::len word) k"
proof -
  have "n < 2 ^ LENGTH('a)" using assms(2,3) power_increasing [of "Suc k" "LENGTH('a)" "2 :: nat"] by simp
  then have bits: "bit (of_nat n :: 'a word) i \<longleftrightarrow> i < LENGTH('a) \<and> bit n i" for i by (simp add: bit_simps)
  have "n div 2 ^ k = 1" using assms(1,2) div_nat_eqI [of "2 ^ k" 1 n] by simp
  then have "bit n k" by (simp add: bit_iff_odd)
  moreover have "\<not> bit n i" if "k < i" for i
    using that assms(2) power_increasing [of "Suc k" i "2 :: nat"] by (simp add: bit_iff_odd)
  ultimately show ?thesis using assms(3) by (auto simp: highest_bit_def bits)
qed

lemma log2i_eq:
  assumes "2 ^ k \<le> n" "n < 2 ^ Suc k" "size' \<le> 4 \<longrightarrow> k < 32" "4 < size' \<and> size' \<le> 8 \<longrightarrow> k < 64"
  shows "log2i size' n = k"
proof -
  have "0 < n" using assms(1) by (metis gr0I le_zero_eq power_not_zero zero_neq_numeral)
  moreover have "countl_zero (of_nat n :: 32 word) = 31 - k" if "k < 32"
    using countl_zero_spec [OF _ highest_bit_of_nat [OF assms(1,2)], where 'a = 32] that by (simp add: wide_ok_def)
  moreover have "countl_zero (of_nat n :: 64 word) = 63 - k" if "k < 64"
    using countl_zero_spec [OF _ highest_bit_of_nat [OF assms(1,2)], where 'a = 64] that by (simp add: wide_ok_def)
  ultimately show ?thesis using assms log2i_loop_eq [OF _ assms(2,1), of 0] by (auto simp: log2i_def)
qed

section \<open>Properties\<close>

text \<open>
  C1: \<^verbatim>\<open>sort\<close>, in every configuration (constant evaluation or not, either overload, branch-free
  small sorts or not, block partition or not), returns without reading or writing outside its
  range and leaves it sorted and rearranged, for every comparator that is a strict weak order: the
  unguarded scans and insertions of \<^verbatim>\<open>__introsort\<close> never leave the range.
\<close>

theorem sort_correct:
  assumes "strict_weak_order cmp" "a \<le> b" "b \<le> length m"
  shows "\<exists>m'. sort_alg consteval ov m a b cmp = Some m' \<and> permuted m m' a b \<and> sorted_by cmp (seg m' a b)"
  using strict_weak_order.sort_alg_swo [OF assms(1)] assms(2,3) by blast

theorem sort_correct_witness:
  "\<exists>m'. sort_alg False (Generic_Overload False False) [5, 3, 4, 2, 9, 0, 7, 1 :: int] 1 8 less_op = Some m' \<and>
     permuted [5, 3, 4, 2, 9, 0, 7, 1] m' 1 8 \<and> sorted_by less_op (seg m' 1 8)"
  by (rule sort_correct [OF less.strict_weak_order_axioms]) simp_all

text \<open>
  The block partition for arithmetic types, which records 64 comparisons in a word and exchanges
  elements by the bits set, puts the pivot between the elements not above it and those not below
  it, when some element of the range is not above the pivot.
\<close>

theorem bitset_partition_correct:
  assumes "strict_weak_order cmp" "b + 3 \<le> e" "e \<le> length m" "b < k" "k < e" "\<not> cmp (m ! b) (m ! k)"
  shows "\<exists>m' p al. bitset_partition m b e cmp = Some (m', p, al) \<and> permuted m m' b e \<and> b \<le> p \<and> p < e \<and>
    (\<forall>i. b \<le> i \<and> i < p \<longrightarrow> \<not> cmp (m' ! p) (m' ! i)) \<and> (\<forall>i. p < i \<and> i < e \<longrightarrow> \<not> cmp (m' ! i) (m' ! p))"
  using assms by (rule bitset_partition_spec)

theorem bitset_partition_correct_witness:
  "\<exists>m' p al. bitset_partition [3, 1, 7, 2, 9, 3 :: int] 0 6 less_op = Some (m', p, al) \<and> permuted [3, 1, 7, 2, 9, 3] m' 0 6 \<and>
    0 \<le> p \<and> p < 6 \<and> (\<forall>i. 0 \<le> i \<and> i < p \<longrightarrow> \<not> less_op (m' ! p) (m' ! i)) \<and> (\<forall>i. p < i \<and> i < 6 \<longrightarrow> \<not> less_op (m' ! i) (m' ! p))"
  by (rule bitset_partition_correct [OF less.strict_weak_order_axioms, of _ _ _ 1]) (simp_all add: less_op_def)

end
