(* ===== verification/Stable_Sort.thy ===== *)
theory Stable_Sort
  imports Sort_Small Rearrange_Ops
begin

text \<open>
  The merge sort of \<^verbatim>\<open>stable_sort.h\<close> and the merge of two adjacent sorted ranges of
  \<^verbatim>\<open>inplace_merge.h\<close>, with the temporary buffer of \<^verbatim>\<open>temporary_buffer.h\<close>.  The buffer is a
  memory of its own; how much of it the allocator grants is up to the allocator, and the merge
  works with a buffer of any size, down to none.

  The memory behind reverse iterators is the reversed memory: a reverse iterator whose base is
  \<open>k\<close> denotes the place \<open>length m - k\<close> of \<open>rev m\<close>.
\<close>

section \<open>Definitions\<close>

subsection \<open>The temporary buffer\<close>

text \<open>
  \<open>alloc n\<close> is the outcome of the global \<^verbatim>\<open>operator new\<close> for \<open>n\<close> elements of size
  \<open>elem_size\<close>: a block, or nothing, for the null pointer the loop of the source tests.  An exception of the host's allocation function
  would leave \<^verbatim>\<open>get_temporary_buffer\<close>, which is \<^verbatim>\<open>noexcept\<close>, and end the program; that is not modelled.
\<close>

function get_temporary_buffer_loop :: "(nat \<Rightarrow> 'a mem option) \<Rightarrow> nat \<Rightarrow> 'a mem \<times> nat" where
  "get_temporary_buffer_loop alloc n =
     (if n > 0 then (case alloc n of Some buf \<Rightarrow> (buf, n) | None \<Rightarrow> get_temporary_buffer_loop alloc (n div 2)) else ([], 0))"
  by pat_completeness auto
termination
  by (relation "measure snd") auto

definition get_temporary_buffer :: "(nat \<Rightarrow> 'a mem option) \<Rightarrow> nat \<Rightarrow> nat \<Rightarrow> 'a mem \<times> nat" where
  "get_temporary_buffer alloc elem_size n =
     (let m = (2 ^ 63 - 1) div elem_size; n = (if n > m then m else n) in get_temporary_buffer_loop alloc n)"

subsection \<open>inplace\_merge\<close>

definition invert :: "('a \<Rightarrow> 'a \<Rightarrow> bool) \<Rightarrow> 'a \<Rightarrow> 'a \<Rightarrow> bool" where
  "invert p x y = p y x"

text \<open>Moving a range of one memory to another, by assignment or construction.\<close>

function move_out :: "'a mem \<Rightarrow> iter \<Rightarrow> iter \<Rightarrow> 'a mem \<Rightarrow> iter \<Rightarrow> ('a mem \<times> iter) option" where
  "move_out s first last' m result =
     (if first \<noteq> last' then do {
        x \<leftarrow> rd s first;
        m \<leftarrow> wr m result x;
        move_out s (Suc first) last' m (Suc result)
      } else Some (m, result))"
  by pat_completeness auto
termination
  by (relation "measure (\<lambda>(s, first, last', m, result). length s - first)") auto

text \<open>The first input is in \<open>s\<close>; the second one and the output are in \<open>m\<close>.\<close>

function half_inplace_merge ::
    "'a mem \<Rightarrow> iter \<Rightarrow> iter \<Rightarrow> 'a mem \<Rightarrow> iter \<Rightarrow> iter \<Rightarrow> iter \<Rightarrow> ('a \<Rightarrow> 'a \<Rightarrow> bool) \<Rightarrow> 'a mem option" where
  "half_inplace_merge s first1 last1 m first2 last2 result cmp =
     (if first1 \<noteq> last1 then
        (if first2 = last2 then map_option fst (move_out s first1 last1 m result)
         else do {
           y \<leftarrow> rd m first2;
           x \<leftarrow> rd s first1;
           if cmp y x then do {
             m \<leftarrow> wr m result y;
             half_inplace_merge s first1 last1 m (Suc first2) last2 (Suc result) cmp
           } else do {
             m \<leftarrow> wr m result x;
             half_inplace_merge s (Suc first1) last1 m first2 last2 (Suc result) cmp
           }
         })
      else Some m)"
  by pat_completeness auto
termination
  by (relation "measure (\<lambda>(s, first1, last1, m, first2, last2, result, cmp). (length s - first1) + (length m - first2))") auto

definition buffered_inplace_merge ::
    "'a mem \<Rightarrow> 'a mem \<Rightarrow> iter \<Rightarrow> iter \<Rightarrow> iter \<Rightarrow> ('a \<Rightarrow> 'a \<Rightarrow> bool) \<Rightarrow> nat \<Rightarrow> nat \<Rightarrow> iter \<Rightarrow> ('a mem \<times> 'a mem) option" where
  "buffered_inplace_merge m buf first middle last' cmp len1 len2 buff =
     (if len1 \<le> len2 then do {
        (buf, p) \<leftarrow> move_out m first middle buf buff;
        m \<leftarrow> half_inplace_merge buf buff p m middle last' first cmp;
        Some (m, buf)
      } else do {
        (buf, p) \<leftarrow> move_out m middle last' buf buff;
        rm \<leftarrow> half_inplace_merge (rev buf) (length buf - p) (length buf - buff) (rev m) (length m - middle) (length m - first)
          (length m - last') (invert cmp);
        Some (rev rm, buf)
      })"

text \<open>\<open>Some None\<close> is the return of the source when the first range is used up.\<close>

fun inplace_merge_skip :: "'a mem \<Rightarrow> iter \<Rightarrow> iter \<Rightarrow> ('a \<Rightarrow> 'a \<Rightarrow> bool) \<Rightarrow> nat \<Rightarrow> (iter \<times> nat) option option" where
  "inplace_merge_skip m first middle cmp 0 = Some None"
| "inplace_merge_skip m first middle cmp (Suc len1) = do {
     y \<leftarrow> rd m middle; x \<leftarrow> rd m first;
     if cmp y x then Some (Some (first, Suc len1)) else inplace_merge_skip m (Suc first) middle cmp len1
   }"

declare get_temporary_buffer_loop.simps [simp del] move_out.simps [simp del] half_inplace_merge.simps [simp del]

lemma partition_point_loop_bound:
  "partition_point_loop m q first len = Some r \<Longrightarrow> first \<le> r \<and> r \<le> first + len"
proof (induction m q first len rule: partition_point_loop.induct)
  case (1 m q first len)
  show ?case
  proof (cases "len = 0")
    case True
    with 1(3) show ?thesis by (simp add: partition_point_loop.simps [of m])
  next
    case False
    have half: "half_positive len < len" using False by (simp add: half_positive_def)
    from False 1(3) obtain x where x: "rd m (first + half_positive len) = Some x"
        "(if q x then partition_point_loop m q (Suc (first + half_positive len)) (len - (half_positive len + 1))
          else partition_point_loop m q first (half_positive len)) = Some r"
      by (auto simp: partition_point_loop.simps [of m q first len] Let_def bind_eq_Some_conv)
    with 1(1,2) [OF False refl refl x(1)] half show ?thesis by (cases "q x") auto
  qed
qed

lemma lower_bound_range: "lower_bound_impl m a b v cmp proj = Some r \<Longrightarrow> a \<le> r \<and> r \<le> a + (b - a)"
  using partition_point_loop_bound by (fastforce simp: lower_bound_impl_def lower_bound_loop_eq)

lemma upper_bound_range: "upper_bound_impl m a b v cmp proj = Some r \<Longrightarrow> a \<le> r \<and> r \<le> a + (b - a)"
  using partition_point_loop_bound by (fastforce simp: upper_bound_impl_def upper_bound_loop_eq)

lemma inplace_merge_skip_range:
  "inplace_merge_skip m first middle cmp len = Some (Some (f, l)) \<Longrightarrow> f + l = first + len \<and> 0 < l \<and> l \<le> len"
  by (induction m first middle cmp len rule: inplace_merge_skip.induct) (auto simp: bind_eq_Some_conv split: if_splits)

definition inplace_merge_cut ::
    "'a mem \<Rightarrow> iter \<Rightarrow> iter \<Rightarrow> iter \<Rightarrow> ('a \<Rightarrow> 'a \<Rightarrow> bool) \<Rightarrow> nat \<Rightarrow> nat \<Rightarrow> (iter \<times> iter \<times> nat \<times> nat) option" where
  "inplace_merge_cut m first middle last' cmp len1 len2 =
     (if len1 < len2 then do {
        let len21 = len2 div 2;
        let m2 = middle + len21;
        x \<leftarrow> rd m m2;
        m1 \<leftarrow> upper_bound_impl m first middle x cmp id;
        Some (m1, m2, m1 - first, len21)
      } else do {
        let len11 = len1 div 2;
        let m1 = first + len11;
        x \<leftarrow> rd m m1;
        m2 \<leftarrow> lower_bound_impl m middle last' x cmp id;
        Some (m1, m2, len11, m2 - middle)
      })"

lemma inplace_merge_cut_range:
  assumes "inplace_merge_cut m first middle last' cmp len1 len2 = Some (m1, m2, len11, len21)"
    "first + len1 = middle" "middle + len2 = last'" "0 < len1" "0 < len2" "len1 < len2 \<or> len1 \<noteq> 1"
  shows "m1 = first + len11" "m2 = middle + len21" "len11 \<le> len1" "len21 \<le> len2" "0 < len11 + len21" "len11 + len21 < len1 + len2"
  using assms by (auto simp: inplace_merge_cut_def Let_def bind_eq_Some_conv dest!: lower_bound_range upper_bound_range split: if_splits)

text \<open>
  The lengths are the distances of the iterators: that is what the callers pass.  The recursive
  call and the next turn of the loop are the two calls at the end.
\<close>

function inplace_merge_loop ::
    "category \<Rightarrow> bool \<Rightarrow> 'a mem \<Rightarrow> 'a mem \<Rightarrow> iter \<Rightarrow> iter \<Rightarrow> iter \<Rightarrow> ('a \<Rightarrow> 'a \<Rightarrow> bool) \<Rightarrow> nat \<Rightarrow> nat \<Rightarrow> iter \<Rightarrow> nat \<Rightarrow>
      ('a mem \<times> 'a mem) option" where
  "inplace_merge_loop cat triv m buf first middle last' cmp len1 len2 buff buff_size =
     (if first + len1 \<noteq> middle \<or> middle + len2 \<noteq> last' then None
      else if len2 = 0 then Some (m, buf)
      else if len1 \<le> buff_size \<or> len2 \<le> buff_size then buffered_inplace_merge m buf first middle last' cmp len1 len2 buff
      else do {
        skipped \<leftarrow> inplace_merge_skip m first middle cmp len1;
        case skipped of
          None \<Rightarrow> Some (m, buf)
        | Some (first, len1) \<Rightarrow>
            if \<not> len1 < len2 \<and> len1 = 1 then do { m \<leftarrow> iter_swap m first middle; Some (m, buf) }
            else do {
              (m1, m2, len11, len21) \<leftarrow> inplace_merge_cut m first middle last' cmp len1 len2;
              let len12 = len1 - len11;
              let len22 = len2 - len21;
              (m, middle, _) \<leftarrow> rotate_pair cat triv m m1 middle m2;
              if len11 + len21 < len12 + len22 then do {
                (m, buf) \<leftarrow> inplace_merge_loop cat triv m buf first m1 middle cmp len11 len21 buff buff_size;
                inplace_merge_loop cat triv m buf middle m2 last' cmp len12 len22 buff buff_size
              } else do {
                (m, buf) \<leftarrow> inplace_merge_loop cat triv m buf middle m2 last' cmp len12 len22 buff buff_size;
                inplace_merge_loop cat triv m buf first m1 middle cmp len11 len21 buff buff_size
              }
            }
      })"
  by pat_completeness auto
termination
  by (relation "measure (\<lambda>(cat, triv, m, buf, first, middle, last', cmp, len1, len2, buff, buff_size). len1 + len2)")
    (auto dest!: inplace_merge_skip_range dest: inplace_merge_cut_range)

declare inplace_merge_loop.simps [simp del]

definition inplace_merge_impl ::
    "category \<Rightarrow> bool \<Rightarrow> (nat \<Rightarrow> 'a mem option) \<Rightarrow> nat \<Rightarrow> 'a mem \<Rightarrow> iter \<Rightarrow> iter \<Rightarrow> iter \<Rightarrow> ('a \<Rightarrow> 'a \<Rightarrow> bool) \<Rightarrow> 'a mem option" where
  "inplace_merge_impl cat triv alloc elem_size m first middle last' cmp =
     (let len1 = middle - first; len2 = last' - middle;
          buf_size = min len1 len2;
          (buf, size') = get_temporary_buffer alloc elem_size buf_size
      in map_option fst (inplace_merge_loop cat triv m buf first middle last' cmp len1 len2 0 size'))"

definition inplace_merge ::
    "category \<Rightarrow> bool \<Rightarrow> (nat \<Rightarrow> 'a mem option) \<Rightarrow> nat \<Rightarrow> 'a mem \<Rightarrow> iter \<Rightarrow> iter \<Rightarrow> iter \<Rightarrow> ('a \<Rightarrow> 'a \<Rightarrow> bool) \<Rightarrow> 'a mem option" where
  "inplace_merge cat triv alloc elem_size m first middle last' cmp =
     inplace_merge_impl cat triv alloc elem_size m first middle last' cmp"

subsection \<open>stable\_sort\<close>

text \<open>
  The insertion sort that moves the range of \<open>m\<close> to the buffer.  In the inner loop \<open>j2\<close> and
  \<open>i2\<close> are the iterators after the decrement of \<open>j2\<close>.
\<close>

function insertion_move_shift ::
    "'a mem \<Rightarrow> iter \<Rightarrow> iter \<Rightarrow> iter \<Rightarrow> 'a \<Rightarrow> ('a \<Rightarrow> 'a \<Rightarrow> bool) \<Rightarrow> ('a mem \<times> iter) option" where
  "insertion_move_shift buf first2 j2 i2 t cmp =
     (if i2 \<noteq> first2 then
        (if i2 = 0 then None
         else do {
           let i2 = i2 - 1;
           x \<leftarrow> rd buf i2;
           if cmp t x then do {
             buf \<leftarrow> wr buf j2 x;
             if j2 = 0 then None else insertion_move_shift buf first2 (j2 - 1) i2 t cmp
           } else Some (buf, j2)
         })
      else Some (buf, j2))"
  by pat_completeness auto
termination
  by (relation "measure (\<lambda>(buf, first2, j2, i2, t, cmp). i2)") auto

function insertion_sort_move_loop ::
    "'a mem \<Rightarrow> iter \<Rightarrow> iter \<Rightarrow> 'a mem \<Rightarrow> iter \<Rightarrow> iter \<Rightarrow> ('a \<Rightarrow> 'a \<Rightarrow> bool) \<Rightarrow> 'a mem option" where
  "insertion_sort_move_loop m first1 last1 buf first2 last2 cmp =
     (if first1 \<noteq> last1 then
        (if last2 = 0 then None
         else do {
           let j2 = last2;
           let i2 = j2 - 1;
           t \<leftarrow> rd m first1;
           y \<leftarrow> rd buf i2;
           buf \<leftarrow> (if cmp t y then do {
                     buf \<leftarrow> wr buf j2 y;
                     (buf, j2) \<leftarrow> insertion_move_shift buf first2 (j2 - 1) i2 t cmp;
                     wr buf j2 t
                   } else wr buf j2 t);
           insertion_sort_move_loop m (Suc first1) last1 buf first2 (Suc last2) cmp
         })
      else Some buf)"
  by pat_completeness auto
termination
  by (relation "measure (\<lambda>(m, first1, last1, buf, first2, last2, cmp). length m - first1)") auto

definition insertion_sort_move ::
    "'a mem \<Rightarrow> iter \<Rightarrow> iter \<Rightarrow> 'a mem \<Rightarrow> iter \<Rightarrow> ('a \<Rightarrow> 'a \<Rightarrow> bool) \<Rightarrow> 'a mem option" where
  "insertion_sort_move m first1 last1 buf first2 cmp =
     (if first1 \<noteq> last1 then do {
        x \<leftarrow> rd m first1;
        buf \<leftarrow> wr buf first2 x;
        insertion_sort_move_loop m (Suc first1) last1 buf first2 (Suc first2) cmp
      } else Some buf)"

function merge_move_construct ::
    "'a mem \<Rightarrow> iter \<Rightarrow> iter \<Rightarrow> iter \<Rightarrow> iter \<Rightarrow> 'a mem \<Rightarrow> iter \<Rightarrow> ('a \<Rightarrow> 'a \<Rightarrow> bool) \<Rightarrow> 'a mem option" where
  "merge_move_construct s first1 last1 first2 last2 buf result cmp =
     (if first1 = last1 then map_option fst (move_out s first2 last2 buf result)
      else if first2 = last2 then map_option fst (move_out s first1 last1 buf result)
      else do {
        y \<leftarrow> rd s first2;
        x \<leftarrow> rd s first1;
        if cmp y x then do {
          buf \<leftarrow> wr buf result y;
          merge_move_construct s first1 last1 (Suc first2) last2 buf (Suc result) cmp
        } else do {
          buf \<leftarrow> wr buf result x;
          merge_move_construct s (Suc first1) last1 first2 last2 buf (Suc result) cmp
        }
      })"
  by pat_completeness auto
termination
  by (relation "measure (\<lambda>(s, first1, last1, first2, last2, buf, result, cmp). (length s - first1) + (length s - first2))") auto

function merge_move_assign ::
    "'a mem \<Rightarrow> iter \<Rightarrow> iter \<Rightarrow> iter \<Rightarrow> iter \<Rightarrow> 'a mem \<Rightarrow> iter \<Rightarrow> ('a \<Rightarrow> 'a \<Rightarrow> bool) \<Rightarrow> 'a mem option" where
  "merge_move_assign s first1 last1 first2 last2 m result cmp =
     (if first1 \<noteq> last1 then
        (if first2 = last2 then map_option fst (move_out s first1 last1 m result)
         else do {
           y \<leftarrow> rd s first2;
           x \<leftarrow> rd s first1;
           if cmp y x then do {
             m \<leftarrow> wr m result y;
             merge_move_assign s first1 last1 (Suc first2) last2 m (Suc result) cmp
           } else do {
             m \<leftarrow> wr m result x;
             merge_move_assign s (Suc first1) last1 first2 last2 m (Suc result) cmp
           }
         })
      else map_option fst (move_out s first2 last2 m result))"
  by pat_completeness auto
termination
  by (relation "measure (\<lambda>(s, first1, last1, first2, last2, m, result, cmp). (length s - first1) + (length s - first2))") auto

definition stable_sort_switch :: "bool \<Rightarrow> nat" where
  "stable_sort_switch trivially_copy_assignable = 128 * of_bool trivially_copy_assignable"

text \<open>
  \<open>triv\<close> tells whether the elements are trivially copy assignable, on which the switch to insertion sort depends, and \<open>triv_move\<close>
  whether they are trivially move assignable, on which the rotation depends.  The two functions call each other with half of the length.
\<close>

function stable_sort_rec ::
    "bool \<Rightarrow> bool \<Rightarrow> 'a mem \<Rightarrow> 'a mem \<Rightarrow> iter \<Rightarrow> iter \<Rightarrow> ('a \<Rightarrow> 'a \<Rightarrow> bool) \<Rightarrow> nat \<Rightarrow> iter \<Rightarrow> nat \<Rightarrow> ('a mem \<times> 'a mem) option"
and stable_sort_move ::
    "bool \<Rightarrow> bool \<Rightarrow> 'a mem \<Rightarrow> 'a mem \<Rightarrow> iter \<Rightarrow> iter \<Rightarrow> ('a \<Rightarrow> 'a \<Rightarrow> bool) \<Rightarrow> nat \<Rightarrow> iter \<Rightarrow> ('a mem \<times> 'a mem) option" where
  "stable_sort_rec triv triv_move m buf first last' cmp len buff buff_size =
     (if len = 0 \<or> len = 1 then Some (m, buf)
      else if len = 2 then do {
        y \<leftarrow> rd m (last' - 1); x \<leftarrow> rd m first;
        m \<leftarrow> (if cmp y x then iter_swap m first (last' - 1) else Some m);
        Some (m, buf)
      }
      else if len \<le> stable_sort_switch triv then do { m \<leftarrow> insertion_sort m first last' cmp; Some (m, buf) }
      else do {
        let l2 = len div 2;
        let mid = first + l2;
        if len \<le> buff_size then do {
          (m, buf) \<leftarrow> stable_sort_move triv triv_move m buf first mid cmp l2 buff;
          (m, buf) \<leftarrow> stable_sort_move triv triv_move m buf mid last' cmp (len - l2) (buff + l2);
          m \<leftarrow> merge_move_assign buf buff (buff + l2) (buff + l2) (buff + len) m first cmp;
          Some (m, buf)
        } else do {
          (m, buf) \<leftarrow> stable_sort_rec triv triv_move m buf first mid cmp l2 buff buff_size;
          (m, buf) \<leftarrow> stable_sort_rec triv triv_move m buf mid last' cmp (len - l2) buff buff_size;
          inplace_merge_loop Random_Access triv_move m buf first mid last' cmp l2 (len - l2) buff buff_size
        }
      })"
| "stable_sort_move triv triv_move m buf first1 last1 cmp len first2 =
     (if len = 0 then Some (m, buf)
      else if len = 1 then do { x \<leftarrow> rd m first1; buf \<leftarrow> wr buf first2 x; Some (m, buf) }
      else if len = 2 then do {
        y \<leftarrow> rd m (last1 - 1); x \<leftarrow> rd m first1;
        if cmp y x then do { buf \<leftarrow> wr buf first2 y; buf \<leftarrow> wr buf (Suc first2) x; Some (m, buf) }
        else do { buf \<leftarrow> wr buf first2 x; buf \<leftarrow> wr buf (Suc first2) y; Some (m, buf) }
      }
      else if len \<le> 8 then do { buf \<leftarrow> insertion_sort_move m first1 last1 buf first2 cmp; Some (m, buf) }
      else do {
        let l2 = len div 2;
        let mid = first1 + l2;
        (m, buf) \<leftarrow> stable_sort_rec triv triv_move m buf first1 mid cmp l2 first2 l2;
        (m, buf) \<leftarrow> stable_sort_rec triv triv_move m buf mid last1 cmp (len - l2) (first2 + l2) (len - l2);
        buf \<leftarrow> merge_move_construct m first1 mid mid last1 buf first2 cmp;
        Some (m, buf)
      })"
  by pat_completeness auto
termination
  by (relation "measure (\<lambda>x. case x of Inl (triv, triv_move, m, buf, first, last', cmp, len, buff, buff_size) \<Rightarrow> len
                                     | Inr (triv, triv_move, m, buf, first1, last1, cmp, len, first2) \<Rightarrow> len)") auto

declare insertion_move_shift.simps [simp del] insertion_sort_move_loop.simps [simp del] merge_move_construct.simps [simp del]
  merge_move_assign.simps [simp del] stable_sort_rec.simps [simp del] stable_sort_move.simps [simp del]

definition stable_sort_impl ::
    "bool \<Rightarrow> bool \<Rightarrow> (nat \<Rightarrow> 'a mem option) \<Rightarrow> nat \<Rightarrow> 'a mem \<Rightarrow> iter \<Rightarrow> iter \<Rightarrow> ('a \<Rightarrow> 'a \<Rightarrow> bool) \<Rightarrow> 'a mem option" where
  "stable_sort_impl triv triv_move alloc elem_size m first last' cmp =
     (let len = last' - first;
          (buf, size') = (if len > stable_sort_switch triv then get_temporary_buffer alloc elem_size len else ([], 0))
      in map_option fst (stable_sort_rec triv triv_move m buf first last' cmp len 0 size'))"

definition stable_sort ::
    "bool \<Rightarrow> bool \<Rightarrow> (nat \<Rightarrow> 'a mem option) \<Rightarrow> nat \<Rightarrow> 'a mem \<Rightarrow> iter \<Rightarrow> iter \<Rightarrow> ('a \<Rightarrow> 'a \<Rightarrow> bool) \<Rightarrow> 'a mem option" where
  "stable_sort triv triv_move alloc elem_size m first last' cmp = stable_sort_impl triv triv_move alloc elem_size m first last' cmp"

definition stable_sort_less ::
    "bool \<Rightarrow> bool \<Rightarrow> (nat \<Rightarrow> 'a mem option) \<Rightarrow> nat \<Rightarrow> 'a::linorder mem \<Rightarrow> iter \<Rightarrow> iter \<Rightarrow> 'a mem option" where
  "stable_sort_less triv triv_move alloc elem_size m first last' = stable_sort triv triv_move alloc elem_size m first last' less_op"

section \<open>The loops\<close>

lemma move_out_eq:
  assumes "f \<le> l" "l \<le> length s" "r + (l - f) \<le> length m"
  shows "move_out s f l m r = Some (put_at m r (seg s f l), r + (l - f))"
  using assms
proof (induction "l - f" arbitrary: f m r)
  case 0
  then show ?case by (simp add: move_out.simps [of s])
next
  case (Suc n)
  then have "f < l" "r < length m" "n = l - Suc f" by auto
  with Suc.hyps(1) [of "Suc f" "Suc r" "m[r := s ! f]"] Suc.prems show ?case
    by (simp add: move_out.simps [of s f] mem_simps seg_Cons put_at_Cons)
qed

lemma merge_move_construct_eq:
  assumes "f1 \<le> l1" "l1 \<le> length s" "f2 \<le> l2" "l2 \<le> length s" "r + (l1 - f1) + (l2 - f2) \<le> length m"
  shows "merge_move_construct s f1 l1 f2 l2 m r cmp = Some (put_at m r (merge_list cmp (seg s f1 l1) (seg s f2 l2)))"
  using assms
proof (induction "(l1 - f1) + (l2 - f2)" arbitrary: f1 f2 m r rule: less_induct)
  case less
  note unfold = merge_move_construct.simps [of s f1 l1 f2 l2 m r cmp]
  show ?case
  proof (cases "f1 = l1 \<or> f2 = l2")
    case True
    with less.prems show ?thesis by (auto simp: unfold move_out_eq)
  next
    case False
    with less.prems have "f1 < l1" "f2 < l2" "r < length m" by linarith+
    with less.prems show ?thesis by (simp add: unfold less.hyps mem_simps seg_Cons put_at_Cons)
  qed
qed

lemma merge_move_assign_eq:
  assumes "f1 \<le> l1" "l1 \<le> length s" "f2 \<le> l2" "l2 \<le> length s" "r + (l1 - f1) + (l2 - f2) \<le> length m"
  shows "merge_move_assign s f1 l1 f2 l2 m r cmp = Some (put_at m r (merge_list cmp (seg s f1 l1) (seg s f2 l2)))"
  using assms
proof (induction "(l1 - f1) + (l2 - f2)" arbitrary: f1 f2 m r rule: less_induct)
  case less
  note unfold = merge_move_assign.simps [of s f1 l1 f2 l2 m r cmp]
  show ?case
  proof (cases "f1 = l1 \<or> f2 = l2")
    case True
    with less.prems show ?thesis by (auto simp: unfold move_out_eq)
  next
    case False
    with less.prems have "f1 < l1" "f2 < l2" "r < length m" by linarith+
    with less.prems show ?thesis by (simp add: unfold less.hyps mem_simps seg_Cons put_at_Cons)
  qed
qed

lemma half_inplace_merge_eq:
  assumes "f1 \<le> l1" "l1 \<le> length s" "f2 \<le> l2" "l2 \<le> length m" "r + (l1 - f1) = f2"
  shows "half_inplace_merge s f1 l1 m f2 l2 r cmp = Some (put_at m r (merge_list cmp (seg s f1 l1) (seg m f2 l2)))"
  using assms
proof (induction "(l1 - f1) + (l2 - f2)" arbitrary: f1 f2 m r rule: less_induct)
  case less
  note unfold = half_inplace_merge.simps [of s f1 l1 m f2 l2 r cmp]
  consider "f1 = l1" | "f1 < l1" "f2 = l2" | "f1 < l1" "f2 < l2" using less.prems by linarith
  then show ?case
  proof cases
    case 1
    with less.prems show ?thesis by (subst unfold) (simp add: put_at_seg_id)
  next
    case 2
    with less.prems show ?thesis by (subst unfold) (simp add: move_out_eq)
  next
    case 3
    have r: "r < f2" "r < length m" using 3 less.prems by auto
    have same: "seg (m[r := v]) k l2 = seg m k l2" if "r < k" for k v
      using that by (intro frame_seg_out [of _ _ r "Suc r"] frame_update) auto
    have 1: "half_inplace_merge s f1 l1 (m[r := m ! f2]) (Suc f2) l2 (Suc r) cmp =
        Some (put_at (m[r := m ! f2]) (Suc r) (merge_list cmp (seg s f1 l1) (seg m (Suc f2) l2)))"
      using less.hyps [of f1 "Suc f2" "m[r := m ! f2]" "Suc r"] less.prems 3 same [of "Suc f2"] r by auto
    have 2: "half_inplace_merge s (Suc f1) l1 (m[r := s ! f1]) f2 l2 (Suc r) cmp =
        Some (put_at (m[r := s ! f1]) (Suc r) (merge_list cmp (seg s (Suc f1) l1) (seg m f2 l2)))"
      using less.hyps [of "Suc f1" f2 "m[r := s ! f1]" "Suc r"] less.prems 3 same [of f2] r by auto
    from 3 less.prems r show ?thesis by (simp add: unfold 1 2 mem_simps seg_Cons put_at_Cons)
  qed
qed

lemma insertion_move_shift_eq:
  assumes "first \<le> k" "Suc k < length m"
  shows "insertion_shift m first (Suc k) k t cmp = insertion_move_shift (m[Suc k := m ! k]) first k k t cmp"
  using assms
proof (induction k arbitrary: m rule: dec_induct)
  case base
  then show ?case by (simp add: insertion_shift.simps [of m first] insertion_move_shift.simps [of _ first first] mem_simps)
next
  case (step k)
  let ?m = "m[Suc (Suc k) := m ! Suc k]"
  have "insertion_shift ?m first (Suc k) k t cmp = insertion_move_shift (?m[Suc k := ?m ! k]) first k k t cmp"
    using step by simp
  with step show ?case
    by (simp add: insertion_shift.simps [of m first] insertion_move_shift.simps [of ?m first "Suc k"] mem_simps Let_def)
qed

lemma insertion_sort_move_loop_eq:
  assumes "f1 \<le> l1" "l1 \<le> length m" "f2 < l2" "l2 + (l1 - f1) \<le> length buf"
  shows "insertion_sort_move_loop m f1 l1 buf f2 l2 cmp = Some (put_at buf f2 (ins_sort cmp (seg buf f2 l2) (seg m f1 l1)))"
  using assms
proof (induction "l1 - f1" arbitrary: f1 l2 buf)
  case 0
  then show ?case by (simp add: insertion_sort_move_loop.simps [of m] put_at_seg_id)
next
  case (Suc n)
  let ?t = "m ! f1" and ?xs = "seg buf f2 l2"
  let ?buf = "put_at buf f2 (ins_right cmp ?t ?xs)"
  have b: "f1 < l1" "l2 < length buf" "n = l1 - Suc f1" using Suc.hyps(2) Suc.prems by auto
  have len: "length (ins_right cmp ?t ?xs) = Suc l2 - f2" using Suc.prems b by simp
  have seg: "seg ?buf f2 (Suc l2) = ins_right cmp ?t ?xs"
    using seg_put_at [of f2 "ins_right cmp ?t ?xs" buf] len Suc.prems b by simp
  have lb: "length ?buf = length buf" using len Suc.prems b by simp
  have "insertion_sort_move_loop m (Suc f1) l1 ?buf f2 (Suc l2) cmp =
      Some (put_at ?buf f2 (ins_sort cmp (ins_right cmp ?t ?xs) (seg m (Suc f1) l1)))"
    using Suc.hyps(1) [of "Suc f1" "Suc l2" ?buf] Suc.prems b lb seg by simp
  also have "put_at ?buf f2 (ins_sort cmp (ins_right cmp ?t ?xs) (seg m (Suc f1) l1)) = put_at buf f2 (ins_sort cmp ?xs (seg m f1 l1))"
    using Suc.prems b len by (simp add: put_at_overwrite seg_Cons [of f1])
  finally have ih: "insertion_sort_move_loop m (Suc f1) l1 ?buf f2 (Suc l2) cmp = Some (put_at buf f2 (ins_sort cmp ?xs (seg m f1 l1)))" .
  have last: "?xs = seg buf f2 (l2 - 1) @ [buf ! (l2 - 1)]" using Suc.prems b seg_snoc [of f2 "l2 - 1" buf] by simp
  show ?case
  proof (cases "cmp ?t (buf ! (l2 - 1))")
    case True
    have k: "f2 \<le> l2 - 1" "Suc (l2 - 1) = l2" using Suc.prems by auto
    obtain b' j where "insertion_move_shift (buf[l2 := buf ! (l2 - 1)]) f2 (l2 - 1) (l2 - 1) ?t cmp = Some (b', j)" "j < length b'"
        "b'[j := ?t] = ?buf"
      using insertion_shift_eq [of f2 "l2 - 1" buf cmp ?t] insertion_move_shift_eq [of f2 "l2 - 1" buf ?t cmp] True k b by auto
    then show ?thesis
      using True ih Suc.prems b by (simp add: insertion_sort_move_loop.simps [of m f1] mem_simps Let_def)
  next
    case False
    then have "ins_right cmp ?t ?xs = ?xs @ [?t]" by (subst (1 2) last) simp
    then have "buf[l2 := ?t] = ?buf"
      using put_at_snoc [of l2 buf f2 ?xs ?t] Suc.prems b by (simp add: put_at_seg_id)
    with False ih Suc.prems b show ?thesis by (simp add: insertion_sort_move_loop.simps [of m f1] mem_simps Let_def)
  qed
qed

lemma insertion_sort_move_eq:
  assumes "f1 \<le> l1" "l1 \<le> length m" "f2 + (l1 - f1) \<le> length buf"
  shows "insertion_sort_move m f1 l1 buf f2 cmp = Some (put_at buf f2 (ins_sort cmp [] (seg m f1 l1)))"
proof (cases "f1 = l1")
  case True
  then show ?thesis by (simp add: insertion_sort_move_def)
next
  case False
  then have b: "f1 < l1" "f1 < length m" "f2 < length buf" "Suc f2 + (l1 - Suc f1) \<le> length buf" using assms by auto
  have "seg (buf[f2 := m ! f1]) f2 (Suc f2) = [m ! f1]" using b by (simp add: seg_Cons)
  moreover have "put_at (buf[f2 := m ! f1]) f2 ys = put_at buf f2 ys" if "length ys = l1 - f1" for ys
    using that b assms by (intro nth_equalityI) (auto simp: put_at_nth nth_list_update)
  ultimately show ?thesis
    using b assms insertion_sort_move_loop_eq [of "Suc f1" l1 m f2 "Suc f2" "buf[f2 := m ! f1]" cmp]
    by (simp add: insertion_sort_move_def mem_simps seg_Cons [of f1 l1])
qed

section \<open>Stable rearrangements\<close>

text \<open>
  A rearrangement of a range is stable when it keeps the order of the elements of every
  equivalence class; that also makes it a permutation.
\<close>

definition stable_of :: "('a \<Rightarrow> 'a \<Rightarrow> bool) \<Rightarrow> 'a mem \<Rightarrow> 'a mem \<Rightarrow> iter \<Rightarrow> iter \<Rightarrow> bool" where
  "stable_of cmp m m' a b \<longleftrightarrow> frame m m' a b \<and> (\<forall>z. eq_class cmp z (seg m' a b) = eq_class cmp z (seg m a b))"

lemma stable_refl [simp]: "stable_of cmp m m a b"
  by (simp add: stable_of_def)

lemma stable_trans: "stable_of cmp m m' a b \<Longrightarrow> stable_of cmp m' m'' a b \<Longrightarrow> stable_of cmp m m'' a b"
  by (auto simp: stable_of_def intro: frame_trans)

lemma stable_mono:
  assumes "stable_of cmp m m' a b" "a' \<le> a" "a \<le> b" "b \<le> b'"
  shows "stable_of cmp m m' a' b'"
proof -
  have split: "seg n a' b' = seg n a' a @ seg n a b @ seg n b b'" for n :: "'a list"
    using seg_append [of a' a b' n] seg_append [of a b b' n] assms by simp
  have f: "frame m m' a b" using assms(1) by (simp add: stable_of_def)
  with assms show ?thesis
    by (auto simp: stable_of_def split frame_seg_out [OF f] intro: frame_mono)
qed

lemma stable_put:
  assumes "a + length xs = b" "b \<le> length m" "\<And>z. eq_class cmp z xs = eq_class cmp z (seg m a b)"
  shows "stable_of cmp m (put_at m a xs) a b"
  using assms seg_put_at [of a xs m] frame_put_at [of a xs m] by (auto simp: stable_of_def)

lemma eq_class_invert [simp]: "eq_class (invert cmp) z xs = eq_class cmp z xs"
  by (simp add: eq_class_def invert_def conj_commute)

lemma eq_class_rev: "eq_class cmp z (rev xs) = rev (eq_class cmp z xs)"
  by (simp add: eq_class_def rev_filter)

lemma sorted_by_invert_rev: "sorted_by (invert cmp) (rev xs) \<longleftrightarrow> sorted_by cmp xs"
  by (simp add: sorted_by_def invert_def sorted_wrt_rev)

lemma seg_rev:
  assumes "a \<le> b" "b \<le> length m"
  shows "seg (rev m) (length m - b) (length m - a) = rev (seg m a b)"
  by (rule nth_equalityI) (use assms in \<open>auto simp: rev_nth\<close>)

lemma rev_put_at:
  assumes "a + length xs \<le> length m"
  shows "rev (put_at (rev m) (length m - (a + length xs)) xs) = put_at m a (rev xs)"
  by (rule nth_equalityI) (use assms in \<open>auto simp: rev_nth put_at_nth add.commute\<close>)

context strict_weak_order
begin

lemma class_mset:
  assumes "\<And>z. eq_class cmp z xs = eq_class cmp z ys"
  shows "mset xs = mset ys"
proof (rule multiset_eqI)
  fix x
  have "count (mset zs) x = count (mset (eq_class cmp x zs)) x" for zs
    by (simp add: eq_class_def irrefl)
  then show "count (mset xs) x = count (mset ys) x" using assms by metis
qed

lemma stable_permuted: "stable_of cmp m m' a b \<Longrightarrow> a \<le> b \<Longrightarrow> permuted m m' a b"
  using class_mset [of "seg m' a b" "seg m a b"] split_seg [of a b m] split_seg [of a b m'] frame_take [of m m' a b] frame_drop [of m m' a b]
  unfolding stable_of_def permuted_def by (metis mset_append)

lemma stable_set: "stable_of cmp m m' a b \<Longrightarrow> set (seg m' a b) = set (seg m a b)"
  using class_mset [of "seg m' a b" "seg m a b"] unfolding stable_of_def by (metis set_mset_mset)

text \<open>Two blocks, the second strictly before the first, may change places.\<close>

lemma eq_class_exchange:
  assumes "\<And>x y. x \<in> set xs \<Longrightarrow> y \<in> set ys \<Longrightarrow> cmp y x"
  shows "eq_class cmp z (ys @ xs) = eq_class cmp z (xs @ ys)"
proof (cases "eq_class cmp z xs = [] \<or> eq_class cmp z ys = []")
  case False
  then obtain x y where "x \<in> set (eq_class cmp z xs)" "y \<in> set (eq_class cmp z ys)" by (meson list.set_sel(1))
  then have "x \<in> set xs" "y \<in> set ys" "\<not> cmp y z" "\<not> cmp z x" by (auto simp: eq_class_def)
  then have False using assms neg_trans [of y z x] by blast
  then show ?thesis ..
qed auto

lemma buffered_inplace_merge_swo:
  assumes "first \<le> middle" "middle \<le> last'" "last' \<le> length m" "buff + min (middle - first) (last' - middle) \<le> length buf"
    "sorted_by cmp (seg m first middle)" "sorted_by cmp (seg m middle last')"
  shows "\<exists>m' buf'. buffered_inplace_merge m buf first middle last' cmp (middle - first) (last' - middle) buff = Some (m', buf') \<and>
    stable_of cmp m m' first last' \<and> sorted_by cmp (seg m' first last') \<and>
    frame buf buf' buff (buff + min (middle - first) (last' - middle))"
proof -
  let ?xs = "seg m first middle" and ?ys = "seg m middle last'" and ?len1 = "middle - first" and ?len2 = "last' - middle"
  let ?result = "buffered_inplace_merge m buf first middle last' cmp ?len1 ?len2 buff"
  have split: "seg m first last' = ?xs @ ?ys" using assms seg_append by blast
  have finish: ?thesis if "?result = Some (put_at m first zs, buf')" "length zs = last' - first" "sorted_by cmp zs"
      "\<And>z. eq_class cmp z zs = eq_class cmp z ?xs @ eq_class cmp z ?ys" "frame buf buf' buff (buff + min ?len1 ?len2)" for zs buf'
    using that assms(1-3) stable_put [of first zs last' m cmp] seg_put_at [of first zs m] by (auto simp: split)
  show ?thesis
  proof (cases "?len1 \<le> ?len2")
    case True
    let ?buf = "put_at buf buff ?xs" and ?zs = "merge_list cmp ?xs ?ys"
    have b: "buff + length ?xs \<le> length buf" using assms True by simp
    have "move_out m first middle buf buff = Some (?buf, buff + ?len1)" using assms True by (intro move_out_eq) auto
    moreover have "seg ?buf buff (buff + ?len1) = ?xs" using seg_put_at [OF b] assms by simp
    then have "half_inplace_merge ?buf buff (buff + ?len1) m middle last' first cmp = Some (put_at m first ?zs)"
      using half_inplace_merge_eq [of buff "buff + ?len1" ?buf middle last' m first cmp] assms b True by simp
    ultimately have "?result = Some (put_at m first ?zs, ?buf)" using True by (simp add: buffered_inplace_merge_def)
    then show ?thesis
      using sorted_merge_list [OF assms(5,6)] merge_list_class [OF assms(5,6)] frame_put_at [OF b] assms(1-3) True
      by (intro finish) (auto simp: min_def)
  next
    case False
    let ?buf = "put_at buf buff ?ys" and ?zs = "merge_list (invert cmp) (rev ?ys) (rev ?xs)"
    have swo: "strict_weak_order (invert cmp)" using strict_weak_order_inverse by (simp add: invert_def [abs_def])
    have sorted: "sorted_by (invert cmp) (rev ?ys)" "sorted_by (invert cmp) (rev ?xs)" using assms by (simp_all add: sorted_by_invert_rev)
    have b: "buff + length ?ys \<le> length buf" using assms False by simp
    have mo: "move_out m middle last' buf buff = Some (?buf, buff + ?len2)" using assms(1-4) False by (intro move_out_eq) auto
    have "seg ?buf buff (buff + ?len2) = ?ys" using seg_put_at [OF b] assms by simp
    then have seg1: "seg (rev ?buf) (length ?buf - (buff + ?len2)) (length ?buf - buff) = rev ?ys"
      using seg_rev [of buff "buff + ?len2" ?buf] b assms(2,3) by simp
    have seg2: "seg (rev m) (length m - middle) (length m - first) = rev ?xs" using seg_rev [of first middle m] assms(1-3) by simp
    have lb: "length ?buf = length buf" using b by simp
    have b': "buff + ?len2 \<le> length buf" using b assms(2,3) by simp
    have "half_inplace_merge (rev ?buf) (length ?buf - (buff + ?len2)) (length ?buf - buff) (rev m) (length m - middle)
        (length m - first) (length m - last') (invert cmp) =
        Some (put_at (rev m) (length m - last') (merge_list (invert cmp) (seg (rev ?buf) (length ?buf - (buff + ?len2)) (length ?buf - buff))
          (seg (rev m) (length m - middle) (length m - first))))"
      by (rule half_inplace_merge_eq) (use b' assms(1-3) lb length_rev [of ?buf] length_rev [of m] in arith)+
    then have "half_inplace_merge (rev ?buf) (length ?buf - (buff + ?len2)) (length ?buf - buff) (rev m) (length m - middle)
        (length m - first) (length m - last') (invert cmp) = Some (put_at (rev m) (length m - last') ?zs)"
      by (simp only: seg1 seg2)
    moreover have "rev (put_at (rev m) (length m - last') ?zs) = put_at m first (rev ?zs)"
      using rev_put_at [of first ?zs m] assms by simp
    ultimately have "?result = Some (put_at m first (rev ?zs), ?buf)"
      using False mo by (simp add: buffered_inplace_merge_def)
    moreover have "sorted_by cmp (rev ?zs)"
      using strict_weak_order.sorted_merge_list [OF swo sorted] sorted_by_invert_rev [of cmp "rev ?zs"] by simp
    moreover have "eq_class cmp z (rev ?zs) = eq_class cmp z ?xs @ eq_class cmp z ?ys" for z
      using strict_weak_order.merge_list_class [OF swo sorted, of z] by (simp add: eq_class_rev)
    ultimately show ?thesis using frame_put_at [OF b] assms(1-3) False by (intro finish) (auto simp: min_def)
  qed
qed

lemma sorted_seg_lower:
  "sorted_by cmp (seg m a b) \<Longrightarrow> b \<le> length m \<Longrightarrow> a \<le> i \<Longrightarrow> i < b \<Longrightarrow> y \<in> set (seg m i b) \<Longrightarrow> \<not> cmp y (m ! i)"
  using irrefl by (auto simp: in_set_seg sorted_by_seg_iff) (metis le_neq_implies_less)

lemma sorted_seg_upper:
  "sorted_by cmp (seg m a b) \<Longrightarrow> b \<le> length m \<Longrightarrow> a \<le> i \<Longrightarrow> i < b \<Longrightarrow> x \<in> set (seg m a i) \<Longrightarrow> \<not> cmp (m ! i) x"
  by (auto simp: in_set_seg sorted_by_seg_iff)

lemma inplace_merge_skip_swo:
  assumes "first + len1 = middle" "middle < length m"
  shows "\<exists>r. inplace_merge_skip m first middle cmp len1 = Some r \<and>
    (case r of None \<Rightarrow> \<forall>x \<in> set (seg m first middle). \<not> cmp (m ! middle) x
     | Some (f, l) \<Rightarrow> first \<le> f \<and> f + l = middle \<and> 0 < l \<and> cmp (m ! middle) (m ! f) \<and> (\<forall>x \<in> set (seg m first f). \<not> cmp (m ! middle) x))"
  using assms
proof (induction len1 arbitrary: first)
  case 0
  then show ?case by simp
next
  case (Suc n)
  show ?case
  proof (cases "cmp (m ! middle) (m ! first)")
    case True
    with Suc.prems show ?thesis by (simp add: mem_simps)
  next
    case False
    from Suc.IH [of "Suc first"] Suc.prems obtain r where r: "inplace_merge_skip m (Suc first) middle cmp n = Some r"
        "case r of None \<Rightarrow> \<forall>x \<in> set (seg m (Suc first) middle). \<not> cmp (m ! middle) x
         | Some (f, l) \<Rightarrow> Suc first \<le> f \<and> f + l = middle \<and> 0 < l \<and> cmp (m ! middle) (m ! f) \<and>
             (\<forall>x \<in> set (seg m (Suc first) f). \<not> cmp (m ! middle) x)" by auto
    with False Suc.prems show ?thesis by (auto simp: mem_simps seg_Cons [of first] split: option.splits)
  qed
qed

lemma inplace_merge_cut_swo:
  assumes "first + len1 = middle" "middle + len2 = last'" "last' \<le> length m" "0 < len1" "0 < len2" "len1 < len2 \<or> len1 \<noteq> 1"
    "sorted_by cmp (seg m first middle)" "sorted_by cmp (seg m middle last')"
  shows "\<exists>m1 m2 len11 len21. inplace_merge_cut m first middle last' cmp len1 len2 = Some (m1, m2, len11, len21) \<and>
    (\<forall>x \<in> set (seg m m1 middle). \<forall>y \<in> set (seg m middle m2). cmp y x) \<and>
    (\<forall>x \<in> set (seg m first m1). \<forall>y \<in> set (seg m m2 last'). \<not> cmp y x)"
proof (cases "len1 < len2")
  case True
  let ?m2 = "middle + len2 div 2"
  let ?x = "m ! ?m2"
  let ?m1 = "prefix_end m first middle (\<lambda>u. \<not> cmp ?x u)"
  have part: "partitioned_by (\<lambda>u. \<not> cmp ?x u) (seg m first middle)" using sorted_partitioned_upper [OF assms(7)] .
  then have ub: "upper_bound_impl m first middle ?x cmp id = Some ?m1"
    using upper_bound_impl_eq [of first middle m cmp ?x id] assms by simp
  have m2: "?m2 < last'" "?m2 < length m" using assms True by auto
  have bnd: "first \<le> middle" "middle \<le> length m" using assms by auto
  note ends = prefix_end_spec [OF bnd part]
  have 1: "cmp y x" if "x \<in> set (seg m ?m1 middle)" "y \<in> set (seg m middle ?m2)" for x y
  proof -
    have "\<not> cmp ?x y" using that(2) m2 by (intro sorted_seg_upper [OF assms(8,3)]) auto
    moreover have "cmp ?x x" using ends(2) that(1) by blast
    ultimately show ?thesis by (rule le_less_trans)
  qed
  have 2: "\<not> cmp y x" if "x \<in> set (seg m first ?m1)" "y \<in> set (seg m ?m2 last')" for x y
  proof -
    have "\<not> cmp y ?x" using that(2) m2 by (intro sorted_seg_lower [OF assms(8,3)]) auto
    moreover have "\<not> cmp ?x x" using ends(1) that(1) by blast
    ultimately show ?thesis by (rule neg_trans)
  qed
  have "inplace_merge_cut m first middle last' cmp len1 len2 = Some (?m1, ?m2, ?m1 - first, len2 div 2)"
    using True ub m2 by (simp add: inplace_merge_cut_def Let_def rd_Some)
  with 1 2 show ?thesis by blast
next
  case False
  let ?m1 = "first + len1 div 2"
  let ?x = "m ! ?m1"
  let ?m2 = "prefix_end m middle last' (\<lambda>u. cmp u ?x)"
  have part: "partitioned_by (\<lambda>u. cmp u ?x) (seg m middle last')" using sorted_partitioned_lower [OF assms(8)] .
  then have lb: "lower_bound_impl m middle last' ?x cmp id = Some ?m2"
    using lower_bound_impl_eq [of middle last' m cmp id ?x] assms by simp
  have mid: "middle \<le> length m" using assms by simp
  have m1: "?m1 < middle" "?m1 < length m" "first \<le> ?m1" using assms False by auto
  have bnd: "middle \<le> last'" using assms by auto
  note ends = prefix_end_spec [OF bnd assms(3) part]
  have 1: "cmp y x" if "x \<in> set (seg m ?m1 middle)" "y \<in> set (seg m middle ?m2)" for x y
  proof -
    have "cmp y ?x" using ends(1) that(2) by blast
    moreover have "\<not> cmp x ?x" using that(1) m1 by (intro sorted_seg_lower [OF assms(7) mid]) auto
    ultimately show ?thesis by (rule less_le_trans)
  qed
  have 2: "\<not> cmp y x" if "x \<in> set (seg m first ?m1)" "y \<in> set (seg m ?m2 last')" for x y
  proof -
    have "\<not> cmp y ?x" using ends(2) that(2) by blast
    moreover have "\<not> cmp ?x x" using that(1) m1 by (intro sorted_seg_upper [OF assms(7) mid]) auto
    ultimately show ?thesis by (rule neg_trans)
  qed
  have "inplace_merge_cut m first middle last' cmp len1 len2 = Some (?m1, ?m2, len1 div 2, ?m2 - middle)"
    using False lb m1 by (simp add: inplace_merge_cut_def Let_def rd_Some)
  with 1 2 show ?thesis by blast
qed

text \<open>
  The four blocks of the cut, rotated, are two pairs of sorted ranges whose merges only have to be
  put next to each other.
\<close>

lemma inplace_merge_step_swo:
  assumes "first \<le> m1" "m1 \<le> middle" "middle \<le> m2" "m2 \<le> last'" "last' \<le> length m"
    "sorted_by cmp (seg m first middle)" "sorted_by cmp (seg m middle last')"
    "\<forall>x \<in> set (seg m m1 middle). \<forall>y \<in> set (seg m middle m2). cmp y x"
    "\<forall>x \<in> set (seg m first m1). \<forall>y \<in> set (seg m m2 last'). \<not> cmp y x"
    "m' = put_at m m1 (seg m middle m2 @ seg m m1 middle)" "mid = m1 + (m2 - middle)"
  shows "stable_of cmp m m' first last'" "sorted_by cmp (seg m' first m1)" "sorted_by cmp (seg m' m1 mid)"
    "sorted_by cmp (seg m' mid m2)" "sorted_by cmp (seg m' m2 last')"
    "\<forall>x \<in> set (seg m' first mid). \<forall>y \<in> set (seg m' mid last'). \<not> cmp y x"
proof -
  let ?A = "seg m first m1" and ?B = "seg m m1 middle" and ?C = "seg m middle m2" and ?D = "seg m m2 last'"
  have len: "length (?C @ ?B) = m2 - m1" "length ?C = m2 - middle" using assms by auto
  have fr: "frame m m' m1 m2" using frame_put_at [of m1 "?C @ ?B" m] len assms by simp
  have lm: "length m' = length m" using frame_length [OF fr] .
  have CB: "seg m' m1 m2 = ?C @ ?B" using seg_put_at [of m1 "?C @ ?B" m] len assms by simp
  have "seg m' m1 m2 = seg m' m1 mid @ seg m' mid m2" using seg_append [of m1 mid m2 m'] assms by simp
  moreover have "length (seg m' m1 mid) = length ?C" using assms lm by simp
  ultimately have C: "seg m' m1 mid = ?C" and B: "seg m' mid m2 = ?B" using CB by auto
  have A: "seg m' first m1 = ?A" and D: "seg m' m2 last' = ?D" using frame_seg_out [OF fr] by auto
  have xs: "seg m first middle = ?A @ ?B" and ys: "seg m middle last' = ?C @ ?D" using seg_append assms by blast+
  have "eq_class cmp z (?C @ ?B) = eq_class cmp z (seg m m1 m2)" for z
    using eq_class_exchange [of ?B ?C z] assms(8) seg_append [of m1 middle m2 m] assms(2,3) by auto
  then have "stable_of cmp m m' m1 m2" using assms(5,2-4) len unfolding assms(10) by (intro stable_put) auto
  then show "stable_of cmp m m' first last'" by (rule stable_mono) (use assms(1-5) in auto)
  show "sorted_by cmp (seg m' first m1)" "sorted_by cmp (seg m' m1 mid)" "sorted_by cmp (seg m' mid m2)" "sorted_by cmp (seg m' m2 last')"
    using assms(6,7) unfolding A B C D xs ys by simp_all
  have "seg m' first mid = ?A @ ?C" "seg m' mid last' = ?B @ ?D"
    using seg_append [of first m1 mid m'] seg_append [of mid m2 last' m'] A B C D assms by auto
  then show "\<forall>x \<in> set (seg m' first mid). \<forall>y \<in> set (seg m' mid last'). \<not> cmp y x"
    using assms(6-9) asym unfolding xs ys by auto
qed

text \<open>Both parts of a range, rearranged and sorted in either order.\<close>

lemma stable_parts:
  assumes "stable_of cmp m m1 a k" "stable_of cmp m1 m2 k b" "a \<le> k" "k \<le> b" "b \<le> length m"
    "sorted_by cmp (seg m1 a k)" "sorted_by cmp (seg m2 k b)" "\<forall>x \<in> set (seg m a k). \<forall>y \<in> set (seg m k b). \<not> cmp y x"
  shows "stable_of cmp m m2 a b \<and> sorted_by cmp (seg m2 a b)"
proof -
  have f: "frame m m1 a k" "frame m1 m2 k b" using assms by (auto simp: stable_of_def)
  have "seg m2 a b = seg m1 a k @ seg m2 k b"
    using seg_append [OF assms(3,4), of m2] frame_seg_out [OF f(2), of k a] by simp
  moreover have "set (seg m2 k b) = set (seg m k b)" "set (seg m1 a k) = set (seg m a k)"
    using stable_set [OF assms(2)] stable_set [OF assms(1)] frame_seg_out [OF f(1), of b k] by auto
  ultimately have "sorted_by cmp (seg m2 a b)" using assms(6-8) by simp
  moreover have "stable_of cmp m m2 a b"
    using stable_trans [OF stable_mono [OF assms(1)] stable_mono [OF assms(2)]] assms(3,4) by simp
  ultimately show ?thesis by blast
qed

lemma stable_parts':
  assumes "stable_of cmp m m1 k b" "stable_of cmp m1 m2 a k" "a \<le> k" "k \<le> b" "b \<le> length m"
    "sorted_by cmp (seg m1 k b)" "sorted_by cmp (seg m2 a k)" "\<forall>x \<in> set (seg m a k). \<forall>y \<in> set (seg m k b). \<not> cmp y x"
  shows "stable_of cmp m m2 a b \<and> sorted_by cmp (seg m2 a b)"
proof -
  have f: "frame m m1 k b" "frame m1 m2 a k" using assms by (auto simp: stable_of_def)
  have "seg m2 a b = seg m2 a k @ seg m1 k b"
    using seg_append [OF assms(3,4), of m2] frame_seg_out [OF f(2), of b k] by simp
  moreover have "set (seg m1 k b) = set (seg m k b)" "set (seg m2 a k) = set (seg m a k)"
    using stable_set [OF assms(2)] stable_set [OF assms(1)] frame_seg_out [OF f(1), of k a] by auto
  ultimately have "sorted_by cmp (seg m2 a b)" using assms(6-8) by simp
  moreover have "stable_of cmp m m2 a b"
    using stable_trans [OF stable_mono [OF assms(1)] stable_mono [OF assms(2)]] assms(3,4) by simp
  ultimately show ?thesis by blast
qed

lemma inplace_merge_loop_swo:
  assumes "first + len1 = middle" "middle + len2 = last'" "last' \<le> length m" "buff + buff_size \<le> length buf"
    "sorted_by cmp (seg m first middle)" "sorted_by cmp (seg m middle last')"
  shows "\<exists>m' buf'. inplace_merge_loop cat triv m buf first middle last' cmp len1 len2 buff buff_size = Some (m', buf') \<and>
    stable_of cmp m m' first last' \<and> sorted_by cmp (seg m' first last') \<and> frame buf buf' buff (buff + buff_size)"
  using assms
proof (induction "len1 + len2" arbitrary: m buf first middle last' len1 len2 rule: less_induct)
  case less
  note unfold = inplace_merge_loop.simps [of cat triv m buf first middle last' cmp len1 len2 buff buff_size]
  note IH = less.hyps
  consider "len2 = 0" | "0 < len2" "len1 \<le> buff_size \<or> len2 \<le> buff_size" | "0 < len2" "buff_size < len1" "buff_size < len2" by linarith
  then show ?case
  proof cases
    case 1
    with less.prems show ?thesis by (subst unfold) auto
  next
    case 2
    have len: "middle - first = len1" "last' - middle = len2" "first \<le> middle" "middle \<le> last'" using less.prems by auto
    have mb: "buff + min len1 len2 \<le> length buf" using 2 less.prems(4) by auto
    obtain m' buf' where m': "buffered_inplace_merge m buf first middle last' cmp len1 len2 buff = Some (m', buf')"
        "stable_of cmp m m' first last'" "sorted_by cmp (seg m' first last')" "frame buf buf' buff (buff + min len1 len2)"
      using buffered_inplace_merge_swo [OF len(3,4) less.prems(3) _ less.prems(5,6), unfolded len, OF mb] by blast
    have "frame buf buf' buff (buff + buff_size)" using frame_mono [OF m'(4)] 2 by auto
    with m' 2 less.prems show ?thesis by (subst unfold) auto
  next
    case 3
    have split: "seg m first last' = seg m first middle @ seg m middle last'" using less.prems(1,2) by (intro seg_append) auto
    have low: "\<not> cmp y (m ! middle)" if "y \<in> set (seg m middle last')" for y
      using that 3 less.prems(2) by (intro sorted_seg_lower [OF less.prems(6,3)]) auto
    obtain r where r: "inplace_merge_skip m first middle cmp len1 = Some r"
        "case r of None \<Rightarrow> \<forall>x \<in> set (seg m first middle). \<not> cmp (m ! middle) x
         | Some (f, l) \<Rightarrow> first \<le> f \<and> f + l = middle \<and> 0 < l \<and> cmp (m ! middle) (m ! f) \<and> (\<forall>x \<in> set (seg m first f). \<not> cmp (m ! middle) x)"
      using inplace_merge_skip_swo [of first len1 middle m] less.prems(1-3) 3 by auto
    show ?thesis
    proof (cases r)
      case None
      have "\<not> cmp y x" if "x \<in> set (seg m first middle)" "y \<in> set (seg m middle last')" for x y
        using low [OF that(2)] r(2) None that(1) neg_trans [of y "m ! middle" x] by auto
      then have "sorted_by cmp (seg m first last')" unfolding split using less.prems(5,6) by simp
      with None r(1) 3 less.prems(1,2) show ?thesis by (subst unfold) auto
    next
      case (Some fl)
      obtain f l where fl: "fl = (f, l)" by fastforce
      with r(2) Some have f: "first \<le> f" "f + l = middle" "0 < l" "cmp (m ! middle) (m ! f)" "\<forall>x \<in> set (seg m first f). \<not> cmp (m ! middle) x"
        by auto
      have sub: "sorted_by cmp (seg m first f)" "sorted_by cmp (seg m f middle)" "middle \<le> length m"
        using sorted_by_sub_seg [OF less.prems(5)] f less.prems(2,3) by auto
      have parts: "seg m first middle = seg m first f @ seg m f middle" "seg m f last' = seg m f middle @ seg m middle last'"
        using f(1,2) less.prems(2) by (auto intro!: seg_append)
      have behind: "\<not> cmp y x" if "x \<in> set (seg m first f)" "y \<in> set (seg m f last')" for x y
      proof (cases "y \<in> set (seg m f middle)")
        case True
        with that(1) less.prems(5) show ?thesis by (simp add: parts(1))
      next
        case False
        with that(2) have "y \<in> set (seg m middle last')" by (simp add: parts(2))
        with low f(5) that(1) neg_trans [of y "m ! middle" x] show ?thesis by blast
      qed
      have whole: ?thesis if "inplace_merge_loop cat triv m buf first middle last' cmp len1 len2 buff buff_size = Some (m', buf')"
          "stable_of cmp m m' f last'" "sorted_by cmp (seg m' f last')" "frame buf buf' buff (buff + buff_size)" for m' buf'
        using stable_parts [OF stable_refl that(2), of first] that f(1,2) less.prems(2,3) sub(1) behind by auto
      show ?thesis
      proof (cases "\<not> l < len2 \<and> l = 1")
        case True
        then have t: "f + 1 = middle" "last' = f + 2" "middle < length m" using f(2) 3 less.prems(2,3) by auto
        let ?m = "put_at m f [m ! middle, m ! f]"
        have two: "seg m f last' = [m ! f] @ [m ! middle]" using t by (simp add: seg_Cons numeral_2_eq_2 flip: t(1))
        have "eq_class cmp z [m ! middle, m ! f] = eq_class cmp z (seg m f last')" for z
          using eq_class_exchange [of "[m ! f]" "[m ! middle]" z] f(4) by (simp add: two)
        then have "stable_of cmp m ?m f last'" using t less.prems(3) by (intro stable_put) auto
        moreover have "seg ?m f last' = [m ! middle, m ! f]" using seg_put_at [of f "[m ! middle, m ! f]" m] t less.prems(3) by simp
        then have "sorted_by cmp (seg ?m f last')" using asym [OF f(4)] by simp
        moreover have "iter_swap m f middle = Some ?m"
          using t by (auto simp: mem_simps put_at_nth nth_list_update intro!: nth_equalityI)
        then have "inplace_merge_loop cat triv m buf first middle last' cmp len1 len2 buff buff_size = Some (?m, buf)"
          using r(1) Some fl True 3 less.prems(1,2) by (subst unfold) (simp add: mem_simps)
        ultimately show ?thesis by (intro whole) auto
      next
        case False
        have pre: "f + l = middle" "middle + len2 = last'" "0 < l" "0 < len2" "l < len2 \<or> l \<noteq> 1" using f less.prems False 3 by auto
        obtain m1 m2 len11 len21 where cut: "inplace_merge_cut m f middle last' cmp l len2 = Some (m1, m2, len11, len21)"
            "\<forall>x \<in> set (seg m m1 middle). \<forall>y \<in> set (seg m middle m2). cmp y x"
            "\<forall>x \<in> set (seg m f m1). \<forall>y \<in> set (seg m m2 last'). \<not> cmp y x"
          using inplace_merge_cut_swo [OF pre(1,2) less.prems(3) pre(3-5) sub(2) less.prems(6)] by blast
        note range = inplace_merge_cut_range [OF cut(1) pre]
        let ?n = "put_at m m1 (seg m middle m2 @ seg m m1 middle)" and ?mid = "m1 + len21"
        have le: "f \<le> m1" "m1 \<le> middle" "middle \<le> m2" "m2 \<le> last'" "m2 \<le> length m" "?mid = m1 + (m2 - middle)" "l \<le> len1"
          using range pre less.prems(1,3) f(1) by auto
        have rot: "rotate_pair cat triv m m1 middle m2 = Some (?n, ?mid, m2)" using rotate_pair_eq [OF le(2,3,5), of cat triv] le(6) by simp
        note step = inplace_merge_step_swo [OF le(1-4) less.prems(3) sub(2) less.prems(6) cut(2,3) refl le(6)]
        let ?len12 = "l - len11" and ?len22 = "len2 - len21"
        let ?left = "\<lambda>m buf. inplace_merge_loop cat triv m buf f m1 ?mid cmp len11 len21 buff buff_size"
        let ?right = "\<lambda>m buf. inplace_merge_loop cat triv m buf ?mid m2 last' cmp ?len12 ?len22 buff buff_size"
        have ln: "length ?n = length m" using step(1) by (auto simp: stable_of_def frame_length)
        have left: "\<exists>m' buf'. ?left n bf = Some (m', buf') \<and> stable_of cmp n m' f ?mid \<and> sorted_by cmp (seg m' f ?mid) \<and>
            frame bf buf' buff (buff + buff_size)"
          if "frame ?n n ?mid last'" "buff + buff_size \<le> length bf" for n bf
          using that range pre le less.prems(3) ln step(2,3) frame_seg_out [OF that(1)] frame_length [OF that(1)]
          by (intro IH) auto
        have right: "\<exists>m' buf'. ?right n bf = Some (m', buf') \<and> stable_of cmp n m' ?mid last' \<and> sorted_by cmp (seg m' ?mid last') \<and>
            frame bf buf' buff (buff + buff_size)"
          if "frame ?n n f ?mid" "buff + buff_size \<le> length bf" for n bf
          using that range pre le less.prems(3) ln step(4,5) frame_seg_out [OF that(1)] frame_length [OF that(1)]
          by (intro IH) auto
        have eq: "inplace_merge_loop cat triv m buf first middle last' cmp len1 len2 buff buff_size =
            (if len11 + len21 < ?len12 + ?len22 then do { (m, buf) \<leftarrow> ?left ?n buf; ?right m buf } else do { (m, buf) \<leftarrow> ?right ?n buf; ?left m buf })"
          using r(1) Some fl False 3 less.prems(1,2) cut(1) rot by (subst unfold) (simp add: Let_def, blast)
        have lb: "buff + buff_size \<le> length bf" if "frame buf bf buff (buff + buff_size)" for bf
          using frame_length [OF that] less.prems(4) by simp
        have "\<exists>m' buf'. inplace_merge_loop cat triv m buf first middle last' cmp len1 len2 buff buff_size = Some (m', buf') \<and>
            (stable_of cmp ?n m' f last' \<and> sorted_by cmp (seg m' f last')) \<and> frame buf buf' buff (buff + buff_size)"
        proof (cases "len11 + len21 < ?len12 + ?len22")
          case True
          obtain n1 b1 where n1: "?left ?n buf = Some (n1, b1)" "stable_of cmp ?n n1 f ?mid" "sorted_by cmp (seg n1 f ?mid)"
              "frame buf b1 buff (buff + buff_size)" using left [OF frame_refl less.prems(4)] by blast
          then obtain n2 b2 where n2: "?right n1 b1 = Some (n2, b2)" "stable_of cmp n1 n2 ?mid last'" "sorted_by cmp (seg n2 ?mid last')"
              "frame b1 b2 buff (buff + buff_size)" using right [of n1 b1] lb by (auto simp: stable_of_def)
          have "stable_of cmp ?n n2 f last' \<and> sorted_by cmp (seg n2 f last')"
            using stable_parts [OF n1(2) n2(2) _ _ _ n1(3) n2(3) step(6)] le pre range less.prems(3) ln by auto
          with eq True n1(1) n2(1) frame_trans [OF n1(4) n2(4)] show ?thesis by simp
        next
          case False
          obtain n1 b1 where n1: "?right ?n buf = Some (n1, b1)" "stable_of cmp ?n n1 ?mid last'" "sorted_by cmp (seg n1 ?mid last')"
              "frame buf b1 buff (buff + buff_size)" using right [OF frame_refl less.prems(4)] by blast
          then obtain n2 b2 where n2: "?left n1 b1 = Some (n2, b2)" "stable_of cmp n1 n2 f ?mid" "sorted_by cmp (seg n2 f ?mid)"
              "frame b1 b2 buff (buff + buff_size)" using left [of n1 b1] lb by (auto simp: stable_of_def)
          have "stable_of cmp ?n n2 f last' \<and> sorted_by cmp (seg n2 f last')"
            using stable_parts' [OF n1(2) n2(2) _ _ _ n1(3) n2(3) step(6)] le pre range less.prems(3) ln by auto
          with eq False n1(1) n2(1) frame_trans [OF n1(4) n2(4)] show ?thesis by simp
        qed
        then show ?thesis using whole stable_trans [OF step(1)] by blast
      qed
    qed
  qed
qed

lemma class_write:
  assumes "frame m n a b" "a + length zs = b" "b \<le> length m"
  shows "frame m (put_at n a zs) a b" "seg (put_at n a zs) a b = zs"
  using frame_put_at [of a zs n] frame_trans [OF assms(1), of "put_at n a zs"] seg_put_at [of a zs n] frame_length [OF assms(1)] assms(2,3)
  by auto

text \<open>What the two sorting functions of \<^verbatim>\<open>stable_sort.h\<close> promise for ranges of length \<open>len\<close>.\<close>

lemma stable_sort_base_swo:
  assumes "first + len = last'" "last' \<le> length m" "len \<le> 2 \<or> len \<le> stable_sort_switch triv"
  shows "\<exists>m'. stable_sort_rec triv triv_move m buf first last' cmp len buff size' = Some (m', buf) \<and> stable_of cmp m m' first last' \<and>
    sorted_by cmp (seg m' first last')"
proof -
  note unfold = stable_sort_rec.simps [of triv triv_move m buf first last' cmp len buff size']
  consider "len = 0" | "len = 1" | "len = 2" | "2 < len" "len \<le> stable_sort_switch triv" using assms(3) by linarith
  then show ?thesis
  proof cases
    case 1
    then show ?thesis using assms by (subst unfold) auto
  next
    case 2
    then have "last' = Suc first" using assms(1) by simp
    then show ?thesis using assms 2 by (subst unfold) (simp add: seg_Cons)
  next
    case 3
    then have l: "last' = Suc (Suc first)" "last' - 1 = Suc first" "first < length m" "Suc first < length m" using assms by auto
    have seg: "seg m first last' = [m ! first] @ [m ! Suc first]" using l by (simp add: seg_Cons)
    show ?thesis
    proof (cases "cmp (m ! Suc first) (m ! first)")
      case True
      let ?m = "put_at m first [m ! Suc first, m ! first]"
      have "eq_class cmp z [m ! Suc first, m ! first] = eq_class cmp z (seg m first last')" for z
        using eq_class_exchange [of "[m ! first]" "[m ! Suc first]" z] True by (simp add: seg)
      then have "stable_of cmp m ?m first last'" using assms l by (intro stable_put) auto
      moreover have "seg ?m first last' = [m ! Suc first, m ! first]"
        using class_write(2) [OF frame_refl, of first "[m ! Suc first, m ! first]" last' m] assms(2) l by simp
      then have "sorted_by cmp (seg ?m first last')" using asym [OF True] by simp
      moreover have "iter_swap m first (last' - 1) = Some ?m"
        using l by (auto simp: mem_simps put_at_nth nth_list_update intro!: nth_equalityI)
      then have "stable_sort_rec triv triv_move m buf first last' cmp len buff size' = Some (?m, buf)"
        using 3 True l by (subst unfold) (simp add: mem_simps)
      ultimately show ?thesis by blast
    next
      case False
      then have "sorted_by cmp (seg m first last')" by (simp add: seg)
      moreover have "stable_sort_rec triv triv_move m buf first last' cmp len buff size' = Some (m, buf)"
        using 3 False l by (subst unfold) (simp add: mem_simps)
      ultimately show ?thesis by auto
    qed
  next
    case 4
    have "first \<le> last'" using assms(1) by simp
    then obtain m' where "insertion_sort m first last' cmp = Some m'" "permuted m m' first last'" "sorted_by cmp (seg m' first last')"
        "\<forall>z. eq_class cmp z (seg m' first last') = eq_class cmp z (seg m first last')"
      using insertion_sort_swo [OF _ assms(2), of first] by blast
    then show ?thesis using 4 by (subst unfold) (auto simp: stable_of_def permuted_def)
  qed
qed

lemma stable_sort_move_base_swo:
  assumes "first + len = last'" "last' \<le> length m" "first2 + len \<le> length buf" "len \<le> 8"
  shows "\<exists>zs. stable_sort_move triv triv_move m buf first last' cmp len first2 = Some (m, put_at buf first2 zs) \<and> length zs = len \<and>
    sorted_by cmp zs \<and> (\<forall>z. eq_class cmp z zs = eq_class cmp z (seg m first last'))"
proof -
  note unfold = stable_sort_move.simps [of triv triv_move m buf first last' cmp len first2]
  consider "len = 0" | "len = 1" | "len = 2" | "2 < len" by linarith
  then show ?thesis
  proof cases
    case 1
    then show ?thesis using assms by (subst unfold) auto
  next
    case 2
    then have l: "last' = Suc first" "first < length m" using assms by auto
    then show ?thesis using assms 2
      by (intro exI [of _ "[m ! first]"]) (subst unfold, simp add: seg_Cons mem_simps flip: put_at_Cons)
  next
    case 3
    then have l: "last' = Suc (Suc first)" "last' - 1 = Suc first" "first < length m" "Suc first < length m"
        "first2 < length buf" "Suc first2 < length buf" using assms by auto
    have seg: "seg m first last' = [m ! first] @ [m ! Suc first]" using l by (simp add: seg_Cons)
    have put: "put_at buf first2 [x, y] = buf[first2 := x, Suc first2 := y]" for x y
      using l(5,6) by (simp flip: put_at_Cons)
    show ?thesis
    proof (cases "cmp (m ! Suc first) (m ! first)")
      case True
      have "eq_class cmp z [m ! Suc first, m ! first] = eq_class cmp z (seg m first last')" for z
        using eq_class_exchange [of "[m ! first]" "[m ! Suc first]" z] True by (simp add: seg)
      moreover have "stable_sort_move triv triv_move m buf first last' cmp len first2 = Some (m, put_at buf first2 [m ! Suc first, m ! first])"
        using 3 True l by (subst unfold) (simp add: mem_simps put)
      ultimately show ?thesis using asym [OF True] 3 by (intro exI [of _ "[m ! Suc first, m ! first]"]) auto
    next
      case False
      have "stable_sort_move triv triv_move m buf first last' cmp len first2 = Some (m, put_at buf first2 [m ! first, m ! Suc first])"
        using 3 False l by (subst unfold) (simp add: mem_simps put)
      with False 3 show ?thesis by (intro exI [of _ "[m ! first, m ! Suc first]"]) (auto simp: seg)
    qed
  next
    case 4
    have "insertion_sort_move m first last' buf first2 cmp = Some (put_at buf first2 (ins_sort cmp [] (seg m first last')))"
      using assms by (intro insertion_sort_move_eq) auto
    then have "stable_sort_move triv triv_move m buf first last' cmp len first2 = Some (m, put_at buf first2 (ins_sort cmp [] (seg m first last')))"
      using 4 assms(4) by (subst unfold) simp
    then show ?thesis
      using sorted_ins_sort [of "[]" "seg m first last'"] ins_sort_class [of "[]" _ "seg m first last'"] assms(1,2)
      by (intro exI [of _ "ins_sort cmp [] (seg m first last')"]) auto
  qed
qed

lemma stable_sort_rec_step_swo:
  assumes "2 < len" "stable_sort_switch triv < len" "first + len = last'" "last' \<le> length m" "buff + size' \<le> length buf"
    and rec: "\<And>n m buf first last' buff size'. n < len \<Longrightarrow> first + n = last' \<Longrightarrow> last' \<le> length m \<Longrightarrow> buff + size' \<le> length buf \<Longrightarrow>
      \<exists>m' buf'. stable_sort_rec triv triv_move m buf first last' cmp n buff size' = Some (m', buf') \<and> stable_of cmp m m' first last' \<and>
        sorted_by cmp (seg m' first last') \<and> frame buf buf' buff (buff + size')"
    and move: "\<And>n m buf first last' first2. n < len \<Longrightarrow> first + n = last' \<Longrightarrow> last' \<le> length m \<Longrightarrow> first2 + n \<le> length buf \<Longrightarrow>
      \<exists>m' buf'. stable_sort_move triv triv_move m buf first last' cmp n first2 = Some (m', buf') \<and> frame m m' first last' \<and>
        frame buf buf' first2 (first2 + n) \<and> sorted_by cmp (seg buf' first2 (first2 + n)) \<and>
        (\<forall>z. eq_class cmp z (seg buf' first2 (first2 + n)) = eq_class cmp z (seg m first last'))"
  shows "\<exists>m' buf'. stable_sort_rec triv triv_move m buf first last' cmp len buff size' = Some (m', buf') \<and> stable_of cmp m m' first last' \<and>
    sorted_by cmp (seg m' first last') \<and> frame buf buf' buff (buff + size')"
proof -
  note unfold = stable_sort_rec.simps [of triv triv_move m buf first last' cmp len buff size']
  define l2 mid where "l2 = len div 2" and "mid = first + l2"
  have l2: "l2 < len" "len - l2 < len" "mid + (len - l2) = last'" "first + l2 = mid" "first \<le> mid" "mid \<le> last'" "mid \<le> length m"
    using assms(1,3,4) by (auto simp: l2_def mid_def)
  have split: "seg n first last' = seg n first mid @ seg n mid last'" for n :: "'a mem" using l2(5,6) by (rule seg_append)
  show ?thesis
  proof (cases "len \<le> size'")
    case True
    have b: "buff + l2 \<le> length buf" "buff + len \<le> length buf" using True assms(5) l2 by auto
    obtain m1 b1 where m1: "stable_sort_move triv triv_move m buf first mid cmp l2 buff = Some (m1, b1)" "frame m m1 first mid"
        "frame buf b1 buff (buff + l2)" "sorted_by cmp (seg b1 buff (buff + l2))"
        "\<forall>z. eq_class cmp z (seg b1 buff (buff + l2)) = eq_class cmp z (seg m first mid)"
      using move [OF l2(1,4,7) b(1)] by blast
    have le1: "length m1 = length m" "length b1 = length buf" using frame_length [OF m1(2)] frame_length [OF m1(3)] by auto
    obtain m2 b2 where m2: "stable_sort_move triv triv_move m1 b1 mid last' cmp (len - l2) (buff + l2) = Some (m2, b2)" "frame m1 m2 mid last'"
        "frame b1 b2 (buff + l2) (buff + len)" "sorted_by cmp (seg b2 (buff + l2) (buff + len))"
        "\<forall>z. eq_class cmp z (seg b2 (buff + l2) (buff + len)) = eq_class cmp z (seg m1 mid last')"
      using move [OF l2(2,3), of m1 "buff + l2" b1] le1 assms(4) b l2(1) by auto
    have le2: "length m2 = length m" "length b2 = length buf" using frame_length [OF m2(2)] frame_length [OF m2(3)] le1 by auto
    have same: "seg b2 buff (buff + l2) = seg b1 buff (buff + l2)" "seg m1 mid last' = seg m mid last'"
      using frame_seg_out [OF m2(3)] frame_seg_out [OF m1(2)] by auto
    let ?xs = "seg b2 buff (buff + l2)" and ?ys = "seg b2 (buff + l2) (buff + len)"
    let ?zs = "merge_list cmp ?xs ?ys"
    have sx: "sorted_by cmp ?xs" using m1(4) same(1) by simp
    have "merge_move_assign b2 buff (buff + l2) (buff + l2) (buff + len) m2 first cmp = Some (put_at m2 first ?zs)"
      using le2 b l2 assms(3,4) by (intro merge_move_assign_eq) auto
    then have "stable_sort_rec triv triv_move m buf first last' cmp len buff size' = Some (put_at m2 first ?zs, b2)"
      using assms(1,2) True m1(1) m2(1) by (subst unfold) (simp add: l2_def mid_def Let_def)
    moreover have "frame m m2 first last'" using frame_trans [OF frame_mono [OF m1(2)] frame_mono [OF m2(2)]] l2 by auto
    note cw = class_write [OF this, of ?zs]
    have len: "first + length ?zs = last'" using le2 b l2 assms(3) by simp
    have "stable_of cmp m (put_at m2 first ?zs) first last'"
      using cw [OF len assms(4)] merge_list_class [OF sx m2(4)] m1(5) m2(5) same by (simp add: stable_of_def split)
    moreover have "sorted_by cmp (seg (put_at m2 first ?zs) first last')"
      using cw(2) [OF len assms(4)] sorted_merge_list [OF sx m2(4)] by simp
    moreover have "frame buf b2 buff (buff + size')" using frame_trans [OF frame_mono [OF m1(3)] frame_mono [OF m2(3)]] True l2 by auto
    ultimately show ?thesis by blast
  next
    case False
    obtain m1 b1 where m1: "stable_sort_rec triv triv_move m buf first mid cmp l2 buff size' = Some (m1, b1)" "stable_of cmp m m1 first mid"
        "sorted_by cmp (seg m1 first mid)" "frame buf b1 buff (buff + size')"
      using rec [OF l2(1,4,7) assms(5)] by blast
    have f1: "frame m m1 first mid" using m1(2) by (simp add: stable_of_def)
    have le1: "length m1 = length m" "length b1 = length buf" using frame_length [OF f1] frame_length [OF m1(4)] by auto
    obtain m2 b2 where m2: "stable_sort_rec triv triv_move m1 b1 mid last' cmp (len - l2) buff size' = Some (m2, b2)" "stable_of cmp m1 m2 mid last'"
        "sorted_by cmp (seg m2 mid last')" "frame b1 b2 buff (buff + size')"
      using rec [OF l2(2,3), of m1 buff size' b1] le1 assms(4,5) by auto
    have f2: "frame m1 m2 mid last'" using m2(2) by (simp add: stable_of_def)
    have le2: "length m2 = length m" "length b2 = length buf" using frame_length [OF f2] frame_length [OF m2(4)] le1 by auto
    have "seg m2 first mid = seg m1 first mid" using frame_seg_out [OF f2] by auto
    then obtain m3 b3 where m3: "inplace_merge_loop Random_Access triv_move m2 b2 first mid last' cmp l2 (len - l2) buff size' = Some (m3, b3)"
        "stable_of cmp m2 m3 first last'" "sorted_by cmp (seg m3 first last')" "frame b2 b3 buff (buff + size')"
      using inplace_merge_loop_swo [OF l2(4,3), of m2 buff size' b2 Random_Access triv_move] le2 assms(4,5) m1(3) m2(3) by auto
    have "stable_sort_rec triv triv_move m buf first last' cmp len buff size' = Some (m3, b3)"
      using assms(1,2) False m1(1) m2(1) m3(1) by (subst unfold) (simp add: l2_def mid_def Let_def)
    moreover have "stable_of cmp m m3 first last'"
      using stable_trans [OF stable_trans [OF stable_mono [OF m1(2)] stable_mono [OF m2(2)]] m3(2)] l2 by auto
    moreover have "frame buf b3 buff (buff + size')" using frame_trans [OF frame_trans [OF m1(4) m2(4)] m3(4)] .
    ultimately show ?thesis using m3(3) by blast
  qed
qed

lemma stable_sort_move_step_swo:
  assumes "8 < len" "first + len = last'" "last' \<le> length m" "first2 + len \<le> length buf"
    and rec: "\<And>n m buf first last' buff size'. n < len \<Longrightarrow> first + n = last' \<Longrightarrow> last' \<le> length m \<Longrightarrow> buff + size' \<le> length buf \<Longrightarrow>
      \<exists>m' buf'. stable_sort_rec triv triv_move m buf first last' cmp n buff size' = Some (m', buf') \<and> stable_of cmp m m' first last' \<and>
        sorted_by cmp (seg m' first last') \<and> frame buf buf' buff (buff + size')"
  shows "\<exists>m' buf'. stable_sort_move triv triv_move m buf first last' cmp len first2 = Some (m', buf') \<and> frame m m' first last' \<and>
    frame buf buf' first2 (first2 + len) \<and> sorted_by cmp (seg buf' first2 (first2 + len)) \<and>
    (\<forall>z. eq_class cmp z (seg buf' first2 (first2 + len)) = eq_class cmp z (seg m first last'))"
proof -
  note unfold = stable_sort_move.simps [of triv triv_move m buf first last' cmp len first2]
  define l2 mid where "l2 = len div 2" and "mid = first + l2"
  have l2: "l2 < len" "len - l2 < len" "mid + (len - l2) = last'" "first + l2 = mid" "first \<le> mid" "mid \<le> last'" "mid \<le> length m"
    using assms(1-3) by (auto simp: l2_def mid_def)
  have split: "seg n first last' = seg n first mid @ seg n mid last'" for n :: "'a mem" using l2(5,6) by (rule seg_append)
  have b: "first2 + l2 \<le> length buf" using assms(4) l2 by auto
  obtain m1 b1 where m1: "stable_sort_rec triv triv_move m buf first mid cmp l2 first2 l2 = Some (m1, b1)" "stable_of cmp m m1 first mid"
      "sorted_by cmp (seg m1 first mid)" "frame buf b1 first2 (first2 + l2)"
    using rec [OF l2(1,4,7) b] by blast
  have f1: "frame m m1 first mid" using m1(2) by (simp add: stable_of_def)
  have le1: "length m1 = length m" "length b1 = length buf" using frame_length [OF f1] frame_length [OF m1(4)] by auto
  obtain m2 b2 where m2: "stable_sort_rec triv triv_move m1 b1 mid last' cmp (len - l2) (first2 + l2) (len - l2) = Some (m2, b2)"
      "stable_of cmp m1 m2 mid last'" "sorted_by cmp (seg m2 mid last')" "frame b1 b2 (first2 + l2) (first2 + len)"
    using rec [OF l2(2,3), of m1 "first2 + l2" "len - l2" b1] le1 assms(3,4) l2(1) by auto
  have f2: "frame m1 m2 mid last'" using m2(2) by (simp add: stable_of_def)
  have le2: "length m2 = length m" "length b2 = length buf" using frame_length [OF f2] frame_length [OF m2(4)] le1 by auto
  have same: "seg m2 first mid = seg m1 first mid" "seg m1 mid last' = seg m mid last'"
    using frame_seg_out [OF f2] frame_seg_out [OF f1] by auto
  let ?zs = "merge_list cmp (seg m2 first mid) (seg m2 mid last')"
  have sx: "sorted_by cmp (seg m2 first mid)" using m1(3) same(1) by simp
  have "merge_move_construct m2 first mid mid last' b2 first2 cmp = Some (put_at b2 first2 ?zs)"
    using le2 assms(2-4) l2 by (intro merge_move_construct_eq) auto
  then have "stable_sort_move triv triv_move m buf first last' cmp len first2 = Some (m2, put_at b2 first2 ?zs)"
    using assms(1) m1(1) m2(1) by (subst unfold) (simp add: l2_def mid_def Let_def)
  moreover have "frame m m2 first last'" using frame_trans [OF frame_mono [OF f1] frame_mono [OF f2]] l2 by auto
  moreover have "frame buf b2 first2 (first2 + len)" using frame_trans [OF frame_mono [OF m1(4)] frame_mono [OF m2(4)]] l2 by auto
  note cw = class_write [OF this, of ?zs]
  have len: "first2 + length ?zs = first2 + len" using le2 assms(2,3) l2 by simp
  have "eq_class cmp z ?zs = eq_class cmp z (seg m first last')" for z
    using merge_list_class [OF sx m2(3)] m1(2) m2(2) same by (simp add: stable_of_def split)
  with cw [OF len assms(4)] sorted_merge_list [OF sx m2(3)] calculation show ?thesis by auto
qed

lemma stable_sort_rec_swo:
  "(\<forall>m buf first last' buff size'. first + len = last' \<longrightarrow> last' \<le> length m \<longrightarrow> buff + size' \<le> length buf \<longrightarrow>
     (\<exists>m' buf'. stable_sort_rec triv triv_move m buf first last' cmp len buff size' = Some (m', buf') \<and> stable_of cmp m m' first last' \<and>
       sorted_by cmp (seg m' first last') \<and> frame buf buf' buff (buff + size'))) \<and>
   (\<forall>m buf first last' first2. first + len = last' \<longrightarrow> last' \<le> length m \<longrightarrow> first2 + len \<le> length buf \<longrightarrow>
     (\<exists>m' buf'. stable_sort_move triv triv_move m buf first last' cmp len first2 = Some (m', buf') \<and> frame m m' first last' \<and>
       frame buf buf' first2 (first2 + len) \<and> sorted_by cmp (seg buf' first2 (first2 + len)) \<and>
       (\<forall>z. eq_class cmp z (seg buf' first2 (first2 + len)) = eq_class cmp z (seg m first last'))))"
  (is "?rec len \<and> ?move len")
proof (induction len rule: less_induct)
  case (less len)
  have rec: "\<exists>m' buf'. stable_sort_rec triv triv_move m buf first last' cmp n buff size' = Some (m', buf') \<and> stable_of cmp m m' first last' \<and>
      sorted_by cmp (seg m' first last') \<and> frame buf buf' buff (buff + size')"
    if "n < len" "first + n = last'" "last' \<le> length m" "buff + size' \<le> length buf" for n m buf first last' buff size'
    using less.IH [OF that(1), THEN conjunct1, rule_format, OF that(2-4)] .
  have move: "\<exists>m' buf'. stable_sort_move triv triv_move m buf first last' cmp n first2 = Some (m', buf') \<and> frame m m' first last' \<and>
       frame buf buf' first2 (first2 + n) \<and> sorted_by cmp (seg buf' first2 (first2 + n)) \<and>
       (\<forall>z. eq_class cmp z (seg buf' first2 (first2 + n)) = eq_class cmp z (seg m first last'))"
    if "n < len" "first + n = last'" "last' \<le> length m" "first2 + n \<le> length buf" for n m buf first last' first2
    using less.IH [OF that(1), THEN conjunct2, rule_format, OF that(2-4)] .
  have "?rec len"
  proof (intro allI impI)
    fix m buf :: "'a mem" and first last' buff size'
    assume l: "first + len = last'" "last' \<le> length m" "buff + size' \<le> length buf"
    show "\<exists>m' buf'. stable_sort_rec triv triv_move m buf first last' cmp len buff size' = Some (m', buf') \<and> stable_of cmp m m' first last' \<and>
        sorted_by cmp (seg m' first last') \<and> frame buf buf' buff (buff + size')"
    proof (cases "len \<le> 2 \<or> len \<le> stable_sort_switch triv")
      case True
      then show ?thesis using stable_sort_base_swo [OF l(1,2)] frame_refl by blast
    next
      case False
      then have "2 < len" "stable_sort_switch triv < len" by auto
      then show ?thesis by (rule stable_sort_rec_step_swo [OF _ _ l rec move])
    qed
  qed
  moreover have "?move len"
  proof (intro allI impI)
    fix m buf :: "'a mem" and first last' first2
    assume l: "first + len = last'" "last' \<le> length m" "first2 + len \<le> length buf"
    show "\<exists>m' buf'. stable_sort_move triv triv_move m buf first last' cmp len first2 = Some (m', buf') \<and> frame m m' first last' \<and>
        frame buf buf' first2 (first2 + len) \<and> sorted_by cmp (seg buf' first2 (first2 + len)) \<and>
        (\<forall>z. eq_class cmp z (seg buf' first2 (first2 + len)) = eq_class cmp z (seg m first last'))"
    proof (cases "len \<le> 8")
      case True
      then obtain zs where "stable_sort_move triv triv_move m buf first last' cmp len first2 = Some (m, put_at buf first2 zs)" "length zs = len"
          "sorted_by cmp zs" "\<forall>z. eq_class cmp z zs = eq_class cmp z (seg m first last')"
        using stable_sort_move_base_swo [OF l] by blast
      then show ?thesis using class_write [OF frame_refl, of first2 zs "first2 + len" buf] l(3) by auto
    next
      case False
      then have "8 < len" by simp
      then show ?thesis by (rule stable_sort_move_step_swo [OF _ l rec])
    qed
  qed
  ultimately show "?rec len \<and> ?move len" ..
qed

text \<open>A sorted list is determined by the elements of its equivalence classes, in their order.\<close>

lemma sorted_class_unique:
  "sorted_by cmp xs \<Longrightarrow> sorted_by cmp ys \<Longrightarrow> (\<And>z. eq_class cmp z xs = eq_class cmp z ys) \<Longrightarrow> xs = ys"
proof (induction xs arbitrary: ys)
  case Nil
  then show ?case using class_mset [of "[]" ys] by simp
next
  case (Cons x xs)
  have "ys \<noteq> []" using class_mset [OF Cons.prems(3)] by auto
  then obtain y ys' where ys: "ys = y # ys'" by (cases ys) auto
  have "set (x # xs) = set (y # ys')" using class_mset [OF Cons.prems(3)] ys by (metis set_mset_mset)
  then have "\<not> cmp x y" "\<not> cmp y x" using Cons.prems(1,2) irrefl unfolding ys sorted_by_simps by (metis list.set_intros(1) set_ConsD)+
  then have "x = y" using Cons.prems(3) [of x] irrefl by (simp add: ys)
  moreover have "eq_class cmp z xs = eq_class cmp z ys'" for z
    using Cons.prems(3) [of z] \<open>x = y\<close> by (simp add: ys split: if_splits)
  then have "xs = ys'" using Cons.IH Cons.prems(1,2) by (simp add: ys)
  ultimately show ?case by (simp add: ys)
qed

lemma stable_sorted_unique:
  assumes "stable_of cmp m m1 a b" "stable_of cmp m m2 a b" "a \<le> b" "sorted_by cmp (seg m1 a b)" "sorted_by cmp (seg m2 a b)"
  shows "m1 = m2"
  using assms sorted_class_unique [OF assms(4,5)] frame_put_seg [OF assms(3)] unfolding stable_of_def by metis

end

section \<open>The contract of a stable sort\<close>

text \<open>
  A stable sorter is a range sorter that keeps the order of equivalent elements.  Its result is then
  determined: it is that of the insertion sort.
\<close>

locale stable_range_sorter = range_sorter cmp sort_range
  for cmp :: "'a \<Rightarrow> 'a \<Rightarrow> bool" and sort_range :: "'a mem \<Rightarrow> iter \<Rightarrow> iter \<Rightarrow> 'a mem option" +
  assumes stable: "a \<le> b \<Longrightarrow> b \<le> length m \<Longrightarrow> sort_range m a b = Some m' \<Longrightarrow>
    eq_class cmp z (seg m' a b) = eq_class cmp z (seg m a b)"
begin

lemma sort_range_eq:
  assumes "a \<le> b" "b \<le> length m"
  shows "sort_range m a b = insertion_sort m a b cmp"
proof -
  obtain m1 where m1: "sort_range m a b = Some m1" "permuted m m1 a b" "sorted_by cmp (seg m1 a b)" using sorts [OF assms] by blast
  obtain m2 where m2: "insertion_sort m a b cmp = Some m2" "permuted m m2 a b" "sorted_by cmp (seg m2 a b)"
      "\<forall>z. eq_class cmp z (seg m2 a b) = eq_class cmp z (seg m a b)"
    using insertion_sort_swo [OF assms] by blast
  have "m1 = m2" using stable [OF assms m1(1)] m1 m2 assms(1)
    by (intro stable_sorted_unique [of m m1 a b m2]) (auto simp: stable_of_def permuted_def)
  with m1(1) m2(1) show ?thesis by simp
qed

end

text \<open>What the buffer relies on: the allocator grants what it was asked for, or nothing.\<close>

locale buffer_allocator =
  fixes alloc :: "nat \<Rightarrow> 'a mem option"
  assumes granted: "alloc n = Some buf \<Longrightarrow> length buf = n"
begin

lemma get_temporary_buffer_loop_size: "get_temporary_buffer_loop alloc n = (buf, k) \<Longrightarrow> length buf = k \<and> k \<le> n"
proof (induction n rule: less_induct)
  case (less n)
  show ?case
  proof (cases "0 < n \<and> alloc n = None")
    case True
    then have "n div 2 < n" "get_temporary_buffer_loop alloc (n div 2) = (buf, k)"
      using less.prems by (simp_all add: get_temporary_buffer_loop.simps [of alloc n])
    then show ?thesis using less.IH [of "n div 2"] by auto
  next
    case False
    then show ?thesis using less.prems granted by (subst (asm) get_temporary_buffer_loop.simps) (auto split: option.splits if_splits)
  qed
qed

lemma get_temporary_buffer_size: "get_temporary_buffer alloc elem_size n = (buf, k) \<Longrightarrow> length buf = k \<and> k \<le> n"
  using get_temporary_buffer_loop_size by (fastforce simp: get_temporary_buffer_def Let_def split: if_splits)

end

text \<open>An allocator with a fixed capacity.\<close>

definition capped_alloc :: "nat \<Rightarrow> 'a \<Rightarrow> nat \<Rightarrow> 'a mem option" where
  "capped_alloc cap filler n = (if n \<le> cap then Some (replicate n filler) else None)"

interpretation capped: buffer_allocator "capped_alloc cap filler"
  by unfold_locales (auto simp: capped_alloc_def split: if_splits)

locale stable_sorting = strict_weak_order cmp + buffer_allocator alloc
  for cmp :: "'a \<Rightarrow> 'a \<Rightarrow> bool" and alloc :: "nat \<Rightarrow> 'a mem option"
begin

lemma stable_sort_swo:
  assumes "a \<le> b" "b \<le> length m"
  shows "\<exists>m'. stable_sort triv triv_move alloc elem_size m a b cmp = Some m' \<and> stable_of cmp m m' a b \<and> sorted_by cmp (seg m' a b)"
proof -
  obtain buf k where buf: "(if b - a > stable_sort_switch triv then get_temporary_buffer alloc elem_size (b - a) else ([], 0)) = (buf, k)"
    by fastforce
  then have "length buf = k" using get_temporary_buffer_size by (auto split: if_splits)
  then obtain m' buf' where "stable_sort_rec triv triv_move m buf a b cmp (b - a) 0 k = Some (m', buf')" "stable_of cmp m m' a b"
      "sorted_by cmp (seg m' a b)"
    using stable_sort_rec_swo [of "b - a" triv triv_move, THEN conjunct1, rule_format, of a b m 0 k buf] assms by auto
  then show ?thesis by (auto simp: stable_sort_def stable_sort_impl_def Let_def buf)
qed

lemma inplace_merge_swo:
  assumes "a \<le> mid" "mid \<le> b" "b \<le> length m" "sorted_by cmp (seg m a mid)" "sorted_by cmp (seg m mid b)"
  shows "\<exists>m'. inplace_merge cat triv alloc elem_size m a mid b cmp = Some m' \<and> stable_of cmp m m' a b \<and> sorted_by cmp (seg m' a b)"
proof -
  obtain buf k where buf: "get_temporary_buffer alloc elem_size (min (mid - a) (b - mid)) = (buf, k)" by fastforce
  then have k: "0 + k \<le> length buf" using get_temporary_buffer_size by auto
  have len: "a + (mid - a) = mid" "mid + (b - mid) = b" using assms by auto
  obtain m' buf' where "inplace_merge_loop cat triv m buf a mid b cmp (mid - a) (b - mid) 0 k = Some (m', buf')"
      "stable_of cmp m m' a b" "sorted_by cmp (seg m' a b)"
    using inplace_merge_loop_swo [OF len assms(3) k assms(4,5), of cat triv] by blast
  then show ?thesis by (auto simp: inplace_merge_def inplace_merge_impl_def Let_def buf)
qed

end

sublocale stable_sorting \<subseteq> std_stable: stable_range_sorter cmp "\<lambda>m a b. stable_sort triv triv_move alloc elem_size m a b cmp" for triv triv_move elem_size
proof unfold_locales
  show "\<exists>m'. stable_sort triv triv_move alloc elem_size m a b cmp = Some m' \<and> permuted m m' a b \<and> sorted_by cmp (seg m' a b)"
    if "a \<le> b" "b \<le> length m" for a b m
    using stable_sort_swo [OF that] stable_permuted that(1) by blast
  show "eq_class cmp z (seg m' a b) = eq_class cmp z (seg m a b)"
    if "a \<le> b" "b \<le> length m" "stable_sort triv triv_move alloc elem_size m a b cmp = Some m'" for a b m m' z
    using stable_sort_swo [OF that(1,2), of triv triv_move elem_size] that(3) by (auto simp: stable_of_def)
qed

context stable_sorting
begin

lemma stable_sort_eq: "a \<le> b \<Longrightarrow> b \<le> length m \<Longrightarrow> stable_sort triv triv_move alloc elem_size m a b cmp = insertion_sort m a b cmp"
  by (rule std_stable.sort_range_eq)

end

interpretation less_stable: stable_sorting less_op "capped_alloc cap filler"
  by unfold_locales

section \<open>Properties\<close>

text \<open>
  C2: \<^verbatim>\<open>stable_sort\<close> computes exactly what insertion sort computes: a sorted rearrangement of its
  range that keeps the order of equivalent elements; whatever the size of the temporary buffer,
  down to none, and for both settings of the switch to insertion sort.
\<close>

theorem stable_sort_correct:
  assumes "strict_weak_order cmp" "\<forall>n buf. alloc n = Some buf \<longrightarrow> length buf = n" "a \<le> b" "b \<le> length m"
  shows "stable_sort triv triv_move alloc elem_size m a b cmp = insertion_sort m a b cmp \<and>
    (\<exists>m'. stable_sort triv triv_move alloc elem_size m a b cmp = Some m' \<and> permuted m m' a b \<and> sorted_by cmp (seg m' a b) \<and>
      (\<forall>z. eq_class cmp z (seg m' a b) = eq_class cmp z (seg m a b)))"
proof -
  have loc: "stable_sorting cmp alloc" using assms(1,2) by (simp add: stable_sorting_def buffer_allocator_def)
  obtain m' where m': "stable_sort triv triv_move alloc elem_size m a b cmp = Some m'" "stable_of cmp m m' a b" "sorted_by cmp (seg m' a b)"
    using stable_sorting.stable_sort_swo [OF loc assms(3,4)] by blast
  then show ?thesis
    using stable_sorting.stable_sort_eq [OF loc assms(3,4), of triv triv_move elem_size] strict_weak_order.stable_permuted [OF assms(1) m'(2) assms(3)]
    by (auto simp: stable_of_def)
qed

theorem stable_sort_correct_witness:
  "stable_sort False True (capped_alloc 2 (0, 0)) 8 [(2, 0), (1, 0), (2, 1), (1, 1), (0, 0) :: int \<times> int] 0 5 (\<lambda>x y. fst x < fst y) =
   Some [(0, 0), (1, 0), (1, 1), (2, 0), (2, 1)]"
proof -
  have swo: "strict_weak_order (\<lambda>x y :: int \<times> int. fst x < fst y)" by unfold_locales auto
  have "stable_sort False True (capped_alloc 2 (0, 0)) 8 [(2, 0), (1, 0), (2, 1), (1, 1), (0, 0) :: int \<times> int] 0 5 (\<lambda>x y. fst x < fst y) =
      insertion_sort [(2, 0), (1, 0), (2, 1), (1, 1), (0, 0)] 0 5 (\<lambda>x y. fst x < fst y)"
    by (rule stable_sort_correct [OF swo, THEN conjunct1]) (auto simp: capped_alloc_def)
  then show ?thesis by (simp add: insertion_sort_eq put_at_def put_seg_def seg_def ins_right_def)
qed

text \<open>
  C20: \<^verbatim>\<open>inplace_merge\<close> of two adjacent sorted ranges leaves the whole range sorted and keeps the order
  of equivalent elements, those of the first range first; whatever buffer it gets.
\<close>

theorem inplace_merge_correct:
  assumes "strict_weak_order cmp" "\<forall>n buf. alloc n = Some buf \<longrightarrow> length buf = n" "a \<le> mid" "mid \<le> b" "b \<le> length m"
    "sorted_by cmp (seg m a mid)" "sorted_by cmp (seg m mid b)"
  shows "\<exists>m'. inplace_merge cat triv alloc elem_size m a mid b cmp = Some m' \<and> permuted m m' a b \<and> sorted_by cmp (seg m' a b) \<and>
    (\<forall>z. eq_class cmp z (seg m' a b) = eq_class cmp z (seg m a mid) @ eq_class cmp z (seg m mid b))"
proof -
  have loc: "stable_sorting cmp alloc" using assms(1,2) by (simp add: stable_sorting_def buffer_allocator_def)
  have "a \<le> b" using assms(3,4) by simp
  then show ?thesis
    using stable_sorting.inplace_merge_swo [OF loc assms(3-7)] strict_weak_order.stable_permuted [OF assms(1)] seg_append [OF assms(3,4), of m]
    by (fastforce simp: stable_of_def)
qed

theorem inplace_merge_correct_witness:
  "\<exists>m'. inplace_merge Bidirectional True (capped_alloc 1 0) 8 [1, 4, 6, 2, 3, 9 :: int] 0 3 6 less_op = Some m' \<and>
    permuted [1, 4, 6, 2, 3, 9] m' 0 6 \<and> sorted_by less_op (seg m' 0 6) \<and>
    (\<forall>z. eq_class less_op z (seg m' 0 6) = eq_class less_op z (seg [1, 4, 6, 2, 3, 9] 0 3) @ eq_class less_op z (seg [1, 4, 6, 2, 3, 9] 3 6))"
  by (rule inplace_merge_correct [OF less.strict_weak_order_axioms]) (auto simp: capped_alloc_def seg_def less_op_def)

text \<open>
  The comment beside the cut says that the elements before \<^verbatim>\<open>__m1\<close> are not greater than those from
  \<^verbatim>\<open>__middle\<close> to \<^verbatim>\<open>__m2\<close>.  That does not hold, and the merge does not need it.
\<close>

lemma inplace_merge_cut_overlap:
  "inplace_merge_cut [5, 9, 3, 7, 10 :: int] 0 2 5 less_op 2 3 = Some (1, 3, 1, 1) \<and>
   seg [5, 9, 3, 7, 10] 0 1 = [5 :: int] \<and> seg [5, 9, 3, 7, 10] 2 3 = [3 :: int]"
  by (simp add: inplace_merge_cut_def upper_bound_impl_eq prefix_end_def partitioned_by_def seg_def rd_def less_op_def)

end
