(* ===== verification/Atomic_Wait.thy ===== *)
theory Atomic_Wait
  imports Prelude "HOL-Library.Word"
begin

text \<open>
  The ground of the synchronisation primitives: arithmetic of the atomic counters, the polling loop
  of \<^verbatim>\<open>std/__thread/poll.h\<close>, the wait loop of \<^verbatim>\<open>std/__atomic/wait/notify_wait.h\<close>, and runs of a system
  of threads under a schedule.  An atomic operation is one step of one thread; the steps of the
  threads interleave in any order, and every load returns the value of the last store (the memory
  orders of the source only make weaker hardware behave this way, and are not modelled).
  \<^verbatim>\<open>notify_one\<close> and \<^verbatim>\<open>notify_all\<close> do nothing on the host and on the supported devices: a waiting thread
  polls.
\<close>

section \<open>Definitions\<close>

type_synonym tid = nat

subsection \<open>Atomic counters\<close>

text \<open>A \<^verbatim>\<open>ptrdiff_t\<close> is an integer of 64 bits; the atomic operations wrap.\<close>

definition wrap64 :: "int \<Rightarrow> int" where
  "wrap64 x = signed_take_bit 63 x"

definition ptrdiff_max :: int where
  "ptrdiff_max = 2 ^ 63 - 1"

subsection \<open>poll.h\<close>

definition polling_count :: nat where
  "polling_count = 16"

text \<open>
  One turn of the loop of \<^verbatim>\<open>__cccl_thread_poll_with_backoff\<close>: \<open>hit\<close> is the result of the tested function,
  \<open>elapsed\<close> says that a time limit was given and has passed.  \<open>Inl\<close> is the next value of \<^verbatim>\<open>__count\<close>, \<open>Inr\<close>
  the result of the function.
\<close>

definition poll_with_backoff_step :: "bool \<Rightarrow> bool \<Rightarrow> nat \<Rightarrow> nat + bool" where
  "poll_with_backoff_step hit elapsed count' =
     (if hit then Inr True
      else if count' < polling_count then Inl (count' + 1)
      else if elapsed then Inr False
      else Inl count')"

subsection \<open>notify\_wait.h\<close>

text \<open>
  The places of \<^verbatim>\<open>__atomic_wait\<close>: the first loop with its index, the test of the second loop, and the
  polling loop in it.  Each turn loads the atomic object once; \<open>eq\<close> says that the loaded value is the one
  waited on.
\<close>

datatype wait_pc = Wait_Spin nat | Wait_Check | Wait_Poll nat | Wait_Done

definition wait_start :: wait_pc where
  "wait_start = Wait_Spin 0"

fun atomic_wait_step :: "bool \<Rightarrow> wait_pc \<Rightarrow> wait_pc" where
  "atomic_wait_step eq (Wait_Spin i) =
     (if \<not> eq then Wait_Done else if i + 1 < polling_count then Wait_Spin (i + 1) else Wait_Check)"
| "atomic_wait_step eq Wait_Check = (if eq then Wait_Poll 0 else Wait_Done)"
| "atomic_wait_step eq (Wait_Poll c) =
     (case poll_with_backoff_step (\<not> eq) False c of Inl c' \<Rightarrow> Wait_Poll c' | Inr _ \<Rightarrow> Wait_Check)"
| "atomic_wait_step eq Wait_Done = Wait_Done"

subsection \<open>Schedules and runs\<close>

text \<open>
  A schedule names the thread of every step.  \<open>step t s\<close> is the next step of thread \<open>t\<close>; \<open>None\<close> is a failing
  assertion.  A schedule of \<open>n\<close> threads is fair when it never stops scheduling any of them.
\<close>

fun run :: "(tid \<Rightarrow> 's \<Rightarrow> 's option) \<Rightarrow> (nat \<Rightarrow> tid) \<Rightarrow> 's \<Rightarrow> nat \<Rightarrow> 's option" where
  "run step sched s 0 = Some s"
| "run step sched s (Suc n) = Option.bind (run step sched s n) (step (sched n))"

definition schedule_of :: "nat \<Rightarrow> (nat \<Rightarrow> tid) \<Rightarrow> bool" where
  "schedule_of n sched = (\<forall>k. sched k < n)"

definition fair :: "nat \<Rightarrow> (nat \<Rightarrow> tid) \<Rightarrow> bool" where
  "fair n sched = (schedule_of n sched \<and> (\<forall>t < n. \<forall>k. \<exists>j \<ge> k. sched j = t))"

section \<open>Counters and waiting\<close>

lemma wrap64_id: "- (2 ^ 63) \<le> x \<Longrightarrow> x \<le> ptrdiff_max \<Longrightarrow> wrap64 x = x"
  unfolding wrap64_def ptrdiff_max_def by (rule signed_take_bit_int_eq_self) auto

lemma wrap64_range: "- (2 ^ 63) \<le> wrap64 x" "wrap64 x \<le> ptrdiff_max"
  using signed_take_bit_int_greater_eq_minus_exp [of 63 x] signed_take_bit_int_less_exp [of 63 x]
  by (simp_all add: wrap64_def ptrdiff_max_def)

text \<open>How many loads of a different value let a wait return.\<close>

fun wait_rank :: "wait_pc \<Rightarrow> nat" where
  "wait_rank (Wait_Spin i) = 1"
| "wait_rank Wait_Check = 1"
| "wait_rank (Wait_Poll c) = 2"
| "wait_rank Wait_Done = 0"

lemma wait_rank_step: "w \<noteq> Wait_Done \<Longrightarrow> wait_rank (atomic_wait_step False w) < wait_rank w"
  by (cases w) (auto simp: poll_with_backoff_step_def)

lemma wait_rank_pos: "0 < wait_rank w \<longleftrightarrow> w \<noteq> Wait_Done"
  by (cases w) auto

lemma atomic_wait_blocked: "w \<noteq> Wait_Done \<Longrightarrow> atomic_wait_step True w \<noteq> Wait_Done"
  by (cases w) (auto simp: poll_with_backoff_step_def)

section \<open>Counting threads\<close>

lemma count_update:
  "t < length xs \<Longrightarrow>
     length (filter P (xs[t := y])) + of_bool (P (xs ! t)) = length (filter P xs) + of_bool (P y)"
proof -
  assume t: "t < length xs"
  then have "filter P xs = filter P (take t xs) @ filter P (xs ! t # drop (Suc t) xs)"
    by (metis filter_append id_take_nth_drop)
  then show ?thesis using t by (auto simp: upd_conv_take_nth_drop)
qed

lemma count_full: "length (filter P xs) = length xs \<longleftrightarrow> (\<forall>x \<in> set xs. P x)"
  using length_filter_less [of _ xs P] filter_id_conv [of P xs] by (metis nat_neq_iff)

lemma sum_list_update_int:
  "t < length xs \<Longrightarrow> sum_list (map f (xs[t := y])) = sum_list (map f xs) - f (xs ! t) + (f y :: int)"
  by (induction xs arbitrary: t) (auto split: nat.splits)

lemma set_updateD: "x \<in> set (xs[t := y]) \<Longrightarrow> x = y \<or> x \<in> set xs"
  using set_update_subset_insert [of xs t y] by blast

section \<open>Runs\<close>

lemma run_numeral:
  "run step sched s (numeral k) = Option.bind (run step sched s (pred_numeral k)) (step (sched (pred_numeral k)))"
  by (simp add: numeral_eq_Suc)

lemma run_add: "run step sched s (m + n) = Option.bind (run step sched s m) (\<lambda>s'. run step (\<lambda>i. sched (m + i)) s' n)"
proof (induction n)
  case (Suc n)
  then show ?case by (cases "run step sched s m") auto
qed (cases "run step sched s m"; simp)

lemma fair_shift: "fair n sched \<Longrightarrow> fair n (\<lambda>i. sched (m + i))"
  unfolding fair_def schedule_of_def
proof (intro conjI allI impI)
  fix t k
  assume f: "(\<forall>k. sched k < n) \<and> (\<forall>t<n. \<forall>k. \<exists>j\<ge>k. sched j = t)" and "t < n"
  then obtain j where j: "m + k \<le> j" "sched j = t" by blast
  then have "sched (m + (j - m)) = t" "k \<le> j - m" by auto
  then show "\<exists>j\<ge>k. sched (m + j) = t" by blast
qed blast

lemma fair_mod: "0 < n \<Longrightarrow> fair n (\<lambda>i. i mod n)"
  unfolding fair_def schedule_of_def
proof (intro conjI allI impI)
  fix t k assume "0 < n" "t < n"
  then have "k \<le> n * k + t" "(n * k + t) mod n = t" by (auto simp: trans_le_add1)
  then show "\<exists>j\<ge>k. j mod n = t" by blast
qed auto

text \<open>
  What a system of threads keeps: an invariant that every step of every thread preserves, without a
  failing assertion.
\<close>

locale invariant_system =
  fixes step :: "tid \<Rightarrow> 's \<Rightarrow> 's option" and threads :: nat and inv :: "'s \<Rightarrow> bool"
  assumes step_inv: "inv s \<Longrightarrow> t < threads \<Longrightarrow> \<exists>s'. step t s = Some s' \<and> inv s'"
begin

lemma run_inv:
  assumes "inv s" "schedule_of threads sched"
  shows "\<exists>s'. run step sched s n = Some s' \<and> inv s'"
proof (induction n)
  case (Suc n)
  then obtain s' where "run step sched s n = Some s'" "inv s'" by blast
  moreover have "sched n < threads" using assms(2) by (simp add: schedule_of_def)
  ultimately show ?case using step_inv by simp
qed (use assms in simp)

end

text \<open>
  Progress: a rank of every thread that no step raises and that its own steps lower until it is 0.
  Under a fair schedule all ranks become 0 and stay 0.
\<close>

locale ranked_system = invariant_system step threads inv
  for step :: "tid \<Rightarrow> 's \<Rightarrow> 's option" and threads :: nat and inv :: "'s \<Rightarrow> bool" +
  fixes rank :: "tid \<Rightarrow> 's \<Rightarrow> nat"
  assumes rank_le: "inv s \<Longrightarrow> t < threads \<Longrightarrow> u < threads \<Longrightarrow> step u s = Some s' \<Longrightarrow> rank t s' \<le> rank t s"
    and rank_less: "inv s \<Longrightarrow> t < threads \<Longrightarrow> step t s = Some s' \<Longrightarrow> 0 < rank t s \<Longrightarrow> rank t s' < rank t s"
begin

lemma run_rank_le:
  assumes "inv s" "schedule_of threads sched" "t < threads" "run step sched s n = Some s'"
  shows "rank t s' \<le> rank t s"
  using assms(4)
proof (induction n arbitrary: s')
  case (Suc n)
  then obtain r where r: "run step sched s n = Some r" "step (sched n) r = Some s'" by (auto simp: bind_eq_Some_conv)
  have "inv r" using run_inv [OF assms(1,2), of n] r(1) by auto
  moreover have "sched n < threads" using assms(2) by (simp add: schedule_of_def)
  ultimately have "rank t s' \<le> rank t r" using rank_le [of r t "sched n" s'] assms(3) r(2) by blast
  then show ?case using Suc.IH [OF r(1)] by simp
qed simp

lemma eventually_thread:
  assumes "inv s" "fair threads sched" "t < threads"
  shows "\<exists>n s'. run step sched s n = Some s' \<and> rank t s' = 0"
  using assms(1,2)
proof (induction "rank t s" arbitrary: s sched rule: less_induct)
  case less
  have sch: "schedule_of threads sched" using less.prems(2) by (simp add: fair_def)
  show ?case
  proof (cases "rank t s = 0")
    case True
    then have "run step sched s 0 = Some s \<and> rank t s = 0" by simp
    then show ?thesis by blast
  next
    case False
    obtain j where j: "sched j = t" using less.prems(2) assms(3) unfolding fair_def by blast
    obtain r where r: "run step sched s j = Some r" "inv r" using run_inv [OF less.prems(1) sch] by blast
    obtain q where q: "step t r = Some q" "inv q" using step_inv [OF r(2) assms(3)] by blast
    have rj: "run step sched s (Suc j) = Some q" using r(1) q(1) j by simp
    have le: "rank t r \<le> rank t s" by (rule run_rank_le [OF less.prems(1) sch assms(3) r(1)])
    show ?thesis
    proof (cases "rank t r = 0")
      case True
      then show ?thesis using r(1) by blast
    next
      case pos: False
      then have "rank t q < rank t s" using rank_less [OF r(2) assms(3) q(1)] le by simp
      then obtain n s' where "run step (\<lambda>i. sched (Suc j + i)) q n = Some s'" "rank t s' = 0"
        using less.hyps [of q "\<lambda>i. sched (Suc j + i)"] q(2) fair_shift [OF less.prems(2), of "Suc j"] by blast
      then have "run step sched s (Suc j + n) = Some s'" unfolding run_add rj by simp
      then show ?thesis using \<open>rank t s' = 0\<close> by blast
    qed
  qed
qed

lemma eventually_all_upto:
  assumes "inv s" "fair threads sched" "m \<le> threads"
  shows "\<exists>n s'. run step sched s n = Some s' \<and> inv s' \<and> (\<forall>t < m. rank t s' = 0)"
  using assms(3)
proof (induction m)
  case 0
  have "run step sched s 0 = Some s \<and> inv s \<and> (\<forall>t < 0. rank t s = 0)" using assms(1) by simp
  then show ?case by blast
next
  case (Suc m)
  then obtain n r where r: "run step sched s n = Some r" "inv r" "\<forall>t < m. rank t r = 0" by auto
  let ?sched = "\<lambda>i. sched (n + i)"
  have f: "fair threads ?sched" by (rule fair_shift [OF assms(2)])
  obtain k q where q: "run step ?sched r k = Some q" "rank m q = 0"
    using eventually_thread [OF r(2) f, of m] Suc.prems by auto
  have sch: "schedule_of threads ?sched" using f by (simp add: fair_def)
  have "rank t q = 0" if "t < m" for t
    using run_rank_le [OF r(2) sch _ q(1), of t] r(3) that Suc.prems by auto
  then have "\<forall>t < Suc m. rank t q = 0" using q(2) by (simp add: less_Suc_eq)
  moreover have "run step sched s (n + k) = Some q" unfolding run_add r(1) using q(1) by simp
  moreover have "inv q" using run_inv [OF r(2) sch, of k] q(1) by auto
  ultimately show ?case by blast
qed

lemma eventually_all:
  assumes "inv s" "fair threads sched"
  shows "\<exists>n s'. run step sched s n = Some s' \<and> inv s' \<and> (\<forall>t < threads. rank t s' = 0)"
  using eventually_all_upto [OF assms order_refl] .

end

end
