(* ===== verification/Latch_Ops.thy ===== *)
theory Latch_Ops
  imports Atomic_Wait
begin

text \<open>
  The latch of \<^verbatim>\<open>std/__latch/latch.h\<close>: its operations on the atomic counter, and systems of any number of
  threads that each call a list of them.  The counter always is what the calls so far have left of the
  expected count; a thread passes \<^verbatim>\<open>wait\<close> only when every counted arrival has happened; and when the
  calls of all threads count down to 0, every thread finishes under every fair schedule.
\<close>

section \<open>Definitions\<close>

subsection \<open>latch.h\<close>

text \<open>\<open>None\<close> is a failing assertion.\<close>

definition count_down :: "int \<Rightarrow> int \<Rightarrow> int option" where
  "count_down counter update =
     (if \<not> update > 0 then None
      else let old = counter; counter = wrap64 (old - update) in
        if \<not> old \<ge> update then None else Some counter)"

definition latch_try_wait :: "int \<Rightarrow> bool" where
  "latch_try_wait counter \<longleftrightarrow> counter = 0"

text \<open>
  The places of \<^verbatim>\<open>wait\<close>: the load of the loop, and the wait on the value it loaded.  \<open>None\<close> is the return.
\<close>

datatype latch_wait_pc = Latch_Load | Latch_Wait int wait_pc

fun latch_wait_step :: "int \<Rightarrow> latch_wait_pc \<Rightarrow> latch_wait_pc option" where
  "latch_wait_step counter Latch_Load = (if counter = 0 then None else Some (Latch_Wait counter wait_start))"
| "latch_wait_step counter (Latch_Wait current w) =
     (let w' = atomic_wait_step (counter = current) w in
      Some (if w' = Wait_Done then Latch_Load else Latch_Wait current w'))"

subsection \<open>Threads\<close>

datatype latch_op = Count_Down int | Try_Wait | Wait | Arrive_And_Wait int

datatype latch_event = Counted int | Tried bool | Waited

record latch_thread =
  ops :: "latch_op list"
  waiting :: "latch_wait_pc option"
  events :: "latch_event list"

record latch_system =
  counter :: int
  members :: "latch_thread list"

definition latch_begin :: "int \<Rightarrow> latch_op list list \<Rightarrow> latch_system" where
  "latch_begin expected progs =
     \<lparr>counter = expected, members = map (\<lambda>p. \<lparr>ops = p, waiting = None, events = []\<rparr>) progs\<rparr>"

text \<open>One step of a thread; \<^verbatim>\<open>arrive_and_wait\<close> is \<^verbatim>\<open>count_down\<close> followed by \<^verbatim>\<open>wait\<close>.\<close>

definition latch_thread_step :: "int \<Rightarrow> latch_thread \<Rightarrow> (int \<times> latch_thread) option" where
  "latch_thread_step c th =
     (case waiting th of
        Some pc \<Rightarrow>
          (case latch_wait_step c pc of
             None \<Rightarrow> Some (c, th\<lparr>ops := tl (ops th), waiting := None, events := Waited # events th\<rparr>)
           | Some pc' \<Rightarrow> Some (c, th\<lparr>waiting := Some pc'\<rparr>))
      | None \<Rightarrow>
          (case ops th of
             [] \<Rightarrow> Some (c, th)
           | Count_Down u # ps \<Rightarrow>
               map_option (\<lambda>c'. (c', th\<lparr>ops := ps, events := Counted u # events th\<rparr>)) (count_down c u)
           | Try_Wait # ps \<Rightarrow> Some (c, th\<lparr>ops := ps, events := Tried (latch_try_wait c) # events th\<rparr>)
           | Wait # ps \<Rightarrow> Some (c, th\<lparr>waiting := Some Latch_Load\<rparr>)
           | Arrive_And_Wait u # ps \<Rightarrow>
               map_option (\<lambda>c'. (c', th\<lparr>ops := Wait # ps, events := Counted u # events th\<rparr>)) (count_down c u)))"

definition latch_step :: "tid \<Rightarrow> latch_system \<Rightarrow> latch_system option" where
  "latch_step t s =
     map_option (\<lambda>(c, th). \<lparr>counter = c, members = (members s)[t := th]\<rparr>)
       (latch_thread_step (counter s) (members s ! t))"

subsection \<open>What the calls count\<close>

fun op_update :: "latch_op \<Rightarrow> int" where
  "op_update (Count_Down u) = u"
| "op_update (Arrive_And_Wait u) = u"
| "op_update _ = 0"

definition pending_update :: "latch_op list \<Rightarrow> int" where
  "pending_update ps = sum_list (map op_update ps)"

definition valid_op :: "latch_op \<Rightarrow> bool" where
  "valid_op p = (case p of Count_Down u \<Rightarrow> 0 < u | Arrive_And_Wait u \<Rightarrow> 0 < u | _ \<Rightarrow> True)"

fun event_update :: "latch_event \<Rightarrow> int" where
  "event_update (Counted u) = u"
| "event_update _ = 0"

definition counted :: "latch_thread \<Rightarrow> int" where
  "counted th = sum_list (map event_update (events th))"

definition total_counted :: "latch_system \<Rightarrow> int" where
  "total_counted s = sum_list (map counted (members s))"

definition total_pending :: "latch_system \<Rightarrow> int" where
  "total_pending s = sum_list (map (\<lambda>th. pending_update (ops th)) (members s))"

text \<open>A thread has seen the latch open.\<close>

definition passed :: "latch_thread \<Rightarrow> bool" where
  "passed th \<longleftrightarrow> Waited \<in> set (events th) \<or> Tried True \<in> set (events th)"

text \<open>No call counts down after a call that blocks.\<close>

fun counts_first :: "latch_op list \<Rightarrow> bool" where
  "counts_first [] = True"
| "counts_first (Wait # ps) = (\<forall>p \<in> set ps. op_update p = 0)"
| "counts_first (Arrive_And_Wait u # ps) = (\<forall>p \<in> set ps. op_update p = 0)"
| "counts_first (p # ps) = counts_first ps"

section \<open>The invariant\<close>

definition latch_inv :: "int \<Rightarrow> nat \<Rightarrow> latch_system \<Rightarrow> bool" where
  "latch_inv expected n s \<longleftrightarrow>
     length (members s) = n \<and> counter s \<le> ptrdiff_max \<and>
     counter s = expected - total_counted s \<and> total_pending s \<le> counter s \<and>
     (\<forall>th \<in> set (members s). (\<forall>p \<in> set (ops th). valid_op p) \<and> (waiting th \<noteq> None \<longrightarrow> ops th \<noteq> [] \<and> hd (ops th) = Wait)) \<and>
     (\<forall>th \<in> set (members s). passed th \<longrightarrow> counter s = 0)"

lemma pending_update_simps [simp]: "pending_update [] = 0" "pending_update (p # ps) = op_update p + pending_update ps"
  by (simp_all add: pending_update_def)

lemma valid_op_update: "valid_op p \<Longrightarrow> 0 \<le> op_update p"
  by (cases p) (auto simp: valid_op_def)

lemma pending_update_nonneg: "\<forall>p \<in> set ps. valid_op p \<Longrightarrow> 0 \<le> pending_update ps"
  by (induction ps) (auto dest: valid_op_update)

lemma member_le_sum_list_int:
  "\<forall>y \<in> set xs. (0 :: int) \<le> f y \<Longrightarrow> x \<in> set xs \<Longrightarrow> f x \<le> sum_list (map f xs)"
proof (induction xs)
  case (Cons a xs)
  then have "0 \<le> sum_list (map f xs)" by (auto intro!: sum_list_nonneg)
  with Cons show ?case by auto
qed simp

lemma count_down_Some:
  "0 < u \<Longrightarrow> u \<le> c \<Longrightarrow> c \<le> ptrdiff_max \<Longrightarrow> count_down c u = Some (c - u)"
  by (simp add: count_down_def Let_def wrap64_id)

text \<open>The step of one thread: what it does to the counter, its pending calls and its events.\<close>

lemma latch_thread_step_cases:
  assumes "\<forall>p \<in> set (ops th). valid_op p" "waiting th \<noteq> None \<longrightarrow> ops th \<noteq> [] \<and> hd (ops th) = Wait"
    "pending_update (ops th) \<le> c" "c \<le> ptrdiff_max"
  obtains c' th' where "latch_thread_step c th = Some (c', th')" "c' = c - (counted th' - counted th)"
    "counted th' - counted th = pending_update (ops th) - pending_update (ops th')" "c' \<le> c"
    "\<forall>p \<in> set (ops th'). valid_op p" "waiting th' \<noteq> None \<longrightarrow> ops th' \<noteq> [] \<and> hd (ops th') = Wait"
    "passed th' \<longrightarrow> passed th \<or> c' = 0"
proof (cases "waiting th")
  case None
  show ?thesis
  proof (cases "ops th")
    case Nil
    then show ?thesis using that [of c th] None assms by (simp add: latch_thread_step_def)
  next
    case (Cons p ps)
    have nn: "0 \<le> pending_update ps" using assms(1) Cons by (auto intro: pending_update_nonneg)
    have v: "valid_op p" "\<forall>p \<in> set ps. valid_op p" using assms(1) Cons by auto
    have le: "op_update p + pending_update ps \<le> c" using assms(3) Cons by simp
    have cd: "count_down c u = Some (c - u)" if "0 < u" "op_update p = u" for u
      using that le nn assms(4) by (intro count_down_Some) auto
    show ?thesis
    proof (cases p)
      case (Count_Down u)
      then have u: "0 < u" using v(1) by (simp add: valid_op_def)
      show ?thesis
        by (rule that [of "c - u" "th\<lparr>ops := ps, events := Counted u # events th\<rparr>"]) (use None Cons Count_Down cd [of u] v(2) u in \<open>simp_all add: latch_thread_step_def counted_def passed_def\<close>)
    next
      case Try_Wait
      show ?thesis
        by (rule that [of c "th\<lparr>ops := ps, events := Tried (latch_try_wait c) # events th\<rparr>"]) (use None Cons v(2) Try_Wait in \<open>simp_all add: latch_thread_step_def counted_def passed_def latch_try_wait_def\<close>)
    next
      case Wait
      show ?thesis
        by (rule that [of c "th\<lparr>waiting := Some Latch_Load\<rparr>"]) (use None Cons v Wait in \<open>simp_all add: latch_thread_step_def counted_def passed_def\<close>)
    next
      case (Arrive_And_Wait u)
      then have u: "0 < u" using v(1) by (simp add: valid_op_def)
      show ?thesis
        by (rule that [of "c - u" "th\<lparr>ops := Wait # ps, events := Counted u # events th\<rparr>"]) (use None Cons Arrive_And_Wait cd [of u] v(2) u in \<open>simp_all add: latch_thread_step_def counted_def passed_def valid_op_def\<close>)
    qed
  qed
next
  case (Some pc)
  then obtain ps where ps: "ops th = Wait # ps" using assms(2) by (cases "ops th") auto
  show ?thesis
  proof (cases "latch_wait_step c pc")
    case None
    then have c0: "c = 0" by (cases pc) (auto simp: Let_def split: if_splits)
    show ?thesis
      by (rule that [of c "th\<lparr>ops := ps, waiting := None, events := Waited # events th\<rparr>"]) (use None Some ps c0 assms(1) in \<open>simp_all add: latch_thread_step_def counted_def passed_def\<close>)
  next
    case (Some pc')
    show ?thesis
      by (rule that [of c "th\<lparr>waiting := Some pc'\<rparr>"]) (use \<open>waiting th = Some pc\<close> Some ps assms(1) in \<open>simp_all add: latch_thread_step_def counted_def passed_def\<close>)
  qed
qed

lemma latch_step_inv:
  assumes "latch_inv expected n s" "t < n"
  shows "\<exists>s'. latch_step t s = Some s' \<and> latch_inv expected n s' \<and> counter s' \<le> counter s \<and> 0 \<le> counter s' \<and>
    counter s' - total_pending s' = counter s - total_pending s"
proof -
  let ?th = "members s ! t"
  have t: "t < length (members s)" and mem: "?th \<in> set (members s)" using assms by (auto simp: latch_inv_def)
  have valid: "\<forall>th \<in> set (members s). 0 \<le> pending_update (ops th)"
    using assms(1) pending_update_nonneg by (auto simp: latch_inv_def)
  have pend: "pending_update (ops ?th) \<le> counter s"
    using member_le_sum_list_int [OF valid mem] assms(1) by (auto simp: latch_inv_def total_pending_def)
  obtain c' th' where st: "latch_thread_step (counter s) ?th = Some (c', th')"
    and c': "c' = counter s - (counted th' - counted ?th)"
    and d: "counted th' - counted ?th = pending_update (ops ?th) - pending_update (ops th')" and le: "c' \<le> counter s"
    and v: "\<forall>p \<in> set (ops th'). valid_op p" and w: "waiting th' \<noteq> None \<longrightarrow> ops th' \<noteq> [] \<and> hd (ops th') = Wait"
    and ps: "passed th' \<longrightarrow> passed ?th \<or> c' = 0"
  proof (rule latch_thread_step_cases [of ?th "counter s"])
    show "\<forall>p \<in> set (ops ?th). valid_op p" "waiting ?th \<noteq> None \<longrightarrow> ops ?th \<noteq> [] \<and> hd (ops ?th) = Wait"
      "counter s \<le> ptrdiff_max" using assms(1) mem by (auto simp: latch_inv_def)
  qed (use pend in auto)
  let ?s = "\<lparr>counter = c', members = (members s)[t := th']\<rparr>"
  have sub: "th = th' \<or> th \<in> set (members s)" if "th \<in> set ((members s)[t := th'])" for th
    using that set_update_subset_insert [of "members s" t th'] by blast
  have tc: "total_counted ?s = total_counted s + (counted th' - counted ?th)"
    and tp: "total_pending ?s = total_pending s - (counted th' - counted ?th)"
    using t d by (simp_all add: total_counted_def total_pending_def sum_list_update_int)
  have "0 \<le> pending_update (ops th)" if "th \<in> set ((members s)[t := th'])" for th
    using sub [OF that] valid pending_update_nonneg [OF v] by blast
  then have "0 \<le> total_pending ?s" unfolding total_pending_def by (auto intro!: sum_list_nonneg)
  moreover have tpc: "total_pending ?s \<le> c'" using tp c' assms(1) by (simp add: latch_inv_def)
  ultimately have z: "0 \<le> c'" by simp
  have "latch_inv expected n ?s"
    unfolding latch_inv_def
  proof (intro conjI ballI)
    fix th assume "th \<in> set (members ?s)"
    then have th: "th = th' \<or> th \<in> set (members s)" using sub by simp
    show "\<And>p. p \<in> set (ops th) \<Longrightarrow> valid_op p" using th v assms(1) by (auto simp: latch_inv_def)
    show "waiting th \<noteq> None \<longrightarrow> ops th \<noteq> [] \<and> hd (ops th) = Wait" using th w assms(1) by (auto simp: latch_inv_def)
    show "passed th \<longrightarrow> counter ?s = 0" using th ps le z mem assms(1) by (auto simp: latch_inv_def)
  qed (use assms(1) t c' tc tpc le in \<open>auto simp: latch_inv_def\<close>)
  moreover have "c' - total_pending ?s = counter s - total_pending s" using tp c' by simp
  ultimately show ?thesis using st le z by (simp add: latch_step_def)
qed

lemma latch_inv_begin:
  assumes "\<forall>ps \<in> set progs. \<forall>p \<in> set ps. valid_op p" "sum_list (map pending_update progs) \<le> expected" "expected \<le> ptrdiff_max"
  shows "latch_inv expected (length progs) (latch_begin expected progs)"
  using assms by (auto simp: latch_inv_def latch_begin_def total_counted_def total_pending_def counted_def passed_def comp_def)

interpretation latch: invariant_system latch_step n "latch_inv expected n" for n expected
  by unfold_locales (use latch_step_inv in blast)

section \<open>Progress\<close>

text \<open>
  Two phases.  First every thread makes its counting calls, which no other thread can delay; then the
  counter is 0 and stays 0, and every wait returns.
\<close>

definition latch_thread_ok :: "latch_thread \<Rightarrow> bool" where
  "latch_thread_ok th \<longleftrightarrow> counts_first (ops th) \<and>
     (case waiting th of Some (Latch_Wait current w) \<Rightarrow> current \<noteq> 0 \<and> w \<noteq> Wait_Done | _ \<Rightarrow> True)"

definition counting_rank :: "latch_thread \<Rightarrow> nat" where
  "counting_rank th = (if pending_update (ops th) = 0 then 0 else length (ops th))"

fun latch_pc_rank :: "latch_wait_pc \<Rightarrow> nat" where
  "latch_pc_rank Latch_Load = 1"
| "latch_pc_rank (Latch_Wait current w) = 1 + wait_rank w"

definition waiting_rank :: "latch_thread \<Rightarrow> nat" where
  "waiting_rank th =
     (case waiting th of None \<Rightarrow> 5 * length (ops th) | Some pc \<Rightarrow> 5 * (length (ops th) - 1) + latch_pc_rank pc)"

lemma pending_update_0: "\<forall>p \<in> set ps. op_update p = 0 \<Longrightarrow> pending_update ps = 0"
  by (induction ps) auto

lemma counts_first_quiet: "\<forall>p \<in> set ps. op_update p = 0 \<Longrightarrow> counts_first ps"
  by (induction ps rule: counts_first.induct) auto

lemma counts_first_tl: "counts_first (p # ps) \<Longrightarrow> counts_first ps"
  by (cases p) (auto intro: counts_first_quiet)

lemma counts_first_blocked: "counts_first (Wait # ps) \<Longrightarrow> pending_update ps = 0"
  "counts_first (Arrive_And_Wait u # ps) \<Longrightarrow> pending_update ps = 0"
  by (auto intro: pending_update_0)

lemma wait_rank_le: "wait_rank w \<le> 2"
  by (cases w) auto

lemma latch_wait_step_progress:
  assumes "latch_wait_step c pc = Some pc'"
    "case pc of Latch_Wait current w \<Rightarrow> current \<noteq> 0 \<and> w \<noteq> Wait_Done | _ \<Rightarrow> True"
  shows "case pc' of Latch_Wait current w \<Rightarrow> current \<noteq> 0 \<and> w \<noteq> Wait_Done | _ \<Rightarrow> True"
    and "c = 0 \<Longrightarrow> latch_pc_rank pc' < latch_pc_rank pc"
proof -
  show "case pc' of Latch_Wait current w \<Rightarrow> current \<noteq> 0 \<and> w \<noteq> Wait_Done | _ \<Rightarrow> True"
    using assms by (cases pc) (auto simp: Let_def wait_start_def split: if_splits)
  show "latch_pc_rank pc' < latch_pc_rank pc" if "c = 0"
  proof (cases pc)
    case Latch_Load
    then show ?thesis using assms that by simp
  next
    case (Latch_Wait current w)
    then have "wait_rank (atomic_wait_step False w) < wait_rank w" using assms(2) by (intro wait_rank_step) simp
    then show ?thesis using assms that Latch_Wait by (auto simp: Let_def)
  qed
qed

lemma latch_thread_step_progress:
  assumes "latch_thread_step c th = Some (c', th')" "latch_thread_ok th"
    "waiting th \<noteq> None \<longrightarrow> ops th \<noteq> [] \<and> hd (ops th) = Wait" "\<forall>p \<in> set (ops th). valid_op p"
  shows "latch_thread_ok th'"
    and "counting_rank th' \<le> counting_rank th" and "0 < counting_rank th \<Longrightarrow> counting_rank th' < counting_rank th"
    and "c = 0 \<Longrightarrow> waiting_rank th' \<le> waiting_rank th"
    and "c = 0 \<Longrightarrow> 0 < waiting_rank th \<Longrightarrow> waiting_rank th' < waiting_rank th"
proof -
  have "latch_thread_ok th' \<and> counting_rank th' \<le> counting_rank th \<and> (0 < counting_rank th \<longrightarrow> counting_rank th' < counting_rank th) \<and>
    (c = 0 \<longrightarrow> waiting_rank th' \<le> waiting_rank th \<and> (0 < waiting_rank th \<longrightarrow> waiting_rank th' < waiting_rank th))"
  proof (cases "waiting th")
    case None
    show ?thesis
    proof (cases "ops th")
      case Nil
      then show ?thesis using None assms(1,2) by (simp add: latch_thread_step_def waiting_rank_def counting_rank_def)
    next
      case (Cons p ps)
      have cf: "counts_first (p # ps)" using assms(2) Cons by (simp add: latch_thread_ok_def)
      note tl = counts_first_tl [OF cf]
      show ?thesis
      proof (cases p)
        case (Count_Down u)
        then show ?thesis using None Cons assms(1) tl pending_update_nonneg [of ps] assms(4)
          by (auto simp: latch_thread_step_def latch_thread_ok_def counting_rank_def waiting_rank_def count_down_def Let_def split: if_splits)
      next
        case Try_Wait
        then show ?thesis using None Cons assms(1) tl
          by (auto simp: latch_thread_step_def latch_thread_ok_def counting_rank_def waiting_rank_def)
      next
        case Wait
        then show ?thesis using None Cons assms(1) cf
          by (auto simp: latch_thread_step_def latch_thread_ok_def counting_rank_def waiting_rank_def pending_update_0)
      next
        case (Arrive_And_Wait u)
        then show ?thesis using None Cons assms(1) cf
          by (auto simp: latch_thread_step_def latch_thread_ok_def counting_rank_def waiting_rank_def count_down_def Let_def
              pending_update_0 split: if_splits)
      qed
    qed
  next
    case (Some pc)
    then obtain ps where ps: "ops th = Wait # ps" using assms(3) by (cases "ops th") auto
    have cf: "counts_first (Wait # ps)" using assms(2) ps by (simp add: latch_thread_ok_def)
    note z = counts_first_blocked(1) [OF cf] and tl = counts_first_tl [OF cf]
    have ok: "case pc of Latch_Wait current w \<Rightarrow> current \<noteq> 0 \<and> w \<noteq> Wait_Done | _ \<Rightarrow> True"
      using assms(2) Some by (simp add: latch_thread_ok_def)
    show ?thesis
    proof (cases "latch_wait_step c pc")
      case None
      then have "th' = th\<lparr>ops := ps, waiting := None, events := Waited # events th\<rparr>"
        using Some ps assms(1) by (simp add: latch_thread_step_def)
      moreover have "0 < latch_pc_rank pc" by (cases pc) auto
      ultimately show ?thesis using Some ps z tl by (simp add: latch_thread_ok_def counting_rank_def waiting_rank_def)
    next
      case (Some pc')
      then have "th' = th\<lparr>waiting := Some pc'\<rparr>"
        using \<open>waiting th = Some pc\<close> assms(1) by (simp add: latch_thread_step_def)
      then show ?thesis using latch_wait_step_progress [OF Some ok] \<open>waiting th = Some pc\<close> ps cf z
        by (auto simp: latch_thread_ok_def counting_rank_def waiting_rank_def)
    qed
  qed
  then show "latch_thread_ok th'"
    and "counting_rank th' \<le> counting_rank th" and "0 < counting_rank th \<Longrightarrow> counting_rank th' < counting_rank th"
    and "c = 0 \<Longrightarrow> waiting_rank th' \<le> waiting_rank th"
    and "c = 0 \<Longrightarrow> 0 < waiting_rank th \<Longrightarrow> waiting_rank th' < waiting_rank th" by blast+
qed

text \<open>The two phases as ranked systems.\<close>

definition latch_live :: "int \<Rightarrow> nat \<Rightarrow> latch_system \<Rightarrow> bool" where
  "latch_live expected n s \<longleftrightarrow>
     latch_inv expected n s \<and> total_pending s = counter s \<and> (\<forall>th \<in> set (members s). latch_thread_ok th)"

lemma latch_step_thread:
  assumes "latch_step t s = Some s'"
  obtains c' th' where "latch_thread_step (counter s) (members s ! t) = Some (c', th')"
    "s' = \<lparr>counter = c', members = (members s)[t := th']\<rparr>"
  using assms by (auto simp: latch_step_def)

lemma latch_live_step:
  assumes "latch_live expected n s" "t < n"
  shows "\<exists>s'. latch_step t s = Some s' \<and> latch_live expected n s'"
proof -
  have inv: "latch_inv expected n s" using assms(1) by (simp add: latch_live_def)
  obtain s' where s': "latch_step t s = Some s'" "latch_inv expected n s'"
    "counter s' - total_pending s' = counter s - total_pending s"
    using latch_step_inv [OF inv assms(2)] by blast
  obtain c' th' where st: "latch_thread_step (counter s) (members s ! t) = Some (c', th')"
    "s' = \<lparr>counter = c', members = (members s)[t := th']\<rparr>" by (rule latch_step_thread [OF s'(1)])
  have mem: "members s ! t \<in> set (members s)" using inv assms(2) by (simp add: latch_inv_def)
  have "latch_thread_ok th'"
    using latch_thread_step_progress(1) [OF st(1)] assms(1) mem inv by (auto simp: latch_live_def latch_inv_def)
  then have "\<forall>th \<in> set (members s'). latch_thread_ok th"
    using assms(1) st(2) set_update_subset_insert [of "members s" t th'] by (auto simp: latch_live_def)
  then show ?thesis using s' assms(1) by (simp add: latch_live_def)
qed

lemma latch_step_rank:
  assumes "latch_live expected n s" "t < n" "u < n" "latch_step u s = Some s'"
  shows "counting_rank (members s' ! t) \<le> counting_rank (members s ! t)"
    and "u = t \<Longrightarrow> 0 < counting_rank (members s ! t) \<Longrightarrow> counting_rank (members s' ! t) < counting_rank (members s ! t)"
    and "counter s = 0 \<Longrightarrow> waiting_rank (members s' ! t) \<le> waiting_rank (members s ! t)"
    and "counter s = 0 \<Longrightarrow> u = t \<Longrightarrow> 0 < waiting_rank (members s ! t) \<Longrightarrow> waiting_rank (members s' ! t) < waiting_rank (members s ! t)"
proof -
  have inv: "latch_inv expected n s" using assms(1) by (simp add: latch_live_def)
  obtain c' th' where st: "latch_thread_step (counter s) (members s ! u) = Some (c', th')"
    "s' = \<lparr>counter = c', members = (members s)[u := th']\<rparr>" by (rule latch_step_thread [OF assms(4)])
  have mem: "members s ! u \<in> set (members s)" and len: "u < length (members s)" using inv assms(3) by (simp_all add: latch_inv_def)
  have ok: "latch_thread_ok (members s ! u)" using assms(1) mem by (simp add: latch_live_def)
  have w: "waiting (members s ! u) \<noteq> None \<longrightarrow> ops (members s ! u) \<noteq> [] \<and> hd (ops (members s ! u)) = Wait"
    using inv mem by (simp add: latch_inv_def)
  have v: "\<forall>p \<in> set (ops (members s ! u)). valid_op p" using inv mem by (simp add: latch_inv_def)
  note pr = latch_thread_step_progress [OF st(1) ok w v]
  have eq: "members s' ! t = (if u = t then th' else members s ! t)" using st(2) len by (simp add: nth_list_update)
  show "counting_rank (members s' ! t) \<le> counting_rank (members s ! t)" using pr(2) eq by auto
  show "u = t \<Longrightarrow> 0 < counting_rank (members s ! t) \<Longrightarrow> counting_rank (members s' ! t) < counting_rank (members s ! t)"
    using pr(3) eq by simp
  show "counter s = 0 \<Longrightarrow> waiting_rank (members s' ! t) \<le> waiting_rank (members s ! t)" using pr(4) eq by auto
  show "counter s = 0 \<Longrightarrow> u = t \<Longrightarrow> 0 < waiting_rank (members s ! t) \<Longrightarrow> waiting_rank (members s' ! t) < waiting_rank (members s ! t)"
    using pr(5) eq by simp
qed

lemma latch_open_step:
  assumes "latch_live expected n s \<and> counter s = 0" "t < n"
  shows "\<exists>s'. latch_step t s = Some s' \<and> latch_live expected n s' \<and> counter s' = 0"
proof -
  have inv: "latch_inv expected n s" using assms(1) by (simp add: latch_live_def)
  obtain s' where "latch_step t s = Some s'" "counter s' \<le> counter s" "0 \<le> counter s'"
    using latch_step_inv [OF inv assms(2)] by blast
  then show ?thesis using latch_live_step [of expected n s t] assms by auto
qed

interpretation latch_counting: ranked_system latch_step n "latch_live expected n" "\<lambda>t s. counting_rank (members s ! t)" for n expected
  by unfold_locales (use latch_live_step latch_step_rank in blast)+

interpretation latch_open: ranked_system latch_step n "\<lambda>s. latch_live expected n s \<and> counter s = 0"
  "\<lambda>t s. waiting_rank (members s ! t)" for n expected
  by unfold_locales (use latch_open_step latch_step_rank(3,4) in blast)+

lemma latch_counting_complete:
  assumes "latch_live expected n s" "\<forall>t < n. counting_rank (members s ! t) = 0"
  shows "counter s = 0"
proof -
  have len: "length (members s) = n" using assms(1) by (simp add: latch_live_def latch_inv_def)
  have "pending_update (ops th) = 0" if "th \<in> set (members s)" for th
  proof -
    obtain t where "t < n" "th = members s ! t" using \<open>th \<in> set (members s)\<close> len by (metis in_set_conv_nth)
    then have "counting_rank th = 0" using assms(2) by simp
    then show ?thesis by (cases "ops th") (auto simp: counting_rank_def split: if_splits)
  qed
  then have "total_pending s = 0" by (simp add: total_pending_def cong: map_cong)
  then show ?thesis using assms(1) by (simp add: latch_live_def)
qed

lemma waiting_rank_0: "waiting_rank th = 0 \<Longrightarrow> ops th = [] \<and> waiting th = None"
  proof (cases "waiting th")
  case (Some pc)
  assume "waiting_rank th = 0"
  moreover have "0 < latch_pc_rank pc" by (cases pc) auto
  ultimately show ?thesis using Some by (simp add: waiting_rank_def)
qed (simp add: waiting_rank_def)

section \<open>Correctness\<close>

text \<open>
  C8: safety of the latch.  Any number of threads run any lists of calls whose updates are positive and
  sum up to at most the expected count.  Under every schedule no assertion fails, and in every state the
  counter is the expected count less the updates of the calls made so far; a thread that has returned
  from \<open>wait\<close>, or has got \<open>true\<close> from \<open>try_wait\<close>, has done so after calls that account for the whole
  expected count.
\<close>

theorem latch_safe:
  assumes "\<forall>ps \<in> set progs. \<forall>p \<in> set ps. valid_op p" "sum_list (map pending_update progs) \<le> expected"
    "expected \<le> ptrdiff_max" "schedule_of (length progs) sched"
  shows "\<exists>s. run latch_step sched (latch_begin expected progs) k = Some s \<and>
    counter s = expected - total_counted s \<and> (\<forall>th \<in> set (members s). passed th \<longrightarrow> total_counted s = expected)"
proof -
  obtain s where "run latch_step sched (latch_begin expected progs) k = Some s" "latch_inv expected (length progs) s"
    using latch.run_inv [OF latch_inv_begin [OF assms(1-3)] assms(4)] by blast
  then show ?thesis by (auto simp: latch_inv_def)
qed

theorem latch_safe_witness:
  "\<exists>s. run latch_step (\<lambda>i. i mod 2) (latch_begin 3 [[Count_Down 1, Try_Wait], [Arrive_And_Wait 2]]) 7 = Some s \<and>
    counter s = 3 - total_counted s \<and> (\<forall>th \<in> set (members s). passed th \<longrightarrow> total_counted s = 3)"
  by (rule latch_safe) (simp_all add: valid_op_def ptrdiff_max_def schedule_of_def flip: numeral_2_eq_2)

text \<open>
  C9: liveness of the latch.  When the updates of all calls sum up to exactly the expected count and no
  thread counts down after a call that blocks, every fair schedule reaches a state in which every
  thread has returned from all its calls.
\<close>

theorem latch_live_all:
  assumes "\<forall>ps \<in> set progs. (\<forall>p \<in> set ps. valid_op p) \<and> counts_first ps" "sum_list (map pending_update progs) = expected"
    "expected \<le> ptrdiff_max" "fair (length progs) sched"
  shows "\<exists>k s. run latch_step sched (latch_begin expected progs) k = Some s \<and> counter s = 0 \<and>
    (\<forall>th \<in> set (members s). ops th = [] \<and> waiting th = None)"
proof -
  let ?n = "length progs"
  have "latch_live expected ?n (latch_begin expected progs)"
    using latch_inv_begin [of progs expected] assms(1-3)
    by (auto simp: latch_live_def latch_begin_def total_pending_def latch_thread_ok_def comp_def)
  then obtain k s where s: "run latch_step sched (latch_begin expected progs) k = Some s" "latch_live expected ?n s"
    "\<forall>t < ?n. counting_rank (members s ! t) = 0"
    using latch_counting.eventually_all [OF _ assms(4)] by blast
  then have "latch_live expected ?n s \<and> counter s = 0" using latch_counting_complete by blast
  then obtain m r where r: "run latch_step (\<lambda>i. sched (k + i)) s m = Some r" "latch_live expected ?n r \<and> counter r = 0"
    "\<forall>t < ?n. waiting_rank (members r ! t) = 0"
    using latch_open.eventually_all [OF _ fair_shift [OF assms(4)]] by blast
  have "run latch_step sched (latch_begin expected progs) (k + m) = Some r" unfolding run_add s(1) using r(1) by simp
  moreover have "\<forall>th \<in> set (members r). ops th = [] \<and> waiting th = None"
    using r(2,3) waiting_rank_0 by (auto simp: latch_live_def latch_inv_def in_set_conv_nth)
  ultimately show ?thesis using r(2) by blast
qed

theorem latch_live_all_witness:
  "\<exists>k s. run latch_step (\<lambda>i. i mod 2) (latch_begin 3 [[Count_Down 1, Wait], [Try_Wait, Arrive_And_Wait 2]]) k = Some s \<and> counter s = 0 \<and>
    (\<forall>th \<in> set (members s). ops th = [] \<and> waiting th = None)"
  using fair_mod [of 2] by (intro latch_live_all) (simp_all add: valid_op_def ptrdiff_max_def numeral_2_eq_2)

end
