(* ===== verification/Barrier_Ops.thy ===== *)
theory Barrier_Ops
  imports Atomic_Wait
begin

unbundle bit_operations_syntax

text \<open>
  The barrier of \<^verbatim>\<open>std/__barrier/barrier.h\<close> without a completion function: phase, arrivals and expected
  count packed in one atomic word of 64 bits.  The operations on the word refine operations on three
  numbers; threads that call \<^verbatim>\<open>arrive_and_wait\<close> in rounds stay within one round of each other, and all
  finish under every fair schedule.  \<^verbatim>\<open>arrive_and_drop\<close> can leave the word without its reset.
\<close>

section \<open>Definitions\<close>

subsection \<open>Calls of the threads\<close>

text \<open>
  \<open>arrivals\<close> and \<open>returns\<close> count the arrivals a thread has made and the calls it has returned from; no step
  reads them.
\<close>

datatype barrier_op = Arrive int | Arrive_And_Wait | Arrive_And_Drop | Wait_Parity bool

record 'pc barrier_thread =
  calls :: "barrier_op list"
  place :: 'pc
  arrivals :: nat
  returns :: nat

definition call_return :: "'pc \<Rightarrow> 'pc barrier_thread \<Rightarrow> 'pc barrier_thread" where
  "call_return idle th = th\<lparr>calls := tl (calls th), place := idle, returns := returns th + 1\<rparr>"

subsection \<open>The packed barrier\<close>

definition expected_unit :: "64 word" where
  "expected_unit = 1"

definition arrived_unit :: "64 word" where
  "arrived_unit = push_bit 32 1"

definition expected_mask :: "64 word" where
  "expected_mask = arrived_unit - 1"

definition phase_bit :: "64 word" where
  "phase_bit = push_bit 63 1"

definition packed_init :: "int \<Rightarrow> 64 word option" where
  "packed_init count' =
     (if \<not> count' \<ge> 0 then None else Some (push_bit 32 (word_of_int (2 ^ 31 - count')) OR word_of_int (2 ^ 31 - count')))"

definition try_wait_phase :: "64 word \<Rightarrow> 64 word \<Rightarrow> bool" where
  "try_wait_phase current phase \<longleftrightarrow> current AND phase_bit \<noteq> phase"

definition packed_try_wait :: "64 word \<Rightarrow> 64 word \<Rightarrow> bool" where
  "packed_try_wait current old = try_wait_phase current (old AND phase_bit)"

definition packed_try_wait_parity :: "64 word \<Rightarrow> bool \<Rightarrow> bool" where
  "packed_try_wait_parity current parity' = try_wait_phase current (if parity' then phase_bit else 0)"

text \<open>The two atomic additions of \<^verbatim>\<open>arrive\<close>, the test between them, and its result.\<close>

definition arrive_inc :: "int \<Rightarrow> 64 word" where
  "arrive_inc update = arrived_unit * word_of_int update"

definition completes :: "64 word \<Rightarrow> 64 word \<Rightarrow> bool" where
  "completes old inc \<longleftrightarrow> (old XOR (old + inc)) AND phase_bit \<noteq> 0"

definition arrive_reset :: "64 word \<Rightarrow> 64 word" where
  "arrive_reset old = push_bit 32 (old AND expected_mask)"

definition arrive_token :: "64 word \<Rightarrow> 64 word" where
  "arrive_token old = old AND phase_bit"

text \<open>
  The places of a thread: between calls; in \<^verbatim>\<open>arrive_and_drop\<close> before its arrival; before the second
  addition of \<^verbatim>\<open>arrive\<close> (the flag says that a wait follows); and polling, in \<^verbatim>\<open>wait\<close> on a token or in
  \<^verbatim>\<open>wait_parity\<close>.
\<close>

datatype packed_pc = P_Idle | P_Drop | P_Reset "64 word" bool | P_Poll "64 word" nat | P_Parity bool nat

definition packed_arrive ::
    "64 word \<Rightarrow> int \<Rightarrow> bool \<Rightarrow> packed_pc barrier_thread \<Rightarrow> 64 word \<times> packed_pc barrier_thread" where
  "packed_arrive w update waits th =
     (let inc = arrive_inc update; old = w; w = old + inc; th = th\<lparr>arrivals := arrivals th + 1\<rparr> in
      (w, if completes old inc then th\<lparr>place := P_Reset old waits\<rparr>
          else if waits then th\<lparr>place := P_Poll (arrive_token old) 0\<rparr>
          else call_return P_Idle th))"

definition packed_thread_step ::
    "64 word \<Rightarrow> packed_pc barrier_thread \<Rightarrow> 64 word \<times> packed_pc barrier_thread" where
  "packed_thread_step w th =
     (case place th of
        P_Idle \<Rightarrow>
          (case calls th of
             [] \<Rightarrow> (w, th)
           | Arrive u # _ \<Rightarrow> packed_arrive w u False th
           | Arrive_And_Wait # _ \<Rightarrow> packed_arrive w 1 True th
           | Arrive_And_Drop # _ \<Rightarrow> (w + expected_unit, th\<lparr>place := P_Drop\<rparr>)
           | Wait_Parity b # _ \<Rightarrow> (w, th\<lparr>place := P_Parity b 0\<rparr>))
      | P_Drop \<Rightarrow> packed_arrive w 1 False th
      | P_Reset old waits \<Rightarrow>
          (w + arrive_reset old,
           if waits then th\<lparr>place := P_Poll (arrive_token old) 0\<rparr> else call_return P_Idle th)
      | P_Poll token c \<Rightarrow>
          (w, case poll_with_backoff_step (packed_try_wait w token) False c of
                Inl c' \<Rightarrow> th\<lparr>place := P_Poll token c'\<rparr> | Inr _ \<Rightarrow> call_return P_Idle th)
      | P_Parity b c \<Rightarrow>
          (w, case poll_with_backoff_step (packed_try_wait_parity w b) False c of
                Inl c' \<Rightarrow> th\<lparr>place := P_Parity b c'\<rparr> | Inr _ \<Rightarrow> call_return P_Idle th))"

text \<open>\<open>flips\<close> counts the changes of the phase bit; no step reads it.\<close>

record packed_system =
  phase_arrived_expected :: "64 word"
  flips :: nat
  packed_threads :: "packed_pc barrier_thread list"

definition packed_begin :: "int \<Rightarrow> barrier_op list list \<Rightarrow> packed_system option" where
  "packed_begin count' progs =
     map_option (\<lambda>w. \<lparr>phase_arrived_expected = w, flips = 0,
         packed_threads = map (\<lambda>p. \<lparr>calls = p, place = P_Idle, arrivals = 0, returns = 0\<rparr>) progs\<rparr>)
       (packed_init count')"

definition packed_step :: "tid \<Rightarrow> packed_system \<Rightarrow> packed_system option" where
  "packed_step t s =
     (let (w, th) = packed_thread_step (phase_arrived_expected s) (packed_threads s ! t) in
      Some \<lparr>phase_arrived_expected = w, flips = flips s + of_bool (completes (phase_arrived_expected s) (w - phase_arrived_expected s)),
        packed_threads = (packed_threads s)[t := th]\<rparr>)"

subsection \<open>The three numbers of the word\<close>

text \<open>
  \<open>nphase\<close> is the parity of the completed phases, \<open>narrived\<close> counts up to \<open>2 ^ 31\<close>, and \<open>nexpected\<close> is \<open>2 ^ 31\<close>
  less the expected count.
\<close>

record barrier_numbers =
  nphase :: bool
  narrived :: nat
  nexpected :: nat

definition numbers_ok :: "barrier_numbers \<Rightarrow> bool" where
  "numbers_ok b \<longleftrightarrow> narrived b < 2 ^ 31 \<and> nexpected b < 2 ^ 32"

definition pack :: "barrier_numbers \<Rightarrow> 64 word" where
  "pack b = of_nat (of_bool (nphase b) * 2 ^ 63 + narrived b * 2 ^ 32 + nexpected b)"

definition numbers_arrive :: "nat \<Rightarrow> barrier_numbers \<Rightarrow> barrier_numbers" where
  "numbers_arrive u b =
     (if narrived b + u < 2 ^ 31 then b\<lparr>narrived := narrived b + u\<rparr>
      else b\<lparr>nphase := \<not> nphase b, narrived := narrived b + u - 2 ^ 31\<rparr>)"

section \<open>Barriers that proceed by phases\<close>

text \<open>
  What a barrier promises to threads that arrive and wait in rounds: \<open>phases\<close> is the number of completed
  phases, \<open>arr\<close> the arrivals of a thread.  A thread that has not arrived in the current phase moves on
  until it does (\<open>wstage\<close>); once all have arrived, some thread completes the phase (\<open>cstage\<close>).
\<close>

locale phased_barrier = invariant_system step n inv
  for step :: "tid \<Rightarrow> 's \<Rightarrow> 's option" and n :: nat and inv :: "'s \<Rightarrow> bool" +
  fixes phases :: "'s \<Rightarrow> nat" and arr wstage cstage :: "tid \<Rightarrow> 's \<Rightarrow> nat" and rounds :: nat
  assumes arr_phase: "inv s \<Longrightarrow> t < n \<Longrightarrow> arr t s = phases s \<or> arr t s = Suc (phases s)"
    and arr_rounds: "inv s \<Longrightarrow> t < n \<Longrightarrow> arr t s \<le> rounds"
    and phase_mono: "inv s \<Longrightarrow> t < n \<Longrightarrow> step t s = Some s' \<Longrightarrow> phases s \<le> phases s'"
    and arr_mono: "inv s \<Longrightarrow> t < n \<Longrightarrow> u < n \<Longrightarrow> step u s = Some s' \<Longrightarrow> arr t s \<le> arr t s'"
    and wstage_other: "inv s \<Longrightarrow> t < n \<Longrightarrow> u < n \<Longrightarrow> u \<noteq> t \<Longrightarrow> step u s = Some s' \<Longrightarrow> wstage t s' \<le> wstage t s"
    and proceed: "inv s \<Longrightarrow> t < n \<Longrightarrow> arr t s = phases s \<Longrightarrow> step t s = Some s' \<Longrightarrow>
      arr t s < arr t s' \<or> wstage t s' < wstage t s \<or> wstage t s = 0 \<and> wstage t s' = 0 \<and> arr t s = rounds"
    and complete_le: "inv s \<Longrightarrow> \<forall>v < n. arr v s = Suc (phases s) \<Longrightarrow> t < n \<Longrightarrow> u < n \<Longrightarrow> step u s = Some s' \<Longrightarrow>
      phases s' = phases s \<Longrightarrow> cstage t s' \<le> cstage t s"
    and complete_less: "inv s \<Longrightarrow> \<forall>v < n. arr v s = Suc (phases s) \<Longrightarrow> t < n \<Longrightarrow> step t s = Some s' \<Longrightarrow>
      phases s' = phases s \<Longrightarrow> 0 < cstage t s \<Longrightarrow> cstage t s' < cstage t s"
    and complete_pos: "inv s \<Longrightarrow> \<forall>v < n. arr v s = Suc (phases s) \<Longrightarrow> \<exists>t < n. 0 < cstage t s"
begin

lemma arr_ge: "inv s \<Longrightarrow> t < n \<Longrightarrow> phases s \<le> arr t s"
  using arr_phase [of s t] by auto

lemma arrive_ranked:
  assumes "g < rounds"
  shows "ranked_system step n (\<lambda>s. inv s \<and> g \<le> phases s) (\<lambda>t s. if g < arr t s then 0 else Suc (wstage t s))"
proof
  show "\<exists>s'. step t s = Some s' \<and> inv s' \<and> g \<le> phases s'" if "inv s \<and> g \<le> phases s" "t < n" for s t
    using step_inv [of s t] phase_mono [of s t] that by fastforce
next
  fix s t u s'
  assume s: "inv s \<and> g \<le> phases s" "t < n" "u < n" "step u s = Some s'"
  have up: "arr t s \<le> arr t s'" using arr_mono [of s t u s'] s by blast
  show "(if g < arr t s' then 0 else Suc (wstage t s')) \<le> (if g < arr t s then 0 else Suc (wstage t s))"
  proof (cases "u = t")
    case True
    show ?thesis
    proof (cases "g < arr t s")
      case False
      then have "arr t s = phases s" "arr t s = g" using arr_ge [of s t] s by auto
      then show ?thesis using proceed [of s t s'] s True assms by auto
    qed (use up in simp)
  next
    case False
    then show ?thesis using wstage_other [of s t u s'] s up by auto
  qed
next
  fix s t s'
  assume s: "inv s \<and> g \<le> phases s" "t < n" "step t s = Some s'"
    and r: "0 < (if g < arr t s then 0 else Suc (wstage t s))"
  then have "arr t s = phases s" "arr t s = g" using arr_ge [of s t] by (auto split: if_splits)
  then show "(if g < arr t s' then 0 else Suc (wstage t s')) < (if g < arr t s then 0 else Suc (wstage t s))"
    using proceed [of s t s'] s assms by auto
qed

lemma complete_ranked:
  "ranked_system step n (\<lambda>s. inv s \<and> (\<forall>t < n. g < arr t s)) (\<lambda>t s. if g < phases s then 0 else cstage t s)"
proof
  show "\<exists>s'. step t s = Some s' \<and> inv s' \<and> (\<forall>t < n. g < arr t s')" if a: "inv s \<and> (\<forall>t < n. g < arr t s)" "t < n" for s t
  proof -
    obtain s' where s': "step t s = Some s'" "inv s'" using step_inv [of s t] a by blast
    have "g < arr u s'" if "u < n" for u using arr_mono [of s u t s'] a s'(1) that by (meson less_le_trans)
    then show ?thesis using s' by blast
  qed
next
  have all: "(\<forall>v < n. arr v s = Suc (phases s)) \<and> phases s = g" if "inv s" "\<forall>t < n. g < arr t s" "\<not> g < phases s" "t < n" for s t
  proof -
    have "arr v s = Suc (phases s) \<and> phases s = g" if "v < n" for v
      using arr_phase [of s v] \<open>inv s\<close> that \<open>\<forall>t < n. g < arr t s\<close> \<open>\<not> g < phases s\<close> by fastforce
    then show ?thesis using that(4) by blast
  qed
  {
    fix s t u s'
    assume s: "inv s \<and> (\<forall>t < n. g < arr t s)" "t < n" "u < n" "step u s = Some s'"
    have m: "phases s \<le> phases s'" using phase_mono [of s u s'] s by blast
    show "(if g < phases s' then 0 else cstage t s') \<le> (if g < phases s then 0 else cstage t s)"
    proof (cases "g < phases s'")
      case False
      then have l: "\<not> g < phases s" using m by simp
      have a: "(\<forall>v < n. arr v s = Suc (phases s)) \<and> phases s = g" by (rule all [OF _ _ l s(2)]) (use s(1) in blast)+
      have e: "phases s' = phases s" using conjunct2 [OF a] m False by simp
      have "cstage t s' \<le> cstage t s" by (rule complete_le [OF _ conjunct1 [OF a] s(2-4) e]) (use s(1) in blast)
      then show ?thesis using False l by simp
    qed simp
  }
  {
    fix s t s'
    assume s: "inv s \<and> (\<forall>t < n. g < arr t s)" "t < n" "step t s = Some s'"
      and r: "0 < (if g < phases s then 0 else cstage t s)"
    have m: "phases s \<le> phases s'" using phase_mono [of s t s'] s by blast
    have l: "\<not> g < phases s" "0 < cstage t s" using r by (auto split: if_splits)
    show "(if g < phases s' then 0 else cstage t s') < (if g < phases s then 0 else cstage t s)"
    proof (cases "g < phases s'")
      case False
      have a: "(\<forall>v < n. arr v s = Suc (phases s)) \<and> phases s = g" by (rule all [OF _ _ l(1) s(2)]) (use s(1) in blast)+
      have e: "phases s' = phases s" using conjunct2 [OF a] m False by simp
      have "cstage t s' < cstage t s" by (rule complete_less [OF _ conjunct1 [OF a] s(2,3) e l(2)]) (use s(1) in blast)
      then show ?thesis using False l by simp
    qed (use l in simp)
  }
qed

lemma finish_ranked: "ranked_system step n (\<lambda>s. inv s \<and> rounds \<le> phases s) (\<lambda>t s. wstage t s)"
proof
  show "\<exists>s'. step t s = Some s' \<and> inv s' \<and> rounds \<le> phases s'" if "inv s \<and> rounds \<le> phases s" "t < n" for s t
    using step_inv [of s t] phase_mono [of s t] that by fastforce
next
  have last_round: "arr t s = phases s" "arr t s = rounds" if "inv s \<and> rounds \<le> phases s" "t < n" for s t
    using arr_ge [of s t] arr_rounds [of s t] that by auto
  {
    fix s t s'
    assume s: "inv s \<and> rounds \<le> phases s" "t < n" "step t s = Some s'"
    obtain s'' where "step t s = Some s''" "inv s''" using step_inv [of s t] s by blast
    then have "inv s'" using s(3) by simp
    then have "\<not> arr t s < arr t s'" using arr_rounds [of s' t] last_round [of s t] s by simp
    then have "wstage t s' < wstage t s \<or> wstage t s = 0 \<and> wstage t s' = 0" using proceed [of s t s'] last_round [of s t] s by blast
  } note own = this
  show "wstage t s' \<le> wstage t s" if "inv s \<and> rounds \<le> phases s" "t < n" "u < n" "step u s = Some s'" for s t u s'
    using own [of s t s'] wstage_other [of s t u s'] that by (cases "u = t") auto
  show "wstage t s' < wstage t s" if "inv s \<and> rounds \<le> phases s" "t < n" "step t s = Some s'" "0 < wstage t s" for s t s'
    using own [of s t s'] that by auto
qed

lemma eventually_phase:
  assumes "inv s" "fair n sched" "0 < n" "g \<le> rounds"
  shows "\<exists>k s'. run step sched s k = Some s' \<and> inv s' \<and> g \<le> phases s'"
  using assms(4)
proof (induction g)
  case 0
  have "run step sched s 0 = Some s \<and> inv s \<and> 0 \<le> phases s" using assms(1) by simp
  then show ?case by blast
next
  case (Suc g)
  then obtain k p where p: "run step sched s k = Some p" "inv p \<and> g \<le> phases p" by auto
  have "g < rounds" using Suc.prems by simp
  obtain l q where q: "run step (\<lambda>i. sched (k + i)) p l = Some q" "inv q \<and> g \<le> phases q"
    "\<forall>t < n. (if g < arr t q then 0 else Suc (wstage t q)) = 0"
    using ranked_system.eventually_all [OF arrive_ranked [OF \<open>g < rounds\<close>] p(2) fair_shift [OF assms(2)]] by blast
  have "inv q \<and> (\<forall>t < n. g < arr t q)" using q(2,3) by (auto split: if_splits)
  then obtain m x where x: "run step (\<lambda>i. sched (k + (l + i))) q m = Some x" "inv x \<and> (\<forall>t < n. g < arr t x)"
    "\<forall>t < n. (if g < phases x then 0 else cstage t x) = 0"
    using ranked_system.eventually_all [OF complete_ranked _ fair_shift [OF fair_shift [OF assms(2)]]] by blast
  have "g < phases x"
  proof (rule ccontr)
    assume less: "\<not> g < phases x"
    have "arr v x = Suc (phases x)" if "v < n" for v using arr_phase [of x v] x(2) that less by fastforce
    then obtain t where "t < n" "0 < cstage t x" using complete_pos [of x] x(2) by blast
    then show False using x(3) less by auto
  qed
  moreover have "run step sched s (k + (l + m)) = Some x" unfolding run_add p(1) using q(1) x(1) by (simp add: run_add)
  ultimately show ?case using x(2) by (auto intro!: exI [of _ "k + (l + m)"])
qed

lemma eventually_finished:
  assumes "inv s" "fair n sched" "0 < n"
  shows "\<exists>k s'. run step sched s k = Some s' \<and> inv s' \<and> phases s' = rounds \<and> (\<forall>t < n. wstage t s' = 0)"
proof -
  obtain k p where p: "run step sched s k = Some p" "inv p \<and> rounds \<le> phases p"
    using eventually_phase [OF assms order_refl] by blast
  obtain l q where q: "run step (\<lambda>i. sched (k + i)) p l = Some q" "inv q \<and> rounds \<le> phases q" "\<forall>t < n. wstage t q = 0"
    using ranked_system.eventually_all [OF finish_ranked p(2) fair_shift [OF assms(2)]] by blast
  have "phases q = rounds" using arr_ge [of q 0] arr_rounds [of q 0] q(2) assms(3) by simp
  moreover have "run step sched s (k + l) = Some q" unfolding run_add p(1) using q(1) by simp
  ultimately show ?thesis using q by blast
qed

end

section \<open>The packed word refines the three numbers\<close>

lemma unat_pack: "numbers_ok b \<Longrightarrow> unat (pack b) = of_bool (nphase b) * 2 ^ 63 + narrived b * 2 ^ 32 + nexpected b"
proof -
  assume "numbers_ok b"
  then have "of_bool (nphase b) * 2 ^ 63 + narrived b * 2 ^ 32 + nexpected b < (2 ^ 64 :: nat)" by (simp add: numbers_ok_def)
  then show ?thesis unfolding pack_def unsigned_of_nat by (simp add: take_bit_nat_eq_self del: of_nat_add of_nat_mult)
qed

lemma bit_phase_bit: "bit phase_bit n \<longleftrightarrow> n = 63"
  unfolding phase_bit_def by (simp only: bit_push_bit_iff bit_1_iff possible_bit_word) auto

lemma and_phase_bit: "w AND phase_bit = (if bit w 63 then phase_bit else 0)"
  by (rule bit_word_eqI) (auto simp: bit_and_iff bit_phase_bit)

lemma bit_63_pack: "numbers_ok b \<Longrightarrow> bit (pack b) 63 = nphase b"
proof -
  assume b: "numbers_ok b"
  have "narrived b * 2 ^ 32 + nexpected b < 2 ^ 63" using b by (simp add: numbers_ok_def)
  then have "unat (pack b) div 2 ^ 63 = of_bool (nphase b)" by (simp add: unat_pack [OF b])
  then show ?thesis using bit_unsigned_iff [of "pack b" 63, where 'a = nat] by (simp add: bit_iff_odd)
qed

lemma pack_phase: "numbers_ok b \<Longrightarrow> pack b AND phase_bit = (if nphase b then phase_bit else 0)"
  by (simp add: and_phase_bit bit_63_pack)

lemma pack_expected: "numbers_ok b \<Longrightarrow> pack b AND expected_mask = of_nat (nexpected b)"
proof -
  assume b: "numbers_ok b"
  have "expected_mask = mask 32" by (simp add: expected_mask_def arrived_unit_def mask_eq_exp_minus_1 push_bit_eq_mult)
  then have "pack b AND expected_mask = take_bit 32 (pack b)" by (simp add: take_bit_eq_mask)
  also have "unat \<dots> = unat (pack b) mod 2 ^ 32" unfolding unsigned_take_bit_eq by (rule take_bit_eq_mod)
  also have "\<dots> = nexpected b"
  proof -
    have eq: "(of_bool (nphase b) * 2 ^ 63 + narrived b * 2 ^ 32 + nexpected b :: nat) = nexpected b + (of_bool (nphase b) * 2 ^ 31 + narrived b) * 2 ^ 32"
      by simp
    show ?thesis unfolding unat_pack [OF b] eq mod_mult_self1 using b by (simp add: numbers_ok_def)
  qed
  finally have "(of_nat (unat (pack b AND expected_mask)) :: 64 word) = of_nat (nexpected b)" by simp
  then show ?thesis by simp
qed

lemma pack_eqI: "numbers_ok b \<Longrightarrow> unat w = of_bool (nphase b) * 2 ^ 63 + narrived b * 2 ^ 32 + nexpected b \<Longrightarrow> w = pack b"
  using unat_pack [of b] by (simp add: word_unat_eq_iff)

lemma numbers_arrive_ok: "numbers_ok b \<Longrightarrow> u \<le> 2 ^ 31 \<Longrightarrow> numbers_ok (numbers_arrive u b)"
  by (auto simp: numbers_ok_def numbers_arrive_def)

text \<open>Adding \<open>u\<close> arrivals to the word: the carry out of the arrivals flips the phase bit.\<close>

lemma pack_arrive:
  assumes "numbers_ok b" "u \<le> 2 ^ 31"
  shows "pack b + of_nat (u * 2 ^ 32) = pack (numbers_arrive u b)"
proof -
  have "pack b + of_nat (u * 2 ^ 32) = of_nat (of_bool (nphase b) * 2 ^ 63 + (narrived b + u) * 2 ^ 32 + nexpected b)"
    by (simp add: pack_def algebra_simps)
  also have "\<dots> = pack (numbers_arrive u b)"
  proof (cases "narrived b + u < 2 ^ 31")
    case True
    then show ?thesis by (simp add: numbers_arrive_def pack_def)
  next
    case False
    then have "(narrived b + u) * 2 ^ 32 = 2 ^ 63 + (narrived b + u - 2 ^ 31) * 2 ^ 32" by simp
    moreover have "of_nat (2 ^ 63 + 2 ^ 63) = (0 :: 64 word)" by simp
    ultimately show ?thesis using False by (simp add: numbers_arrive_def pack_def)
  qed
  finally show ?thesis .
qed

lemma arrive_inc_nat: "arrive_inc (int u) = of_nat (u * 2 ^ 32)"
  by (simp add: arrive_inc_def arrived_unit_def push_bit_eq_mult)

lemma pack_completes:
  assumes "numbers_ok b" "u \<le> 2 ^ 31"
  shows "completes (pack b) (arrive_inc (int u)) \<longleftrightarrow> 2 ^ 31 \<le> narrived b + u"
proof -
  have "completes (pack b) (arrive_inc (int u)) \<longleftrightarrow> bit (pack b) 63 \<noteq> bit (pack (numbers_arrive u b)) 63"
    unfolding completes_def arrive_inc_nat pack_arrive [OF assms] and_phase_bit
    using bit_phase_bit [of 63] by (auto simp: bit_xor_iff)
  also have "\<dots> \<longleftrightarrow> 2 ^ 31 \<le> narrived b + u"
    using bit_63_pack [OF assms(1)] bit_63_pack [OF numbers_arrive_ok [OF assms]] by (auto simp: numbers_arrive_def)
  finally show ?thesis .
qed

lemma pack_reset:
  assumes "numbers_ok b"
  shows "arrive_reset (pack b) = of_nat (nexpected b * 2 ^ 32)"
  unfolding arrive_reset_def pack_expected [OF assms] by (simp add: push_bit_eq_mult)

lemma push_bit_and_take_bit_0: "push_bit n v AND take_bit n u = (0 :: 'a::len word)"
  by (rule bit_word_eqI) (auto simp: bit_simps)

lemma packed_init_pack:
  assumes "0 < c" "c \<le> 2 ^ 31"
  shows "packed_init (int c) = Some (pack \<lparr>nphase = False, narrived = 2 ^ 31 - c, nexpected = 2 ^ 31 - c\<rparr>)"
proof -
  let ?e = "2 ^ 31 - c"
  have e: "word_of_int (2 ^ 31 - int c) = (of_nat ?e :: 64 word)" using assms by (simp add: of_nat_diff)
  have "unat (of_nat ?e :: 64 word) < 2 ^ 32" using assms unsigned_of_nat [of ?e, where 'a = nat and 'b = 64] by (simp add: take_bit_nat_eq_self)
  then have "take_bit 32 (of_nat ?e :: 64 word) = of_nat ?e" by (simp add: word_unat_eq_iff unsigned_take_bit_eq take_bit_nat_eq_self)
  then have "push_bit 32 (of_nat ?e) AND (of_nat ?e :: 64 word) = 0" by (metis push_bit_and_take_bit_0)
  then have "push_bit 32 (of_nat ?e :: 64 word) OR of_nat ?e = push_bit 32 (of_nat ?e) + of_nat ?e"
    by (simp add: disjunctive_add_eq_or)
  then show ?thesis unfolding packed_init_def e by (simp add: pack_def push_bit_eq_mult)
qed

section \<open>Rounds of \<^verbatim>\<open>arrive_and_wait\<close>\<close>

definition token :: "bool \<Rightarrow> 64 word" where
  "token p = (if p then phase_bit else 0)"

text \<open>Where a thread is when \<open>g\<close> phases of \<open>n\<close> threads that run \<open>r\<close> rounds are complete.\<close>

definition round_calls :: "nat \<Rightarrow> 'pc barrier_thread \<Rightarrow> bool" where
  "round_calls r th \<longleftrightarrow> returns th \<le> r \<and> calls th = replicate (r - returns th) Arrive_And_Wait"

definition packed_thread_at :: "nat \<Rightarrow> nat \<Rightarrow> nat \<Rightarrow> packed_pc barrier_thread \<Rightarrow> bool" where
  "packed_thread_at n r g th \<longleftrightarrow> round_calls r th \<and>
     (case place th of
        P_Idle \<Rightarrow> arrivals th = g \<and> returns th = g
      | P_Poll tok c \<Rightarrow> returns th < r \<and> arrivals th = returns th + 1 \<and>
          (arrivals th = g + 1 \<and> tok = token (odd g) \<or> arrivals th = g \<and> tok = token (even g))
      | P_Reset old waits \<Rightarrow> returns th < r \<and> arrivals th = returns th + 1 \<and> waits \<and> arrivals th = g \<and>
          arrive_reset old = of_nat ((2 ^ 31 - n) * 2 ^ 32) \<and> arrive_token old = token (even g)
      | _ \<Rightarrow> False)"

definition is_reset :: "packed_pc barrier_thread \<Rightarrow> bool" where
  "is_reset th \<longleftrightarrow> (case place th of P_Reset _ _ \<Rightarrow> True | _ \<Rightarrow> False)"

definition arrived_count :: "packed_system \<Rightarrow> nat" where
  "arrived_count s = length (filter (\<lambda>th. arrivals th = Suc (flips s)) (packed_threads s))"

definition reset_count :: "packed_system \<Rightarrow> nat" where
  "reset_count s = length (filter is_reset (packed_threads s))"

definition packed_numbers :: "nat \<Rightarrow> packed_system \<Rightarrow> barrier_numbers" where
  "packed_numbers n s =
     \<lparr>nphase = odd (flips s), narrived = arrived_count s + (if reset_count s = 0 then 2 ^ 31 - n else 0), nexpected = 2 ^ 31 - n\<rparr>"

definition packed_inv :: "nat \<Rightarrow> nat \<Rightarrow> packed_system \<Rightarrow> bool" where
  "packed_inv n r s \<longleftrightarrow> length (packed_threads s) = n \<and> 0 < n \<and> n \<le> 2 ^ 31 \<and>
     (\<forall>th \<in> set (packed_threads s). packed_thread_at n r (flips s) th) \<and>
     phase_arrived_expected s = pack (packed_numbers n s) \<and> arrived_count s < n \<and> reset_count s \<le> 1"

lemma packed_numbers_ok: "packed_inv n r s \<Longrightarrow> numbers_ok (packed_numbers n s)"
  by (auto simp: packed_inv_def packed_numbers_def numbers_ok_def)

lemma packed_flips: "w' = w + inc \<Longrightarrow> completes w (w' - w) = completes w inc"
  by simp

lemma completes_0: "\<not> completes w 0"
  by (simp add: completes_def)

lemma arrive_token_pack: "numbers_ok b \<Longrightarrow> arrive_token (pack b) = token (nphase b)"
  by (simp add: arrive_token_def pack_phase token_def)

lemma packed_try_wait_pack: "numbers_ok b \<Longrightarrow> packed_try_wait (pack b) (token p) \<longleftrightarrow> nphase b \<noteq> p"
  using bit_phase_bit [of 63] by (auto simp: packed_try_wait_def try_wait_phase_def and_phase_bit bit_63_pack token_def)

lemma packed_inv_update:
  assumes inv: "packed_inv n r s" "t < n" and th: "packed_thread_at n r (flips s) th'"
    and a: "a' + of_bool (arrivals (packed_threads s ! t) = Suc (flips s)) = arrived_count s + of_bool (arrivals th' = Suc (flips s))" "a' < n"
    and c: "c' + of_bool (is_reset (packed_threads s ! t)) = reset_count s + of_bool (is_reset th')" "c' \<le> 1"
    and w: "w' = pack \<lparr>nphase = odd (flips s), narrived = a' + (if c' = 0 then 2 ^ 31 - n else 0), nexpected = 2 ^ 31 - n\<rparr>"
  shows "packed_inv n r \<lparr>phase_arrived_expected = w', flips = flips s, packed_threads = (packed_threads s)[t := th']\<rparr>"
proof -
  let ?s = "\<lparr>phase_arrived_expected = w', flips = flips s, packed_threads = (packed_threads s)[t := th']\<rparr>"
  have t: "t < length (packed_threads s)" using inv by (simp add: packed_inv_def)
  have "arrived_count ?s = a'"
    using count_update [OF t, of "\<lambda>th. arrivals th = Suc (flips s)" th'] a(1) by (simp add: arrived_count_def)
  moreover have "reset_count ?s = c'"
    using count_update [OF t, of is_reset th'] c(1) by (simp add: reset_count_def)
  moreover have "\<forall>th \<in> set (packed_threads ?s). packed_thread_at n r (flips ?s) th"
    using inv(1) th by (auto simp: packed_inv_def dest: set_updateD)
  ultimately show ?thesis using inv(1) a(2) c(2) w by (simp add: packed_inv_def packed_numbers_def)
qed

lemma round_calls_update [simp]: "round_calls r (th\<lparr>place := pc\<rparr>) = round_calls r th"
  "round_calls r (th\<lparr>arrivals := a\<rparr>) = round_calls r th"
  by (simp_all add: round_calls_def)

lemma round_calls_Cons: "round_calls r th \<Longrightarrow> returns th < r \<Longrightarrow> \<exists>ps. calls th = Arrive_And_Wait # ps"
  by (cases "r - returns th") (auto simp: round_calls_def)

lemma round_calls_Nil: "round_calls r th \<Longrightarrow> calls th = [] \<longleftrightarrow> returns th = r"
  by (auto simp: round_calls_def)

lemma round_calls_return: "round_calls r th \<Longrightarrow> returns th < r \<Longrightarrow> round_calls r (call_return pc th)"
  by (cases "r - returns th") (auto simp: round_calls_def call_return_def Suc_diff_Suc)

lemma packed_invD:
  assumes "packed_inv n r s" "t < n"
  shows "t < length (packed_threads s)" "packed_thread_at n r (flips s) (packed_threads s ! t)"
    "round_calls r (packed_threads s ! t)" "0 < n" "n \<le> 2 ^ 31"
    "phase_arrived_expected s = pack (packed_numbers n s)" "numbers_ok (packed_numbers n s)"
    "arrived_count s < n" "reset_count s \<le> 1"
proof -
  show "t < length (packed_threads s)" using assms by (simp add: packed_inv_def)
  then show "packed_thread_at n r (flips s) (packed_threads s ! t)" using assms by (simp add: packed_inv_def)
  then show "round_calls r (packed_threads s ! t)" by (simp add: packed_thread_at_def)
  show "numbers_ok (packed_numbers n s)" by (rule packed_numbers_ok [OF assms(1)])
qed (use assms in \<open>simp_all add: packed_inv_def\<close>)

lemma packed_step_eq:
  "packed_thread_step (phase_arrived_expected s) (packed_threads s ! t) = (w, th) \<Longrightarrow>
   packed_step t s = Some \<lparr>phase_arrived_expected = w, flips = flips s + of_bool (completes (phase_arrived_expected s) (w - phase_arrived_expected s)),
     packed_threads = (packed_threads s)[t := th]\<rparr>"
  by (simp add: packed_step_def)

text \<open>While a reset is pending, its thread has not arrived again: the current phase cannot be complete.\<close>

lemma packed_reset_pending:
  assumes "packed_inv n r s" "t < n" "place (packed_threads s ! t) = P_Idle" "reset_count s \<noteq> 0"
  shows "Suc (arrived_count s) < n"
proof -
  let ?P = "\<lambda>th. arrivals th = Suc (flips s)"
  note inv = packed_invD [OF assms(1,2)]
  obtain th where th: "th \<in> set (packed_threads s)" "is_reset th" using assms(4) by (auto simp: reset_count_def filter_empty_conv)
  then obtain k where k: "k < length (packed_threads s)" "th = packed_threads s ! k" by (auto simp: in_set_conv_nth)
  let ?ths = "(packed_threads s)[t := (packed_threads s ! t)\<lparr>arrivals := Suc (flips s)\<rparr>]"
  have "k \<noteq> t" using th k assms(3) by (auto simp: is_reset_def)
  then have "th = ?ths ! k" "k < length ?ths" using k by auto
  then have "th \<in> set ?ths" by (metis nth_mem)
  moreover have "arrivals th = flips s"
    using th assms(1) by (auto simp: packed_inv_def packed_thread_at_def is_reset_def split: packed_pc.splits)
  ultimately have "length (filter ?P ?ths) \<noteq> length ?ths" unfolding count_full by (metis n_not_Suc_n)
  moreover have "length (filter ?P ?ths) = Suc (arrived_count s)"
    using count_update [OF inv(1), of ?P] inv(2) assms(3) by (simp add: arrived_count_def packed_thread_at_def)
  ultimately show ?thesis using inv(8) assms(1) by (simp add: packed_inv_def)
qed

lemma packed_arrive_facts:
  assumes "packed_inv n r s" "t < n" "place (packed_threads s ! t) = P_Idle"
  shows "phase_arrived_expected s + arrive_inc 1 = pack (numbers_arrive 1 (packed_numbers n s))"
    and "completes (phase_arrived_expected s) (arrive_inc 1) \<longleftrightarrow> Suc (arrived_count s) = n"
    and "arrive_token (phase_arrived_expected s) = token (odd (flips s))"
    and "Suc (arrived_count s) = n \<Longrightarrow> reset_count s = 0"
proof -
  note inv = packed_invD [OF assms(1,2)]
  show "phase_arrived_expected s + arrive_inc 1 = pack (numbers_arrive 1 (packed_numbers n s))"
    using pack_arrive [OF inv(7), of 1] arrive_inc_nat [of 1] inv(6) by simp
  have "completes (phase_arrived_expected s) (arrive_inc 1) \<longleftrightarrow> 2 ^ 31 \<le> narrived (packed_numbers n s) + 1"
    using pack_completes [OF inv(7), of 1] inv(6) by simp
  also have "\<dots> \<longleftrightarrow> Suc (arrived_count s) = n"
    using packed_reset_pending [OF assms] inv(5,8) by (auto simp: packed_numbers_def)
  finally show "completes (phase_arrived_expected s) (arrive_inc 1) \<longleftrightarrow> Suc (arrived_count s) = n" .
  show "arrive_token (phase_arrived_expected s) = token (odd (flips s))"
    using arrive_token_pack [OF inv(7)] inv(6) by (simp add: packed_numbers_def)
  show "Suc (arrived_count s) = n \<Longrightarrow> reset_count s = 0" using packed_reset_pending [OF assms] by (cases "reset_count s = 0") auto
qed

lemma packed_step_early:
  assumes "packed_inv n r s" "t < n" "place (packed_threads s ! t) = P_Idle" "returns (packed_threads s ! t) < r"
    "Suc (arrived_count s) \<noteq> n"
  defines "th' \<equiv> (packed_threads s ! t)\<lparr>arrivals := Suc (flips s), place := P_Poll (token (odd (flips s))) 0\<rparr>"
  shows "\<exists>w. packed_step t s = Some \<lparr>phase_arrived_expected = w, flips = flips s, packed_threads = (packed_threads s)[t := th']\<rparr> \<and>
    packed_inv n r \<lparr>phase_arrived_expected = w, flips = flips s, packed_threads = (packed_threads s)[t := th']\<rparr>"
proof -
  let ?th = "packed_threads s ! t" and ?g = "flips s" and ?w = "phase_arrived_expected s"
  note inv = packed_invD [OF assms(1,2)] and arr = packed_arrive_facts [OF assms(1-3)]
  have idle: "arrivals ?th = ?g" "returns ?th = ?g" "\<not> is_reset ?th" using inv(2) assms(3) by (auto simp: packed_thread_at_def is_reset_def)
  obtain ps where ps: "calls ?th = Arrive_And_Wait # ps" using round_calls_Cons [OF inv(3) assms(4)] by blast
  have nc: "\<not> completes ?w (arrive_inc 1)" using arr(2) assms(5) by simp
  have "packed_thread_step ?w ?th = (?w + arrive_inc 1, th')"
    using assms(3) ps nc arr(3) idle by (simp add: packed_thread_step_def packed_arrive_def Let_def th'_def)
  from packed_step_eq [OF this] nc have st: "packed_step t s = Some \<lparr>phase_arrived_expected = ?w + arrive_inc 1, flips = ?g, packed_threads = (packed_threads s)[t := th']\<rparr>"
    by simp
  have "packed_inv n r \<lparr>phase_arrived_expected = ?w + arrive_inc 1, flips = ?g, packed_threads = (packed_threads s)[t := th']\<rparr>"
  proof (rule packed_inv_update [OF assms(1,2)])
    show "packed_thread_at n r ?g th'" using inv(3) assms(4) idle by (auto simp: packed_thread_at_def round_calls_def th'_def)
    show "Suc (arrived_count s) + of_bool (arrivals ?th = Suc ?g) = arrived_count s + of_bool (arrivals th' = Suc ?g)" using idle by (simp add: th'_def)
    show "reset_count s + of_bool (is_reset ?th) = reset_count s + of_bool (is_reset th')" using idle by (simp add: is_reset_def th'_def)
    have "narrived (packed_numbers n s) + 1 < 2 ^ 31" using inv(5,8) assms(5) by (auto simp: packed_numbers_def)
    then show "?w + arrive_inc 1 = pack \<lparr>nphase = odd ?g, narrived = Suc (arrived_count s) + (if reset_count s = 0 then 2 ^ 31 - n else 0), nexpected = 2 ^ 31 - n\<rparr>"
      unfolding arr(1) by (simp add: numbers_arrive_def packed_numbers_def)
  qed (use inv(8,9) assms(5) in auto)
  then show ?thesis using st by blast
qed

lemma packed_step_last:
  assumes "packed_inv n r s" "t < n" "place (packed_threads s ! t) = P_Idle" "returns (packed_threads s ! t) < r"
    "Suc (arrived_count s) = n"
  defines "th' \<equiv> (packed_threads s ! t)\<lparr>arrivals := Suc (flips s), place := P_Reset (phase_arrived_expected s) True\<rparr>"
  shows "\<exists>w. packed_step t s = Some \<lparr>phase_arrived_expected = w, flips = Suc (flips s), packed_threads = (packed_threads s)[t := th']\<rparr> \<and>
    packed_inv n r \<lparr>phase_arrived_expected = w, flips = Suc (flips s), packed_threads = (packed_threads s)[t := th']\<rparr>"
proof -
  let ?th = "packed_threads s ! t" and ?g = "flips s" and ?w = "phase_arrived_expected s"
  note inv = packed_invD [OF assms(1,2)] and arr = packed_arrive_facts [OF assms(1-3)]
  have idle: "arrivals ?th = ?g" "returns ?th = ?g" "\<not> is_reset ?th" using inv(2) assms(3) by (auto simp: packed_thread_at_def is_reset_def)
  obtain ps where ps: "calls ?th = Arrive_And_Wait # ps" using round_calls_Cons [OF inv(3) assms(4)] by blast
  have c: "completes ?w (arrive_inc 1)" using arr(2) assms(5) by simp
  have "packed_thread_step ?w ?th = (?w + arrive_inc 1, th')"
    using assms(3) ps c idle by (simp add: packed_thread_step_def packed_arrive_def Let_def th'_def)
  from packed_step_eq [OF this] c have st: "packed_step t s = Some \<lparr>phase_arrived_expected = ?w + arrive_inc 1, flips = Suc ?g, packed_threads = (packed_threads s)[t := th']\<rparr>"
    by simp
  let ?ths = "(packed_threads s)[t := th']" let ?s = "\<lparr>phase_arrived_expected = ?w + arrive_inc 1, flips = Suc ?g, packed_threads = ?ths\<rparr>"
  have "length (filter (\<lambda>th. arrivals th = Suc ?g) ?ths) = length ?ths"
    using count_update [OF inv(1), of "\<lambda>th. arrivals th = Suc ?g" th'] idle assms(5,1) by (simp add: arrived_count_def packed_inv_def th'_def)
  then have all: "\<forall>th \<in> set ?ths. arrivals th = Suc ?g" unfolding count_full .
  have a0: "arrived_count ?s = 0" using all by (auto simp: arrived_count_def filter_empty_conv)
  have r1: "reset_count ?s = 1"
    using count_update [OF inv(1), of is_reset th'] arr(4) [OF assms(5)] idle by (simp add: reset_count_def is_reset_def th'_def)
  have b: "narrived (packed_numbers n s) = 2 ^ 31 - 1" using arr(4) [OF assms(5)] assms(5) inv(5) by (simp add: packed_numbers_def)
  have "packed_thread_at n r (Suc ?g) th" if "th \<in> set ?ths" for th
  proof (cases "th = th'")
    case True
    have "arrive_reset ?w = of_nat ((2 ^ 31 - n) * 2 ^ 32)" using pack_reset [OF inv(7)] inv(6) by (simp add: packed_numbers_def)
    then show ?thesis using True inv(3) assms(4) idle arr(3) by (simp add: packed_thread_at_def round_calls_def th'_def)
  next
    case False
    then have "packed_thread_at n r ?g th" using that set_updateD [of th "packed_threads s" t th'] assms(1) by (auto simp: packed_inv_def)
    then show ?thesis using all that by (auto simp: packed_thread_at_def split: packed_pc.splits)
  qed
  moreover have "packed_numbers n ?s = numbers_arrive 1 (packed_numbers n s)"
    using b unfolding packed_numbers_def a0 r1 numbers_arrive_def by simp
  then have "?w + arrive_inc 1 = pack (packed_numbers n ?s)" using arr(1) by simp
  ultimately have "packed_inv n r ?s" using assms(1) a0 r1 by (simp add: packed_inv_def)
  then show ?thesis using st by blast
qed

lemma packed_step_reset:
  assumes "packed_inv n r s" "t < n" "place (packed_threads s ! t) = P_Reset old waits"
  defines "th' \<equiv> (packed_threads s ! t)\<lparr>place := P_Poll (arrive_token old) 0\<rparr>"
  shows "\<exists>w. packed_step t s = Some \<lparr>phase_arrived_expected = w, flips = flips s, packed_threads = (packed_threads s)[t := th']\<rparr> \<and>
    packed_inv n r \<lparr>phase_arrived_expected = w, flips = flips s, packed_threads = (packed_threads s)[t := th']\<rparr>"
proof -
  let ?th = "packed_threads s ! t" and ?g = "flips s" and ?w = "phase_arrived_expected s" and ?e = "2 ^ 31 - n :: nat"
  note inv = packed_invD [OF assms(1,2)]
  have th: "waits" "arrivals ?th = ?g" "arrive_reset old = of_nat (?e * 2 ^ 32)" "arrive_token old = token (even ?g)"
    "returns ?th < r" "arrivals ?th = returns ?th + 1"
    using inv(2) assms(3) by (simp_all add: packed_thread_at_def)
  have r: "is_reset ?th" "\<not> is_reset th'" using assms(3) by (simp_all add: is_reset_def th'_def)
  have "?th \<in> set (filter is_reset (packed_threads s))" using r(1) inv(1) by simp
  then have r1: "reset_count s = 1" using inv(9) by (cases "filter is_reset (packed_threads s)") (auto simp: reset_count_def)
  have b: "packed_numbers n s = \<lparr>nphase = odd ?g, narrived = arrived_count s, nexpected = ?e\<rparr>" using r1 by (simp add: packed_numbers_def)
  have w': "?w + arrive_reset old = pack (numbers_arrive ?e (packed_numbers n s))"
    using pack_arrive [OF inv(7), of ?e] inv(6) th(3) by simp
  have lt: "arrived_count s + ?e < 2 ^ 31" using inv(5,8) by simp
  have "\<not> completes ?w (arrive_reset old)"
    using pack_completes [OF inv(7), of ?e] inv(6) th(3) lt b arrive_inc_nat [of ?e] by simp
  moreover have "packed_thread_step ?w ?th = (?w + arrive_reset old, th')"
    using assms(3) th(1) by (simp add: packed_thread_step_def th'_def)
  ultimately have st: "packed_step t s = Some \<lparr>phase_arrived_expected = ?w + arrive_reset old, flips = ?g, packed_threads = (packed_threads s)[t := th']\<rparr>"
    using packed_step_eq by simp
  have "packed_inv n r \<lparr>phase_arrived_expected = ?w + arrive_reset old, flips = ?g, packed_threads = (packed_threads s)[t := th']\<rparr>"
  proof (rule packed_inv_update [OF assms(1,2)])
    show "packed_thread_at n r ?g th'" using inv(3) th by (auto simp: packed_thread_at_def round_calls_def th'_def)
    show "arrived_count s + of_bool (arrivals ?th = Suc ?g) = arrived_count s + of_bool (arrivals th' = Suc ?g)" by (simp add: th'_def)
    show "0 + of_bool (is_reset ?th) = reset_count s + of_bool (is_reset th')" using r r1 by simp
    show "?w + arrive_reset old = pack \<lparr>nphase = odd ?g, narrived = arrived_count s + (if (0::nat) = 0 then ?e else 0), nexpected = ?e\<rparr>"
      unfolding w' b numbers_arrive_def using lt by simp
  qed (use inv(8) in auto)
  then show ?thesis using st by blast
qed

lemma packed_step_poll:
  assumes "packed_inv n r s" "t < n" "place (packed_threads s ! t) = P_Poll tok c"
  shows "\<exists>th'. packed_step t s = Some (s\<lparr>packed_threads := (packed_threads s)[t := th']\<rparr>) \<and>
    packed_inv n r (s\<lparr>packed_threads := (packed_threads s)[t := th']\<rparr>) \<and> arrivals th' = arrivals (packed_threads s ! t) \<and>
    (arrivals th' = Suc (flips s) \<and> (\<exists>c'. place th' = P_Poll tok c') \<or> arrivals th' = flips s \<and> place th' = P_Idle)"
proof -
  let ?th = "packed_threads s ! t" and ?g = "flips s" and ?w = "phase_arrived_expected s"
  note inv = packed_invD [OF assms(1,2)]
  have th: "returns ?th < r" "arrivals ?th = returns ?th + 1"
    "arrivals ?th = ?g + 1 \<and> tok = token (odd ?g) \<or> arrivals ?th = ?g \<and> tok = token (even ?g)"
    using inv(2) assms(3) by (auto simp: packed_thread_at_def)
  have hit: "packed_try_wait ?w (token p) \<longleftrightarrow> odd ?g \<noteq> p" for p
    using packed_try_wait_pack [OF inv(7)] inv(6) by (simp add: packed_numbers_def)
  obtain th' where th': "packed_thread_step ?w ?th = (?w, th')" "arrivals th' = arrivals ?th" "\<not> is_reset th'"
    "packed_thread_at n r ?g th'"
    "arrivals th' = Suc ?g \<and> (\<exists>c'. place th' = P_Poll tok c') \<or> arrivals th' = ?g \<and> place th' = P_Idle"
  proof (cases "arrivals ?th = ?g")
    case True
    then have "packed_try_wait ?w tok" using th(3) hit by auto
    then have "packed_thread_step ?w ?th = (?w, call_return P_Idle ?th)"
      using assms(3) by (simp add: packed_thread_step_def poll_with_backoff_step_def)
    then show thesis using that [of "call_return P_Idle ?th"] True th round_calls_return [OF inv(3) th(1)]
      by (simp add: packed_thread_at_def call_return_def is_reset_def)
  next
    case False
    then have no: "\<not> packed_try_wait ?w tok" "arrivals ?th = Suc ?g" "tok = token (odd ?g)" using th(3) hit by auto
    let ?c = "if c < polling_count then c + 1 else c"
    have "packed_thread_step ?w ?th = (?w, ?th\<lparr>place := P_Poll tok ?c\<rparr>)"
      using assms(3) no(1) by (simp add: packed_thread_step_def poll_with_backoff_step_def)
    then show thesis using that [of "?th\<lparr>place := P_Poll tok ?c\<rparr>"] no th inv(3)
      by (simp add: packed_thread_at_def round_calls_def is_reset_def)
  qed
  have nr: "\<not> is_reset ?th" using assms(3) by (simp add: is_reset_def)
  have "packed_inv n r \<lparr>phase_arrived_expected = ?w, flips = ?g, packed_threads = (packed_threads s)[t := th']\<rparr>"
    by (rule packed_inv_update [OF assms(1,2) th'(4), of "arrived_count s" "reset_count s"])
      (use th'(2,3) nr inv(6,8,9) in \<open>simp_all add: packed_numbers_def\<close>)
  moreover have "\<lparr>phase_arrived_expected = ?w, flips = ?g, packed_threads = (packed_threads s)[t := th']\<rparr> = s\<lparr>packed_threads := (packed_threads s)[t := th']\<rparr>"
    by simp
  ultimately show ?thesis using packed_step_eq [OF th'(1)] th'(2,5) by (intro exI [of _ th']) (simp add: completes_0)
qed

lemma packed_step_idle:
  assumes "packed_inv n r s" "t < n" "place (packed_threads s ! t) = P_Idle" "\<not> returns (packed_threads s ! t) < r"
  shows "packed_step t s = Some s"
proof -
  note inv = packed_invD [OF assms(1,2)]
  have "calls (packed_threads s ! t) = []" using inv(3) assms(4) by (simp add: round_calls_def)
  then have "packed_thread_step (phase_arrived_expected s) (packed_threads s ! t) = (phase_arrived_expected s, packed_threads s ! t)"
    using assms(3) by (simp add: packed_thread_step_def)
  from packed_step_eq [OF this] show ?thesis by (simp add: completes_0)
qed

fun packed_stage :: "packed_pc \<Rightarrow> nat" where
  "packed_stage (P_Reset old waits) = 2"
| "packed_stage (P_Poll tok c) = 1"
| "packed_stage pc = 0"

text \<open>The step of one thread: what changes, and that the thread moves on.\<close>

lemma packed_step_total:
  assumes "packed_inv n r s" "t < n"
  obtains s' th' where "packed_step t s = Some s'" "packed_inv n r s'" "packed_threads s' = (packed_threads s)[t := th']"
    "flips s \<le> flips s'" "arrivals (packed_threads s ! t) \<le> arrivals th'"
    "arrivals (packed_threads s ! t) = flips s \<Longrightarrow> arrivals (packed_threads s ! t) < arrivals th' \<or>
       packed_stage (place th') < packed_stage (place (packed_threads s ! t)) \<or>
       packed_stage (place (packed_threads s ! t)) = 0 \<and> packed_stage (place th') = 0 \<and> arrivals (packed_threads s ! t) = r"
proof -
  let ?th = "packed_threads s ! t"
  note inv = packed_invD [OF assms]
  show thesis
  proof (cases "place ?th")
    case P_Idle
    then have idle: "arrivals ?th = flips s" "returns ?th = flips s" using inv(2) by (simp_all add: packed_thread_at_def)
    consider "\<not> returns ?th < r" | "returns ?th < r" "Suc (arrived_count s) \<noteq> n" | "returns ?th < r" "Suc (arrived_count s) = n" by blast
    then show thesis
    proof cases
      case 1
      moreover have "returns ?th \<le> r" using inv(3) by (simp add: round_calls_def)
      ultimately show thesis using that [OF packed_step_idle [OF assms P_Idle 1] assms(1), of ?th] inv(1) P_Idle idle by simp
    next
      case 2
      then show thesis using packed_step_early [OF assms P_Idle 2] that idle by fastforce
    next
      case 3
      then show thesis using packed_step_last [OF assms P_Idle 3] that idle by fastforce
    qed
  next
    case (P_Reset old waits)
    then show thesis using packed_step_reset [OF assms P_Reset] that by fastforce
  next
    case (P_Poll tok c)
    then show thesis using packed_step_poll [OF assms P_Poll] that by fastforce
  qed (use inv(2) in \<open>auto simp: packed_thread_at_def\<close>)
qed

section \<open>Correctness of the packed barrier\<close>

interpretation packed: phased_barrier packed_step n "packed_inv n r" flips
  "\<lambda>t s. arrivals (packed_threads s ! t)" "\<lambda>t s. packed_stage (place (packed_threads s ! t))" "\<lambda>t s. 0" r for n r
proof
  fix s t
  assume inv: "packed_inv n r s" and t: "t < n"
  note D = packed_invD [OF inv t]
  show "\<exists>s'. packed_step t s = Some s' \<and> packed_inv n r s'" by (rule packed_step_total [OF inv t]) blast
  show "arrivals (packed_threads s ! t) = flips s \<or> arrivals (packed_threads s ! t) = Suc (flips s)"
    and "arrivals (packed_threads s ! t) \<le> r"
    using D(2) by (auto simp: packed_thread_at_def round_calls_def split: packed_pc.splits)
  fix s'
  assume st: "packed_step t s = Some s'"
  obtain th' where th': "packed_threads s' = (packed_threads s)[t := th']" "flips s \<le> flips s'"
    "arrivals (packed_threads s ! t) \<le> arrivals th'"
    "arrivals (packed_threads s ! t) = flips s \<Longrightarrow> arrivals (packed_threads s ! t) < arrivals th' \<or>
       packed_stage (place th') < packed_stage (place (packed_threads s ! t)) \<or>
       packed_stage (place (packed_threads s ! t)) = 0 \<and> packed_stage (place th') = 0 \<and> arrivals (packed_threads s ! t) = r"
    by (rule packed_step_total [OF inv t]) (use st in auto)
  show "flips s \<le> flips s'" by (rule th'(2))
  show "arrivals (packed_threads s ! t) = flips s \<Longrightarrow>
      arrivals (packed_threads s ! t) < arrivals (packed_threads s' ! t) \<or>
      packed_stage (place (packed_threads s' ! t)) < packed_stage (place (packed_threads s ! t)) \<or>
      packed_stage (place (packed_threads s ! t)) = 0 \<and> packed_stage (place (packed_threads s' ! t)) = 0 \<and>
      arrivals (packed_threads s ! t) = r"
    using th'(1,4) D(1) by simp
  fix u
  assume "u < n"
  show "arrivals (packed_threads s ! u) \<le> arrivals (packed_threads s' ! u)"
    using th'(1,3) D(1) by (cases "u = t") auto
  show "t \<noteq> u \<Longrightarrow> packed_stage (place (packed_threads s' ! u)) \<le> packed_stage (place (packed_threads s ! u))"
    using th'(1) by simp
next
  fix s
  assume inv: "packed_inv n r s" and all: "\<forall>v < n. arrivals (packed_threads s ! v) = Suc (flips s)"
  have "length (filter (\<lambda>th. arrivals th = Suc (flips s)) (packed_threads s)) = length (packed_threads s)"
    unfolding count_full using all inv by (auto simp: packed_inv_def in_set_conv_nth)
  then show "\<exists>t < n. (0 :: nat) < 0" using inv by (auto simp: packed_inv_def arrived_count_def)
qed auto

lemma packed_begin_inv:
  assumes "0 < n" "n \<le> 2 ^ 31"
  obtains s where "packed_begin (int n) (replicate n (replicate r Arrive_And_Wait)) = Some s" "packed_inv n r s"
proof
  let ?th = "\<lparr>calls = replicate r Arrive_And_Wait, place = P_Idle, arrivals = 0, returns = 0\<rparr>"
  let ?b = "\<lparr>nphase = False, narrived = 2 ^ 31 - n, nexpected = 2 ^ 31 - n\<rparr>"
  let ?s = "\<lparr>phase_arrived_expected = pack ?b, flips = 0, packed_threads = replicate n ?th\<rparr>"
  show "packed_begin (int n) (replicate n (replicate r Arrive_And_Wait)) = Some ?s"
    by (simp add: packed_begin_def packed_init_pack [OF assms])
  have "arrived_count ?s = 0" "reset_count ?s = 0" by (simp_all add: arrived_count_def reset_count_def is_reset_def)
  then show "packed_inv n r ?s"
    using assms by (simp add: packed_inv_def packed_numbers_def packed_thread_at_def round_calls_def)
qed

text \<open>
  C3: safety of the barrier without completion function.  Any number of threads up to \<open>2 ^ 31\<close> call
  \<open>arrive_and_wait\<close> for any number of rounds on the packed word, interleaved by any schedule: a thread has
  returned from its \<open>k\<close>-th call only when every thread has arrived at least \<open>k\<close> times.
\<close>

theorem packed_barrier_safe:
  assumes "0 < n" "n \<le> 2 ^ 31" "schedule_of n sched" "i < n" "j < n"
  shows "\<exists>s. Option.bind (packed_begin (int n) (replicate n (replicate r Arrive_And_Wait))) (\<lambda>s. run packed_step sched s k) = Some s \<and>
    returns (packed_threads s ! i) \<le> arrivals (packed_threads s ! j)"
proof -
  obtain s where s: "packed_begin (int n) (replicate n (replicate r Arrive_And_Wait)) = Some s" "packed_inv n r s"
    by (rule packed_begin_inv [OF assms(1,2)])
  obtain s' where s': "run packed_step sched s k = Some s'" "packed_inv n r s'" using packed.run_inv [OF s(2) assms(3)] by blast
  have "returns (packed_threads s' ! i) \<le> flips s'"
    using packed_invD(2) [OF s'(2) assms(4)] by (auto simp: packed_thread_at_def split: packed_pc.splits)
  also have "\<dots> \<le> arrivals (packed_threads s' ! j)" by (rule packed.arr_ge [OF s'(2) assms(5)])
  finally show ?thesis using s(1) s'(1) by simp
qed

theorem packed_barrier_safe_witness:
  "\<exists>s. Option.bind (packed_begin (int 3) (replicate 3 (replicate 2 Arrive_And_Wait))) (\<lambda>s. run packed_step (\<lambda>i. i mod 3) s 20) = Some s \<and>
    returns (packed_threads s ! 0) \<le> arrivals (packed_threads s ! 2)"
  by (rule packed_barrier_safe) (simp_all add: schedule_of_def)

text \<open>
  C4: liveness of the barrier without completion function.  Under every fair schedule all threads
  return from all their calls of \<open>arrive_and_wait\<close>, although the last arrival of a phase makes the next
  phase visible before it resets the arrivals.
\<close>

theorem packed_barrier_live:
  assumes "0 < n" "n \<le> 2 ^ 31" "fair n sched"
  shows "\<exists>k s. Option.bind (packed_begin (int n) (replicate n (replicate r Arrive_And_Wait))) (\<lambda>s. run packed_step sched s k) = Some s \<and>
    (\<forall>t < n. returns (packed_threads s ! t) = r \<and> calls (packed_threads s ! t) = [])"
proof -
  obtain s where s: "packed_begin (int n) (replicate n (replicate r Arrive_And_Wait)) = Some s" "packed_inv n r s"
    by (rule packed_begin_inv [OF assms(1,2)])
  obtain k s' where s': "run packed_step sched s k = Some s'" "packed_inv n r s'" "flips s' = r"
    "\<forall>t < n. packed_stage (place (packed_threads s' ! t)) = 0"
    using packed.eventually_finished [OF s(2) assms(3,1)] by blast
  have "returns (packed_threads s' ! t) = r \<and> calls (packed_threads s' ! t) = []" if "t < n" for t
    using packed_invD(2) [OF s'(2) that] s'(3,4) that
    by (cases "place (packed_threads s' ! t)") (auto simp: packed_thread_at_def round_calls_def)
  then show ?thesis using s(1) s'(1) by auto
qed

theorem packed_barrier_live_witness:
  "\<exists>k s. Option.bind (packed_begin (int 3) (replicate 3 (replicate 2 Arrive_And_Wait))) (\<lambda>s. run packed_step (\<lambda>i. i mod 3) s k) = Some s \<and>
    (\<forall>t < 3. returns (packed_threads s ! t) = 2 \<and> calls (packed_threads s ! t) = [])"
  by (rule packed_barrier_live) (simp_all add: fair_mod)

section \<open>A dropped participant\<close>

definition drop_schedule :: "nat \<Rightarrow> tid" where
  "drop_schedule k = (if k < 8 then [1, 0, 0, 1, 1, 0, 1, 1] ! k else k mod 2)"

definition drop_stuck :: "packed_system \<Rightarrow> bool" where
  "drop_stuck s \<longleftrightarrow> phase_arrived_expected s = 0x000000017FFFFFFF \<and> length (packed_threads s) = 2 \<and>
     calls (packed_threads s ! 0) = [] \<and> place (packed_threads s ! 0) = P_Idle \<and>
     (\<exists>c. place (packed_threads s ! 1) = P_Poll 0 c) \<and> calls (packed_threads s ! 1) = [Arrive_And_Wait] \<and>
     arrivals (packed_threads s ! 1) = 3"

lemma drop_run:
  "\<exists>s. Option.bind (packed_begin 2 [[Arrive_And_Drop], [Arrive_And_Wait, Arrive_And_Wait, Arrive_And_Wait]])
         (\<lambda>s. run packed_step drop_schedule s 8) = Some s \<and> drop_stuck s"
  by (simp add: run_numeral numeral_2_eq_2 [symmetric] polling_count_def packed_begin_def packed_init_def packed_step_def packed_thread_step_def packed_arrive_def drop_schedule_def
      completes_def arrive_inc_def arrived_unit_def phase_bit_def expected_mask_def arrive_reset_def arrive_token_def expected_unit_def
      Let_def poll_with_backoff_step_def packed_try_wait_def try_wait_phase_def call_return_def drop_stuck_def)

lemma drop_stuck_step:
  assumes "drop_stuck s" "t < 2"
  shows "\<exists>s'. packed_step t s = Some s' \<and> drop_stuck s'"
proof -
  obtain c where s: "phase_arrived_expected s = 0x000000017FFFFFFF" "length (packed_threads s) = 2"
    "calls (packed_threads s ! 0) = []" "place (packed_threads s ! 0) = P_Idle"
    "place (packed_threads s ! 1) = P_Poll 0 c" "calls (packed_threads s ! 1) = [Arrive_And_Wait]" "arrivals (packed_threads s ! 1) = 3"
    using assms(1) by (auto simp: drop_stuck_def)
  have no: "\<not> packed_try_wait 0x000000017FFFFFFF 0" by (simp add: packed_try_wait_def try_wait_phase_def phase_bit_def)
  consider "t = 0" | "t = 1" using assms(2) by linarith
  then show ?thesis
  proof cases
    case 1
    then show ?thesis using s by (simp add: packed_step_def packed_thread_step_def completes_0 drop_stuck_def)
  next
    case 2
    then show ?thesis using s no
      by (auto simp: packed_step_def packed_thread_step_def completes_0 poll_with_backoff_step_def drop_stuck_def)
  qed
qed

interpretation drop: invariant_system packed_step 2 drop_stuck
  by unfold_locales (rule drop_stuck_step)

lemma drop_schedule_fair: "fair 2 drop_schedule"
  unfolding fair_def schedule_of_def
proof (intro conjI allI impI)
  show "drop_schedule k < 2" for k
  proof (cases "k < 8")
    case True
    then have "[1, 0, 0, 1, 1, 0, 1, 1] ! k \<in> set [1, 0, 0, 1, 1, 0, 1, 1 :: tid]" by (intro nth_mem) simp
    then show ?thesis using True by (auto simp: drop_schedule_def)
  qed (simp add: drop_schedule_def)
  fix t k :: nat
  assume "t < 2"
  then have "(2 * (k + 8) + t) mod 2 = t" by presburger
  then have "drop_schedule (2 * (k + 8) + t) = t" "k \<le> 2 * (k + 8) + t" by (auto simp: drop_schedule_def)
  then show "\<exists>j\<ge>k. drop_schedule j = t" by blast
qed

text \<open>
  C5: a lost reset of the packed barrier.  Of two threads one calls \<open>arrive_and_drop\<close>, the other
  \<open>arrive_and_wait\<close> three times; after the drop the expected count is one, so the second thread alone
  completes every further phase.  When the dropping thread makes the last arrival of the first phase and
  the other thread arrives again before the reset of the arrivals, the reset itself flips the phase bit
  and nobody resets the arrivals of that phase: there is a fair schedule under which the second thread
  has made its third arrival, the first thread has returned, and the third call never returns.
\<close>

theorem arrive_and_drop_lost_reset:
  "fair 2 drop_schedule \<and>
   (\<forall>k. \<exists>s. Option.bind (packed_begin 2 [[Arrive_And_Drop], [Arrive_And_Wait, Arrive_And_Wait, Arrive_And_Wait]])
      (\<lambda>s. run packed_step drop_schedule s (8 + k)) = Some s \<and>
      calls (packed_threads s ! 0) = [] \<and> arrivals (packed_threads s ! 1) = 3 \<and> calls (packed_threads s ! 1) = [Arrive_And_Wait])"
proof (intro conjI allI)
  show "fair 2 drop_schedule" by (rule drop_schedule_fair)
  fix k
  obtain s0 s where s0: "packed_begin 2 [[Arrive_And_Drop], [Arrive_And_Wait, Arrive_And_Wait, Arrive_And_Wait]] = Some s0"
    and s: "run packed_step drop_schedule s0 8 = Some s" "drop_stuck s" using drop_run by (auto simp: bind_eq_Some_conv)
  have "schedule_of 2 (\<lambda>i. drop_schedule (8 + i))" using drop_schedule_fair by (simp add: fair_def schedule_of_def)
  then obtain q where "run packed_step (\<lambda>i. drop_schedule (8 + i)) s k = Some q" "drop_stuck q" using drop.run_inv [OF s(2)] by blast
  then show "\<exists>s. Option.bind (packed_begin 2 [[Arrive_And_Drop], [Arrive_And_Wait, Arrive_And_Wait, Arrive_And_Wait]])
      (\<lambda>s. run packed_step drop_schedule s (8 + k)) = Some s \<and>
      calls (packed_threads s ! 0) = [] \<and> arrivals (packed_threads s ! 1) = 3 \<and> calls (packed_threads s ! 1) = [Arrive_And_Wait]"
    unfolding s0 using s(1) by (simp add: run_add drop_stuck_def)
qed

end
