(* ===== verification/Barrier_Completion.thy ===== *)
theory Barrier_Completion
  imports Barrier_Ops
begin

text \<open>
  The barrier of \<^verbatim>\<open>std/__barrier/barrier.h\<close> with a completion function: expected count, arrivals and phase
  are three atomic objects, written one after the other by the thread of the last arrival.  The
  completion function is a parameter, a function on the state of the client.  It runs once in every
  phase, after the last arrival and before any thread returns; the threads stay within one round of
  each other and all finish under every fair schedule.
\<close>

section \<open>Definitions\<close>

record 'c barrier_base =
  bexpected :: int
  barrived :: int
  bphase :: bool
  buser :: 'c

text \<open>
  The places of a thread, after the atomic operations of \<^verbatim>\<open>arrive\<close> in their order: the load of the phase,
  the subtraction from the arrivals, the load of the expected count, the completion function, the two
  stores; and in the wait on the phase.  The flag says that a wait follows.
\<close>

datatype base_pc =
    B_Idle | B_Drop | B_Sub bool int bool | B_Load int bool bool | B_Complete int bool bool
  | B_Store_Arrived int bool bool | B_Store_Phase bool bool | B_Wait bool wait_pc

definition arrive_return :: "bool \<Rightarrow> bool \<Rightarrow> base_pc barrier_thread \<Rightarrow> base_pc barrier_thread" where
  "arrive_return old waits th = (if waits then th\<lparr>place := B_Wait old wait_start\<rparr> else call_return B_Idle th)"

definition base_init :: "int \<Rightarrow> 'c \<Rightarrow> 'c barrier_base" where
  "base_init expected' user = \<lparr>bexpected = expected', barrived = expected', bphase = False, buser = user\<rparr>"

definition base_try_wait :: "'c barrier_base \<Rightarrow> bool \<Rightarrow> bool" where
  "base_try_wait b old \<longleftrightarrow> bphase b \<noteq> old"

definition base_thread_step ::
    "('c \<Rightarrow> 'c) \<Rightarrow> 'c barrier_base \<Rightarrow> base_pc barrier_thread \<Rightarrow> ('c barrier_base \<times> base_pc barrier_thread) option" where
  "base_thread_step completion b th =
     (case place th of
        B_Idle \<Rightarrow>
          (case calls th of
             [] \<Rightarrow> Some (b, th)
           | Arrive u # _ \<Rightarrow> Some (b, th\<lparr>place := B_Sub (bphase b) u False\<rparr>)
           | Arrive_And_Wait # _ \<Rightarrow> Some (b, th\<lparr>place := B_Sub (bphase b) 1 True\<rparr>)
           | Arrive_And_Drop # _ \<Rightarrow> Some (b\<lparr>bexpected := wrap64 (bexpected b - 1)\<rparr>, th\<lparr>place := B_Drop\<rparr>)
           | Wait_Parity _ # _ \<Rightarrow> None)
      | B_Drop \<Rightarrow> Some (b, th\<lparr>place := B_Sub (bphase b) 1 False\<rparr>)
      | B_Sub old update waits \<Rightarrow>
          (let b' = b\<lparr>barrived := wrap64 (barrived b - update)\<rparr> in
           Some (b', th\<lparr>arrivals := arrivals th + 1, place := B_Load (wrap64 (barrived b - update)) old waits\<rparr>))
      | B_Load result old waits \<Rightarrow>
          (if \<not> result \<ge> 0 then None
           else if 0 = result then Some (b, th\<lparr>place := B_Complete (bexpected b) old waits\<rparr>)
           else Some (b, arrive_return old waits th))
      | B_Complete new_expected old waits \<Rightarrow>
          Some (b\<lparr>buser := completion (buser b)\<rparr>, th\<lparr>place := B_Store_Arrived new_expected old waits\<rparr>)
      | B_Store_Arrived new_expected old waits \<Rightarrow>
          Some (b\<lparr>barrived := new_expected\<rparr>, th\<lparr>place := B_Store_Phase old waits\<rparr>)
      | B_Store_Phase old waits \<Rightarrow> Some (b\<lparr>bphase := \<not> old\<rparr>, arrive_return old waits th)
      | B_Wait old w \<Rightarrow>
          (let w' = atomic_wait_step (\<not> base_try_wait b old) w in
           Some (b, if w' = Wait_Done then call_return B_Idle th else th\<lparr>place := B_Wait old w'\<rparr>)))"

text \<open>\<open>stores\<close> counts the stores of a new phase; no step reads it.\<close>

record 'c base_system =
  base :: "'c barrier_base"
  stores :: nat
  base_threads :: "base_pc barrier_thread list"

definition base_begin :: "int \<Rightarrow> 'c \<Rightarrow> barrier_op list list \<Rightarrow> 'c base_system" where
  "base_begin expected' user progs =
     \<lparr>base = base_init expected' user, stores = 0,
      base_threads = map (\<lambda>p. \<lparr>calls = p, place = B_Idle, arrivals = 0, returns = 0\<rparr>) progs\<rparr>"

definition base_step :: "('c \<Rightarrow> 'c) \<Rightarrow> tid \<Rightarrow> 'c base_system \<Rightarrow> 'c base_system option" where
  "base_step completion t s =
     map_option (\<lambda>(b, th). \<lparr>base = b, stores = stores s + of_bool (bphase b \<noteq> bphase (base s)), base_threads = (base_threads s)[t := th]\<rparr>)
       (base_thread_step completion (base s) (base_threads s ! t))"

section \<open>Rounds of \<^verbatim>\<open>arrive_and_wait\<close>\<close>

definition base_thread_at :: "nat \<Rightarrow> nat \<Rightarrow> nat \<Rightarrow> base_pc barrier_thread \<Rightarrow> bool" where
  "base_thread_at n r g th \<longleftrightarrow> round_calls r th \<and>
     (place th \<noteq> B_Idle \<longrightarrow> returns th < r) \<and>
     (case place th of
        B_Idle \<Rightarrow> arrivals th = g \<and> returns th = g
      | B_Drop \<Rightarrow> False
      | B_Sub old u waits \<Rightarrow> u = 1 \<and> waits \<and> arrivals th = g \<and> returns th = g \<and> old = odd g
      | B_Load res old waits \<Rightarrow> waits \<and> arrivals th = returns th + 1 \<and> 0 \<le> res \<and>
          (arrivals th = g + 1 \<and> old = odd g \<or> arrivals th = g \<and> old = even g \<and> res \<noteq> 0)
      | B_Complete e old waits \<Rightarrow> waits \<and> arrivals th = returns th + 1 \<and> arrivals th = g + 1 \<and> old = odd g \<and> e = int n
      | B_Store_Arrived e old waits \<Rightarrow> waits \<and> arrivals th = returns th + 1 \<and> arrivals th = g + 1 \<and> old = odd g \<and> e = int n
      | B_Store_Phase old waits \<Rightarrow> waits \<and> arrivals th = returns th + 1 \<and> arrivals th = g + 1 \<and> old = odd g
      | B_Wait old w \<Rightarrow> arrivals th = returns th + 1 \<and> w \<noteq> Wait_Done \<and>
          (arrivals th = g + 1 \<and> old = odd g \<or> arrivals th = g \<and> old = even g))"

text \<open>The thread that completes the phase: with how many steps to go; and having run the function.\<close>

fun completing :: "base_pc \<Rightarrow> nat" where
  "completing (B_Load res old waits) = (if res = 0 then 4 else 0)"
| "completing (B_Complete e old waits) = 3"
| "completing (B_Store_Arrived e old waits) = 2"
| "completing (B_Store_Phase old waits) = 1"
| "completing pc = 0"

definition base_count :: "(base_pc barrier_thread \<Rightarrow> bool) \<Rightarrow> 'c base_system \<Rightarrow> nat" where
  "base_count P s = length (filter P (base_threads s))"

definition has_arrived :: "nat \<Rightarrow> base_pc barrier_thread \<Rightarrow> bool" where
  "has_arrived g th \<longleftrightarrow> arrivals th = Suc g"

definition is_completing :: "base_pc barrier_thread \<Rightarrow> bool" where
  "is_completing th \<longleftrightarrow> 0 < completing (place th)"

definition has_run :: "base_pc barrier_thread \<Rightarrow> bool" where
  "has_run th \<longleftrightarrow> completing (place th) = 1 \<or> completing (place th) = 2"

definition is_storing :: "base_pc barrier_thread \<Rightarrow> bool" where
  "is_storing th \<longleftrightarrow> completing (place th) = 1"

text \<open>
  The state for given numbers of arrived, completing, past-completion and storing threads.
\<close>

definition base_at :: "('c \<Rightarrow> 'c) \<Rightarrow> 'c \<Rightarrow> nat \<Rightarrow> nat \<Rightarrow> 'c barrier_base \<Rightarrow> nat \<Rightarrow> nat \<Rightarrow> nat \<Rightarrow> nat \<Rightarrow> bool" where
  "base_at completion user n g b a c d e \<longleftrightarrow>
     bexpected b = int n \<and> bphase b = odd g \<and> a \<le> n \<and> c = of_bool (a = n) \<and> e \<le> d \<and> d \<le> c \<and>
     barrived b = (if e = 0 then int n - int a else int n) \<and> buser b = (completion ^^ (g + d)) user"

definition base_inv :: "('c \<Rightarrow> 'c) \<Rightarrow> 'c \<Rightarrow> nat \<Rightarrow> nat \<Rightarrow> 'c base_system \<Rightarrow> bool" where
  "base_inv completion user n r s \<longleftrightarrow> length (base_threads s) = n \<and> 0 < n \<and> int n \<le> ptrdiff_max \<and>
     (\<forall>th \<in> set (base_threads s). base_thread_at n r (stores s) th) \<and>
     base_at completion user n (stores s) (base s) (base_count (has_arrived (stores s)) s)
       (base_count is_completing s) (base_count has_run s) (base_count is_storing s)"

lemma base_invD:
  assumes "base_inv completion user n r s" "t < n"
  shows "t < length (base_threads s)" "base_thread_at n r (stores s) (base_threads s ! t)"
    "round_calls r (base_threads s ! t)" "0 < n" "int n \<le> ptrdiff_max"
    "base_at completion user n (stores s) (base s) (base_count (has_arrived (stores s)) s)
       (base_count is_completing s) (base_count has_run s) (base_count is_storing s)"
proof -
  show "t < length (base_threads s)" using assms by (simp add: base_inv_def)
  then show "base_thread_at n r (stores s) (base_threads s ! t)" using assms by (simp add: base_inv_def)
  then show "round_calls r (base_threads s ! t)" by (simp add: base_thread_at_def)
qed (use assms in \<open>simp_all add: base_inv_def\<close>)

lemma base_inv_update:
  assumes inv: "base_inv completion user n r s" "t < n" and th: "base_thread_at n r (stores s) th'"
    and a: "a + of_bool (has_arrived (stores s) (base_threads s ! t)) = base_count (has_arrived (stores s)) s + of_bool (has_arrived (stores s) th')"
    and c: "c + of_bool (is_completing (base_threads s ! t)) = base_count is_completing s + of_bool (is_completing th')"
    and d: "d + of_bool (has_run (base_threads s ! t)) = base_count has_run s + of_bool (has_run th')"
    and e: "e + of_bool (is_storing (base_threads s ! t)) = base_count is_storing s + of_bool (is_storing th')"
    and b: "base_at completion user n (stores s) b' a c d e"
  shows "base_inv completion user n r \<lparr>base = b', stores = stores s, base_threads = (base_threads s)[t := th']\<rparr>"
proof -
  let ?s = "\<lparr>base = b', stores = stores s, base_threads = (base_threads s)[t := th']\<rparr>"
  note D = base_invD [OF inv]
  have cnt: "base_count P ?s = x" if "x + of_bool (P (base_threads s ! t)) = base_count P s + of_bool (P th')" for P x
    using count_update [OF D(1), of P th'] that by (simp add: base_count_def)
  have "\<forall>th \<in> set (base_threads ?s). base_thread_at n r (stores ?s) th"
    using inv(1) th by (auto simp: base_inv_def dest: set_updateD)
  then show ?thesis using inv(1) b cnt [OF a] cnt [OF c] cnt [OF d] cnt [OF e] by (simp add: base_inv_def)
qed

lemma base_step_eq:
  "base_thread_step completion (base s) (base_threads s ! t) = Some (b, th) \<Longrightarrow>
   base_step completion t s = Some \<lparr>base = b, stores = stores s + of_bool (bphase b \<noteq> bphase (base s)), base_threads = (base_threads s)[t := th]\<rparr>"
  by (simp add: base_step_def)

definition base_stage :: "base_pc barrier_thread \<Rightarrow> nat" where
  "base_stage th = (case place th of B_Idle \<Rightarrow> (if calls th = [] then 0 else 1) | B_Wait old w \<Rightarrow> 1 + wait_rank w
     | B_Load _ _ _ \<Rightarrow> 5 | _ \<Rightarrow> 0)"

definition base_moves :: "nat \<Rightarrow> nat \<Rightarrow> base_pc barrier_thread \<Rightarrow> base_pc barrier_thread \<Rightarrow> bool" where
  "base_moves r g th th' \<longleftrightarrow> arrivals th \<le> arrivals th' \<and>
     (arrivals th = g \<longrightarrow> arrivals th < arrivals th' \<or> base_stage th' < base_stage th \<or>
        base_stage th = 0 \<and> base_stage th' = 0 \<and> arrivals th = r) \<and>
     (arrivals th = Suc g \<longrightarrow> completing (place th') \<le> completing (place th) \<and>
        (0 < completing (place th) \<longrightarrow> completing (place th') < completing (place th)))"

definition base_good :: "('c \<Rightarrow> 'c) \<Rightarrow> 'c \<Rightarrow> nat \<Rightarrow> nat \<Rightarrow> tid \<Rightarrow> 'c base_system \<Rightarrow> bool" where
  "base_good completion user n r t s \<longleftrightarrow>
     (\<exists>b' g' th'. base_step completion t s = Some \<lparr>base = b', stores = g', base_threads = (base_threads s)[t := th']\<rparr> \<and>
        base_inv completion user n r \<lparr>base = b', stores = g', base_threads = (base_threads s)[t := th']\<rparr> \<and>
        stores s \<le> g' \<and> base_moves r (stores s) (base_threads s ! t) th')"

lemma base_goodI:
  assumes "base_inv completion user n r s" "t < n" "base_thread_step completion (base s) (base_threads s ! t) = Some (b', th')"
    "bphase b' = bphase (base s)" "base_thread_at n r (stores s) th'" "base_moves r (stores s) (base_threads s ! t) th'"
    "a + of_bool (has_arrived (stores s) (base_threads s ! t)) = base_count (has_arrived (stores s)) s + of_bool (has_arrived (stores s) th')"
    "c + of_bool (is_completing (base_threads s ! t)) = base_count is_completing s + of_bool (is_completing th')"
    "d + of_bool (has_run (base_threads s ! t)) = base_count has_run s + of_bool (has_run th')"
    "e + of_bool (is_storing (base_threads s ! t)) = base_count is_storing s + of_bool (is_storing th')"
    "base_at completion user n (stores s) b' a c d e"
  shows "base_good completion user n r t s"
proof -
  have "base_step completion t s = Some \<lparr>base = b', stores = stores s, base_threads = (base_threads s)[t := th']\<rparr>"
    using base_step_eq [OF assms(3)] assms(4) by simp
  moreover have "base_inv completion user n r \<lparr>base = b', stores = stores s, base_threads = (base_threads s)[t := th']\<rparr>"
    by (rule base_inv_update [OF assms(1,2,5,7-11)])
  ultimately show ?thesis using assms(6) unfolding base_good_def by blast
qed

text \<open>Of a single completing thread, the counts of its stages are 0 or 1.\<close>

lemma count_single:
  assumes "length (filter P xs) \<le> 1" "t < length xs" "P (xs ! t)" "\<And>x. Q x \<Longrightarrow> P x"
  shows "length (filter Q xs) = of_bool (Q (xs ! t))"
proof -
  let ?ys = "filter P xs"
  have "xs ! t \<in> set ?ys" using assms(2,3) by simp
  then have ys: "?ys = [xs ! t]" using assms(1) by (cases ?ys) auto
  have "filter Q xs = filter Q ?ys" using assms(4) by (simp add: conj_commute cong: filter_cong) (metis (mono_tags) assms(4) filter_cong)
  then show ?thesis using ys by simp
qed

lemma base_completing_counts:
  assumes "base_inv completion user n r s" "t < n" "is_completing (base_threads s ! t)"
  shows "base_count is_completing s = 1" "base_count (has_arrived (stores s)) s = n"
    "base_count has_run s = of_bool (has_run (base_threads s ! t))" "base_count is_storing s = of_bool (is_storing (base_threads s ! t))"
proof -
  note D = base_invD [OF assms(1,2)]
  have le: "base_count is_completing s \<le> 1" using D(6) by (auto simp: base_at_def)
  show 1: "base_count is_completing s = 1"
    using count_single [of is_completing "base_threads s" t is_completing] le D(1) assms(3) by (simp add: base_count_def)
  have "base_count is_completing s = of_bool (base_count (has_arrived (stores s)) s = n)" using D(6) by (simp add: base_at_def)
  then have "of_bool (base_count (has_arrived (stores s)) s = n) = (1 :: nat)" using 1 by argo
  then show "base_count (has_arrived (stores s)) s = n" by (simp only: of_bool_eq_1_iff)
  have le': "length (filter is_completing (base_threads s)) \<le> 1" using le by (simp add: base_count_def)
  show "base_count has_run s = of_bool (has_run (base_threads s ! t))" unfolding base_count_def
    by (rule count_single [OF le' D(1) assms(3)]) (auto simp: has_run_def is_completing_def)
  show "base_count is_storing s = of_bool (is_storing (base_threads s ! t))" unfolding base_count_def
    by (rule count_single [OF le' D(1) assms(3)]) (auto simp: is_storing_def is_completing_def)
qed

lemmas base_thread_defs = has_arrived_def is_completing_def has_run_def is_storing_def

lemma base_good_idle:
  assumes inv: "base_inv completion user n r s" "t < n" and pl: "place (base_threads s ! t) = B_Idle"
  shows "base_good completion user n r t s"
proof -
  let ?th = "base_threads s ! t" and ?g = "stores s"
  note D = base_invD [OF inv]
  have idle: "arrivals ?th = ?g" "returns ?th = ?g" using D(2) pl by (auto simp: base_thread_at_def)
  have b: "bphase (base s) = odd ?g" using D(6) by (simp add: base_at_def)
  show ?thesis
  proof (cases "calls ?th")
    case Nil
    then have "arrivals ?th = r" using round_calls_Nil [OF D(3)] idle by simp
    then show ?thesis
      by (intro base_goodI [OF inv, where b' = "base s" and th' = ?th])
        (use D pl Nil in \<open>auto simp: base_thread_step_def base_moves_def base_stage_def\<close>)
  next
    case (Cons p ps)
    then have more: "returns ?th < r" using round_calls_Nil [OF D(3)] D(3) by (auto simp: round_calls_def)
    then have "p = Arrive_And_Wait" using round_calls_Cons [OF D(3)] Cons by auto
    then show ?thesis
      by (intro base_goodI [OF inv, where b' = "base s" and th' = "?th\<lparr>place := B_Sub (odd ?g) 1 True\<rparr>"])
        (use D pl Cons more idle b in \<open>simp_all add: base_thread_step_def base_moves_def base_stage_def base_thread_at_def base_thread_defs\<close>)
  qed
qed

lemma base_good_sub:
  assumes inv: "base_inv completion user n r s" "t < n" and pl: "place (base_threads s ! t) = B_Sub old u waits"
  shows "base_good completion user n r t s"
proof -
  let ?th = "base_threads s ! t" and ?g = "stores s" and ?a = "base_count (has_arrived (stores s)) s"
  let ?res = "barrived (base s) - 1"
  let ?th' = "?th\<lparr>arrivals := Suc ?g, place := B_Load ?res (odd ?g) True\<rparr>"
  note D = base_invD [OF inv]
  have th: "u = 1" "waits" "arrivals ?th = ?g" "returns ?th = ?g" "old = odd ?g" "returns ?th < r"
    using D(2) pl by (auto simp: base_thread_at_def)
  have "length (filter (has_arrived ?g) ((base_threads s)[t := ?th'])) = Suc ?a"
    using count_update [OF D(1), of "has_arrived ?g" ?th'] th(3) by (simp add: base_count_def has_arrived_def)
  then have a: "Suc ?a \<le> n" using length_filter_le [of "has_arrived ?g" "(base_threads s)[t := ?th']"] inv(1) by (simp add: base_inv_def)
  then have z: "base_count is_completing s = 0" "base_count has_run s = 0" "base_count is_storing s = 0"
    "barrived (base s) = int n - int ?a" using D(6) by (auto simp: base_at_def split: if_splits)
  have res: "wrap64 ?res = ?res" by (rule wrap64_id) (use a z D(5) in auto)
  show ?thesis
  proof (rule base_goodI [OF inv, where b' = "base s\<lparr>barrived := ?res\<rparr>" and th' = ?th' and a = "Suc ?a" and c = "of_bool (Suc ?a = n)" and d = 0 and e = 0])
    show "base_thread_step completion (base s) ?th = Some (base s\<lparr>barrived := ?res\<rparr>, ?th')"
      using pl th res by (simp add: base_thread_step_def Let_def)
    show "base_thread_at n r ?g ?th'" using D(3) th a z by (simp add: base_thread_at_def)
    show "of_bool (Suc ?a = n) + of_bool (is_completing ?th) = base_count is_completing s + of_bool (is_completing ?th')"
      using pl z a by (auto simp: is_completing_def)
    show "base_at completion user n ?g (base s\<lparr>barrived := ?res\<rparr>) (Suc ?a) (of_bool (Suc ?a = n)) 0 0"
      using D(6) a z by (simp add: base_at_def)
  qed (use pl th z in \<open>auto simp: base_moves_def base_thread_defs\<close>)
qed

lemma base_good_load:
  assumes inv: "base_inv completion user n r s" "t < n" and pl: "place (base_threads s ! t) = B_Load res old waits"
  shows "base_good completion user n r t s"
proof -
  let ?th = "base_threads s ! t" and ?g = "stores s"
  note D = base_invD [OF inv]
  have th: "waits" "arrivals ?th = returns ?th + 1" "0 \<le> res" "returns ?th < r"
    "arrivals ?th = ?g + 1 \<and> old = odd ?g \<or> arrivals ?th = ?g \<and> old = even ?g \<and> res \<noteq> 0"
    using D(2) pl by (auto simp: base_thread_at_def)
  have e: "bexpected (base s) = int n" using D(6) by (simp add: base_at_def)
  show ?thesis
  proof (cases "res = 0")
    case True
    then have "arrivals ?th = ?g + 1 \<and> old = odd ?g" using th(5) by simp
    then show ?thesis
      by (intro base_goodI [OF inv, where b' = "base s" and th' = "?th\<lparr>place := B_Complete (int n) old True\<rparr>"])
        (use D(3,6) pl True th e in \<open>simp_all add: base_thread_step_def base_moves_def base_thread_at_def base_thread_defs\<close>)
  next
    case False
    then show ?thesis
      by (intro base_goodI [OF inv, where b' = "base s" and th' = "?th\<lparr>place := B_Wait old wait_start\<rparr>"])
        (use D(3,6) pl False th in \<open>auto simp: base_thread_step_def arrive_return_def wait_start_def base_moves_def base_stage_def base_thread_at_def base_thread_defs\<close>)
  qed
qed

lemma base_good_complete:
  assumes inv: "base_inv completion user n r s" "t < n" and pl: "place (base_threads s ! t) = B_Complete e old waits"
  shows "base_good completion user n r t s"
proof -
  let ?th = "base_threads s ! t" and ?g = "stores s"
  note D = base_invD [OF inv]
  have th: "waits" "arrivals ?th = returns ?th + 1" "arrivals ?th = ?g + 1" "old = odd ?g" "e = int n" "returns ?th < r"
    using D(2) pl by (auto simp: base_thread_at_def)
  have "is_completing ?th" using pl by (simp add: is_completing_def)
  note C = base_completing_counts [OF inv this]
  have z: "base_count has_run s = 0" "base_count is_storing s = 0" using C(3,4) pl by (simp_all add: has_run_def is_storing_def)
  show ?thesis
    by (rule base_goodI [OF inv, where b' = "base s\<lparr>buser := completion (buser (base s))\<rparr>" and
          th' = "?th\<lparr>place := B_Store_Arrived e old waits\<rparr>" and a = n and c = 1 and d = 1 and e = 0])
      (use D(3,6) pl th z C(1,2) in \<open>simp_all add: base_thread_step_def base_moves_def base_thread_at_def base_thread_defs base_at_def\<close>)
qed

lemma base_good_store_arrived:
  assumes inv: "base_inv completion user n r s" "t < n" and pl: "place (base_threads s ! t) = B_Store_Arrived e old waits"
  shows "base_good completion user n r t s"
proof -
  let ?th = "base_threads s ! t" and ?g = "stores s"
  note D = base_invD [OF inv]
  have th: "waits" "arrivals ?th = returns ?th + 1" "arrivals ?th = ?g + 1" "old = odd ?g" "e = int n" "returns ?th < r"
    using D(2) pl by (auto simp: base_thread_at_def)
  have "is_completing ?th" using pl by (simp add: is_completing_def)
  note C = base_completing_counts [OF inv this]
  have z: "base_count has_run s = 1" "base_count is_storing s = 0" using C(3,4) pl by (simp_all add: has_run_def is_storing_def)
  show ?thesis
    by (rule base_goodI [OF inv, where b' = "base s\<lparr>barrived := e\<rparr>" and
          th' = "?th\<lparr>place := B_Store_Phase old waits\<rparr>" and a = n and c = 1 and d = 1 and e = 1])
      (use D(3,6) pl th z C(1,2) in \<open>simp_all add: base_thread_step_def base_moves_def base_thread_at_def base_thread_defs base_at_def\<close>)
qed

lemma base_good_wait:
  assumes inv: "base_inv completion user n r s" "t < n" and pl: "place (base_threads s ! t) = B_Wait old w"
  shows "base_good completion user n r t s"
proof -
  let ?th = "base_threads s ! t" and ?g = "stores s"
  note D = base_invD [OF inv]
  have th: "arrivals ?th = returns ?th + 1" "w \<noteq> Wait_Done" "returns ?th < r"
    "arrivals ?th = ?g + 1 \<and> old = odd ?g \<or> arrivals ?th = ?g \<and> old = even ?g"
    using D(2) pl by (auto simp: base_thread_at_def)
  have ph: "bphase (base s) = odd ?g" using D(6) by (simp add: base_at_def)
  let ?w = "atomic_wait_step (\<not> base_try_wait (base s) old) w"
  let ?th' = "if ?w = Wait_Done then call_return B_Idle ?th else ?th\<lparr>place := B_Wait old ?w\<rparr>"
  have st: "base_thread_step completion (base s) ?th = Some (base s, ?th')" using pl by (simp add: base_thread_step_def Let_def)
  have blocked: "?w \<noteq> Wait_Done" if "arrivals ?th = Suc ?g"
    using atomic_wait_blocked [OF th(2)] th(4) that ph by (auto simp: base_try_wait_def)
  have less: "wait_rank ?w < wait_rank w" if "arrivals ?th = ?g"
    using wait_rank_step [OF th(2)] th(4) that ph by (auto simp: base_try_wait_def)
  have wr: "0 < wait_rank w" using th(2) by (simp add: wait_rank_pos)
  have c0: "completing (place ?th') = 0" by simp (simp add: call_return_def)
  have arr: "arrivals ?th' = arrivals ?th" by (simp add: call_return_def)
  have stage: "base_stage ?th' < base_stage ?th" if "arrivals ?th = ?g"
    using less [OF that] wr pl by (auto simp: base_stage_def call_return_def)
  have at: "base_thread_at n r ?g ?th'"
    using th blocked D(3) round_calls_return [OF D(3) th(3)] by (auto simp: base_thread_at_def call_return_def)
  show ?thesis
    by (rule base_goodI [OF inv st _ at]) (use arr c0 pl stage D(6) in \<open>auto simp: base_moves_def base_thread_defs\<close>)
qed

text \<open>The store of the new phase: every thread has arrived, and all of them are now one phase behind.\<close>

lemma base_good_store_phase:
  assumes inv: "base_inv completion user n r s" "t < n" and pl: "place (base_threads s ! t) = B_Store_Phase old waits"
  shows "base_good completion user n r t s"
proof -
  let ?th = "base_threads s ! t" and ?g = "stores s"
  let ?th' = "?th\<lparr>place := B_Wait old wait_start\<rparr>" and ?b' = "base s\<lparr>bphase := \<not> old\<rparr>"
  let ?s = "\<lparr>base = ?b', stores = Suc ?g, base_threads = (base_threads s)[t := ?th']\<rparr>"
  note D = base_invD [OF inv]
  have th: "waits" "arrivals ?th = returns ?th + 1" "arrivals ?th = ?g + 1" "old = odd ?g" "returns ?th < r"
    using D(2) pl by (auto simp: base_thread_at_def)
  have comp: "is_completing ?th" using pl by (simp add: is_completing_def)
  note C = base_completing_counts [OF inv comp]
  have run1: "base_count has_run s = 1" "base_count is_storing s = 1" using C(3,4) pl by (simp_all add: has_run_def is_storing_def)
  have b: "bexpected (base s) = int n" "bphase (base s) = odd ?g" "barrived (base s) = int n" "buser (base s) = (completion ^^ (Suc ?g)) user"
    using D(6) run1 by (simp_all add: base_at_def)
  have st: "base_step completion t s = Some ?s"
    using base_step_eq [of completion s t ?b' ?th'] pl th b by (simp add: base_thread_step_def arrive_return_def)
  have "length (filter (has_arrived ?g) (base_threads s)) = length (base_threads s)" using C(2) inv(1) by (simp add: base_count_def base_inv_def)
  then have all: "\<forall>x \<in> set (base_threads s). arrivals x = Suc ?g" unfolding count_full by (simp add: has_arrived_def)
  then have all': "\<forall>x \<in> set (base_threads ?s). arrivals x = Suc ?g" using th(3) by (auto dest: set_updateD)
  have z: "base_count is_completing ?s = 0" "base_count has_run ?s = 0" "base_count is_storing ?s = 0"
    using count_update [OF D(1), of is_completing ?th'] count_update [OF D(1), of has_run ?th'] count_update [OF D(1), of is_storing ?th']
      C(1) run1 pl by (simp_all add: base_count_def base_thread_defs)
  have a0: "base_count (has_arrived (Suc ?g)) ?s = 0" using all' by (auto simp: base_count_def has_arrived_def filter_empty_conv)
  have "base_thread_at n r (Suc ?g) x" if x: "x \<in> set (base_threads ?s)" for x
  proof (cases "x = ?th'")
    case True
    then show ?thesis using th D(3) by (simp add: base_thread_at_def wait_start_def)
  next
    case False
    then have "base_thread_at n r ?g x" using x inv(1) by (auto simp: base_inv_def dest: set_updateD)
    moreover have "\<not> is_completing x" using z(1) x by (auto simp: base_count_def filter_empty_conv)
    ultimately show ?thesis using all' x by (auto simp: base_thread_at_def is_completing_def split: base_pc.splits)
  qed
  then have "base_inv completion user n r ?s"
    using inv(1) z a0 b th(4) unfolding base_inv_def by (simp add: base_at_def)
  moreover have "base_moves r ?g ?th ?th'" using th pl by (simp add: base_moves_def)
  ultimately show ?thesis using st unfolding base_good_def by (intro exI [of _ ?b'] exI [of _ "Suc ?g"] exI [of _ ?th']) simp
qed

lemma base_step_good:
  assumes "base_inv completion user n r s" "t < n"
  shows "base_good completion user n r t s"
proof (cases "place (base_threads s ! t)")
  case B_Drop
  then show ?thesis using base_invD(2) [OF assms] by (simp add: base_thread_at_def)
qed (use assms in \<open>auto intro: base_good_idle base_good_sub base_good_load base_good_complete base_good_store_arrived
    base_good_store_phase base_good_wait\<close>)

section \<open>Correctness of the barrier with a completion function\<close>

interpretation base: phased_barrier "base_step completion" n "base_inv completion user n r" stores
  "\<lambda>t s. arrivals (base_threads s ! t)" "\<lambda>t s. base_stage (base_threads s ! t)" "\<lambda>t s. completing (place (base_threads s ! t))" r
  for completion user n r
proof
  fix s t
  assume inv: "base_inv completion user n r s" and t: "t < n"
  note D = base_invD [OF inv t]
  obtain b' g' th' where st: "base_step completion t s = Some \<lparr>base = b', stores = g', base_threads = (base_threads s)[t := th']\<rparr>"
    "base_inv completion user n r \<lparr>base = b', stores = g', base_threads = (base_threads s)[t := th']\<rparr>"
    "stores s \<le> g'" "base_moves r (stores s) (base_threads s ! t) th'"
    using base_step_good [OF inv t] unfolding base_good_def by blast
  show "\<exists>s'. base_step completion t s = Some s' \<and> base_inv completion user n r s'" using st by blast
  show "arrivals (base_threads s ! t) = stores s \<or> arrivals (base_threads s ! t) = Suc (stores s)"
    and "arrivals (base_threads s ! t) \<le> r"
    using D(2) by (auto simp: base_thread_at_def round_calls_def split: base_pc.splits)
  fix s'
  assume "base_step completion t s = Some s'"
  then have "s' = \<lparr>base = b', stores = g', base_threads = (base_threads s)[t := th']\<rparr>" using st(1) by simp
  then have s': "stores s' = g'" "base_threads s' = (base_threads s)[t := th']" by simp_all
  show "stores s \<le> stores s'" using st(3) s' by simp
  show "arrivals (base_threads s ! t) = stores s \<Longrightarrow>
      arrivals (base_threads s ! t) < arrivals (base_threads s' ! t) \<or>
      base_stage (base_threads s' ! t) < base_stage (base_threads s ! t) \<or>
      base_stage (base_threads s ! t) = 0 \<and> base_stage (base_threads s' ! t) = 0 \<and> arrivals (base_threads s ! t) = r"
    using st(4) s' D(1) by (simp add: base_moves_def)
  fix u
  assume u: "u < n"
  show "arrivals (base_threads s ! u) \<le> arrivals (base_threads s' ! u)"
    using st(4) s' D(1) by (cases "u = t") (auto simp: base_moves_def)
  show "t \<noteq> u \<Longrightarrow> base_stage (base_threads s' ! u) \<le> base_stage (base_threads s ! u)" using s' by simp
  assume all: "\<forall>v < n. arrivals (base_threads s ! v) = Suc (stores s)"
  show "completing (place (base_threads s' ! u)) \<le> completing (place (base_threads s ! u))"
    using st(4) s' D(1) all t by (cases "u = t") (auto simp: base_moves_def)
  show "0 < completing (place (base_threads s ! t)) \<Longrightarrow> completing (place (base_threads s' ! t)) < completing (place (base_threads s ! t))"
    using st(4) s' D(1) all t by (auto simp: base_moves_def)
next
  fix s
  assume inv: "base_inv completion user n r s" and all: "\<forall>v < n. arrivals (base_threads s ! v) = Suc (stores s)"
  have "\<forall>x \<in> set (base_threads s). has_arrived (stores s) x"
    using all inv by (auto simp: base_inv_def in_set_conv_nth has_arrived_def)
  then have "base_count (has_arrived (stores s)) s = n" using inv unfolding base_count_def count_full [symmetric] by (simp add: base_inv_def)
  then have "base_count is_completing s = 1" using inv by (simp add: base_inv_def base_at_def)
  then have "filter is_completing (base_threads s) \<noteq> []" by (auto simp: base_count_def)
  then obtain x where "x \<in> set (base_threads s)" "is_completing x" by (auto simp: filter_empty_conv)
  then show "\<exists>t < n. 0 < completing (place (base_threads s ! t))" using inv by (auto simp: base_inv_def in_set_conv_nth is_completing_def)
qed

lemma base_begin_inv:
  assumes "0 < n" "int n \<le> ptrdiff_max"
  shows "base_inv completion user n r (base_begin (int n) user (replicate n (replicate r Arrive_And_Wait)))"
  using assms
  by (simp add: base_inv_def base_begin_def base_init_def base_thread_at_def round_calls_def base_at_def base_count_def base_thread_defs)

text \<open>
  C6: safety of the barrier with a completion function.  Threads that call \<open>arrive_and_wait\<close> in rounds,
  under any schedule: no assertion fails; when a thread has returned from \<open>k\<close> calls, every thread has
  arrived at least \<open>k\<close> times and the completion function has run for the first \<open>k\<close> phases; and it never
  runs more often than all threads have arrived.
\<close>

theorem completion_barrier_safe:
  assumes "0 < n" "int n \<le> ptrdiff_max" "schedule_of n sched" "i < n" "j < n"
  shows "\<exists>s c. run (base_step completion) sched (base_begin (int n) user (replicate n (replicate r Arrive_And_Wait))) k = Some s \<and>
    buser (base s) = (completion ^^ c) user \<and>
    returns (base_threads s ! i) \<le> c \<and> c \<le> arrivals (base_threads s ! j)"
proof -
  obtain s where s: "run (base_step completion) sched (base_begin (int n) user (replicate n (replicate r Arrive_And_Wait))) k = Some s"
    "base_inv completion user n r s" using base.run_inv [OF base_begin_inv [OF assms(1,2), of completion user r] assms(3)] by blast
  let ?d = "base_count has_run s"
  have b: "buser (base s) = (completion ^^ (stores s + ?d)) user" "?d \<le> of_bool (base_count (has_arrived (stores s)) s = n)"
    using base_invD(6) [OF s(2) assms(4)] by (simp_all add: base_at_def)
  have "returns (base_threads s ! i) \<le> stores s"
    using base_invD(2) [OF s(2) assms(4)] by (auto simp: base_thread_at_def split: base_pc.splits)
  moreover have "stores s + ?d \<le> arrivals (base_threads s ! j)"
  proof (cases "base_count (has_arrived (stores s)) s = n")
    case True
    then have "length (filter (has_arrived (stores s)) (base_threads s)) = length (base_threads s)" using s(2) by (simp add: base_count_def base_inv_def)
    then have "has_arrived (stores s) (base_threads s ! j)" unfolding count_full using s(2) assms(5) by (simp add: base_inv_def)
    then show ?thesis using b(2) True by (simp add: has_arrived_def)
  next
    case False
    then show ?thesis using b(2) base.arr_ge [OF s(2) assms(5)] by simp
  qed
  ultimately show ?thesis using s(1) b(1) by (intro exI [of _ s] exI [of _ "stores s + ?d"]) simp
qed

theorem completion_barrier_safe_witness:
  "\<exists>s c. run (base_step (\<lambda>x. x + 1)) (\<lambda>i. i mod 2) (base_begin (int 2) (5 :: nat) (replicate 2 (replicate 3 Arrive_And_Wait))) 12 = Some s \<and>
    buser (base s) = ((\<lambda>x. x + 1) ^^ c) 5 \<and> returns (base_threads s ! 0) \<le> c \<and> c \<le> arrivals (base_threads s ! 1)"
  by (rule completion_barrier_safe) (simp_all add: schedule_of_def ptrdiff_max_def)

text \<open>
  C7: liveness of the barrier with a completion function.  Under every fair schedule all threads return
  from all their calls, and the completion function has run exactly once for each of the rounds.
\<close>

theorem completion_barrier_live:
  assumes "0 < n" "int n \<le> ptrdiff_max" "fair n sched"
  shows "\<exists>k s. run (base_step completion) sched (base_begin (int n) user (replicate n (replicate r Arrive_And_Wait))) k = Some s \<and>
    buser (base s) = (completion ^^ r) user \<and>
    (\<forall>t < n. returns (base_threads s ! t) = r \<and> calls (base_threads s ! t) = [])"
proof -
  obtain k s where s: "run (base_step completion) sched (base_begin (int n) user (replicate n (replicate r Arrive_And_Wait))) k = Some s"
    "base_inv completion user n r s" "stores s = r" "\<forall>t < n. base_stage (base_threads s ! t) = 0"
    using base.eventually_finished [OF base_begin_inv [OF assms(1,2), of completion user r] assms(3,1)] by blast
  have fin: "returns (base_threads s ! t) = r \<and> calls (base_threads s ! t) = [] \<and> place (base_threads s ! t) = B_Idle" if "t < n" for t
  proof -
    have "base_stage (base_threads s ! t) = 0" using s(4) that by blast
    then show ?thesis using base_invD(2) [OF s(2) that] s(3)
      by (auto simp: base_stage_def base_thread_at_def round_calls_def split: base_pc.splits if_splits)
  qed
  then have "base_count has_run s = 0"
    using s(2) by (auto simp: base_count_def filter_empty_conv in_set_conv_nth has_run_def base_inv_def)
  then have "buser (base s) = (completion ^^ r) user" using base_invD(6) [OF s(2), of 0] assms(1) s(3) by (simp add: base_at_def)
  then show ?thesis using s(1) fin by blast
qed

theorem completion_barrier_live_witness:
  "\<exists>k s. run (base_step (\<lambda>x. x + 1)) (\<lambda>i. i mod 2) (base_begin (int 2) (5 :: nat) (replicate 2 (replicate 3 Arrive_And_Wait))) k = Some s \<and>
    buser (base s) = ((\<lambda>x. x + 1) ^^ 3) 5 \<and> (\<forall>t < 2. returns (base_threads s ! t) = 3 \<and> calls (base_threads s ! t) = [])"
  by (rule completion_barrier_live) (simp_all add: fair_mod ptrdiff_max_def)

end
