(* ===== verification/Semaphore_Ops.thy ===== *)
theory Semaphore_Ops
  imports Atomic_Wait
begin

text \<open>
  The semaphores of \<^verbatim>\<open>std/__semaphore\<close>: the counting semaphore with its compare-and-exchange loops and the
  binary semaphore with an exchange.  A step relation lets the threads interleave in any order, the weak
  compare-and-exchange fail without a reason, and the clock advance by any amount.  In every reachable
  state the calls that have acquired are no more than the permits; threads that acquire and release in
  turn exclude each other; and a \<^verbatim>\<open>try_acquire\<close> fails only when there is no permit.
\<close>

section \<open>Definitions\<close>

subsection \<open>Threads\<close>

text \<open>A time limit is a number of nanoseconds.\<close>

datatype sem_op = Release int | Acquire | Try_Acquire | Try_Acquire_For int

datatype sem_event = Released int | Acquired | Try_Failed | Timed_Out

record 'pc sem_thread =
  sops :: "sem_op list"
  splace :: 'pc
  sevents :: "sem_event list"

definition sem_done :: "'pc \<Rightarrow> sem_event \<Rightarrow> 'pc sem_thread \<Rightarrow> 'pc sem_thread" where
  "sem_done idle e th = th\<lparr>sops := tl (sops th), splace := idle, sevents := e # sevents th\<rparr>"

text \<open>The time limit of the polling loop: 0 stands for no limit.\<close>

definition sem_elapsed :: "int \<Rightarrow> 'pc sem_thread \<Rightarrow> bool" where
  "sem_elapsed elapsed th =
     (case sops th of Try_Acquire_For max' # _ \<Rightarrow> max' \<noteq> 0 \<and> max' < elapsed | _ \<Rightarrow> False)"

subsection \<open>The counting semaphore\<close>

text \<open>
  \<^verbatim>\<open>compare_exchange_weak\<close>: whether it succeeds, the new value of the object, and the new value of the
  expected operand.
\<close>

definition cas_weak :: "bool \<Rightarrow> int \<Rightarrow> int \<Rightarrow> int \<Rightarrow> bool \<times> int \<times> int" where
  "cas_weak spurious obj old desired =
     (if obj = old \<and> \<not> spurious then (True, desired, old) else (False, obj, obj))"

text \<open>
  Who calls \<^verbatim>\<open>__fetch_sub_if\<close>: \<^verbatim>\<open>try_acquire\<close> itself, the loop of \<^verbatim>\<open>acquire\<close>, or a timed call before it polls.
  The places of a thread: the load and the first exchange of \<^verbatim>\<open>__fetch_sub_if\<close>, the loop of
  \<^verbatim>\<open>__fetch_sub_if_slow\<close>, the load and the wait of \<^verbatim>\<open>__wait_slow\<close>, and the load and the loop in the function
  that \<^verbatim>\<open>__acquire_slow_timed\<close> polls.
\<close>

datatype sem_caller = From_Try | From_Acquire | From_Timed

datatype sem_pc =
    S_Idle | S_Load sem_caller | S_Cas int sem_caller | S_Slow int sem_caller
  | S_Wait_Load | S_Wait wait_pc | S_Poll nat | S_Poll_Slow int nat

fun fetch_sub_if_result :: "bool \<Rightarrow> sem_caller \<Rightarrow> sem_pc sem_thread \<Rightarrow> sem_pc sem_thread" where
  "fetch_sub_if_result True caller th = sem_done S_Idle Acquired th"
| "fetch_sub_if_result False From_Try th = sem_done S_Idle Try_Failed th"
| "fetch_sub_if_result False From_Acquire th = th\<lparr>splace := S_Wait_Load\<rparr>"
| "fetch_sub_if_result False From_Timed th = th\<lparr>splace := S_Poll 0\<rparr>"

definition fetch_sub_if_slow :: "int \<Rightarrow> sem_caller \<Rightarrow> sem_pc sem_thread \<Rightarrow> sem_pc sem_thread" where
  "fetch_sub_if_slow old caller th =
     (if old \<noteq> 0 then th\<lparr>splace := S_Slow old caller\<rparr> else fetch_sub_if_result False caller th)"

definition sem_poll_turn :: "int \<Rightarrow> nat \<Rightarrow> sem_pc sem_thread \<Rightarrow> sem_pc sem_thread" where
  "sem_poll_turn elapsed c th =
     (case poll_with_backoff_step False (sem_elapsed elapsed th) c of
        Inl c' \<Rightarrow> th\<lparr>splace := S_Poll c'\<rparr> | Inr _ \<Rightarrow> sem_done S_Idle Timed_Out th)"

definition sem_thread_step ::
    "bool \<Rightarrow> int \<Rightarrow> int \<Rightarrow> sem_pc sem_thread \<Rightarrow> int \<times> sem_pc sem_thread" where
  "sem_thread_step spurious elapsed n th =
     (case splace th of
        S_Idle \<Rightarrow>
          (case sops th of
             [] \<Rightarrow> (n, th)
           | Release u # _ \<Rightarrow> (wrap64 (n + u), sem_done S_Idle (Released u) th)
           | Acquire # _ \<Rightarrow> (n, th\<lparr>splace := S_Load From_Acquire\<rparr>)
           | Try_Acquire # _ \<Rightarrow> (n, th\<lparr>splace := S_Load From_Try\<rparr>)
           | Try_Acquire_For _ # _ \<Rightarrow> (n, th\<lparr>splace := S_Load From_Timed\<rparr>))
      | S_Load caller \<Rightarrow>
          (n, if n = 0 then fetch_sub_if_result False caller th else th\<lparr>splace := S_Cas n caller\<rparr>)
      | S_Cas old caller \<Rightarrow>
          (let (ok, n', old') = cas_weak spurious n old (wrap64 (old - 1)) in
           (n', if ok then fetch_sub_if_result True caller th else fetch_sub_if_slow old' caller th))
      | S_Slow old caller \<Rightarrow>
          (let (ok, n', old') = cas_weak spurious n old (wrap64 (old - 1)) in
           (n', if ok then fetch_sub_if_result True caller th else fetch_sub_if_slow old' caller th))
      | S_Wait_Load \<Rightarrow>
          (n, if n \<noteq> 0 then th\<lparr>splace := S_Load From_Acquire\<rparr> else th\<lparr>splace := S_Wait wait_start\<rparr>)
      | S_Wait w \<Rightarrow>
          (let w' = atomic_wait_step (n = 0) w in
           (n, if w' = Wait_Done then th\<lparr>splace := S_Wait_Load\<rparr> else th\<lparr>splace := S_Wait w'\<rparr>))
      | S_Poll c \<Rightarrow> (n, if n \<noteq> 0 then th\<lparr>splace := S_Poll_Slow n c\<rparr> else sem_poll_turn elapsed c th)
      | S_Poll_Slow old c \<Rightarrow>
          (let (ok, n', old') = cas_weak spurious n old (wrap64 (old - 1)) in
           (n', if ok then sem_done S_Idle Acquired th
                else if old' \<noteq> 0 then th\<lparr>splace := S_Poll_Slow old' c\<rparr>
                else sem_poll_turn elapsed c th)))"

subsection \<open>The binary semaphore\<close>

text \<open>\<open>None\<close> is a failing assertion.  An atomic exchange with 0 is one step.\<close>

datatype bin_pc = N_Idle | N_Try | N_Wait wait_pc | N_Poll nat

definition bin_poll_turn :: "int \<Rightarrow> nat \<Rightarrow> bin_pc sem_thread \<Rightarrow> bin_pc sem_thread" where
  "bin_poll_turn elapsed c th =
     (case poll_with_backoff_step False (sem_elapsed elapsed th) c of
        Inl c' \<Rightarrow> th\<lparr>splace := N_Poll c'\<rparr> | Inr _ \<Rightarrow> sem_done N_Idle Timed_Out th)"

definition bin_thread_step ::
    "int \<Rightarrow> int \<Rightarrow> bin_pc sem_thread \<Rightarrow> (int \<times> bin_pc sem_thread) option" where
  "bin_thread_step elapsed available th =
     (case splace th of
        N_Idle \<Rightarrow>
          (case sops th of
             [] \<Rightarrow> Some (available, th)
           | Release u # _ \<Rightarrow> if \<not> u = 1 then None else Some (1, sem_done N_Idle (Released u) th)
           | _ # _ \<Rightarrow> Some (available, th\<lparr>splace := N_Try\<rparr>))
      | N_Try \<Rightarrow>
          Some (0, if 1 = available then sem_done N_Idle Acquired th
                   else (case sops th of
                           Acquire # _ \<Rightarrow> th\<lparr>splace := N_Wait wait_start\<rparr>
                         | Try_Acquire_For _ # _ \<Rightarrow> th\<lparr>splace := N_Poll 0\<rparr>
                         | _ \<Rightarrow> sem_done N_Idle Try_Failed th))
      | N_Wait w \<Rightarrow>
          (let w' = atomic_wait_step (available = 0) w in
           Some (available, if w' = Wait_Done then th\<lparr>splace := N_Try\<rparr> else th\<lparr>splace := N_Wait w'\<rparr>))
      | N_Poll c \<Rightarrow> Some (0, if 1 = available then sem_done N_Idle Acquired th else bin_poll_turn elapsed c th))"

subsection \<open>Systems\<close>

record 'pc sem_system =
  permits :: int
  sthreads :: "'pc sem_thread list"

definition sem_begin :: "'pc \<Rightarrow> int \<Rightarrow> sem_op list list \<Rightarrow> 'pc sem_system" where
  "sem_begin idle init progs = \<lparr>permits = init, sthreads = map (\<lambda>p. \<lparr>sops = p, splace = idle, sevents = []\<rparr>) progs\<rparr>"

inductive sem_step :: "tid \<Rightarrow> sem_pc sem_system \<Rightarrow> sem_pc sem_system \<Rightarrow> bool" where
  sem_stepI: "t < length (sthreads s) \<Longrightarrow> sem_thread_step spurious elapsed (permits s) (sthreads s ! t) = (n, th) \<Longrightarrow>
    sem_step t s \<lparr>permits = n, sthreads = (sthreads s)[t := th]\<rparr>"

inductive sem_reachable :: "int \<Rightarrow> sem_op list list \<Rightarrow> sem_pc sem_system \<Rightarrow> bool" for init progs where
  sem_start: "sem_reachable init progs (sem_begin S_Idle init progs)"
| sem_next: "sem_reachable init progs s \<Longrightarrow> sem_step t s s' \<Longrightarrow> sem_reachable init progs s'"

inductive bin_step :: "tid \<Rightarrow> bin_pc sem_system \<Rightarrow> bin_pc sem_system \<Rightarrow> bool" where
  bin_stepI: "t < length (sthreads s) \<Longrightarrow> bin_thread_step elapsed (permits s) (sthreads s ! t) = Some (n, th) \<Longrightarrow>
    bin_step t s \<lparr>permits = n, sthreads = (sthreads s)[t := th]\<rparr>"

inductive bin_reachable :: "int \<Rightarrow> sem_op list list \<Rightarrow> bin_pc sem_system \<Rightarrow> bool" for init progs where
  bin_start: "bin_reachable init progs (sem_begin N_Idle init progs)"
| bin_next: "bin_reachable init progs s \<Longrightarrow> bin_step t s s' \<Longrightarrow> bin_reachable init progs s'"

inductive_cases sem_stepE: "sem_step t s s'"
inductive_cases bin_stepE: "bin_step t s s'"

subsection \<open>Permits taken and returned\<close>

fun event_acquired :: "sem_event \<Rightarrow> int" where
  "event_acquired Acquired = 1"
| "event_acquired _ = 0"

fun event_released :: "sem_event \<Rightarrow> int" where
  "event_released (Released u) = u"
| "event_released _ = 0"

definition held :: "'pc sem_thread \<Rightarrow> int" where
  "held th = sum_list (map (\<lambda>e. event_acquired e - event_released e) (sevents th))"

definition total_held :: "'pc sem_system \<Rightarrow> int" where
  "total_held s = sum_list (map held (sthreads s))"

fun op_release :: "sem_op \<Rightarrow> int" where
  "op_release (Release u) = u"
| "op_release _ = 0"

definition to_release :: "'pc sem_thread \<Rightarrow> int" where
  "to_release th = sum_list (map op_release (sops th))"

definition total_to_release :: "'pc sem_system \<Rightarrow> int" where
  "total_to_release s = sum_list (map to_release (sthreads s))"

section \<open>What one step does\<close>

text \<open>
  A step either stays in the current call, or returns from it with the matching event; \<open>sem_effect n th n' th'\<close>
  says so, with the change of the number of permits.
\<close>

fun matches :: "sem_op \<Rightarrow> sem_event \<Rightarrow> bool" where
  "matches (Release u) e = (e = Released u)"
| "matches Acquire e = (e = Acquired)"
| "matches Try_Acquire e = (e = Acquired \<or> e = Try_Failed)"
| "matches (Try_Acquire_For m) e = (e = Acquired \<or> e = Timed_Out)"

definition same_call :: "'pc sem_thread \<Rightarrow> 'pc sem_thread \<Rightarrow> bool" where
  "same_call th th' \<longleftrightarrow> sops th' = sops th \<and> sevents th' = sevents th"

definition returns_with :: "sem_event \<Rightarrow> 'pc sem_thread \<Rightarrow> 'pc sem_thread \<Rightarrow> bool" where
  "returns_with e th th' \<longleftrightarrow> (\<exists>p ps. sops th = p # ps \<and> sops th' = ps \<and> matches p e \<and> sevents th' = e # sevents th)"

text \<open>A place fits the call the thread is in.\<close>

fun caller_op :: "sem_caller \<Rightarrow> sem_op \<Rightarrow> bool" where
  "caller_op From_Try p = (p = Try_Acquire)"
| "caller_op From_Acquire p = (p = Acquire)"
| "caller_op From_Timed p = (\<exists>m. p = Try_Acquire_For m)"

definition sem_place_ok :: "sem_pc sem_thread \<Rightarrow> bool" where
  "sem_place_ok th =
     (case splace th of
        S_Idle \<Rightarrow> True
      | S_Load caller \<Rightarrow> sops th \<noteq> [] \<and> caller_op caller (hd (sops th))
      | S_Cas old caller \<Rightarrow> sops th \<noteq> [] \<and> caller_op caller (hd (sops th)) \<and> old \<noteq> 0
      | S_Slow old caller \<Rightarrow> sops th \<noteq> [] \<and> caller_op caller (hd (sops th)) \<and> old \<noteq> 0
      | S_Poll c \<Rightarrow> sops th \<noteq> [] \<and> caller_op From_Timed (hd (sops th))
      | S_Poll_Slow old c \<Rightarrow> sops th \<noteq> [] \<and> caller_op From_Timed (hd (sops th)) \<and> old \<noteq> 0
      | _ \<Rightarrow> sops th \<noteq> [] \<and> hd (sops th) = Acquire)"

definition bin_place_ok :: "bin_pc sem_thread \<Rightarrow> bool" where
  "bin_place_ok th =
     (case splace th of
        N_Idle \<Rightarrow> True
      | N_Try \<Rightarrow> sops th \<noteq> [] \<and> (\<forall>u. hd (sops th) \<noteq> Release u)
      | N_Wait w \<Rightarrow> sops th \<noteq> [] \<and> hd (sops th) = Acquire
      | N_Poll c \<Rightarrow> sops th \<noteq> [] \<and> caller_op From_Timed (hd (sops th)))"

definition sem_effect :: "int \<Rightarrow> 'pc sem_thread \<Rightarrow> int \<Rightarrow> 'pc sem_thread \<Rightarrow> bool" where
  "sem_effect n th n' th' \<longleftrightarrow>
     same_call th th' \<and> n' = n \<or>
     (\<exists>u. returns_with (Released u) th th' \<and> n' = wrap64 (n + u)) \<or>
     returns_with Acquired th th' \<and> n \<noteq> 0 \<and> n' = wrap64 (n - 1) \<or>
     returns_with Try_Failed th th' \<and> n' = n \<and> n = 0 \<or>
     returns_with Timed_Out th th' \<and> n' = n"

lemma same_call_place [simp]: "same_call th (th\<lparr>splace := pc\<rparr>)"
  by (simp add: same_call_def)

lemma returns_with_done: "sops th \<noteq> [] \<Longrightarrow> matches (hd (sops th)) e \<Longrightarrow> returns_with e th (sem_done pc e th)"
  by (cases "sops th") (auto simp: returns_with_def sem_done_def)

lemma splace_done [simp]: "splace (sem_done pc e th) = pc"
  by (simp add: sem_done_def)

lemma sem_place_ok_idle [simp]: "splace th = S_Idle \<Longrightarrow> sem_place_ok th"
  by (simp add: sem_place_ok_def)

lemma sem_poll_turn_effect:
  assumes "sops th \<noteq> []" "caller_op From_Timed (hd (sops th))"
  shows "sem_place_ok (sem_poll_turn elapsed c th)" "sem_effect n th n (sem_poll_turn elapsed c th)"
proof -
  have "returns_with Timed_Out th (sem_done S_Idle Timed_Out th)" by (rule returns_with_done) (use assms in auto)
  then show "sem_effect n th n (sem_poll_turn elapsed c th)"
    by (auto simp: sem_poll_turn_def poll_with_backoff_step_def sem_effect_def)
  show "sem_place_ok (sem_poll_turn elapsed c th)"
    using assms by (auto simp: sem_poll_turn_def poll_with_backoff_step_def sem_place_ok_def)
qed

lemma fetch_sub_if_fail:
  assumes "sops th \<noteq> []" "caller_op caller (hd (sops th))"
  shows "sem_place_ok (fetch_sub_if_result False caller th)" "sem_effect 0 th 0 (fetch_sub_if_result False caller th)"
proof -
  show "sem_place_ok (fetch_sub_if_result False caller th)" using assms by (cases caller) (auto simp: sem_place_ok_def)
  show "sem_effect 0 th 0 (fetch_sub_if_result False caller th)"
    using assms returns_with_done [of th Try_Failed S_Idle] by (cases caller) (auto simp: sem_effect_def)
qed

lemma sem_acquired:
  assumes "sops th \<noteq> []" "caller_op caller (hd (sops th))" "n \<noteq> 0"
  shows "sem_effect n th (wrap64 (n - 1)) (sem_done S_Idle Acquired th)"
  using assms returns_with_done [of th Acquired S_Idle] by (cases caller) (auto simp: sem_effect_def)

lemma fetch_sub_if_slow_effect:
  assumes "sops th \<noteq> []" "caller_op caller (hd (sops th))"
  shows "sem_place_ok (fetch_sub_if_slow n caller th)" "sem_effect n th n (fetch_sub_if_slow n caller th)"
  using fetch_sub_if_fail [OF assms] assms
  by (auto simp: fetch_sub_if_slow_def sem_place_ok_def sem_effect_def)

lemma sem_poll_next:
  assumes "sops th \<noteq> []" "caller_op From_Timed (hd (sops th))"
    and th'_def: "th' = (if n \<noteq> 0 then th\<lparr>splace := S_Poll_Slow n c\<rparr> else sem_poll_turn elapsed c th)"
  shows "sem_place_ok th' \<and> sem_effect n th n th'"
proof (cases "n = 0")
  case True
  then show ?thesis using sem_poll_turn_effect [OF assms(1,2), where elapsed = elapsed and c = c] by (simp add: th'_def)
next
  case False
  then show ?thesis using assms(1,2) by (simp add: th'_def sem_place_ok_def sem_effect_def)
qed

lemma sem_thread_step_effect:
  assumes "sem_thread_step spurious elapsed n th = (n', th')" "sem_place_ok th"
  shows "sem_place_ok th' \<and> sem_effect n th n' th'"
proof (cases "splace th")
  case S_Idle
  show ?thesis
  proof (cases "sops th")
    case Nil
    then show ?thesis using S_Idle assms by (auto simp: sem_thread_step_def sem_effect_def same_call_def)
  next
    case (Cons p ps)
    show ?thesis
    proof (cases p)
      case (Release u)
      then have "returns_with (Released u) th (sem_done S_Idle (Released u) th)" using Cons by (intro returns_with_done) auto
      then show ?thesis using S_Idle Cons Release assms(1) by (auto simp: sem_thread_step_def sem_effect_def)
    qed (use S_Idle Cons assms(1) in \<open>auto simp: sem_thread_step_def sem_effect_def sem_place_ok_def\<close>)
  qed
next
  case (S_Load caller)
  then have ok: "sops th \<noteq> []" "caller_op caller (hd (sops th))" using assms(2) by (auto simp: sem_place_ok_def)
  show ?thesis
  proof (cases "n = 0")
    case True
    then show ?thesis using S_Load assms(1) fetch_sub_if_fail [OF ok] by (auto simp: sem_thread_step_def)
  next
    case False
    then have "n' = n" "th' = th\<lparr>splace := S_Cas n caller\<rparr>" using S_Load assms(1) by (auto simp: sem_thread_step_def)
    then show ?thesis using ok False by (auto simp: sem_effect_def sem_place_ok_def)
  qed
next
  case (S_Cas old caller)
  then have ok: "sops th \<noteq> []" "caller_op caller (hd (sops th))" "old \<noteq> 0" using assms(2) by (auto simp: sem_place_ok_def)
  show ?thesis using S_Cas assms(1) fetch_sub_if_slow_effect [OF ok(1,2), of n] sem_acquired [OF ok]
    by (auto simp: sem_thread_step_def cas_weak_def split: if_splits)
next
  case (S_Slow old caller)
  then have ok: "sops th \<noteq> []" "caller_op caller (hd (sops th))" "old \<noteq> 0" using assms(2) by (auto simp: sem_place_ok_def)
  show ?thesis using S_Slow assms(1) fetch_sub_if_slow_effect [OF ok(1,2), of n] sem_acquired [OF ok]
    by (auto simp: sem_thread_step_def cas_weak_def split: if_splits)
next
  case S_Wait_Load
  then show ?thesis using assms by (auto simp: sem_thread_step_def sem_place_ok_def sem_effect_def split: if_splits)
next
  case (S_Wait w)
  then show ?thesis using assms by (auto simp: sem_thread_step_def sem_place_ok_def sem_effect_def Let_def split: if_splits)
next
  case (S_Poll c)
  then have ok: "sops th \<noteq> []" "caller_op From_Timed (hd (sops th))" using assms(2) by (auto simp: sem_place_ok_def)
  have "n' = n" "th' = (if n \<noteq> 0 then th\<lparr>splace := S_Poll_Slow n c\<rparr> else sem_poll_turn elapsed c th)"
    using S_Poll assms(1) by (auto simp: sem_thread_step_def)
  then show ?thesis using sem_poll_next [OF ok] by simp
next
  case (S_Poll_Slow old c)
  then have ok: "sops th \<noteq> []" "caller_op From_Timed (hd (sops th))" "old \<noteq> 0" using assms(2) by (auto simp: sem_place_ok_def)
  show ?thesis
  proof (cases "n = old \<and> \<not> spurious")
    case True
    then show ?thesis using S_Poll_Slow assms(1) sem_acquired [OF ok] by (auto simp: sem_thread_step_def cas_weak_def)
  next
    case False
    then have "n' = n" "th' = (if n \<noteq> 0 then th\<lparr>splace := S_Poll_Slow n c\<rparr> else sem_poll_turn elapsed c th)"
      using S_Poll_Slow assms(1) by (auto simp: sem_thread_step_def cas_weak_def)
    then show ?thesis using sem_poll_next [OF ok(1,2)] by simp
  qed
qed

text \<open>
  The binary semaphore: a release sets the flag whatever it was, and an exchange that finds it clear leaves
  it clear.
\<close>

definition bin_effect :: "int \<Rightarrow> 'pc sem_thread \<Rightarrow> int \<Rightarrow> 'pc sem_thread \<Rightarrow> bool" where
  "bin_effect n th n' th' \<longleftrightarrow>
     same_call th th' \<and> n' = n \<or>
     returns_with (Released 1) th th' \<and> n' = 1 \<or>
     returns_with Acquired th th' \<and> n = 1 \<and> n' = 0 \<or>
     returns_with Try_Failed th th' \<and> n' = n \<and> n = 0 \<or>
     returns_with Timed_Out th th' \<and> n' = n"

lemma bin_poll_turn_effect:
  assumes "sops th \<noteq> []" "caller_op From_Timed (hd (sops th))"
  shows "bin_place_ok (bin_poll_turn elapsed c th) \<and> bin_effect n th n (bin_poll_turn elapsed c th)"
proof -
  have "returns_with Timed_Out th (sem_done N_Idle Timed_Out th)" by (rule returns_with_done) (use assms in auto)
  then show ?thesis
    using assms by (auto simp: bin_poll_turn_def poll_with_backoff_step_def bin_effect_def bin_place_ok_def)
qed

lemma bin_thread_step_effect:
  assumes "bin_thread_step elapsed n th = Some (n', th')" "bin_place_ok th" "n = 0 \<or> n = 1"
  shows "bin_place_ok th' \<and> bin_effect n th n' th'"
proof (cases "splace th")
  case N_Idle
  show ?thesis
  proof (cases "sops th")
    case Nil
    then show ?thesis using N_Idle assms by (auto simp: bin_thread_step_def bin_effect_def same_call_def)
  next
    case (Cons p ps)
    show ?thesis
    proof (cases p)
      case (Release u)
      then have "returns_with (Released u) th (sem_done N_Idle (Released u) th)" using Cons by (intro returns_with_done) auto
      then show ?thesis using N_Idle Cons Release assms(1) by (auto simp: bin_thread_step_def bin_effect_def bin_place_ok_def split: if_splits)
    qed (use N_Idle Cons assms(1) in \<open>auto simp: bin_thread_step_def bin_effect_def bin_place_ok_def\<close>)
  qed
next
  case N_Try
  then obtain p ps where ps: "sops th = p # ps" "\<forall>u. p \<noteq> Release u" using assms(2) by (cases "sops th") (auto simp: bin_place_ok_def)
  have "matches p Acquired" using ps(2) by (cases p) auto
  then have acq: "returns_with Acquired th (sem_done N_Idle Acquired th)" using ps(1) by (intro returns_with_done) simp_all
  show ?thesis
  proof (cases "n = 1")
    case True
    then show ?thesis using N_Try assms(1) acq by (auto simp: bin_thread_step_def bin_effect_def bin_place_ok_def)
  next
    case False
    then have n: "n = 0" using assms(3) by simp
    show ?thesis
    proof (cases p)
      case Try_Acquire
      then have "returns_with Try_Failed th (sem_done N_Idle Try_Failed th)" using ps by (intro returns_with_done) auto
      then show ?thesis using N_Try ps Try_Acquire n assms(1) by (auto simp: bin_thread_step_def bin_effect_def bin_place_ok_def)
    qed (use N_Try ps n assms(1) in \<open>auto simp: bin_thread_step_def bin_effect_def bin_place_ok_def\<close>)
  qed
next
  case (N_Wait w)
  then show ?thesis using assms by (auto simp: bin_thread_step_def bin_place_ok_def bin_effect_def Let_def split: if_splits)
next
  case (N_Poll c)
  then have ok: "sops th \<noteq> []" "caller_op From_Timed (hd (sops th))" using assms(2) by (auto simp: bin_place_ok_def)
  have acq: "returns_with Acquired th (sem_done N_Idle Acquired th)" by (rule returns_with_done) (use ok in auto)
  show ?thesis using N_Poll assms(1,3) acq bin_poll_turn_effect [OF ok, of elapsed c n]
    by (auto simp: bin_thread_step_def bin_place_ok_def bin_effect_def split: if_splits)
qed

section \<open>The permits\<close>

definition releases_ok :: "sem_op list \<Rightarrow> bool" where
  "releases_ok ps \<longleftrightarrow> (\<forall>p \<in> set ps. 0 \<le> op_release p)"

lemma matches_release: "matches p e \<Longrightarrow> op_release p = event_released e"
  by (cases p) auto

lemma returns_with_sums:
  assumes "returns_with e th th'"
  shows "held th' = held th + event_acquired e - event_released e" "to_release th' = to_release th - event_released e"
    "releases_ok (sops th) \<Longrightarrow> releases_ok (sops th') \<and> 0 \<le> event_released e"
  using assms matches_release by (auto simp: returns_with_def held_def to_release_def releases_ok_def)

lemma same_call_sums: "same_call th th' \<Longrightarrow> held th' = held th \<and> to_release th' = to_release th"
  by (simp add: same_call_def held_def to_release_def)

definition sem_inv :: "int \<Rightarrow> sem_pc sem_system \<Rightarrow> bool" where
  "sem_inv init s \<longleftrightarrow>
     permits s = init - total_held s \<and> 0 \<le> permits s \<and> permits s + total_to_release s \<le> ptrdiff_max \<and>
     (\<forall>th \<in> set (sthreads s). sem_place_ok th \<and> releases_ok (sops th))"

lemma to_release_nonneg: "releases_ok (sops th) \<Longrightarrow> 0 \<le> to_release th"
  unfolding releases_ok_def to_release_def by (rule sum_list_nonneg) auto

lemma total_to_release_member:
  assumes "\<forall>th \<in> set xs. releases_ok (sops th)" "x \<in> set xs"
  shows "to_release x \<le> sum_list (map to_release xs)"
  using assms
proof (induction xs)
  case (Cons a xs)
  have "0 \<le> sum_list (map to_release xs)" using Cons.prems(1) by (intro sum_list_nonneg) (auto intro: to_release_nonneg)
  then show ?case using Cons to_release_nonneg [of a] by auto
qed simp

lemma sem_step_inv:
  assumes "sem_step t s s'" "sem_inv init s"
  shows "sem_inv init s'"
proof -
  obtain spurious elapsed n th where t: "t < length (sthreads s)"
    and st: "sem_thread_step spurious elapsed (permits s) (sthreads s ! t) = (n, th)"
    and s': "s' = \<lparr>permits = n, sthreads = (sthreads s)[t := th]\<rparr>"
    using assms(1) by (auto elim: sem_stepE)
  let ?th = "sthreads s ! t"
  have mem: "?th \<in> set (sthreads s)" using t by simp
  have ok: "sem_place_ok ?th" "releases_ok (sops ?th)" using assms(2) mem by (auto simp: sem_inv_def)
  have eff: "sem_place_ok th" "sem_effect (permits s) ?th n th" using sem_thread_step_effect [OF st ok(1)] by auto
  have inv: "permits s = init - total_held s" "0 \<le> permits s" "permits s + total_to_release s \<le> ptrdiff_max"
    using assms(2) by (auto simp: sem_inv_def)
  have tot: "total_held s' = total_held s - held ?th + held th" "total_to_release s' = total_to_release s - to_release ?th + to_release th"
    using t s' by (simp_all add: total_held_def total_to_release_def sum_list_update_int)
  have bound: "to_release ?th \<le> total_to_release s" unfolding total_to_release_def
    by (rule total_to_release_member) (use assms(2) mem in \<open>auto simp: sem_inv_def\<close>)
  have core: "n = permits s - (held th - held ?th) \<and> 0 \<le> n \<and> n + to_release th \<le> permits s + to_release ?th \<and> releases_ok (sops th)"
    using eff(2) unfolding sem_effect_def
  proof (elim disjE conjE exE)
    assume "same_call ?th th" "n = permits s"
    then show ?thesis using same_call_sums [of ?th th] ok(2) inv(2) by (simp add: same_call_def)
  next
    fix u
    assume r: "returns_with (Released u) ?th th" and n: "n = wrap64 (permits s + u)"
    note sums = returns_with_sums(1,2) [OF r] returns_with_sums(3) [OF r ok(2)]
    have "0 \<le> to_release th" by (rule to_release_nonneg) (use sums in blast)
    then have "n = permits s + u" using n inv sums bound by (simp add: wrap64_id)
    then show ?thesis using sums inv(2) by simp
  next
    assume r: "returns_with Acquired ?th th" and n: "permits s \<noteq> 0" "n = wrap64 (permits s - 1)"
    have "0 \<le> to_release ?th" by (rule to_release_nonneg [OF ok(2)])
    then have "n = permits s - 1" using n inv bound by (simp add: wrap64_id)
    then show ?thesis using returns_with_sums(1,2) [OF r] returns_with_sums(3) [OF r ok(2)] inv(2) n(1) by simp
  next
    assume r: "returns_with Try_Failed ?th th" and n: "n = permits s"
    then show ?thesis using returns_with_sums(1,2) [OF r] returns_with_sums(3) [OF r ok(2)] inv(2) by simp
  next
    assume r: "returns_with Timed_Out ?th th" and n: "n = permits s"
    then show ?thesis using returns_with_sums(1,2) [OF r] returns_with_sums(3) [OF r ok(2)] inv(2) by simp
  qed
  have "\<forall>x \<in> set (sthreads s'). sem_place_ok x \<and> releases_ok (sops x)"
    using assms(2) eff(1) core s' by (auto simp: sem_inv_def dest: set_updateD)
  then show ?thesis using core tot inv s' by (simp add: sem_inv_def)
qed

lemma sem_reachable_inv:
  assumes "sem_reachable init progs s" "0 \<le> init" "\<forall>ps \<in> set progs. releases_ok ps"
    "init + sum_list (map (\<lambda>ps. sum_list (map op_release ps)) progs) \<le> ptrdiff_max"
  shows "sem_inv init s"
  using assms(1)
proof (induction rule: sem_reachable.induct)
  case sem_start
  show ?case using assms(2-4)
    by (auto simp: sem_inv_def sem_begin_def total_held_def total_to_release_def held_def to_release_def sem_place_ok_def comp_def)
next
  case (sem_next s t s')
  then show ?case by (blast intro: sem_step_inv)
qed

definition bin_inv :: "int \<Rightarrow> bin_pc sem_system \<Rightarrow> bool" where
  "bin_inv init s \<longleftrightarrow> (permits s = 0 \<or> permits s = 1) \<and> permits s + total_held s \<le> init \<and>
     (\<forall>th \<in> set (sthreads s). bin_place_ok th)"

lemma bin_step_inv:
  assumes "bin_step t s s'" "bin_inv init s"
  shows "bin_inv init s'"
proof -
  obtain elapsed n th where t: "t < length (sthreads s)"
    and st: "bin_thread_step elapsed (permits s) (sthreads s ! t) = Some (n, th)"
    and s': "s' = \<lparr>permits = n, sthreads = (sthreads s)[t := th]\<rparr>"
    using assms(1) by (auto elim: bin_stepE)
  let ?th = "sthreads s ! t"
  have inv: "bin_place_ok ?th" "permits s = 0 \<or> permits s = 1" "permits s + total_held s \<le> init"
    using assms(2) t by (auto simp: bin_inv_def)
  have eff: "bin_place_ok th" "bin_effect (permits s) ?th n th" using bin_thread_step_effect [OF st inv(1,2)] by auto
  have tot: "total_held s' = total_held s - held ?th + held th" using t s' by (simp add: total_held_def sum_list_update_int)
  have "(n = 0 \<or> n = 1) \<and> n + held th - held ?th \<le> init - total_held s"
    using eff(2) unfolding bin_effect_def
  proof (elim disjE conjE)
    assume "same_call ?th th" "n = permits s"
    then show ?thesis using same_call_sums [of ?th th] inv by simp
  qed (use inv returns_with_sums(1) [of _ ?th th] in auto)
  moreover have "\<forall>x \<in> set (sthreads s'). bin_place_ok x" using assms(2) eff(1) s' by (auto simp: bin_inv_def dest: set_updateD)
  ultimately show ?thesis using tot s' by (auto simp: bin_inv_def)
qed

lemma bin_reachable_inv:
  assumes "bin_reachable init progs s" "init = 0 \<or> init = 1"
  shows "bin_inv init s"
  using assms(1)
proof (induction rule: bin_reachable.induct)
  case bin_start
  show ?case using assms(2) by (auto simp: bin_inv_def sem_begin_def total_held_def held_def bin_place_ok_def comp_def)
next
  case (bin_next s t s')
  then show ?case by (blast intro: bin_step_inv)
qed

section \<open>Mutual exclusion\<close>

text \<open>Threads that use a semaphore as a lock: acquire and release in turn.\<close>

definition lock_rounds :: "nat \<Rightarrow> sem_op list" where
  "lock_rounds k = concat (replicate k [Acquire, Release 1])"

definition lock_thread :: "'pc sem_thread \<Rightarrow> bool" where
  "lock_thread th \<longleftrightarrow> (\<exists>k. sops th = lock_rounds k \<and> held th = 0 \<or> sops th = Release 1 # lock_rounds k \<and> held th = 1)"

definition in_section :: "'pc sem_thread \<Rightarrow> bool" where
  "in_section th \<longleftrightarrow> sops th \<noteq> [] \<and> hd (sops th) = Release 1"

lemma lock_rounds_Suc: "lock_rounds (Suc k) = Acquire # Release 1 # lock_rounds k"
  by (simp add: lock_rounds_def)

lemma lock_thread_held: "lock_thread th \<Longrightarrow> held th = of_bool (in_section th)"
  unfolding lock_thread_def
proof (elim exE disjE)
  fix k
  assume "sops th = lock_rounds k \<and> held th = 0"
  then show ?thesis by (cases k) (auto simp: in_section_def lock_rounds_def)
qed (simp add: in_section_def)

lemma lock_thread_next:
  assumes "lock_thread th" "same_call th th' \<or> (\<exists>e. returns_with e th th')"
  shows "lock_thread th'"
  using assms(2)
proof
  assume "same_call th th'"
  then show ?thesis using assms(1) same_call_sums [of th th'] by (simp add: lock_thread_def same_call_def)
next
  assume "\<exists>e. returns_with e th th'"
  then obtain e p ps where e: "returns_with e th th'" "sops th = p # ps" "sops th' = ps" "matches p e"
    by (auto simp: returns_with_def)
  obtain k where "sops th = lock_rounds k \<and> held th = 0 \<or> sops th = Release 1 # lock_rounds k \<and> held th = 1"
    using assms(1) by (auto simp: lock_thread_def)
  then show ?thesis
  proof
    assume a: "sops th = lock_rounds k \<and> held th = 0"
    then obtain j where "k = Suc j" using e(2) by (cases k) (auto simp: lock_rounds_def)
    then have "p = Acquire" "ps = Release 1 # lock_rounds j" using a e(2) by (auto simp: lock_rounds_Suc)
    moreover have "e = Acquired" using e(4) \<open>p = Acquire\<close> by simp
    then have "held th' = 1" using returns_with_sums(1) [OF e(1)] a by simp
    ultimately show ?thesis using e(3) by (auto simp: lock_thread_def)
  next
    assume a: "sops th = Release 1 # lock_rounds k \<and> held th = 1"
    then have "e = Released 1" "ps = lock_rounds k" using e(2,4) by auto
    then have "held th' = 0" "sops th' = lock_rounds k" using returns_with_sums(1) [OF e(1)] a e(3) by simp_all
    then show ?thesis by (auto simp: lock_thread_def)
  qed
qed

text \<open>The contract of a semaphore towards such threads, and what follows from it.\<close>

locale lock_contract =
  fixes reach :: "'pc sem_system \<Rightarrow> bool"
  assumes held_bound: "reach s \<Longrightarrow> total_held s \<le> 1"
    and locking: "reach s \<Longrightarrow> th \<in> set (sthreads s) \<Longrightarrow> lock_thread th"
begin

lemma exclusive:
  assumes "reach s" "i < length (sthreads s)" "j < length (sthreads s)" "i \<noteq> j" "in_section (sthreads s ! i)"
  shows "\<not> in_section (sthreads s ! j)"
proof
  assume j: "in_section (sthreads s ! j)"
  have h: "held (sthreads s ! k) = of_bool (in_section (sthreads s ! k))" if "k < length (sthreads s)" for k
    by (rule lock_thread_held) (use locking [OF assms(1)] that in simp)
  have "(\<Sum>k \<in> {i, j}. held (sthreads s ! k)) \<le> (\<Sum>k = 0..<length (sthreads s). held (sthreads s ! k))"
    by (rule sum_mono2) (use assms h in auto)
  also have "\<dots> = total_held s" by (simp add: total_held_def sum_list_sum_nth)
  finally show False using held_bound [OF assms(1)] h [OF assms(2)] h [OF assms(3)] assms(4,5) j by simp
qed

end

lemma sem_reachable_lock:
  assumes "sem_reachable 1 (map lock_rounds ks) s" "1 + int (sum_list ks) \<le> ptrdiff_max"
  shows "sem_inv 1 s \<and> (\<forall>th \<in> set (sthreads s). lock_thread th)"
proof -
  have rel: "sum_list (map op_release (lock_rounds k)) = int k" for k by (induction k) (auto simp: lock_rounds_Suc, simp add: lock_rounds_def)
  have tot: "sum_list (map (\<lambda>ps. sum_list (map op_release ps)) (map lock_rounds ks)) = int (sum_list ks)"
    by (induction ks) (simp_all add: rel)
  have ok: "\<forall>ps \<in> set (map lock_rounds ks). releases_ok ps" by (auto simp: releases_ok_def lock_rounds_def)
  have inv: "sem_inv 1 x" if "sem_reachable 1 (map lock_rounds ks) x" for x
    by (rule sem_reachable_inv [OF that]) (use ok tot assms(2) in auto)
  have "\<forall>th \<in> set (sthreads s). lock_thread th" using assms(1)
  proof (induction rule: sem_reachable.induct)
    case sem_start
    show ?case by (auto simp: sem_begin_def lock_thread_def held_def)
  next
    case (sem_next s t s')
    then obtain spurious elapsed n th where t: "t < length (sthreads s)"
      and st: "sem_thread_step spurious elapsed (permits s) (sthreads s ! t) = (n, th)" and s': "sthreads s' = (sthreads s)[t := th]"
      by (auto elim: sem_stepE)
    have "sem_place_ok (sthreads s ! t)" using inv [OF sem_next.hyps(1)] t by (auto simp: sem_inv_def)
    then have "sem_effect (permits s) (sthreads s ! t) n th" using sem_thread_step_effect [OF st] by blast
    then have "lock_thread th" using lock_thread_next [of "sthreads s ! t" th] sem_next.IH t by (auto simp: sem_effect_def)
    then show ?case using sem_next.IH s' by (auto dest: set_updateD)
  qed
  then show ?thesis using inv [OF assms(1)] by blast
qed

lemma bin_reachable_lock:
  assumes "bin_reachable 1 (map lock_rounds ks) s"
  shows "bin_inv 1 s \<and> (\<forall>th \<in> set (sthreads s). lock_thread th)"
proof -
  have inv: "bin_inv 1 x" if "bin_reachable 1 (map lock_rounds ks) x" for x by (rule bin_reachable_inv [OF that]) simp
  have "\<forall>th \<in> set (sthreads s). lock_thread th" using assms(1)
  proof (induction rule: bin_reachable.induct)
    case bin_start
    show ?case by (auto simp: sem_begin_def lock_thread_def held_def)
  next
    case (bin_next s t s')
    then obtain elapsed n th where t: "t < length (sthreads s)"
      and st: "bin_thread_step elapsed (permits s) (sthreads s ! t) = Some (n, th)" and s': "sthreads s' = (sthreads s)[t := th]"
      by (auto elim: bin_stepE)
    have "bin_place_ok (sthreads s ! t)" "permits s = 0 \<or> permits s = 1" using inv [OF bin_next.hyps(1)] t by (auto simp: bin_inv_def)
    then have "bin_effect (permits s) (sthreads s ! t) n th" using bin_thread_step_effect [OF st] by blast
    then have "lock_thread th" using lock_thread_next [of "sthreads s ! t" th] bin_next.IH t by (auto simp: bin_effect_def)
    then show ?case using bin_next.IH s' by (auto dest: set_updateD)
  qed
  then show ?thesis using inv [OF assms] by blast
qed

interpretation counting: lock_contract "\<lambda>s. sem_reachable 1 (map lock_rounds ks) s \<and> 1 + int (sum_list ks) \<le> ptrdiff_max" for ks
proof
  fix s :: "sem_pc sem_system" and th
  assume s: "sem_reachable 1 (map lock_rounds ks) s \<and> 1 + int (sum_list ks) \<le> ptrdiff_max"
  note inv = sem_reachable_lock [OF conjunct1 [OF s] conjunct2 [OF s]]
  show "total_held s \<le> 1" using inv by (simp add: sem_inv_def)
  show "th \<in> set (sthreads s) \<Longrightarrow> lock_thread th" using inv by blast
qed

interpretation binary: lock_contract "bin_reachable 1 (map lock_rounds ks)" for ks
proof
  fix s :: "bin_pc sem_system" and th
  assume "bin_reachable 1 (map lock_rounds ks) s"
  note inv = bin_reachable_lock [OF this]
  show "total_held s \<le> 1" using inv by (auto simp: bin_inv_def)
  show "th \<in> set (sthreads s) \<Longrightarrow> lock_thread th" using inv by blast
qed

section \<open>Correctness\<close>

text \<open>
  C17: the permits of the counting semaphore.  Any number of threads make any calls, with updates that are
  not negative and do not take the counter over its largest value.  In every reachable state the counter
  is the initial count plus the permits released less the calls that have acquired, and is not negative:
  no more calls acquire than there are permits.
\<close>

theorem counting_semaphore_safe:
  assumes "sem_reachable init progs s" "0 \<le> init" "\<forall>ps \<in> set progs. releases_ok ps"
    "init + sum_list (map (\<lambda>ps. sum_list (map op_release ps)) progs) \<le> ptrdiff_max"
  shows "permits s = init - total_held s \<and> 0 \<le> permits s"
  using sem_reachable_inv [OF assms] by (simp add: sem_inv_def)

theorem counting_semaphore_safe_witness:
  "\<exists>s. sem_reachable 2 [[Acquire], [Release 3, Try_Acquire]] s \<and> permits s = 5 \<and> permits s = 2 - total_held s \<and> 0 \<le> permits s"
proof -
  let ?p = "[[Acquire], [Release 3, Try_Acquire]]" and ?b = "sem_begin S_Idle 2 [[Acquire], [Release 3, Try_Acquire]]"
  let ?s = "\<lparr>permits = 5, sthreads = (sthreads ?b)[1 := sem_done S_Idle (Released 3) (sthreads ?b ! 1)]\<rparr>"
  have "sem_step 1 ?b ?s"
    by (rule sem_stepI [where spurious = False and elapsed = 0]) (simp_all add: sem_begin_def sem_thread_step_def wrap64_def)
  then have r: "sem_reachable 2 ?p ?s" by (rule sem_next [OF sem_start])
  moreover have "permits ?s = 2 - total_held ?s \<and> 0 \<le> permits ?s"
    by (rule counting_semaphore_safe [OF r]) (simp_all add: releases_ok_def ptrdiff_max_def)
  ultimately show ?thesis by (intro exI [of _ ?s]) simp
qed

text \<open>
  C18: mutual exclusion.  Threads that acquire and release in turn, any number of times, on a counting
  semaphore with one permit or on a binary semaphore that is available: in no reachable state are two of
  them between an acquire and its release.
\<close>

theorem semaphore_exclusion:
  assumes "i \<noteq> j" "1 + int (sum_list ks) \<le> ptrdiff_max"
  shows "(sem_reachable 1 (map lock_rounds ks) s \<and> i < length (sthreads s) \<and> j < length (sthreads s) \<longrightarrow>
      \<not> (in_section (sthreads s ! i) \<and> in_section (sthreads s ! j))) \<and>
    (bin_reachable 1 (map lock_rounds ks) b \<and> i < length (sthreads b) \<and> j < length (sthreads b) \<longrightarrow>
      \<not> (in_section (sthreads b ! i) \<and> in_section (sthreads b ! j)))"
  using counting.exclusive [of ks s i j] binary.exclusive [of ks b i j] assms by blast

lemma lock_reachable:
  "bin_reachable 1 (map lock_rounds [1, 1])
     \<lparr>permits = 0, sthreads = [\<lparr>sops = [Release 1], splace = N_Idle, sevents = [Acquired]\<rparr>, \<lparr>sops = [Acquire, Release 1], splace = N_Idle, sevents = []\<rparr>]\<rparr>"
proof -
  let ?b = "sem_begin N_Idle 1 (map lock_rounds [1, 1])"
  have 0: "bin_reachable 1 (map lock_rounds [1, 1]) ?b" by (rule bin_start)
  have 1: "bin_step 0 ?b \<lparr>permits = 1, sthreads = (sthreads ?b)[0 := (sthreads ?b ! 0)\<lparr>splace := N_Try\<rparr>]\<rparr>" (is "bin_step 0 _ ?s")
    by (rule bin_stepI [where elapsed = 0]) (simp_all add: sem_begin_def bin_thread_step_def lock_rounds_def)
  have 2: "bin_step 0 ?s \<lparr>permits = 0, sthreads = (sthreads ?s)[0 := sem_done N_Idle Acquired (sthreads ?s ! 0)]\<rparr>"
    by (rule bin_stepI [where elapsed = 0]) (simp_all add: sem_begin_def bin_thread_step_def)
  show ?thesis using bin_next [OF bin_next [OF 0 1] 2] by (simp add: sem_begin_def sem_done_def lock_rounds_def)
qed

theorem semaphore_exclusion_witness:
  "bin_reachable 1 (map lock_rounds [1, 1])
     \<lparr>permits = 0, sthreads = [\<lparr>sops = [Release 1], splace = N_Idle, sevents = [Acquired]\<rparr>, \<lparr>sops = [Acquire, Release 1], splace = N_Idle, sevents = []\<rparr>]\<rparr> \<and>
   \<not> (in_section \<lparr>sops = [Release 1], splace = N_Idle, sevents = [Acquired]\<rparr> \<and>
      in_section \<lparr>sops = [Acquire, Release 1], splace = N_Idle, sevents = []\<rparr>)"
proof -
  let ?b = "\<lparr>permits = 0, sthreads = [\<lparr>sops = [Release 1], splace = N_Idle, sevents = [Acquired]\<rparr>,
    \<lparr>sops = [Acquire, Release 1], splace = N_Idle, sevents = []\<rparr>]\<rparr>"
  have "0 \<noteq> (1 :: nat)" "1 + int (sum_list [1, 1]) \<le> ptrdiff_max" by (simp_all add: ptrdiff_max_def)
  from semaphore_exclusion [OF this, of undefined ?b] show ?thesis using lock_reachable by simp
qed

text \<open>
  \<open>try_acquire\<close> has no spurious failure.  In a reachable state of the counting semaphore, a step with
  which a \<open>try_acquire\<close> returns \<open>false\<close> sees no permit, although its compare-and-exchange may fail
  spuriously and may lose to any number of other threads.
\<close>

theorem try_acquire_fails_only_unavailable:
  assumes "sem_reachable init progs s" "0 \<le> init" "\<forall>ps \<in> set progs. releases_ok ps"
    "init + sum_list (map (\<lambda>ps. sum_list (map op_release ps)) progs) \<le> ptrdiff_max"
    "sem_step t s s'" "sevents (sthreads s' ! t) = Try_Failed # sevents (sthreads s ! t)"
  shows "permits s = 0 \<and> permits s' = 0"
proof -
  obtain spurious elapsed n th where t: "t < length (sthreads s)"
    and st: "sem_thread_step spurious elapsed (permits s) (sthreads s ! t) = (n, th)"
    and s': "s' = \<lparr>permits = n, sthreads = (sthreads s)[t := th]\<rparr>"
    using assms(5) by (auto elim: sem_stepE)
  have "sem_place_ok (sthreads s ! t)" using sem_reachable_inv [OF assms(1-4)] t by (auto simp: sem_inv_def)
  then have "sem_effect (permits s) (sthreads s ! t) n th" using sem_thread_step_effect [OF st] by blast
  then show ?thesis using assms(6) s' t by (auto simp: sem_effect_def same_call_def returns_with_def)
qed

theorem try_acquire_fails_only_unavailable_witness:
  "\<exists>s s'. sem_step 0 s s' \<and> sevents (sthreads s' ! 0) = [Try_Failed] \<and> permits s = 0 \<and> permits s' = 0"
proof -
  let ?b = "sem_begin S_Idle 0 [[Try_Acquire]]"
  let ?s = "\<lparr>permits = 0, sthreads = (sthreads ?b)[0 := (sthreads ?b ! 0)\<lparr>splace := S_Load From_Try\<rparr>]\<rparr>"
  let ?s' = "\<lparr>permits = 0, sthreads = (sthreads ?s)[0 := sem_done S_Idle Try_Failed (sthreads ?s ! 0)]\<rparr>"
  have 1: "sem_step 0 ?b ?s"
    by (rule sem_stepI [where spurious = False and elapsed = 0]) (simp_all add: sem_begin_def sem_thread_step_def)
  have 2: "sem_step 0 ?s ?s'"
    by (rule sem_stepI [where spurious = False and elapsed = 0]) (simp_all add: sem_begin_def sem_thread_step_def)
  have "permits ?s = 0 \<and> permits ?s' = 0"
    by (rule try_acquire_fails_only_unavailable [OF sem_next [OF sem_start 1] _ _ _ 2])
      (simp_all add: releases_ok_def ptrdiff_max_def sem_begin_def sem_done_def)
  moreover have "sevents (sthreads ?s' ! 0) = [Try_Failed]" by (simp add: sem_begin_def sem_done_def)
  ultimately show ?thesis using 2 by blast
qed

text \<open>
  C40: a time limit of 0 is no limit.  A call of \<open>try_acquire_for\<close> with a duration of 0 on a semaphore
  without permits stays in its polling loop in every reachable state, however much time has elapsed: the
  loop takes a limit of 0 for the absence of a limit.
\<close>

theorem try_acquire_for_zero_blocks:
  assumes "sem_reachable 0 [[Try_Acquire_For 0]] s"
  shows "sops (sthreads s ! 0) = [Try_Acquire_For 0] \<and> sevents (sthreads s ! 0) = []"
proof -
  have "permits s = 0 \<and> length (sthreads s) = 1 \<and> sops (sthreads s ! 0) = [Try_Acquire_For 0] \<and> sevents (sthreads s ! 0) = [] \<and>
    (case splace (sthreads s ! 0) of S_Idle \<Rightarrow> True | S_Load caller \<Rightarrow> caller = From_Timed | S_Poll c \<Rightarrow> True | _ \<Rightarrow> False)"
    using assms
  proof (induction rule: sem_reachable.induct)
    case sem_start
    show ?case by (simp add: sem_begin_def)
  next
    case (sem_next s t s')
    then obtain spurious elapsed n th where t: "t = 0"
      and st: "sem_thread_step spurious elapsed (permits s) (sthreads s ! 0) = (n, th)"
      and s': "s' = \<lparr>permits = n, sthreads = (sthreads s)[0 := th]\<rparr>"
      by (auto elim!: sem_stepE)
    show ?case using sem_next.IH st s'
      by (auto simp: sem_thread_step_def sem_poll_turn_def poll_with_backoff_step_def sem_elapsed_def split: if_splits sem_pc.splits)
  qed
  then show ?thesis by blast
qed

theorem try_acquire_for_zero_blocks_witness:
  "\<exists>s. sem_step 0 (sem_begin S_Idle 0 [[Try_Acquire_For 0]]) s \<and> s \<noteq> sem_begin S_Idle 0 [[Try_Acquire_For 0]] \<and>
    sops (sthreads s ! 0) = [Try_Acquire_For 0] \<and> sevents (sthreads s ! 0) = []"
proof -
  let ?b = "sem_begin S_Idle 0 [[Try_Acquire_For 0]]"
  let ?s = "\<lparr>permits = 0, sthreads = (sthreads ?b)[0 := (sthreads ?b ! 0)\<lparr>splace := S_Load From_Timed\<rparr>]\<rparr>"
  have 1: "sem_step 0 ?b ?s"
    by (rule sem_stepI [where spurious = False and elapsed = 0]) (simp_all add: sem_begin_def sem_thread_step_def)
  have "?s \<noteq> ?b" by (simp add: sem_begin_def)
  then show ?thesis using 1 try_acquire_for_zero_blocks [OF sem_next [OF sem_start 1]] by blast
qed

end
