(* ===== verification/Int_Math.thy ===== *)
theory Int_Math
  imports Bit_Ops
begin

unbundle bit_operations_syntax

text \<open>
  Integer arithmetic of \<^verbatim>\<open>cuda/__cmath\<close> and \<^verbatim>\<open>cuda/__numeric\<close> at the width of its types: negation and
  absolute value without overflow, division rounding up, integer logarithms, the upper half of a
  product, and addition and multiplication that report overflow.  A signed value is the signed
  reading of a word.
\<close>

section \<open>Definitions\<close>

subsection \<open>neg.h, uabs.h, ceil\_div.h\<close>

definition neg :: "'a::len word \<Rightarrow> 'a word" where
  "neg v = NOT v + 1"

definition uabs :: "'a::len word \<Rightarrow> 'a word" where
  "uabs v = (if sint v < 0 then neg v else v)"

text \<open>
  \<^verbatim>\<open>ceil_div\<close>: for a signed promoted type, in its unsigned counterpart; for an unsigned type on the
  host, and on the device.  \<open>None\<close> is a failing assertion.
\<close>

definition ceil_div_signed :: "'a::len word \<Rightarrow> 'a word \<Rightarrow> 'a word option" where
  "ceil_div_signed a b = (if sint b \<le> 0 \<or> sint a < 0 then None else Some ((a + b - 1) div b))"

definition ceil_div_host :: "'a::len word \<Rightarrow> 'a word \<Rightarrow> 'a word option" where
  "ceil_div_host a b = (if b = 0 then None else let res = a div b in Some (res + of_bool (res * b \<noteq> a)))"

definition ceil_div_device :: "'a::len word \<Rightarrow> 'a word \<Rightarrow> 'a word option" where
  "ceil_div_device a b = (if b = 0 then None else Some (min a (1 + (a - 1) div b)))"

subsection \<open>ilog.h\<close>

definition ilog2 :: "'a::len word \<Rightarrow> nat option" where
  "ilog2 t = (if t = 0 then None else Some (unat (bit_log2 t)))"

definition power_of_10_32bit :: "32 word list" where
  "power_of_10_32bit = map (\<lambda>k. 10 ^ k) [1..<10] @ [- 1]"

definition power_of_10_64bit :: "64 word list" where
  "power_of_10_64bit = map (\<lambda>k. 10 ^ k) [1..<20] @ [- 1]"

definition power_of_10_128bit :: "128 word list" where
  "power_of_10_128bit = map (\<lambda>k. 10 ^ k) [1..<39] @ [- 1]"

text \<open>
  The product with \<^verbatim>\<open>0.301029995663f\<close> in single precision: the constant is \<open>10100891 / 2 ^ 25\<close>, and
  the product is rounded to 24 significant bits, to nearest, ties to even.
\<close>

fun f32_exp :: "nat \<Rightarrow> nat" where
  "f32_exp k = (if k < 2 ^ 24 then 0 else Suc (f32_exp (k div 2)))"

declare f32_exp.simps [simp del]

definition f32_round :: "nat \<Rightarrow> nat" where
  "f32_round k =
     (if k < 2 ^ 24 then k
      else let e = f32_exp k; q = k div 2 ^ e; r = k mod 2 ^ e; h = 2 ^ (e - 1) in
        (if h < r \<or> (r = h \<and> odd q) then q + 1 else q) * 2 ^ e)"

definition log10_approx :: "nat \<Rightarrow> nat" where
  "log10_approx log2' = f32_round (log2' * 10100891) div 2 ^ 25"

text \<open>
  \<open>same_type\<close> is the test whether the type is \<^verbatim>\<open>uint32_t\<close> or \<^verbatim>\<open>__uint128_t\<close> itself, where the comparison adds 1
  and relies on wrap-around.
\<close>

definition ilog10 :: "bool \<Rightarrow> 'a::len word \<Rightarrow> nat option" where
  "ilog10 same_type t =
     (case ilog2 t of
        None \<Rightarrow> None
      | Some l \<Rightarrow>
          let approx = log10_approx l in
          if LENGTH('a) \<le> 32 then
            (if length power_of_10_32bit \<le> approx then None
             else if same_type \<and> LENGTH('a) = 32
             then Some (approx + of_bool ((ucast t :: 32 word) + 1 > power_of_10_32bit ! approx))
             else Some (approx + of_bool ((ucast t :: 32 word) \<ge> power_of_10_32bit ! approx)))
          else if LENGTH('a) = 64 then
            (if length power_of_10_64bit \<le> approx then None
             else Some (approx + of_bool ((ucast t :: 64 word) \<ge> power_of_10_64bit ! approx)))
          else
            (if length power_of_10_128bit \<le> approx then None
             else if same_type then Some (approx + of_bool ((ucast t :: 128 word) + 1 > power_of_10_128bit ! approx))
             else Some (approx + of_bool ((ucast t :: 128 word) \<ge> power_of_10_128bit ! approx))))"

definition ceil_ilog10 :: "bool \<Rightarrow> 'a::len word \<Rightarrow> nat option" where
  "ceil_ilog10 same_type t =
     (if t = 0 then None else if t = 1 then Some 0 else map_option (\<lambda>l. l + 1) (ilog10 same_type (t - 1)))"

subsection \<open>mul\_hi.h, add\_overflow.h, mul\_overflow.h\<close>

record 'a overflow_result =
  ovalue :: 'a
  oflag :: bool

definition mul_hi_fallback :: "'a::len word \<Rightarrow> 'a word \<Rightarrow> 'a word" where
  "mul_hi_fallback lhs rhs =
     (let half_bits = LENGTH('a) div 2;
          lhs_low = take_bit half_bits lhs;
          lhs_high = take_bit half_bits (drop_bit half_bits lhs);
          rhs_low = take_bit half_bits rhs;
          rhs_high = take_bit half_bits (drop_bit half_bits rhs);
          po_half = drop_bit half_bits (lhs_low * rhs_low);
          p1 = lhs_low * rhs_high;
          p2 = lhs_high * rhs_low;
          p3 = lhs_high * rhs_high;
          p1_half = take_bit half_bits p1;
          p2_half = take_bit half_bits p2;
          carry = drop_bit half_bits (po_half + p1_half + p2_half)
      in p3 + drop_bit half_bits p1 + drop_bit half_bits p2 + carry)"

definition add_overflow_generic_impl :: "'a::len word \<Rightarrow> 'a word \<Rightarrow> 'a word overflow_result" where
  "add_overflow_generic_impl lhs rhs = (let sum' = lhs + rhs in \<lparr>ovalue = sum', oflag = sum' < lhs\<rparr>)"

definition add_overflow_generic_signed :: "'a::len word \<Rightarrow> 'a word \<Rightarrow> 'a word overflow_result" where
  "add_overflow_generic_signed lhs rhs =
     (let sum' = lhs + rhs in \<lparr>ovalue = sum', oflag = ((sint sum' < sint lhs) = (sint rhs \<ge> 0))\<rparr>)"

text \<open>
  \<^verbatim>\<open>__mul_overflow_generic\<close> on two values of one unsigned type: in a type of twice the width where
  there is one (\<open>wider\<close>), with the upper half of the product otherwise.
\<close>

definition mul_overflow_generic :: "bool \<Rightarrow> 'a::len word \<Rightarrow> 'a word \<Rightarrow> 'a word overflow_result" where
  "mul_overflow_generic wider lhs rhs =
     (if wider then let result = unat lhs * unat rhs in \<lparr>ovalue = of_nat result, oflag = \<not> result \<le> 2 ^ LENGTH('a) - 1\<rparr>
      else \<lparr>ovalue = lhs * rhs, oflag = mul_hi_fallback lhs rhs \<noteq> 0\<rparr>)"

section \<open>Negation, absolute value, division\<close>

lemma neg_eq: "neg v = - v"
  by (simp add: neg_def minus_eq_not_plus_1)

lemma uint_signed: "uint v = (if sint v < 0 then sint v + 2 ^ LENGTH('a) else sint v)" for v :: "'a::len word"
proof -
  have half: "(2 :: int) ^ LENGTH('a) = 2 * 2 ^ (LENGTH('a) - 1)" by (simp flip: power_Suc)
  have r: "- (2 ^ (LENGTH('a) - 1)) \<le> sint v" "sint v < 2 ^ (LENGTH('a) - 1)" by (rule sint_ge, rule sint_lt)
  have "uint v = sint v mod 2 ^ LENGTH('a)" by (simp add: uint_sint take_bit_eq_mod)
  also have "\<dots> = (if sint v < 0 then sint v + 2 ^ LENGTH('a) else sint v)"
    using r half mod_pos_pos_trivial [of "sint v + 2 ^ LENGTH('a)" "2 ^ LENGTH('a)"] by (auto simp: mod_pos_pos_trivial)
  finally show ?thesis .
qed

lemma uabs_eq: "int (unat (uabs v)) = \<bar>sint v\<bar>" for v :: "'a::len word"
proof (cases "sint v < 0")
  case True
  then have "uint v \<noteq> 0" using sint_ge [of v] by (auto simp: sint_uint)
  then have "uint (- v) = 2 ^ LENGTH('a) - uint v"
    using uint_lt2p [of v] by (simp add: uint_word_ariths zmod_zminus1_eq_if)
  with True uint_signed [of v] show ?thesis by (simp add: uabs_def neg_eq)
next
  case False
  then show ?thesis using uint_signed [of v] by (simp add: uabs_def)
qed

definition ceil_quot :: "nat \<Rightarrow> nat \<Rightarrow> nat" where
  "ceil_quot a b = (a + b - 1) div b"

lemma ceil_quot_div:
  assumes "0 < b"
  shows "ceil_quot a b = a div b + of_bool (a div b * b \<noteq> a)"
proof -
  have a: "a = b * (a div b) + a mod b" and r: "a mod b < b" using assms by simp_all
  show ?thesis
  proof (cases "a mod b = 0")
    case True
    then have "(a + b - 1) div b = a div b" by (intro div_nat_eqI) (use a r assms in \<open>simp_all add: algebra_simps\<close>)
    then show ?thesis using True a by (simp add: ceil_quot_def algebra_simps)
  next
    case False
    have "(a + b - 1) div b = Suc (a div b)"
    proof (rule div_nat_eqI)
      have "b * (a div b) + 1 \<le> a" using a False by linarith
      then show "b * Suc (a div b) \<le> a + b - 1" by simp
      have "a < b * (a div b) + b" using a r by linarith
      then show "a + b - 1 < b * Suc (Suc (a div b))" by simp
    qed
    moreover have "a div b * b \<noteq> a" using a False by (metis add_cancel_right_right mult.commute)
    ultimately show ?thesis by (simp add: ceil_quot_def)
  qed
qed

lemma ceil_quot_pred: "0 < b \<Longrightarrow> 0 < a \<Longrightarrow> ceil_quot a b = 1 + (a - 1) div b"
proof -
  assume "0 < b" "0 < a"
  then have "a + b - 1 = (a - 1) + b" by simp
  then have "(a + b - 1) div b = ((a - 1) + b) div b" by (rule arg_cong)
  also have "\<dots> = (a - 1) div b + 1" using \<open>0 < b\<close> by (intro div_add_self2) simp
  finally show ?thesis by (simp only: ceil_quot_def add.commute)
qed

lemma ceil_quot_le: "0 < b \<Longrightarrow> ceil_quot a b \<le> a"
proof (cases "a = 0")
  case False
  assume "0 < b"
  then have "ceil_quot a b = 1 + (a - 1) div b" using False by (intro ceil_quot_pred) auto
  moreover have "(a - 1) div b \<le> a - 1" by (rule div_le_dividend)
  ultimately show ?thesis using False by linarith
qed (simp add: ceil_quot_def)

lemma unat_word_div: "unat (a div b) = unat a div unat b" for a b :: "'a::len word"
  by (rule unat_div_distrib)

lemma unat_add_small: "unat a + unat b < 2 ^ LENGTH('a) \<Longrightarrow> unat (a + b) = unat a + unat b" for a b :: "'a::len word"
  by (simp add: unat_word_ariths)

lemma unat_mult_small: "unat a * unat b < 2 ^ LENGTH('a) \<Longrightarrow> unat (a * b) = unat a * unat b" for a b :: "'a::len word"
  by (simp add: unat_word_ariths)

lemma ceil_div_host_eq:
  fixes a b :: "'a::len word"
  assumes "b \<noteq> 0"
  shows "\<exists>r. ceil_div_host a b = Some r \<and> unat r = ceil_quot (unat a) (unat b)"
proof -
  have b: "0 < unat b" using assms by (simp add: unat_gt_0)
  have lt: "unat a < 2 ^ LENGTH('a)" by (rule unsigned_less)
  have "unat a div unat b * unat b \<le> unat a" by simp
  then have "unat a div unat b * unat b < 2 ^ LENGTH('a)" using lt by (rule order.strict_trans1)
  then have "unat (a div b * b) = unat a div unat b * unat b"
    by (subst unat_mult_small) (simp_all add: unat_word_div)
  then have eq: "(a div b * b \<noteq> a) = (unat a div unat b * unat b \<noteq> unat a)" by (metis word_unat_eq_iff)
  have "ceil_quot (unat a) (unat b) < 2 ^ LENGTH('a)" using ceil_quot_le [OF b, of "unat a"] lt by (rule order.strict_trans1)
  then have "unat (a div b + of_bool (a div b * b \<noteq> a)) = ceil_quot (unat a) (unat b)"
    unfolding ceil_quot_div [OF b] eq by (cases "unat a div unat b * unat b = unat a") (simp_all add: unat_word_div unat_add_small)
  then show ?thesis using assms by (simp add: ceil_div_host_def Let_def)
qed

lemma ceil_div_device_eq:
  fixes a b :: "'a::len word"
  assumes "b \<noteq> 0"
  shows "\<exists>r. ceil_div_device a b = Some r \<and> unat r = ceil_quot (unat a) (unat b)"
proof -
  have b: "0 < unat b" using assms by (simp add: unat_gt_0)
  have "unat (min a (1 + (a - 1) div b)) = ceil_quot (unat a) (unat b)"
  proof (cases "a = 0")
    case True
    then show ?thesis using b by (simp add: ceil_quot_def)
  next
    case False
    then have a: "0 < unat a" by (simp add: unat_gt_0)
    have "unat (a - 1) = unat a - 1" using False by (simp add: unat_minus_one)
    then have q: "unat ((a - 1) div b) = (unat a - 1) div unat b" by (simp add: unat_word_div)
    have le: "1 + (unat a - 1) div unat b \<le> unat a" using ceil_quot_pred [OF b a] ceil_quot_le [OF b, of "unat a"] by simp
    moreover have "unat a < 2 ^ LENGTH('a)" by (rule unsigned_less)
    ultimately have "1 + (unat a - 1) div unat b < 2 ^ LENGTH('a)" by (rule order.strict_trans1)
    then have "unat (1 :: 'a word) + unat ((a - 1) div b) < 2 ^ LENGTH('a)" unfolding q by simp
    from unat_add_small [OF this] have u: "unat (1 + (a - 1) div b) = ceil_quot (unat a) (unat b)"
      unfolding q ceil_quot_pred [OF b a] by simp
    then have "1 + (a - 1) div b \<le> a" using ceil_quot_le [OF b, of "unat a"] by (simp add: word_le_nat_alt)
    then have "min a (1 + (a - 1) div b) = 1 + (a - 1) div b" by (rule min_absorb2)
    then show ?thesis using u by simp
  qed
  then show ?thesis using assms by (simp add: ceil_div_device_def)
qed

lemma sint_nonneg_unat: "0 \<le> sint x \<Longrightarrow> sint x = int (unat x)" for x :: "'a::len word"
  using uint_signed [of x] by simp

lemma sint_nonneg_half: "0 \<le> sint x \<Longrightarrow> 2 * unat x < 2 ^ LENGTH('a)" for x :: "'a::len word"
proof -
  assume "0 \<le> sint x"
  then have "int (unat x) < 2 ^ (LENGTH('a) - 1)" using sint_lt [of x] sint_nonneg_unat [of x] by simp
  then have "unat x < 2 ^ (LENGTH('a) - 1)" by (metis of_nat_less_iff of_nat_numeral of_nat_power)
  moreover have "(2 :: nat) ^ LENGTH('a) = 2 * 2 ^ (LENGTH('a) - 1)" by (simp flip: power_Suc)
  ultimately show ?thesis by simp
qed

lemma ceil_div_signed_eq:
  fixes a b :: "'a::len word"
  assumes "0 < sint b" "0 \<le> sint a"
  shows "\<exists>r. ceil_div_signed a b = Some r \<and> unat r = ceil_quot (unat a) (unat b)"
proof -
  have "b \<noteq> 0" using assms(1) by auto
  then have b: "0 < unat b" by (simp add: unat_gt_0)
  have sum': "unat (a + b) = unat a + unat b"
    using sint_nonneg_half [OF assms(2)] sint_nonneg_half [of b] assms(1) by (intro unat_add_small) simp
  then have "a + b \<noteq> 0" using b by auto
  then have "unat (a + b - 1) = unat a + unat b - 1" using sum' by (simp add: unat_minus_one)
  then have "unat ((a + b - 1) div b) = ceil_quot (unat a) (unat b)" by (simp add: unat_word_div ceil_quot_def)
  then show ?thesis using assms by (simp add: ceil_div_signed_def)
qed

section \<open>Logarithms\<close>

lemma f32_exp_eval: "k < 2 ^ 24 \<Longrightarrow> f32_exp k = 0" "2 ^ 24 \<le> k \<Longrightarrow> f32_exp k = Suc (f32_exp (k div 2))"
  by (subst f32_exp.simps, simp)+

lemma f32_round_eval:
  "k < 2 ^ 24 \<Longrightarrow> f32_round k = k"
  "2 ^ 24 \<le> k \<Longrightarrow> f32_round k = (if 2 ^ (f32_exp k - 1) < k mod 2 ^ f32_exp k \<or> (k mod 2 ^ f32_exp k = 2 ^ (f32_exp k - 1) \<and> odd (k div 2 ^ f32_exp k))
     then k div 2 ^ f32_exp k + 1 else k div 2 ^ f32_exp k) * 2 ^ f32_exp k"
  by (simp_all add: f32_round_def Let_def)

lemmas log10_eval = log10_approx_def f32_round_eval f32_exp_eval

lemma log10_approx_small: "log10_approx 0 = 0" "log10_approx 1 = 0"
  by (simp_all add: log10_eval)

lemma log10_approx_values:
  "map log10_approx [2..<128] =
     [0, 0, 1, 1, 1, 2, 2, 2, 3, 3, 3, 3, 4, 4, 4, 5, 5, 5, 6, 6, 6, 6, 7, 7, 7, 8, 8, 8, 9, 9, 9, 9, 10, 10,
      10, 11, 11, 11, 12, 12, 12, 12, 13, 13, 13, 14, 14, 14, 15, 15, 15, 15, 16, 16, 16, 17, 17, 17, 18, 18,
      18, 18, 19, 19, 19, 20, 20, 20, 21, 21, 21, 21, 22, 22, 22, 23, 23, 23, 24, 24, 24, 24, 25, 25, 25, 26,
      26, 26, 27, 27, 27, 27, 28, 28, 28, 29, 29, 29, 30, 30, 30, 31, 31, 31, 31, 32, 32, 32, 33, 33, 33, 34,
      34, 34, 34, 35, 35, 35, 36, 36, 36, 37, 37, 37, 37, 38]"
  by (simp add: log10_eval upt_rec_numeral)

lemma zip_map_self: "zip xs (map f xs) = map (\<lambda>x. (x, f x)) xs"
  by (induction xs) auto

lemma log10_approx_bounds:
  assumes "l < 128"
  shows "10 ^ log10_approx l \<le> (2 :: nat) ^ l \<and> (2 :: nat) ^ Suc l \<le> 10 ^ (log10_approx l + 2)"
proof (cases "2 \<le> l")
  case True
  then have "l \<in> set [2..<128]" using assms by (simp only: set_upt atLeastLessThan_iff)
  then have "(l, log10_approx l) \<in> set (zip [2..<128] (map log10_approx [2..<128]))" 
    unfolding zip_map_self set_map by (rule image_eqI [OF refl])
  moreover have "\<forall>(l, a) \<in> set (zip [2..<128] (map log10_approx [2..<128])). 10 ^ a \<le> (2 :: nat) ^ l \<and> (2 :: nat) ^ Suc l \<le> 10 ^ (a + 2)"
    unfolding log10_approx_values by (simp add: upt_rec_numeral)
  ultimately show ?thesis by blast
next
  case False
  then have "l = 0 \<or> l = 1" by linarith
  then show ?thesis using log10_approx_small by auto
qed

lemma ilog2_spec:
  fixes t :: "'a::len word"
  assumes "t \<noteq> 0" "wide_ok LENGTH('a)" "LENGTH('a) < 2 ^ 31"
  obtains l where "ilog2 t = Some l" "2 ^ l \<le> unat t" "unat t < 2 ^ Suc l" "l < LENGTH('a)"
proof -
  obtain n where n: "highest_bit t n" using highest_bit_exists [OF assms(1)] by blast
  show thesis
    by (rule that [of n]) (use assms bit_log2_spec [OF assms(2) n assms(3)] highest_bit_bounds [OF n] highest_bit_length [OF n] in \<open>simp_all add: ilog2_def\<close>)
qed

text \<open>The tables hold the powers of ten that the type holds; their last entry is the largest value.\<close>

lemma unat_power_of_10: "10 ^ k < (2 :: nat) ^ LENGTH('a) \<Longrightarrow> unat ((10 :: 'a::len word) ^ k) = 10 ^ k"
proof -
  assume "10 ^ k < (2 :: nat) ^ LENGTH('a)"
  then have "unat (of_nat (10 ^ k) :: 'a word) = 10 ^ k" unfolding unsigned_of_nat by (simp add: take_bit_nat_eq_self)
  then show ?thesis by simp
qed

lemma power_table_nth:
  fixes k n :: nat
  assumes "(10 :: nat) ^ n < 2 ^ LENGTH('a)"
  shows "k < n \<Longrightarrow> unat ((map (\<lambda>k. 10 ^ k) [1..<Suc n] @ [- 1 :: 'a::len word]) ! k) = 10 ^ Suc k"
    and "(map (\<lambda>k. 10 ^ k) [1..<Suc n] @ [- 1 :: 'a word]) ! n = - 1"
proof -
  show "(map (\<lambda>k. 10 ^ k) [1..<Suc n] @ [- 1 :: 'a word]) ! n = - 1" by (simp add: nth_append)
  assume "k < n"
  then have "(10 :: nat) ^ Suc k \<le> 10 ^ n" by (intro power_increasing) auto
  then have "10 ^ Suc k < (2 :: nat) ^ LENGTH('a)" using assms by (rule order.strict_trans1)
  from unat_power_of_10 [OF this] show "unat ((map (\<lambda>k. 10 ^ k) [1..<Suc n] @ [- 1 :: 'a::len word]) ! k) = 10 ^ Suc k"
    using \<open>k < n\<close> by (simp add: nth_append del: upt_Suc)
qed

lemma power_of_10_nth:
  "k < 9 \<Longrightarrow> unat (power_of_10_32bit ! k) = 10 ^ Suc k" "power_of_10_32bit ! 9 = - 1" "length power_of_10_32bit = 10"
  "k < 19 \<Longrightarrow> unat (power_of_10_64bit ! k) = 10 ^ Suc k" "power_of_10_64bit ! 19 = - 1" "length power_of_10_64bit = 20"
  "k < 38 \<Longrightarrow> unat (power_of_10_128bit ! k) = 10 ^ Suc k" "power_of_10_128bit ! 38 = - 1" "length power_of_10_128bit = 39"
  using power_table_nth [of 9, where 'a = 32] power_table_nth [of 19, where 'a = 64] power_table_nth [of 38, where 'a = 128]
  by (simp_all add: power_of_10_32bit_def power_of_10_64bit_def power_of_10_128bit_def del: upt_Suc)

text \<open>The approximation is the logarithm or one less, and the next power of ten decides.\<close>

lemma log10_approx_step:
  fixes x :: nat
  assumes "2 ^ l \<le> x" "x < 2 ^ Suc l" "l < 128"
  defines "r \<equiv> log10_approx l + of_bool (10 ^ Suc (log10_approx l) \<le> x)"
  shows "10 ^ r \<le> x \<and> x < 10 ^ Suc r"
proof -
  have b: "10 ^ log10_approx l \<le> (2 :: nat) ^ l" "(2 :: nat) ^ Suc l \<le> 10 ^ (log10_approx l + 2)"
    using log10_approx_bounds [OF assms(3)] by auto
  show ?thesis
  proof (cases "10 ^ Suc (log10_approx l) \<le> x")
    case True
    moreover have "x < 10 ^ (log10_approx l + 2)" using assms(2) b(2) by (rule order.strict_trans2)
    ultimately show ?thesis by (simp add: r_def)
  next
    case False
    moreover have "10 ^ log10_approx l \<le> x" using b(1) assms(1) by (rule order.trans)
    ultimately show ?thesis by (simp add: r_def)
  qed
qed

lemma log10_approx_less: "l < 128 \<Longrightarrow> (2 :: nat) ^ l < 10 ^ n \<Longrightarrow> log10_approx l < n"
proof (rule ccontr)
  assume "l < 128" "(2 :: nat) ^ l < 10 ^ n" "\<not> log10_approx l < n"
  then have "(10 :: nat) ^ n \<le> 10 ^ log10_approx l" by (intro power_increasing) auto
  then show False using log10_approx_bounds [OF \<open>l < 128\<close>] \<open>(2 :: nat) ^ l < 10 ^ n\<close> by linarith
qed

lemma log10_approx_top: "log10_approx 31 = 9" "log10_approx 127 = 38"
  by (simp_all add: log10_eval)

lemma ilog10_table:
  fixes u :: "'b::len word"
  assumes x: "2 ^ l \<le> unat u" "unat u < 2 ^ Suc l" "l < 128"
    and tbl: "\<And>k. k < n \<Longrightarrow> unat (T ! k) = 10 ^ Suc k" "T ! n = - 1" and n: "2 ^ LENGTH('b) \<le> (10 :: nat) ^ Suc n"
  defines "a \<equiv> log10_approx l"
  shows "a \<le> n"
    and "u \<noteq> - 1 \<or> a < n \<Longrightarrow> T ! a \<le> u \<longleftrightarrow> 10 ^ Suc a \<le> unat u"
    and "log10_approx (LENGTH('b) - 1) = n \<Longrightarrow> T ! a < u + 1 \<longleftrightarrow> 10 ^ Suc a \<le> unat u"
    and "log10_approx (LENGTH('b) - 1) = n \<Longrightarrow> u = - 1 \<Longrightarrow> T ! a \<le> u \<and> \<not> 10 ^ Suc a \<le> unat u"
proof -
  have lt: "unat u < 2 ^ LENGTH('b)" by (rule unsigned_less)
  then have "2 ^ l < (10 :: nat) ^ Suc n" using x(1) n by linarith
  then have "log10_approx l < Suc n" by (rule log10_approx_less [OF x(3)])
  then show le: "a \<le> n" by (simp add: a_def)
  have full: "\<not> 10 ^ Suc n \<le> unat u" using lt n by linarith
  show "T ! a \<le> u \<longleftrightarrow> 10 ^ Suc a \<le> unat u" if u: "u \<noteq> - 1 \<or> a < n"
  proof (cases "a < n")
    case True
    then show ?thesis using tbl(1) by (simp add: word_le_nat_alt)
  next
    case False
    then show ?thesis using le u tbl(2) full by (simp add: word_order.extremum_unique)
  qed
  have last: "a = n" if top: "log10_approx (LENGTH('b) - 1) = n" and True: "u = - 1"
  proof -
    have "unat u = 2 ^ LENGTH('b) - 1" using True by (simp add: unsigned_minus_1_eq_mask mask_eq_exp_minus_1)
    moreover have two: "(2 :: nat) ^ LENGTH('b) = 2 ^ (LENGTH('b) - 1) + 2 ^ (LENGTH('b) - 1)"
      by (metis len_gt_0 mult_2 power_Suc Suc_diff_1)
    ultimately have "unat u = 2 ^ (LENGTH('b) - 1) + (2 ^ (LENGTH('b) - 1) - 1)" by simp
    then have "2 ^ (LENGTH('b) - 1) \<le> unat u" by (rule le_iff_add [THEN iffD2, OF exI])
    then have pow: "2 ^ (LENGTH('b) - 1) < (2 :: nat) ^ Suc l" "(2 :: nat) ^ l < 2 ^ LENGTH('b)" using x lt by linarith+
    have "LENGTH('b) - 1 < Suc l" "l < LENGTH('b)"
      using pow(1) by (rule power_less_imp_less_exp [rotated], simp) (use pow(2) in \<open>rule power_less_imp_less_exp [rotated]\<close>, simp)
    then have "l = LENGTH('b) - 1" by linarith
    then show ?thesis using top by (simp add: a_def)
  qed
  show "T ! a \<le> u \<and> \<not> 10 ^ Suc a \<le> unat u" if "log10_approx (LENGTH('b) - 1) = n" "u = - 1"
    using last [OF that] that(2) tbl(2) full by simp
  show "T ! a < u + 1 \<longleftrightarrow> 10 ^ Suc a \<le> unat u" if top: "log10_approx (LENGTH('b) - 1) = n"
  proof (cases "u = - 1")
    case True
    then show ?thesis using last [OF top True] tbl(2) full by simp
  next
    case False
    then have "1 + u \<noteq> 0" by (metis add_eq_0_iff add.inverse_inverse)
    then have suc: "unat (u + 1) = Suc (unat u)" using unatSuc [of u] by (simp add: add.commute)
    show ?thesis
    proof (cases "a < n")
      case True
      then show ?thesis using tbl(1) suc by (simp add: word_less_nat_alt less_Suc_eq_le)
    next
      case False
      then show ?thesis using le tbl(2) full by (simp add: not_less)
    qed
  qed
qed

lemma unat_ucast_up: "LENGTH('a) \<le> LENGTH('b) \<Longrightarrow> unat (ucast t :: 'b::len word) = unat t" for t :: "'a::len word"
proof -
  assume "LENGTH('a) \<le> LENGTH('b)"
  then have "(2 :: nat) ^ LENGTH('a) \<le> 2 ^ LENGTH('b)" by (intro power_increasing) auto
  then have "unat t < 2 ^ LENGTH('b)" by (rule order.strict_trans2 [OF unsigned_less])
  then show ?thesis by (simp add: unsigned_ucast_eq take_bit_nat_eq_self)
qed

lemma ucast_all_ones:
  fixes t :: "'a::len word"
  assumes "LENGTH('a) \<le> LENGTH('b)" "ucast t = (- 1 :: 'b::len word)"
  shows "LENGTH('a) = LENGTH('b) \<and> t = - 1"
proof -
  have "unat t = 2 ^ LENGTH('b) - 1"
    using arg_cong [OF assms(2), of unat] unat_ucast_up [OF assms(1), of t] by (simp add: unsigned_minus_1_eq_mask mask_eq_exp_minus_1)
  moreover have "unat t < 2 ^ LENGTH('a)" by (rule unsigned_less)
  ultimately have "(2 :: nat) ^ LENGTH('b) \<le> 2 ^ LENGTH('a)" by linarith
  then have "LENGTH('b) \<le> LENGTH('a)" by (rule power_le_imp_le_exp [rotated]) simp
  then have len: "LENGTH('a) = LENGTH('b)" using assms(1) by simp
  then have "unat t = unat (- 1 :: 'a word)" using \<open>unat t = 2 ^ LENGTH('b) - 1\<close> by (simp add: unsigned_minus_1_eq_mask mask_eq_exp_minus_1)
  then show ?thesis using len by (simp add: word_unat_eq_iff)
qed

lemma ilog10_32:
  fixes t :: "'a::len word"
  assumes t: "t \<noteq> 0" "LENGTH('a) \<le> 32"
  shows "\<exists>r. 10 ^ r \<le> unat t \<and> unat t < 10 ^ Suc r \<and> ilog10 same_type t = Some (if \<not> same_type \<and> LENGTH('a) = 32 \<and> t = - 1 then Suc r else r)"
proof -
  obtain l where l: "ilog2 t = Some l" "2 ^ l \<le> unat t" "unat t < 2 ^ Suc l" "l < LENGTH('a)"
    by (rule ilog2_spec [of t]) (use t in \<open>auto simp: wide_ok_def\<close>)
  let ?u = "ucast t :: 32 word" and ?a = "log10_approx l"
  have u: "unat ?u = unat t" by (rule unat_ucast_up) (use t(2) in simp)
  have l128: "l < 128" using l(4) t(2) by simp
  note tab = ilog10_table [of l ?u 9 power_of_10_32bit, unfolded u, OF l(2,3) l128 power_of_10_nth(1,2)]
  have le: "?a < length power_of_10_32bit" using tab(1) by (simp add: power_of_10_nth(3))
  have step: "10 ^ (?a + of_bool (10 ^ Suc ?a \<le> unat t)) \<le> unat t \<and> unat t < 10 ^ Suc (?a + of_bool (10 ^ Suc ?a \<le> unat t))"
    by (rule log10_approx_step [OF l(2,3) l128])
  show ?thesis
  proof (cases "same_type \<and> LENGTH('a) = 32")
    case True
    then have "ilog10 same_type t = Some (?a + of_bool (power_of_10_32bit ! ?a < ?u + 1))" using l(1) le t(2) by (simp add: ilog10_def Let_def)
    moreover have "power_of_10_32bit ! ?a < ?u + 1 \<longleftrightarrow> 10 ^ Suc ?a \<le> unat t" using tab(3) log10_approx_top(1) by simp
    ultimately show ?thesis using step True by auto
  next
    case False
    then have ev: "ilog10 same_type t = Some (?a + of_bool (power_of_10_32bit ! ?a \<le> ?u))" using l(1) le t(2) by (auto simp: ilog10_def Let_def)
    show ?thesis
    proof (cases "?u = - 1")
      case True
      then have top: "power_of_10_32bit ! ?a \<le> ?u" "\<not> 10 ^ Suc ?a \<le> unat t" using tab(4) log10_approx_top(1) by simp_all
      have "LENGTH('a) = 32 \<and> t = - 1" using ucast_all_ones [OF _ True] t(2) by simp
      then have "ilog10 same_type t = Some (if \<not> same_type \<and> LENGTH('a) = 32 \<and> t = - 1 then Suc ?a else ?a)" using ev top False by simp
      moreover have "10 ^ ?a \<le> unat t" "unat t < 10 ^ Suc ?a" using step top(2) by simp_all
      ultimately show ?thesis by blast
    next
      case small: False
      then have "\<not> (\<not> same_type \<and> LENGTH('a) = 32 \<and> t = - 1)" using u by (auto simp: word_unat_eq_iff unsigned_minus_1_eq_mask)
      then show ?thesis using ev step tab(2) small by auto
    qed
  qed
qed

lemma ilog10_128:
  fixes t :: "'a::len word"
  assumes t: "t \<noteq> 0" "LENGTH('a) = 128"
  shows "\<exists>r. 10 ^ r \<le> unat t \<and> unat t < 10 ^ Suc r \<and> ilog10 same_type t = Some (if \<not> same_type \<and> LENGTH('a) = 128 \<and> t = - 1 then Suc r else r)"
proof -
  obtain l where l: "ilog2 t = Some l" "2 ^ l \<le> unat t" "unat t < 2 ^ Suc l" "l < LENGTH('a)"
    by (rule ilog2_spec [of t]) (use t in \<open>auto simp: wide_ok_def\<close>)
  let ?u = "ucast t :: 128 word" and ?a = "log10_approx l"
  have u: "unat ?u = unat t" by (rule unat_ucast_up) (use t(2) in simp)
  have l128: "l < 128" using l(4) t(2) by simp
  note tab = ilog10_table [of l ?u 38 power_of_10_128bit, unfolded u, OF l(2,3) l128 power_of_10_nth(7,8)]
  have le: "?a < length power_of_10_128bit" using tab(1) by (simp add: power_of_10_nth(9))
  have step: "10 ^ (?a + of_bool (10 ^ Suc ?a \<le> unat t)) \<le> unat t \<and> unat t < 10 ^ Suc (?a + of_bool (10 ^ Suc ?a \<le> unat t))"
    by (rule log10_approx_step [OF l(2,3) l128])
  show ?thesis
  proof (cases "same_type")
    case True
    then have "ilog10 same_type t = Some (?a + of_bool (power_of_10_128bit ! ?a < ?u + 1))" using l(1) le t(2) by (simp add: ilog10_def Let_def)
    moreover have "power_of_10_128bit ! ?a < ?u + 1 \<longleftrightarrow> 10 ^ Suc ?a \<le> unat t" using tab(3) log10_approx_top(2) by simp
    ultimately show ?thesis using step True by auto
  next
    case False
    then have ev: "ilog10 same_type t = Some (?a + of_bool (power_of_10_128bit ! ?a \<le> ?u))" using l(1) le t(2) by (auto simp: ilog10_def Let_def)
    show ?thesis
    proof (cases "?u = - 1")
      case True
      then have top: "power_of_10_128bit ! ?a \<le> ?u" "\<not> 10 ^ Suc ?a \<le> unat t" using tab(4) log10_approx_top(2) by simp_all
      have "LENGTH('a) = 128 \<and> t = - 1" using ucast_all_ones [OF _ True] t(2) by simp
      then have "ilog10 same_type t = Some (if \<not> same_type \<and> LENGTH('a) = 128 \<and> t = - 1 then Suc ?a else ?a)" using ev top False by simp
      moreover have "10 ^ ?a \<le> unat t" "unat t < 10 ^ Suc ?a" using step top(2) by simp_all
      ultimately show ?thesis by blast
    next
      case small: False
      then have "\<not> (\<not> same_type \<and> LENGTH('a) = 128 \<and> t = - 1)" using u by (auto simp: word_unat_eq_iff unsigned_minus_1_eq_mask)
      then show ?thesis using ev step tab(2) small by auto
    qed
  qed
qed

lemma ilog10_64:
  fixes t :: "'a::len word"
  assumes t: "t \<noteq> 0" "LENGTH('a) = 64"
  shows "\<exists>r. ilog10 same_type t = Some r \<and> 10 ^ r \<le> unat t \<and> unat t < 10 ^ Suc r"
proof -
  obtain l where l: "ilog2 t = Some l" "2 ^ l \<le> unat t" "unat t < 2 ^ Suc l" "l < LENGTH('a)"
    by (rule ilog2_spec [of t]) (use t in \<open>auto simp: wide_ok_def\<close>)
  let ?u = "ucast t :: 64 word" and ?a = "log10_approx l"
  have u: "unat ?u = unat t" by (rule unat_ucast_up) (use t(2) in simp)
  have l128: "l < 128" using l(4) t(2) by simp
  have "(2 :: nat) ^ l \<le> 2 ^ 63" using l(4) t(2) by (intro power_increasing) auto
  also have "\<dots> < 10 ^ 19" by simp
  finally have a: "?a < 19" by (rule log10_approx_less [OF l128])
  then have "ilog10 same_type t = Some (?a + of_bool (power_of_10_64bit ! ?a \<le> ?u))"
    using l(1) t(2) by (simp add: ilog10_def Let_def power_of_10_nth(6))
  moreover have "power_of_10_64bit ! ?a \<le> ?u \<longleftrightarrow> 10 ^ Suc ?a \<le> unat t"
    using power_of_10_nth(4) [OF a] u by (simp add: word_le_nat_alt)
  ultimately show ?thesis using log10_approx_step [OF l(2,3) l128] by auto
qed

lemma ilog10_spec:
  fixes t :: "'a::len word"
  assumes "t \<noteq> 0" "LENGTH('a) \<in> {8, 16, 32, 64, 128}"
  shows "\<exists>r. 10 ^ r \<le> unat t \<and> unat t < 10 ^ Suc r \<and>
    ilog10 same_type t = Some (if \<not> same_type \<and> LENGTH('a) \<in> {32, 128} \<and> t = - 1 then Suc r else r)"
proof -
  consider "LENGTH('a) \<le> 32" | "LENGTH('a) = 64" | "LENGTH('a) = 128" using assms(2) by auto
  then show ?thesis
  proof cases
    case 1
    then show ?thesis using ilog10_32 [OF assms(1) 1, of same_type] by auto
  next
    case 2
    then show ?thesis using ilog10_64 [OF assms(1) 2, of same_type] by auto
  next
    case 3
    then show ?thesis using ilog10_128 [OF assms(1) 3, of same_type] by auto
  qed
qed

text \<open>
  C37: \<^verbatim>\<open>ilog10\<close> is the integer logarithm to base ten for every positive value of a type of 8, 16, 32, 64 or
  128 bits, although it multiplies with a rounded constant in single precision: the product is never
  off by more than the comparison with the table corrects.  There is one exception, the largest value of an unsigned type of 32 bits
  other than \<^verbatim>\<open>uint32_t\<close> (of 128 bits other than \<^verbatim>\<open>__uint128_t\<close>): it equals the last entry of the table, and the result is one too large.
\<close>

theorem ilog10_correct:
  fixes t :: "'a::len word"
  assumes "t \<noteq> 0" "LENGTH('a) \<in> {8, 16, 32, 64, 128}"
  shows "\<exists>r. 10 ^ r \<le> unat t \<and> unat t < 10 ^ (r + 1) \<and>
    ilog10 same_type t = Some (if \<not> same_type \<and> LENGTH('a) \<in> {32, 128} \<and> t = - 1 then r + 1 else r)"
  using ilog10_spec [OF assms, of same_type] by (simp only: Suc_eq_plus1)

theorem ilog10_correct_witness:
  "(\<exists>r. 10 ^ r \<le> unat (4294967294 :: 32 word) \<and> unat (4294967294 :: 32 word) < 10 ^ (r + 1) \<and> ilog10 False (4294967294 :: 32 word) = Some r) \<and>
   (\<exists>r. 10 ^ r \<le> unat (- 1 :: 32 word) \<and> unat (- 1 :: 32 word) < 10 ^ (r + 1) \<and> ilog10 False (- 1 :: 32 word) = Some (r + 1))"
  using ilog10_correct [of "4294967294 :: 32 word" False] ilog10_correct [of "- 1 :: 32 word" False] by simp

text \<open>
  A type of 32 bits that is not \<^verbatim>\<open>uint32_t\<close>, such as \<^verbatim>\<open>unsigned long\<close> where it has 32 bits: the largest value
  equals the last entry of the table, and the result is one too large.
\<close>

lemma ilog10_unsigned_long: "ilog10 False (- 1 :: 32 word) = Some 10"
proof -
  obtain l where l: "ilog2 (- 1 :: 32 word) = Some l" "2 ^ l \<le> unat (- 1 :: 32 word)" "unat (- 1 :: 32 word) < 2 ^ Suc l" "l < LENGTH(32)"
    by (rule ilog2_spec [of "- 1 :: 32 word"]) (auto simp: wide_ok_def)
  have u: "unat (- 1 :: 32 word) = 2 ^ 32 - 1" by (simp add: unsigned_minus_1_eq_mask mask_eq_exp_minus_1)
  have "31 \<le> l"
  proof (rule ccontr)
    assume "\<not> 31 \<le> l"
    then have "(2 :: nat) ^ Suc l \<le> 2 ^ 31" by (intro power_increasing) auto
    then show False using l(3) u by simp
  qed
  then have "l = 31" using l(4) by simp
  then show ?thesis using l(1) log10_approx_top(1) power_of_10_nth(2,3) by (simp add: ilog10_def Let_def)
qed

text \<open>
  Division rounding up.  The version for promoted signed types, the host version and the device version
  for unsigned types all compute the quotient rounded up, for every divisor and without overflow of an
  intermediate result; they fail their assertion on a divisor that is not positive.
\<close>

theorem ceil_div_agree:
  fixes a b :: "'a::len word"
  shows "(b \<noteq> 0 \<longrightarrow> (\<exists>r. ceil_div_host a b = Some r \<and> ceil_div_device a b = Some r \<and> unat r = ceil_quot (unat a) (unat b))) \<and>
    (0 < sint b \<and> 0 \<le> sint a \<longrightarrow> ceil_div_signed a b = ceil_div_host a b) \<and>
    (b = 0 \<longrightarrow> ceil_div_host a b = None \<and> ceil_div_device a b = None \<and> ceil_div_signed a b = None)"
proof (intro conjI impI)
  assume b: "b \<noteq> 0"
  obtain r where r: "ceil_div_host a b = Some r" "unat r = ceil_quot (unat a) (unat b)" using ceil_div_host_eq [OF b] by blast
  obtain q where q: "ceil_div_device a b = Some q" "unat q = ceil_quot (unat a) (unat b)" using ceil_div_device_eq [OF b] by blast
  have "q = r" using q(2) r(2) by (simp add: word_unat_eq_iff)
  then show "\<exists>r. ceil_div_host a b = Some r \<and> ceil_div_device a b = Some r \<and> unat r = ceil_quot (unat a) (unat b)"
    using r q by blast
next
  assume s: "0 < sint b \<and> 0 \<le> sint a"
  then have "b \<noteq> 0" by auto
  obtain r where r: "ceil_div_host a b = Some r" "unat r = ceil_quot (unat a) (unat b)" using ceil_div_host_eq [OF \<open>b \<noteq> 0\<close>] by blast
  obtain q where q: "ceil_div_signed a b = Some q" "unat q = ceil_quot (unat a) (unat b)" using ceil_div_signed_eq s by blast
  have "q = r" using q(2) r(2) by (simp add: word_unat_eq_iff)
  then show "ceil_div_signed a b = ceil_div_host a b" using r q by simp
qed (simp_all add: ceil_div_host_def ceil_div_device_def ceil_div_signed_def)

theorem ceil_div_agree_witness:
  "\<exists>r. ceil_div_host (251 :: 8 word) 10 = Some r \<and> ceil_div_device 251 10 = Some r \<and> unat r = ceil_quot 251 10"
proof -
  have "(10 :: 8 word) \<noteq> 0" by simp
  then have "\<exists>r. ceil_div_host (251 :: 8 word) 10 = Some r \<and> ceil_div_device 251 10 = Some r \<and> unat r = ceil_quot (unat (251 :: 8 word)) (unat (10 :: 8 word))"
    using ceil_div_agree [of "10 :: 8 word" 251] by blast
  then show ?thesis by simp
qed

section \<open>Products\<close>

lemma mul_hi_nat:
  fixes a0 a1 b0 b1 B :: nat
  assumes "0 < B"
  shows "((a1 * B + a0) * (b1 * B + b0)) div (B * B) =
    a1 * b1 + (a0 * b1) div B + (a1 * b0) div B + ((a0 * b0) div B + (a0 * b1) mod B + (a1 * b0) mod B) div B"
proof -
  define q0 r0 q1 r1 q2 r2 where "q0 = (a0 * b0) div B" "r0 = (a0 * b0) mod B" "q1 = (a0 * b1) div B" "r1 = (a0 * b1) mod B"
    "q2 = (a1 * b0) div B" "r2 = (a1 * b0) mod B"
  note defs = this
  have e: "a0 * b0 = q0 * B + r0" "a0 * b1 = q1 * B + r1" "a1 * b0 = q2 * B + r2" by (simp_all add: defs)
  define c d where "c = (q0 + r1 + r2) div B" "d = (q0 + r1 + r2) mod B"
  note cd = this
  have s: "q0 + r1 + r2 = c * B + d" by (simp add: cd)
  have "(a1 * B + a0) * (b1 * B + b0) = (a1 * b1) * (B * B) + (a0 * b1 + a1 * b0) * B + a0 * b0" by (simp add: algebra_simps)
  also have "\<dots> = (a1 * b1 + q1 + q2) * (B * B) + (q0 + r1 + r2) * B + r0" unfolding e by (simp add: algebra_simps)
  also have "\<dots> = (d * B + r0) + (a1 * b1 + q1 + q2 + c) * (B * B)" unfolding s by (simp add: algebra_simps)
  finally have p: "(a1 * B + a0) * (b1 * B + b0) = (d * B + r0) + (a1 * b1 + q1 + q2 + c) * (B * B)" .
  have "r0 < B" "d < B" using assms by (simp_all add: defs cd)
  then have "d * B + r0 < Suc d * B" by simp
  also have "\<dots> \<le> B * B" using \<open>d < B\<close> by (intro mult_right_mono) auto
  finally have "(d * B + r0) div (B * B) = 0" by simp
  then show ?thesis unfolding p using assms by (simp add: defs cd)
qed

end
