(* ===== verification/Overflow_Ops.thy ===== *)
theory Overflow_Ops
  imports Int_Math
begin

unbundle bit_operations_syntax

text \<open>
  The portable upper half of a product, and addition and multiplication with overflow detection, compute
  the mathematical result and report exactly when it does not fit.
\<close>

section \<open>The upper half of a product\<close>

lemma unat_of_nat_small: "k < 2 ^ LENGTH('a) \<Longrightarrow> unat (of_nat k :: 'a::len word) = k"
  by (simp add: unsigned_of_nat take_bit_nat_eq_self)

lemma sint_of_nat_small: "k < 2 ^ 31 \<Longrightarrow> sint (of_nat k :: 32 word) = int k"
  by (simp add: signed_of_nat signed_take_bit_int_eq_self)

lemma unat_take_half: "unat (take_bit h v) = unat v mod 2 ^ h" for v :: "'a::len word"
  unfolding unsigned_take_bit_eq by (rule take_bit_eq_mod)

lemma unat_drop_half: "unat (drop_bit h v) = unat v div 2 ^ h" for v :: "'a::len word"
proof -
  have "take_bit LENGTH('a) (unat v) = unat v" by (rule take_bit_nat_eq_self [OF unsigned_less])
  then show ?thesis unfolding unsigned_drop_bit_eq by (simp only: drop_bit_eq_div)
qed

lemma mult_less_square: "(x :: nat) < B \<Longrightarrow> y < B \<Longrightarrow> x * y < B * B"
  by (rule mult_strict_mono) auto

lemma mul_hi_fallback_eq:
  fixes lhs rhs :: "'a::len word"
  assumes "LENGTH('a) = 2 * h" "2 \<le> h"
  shows "unat (mul_hi_fallback lhs rhs) = (unat lhs * unat rhs) div 2 ^ LENGTH('a)"
proof -
  define B :: nat where "B = 2 ^ h"
  have L: "2 ^ LENGTH('a) = B * B" by (simp add: assms(1) B_def power_add mult_2)
  have B: "0 < B" "4 \<le> B" using power_increasing [OF assms(2), of "2 :: nat"] by (simp_all add: B_def)
  let ?a0 = "take_bit h lhs" and ?a1 = "take_bit h (drop_bit h lhs)" and ?b0 = "take_bit h rhs" and ?b1 = "take_bit h (drop_bit h rhs)"
  define a0 a1 b0 b1 where "a0 = unat lhs mod B" "a1 = unat lhs div B" "b0 = unat rhs mod B" "b1 = unat rhs div B"
  note ab = this
  have lt: "unat lhs < B * B" "unat rhs < B * B" using unsigned_less [of lhs, where 'a = nat] unsigned_less [of rhs, where 'a = nat] unfolding L by auto
  then have b: "a0 < B" "a1 < B" "b0 < B" "b1 < B" using B(1) by (simp_all add: ab less_mult_imp_div_less)
  have u: "unat ?a0 = a0" "unat ?a1 = a1" "unat ?b0 = b0" "unat ?b1 = b1"
    using b by (simp_all add: unat_take_half unat_drop_half flip: B_def ab)
  have m: "unat (x * y) = unat x * unat y" if "unat x < B" "unat y < B" for x y :: "'a word"
    using mult_less_square [OF that] by (intro unat_mult_small) (simp add: L)
  have p: "unat (?a0 * ?b0) = a0 * b0" "unat (?a0 * ?b1) = a0 * b1" "unat (?a1 * ?b0) = a1 * b0" "unat (?a1 * ?b1) = a1 * b1"
    using m u b by simp_all
  let ?po = "drop_bit h (?a0 * ?b0)" and ?p1 = "take_bit h (?a0 * ?b1)" and ?p2 = "take_bit h (?a1 * ?b0)"
  have half: "unat ?po = (a0 * b0) div B" "unat ?p1 = (a0 * b1) mod B" "unat ?p2 = (a1 * b0) mod B"
    by (simp_all add: unat_take_half unat_drop_half p flip: B_def)
  have "(a0 * b0) div B < B" using mult_less_square [OF b(1,3)] by (simp add: less_mult_imp_div_less)
  moreover have "(a0 * b1) mod B < B" "(a1 * b0) mod B < B" using B(1) by simp_all
  moreover have "4 * B \<le> B * B" using B(2) by simp
  ultimately have s: "(a0 * b0) div B + (a0 * b1) mod B + (a1 * b0) mod B < B * B" by linarith
  have s1: "unat (?po + ?p1) = (a0 * b0) div B + (a0 * b1) mod B"
    using s by (subst unat_add_small) (simp_all add: half L)
  have s2: "unat (?po + ?p1 + ?p2) = (a0 * b0) div B + (a0 * b1) mod B + (a1 * b0) mod B"
    using s by (subst unat_add_small) (simp_all add: half s1 L)
  define c where "c = ((a0 * b0) div B + (a0 * b1) mod B + (a1 * b0) mod B) div B"
  have prod: "unat lhs * unat rhs = (a1 * B + a0) * (b1 * B + b0)" by (simp add: ab)
  have hi: "(unat lhs * unat rhs) div (B * B) = a1 * b1 + (a0 * b1) div B + (a1 * b0) div B + c"
    unfolding prod c_def by (rule mul_hi_nat [OF B(1)])
  have bound: "a1 * b1 + (a0 * b1) div B + (a1 * b0) div B + c < B * B"
    unfolding hi [symmetric] using mult_less_square [OF lt] by (simp add: less_mult_imp_div_less)
  have d: "unat (drop_bit h (?a0 * ?b1)) = (a0 * b1) div B" "unat (drop_bit h (?a1 * ?b0)) = (a1 * b0) div B"
    "unat (drop_bit h (?po + ?p1 + ?p2)) = c"
    by (simp_all add: unat_drop_half p s2 c_def flip: B_def)
  have t1: "unat (?a1 * ?b1 + drop_bit h (?a0 * ?b1)) = a1 * b1 + (a0 * b1) div B"
    using bound by (subst unat_add_small) (simp_all add: p d L)
  have t2: "unat (?a1 * ?b1 + drop_bit h (?a0 * ?b1) + drop_bit h (?a1 * ?b0)) = a1 * b1 + (a0 * b1) div B + (a1 * b0) div B"
    using bound by (subst unat_add_small) (simp_all add: t1 d L)
  have "unat (?a1 * ?b1 + drop_bit h (?a0 * ?b1) + drop_bit h (?a1 * ?b0) + drop_bit h (?po + ?p1 + ?p2)) =
      a1 * b1 + (a0 * b1) div B + (a1 * b0) div B + c"
    using bound by (subst unat_add_small) (simp_all add: t2 d L)
  then have "unat (mul_hi_fallback lhs rhs) = a1 * b1 + (a0 * b1) div B + (a1 * b0) div B + c"
    using assms(1) by (simp add: mul_hi_fallback_def Let_def)
  then show ?thesis by (simp only: L hi)
qed

section \<open>Overflow\<close>

lemma add_overflow_generic_impl_eq:
  fixes lhs rhs :: "'a::len word"
  shows "ovalue (add_overflow_generic_impl lhs rhs) = lhs + rhs"
    and "oflag (add_overflow_generic_impl lhs rhs) \<longleftrightarrow> 2 ^ LENGTH('a) \<le> unat lhs + unat rhs"
proof -
  show "ovalue (add_overflow_generic_impl lhs rhs) = lhs + rhs" by (simp add: add_overflow_generic_impl_def Let_def)
  have lt: "unat lhs < 2 ^ LENGTH('a)" "unat rhs < 2 ^ LENGTH('a)" by (rule unsigned_less)+
  show "oflag (add_overflow_generic_impl lhs rhs) \<longleftrightarrow> 2 ^ LENGTH('a) \<le> unat lhs + unat rhs"
  proof (cases "unat lhs + unat rhs < 2 ^ LENGTH('a)")
    case True
    then show ?thesis using unat_add_small [OF True] by (simp add: add_overflow_generic_impl_def Let_def word_less_nat_alt)
  next
    case False
    then have "(unat lhs + unat rhs) mod 2 ^ LENGTH('a) = (unat lhs + unat rhs - 2 ^ LENGTH('a)) mod 2 ^ LENGTH('a)"
      by (intro le_mod_geq) simp
    also have "\<dots> = unat lhs + unat rhs - 2 ^ LENGTH('a)" by (rule mod_less) (use lt in linarith)
    finally have "unat (lhs + rhs) = unat lhs + unat rhs - 2 ^ LENGTH('a)" by (simp only: unat_word_ariths)
    moreover have "unat lhs + unat rhs - 2 ^ LENGTH('a) < unat lhs" using False lt by linarith
    ultimately show ?thesis using False by (simp add: add_overflow_generic_impl_def Let_def word_less_nat_alt)
  qed
qed

lemma mul_overflow_generic_eq:
  fixes lhs rhs :: "'a::len word"
  assumes "wider \<or> (\<exists>h \<ge> 2. LENGTH('a) = 2 * h)"
  shows "ovalue (mul_overflow_generic wider lhs rhs) = lhs * rhs"
    and "oflag (mul_overflow_generic wider lhs rhs) \<longleftrightarrow> 2 ^ LENGTH('a) \<le> unat lhs * unat rhs"
proof -
  show "ovalue (mul_overflow_generic wider lhs rhs) = lhs * rhs" by (simp add: mul_overflow_generic_def Let_def)
  show "oflag (mul_overflow_generic wider lhs rhs) \<longleftrightarrow> 2 ^ LENGTH('a) \<le> unat lhs * unat rhs"
  proof (cases wider)
    case True
    have "0 < (2 :: nat) ^ LENGTH('a)" by simp
    then have "unat lhs * unat rhs \<le> 2 ^ LENGTH('a) - 1 \<longleftrightarrow> \<not> 2 ^ LENGTH('a) \<le> unat lhs * unat rhs" by linarith
    then show ?thesis using True by (simp add: mul_overflow_generic_def Let_def)
  next
    case False
    then obtain h where h: "LENGTH('a) = 2 * h" "2 \<le> h" using assms by blast
    have "mul_hi_fallback lhs rhs \<noteq> 0 \<longleftrightarrow> (unat lhs * unat rhs) div 2 ^ LENGTH('a) \<noteq> 0"
      using mul_hi_fallback_eq [OF h, of lhs rhs] by (simp add: unat_eq_0 [symmetric])
    then show ?thesis using False by (simp add: mul_overflow_generic_def div_eq_0_iff not_less)
  qed
qed

text \<open>Signed addition: the flag is set exactly when the mathematical sum leaves the range.\<close>

lemma add_overflow_generic_signed_eq:
  fixes lhs rhs :: "'a::len word"
  shows "oflag (add_overflow_generic_signed lhs rhs) \<longleftrightarrow> sint (lhs + rhs) \<noteq> sint lhs + sint rhs"
proof -
  define M :: int where "M = 2 ^ (LENGTH('a) - 1)"
  have two: "(2 :: int) ^ LENGTH('a) = 2 * M" by (simp add: M_def flip: power_Suc)
  have r: "- M \<le> sint lhs" "sint lhs < M" "- M \<le> sint rhs" "sint rhs < M" "- M \<le> sint (lhs + rhs)" "sint (lhs + rhs) < M"
    unfolding M_def using sint_ge [of lhs] sint_lt [of lhs] sint_ge [of rhs] sint_lt [of rhs] sint_ge [of "lhs + rhs"] sint_lt [of "lhs + rhs"] by auto
  have "uint (lhs + rhs) = (uint lhs + uint rhs) mod (2 * M)" by (simp add: uint_word_ariths two)
  then obtain k where k: "sint (lhs + rhs) = sint lhs + sint rhs + k * (2 * M)"
  proof -
    obtain q where "uint (lhs + rhs) = uint lhs + uint rhs - q * (2 * M)"
      using \<open>uint (lhs + rhs) = (uint lhs + uint rhs) mod (2 * M)\<close> minus_div_mult_eq_mod [of "uint lhs + uint rhs" "2 * M"] by metis
    then have "sint (lhs + rhs) = sint lhs + sint rhs + ((if sint lhs < 0 then 1 else 0) + (if sint rhs < 0 then 1 else 0) - (if sint (lhs + rhs) < 0 then 1 else 0) - q) * (2 * M)"
      using uint_signed [of lhs] uint_signed [of rhs] uint_signed [of "lhs + rhs"] by (auto simp: two algebra_simps split: if_splits)
    then show thesis by (rule that)
  qed
  have M: "0 < M" by (simp add: M_def)
  have k3: "k = - 1 \<or> k = 0 \<or> k = 1"
  proof -
    have "- (2 * (2 * M)) < k * (2 * M)" and hi: "k * (2 * M) < 2 * (2 * M)" using k r by linarith+
    then have lo: "(- 2) * (2 * M) < k * (2 * M)" by simp
    have "- 2 < k" by (rule mult_right_less_imp_less [OF lo]) (use M in linarith)
    moreover have "k < 2" by (rule mult_right_less_imp_less [OF hi]) (use M in linarith)
    ultimately show ?thesis by linarith
  qed
  have "oflag (add_overflow_generic_signed lhs rhs) \<longleftrightarrow> (sint (lhs + rhs) < sint lhs) = (sint rhs \<ge> 0)"
    by (simp add: add_overflow_generic_signed_def Let_def)
  also have "\<dots> \<longleftrightarrow> k \<noteq> 0" using k3 k r M by (elim disjE) auto
  also have "\<dots> \<longleftrightarrow> sint (lhs + rhs) \<noteq> sint lhs + sint rhs" using k M by simp
  finally show ?thesis .
qed

end
