(* ===== verification/To_Chars.thy ===== *)
theory To_Chars
  imports Overflow_Ops "HOL-Library.Monad_Syntax"
begin

unbundle bit_operations_syntax

text \<open>
  Conversion of integers to characters (\<^verbatim>\<open>cuda/std/__charconv/to_chars.h\<close>): the number of digits by four
  methods, the digits written backwards into the buffer, and the dispatch over bases and signedness.
  A buffer is a list of characters, a pointer an index into it, \<open>None\<close> is a failing assertion or an
  access outside of the buffer.  The type \<open>'a word\<close> stands for the unsigned type of the value.
\<close>

section \<open>Definitions\<close>

text \<open>The error codes the functions return; \<open>errc_ok\<close> is \<^verbatim>\<open>errc{}\<close>.\<close>

datatype errc = errc_ok | invalid_argument | result_out_of_range | value_too_large

record to_chars_result =
  to_ptr :: iter
  to_ec :: errc

definition to_chars_value_to_char :: "nat \<Rightarrow> nat \<Rightarrow> char option" where
  "to_chars_value_to_char v base =
     (if v < base
      then let offset = (if base < 10 \<or> v < 10 then of_char (CHR ''0'') else of_char (CHR ''a'') - 10)
           in Some (char_of (offset + v))
      else None)"

text \<open>
  The loop of \<^verbatim>\<open>__to_chars_int_width(__v, __base)\<close>, which compares with the first four powers of the base and
  divides by the fourth.  A division by zero is undefined behaviour.
\<close>

partial_function (option) to_chars_int_width_loop :: "'a::len word \<Rightarrow> 'a word \<Rightarrow> nat \<Rightarrow> nat option" where
  "to_chars_int_width_loop ubase uv r =
     (let ubase_2 = ubase * ubase; ubase_3 = ubase_2 * ubase; ubase_4 = ubase_2 * ubase_2 in
      if uv < ubase then Some (r + 1)
      else if uv < ubase_2 then Some (r + 2)
      else if uv < ubase_3 then Some (r + 3)
      else if uv < ubase_4 then Some (r + 4)
      else if ubase_4 = 0 then None
      else to_chars_int_width_loop ubase (uv div ubase_4) (r + 4))"

definition to_chars_int_width :: "'a::len word \<Rightarrow> nat \<Rightarrow> nat option" where
  "to_chars_int_width v base =
     (if 32 \<le> LENGTH('a) then to_chars_int_width_loop (of_nat base :: 'a word) v 0
      else to_chars_int_width_loop (of_nat base :: 32 word) (ucast v) 0)"

text \<open>
  \<^verbatim>\<open>__to_chars_int_width<_Base>(__v)\<close> for a power of two, whose operands are of type \<^verbatim>\<open>int\<close>, and for base ten.
\<close>

definition to_chars_int_width_pow2 :: "nat \<Rightarrow> 'a::len word \<Rightarrow> nat option" where
  "to_chars_int_width_pow2 base v =
     do { base_ilog2 \<leftarrow> ilog2 (of_nat base :: 32 word);
          n \<leftarrow> ceil_div_signed (of_nat (LENGTH('a) - countl_zero (v OR 1)) :: 32 word) (of_nat base_ilog2);
          Some (unat n) }"

definition to_chars_int_width_10 :: "bool \<Rightarrow> 'a::len word \<Rightarrow> nat option" where
  "to_chars_int_width_10 same_type v = (if v > 1 then map_option (\<lambda>l. l + 1) (ilog10 same_type v) else Some 1)"

definition to_chars_width :: "bool \<Rightarrow> 'a::len word \<Rightarrow> nat \<Rightarrow> nat option" where
  "to_chars_width same_type value base =
     (if base = 2 then to_chars_int_width_pow2 2 value
      else if base = 4 then to_chars_int_width_pow2 4 value
      else if base = 8 then to_chars_int_width_pow2 8 value
      else if base = 10 then to_chars_int_width_10 same_type value
      else if base = 16 then to_chars_int_width_pow2 16 value
      else if base = 32 then to_chars_int_width_pow2 32 value
      else to_chars_int_width value base)"

text \<open>
  The digits, least significant first, are written downwards from \<open>last\<close>.  A write below the start of the buffer is
  undefined behaviour, so the loop ends at the latest there.
\<close>

fun to_chars_int_generic :: "char mem \<Rightarrow> iter \<Rightarrow> 'a::len word \<Rightarrow> nat \<Rightarrow> char mem option" where
  "to_chars_int_generic m 0 value base = None"
| "to_chars_int_generic m (Suc last') value base =
     (if (of_nat base :: 'a word) = 0 then None
      else do { ch \<leftarrow> to_chars_value_to_char (unat value mod base) base;
                m' \<leftarrow> wr m last' ch;
                let value' = value div of_nat base in
                if value' \<noteq> 0 then to_chars_int_generic m' last' value' base else Some m' })"

definition to_chars_unsigned ::
  "bool \<Rightarrow> char mem \<Rightarrow> iter \<Rightarrow> iter \<Rightarrow> 'a::len word \<Rightarrow> nat \<Rightarrow> (char mem \<times> to_chars_result) option" where
  "to_chars_unsigned same_type m first last' value base =
     (if \<not> (2 \<le> base \<and> base \<le> 36) \<or> \<not> first \<le> last' then None
      else do { n \<leftarrow> to_chars_width same_type value base;
                if last' - first < n then Some (m, \<lparr>to_ptr = last', to_ec = value_too_large\<rparr>)
                else do { m' \<leftarrow> to_chars_int_generic m (first + n) value base;
                          Some (m', \<lparr>to_ptr = first + n, to_ec = errc_ok\<rparr>) } })"

definition to_chars_signed ::
  "bool \<Rightarrow> char mem \<Rightarrow> iter \<Rightarrow> iter \<Rightarrow> 'a::len word \<Rightarrow> nat \<Rightarrow> (char mem \<times> to_chars_result) option" where
  "to_chars_signed same_type m first last' value base =
     (if \<not> (2 \<le> base \<and> base \<le> 36) \<or> \<not> first \<le> last' then None
      else if sint value < 0 \<and> first < last'
      then do { m' \<leftarrow> wr m first (CHR ''-'');
                to_chars_unsigned same_type m' (first + 1) last' (uabs value) base }
      else to_chars_unsigned same_type m first last' (uabs value) base)"

text \<open>The overload for \<^verbatim>\<open>char\<close>, which is a signed type on some targets (\<open>char_signed\<close>).\<close>

definition to_chars_char ::
  "bool \<Rightarrow> bool \<Rightarrow> char mem \<Rightarrow> iter \<Rightarrow> iter \<Rightarrow> 8 word \<Rightarrow> nat \<Rightarrow> (char mem \<times> to_chars_result) option" where
  "to_chars_char char_signed same_type m first last' value base =
     (if char_signed then to_chars_signed same_type m first last' value base
      else to_chars_unsigned same_type m first last' value base)"

section \<open>The digits of a number\<close>

text \<open>The reference: the digits of a number, most significant first, and their characters.\<close>

function digits :: "nat \<Rightarrow> nat \<Rightarrow> nat list" where
  "digits b n = (if b < 2 \<or> n < b then [n] else digits b (n div b) @ [n mod b])"
  by auto
termination by (relation "measure snd") auto

declare digits.simps [simp del]

definition digit_char :: "nat \<Rightarrow> char" where
  "digit_char d = (if d < 10 then char_of (48 + d) else char_of (87 + d))"

definition of_digits :: "nat \<Rightarrow> nat list \<Rightarrow> nat" where
  "of_digits b = foldl (\<lambda>a d. a * b + d) 0"

lemma digits_small [simp]: "n < b \<Longrightarrow> digits b n = [n]"
  by (subst digits.simps) simp

lemma digits_big: "2 \<le> b \<Longrightarrow> b \<le> n \<Longrightarrow> digits b n = digits b (n div b) @ [n mod b]"
  by (subst digits.simps) simp

lemma digits_not_Nil [simp]: "digits b n \<noteq> []"
  by (subst digits.simps) simp

lemma digits_less: "2 \<le> b \<Longrightarrow> d \<in> set (digits b n) \<Longrightarrow> d < b"
proof (induction b n rule: digits.induct)
  case (1 b n)
  then show ?case by (cases "n < b") (auto simp: digits_big)
qed

lemma of_digits_digits: "2 \<le> b \<Longrightarrow> of_digits b (digits b n) = n"
proof (induction b n rule: digits.induct)
  case (1 b n)
  then show ?case by (cases "n < b") (auto simp: digits_big of_digits_def)
qed

lemma length_digits_big: "2 \<le> b \<Longrightarrow> b \<le> n \<Longrightarrow> length (digits b n) = Suc (length (digits b (n div b)))"
  by (simp add: digits_big)

lemma length_digits:
  assumes "2 \<le> b"
  shows "k = 0 \<or> b ^ k \<le> n \<Longrightarrow> n < b ^ Suc k \<Longrightarrow> length (digits b n) = Suc k"
proof (induction k arbitrary: n)
  case (Suc k)
  then have n: "b * b ^ k \<le> n" "n < b * b ^ Suc k" by auto
  have "b * 1 \<le> b * b ^ k" using assms by (intro mult_left_mono) auto
  then have "b \<le> n" using n(1) by linarith
  moreover have "b ^ k \<le> n div b" using n(1) assms by (simp add: less_eq_div_iff_mult_less_eq mult.commute)
  moreover have "n div b < b ^ Suc k" using n(2) assms by (simp add: div_less_iff_less_mult mult.commute)
  ultimately show ?case using Suc.IH [of "n div b"] length_digits_big [OF assms] by simp
qed simp

section \<open>The number of digits\<close>

text \<open>The powers the loop compares with do not wrap around.\<close>

lemma base_powers:
  fixes ub :: "'a::len word"
  assumes "2 \<le> b" "b \<le> 36" "32 \<le> LENGTH('a)" "unat ub = b"
  shows "unat (ub * ub) = b ^ 2" "unat (ub * ub * ub) = b ^ 3" "unat (ub * ub * (ub * ub)) = b ^ 4"
proof -
  have "b ^ 4 \<le> 36 ^ 4" using assms(2) by (rule power_mono) simp
  also have "\<dots> < (2 :: nat) ^ 32" by simp
  also have "\<dots> \<le> 2 ^ LENGTH('a)" using assms(3) by (intro power_increasing) auto
  finally have b4: "b ^ 4 < 2 ^ LENGTH('a)" .
  moreover have "b ^ 2 \<le> b ^ 4" "b ^ 3 \<le> b ^ 4" using assms(1) by (auto intro: power_increasing)
  ultimately have b23: "b ^ 2 < 2 ^ LENGTH('a)" "b ^ 3 < 2 ^ LENGTH('a)" by (blast intro: order.strict_trans1)+
  show u2: "unat (ub * ub) = b ^ 2" using unat_mult_small [of ub ub] assms(4) b23(1) by (simp add: power2_eq_square)
  show "unat (ub * ub * ub) = b ^ 3" using unat_mult_small [of "ub * ub" ub] u2 assms(4) b23(2) by (simp add: power2_eq_square power3_eq_cube)
  show "unat (ub * ub * (ub * ub)) = b ^ 4" using unat_mult_small [of "ub * ub" "ub * ub"] u2 b4 by (simp add: power2_eq_square power4_eq_xxxx mult.assoc)
qed

lemma length_digits_4:
  assumes "2 \<le> b" "b ^ 4 \<le> n"
  shows "length (digits b n) = 4 + length (digits b (n div b ^ 4))"
proof -
  have le: "b ^ k \<le> n" if "k \<le> 4" for k
    using power_increasing [OF that, of b] assms by linarith
  have step: "length (digits b (n div b ^ k)) = Suc (length (digits b (n div b ^ Suc k)))" if "k < 4" for k
  proof -
    have "b * b ^ k \<le> n" using le [of "Suc k"] that by simp
    then have "b \<le> n div b ^ k" using assms(1) by (simp add: less_eq_div_iff_mult_less_eq)
    from length_digits_big [OF assms(1) this] show ?thesis by (simp only: power_Suc2 div_mult2_eq)
  qed
  show ?thesis using step [of 0] step [of 1] step [of 2] step [of 3] by (simp add: numeral_eq_Suc)
qed

lemma to_chars_int_width_loop_eq:
  fixes ub uv :: "'a::len word"
  assumes b: "2 \<le> b" "b \<le> 36" "32 \<le> LENGTH('a)" "unat ub = b"
  shows "to_chars_int_width_loop ub uv r = Some (r + length (digits b (unat uv)))"
proof (induction "unat uv" arbitrary: uv r rule: less_induct)
  case less
  note u = base_powers [OF b]
  note step = to_chars_int_width_loop.simps [of ub uv r, unfolded Let_def word_less_nat_alt u b(4)]
  have bpos: "0 < b" using b(1) by simp
  consider "unat uv < b" | "b \<le> unat uv" "unat uv < b ^ 2" | "b ^ 2 \<le> unat uv" "unat uv < b ^ 3"
    | "b ^ 3 \<le> unat uv" "unat uv < b ^ 4" | "b ^ 4 \<le> unat uv" by linarith
  then show ?case
  proof cases
    case 1
    then show ?thesis by (simp add: step)
  next
    case 2
    then show ?thesis using length_digits [OF b(1), of 1 "unat uv"] by (simp add: step power2_eq_square)
  next
    case 3
    moreover have "b \<le> b ^ 2" using power_increasing [of 1 2 b] b(1) by simp
    moreover have "length (digits b (unat uv)) = 3"
      using length_digits [OF b(1), of 2 "unat uv"] 3 by (simp add: power2_eq_square power3_eq_cube mult.assoc)
    ultimately show ?thesis by (simp add: step)
  next
    case 4
    moreover have "b \<le> b ^ 3" "b ^ 2 \<le> b ^ 3" using power_increasing [of 1 3 b] power_increasing [of 2 3 b] b(1) by simp_all
    moreover have "length (digits b (unat uv)) = 4"
      using length_digits [OF b(1), of 3 "unat uv"] 4 by (simp add: power4_eq_xxxx power3_eq_cube mult.assoc)
    ultimately show ?thesis by (simp add: step)
  next
    case 5
    have le: "b \<le> b ^ 4" "b ^ 2 \<le> b ^ 4" "b ^ 3 \<le> b ^ 4"
      using power_increasing [of 1 4 b] power_increasing [of 2 4 b] power_increasing [of 3 4 b] b(1) by simp_all
    have b4: "1 < b ^ 4" using one_less_power [of b 4] b(1) by simp
    then have nz: "ub * ub * (ub * ub) \<noteq> 0" using u(3) by (metis less_nat_zero_code unat_0)
    have dv: "unat (uv div (ub * ub * (ub * ub))) = unat uv div b ^ 4" by (simp add: unat_word_div u(3))
    have "unat uv div b ^ 4 < unat uv" using 5 b4 by (intro div_less_dividend) linarith+
    from less [OF this [folded dv], of "r + 4"] show ?thesis
      using 5 le nz length_digits_4 [OF b(1) 5] by (simp add: step dv)
  qed
qed

lemma to_chars_int_width_eq:
  fixes v :: "'a::len word"
  assumes "2 \<le> b" "b \<le> 36"
  shows "to_chars_int_width v b = Some (length (digits b (unat v)))"
proof (cases "32 \<le> LENGTH('a)")
  case True
  then have "(2 :: nat) ^ 32 \<le> 2 ^ LENGTH('a)" by (intro power_increasing) auto
  moreover have "b < 2 ^ 32" using assms(2) by simp
  ultimately have "b < 2 ^ LENGTH('a)" by (rule order.strict_trans2 [rotated])
  then show ?thesis using to_chars_int_width_loop_eq [OF assms True unat_of_nat_small, of v 0] True by (simp add: to_chars_int_width_def)
next
  case False
  have "unat (of_nat b :: 32 word) = b" by (rule unat_of_nat_small) (use assms(2) in simp)
  from to_chars_int_width_loop_eq [OF assms _ this, of "ucast v" 0] False show ?thesis
    using unat_ucast_up [of v, where 'b = 32] by (simp add: to_chars_int_width_def)
qed

lemma ilog2_exp:
  assumes "e < 31"
  shows "ilog2 (of_nat (2 ^ e) :: 32 word) = Some e"
proof -
  have "(2 :: nat) ^ e < 2 ^ 31" using assms by (intro power_strict_increasing) auto
  then have u: "unat (of_nat (2 ^ e) :: 32 word) = 2 ^ e" by (intro unat_of_nat_small) simp
  then have "(of_nat (2 ^ e) :: 32 word) \<noteq> 0" by (metis power_not_zero unat_0 zero_neq_numeral)
  then obtain l where l: "ilog2 (of_nat (2 ^ e) :: 32 word) = Some l" "(2 :: nat) ^ l \<le> 2 ^ e" "(2 :: nat) ^ e < 2 ^ Suc l"
    using ilog2_spec [of "of_nat (2 ^ e) :: 32 word"] u by (auto simp: wide_ok_def)
  have "l \<le> e" "e < Suc l"
    using power_le_imp_le_exp [OF _ l(2)] power_less_imp_less_exp [OF _ l(3)] by simp_all
  then show ?thesis using l(1) by simp
qed

lemma highest_bit_or_1: "v \<noteq> 0 \<Longrightarrow> highest_bit v h \<Longrightarrow> highest_bit (v OR 1) h" for v :: "'a::len word"
  by (auto simp: highest_bit_def bit_or_iff bit_1_iff)

lemma to_chars_int_width_pow2_eq:
  fixes v :: "'a::len word"
  assumes e: "0 < e" "e < 31" and len: "wide_ok LENGTH('a)" "LENGTH('a) < 2 ^ 31"
  shows "to_chars_int_width_pow2 (2 ^ e) v = Some (length (digits (2 ^ e) (unat v)))"
proof -
  obtain h where h: "highest_bit (v OR 1) h" "h = 0 \<and> v = 0 \<or> 2 ^ h \<le> unat v \<and> unat v < 2 ^ Suc h"
  proof (cases "v = 0")
    case True
    then show ?thesis by (intro that [of 0]) (auto simp: highest_bit_def bit_1_iff)
  next
    case False
    then obtain h where "highest_bit v h" using highest_bit_exists by blast
    with False show ?thesis using highest_bit_bounds [of v h] by (intro that [of h]) (auto intro: highest_bit_or_1)
  qed
  have hl: "h < LENGTH('a)" by (rule highest_bit_length [OF h(1)])
  have cz: "LENGTH('a) - countl_zero (v OR 1) = Suc h" using countl_zero_spec [OF len(1) h(1)] hl by simp
  have e': "unat (of_nat e :: 32 word) = e" "0 < sint (of_nat e :: 32 word)" using e by (auto intro: unat_of_nat_small simp: sint_of_nat_small)
  have h': "Suc h < 2 ^ 31" using hl len(2) by linarith
  then have a: "unat (of_nat (Suc h) :: 32 word) = Suc h" "0 \<le> sint (of_nat (Suc h) :: 32 word)"
    by (auto intro!: unat_of_nat_small simp: sint_of_nat_small simp del: of_nat_Suc)
  obtain r where r: "ceil_div_signed (of_nat (Suc h) :: 32 word) (of_nat e) = Some r" "unat r = ceil_quot (Suc h) e"
    using ceil_div_signed_eq [OF e'(2) a(2)] e'(1) a(1) by auto
  have "ceil_quot (Suc h) e = Suc (h div e)" using ceil_quot_pred [OF e(1), of "Suc h"] by simp
  moreover have "length (digits (2 ^ e) (unat v)) = Suc (h div e)"
  proof (rule length_digits)
    have "h < e * Suc (h div e)" using e(1) by (metis dividend_less_times_div mult_Suc_right add.commute)
    then have "(2 :: nat) ^ Suc h \<le> 2 ^ (e * Suc (h div e))" by (intro power_increasing) auto
    moreover have "unat v < 2 ^ Suc h" using h(2) by auto
    ultimately show "unat v < (2 ^ e) ^ Suc (h div e)" by (simp only: power_mult)
    have "(2 :: nat) ^ (e * (h div e)) \<le> 2 ^ h" by (intro power_increasing) auto
    then show "h div e = 0 \<or> (2 ^ e) ^ (h div e) \<le> unat v" using h(2) by (auto simp: power_mult)
    show "2 \<le> (2 :: nat) ^ e" using e(1) power_increasing [of 1 e "2 :: nat"] by simp
  qed
  ultimately show ?thesis using r ilog2_exp [OF e(2)] by (simp add: to_chars_int_width_pow2_def cz del: of_nat_Suc of_nat_power)
qed

text \<open>
  The values whose width is computed correctly: in base ten, all but the largest one of a type of 32 or 128 bits that is not the one
  \<^verbatim>\<open>ilog10\<close> names.
\<close>

definition to_chars_ok :: "bool \<Rightarrow> nat \<Rightarrow> 'a::len word \<Rightarrow> bool" where
  "to_chars_ok same_type b v \<longleftrightarrow> LENGTH('a) \<in> {8, 16, 32, 64, 128} \<and> (b = 10 \<and> LENGTH('a) \<in> {32, 128} \<and> v = - 1 \<longrightarrow> same_type)"

lemma to_chars_ok_ilog10:
  fixes v :: "'a::len word"
  assumes "to_chars_ok same_type 10 v" "v \<noteq> 0"
  shows "\<exists>r. ilog10 same_type v = Some r \<and> 10 ^ r \<le> unat v \<and> unat v < 10 ^ Suc r"
proof -
  have len: "LENGTH('a) \<in> {8, 16, 32, 64, 128}" and no: "\<not> (\<not> same_type \<and> LENGTH('a) \<in> {32, 128} \<and> v = - 1)"
    using assms(1) unfolding to_chars_ok_def by blast+
  show ?thesis using ilog10_spec [OF assms(2) len, of same_type] unfolding if_not_P [OF no] by blast
qed

lemma to_chars_int_width_10_eq:
  fixes v :: "'a::len word"
  assumes "to_chars_ok same_type 10 v"
  shows "to_chars_int_width_10 same_type v = Some (length (digits 10 (unat v)))"
proof (cases "v > 1")
  case True
  then have "v \<noteq> 0" by auto
  then obtain r where r: "ilog10 same_type v = Some r" "10 ^ r \<le> unat v" "unat v < 10 ^ Suc r" using to_chars_ok_ilog10 [OF assms] by blast
  then have "length (digits 10 (unat v)) = Suc r" by (intro length_digits) auto
  then show ?thesis using True r(1) by (simp add: to_chars_int_width_10_def)
next
  case False
  then have "unat v \<le> unat (1 :: 'a word)" by (simp add: word_less_nat_alt)
  then have "unat v < 10" by (cases "LENGTH('a) = 1") auto
  then show ?thesis using False by (simp add: to_chars_int_width_10_def)
qed

lemma to_chars_width_eq:
  fixes v :: "'a::len word"
  assumes b: "2 \<le> b" "b \<le> 36" and ok: "to_chars_ok same_type b v"
  shows "to_chars_width same_type v b = Some (length (digits b (unat v)))"
proof -
  have len: "wide_ok LENGTH('a)" "LENGTH('a) < 2 ^ 31" using ok by (auto simp: to_chars_ok_def wide_ok_def)
  note pow2 = to_chars_int_width_pow2_eq [OF _ _ len, of _ v]
  show ?thesis
    using pow2 [of 1] pow2 [of 2] pow2 [of 3] pow2 [of 4] pow2 [of 5] to_chars_int_width_10_eq [of same_type v] ok to_chars_int_width_eq [OF b, of v]
    by (cases "b = 10") (simp_all add: to_chars_width_def)
qed

section \<open>Writing the digits\<close>

lemma to_chars_value_to_char_eq: "d < b \<Longrightarrow> b \<le> 36 \<Longrightarrow> to_chars_value_to_char d b = Some (digit_char d)"
  by (auto simp: to_chars_value_to_char_def digit_char_def)

lemma put_seg_write_last:
  assumes "a \<le> l" "l < length m" "length xs = l - a"
  shows "put_seg (m[l := c]) a l xs = put_seg m a (Suc l) (xs @ [c])"
  using assms by (simp add: put_seg_def drop_update_swap upd_conv_take_nth_drop drop_append min_def)

lemma to_chars_int_generic_eq:
  fixes v :: "'a::len word"
  assumes b: "2 \<le> b" "b \<le> 36" "b < 2 ^ LENGTH('a)"
  shows "length (digits b (unat v)) \<le> l \<Longrightarrow> l \<le> length m \<Longrightarrow>
    to_chars_int_generic m l v b = Some (put_seg m (l - length (digits b (unat v))) l (map digit_char (digits b (unat v))))"
proof (induction l arbitrary: m v)
  case (Suc l)
  let ?c = "digit_char (unat v mod b)" and ?v = "v div of_nat b :: 'a word"
  have ub: "unat (of_nat b :: 'a word) = b" by (rule unat_of_nat_small [OF b(3)])
  then have nz: "(of_nat b :: 'a word) \<noteq> 0" using b(1) by (metis not_numeral_le_zero unat_0)
  have c: "to_chars_value_to_char (unat v mod b) b = Some ?c" using b(1,2) by (intro to_chars_value_to_char_eq) auto
  have dv: "unat ?v = unat v div b" by (simp add: unat_word_div ub)
  have wr: "wr m l ?c = Some (m[l := ?c])" using Suc.prems(2) by simp
  show ?case
  proof (cases "unat v < b")
    case True
    then have "?v = 0" using dv by (simp add: word_unat_eq_iff)
    then show ?thesis using True nz c wr Suc.prems(2) by (simp add: put_seg_def upd_conv_take_nth_drop)
  next
    case False
    then have big: "digits b (unat v) = digits b (unat ?v) @ [unat v mod b]" using digits_big [OF b(1)] dv by simp
    have "0 < unat v div b" using False b(1) by (simp add: div_greater_zero_iff)
    then have "?v \<noteq> 0" using dv by (metis less_irrefl unat_0)
    moreover have "to_chars_int_generic (m[l := ?c]) l ?v b =
      Some (put_seg (m[l := ?c]) (l - length (digits b (unat ?v))) l (map digit_char (digits b (unat ?v))))"
      by (rule Suc.IH) (use Suc.prems big in auto)
    ultimately show ?thesis using nz c wr Suc.prems big
      put_seg_write_last [of "l - length (digits b (unat ?v))" l m "map digit_char (digits b (unat ?v))" ?c] by (simp add: mem_simps)
  qed
qed simp

text \<open>
  The whole conversion: where the digits fit, they are written from \<open>first\<close> on and nothing else changes;
  where they do not, nothing is written.
\<close>

lemma base_fits: "LENGTH('a) \<in> {8, 16, 32, 64, 128} \<Longrightarrow> b \<le> 36 \<Longrightarrow> b < 2 ^ LENGTH('a::len)" for b :: nat
  by auto

lemma to_chars_unsigned_eq:
  fixes v :: "'a::len word"
  assumes b: "2 \<le> b" "b \<le> 36" and r: "f \<le> l" "l \<le> length m" and ok: "to_chars_ok same_type b v"
  defines "n \<equiv> length (digits b (unat v))"
  shows "to_chars_unsigned same_type m f l v b =
    Some (if l - f < n then (m, \<lparr>to_ptr = l, to_ec = value_too_large\<rparr>)
          else (put_seg m f (f + n) (map digit_char (digits b (unat v))), \<lparr>to_ptr = f + n, to_ec = errc_ok\<rparr>))"
proof -
  have w: "to_chars_width same_type v b = Some n" using to_chars_width_eq [OF b ok] by (simp add: n_def)
  have bl: "b < 2 ^ LENGTH('a)" using ok b(2) by (intro base_fits) (auto simp: to_chars_ok_def)
  have "to_chars_int_generic m (f + n) v b = Some (put_seg m f (f + n) (map digit_char (digits b (unat v))))" if "\<not> l - f < n"
    using to_chars_int_generic_eq [OF b bl, of v "f + n" m] r that by (simp add: n_def)
  then show ?thesis using b r(1) w by (simp add: to_chars_unsigned_def)
qed

lemma to_chars_ok_uabs:
  fixes v :: "'a::len word"
  assumes "LENGTH('a) \<in> {8, 16, 32, 64, 128}"
  shows "to_chars_ok same_type b (uabs v)"
proof -
  have "uabs v \<noteq> - 1"
  proof
    assume "uabs v = - 1"
    then have "unat (uabs v) = 2 ^ LENGTH('a) - 1" by (simp add: unsigned_minus_1_eq_mask mask_eq_exp_minus_1)
    moreover have "int (unat (uabs v)) \<le> int (2 ^ (LENGTH('a) - 1))" using uabs_eq [of v] sint_ge [of v] sint_lt [of v] by simp
    then have "unat (uabs v) \<le> 2 ^ (LENGTH('a) - 1)" unfolding of_nat_le_iff .
    ultimately have le: "2 ^ LENGTH('a) - 1 \<le> (2 :: nat) ^ (LENGTH('a) - 1)" by simp
    show False using assms le by auto
  qed
  then show ?thesis using assms by (simp add: to_chars_ok_def)
qed

text \<open>The characters of a signed value.\<close>

definition int_chars :: "nat \<Rightarrow> int \<Rightarrow> char list" where
  "int_chars b i = (if i < 0 then [CHR ''-''] else []) @ map digit_char (digits b (nat \<bar>i\<bar>))"

lemma put_seg_sign: "f < length m \<Longrightarrow> put_seg (m[f := c]) (Suc f) k xs = put_seg m f k (c # xs)" if "Suc f \<le> k"
  using that by (simp add: put_seg_def take_Suc_conv_app_nth)

lemma to_chars_signed_eq:
  fixes v :: "'a::len word"
  assumes b: "2 \<le> b" "b \<le> 36" and r: "f \<le> l" "l \<le> length m" and ok: "to_chars_ok same_type b (uabs v)"
  defines "n \<equiv> length (int_chars b (sint v))"
  shows "n \<le> l - f \<Longrightarrow> to_chars_signed same_type m f l v b =
      Some (put_seg m f (f + n) (int_chars b (sint v)), \<lparr>to_ptr = f + n, to_ec = errc_ok\<rparr>)"
    and "l - f < n \<Longrightarrow> \<exists>m'. to_chars_signed same_type m f l v b = Some (m', \<lparr>to_ptr = l, to_ec = value_too_large\<rparr>) \<and> frame m m' f l"
proof -
  have u: "nat \<bar>sint v\<bar> = unat (uabs v)" using uabs_eq [of v] by linarith
  note eq = to_chars_unsigned_eq [OF b _ _ ok]
  let ?ds = "digits b (unat (uabs v))"
  have ic: "int_chars b (sint v) = (if sint v < 0 then [CHR ''-''] else []) @ map digit_char ?ds" by (simp only: int_chars_def u)
  show "to_chars_signed same_type m f l v b = Some (put_seg m f (f + n) (int_chars b (sint v)), \<lparr>to_ptr = f + n, to_ec = errc_ok\<rparr>)" if fits: "n \<le> l - f"
  proof (cases "sint v < 0")
    case True
    then have n: "n = Suc (length ?ds)" by (simp add: n_def ic)
    then have fl: "f < l" "f < length m" "\<not> l - Suc f < length ?ds" using fits r by auto
    then have "to_chars_signed same_type m f l v b = to_chars_unsigned same_type (m[f := CHR ''-'']) (Suc f) l (uabs v) b"
      using True b by (simp add: to_chars_signed_def mem_simps)
    also have "\<dots> = Some (put_seg (m[f := CHR ''-'']) (Suc f) (f + n) (map digit_char ?ds), \<lparr>to_ptr = f + n, to_ec = errc_ok\<rparr>)"
      using eq [of "Suc f" l "m[f := CHR ''-'']"] fl r n by simp
    finally show ?thesis using True fl(2) n put_seg_sign [of f "f + n" m "CHR ''-''" "map digit_char ?ds"] by (simp add: ic)
  next
    case False
    then show ?thesis using fits r b eq [of f l m] by (simp add: to_chars_signed_def ic n_def)
  qed
  show "\<exists>m'. to_chars_signed same_type m f l v b = Some (m', \<lparr>to_ptr = l, to_ec = value_too_large\<rparr>) \<and> frame m m' f l" if "l - f < n"
  proof (cases "sint v < 0 \<and> f < l")
    case True
    then have "n = Suc (length ?ds)" by (simp add: n_def ic)
    then show ?thesis using True that r b eq [of "Suc f" l "m[f := CHR ''-'']"] by (auto simp: to_chars_signed_def mem_simps intro: frame_update)
  next
    case False
    moreover have "l - f < length ?ds" using that False by (cases "sint v < 0") (auto simp: n_def ic)
    ultimately show ?thesis using that r b eq [of f l m] by (auto simp: to_chars_signed_def)
  qed
qed

section \<open>Properties\<close>

text \<open>
  C16: the loop that counts digits ends for every value of every width and every base the conversion accepts,
  and returns the number of digits of the value: none of the four powers of the base it compares with
  wraps around, also where the type of the value is narrower than the power.
\<close>

theorem to_chars_int_width_terminates:
  fixes v :: "'a::len word"
  assumes "2 \<le> base" "base \<le> 36"
  shows "to_chars_int_width v base = Some (length (digits base (unat v)))"
  using assms by (rule to_chars_int_width_eq)

theorem to_chars_int_width_terminates_witness:
  "to_chars_int_width (255 :: 8 word) 36 = Some (length (digits 36 (unat (255 :: 8 word))))"
  by (rule to_chars_int_width_terminates) simp_all

text \<open>
  What a call that is to write the characters \<open>cs\<close> into \<open>[first, last')\<close> leaves: the characters and their end where they fit, and
  otherwise the end of the buffer, an error, and nothing written outside of it.
\<close>

definition chars_written :: "char mem \<Rightarrow> iter \<Rightarrow> iter \<Rightarrow> char list \<Rightarrow> char mem \<Rightarrow> to_chars_result \<Rightarrow> bool" where
  "chars_written m first last' cs m' res \<longleftrightarrow>
     (if length cs \<le> last' - first
      then res = \<lparr>to_ptr = first + length cs, to_ec = errc_ok\<rparr> \<and> m' = take first m @ cs @ drop (first + length cs) m
      else res = \<lparr>to_ptr = last', to_ec = value_too_large\<rparr> \<and> frame m m' first last')"

lemma to_chars_unsigned_written:
  fixes v :: "'a::len word"
  assumes "2 \<le> b" "b \<le> 36" "f \<le> l" "l \<le> length m" "to_chars_ok same_type b v"
  shows "\<exists>m' res. to_chars_unsigned same_type m f l v b = Some (m', res) \<and> chars_written m f l (int_chars b (uint v)) m' res"
proof -
  have c: "int_chars b (uint v) = map digit_char (digits b (unat v))" by (simp add: int_chars_def)
  show ?thesis using to_chars_unsigned_eq [OF assms] unfolding c by (auto simp: chars_written_def put_seg_def not_less)
qed

lemma to_chars_signed_written:
  fixes v :: "'a::len word"
  assumes "2 \<le> b" "b \<le> 36" "f \<le> l" "l \<le> length m" "LENGTH('a) \<in> {8, 16, 32, 64, 128}"
  shows "\<exists>m' res. to_chars_signed same_type m f l v b = Some (m', res) \<and> chars_written m f l (int_chars b (sint v)) m' res"
proof (cases "length (int_chars b (sint v)) \<le> l - f")
  case True
  then show ?thesis using to_chars_signed_eq(1) [OF assms(1-4) to_chars_ok_uabs [OF assms(5)] True, of same_type] by (simp add: chars_written_def put_seg_def)
next
  case False
  then obtain m' where "to_chars_signed same_type m f l v b = Some (m', \<lparr>to_ptr = l, to_ec = value_too_large\<rparr>)" "frame m m' f l"
    using to_chars_signed_eq(2) [OF assms(1-4) to_chars_ok_uabs [OF assms(5)], of v same_type] by auto
  then show ?thesis using False by (auto simp: chars_written_def)
qed

text \<open>
  C14: \<^verbatim>\<open>to_chars\<close> on a signed or unsigned type of 8 to 128 bits: a buffer that holds the sign and the digits of the value
  receives exactly these characters, and nothing else changes, for the least value of a signed type too; for a
  shorter buffer the result is its end and \<^verbatim>\<open>value_too_large\<close>, and nothing outside of it is written.  One value is excepted, in base
  ten: the largest one of an unsigned type of 32 bits other than \<^verbatim>\<open>uint32_t\<close> (of 128 bits other than \<^verbatim>\<open>__uint128_t\<close>).
\<close>

theorem to_chars_correct:
  fixes v :: "'a::len word"
  assumes "2 \<le> base" "base \<le> 36" "first \<le> last'" "last' \<le> length m" "LENGTH('a) \<in> {8, 16, 32, 64, 128}"
  shows "(\<exists>m' res. to_chars_signed same_type m first last' v base = Some (m', res) \<and> chars_written m first last' (int_chars base (sint v)) m' res) \<and>
    (\<not> (base = 10 \<and> \<not> same_type \<and> LENGTH('a) \<in> {32, 128} \<and> v = - 1) \<longrightarrow>
     (\<exists>m' res. to_chars_unsigned same_type m first last' v base = Some (m', res) \<and> chars_written m first last' (int_chars base (uint v)) m' res))"
proof (intro conjI impI)
  show "\<exists>m' res. to_chars_signed same_type m first last' v base = Some (m', res) \<and> chars_written m first last' (int_chars base (sint v)) m' res"
    by (rule to_chars_signed_written [OF assms])
  assume "\<not> (base = 10 \<and> \<not> same_type \<and> LENGTH('a) \<in> {32, 128} \<and> v = - 1)"
  then have "to_chars_ok same_type base v" using assms(5) unfolding to_chars_ok_def by blast
  then show "\<exists>m' res. to_chars_unsigned same_type m first last' v base = Some (m', res) \<and> chars_written m first last' (int_chars base (uint v)) m' res"
    by (rule to_chars_unsigned_written [OF assms(1-4)])
qed

theorem to_chars_correct_witness:
  "(\<exists>m' res. to_chars_signed False (replicate 6 (CHR ''x'')) 1 6 (- 128 :: 8 word) 10 = Some (m', res) \<and>
      chars_written (replicate 6 (CHR ''x'')) 1 6 (int_chars 10 (sint (- 128 :: 8 word))) m' res) \<and>
   (\<exists>m' res. to_chars_unsigned False (replicate 6 (CHR ''x'')) 1 6 (- 128 :: 8 word) 10 = Some (m', res) \<and>
      chars_written (replicate 6 (CHR ''x'')) 1 6 (int_chars 10 (uint (- 128 :: 8 word))) m' res)"
  using to_chars_correct [of 10 1 6 "replicate 6 (CHR ''x'')" False "- 128 :: 8 word"] by simp

text \<open>
  For the largest value of an unsigned type of 32 bits that is not \<^verbatim>\<open>uint32_t\<close> the width is one too large:
  the result is eleven characters, the first of which is not written.
\<close>

lemma to_chars_unsigned_long:
  assumes "length m = 11"
  shows "\<exists>m'. to_chars_unsigned False m 0 11 (- 1 :: 32 word) 10 = Some (m', \<lparr>to_ptr = 11, to_ec = errc_ok\<rparr>) \<and> m' ! 0 = m ! 0"
proof -
  have u: "unat (- 1 :: 32 word) = 4294967295" by (simp add: unsigned_minus_1_eq_mask mask_eq_exp_minus_1)
  have n: "length (digits 10 4294967295) = 10" using length_digits [of 10 9 4294967295] by simp
  have "to_chars_int_generic m 11 (- 1 :: 32 word) 10 = Some (put_seg m 1 11 (map digit_char (digits 10 4294967295)))"
    using to_chars_int_generic_eq [of 10 "- 1 :: 32 word" 11 m] assms n by (simp add: u)
  moreover have "put_seg m 1 11 xs ! 0 = m ! 0" for xs using assms by (simp add: put_seg_def nth_append)
  moreover have "(1 :: 32 word) < - 1" by (simp add: word_less_nat_alt u)
  ultimately show ?thesis using ilog10_unsigned_long by (simp add: to_chars_unsigned_def to_chars_width_def to_chars_int_width_10_def)
qed

end
