(* ===== verification/From_Chars.thy ===== *)
theory From_Chars
  imports To_Chars
begin

unbundle bit_operations_syntax

text \<open>
  Conversion of characters to integers (\<^verbatim>\<open>cuda/std/__charconv/from_chars.h\<close>): the value of a character, the loop that
  accumulates digits and stops computing at the first overflow, and the two versions for unsigned and signed types.
  \<open>char_signed\<close> says whether \<^verbatim>\<open>char\<close> is a signed type, \<open>max_bits\<close> is the width of the widest integer type, on which
  \<^verbatim>\<open>mul_overflow\<close> depends.
\<close>

section \<open>Definitions\<close>

record from_chars_result =
  from_ptr :: iter
  from_ec :: errc

record from_chars_char_to_value_result =
  valid :: bool
  cvalue :: int

definition char_int :: "bool \<Rightarrow> char \<Rightarrow> int" where
  "char_int char_signed c = (if char_signed \<and> 128 \<le> (of_char c :: nat) then of_char c - 256 else of_char c)"

definition from_chars_char_to_value :: "bool \<Rightarrow> char \<Rightarrow> nat \<Rightarrow> from_chars_char_to_value_result" where
  "from_chars_char_to_value char_signed ch base =
     (let c = char_int char_signed ch; b = int base in
      if b \<le> 10 then \<lparr>valid = (of_char (CHR ''0'') \<le> c \<and> c < of_char (CHR ''0'') + b), cvalue = c - of_char (CHR ''0'')\<rparr>
      else if of_char (CHR ''0'') \<le> c \<and> c \<le> of_char (CHR ''9'') then \<lparr>valid = True, cvalue = c - of_char (CHR ''0'')\<rparr>
      else if of_char (CHR ''a'') \<le> c \<and> c < of_char (CHR ''a'') + b - 10 then \<lparr>valid = True, cvalue = c - of_char (CHR ''a'') + 10\<rparr>
      else \<lparr>valid = (of_char (CHR ''A'') \<le> c \<and> c < of_char (CHR ''A'') + b - 10), cvalue = c - of_char (CHR ''A'') + 10\<rparr>)"

function (sequential) from_chars_int_loop ::
  "bool \<Rightarrow> nat \<Rightarrow> char mem \<Rightarrow> iter \<Rightarrow> iter \<Rightarrow> 'a::len word \<Rightarrow> bool \<Rightarrow> nat \<Rightarrow> (iter \<times> 'a word \<times> bool) option" where
  "from_chars_int_loop char_signed max_bits m it last' value overflow base =
     (if it = last' then Some (it, value, overflow)
      else do { ch \<leftarrow> rd m it;
                let digit = from_chars_char_to_value char_signed ch base in
                if \<not> valid digit then Some (it, value, overflow)
                else if overflow then from_chars_int_loop char_signed max_bits m (it + 1) last' value overflow base
                else let unsigned_digit = (of_int (cvalue digit) :: 'a word);
                         product = mul_overflow_generic (LENGTH('a) < max_bits) value (of_nat base);
                         sum' = add_overflow_generic_impl (ovalue product) unsigned_digit in
                     if oflag product \<or> oflag sum'
                     then from_chars_int_loop char_signed max_bits m (it + 1) last' value True base
                     else from_chars_int_loop char_signed max_bits m (it + 1) last' (ovalue sum') overflow base })"
  by pat_completeness auto
termination
  by (relation "measure (\<lambda>(char_signed, max_bits, m, it, last', value, overflow, base). length m - it)") auto

declare from_chars_int_loop.simps [simp del]

definition from_chars_int_generic ::
  "bool \<Rightarrow> nat \<Rightarrow> char mem \<Rightarrow> iter \<Rightarrow> iter \<Rightarrow> 'a::len word \<Rightarrow> nat \<Rightarrow> ('a word \<times> from_chars_result) option" where
  "from_chars_int_generic char_signed max_bits m first last' value base =
     do { (it, value', overflow) \<leftarrow> from_chars_int_loop char_signed max_bits m first last' value False base;
          Some (value', \<lparr>from_ptr = it,
            from_ec = (if overflow then result_out_of_range else if it = first then invalid_argument else errc_ok)\<rparr>) }"

text \<open>The new value of the variable \<open>value\<close>, and the result.\<close>

definition from_chars_finish ::
  "iter \<Rightarrow> 'a::len word \<Rightarrow> 'a word \<Rightarrow> from_chars_result \<Rightarrow> 'a word \<times> from_chars_result" where
  "from_chars_finish first value result ret =
     (if from_ec ret = errc_ok then (result, ret)
      else if from_ec ret = invalid_argument then (value, ret\<lparr>from_ptr := first\<rparr>)
      else (value, ret))"

definition from_chars_unsigned ::
  "bool \<Rightarrow> nat \<Rightarrow> char mem \<Rightarrow> iter \<Rightarrow> iter \<Rightarrow> 'a::len word \<Rightarrow> nat \<Rightarrow> ('a word \<times> from_chars_result) option" where
  "from_chars_unsigned char_signed max_bits m first last' value base =
     (if \<not> (2 \<le> base \<and> base \<le> 36) \<or> \<not> first \<le> last' then None
      else do { (result, ret) \<leftarrow> from_chars_int_generic char_signed max_bits m first last' 0 base;
                Some (from_chars_finish first value result ret) })"

definition from_chars_signed ::
  "bool \<Rightarrow> nat \<Rightarrow> char mem \<Rightarrow> iter \<Rightarrow> iter \<Rightarrow> 'a::len word \<Rightarrow> nat \<Rightarrow> ('a word \<times> from_chars_result) option" where
  "from_chars_signed char_signed max_bits m first last' value base =
     (if \<not> (2 \<le> base \<and> base \<le> 36) \<or> \<not> first \<le> last' then None
      else do { minus \<leftarrow> (if first < last' then map_option (\<lambda>ch. ch = CHR ''-'') (rd m first) else Some False);
                (result, ret) \<leftarrow> from_chars_int_generic char_signed max_bits m (first + of_bool minus) last' 0 base;
                let max' = uabs (if minus then push_bit (LENGTH('a) - 1) 1 else mask (LENGTH('a) - 1) :: 'a word);
                    ret' = (if from_ec ret = errc_ok \<and> max' < result then ret\<lparr>from_ec := result_out_of_range\<rparr> else ret);
                    result' = (if from_ec ret = errc_ok \<and> minus then neg result else result) in
                Some (from_chars_finish first value result' ret') })"

text \<open>The overload for \<^verbatim>\<open>char\<close>.\<close>

definition from_chars_char ::
  "bool \<Rightarrow> nat \<Rightarrow> char mem \<Rightarrow> iter \<Rightarrow> iter \<Rightarrow> 8 word \<Rightarrow> nat \<Rightarrow> (8 word \<times> from_chars_result) option" where
  "from_chars_char char_signed max_bits m first last' value base =
     do { (value_tmp, ret) \<leftarrow> (if char_signed then from_chars_signed char_signed max_bits m first last' 0 base
                                  else from_chars_unsigned char_signed max_bits m first last' 0 base);
          Some (if from_ec ret = errc_ok then value_tmp else value, ret) }"

section \<open>Digits of characters\<close>

text \<open>The reference: the digit a character stands for, and the longest prefix of digits.\<close>

definition digit_of :: "nat \<Rightarrow> char \<Rightarrow> nat option" where
  "digit_of b c =
     (let k = of_char c :: nat;
          d = (if 48 \<le> k \<and> k \<le> 57 then Some (k - 48) else if 97 \<le> k \<and> k \<le> 122 then Some (k - 87)
               else if 65 \<le> k \<and> k \<le> 90 then Some (k - 55) else None)
      in if (\<exists>x. d = Some x \<and> x < b) then d else None)"

definition digit_prefix :: "nat \<Rightarrow> char list \<Rightarrow> nat list" where
  "digit_prefix b cs = map (\<lambda>c. the (digit_of b c)) (takeWhile (\<lambda>c. digit_of b c \<noteq> None) cs)"

lemma digit_prefix_Nil [simp]: "digit_prefix b [] = []"
  by (simp add: digit_prefix_def)

lemma digit_prefix_Cons: "digit_prefix b (c # cs) = (case digit_of b c of None \<Rightarrow> [] | Some d \<Rightarrow> d # digit_prefix b cs)"
  by (auto simp: digit_prefix_def split: option.splits)

lemma of_char_less_256: "(of_char c :: nat) < 256"
  by (metis of_char_of of_char_mod_256 mod_less_divisor zero_less_numeral)

lemma char_int_cases: "char_int sc c = int (of_char c) \<or> 128 \<le> (of_char c :: nat) \<and> char_int sc c < 0"
  using of_char_less_256 [of c] by (auto simp: char_int_def of_char_def)

text \<open>Both readings of a character agree, case by case over the ranges of digits and letters.\<close>

definition digit_of_code :: "nat \<Rightarrow> int \<Rightarrow> int option" where
  "digit_of_code b x =
     (if 48 \<le> x \<and> x \<le> 57 \<and> x < 48 + int b then Some (x - 48)
      else if 10 < b \<and> 97 \<le> x \<and> x < 87 + int b then Some (x - 87)
      else if 10 < b \<and> 65 \<le> x \<and> x < 55 + int b then Some (x - 55) else None)"

lemma from_chars_char_to_value_code:
  assumes "b \<le> 36"
  shows "valid (from_chars_char_to_value sc c b) \<longleftrightarrow> digit_of_code b (char_int sc c) \<noteq> None"
    and "digit_of_code b (char_int sc c) = Some d \<Longrightarrow> cvalue (from_chars_char_to_value sc c b) = d"
proof -
  define x where "x = char_int sc c"
  note def = from_chars_char_to_value_def [of sc c b, folded x_def] digit_of_code_def
  show "valid (from_chars_char_to_value sc c b) \<longleftrightarrow> digit_of_code b (char_int sc c) \<noteq> None"
    unfolding x_def [symmetric] using assms by (auto simp: def Let_def)
  show "digit_of_code b (char_int sc c) = Some d \<Longrightarrow> cvalue (from_chars_char_to_value sc c b) = d"
    unfolding x_def [symmetric] using assms by (auto simp: def Let_def split: if_splits)
qed

lemma digit_of_code_eq:
  assumes "b \<le> 36"
  shows "digit_of_code b (char_int sc c) = map_option int (digit_of b c)"
proof -
  define k :: nat where "k = of_char c"
  note def = digit_of_def [of b c, folded k_def] digit_of_code_def
  consider "char_int sc c = int k" | "128 \<le> k" "char_int sc c < 0" using char_int_cases [of sc c] by (auto simp: k_def)
  then show ?thesis
  proof cases
    case 1
    then show ?thesis using assms by (auto simp: def Let_def)
  next
    case 2
    then show ?thesis by (simp add: def Let_def)
  qed
qed

lemma from_chars_char_to_value_eq:
  assumes "b \<le> 36"
  shows "valid (from_chars_char_to_value sc c b) \<longleftrightarrow> digit_of b c \<noteq> None"
    and "digit_of b c = Some d \<Longrightarrow> cvalue (from_chars_char_to_value sc c b) = int d"
  using from_chars_char_to_value_code [OF assms, of sc c] by (simp_all add: digit_of_code_eq [OF assms])

lemma digit_of_less: "digit_of b c = Some d \<Longrightarrow> d < b"
  by (auto simp: digit_of_def Let_def split: if_splits)

lemma digit_of_digit_char: "d < b \<Longrightarrow> b \<le> 36 \<Longrightarrow> digit_of b (digit_char d) = Some d"
  by (auto simp: digit_of_def digit_char_def Let_def)

lemma digit_of_minus: "digit_of b (CHR ''-'') = None"
  by (simp add: digit_of_def)

section \<open>Accumulating digits\<close>

definition value_of :: "nat \<Rightarrow> nat \<Rightarrow> nat list \<Rightarrow> nat" where
  "value_of b a = foldl (\<lambda>a d. a * b + d) a"

lemma value_of_simps [simp]: "value_of b a [] = a" "value_of b a (d # ds) = value_of b (a * b + d) ds"
  by (simp_all add: value_of_def)

lemma value_of_ge: "0 < b \<Longrightarrow> a \<le> value_of b a ds"
proof (induction ds arbitrary: a)
  case (Cons d ds)
  have "a \<le> a * b + d" using Cons.prems by (simp add: trans_le_add1)
  also have "\<dots> \<le> value_of b (a * b + d) ds" by (rule Cons.IH [OF Cons.prems])
  finally show ?case by simp
qed simp

lemma value_of_digits: "2 \<le> b \<Longrightarrow> value_of b 0 (digits b n) = n"
  using of_digits_digits [of b n] by (simp add: value_of_def of_digits_def)

lemma rd_seg: "it < l \<Longrightarrow> l \<le> length m \<Longrightarrow> seg m it l = m ! it # seg m (it + 1) l"
  by (simp add: seg_Cons)

lemma loop_overflowed:
  fixes v :: "'a::len word"
  assumes "b \<le> 36"
  shows "it \<le> l \<Longrightarrow> l \<le> length m \<Longrightarrow>
    from_chars_int_loop sc mb m it l v True b = Some (it + length (digit_prefix b (seg m it l)), v, True)"
proof (induction "l - it" arbitrary: it)
  case 0
  then show ?case by (simp add: from_chars_int_loop.simps)
next
  case (Suc k)
  then have lt: "it < l" by simp
  have "from_chars_int_loop sc mb m (it + 1) l v True b = Some (it + 1 + length (digit_prefix b (seg m (it + 1) l)), v, True)"
    by (rule Suc.hyps(1)) (use Suc.hyps(2) Suc.prems lt in auto)
  then show ?case using lt Suc.prems
    by (simp add: from_chars_int_loop.simps [of sc mb m it] mem_simps rd_seg digit_prefix_Cons from_chars_char_to_value_eq [OF assms] Let_def split: option.splits)
qed

text \<open>The widths of the supported types, given the width of the widest one.\<close>

definition width_ok :: "nat \<Rightarrow> nat \<Rightarrow> bool" where
  "width_ok max_bits len \<longleftrightarrow> len \<in> {8, 16, 32, 64, 128} \<and> len \<le> max_bits \<and> max_bits \<in> {64, 128}"

lemma accumulate_step:
  fixes v :: "'a::len word"
  assumes w: "width_ok mb LENGTH('a)" and b: "b \<le> 36" "d < b"
  defines "p \<equiv> mul_overflow_generic (LENGTH('a) < mb) v (of_nat b)"
  defines "s \<equiv> add_overflow_generic_impl (ovalue p) (of_nat d)"
  shows "oflag p \<or> oflag s \<longleftrightarrow> 2 ^ LENGTH('a) \<le> unat v * b + d"
    and "\<not> 2 ^ LENGTH('a) \<le> unat v * b + d \<Longrightarrow> unat (ovalue s) = unat v * b + d"
proof -
  have len: "LENGTH('a) \<in> {8, 16, 32, 64, 128}" "LENGTH('a) \<le> mb" "mb \<in> {64, 128}" using w by (simp_all add: width_ok_def)
  have b': "unat (of_nat b :: 'a word) = b" "unat (of_nat d :: 'a word) = d"
    using base_fits [OF len(1), of b] base_fits [OF len(1), of d] b by (simp_all add: unat_of_nat_small)
  have "LENGTH('a) < mb \<or> (\<exists>h \<ge> 2. LENGTH('a) = 2 * h)"
  proof (cases "LENGTH('a) < mb")
    case False
    then have "LENGTH('a) = 2 * (mb div 2)" "2 \<le> mb div 2" using len(2,3) by auto
    then show ?thesis by blast
  qed simp
  note mul = mul_overflow_generic_eq [OF this, of v "of_nat b", folded p_def, unfolded b']
  note add = add_overflow_generic_impl_eq [of "ovalue p" "of_nat d", folded s_def, unfolded b' mul(1)]
  show iff: "oflag p \<or> oflag s \<longleftrightarrow> 2 ^ LENGTH('a) \<le> unat v * b + d"
  proof (cases "unat v * b < 2 ^ LENGTH('a)")
    case True
    then have "unat (v * of_nat b) = unat v * b" using unat_mult_small [of v "of_nat b"] by (simp only: b')
    then show ?thesis using True mul(2) add by simp
  qed (use mul(2) in simp)
  show "unat (ovalue s) = unat v * b + d" if "\<not> 2 ^ LENGTH('a) \<le> unat v * b + d"
  proof -
    have lt: "unat v * b + d < 2 ^ LENGTH('a)" using that by simp
    then have "unat v * b < 2 ^ LENGTH('a)" by simp
    then have u: "unat (v * of_nat b) = unat v * b" using unat_mult_small [of v "of_nat b"] by (simp only: b')
    then have "unat (v * of_nat b + of_nat d) = unat v * b + d" using unat_add_small [of "v * of_nat b" "of_nat d"] lt by (simp only: b' u)
    then show ?thesis using add(1) by simp
  qed
qed

lemma unat_in_range: "\<not> 2 ^ LENGTH('a) \<le> unat v" for v :: "'a::len word"
  by (simp add: not_le)

lemma from_chars_int_loop_eq:
  fixes v :: "'a::len word"
  assumes w: "width_ok mb LENGTH('a)" and b: "2 \<le> b" "b \<le> 36"
  shows "it \<le> l \<Longrightarrow> l \<le> length m \<Longrightarrow>
    \<exists>v'. from_chars_int_loop sc mb m it l v False b =
        Some (it + length (digit_prefix b (seg m it l)), v', 2 ^ LENGTH('a) \<le> value_of b (unat v) (digit_prefix b (seg m it l))) \<and>
      (value_of b (unat v) (digit_prefix b (seg m it l)) < 2 ^ LENGTH('a) \<longrightarrow> unat v' = value_of b (unat v) (digit_prefix b (seg m it l)))"
proof (induction "l - it" arbitrary: it v)
  case 0
  then show ?case by (simp add: from_chars_int_loop.simps unat_in_range)
next
  case (Suc k)
  then have lt: "it < l" "it < length m" by auto
  have seg: "seg m it l = m ! it # seg m (it + 1) l" using lt Suc.prems by (intro rd_seg) auto
  let ?c = "m ! it"
  note loop = from_chars_int_loop.simps [of sc mb m it l v False b]
  show ?case
  proof (cases "digit_of b ?c")
    case None
    then show ?thesis using lt from_chars_char_to_value_eq(1) [OF b(2), of sc ?c] by (simp add: loop mem_simps seg digit_prefix_Cons Let_def unat_in_range)
  next
    case (Some d)
    let ?ds = "digit_prefix b (seg m (it + 1) l)"
    have d: "valid (from_chars_char_to_value sc ?c b)" "cvalue (from_chars_char_to_value sc ?c b) = int d" "d < b"
      using Some from_chars_char_to_value_eq [OF b(2), where sc = sc and c = ?c] digit_of_less by auto
    note acc = accumulate_step [OF w b(2) d(3), of v]
    show ?thesis
    proof (cases "2 ^ LENGTH('a) \<le> unat v * b + d")
      case True
      then have big: "2 ^ LENGTH('a) \<le> value_of b (unat v * b + d) ?ds" by (rule order.trans) (use b in \<open>simp add: value_of_ge\<close>)
      have "from_chars_int_loop sc mb m it l v False b = from_chars_int_loop sc mb m (it + 1) l v True b"
        using lt d acc(1) True by (simp add: loop mem_simps Let_def)
      then show ?thesis using big loop_overflowed [OF b(2), of "it + 1" l m sc mb v] lt Suc.prems by (simp add: seg digit_prefix_Cons Some)
    next
      case False
      let ?v = "ovalue (add_overflow_generic_impl (ovalue (mul_overflow_generic (LENGTH('a) < mb) v (of_nat b))) (of_nat d))"
      have "from_chars_int_loop sc mb m it l v False b = from_chars_int_loop sc mb m (it + 1) l ?v False b"
        using lt d acc(1) False by (simp add: loop mem_simps Let_def)
      moreover have "unat ?v = unat v * b + d" by (rule acc(2) [OF False])
      ultimately show ?thesis using Suc.hyps(1) [of "it + 1" ?v] Suc.hyps(2) Suc.prems lt by (simp add: seg digit_prefix_Cons Some)
    qed
  qed
qed

lemma from_chars_int_generic_eq:
  assumes w: "width_ok mb LENGTH('a::len)" and b: "2 \<le> b" "b \<le> 36" and r: "f \<le> l" "l \<le> length m"
  defines "ds \<equiv> digit_prefix b (seg m f l)"
  obtains v' :: "'a::len word" where "from_chars_int_generic sc mb m f l (0 :: 'a::len word) b = Some (v', \<lparr>from_ptr = f + length ds,
      from_ec = (if 2 ^ LENGTH('a) \<le> value_of b 0 ds then result_out_of_range else if ds = [] then invalid_argument else errc_ok)\<rparr>)"
    "value_of b 0 ds < 2 ^ LENGTH('a) \<longrightarrow> unat v' = value_of b 0 ds"
proof -
  obtain v' :: "'a word" where "from_chars_int_loop sc mb m f l (0 :: 'a word) False b = Some (f + length ds, v', 2 ^ LENGTH('a) \<le> value_of b 0 ds)"
    "value_of b 0 ds < 2 ^ LENGTH('a) \<longrightarrow> unat v' = value_of b 0 ds"
    using from_chars_int_loop_eq [OF w b r, of sc 0] by (auto simp: ds_def)
  then show thesis by (intro that [of v']) (simp_all add: from_chars_int_generic_def)
qed

section \<open>The two versions\<close>

lemma value_of_0: "value_of b 0 = of_digits b"
  by (simp add: value_of_def of_digits_def fun_eq_iff)

lemma from_chars_unsigned_eq:
  fixes v :: "'a::len word"
  assumes w: "width_ok mb LENGTH('a)" and b: "2 \<le> b" "b \<le> 36" and r: "f \<le> l" "l \<le> length m"
  defines "ds \<equiv> digit_prefix b (seg m f l)"
  shows "from_chars_unsigned sc mb m f l v b = Some
    (if ds = [] then (v, \<lparr>from_ptr = f, from_ec = invalid_argument\<rparr>)
     else if 2 ^ LENGTH('a) \<le> of_digits b ds then (v, \<lparr>from_ptr = f + length ds, from_ec = result_out_of_range\<rparr>)
     else (of_nat (of_digits b ds), \<lparr>from_ptr = f + length ds, from_ec = errc_ok\<rparr>))"
proof -
  obtain v' :: "'a word" where g: "from_chars_int_generic sc mb m f l (0 :: 'a word) b = Some (v', \<lparr>from_ptr = f + length ds,
      from_ec = (if 2 ^ LENGTH('a) \<le> of_digits b ds then result_out_of_range else if ds = [] then invalid_argument else errc_ok)\<rparr>)"
    "of_digits b ds < 2 ^ LENGTH('a) \<longrightarrow> unat v' = of_digits b ds"
    by (rule from_chars_int_generic_eq [OF w b r, of sc, folded ds_def, unfolded value_of_0])
  consider "ds = []" | "ds \<noteq> []" "2 ^ LENGTH('a) \<le> of_digits b ds" | "ds \<noteq> []" "of_digits b ds < 2 ^ LENGTH('a)" by linarith
  then show ?thesis
  proof cases
    case 3
    then have "v' = of_nat (of_digits b ds)" using g(2) by (simp add: word_unat_eq_iff unat_of_nat_small)
    then show ?thesis using 3 b r g(1) by (simp add: from_chars_unsigned_def from_chars_finish_def)
  qed (use b r g(1) in \<open>simp_all add: from_chars_unsigned_def from_chars_finish_def of_digits_def\<close>)
qed

lemma limits:
  shows "sint (push_bit (LENGTH('a) - 1) 1 :: 'a::len word) = - (2 ^ (LENGTH('a) - 1))"
    and "sint (mask (LENGTH('a) - 1) :: 'a word) = 2 ^ (LENGTH('a) - 1) - 1"
proof -
  have two: "(2 :: int) ^ LENGTH('a) = 2 * 2 ^ (LENGTH('a) - 1)" by (simp flip: power_Suc)
  have "unat (push_bit (LENGTH('a) - 1) 1 :: 'a word) = 2 ^ (LENGTH('a) - 1)" by (rule unat_push_bit_1) simp
  then have "uint (push_bit (LENGTH('a) - 1) 1 :: 'a word) = 2 ^ (LENGTH('a) - 1)" by (metis of_nat_numeral of_nat_power uint_nat)
  then show "sint (push_bit (LENGTH('a) - 1) 1 :: 'a word) = - (2 ^ (LENGTH('a) - 1))"
    using uint_signed [of "push_bit (LENGTH('a) - 1) 1 :: 'a word"] sint_lt [of "push_bit (LENGTH('a) - 1) 1 :: 'a word"] two
    by (auto split: if_splits)
  have ex: "unat ((2 :: 'a word) ^ (LENGTH('a) - 1)) = 2 ^ (LENGTH('a) - 1)" by (rule unat_exp) simp
  then have "(2 :: 'a word) ^ (LENGTH('a) - 1) \<noteq> 0" by (metis power_not_zero unat_0 zero_neq_numeral)
  from unat_minus_one [OF this] have "unat (mask (LENGTH('a) - 1) :: 'a word) = 2 ^ (LENGTH('a) - 1) - 1" by (simp only: mask_eq_exp_minus_1 ex)
  then have "int (unat (mask (LENGTH('a) - 1) :: 'a word)) = 2 ^ (LENGTH('a) - 1) - 1" by (simp only: of_nat_diff of_nat_power one_le_power of_nat_numeral of_nat_1 one_le_numeral)
  then have "uint (mask (LENGTH('a) - 1) :: 'a word) = 2 ^ (LENGTH('a) - 1) - 1" by (simp only: uint_nat)
  then show "sint (mask (LENGTH('a) - 1) :: 'a word) = 2 ^ (LENGTH('a) - 1) - 1"
    using uint_signed [of "mask (LENGTH('a) - 1) :: 'a word"] sint_ge [of "mask (LENGTH('a) - 1) :: 'a word"] two
    by (auto split: if_splits)
qed

text \<open>The signed number a text denotes: an optional sign and digits.\<close>

definition signed_prefix :: "nat \<Rightarrow> char list \<Rightarrow> nat \<times> nat list \<times> int" where
  "signed_prefix b cs =
     (let minus = (cs \<noteq> [] \<and> hd cs = CHR ''-''); ds = digit_prefix b (if minus then tl cs else cs) in
      (of_bool minus, ds, (if minus then - int (of_digits b ds) else int (of_digits b ds))))"

lemma from_chars_signed_unfold:
  fixes v :: "'a::len word"
  assumes w: "width_ok mb LENGTH('a)" and b: "2 \<le> b" "b \<le> 36" and r: "f \<le> l" "l \<le> length m"
    and sp: "signed_prefix b (seg m f l) = (s, ds, i)"
  shows "from_chars_signed sc mb m f l v b = Some
    (if ds = [] then (v, \<lparr>from_ptr = f, from_ec = invalid_argument\<rparr>)
     else if i < - (2 ^ (LENGTH('a) - 1)) \<or> 2 ^ (LENGTH('a) - 1) \<le> i
     then (v, \<lparr>from_ptr = f + s + length ds, from_ec = result_out_of_range\<rparr>)
     else (of_int i, \<lparr>from_ptr = f + s + length ds, from_ec = errc_ok\<rparr>))"
proof -
  define minus where "minus \<longleftrightarrow> f < l \<and> m ! f = CHR ''-''"
  have mi: "(seg m f l \<noteq> [] \<and> hd (seg m f l) = CHR ''-'') = minus" and tl: "minus \<Longrightarrow> tl (seg m f l) = seg m (Suc f) l"
    using r seg_Cons [of f l m] by (cases "f < l"; simp add: minus_def)+
  have s: "s = of_bool minus" and ds: "ds = digit_prefix b (seg m (f + s) l)" and i: "i = (if minus then - int (of_digits b ds) else int (of_digits b ds))"
    using sp unfolding signed_prefix_def Let_def mi by (auto simp: tl)
  have fs: "f + s \<le> l" using s r by (auto simp: minus_def)
  obtain v' :: "'a word" where g: "from_chars_int_generic sc mb m (f + s) l (0 :: 'a word) b = Some (v', \<lparr>from_ptr = f + s + length ds,
      from_ec = (if 2 ^ LENGTH('a) \<le> of_digits b ds then result_out_of_range else if ds = [] then invalid_argument else errc_ok)\<rparr>)"
    "of_digits b ds < 2 ^ LENGTH('a) \<longrightarrow> unat v' = of_digits b ds"
    by (rule from_chars_int_generic_eq [OF w b fs r(2), of sc, folded ds, unfolded value_of_0])
  have rd: "(if f < l then map_option (\<lambda>ch. ch = CHR ''-'') (rd m f) else Some False) = Some minus"
    using r by (auto simp: minus_def mem_simps)
  define max' where "max' = uabs (if minus then push_bit (LENGTH('a) - 1) 1 else mask (LENGTH('a) - 1) :: 'a word)"
  have mx: "int (unat max') = (if minus then 2 ^ (LENGTH('a) - 1) else 2 ^ (LENGTH('a) - 1) - 1)"
    unfolding max'_def uabs_eq by (cases minus) (simp_all only: if_True if_False limits, simp_all)
  have eq: "from_chars_signed sc mb m f l v b = (case from_chars_int_generic sc mb m (f + s) l (0 :: 'a word) b of None \<Rightarrow> None
    | Some (result, ret) \<Rightarrow> Some (from_chars_finish f v (if from_ec ret = errc_ok \<and> minus then neg result else result)
        (if from_ec ret = errc_ok \<and> max' < result then ret\<lparr>from_ec := result_out_of_range\<rparr> else ret)))"
    using b r rd by (simp add: from_chars_signed_def s max'_def Let_def split: option.splits)
  consider "ds = []" | "ds \<noteq> []" "2 ^ LENGTH('a) \<le> of_digits b ds" | "ds \<noteq> []" "of_digits b ds < 2 ^ LENGTH('a)" by linarith
  then show ?thesis
  proof cases
    case 1
    then show ?thesis using g(1) by (simp add: eq from_chars_finish_def of_digits_def)
  next
    case 2
    have "(2 :: nat) ^ (LENGTH('a) - 1) < 2 ^ LENGTH('a)" by (intro power_strict_increasing) auto
    then have "2 ^ (LENGTH('a) - 1) < of_digits b ds" using 2(2) by (rule order.strict_trans2)
    then have "2 ^ (LENGTH('a) - 1) < int (of_digits b ds)" by (metis of_nat_less_iff of_nat_numeral of_nat_power)
    then have "i < - (2 ^ (LENGTH('a) - 1)) \<or> 2 ^ (LENGTH('a) - 1) \<le> i" by (simp add: i)
    then show ?thesis using 2 g(1) by (simp add: eq from_chars_finish_def)
  next
    case 3
    then have v': "unat v' = of_digits b ds" using g(2) by simp
    then have "v' = of_nat (of_digits b ds)" by (simp add: word_unat_eq_iff unat_of_nat_small [OF 3(2)])
    then have res: "(if minus then neg v' else v') = of_int i" by (simp add: i neg_eq)
    define M N where "M = (2 :: int) ^ (LENGTH('a) - 1)" and "N = int (of_digits b ds)"
    have MN: "0 < M" "0 \<le> N" by (simp_all add: M_def N_def)
    have "max' < v' \<longleftrightarrow> int (unat max') < N" by (simp only: word_less_nat_alt v' of_nat_less_iff N_def)
    also have "\<dots> \<longleftrightarrow> i < - M \<or> M \<le> i" unfolding mx M_def [symmetric] i N_def [symmetric] using MN by (cases minus) auto
    also have "\<dots> \<longleftrightarrow> i < - (2 ^ (LENGTH('a) - 1)) \<or> 2 ^ (LENGTH('a) - 1) \<le> i" by (simp only: M_def)
    finally show ?thesis using 3 g(1) res by (auto simp: eq from_chars_finish_def)
  qed
qed

section \<open>Round trip\<close>

lemma digit_prefix_digits: "\<forall>d \<in> set ds. d < b \<Longrightarrow> b \<le> 36 \<Longrightarrow> digit_prefix b (map digit_char ds) = ds"
  by (induction ds) (auto simp: digit_prefix_Cons digit_of_digit_char)

lemma signed_prefix_int_chars:
  assumes "2 \<le> b" "b \<le> 36"
  shows "signed_prefix b (int_chars b i) = (of_bool (i < 0), digits b (nat \<bar>i\<bar>), i)"
proof -
  let ?ds = "digits b (nat \<bar>i\<bar>)"
  have lt: "\<forall>d \<in> set ?ds. d < b" using digits_less [OF assms(1)] by blast
  have "digit_char (hd ?ds) \<noteq> CHR ''-''"
    using digit_of_digit_char [of "hd ?ds" b] digit_of_minus [of b] lt assms(2) by (metis digits_not_Nil hd_in_set option.distinct(1))
  then have hd: "hd (map digit_char ?ds) \<noteq> CHR ''-''" by (simp add: hd_map)
  have "int (of_digits b ?ds) = \<bar>i\<bar>" using of_digits_digits [OF assms(1), of "nat \<bar>i\<bar>"] by simp
  then show ?thesis using digit_prefix_digits [OF lt assms(2)] hd by (cases "i < 0") (simp_all add: signed_prefix_def int_chars_def Let_def)
qed

lemma seg_put_seg: "f \<le> length m \<Longrightarrow> seg (put_seg m f (f + length xs) xs) f (f + length xs) = xs"
  by (simp add: seg_def put_seg_def)

lemma to_chars_ok_fits:
  fixes v :: "'a::len word"
  assumes ok: "to_chars_signed True m f l v b = Some (m', \<lparr>to_ptr = ptr, to_ec = errc_ok\<rparr>)"
    and len: "LENGTH('a) \<in> {8, 16, 32, 64, 128}" and l: "l \<le> length m"
  shows "2 \<le> b \<and> b \<le> 36 \<and> f \<le> l \<and> ptr = f + length (int_chars b (sint v)) \<and> ptr \<le> l \<and> m' = put_seg m f ptr (int_chars b (sint v))"
proof -
  have b: "2 \<le> b" "b \<le> 36" "f \<le> l" using ok by (auto simp: to_chars_signed_def split: if_splits)
  note eq = to_chars_signed_eq [OF b l to_chars_ok_uabs [OF len, of True b v]]
  show ?thesis using b ok eq by (cases "length (int_chars b (sint v)) \<le> l - f") (auto simp: not_le)
qed

section \<open>Properties\<close>

text \<open>
  C15: \<^verbatim>\<open>from_chars\<close> on every text and every base.  With no digit after the optional sign the result is the start and
  \<^verbatim>\<open>invalid_argument\<close>; with digits, it ends after the last of them, and the value is the number they denote,
  or unchanged with \<^verbatim>\<open>result_out_of_range\<close> exactly where this number is outside of the type.  Whether
  \<^verbatim>\<open>char\<close> is signed does not matter.
\<close>

theorem from_chars_correct:
  fixes v :: "'a::len word"
  assumes "width_ok max_bits LENGTH('a)" "2 \<le> base" "base \<le> 36" "first \<le> last'" "last' \<le> length m"
    and "signed_prefix base (seg m first last') = (sign, ds, i)"
  shows "from_chars_signed char_signed max_bits m first last' v base = Some
    (if ds = [] then (v, \<lparr>from_ptr = first, from_ec = invalid_argument\<rparr>)
     else if i < - (2 ^ (LENGTH('a) - 1)) \<or> 2 ^ (LENGTH('a) - 1) \<le> i
     then (v, \<lparr>from_ptr = first + sign + length ds, from_ec = result_out_of_range\<rparr>)
     else (of_int i, \<lparr>from_ptr = first + sign + length ds, from_ec = errc_ok\<rparr>))"
  using assms by (rule from_chars_signed_unfold)

theorem from_chars_correct_witness:
  "from_chars_signed True 128 ''x-129;'' 1 6 (7 :: 8 word) 10 = Some
    (if [1 :: nat, 2, 9] = [] then (7, \<lparr>from_ptr = 1, from_ec = invalid_argument\<rparr>)
     else if (- 129 :: int) < - (2 ^ (LENGTH(8) - 1)) \<or> 2 ^ (LENGTH(8) - 1) \<le> (- 129 :: int)
     then (7, \<lparr>from_ptr = 1 + 1 + length [1 :: nat, 2, 9], from_ec = result_out_of_range\<rparr>)
     else (of_int (- 129), \<lparr>from_ptr = 1 + 1 + length [1 :: nat, 2, 9], from_ec = errc_ok\<rparr>))"
  by (rule from_chars_correct)
    (simp_all add: width_ok_def seg_def signed_prefix_def Let_def digit_prefix_def digit_of_def of_digits_def)

text \<open>
  C10: round trip.  What \<^verbatim>\<open>to_chars\<close> has written for a value of a signed type, in any base, \<^verbatim>\<open>from_chars\<close> reads back as this
  value, to the end of what was written.
\<close>

theorem charconv_roundtrip:
  fixes v v0 :: "'a::len word"
  assumes "to_chars_signed True m first last' v base = Some (m', \<lparr>to_ptr = ptr, to_ec = errc_ok\<rparr>)"
    and "last' \<le> length m" "width_ok max_bits LENGTH('a)"
  shows "from_chars_signed char_signed max_bits m' first ptr v0 base = Some (v, \<lparr>from_ptr = ptr, from_ec = errc_ok\<rparr>)"
proof -
  let ?cs = "int_chars base (sint v)"
  have len: "LENGTH('a) \<in> {8, 16, 32, 64, 128}" using assms(3) by (simp add: width_ok_def)
  have t: "2 \<le> base" "base \<le> 36" "first \<le> last'" "ptr = first + length ?cs" "ptr \<le> last'" "m' = put_seg m first ptr ?cs"
    using to_chars_ok_fits [OF assms(1) len assms(2)] by simp_all
  have "seg m' first ptr = ?cs" unfolding t(6) t(4) using t(3) assms(2) by (intro seg_put_seg) simp
  then have sp: "signed_prefix base (seg m' first ptr) = (of_bool (sint v < 0), digits base (nat \<bar>sint v\<bar>), sint v)"
    using signed_prefix_int_chars [OF t(1,2)] by simp
  have "ptr \<le> length m'" using t(4,5) assms(2) unfolding t(6) by (simp add: put_seg_def)
  from from_chars_signed_unfold [OF assms(3) t(1,2) _ this sp] show ?thesis
    using sint_ge [of v] sint_lt [of v] t(4) by (simp add: int_chars_def not_le)
qed

theorem charconv_roundtrip_witness:
  "from_chars_signed False 64 (''-80'' @ ''xx'') 0 3 (7 :: 8 word) 16 = Some (- 128, \<lparr>from_ptr = 3, from_ec = errc_ok\<rparr>)"
proof (rule charconv_roundtrip)
  have d: "digits 16 128 = [8, 0]" by (simp add: digits_big)
  have c: "char_of (56 :: nat) = CHR ''8''" "char_of (48 :: nat) = CHR ''0''" by (simp_all add: char_of_def bit_0)
  have "to_chars_signed True (replicate 5 (CHR ''x'')) 0 5 (- 128 :: 8 word) 16 =
    Some (put_seg (replicate 5 (CHR ''x'')) 0 3 ''-80'', \<lparr>to_ptr = 3, to_ec = errc_ok\<rparr>)"
    using to_chars_signed_eq(1) [of 16 0 5 "replicate 5 (CHR ''x'')" True "- 128 :: 8 word"]
    by (simp add: to_chars_ok_def int_chars_def d digit_char_def c numeral_3_eq_3)
  then show "to_chars_signed True (replicate 5 (CHR ''x'')) 0 5 (- 128 :: 8 word) 16 = Some (''-80'' @ ''xx'', \<lparr>to_ptr = 3, to_ec = errc_ok\<rparr>)"
    by (simp add: put_seg_def numeral_eq_Suc)
qed (simp_all add: width_ok_def)

end
