(* ===== verification/Calendar.thy ===== *)
theory Calendar
  imports Overflow_Ops "HOL-Library.Signed_Division" "HOL-Library.Monad_Syntax"
begin

unbundle bit_operations_syntax

text \<open>
  The calendar types of \<^verbatim>\<open>cuda/std/__chrono\<close> (\<^verbatim>\<open>day.h\<close>, \<^verbatim>\<open>month.h\<close>, \<^verbatim>\<open>year.h\<close>, \<^verbatim>\<open>weekday.h\<close>, \<^verbatim>\<open>year_month.h\<close>, \<^verbatim>\<open>month_day.h\<close>):
  their fields at the width they have in the source, their arithmetic, comparisons and \<^verbatim>\<open>ok\<close>.
  A count of days, months or years has type \<^verbatim>\<open>int\<close> and is an integer here; an overflow of \<^verbatim>\<open>int\<close>
  arithmetic is undefined behaviour and gives \<open>None\<close>.
\<close>

section \<open>Definitions\<close>

definition chk :: "int \<Rightarrow> int option" where
  "chk x = (if - (2 ^ 31) \<le> x \<and> x < 2 ^ 31 then Some x else None)"

subsection \<open>day.h\<close>

datatype day = Day (day_val: "8 word")

definition day_of :: "32 word \<Rightarrow> day" where
  "day_of d = Day (ucast d)"

definition day_unsigned :: "day \<Rightarrow> 32 word" where
  "day_unsigned d = ucast (day_val d)"

definition day_inc :: "day \<Rightarrow> day" where
  "day_inc d = Day (day_val d + 1)"

definition day_dec :: "day \<Rightarrow> day" where
  "day_dec d = Day (day_val d - 1)"

definition day_add_assign :: "day \<Rightarrow> int \<Rightarrow> day" where
  "day_add_assign d dd = Day (day_val d + of_int dd)"

definition day_sub_assign :: "day \<Rightarrow> int \<Rightarrow> day" where
  "day_sub_assign d dd = Day (day_val d - of_int dd)"

definition day_ok :: "day \<Rightarrow> bool" where
  "day_ok d \<longleftrightarrow> 1 \<le> day_val d \<and> day_val d \<le> 31"

definition day_plus :: "day \<Rightarrow> int \<Rightarrow> day" where
  "day_plus lhs rhs = day_of (day_unsigned lhs + of_int rhs)"

definition day_minus :: "day \<Rightarrow> int \<Rightarrow> day" where
  "day_minus lhs rhs = day_of (day_unsigned lhs - of_int rhs)"

definition day_diff :: "day \<Rightarrow> day \<Rightarrow> int" where
  "day_diff lhs rhs = sint (day_unsigned lhs) - sint (day_unsigned rhs)"

definition day_less :: "day \<Rightarrow> day \<Rightarrow> bool" where
  "day_less lhs rhs \<longleftrightarrow> day_unsigned lhs < day_unsigned rhs"

definition day_less_eq :: "day \<Rightarrow> day \<Rightarrow> bool" where
  "day_less_eq lhs rhs \<longleftrightarrow> day_unsigned lhs \<le> day_unsigned rhs"

subsection \<open>month.h\<close>

datatype month = Month (month_val: "8 word")

definition month_of :: "32 word \<Rightarrow> month" where
  "month_of m = Month (ucast m)"

definition month_unsigned :: "month \<Rightarrow> 32 word" where
  "month_unsigned m = ucast (month_val m)"

text \<open>Arithmetic in \<^verbatim>\<open>long long\<close>, which holds every sum of a field and a count; the division rounds towards 0.\<close>

definition month_add_clamped :: "month \<Rightarrow> int \<Rightarrow> month" where
  "month_add_clamped m add =
     (let mu = uint (month_val m) + (add - 1);
          yr = (if mu \<ge> 0 then mu else mu - 11) sdiv 12
      in Month (of_int (mu - yr * 12 + 1)))"

definition month_inc :: "month \<Rightarrow> month" where
  "month_inc m = month_add_clamped m 1"

definition month_dec :: "month \<Rightarrow> month" where
  "month_dec m = month_add_clamped m (- 1)"

definition month_plus :: "month \<Rightarrow> int \<Rightarrow> month" where
  "month_plus lhs rhs = month_add_clamped lhs rhs"

definition month_minus :: "month \<Rightarrow> int \<Rightarrow> month option" where
  "month_minus lhs rhs = do { n \<leftarrow> chk (- rhs); Some (month_add_clamped lhs n) }"


definition month_sub_assign :: "month \<Rightarrow> int \<Rightarrow> month option" where
  "month_sub_assign m dm = do { n \<leftarrow> chk (- dm); Some (month_add_clamped m n) }"

definition month_diff :: "month \<Rightarrow> month \<Rightarrow> int" where
  "month_diff lhs rhs =
     (let dm = month_unsigned lhs - month_unsigned rhs in sint (if dm \<le> 11 then dm else dm + 12))"

definition month_ok :: "month \<Rightarrow> bool" where
  "month_ok m \<longleftrightarrow> 1 \<le> month_val m \<and> month_val m \<le> 12"

definition month_less :: "month \<Rightarrow> month \<Rightarrow> bool" where
  "month_less lhs rhs \<longleftrightarrow> month_unsigned lhs < month_unsigned rhs"

definition month_less_eq :: "month \<Rightarrow> month \<Rightarrow> bool" where
  "month_less_eq lhs rhs \<longleftrightarrow> month_unsigned lhs \<le> month_unsigned rhs"

definition February :: month where
  "February = month_of 2"

subsection \<open>year.h\<close>

datatype year = Year (year_val: "16 word")

definition year_of :: "int \<Rightarrow> year" where
  "year_of y = Year (of_int y)"

definition year_int :: "year \<Rightarrow> int" where
  "year_int y = sint (year_val y)"

definition year_inc :: "year \<Rightarrow> year" where
  "year_inc y = Year (year_val y + 1)"

definition year_dec :: "year \<Rightarrow> year" where
  "year_dec y = Year (year_val y - 1)"

definition year_plus :: "year \<Rightarrow> int \<Rightarrow> year option" where
  "year_plus lhs rhs = do { s \<leftarrow> chk (year_int lhs + rhs); Some (year_of s) }"

definition year_minus :: "year \<Rightarrow> int \<Rightarrow> year option" where
  "year_minus lhs rhs = do { s \<leftarrow> chk (year_int lhs - rhs); Some (year_of s) }"

definition year_add_assign :: "year \<Rightarrow> int \<Rightarrow> year option" where
  "year_add_assign y dy = do { s \<leftarrow> chk (year_int y + dy); Some (Year (of_int s)) }"

definition year_sub_assign :: "year \<Rightarrow> int \<Rightarrow> year option" where
  "year_sub_assign y dy = do { s \<leftarrow> chk (year_int y - dy); Some (Year (of_int s)) }"

definition year_diff :: "year \<Rightarrow> year \<Rightarrow> int" where
  "year_diff lhs rhs = year_int lhs - year_int rhs"

definition year_uminus :: "year \<Rightarrow> year" where
  "year_uminus y = year_of (- year_int y)"

definition is_leap :: "year \<Rightarrow> bool" where
  "is_leap y \<longleftrightarrow> year_int y smod 4 = 0 \<and> (year_int y smod 100 \<noteq> 0 \<or> year_int y smod 400 = 0)"

definition year_min :: year where
  "year_min = year_of (- 32767)"

definition year_max :: year where
  "year_max = year_of 32767"

definition year_ok :: "year \<Rightarrow> bool" where
  "year_ok y \<longleftrightarrow> year_int year_min \<le> year_int y \<and> year_int y \<le> year_int year_max"

definition year_less :: "year \<Rightarrow> year \<Rightarrow> bool" where
  "year_less lhs rhs \<longleftrightarrow> year_int lhs < year_int rhs"

definition year_less_eq :: "year \<Rightarrow> year \<Rightarrow> bool" where
  "year_less_eq lhs rhs \<longleftrightarrow> year_int lhs \<le> year_int rhs"

subsection \<open>weekday.h\<close>

datatype weekday = Weekday (weekday_val: "8 word")

definition weekday_from_days :: "int \<Rightarrow> 8 word option" where
  "weekday_from_days days =
     (if days \<ge> - 4 then do { s \<leftarrow> chk (days + 4); Some (of_int (s smod 7)) }
      else Some (of_int ((days + 5) smod 7 + 6)))"

definition weekday_of :: "32 word \<Rightarrow> weekday" where
  "weekday_of w = Weekday (ucast (if w = 7 then 0 else w))"

definition weekday_of_days :: "int \<Rightarrow> weekday option" where
  "weekday_of_days sysd = map_option Weekday (weekday_from_days sysd)"

definition weekday_inc :: "weekday \<Rightarrow> weekday" where
  "weekday_inc w = Weekday (if weekday_val w = 6 then 0 else weekday_val w + 1)"

definition weekday_dec :: "weekday \<Rightarrow> weekday" where
  "weekday_dec w = Weekday (if weekday_val w = 0 then 6 else weekday_val w - 1)"

definition c_encoding :: "weekday \<Rightarrow> 32 word" where
  "c_encoding w = ucast (weekday_val w)"

definition iso_encoding :: "weekday \<Rightarrow> 32 word" where
  "iso_encoding w = (if weekday_val w = 0 then 7 else ucast (weekday_val w))"

definition weekday_ok :: "weekday \<Rightarrow> bool" where
  "weekday_ok w \<longleftrightarrow> weekday_val w \<le> 6"

definition weekday_diff :: "weekday \<Rightarrow> weekday \<Rightarrow> int" where
  "weekday_diff lhs rhs =
     (let wdu = sint (c_encoding lhs) - sint (c_encoding rhs);
          wk = (if wdu \<ge> 0 then wdu else wdu - 6) sdiv 7
      in wdu - wk * 7)"

definition weekday_plus :: "weekday \<Rightarrow> int \<Rightarrow> weekday" where
  "weekday_plus lhs rhs =
     (let mu = uint (c_encoding lhs) + rhs;
          yr = (if mu \<ge> 0 then mu else mu - 6) sdiv 7
      in weekday_of (of_int (mu - yr * 7)))"

definition weekday_minus :: "weekday \<Rightarrow> int \<Rightarrow> weekday option" where
  "weekday_minus lhs rhs = do { n \<leftarrow> chk (- rhs); Some (weekday_plus lhs n) }"

record weekday_indexed =
  wi_weekday :: weekday
  wi_idx :: "8 word"

definition weekday_indexed_of :: "weekday \<Rightarrow> 32 word \<Rightarrow> weekday_indexed" where
  "weekday_indexed_of w idx = \<lparr>wi_weekday = w, wi_idx = ucast idx\<rparr>"

definition wi_index :: "weekday_indexed \<Rightarrow> 32 word" where
  "wi_index w = ucast (wi_idx w)"

definition weekday_indexed_ok :: "weekday_indexed \<Rightarrow> bool" where
  "weekday_indexed_ok w \<longleftrightarrow> weekday_ok (wi_weekday w) \<and> 1 \<le> wi_idx w \<and> wi_idx w \<le> 5"

subsection \<open>year\_month.h\<close>

record year_month =
  ym_year :: year
  ym_month :: month

definition year_month_ok :: "year_month \<Rightarrow> bool" where
  "year_month_ok ym \<longleftrightarrow> year_ok (ym_year ym) \<and> month_ok (ym_month ym)"


definition year_month_sub_assign_months :: "year_month \<Rightarrow> int \<Rightarrow> year_month option" where
  "year_month_sub_assign_months ym dm = do { m \<leftarrow> month_sub_assign (ym_month ym) dm; Some (ym\<lparr>ym_month := m\<rparr>) }"

definition year_month_add_assign_years :: "year_month \<Rightarrow> int \<Rightarrow> year_month option" where
  "year_month_add_assign_years ym dy = do { y \<leftarrow> year_add_assign (ym_year ym) dy; Some (ym\<lparr>ym_year := y\<rparr>) }"

definition year_month_sub_assign_years :: "year_month \<Rightarrow> int \<Rightarrow> year_month option" where
  "year_month_sub_assign_years ym dy = do { y \<leftarrow> year_sub_assign (ym_year ym) dy; Some (ym\<lparr>ym_year := y\<rparr>) }"

definition year_month_plus_months :: "year_month \<Rightarrow> int \<Rightarrow> year_month option" where
  "year_month_plus_months lhs rhs =
     do { dmi \<leftarrow> chk (sint (month_unsigned (ym_month lhs)) - 1 + rhs);
          d \<leftarrow> (if dmi \<ge> 0 then Some dmi else chk (dmi - 11));
          let years = d sdiv 12; dmi' = dmi - years * 12 + 1 in
          do { y \<leftarrow> year_plus (ym_year lhs) years;
               Some \<lparr>ym_year = y, ym_month = month_of (of_int dmi')\<rparr> } }"

definition year_month_plus_years :: "year_month \<Rightarrow> int \<Rightarrow> year_month option" where
  "year_month_plus_years lhs rhs = do { y \<leftarrow> year_plus (ym_year lhs) rhs; Some \<lparr>ym_year = y, ym_month = ym_month lhs\<rparr> }"

definition year_month_minus_months :: "year_month \<Rightarrow> int \<Rightarrow> year_month option" where
  "year_month_minus_months lhs rhs = do { n \<leftarrow> chk (- rhs); year_month_plus_months lhs n }"

definition year_month_minus_years :: "year_month \<Rightarrow> int \<Rightarrow> year_month option" where
  "year_month_minus_years lhs rhs = do { n \<leftarrow> chk (- rhs); year_month_plus_years lhs n }"

text \<open>A year is twelve months in the common duration type.\<close>

definition year_month_diff :: "year_month \<Rightarrow> year_month \<Rightarrow> int" where
  "year_month_diff lhs rhs =
     year_diff (ym_year lhs) (ym_year rhs) * 12 + sint (month_unsigned (ym_month lhs) - month_unsigned (ym_month rhs))"

definition year_month_less :: "year_month \<Rightarrow> year_month \<Rightarrow> bool" where
  "year_month_less lhs rhs \<longleftrightarrow>
     (if ym_year lhs \<noteq> ym_year rhs then year_less (ym_year lhs) (ym_year rhs) else month_less (ym_month lhs) (ym_month rhs))"

subsection \<open>month\_day.h\<close>

record month_day =
  md_month :: month
  md_day :: day

definition month_day_ok :: "month_day \<Rightarrow> bool" where
  "month_day_ok md =
     (if \<not> month_ok (md_month md) then False
      else let d = day_unsigned (md_day md); m = month_unsigned (md_month md) in
        if d < 1 \<or> d > 31 then False
        else if d \<le> 29 then True
        else if m = 2 then False
        else if m = 4 \<or> m = 6 \<or> m = 9 \<or> m = 11 then d = 30
        else True)"

definition month_day_less :: "month_day \<Rightarrow> month_day \<Rightarrow> bool" where
  "month_day_less lhs rhs \<longleftrightarrow>
     (if md_month lhs \<noteq> md_month rhs then month_less (md_month lhs) (md_month rhs) else day_less (md_day lhs) (md_day rhs))"

section \<open>Orders\<close>

lemma sint_inject: "sint a = sint b \<Longrightarrow> a = b" for a b :: "'a::len word"
  by (rule signed_word_eqI [where 'a = int]) simp

instantiation day :: linorder
begin

definition less_eq_day :: "day \<Rightarrow> day \<Rightarrow> bool" where
  "less_eq_day = day_less_eq"

definition less_day :: "day \<Rightarrow> day \<Rightarrow> bool" where
  "less_day = day_less"

instance
  by standard (auto simp: less_eq_day_def less_day_def day_less_eq_def day_less_def day_unsigned_def word_le_nat_alt word_less_nat_alt unat_ucast_up word_unat_eq_iff day.expand)

end

instantiation month :: linorder
begin

definition less_eq_month :: "month \<Rightarrow> month \<Rightarrow> bool" where
  "less_eq_month = month_less_eq"

definition less_month :: "month \<Rightarrow> month \<Rightarrow> bool" where
  "less_month = month_less"

instance
  by standard (auto simp: less_eq_month_def less_month_def month_less_eq_def month_less_def month_unsigned_def word_le_nat_alt word_less_nat_alt unat_ucast_up word_unat_eq_iff month.expand)

end

instantiation year :: linorder
begin

definition less_eq_year :: "year \<Rightarrow> year \<Rightarrow> bool" where
  "less_eq_year = year_less_eq"

definition less_year :: "year \<Rightarrow> year \<Rightarrow> bool" where
  "less_year = year_less"

instance
  by standard (auto simp: less_eq_year_def less_year_def year_less_eq_def year_less_def year_int_def intro!: year.expand sint_inject)

end

section \<open>Fields\<close>

text \<open>The source divides by a positive number with this idiom, which rounds down.\<close>

lemma floor_sdiv: "k0 = n - 1 \<Longrightarrow> 0 < n \<Longrightarrow> (if x \<ge> 0 then x else x - k0) sdiv n = x div n" for x n k0 :: int
proof (cases "x \<ge> 0")
  case False
  assume n: "k0 = n - 1" "0 < n"
  define k r where "k = (n - 1 - x) div n" and "r = (n - 1 - x) mod n"
  have "n - 1 - x = n * k + r" "0 \<le> r" "r < n" using n by (simp_all add: k_def r_def)
  then have "x = n * (- k) + (n - 1 - r)" by (simp add: algebra_simps)
  from int_div_pos_eq [OF this] have "x div n = - k" using \<open>0 \<le> r\<close> \<open>r < n\<close> by simp
  moreover have "(x - k0) sdiv n = - k" using n False by (simp add: signed_divide_int_def k_def)
  ultimately show ?thesis using False by simp
qed (simp add: signed_divide_int_def sgn_if)

lemma floor_idioms:
  fixes x :: int
  shows floor_12: "(if x \<ge> 0 then x else x - 11) sdiv 12 = x div 12"
    and floor_7: "(if x \<ge> 0 then x else x - 6) sdiv 7 = x div 7"
    and floor_400: "(if x \<ge> 0 then x else x - 399) sdiv 400 = x div 400"
    and floor_146097: "(if x \<ge> 0 then x else x - 146096) sdiv 146097 = x div 146097"
  by (rule floor_sdiv; simp)+

lemma mod_neg_small: "- n \<le> x \<Longrightarrow> x < 0 \<Longrightarrow> x mod n = x + n" for x n :: int
  using mod_pos_pos_trivial [of "x + n" n] by simp

lemma sub_div_mod: "x - x div n * n = x mod n" for x n :: int
  by (simp add: minus_div_mult_eq_mod)

lemma uint_of_int_small: "0 \<le> x \<Longrightarrow> x < 2 ^ LENGTH('a) \<Longrightarrow> uint (of_int x :: 'a::len word) = x"
  by (simp add: uint_word_of_int_eq take_bit_int_eq_self)

lemma uint_ucast_up: "LENGTH('a) \<le> LENGTH('b) \<Longrightarrow> uint (ucast w :: 'b::len word) = uint w" for w :: "'a::len word"
  using unat_ucast_up [of w, where 'b = 'b] by (metis uint_nat)

definition month_int :: "month \<Rightarrow> int" where
  "month_int m = uint (month_val m)"

definition weekday_int :: "weekday \<Rightarrow> int" where
  "weekday_int w = uint (weekday_val w)"

lemma month_ok_int: "month_ok m \<longleftrightarrow> 1 \<le> month_int m \<and> month_int m \<le> 12"
  by (simp add: month_ok_def month_int_def word_le_def)

lemma weekday_ok_int: "weekday_ok w \<longleftrightarrow> weekday_int w \<le> 6"
  by (simp add: weekday_ok_def weekday_int_def word_le_def)

lemma month_int_inject: "month_int a = month_int b \<longleftrightarrow> a = b"
  unfolding month_int_def by (metis month.expand word_uint_eqI)

lemma weekday_int_inject: "weekday_int a = weekday_int b \<longleftrightarrow> a = b"
  unfolding weekday_int_def by (metis weekday.expand word_uint_eqI)

lemma month_add_clamped_int: "month_int (month_add_clamped m n) = (month_int m - 1 + n) mod 12 + 1"
proof -
  let ?mu = "uint (month_val m) + (n - 1)"
  have "0 \<le> ?mu mod 12" "?mu mod 12 < 12" by simp_all
  then have u: "uint (of_int (?mu mod 12 + 1) :: 8 word) = ?mu mod 12 + 1" by (intro uint_of_int_small) auto
  have "month_add_clamped m n = Month (of_int (?mu mod 12 + 1))"
    by (simp only: month_add_clamped_def Let_def floor_12 sub_div_mod)
  then have "month_int (month_add_clamped m n) = ?mu mod 12 + 1" by (simp only: month_int_def month.sel u)
  also have "?mu = month_int m - 1 + n" by (simp add: month_int_def)
  finally show ?thesis .
qed

lemma weekday_plus_int: "weekday_int (weekday_plus w n) = (weekday_int w + n) mod 7"
proof -
  let ?mu = "uint (weekday_val w) + n"
  have b: "0 \<le> ?mu mod 7" "?mu mod 7 < 7" by simp_all
  have c: "uint (c_encoding w) = uint (weekday_val w)" by (simp only: c_encoding_def) (rule uint_ucast_up, simp)
  have u: "uint (of_int (?mu mod 7) :: 32 word) = ?mu mod 7" using b by (intro uint_of_int_small) auto
  then have "(of_int (?mu mod 7) :: 32 word) \<noteq> 7" using b by auto
  then have "weekday_plus w n = Weekday (ucast (of_int (?mu mod 7) :: 32 word))"
    by (simp only: weekday_plus_def Let_def floor_7 sub_div_mod c weekday_of_def if_False)
  moreover have uc: "(ucast (of_int (?mu mod 7) :: 32 word) :: 8 word) = of_int (?mu mod 7)"
    by (simp only: ucast_eq u)
  moreover have "uint (of_int (?mu mod 7) :: 8 word) = ?mu mod 7" using b by (intro uint_of_int_small) auto
  ultimately show ?thesis unfolding weekday_int_def by (metis weekday.sel)
qed

text \<open>The difference of two months or weekdays is the least non-negative count that leads from one to the other.\<close>

lemma month_unsigned_int: "uint (month_unsigned m) = month_int m"
  by (simp only: month_unsigned_def month_int_def) (rule uint_ucast_up, simp)

lemma sint_small: "uint w < 2 ^ 31 \<Longrightarrow> sint w = uint w" for w :: "32 word"
  using uint_signed [of w] sint_ge [of w] sint_lt [of w] by (auto split: if_splits)

lemma month_diff_int:
  assumes "month_ok a" "month_ok b"
  shows "month_diff a b = (month_int a - month_int b) mod 12"
proof -
  let ?d = "month_unsigned a - month_unsigned b"
  have r: "1 \<le> month_int a" "month_int a \<le> 12" "1 \<le> month_int b" "month_int b \<le> 12" using assms by (simp_all add: month_ok_int)
  have u: "uint ?d = (month_int a - month_int b) mod 2 ^ 32" by (simp add: uint_word_ariths month_unsigned_int)
  show ?thesis
  proof (cases "month_int b \<le> month_int a")
    case True
    then have "uint ?d = month_int a - month_int b" using r u by simp
    then have "?d \<le> 11" "sint ?d = month_int a - month_int b" using r by (simp_all add: word_le_def sint_small)
    then show ?thesis using True r by (simp add: month_diff_def Let_def)
  next
    case False
    then have d: "uint ?d = month_int a - month_int b + 2 ^ 32" using r unfolding u by (intro mod_neg_small) auto
    then have "\<not> ?d \<le> 11" using r by (simp add: word_le_def)
    moreover have "uint (?d + 12) = (uint ?d + 12) mod 2 ^ 32" by (simp add: uint_word_ariths)
    then have "uint (?d + 12) = (month_int a - month_int b + 12 + 2 ^ 32) mod 2 ^ 32" unfolding d by (simp add: algebra_simps)
    then have "uint (?d + 12) = month_int a - month_int b + 12" using False r unfolding mod_add_self2 by simp
    moreover have "(month_int a - month_int b) mod 12 = month_int a - month_int b + 12"
      using False r by (intro mod_neg_small) auto
    ultimately show ?thesis using False r by (simp add: month_diff_def Let_def sint_small)
  qed
qed

lemma weekday_diff_int: "weekday_diff a b = (weekday_int a - weekday_int b) mod 7"
proof -
  have c: "sint (c_encoding w) = weekday_int w" for w
  proof -
    have "uint (c_encoding w) = weekday_int w" unfolding c_encoding_def weekday_int_def by (rule uint_ucast_up) simp
    moreover have "weekday_int w < 2 ^ 8" unfolding weekday_int_def using uint_lt2p [of "weekday_val w"] by simp
    ultimately show ?thesis by (simp add: sint_small)
  qed
  show ?thesis by (simp only: weekday_diff_def Let_def floor_7 sub_div_mod c)
qed

lemma weekday_from_days_int:
  assumes "weekday_of_days d = Some w"
  shows "weekday_int w = (d + 4) mod 7"
proof (cases "d \<ge> - 4")
  case True
  have "(d + 4) smod 7 = (d + 4) mod 7" using True by (intro smod_mod_positive) auto
  then have "weekday_val w = of_int ((d + 4) mod 7)"
    using assms True by (auto simp: weekday_of_days_def weekday_from_days_def chk_def bind_eq_Some_conv split: if_splits)
  then show ?thesis unfolding weekday_int_def by (simp only:) (rule uint_of_int_small; simp add: order.strict_trans [OF pos_mod_bound])
next
  case False
  have "(d + 5) smod 7 + 6 = (d + 4) mod 7"
  proof -
    have "(d + 5) smod 7 = - ((- d - 5) mod 7)" using False by (cases "d = - 5") (simp_all add: signed_modulo_int_def)
    moreover have "(d + 4) mod 7 = 6 - (- d - 5) mod 7" by presburger
    ultimately show ?thesis by simp
  qed
  then have "weekday_val w = of_int ((d + 4) mod 7)"
    using assms False by (simp add: weekday_of_days_def weekday_from_days_def) (metis weekday.sel)
  then show ?thesis unfolding weekday_int_def by (simp only:) (rule uint_of_int_small; simp add: order.strict_trans [OF pos_mod_bound])
qed

section \<open>Years and months\<close>

lemma year_int_of: "- 32768 \<le> y \<Longrightarrow> y \<le> 32767 \<Longrightarrow> year_int (year_of y) = y"
  by (simp add: year_int_def year_of_def signed_take_bit_int_eq_self signed_of_int)

lemma year_int_range: "- 32768 \<le> year_int y" "year_int y \<le> 32767"
  unfolding year_int_def using sint_ge [of "year_val y"] sint_lt [of "year_val y"] by simp_all

lemma year_ok_int: "year_ok y \<longleftrightarrow> year_int y \<noteq> - 32768"
  using year_int_range [of y] by (auto simp: year_ok_def year_min_def year_max_def year_int_of)

lemma year_int_inject: "year_int a = year_int b \<longleftrightarrow> a = b"
  unfolding year_int_def by (metis year.expand sint_inject)

lemma month_int_range: "0 \<le> month_int m" "month_int m \<le> 255"
  unfolding month_int_def using uint_lt2p [of "month_val m"] by simp_all

lemma month_of_int: "0 \<le> x \<Longrightarrow> x < 256 \<Longrightarrow> month_int (month_of (of_int x)) = x"
proof -
  assume x: "0 \<le> x" "x < 256"
  then have "uint (of_int x :: 32 word) = x" by (intro uint_of_int_small) auto
  then have "(ucast (of_int x :: 32 word) :: 8 word) = of_int x" by (simp only: ucast_eq)
  then show ?thesis using x by (simp only: month_of_def month_int_def month.sel) (rule uint_of_int_small; simp)
qed

lemma year_month_plus_months_eq:
  fixes ym :: year_month and n :: int
  assumes "- (2 ^ 31) + 300 \<le> n" "n < 2 ^ 31 - 300"
  defines "i \<equiv> month_int (ym_month ym) - 1 + n"
  shows "year_month_plus_months ym n = Some \<lparr>ym_year = year_of (year_int (ym_year ym) + i div 12), ym_month = month_of (of_int (i mod 12 + 1))\<rparr>"
proof -
  have m: "sint (month_unsigned (ym_month ym)) = month_int (ym_month ym)"
    using month_int_range [of "ym_month ym"] by (simp add: sint_small month_unsigned_int)
  have i: "- (2 ^ 31) + 299 \<le> i" "i < 2 ^ 31 - 40" using assms month_int_range [of "ym_month ym"] by (auto simp: i_def)
  have "- (2 ^ 31) div 12 \<le> i div 12" "i div 12 \<le> 2 ^ 31 div 12" using i by (intro zdiv_mono1; simp)+
  then have y: "chk (year_int (ym_year ym) + i div 12) = Some (year_int (ym_year ym) + i div 12)"
    using year_int_range [of "ym_year ym"] by (simp add: chk_def)
  have "(if i \<ge> 0 then Some i else chk (i - 11)) = Some (if i \<ge> 0 then i else i - 11)" using i by (simp add: chk_def)
  moreover have "chk i = Some i" using i by (simp add: chk_def)
  ultimately show ?thesis
    unfolding year_month_plus_months_def m i_def [symmetric] by (simp only: bind.bind_lunit Let_def floor_12 year_plus_def y sub_div_mod)
qed

lemma year_month_diff_int:
  "year_month_diff a b = 12 * (year_int (ym_year a) - year_int (ym_year b)) + (month_int (ym_month a) - month_int (ym_month b))"
proof -
  let ?x = "month_int (ym_month a)" and ?y = "month_int (ym_month b)"
  have "uint (month_unsigned (ym_month a) - month_unsigned (ym_month b)) = (?x - ?y) mod 2 ^ 32" by (simp add: uint_word_ariths month_unsigned_int)
  then have "(month_unsigned (ym_month a) - month_unsigned (ym_month b)) = of_int (?x - ?y)" by (simp add: flip: month_unsigned_int)
  then have "sint (month_unsigned (ym_month a) - month_unsigned (ym_month b)) = ?x - ?y"
    using month_int_range [of "ym_month a"] month_int_range [of "ym_month b"] by (simp add: signed_of_int signed_take_bit_int_eq_self del: of_int_diff)
  then show ?thesis by (simp add: year_month_diff_def year_diff_def)
qed

section \<open>Properties\<close>

text \<open>Stepping a valid weekday.\<close>

lemma weekday_step_int:
  assumes "weekday_ok w"
  shows "weekday_int (weekday_inc w) = (weekday_int w + 1) mod 7" "weekday_int (weekday_dec w) = (weekday_int w - 1) mod 7"
proof -
  have "unat (weekday_val w) \<le> 6" using assms by (simp add: weekday_ok_def word_le_nat_alt)
  then have "unat (weekday_val w) \<in> {0, 1, 2, 3, 4, 5, 6}" by auto
  then have "weekday_val w \<in> {0, 1, 2, 3, 4, 5, 6}" by (auto simp: word_unat_eq_iff)
  then show "weekday_int (weekday_inc w) = (weekday_int w + 1) mod 7" "weekday_int (weekday_dec w) = (weekday_int w - 1) mod 7"
    by (auto simp: weekday_int_def weekday_inc_def weekday_dec_def)
qed

text \<open>
  C38: arithmetic on the fields.  Whatever a month or weekday field holds, adding or subtracting \<open>n\<close> counts around the twelve months
  from 1 and the seven weekdays from 0; the increment and decrement of a weekday do so for valid weekdays.  The weekday of a count of days is
  \<open>n + 4\<close> modulo 7, Thursday for day 0, and \<^verbatim>\<open>operator+\<close> of a year and month carries into the year.  Here \<open>n\<close> stays 300 away from the limits of
  the type, where the sums of the source cannot overflow.
\<close>

theorem calendar_arithmetic:
  assumes n: "- (2 ^ 31) + 300 \<le> n" "n < 2 ^ 31 - 300"
  shows "month_int (month_plus m n) = (month_int m - 1 + n) mod 12 + 1 \<and>
    (\<exists>m'. month_minus m n = Some m' \<and> month_int m' = (month_int m - 1 - n) mod 12 + 1) \<and>
    month_int (month_inc m) = month_int m mod 12 + 1 \<and> month_int (month_dec m) = (month_int m - 2) mod 12 + 1 \<and>
    weekday_int (weekday_plus w n) = (weekday_int w + n) mod 7 \<and>
    (\<exists>w'. weekday_minus w n = Some w' \<and> weekday_int w' = (weekday_int w - n) mod 7) \<and>
    (weekday_ok w \<longrightarrow> weekday_int (weekday_inc w) = (weekday_int w + 1) mod 7 \<and> weekday_int (weekday_dec w) = (weekday_int w - 1) mod 7) \<and>
    (\<exists>w'. weekday_of_days n = Some w' \<and> weekday_int w' = (n + 4) mod 7) \<and>
    (\<exists>ym'. year_month_plus_months ym n = Some ym' \<and>
      ym_year ym' = year_of (year_int (ym_year ym) + (month_int (ym_month ym) - 1 + n) div 12) \<and>
      month_int (ym_month ym') = (month_int (ym_month ym) - 1 + n) mod 12 + 1)"
proof -
  have c: "chk (- n) = Some (- n)" using n by (simp add: chk_def)
  have "\<exists>w'. weekday_of_days n = Some w'" using n by (cases "- 4 \<le> n") (simp_all add: weekday_of_days_def weekday_from_days_def chk_def)
  then obtain w' where days: "weekday_of_days n = Some w'" ..
  let ?i = "(month_int (ym_month ym) - 1 + n) mod 12"
  have "0 \<le> ?i" "?i < 12" by simp_all
  then have i: "month_int (month_of (of_int (?i + 1))) = ?i + 1" by (intro month_of_int) auto
  show ?thesis
    using c days weekday_from_days_int [OF days] weekday_step_int [of w] i year_month_plus_months_eq [OF n, of ym]
    by (simp add: month_plus_def month_minus_def month_inc_def month_dec_def month_add_clamped_int weekday_minus_def weekday_plus_int del: of_int_add)
qed

theorem calendar_arithmetic_witness:
  "month_int (month_plus (Month 200) (- 7)) = 1 \<and> weekday_int (weekday_plus (Weekday 9) (- 7)) = 2 \<and> weekday_int (weekday_inc (Weekday 6)) = 0 \<and>
    (\<exists>ym'. year_month_plus_months \<lparr>ym_year = year_of 2024, ym_month = Month 2\<rparr> (- 7) = Some ym' \<and> ym_year ym' = year_of 2023 \<and> month_int (ym_month ym') = 7)"
  using calendar_arithmetic [of "- 7" "Month 200" "Weekday 9" "\<lparr>ym_year = year_of 2024, ym_month = Month 2\<rparr>"]
    calendar_arithmetic [of "- 7" "Month 200" "Weekday 6" "\<lparr>ym_year = year_of 2024, ym_month = Month 2\<rparr>"]
  by (simp add: month_int_def weekday_int_def weekday_ok_def year_int_of)

text \<open>
  Differences lead back.  For months and weekdays, the difference of two values added to the second gives the
  first; for a year and month the difference counts months across years, and \<^verbatim>\<open>operator+\<close> carries into the year.
\<close>

theorem calendar_difference:
  assumes "month_ok a" "month_ok b" "weekday_ok v" "weekday_ok w" "year_month_ok x" "year_month_ok y"
  shows "month_plus b (month_diff a b) = a \<and> weekday_plus w (weekday_diff v w) = v \<and>
    year_month_plus_months y (year_month_diff x y) = Some x"
proof (intro conjI)
  have "(month_int b - 1 + (month_int a - month_int b) mod 12) mod 12 + 1 = month_int a"
    using assms(1) by (simp add: mod_add_right_eq month_ok_int)
  then show "month_plus b (month_diff a b) = a"
    by (simp add: month_plus_def month_add_clamped_int month_diff_int assms(1,2) flip: month_int_inject)
  have "(weekday_int w + (weekday_int v - weekday_int w) mod 7) mod 7 = weekday_int v"
    using assms(3) by (simp add: mod_add_right_eq weekday_ok_int weekday_int_def)
  then show "weekday_plus w (weekday_diff v w) = v"
    by (simp add: weekday_plus_int weekday_diff_int flip: weekday_int_inject)
  let ?d = "year_int (ym_year x) - year_int (ym_year y)"
  have r: "1 \<le> month_int (ym_month x)" "month_int (ym_month x) \<le> 12" using assms(5) by (simp_all add: year_month_ok_def month_ok_int)
  have i: "month_int (ym_month y) - 1 + year_month_diff x y = (month_int (ym_month x) - 1) + ?d * 12"
    by (simp add: year_month_diff_int)
  have dm: "(u + d * 12) div 12 = d" "(u + d * 12) mod 12 = u" if "0 \<le> u" "u < 12" for u d :: int using that by simp_all
  have dv: "(month_int (ym_month x) - 1 + ?d * 12) div 12 = ?d" "(month_int (ym_month x) - 1 + ?d * 12) mod 12 = month_int (ym_month x) - 1"
    by (rule dm; use r in linarith)+
  have n: "- (2 ^ 31) + 300 \<le> year_month_diff x y" "year_month_diff x y < 2 ^ 31 - 300"
    using year_int_range [of "ym_year x"] year_int_range [of "ym_year y"] month_int_range [of "ym_month x"] month_int_range [of "ym_month y"]
    by (simp_all add: year_month_diff_int)
  have "year_of (year_int (ym_year x)) = ym_year x"
    using year_int_of [of "year_int (ym_year x)"] year_int_range by (simp add: year_int_inject)
  moreover have "month_of (of_int (month_int (ym_month x))) = ym_month x"
    using month_of_int [of "month_int (ym_month x)"] month_int_range [of "ym_month x"] by (simp add: month_int_inject)
  ultimately show "year_month_plus_months y (year_month_diff x y) = Some x"
    using year_month_plus_months_eq [OF n, of y] by (simp only: i dv) simp
qed

theorem calendar_difference_witness:
  "month_plus (Month 11) (month_diff (Month 2) (Month 11)) = Month 2 \<and> weekday_plus (Weekday 5) (weekday_diff (Weekday 1) (Weekday 5)) = Weekday 1 \<and>
    year_month_plus_months \<lparr>ym_year = year_of 1999, ym_month = Month 12\<rparr>
      (year_month_diff \<lparr>ym_year = year_of 2024, ym_month = Month 2\<rparr> \<lparr>ym_year = year_of 1999, ym_month = Month 12\<rparr>)
    = Some \<lparr>ym_year = year_of 2024, ym_month = Month 2\<rparr>"
  by (rule calendar_difference) (simp_all add: month_ok_def weekday_ok_def year_month_ok_def year_ok_int year_int_of)



end
