(* ===== verification/Civil_Days.thy ===== *)
theory Civil_Days
  imports Calendar
begin

unbundle bit_operations_syntax

text \<open>
  Dates and counts of days (\<^verbatim>\<open>year_month_day.h\<close>, \<^verbatim>\<open>year_month_weekday.h\<close>): the conversions between a civil date and the number
  of days since 1970-01-01 with their arithmetic on unsigned integers, the last day of a month, \<^verbatim>\<open>ok\<close>, the
  arithmetic on months and years, and dates given by the n-th or last weekday of a month.
\<close>

section \<open>Definitions\<close>

subsection \<open>year\_month\_day.h\<close>

record year_month_day =
  ymd_year :: year
  ymd_month :: month
  ymd_day :: day

definition ymd_to_days :: "year_month_day \<Rightarrow> int" where
  "ymd_to_days d =
     (let yr = year_int (ymd_year d) - of_bool (ymd_month d \<le> February);
          mth = month_unsigned (ymd_month d);
          day = day_unsigned (ymd_day d);
          era = (if yr \<ge> 0 then yr else yr - 399) sdiv 400;
          yoe = (of_int (yr - era * 400) :: 32 word);
          doy = (153 * (mth + (if mth > 2 then - 3 else 9)) + 2) div 5 + day - 1;
          doe = yoe * 365 + yoe div 4 - yoe div 100 + doy
      in era * 146097 + sint doe - 719468)"

definition ymd_from_days :: "int \<Rightarrow> year_month_day option" where
  "ymd_from_days d =
     do { z \<leftarrow> chk (d + 719468);
          let era = (if z \<ge> 0 then z else z - 146096) sdiv 146097;
              doe = (of_int (z - era * 146097) :: 32 word);
              yoe = (doe - doe div 1460 + doe div 36524 - doe div 146096) div 365;
              yr = sint yoe + era * 400;
              doy = doe - (365 * yoe + yoe div 4 - yoe div 100);
              mp = (5 * doy + 2) div 153;
              day = doy - (153 * mp + 2) div 5 + 1;
              mth = mp + (if mp < 10 then 3 else - 9)
          in Some \<lparr>ymd_year = year_of (yr + of_bool (mth \<le> 2)), ymd_month = month_of mth, ymd_day = day_of day\<rparr> }"

definition days_per_month :: "day list" where
  "days_per_month = map day_of [31, 28, 31, 30, 31, 30, 31, 31, 30, 31, 30, 31]"

text \<open>The last day of a month; a month outside of the table is an access out of bounds.\<close>

definition ymd_last_day :: "year \<Rightarrow> month \<Rightarrow> day option" where
  "ymd_last_day y m =
     (if m \<noteq> February \<or> \<not> is_leap y
      then let i = unat (month_unsigned m - 1) in if i < length days_per_month then Some (days_per_month ! i) else None
      else Some (day_of 29))"

definition ymd_ok :: "year_month_day \<Rightarrow> bool option" where
  "ymd_ok d =
     (if \<not> year_ok (ymd_year d) \<or> \<not> month_ok (ymd_month d) then Some False
      else do { l \<leftarrow> ymd_last_day (ymd_year d) (ymd_month d); Some (day_of 1 \<le> ymd_day d \<and> ymd_day d \<le> l) })"

definition ymd_less :: "year_month_day \<Rightarrow> year_month_day \<Rightarrow> bool" where
  "ymd_less lhs rhs =
     (if ymd_year lhs < ymd_year rhs then True
      else if ymd_year lhs > ymd_year rhs then False
      else if ymd_month lhs < ymd_month rhs then True
      else if ymd_month lhs > ymd_month rhs then False
      else ymd_day lhs < ymd_day rhs)"

definition ymd_plus_months :: "year_month_day \<Rightarrow> int \<Rightarrow> year_month_day option" where
  "ymd_plus_months lhs rhs =
     do { ym \<leftarrow> year_month_plus_months \<lparr>ym_year = ymd_year lhs, ym_month = ymd_month lhs\<rparr> rhs;
          Some \<lparr>ymd_year = ym_year ym, ymd_month = ym_month ym, ymd_day = ymd_day lhs\<rparr> }"

definition ymd_minus_months :: "year_month_day \<Rightarrow> int \<Rightarrow> year_month_day option" where
  "ymd_minus_months lhs rhs = do { n \<leftarrow> chk (- rhs); ymd_plus_months lhs n }"

definition ymd_plus_years :: "year_month_day \<Rightarrow> int \<Rightarrow> year_month_day option" where
  "ymd_plus_years lhs rhs =
     do { y \<leftarrow> year_plus (ymd_year lhs) rhs;
          Some \<lparr>ymd_year = y, ymd_month = ymd_month lhs, ymd_day = ymd_day lhs\<rparr> }"

definition ymd_minus_years :: "year_month_day \<Rightarrow> int \<Rightarrow> year_month_day option" where
  "ymd_minus_years lhs rhs = do { n \<leftarrow> chk (- rhs); ymd_plus_years lhs n }"

definition ymd_of_last :: "year \<Rightarrow> month \<Rightarrow> year_month_day option" where
  "ymd_of_last y m = do { l \<leftarrow> ymd_last_day y m; Some \<lparr>ymd_year = y, ymd_month = m, ymd_day = l\<rparr> }"

subsection \<open>year\_month\_weekday.h\<close>

record year_month_weekday =
  ymw_year :: year
  ymw_month :: month
  ymw_indexed :: weekday_indexed

definition ymw_from_days :: "int \<Rightarrow> year_month_weekday option" where
  "ymw_from_days days =
     do { wd \<leftarrow> weekday_of_days days;
          ymd \<leftarrow> ymd_from_days days;
          Some \<lparr>ymw_year = ymd_year ymd, ymw_month = ymd_month ymd,
                ymw_indexed = weekday_indexed_of wd ((day_unsigned (ymd_day ymd) - 1) div 7 + 1)\<rparr> }"

definition ymw_to_days :: "year_month_weekday \<Rightarrow> int option" where
  "ymw_to_days w =
     (let sysd = ymd_to_days \<lparr>ymd_year = ymw_year w, ymd_month = ymw_month w, ymd_day = day_of 1\<rparr> in
      do { wd \<leftarrow> weekday_of_days sysd;
           Some (sysd + (weekday_diff (wi_weekday (ymw_indexed w)) wd + sint ((wi_index (ymw_indexed w) - 1) * 7))) })"

definition ymw_ok :: "year_month_weekday \<Rightarrow> bool option" where
  "ymw_ok w =
     (if \<not> year_ok (ymw_year w) \<or> \<not> month_ok (ymw_month w) \<or> \<not> weekday_indexed_ok (ymw_indexed w) then Some False
      else if wi_index (ymw_indexed w) \<le> 4 then Some True
      else let sysd = ymd_to_days \<lparr>ymd_year = ymw_year w, ymd_month = ymw_month w, ymd_day = day_of 1\<rparr> in
        do { wd \<leftarrow> weekday_of_days sysd;
             l \<leftarrow> ymd_last_day (ymw_year w) (ymw_month w);
             Some ((of_int (weekday_diff (wi_weekday (ymw_indexed w)) wd + sint ((wi_index (ymw_indexed w) - 1) * 7 + 1)) :: 32 word)
                   \<le> day_unsigned l) })"

text \<open>The last occurrence of a weekday in a month.\<close>

definition ymwl_to_days :: "year \<Rightarrow> month \<Rightarrow> weekday \<Rightarrow> int option" where
  "ymwl_to_days y m w =
     do { ymd \<leftarrow> ymd_of_last y m;
          let l = ymd_to_days ymd in
          do { wd \<leftarrow> weekday_of_days l; Some (l - weekday_diff wd w) } }"

section \<open>The era of 400 years\<close>

text \<open>
  Years and days counted from the first of March: a year of the era and a day of the year, as natural numbers.
\<close>

definition yoe_leap :: "nat \<Rightarrow> bool" where
  "yoe_leap y \<longleftrightarrow> y mod 4 = 3 \<and> (y mod 100 \<noteq> 99 \<or> y = 399)"

definition doe_of :: "nat \<Rightarrow> nat \<Rightarrow> nat" where
  "doe_of yoe doy = 365 * yoe + yoe div 4 - yoe div 100 + doy"

definition yoe_of :: "nat \<Rightarrow> nat" where
  "yoe_of doe = (doe - doe div 1460 + doe div 36524 - doe div 146096) div 365"

lemma doe_split:
  assumes "c \<le> 3" "q \<le> 24" "k \<le> 3"
  shows "doe_of (100 * c + 4 * q + k) doy = 36524 * c + 1461 * q + 365 * k + doy"
proof -
  have "(100 * c + 4 * q + k) div 4 = 25 * c + q" using assms(3) by (intro div_nat_eqI) auto
  moreover have "(100 * c + 4 * q + k) div 100 = c" using assms(2,3) by (intro div_nat_eqI) auto
  ultimately show ?thesis by (simp add: doe_of_def)
qed

lemma yoe_leap_split:
  assumes "c \<le> 3" "q \<le> 24" "k \<le> 3"
  shows "yoe_leap (100 * c + 4 * q + k) \<longleftrightarrow> k = 3 \<and> (q < 24 \<or> c = 3)"
proof -
  have "100 * c + 4 * q + k = k + 4 * (25 * c + q)" by simp
  then have "(100 * c + 4 * q + k) mod 4 = k mod 4" by (simp only: mod_mult_self2)
  then have "(100 * c + 4 * q + k) mod 4 = k" using assms(3) by simp
  moreover have "((4 * q + k) + 100 * c) mod 100 = 4 * q + k" using assms(2,3) by simp
  then have "(100 * c + 4 * q + k) mod 100 = 4 * q + k" by (simp add: algebra_simps)
  ultimately show ?thesis using assms unfolding yoe_leap_def by auto
qed

lemma yoe_split:
  assumes "y < 400"
  obtains c q k where "c \<le> 3" "q \<le> 24" "k \<le> 3" "y = 100 * c + 4 * q + k" "yoe_leap y \<longleftrightarrow> k = 3 \<and> (q < 24 \<or> c = 3)"
proof -
  let ?c = "y div 100" and ?q = "y mod 100 div 4" and ?k = "y mod 100 mod 4"
  have c: "?c \<le> 3" and q: "?q \<le> 24" and k: "?k \<le> 3" using assms by auto
  have y: "y = 100 * ?c + 4 * ?q + ?k" by simp
  have "yoe_leap y \<longleftrightarrow> ?k = 3 \<and> (?q < 24 \<or> ?c = 3)" using yoe_leap_split [OF c q k] y by simp
  then show thesis using that c q k y by blast
qed

lemma yoe_of_doe:
  assumes y: "yoe < 400" and d: "doy < 365 + of_bool (yoe_leap yoe)"
  shows "yoe_of (doe_of yoe doy) = yoe \<and> doe_of yoe doy \<le> 146096"
proof -
  obtain c q k where ck: "c \<le> 3" "q \<le> 24" "k \<le> 3" "yoe = 100 * c + 4 * q + k" "yoe_leap yoe \<longleftrightarrow> k = 3 \<and> (q < 24 \<or> c = 3)"
    using yoe_split [OF y] by blast
  have doy: "doy \<le> 364 \<or> doy = 365 \<and> k = 3 \<and> (q < 24 \<or> c = 3)" using d ck(5) by (cases "yoe_leap yoe") auto
  let ?D = "36524 * c + 1461 * q + 365 * k + doy"
  have D: "doe_of yoe doy = ?D" unfolding ck(4) by (rule doe_split [OF ck(1-3)])
  let ?s = "24 * c + q + 365 * k + doy"
  have s: "?D = 1460 * (25 * c + q) + ?s" by simp
  have e1: "?D div 1460 = 25 * c + q + of_bool (1460 \<le> ?s)"
    by (rule div_nat_eqI) (use ck(1-3) doy s in \<open>auto split: if_splits\<close>)
  have e2: "?D div 36524 = c + of_bool (?D = 146096)"
    by (rule div_nat_eqI) (use ck(1-3) doy in \<open>auto split: if_splits\<close>)
  have e3: "?D div 146096 = of_bool (?D = 146096)"
    by (rule div_nat_eqI) (use ck(1-3) doy in \<open>auto split: if_splits\<close>)
  let ?e = "of_bool (1460 \<le> ?s) :: nat"
  have "?e \<le> doy" using ck(1-3) by (cases "1460 \<le> ?s") auto
  then have "?D - ?D div 1460 + ?D div 36524 - ?D div 146096 = 365 * yoe + (doy - ?e)" unfolding e1 e2 e3 ck(4) using s by simp
  moreover have "doy - ?e < 365" using doy ck(1-3) by (cases "1460 \<le> ?s") auto
  ultimately have "yoe_of ?D = yoe" unfolding yoe_of_def by simp
  moreover have "?D \<le> 146096" using ck(1-3) doy by auto
  ultimately show ?thesis by (simp add: D)
qed

lemma doe_exists:
  assumes "doe \<le> 146096"
  shows "\<exists>yoe doy. yoe < 400 \<and> doy < 365 + of_bool (yoe_leap yoe) \<and> doe = doe_of yoe doy"
proof -
  define c r where "c = min 3 (doe div 36524)" and "r = doe - 36524 * c"
  have c: "c \<le> 3" "doe = 36524 * c + r" and r: "r < 36524 \<or> c = 3 \<and> r \<le> 36524" using assms by (auto simp: c_def r_def min_def)
  define q t where "q = r div 1461" and "t = r mod 1461"
  have q: "q \<le> 24" "r = 1461 * q + t" and t: "t \<le> 1460" using r by (auto simp: q_def t_def)
  define k doy where "k = min 3 (t div 365)" and "doy = t - 365 * k"
  have k: "k \<le> 3" "t = 365 * k + doy" and doy: "doy < 365 \<or> k = 3 \<and> doy \<le> 365" using t by (auto simp: k_def doy_def min_def)
  let ?y = "100 * c + 4 * q + k"
  have "?y < 400" using c(1) q(1) k(1) by simp
  moreover have "doe = doe_of ?y doy" using doe_split [OF c(1) q(1) k(1)] c(2) q(2) k(2) by simp
  moreover have "doy < 365 + of_bool (yoe_leap ?y)"
  proof (cases "doy < 365")
    case False
    then have d: "doy = 365" "k = 3" using doy by auto
    then have "q < 24 \<or> c = 3" using r q k(2) by auto
    then have "yoe_leap ?y" using d(2) yoe_leap_split [OF c(1) q(1) k(1)] by simp
    then show ?thesis using d by simp
  qed simp
  ultimately show ?thesis by blast
qed

text \<open>Months counted from March.\<close>

definition mp_start :: "nat \<Rightarrow> nat" where
  "mp_start mp = (153 * mp + 2) div 5"

definition mp_of :: "nat \<Rightarrow> nat" where
  "mp_of doy = (5 * doy + 2) div 153"

definition mp_len :: "nat \<Rightarrow> nat" where
  "mp_len mp = [31, 30, 31, 30, 31, 31, 30, 31, 30, 31, 31, 29] ! mp"

lemma less_12: "mp < 12 \<longleftrightarrow> mp \<in> {0, 1, 2, 3, 4, 5, 6, 7, 8, 9, 10, 11 :: nat}"
  by (auto simp: numeral_eq_Suc less_Suc_eq)

lemma mp_of_start: "mp < 12 \<Longrightarrow> e < mp_len mp \<Longrightarrow> mp_of (mp_start mp + e) = mp \<and> mp_start mp + e < 366"
  unfolding less_12 mp_of_def mp_start_def mp_len_def by (elim insertE emptyE; simp; intro div_nat_eqI; simp)

lemma mp_start_Suc: "mp < 11 \<Longrightarrow> mp_start (Suc mp) = mp_start mp + mp_len mp"
proof -
  assume "mp < 11"
  then have "mp \<in> {0, 1, 2, 3, 4, 5, 6, 7, 8, 9, 10}" by (auto simp: numeral_eq_Suc less_Suc_eq)
  then show ?thesis unfolding mp_start_def mp_len_def by (elim insertE emptyE; simp)
qed

section \<open>The conversions on words\<close>

lemma of_nat_div_word: "a < 2 ^ 32 \<Longrightarrow> b < 2 ^ 32 \<Longrightarrow> (of_nat a :: 32 word) div of_nat b = of_nat (a div b)"
proof -
  assume ab: "a < 2 ^ 32" "b < 2 ^ 32"
  then have "a div b < 2 ^ LENGTH(32)" using div_le_dividend [of a b] by (simp del: div_le_dividend)
  then show ?thesis using ab unat_of_nat_small [of a, where 'a = 32] unat_of_nat_small [of b, where 'a = 32] unat_of_nat_small [of "a div b", where 'a = 32]
    by (simp add: word_unat_eq_iff unat_word_div)
qed

lemma of_nat_diff_word: "b \<le> a \<Longrightarrow> (of_nat a :: 32 word) - of_nat b = of_nat (a - b)"
  by (simp add: of_nat_diff)

text \<open>Dates as numbers: the year, the month and the day, and the year and month counted from March.\<close>

definition day_int :: "day \<Rightarrow> int" where
  "day_int d = uint (day_val d)"

definition leap :: "int \<Rightarrow> bool" where
  "leap y \<longleftrightarrow> y mod 4 = 0 \<and> (y mod 100 \<noteq> 0 \<or> y mod 400 = 0)"

definition month_len :: "int \<Rightarrow> int \<Rightarrow> int" where
  "month_len y m = (if m = 2 then if leap y then 29 else 28 else if m \<in> {4, 6, 9, 11} then 30 else 31)"

definition days_of :: "int \<Rightarrow> int \<Rightarrow> int \<Rightarrow> int" where
  "days_of y m d =
     (let yr = y - of_bool (m \<le> 2); mp = nat (if m > 2 then m - 3 else m + 9)
      in yr div 400 * 146097 + int (doe_of (nat (yr mod 400)) (mp_start mp + nat (d - 1))) - 719468)"

lemma smod_eq_0: "0 < n \<Longrightarrow> x smod n = 0 \<longleftrightarrow> x mod n = 0" for x n :: int
  by (auto simp: signed_modulo_int_def mod_eq_0_iff_dvd sgn_if split: if_splits)

lemma is_leap_int: "is_leap y \<longleftrightarrow> leap (year_int y)"
  by (simp add: is_leap_def leap_def smod_eq_0)

lemma day_unsigned_int: "uint (day_unsigned d) = day_int d"
  by (simp only: day_unsigned_def day_int_def) (rule uint_ucast_up, simp)

lemma day_int_range: "0 \<le> day_int d" "day_int d \<le> 255"
  unfolding day_int_def using uint_lt2p [of "day_val d"] by simp_all

lemma day_int_inject: "day_int a = day_int b \<longleftrightarrow> a = b"
  unfolding day_int_def by (metis day.expand word_uint_eqI)

lemma word_of_uint: "uint w = int n \<Longrightarrow> w = of_nat n" for w :: "32 word"
  by (metis of_int_of_nat_eq word_of_int_uint)

lemma February_int: "m \<le> February \<longleftrightarrow> month_int m \<le> 2"
  by (simp add: less_eq_month_def month_less_eq_def word_le_def month_unsigned_int February_def month_of_def month_int_def)

lemma ymd_to_days_eq:
  assumes m: "1 \<le> month_int (ymd_month d)" "month_int (ymd_month d) \<le> 12" and e: "1 \<le> day_int (ymd_day d)"
  shows "ymd_to_days d = days_of (year_int (ymd_year d)) (month_int (ymd_month d)) (day_int (ymd_day d))"
proof -
  define m e yr where "m = month_int (ymd_month d)" and "e = day_int (ymd_day d)" and "yr = year_int (ymd_year d) - of_bool (month_int (ymd_month d) \<le> 2)"
  define Y mp where "Y = nat (yr mod 400)" and "mp = nat (if m > 2 then m - 3 else m + 9)"
  have Y: "Y < 400" "int Y = yr mod 400" by (simp_all add: Y_def nat_less_iff)
  have mth: "month_unsigned (ymd_month d) = of_nat (nat m)" "day_unsigned (ymd_day d) = of_nat (nat e)"
    by (rule word_of_uint, simp add: month_unsigned_int m_def month_int_range) (rule word_of_uint, simp add: day_unsigned_int e_def day_int_range)
  have "month_unsigned (ymd_month d) > 2 \<longleftrightarrow> m > 2" by (simp add: word_less_def month_unsigned_int m_def)
  moreover have "(of_nat (nat m) :: 32 word) + - 3 = of_nat (nat (m - 3))" if "m > 2"
    using of_nat_diff_word [of 3 "nat m"] that by (simp add: nat_diff_distrib)
  moreover have "(of_nat (nat m) :: 32 word) + 9 = of_nat (nat (m + 9))" using m by (simp add: m_def nat_add_distrib)
  ultimately have mp: "month_unsigned (ymd_month d) + (if month_unsigned (ymd_month d) > 2 then - 3 else 9) = of_nat mp"
    by (auto simp: mth(1) mp_def)
  have mp12: "mp < 12" using m by (auto simp: mp_def m_def)
  have "(153 * of_nat mp + 2 :: 32 word) = of_nat (153 * mp + 2)" by simp
  also have "\<dots> div 5 = of_nat (mp_start mp)" using of_nat_div_word [of "153 * mp + 2" 5] mp12 by (simp add: mp_start_def)
  finally have st: "(153 * of_nat mp + 2 :: 32 word) div 5 = of_nat (mp_start mp)" .
  define doy where "doy = mp_start mp + nat (e - 1)"
  have doy: "of_nat (mp_start mp) + of_nat (nat e) - 1 = (of_nat doy :: 32 word)"
    using of_nat_diff_word [of 1 "mp_start mp + nat e"] assms(3) by (simp add: doy_def e_def nat_diff_distrib)
  have yoe: "(of_nat Y * 365 + of_nat Y div 4 - of_nat Y div 100 + of_nat doy :: 32 word) = of_nat (doe_of Y doy)"
  proof -
    have "(of_nat Y :: 32 word) div 4 = of_nat (Y div 4)" "(of_nat Y :: 32 word) div 100 = of_nat (Y div 100)"
      using of_nat_div_word [of Y 4] of_nat_div_word [of Y 100] Y(1) by simp_all
    moreover have "Y div 100 \<le> 365 * Y + Y div 4" using div_le_dividend [of Y 100] by linarith
    ultimately show ?thesis using of_nat_diff_word [of "Y div 100" "365 * Y + Y div 4"] by (simp add: doe_of_def mult.commute)
  qed
  have "doy \<le> 1000" using mp12 day_int_range(2) [of "ymd_day d"] by (simp add: doy_def mp_start_def e_def)
  then have "doe_of Y doy < 2 ^ 31" using Y(1) by (simp add: doe_of_def)
  then have s: "sint (of_nat (doe_of Y doy) :: 32 word) = int (doe_of Y doy)" by (rule sint_of_nat_small)
  have yw: "(of_int (yr - yr div 400 * 400) :: 32 word) = of_nat Y" unfolding sub_div_mod Y(2) [symmetric] by simp
  show ?thesis
    unfolding ymd_to_days_def Let_def February_int yr_def [symmetric] floor_400 yw mp st mth(2) doy yoe s
    by (simp add: days_of_def Let_def yr_def Y_def mp_def doy_def m_def e_def)
qed

lemma doy_exists:
  assumes "doy < 366"
  shows "\<exists>mp e. mp < 12 \<and> e < mp_len mp \<and> doy = mp_start mp + e"
proof -
  have "mp \<le> 11 \<Longrightarrow> doy < mp_start mp + mp_len mp \<Longrightarrow> \<exists>mp e. mp < 12 \<and> e < mp_len mp \<and> doy = mp_start mp + e" for mp
  proof (induction mp)
    case 0
    then show ?case by (intro exI [of _ 0] exI [of _ doy]) (simp add: mp_start_def)
  next
    case (Suc mp)
    show ?case
    proof (cases "doy < mp_start (Suc mp)")
      case True
      then show ?thesis using Suc mp_start_Suc [of mp] by simp
    next
      case False
      then show ?thesis using Suc.prems by (intro exI [of _ "Suc mp"] exI [of _ "doy - mp_start (Suc mp)"]) auto
    qed
  qed
  from this [of 11] show ?thesis using assms by (simp add: mp_start_def mp_len_def)
qed

lemma ymd_from_days_eq:
  fixes d :: int
  defines "z \<equiv> d + 719468"
  assumes ok: "- (2 ^ 31) \<le> z" "z < 2 ^ 31" and Y: "Y < 400" "doy < 365 + of_bool (yoe_leap Y)"
    and D: "z mod 146097 = int (doe_of Y doy)" and mp: "mp < 12" "e < mp_len mp" "doy = mp_start mp + e"
  shows "ymd_from_days d = Some \<lparr>ymd_year = year_of (int Y + z div 146097 * 400 + of_bool (10 \<le> mp)),
    ymd_month = month_of (of_nat (if mp < 10 then mp + 3 else mp - 9)), ymd_day = day_of (of_nat (e + 1))\<rparr>"
proof -
  let ?D = "doe_of Y doy"
  have yoe: "yoe_of ?D = Y" "?D \<le> 146096" using yoe_of_doe [OF Y] by simp_all
  have z: "(of_int (z - z div 146097 * 146097) :: 32 word) = of_nat ?D" unfolding sub_div_mod D by simp
  have D32: "?D < 2 ^ 32" using yoe(2) by simp
  have div_D: "(of_nat ?D :: 32 word) div 1460 = of_nat (?D div 1460)" "(of_nat ?D :: 32 word) div 36524 = of_nat (?D div 36524)"
    "(of_nat ?D :: 32 word) div 146096 = of_nat (?D div 146096)"
    using of_nat_div_word [OF D32, of 1460] of_nat_div_word [OF D32, of 36524] of_nat_div_word [OF D32, of 146096] by simp_all
  define N where "N = ?D - ?D div 1460 + ?D div 36524 - ?D div 146096"
  have le: "?D div 1460 \<le> ?D" "?D div 146096 \<le> ?D - ?D div 1460 + ?D div 36524" using yoe(2)
    by (simp_all add: div_le_mono2 trans_le_add2)
  have Nw: "(of_nat ?D - of_nat ?D div 1460 + of_nat ?D div 36524 - of_nat ?D div 146096 :: 32 word) = of_nat N"
    unfolding div_D of_nat_diff_word [OF le(1)] of_nat_add [symmetric] of_nat_diff_word [OF le(2)] N_def ..
  have "N \<le> ?D + ?D div 36524" by (simp add: N_def)
  then have "N \<le> 292192" using yoe(2) div_le_dividend [of ?D 36524] by linarith
  then have "N < 2 ^ 32" by simp
  moreover have Nd: "N div 365 = Y" using yoe(1) by (simp only: yoe_of_def N_def)
  ultimately have "(of_nat N :: 32 word) div 365 = of_nat Y" using of_nat_div_word [of N 365] by simp
  then have yw: "(of_nat ?D - of_nat ?D div 1460 + of_nat ?D div 36524 - of_nat ?D div 146096 :: 32 word) div 365 = of_nat Y" by (simp only: Nw)
  have ys: "sint (of_nat Y :: 32 word) = int Y" by (rule sint_of_nat_small) (use Y(1) in simp)
  have dw: "(of_nat ?D - (365 * of_nat Y + of_nat Y div 4 - of_nat Y div 100) :: 32 word) = of_nat doy"
  proof -
    have "(of_nat Y :: 32 word) div 4 = of_nat (Y div 4)" "(of_nat Y :: 32 word) div 100 = of_nat (Y div 100)"
      using of_nat_div_word [of Y 4] of_nat_div_word [of Y 100] Y(1) by simp_all
    moreover have "Y div 100 \<le> 365 * Y + Y div 4" using div_le_dividend [of Y 100] by linarith
    ultimately have "(365 * of_nat Y + of_nat Y div 4 - of_nat Y div 100 :: 32 word) = of_nat (doe_of Y 0)"
      using of_nat_diff_word [of "Y div 100" "365 * Y + Y div 4"] by (simp add: doe_of_def)
    moreover have "?D - doe_of Y 0 = doy" "doe_of Y 0 \<le> ?D" by (simp_all add: doe_of_def)
    ultimately show ?thesis using of_nat_diff_word [of "doe_of Y 0" ?D] by (simp only:)
  qed
  have "mp_of doy = mp" and "doy < 366" using mp_of_start [OF mp(1,2)] mp(3) by simp_all
  moreover have "(5 * of_nat doy + 2 :: 32 word) = of_nat (5 * doy + 2)" "(153 :: 32 word) = of_nat 153" by simp_all
  moreover have "(of_nat (5 * doy + 2) :: 32 word) div of_nat 153 = of_nat ((5 * doy + 2) div 153)"
    by (rule of_nat_div_word) (use \<open>doy < 366\<close> in simp_all)
  ultimately have mw: "(5 * of_nat doy + 2 :: 32 word) div 153 = of_nat mp" by (simp only: mp_of_def)
  have "(153 * of_nat mp + 2 :: 32 word) = of_nat (153 * mp + 2)" by simp
  also have "\<dots> div 5 = of_nat (mp_start mp)" using of_nat_div_word [of "153 * mp + 2" 5] mp(1) by (simp add: mp_start_def)
  finally have ew: "(of_nat doy - (153 * of_nat mp + 2) div 5 + 1 :: 32 word) = of_nat (e + 1)"
    using of_nat_diff_word [of "mp_start mp" doy] mp(3) by simp
  have "(of_nat mp :: 32 word) < 10 \<longleftrightarrow> mp < 10"
    using unat_of_nat_small [of mp, where 'a = 32] mp(1) by (simp add: word_less_nat_alt)
  then have tw: "(of_nat mp + (if of_nat mp < (10 :: 32 word) then 3 else - 9) :: 32 word) = of_nat (if mp < 10 then mp + 3 else mp - 9)"
    using of_nat_diff_word [of 9 mp] by auto
  have "unat (of_nat (if mp < 10 then mp + 3 else mp - 9) :: 32 word) = (if mp < 10 then mp + 3 else mp - 9)"
    by (rule unat_of_nat_small) (use mp(1) in auto)
  then have lw: "(of_nat (if mp < 10 then mp + 3 else mp - 9) :: 32 word) \<le> 2 \<longleftrightarrow> 10 \<le> mp" using mp(1) by (auto simp: word_le_nat_alt)
  have "chk (d + 719468) = Some z" using ok by (simp add: chk_def z_def)
  then show ?thesis
    unfolding ymd_from_days_def by (simp only: bind.bind_lunit Let_def floor_146097 z yw ys dw mw ew tw lw)
qed

section \<open>The calendar\<close>

lemma leap_period: "leap (400 * a + x) = leap x"
proof -
  have "(400 * a + x) mod 4 = x mod 4" "(400 * a + x) mod 100 = x mod 100" "(400 * a + x) mod 400 = x mod 400"
    using mod_mult_self4 [of 4 "100 * a" x] mod_mult_self4 [of 100 "4 * a" x] mod_mult_self4 [of 400 a x] by simp_all
  then show ?thesis by (simp add: leap_def)
qed

lemma yoe_leap_iff: "yoe_leap (nat (yr mod 400)) \<longleftrightarrow> leap (yr + 1)"
proof -
  define Y where "Y = nat (yr mod 400)"
  have Y: "Y < 400" "int Y = yr mod 400" by (simp_all add: Y_def nat_less_iff)
  have "yr + 1 = 400 * (yr div 400) + int (Suc Y)" using Y(2) by simp
  then have "leap (yr + 1) \<longleftrightarrow> leap (int (Suc Y))" by (simp only: leap_period)
  moreover have i: "int a mod int b = 0 \<longleftrightarrow> a mod b = 0" for a b by (simp flip: zmod_int)
  have "leap (int (Suc Y)) \<longleftrightarrow> Suc Y mod 4 = 0 \<and> (Suc Y mod 100 \<noteq> 0 \<or> Suc Y mod 400 = 0)"
    using i [of "Suc Y" 4] i [of "Suc Y" 100] i [of "Suc Y" 400] by (simp only: leap_def of_nat_numeral)
  moreover have "\<dots> \<longleftrightarrow> yoe_leap Y" using Y(1) by (auto simp: mod_Suc yoe_leap_def)
  ultimately show ?thesis by (simp add: Y_def)
qed

text \<open>The number of days before the first of March of a year.\<close>

definition mar :: "int \<Rightarrow> int" where
  "mar yr = 365 * yr + yr div 4 - yr div 100 + yr div 400"

lemma mar_eq: "yr div 400 * 146097 + int (doe_of (nat (yr mod 400)) doy) = mar yr + int doy"
proof -
  define a Y where "a = yr div 400" and "Y = nat (yr mod 400)"
  have Y: "yr = 400 * a + int Y" "Y < 400" by (simp_all add: a_def Y_def nat_less_iff)
  have "yr div 4 = 100 * a + int (Y div 4)" "yr div 100 = 4 * a + int (Y div 100)" "yr div 400 = a"
    unfolding Y(1) using Y(2) div_mult_self4 [of 4 "100 * a" "int Y"] div_mult_self4 [of 100 "4 * a" "int Y"] by (simp_all add: zdiv_int)
  moreover have "Y div 100 \<le> 365 * Y + Y div 4" using div_le_dividend [of Y 100] by linarith
  then have "int (doe_of Y doy) = 365 * int Y + int (Y div 4) - int (Y div 100) + int doy" by (simp add: doe_of_def of_nat_diff)
  ultimately show ?thesis unfolding mar_def Y_def [symmetric] by (simp add: Y(1))
qed

lemma div_succ: "0 < n \<Longrightarrow> (x + 1) div n = x div n + of_bool ((x + 1) mod n = 0)" for x n :: int
proof (cases "(x + 1) mod n = 0")
  case True
  assume n: "0 < n"
  from True obtain q where q: "x + 1 = n * q" by (auto elim: dvdE)
  then have "x = n * (q - 1) + (n - 1)" by (simp add: algebra_simps)
  from int_div_pos_eq [OF this] have "x div n = q - 1" using n by simp
  then show ?thesis using q n by simp
next
  case False
  assume n: "0 < n"
  have "x + 1 = n * ((x + 1) div n) + (x + 1) mod n" by simp
  then have "x = n * ((x + 1) div n) + ((x + 1) mod n - 1)" by linarith
  from int_div_pos_eq [OF this] have "x div n = (x + 1) div n"
    using n False pos_mod_sign [OF n, of "x + 1"] pos_mod_bound [OF n, of "x + 1"] by simp
  then show ?thesis using False by simp
qed

lemma mar_step: "a' = a + p \<Longrightarrow> b' = b + q \<Longrightarrow> c' = c + r \<Longrightarrow> p - q + r = t \<Longrightarrow>
    365 * (y + 1) + a' - b' + c' = 365 * y + a - b + c + 365 + t" for a b c p q r t y :: int
  by simp

lemma leap_of_bool:
  "(of_bool (x mod 4 = 0) - of_bool (x mod 100 = 0) + of_bool (x mod 400 = 0) :: int) = of_bool (leap x)"
proof -
  have d: "4 dvd (100 :: int)" "100 dvd (400 :: int)" by simp_all
  have a: "x mod 100 = 0 \<longrightarrow> x mod 4 = 0" unfolding mod_eq_0_iff_dvd using dvd_trans [OF d(1), of x] by (rule impI)
  have b: "x mod 400 = 0 \<longrightarrow> x mod 100 = 0" unfolding mod_eq_0_iff_dvd using dvd_trans [OF d(2), of x] by (rule impI)
  have "(b100 \<longrightarrow> b4) \<Longrightarrow> (b400 \<longrightarrow> b100) \<Longrightarrow> (of_bool b4 - of_bool b100 + of_bool b400 :: int) = of_bool (b4 \<and> (\<not> b100 \<or> b400))" for b4 b100 b400
    by (cases b4; cases b100; cases b400) simp_all
  from this [OF a b] show ?thesis unfolding leap_def .
qed

lemma mar_Suc: "mar (yr + 1) = mar yr + 365 + of_bool (leap (yr + 1))"
  unfolding mar_def by (rule mar_step [OF div_succ div_succ div_succ leap_of_bool]) simp_all

lemma mar_mono: "yr < yr' \<Longrightarrow> mar yr + 365 + of_bool (leap (yr + 1)) \<le> mar yr'"
proof (induction yr' rule: int_gr_induct)
  case base
  then show ?case by (simp add: mar_Suc)
next
  case (step i)
  then show ?case by (simp add: mar_Suc)
qed

text \<open>The year and the month counted from March.\<close>

definition yr_of :: "int \<Rightarrow> int \<Rightarrow> int" where
  "yr_of y m = y - of_bool (m \<le> 2)"

definition mp_of_month :: "int \<Rightarrow> nat" where
  "mp_of_month m = nat (if m > 2 then m - 3 else m + 9)"

definition date_ok :: "int \<Rightarrow> int \<Rightarrow> int \<Rightarrow> bool" where
  "date_ok y m d \<longleftrightarrow> 1 \<le> m \<and> m \<le> 12 \<and> 1 \<le> d \<and> d \<le> month_len y m"

lemma days_of_mar: "1 \<le> d \<Longrightarrow> days_of y m d = mar (yr_of y m) + int (mp_start (mp_of_month m)) + (d - 1) - 719468"
  by (simp add: days_of_def Let_def mar_eq yr_of_def mp_of_month_def)

lemma month_cases:
  assumes "1 \<le> m" "m \<le> 12"
  obtains "m = 1" | "m = 2" | "m = 3" | "m = 4" | "m = 5" | "m = 6" | "m = 7" | "m = 8" | "m = 9" | "m = 10" | "m = 11" | "m = (12 :: int)"
proof -
  have "m \<in> {1..12}" using assms by simp
  moreover have "{1..12} = {1, 2, 3, 4, 5, 6, 7, 8, 9, 10, 11, 12 :: int}" by (simp add: simp_from_to)
  ultimately show thesis using that by blast
qed

lemma date_bounds:
  assumes "date_ok y m d"
  shows "mp_of_month m < 12" "nat (d - 1) < mp_len (mp_of_month m)"
    "mp_start (mp_of_month m) + nat (d - 1) < 365 + of_bool (leap (yr_of y m + 1))"
proof -
  have m: "1 \<le> m" "m \<le> 12" and d: "1 \<le> d" "d \<le> month_len y m" using assms by (simp_all add: date_ok_def)
  show "mp_of_month m < 12" by (cases rule: month_cases [OF m]) (auto simp: mp_of_month_def)
  show "nat (d - 1) < mp_len (mp_of_month m)"
    using d by (cases rule: month_cases [OF m]) (auto simp: month_len_def mp_of_month_def mp_len_def split: if_splits)
  show "mp_start (mp_of_month m) + nat (d - 1) < 365 + of_bool (leap (yr_of y m + 1))"
    using d by (cases rule: month_cases [OF m]) (auto simp: month_len_def mp_of_month_def mp_start_def yr_of_def split: if_splits)
qed

text \<open>The day that follows, as a calendar has it.\<close>

definition next_date :: "int \<Rightarrow> int \<Rightarrow> int \<Rightarrow> int \<times> int \<times> int" where
  "next_date y m d = (if d < month_len y m then (y, m, d + 1) else if m < 12 then (y, m + 1, 1) else (y + 1, 1, 1))"

lemma days_of_next:
  assumes "date_ok y m d" "next_date y m d = (y', m', d')"
  shows "days_of y' m' d' = days_of y m d + 1"
proof -
  have m: "1 \<le> m" "m \<le> 12" and d: "1 \<le> d" "d \<le> month_len y m" using assms(1) by (simp_all add: date_ok_def)
  show ?thesis
  proof (cases "d < month_len y m")
    case True
    then show ?thesis using assms(2) d by (auto simp: next_date_def days_of_mar)
  next
    case False
    then have d': "d = month_len y m" "d' = 1" using d assms(2) by (auto simp: next_date_def split: if_splits)
    have "mar (yr_of y' m') + int (mp_start (mp_of_month m')) = mar (yr_of y m) + int (mp_start (mp_of_month m)) + month_len y m"
      using assms(2) False mar_Suc [of "y - 1"]
      by (cases rule: month_cases [OF m]) (auto simp: next_date_def month_len_def mp_of_month_def mp_start_def yr_of_def)
    then show ?thesis using d d' by (simp add: days_of_mar)
  qed
qed

text \<open>The count of days orders dates as the calendar does.\<close>

lemma mp_start_mono: "mp < mp' \<Longrightarrow> mp' < 12 \<Longrightarrow> mp_start mp + mp_len mp \<le> mp_start mp'"
proof (induction mp')
  case (Suc k)
  then show ?case using mp_start_Suc [of k] by (cases "mp = k") auto
qed simp

lemma month_index: "1 \<le> m \<Longrightarrow> 12 * yr_of y m + int (mp_of_month m) = 12 * y + m - 3"
  by (simp add: yr_of_def mp_of_month_def)

lemma days_of_mono_month:
  assumes "date_ok y m d" "date_ok y' m' d'" "12 * y + m < 12 * y' + m'"
  shows "days_of y m d < days_of y' m' d'"
proof -
  note b = date_bounds [OF assms(1)] and b' = date_bounds [OF assms(2)]
  have d: "1 \<le> d" "1 \<le> d'" "1 \<le> m" "1 \<le> m'" using assms(1,2) by (simp_all add: date_ok_def)
  have i: "12 * yr_of y m + int (mp_of_month m) < 12 * yr_of y' m' + int (mp_of_month m')" using assms(3) month_index d by simp
  then consider "yr_of y m < yr_of y' m'" | "yr_of y m = yr_of y' m'" "mp_of_month m < mp_of_month m'" using b(1) b'(1) by linarith
  then have "mar (yr_of y m) + int (mp_start (mp_of_month m) + nat (d - 1)) < mar (yr_of y' m') + int (mp_start (mp_of_month m'))"
  proof cases
    case 1
    have "int (mp_start (mp_of_month m) + nat (d - 1)) < 365 + of_bool (leap (yr_of y m + 1))" 
      using b(3) by (metis of_nat_add of_nat_less_iff of_nat_numeral of_nat_of_bool)
    then show ?thesis using mar_mono [OF 1] by linarith
  next
    case 2
    then have "mp_start (mp_of_month m) + nat (d - 1) < mp_start (mp_of_month m')" using mp_start_mono [OF 2(2) b'(1)] b(2) by linarith
    then show ?thesis by (simp only: 2(1) add_less_cancel_left of_nat_less_iff)
  qed
  then show ?thesis using d by (simp add: days_of_mar)
qed

lemma days_of_less_iff:
  assumes "date_ok y m d" "date_ok y' m' d'"
  shows "days_of y m d < days_of y' m' d' \<longleftrightarrow> y < y' \<or> y = y' \<and> (m < m' \<or> m = m' \<and> d < d')"
proof -
  have r: "1 \<le> m" "m \<le> 12" "1 \<le> m'" "m' \<le> 12" "1 \<le> d" "1 \<le> d'" using assms by (simp_all add: date_ok_def)
  consider "12 * y + m < 12 * y' + m'" | "12 * y' + m' < 12 * y + m" | "12 * y + m = 12 * y' + m'" by linarith
  then show ?thesis
  proof cases
    case 1
    then show ?thesis using days_of_mono_month [OF assms 1] r by linarith
  next
    case 2
    then show ?thesis using days_of_mono_month [OF assms(2,1) 2] r by linarith
  next
    case 3
    then have "y = y'" using r by presburger
    moreover from this have "m = m'" using 3 by simp
    ultimately show ?thesis using r by (simp add: days_of_mar)
  qed
qed

end
