(* ===== verification/Civil_Dates.thy ===== *)
theory Civil_Dates
  imports Civil_Days
begin

unbundle bit_operations_syntax

text \<open>
  Properties of the conversions between dates and counts of days: on valid dates the code computes the
  count of the calendar, and the two conversions undo each other, also for dates given by a weekday of a month.
\<close>

section \<open>Dates\<close>

lemma month_eq_February: "m = February \<longleftrightarrow> month_int m = 2"
  using month_int_inject [of m February] by (simp add: February_def month_of_def month_int_def)

lemma day_of_int: "0 \<le> x \<Longrightarrow> x < 256 \<Longrightarrow> day_int (day_of (of_int x)) = x"
proof -
  assume x: "0 \<le> x" "x < 256"
  then have "uint (of_int x :: 32 word) = x" by (intro uint_of_int_small) auto
  then have "(ucast (of_int x :: 32 word) :: 8 word) = of_int x" by (simp only: ucast_eq)
  then show ?thesis using x by (simp only: day_of_def day_int_def day.sel) (rule uint_of_int_small; simp)
qed

lemma ymd_last_day_eq:
  assumes "month_ok m"
  shows "\<exists>l. ymd_last_day y m = Some l \<and> day_int l = month_len (year_int y) (month_int m)"
proof -
  have m: "1 \<le> month_int m" "month_int m \<le> 12" using assms by (simp_all add: month_ok_int)
  have "uint (month_unsigned m - 1) = (month_int m - 1) mod 2 ^ 32" by (simp add: uint_word_ariths month_unsigned_int)
  then have i: "unat (month_unsigned m - 1) = nat (month_int m - 1)" using m by (simp add: unat_eq_nat_uint)
  have t: "days_per_month ! k = day_of (of_int (month_len (year_int y) (int k + 1)))" if "k < 12" "k \<noteq> 1" for k
    using that(2) that(1) [unfolded less_12] by (elim insertE emptyE; simp add: days_per_month_def month_len_def)
  show ?thesis
  proof (cases "month_int m = 2")
    case True
    then have i1: "unat (month_unsigned m - 1) = 1" by (simp add: i)
    show ?thesis
    proof (cases "leap (year_int y)")
      case leap: True
      then show ?thesis using True day_of_int [of 29] by (simp add: ymd_last_day_def month_eq_February is_leap_int month_len_def)
    next
      case leap: False
      then show ?thesis using True i1 day_of_int [of 28] by (simp add: ymd_last_day_def month_eq_February is_leap_int month_len_def days_per_month_def)
    qed
  next
    case False
    let ?k = "nat (month_int m - 1)"
    have k: "?k < 12" "?k \<noteq> 1" "int ?k + 1 = month_int m" using m False by auto
    have "0 \<le> month_len (year_int y) (month_int m)" "month_len (year_int y) (month_int m) < 256" by (simp_all add: month_len_def)
    then have "day_int (days_per_month ! ?k) = month_len (year_int y) (month_int m)" using t [OF k(1,2)] k(3) by (simp only: day_of_int)
    moreover have "length days_per_month = 12" by (simp add: days_per_month_def)
    ultimately show ?thesis using False k(1) by (simp add: ymd_last_day_def month_eq_February i)
  qed
qed

lemma day_le_int: "a \<le> b \<longleftrightarrow> day_int a \<le> day_int b" "a < b \<longleftrightarrow> day_int a < day_int b"
  by (simp_all add: less_eq_day_def day_less_eq_def less_day_def day_less_def word_le_def word_less_def day_unsigned_int)

lemma month_less_int: "a < b \<longleftrightarrow> month_int a < month_int b"
  by (simp add: less_month_def month_less_def word_less_def month_unsigned_int)

lemma year_less_int: "a < b \<longleftrightarrow> year_int a < year_int b"
  by (simp add: less_year_def year_less_def)

lemma ymd_ok_iff:
  "ymd_ok d = Some True \<longleftrightarrow> year_ok (ymd_year d) \<and> date_ok (year_int (ymd_year d)) (month_int (ymd_month d)) (day_int (ymd_day d))"
proof (cases "month_ok (ymd_month d)")
  case True
  then obtain l where l: "ymd_last_day (ymd_year d) (ymd_month d) = Some l" "day_int l = month_len (year_int (ymd_year d)) (month_int (ymd_month d))"
    using ymd_last_day_eq by blast
  then show ?thesis using True day_of_int [of 1] by (auto simp: ymd_ok_def day_le_int date_ok_def month_ok_int)
next
  case False
  then show ?thesis by (auto simp: ymd_ok_def date_ok_def month_ok_int)
qed

lemma ymd_to_days_ok: "ymd_ok d = Some True \<Longrightarrow> ymd_to_days d = days_of (year_int (ymd_year d)) (month_int (ymd_month d)) (day_int (ymd_day d))"
  by (rule ymd_to_days_eq) (auto simp: ymd_ok_iff date_ok_def)

lemma of_yr: "yr_of y m div 400 * 400 + yr_of y m mod 400 + of_bool (m \<le> 2) = y"
  by (simp add: yr_of_def)

lemma ymd_from_days_of:
  assumes ok: "date_ok y m d" and y: "- 32768 \<le> y" "y \<le> 32767"
  shows "ymd_from_days (days_of y m d) = Some \<lparr>ymd_year = year_of y, ymd_month = month_of (of_int m), ymd_day = day_of (of_int d)\<rparr>"
proof -
  have r: "1 \<le> m" "m \<le> 12" "1 \<le> d" using ok by (simp_all add: date_ok_def)
  define yr Y mp e where "yr = yr_of y m" and "Y = nat (yr mod 400)" and "mp = mp_of_month m" and "e = nat (d - 1)"
  note b = date_bounds [OF ok, folded mp_def e_def yr_def]
  have Y: "Y < 400" "int Y = yr mod 400" by (simp_all add: Y_def nat_less_iff)
  let ?z = "days_of y m d + 719468" and ?D = "doe_of Y (mp_start mp + e)"
  have z: "?z = yr div 400 * 146097 + int ?D"
    by (simp add: days_of_def Let_def yr_def Y_def mp_def e_def yr_of_def mp_of_month_def)
  have doy: "mp_start mp + e < 365 + of_bool (yoe_leap Y)" using b(3) by (simp add: Y_def yoe_leap_iff)
  have "?D \<le> 146096" using yoe_of_doe [OF Y(1) doy] by simp
  then have dm: "?z div 146097 = yr div 400" "?z mod 146097 = int ?D" unfolding z by simp_all
  have "- 32769 div 400 \<le> yr div 400" "yr div 400 \<le> 32767 div 400" using y by (intro zdiv_mono1; simp add: yr_def yr_of_def)+
  then have "- (2 ^ 31) \<le> ?z" "?z < 2 ^ 31" unfolding z using \<open>?D \<le> 146096\<close> by simp_all
  from ymd_from_days_eq [OF this Y(1) doy dm(2) b(1,2) refl] have
    "ymd_from_days (days_of y m d) = Some \<lparr>ymd_year = year_of (int Y + yr div 400 * 400 + of_bool (10 \<le> mp)),
      ymd_month = month_of (of_nat (if mp < 10 then mp + 3 else mp - 9)), ymd_day = day_of (of_nat (e + 1))\<rparr>" by (simp only: dm(1))
  moreover have "10 \<le> mp \<longleftrightarrow> m \<le> 2" and mi: "int (if mp < 10 then mp + 3 else mp - 9) = m" using r by (auto simp: mp_def mp_of_month_def)
  moreover have ei: "int (e + 1) = d" using r by (simp add: e_def)
  moreover have "int Y + yr div 400 * 400 + of_bool (m \<le> 2) = y" using of_yr [of y m] Y(2) by (simp add: yr_def)
  moreover have "(of_nat (if mp < 10 then mp + 3 else mp - 9) :: 32 word) = of_int m" by (subst mi [symmetric]) (rule of_int_of_nat_eq [symmetric])
  moreover have "(of_nat (e + 1) :: 32 word) = of_int d" by (subst ei [symmetric]) (rule of_int_of_nat_eq [symmetric])
  ultimately show ?thesis by (simp only:)
qed

text \<open>Every count of days comes from a date.\<close>

lemma date_of_march:
  assumes "mp < 12" "e < mp_len mp" "mp_start mp + e < 365 + of_bool (leap (yr + 1))"
  defines "m \<equiv> int (if mp < 10 then mp + 3 else mp - 9)" and "y \<equiv> yr + of_bool (10 \<le> mp)"
  shows "date_ok y m (int e + 1)" "yr_of y m = yr" "mp_of_month m = mp"
  using assms(1) [unfolded less_12] assms(2,3) unfolding m_def y_def
  by (elim insertE emptyE; auto simp: date_ok_def month_len_def mp_len_def mp_start_def yr_of_def mp_of_month_def split: if_splits)+

lemma days_exists: "\<exists>y m d. date_ok y m d \<and> days_of y m d = n"
proof -
  define z where "z = n + 719468"
  have "nat (z mod 146097) \<le> 146096" using pos_mod_bound [of 146097 z] by simp
  then obtain Y doy where Y: "Y < 400" "doy < 365 + of_bool (yoe_leap Y)" "nat (z mod 146097) = doe_of Y doy" using doe_exists by metis
  have "doy < 366" using Y(2) by (cases "yoe_leap Y") auto
  then obtain mp e where mp: "mp < 12" "e < mp_len mp" "doy = mp_start mp + e" using doy_exists by blast
  define yr where "yr = z div 146097 * 400 + int Y"
  have yr: "yr div 400 = z div 146097" "nat (yr mod 400) = Y" using Y(1) by (simp_all add: yr_def)
  then have "doy < 365 + of_bool (leap (yr + 1))" using Y(2) yoe_leap_iff [of yr] by simp
  note ok = date_of_march [OF mp(1,2) this [unfolded mp(3)]]
  let ?m = "int (if mp < 10 then mp + 3 else mp - 9)" and ?y = "yr + of_bool (10 \<le> mp)"
  have "days_of ?y ?m (int e + 1) = yr div 400 * 146097 + int (doe_of (nat (yr mod 400)) doy) - 719468"
    using days_of_mar [of "int e + 1" ?y ?m] mar_eq [of yr doy] by (simp only: ok(2,3) mp(3))
  also have "\<dots> = z div 146097 * 146097 + z mod 146097 - 719468" unfolding yr Y(3) [symmetric] by simp
  also have "\<dots> = n" by (simp add: z_def)
  finally show ?thesis using ok(1) by blast
qed

lemma days_range:
  assumes "- 12687428 \<le> days_of y m d" "days_of y m d \<le> 11248737" "date_ok y m d"
  shows "- 32767 \<le> y" "y \<le> 32767"
proof -
  have lo: "date_ok (- 32767) 1 1" and hi: "date_ok 32767 12 31" by (simp_all add: date_ok_def month_len_def)
  have "days_of (- 32767) 1 1 = - 12687428" "days_of 32767 12 31 = 11248737"
    by (simp_all add: days_of_def doe_of_def mp_start_def)
  then show "- 32767 \<le> y" "y \<le> 32767"
    using days_of_less_iff [OF assms(3) lo] days_of_less_iff [OF hi assms(3)] assms(1,2) by auto
qed

lemma date_fields:
  assumes "date_ok y m d" "- 32767 \<le> y" "y \<le> 32767"
  defines "x \<equiv> \<lparr>ymd_year = year_of y, ymd_month = month_of (of_int m), ymd_day = day_of (of_int d)\<rparr>"
  shows "year_int (ymd_year x) = y" "month_int (ymd_month x) = m" "day_int (ymd_day x) = d" "ymd_ok x = Some True"
proof -
  have r: "1 \<le> m" "m \<le> 12" "1 \<le> d" "d \<le> 31" using assms(1) by (auto simp: date_ok_def month_len_def split: if_splits)
  show f: "year_int (ymd_year x) = y" "month_int (ymd_month x) = m" "day_int (ymd_day x) = d"
    unfolding x_def using assms(2,3) r by (simp_all add: year_int_of month_of_int day_of_int)
  show "ymd_ok x = Some True" unfolding ymd_ok_iff f using assms(1,2) by (simp add: year_ok_int f)
qed

lemma ymd_fields: "x = \<lparr>ymd_year = year_of (year_int (ymd_year x)), ymd_month = month_of (of_int (month_int (ymd_month x))), ymd_day = day_of (of_int (day_int (ymd_day x)))\<rparr>"
proof -
  have "year_of (year_int (ymd_year x)) = ymd_year x" using year_int_range [of "ymd_year x"] by (simp add: year_int_of flip: year_int_inject)
  moreover have "month_of (of_int (month_int (ymd_month x))) = ymd_month x"
    using month_int_range [of "ymd_month x"] by (simp add: month_of_int flip: month_int_inject)
  moreover have "day_of (of_int (day_int (ymd_day x))) = ymd_day x" using day_int_range [of "ymd_day x"] by (simp add: day_of_int flip: day_int_inject)
  ultimately show ?thesis by simp
qed

lemma ymd_from_to_days: "ymd_ok d = Some True \<Longrightarrow> ymd_from_days (ymd_to_days d) = Some d"
proof -
  assume ok: "ymd_ok d = Some True"
  then show ?thesis
    using ymd_from_days_of [of "year_int (ymd_year d)" "month_int (ymd_month d)" "day_int (ymd_day d)"] ymd_to_days_ok [OF ok] year_int_range [of "ymd_year d"]
    by (simp add: ymd_ok_iff flip: ymd_fields)
qed

lemma ymd_to_from_days:
  assumes "- 12687428 \<le> n" "n \<le> 11248737"
  obtains d where "ymd_from_days n = Some d" "ymd_ok d = Some True" "ymd_to_days d = n"
proof -
  obtain y m e where e: "date_ok y m e" "days_of y m e = n" using days_exists by blast
  then have y: "- 32767 \<le> y" "y \<le> 32767" using days_range assms by blast+
  let ?d = "\<lparr>ymd_year = year_of y, ymd_month = month_of (of_int m), ymd_day = day_of (of_int e)\<rparr>"
  note f = date_fields [OF e(1) y]
  show thesis
    by (rule that [of ?d]) (use ymd_from_days_of [OF e(1)] y e(2) f(4) ymd_to_days_ok [OF f(4)] f(1-3) in simp_all)
qed

section \<open>Dates by weekday\<close>

lemma weekday_of_days_small: "- (2 ^ 31) \<le> n \<Longrightarrow> n < 2 ^ 31 - 4 \<Longrightarrow> \<exists>w. weekday_of_days n = Some w \<and> weekday_int w = (n + 4) mod 7"
proof -
  assume "- (2 ^ 31) \<le> n" "n < 2 ^ 31 - 4"
  then have "weekday_of_days n \<noteq> None" by (auto simp: weekday_of_days_def weekday_from_days_def chk_def)
  then obtain w where "weekday_of_days n = Some w" by blast
  then show ?thesis using weekday_from_days_int by blast
qed

lemma days_of_first: "1 \<le> d \<Longrightarrow> days_of y m 1 = days_of y m d - (d - 1)"
  by (simp add: days_of_mar)

lemma diff_of_weekdays: "((n + 4) mod 7 - (n - k + 4) mod 7) mod 7 = k mod 7" for n k :: int
  by (simp add: mod_diff_eq)

text \<open>The index of a weekday in its month.\<close>

lemma week_index:
  fixes e :: int
  assumes "1 \<le> e" "e \<le> 31"
  defines "i \<equiv> (day_unsigned (day_of (of_int e)) - 1) div 7 + 1"
  shows "uint (ucast i :: 8 word) = (e - 1) div 7 + 1" "uint (ucast (ucast i :: 8 word) :: 32 word) = (e - 1) div 7 + 1"
proof -
  have u: "uint (day_unsigned (day_of (of_int e))) = e" using assms(1,2) by (simp add: day_unsigned_int day_of_int)
  have "uint (day_unsigned (day_of (of_int e)) - 1) = (e - 1) mod 2 ^ 32" by (simp only: uint_word_ariths u) simp
  then have "uint (day_unsigned (day_of (of_int e)) - 1) = e - 1" using assms(1,2) by simp
  then have "uint ((day_unsigned (day_of (of_int e)) - 1) div 7) = (e - 1) div 7" by (simp add: uint_div)
  moreover have "0 \<le> (e - 1) div 7" "(e - 1) div 7 \<le> 4" using assms(1,2) by (auto simp: pos_imp_zdiv_nonneg_iff)
  ultimately have i: "uint i = (e - 1) div 7 + 1" "(e - 1) div 7 + 1 < 2 ^ LENGTH(8)" "0 \<le> (e - 1) div 7 + 1" unfolding i_def by (simp_all add: uint_word_ariths)
  then have "(ucast i :: 8 word) = of_int ((e - 1) div 7 + 1)" by (simp only: ucast_eq)
  then show a: "uint (ucast i :: 8 word) = (e - 1) div 7 + 1" using uint_of_int_small [OF i(3,2)] by (simp only:)
  show "uint (ucast (ucast i :: 8 word) :: 32 word) = (e - 1) div 7 + 1" by (subst uint_ucast_up) (simp_all add: a)
qed

lemma word_of_uint_int: "uint w = k \<Longrightarrow> w = of_int k" for w :: "32 word"
  by (metis word_of_int_uint)

lemma ymw_from_to_days:
  assumes "- 12687428 \<le> n" "n \<le> 11248737"
  shows "\<exists>w. ymw_from_days n = Some w \<and> ymw_ok w = Some True \<and> ymw_to_days w = Some n"
proof -
  obtain d where d: "ymd_from_days n = Some d" "ymd_ok d = Some True" "ymd_to_days d = n" using ymd_to_from_days [OF assms] by blast
  define y m e where "y = year_int (ymd_year d)" and "m = month_int (ymd_month d)" and "e = day_int (ymd_day d)"
  have ok: "year_ok (ymd_year d)" "date_ok y m e" using d(2) by (simp_all add: ymd_ok_iff y_def m_def e_def)
  then have r: "1 \<le> m" "m \<le> 12" "1 \<le> e" "e \<le> month_len y m" and e31: "e \<le> 31" by (auto simp: date_ok_def month_len_def split: if_splits)
  have n: "days_of y m e = n" using ymd_to_days_ok [OF d(2)] d(3) by (simp add: y_def m_def e_def)
  have dd: "ymd_day d = day_of (of_int e)" using ymd_fields [of d] e_def by (metis year_month_day.select_convs(3))
  obtain wd where wd: "weekday_of_days n = Some wd" "weekday_int wd = (n + 4) mod 7" using weekday_of_days_small [of n] assms by auto
  let ?first = "\<lparr>ymd_year = ymd_year d, ymd_month = ymd_month d, ymd_day = day_of 1\<rparr>"
  have "day_int (day_of 1) = 1" using day_of_int [of 1] by simp
  then have first: "ymd_to_days ?first = n - (e - 1)"
    using ymd_to_days_eq [of ?first] r days_of_first [OF r(3), of y m] n by (simp add: y_def m_def)
  obtain w0 where w0: "weekday_of_days (n - (e - 1)) = Some w0" "weekday_int w0 = (n - (e - 1) + 4) mod 7"
    using weekday_of_days_small [of "n - (e - 1)"] assms r(3) e31 by auto
  have diff: "weekday_diff wd w0 = (e - 1) mod 7" unfolding weekday_diff_int wd w0 by (rule diff_of_weekdays)
  let ?wi = "weekday_indexed_of wd ((day_unsigned (ymd_day d) - 1) div 7 + 1)"
  let ?w = "\<lparr>ymw_year = ymd_year d, ymw_month = ymd_month d, ymw_indexed = ?wi\<rparr>"
  define k where "k = (e - 1) div 7"
  have k: "0 \<le> k" "k \<le> 4" using r(3) e31 by (auto simp: k_def pos_imp_zdiv_nonneg_iff)
  note wk = week_index [OF r(3) e31, folded dd k_def]
  have idx: "wi_index ?wi = of_int (k + 1)" unfolding wi_index_def weekday_indexed_of_def using word_of_uint_int [OF wk(2)] by simp
  have off: "sint ((wi_index ?wi - 1) * 7) = k * 7" "sint ((wi_index ?wi - 1) * 7 + 1) = k * 7 + 1"
  proof -
    have o: "(wi_index ?wi - 1) * 7 = of_int (k * 7)" "(wi_index ?wi - 1) * 7 + 1 = of_int (k * 7 + 1)" by (simp_all add: idx)
    have s: "sint (of_int x :: 32 word) = x" if "0 \<le> x" "x < 2 ^ 31" for x using that by (simp add: signed_of_int signed_take_bit_int_eq_self)
    show "sint ((wi_index ?wi - 1) * 7) = k * 7" unfolding o(1) by (rule s) (use k in simp_all)
    show "sint ((wi_index ?wi - 1) * 7 + 1) = k * 7 + 1" unfolding o(2) by (rule s) (use k in simp_all)
  qed
  have e: "(e - 1) mod 7 + k * 7 = e - 1" by (simp add: k_def)
  have "ymw_to_days ?w = Some n" using first w0(1) diff off(1) e by (simp add: ymw_to_days_def weekday_indexed_of_def)
  moreover have "ymw_ok ?w = Some True"
  proof -
    have "weekday_ok wd" using pos_mod_bound [of 7 "n + 4"] by (simp add: weekday_ok_int wd(2))
    moreover have "uint (wi_idx ?wi) = k + 1" using wk(1) by (simp add: weekday_indexed_of_def)
    ultimately have wi: "weekday_indexed_ok ?wi" using k by (simp add: weekday_indexed_ok_def word_le_def) (simp add: weekday_indexed_of_def)
    have mok: "month_ok (ymd_month d)" using r by (simp add: month_ok_int m_def)
    obtain l where l: "ymd_last_day (ymd_year d) (ymd_month d) = Some l" "day_int l = month_len y m"
      using ymd_last_day_eq [OF mok, of "ymd_year d"] by (auto simp: y_def m_def)
    have le: "(of_int e :: 32 word) \<le> day_unsigned l" using r e31 by (simp add: word_le_def day_unsigned_int l(2) uint_of_int_small)
    have "(e - 1) mod 7 + (k * 7 + 1) = e" using e by linarith
    then have day: "weekday_diff wd w0 + sint ((wi_index ?wi - 1) * 7 + 1) = e" by (simp only: diff off(2))
    have wiw: "wi_weekday ?wi = wd" by (simp add: weekday_indexed_of_def)
    have "ymw_ok ?w = (if wi_index ?wi \<le> 4 then Some True
        else Some ((of_int (weekday_diff wd w0 + sint ((wi_index ?wi - 1) * 7 + 1)) :: 32 word) \<le> day_unsigned l))"
      unfolding ymw_ok_def Let_def by (simp add: wi mok ok(1) l(1) first w0(1) wiw)
    then show ?thesis unfolding day using le by simp
  qed
  moreover have "ymw_from_days n = Some ?w" using wd(1) d(1) by (simp add: ymw_from_days_def)
  ultimately show ?thesis by blast
qed

lemma weekday_inc_int:
  assumes "weekday_ok w"
  shows "weekday_int (weekday_inc w) = (weekday_int w + 1) mod 7"
proof (cases "weekday_val w = 6")
  case True
  then show ?thesis by (simp add: weekday_inc_def weekday_int_def)
next
  case False
  have "weekday_int w \<noteq> 6" using False weekday_int_inject [of w "Weekday 6"] by (cases w) (simp add: weekday_int_def)
  then have w: "0 \<le> weekday_int w" "weekday_int w < 6" using assms by (simp_all add: weekday_ok_int weekday_int_def)
  have "uint (weekday_val w + 1) = (weekday_int w + 1) mod 2 ^ 8" by (simp add: uint_word_ariths weekday_int_def)
  then show ?thesis using False w by (simp add: weekday_inc_def weekday_int_def)
qed

lemma ymd_days_range:
  assumes "ymd_ok d = Some True"
  shows "- 12687428 \<le> ymd_to_days d" "ymd_to_days d \<le> 11248737"
proof -
  have ok: "date_ok (year_int (ymd_year d)) (month_int (ymd_month d)) (day_int (ymd_day d))" and y: "year_int (ymd_year d) \<noteq> - 32768"
    using assms by (simp_all add: ymd_ok_iff year_ok_int)
  then have r: "1 \<le> month_int (ymd_month d)" "month_int (ymd_month d) \<le> 12" "1 \<le> day_int (ymd_day d)" "day_int (ymd_day d) \<le> 31"
    by (auto simp: date_ok_def month_len_def split: if_splits)
  have lo: "date_ok (- 32767) 1 1" and hi: "date_ok 32767 12 31" by (simp_all add: date_ok_def month_len_def)
  have v: "days_of (- 32767) 1 1 = - 12687428" "days_of 32767 12 31 = 11248737" by (simp_all add: days_of_def doe_of_def mp_start_def)
  have "\<not> days_of (year_int (ymd_year d)) (month_int (ymd_month d)) (day_int (ymd_day d)) < days_of (- 32767) 1 1"
    unfolding days_of_less_iff [OF ok lo] using year_int_range(1) [of "ymd_year d"] y r by auto
  moreover have "\<not> days_of 32767 12 31 < days_of (year_int (ymd_year d)) (month_int (ymd_month d)) (day_int (ymd_day d))"
    unfolding days_of_less_iff [OF hi ok] using year_int_range(2) [of "ymd_year d"] r by auto
  ultimately show "- 12687428 \<le> ymd_to_days d" "ymd_to_days d \<le> 11248737" by (simp_all add: ymd_to_days_ok [OF assms] v)
qed

section \<open>Properties\<close>

text \<open>
  C12: dates and counts of days.  Every valid date is the date of its count, and every count of days from -32767-01-01 to
  32767-12-31 is the count of the valid date it converts to: the conversions are inverse to each other on
  their whole range.
\<close>

theorem civil_roundtrip:
  "(ymd_ok d = Some True \<longrightarrow> ymd_from_days (ymd_to_days d) = Some d) \<and>
    (- 12687428 \<le> n \<and> n \<le> 11248737 \<longrightarrow> (\<exists>d. ymd_from_days n = Some d \<and> ymd_ok d = Some True \<and> ymd_to_days d = n))"
  using ymd_from_to_days [of d] ymd_to_from_days [of n] by metis

theorem civil_roundtrip_witness:
  "ymd_from_days (ymd_to_days \<lparr>ymd_year = year_of 2024, ymd_month = Month 2, ymd_day = Day 29\<rparr>) =
      Some \<lparr>ymd_year = year_of 2024, ymd_month = Month 2, ymd_day = Day 29\<rparr> \<and>
    (\<exists>d. ymd_from_days (- 1) = Some d \<and> ymd_ok d = Some True \<and> ymd_to_days d = - 1)"
proof -
  have "ymd_ok \<lparr>ymd_year = year_of 2024, ymd_month = Month 2, ymd_day = Day 29\<rparr> = Some True"
    by (simp add: ymd_ok_iff year_ok_int year_int_of date_ok_def month_int_def day_int_def month_len_def leap_def)
  then show ?thesis using civil_roundtrip [of "\<lparr>ymd_year = year_of 2024, ymd_month = Month 2, ymd_day = Day 29\<rparr>" "- 1"] by simp
qed

text \<open>
  C13: the count is the one of the calendar.  1970-01-01 is day 0, the date that follows a valid date has the next
  count and the next weekday, through the ends of months, leap days and centuries, and the comparison of dates
  is the comparison of their counts.
\<close>

theorem civil_calendar:
  assumes "ymd_ok d = Some True" "ymd_ok d' = Some True"
  shows "ymd_to_days \<lparr>ymd_year = year_of 1970, ymd_month = Month 1, ymd_day = Day 1\<rparr> = 0 \<and>
    (ymd_less d d' \<longleftrightarrow> ymd_to_days d < ymd_to_days d') \<and>
    (next_date (year_int (ymd_year d)) (month_int (ymd_month d)) (day_int (ymd_day d)) =
        (year_int (ymd_year d'), month_int (ymd_month d'), day_int (ymd_day d')) \<longrightarrow>
      ymd_to_days d' = ymd_to_days d + 1 \<and>
      (\<exists>w. weekday_of_days (ymd_to_days d) = Some w \<and> weekday_of_days (ymd_to_days d') = Some (weekday_inc w)))"
proof (intro conjI impI)
  let ?o = "\<lparr>ymd_year = year_of 1970, ymd_month = Month 1, ymd_day = Day 1\<rparr>"
  have "ymd_to_days ?o = days_of 1970 1 1" using ymd_to_days_eq [of ?o] by (simp add: month_int_def day_int_def year_int_of)
  then show "ymd_to_days ?o = 0" by (simp add: days_of_def doe_of_def mp_start_def)
  have ok: "date_ok (year_int (ymd_year d)) (month_int (ymd_month d)) (day_int (ymd_day d))"
    "date_ok (year_int (ymd_year d')) (month_int (ymd_month d')) (day_int (ymd_day d'))" using assms by (simp_all add: ymd_ok_iff)
  show "ymd_less d d' \<longleftrightarrow> ymd_to_days d < ymd_to_days d'"
    unfolding ymd_to_days_ok [OF assms(1)] ymd_to_days_ok [OF assms(2)] days_of_less_iff [OF ok]
    by (auto simp: ymd_less_def year_less_int month_less_int day_le_int)
  assume nx: "next_date (year_int (ymd_year d)) (month_int (ymd_month d)) (day_int (ymd_day d)) =
    (year_int (ymd_year d'), month_int (ymd_month d'), day_int (ymd_day d'))"
  show suc: "ymd_to_days d' = ymd_to_days d + 1"
    unfolding ymd_to_days_ok [OF assms(1)] ymd_to_days_ok [OF assms(2)] by (rule days_of_next [OF ok(1) nx])
  obtain w where w: "weekday_of_days (ymd_to_days d) = Some w" "weekday_int w = (ymd_to_days d + 4) mod 7"
    using weekday_of_days_small [of "ymd_to_days d"] ymd_days_range [OF assms(1)] by auto
  obtain w' where w': "weekday_of_days (ymd_to_days d + 1) = Some w'" "weekday_int w' = (ymd_to_days d + 1 + 4) mod 7"
    using weekday_of_days_small [of "ymd_to_days d + 1"] ymd_days_range [OF assms(1)] by auto
  have "weekday_ok w" using pos_mod_bound [of 7 "ymd_to_days d + 4"] by (simp add: weekday_ok_int w(2))
  have "weekday_int (weekday_inc w) = (ymd_to_days d + 4 + 1) mod 7" unfolding weekday_inc_int [OF \<open>weekday_ok w\<close>] w(2) by (rule mod_add_left_eq)
  then have "weekday_int w' = weekday_int (weekday_inc w)" unfolding w'(2) by (simp add: add.assoc)
  then show "\<exists>w. weekday_of_days (ymd_to_days d) = Some w \<and> weekday_of_days (ymd_to_days d') = Some (weekday_inc w)"
    using w(1) w'(1) suc by (auto simp: weekday_int_inject)
qed

theorem civil_calendar_witness:
  "ymd_to_days \<lparr>ymd_year = year_of 1900, ymd_month = Month 3, ymd_day = Day 1\<rparr> =
    ymd_to_days \<lparr>ymd_year = year_of 1900, ymd_month = Month 2, ymd_day = Day 28\<rparr> + 1"
proof -
  let ?d = "\<lparr>ymd_year = year_of 1900, ymd_month = Month 2, ymd_day = Day 28\<rparr>" and ?d' = "\<lparr>ymd_year = year_of 1900, ymd_month = Month 3, ymd_day = Day 1\<rparr>"
  have "ymd_ok ?d = Some True" "ymd_ok ?d' = Some True"
    by (simp_all add: ymd_ok_iff year_ok_int year_int_of date_ok_def month_int_def day_int_def month_len_def leap_def)
  from civil_calendar [OF this] show ?thesis
    by (simp add: next_date_def year_int_of month_int_def day_int_def month_len_def leap_def)
qed

text \<open>
  Dates by weekday.  A count of days converts to a valid weekday of a month (such as the second Tuesday) whose
  count is the given one, for every count in the range of the dates.
\<close>

theorem weekday_date_roundtrip:
  assumes "- 12687428 \<le> n" "n \<le> 11248737"
  shows "\<exists>w. ymw_from_days n = Some w \<and> ymw_ok w = Some True \<and> ymw_to_days w = Some n"
  using assms by (rule ymw_from_to_days)

theorem weekday_date_roundtrip_witness:
  "\<exists>w. ymw_from_days 19782 = Some w \<and> ymw_ok w = Some True \<and> ymw_to_days w = Some 19782"
  by (rule weekday_date_roundtrip) simp_all

end
