(* ===== verification/Pop_Count.thy ===== *)
theory Pop_Count
  imports Bit_Ops
begin

text \<open>
  The number of set bits (\<^verbatim>\<open>cuda/std/__bit/popcount.h\<close>, \<^verbatim>\<open>has_single_bit.h\<close>) by the portable summation inside a
  word, and the test for powers of two of \<^verbatim>\<open>cuda/__cmath/pow2.h\<close>.
\<close>

unbundle bit_operations_syntax

section \<open>Definitions\<close>

definition popcount_impl_32 :: "32 word \<Rightarrow> nat" where
  "popcount_impl_32 v =
     (let v = v - (drop_bit 1 v AND 0x55555555);
          v = (v AND 0x33333333) + (drop_bit 2 v AND 0x33333333)
      in unat (drop_bit 24 (((v + drop_bit 4 v) AND 0xF0F0F0F) * 0x1010101)))"

definition popcount_impl_64 :: "64 word \<Rightarrow> nat" where
  "popcount_impl_64 v = popcount_impl_32 (ucast v) + popcount_impl_32 (ucast (drop_bit 32 v))"

text \<open>The loop over parts of 64 bits of a wider type.\<close>

fun popcount_chunks :: "nat \<Rightarrow> 'a::len word \<Rightarrow> nat" where
  "popcount_chunks 0 v = 0"
| "popcount_chunks (Suc n) v = popcount_impl_64 (ucast v) + popcount_chunks n (drop_bit 64 v)"

definition popcount :: "'a::len word \<Rightarrow> nat" where
  "popcount v =
     (if LENGTH('a) \<le> 64
      then if LENGTH('a) \<le> 32 then popcount_impl_32 (ucast v) else popcount_impl_64 (ucast v)
      else popcount_chunks (LENGTH('a) div 64) v)"

definition has_single_bit :: "'a::len word \<Rightarrow> bool" where
  "has_single_bit t \<longleftrightarrow> popcount t = 1"

text \<open>\<open>is_signed\<close> tells whether the type is signed; a negative argument fails an assertion.\<close>

definition is_power_of_two :: "bool \<Rightarrow> 'a::len word \<Rightarrow> bool option" where
  "is_power_of_two is_signed t = (if is_signed \<and> sint t < 0 then None else Some (has_single_bit t))"

section \<open>Sums of fields inside a number\<close>

text \<open>A number as a list of digits to base 16, the lowest first.\<close>

fun val16 :: "nat list \<Rightarrow> nat" where
  "val16 [] = 0"
| "val16 (d # ds) = d + 16 * val16 ds"

fun digits16 :: "nat \<Rightarrow> nat \<Rightarrow> nat list" where
  "digits16 0 v = []"
| "digits16 (Suc k) v = v mod 16 # digits16 k (v div 16)"

lemma val16_digits16: "v < 16 ^ k \<Longrightarrow> val16 (digits16 k v) = v"
  by (induction k v rule: digits16.induct) (auto simp: less_mult_imp_div_less mult.commute)

lemma digits16_less: "d \<in> set (digits16 k v) \<Longrightarrow> d < 16"
  by (induction k v rule: digits16.induct) auto

lemma length_digits16 [simp]: "length (digits16 k v) = k"
  by (induction k v rule: digits16.induct) auto

lemma nat_split_16: "b < 16 \<Longrightarrow> (b + 16 * w) mod 16 = b" "b < 16 \<Longrightarrow> (b + 16 * w) div 16 = w" for b w :: nat
  by simp_all

lemma and_split_16: "b < 16 \<Longrightarrow> m < 16 \<Longrightarrow> (b + 16 * w) AND (m + 16 * M) = (b AND m) + 16 * (w AND M)" for b m w M :: nat
proof -
  assume "b < 16" "m < 16"
  let ?x = "b + 16 * w" and ?y = "m + 16 * M"
  have "take_bit 4 (?x AND ?y) = b AND m" "drop_bit 4 (?x AND ?y) = w AND M"
    using nat_split_16 [OF \<open>b < 16\<close>, of w] nat_split_16 [OF \<open>m < 16\<close>, of M]
    unfolding take_bit_and drop_bit_and by (simp_all add: take_bit_eq_mod drop_bit_eq_div)
  then show ?thesis using bits_ident [of 4 "?x AND ?y"] by (simp add: push_bit_eq_mult)
qed

lemma and_mod: "m < 2 ^ k \<Longrightarrow> x AND m = (x mod 2 ^ k) AND m" for x m :: nat
proof -
  assume "m < 2 ^ k"
  then have m: "take_bit k m = m" by (rule take_bit_nat_eq_self)
  have "x AND m = x AND take_bit k m" by (simp add: m)
  also have "\<dots> = take_bit k x AND take_bit k m" by (rule bit_eqI) (auto simp: bit_simps)
  finally show ?thesis unfolding m by (simp only: take_bit_eq_mod)
qed

text \<open>The first two steps of the summation, on numbers.\<close>

definition sum2 :: "nat \<Rightarrow> nat \<Rightarrow> nat" where
  "sum2 M v = v - (v div 2 AND M)"

definition sum4 :: "nat \<Rightarrow> nat \<Rightarrow> nat" where
  "sum4 M v = (v AND M) + (v div 4 AND M)"

lemma and_nat_le: "x AND m \<le> x" for x m :: nat
  by (metis AND_upper1 and_int_def nat_int nat_le_iff of_nat_and_eq of_nat_0_le_iff)

lemma three_not_power: "(3 :: nat) \<noteq> 2 ^ k"
proof
  assume e: "(3 :: nat) = 2 ^ k"
  show False
  proof (cases k)
    case (Suc n)
    then have "even (3 :: nat)" unfolding e by simp
    then show False by simp
  qed (use e in simp)
qed

lemma regroup_16: "x = 8 * (2 * q + r) + c \<Longrightarrow> x = (c + 8 * r) + 16 * q" for x :: nat
  by simp

lemma sum2_split: "b < 16 \<Longrightarrow> sum2 (5 + 16 * M) (b + 16 * w) = sum2 5 b + 16 * sum2 M w"
proof -
  assume b: "b < 16"
  have "(b + 2 * (8 * w)) div 2 = 8 * w + b div 2" by (rule div_mult_self2) simp
  then have "(b + 16 * w) div 2 = 8 * (2 * (w div 2) + w mod 2) + b div 2" by (simp only: mult_div_mod_eq)
  then have "(b + 16 * w) div 2 = (b div 2 + 8 * (w mod 2)) + 16 * (w div 2)" by (rule regroup_16)
  moreover have "b div 2 + 8 * (w mod 2) < 16"
  proof -
    have "b div 2 < 8" "w mod 2 < 2" using b by auto
    then show ?thesis by linarith
  qed
  moreover have "(b div 2 + 8 * (w mod 2)) AND 5 = b div 2 AND 5"
    using and_mod [of 5 3 "b div 2 + 8 * (w mod 2)"] b by simp
  ultimately have "(b + 16 * w) div 2 AND (5 + 16 * M) = (b div 2 AND 5) + 16 * (w div 2 AND M)" by (simp add: and_split_16)
  moreover have "b div 2 AND 5 \<le> b" "w div 2 AND M \<le> w" using and_nat_le [of "b div 2" 5] and_nat_le [of "w div 2" M] by linarith+
  ultimately show ?thesis unfolding sum2_def by linarith
qed

lemma sum4_split: "b < 16 \<Longrightarrow> sum4 (3 + 16 * M) (b + 16 * w) = sum4 3 b + 16 * sum4 M w"
proof -
  assume b: "b < 16"
  have "(b + 16 * w) div 4 = b div 4 + 4 * w" using div_mult_self2 [of 4 b "4 * w"] by simp
  then have "(b + 16 * w) div 4 = (b div 4 + 4 * (w mod 4)) + 16 * (w div 4)" using div_mult_mod_eq [of w 4] by linarith
  moreover have "b div 4 + 4 * (w mod 4) < 16" using b less_mult_imp_div_less [of b 4 4] mod_less_divisor [of 4 w] by simp
  moreover have "(b div 4 + 4 * (w mod 4)) AND 3 = b div 4 AND 3"
    using and_mod [of 3 2 "b div 4 + 4 * (w mod 4)"] b by simp
  ultimately have "(b + 16 * w) div 4 AND (3 + 16 * M) = (b div 4 AND 3) + 16 * (w div 4 AND M)" by (simp add: and_split_16)
  then show ?thesis using b by (simp add: sum4_def and_split_16)
qed

lemma sum2_less: "b < 16 \<Longrightarrow> sum2 5 b < 16"
  by (simp add: sum2_def)

lemma sum_digits:
  "\<forall>d \<in> set ds. d < 16 \<Longrightarrow> length ds = k \<Longrightarrow>
    sum4 (val16 (replicate k 3)) (sum2 (val16 (replicate k 5)) (val16 ds)) = val16 (map (\<lambda>d. sum4 3 (sum2 5 d)) ds)"
proof (induction ds arbitrary: k)
  case Nil
  then show ?case by (simp add: sum2_def sum4_def)
next
  case (Cons d ds)
  then obtain j where "k = Suc j" by (cases k) auto
  with Cons show ?case by (simp add: sum2_split sum4_split sum2_less)
qed

text \<open>The number of set bits of a number, recursively.\<close>

fun ones :: "nat \<Rightarrow> nat" where
  "ones v = (if v = 0 then 0 else v mod 2 + ones (v div 2))"

declare ones.simps [simp del]

lemma ones_digit: "d < 16 \<Longrightarrow> sum4 3 (sum2 5 d) = ones d \<and> ones d \<le> 4"
proof -
  assume "d < 16"
  then have "d \<in> {0, 1, 2, 3, 4, 5, 6, 7, 8, 9, 10, 11, 12, 13, 14, 15}" by (auto simp: numeral_eq_Suc less_Suc_eq)
  then show ?thesis by (elim insertE emptyE; simp add: sum2_def sum4_def ones.simps)
qed

lemma ones_half: "ones v = v mod 2 + ones (v div 2)"
  by (subst ones.simps) (simp add: ones.simps)

lemma ones_step: "b < 2 \<Longrightarrow> ones (2 * w + b) = b + ones w"
  by (subst ones_half) simp

lemma ones_split: "ones v = ones (v mod 2 ^ k) + ones (v div 2 ^ k)"
proof (induction k arbitrary: v)
  case 0
  then show ?case by (simp add: ones.simps [of 0])
next
  case (Suc k)
  have "ones v = v mod 2 + (ones (v div 2 mod 2 ^ k) + ones (v div 2 div 2 ^ k))" using ones_half [of v] Suc [of "v div 2"] by simp
  then show ?case using ones_step [of "v mod 2" "v div 2 mod 2 ^ k"] by (simp add: mod_mult2_eq div_mult2_eq)
qed

lemma ones_digits16: "v < 16 ^ k \<Longrightarrow> sum_list (map ones (digits16 k v)) = ones v"
proof (induction k v rule: digits16.induct)
  case (2 k v)
  then show ?case using ones_split [of v 4] by (simp add: less_mult_imp_div_less mult.commute)
qed (simp add: ones.simps)

lemma finite_bits: "finite {n. bit v n}" for v :: nat
proof (rule finite_subset)
  show "{n. bit v n} \<subseteq> {..<v}"
  proof
    fix n assume "n \<in> {n. bit v n}"
    then have "odd (v div 2 ^ n)" by (simp add: bit_iff_odd)
    then have "v div 2 ^ n \<noteq> 0" by (metis even_zero)
    then have "2 ^ n \<le> v" by (simp add: div_eq_0_iff not_less)
    then show "n \<in> {..<v}" using order.strict_trans2 [OF less_exp] by simp
  qed
qed simp

lemma ones_card: "ones v = card {n. bit v n}" for v :: nat
proof (induction v rule: ones.induct)
  case (1 v)
  show ?case
  proof (cases "v = 0")
    case False
    have "{n. bit v n} = (if odd v then insert 0 else id) (Suc ` {n. bit (v div 2) n})"
      by (auto simp: image_iff bit_0 simp flip: bit_Suc) (metis bit_0 bit_Suc not0_implies_Suc)+
    moreover have "finite {n. bit (v div 2) n}" by (rule finite_bits)
    ultimately have "card {n. bit v n} = of_bool (odd v) + card {n. bit (v div 2) n}" by (simp add: card_insert_if card_image)
    then show ?thesis using 1 False by (subst ones.simps) (simp add: mod_2_eq_odd)
  qed (simp add: ones.simps)
qed

section \<open>The word-level functions\<close>

lemma unat_and_le: "unat (x AND m) \<le> unat m" for x m :: "'a::len word"
  using and_nat_le [of "unat m" "unat x"] by (simp add: unsigned_and_eq and.commute)

lemma replicate_8: "replicate 8 x = [x, x, x, x, x, x, x, x]"
  by (simp add: numeral_eq_Suc)

lemma nibble_masks: "val16 (replicate 8 5) = 0x55555555" "val16 (replicate 8 3) = 0x33333333" "val16 [15, 0, 15, 0, 15, 0, 15, 0] = 0xF0F0F0F"
  unfolding replicate_8 by simp_all

lemma fold_bytes:
  assumes "\<forall>d \<in> set ds. d \<le> 4" "length ds = 8" "x = val16 ds"
  shows "((x + x div 16) AND 0xF0F0F0F) * 0x1010101 mod 2 ^ 32 div 2 ^ 24 = sum_list ds"
proof -
  obtain p0 p1 p2 p3 p4 p5 p6 p7 where ds: "ds = [p0, p1, p2, p3, p4, p5, p6, p7]"
    using assms(2) by (auto simp: numeral_eq_Suc length_Suc_conv)
  then have p: "p0 \<le> 4" "p1 \<le> 4" "p2 \<le> 4" "p3 \<le> 4" "p4 \<le> 4" "p5 \<le> 4" "p6 \<le> 4" "p7 \<le> 4" using assms(1) by simp_all
  have x: "x = p0 + 16 * val16 [p1, p2, p3, p4, p5, p6, p7]" by (simp add: assms(3) ds)
  have "x div 16 = val16 [p1, p2, p3, p4, p5, p6, p7]" unfolding x using p by (intro nat_split_16) simp
  then have "x + x div 16 = val16 [p0 + p1, p1 + p2, p2 + p3, p3 + p4, p4 + p5, p5 + p6, p6 + p7, p7]" using x by simp
  also have "\<dots> AND 0xF0F0F0F = val16 [p0 + p1, 0, p2 + p3, 0, p4 + p5, 0, p6 + p7, 0]"
  proof -
    have m: "q AND 15 = q" if "q < 16" for q :: nat using that take_bit_nat_eq_self [of q 4] by (simp add: take_bit_eq_mask mask_eq_exp_minus_1)
    have step: "val16 (q # qs) AND val16 (n # ns) = (q AND n) + 16 * (val16 qs AND val16 ns)" if "q < 16" "n < 16" for q qs n ns
      using that by (simp add: and_split_16)
    have "p0 + p1 < 16" "p1 + p2 < 16" "p2 + p3 < 16" "p3 + p4 < 16" "p4 + p5 < 16" "p5 + p6 < 16" "p6 + p7 < 16" "p7 < 16" using p by auto
    then show ?thesis unfolding nibble_masks(3) [symmetric] by (simp add: step m del: val16.simps) simp
  qed
  finally have "(x + x div 16) AND 0xF0F0F0F = (p0 + p1) + 2 ^ 8 * (p2 + p3) + 2 ^ 16 * (p4 + p5) + 2 ^ 24 * (p6 + p7)" by simp
  then have "((x + x div 16) AND 0xF0F0F0F) * 0x1010101 =
      ((p0 + p1) + 2 ^ 8 * (p0 + p1 + p2 + p3) + 2 ^ 16 * (p0 + p1 + p2 + p3 + p4 + p5)) + 2 ^ 24 * sum_list ds
      + 2 ^ 32 * ((p2 + p3 + p4 + p5 + p6 + p7) + 2 ^ 8 * (p4 + p5 + p6 + p7) + 2 ^ 16 * (p6 + p7))" (is "_ = ?l + _ + _ * ?h")
    by (simp add: ds)
  then have "((x + x div 16) AND 0xF0F0F0F) * 0x1010101 mod 2 ^ 32 = (?l + 2 ^ 24 * sum_list ds) mod 2 ^ 32" by (simp only: mod_mult_self2)
  also have "\<dots> = ?l + 2 ^ 24 * sum_list ds" using p by (intro mod_less) (simp add: ds)
  finally show ?thesis using p by (simp add: ds)
qed

lemma unat_drop: "unat (drop_bit k x) = unat x div 2 ^ k" for x :: "'a::len word"
  unfolding unsigned_drop_bit_eq take_bit_nat_eq_self [OF unsigned_less] by (rule drop_bit_eq_div)

lemma val16_le: "\<forall>d \<in> set ds. d \<le> 4 \<Longrightarrow> 15 * val16 ds + 4 \<le> 4 * 16 ^ length ds"
  by (induction ds) auto

lemma popcount_impl_32_eq: "popcount_impl_32 v = ones (unat v)"
proof -
  define ds where "ds = digits16 8 (unat v)"
  have lt: "unat v < 2 ^ LENGTH(32)" by (rule unsigned_less)
  have ds: "\<forall>d \<in> set ds. d < 16" "length ds = 8" "val16 ds = unat v" "sum_list (map ones ds) = ones (unat v)"
    using lt val16_digits16 [of "unat v" 8] ones_digits16 [of "unat v" 8] by (auto simp: ds_def dest: digits16_less)
  define a where "a = v - (drop_bit 1 v AND 0x55555555)"
  have "unat (drop_bit 1 v AND 0x55555555) = unat v div 2 AND 0x55555555" by (simp only: unsigned_and_eq unat_drop) simp
  moreover have "unat v div 2 AND 0x55555555 \<le> unat v" by (rule order.trans [OF and_nat_le div_le_dividend])
  ultimately have a: "unat a = sum2 0x55555555 (unat v)" unfolding a_def sum2_def by (subst unat_sub) (simp_all add: word_le_nat_alt)
  define b where "b = (a AND 0x33333333) + (drop_bit 2 a AND 0x33333333)"
  have "unat (a AND 0x33333333) + unat (drop_bit 2 a AND 0x33333333) < 2 ^ LENGTH(32)"
    using unat_and_le [of a "0x33333333"] unat_and_le [of "drop_bit 2 a" "0x33333333"] by simp
  then have "unat b = unat (a AND 0x33333333) + unat (drop_bit 2 a AND 0x33333333)" unfolding b_def by (simp add: unat_word_ariths)
  then have "unat b = sum4 0x33333333 (unat a)" by (simp add: sum4_def unsigned_and_eq unat_drop)
  also have "\<dots> = val16 (map (\<lambda>d. sum4 3 (sum2 5 d)) ds)" unfolding a using sum_digits [OF ds(1,2)] by (simp only: nibble_masks ds(3))
  also have "map (\<lambda>d. sum4 3 (sum2 5 d)) ds = map ones ds" using ds(1) ones_digit by simp
  finally have b: "unat b = val16 (map ones ds)" .
  have four: "\<forall>d \<in> set (map ones ds). d \<le> 4" using ds(1) ones_digit by auto
  have "unat b \<le> 2 ^ 31"
    unfolding b using val16_le [OF four] ds(2) by simp
  then have "unat (b + drop_bit 4 b) = unat b + unat b div 16"
    by (simp add: unat_word_ariths unat_drop)
  then have "unat (drop_bit 24 (((b + drop_bit 4 b) AND 0xF0F0F0F) * 0x1010101)) = ((unat b + unat b div 16) AND 0xF0F0F0F) * 0x1010101 mod 2 ^ 32 div 2 ^ 24"
    by (simp add: unat_word_ariths unsigned_and_eq unat_drop)
  also have "\<dots> = ones (unat v)" using fold_bytes [OF four _ b] ds(2,4) by simp
  finally show ?thesis by (simp add: popcount_impl_32_def a_def b_def Let_def)
qed

lemma unat_ucast_mod: "unat (ucast v :: 'b::len word) = unat v mod 2 ^ LENGTH('b)" for v :: "'a::len word"
  unfolding unsigned_ucast_eq by (rule take_bit_eq_mod)

lemma popcount_impl_64_eq: "popcount_impl_64 v = ones (unat v)"
proof -
  have "unat v div 2 ^ 32 < 2 ^ 32" using unsigned_less [of v, where 'a = nat] by (intro less_mult_imp_div_less) simp
  then show ?thesis
    using ones_split [of "unat v" 32] by (simp add: popcount_impl_64_def popcount_impl_32_eq unat_ucast_mod unat_drop del: drop_bit_eq_div)
qed

lemma popcount_chunks_eq: "unat v < 2 ^ (64 * n) \<Longrightarrow> popcount_chunks n v = ones (unat v)"
proof (induction n v rule: popcount_chunks.induct)
  case (2 n v)
  have "unat (drop_bit 64 v) = unat v div 2 ^ 64" by (rule unat_drop)
  moreover have "unat v div 2 ^ 64 < 2 ^ (64 * n)" using 2(2) by (intro less_mult_imp_div_less) (simp add: power_add)
  ultimately show ?case using 2(1) ones_split [of "unat v" 64] by (simp add: popcount_impl_64_eq unat_ucast_mod)
qed (simp add: ones.simps)

lemma popcount_ones:
  fixes v :: "'a::len word"
  assumes "wide_ok LENGTH('a)"
  shows "popcount v = ones (unat v)"
proof -
  have lt: "unat v < 2 ^ LENGTH('a)" by (rule unsigned_less)
  then have m: "unat v mod 2 ^ n = unat v" if "LENGTH('a) \<le> n" for n
    using that power_increasing [OF that, of "2 :: nat"] by (intro mod_less) linarith
  have "LENGTH('a) \<le> 32 \<Longrightarrow> unat (ucast v :: 32 word) = unat v" "LENGTH('a) \<le> 64 \<Longrightarrow> unat (ucast v :: 64 word) = unat v"
    using m [of 32] m [of 64] by (simp_all add: unat_ucast_mod)
  moreover have "unat v < 2 ^ (64 * (LENGTH('a) div 64))" if "64 < LENGTH('a)"
    using lt assms that by (simp add: wide_ok_def)
  ultimately show ?thesis by (auto simp: popcount_def popcount_impl_32_eq popcount_impl_64_eq popcount_chunks_eq)
qed

lemma ones_1_iff: "ones v = 1 \<longleftrightarrow> (\<exists>n. v = 2 ^ n)"
proof
  assume "ones v = 1"
  then obtain n where "{n. bit v n} = {n}" unfolding ones_card by (auto simp: card_1_singleton_iff)
  then have "v = 2 ^ n" by (intro bit_eqI) (auto simp: bit_exp_iff)
  then show "\<exists>n. v = 2 ^ n" ..
next
  assume "\<exists>n. v = 2 ^ n"
  then obtain n where "v = 2 ^ n" ..
  then have "{n. bit v n} = {n}" by (auto simp: bit_exp_iff)
  then show "ones v = 1" by (simp add: ones_card)
qed

lemma has_single_bit_iff:
  fixes t :: "'a::len word"
  assumes "wide_ok LENGTH('a)"
  shows "has_single_bit t \<longleftrightarrow> (\<exists>n. unat t = 2 ^ n)"
  unfolding has_single_bit_def popcount_ones [OF assms] by (rule ones_1_iff)

section \<open>Properties\<close>

text \<open>
  The number of set bits.  The summation inside the word, over parts of 32 and 64 bits, counts the set bits of a
  value of every width, and the test for powers of two succeeds exactly on them.
\<close>

theorem popcount_correct:
  fixes v :: "'a::len word"
  assumes "wide_ok LENGTH('a)"
  shows "popcount v = card {n. bit v n} \<and> (0 \<le> sint v \<or> \<not> is_signed \<longrightarrow> is_power_of_two is_signed v = Some (\<exists>n. unat v = 2 ^ n))"
proof -
  have "bit (unat v) n = bit v n" for n using bit_imp_le_length [of v n] by (auto simp: bit_unsigned_iff)
  then show ?thesis by (auto simp: popcount_ones [OF assms] ones_card is_power_of_two_def has_single_bit_iff [OF assms])
qed

theorem popcount_correct_witness:
  "popcount (0xF0F0A5 :: 128 word) = card {n. bit (0xF0F0A5 :: 128 word) n} \<and> is_power_of_two True (64 :: 8 word) = Some True"
proof
  show "popcount (0xF0F0A5 :: 128 word) = card {n. bit (0xF0F0A5 :: 128 word) n}"
    using popcount_correct [of "0xF0F0A5 :: 128 word" False] by (simp add: wide_ok_def)
  have "\<exists>n. (64 :: nat) = 2 ^ n" by (rule exI [of _ 6]) simp
  then show "is_power_of_two True (64 :: 8 word) = Some True"
    using popcount_correct [of "64 :: 8 word" True] by (simp add: wide_ok_def)
qed

end
