(* ===== verification/Fast_Division.thy ===== *)
theory Fast_Division
  imports Overflow_Ops Pop_Count
begin

text \<open>
  Division by a precomputed multiplier (\<^verbatim>\<open>cuda/__cmath/fast_modulo_division.h\<close>) and the upper half of a product it
  uses (\<^verbatim>\<open>mul_hi.h\<close>).  The types of divisor, dividend and result are words \<open>'t\<close>, \<open>'l\<close> and \<open>'c\<close>; flags tell which of them
  are signed.  A failing assertion is \<open>None\<close>.
\<close>

unbundle bit_operations_syntax

section \<open>Definitions\<close>

subsection \<open>mul\_hi.h, ilog.h\<close>

text \<open>The type of twice the width holds every product.\<close>

definition mul_hi_unsigned :: "bool \<Rightarrow> 'a::len word \<Rightarrow> 'a word \<Rightarrow> 'a word" where
  "mul_hi_unsigned has_int128 lhs rhs =
     (if LENGTH('a) < 64 \<or> LENGTH('a) = 64 \<and> has_int128
      then of_nat (take_bit (2 * LENGTH('a)) (unat lhs * unat rhs) div 2 ^ LENGTH('a))
      else mul_hi_fallback lhs rhs)"

definition mul_hi_signed :: "bool \<Rightarrow> 'a::len word \<Rightarrow> 'a word \<Rightarrow> 'a word" where
  "mul_hi_signed has_int128 lhs rhs =
     (if LENGTH('a) < 64 \<or> LENGTH('a) = 64 \<and> has_int128
      then of_int (signed_take_bit (2 * LENGTH('a) - 1) (sint lhs * sint rhs) div 2 ^ LENGTH('a))
      else let hi = mul_hi_fallback lhs rhs;
               hi = (if sint lhs < 0 then hi - rhs else hi)
           in if sint rhs < 0 then hi - lhs else hi)"

definition ceil_ilog2 :: "'a::len word \<Rightarrow> nat option" where
  "ceil_ilog2 t = do { l \<leftarrow> ilog2 t; Some (l + of_bool (\<not> has_single_bit t)) }"

subsection \<open>fast\_modulo\_division.h\<close>

record 'w fast_mod_div =
  fm_divisor :: 'w
  fm_multiplier :: 'w
  fm_add :: "32 word"
  fm_shift :: int

text \<open>One turn of the loop per bit of \<open>2 ^ pow\<close>, from the highest; the counter is the number of the bit plus one.\<close>

fun divmod_pow2_loop :: "'t::len word \<Rightarrow> nat \<Rightarrow> nat \<Rightarrow> 't word \<Rightarrow> 't word \<Rightarrow> 't word \<times> 't word" where
  "divmod_pow2_loop divisor pow 0 quot rem = (quot, rem)"
| "divmod_pow2_loop divisor pow (Suc bit') quot rem =
     (let carry_flag = drop_bit (LENGTH('t) - 1) rem \<noteq> 0;
          rem = push_bit 1 rem;
          rem = rem OR of_bool (bit' = pow);
          quotient_bit = (carry_flag \<or> divisor \<le> rem);
          quot = push_bit 1 quot;
          quot = quot OR of_bool quotient_bit;
          rem = (if quotient_bit then rem - divisor else rem)
      in divmod_pow2_loop divisor pow bit' quot rem)"

definition divmod_pow2 :: "int \<Rightarrow> 't::len word \<Rightarrow> ('t word \<times> 't word) option" where
  "divmod_pow2 pow divisor =
     (if pow < 0 \<or> 2 * int LENGTH('t) \<le> pow \<or> divisor = 0 then None
      else Some (divmod_pow2_loop divisor (nat pow) (Suc (nat pow)) 0 0))"

definition fast_mod_div_of :: "bool \<Rightarrow> bool \<Rightarrow> 't::len word \<Rightarrow> 't word fast_mod_div option" where
  "fast_mod_div_of t_signed never_one divisor =
     (if \<not> (if t_signed then 0 < sint divisor else 0 < divisor) then None
      else if never_one \<and> divisor = 1 then None
      else if t_signed then do {
        l \<leftarrow> ceil_ilog2 divisor;
        let shift = int l - 1;
        (pq, pr) \<leftarrow> divmod_pow2 (int LENGTH('t) + shift) divisor;
        Some \<lparr>fm_divisor = divisor, fm_multiplier = pq + of_bool (pr \<noteq> 0), fm_add = 0, fm_shift = shift\<rparr>
      } else do {
        l \<leftarrow> ilog2 divisor;
        p \<leftarrow> is_power_of_two False divisor;
        if p then Some \<lparr>fm_divisor = divisor, fm_multiplier = 0, fm_add = 0, fm_shift = int l\<rparr>
        else do {
          (pq, pr) \<leftarrow> divmod_pow2 (int LENGTH('t) + int l) divisor;
          let threshold = divisor - push_bit l 1;
          Some \<lparr>fm_divisor = divisor, fm_multiplier = pq + of_bool (threshold \<le> pr), fm_add = of_bool (pr < threshold), fm_shift = int l\<rparr>
        }
      })"

text \<open>The multiplication and the assertion at the end of \<^verbatim>\<open>operator/\<close>.\<close>

definition fast_div_multiply ::
  "bool \<Rightarrow> 'l::len word \<Rightarrow> 'l word \<Rightarrow> 't::len word fast_mod_div \<Rightarrow> 'c::len word option" where
  "fast_div_multiply has_int128 dividend udividend f =
     (let higher_bits = mul_hi_unsigned has_int128 (ucast udividend) (ucast (fm_multiplier f)) :: 'c word;
          quot = drop_bit (nat (fm_shift f)) higher_bits
      in if quot = of_nat (unat dividend div unat (fm_divisor f)) then Some quot else None)"

definition fast_div ::
  "bool \<Rightarrow> bool \<Rightarrow> bool \<Rightarrow> bool \<Rightarrow> 'l::len word \<Rightarrow> 't::len word fast_mod_div \<Rightarrow> 'c::len word option" where
  "fast_div has_int128 t_signed l_signed never_one dividend f =
     (if l_signed \<and> sint dividend < 0 then None
      else if \<not> t_signed then
        if fm_multiplier f = 0 then Some (drop_bit (nat (fm_shift f)) (ucast dividend))
        else fast_div_multiply has_int128 dividend
               (if l_signed \<or> dividend \<noteq> - 1 then dividend + ucast (fm_add f) else dividend) f
      else if \<not> never_one \<and> fm_divisor f = 1 then Some (ucast dividend)
      else fast_div_multiply has_int128 dividend dividend f)"

definition fast_mod ::
  "bool \<Rightarrow> bool \<Rightarrow> bool \<Rightarrow> bool \<Rightarrow> 'l::len word \<Rightarrow> 't::len word fast_mod_div \<Rightarrow> 'c::len word option" where
  "fast_mod has_int128 t_signed l_signed never_one dividend f =
     do { q \<leftarrow> fast_div has_int128 t_signed l_signed never_one dividend f;
          Some (ucast dividend - q * ucast (fm_divisor f)) }"

text \<open>The pair of \<^verbatim>\<open>div\<close> has the types of dividend and divisor.\<close>

definition fast_divmod ::
  "'c::len itself \<Rightarrow> bool \<Rightarrow> bool \<Rightarrow> bool \<Rightarrow> bool \<Rightarrow> 'l::len word \<Rightarrow> 't::len word fast_mod_div \<Rightarrow> ('l word \<times> 't word) option" where
  "fast_divmod common has_int128 t_signed l_signed never_one dividend f =
     do { (q :: 'c word) \<leftarrow> fast_div has_int128 t_signed l_signed never_one dividend f;
          let r = ucast dividend - q * ucast (fm_divisor f);
          Some (ucast q, ucast r) }"

section \<open>The upper half of a product\<close>

lemma mul_hi_unsigned_eq:
  fixes lhs rhs :: "'a::len word"
  assumes "LENGTH('a) = 2 * h" "2 \<le> h"
  shows "unat (mul_hi_unsigned has_int128 lhs rhs) = unat lhs * unat rhs div 2 ^ LENGTH('a)"
proof -
  have p: "unat lhs * unat rhs < 2 ^ LENGTH('a) * 2 ^ LENGTH('a)" by (intro mult_less_square) (rule unsigned_less)+
  then have "take_bit (2 * LENGTH('a)) (unat lhs * unat rhs) = unat lhs * unat rhs"
    by (intro take_bit_nat_eq_self) (simp add: mult_2 power_add)
  moreover have "unat lhs * unat rhs div 2 ^ LENGTH('a) < 2 ^ LENGTH('a)" using p by (rule less_mult_imp_div_less)
  ultimately show ?thesis
    using mul_hi_fallback_eq [OF assms, of lhs rhs] by (simp add: mul_hi_unsigned_def unsigned_of_nat take_bit_nat_eq_self)
qed

lemma sint_mult_bound:
  fixes lhs rhs :: "'a::len word"
  defines "M \<equiv> 2 ^ (LENGTH('a) - 1)"
  shows "\<bar>sint lhs * sint rhs\<bar> \<le> M * M"
proof -
  have "\<bar>sint lhs\<bar> \<le> M" "\<bar>sint rhs\<bar> \<le> M"
    using sint_ge [of lhs] sint_lt [of lhs] sint_ge [of rhs] sint_lt [of rhs] by (simp_all add: M_def)
  then show ?thesis unfolding abs_mult by (rule mult_mono) (simp_all add: M_def)
qed

lemma div_bounds: "0 < M \<Longrightarrow> - (M * (2 * M)) \<le> p \<Longrightarrow> p < M * (2 * M) \<Longrightarrow> - M \<le> p div (2 * M) \<and> p div (2 * M) < M" for p M :: int
proof
  assume "0 < M" and p: "- (M * (2 * M)) \<le> p" "p < M * (2 * M)"
  show "- M \<le> p div (2 * M)" using zdiv_mono1 [OF p(1), of "2 * M"] \<open>0 < M\<close> by (simp flip: mult_minus_left)
  show "p div (2 * M) < M"
  proof (rule ccontr)
    assume "\<not> p div (2 * M) < M"
    then have "2 * M * M \<le> 2 * M * (p div (2 * M))" using \<open>0 < M\<close> by (intro mult_left_mono) simp_all
    moreover have "2 * M * (p div (2 * M)) \<le> p" using mult_div_mod_eq [of "2 * M" p] pos_mod_sign [of "2 * M" p] \<open>0 < M\<close> by linarith
    ultimately show False using p(2) by simp
  qed
qed

lemma mul_hi_signed_eq:
  fixes lhs rhs :: "'a::len word"
  assumes "LENGTH('a) = 2 * h" "2 \<le> h"
  shows "sint (mul_hi_signed has_int128 lhs rhs) = sint lhs * sint rhs div 2 ^ LENGTH('a)"
proof -
  define M p :: int where "M = 2 ^ (LENGTH('a) - 1)" and "p = sint lhs * sint rhs"
  have M: "(2 :: int) ^ LENGTH('a) = 2 * M" "0 < M" by (simp_all add: M_def flip: power_Suc)
  have "\<bar>p\<bar> \<le> M * M" unfolding p_def M_def by (rule sint_mult_bound)
  moreover have "M * M < M * (2 * M)" using M(2) by simp
  ultimately have p: "- (M * (2 * M)) \<le> p" "p < M * (2 * M)" by linarith+
  have "2 * LENGTH('a) - 1 = (LENGTH('a) - 1) + LENGTH('a)" by simp
  then have "(2 :: int) ^ (2 * LENGTH('a) - 1) = M * (2 * M)" by (simp only: power_add M(1) M_def [symmetric])
  then have t: "signed_take_bit (2 * LENGTH('a) - 1) p = p" using p by (intro signed_take_bit_int_eq_self) simp_all
  have "mul_hi_signed has_int128 lhs rhs = of_int (p div (2 * M))"
  proof (cases "LENGTH('a) < 64 \<or> LENGTH('a) = 64 \<and> has_int128")
    case True
    then show ?thesis using t by (simp add: mul_hi_signed_def p_def M(1))
  next
    case False
    define a b :: int where "a = of_bool (sint lhs < 0)" and "b = of_bool (sint rhs < 0)"
    have u: "uint lhs = sint lhs + 2 * M * a" "uint rhs = sint rhs + 2 * M * b" by (simp_all add: uint_signed M(1) a_def b_def)
    have "int (unat lhs * unat rhs div 2 ^ LENGTH('a)) = uint lhs * uint rhs div (2 * M)" by (simp add: zdiv_int M(1))
    also have "uint lhs * uint rhs = p + (2 * M) * (a * uint rhs + b * sint lhs)" unfolding u p_def by (simp add: algebra_simps)
    also have "\<dots> div (2 * M) = p div (2 * M) + (a * uint rhs + b * sint lhs)" using M(2) by (subst div_mult_self2) simp_all
    finally have "int (unat (mul_hi_fallback lhs rhs)) = p div (2 * M) + (a * uint rhs + b * sint lhs)" unfolding mul_hi_fallback_eq [OF assms] .
    from arg_cong [OF this, of "of_int :: int \<Rightarrow> 'a word"]
    have "mul_hi_fallback lhs rhs = of_int (p div (2 * M)) + (of_int a * rhs + of_int b * lhs)" by simp
    then show ?thesis unfolding mul_hi_signed_def if_not_P [OF False] by (simp add: Let_def a_def b_def)
  qed
  moreover have "sint (of_int q :: 'a word) = q" if "- M \<le> q" "q < M" for q
    using that by (simp add: signed_of_int signed_take_bit_int_eq_self M_def)
  moreover have "- M \<le> p div (2 * M) \<and> p div (2 * M) < M" using M(2) p by (intro div_bounds)
  ultimately show ?thesis unfolding M(1) p_def [symmetric] by simp
qed

section \<open>Arithmetic\<close>

lemma div_between: "a * c \<le> x \<Longrightarrow> x < (a + 1) * c \<Longrightarrow> x div c = a" for a c x :: nat
  by (rule div_nat_eqI) (simp_all add: mult.commute)

lemma multiply_round_up:
  fixes d n m p e :: nat
  assumes "0 < d" "m * d = p + e" "n * e < p"
  shows "n * m div p = n div d"
proof (rule div_between)
  let ?a = "n div d"
  have a: "d * ?a \<le> n" "n + 1 \<le> d * (?a + 1)"
    using mult_div_mod_eq [of d n] mod_less_divisor [OF assms(1), of n] unfolding add_mult_distrib2 mult_1_right by linarith+
  have e: "d * (n * m) = n * p + n * e" using arg_cong [OF assms(2), of "\<lambda>x. n * x"] by (simp only: add_mult_distrib2 ac_simps)
  have "d * (?a * p) \<le> n * p" using mult_le_mono1 [OF a(1), of p] by (simp only: mult.assoc)
  then have "d * (?a * p) \<le> d * (n * m)" using e by linarith
  then show "?a * p \<le> n * m" using assms(1) by simp
  have "d * (n * m) < (n + 1) * p" using e assms(3) by simp
  also have "\<dots> \<le> d * ((?a + 1) * p)" using mult_le_mono1 [OF a(2), of p] by (simp only: mult.assoc)
  finally show "n * m < (?a + 1) * p" by simp
qed

lemma multiply_round_down:
  fixes d n q p r :: nat
  assumes "0 < d" "q * d + r = p" "0 < r" "x * r \<le> p" and x: "x = n + 1 \<or> x = n \<and> n mod d \<noteq> 0"
  shows "x * q div p = n div d"
proof (rule div_between)
  let ?a = "n div d"
  have a: "d * ?a + n mod d = n" "n mod d < d" using assms(1) by simp_all
  have e: "d * (x * q) + x * r = x * p" using arg_cong [OF assms(2), of "\<lambda>y. x * y"] by (simp only: add_mult_distrib2 ac_simps)
  have "d * ?a + 1 \<le> x" using a(1) x by linarith
  from mult_le_mono1 [OF this, of p] have "d * (?a * p) + p \<le> x * p" by (simp only: add_mult_distrib mult.assoc mult_1)
  then have "d * (?a * p) \<le> d * (x * q)" using e assms(4) by linarith
  then show "?a * p \<le> x * q" using assms(1) by simp
  have x': "x \<le> d * (?a + 1)" "0 < x" using a x unfolding add_mult_distrib2 mult_1_right by linarith+
  have "0 < x * r" using x'(2) assms(3) by simp
  then have "d * (x * q) < x * p" using e by linarith
  also have "\<dots> \<le> d * ((?a + 1) * p)" using mult_le_mono1 [OF x'(1), of p] by (simp only: mult.assoc)
  finally show "x * q < (?a + 1) * p" by simp
qed

lemma dvd_power_of_two: "d dvd 2 ^ k \<Longrightarrow> \<exists>j. d = 2 ^ j" for d :: nat
proof (induction k arbitrary: d)
  case (Suc k)
  show ?case
  proof (cases "even d")
    case True
    then obtain c where "d = 2 * c" by (elim evenE)
    with Suc obtain j where "d = 2 ^ Suc j" by auto
    then show ?thesis ..
  next
    case False
    then have "coprime d 2" by simp
    with Suc show ?thesis by (simp add: coprime_dvd_mult_right_iff)
  qed
qed (auto intro: exI [of _ 0])

lemma all_ones_multiple:
  fixes d s :: nat
  assumes "d dvd 2 ^ l - 1" "l dvd b" "2 ^ s < d"
  shows "2 ^ (b + s) mod d = 2 ^ s"
proof -
  obtain c where "b = l * c" using assms(2) by (elim dvdE)
  have "2 ^ l mod d = 1 mod d" using assms(1) by (metis mod_eq_dvd_iff_nat one_le_numeral one_le_power)
  then have "(2 ^ l) ^ c mod d = 1 mod d" by (metis power_mod power_one)
  then have "2 ^ b * 2 ^ s mod d = 1 * 2 ^ s mod d" unfolding \<open>b = l * c\<close> power_mult by (rule mod_mult_cong) simp
  then show ?thesis using assms(3) by (simp add: power_add)
qed

section \<open>Division of a power of two\<close>

lemma push_or: "push_bit 1 r OR of_bool c = 2 * r + of_bool c" for r :: "'a::len word"
proof -
  have "push_bit 1 r AND of_bool c = 0" by (rule bit_eqI) (auto simp only: bit_and_iff bit_push_bit_iff bit_of_bool_iff bit_0_eq)
  then show ?thesis using disjunctive_add_eq_or [of "push_bit 1 r" "of_bool c"] by (simp add: push_bit_eq_mult mult.commute)
qed

lemma top_bit: "drop_bit (LENGTH('a) - 1) r \<noteq> 0 \<longleftrightarrow> 2 ^ (LENGTH('a) - 1) \<le> unat r" for r :: "'a::len word"
proof -
  have "drop_bit (LENGTH('a) - 1) r = 0 \<longleftrightarrow> unat (drop_bit (LENGTH('a) - 1) r) = 0" by (simp only: unat_eq_zero)
  then show ?thesis by (simp add: unat_drop_half div_eq_0_iff not_less)
qed

lemma divmod_double:
  fixes v d :: nat
  assumes "0 < d" "c \<le> 1"
  defines "b \<equiv> of_bool (d \<le> 2 * (v mod d) + c)"
  shows "(2 * v + c) div d = 2 * (v div d) + b" "(2 * v + c) mod d = 2 * (v mod d) + c - b * d"
proof -
  define q r where "q = v div d" and "r = v mod d"
  have v: "v = d * q + r" "r < d" using assms(1) by (simp_all add: q_def r_def)
  define t where "t = 2 * r + c - b * d"
  have t: "t < d" "2 * r + c = b * d + t" using v(2) assms(2) by (auto simp: t_def b_def r_def [symmetric])
  have "2 * v + c = t + d * (2 * q + b)" using t(2) unfolding v(1) by (simp add: algebra_simps)
  then have "(2 * v + c) div d = 2 * q + b" "(2 * v + c) mod d = t" using t(1) assms(1) by simp_all
  then show "(2 * v + c) div d = 2 * (v div d) + b" "(2 * v + c) mod d = 2 * (v mod d) + c - b * d" by (simp_all add: q_def r_def t_def)
qed

lemma divmod_pow2_step:
  fixes d :: "'a::len word" and v :: nat and c :: bool
  assumes "d \<noteq> 0"
  defines "D \<equiv> unat d" and "r \<equiv> of_nat (v mod unat d) :: 'a word"
  defines "x \<equiv> push_bit 1 r OR of_bool c" and "qb \<equiv> drop_bit (LENGTH('a) - 1) r \<noteq> 0 \<or> d \<le> push_bit 1 r OR of_bool c"
  shows "push_bit 1 (of_nat (v div D)) OR of_bool qb = (of_nat ((2 * v + of_bool c) div D) :: 'a word)"
    and "(if qb then x - d else x) = of_nat ((2 * v + of_bool c) mod D)"
proof -
  define R where "R = v mod D"
  define N :: nat where "N = 2 ^ (LENGTH('a) - 1)"
  have N: "2 ^ LENGTH('a) = 2 * N" by (simp add: N_def flip: power_Suc)
  have D: "0 < D" "D < 2 * N" using assms(1) unsigned_less [of d, where 'a = nat] by (simp_all add: D_def unat_gt_0 N)
  have R: "R < D" using D(1) by (simp add: R_def)
  have r: "unat r = R" "r = of_nat R" using R D(2) by (simp_all add: r_def R_def D_def unsigned_of_nat take_bit_nat_eq_self N)
  have x: "x = of_nat (2 * R + of_bool c)" unfolding x_def push_or by (simp add: r(2))
  have "unat x = (2 * R + of_bool c) mod (2 * N)" unfolding x by (simp only: unsigned_of_nat take_bit_eq_mod N of_nat_id)
  then have ux: "unat x = (if N \<le> R then 2 * R + of_bool c - 2 * N else 2 * R + of_bool c)"
    using R D(2) by (cases "N \<le> R") (auto simp: mod_if)
  have qb: "qb \<longleftrightarrow> D \<le> 2 * R + of_bool c"
    unfolding qb_def top_bit x_def [symmetric] word_le_nat_alt N_def [symmetric] ux D_def [symmetric] r(1) using D(2) by auto
  have "of_bool c \<le> (1 :: nat)" by simp
  note dm = divmod_double [OF D(1) this, of v, folded R_def, folded qb]
  show "push_bit 1 (of_nat (v div D)) OR of_bool qb = (of_nat ((2 * v + of_bool c) div D) :: 'a word)" unfolding push_or by (simp add: dm)
  show "(if qb then x - d else x) = of_nat ((2 * v + of_bool c) mod D)" 
  proof (cases qb)
    case True
    have "of_nat D = d" by (simp add: D_def)
    then have "x - d = of_nat (2 * R + of_bool c - D)" unfolding x using True qb by (simp only: of_nat_diff)
    then show ?thesis using True unfolding dm(2) by (simp only: if_True of_bool_eq mult_1)
  next
    case False
    then show ?thesis unfolding dm(2) by (simp only: x if_False of_bool_eq mult_zero_left diff_zero)
  qed
qed

lemma divmod_pow2_loop_Suc:
  fixes v n p :: nat and d :: "'a::len word"
  assumes "d \<noteq> 0"
  defines "w \<equiv> 2 * v + of_bool (n = p)"
  shows "divmod_pow2_loop d p (Suc n) (of_nat (v div unat d)) (of_nat (v mod unat d)) =
    divmod_pow2_loop d p n (of_nat (w div unat d)) (of_nat (w mod unat d))"
  unfolding divmod_pow2_loop.simps(2) Let_def divmod_pow2_step [OF assms(1)] w_def ..

lemma divmod_pow2_loop_eq:
  assumes "d \<noteq> 0" "n \<le> p"
  shows "divmod_pow2_loop d p n (of_nat (v div unat d)) (of_nat (v mod unat d)) =
    (of_nat (v * 2 ^ n div unat d), of_nat (v * 2 ^ n mod unat d))"
  using assms(2)
proof (induction n arbitrary: v)
  case (Suc n)
  then have "n \<noteq> p" "n \<le> p" by simp_all
  then show ?case unfolding divmod_pow2_loop_Suc [OF assms(1)] using Suc.IH [of "2 * v"] by (simp add: mult.assoc mult.left_commute)
qed simp

lemma divmod_pow2_eq:
  fixes d :: "'a::len word"
  assumes "d \<noteq> 0" "k < 2 * LENGTH('a)"
  shows "divmod_pow2 (int k) d = Some (of_nat (2 ^ k div unat d), of_nat (2 ^ k mod unat d))"
proof -
  have "divmod_pow2_loop d k (Suc k) 0 0 = divmod_pow2_loop d k k (of_nat (1 div unat d)) (of_nat (1 mod unat d))"
    using divmod_pow2_loop_Suc [OF assms(1), of k k 0] by simp
  then show ?thesis using divmod_pow2_loop_eq [OF assms(1) order.refl, of k 1] assms by (simp add: divmod_pow2_def)
qed

section \<open>The precomputed multiplier\<close>

definition int_width :: "nat \<Rightarrow> bool" where
  "int_width n \<longleftrightarrow> n \<in> {8, 16, 32, 64, 128}"

lemma int_width_facts:
  assumes "int_width n"
  shows "wide_ok n" "n < 2 ^ 31" "\<exists>h. n = 2 * h \<and> 2 \<le> h"
  using assms by (auto simp: int_width_def wide_ok_def intro: exI [of _ 4] exI [of _ 8] exI [of _ 16] exI [of _ 32] exI [of _ 64])

lemma quotient_fits:
  fixes d :: nat
  assumes "2 ^ s < d" "d < 2 ^ n"
  shows "2 ^ (n + s) div d + 1 < 2 ^ n"
proof -
  obtain p where p: "2 ^ n = Suc p" using assms(2) by (cases "2 ^ n :: nat") auto
  have "2 ^ n * 2 ^ s = p * 2 ^ s + 2 ^ s" by (simp add: p)
  also have "\<dots> < p * 2 ^ s + p" using assms unfolding p by linarith
  also have "\<dots> = p * Suc (2 ^ s)" by simp
  also have "\<dots> \<le> p * d" using assms(1) by (intro mult_le_mono2) simp
  finally have "2 ^ (n + s) div d < p" by (intro less_mult_imp_div_less) (simp add: power_add)
  then show ?thesis by (simp add: p)
qed

lemma ceil_ilog2_spec:
  fixes t :: "'a::len word"
  assumes "t \<noteq> 0" "int_width LENGTH('a)"
  obtains l where "ceil_ilog2 t = Some l" "unat t \<le> 2 ^ l" "l = 0 \<longleftrightarrow> unat t = 1" "0 < l \<longrightarrow> 2 ^ (l - 1) < unat t" "l \<le> LENGTH('a)"
proof -
  obtain l where l: "ilog2 t = Some l" "2 ^ l \<le> unat t" "unat t < 2 ^ Suc l" "l < LENGTH('a)"
    using ilog2_spec [OF assms(1) int_width_facts(1,2) [OF assms(2)]] .
  show thesis
  proof (cases "has_single_bit t")
    case True
    then obtain n where n: "unat t = 2 ^ n" unfolding has_single_bit_iff [OF int_width_facts(1) [OF assms(2)]] ..
    have "l \<le> n" by (rule power_le_imp_le_exp [OF _ l(2) [unfolded n]]) simp
    moreover have "n < Suc l" by (rule power_less_imp_less_exp [OF _ l(3) [unfolded n]]) simp
    ultimately have "n = l" by simp
    with n have t: "unat t = 2 ^ l" by simp
    show thesis
    proof (rule that [of l])
      show "ceil_ilog2 t = Some l" using l(1) True by (simp add: ceil_ilog2_def)
      show "unat t \<le> 2 ^ l" "l = 0 \<longleftrightarrow> unat t = 1" "0 < l \<longrightarrow> 2 ^ (l - 1) < unat t" unfolding t by (cases l; simp)+
      show "l \<le> LENGTH('a)" using l(4) by simp
    qed
  next
    case False
    then have "unat t \<noteq> 2 ^ l" unfolding has_single_bit_iff [OF int_width_facts(1) [OF assms(2)]] by blast
    then have "2 ^ l < unat t" using l(2) by linarith
    moreover have "(1 :: nat) \<le> 2 ^ l" by simp
    ultimately have one: "unat t \<noteq> 1" by linarith
    show thesis
    proof (rule that [of "Suc l"])
      show "ceil_ilog2 t = Some (Suc l)" using l(1) False by (simp add: ceil_ilog2_def)
      show "unat t \<le> 2 ^ Suc l" "Suc l \<le> LENGTH('a)" using l(3,4) by simp_all
      show "Suc l = 0 \<longleftrightarrow> unat t = 1" using one by simp
      show "0 < Suc l \<longrightarrow> 2 ^ (Suc l - 1) < unat t" using \<open>2 ^ l < unat t\<close> by (simp only: diff_Suc_1 simp_thms)
    qed
  qed
qed

lemma unat_multiplier: "Q + 1 < 2 ^ LENGTH('a) \<Longrightarrow> unat (of_nat Q + of_bool b :: 'a::len word) = Q + of_bool b"
  using unat_of_nat_small [of "Q + of_bool b", where 'a = 'a] by (cases b) (simp_all add: add.commute)

lemma ceil_multiple:
  fixes P D :: nat
  assumes "0 < D"
  shows "\<exists>e. (P div D + of_bool (P mod D \<noteq> 0)) * D = P + e \<and> e < D"
proof (cases "P mod D = 0")
  case True
  then show ?thesis using assms by (intro exI [of _ 0]) (simp add: mod_eq_0_iff_dvd)
next
  case False
  have P: "P div D * D + P mod D = P" "P mod D < D" using assms by simp_all
  have "(P div D + 1) * D = P + (D - P mod D)" using P unfolding add_mult_distrib mult_1 by linarith
  with False assms show ?thesis by (intro exI [of _ "D - P mod D"]) simp
qed

text \<open>Quotient and remainder of a power of two, as the constructor computes them.\<close>

lemma divmod_pow2_parts:
  fixes d :: "'t::len word"
  assumes d: "2 ^ s < unat d" and s: "s < LENGTH('t)"
  obtains Q R where "divmod_pow2 (int LENGTH('t) + int s) d = Some (of_nat Q, of_nat R)" "unat (of_nat R :: 't word) = R"
    "Q + 1 < 2 ^ LENGTH('t)" "Q = 2 ^ (LENGTH('t) + s) div unat d" "R = 2 ^ (LENGTH('t) + s) mod unat d"
proof -
  define P D :: nat where "P = 2 ^ (LENGTH('t) + s)" and "D = unat d"
  have D: "0 < D" "D < 2 ^ LENGTH('t)" 
    using order.strict_trans1 [OF zero_le d] unsigned_less [of d, where 'a = nat] by (simp_all only: D_def)
  then have "d \<noteq> 0" by (auto simp: D_def)
  moreover have "LENGTH('t) + s < 2 * LENGTH('t)" using s by simp
  ultimately have "divmod_pow2 (int (LENGTH('t) + s)) d = Some (of_nat (P div D), of_nat (P mod D))"
    unfolding P_def D_def by (rule divmod_pow2_eq)
  then have 1: "divmod_pow2 (int LENGTH('t) + int s) d = Some (of_nat (P div D), of_nat (P mod D))" by simp
  have "P mod D < D" using D(1) by simp
  then have "P mod D < 2 ^ LENGTH('t)" using D(2) by linarith
  then have 2: "unat (of_nat (P mod D) :: 't word) = P mod D" by (rule unat_of_nat_small)
  have 3: "P div D + 1 < 2 ^ LENGTH('t)" using quotient_fits [OF d unsigned_less] by (simp only: P_def D_def)
  show thesis using that [OF 1 2 3] by (simp only: P_def D_def)
qed

lemma fast_mod_div_of_signed:
  fixes d :: "'t::len word"
  assumes w: "int_width LENGTH('t)" and d: "0 < sint d" "d \<noteq> 1"
  obtains f s e where "fast_mod_div_of True never_one d = Some f" "fm_divisor f = d" "fm_shift f = int s"
    "unat (fm_multiplier f) * unat d = 2 ^ (LENGTH('t) + s) + e" "e < 2 ^ Suc s"
proof -
  have "d \<noteq> 0" using d(1) by auto
  obtain l where l: "ceil_ilog2 d = Some l" "unat d \<le> 2 ^ l" "l = 0 \<longleftrightarrow> unat d = 1" "0 < l \<longrightarrow> 2 ^ (l - 1) < unat d" "l \<le> LENGTH('t)"
    using ceil_ilog2_spec [OF \<open>d \<noteq> 0\<close> w] .
  have "unat d \<noteq> 1" using d(2) by (metis unat_1 word_unat_eq_iff)
  then obtain s where s: "l = Suc s" using l(3) by (cases l) auto
  have D: "2 ^ s < unat d" using l(4) by (simp only: s diff_Suc_1 zero_less_Suc simp_thms)
  have "s < LENGTH('t)" using l(5) s by simp
  from divmod_pow2_parts [OF D this] obtain Q R where
    QR: "divmod_pow2 (int LENGTH('t) + int s) d = Some (of_nat Q, of_nat R)" "unat (of_nat R :: 't word) = R"
    "Q + 1 < 2 ^ LENGTH('t)" "Q = 2 ^ (LENGTH('t) + s) div unat d" "R = 2 ^ (LENGTH('t) + s) mod unat d" .
  have r: "(of_nat R :: 't word) \<noteq> 0 \<longleftrightarrow> R \<noteq> 0" using unat_eq_zero [of "of_nat R :: 't word"] QR(2) by simp
  have f: "fast_mod_div_of True never_one d =
      Some \<lparr>fm_divisor = d, fm_multiplier = of_nat Q + of_bool (R \<noteq> 0), fm_add = 0, fm_shift = int s\<rparr>"
    using d l(1) QR(1) by (simp add: fast_mod_div_of_def Let_def s r)
  obtain e where e: "(Q + of_bool (R \<noteq> 0)) * unat d = 2 ^ (LENGTH('t) + s) + e" "e < unat d"
    using ceil_multiple [OF order.strict_trans1 [OF zero_le D], of "2 ^ (LENGTH('t) + s)"] unfolding QR(4,5) by blast
  show thesis
  proof (rule that [OF f])
    show "e < 2 ^ Suc s" using e(2) l(2) unfolding s by (rule order.strict_trans2)
  qed (simp_all only: fast_mod_div.simps unat_multiplier [OF QR(3)] e(1))
qed

lemma word_of_nat_unat: "of_nat (unat x) = x" for x :: "'a::len word"
  by simp

lemma unat_push_1: "s < LENGTH('a) \<Longrightarrow> unat (push_bit s 1 :: 'a::len word) = 2 ^ s"
proof -
  assume "s < LENGTH('a)"
  then have "(2 :: nat) ^ s < 2 ^ LENGTH('a)" by simp
  from unat_of_nat_small [OF this] show ?thesis by (simp add: push_bit_of_1)
qed

lemma fast_mod_div_of_unsigned:
  fixes d :: "'t::len word"
  assumes w: "int_width LENGTH('t)" and d: "d \<noteq> 0" "\<not> (never_one \<and> d = 1)"
  obtains
    (pow2) l where "unat d = 2 ^ l"
      "fast_mod_div_of False never_one d = Some \<lparr>fm_divisor = d, fm_multiplier = 0, fm_add = 0, fm_shift = int l\<rparr>"
  | (multiplier) f s Q R where "fast_mod_div_of False never_one d = Some f" "fm_divisor f = d" "fm_shift f = int s"
      "unat (fm_multiplier f) = Q + of_bool (unat d - 2 ^ s \<le> R)" "fm_add f = of_bool (R < unat d - 2 ^ s)" "fm_multiplier f \<noteq> 0"
      "Q * unat d + R = 2 ^ (LENGTH('t) + s)" "0 < R" "R < unat d" "2 ^ s < unat d" "unat d < 2 ^ Suc s"
proof -
  obtain l where l: "ilog2 d = Some l" "2 ^ l \<le> unat d" "unat d < 2 ^ Suc l" "l < LENGTH('t)"
    using ilog2_spec [OF d(1) int_width_facts(1,2) [OF w]] .
  have p2: "is_power_of_two False d = Some (\<exists>n. unat d = 2 ^ n)" by (simp add: is_power_of_two_def has_single_bit_iff [OF int_width_facts(1) [OF w]])
  have pos: "0 < d" using d(1) by (simp add: word_gt_0)
  show thesis
  proof (cases "\<exists>n. unat d = 2 ^ n")
    case True
    then obtain n where n: "unat d = 2 ^ n" ..
    have "l \<le> n" by (rule power_le_imp_le_exp [OF _ l(2) [unfolded n]]) simp
    moreover have "n < Suc l" by (rule power_less_imp_less_exp [OF _ l(3) [unfolded n]]) simp
    ultimately have "n = l" by simp
    then show thesis by (intro pow2 [of l]) (use n True l(1) p2 pos d(2) in \<open>simp_all add: fast_mod_div_of_def\<close>)
  next
    case False
    then have D: "2 ^ l < unat d" using l(2) by (metis le_neq_implies_less)
    from divmod_pow2_parts [OF D l(4)] obtain Q R where
      QR: "divmod_pow2 (int LENGTH('t) + int l) d = Some (of_nat Q, of_nat R)" "unat (of_nat R :: 't word) = R"
      "Q + 1 < 2 ^ LENGTH('t)" "Q = 2 ^ (LENGTH('t) + l) div unat d" "R = 2 ^ (LENGTH('t) + l) mod unat d" .
    have pos': "0 < unat d" by (rule order.strict_trans1 [OF zero_le D])
    have th: "unat (d - push_bit l 1) = unat d - 2 ^ l"
      using D unat_push_1 [OF l(4)] by (subst unat_sub) (simp_all only: word_le_nat_alt less_imp_le)
    have le: "d - push_bit l 1 \<le> of_nat R \<longleftrightarrow> unat d - 2 ^ l \<le> R" "of_nat R < d - push_bit l 1 \<longleftrightarrow> R < unat d - 2 ^ l"
      by (simp_all only: word_le_nat_alt word_less_nat_alt th QR(2))
    have f: "fast_mod_div_of False never_one d = Some \<lparr>fm_divisor = d, fm_multiplier = of_nat Q + of_bool (unat d - 2 ^ l \<le> R),
        fm_add = of_bool (R < unat d - 2 ^ l), fm_shift = int l\<rparr>"
      using l(1) p2 False pos d(2) QR(1) le by (simp add: fast_mod_div_of_def Let_def)
    have "unat d < 2 ^ LENGTH('t)" by (rule unsigned_less)
    moreover have "(2 :: nat) ^ LENGTH('t) \<le> 2 ^ (LENGTH('t) + l)" by (rule power_increasing) simp_all
    ultimately have "unat d \<le> 2 ^ (LENGTH('t) + l)" by linarith
    then have "0 < Q" using pos' unfolding QR(4) by (simp only: div_greater_zero_iff simp_thms)
    then have nz: "of_nat Q + of_bool (unat d - 2 ^ l \<le> R) \<noteq> (0 :: 't word)"
      using unat_multiplier [OF QR(3), of "unat d - 2 ^ l \<le> R"] by (metis add_gr_0 less_numeral_extra(3) unat_0)
    have R: "R \<noteq> 0" using False dvd_power_of_two [of "unat d" "LENGTH('t) + l"] unfolding QR(5) by (simp only: mod_eq_0_iff_dvd) blast
    show thesis
    proof (rule multiplier [OF f])
      show "Q * unat d + R = 2 ^ (LENGTH('t) + l)" unfolding QR(4,5) by (rule div_mult_mod_eq)
      show "R < unat d" unfolding QR(5) using pos' by (rule mod_less_divisor)
    qed (use R D l(3) nz in \<open>simp_all only: fast_mod_div.simps unat_multiplier [OF QR(3)] neq0_conv not_False_eq_True\<close>)
  qed
qed

section \<open>Division\<close>

lemma fast_div_multiply_eq:
  fixes n u :: "'l::len word" and f :: "'t::len word fast_mod_div"
  assumes w: "int_width LENGTH('t)" "LENGTH('c::len) = LENGTH('t)" "LENGTH('l) \<le> LENGTH('t)" and s: "fm_shift f = int s"
    and eq: "unat u * unat (fm_multiplier f) div 2 ^ (LENGTH('t) + s) = unat n div unat (fm_divisor f)"
  shows "\<exists>q. fast_div_multiply has_int128 n u f = Some (q :: 'c word) \<and> unat q = unat n div unat (fm_divisor f)"
proof -
  obtain h where h: "LENGTH('c) = 2 * h" "2 \<le> h" using int_width_facts(3) [OF w(1)] w(2) by auto
  let ?q = "drop_bit s (mul_hi_unsigned has_int128 (ucast u) (ucast (fm_multiplier f)) :: 'c word)"
  have "unat (ucast u :: 'c word) = unat u" "unat (ucast (fm_multiplier f) :: 'c word) = unat (fm_multiplier f)"
    using w(2,3) by (simp_all add: unat_ucast_up)
  then have "unat ?q = unat u * unat (fm_multiplier f) div 2 ^ LENGTH('t) div 2 ^ s"
    by (simp only: unat_drop_half mul_hi_unsigned_eq [OF h] w(2))
  then have q: "unat ?q = unat n div unat (fm_divisor f)" using eq by (simp only: power_add div_mult2_eq)
  then have "?q = of_nat (unat n div unat (fm_divisor f))" using word_of_nat_unat [of ?q] by (simp only: q)
  then show ?thesis using q by (simp add: fast_div_multiply_def Let_def s)
qed

lemma unat_plus_1:
  fixes n :: "'l::len word"
  assumes "n \<noteq> - 1"
  shows "unat (n + 1) = unat n + 1"
proof -
  have "unat n + 1 \<noteq> 2 ^ LENGTH('l)"
  proof
    assume "unat n + 1 = 2 ^ LENGTH('l)"
    then have "of_nat (unat n + 1) = (0 :: 'l word)" by (simp only: word_of_nat_eq_0_iff) simp
    then have "n + 1 = 0" by (simp add: add.commute)
    then show False using assms by (simp add: eq_neg_iff_add_eq_0)
  qed
  then have "unat n + 1 < 2 ^ LENGTH('l)" using unsigned_less [of n, where 'a = nat] by linarith
  from unat_of_nat_small [OF this] show ?thesis by (simp add: add.commute)
qed

lemma unat_minus_1: "unat (- 1 :: 'l::len word) = 2 ^ LENGTH('l) - 1"
  by (simp add: unsigned_minus_1_eq_mask mask_eq_exp_minus_1)

lemma fast_div_signed:
  fixes d :: "'t::len word" and n :: "'l::len word"
  assumes w: "int_width LENGTH('t)" "LENGTH('c::len) = LENGTH('t)" "LENGTH('l) \<le> LENGTH('t)"
    and d: "0 < sint d" "\<not> (never_one \<and> d = 1)" and n: "2 * unat n < 2 ^ LENGTH('t)" "l_signed \<longrightarrow> 0 \<le> sint n"
  shows "\<exists>f q. fast_mod_div_of True never_one d = Some f \<and> fm_divisor f = d \<and>
    fast_div has_int128 True l_signed never_one n f = Some (q :: 'c word) \<and> unat q = unat n div unat d"
proof (cases "d = 1")
  case True
  have "0 < sint (1 :: 't word)" using d(1) True by simp
  have "ceil_ilog2 (1 :: 't word) = Some 0"
    using ceil_ilog2_spec [of "1 :: 't word" thesis] w(1) by (metis One_nat_def unat_1 zero_neq_one ceil_ilog2_spec)
  moreover have "divmod_pow2 (int LENGTH('t) - 1) (1 :: 't word) \<noteq> None" by (simp add: divmod_pow2_def)
  ultimately obtain f where f: "fast_mod_div_of True never_one d = Some f" "fm_divisor f = d"
    using d True \<open>0 < sint (1 :: 't word)\<close> by (auto simp: fast_mod_div_of_def Let_def)
  then show ?thesis using d(2) n(2) True w by (auto simp: fast_div_def unat_ucast_up)
next
  case False
  obtain f s e where f: "fast_mod_div_of True never_one d = Some f" "fm_divisor f = d" "fm_shift f = int s"
    "unat (fm_multiplier f) * unat d = 2 ^ (LENGTH('t) + s) + e" "e < 2 ^ Suc s"
    using fast_mod_div_of_signed [OF w(1) d(1) False] by blast
  have "0 < unat d" using d(1) by (auto simp: unat_gt_0)
  moreover have "unat n * e < 2 ^ (LENGTH('t) + s)"
  proof -
    have "2 * unat n * e \<le> 2 * unat n * 2 ^ Suc s" using f(5) by (intro mult_le_mono2) simp
    also have "\<dots> < 2 ^ LENGTH('t) * 2 ^ Suc s" using n(1) by (intro mult_strict_right_mono) simp_all
    finally show ?thesis by (simp add: power_add)
  qed
  ultimately have "unat n * unat (fm_multiplier f) div 2 ^ (LENGTH('t) + s) = unat n div unat d"
    by (rule multiply_round_up [OF _ f(4)])
  then obtain q :: "'c word" where "fast_div_multiply has_int128 n n f = Some q" "unat q = unat n div unat d"
    using fast_div_multiply_eq [OF w f(3), of n n has_int128] f(2) by auto
  then show ?thesis using f(1,2) n(2) False by (auto simp: fast_div_def)
qed

lemma adjusted_dividend:
  fixes n :: "'l::len word" and a :: bool
  assumes "l_signed \<longrightarrow> 0 \<le> sint n"
  defines "u \<equiv> if l_signed \<or> n \<noteq> - 1 then n + ucast (of_bool a :: 32 word) else n"
  shows "unat u = unat n + of_bool a \<or> a \<and> unat u = unat n \<and> unat n = 2 ^ LENGTH('l) - 1"
proof (cases a)
  case True
  have one: "ucast (of_bool a :: 32 word) = (1 :: 'l word)" using True by simp
  show ?thesis
  proof (cases "n = - 1")
    case True
    then have "\<not> l_signed" using assms(1) by auto
    then show ?thesis using True \<open>a\<close> by (simp add: u_def unat_minus_1)
  next
    case False
    then show ?thesis using unat_plus_1 [OF False] one \<open>a\<close> by (simp add: u_def)
  qed
qed (simp add: u_def)

lemma fast_div_unsigned:
  fixes d :: "'t::len word" and n :: "'l::len word"
  assumes w: "int_width LENGTH('t)" "LENGTH('c::len) = LENGTH('t)" "LENGTH('l) dvd LENGTH('t)"
    and d: "d \<noteq> 0" "\<not> (never_one \<and> d = 1)" and n: "l_signed \<longrightarrow> 0 \<le> sint n"
  shows "\<exists>f q. fast_mod_div_of False never_one d = Some f \<and> fm_divisor f = d \<and>
    fast_div has_int128 False l_signed never_one n f = Some (q :: 'c word) \<and> unat q = unat n div unat d"
proof -
  have len: "LENGTH('l) \<le> LENGTH('t)" using w(3) by (intro dvd_imp_le) simp_all
  have nlt: "unat n < 2 ^ LENGTH('t)" by (rule order.strict_trans2 [OF unsigned_less power_increasing [OF len]]) simp
  have neg: "\<not> (l_signed \<and> sint n < 0)" using n by auto
  show ?thesis
  proof (cases rule: fast_mod_div_of_unsigned [OF w(1) d, case_names pow2 multiplier])
    case (pow2 l)
    have "unat (drop_bit l (ucast n :: 'c word)) = unat n div unat d" using len w(2) by (simp only: unat_drop_half unat_ucast_up pow2(1))
    then show ?thesis using pow2(2) neg by (simp add: fast_div_def)
  next
    case (multiplier f s Q R)
    define u where "u = (if l_signed \<or> n \<noteq> - 1 then n + ucast (fm_add f) else n)"
    have u: "unat u = unat n + of_bool (R < unat d - 2 ^ s) \<or> R < unat d - 2 ^ s \<and> unat u = unat n \<and> unat n = 2 ^ LENGTH('l) - 1"
      unfolding u_def multiplier(5) by (rule adjusted_dividend [OF n])
    have pos: "0 < unat d" using multiplier(9) by linarith
    have "unat u * unat (fm_multiplier f) div 2 ^ (LENGTH('t) + s) = unat n div unat d"
    proof (cases "R < unat d - 2 ^ s")
      case False
      then have m: "unat (fm_multiplier f) * unat d = 2 ^ (LENGTH('t) + s) + (unat d - R)" and e: "unat d - R \<le> 2 ^ s"
        using multiplier(4,7,9,10) by (simp_all add: add_mult_distrib)
      have "unat n * (unat d - R) \<le> unat n * 2 ^ s" using e by (rule mult_le_mono2)
      also have "\<dots> < 2 ^ LENGTH('t) * 2 ^ s" using nlt by simp
      finally have "unat n * (unat d - R) < 2 ^ (LENGTH('t) + s)" by (simp only: power_add)
      from multiply_round_up [OF pos m this] show ?thesis using u False by simp
    next
      case True
      have m: "unat (fm_multiplier f) = Q" using multiplier(4) True by simp
      have small: "R < 2 ^ s" using True multiplier(11) by simp
      have x: "unat u = unat n + 1 \<or> unat u = unat n \<and> unat n mod unat d \<noteq> 0"
      proof (rule ccontr)
        assume "\<not> ?thesis"
        then have "unat n = 2 ^ LENGTH('l) - 1" "unat d dvd unat n" using u True by auto
        then have "2 ^ (LENGTH('t) + s) mod unat d = 2 ^ s" using all_ones_multiple [OF _ w(3) multiplier(10)] by simp
        moreover have "2 ^ (LENGTH('t) + s) mod unat d = R" unfolding multiplier(7) [symmetric] using multiplier(9) by simp
        ultimately show False using small by simp
      qed
      then have "unat u \<le> 2 ^ LENGTH('t)" using nlt by auto
      then have "unat u * R \<le> 2 ^ LENGTH('t) * 2 ^ s" using small by (intro mult_le_mono) simp_all
      then have "unat u * R \<le> 2 ^ (LENGTH('t) + s)" by (simp only: power_add)
      from multiply_round_down [OF pos multiplier(7,8) this x] show ?thesis unfolding m .
    qed
    then obtain q :: "'c word" where "fast_div_multiply has_int128 n u f = Some q" "unat q = unat n div unat d"
      using fast_div_multiply_eq [OF w(1,2) len multiplier(3), of u n has_int128] multiplier(2) by auto
    then show ?thesis using multiplier(1,2,6) neg by (auto simp: fast_div_def u_def)
  qed
qed

lemma fast_div_cases:
  fixes d :: "'t::len word" and n :: "'l::len word"
  assumes w: "int_width LENGTH('t)" "LENGTH('c::len) = LENGTH('t)" "LENGTH('l) dvd LENGTH('t)" "t_signed \<and> \<not> l_signed \<longrightarrow> LENGTH('l) < LENGTH('t)"
    and d: "if t_signed then 0 < sint d else d \<noteq> 0" "\<not> (never_one \<and> d = 1)" and n: "l_signed \<longrightarrow> 0 \<le> sint n"
  shows "\<exists>f q. fast_mod_div_of t_signed never_one d = Some f \<and> fm_divisor f = d \<and>
    fast_div has_int128 t_signed l_signed never_one n f = Some (q :: 'c word) \<and> unat q = unat n div unat d"
proof (cases t_signed)
  case True
  have len: "LENGTH('l) \<le> LENGTH('t)" using w(3) by (intro dvd_imp_le) simp_all
  have "2 * unat n < 2 ^ LENGTH('t)"
  proof (cases l_signed)
    case True
    then have "2 * unat n < 2 ^ LENGTH('l)" using n by (intro sint_nonneg_half) simp
    then show ?thesis by (rule order.strict_trans2) (rule power_increasing [OF len], simp)
  next
    case False
    then have "Suc LENGTH('l) \<le> LENGTH('t)" using w(4) \<open>t_signed\<close> by simp
    then have "(2 :: nat) * 2 ^ LENGTH('l) \<le> 2 ^ LENGTH('t)" using power_increasing [of "Suc LENGTH('l)" "LENGTH('t)" "2 :: nat"] by simp
    then show ?thesis using unsigned_less [of n, where 'a = nat] by linarith
  qed
  then show ?thesis using fast_div_signed [OF w(1,2) len, of d never_one n l_signed has_int128] d n True by simp
next
  case False
  then show ?thesis using fast_div_unsigned [OF w(1-3), of d never_one l_signed n has_int128] d n by simp
qed

lemma fm_divisor_of: "fast_mod_div_of t_signed never_one d = Some f \<Longrightarrow> fm_divisor f = d"
  unfolding fast_mod_div_of_def Let_def by (auto simp: bind_eq_Some_conv split: if_splits)

lemma remainder_eq:
  fixes q :: "'c::len word" and d :: "'t::len word" and n :: "'l::len word"
  assumes "LENGTH('l) \<le> LENGTH('c)" "LENGTH('t) \<le> LENGTH('c)" "unat q = unat n div unat d"
  shows "unat (ucast n - q * ucast d) = unat n mod unat d"
proof -
  have w: "ucast n = (of_nat (unat n) :: 'c word)" "ucast d = (of_nat (unat d) :: 'c word)" "q = of_nat (unat n div unat d)"
    using word_of_nat_unat [of "ucast n :: 'c word"] word_of_nat_unat [of "ucast d :: 'c word"] word_of_nat_unat [of q]
    by (simp_all only: unat_ucast_up assms)
  have "unat n div unat d * unat d \<le> unat n" by (rule div_times_less_eq_dividend)
  then have "ucast n - q * ucast d = of_nat (unat n - unat n div unat d * unat d)" unfolding w by (simp only: of_nat_diff of_nat_mult)
  also have "unat n - unat n div unat d * unat d = unat n mod unat d" by (rule minus_div_mult_eq_mod)
  finally have "ucast n - q * ucast d = of_nat (unat n mod unat d)" .
  moreover have "unat n mod unat d < 2 ^ LENGTH('c)"
    by (rule order.strict_trans1 [OF mod_less_eq_dividend order.strict_trans2 [OF unsigned_less power_increasing [OF assms(1)]]]) simp
  ultimately show ?thesis by (simp only: unat_of_nat_small)
qed

section \<open>Properties\<close>

text \<open>
  C11: division by a precomputed multiplier.  Where the common type of dividend and divisor has the width of
  the divisor's type, the constructor succeeds for every valid divisor, and quotient and remainder
  of every dividend the interface admits are exact: the assertion on the quotient never fails, also for the
  largest dividend, where the adjustment of the dividend is left out.
\<close>

theorem fast_division_correct:
  fixes d :: "'t::len word" and n :: "'l::len word"
  assumes w: "int_width LENGTH('t)" "LENGTH('c::len) = LENGTH('t)" "LENGTH('l) dvd LENGTH('t)" "t_signed \<and> \<not> l_signed \<longrightarrow> LENGTH('l) < LENGTH('t)"
    and d: "if t_signed then 0 < sint d else d \<noteq> 0" "\<not> (never_one \<and> d = 1)" and n: "l_signed \<longrightarrow> 0 \<le> sint n"
  shows "\<exists>f q r q' r'. fast_mod_div_of t_signed never_one d = Some f \<and>
    fast_div has_int128 t_signed l_signed never_one n f = Some (q :: 'c word) \<and> unat q = unat n div unat d \<and>
    fast_mod has_int128 t_signed l_signed never_one n f = Some (r :: 'c word) \<and> unat r = unat n mod unat d \<and>
    fast_divmod TYPE('c) has_int128 t_signed l_signed never_one n f = Some (q', r') \<and>
    unat q' = unat n div unat d \<and> unat r' = unat n mod unat d"
proof -
  have len: "LENGTH('l) \<le> LENGTH('c)" using w(2,3) by (simp add: dvd_imp_le)
  obtain f and q :: "'c word" where f: "fast_mod_div_of t_signed never_one d = Some f" "fm_divisor f = d"
    "fast_div has_int128 t_signed l_signed never_one n f = Some q" "unat q = unat n div unat d"
    using fast_div_cases [OF w d n, of has_int128] by blast
  let ?r = "ucast n - q * ucast d"
  have r: "unat ?r = unat n mod unat d" using remainder_eq [OF len _ f(4)] w(2) by simp
  have "unat q < 2 ^ LENGTH('l)" unfolding f(4) by (rule order.strict_trans1 [OF div_le_dividend unsigned_less])
  then have "unat (ucast q :: 'l word) = unat q" by (simp add: unat_ucast_mod)
  moreover have "unat (ucast ?r :: 't word) = unat ?r" using w(2) by (intro unat_ucast_up) simp
  ultimately show ?thesis using f r by (auto simp: fast_mod_def fast_divmod_def Let_def)
qed

theorem fast_division_correct_witness:
  "\<exists>f q r q' r'. fast_mod_div_of False False (7 :: 32 word) = Some f \<and>
    fast_div True False False False (- 1 :: 16 word) f = Some (q :: 32 word) \<and> unat q = unat (- 1 :: 16 word) div unat (7 :: 32 word) \<and>
    fast_mod True False False False (- 1 :: 16 word) f = Some (r :: 32 word) \<and> unat r = unat (- 1 :: 16 word) mod unat (7 :: 32 word) \<and>
    fast_divmod TYPE(32) True False False False (- 1 :: 16 word) f = Some (q', r') \<and>
    unat q' = unat (- 1 :: 16 word) div unat (7 :: 32 word) \<and> unat r' = unat (- 1 :: 16 word) mod unat (7 :: 32 word)"
  by (rule fast_division_correct) (simp_all add: int_width_def)

lemma mul_hi_narrow:
  fixes u :: "'l::len word" and v :: "'t::len word"
  assumes "int_width LENGTH('c::len)" "LENGTH('l) + LENGTH('t) \<le> LENGTH('c)"
  shows "mul_hi_unsigned has_int128 (ucast u) (ucast v) = (0 :: 'c word)"
proof -
  obtain h where h: "LENGTH('c) = 2 * h" "2 \<le> h" using int_width_facts(3) [OF assms(1)] by blast
  have "unat u * unat v < 2 ^ LENGTH('l) * 2 ^ LENGTH('t)" by (intro mult_strict_mono unsigned_less) simp_all
  also have "\<dots> \<le> 2 ^ LENGTH('c)" using assms(2) by (simp flip: power_add)
  finally have "unat (ucast u :: 'c word) * unat (ucast v :: 'c word) div 2 ^ LENGTH('c) = 0" using assms(2) by (simp add: unat_ucast_up)
  then have "unat (mul_hi_unsigned has_int128 (ucast u) (ucast v) :: 'c word) = 0" by (simp only: mul_hi_unsigned_eq [OF h])
  then show ?thesis by (simp only: unat_eq_zero)
qed

text \<open>
  C32: narrow types.  Where the common type is so wide that it holds every product, as the promotion of two different types of 8 and 16 bits
  to \<^verbatim>\<open>int\<close> makes it, the upper half of the product is 0 although the multiplier was made for the width of the divisor.  So for a
  divisor that is not a power of two the computed quotient is always 0: right for a dividend smaller than the divisor, and
  otherwise the assertion on the quotient fails.
\<close>

theorem fast_division_narrow:
  fixes d :: "'t::len word" and n :: "'l::len word"
  assumes w: "int_width LENGTH('t)" "int_width LENGTH('c::len)" "LENGTH('l) + LENGTH('t) \<le> LENGTH('c)"
    and f: "fast_mod_div_of t_signed never_one d = Some f" and d: "\<nexists>k. unat d = 2 ^ k" and n: "\<not> (l_signed \<and> sint n < 0)"
  shows "mul_hi_unsigned has_int128 (ucast (u :: 'l word)) (ucast (fm_multiplier f)) = (0 :: 'c word) \<and>
    fast_div has_int128 t_signed l_signed never_one n f = (if unat n < unat d then Some 0 else None :: 'c word option)"
proof -
  have "d \<noteq> 1" using d unat_1 power_0 [of "2 :: nat"] by metis
  have "d \<noteq> 0" using f by (cases t_signed) (auto simp: fast_mod_div_of_def)
  have div: "fm_divisor f = d" using f by (rule fm_divisor_of)
  have zero: "mul_hi_unsigned has_int128 (ucast u) (ucast (fm_multiplier f)) = (0 :: 'c word)" for u :: "'l word" by (rule mul_hi_narrow [OF w(2,3)])
  have mul: "fm_multiplier f \<noteq> 0" if "\<not> t_signed"
  proof (cases rule: fast_mod_div_of_unsigned [OF w(1) \<open>d \<noteq> 0\<close>, of never_one])
    case 1
    then show ?case using \<open>d \<noteq> 1\<close> by simp
  qed (use that f d in auto)
  have "fast_div_multiply has_int128 n u f = (if unat n < unat d then Some 0 else None :: 'c word option)" for u
  proof (cases "unat n < unat d")
    case True
    then show ?thesis by (simp add: fast_div_multiply_def Let_def zero div)
  next
    case False
    have "unat n div unat d < 2 ^ LENGTH('c)"
      by (rule order.strict_trans1 [OF div_le_dividend order.strict_trans2 [OF unsigned_less power_increasing]]) (use w(3) in simp_all)
    moreover have "0 < unat n div unat d" using False \<open>d \<noteq> 0\<close> by (simp add: div_greater_zero_iff unat_gt_0)
    ultimately have "of_nat (unat n div unat d) \<noteq> (0 :: 'c word)" using unat_of_nat_small [of "unat n div unat d", where 'a = 'c] by (metis less_numeral_extra(3) unat_0)
    then show ?thesis using False by (simp add: fast_div_multiply_def Let_def zero div)
  qed
  then show ?thesis using zero mul n \<open>d \<noteq> 1\<close> by (auto simp: fast_div_def div)
qed

theorem fast_division_narrow_witness:
  "\<exists>f. fast_mod_div_of False False (3 :: 16 word) = Some f \<and> fast_div True False False False (100 :: 8 word) f = (None :: 32 word option) \<and>
    fast_div True False False False (2 :: 8 word) f = Some (0 :: 32 word)"
proof -
  have no: "\<nexists>k. unat (3 :: 16 word) = 2 ^ k" using three_not_power by simp
  obtain f where f: "fast_mod_div_of False False (3 :: 16 word) = Some f"
    using fast_div_unsigned [of "3 :: 16 word" False False "0 :: 16 word", where 'c = 16] by (auto simp: int_width_def)
  have w: "int_width LENGTH(16)" "int_width LENGTH(32)" "LENGTH(8) + LENGTH(16) \<le> LENGTH(32)" by (simp_all add: int_width_def)
  show ?thesis using f fast_division_narrow [OF w f no, of False "100 :: 8 word" True 0] fast_division_narrow [OF w f no, of False "2 :: 8 word" True 0] by simp
qed

end
