(* ===== verification/Number_Ops.thy ===== *)
theory Number_Ops
  imports Fast_Division
begin

text \<open>
  Square root, powers, rounding and absolute difference of integers (\<^verbatim>\<open>cuda/__cmath/isqrt.h\<close>, \<^verbatim>\<open>ipow.h\<close>, \<^verbatim>\<open>round_up.h\<close>,
  \<^verbatim>\<open>round_down.h\<close>, \<^verbatim>\<open>abs_diff.h\<close>), and greatest common divisor, least common multiple and midpoint
  (\<^verbatim>\<open>cuda/std/__numeric/gcd_lcm.h\<close>, \<^verbatim>\<open>midpoint.h\<close>), at the width of the type.  Flags tell which types are signed; a failing
  assertion and undefined behaviour are \<open>None\<close>.
\<close>

unbundle bit_operations_syntax

section \<open>Definitions\<close>

subsection \<open>isqrt.h\<close>

lemma unat_drop_2_less: "x \<noteq> 0 \<Longrightarrow> unat (drop_bit 2 x) < unat x" for x :: "'a::len word"
  by (simp add: unat_drop_half unat_gt_0 div_less_dividend)

function isqrt_loop :: "'a::len word \<Rightarrow> 'a word \<Rightarrow> 'a word \<Rightarrow> 'a word" where
  "isqrt_loop uv ret bit' =
     (if bit' \<noteq> 0 then
        if uv \<ge> ret + bit' then isqrt_loop (uv - (ret + bit')) (drop_bit 1 ret + bit') (drop_bit 2 bit')
        else isqrt_loop uv (drop_bit 1 ret) (drop_bit 2 bit')
      else ret)"
  by pat_completeness auto
termination
  by (relation "measure (\<lambda>(uv, ret, bit'). unat bit')") (auto simp only: in_measure case_prod_conv dest: unat_drop_2_less)

declare isqrt_loop.simps [simp del]

definition isqrt :: "bool \<Rightarrow> 'a::len word \<Rightarrow> 'a word option" where
  "isqrt is_signed v =
     (if is_signed \<and> sint v < 0 then None
      else if v \<le> 1 then Some v
      else Some (isqrt_loop v 0 (push_bit (nat ((bit_width v - 1) AND NOT 1)) 1)))"

subsection \<open>ipow.h\<close>

text \<open>The shift is a product of type \<^verbatim>\<open>int\<close>; a shift by a negative amount is undefined.\<close>

definition ipow_impl_base_pow2 :: "'a::len word \<Rightarrow> 'e::len word \<Rightarrow> 'a word option" where
  "ipow_impl_base_pow2 b e =
     do { l \<leftarrow> ilog2 b;
          let shift = sint (ucast (e - 1) :: 32 word) * int l;
          let lz = int (countl_zero b);
          if shift < - (2 ^ 31) \<or> 2 ^ 31 \<le> shift then None
          else if lz \<le> shift then Some 0
          else if shift < 0 then None
          else Some (push_bit (nat shift) b) }"

text \<open>A product of two values of 16 bits is computed in \<^verbatim>\<open>int\<close>.\<close>

definition promoted_mult :: "'a::len word \<Rightarrow> 'a word \<Rightarrow> 'a word option" where
  "promoted_mult x y = (if LENGTH('a) < 32 \<and> 2 ^ 31 \<le> unat x * unat y then None else Some (x * y))"

lemma unat_2:
  fixes e :: "'e::len word"
  assumes "1 < unat e"
  shows "unat (2 :: 'e word) = 2"
proof -
  have "1 < (2 :: nat) ^ LENGTH('e)" using assms unsigned_less [of e, where 'a = nat] by linarith
  then have "2 \<le> (2 :: nat) ^ LENGTH('e)" by simp
  moreover have "(2 :: nat) \<noteq> 2 ^ LENGTH('e)" using assms unsigned_less [of e, where 'a = nat] by linarith
  ultimately have "2 < (2 :: nat) ^ LENGTH('e)" by linarith
  from unat_of_nat_small [OF this] show ?thesis by simp
qed

lemma unat_half:
  fixes e :: "'e::len word"
  assumes "1 < e"
  shows "unat ((if e mod 2 = 1 then e - 1 else e) div 2) = unat e div 2" "e mod 2 = 1 \<longleftrightarrow> odd (unat e)" "1 < unat e"
proof -
  show e: "1 < unat e" using assms word_less_nat_alt [of 1 e] by simp
  have "unat (e mod 2) = unat e mod 2" using unat_2 [OF e] by (simp add: unat_mod_distrib)
  then show odd: "e mod 2 = 1 \<longleftrightarrow> odd (unat e)" using word_unat_eq_iff [of "e mod 2" 1] by (simp add: odd_iff_mod_2_eq_one)
  have "e \<noteq> 0" using e by auto
  then have "unat (e - 1) = unat e - 1" by (rule unat_minus_one)
  then show "unat ((if e mod 2 = 1 then e - 1 else e) div 2) = unat e div 2" using unat_2 [OF e] odd by (auto simp: unat_word_div elim!: oddE)
qed

lemma unat_half_less: "1 < e \<Longrightarrow> unat ((if e mod 2 = 1 then e - 1 else e) div 2) < unat e" for e :: "'e::len word"
  using unat_half(1,3) [of e] by simp

function ipow_impl_loop :: "'a::len word \<Rightarrow> 'a word \<Rightarrow> 'e::len word \<Rightarrow> 'a word option" where
  "ipow_impl_loop x y e =
     (if 1 < e then do {
        y' \<leftarrow> (if e mod 2 = 1 then promoted_mult y x else Some y);
        x' \<leftarrow> promoted_mult x x;
        ipow_impl_loop x' y' ((if e mod 2 = 1 then e - 1 else e) div 2)
      } else promoted_mult x y)"
  by pat_completeness auto
termination
  by (relation "measure (\<lambda>(x, y, e). unat e)") (auto simp only: in_measure case_prod_conv dest: unat_half_less)

declare ipow_impl_loop.simps [simp del]

definition ipow_impl :: "'a::len word \<Rightarrow> 'e::len word \<Rightarrow> 'a word option" where
  "ipow_impl b e =
     do { p \<leftarrow> is_power_of_two False b;
          if p then ipow_impl_base_pow2 b e else ipow_impl_loop b 1 e }"

definition ipow :: "bool \<Rightarrow> bool \<Rightarrow> 'a::len word \<Rightarrow> 'e::len word \<Rightarrow> 'a word option" where
  "ipow b_signed e_signed b e =
     (if b = 0 \<and> e_signed \<and> sint e < 0 then None
      else if e = 0 \<or> b = 1 then Some 1
      else if e_signed \<and> sint e < 0 \<or> b = 0 then Some 0
      else do {
        res \<leftarrow> ipow_impl (if b_signed then uabs b else b) e;
        Some (if b_signed \<and> sint b < 0 \<and> e mod 2 = 1 then neg res else res)
      })"

subsection \<open>round\_up.h, round\_down.h, abs\_diff.h\<close>

text \<open>On two values of one type that is not promoted.\<close>

definition round_up :: "bool \<Rightarrow> 'a::len word \<Rightarrow> 'a word \<Rightarrow> 'a word option" where
  "round_up is_signed a b =
     (if \<not> (if is_signed then 0 < sint b \<and> 0 \<le> sint a else 0 < b) then None
      else do {
        c \<leftarrow> (if is_signed then ceil_div_signed a b else ceil_div_host a b);
        if unat c \<le> (if is_signed then 2 ^ (LENGTH('a) - 1) - 1 else 2 ^ LENGTH('a) - 1) div unat b
        then Some (c * b) else None
      })"

definition round_down :: "bool \<Rightarrow> 'a::len word \<Rightarrow> 'a word \<Rightarrow> 'a word option" where
  "round_down is_signed a b =
     (if \<not> (if is_signed then 0 < sint b \<and> 0 \<le> sint a else 0 < b) then None
      else Some (a div b * b))"

definition abs_diff :: "bool \<Rightarrow> 'a::len word \<Rightarrow> 'a word \<Rightarrow> 'a word" where
  "abs_diff is_signed lhs rhs =
     (let greater = (if is_signed then sint rhs < sint lhs else rhs < lhs);
          minuend = (if greater then lhs else rhs);
          subtrahend = (if greater then rhs else lhs)
      in minuend - subtrahend)"

subsection \<open>gcd\_lcm.h, midpoint.h\<close>

function gcd_impl :: "'a::len word \<Rightarrow> 'a word \<Rightarrow> 'a word" where
  "gcd_impl m n = (if n = 0 then m else gcd_impl n (m mod n))"
  by pat_completeness auto
termination
  by (relation "measure (\<lambda>(m, n). unat n)") (auto simp: unat_mod_distrib unat_gt_0 mod_less_divisor)

declare gcd_impl.simps [simp del]

definition gcd_std :: "bool \<Rightarrow> bool \<Rightarrow> 'a::len word \<Rightarrow> 'b::len word \<Rightarrow> 'r::len word" where
  "gcd_std m_signed n_signed m n =
     gcd_impl (ucast (if m_signed then uabs m else m)) (ucast (if n_signed then uabs n else n))"

text \<open>For two arguments of one type.\<close>

definition lcm_std :: "bool \<Rightarrow> 'a::len word \<Rightarrow> 'a word \<Rightarrow> 'a word option" where
  "lcm_std is_signed m n =
     (if m = 0 \<or> n = 0 then Some 0
      else let val1 = (if is_signed then uabs m else m) div gcd_std is_signed is_signed m n;
               val2 = (if is_signed then uabs n else n);
               max' = (if is_signed then drop_bit 1 (- 1) else - 1)
           in if val2 < max' div val1 then Some (val1 * val2) else None)"

definition midpoint :: "bool \<Rightarrow> 'a::len word \<Rightarrow> 'a word \<Rightarrow> 'a word" where
  "midpoint is_signed a b =
     (if (if is_signed then sint b < sint a else b < a)
      then let diff = a - b in a - diff div 2
      else let diff = b - a in a + diff div 2)"

section \<open>Square root\<close>

lemma isqrt_step_bound:
  fixes x Y root :: nat
  assumes "x \<le> Y" "0 < x" "root + 2 * x \<le> 2 * Y"
  shows "2 * root * x + x * x < 4 * (Y * Y)"
proof -
  have "2 * x * (root + 2 * x) \<le> 2 * x * (2 * Y)" using assms(3) by (rule mult_le_mono2)
  then have "2 * root * x + 4 * (x * x) \<le> 4 * (x * Y)" by (simp add: algebra_simps)
  moreover have "x * Y \<le> Y * Y" using assms(1) by (rule mult_le_mono1)
  moreover have "0 < x * x" using assms(2) by simp
  ultimately show ?thesis by linarith
qed

lemma isqrt_step:
  fixes uv ret b :: "'a::len word"
  assumes uv: "unat uv + root * root = n" and ret: "unat ret = 2 * root * x" and b: "unat b = x * x" and x: "0 < x"
    and fits: "2 * root * x + x * x < 2 ^ LENGTH('a)" and n: "n < (root + 2 * x) * (root + 2 * x)"
  shows "\<exists>root' uv' ret'. isqrt_loop uv ret b = isqrt_loop uv' ret' (drop_bit 2 b) \<and>
    unat uv' + root' * root' = n \<and> unat ret' = root' * x \<and> n < (root' + x) * (root' + x) \<and> root' \<le> root + x"
proof -
  have "b \<noteq> 0" using b x by auto
  have sum: "unat (ret + b) = 2 * root * x + x * x" using fits by (simp add: unat_word_ariths ret b)
  have half: "unat (drop_bit 1 ret) = root * x" by (simp add: unat_drop_half ret)
  have sq: "(root + x) * (root + x) = root * root + (2 * root * x + x * x)" by (simp add: algebra_simps)
  show ?thesis
  proof (cases "ret + b \<le> uv")
    case True
    then have le: "2 * root * x + x * x \<le> unat uv" using sum by (simp only: word_le_nat_alt)
    show ?thesis
    proof (rule exI [of _ "root + x"], rule exI [of _ "uv - (ret + b)"], rule exI [of _ "drop_bit 1 ret + b"], intro conjI)
      show "isqrt_loop uv ret b = isqrt_loop (uv - (ret + b)) (drop_bit 1 ret + b) (drop_bit 2 b)"
        using True \<open>b \<noteq> 0\<close> by (subst isqrt_loop.simps) simp
      have "unat (uv - (ret + b)) = unat uv - (2 * root * x + x * x)" using True by (simp only: unat_sub sum)
      then show "unat (uv - (ret + b)) + (root + x) * (root + x) = n" using le uv unfolding sq by linarith
      have "root * x + x * x < 2 ^ LENGTH('a)" using fits by (rule order.strict_trans1 [rotated]) simp
      then show "unat (drop_bit 1 ret + b) = (root + x) * x" by (simp only: unat_word_ariths half b add_mult_distrib mod_less)
      show "n < (root + x + x) * (root + x + x)" using n by (simp add: mult_2 add.assoc)
    qed simp
  next
    case False
    then have "unat uv < 2 * root * x + x * x" using sum by (simp only: word_le_nat_alt not_le)
    then have "n < (root + x) * (root + x)" using uv unfolding sq by linarith
    then have "isqrt_loop uv ret b = isqrt_loop uv (drop_bit 1 ret) (drop_bit 2 b) \<and> unat uv + root * root = n \<and>
        unat (drop_bit 1 ret) = root * x \<and> n < (root + x) * (root + x) \<and> root \<le> root + x"
      using False \<open>b \<noteq> 0\<close> uv half by (simp add: isqrt_loop.simps [of uv ret b])
    then show ?thesis by blast
  qed
qed

lemma isqrt_loop_spec:
  fixes uv ret b :: "'a::len word"
  assumes "unat uv + root * root = n" "unat ret = 2 * root * 2 ^ k" "unat b = 2 ^ k * 2 ^ k" "n < (root + 2 * 2 ^ k) * (root + 2 * 2 ^ k)"
    "root + 2 * 2 ^ k \<le> 2 * 2 ^ K" "k \<le> K" "4 * (2 ^ K * 2 ^ K) \<le> (2 :: nat) ^ LENGTH('a)"
  shows "\<exists>r. unat (isqrt_loop uv ret b) = r \<and> r * r \<le> n \<and> n < (r + 1) * (r + 1)"
  using assms
proof (induction k arbitrary: uv ret b root)
  case (0 uv ret b root)
  have "2 * root * 1 + 1 * 1 < 2 ^ LENGTH('a)" by (rule order.strict_trans2 [OF isqrt_step_bound 0(7)]) (use 0(5) in simp_all)
  then have "\<exists>root' uv' ret'. isqrt_loop uv ret b = isqrt_loop uv' ret' (drop_bit 2 b) \<and> unat uv' + root' * root' = n \<and>
      unat ret' = root' * 1 \<and> n < (root' + 1) * (root' + 1) \<and> root' \<le> root + 1"
    using 0(1-4) by (intro isqrt_step) simp_all
  then obtain root' uv' ret' where s: "isqrt_loop uv ret b = isqrt_loop uv' ret' (drop_bit 2 b)"
    "unat uv' + root' * root' = n" "unat ret' = root' * 1" "n < (root' + 1) * (root' + 1)"
    by blast
  have "unat (drop_bit 2 b) = 0" using 0(3) by (simp add: unat_drop_half)
  then have "drop_bit 2 b = 0" by (simp only: unat_eq_zero)
  then have "isqrt_loop uv ret b = ret'" using s(1) by (simp add: isqrt_loop.simps [of uv' ret' 0])
  then show ?case using s(2-4) by auto
next
  case (Suc k)
  let ?x = "2 * 2 ^ k :: nat"
  have "2 * root * ?x + ?x * ?x < 2 ^ LENGTH('a)"
    by (rule order.strict_trans2 [OF isqrt_step_bound Suc.prems(7)]) (use Suc.prems(5,6) power_increasing [OF Suc.prems(6), of "2 :: nat"] in simp_all)
  moreover have "unat ret = 2 * root * ?x" "unat b = ?x * ?x" "n < (root + 2 * ?x) * (root + 2 * ?x)" "0 < ?x" using Suc.prems(2-4) by simp_all
  ultimately obtain root' uv' ret' where s: "isqrt_loop uv ret b = isqrt_loop uv' ret' (drop_bit 2 b)"
    "unat uv' + root' * root' = n" "unat ret' = root' * ?x" "n < (root' + ?x) * (root' + ?x)" "root' \<le> root + ?x"
    using isqrt_step [of uv root n ret ?x b] Suc.prems(1) by blast
  have "unat (drop_bit 2 b) = 2 ^ k * 2 ^ k" using Suc.prems(3) by (simp add: unat_drop_half)
  then show ?case unfolding s(1) using s(2-5) Suc.prems(5-7) by (intro Suc.IH [of uv' root']) simp_all
qed

lemma isqrt_eq:
  fixes v :: "'a::len word"
  assumes w: "int_width LENGTH('a)" and v: "\<not> (is_signed \<and> sint v < 0)"
  shows "\<exists>r. isqrt is_signed v = Some r \<and> unat r * unat r \<le> unat v \<and> unat v < (unat r + 1) * (unat r + 1)"
proof (cases "v \<le> 1")
  case True
  then have "unat v \<le> 1" by (simp add: word_le_nat_alt)
  then have "unat v = 0 \<or> unat v = 1" by linarith
  then show ?thesis using True v by (auto simp: isqrt_def)
next
  case False
  then have "v \<noteq> 0" by auto
  then obtain l where l: "highest_bit v l" using highest_bit_exists by blast
  note b = highest_bit_bounds [OF l]
  have bw: "bit_width v = int l + 1" by (rule bit_log2_spec(2) [OF int_width_facts(1) [OF w] l int_width_facts(2) [OF w]])
  define K where "K = l div 2"
  have "int l AND NOT 1 = unset_bit 0 (int l)" by (simp add: unset_bit_int_def)
  then have shift: "nat ((bit_width v - 1) AND NOT 1) = 2 * K" by (simp add: bw unset_bit_0 K_def nat_mult_distrib nat_div_distrib)
  have l2: "l < LENGTH('a)" by (rule highest_bit_length [OF l])
  obtain h where h: "LENGTH('a) = 2 * h" using int_width_facts(3) [OF w] by blast
  have K: "2 * K + 2 \<le> LENGTH('a)" "Suc l \<le> 2 * K + 2" "2 * K < LENGTH('a)" 
    using l2 h less_mult_imp_div_less [of l h 2] div_mult_mod_eq [of l 2] mod_less_divisor [of 2 l] unfolding K_def by linarith+
  have "unat v < 2 ^ (2 * K + 2)" using b(2) power_increasing [OF K(2), of "2 :: nat"] by simp
  then have lt: "unat v < (0 + 2 * 2 ^ K) * (0 + 2 * 2 ^ K)" by (simp add: power_add mult_2 [of K])
  have fits: "4 * (2 ^ K * 2 ^ K) \<le> (2 :: nat) ^ LENGTH('a)" using power_increasing [OF K(1), of "2 :: nat"] by (simp add: power_add mult_2)
  have bit: "unat (push_bit (2 * K) 1 :: 'a word) = 2 ^ K * 2 ^ K" using unat_push_1 [OF K(3)] by (simp add: power_add mult_2)
  have "\<exists>r. unat (isqrt_loop v 0 (push_bit (2 * K) 1)) = r \<and> r * r \<le> unat v \<and> unat v < (r + 1) * (r + 1)"
    by (rule isqrt_loop_spec [OF _ _ bit lt _ order.refl fits]) simp_all
  moreover have "isqrt is_signed v = Some (isqrt_loop v 0 (push_bit (2 * K) 1))" unfolding isqrt_def shift using False v by (simp only: if_False)
  ultimately show ?thesis by blast
qed

section \<open>Powers\<close>

lemma promoted_mult_eq: "LENGTH('a) \<noteq> 16 \<Longrightarrow> int_width LENGTH('a) \<Longrightarrow> promoted_mult x y = Some (x * y)" for x y :: "'a::len word"
proof (cases "LENGTH('a) < 32")
  case True
  assume "LENGTH('a) \<noteq> 16" "int_width LENGTH('a)"
  then have "LENGTH('a) = 8" using True by (auto simp: int_width_def)
  then have "unat x < 2 ^ 8" "unat y < 2 ^ 8" using unsigned_less [of x, where 'a = nat] unsigned_less [of y, where 'a = nat] by simp_all
  then have "unat x * unat y < 2 ^ 8 * 2 ^ 8" by (rule mult_less_square)
  then show ?thesis by (simp add: promoted_mult_def)
qed (simp add: promoted_mult_def)

lemma square_power: "(if odd n then y * x else y) * (x * x) ^ (n div 2) = y * x ^ n" for x y :: "'a::comm_monoid_mult"
proof -
  have "x ^ n = (if odd n then x else 1) * (x * x) ^ (n div 2)"
  proof (cases "odd n")
    case True
    then obtain k where "n = 2 * k + 1" by (elim oddE)
    then show ?thesis by (simp add: power_mult_distrib power_add mult_2)
  next
    case False
    then obtain k where "n = 2 * k" using evenE by blast
    then show ?thesis by (simp add: power_mult_distrib power_add mult_2)
  qed
  then show ?thesis by (simp add: mult.assoc)
qed

lemma ipow_impl_loop_eq:
  fixes x y :: "'a::len word" and e :: "'e::len word"
  assumes w: "LENGTH('a) \<noteq> 16" "int_width LENGTH('a)" and e: "e \<noteq> 0"
  shows "ipow_impl_loop x y e = Some (y * x ^ unat e)"
  using e
proof (induction x y e rule: ipow_impl_loop.induct)
  case (1 x y e)
  show ?case
  proof (cases "1 < e")
    case True
    note half = unat_half [OF True]
    let ?e = "(if e mod 2 = 1 then e - 1 else e) div 2" and ?y = "if e mod 2 = 1 then y * x else y"
    have "unat ?e \<noteq> 0" unfolding half(1) using half(3) by simp
    then have "?e \<noteq> 0" using unat_eq_zero [of ?e] by simp
    then have "ipow_impl_loop (x * x) ?y ?e = Some (?y * (x * x) ^ (unat e div 2))"
      using 1(1) [OF True, of ?y "x * x"] w by (simp add: promoted_mult_eq half(1))
    moreover have "?y * (x * x) ^ (unat e div 2) = y * x ^ unat e"
      unfolding half(2) by (rule square_power)
    ultimately show ?thesis using True w by (subst ipow_impl_loop.simps) (cases "e mod 2 = 1"; simp add: promoted_mult_eq)
  next
    case False
    then have "unat e \<le> 1" by (simp add: word_less_nat_alt)
    moreover have "unat e \<noteq> 0" using 1(2) by (simp add: unat_eq_zero)
    ultimately have "unat e = 1" by linarith
    then show ?thesis using False w by (subst ipow_impl_loop.simps) (simp add: promoted_mult_eq mult.commute)
  qed
qed

lemma sint_of_small_unat: "unat x = k \<Longrightarrow> k < 2 ^ (LENGTH('a) - 1) \<Longrightarrow> sint x = int k" for x :: "'a::len word"
proof -
  assume "unat x = k" and k: "k < 2 ^ (LENGTH('a) - 1)"
  then have u: "uint x = int k" by auto
  have "(2 :: int) ^ LENGTH('a) = 2 * 2 ^ (LENGTH('a) - 1)" by (simp flip: power_Suc)
  moreover have "int k < 2 ^ (LENGTH('a) - 1)" using k by (metis of_nat_less_iff of_nat_numeral of_nat_power)
  ultimately show ?thesis using uint_signed [of x] sint_ge [of x] u by (cases "sint x < 0") (simp only: if_True if_False; linarith)+
qed

lemma power_of_two_facts:
  fixes b :: "'a::len word"
  assumes w: "int_width LENGTH('a)" and b: "unat b = 2 ^ l"
  shows "l < LENGTH('a)" "ilog2 b = Some l" "countl_zero b = LENGTH('a) - 1 - l"
proof -
  have "b \<noteq> 0" using b by auto
  then obtain n where n: "highest_bit b n" using highest_bit_exists by blast
  have "n \<le> l" by (rule power_le_imp_le_exp [OF _ highest_bit_bounds(1) [OF n, unfolded b]]) simp
  moreover have "l < Suc n" by (rule power_less_imp_less_exp [OF _ highest_bit_bounds(2) [OF n, unfolded b]]) simp
  ultimately have "n = l" by simp
  note hb = n [unfolded \<open>n = l\<close>]
  show "l < LENGTH('a)" by (rule highest_bit_length [OF hb])
  show "ilog2 b = Some l" using bit_log2_spec(1) [OF int_width_facts(1) [OF w] hb int_width_facts(2) [OF w]] \<open>b \<noteq> 0\<close> by (simp add: ilog2_def)
  show "countl_zero b = LENGTH('a) - 1 - l" by (rule countl_zero_spec [OF int_width_facts(1) [OF w] hb])
qed

lemma ipow_impl_base_pow2_eq:
  fixes b :: "'a::len word" and e :: "'e::len word"
  assumes w: "int_width LENGTH('a)" and b: "unat b = 2 ^ l" and e: "e \<noteq> 0" "unat e * LENGTH('a) < 2 ^ 31"
  shows "ipow_impl_base_pow2 b e = Some (if l * unat e = LENGTH('a) - 1 then 0 else b ^ unat e)"
proof -
  note l = power_of_two_facts(1) [OF w b] and il = power_of_two_facts(2) [OF w b] and lz = power_of_two_facts(3) [OF w b]
  define k where "k = unat e"
  have k: "0 < k" using e(1) by (simp add: k_def unat_gt_0)
  have "k * 1 \<le> k * LENGTH('a)" by (intro mult_le_mono2) (simp add: Suc_leI)
  then have k31: "k < 2 ^ 31" using e(2) unfolding k_def by linarith
  have "unat (e - 1) = k - 1" using unat_minus_one [OF e(1)] by (simp add: k_def)
  then have "unat (ucast (e - 1) :: 32 word) = (k - 1) mod 2 ^ 32" by (simp add: unat_ucast_mod)
  then have u: "unat (ucast (e - 1) :: 32 word) = k - 1" using k31 by simp
  have "sint (ucast (e - 1) :: 32 word) = int (k - 1)" using sint_of_small_unat [OF u] k31 by simp
  moreover define x where "x = (k - 1) * l"
  ultimately have shift: "sint (ucast (e - 1) :: 32 word) * int l = int x" by simp
  have "x \<le> k * LENGTH('a)" unfolding x_def using l by (intro mult_le_mono) simp_all
  then have "int x < int (2 ^ 31)" using e(2) unfolding k_def [symmetric] of_nat_less_iff by (rule order.strict_trans1)
  then have ev: "ipow_impl_base_pow2 b e = (if LENGTH('a) - 1 - l \<le> x then Some 0 else Some (push_bit x b))"
    by (simp add: ipow_impl_base_pow2_def il shift lz Let_def)
  have sum: "x + l = l * k" using k by (cases k) (simp_all add: x_def)
  have bp: "b = 2 ^ l" using word_of_nat_unat [of b] b by simp
  have "b ^ k = (2 :: 'a word) ^ (l * k)" by (simp add: bp power_mult)
  show ?thesis
  proof (cases "LENGTH('a) - 1 - l \<le> x")
    case True
    then have "LENGTH('a) - 1 \<le> l * k" using sum by linarith
    then have "l * k \<noteq> LENGTH('a) - 1 \<Longrightarrow> b ^ k = 0" unfolding \<open>b ^ k = 2 ^ (l * k)\<close> by (intro exp_eq_zero_iff [THEN iffD2]) simp
    then show ?thesis using True by (simp add: ev k_def)
  next
    case False
    then have "l * k \<noteq> LENGTH('a) - 1" using sum by linarith
    moreover have "push_bit x b = b ^ k" unfolding \<open>b ^ k = 2 ^ (l * k)\<close> by (simp add: push_bit_eq_mult bp sum [symmetric] power_add)
    ultimately show ?thesis using False by (simp add: ev k_def)
  qed
qed

text \<open>The absolute value of a word read as a signed or unsigned number.\<close>

definition magnitude :: "bool \<Rightarrow> 'a::len word \<Rightarrow> nat" where
  "magnitude is_signed x = (if is_signed then nat \<bar>sint x\<bar> else unat x)"

lemma unat_magnitude: "unat (if s then uabs x else x) = magnitude s x"
  using arg_cong [OF uabs_eq [of x], of nat] by (simp only: magnitude_def nat_int split: if_splits) simp

lemma magnitude_zero: "magnitude s x = 0 \<longleftrightarrow> x = 0"
proof -
  have "unat (if s then uabs x else x) = 0 \<longleftrightarrow> x = 0" unfolding unat_eq_zero by (auto simp: uabs_def neg_eq)
  then show ?thesis by (simp only: unat_magnitude)
qed

lemma int_width_2: "int_width LENGTH('e) \<Longrightarrow> unat (2 :: 'e::len word) = 2"
  using unat_of_nat_small [of 2, where 'a = 'e] by (auto simp: int_width_def)

lemma mod_2_odd: "int_width LENGTH('e) \<Longrightarrow> e mod 2 = 1 \<longleftrightarrow> odd (unat e)" for e :: "'e::len word"
  using word_unat_eq_iff [of "e mod 2" 1] int_width_2 [where 'e = 'e] by (simp add: unat_mod_distrib odd_iff_mod_2_eq_one)

lemma promoted_mult_Some: "promoted_mult x y = Some z \<Longrightarrow> z = x * y"
  by (simp add: promoted_mult_def split: if_splits)

text \<open>At every width, a result of the loop is the power: only the promoted multiplication of 16 bits can fail.\<close>

lemma ipow_impl_loop_Some:
  fixes x y :: "'a::len word" and e :: "'e::len word"
  assumes "ipow_impl_loop x y e = Some z" "e \<noteq> 0"
  shows "z = y * x ^ unat e"
  using assms
proof (induction x y e rule: ipow_impl_loop.induct)
  case (1 x y e)
  show ?case
  proof (cases "1 < e")
    case True
    note half = unat_half [OF True]
    let ?e = "(if e mod 2 = 1 then e - 1 else e) div 2" and ?y = "if e mod 2 = 1 then promoted_mult y x else Some y"
    obtain y' x' where yx: "?y = Some y'" "promoted_mult x x = Some x'" "ipow_impl_loop x' y' ?e = Some z"
      using 1(2) True by (subst (asm) ipow_impl_loop.simps) (auto simp: bind_eq_Some_conv)
    have "unat ?e \<noteq> 0" unfolding half(1) using half(3) by simp
    then have "?e \<noteq> 0" using unat_eq_zero [of ?e] by simp
    then have "z = y' * x' ^ unat ?e" by (rule 1(1) [OF True yx])
    moreover have "x' = x * x" by (rule promoted_mult_Some [OF yx(2)])
    moreover have "y' = (if odd (unat e) then y * x else y)" using yx(1) promoted_mult_Some [of y x y'] half(2) by (cases "odd (unat e)") simp_all
    ultimately show ?thesis unfolding half(1) by (simp only: square_power)
  next
    case False
    then have "unat e \<le> 1" by (simp add: word_less_nat_alt)
    moreover have "unat e \<noteq> 0" using 1(3) by (simp add: unat_eq_zero)
    ultimately have "unat e = 1" by linarith
    moreover have "promoted_mult x y = Some z" using 1(2) False by (subst (asm) ipow_impl_loop.simps) simp
    ultimately show ?thesis using promoted_mult_Some [of x y z] by (simp add: mult.commute)
  qed
qed

lemma ipow_impl_eq:
  fixes b :: "'a::len word" and e :: "'e::len word"
  assumes w: "int_width LENGTH('a)" and e: "e \<noteq> 0" "(\<exists>l. unat b = 2 ^ l) \<longrightarrow> unat e * LENGTH('a) < 2 ^ 31"
  shows "ipow_impl b e = Some (if \<exists>l. unat b = 2 ^ l \<and> l * unat e = LENGTH('a) - 1 then 0 else b ^ unat e) \<or>
    LENGTH('a) = 16 \<and> (\<nexists>l. unat b = 2 ^ l) \<and> ipow_impl b e = None"
proof (cases "\<exists>l. unat b = 2 ^ l")
  case True
  then obtain l where l: "unat b = 2 ^ l" ..
  then have "(\<exists>l. unat b = 2 ^ l \<and> l * unat e = LENGTH('a) - 1) \<longleftrightarrow> l * unat e = LENGTH('a) - 1" by auto
  moreover have "is_power_of_two False b = Some True" using True by (simp add: is_power_of_two_def has_single_bit_iff [OF int_width_facts(1) [OF w]])
  ultimately show ?thesis using ipow_impl_base_pow2_eq [OF w l e(1)] e(2) True by (simp add: ipow_impl_def)
next
  case False
  then have "is_power_of_two False b = Some False" by (simp add: is_power_of_two_def has_single_bit_iff [OF int_width_facts(1) [OF w]])
  then have i: "ipow_impl b e = ipow_impl_loop b 1 e" by (simp add: ipow_impl_def)
  have P: "\<not> (\<exists>l. unat b = 2 ^ l \<and> l * unat e = LENGTH('a) - 1)" using False by blast
  show ?thesis
  proof (cases "ipow_impl_loop b 1 e")
    case None
    then have "LENGTH('a) = 16" using ipow_impl_loop_eq [OF _ w e(1), of b 1] by fastforce
    then show ?thesis using None False i by simp
  next
    case (Some z)
    then have "z = b ^ unat e" using ipow_impl_loop_Some [OF Some e(1)] by simp
    then show ?thesis unfolding if_not_P [OF P] i Some by blast
  qed
qed

section \<open>Common divisors and multiples\<close>

lemma gcd_impl_eq: "unat (gcd_impl m n) = gcd (unat m) (unat n)"
proof (induction m n rule: gcd_impl.induct)
  case (1 m n)
  show ?case
  proof (cases "n = 0")
    case False
    then show ?thesis using 1 gcd_red_nat [of "unat m" "unat n"] by (subst gcd_impl.simps) (simp add: unat_mod_distrib)
  qed (simp add: gcd_impl.simps)
qed

lemma gcd_std_eq:
  fixes m :: "'a::len word" and n :: "'b::len word"
  assumes "LENGTH('a) \<le> LENGTH('r)" "LENGTH('b) \<le> LENGTH('r)"
  shows "unat (gcd_std ms ns m n :: 'r::len word) = gcd (magnitude ms m) (magnitude ns n)"
  using unat_magnitude [of ms m] unat_magnitude [of ns n] assms by (simp add: gcd_std_def gcd_impl_eq unat_ucast_up)

lemma unat_type_max:
  "unat (if s then drop_bit 1 (- 1) else - 1 :: 'a::len word) = (if s then 2 ^ (LENGTH('a) - 1) - 1 else 2 ^ LENGTH('a) - 1)"
proof -
  define M :: nat where "M = 2 ^ (LENGTH('a) - 1)"
  have M: "2 ^ LENGTH('a) = 2 * M" "0 < M" by (simp_all add: M_def flip: power_Suc)
  have "unat (drop_bit 1 (- 1 :: 'a word)) = (2 * M - 1) div 2" by (simp only: unat_drop_half unat_minus_1 M power_one_right)
  also have "\<dots> = M - 1" using M(2) by (cases M) simp_all
  finally show ?thesis unfolding M(1) M_def [symmetric] using unat_minus_1 [where 'l = 'a] M(1) by simp
qed

lemma lcm_eq_gcd: "0 < m \<Longrightarrow> 0 < n \<Longrightarrow> m div gcd m n * n = lcm m n" for m n :: nat
  by (simp add: lcm_nat_def div_mult_swap dvd_div_mult)

section \<open>Midpoint\<close>

lemma half_of_difference:
  fixes x :: "'a::len word"
  assumes "int_width LENGTH('a)" "x = of_int D" "0 \<le> D" "D < 2 ^ LENGTH('a)"
  shows "x div 2 = of_int (D div 2)"
proof -
  have two: "uint (2 :: 'a word) = 2" using int_width_2 [OF assms(1)] by (metis of_nat_numeral uint_nat)
  have "uint x = D" using assms(2-4) by (simp add: unsigned_of_int take_bit_int_eq_self)
  then have "uint (x div 2) = D div 2" by (simp only: uint_div_distrib two)
  then show ?thesis using word_of_int_uint [of "x div 2"] by simp
qed

lemma midpoint_range:
  fixes a b :: int
  shows "a \<le> b \<Longrightarrow> a + (b - a) div 2 = (a + b) div 2 \<and> a \<le> (a + b) div 2 \<and> (a + b) div 2 \<le> b"
    and "b < a \<Longrightarrow> a - (a - b) div 2 = (a + b + 1) div 2 \<and> b \<le> (a + b + 1) div 2 \<and> (a + b + 1) div 2 \<le> a"
  by linarith+

lemma midpoint_of_int:
  fixes a b :: "'a::len word" and A B :: int
  assumes w: "int_width LENGTH('a)" and ab: "a = of_int A" "b = of_int B" and d: "\<bar>A - B\<bar> < 2 ^ LENGTH('a)"
  shows "A \<le> B \<Longrightarrow> a + (b - a) div 2 = of_int ((A + B) div 2)" "B < A \<Longrightarrow> a - (a - b) div 2 = of_int ((A + B + 1) div 2)"
proof -
  assume "A \<le> B"
  then have "(b - a) div 2 = of_int ((B - A) div 2)" using d by (intro half_of_difference [OF w]) (simp_all add: ab)
  then have "a + (b - a) div 2 = of_int (A + (B - A) div 2)" by (simp add: ab)
  then show "a + (b - a) div 2 = of_int ((A + B) div 2)" using midpoint_range(1) [OF \<open>A \<le> B\<close>] by (simp only:)
next
  assume "B < A"
  then have "(a - b) div 2 = of_int ((A - B) div 2)" using d by (intro half_of_difference [OF w]) (simp_all add: ab)
  then have "a - (a - b) div 2 = of_int (A - (A - B) div 2)" by (simp add: ab)
  then show "a - (a - b) div 2 = of_int ((A + B + 1) div 2)" using midpoint_range(2) [OF \<open>B < A\<close>] by (simp only:)
qed

section \<open>Rounding and differences\<close>

lemma round_down_eq:
  fixes a b :: "'a::len word"
  assumes "if is_signed then 0 < sint b \<and> 0 \<le> sint a else 0 < b"
  shows "\<exists>r. round_down is_signed a b = Some r \<and> unat r = unat a div unat b * unat b"
proof -
  have "unat a div unat b * unat b < 2 ^ LENGTH('a)" by (rule order.strict_trans1 [OF div_times_less_eq_dividend unsigned_less])
  then have "unat (a div b * b) = unat a div unat b * unat b" using unat_mult_small [of "a div b" b] by (simp add: unat_word_div)
  then show ?thesis using assms by (simp add: round_down_def)
qed

lemma round_up_eq:
  fixes a b :: "'a::len word"
  assumes valid: "if is_signed then 0 < sint b \<and> 0 \<le> sint a else 0 < b"
  defines "m \<equiv> ceil_quot (unat a) (unat b) * unat b" and "top' \<equiv> if is_signed then 2 ^ (LENGTH('a) - 1) - 1 else 2 ^ LENGTH('a) - 1"
  shows "if m \<le> top' then \<exists>r. round_up is_signed a b = Some r \<and> unat r = m else round_up is_signed a b = None"
proof -
  have "b \<noteq> 0" using valid by (auto split: if_splits)
  then have b: "0 < unat b" by (simp add: unat_gt_0)
  obtain c where c: "(if is_signed then ceil_div_signed a b else ceil_div_host a b) = Some c" "unat c = ceil_quot (unat a) (unat b)"
    using valid ceil_div_signed_eq [of b a] ceil_div_host_eq [OF \<open>b \<noteq> 0\<close>, of a] by (cases is_signed) auto
  have le: "unat c \<le> top' div unat b \<longleftrightarrow> m \<le> top'" using b by (simp add: less_eq_div_iff_mult_less_eq c(2) m_def)
  have ev: "round_up is_signed a b = (if m \<le> top' then Some (c * b) else None)"
    using valid c(1) by (simp add: round_up_def le top'_def [symmetric])
  have "top' < 2 ^ LENGTH('a)"
    using unat_type_max [of is_signed, where 'a = 'a] unsigned_less [of "if is_signed then drop_bit 1 (- 1) else - 1 :: 'a word", where 'a = nat]
    by (simp add: top'_def)
  then have "m \<le> top' \<Longrightarrow> unat (c * b) = m" using unat_mult_small [of c b] by (simp add: c(2) m_def)
  then show ?thesis by (simp add: ev)
qed

lemma abs_diff_eq:
  fixes a b :: "'a::len word"
  shows "uint (abs_diff True a b) = \<bar>sint a - sint b\<bar>" "uint (abs_diff False a b) = \<bar>uint a - uint b\<bar>"
proof -
  define M :: int where "M = 2 ^ (LENGTH('a) - 1)"
  have M: "2 ^ LENGTH('a) = 2 * M" by (simp add: M_def flip: power_Suc)
  have in_u: "uint (of_int q :: 'a word) = q" if "0 \<le> q" "q < 2 * M" for q
    using that by (simp add: unsigned_of_int take_bit_int_eq_self M)
  have sr: "- M \<le> sint a" "sint a < M" "- M \<le> sint b" "sint b < M" by (simp_all only: M_def sint_ge sint_lt)
  have "abs_diff True a b = of_int \<bar>sint a - sint b\<bar>" by (simp add: abs_diff_def Let_def)
  then show "uint (abs_diff True a b) = \<bar>sint a - sint b\<bar>" using sr by (simp add: in_u)
  have ur: "0 \<le> uint a" "uint a < 2 * M" "0 \<le> uint b" "uint b < 2 * M" using uint_lt2p [of a] uint_lt2p [of b] by (simp_all add: M)
  have "abs_diff False a b = of_int \<bar>uint a - uint b\<bar>" by (simp add: abs_diff_def Let_def word_less_def)
  moreover have "\<bar>uint a - uint b\<bar> < 2 * M" using ur by linarith
  ultimately show "uint (abs_diff False a b) = \<bar>uint a - uint b\<bar>" by (simp only: in_u abs_ge_zero)
qed

section \<open>Properties\<close>

text \<open>
  C33: integer square root.  For every non-negative value of 8 to 128 bits the loop ends without overflow with the square root rounded
  down; a negative value fails the assertion.
\<close>

theorem isqrt_correct:
  fixes v :: "'a::len word"
  assumes "int_width LENGTH('a)"
  shows "if is_signed \<and> sint v < 0 then isqrt is_signed v = None
    else \<exists>r. isqrt is_signed v = Some r \<and> (unat r)\<^sup>2 \<le> unat v \<and> unat v < (unat r + 1)\<^sup>2"
  using isqrt_eq [OF assms, of is_signed v] by (auto simp: isqrt_def power2_eq_square)

theorem isqrt_correct_witness:
  "\<exists>r. isqrt False (- 1 :: 16 word) = Some r \<and> (unat r)\<^sup>2 \<le> unat (- 1 :: 16 word) \<and> unat (- 1 :: 16 word) < (unat r + 1)\<^sup>2"
  using isqrt_correct [of False "- 1 :: 16 word"] by (simp add: int_width_def)

text \<open>
  C34: integer powers.  \<^verbatim>\<open>ipow\<close> is the power modulo \<open>2 ^ N\<close> for every base and non-negative exponent, with these exceptions.  Where the
  absolute value of the base is a power of two and the result is \<open>2 ^ (N - 1)\<close>, which an unsigned type holds and a signed type holds
  negated, it returns 0, because the shift is compared with the number of leading zeros by \<open>\<ge>\<close> instead of \<open>>\<close>.  Where the base has 16 bits
  and is not a power of two, a product of type \<^verbatim>\<open>int\<close> may overflow, which is undefined.  For a power of two nothing is said of exponents
  whose product with \<open>N\<close> is \<open>2 ^ 31\<close> or more, where the exponent is cut to an \<^verbatim>\<open>int\<close> or the shift overflows.
\<close>

theorem ipow_exact:
  fixes b :: "'a::len word" and e :: "'e::len word"
  assumes w: "int_width LENGTH('a)" "int_width LENGTH('e)"
    and e: "\<not> (e_signed \<and> sint e < 0)" "(\<exists>l. magnitude b_signed b = 2 ^ l) \<longrightarrow> unat e * LENGTH('a) < 2 ^ 31"
  shows "ipow b_signed e_signed b e =
      Some (if \<exists>l. magnitude b_signed b = 2 ^ l \<and> l * unat e = LENGTH('a) - 1 then 0 else b ^ unat e) \<or>
    LENGTH('a) = 16 \<and> (\<nexists>l. magnitude b_signed b = 2 ^ l) \<and> ipow b_signed e_signed b e = None"
proof -
  have N: "LENGTH('a) - 1 \<noteq> 0" using w(1) by (auto simp: int_width_def)
  consider "e = 0" | "e \<noteq> 0" "b = 1" | "e \<noteq> 0" "b = 0" | "e \<noteq> 0" "b \<noteq> 1" "b \<noteq> 0" by blast
  then show ?thesis
  proof cases
    case 1
    then show ?thesis using e N by (simp add: ipow_def)
  next
    case 2
    have "magnitude b_signed (1 :: 'a word) = 1" using N by (simp add: magnitude_def)
    then have "l = 0" if "magnitude b_signed b = 2 ^ l" for l using that [symmetric] 2(2) by simp
    then have "\<not> (\<exists>l. magnitude b_signed b = 2 ^ l \<and> l * unat e = LENGTH('a) - 1)" using N by (metis mult_zero_left)
    then show ?thesis using 2 e(1) by (simp add: ipow_def)
  next
    case 3
    then have "unat e \<noteq> 0" by (simp add: unat_eq_zero)
    then show ?thesis using 3 e(1) magnitude_zero [of b_signed "0 :: 'a word"] by (auto simp: ipow_def zero_power)
  next
    case 4
    let ?u = "if b_signed then uabs b else b" and ?P = "\<exists>l. magnitude b_signed b = 2 ^ l \<and> l * unat e = LENGTH('a) - 1"
    have i: "ipow_impl ?u e = Some (if ?P then 0 else ?u ^ unat e) \<or> LENGTH('a) = 16 \<and> (\<nexists>l. magnitude b_signed b = 2 ^ l) \<and> ipow_impl ?u e = None"
      using ipow_impl_eq [OF w(1) 4(1), of ?u, unfolded unat_magnitude, OF e(2)] .
    have u: "?u = (if b_signed \<and> sint b < 0 then - b else b)" by (simp add: uabs_def neg_eq)
    have "(if b_signed \<and> sint b < 0 \<and> odd (unat e) then - (?u ^ unat e) else ?u ^ unat e) = b ^ unat e" unfolding u by (simp add: power_minus_odd power_minus_even)
    then have neg: "(if b_signed \<and> sint b < 0 \<and> odd (unat e) then neg (if p then 0 else ?u ^ unat e) else if p then 0 else ?u ^ unat e) =
        (if p then 0 else b ^ unat e)" for p
      by (cases p) (auto simp: neg_eq split: if_splits)
    have ev: "ipow b_signed e_signed b e = do { res \<leftarrow> ipow_impl ?u e; Some (if b_signed \<and> sint b < 0 \<and> odd (unat e) then neg res else res) }"
      using 4 e(1) by (auto simp: ipow_def mod_2_odd [OF w(2)])
    from i show ?thesis
    proof
      assume "ipow_impl ?u e = Some (if ?P then 0 else ?u ^ unat e)"
      then show ?thesis unfolding ev by (simp only: bind.bind_lunit neg simp_thms)
    qed (simp only: ev, simp)
  qed
qed

theorem ipow_exact_witness:
  "ipow True True (- 3 :: 32 word) (5 :: 8 word) = Some (- 243) \<and> ipow False True (2 :: 32 word) (31 :: 32 word) = Some 0"
proof
  have "\<nexists>l. (3 :: nat) = 2 ^ l" using three_not_power by auto
  then show "ipow True True (- 3 :: 32 word) (5 :: 8 word) = Some (- 243)"
    using ipow_exact [of True "5 :: 8 word" True "- 3 :: 32 word"] by (auto simp: int_width_def magnitude_def)
  have "\<exists>l. (2 :: nat) = 2 ^ l \<and> l * 31 = 31" by (rule exI [of _ 1]) simp
  then show "ipow False True (2 :: 32 word) (31 :: 32 word) = Some 0"
    using ipow_exact [of True "31 :: 32 word" False "2 :: 32 word"] by (simp add: int_width_def magnitude_def)
qed

text \<open>
  Outside of these bounds: the square of the largest value of 16 bits overflows \<^verbatim>\<open>int\<close>, and \<open>2\<close> to the power of \<open>2 ^ 32 + 1\<close>, which is 0 modulo
  \<open>2 ^ 32\<close>, comes out as 2.
\<close>

lemma ipow_promoted_overflow: "ipow False False (- 1 :: 16 word) (2 :: 8 word) = None"
proof -
  have w: "int_width LENGTH(16)" and u: "unat (- 1 :: 16 word) = 65535"
    by (simp_all add: int_width_def unsigned_minus_1_eq_mask mask_eq_exp_minus_1)
  have "\<nexists>l. (65535 :: nat) = 2 ^ l"
  proof
    assume "\<exists>l. (65535 :: nat) = 2 ^ l"
    then obtain l where l: "(65535 :: nat) = 2 ^ l" ..
    then have "odd ((2 :: nat) ^ l)" by (simp flip: l)
    then have "l = 0" by simp
    then show False using l by simp
  qed
  then have "is_power_of_two False (- 1 :: 16 word) = Some False" by (simp add: is_power_of_two_def has_single_bit_iff [OF int_width_facts(1) [OF w]] u)
  moreover have "promoted_mult (- 1 :: 16 word) (- 1) = None" by (simp add: promoted_mult_def u)
  ultimately show ?thesis by (simp add: ipow_def ipow_impl_def ipow_impl_loop.simps)
qed

lemma ipow_exponent_cut: "ipow False False (2 :: 32 word) (4294967297 :: 64 word) = Some 2"
proof -
  have w: "int_width LENGTH(32)" and u: "unat (2 :: 32 word) = 2 ^ 1" by (simp_all add: int_width_def)
  have "has_single_bit (2 :: 32 word)" using has_single_bit_iff [OF int_width_facts(1) [OF w], of 2] u by blast
  then have "is_power_of_two False (2 :: 32 word) = Some True" by (simp add: is_power_of_two_def)
  moreover have "ipow_impl_base_pow2 (2 :: 32 word) (4294967297 :: 64 word) = Some 2"
    by (simp add: ipow_impl_base_pow2_def power_of_two_facts [OF w u])
  ultimately show ?thesis by (simp add: ipow_def ipow_impl_def)
qed

text \<open>
  C35: least common multiple.  \<^verbatim>\<open>lcm\<close> of two arguments of one type returns the least common multiple of their absolute values exactly
  where \<open>lcm + \<bar>m\<bar> div gcd\<close> does not exceed the largest value of the type, and fails its assertion otherwise: also for
  results that the type holds, and depending on the order of the arguments.
\<close>

theorem lcm_exact:
  fixes m n :: "'a::len word" and is_signed :: bool
  defines "M \<equiv> magnitude is_signed m" and "N \<equiv> magnitude is_signed n"
    and "top' \<equiv> if is_signed then 2 ^ (LENGTH('a) - 1) - 1 else 2 ^ LENGTH('a) - 1"
  shows "if m = 0 \<or> n = 0 \<or> lcm M N + M div gcd M N \<le> top'
    then \<exists>r. lcm_std is_signed m n = Some r \<and> unat r = lcm M N else lcm_std is_signed m n = None"
proof (cases "m = 0 \<or> n = 0")
  case True
  then have "lcm M N = 0" using magnitude_zero [of is_signed m] magnitude_zero [of is_signed n] by (auto simp: M_def N_def)
  then show ?thesis using True by (auto simp: lcm_std_def)
next
  case False
  then have pos: "0 < M" "0 < N" using magnitude_zero [of is_signed m] magnitude_zero [of is_signed n] by (auto simp: M_def N_def)
  let ?m = "if is_signed then uabs m else m" and ?n = "if is_signed then uabs n else n"
    and ?max = "if is_signed then drop_bit 1 (- 1) else - 1 :: 'a word"
  define v1 where "v1 = ?m div gcd_std is_signed is_signed m n"
  define V1 where "V1 = M div gcd M N"
  have v1: "unat v1 = V1" unfolding v1_def V1_def unat_word_div gcd_std_eq [OF order.refl order.refl] unat_magnitude M_def N_def ..
  have V1: "0 < V1" using pos by (simp add: V1_def div_greater_zero_iff)
  have l: "V1 * N = lcm M N" using lcm_eq_gcd [OF pos] by (simp only: V1_def)
  have "?n < ?max div v1 \<longleftrightarrow> N < top' div V1" by (simp only: word_less_nat_alt unat_word_div unat_type_max v1 unat_magnitude M_def N_def top'_def)
  also have "\<dots> \<longleftrightarrow> Suc N * V1 \<le> top'" using V1 by (simp only: less_eq_Suc_le less_eq_div_iff_mult_less_eq)
  also have "Suc N * V1 = lcm M N + V1" using l by (simp add: mult.commute add.commute)
  finally have c: "?n < ?max div v1 \<longleftrightarrow> lcm M N + V1 \<le> top'" .
  have ev: "lcm_std is_signed m n = (if lcm M N + V1 \<le> top' then Some (v1 * ?n) else None)"
    unfolding c [symmetric] using False by (simp only: lcm_std_def Let_def v1_def if_False)
  show ?thesis
  proof (cases "lcm M N + V1 \<le> top'")
    case True
    have "top' < 2 ^ LENGTH('a)" unfolding top'_def using unat_type_max [of is_signed, where 'a = 'a] unsigned_less [of ?max, where 'a = nat] by simp
    then have "V1 * N < 2 ^ LENGTH('a)" using True l by linarith
    then have "unat (v1 * ?n) = lcm M N" using l by (simp only: unat_mult_small v1 unat_magnitude N_def)
    then show ?thesis using True ev by (simp add: V1_def [symmetric])
  next
    case False
    then show ?thesis using ev \<open>\<not> (m = 0 \<or> n = 0)\<close> by (simp only: V1_def [symmetric] if_False simp_thms)
  qed
qed

theorem lcm_exact_witness:
  "(\<exists>r. lcm_std True (1 :: 8 word) 100 = Some r \<and> unat r = 100) \<and> lcm_std True (100 :: 8 word) 1 = None"
  using lcm_exact [of "1 :: 8 word" "100 :: 8 word" True] lcm_exact [of "100 :: 8 word" "1 :: 8 word" True] by (simp add: magnitude_def)

text \<open>
  Midpoint.  The midpoint of two values is the half of their sum, rounded towards the first argument, without overflow for any two
  values, signed or unsigned.
\<close>

theorem midpoint_correct:
  fixes a b :: "'a::len word"
  assumes "int_width LENGTH('a)"
  shows "sint (midpoint True a b) = (if sint b < sint a then (sint a + sint b + 1) div 2 else (sint a + sint b) div 2) \<and>
    uint (midpoint False a b) = (if b < a then (uint a + uint b + 1) div 2 else (uint a + uint b) div 2)"
proof
  define M :: int where "M = 2 ^ (LENGTH('a) - 1)"
  have M: "2 ^ LENGTH('a) = 2 * M" by (simp add: M_def flip: power_Suc)
  have sr: "- M \<le> sint a" "sint a < M" "- M \<le> sint b" "sint b < M" by (simp_all only: M_def sint_ge sint_lt)
  have s: "\<bar>sint a - sint b\<bar> < 2 ^ LENGTH('a)" unfolding M using sr by linarith
  have in_s: "sint (of_int q :: 'a word) = q" if "- M \<le> q" "q < M" for q
    using that by (simp add: signed_of_int signed_take_bit_int_eq_self M_def)
  note ms = midpoint_of_int [OF assms _ _ s, of a b]
  show "sint (midpoint True a b) = (if sint b < sint a then (sint a + sint b + 1) div 2 else (sint a + sint b) div 2)"
  proof (cases "sint b < sint a")
    case True
    have "midpoint True a b = of_int ((sint a + sint b + 1) div 2)" using ms(2) True by (simp add: midpoint_def)
    then show ?thesis using True midpoint_range(2) [OF True] sr by (simp add: in_s)
  next
    case False
    have "midpoint True a b = of_int ((sint a + sint b) div 2)" using ms(1) False by (simp add: midpoint_def)
    then show ?thesis using False midpoint_range(1) [of "sint a" "sint b"] sr by (simp add: in_s)
  qed
  have ur: "0 \<le> uint a" "uint a < 2 * M" "0 \<le> uint b" "uint b < 2 * M" using uint_lt2p [of a] uint_lt2p [of b] by (simp_all add: M)
  have u: "\<bar>uint a - uint b\<bar> < 2 ^ LENGTH('a)" unfolding M using ur by linarith
  have in_u: "uint (of_int q :: 'a word) = q" if "0 \<le> q" "q < 2 * M" for q
    using that by (simp add: unsigned_of_int take_bit_int_eq_self M)
  note mu = midpoint_of_int [OF assms _ _ u, of a b]
  show "uint (midpoint False a b) = (if b < a then (uint a + uint b + 1) div 2 else (uint a + uint b) div 2)"
  proof (cases "b < a")
    case True
    then have lt: "uint b < uint a" by (simp add: word_less_def)
    have "midpoint False a b = of_int ((uint a + uint b + 1) div 2)" using mu(2) True lt by (simp add: midpoint_def)
    then show ?thesis using True midpoint_range(2) [OF lt] ur by (simp add: in_u)
  next
    case False
    then have le: "uint a \<le> uint b" by (simp add: word_less_def)
    have "midpoint False a b = of_int ((uint a + uint b) div 2)" using mu(1) False le by (simp add: midpoint_def)
    then show ?thesis using False midpoint_range(1) [OF le] ur by (simp add: in_u)
  qed
qed

theorem midpoint_correct_witness:
  "sint (midpoint True (- 128 :: 8 word) 127) = - 1 \<and> uint (midpoint False (255 :: 8 word) 254) = 255"
  using midpoint_correct [of "- 128 :: 8 word" 127] midpoint_correct [of "255 :: 8 word" 254] by (simp add: int_width_def)

end
