(* ===== verification/Numeric_Scan.thy ===== *)
theory Numeric_Scan
  imports Copy_Ops "HOL-Library.Word"
begin

text \<open>
  The sequential algorithms of \<^verbatim>\<open>cuda/std/__numeric\<close> on ranges: \<^verbatim>\<open>accumulate.h\<close>, \<^verbatim>\<open>reduce.h\<close>, \<^verbatim>\<open>transform_reduce.h\<close>,
  \<^verbatim>\<open>inner_product.h\<close>, \<^verbatim>\<open>iota.h\<close>, \<^verbatim>\<open>partial_sum.h\<close>, \<^verbatim>\<open>adjacent_difference.h\<close>, \<^verbatim>\<open>inclusive_scan.h\<close>, \<^verbatim>\<open>exclusive_scan.h\<close>,
  \<^verbatim>\<open>transform_inclusive_scan.h\<close> and \<^verbatim>\<open>transform_exclusive_scan.h\<close>.  Input and output of a scan may be the same range: both are
  positions of one memory.  The values read, transformed and written by a scan, and its initial value, are of one type, so that no
  conversion takes place between them.
\<close>

section \<open>Definitions\<close>

subsection \<open>accumulate.h, reduce.h, transform\_reduce.h, inner\_product.h\<close>

function accumulate_op :: "'a mem \<Rightarrow> iter \<Rightarrow> iter \<Rightarrow> 'b \<Rightarrow> ('b \<Rightarrow> 'a \<Rightarrow> 'b) \<Rightarrow> 'b option" where
  "accumulate_op m first last' init binary_op =
     (if first \<noteq> last' then do {
        x \<leftarrow> rd m first;
        accumulate_op m (Suc first) last' (binary_op init x) binary_op
      } else Some init)"
  by pat_completeness auto
termination
  by (relation "measure (\<lambda>(m, first, last', init, binary_op). length m - first)") auto

definition accumulate :: "'a::plus mem \<Rightarrow> iter \<Rightarrow> iter \<Rightarrow> 'a \<Rightarrow> 'a option" where
  "accumulate m first last' init = accumulate_op m first last' init (+)"

function reduce_op :: "'a mem \<Rightarrow> iter \<Rightarrow> iter \<Rightarrow> 'b \<Rightarrow> ('b \<Rightarrow> 'a \<Rightarrow> 'b) \<Rightarrow> 'b option" where
  "reduce_op m first last' init b =
     (if first \<noteq> last' then do {
        x \<leftarrow> rd m first;
        reduce_op m (Suc first) last' (b init x) b
      } else Some init)"
  by pat_completeness auto
termination
  by (relation "measure (\<lambda>(m, first, last', init, b). length m - first)") auto

definition reduce_init :: "'a::plus mem \<Rightarrow> iter \<Rightarrow> iter \<Rightarrow> 'a \<Rightarrow> 'a option" where
  "reduce_init m first last' init = reduce_op m first last' init (+)"

definition reduce :: "'a::monoid_add mem \<Rightarrow> iter \<Rightarrow> iter \<Rightarrow> 'a option" where
  "reduce m first last' = reduce_init m first last' 0"

function transform_reduce_unary :: "'a mem \<Rightarrow> iter \<Rightarrow> iter \<Rightarrow> 'b \<Rightarrow> ('b \<Rightarrow> 'c \<Rightarrow> 'b) \<Rightarrow> ('a \<Rightarrow> 'c) \<Rightarrow> 'b option" where
  "transform_reduce_unary m first last' init b u =
     (if first \<noteq> last' then do {
        x \<leftarrow> rd m first;
        transform_reduce_unary m (Suc first) last' (b init (u x)) b u
      } else Some init)"
  by pat_completeness auto
termination
  by (relation "measure (\<lambda>(m, first, last', init, b, u). length m - first)") auto

function transform_reduce_op ::
    "'a mem \<Rightarrow> iter \<Rightarrow> iter \<Rightarrow> 'd mem \<Rightarrow> iter \<Rightarrow> 'b \<Rightarrow> ('b \<Rightarrow> 'c \<Rightarrow> 'b) \<Rightarrow> ('a \<Rightarrow> 'd \<Rightarrow> 'c) \<Rightarrow> 'b option" where
  "transform_reduce_op m1 first1 last1 m2 first2 init b1 b2 =
     (if first1 \<noteq> last1 then do {
        x \<leftarrow> rd m1 first1;
        y \<leftarrow> rd m2 first2;
        transform_reduce_op m1 (Suc first1) last1 m2 (Suc first2) (b1 init (b2 x y)) b1 b2
      } else Some init)"
  by pat_completeness auto
termination
  by (relation "measure (\<lambda>(m1, first1, last1, m2, first2, init, b1, b2). length m1 - first1)") auto

definition transform_reduce :: "'a::semiring mem \<Rightarrow> iter \<Rightarrow> iter \<Rightarrow> 'a mem \<Rightarrow> iter \<Rightarrow> 'a \<Rightarrow> 'a option" where
  "transform_reduce m1 first1 last1 m2 first2 init = transform_reduce_op m1 first1 last1 m2 first2 init (+) (*)"

function inner_product_op ::
    "'a mem \<Rightarrow> iter \<Rightarrow> iter \<Rightarrow> 'd mem \<Rightarrow> iter \<Rightarrow> 'b \<Rightarrow> ('b \<Rightarrow> 'c \<Rightarrow> 'b) \<Rightarrow> ('a \<Rightarrow> 'd \<Rightarrow> 'c) \<Rightarrow> 'b option" where
  "inner_product_op m1 first1 last1 m2 first2 init binary_op1 binary_op2 =
     (if first1 \<noteq> last1 then do {
        x \<leftarrow> rd m1 first1;
        y \<leftarrow> rd m2 first2;
        inner_product_op m1 (Suc first1) last1 m2 (Suc first2) (binary_op1 init (binary_op2 x y)) binary_op1 binary_op2
      } else Some init)"
  by pat_completeness auto
termination
  by (relation "measure (\<lambda>(m1, first1, last1, m2, first2, init, b1, b2). length m1 - first1)") auto

definition inner_product :: "'a::semiring mem \<Rightarrow> iter \<Rightarrow> iter \<Rightarrow> 'a mem \<Rightarrow> iter \<Rightarrow> 'a \<Rightarrow> 'a option" where
  "inner_product m1 first1 last1 m2 first2 init = inner_product_op m1 first1 last1 m2 first2 init (+) (*)"

subsection \<open>iota.h\<close>

text \<open>\<open>inc\<close> is the prefix \<^verbatim>\<open>++\<close> of the value.\<close>

function iota :: "'a mem \<Rightarrow> iter \<Rightarrow> iter \<Rightarrow> 'a \<Rightarrow> ('a \<Rightarrow> 'a) \<Rightarrow> 'a mem option" where
  "iota m first last' v inc =
     (if first \<noteq> last' then do {
        m \<leftarrow> wr m first v;
        iota m (Suc first) last' (inc v) inc
      } else Some m)"
  by pat_completeness auto
termination
  by (relation "measure (\<lambda>(m, first, last', v, inc). length m - first)") auto

subsection \<open>partial\_sum.h, adjacent\_difference.h\<close>

function partial_sum_loop :: "'a mem \<Rightarrow> iter \<Rightarrow> iter \<Rightarrow> iter \<Rightarrow> 'a \<Rightarrow> ('a \<Rightarrow> 'a \<Rightarrow> 'a) \<Rightarrow> ('a mem \<times> iter) option" where
  "partial_sum_loop m first last' result t binary_op =
     (if first \<noteq> last' then do {
        x \<leftarrow> rd m first;
        let t = binary_op t x;
        m \<leftarrow> wr m result t;
        partial_sum_loop m (Suc first) last' (Suc result) t binary_op
      } else Some (m, result))"
  by pat_completeness auto
termination
  by (relation "measure (\<lambda>(m, first, last', result, t, binary_op). length m - first)") auto

definition partial_sum_op :: "'a mem \<Rightarrow> iter \<Rightarrow> iter \<Rightarrow> iter \<Rightarrow> ('a \<Rightarrow> 'a \<Rightarrow> 'a) \<Rightarrow> ('a mem \<times> iter) option" where
  "partial_sum_op m first last' result binary_op =
     (if first \<noteq> last' then do {
        t \<leftarrow> rd m first;
        m \<leftarrow> wr m result t;
        partial_sum_loop m (Suc first) last' (Suc result) t binary_op
      } else Some (m, result))"

definition partial_sum :: "'a::plus mem \<Rightarrow> iter \<Rightarrow> iter \<Rightarrow> iter \<Rightarrow> ('a mem \<times> iter) option" where
  "partial_sum m first last' result = partial_sum_op m first last' result (+)"

function adjacent_difference_loop :: "'a mem \<Rightarrow> iter \<Rightarrow> iter \<Rightarrow> iter \<Rightarrow> 'a \<Rightarrow> ('a \<Rightarrow> 'a \<Rightarrow> 'a) \<Rightarrow> ('a mem \<times> iter) option" where
  "adjacent_difference_loop m first last' result acc binary_op =
     (if first \<noteq> last' then do {
        v \<leftarrow> rd m first;
        m \<leftarrow> wr m result (binary_op v acc);
        adjacent_difference_loop m (Suc first) last' (Suc result) v binary_op
      } else Some (m, result))"
  by pat_completeness auto
termination
  by (relation "measure (\<lambda>(m, first, last', result, acc, binary_op). length m - first)") auto

definition adjacent_difference_op :: "'a mem \<Rightarrow> iter \<Rightarrow> iter \<Rightarrow> iter \<Rightarrow> ('a \<Rightarrow> 'a \<Rightarrow> 'a) \<Rightarrow> ('a mem \<times> iter) option" where
  "adjacent_difference_op m first last' result binary_op =
     (if first \<noteq> last' then do {
        acc \<leftarrow> rd m first;
        m \<leftarrow> wr m result acc;
        adjacent_difference_loop m (Suc first) last' (Suc result) acc binary_op
      } else Some (m, result))"

definition adjacent_difference :: "'a::minus mem \<Rightarrow> iter \<Rightarrow> iter \<Rightarrow> iter \<Rightarrow> ('a mem \<times> iter) option" where
  "adjacent_difference m first last' result = adjacent_difference_op m first last' result (-)"

subsection \<open>inclusive\_scan.h, exclusive\_scan.h\<close>

function inclusive_scan_init :: "'a mem \<Rightarrow> iter \<Rightarrow> iter \<Rightarrow> iter \<Rightarrow> ('a \<Rightarrow> 'a \<Rightarrow> 'a) \<Rightarrow> 'a \<Rightarrow> ('a mem \<times> iter) option" where
  "inclusive_scan_init m first last' result b init =
     (if first \<noteq> last' then do {
        x \<leftarrow> rd m first;
        let init = b init x;
        m \<leftarrow> wr m result init;
        inclusive_scan_init m (Suc first) last' (Suc result) b init
      } else Some (m, result))"
  by pat_completeness auto
termination
  by (relation "measure (\<lambda>(m, first, last', result, b, init). length m - first)") auto

definition inclusive_scan_op :: "'a mem \<Rightarrow> iter \<Rightarrow> iter \<Rightarrow> iter \<Rightarrow> ('a \<Rightarrow> 'a \<Rightarrow> 'a) \<Rightarrow> ('a mem \<times> iter) option" where
  "inclusive_scan_op m first last' result b =
     (if first \<noteq> last' then do {
        init \<leftarrow> rd m first;
        m \<leftarrow> wr m result init;
        if Suc first \<noteq> last' then inclusive_scan_init m (Suc first) last' (Suc result) b init
        else Some (m, Suc result)
      } else Some (m, result))"

definition inclusive_scan :: "'a::plus mem \<Rightarrow> iter \<Rightarrow> iter \<Rightarrow> iter \<Rightarrow> ('a mem \<times> iter) option" where
  "inclusive_scan m first last' result = inclusive_scan_op m first last' result (+)"

text \<open>The loop of \<^verbatim>\<open>exclusive_scan\<close>; \<open>tmp\<close> is the sum with the element at \<open>first\<close>.\<close>

function exclusive_scan_loop :: "'a mem \<Rightarrow> iter \<Rightarrow> iter \<Rightarrow> iter \<Rightarrow> 'a \<Rightarrow> 'a \<Rightarrow> ('a \<Rightarrow> 'a \<Rightarrow> 'a) \<Rightarrow> ('a mem \<times> iter) option" where
  "exclusive_scan_loop m first last' result init tmp b = do {
     m \<leftarrow> wr m result init;
     if Suc first = last' then Some (m, Suc result)
     else do {
       x \<leftarrow> rd m (Suc first);
       exclusive_scan_loop m (Suc first) last' (Suc result) tmp (b tmp x) b
     }
   }"
  by pat_completeness auto
termination
  by (relation "measure (\<lambda>(m, first, last', result, init, tmp, b). length m - first)") auto

definition exclusive_scan_op :: "'a mem \<Rightarrow> iter \<Rightarrow> iter \<Rightarrow> iter \<Rightarrow> 'a \<Rightarrow> ('a \<Rightarrow> 'a \<Rightarrow> 'a) \<Rightarrow> ('a mem \<times> iter) option" where
  "exclusive_scan_op m first last' result init b =
     (if first \<noteq> last' then do {
        x \<leftarrow> rd m first;
        exclusive_scan_loop m first last' result init (b init x) b
      } else Some (m, result))"

definition exclusive_scan :: "'a::plus mem \<Rightarrow> iter \<Rightarrow> iter \<Rightarrow> iter \<Rightarrow> 'a \<Rightarrow> ('a mem \<times> iter) option" where
  "exclusive_scan m first last' result init = exclusive_scan_op m first last' result init (+)"

function transform_inclusive_scan_init ::
    "'a mem \<Rightarrow> iter \<Rightarrow> iter \<Rightarrow> iter \<Rightarrow> ('a \<Rightarrow> 'a \<Rightarrow> 'a) \<Rightarrow> ('a \<Rightarrow> 'a) \<Rightarrow> 'a \<Rightarrow> ('a mem \<times> iter) option" where
  "transform_inclusive_scan_init m first last' result b u init =
     (if first \<noteq> last' then do {
        x \<leftarrow> rd m first;
        let init = b init (u x);
        m \<leftarrow> wr m result init;
        transform_inclusive_scan_init m (Suc first) last' (Suc result) b u init
      } else Some (m, result))"
  by pat_completeness auto
termination
  by (relation "measure (\<lambda>(m, first, last', result, b, u, init). length m - first)") auto

definition transform_inclusive_scan :: "'a mem \<Rightarrow> iter \<Rightarrow> iter \<Rightarrow> iter \<Rightarrow> ('a \<Rightarrow> 'a \<Rightarrow> 'a) \<Rightarrow> ('a \<Rightarrow> 'a) \<Rightarrow> ('a mem \<times> iter) option" where
  "transform_inclusive_scan m first last' result b u =
     (if first \<noteq> last' then do {
        x \<leftarrow> rd m first;
        let init = u x;
        m \<leftarrow> wr m result init;
        if Suc first \<noteq> last' then transform_inclusive_scan_init m (Suc first) last' (Suc result) b u init
        else Some (m, Suc result)
      } else Some (m, result))"

function transform_exclusive_scan_loop ::
    "'a mem \<Rightarrow> iter \<Rightarrow> iter \<Rightarrow> iter \<Rightarrow> 'a \<Rightarrow> 'a \<Rightarrow> ('a \<Rightarrow> 'a \<Rightarrow> 'a) \<Rightarrow> ('a \<Rightarrow> 'a) \<Rightarrow> ('a mem \<times> iter) option" where
  "transform_exclusive_scan_loop m first last' result init saved b u = do {
     x \<leftarrow> rd m first;
     let init = b init (u x);
     m \<leftarrow> wr m result saved;
     if Suc first \<noteq> last' then transform_exclusive_scan_loop m (Suc first) last' (Suc result) init init b u
     else Some (m, Suc result)
   }"
  by pat_completeness auto
termination
  by (relation "measure (\<lambda>(m, first, last', result, init, saved, b, u). length m - first)") auto

definition transform_exclusive_scan ::
    "'a mem \<Rightarrow> iter \<Rightarrow> iter \<Rightarrow> iter \<Rightarrow> 'a \<Rightarrow> ('a \<Rightarrow> 'a \<Rightarrow> 'a) \<Rightarrow> ('a \<Rightarrow> 'a) \<Rightarrow> ('a mem \<times> iter) option" where
  "transform_exclusive_scan m first last' result init b u =
     (if first \<noteq> last' then transform_exclusive_scan_loop m first last' result init init b u else Some (m, result))"

declare accumulate_op.simps [simp del] reduce_op.simps [simp del] transform_reduce_unary.simps [simp del]
  transform_reduce_op.simps [simp del] inner_product_op.simps [simp del] iota.simps [simp del] partial_sum_loop.simps [simp del]
  adjacent_difference_loop.simps [simp del] inclusive_scan_init.simps [simp del] exclusive_scan_loop.simps [simp del]
  transform_inclusive_scan_init.simps [simp del] transform_exclusive_scan_loop.simps [simp del]

section \<open>Reductions\<close>

lemma accumulate_op_eq: "f \<le> l \<Longrightarrow> l \<le> length m \<Longrightarrow> accumulate_op m f l init b = Some (foldl b init (seg m f l))"
  by (induction f arbitrary: init rule: inc_induct) (subst accumulate_op.simps, simp add: mem_simps seg_Cons)+

lemma reduce_op_eq: "f \<le> l \<Longrightarrow> l \<le> length m \<Longrightarrow> reduce_op m f l init b = Some (foldl b init (seg m f l))"
  by (induction f arbitrary: init rule: inc_induct) (subst reduce_op.simps, simp add: mem_simps seg_Cons)+

lemma transform_reduce_unary_eq:
  "f \<le> l \<Longrightarrow> l \<le> length m \<Longrightarrow> transform_reduce_unary m f l init b u = Some (foldl b init (map u (seg m f l)))"
  by (induction f arbitrary: init rule: inc_induct) (subst transform_reduce_unary.simps, simp add: mem_simps seg_Cons)+

lemma transform_reduce_op_eq:
  "f \<le> l \<Longrightarrow> l \<le> length m1 \<Longrightarrow> g + (l - f) \<le> length m2 \<Longrightarrow>
     transform_reduce_op m1 f l m2 g init b1 b2 = Some (foldl b1 init (map2 b2 (seg m1 f l) (seg m2 g (g + (l - f)))))"
  by (induction f arbitrary: init g rule: inc_induct)
    (subst transform_reduce_op.simps, simp add: mem_simps seg_Cons Suc_diff_Suc [symmetric])+

lemma inner_product_op_eq:
  "f \<le> l \<Longrightarrow> l \<le> length m1 \<Longrightarrow> g + (l - f) \<le> length m2 \<Longrightarrow>
     inner_product_op m1 f l m2 g init b1 b2 = Some (foldl b1 init (map2 b2 (seg m1 f l) (seg m2 g (g + (l - f)))))"
  by (induction f arbitrary: init g rule: inc_induct)
    (subst inner_product_op.simps, simp add: mem_simps seg_Cons Suc_diff_Suc [symmetric])+

lemma foldl_plus_sum_list: "foldl (+) (a :: 'a::comm_monoid_add) xs = a + sum_list xs"
  by (induction xs arbitrary: a) (simp_all add: add.assoc)

lemma iota_eq:
  "f \<le> l \<Longrightarrow> l \<le> length m \<Longrightarrow> iota m f l v inc = Some (put_at m f (map (\<lambda>i. (inc ^^ i) v) [0..<l - f]))"
proof (induction f arbitrary: m v rule: inc_induct)
  case base
  then show ?case by (subst iota.simps) simp
next
  case (step f)
  have "map (\<lambda>i. (inc ^^ i) v) [0..<l - f] = v # map (\<lambda>i. (inc ^^ i) (inc v)) [0..<l - Suc f]"
    using step(2) by (simp add: Suc_diff_Suc [symmetric] upt_conv_Cons map_Suc_upt [symmetric] funpow_swap1 del: upt_Suc)
  then show ?case using step by (subst iota.simps) (simp add: mem_simps put_at_Cons)
qed

section \<open>Scans\<close>

definition prefixes_incl :: "('b \<Rightarrow> 'a \<Rightarrow> 'b) \<Rightarrow> 'b \<Rightarrow> 'a list \<Rightarrow> 'b list" where
  "prefixes_incl b a xs = map (\<lambda>i. foldl b a (take (Suc i) xs)) [0..<length xs]"

definition prefixes_excl :: "('b \<Rightarrow> 'a \<Rightarrow> 'b) \<Rightarrow> 'b \<Rightarrow> 'a list \<Rightarrow> 'b list" where
  "prefixes_excl b a xs = map (\<lambda>i. foldl b a (take i xs)) [0..<length xs]"

lemma map_upt_Cons: "map f [0..<Suc n] = f 0 # map (\<lambda>i. f (Suc i)) [0..<n]"
  by (simp add: upt_conv_Cons map_Suc_upt [symmetric] del: upt_Suc)

lemma prefixes_simps [simp]:
  "prefixes_incl b a [] = []" "prefixes_incl b a (x # xs) = b a x # prefixes_incl b (b a x) xs"
  "prefixes_excl b a [] = []" "prefixes_excl b a (x # xs) = a # prefixes_excl b (b a x) xs"
  by (simp_all add: prefixes_incl_def prefixes_excl_def map_upt_Cons del: upt_Suc)

lemma length_prefixes [simp]: "length (prefixes_incl b a xs) = length xs" "length (prefixes_excl b a xs) = length xs"
  by (simp_all add: prefixes_incl_def prefixes_excl_def)

text \<open>The output may be the input range, lie before it or behind it.\<close>

abbreviation scan_ranges :: "'a mem \<Rightarrow> iter \<Rightarrow> iter \<Rightarrow> iter \<Rightarrow> bool" where
  "scan_ranges m f l r \<equiv> f \<le> l \<and> l \<le> length m \<and> r + (l - f) \<le> length m \<and> (r \<le> f \<or> l \<le> r)"

lemma seg_update_behind: "b \<le> i \<Longrightarrow> seg (m[i := x]) a b = seg m a b"
  by (rule nth_equalityI) (auto simp: seg_def)

lemma seg_update_out: "i < a \<or> b \<le> i \<Longrightarrow> seg (m[i := x]) a b = seg m a b"
  using seg_update_behind by auto

lemma inclusive_scan_init_eq:
  "f \<le> l \<Longrightarrow> scan_ranges m f l r \<Longrightarrow>
     inclusive_scan_init m f l r b a = Some (put_at m r (prefixes_incl b a (seg m f l)), r + (l - f))"
  by (induction f arbitrary: m r a rule: inc_induct)
    (subst inclusive_scan_init.simps, auto simp: mem_simps seg_Cons put_at_Cons seg_update_out Let_def Suc_diff_Suc [symmetric])+

lemma partial_sum_loop_eq: "partial_sum_loop m f l r a b = inclusive_scan_init m f l r b a"
  by (induction m f l r a b rule: partial_sum_loop.induct)
    (subst partial_sum_loop.simps, subst inclusive_scan_init.simps, auto simp: rd_def wr_def Let_def)

lemma transform_inclusive_scan_init_eq:
  "f \<le> l \<Longrightarrow> scan_ranges m f l r \<Longrightarrow>
     transform_inclusive_scan_init m f l r b u a = Some (put_at m r (prefixes_incl b a (map u (seg m f l))), r + (l - f))"
  by (induction f arbitrary: m r a rule: inc_induct)
    (subst transform_inclusive_scan_init.simps, auto simp: mem_simps seg_Cons put_at_Cons seg_update_out Let_def Suc_diff_Suc [symmetric])+

lemma put_at_single: "r < length m \<Longrightarrow> put_at m r [x] = m[r := x]"
  using put_at_Cons [of r m x "[]"] by simp

lemma exclusive_scan_loop_eq:
  "f < l \<Longrightarrow> scan_ranges m f l r \<Longrightarrow>
     exclusive_scan_loop m f l r a (b a (m ! f)) b = Some (put_at m r (prefixes_excl b a (seg m f l)), r + (l - f))"
proof (induction f arbitrary: m r a rule: strict_inc_induct)
  case (base f)
  then show ?case by (subst exclusive_scan_loop.simps) (auto simp: mem_simps seg_Cons put_at_single)
next
  case (step f)
  let ?m = "m[r := a]" and ?a = "b a (m ! f)"
  have r: "r < length m" "r \<noteq> Suc f" "r < Suc f \<or> l \<le> r" "Suc f < length m" using step(1,3) by auto
  have "exclusive_scan_loop ?m (Suc f) l (Suc r) ?a (b ?a (?m ! Suc f)) b =
      Some (put_at ?m (Suc r) (prefixes_excl b ?a (seg ?m (Suc f) l)), Suc r + (l - Suc f))"
    using step(1,3) by (intro step(2)) auto
  then show ?case using r step(1,3) by (subst exclusive_scan_loop.simps) (auto simp: mem_simps seg_Cons put_at_Cons seg_update_out)
qed

lemma transform_exclusive_scan_loop_eq:
  "f < l \<Longrightarrow> scan_ranges m f l r \<Longrightarrow>
     transform_exclusive_scan_loop m f l r a a b u = Some (put_at m r (prefixes_excl b a (map u (seg m f l))), r + (l - f))"
proof (induction f arbitrary: m r a rule: strict_inc_induct)
  case (base f)
  then show ?case by (subst transform_exclusive_scan_loop.simps) (auto simp: Let_def mem_simps seg_Cons put_at_single)
next
  case (step f)
  let ?m = "m[r := a]" and ?a = "b a (u (m ! f))"
  have r: "r < length m" "r < Suc f \<or> l \<le> r" "f < length m" using step(1,3) by auto
  have "transform_exclusive_scan_loop ?m (Suc f) l (Suc r) ?a ?a b u =
      Some (put_at ?m (Suc r) (prefixes_excl b ?a (map u (seg ?m (Suc f) l))), Suc r + (l - Suc f))"
    using step(1,3) by (intro step(2)) auto
  then show ?case using r step(1,3) by (subst transform_exclusive_scan_loop.simps) (auto simp: Let_def mem_simps seg_Cons put_at_Cons seg_update_out)
qed

text \<open>The first element as it is, then the sums with the elements that follow.\<close>

fun prefixes_first :: "('a \<Rightarrow> 'a \<Rightarrow> 'a) \<Rightarrow> 'a list \<Rightarrow> 'a list" where
  "prefixes_first b [] = []"
| "prefixes_first b (x # xs) = x # prefixes_incl b x xs"

lemma length_prefixes_first [simp]: "length (prefixes_first b xs) = length xs"
  by (cases xs) simp_all

lemma nth_prefixes_first: "i < length xs \<Longrightarrow> prefixes_first b xs ! i = foldl b (hd xs) (tl (take (Suc i) xs))"
  by (cases xs) (auto simp: prefixes_incl_def nth_Cons split: nat.splits)

lemma inclusive_scan_op_eq:
  assumes "scan_ranges m f l r"
  shows "inclusive_scan_op m f l r b = Some (put_at m r (prefixes_first b (seg m f l)), r + (l - f))"
proof (cases "f = l")
  case False
  then have f: "f < l" "r < length m" "r < Suc f \<or> l \<le> r" using assms by auto
  have "inclusive_scan_init (m[r := m ! f]) (Suc f) l (Suc r) b (m ! f) =
      Some (put_at (m[r := m ! f]) (Suc r) (prefixes_incl b (m ! f) (seg (m[r := m ! f]) (Suc f) l)), Suc r + (l - Suc f))"
    using assms f by (intro inclusive_scan_init_eq) auto
  then show ?thesis using assms f
    by (cases "Suc f = l") (auto simp: inclusive_scan_op_def mem_simps seg_Cons put_at_Cons put_at_single seg_update_out)
qed (simp add: inclusive_scan_op_def)

lemma partial_sum_op_eq:
  assumes "scan_ranges m f l r"
  shows "partial_sum_op m f l r b = Some (put_at m r (prefixes_first b (seg m f l)), r + (l - f))"
proof -
  have "inclusive_scan_init m l l r b a = Some (m, r)" for m r a by (subst inclusive_scan_init.simps) simp
  then have "partial_sum_op m f l r b = inclusive_scan_op m f l r b"
    by (auto simp: partial_sum_op_def inclusive_scan_op_def partial_sum_loop_eq rd_def wr_def)
  then show ?thesis using inclusive_scan_op_eq [OF assms] by simp
qed

lemma transform_inclusive_scan_eq:
  assumes "scan_ranges m f l r"
  shows "transform_inclusive_scan m f l r b u = Some (put_at m r (prefixes_first b (map u (seg m f l))), r + (l - f))"
proof (cases "f = l")
  case False
  then have f: "f < l" "r < length m" "r < Suc f \<or> l \<le> r" using assms by auto
  let ?m = "m[r := u (m ! f)]"
  have "transform_inclusive_scan_init ?m (Suc f) l (Suc r) b u (u (m ! f)) =
      Some (put_at ?m (Suc r) (prefixes_incl b (u (m ! f)) (map u (seg ?m (Suc f) l))), Suc r + (l - Suc f))"
    using assms f by (intro transform_inclusive_scan_init_eq) auto
  then show ?thesis using assms f
    by (cases "Suc f = l") (auto simp: transform_inclusive_scan_def Let_def mem_simps seg_Cons put_at_Cons put_at_single seg_update_out)
qed (simp add: transform_inclusive_scan_def)

lemma exclusive_scan_op_eq:
  assumes "scan_ranges m f l r"
  shows "exclusive_scan_op m f l r a b = Some (put_at m r (prefixes_excl b a (seg m f l)), r + (l - f))"
  using assms exclusive_scan_loop_eq [of f l m r a b] by (cases "f = l") (auto simp: exclusive_scan_op_def mem_simps)

lemma transform_exclusive_scan_eq:
  assumes "scan_ranges m f l r"
  shows "transform_exclusive_scan m f l r a b u = Some (put_at m r (prefixes_excl b a (map u (seg m f l))), r + (l - f))"
  using assms transform_exclusive_scan_loop_eq [of f l m r a b u] by (cases "f = l") (auto simp: transform_exclusive_scan_def)

section \<open>Differences\<close>

fun diffs :: "('a \<Rightarrow> 'a \<Rightarrow> 'a) \<Rightarrow> 'a \<Rightarrow> 'a list \<Rightarrow> 'a list" where
  "diffs b acc [] = []"
| "diffs b acc (x # xs) = b x acc # diffs b x xs"

fun diffs_first :: "('a \<Rightarrow> 'a \<Rightarrow> 'a) \<Rightarrow> 'a list \<Rightarrow> 'a list" where
  "diffs_first b [] = []"
| "diffs_first b (x # xs) = x # diffs b x xs"

lemma length_diffs [simp]: "length (diffs b acc xs) = length xs"
  by (induction xs arbitrary: acc) simp_all

lemma length_diffs_first [simp]: "length (diffs_first b xs) = length xs"
  by (cases xs) simp_all

lemma adjacent_difference_loop_eq:
  "f \<le> l \<Longrightarrow> scan_ranges m f l r \<Longrightarrow>
     adjacent_difference_loop m f l r acc b = Some (put_at m r (diffs b acc (seg m f l)), r + (l - f))"
  by (induction f arbitrary: m r acc rule: inc_induct)
    (subst adjacent_difference_loop.simps, auto simp: mem_simps seg_Cons put_at_Cons seg_update_out Suc_diff_Suc [symmetric])+

lemma adjacent_difference_op_eq:
  assumes "scan_ranges m f l r"
  shows "adjacent_difference_op m f l r b = Some (put_at m r (diffs_first b (seg m f l)), r + (l - f))"
proof (cases "f = l")
  case False
  then have f: "f < l" "r < length m" "r < Suc f \<or> l \<le> r" using assms by auto
  have "adjacent_difference_loop (m[r := m ! f]) (Suc f) l (Suc r) (m ! f) b =
      Some (put_at (m[r := m ! f]) (Suc r) (diffs b (m ! f) (seg (m[r := m ! f]) (Suc f) l)), Suc r + (l - Suc f))"
    using assms f by (intro adjacent_difference_loop_eq) auto
  then show ?thesis using assms f by (auto simp: adjacent_difference_op_def mem_simps seg_Cons put_at_Cons seg_update_out)
qed (simp add: adjacent_difference_op_def)

lemma diffs_prefixes: "diffs (-) a (prefixes_incl (+) a xs) = xs" for xs :: "'a::ab_group_add list"
  by (induction xs arbitrary: a) simp_all

lemma prefixes_diffs: "prefixes_incl (+) a (diffs (-) a xs) = xs" for xs :: "'a::ab_group_add list"
  by (induction xs arbitrary: a) simp_all

lemma diffs_prefixes_first: "diffs_first (-) (prefixes_first (+) xs) = xs" "prefixes_first (+) (diffs_first (-) xs) = xs"
  for xs :: "'a::ab_group_add list"
  by (cases xs; simp add: diffs_prefixes prefixes_diffs)+

lemma seg_put_at_same: "f \<le> l \<Longrightarrow> l \<le> length m \<Longrightarrow> length ys = l - f \<Longrightarrow> seg (put_at m f ys) f l = ys"
  using seg_put_at [of f ys m] by simp

lemma put_at_twice: "f \<le> l \<Longrightarrow> l \<le> length m \<Longrightarrow> length ys = l - f \<Longrightarrow> put_at (put_at m f ys) f (seg m f l) = m"
  by (rule nth_equalityI) (auto simp: put_at_nth)

section \<open>Properties\<close>

text \<open>
  C30: scans.  Every scan writes the reductions of the prefixes of its input, exclusive or inclusive, with or without
  initial value and transformation, also when it overwrites its input; \<^verbatim>\<open>partial_sum\<close> is the inclusive scan
  without initial value.
\<close>

theorem scan_correct:
  assumes "f \<le> l" "l \<le> length m" "r + (l - f) \<le> length m" "r \<le> f \<or> l \<le> r"
  defines "xs \<equiv> seg m f l" and "n \<equiv> l - f"
  shows "inclusive_scan_init m f l r b a = Some (put_at m r (map (\<lambda>i. foldl b a (take (Suc i) xs)) [0..<n]), r + n) \<and>
    exclusive_scan_op m f l r a b = Some (put_at m r (map (\<lambda>i. foldl b a (take i xs)) [0..<n]), r + n) \<and>
    transform_exclusive_scan m f l r a b u = Some (put_at m r (map (\<lambda>i. foldl b a (take i (map u xs))) [0..<n]), r + n) \<and>
    inclusive_scan_op m f l r b = Some (put_at m r (map (\<lambda>i. foldl b (hd xs) (tl (take (Suc i) xs))) [0..<n]), r + n) \<and>
    partial_sum_op m f l r b = inclusive_scan_op m f l r b \<and>
    transform_inclusive_scan_init m f l r b u a = Some (put_at m r (map (\<lambda>i. foldl b a (take (Suc i) (map u xs))) [0..<n]), r + n) \<and>
    transform_inclusive_scan m f l r b u =
      Some (put_at m r (map (\<lambda>i. foldl b (hd (map u xs)) (tl (take (Suc i) (map u xs)))) [0..<n]), r + n)"
proof -
  have s: "scan_ranges m f l r" using assms(1-4) by blast
  have n: "length xs = n" using assms(1,2) by (simp add: xs_def n_def)
  have first: "prefixes_first b ys = map (\<lambda>i. foldl b (hd ys) (tl (take (Suc i) ys))) [0..<length ys]" for ys
    by (rule nth_equalityI) (simp_all add: nth_prefixes_first)
  show ?thesis
    using inclusive_scan_init_eq [OF assms(1) s, of b a] exclusive_scan_op_eq [OF s, of a b] transform_exclusive_scan_eq [OF s, of a b u]
      inclusive_scan_op_eq [OF s, of b] partial_sum_op_eq [OF s, of b] transform_inclusive_scan_eq [OF s, of b u]
      transform_inclusive_scan_init_eq [OF assms(1) s, of b u a]
    by (simp add: first prefixes_incl_def prefixes_excl_def n flip: xs_def n_def)
qed

theorem scan_correct_witness:
  "exclusive_scan_op [1, 2, 3, 4 :: int] 1 4 1 10 (+) = Some ([1, 10, 12, 15], 4)"
proof -
  have "exclusive_scan_op [1, 2, 3, 4 :: int] 1 4 1 10 (+) =
      Some (put_at [1, 2, 3, 4] 1 (map (\<lambda>i. foldl (+) 10 (take i (seg [1, 2, 3, 4] 1 4))) [0..<4 - 1]), 1 + (4 - 1))"
    using scan_correct [of 1 4 "[1, 2, 3, 4 :: int]" 1 "(+)" 10 id] by simp
  then show ?thesis by (simp add: seg_def put_at_def put_seg_def numeral_eq_Suc)
qed

text \<open>
  C31: sums and differences.  \<^verbatim>\<open>partial_sum\<close> and \<^verbatim>\<open>adjacent_difference\<close>, applied in place one after the other, restore the
  range, in either order, for every type whose addition has inverses, such as the integers that wrap around.
\<close>

theorem partial_sum_adjacent_difference:
  fixes m :: "'a::ab_group_add mem"
  assumes "f \<le> l" "l \<le> length m"
  shows "(\<exists>m'. partial_sum m f l f = Some (m', l) \<and> adjacent_difference m' f l f = Some (m, l)) \<and>
    (\<exists>m'. adjacent_difference m f l f = Some (m', l) \<and> partial_sum m' f l f = Some (m, l))"
proof -
  have s: "scan_ranges m f l f" using assms by auto
  let ?p = "put_at m f (prefixes_first (+) (seg m f l))" and ?d = "put_at m f (diffs_first (-) (seg m f l))"
  have p: "scan_ranges ?p f l f" "scan_ranges ?d f l f" using assms by auto
  have "partial_sum m f l f = Some (?p, l)" "adjacent_difference m f l f = Some (?d, l)"
    using partial_sum_op_eq [OF s, of "(+)"] adjacent_difference_op_eq [OF s, of "(-)"] assms by (simp_all add: partial_sum_def adjacent_difference_def)
  moreover have "adjacent_difference ?p f l f = Some (m, l)" "partial_sum ?d f l f = Some (m, l)"
    using adjacent_difference_op_eq [OF p(1), of "(-)"] partial_sum_op_eq [OF p(2), of "(+)"] assms
    by (simp_all add: partial_sum_def adjacent_difference_def seg_put_at_same diffs_prefixes_first put_at_twice)
  ultimately show ?thesis by blast
qed

theorem partial_sum_adjacent_difference_witness:
  "\<exists>m'. partial_sum [200, 100, 7 :: 8 word] 0 3 0 = Some (m', 3) \<and> adjacent_difference m' 0 3 0 = Some ([200, 100, 7], 3)"
  using partial_sum_adjacent_difference [of 0 3 "[200, 100, 7 :: 8 word]"] by simp

end
