(* ===== verification/Permutations.thy ===== *)
theory Permutations
  imports Rearrange_Ops
begin

text \<open>
  \<^verbatim>\<open>next_permutation.h\<close> and \<^verbatim>\<open>prev_permutation.h\<close> of \<^verbatim>\<open>cuda/std/__algorithm\<close>: the permutation of a range that follows or precedes it in the
  lexicographic order of a comparator.
\<close>

section \<open>Definitions\<close>

text \<open>The loop that searches from the end for an element greater than the one at \<open>i\<close>.\<close>

fun next_permutation_scan :: "'a mem \<Rightarrow> ('a \<Rightarrow> 'a \<Rightarrow> bool) \<Rightarrow> iter \<Rightarrow> iter \<Rightarrow> iter option" where
  "next_permutation_scan m cmp i 0 = None"
| "next_permutation_scan m cmp i (Suc j) = do {
     x \<leftarrow> rd m i;
     y \<leftarrow> rd m j;
     if \<not> cmp x y then next_permutation_scan m cmp i j else Some j
   }"

text \<open>The main loop; \<open>ip1\<close> is the value of \<^verbatim>\<open>__i\<close> at the beginning of a turn.  The result is that of \<^verbatim>\<open>__next_permutation\<close>.\<close>

fun next_permutation_loop :: "bool \<Rightarrow> 'a mem \<Rightarrow> iter \<Rightarrow> iter \<Rightarrow> ('a \<Rightarrow> 'a \<Rightarrow> bool) \<Rightarrow> iter \<Rightarrow> ('a mem \<times> iter \<times> bool) option" where
  "next_permutation_loop ra m first last' cmp 0 = None"
| "next_permutation_loop ra m first last' cmp (Suc i) = do {
     x \<leftarrow> rd m i;
     y \<leftarrow> rd m (Suc i);
     if cmp x y then do {
       j \<leftarrow> next_permutation_scan m cmp i last';
       m \<leftarrow> iter_swap m i j;
       m \<leftarrow> reverse ra m (Suc i) last';
       Some (m, last', True)
     } else if i = first then do {
       m \<leftarrow> reverse ra m first last';
       Some (m, last', False)
     } else next_permutation_loop ra m first last' cmp i
   }"

definition next_permutation_impl :: "bool \<Rightarrow> 'a mem \<Rightarrow> iter \<Rightarrow> iter \<Rightarrow> ('a \<Rightarrow> 'a \<Rightarrow> bool) \<Rightarrow> ('a mem \<times> iter \<times> bool) option" where
  "next_permutation_impl ra m first last' cmp =
     (if first = last' then Some (m, last', False)
      else if last' = 0 then None
      else if first = last' - 1 then Some (m, last', False)
      else next_permutation_loop ra m first last' cmp (last' - 1))"

definition next_permutation :: "bool \<Rightarrow> 'a mem \<Rightarrow> iter \<Rightarrow> iter \<Rightarrow> ('a \<Rightarrow> 'a \<Rightarrow> bool) \<Rightarrow> ('a mem \<times> bool) option" where
  "next_permutation ra m first last' cmp = map_option (\<lambda>(m, _, b). (m, b)) (next_permutation_impl ra m first last' cmp)"

definition next_permutation_less :: "bool \<Rightarrow> 'a::linorder mem \<Rightarrow> iter \<Rightarrow> iter \<Rightarrow> ('a mem \<times> bool) option" where
  "next_permutation_less ra m first last' = next_permutation ra m first last' less_op"

fun prev_permutation_scan :: "'a mem \<Rightarrow> ('a \<Rightarrow> 'a \<Rightarrow> bool) \<Rightarrow> iter \<Rightarrow> iter \<Rightarrow> iter option" where
  "prev_permutation_scan m cmp i 0 = None"
| "prev_permutation_scan m cmp i (Suc j) = do {
     y \<leftarrow> rd m j;
     x \<leftarrow> rd m i;
     if \<not> cmp y x then prev_permutation_scan m cmp i j else Some j
   }"

fun prev_permutation_loop :: "bool \<Rightarrow> 'a mem \<Rightarrow> iter \<Rightarrow> iter \<Rightarrow> ('a \<Rightarrow> 'a \<Rightarrow> bool) \<Rightarrow> iter \<Rightarrow> ('a mem \<times> iter \<times> bool) option" where
  "prev_permutation_loop ra m first last' cmp 0 = None"
| "prev_permutation_loop ra m first last' cmp (Suc i) = do {
     y \<leftarrow> rd m (Suc i);
     x \<leftarrow> rd m i;
     if cmp y x then do {
       j \<leftarrow> prev_permutation_scan m cmp i last';
       m \<leftarrow> iter_swap m i j;
       m \<leftarrow> reverse ra m (Suc i) last';
       Some (m, last', True)
     } else if i = first then do {
       m \<leftarrow> reverse ra m first last';
       Some (m, last', False)
     } else prev_permutation_loop ra m first last' cmp i
   }"

definition prev_permutation_impl :: "bool \<Rightarrow> 'a mem \<Rightarrow> iter \<Rightarrow> iter \<Rightarrow> ('a \<Rightarrow> 'a \<Rightarrow> bool) \<Rightarrow> ('a mem \<times> iter \<times> bool) option" where
  "prev_permutation_impl ra m first last' cmp =
     (if first = last' then Some (m, last', False)
      else if last' = 0 then None
      else if first = last' - 1 then Some (m, last', False)
      else prev_permutation_loop ra m first last' cmp (last' - 1))"

definition prev_permutation :: "bool \<Rightarrow> 'a mem \<Rightarrow> iter \<Rightarrow> iter \<Rightarrow> ('a \<Rightarrow> 'a \<Rightarrow> bool) \<Rightarrow> ('a mem \<times> bool) option" where
  "prev_permutation ra m first last' cmp = map_option (\<lambda>(m, _, b). (m, b)) (prev_permutation_impl ra m first last' cmp)"

definition prev_permutation_less :: "bool \<Rightarrow> 'a::linorder mem \<Rightarrow> iter \<Rightarrow> iter \<Rightarrow> ('a mem \<times> bool) option" where
  "prev_permutation_less ra m first last' = prev_permutation ra m first last' less_op"

section \<open>Lexicographic order of rearrangements\<close>

abbreviation lex_less :: "('a \<Rightarrow> 'a \<Rightarrow> bool) \<Rightarrow> 'a list \<Rightarrow> 'a list \<Rightarrow> bool" where
  "lex_less cmp \<equiv> ord.lexordp cmp"

abbreviation eqv :: "('a \<Rightarrow> 'a \<Rightarrow> bool) \<Rightarrow> 'a \<Rightarrow> 'a \<Rightarrow> bool" where
  "eqv cmp x y \<equiv> \<not> cmp x y \<and> \<not> cmp y x"

text \<open>Two lists hold equally many elements of every class of equivalent elements.\<close>

definition same_classes :: "('a \<Rightarrow> 'a \<Rightarrow> bool) \<Rightarrow> 'a list \<Rightarrow> 'a list \<Rightarrow> bool" where
  "same_classes cmp xs ys \<longleftrightarrow> (\<forall>z. length (filter (eqv cmp z) xs) = length (filter (eqv cmp z) ys))"

lemma same_classes_mset: "mset xs = mset ys \<Longrightarrow> same_classes cmp xs ys"
  unfolding same_classes_def by (metis mset_filter size_mset)

lemma same_classes_sym: "same_classes cmp xs ys \<Longrightarrow> same_classes cmp ys xs"
  by (simp add: same_classes_def)

lemma same_classes_trans: "same_classes cmp xs ys \<Longrightarrow> same_classes cmp ys zs \<Longrightarrow> same_classes cmp xs zs"
  by (simp add: same_classes_def)

lemma same_classes_inverse: "same_classes (\<lambda>x y. cmp y x) xs ys = same_classes cmp xs ys"
  by (simp add: same_classes_def conj_commute)

lemma lex_less_simps:
  "lex_less cmp [] ys \<longleftrightarrow> ys \<noteq> []" "lex_less cmp xs [] \<longleftrightarrow> False"
  "lex_less cmp (x # xs) (y # ys) \<longleftrightarrow> cmp x y \<or> \<not> cmp y x \<and> lex_less cmp xs ys"
  by (auto simp: ord.lexordp_simps neq_Nil_conv)

lemma lex_less_inverse: "length xs = length ys \<Longrightarrow> lex_less (\<lambda>x y. cmp y x) xs ys \<longleftrightarrow> lex_less cmp ys xs"
  by (induction xs ys rule: list_induct2) (auto simp: lex_less_simps)

context strict_weak_order
begin

lemma eqv_trans: "eqv cmp x y \<Longrightarrow> eqv cmp y z \<Longrightarrow> eqv cmp x z"
  using neg_trans by blast

lemma same_classes_Cons:
  assumes "eqv cmp x y" "same_classes cmp (x # xs) (y # ys)"
  shows "same_classes cmp xs ys"
proof -
  have z: "eqv cmp z x \<longleftrightarrow> eqv cmp z y" for z using assms(1) neg_trans by blast
  show ?thesis unfolding same_classes_def
  proof
    fix z
    have "length (filter (eqv cmp z) (x # xs)) = length (filter (eqv cmp z) (y # ys))" using assms(2) unfolding same_classes_def by (rule spec)
    then show "length (filter (eqv cmp z) xs) = length (filter (eqv cmp z) ys)" 
      unfolding filter.simps z [of z] by (cases "eqv cmp z y") (simp_all only: if_True if_False list.size(4) add_right_cancel simp_thms)
  qed
qed

lemma same_classes_append:
  "list_all2 (eqv cmp) ps qs \<Longrightarrow> same_classes cmp (ps @ xs) (qs @ ys) \<Longrightarrow> same_classes cmp xs ys"
proof (induction ps qs rule: list_all2_induct)
  case (Cons x ps y qs)
  then show ?case using same_classes_Cons [of x y "ps @ xs" "qs @ ys"] by simp
qed simp

lemma same_classes_ex:
  assumes "same_classes cmp xs ys" "y \<in> set ys"
  obtains x where "x \<in> set xs" "eqv cmp y x"
proof -
  have "length (filter (eqv cmp y) xs) = length (filter (eqv cmp y) ys)" using assms(1) unfolding same_classes_def by (rule spec)
  moreover have "filter (eqv cmp y) ys \<noteq> []" using assms(2) irrefl [of y] by (auto simp: filter_empty_conv)
  ultimately have "filter (eqv cmp y) xs \<noteq> []" by (metis length_0_conv)
  then show thesis using that by (auto simp: filter_empty_conv)
qed

lemma sorted_lex_min:
  "sorted_by cmp xs \<Longrightarrow> same_classes cmp xs ys \<Longrightarrow> length xs = length ys \<Longrightarrow> \<not> lex_less cmp ys xs"
proof (induction xs arbitrary: ys)
  case (Cons x xs)
  obtain y ys' where ys: "ys = y # ys'" using Cons.prems(3) by (cases ys) auto
  have "\<not> cmp y x"
  proof
    assume "cmp y x"
    obtain z where "z \<in> set (x # xs)" "eqv cmp y z" using same_classes_ex [OF Cons.prems(2), of y] ys by auto
    then have "cmp z x" using \<open>cmp y x\<close> le_less_trans by blast
    then show False using \<open>z \<in> set (x # xs)\<close> Cons.prems(1) irrefl by auto
  qed
  moreover have "\<not> lex_less cmp ys' xs" if "\<not> cmp x y"
    using Cons.IH [of ys'] Cons.prems same_classes_Cons [of x y xs ys'] that \<open>\<not> cmp y x\<close> ys by auto
  ultimately show ?case by (auto simp: ys lex_less_simps)
qed (simp add: lex_less_simps)

lemma lex_prefix:
  "length ps = length qs \<Longrightarrow> lex_less cmp (ps @ xs) (qs @ ys) \<Longrightarrow> lex_less cmp (qs @ ys) (ps @ zs) \<Longrightarrow>
    list_all2 (eqv cmp) ps qs \<and> lex_less cmp xs ys \<and> lex_less cmp ys zs"
  by (induction ps qs rule: list_induct2) (auto simp: lex_less_simps dest: asym)

lemma lex_same_prefix: "lex_less cmp xs ys \<Longrightarrow> lex_less cmp (ps @ xs) (ps @ ys)"
  by (induction ps) (auto simp: lex_less_simps irrefl)

end

lemma sorted_by_rev: "sorted_by cmp (rev xs) = sorted_by (\<lambda>x y. cmp y x) xs"
  by (simp add: sorted_by_def sorted_wrt_rev)

lemma decreasing_lex_max:
  assumes "strict_weak_order cmp" "sorted_by (\<lambda>x y. cmp y x) xs" "same_classes cmp xs ys" "length xs = length ys"
  shows "\<not> lex_less cmp xs ys"
proof -
  have "same_classes (\<lambda>x y. cmp y x) xs ys" by (rule iffD2 [OF same_classes_inverse assms(3)])
  from strict_weak_order.sorted_lex_min [OF strict_weak_order.strict_weak_order_inverse [OF assms(1)] assms(2) this assms(4)]
  show ?thesis using lex_less_inverse [OF assms(4) [symmetric], of cmp] by blast
qed

text \<open>
  The step of the algorithm on lists: \<open>a\<close> is followed by the decreasing \<open>us @ b # vs\<close>, and \<open>b\<close> is the last element greater than \<open>a\<close>.
\<close>

lemma next_permutation_step:
  assumes swo: "strict_weak_order cmp" and dec: "sorted_by (\<lambda>x y. cmp y x) (us @ b # vs)" and ab: "cmp a b" and vs: "\<forall>x \<in> set vs. \<not> cmp a x"
    and xs_def: "xs = ps @ a # us @ b # vs" and ys_def: "ys = ps @ b # rev (us @ a # vs)"
  shows "lex_less cmp xs ys" "mset zs = mset xs \<Longrightarrow> \<not> (lex_less cmp xs zs \<and> lex_less cmp zs ys)"
proof -
  note asym = strict_weak_order.asym [OF swo] and lt = strict_weak_order.less_le_trans [OF swo] and lt' = strict_weak_order.le_less_trans [OF swo]
  show "lex_less cmp xs ys" unfolding xs_def ys_def using ab by (intro strict_weak_order.lex_same_prefix [OF swo]) (simp add: lex_less_simps)
  have us: "\<forall>x \<in> set us. \<not> cmp x b" using dec by simp
  have sorted: "sorted_by cmp (rev (us @ a # vs))"
    unfolding sorted_by_rev using dec vs us lt [OF ab] asym by (auto dest: asym)
  assume m: "mset zs = mset xs"
  show "\<not> (lex_less cmp xs zs \<and> lex_less cmp zs ys)"
  proof
    assume less: "lex_less cmp xs zs \<and> lex_less cmp zs ys"
    have len: "length zs = length xs" using m by (rule mset_eq_length)
    define qs where "qs = take (length ps) zs"
    have "drop (length ps) zs \<noteq> []" using len by (simp add: xs_def)
    then obtain c ts where "drop (length ps) zs = c # ts" by (cases "drop (length ps) zs") auto
    then have zs: "zs = qs @ c # ts" "length ps = length qs"
      unfolding qs_def using append_take_drop_id [of "length ps" zs] len by (simp_all add: xs_def)
    have l: "list_all2 (eqv cmp) ps qs" "lex_less cmp (a # us @ b # vs) (c # ts)" "lex_less cmp (c # ts) (b # rev (us @ a # vs))"
      using strict_weak_order.lex_prefix [OF swo zs(2)] less unfolding xs_def ys_def zs(1) by blast+
    have cl: "same_classes cmp (a # us @ b # vs) (c # ts)"
      using strict_weak_order.same_classes_append [OF swo l(1)] same_classes_mset [OF m [symmetric]] unfolding xs_def zs(1) by blast
    have lt_len: "length (us @ b # vs) = length ts" using len zs by (simp add: xs_def)
    show False
    proof (cases "cmp a c")
      case False
      then have "eqv cmp a c" "lex_less cmp (us @ b # vs) ts" using l(2) by (auto simp: lex_less_simps)
      then show False using strict_weak_order.same_classes_Cons [OF swo _ cl] decreasing_lex_max [OF swo dec _ lt_len] by blast
    next
      case True
      obtain e where e: "e \<in> set (a # us @ b # vs)" "eqv cmp c e" using strict_weak_order.same_classes_ex [OF swo cl, of c] by auto
      have "cmp a e" using lt [OF True] e(2) by blast
      then have "\<not> cmp e b" using e(1) us vs asym by auto
      then have "\<not> cmp c b" using e(2) lt' by blast
      then have bc: "eqv cmp b c" "lex_less cmp ts (rev (us @ a # vs))" using l(3) by (auto simp: lex_less_simps)
      have "mset (a # us @ b # vs) = mset (b # rev (us @ a # vs))" by simp
      then have "same_classes cmp (b # rev (us @ a # vs)) (c # ts)" using same_classes_trans [OF same_classes_mset cl] by simp
      then have "same_classes cmp (rev (us @ a # vs)) ts" using strict_weak_order.same_classes_Cons [OF swo bc(1)] by blast
      then show False using strict_weak_order.sorted_lex_min [OF swo sorted] bc(2) lt_len by simp
    qed
  qed
qed

section \<open>The loops\<close>

text \<open>
  What a step to the next rearrangement \<open>ys\<close> of \<open>xs\<close> means: with result \<open>True\<close> it is greater and none lies between; with result \<open>False\<close>
  the list was greatest and \<open>ys\<close> is the sorted one.
\<close>

definition next_result :: "('a \<Rightarrow> 'a \<Rightarrow> bool) \<Rightarrow> 'a list \<Rightarrow> 'a list \<Rightarrow> bool \<Rightarrow> bool" where
  "next_result cmp xs ys b \<longleftrightarrow> mset ys = mset xs \<and>
     (if b then lex_less cmp xs ys \<and> (\<forall>zs. mset zs = mset xs \<longrightarrow> \<not> (lex_less cmp xs zs \<and> lex_less cmp zs ys))
      else sorted_by cmp ys \<and> (\<forall>zs. mset zs = mset xs \<longrightarrow> \<not> lex_less cmp xs zs))"

lemma next_result_end:
  assumes "strict_weak_order cmp" "sorted_by (\<lambda>x y. cmp y x) xs"
  shows "next_result cmp xs (rev xs) False"
proof -
  have "\<not> lex_less cmp xs zs" if "mset zs = mset xs" for zs
    using decreasing_lex_max [OF assms] same_classes_mset mset_eq_length that [symmetric] by blast
  moreover have "sorted_by cmp (rev xs)" unfolding sorted_by_rev by (rule assms(2))
  ultimately show ?thesis by (simp add: next_result_def)
qed

lemma next_result_step:
  assumes "strict_weak_order cmp" "sorted_by (\<lambda>x y. cmp y x) (us @ b # vs)" "cmp a b" "\<forall>x \<in> set vs. \<not> cmp a x"
  shows "next_result cmp (ps @ a # us @ b # vs) (ps @ b # rev (us @ a # vs)) True"
proof -
  note step = next_permutation_step [OF assms refl refl, where ps = ps]
  have "mset (ps @ b # rev (us @ a # vs)) = mset (ps @ a # us @ b # vs)" by simp
  then show ?thesis unfolding next_result_def using step by (simp only: if_True) blast
qed

lemma next_permutation_scan_spec:
  "i < k \<Longrightarrow> k < l \<Longrightarrow> l \<le> length m \<Longrightarrow> cmp (m ! i) (m ! k) \<Longrightarrow>
    \<exists>j. next_permutation_scan m cmp i l = Some j \<and> k \<le> j \<and> j < l \<and> cmp (m ! i) (m ! j) \<and> (\<forall>x \<in> set (seg m (Suc j) l). \<not> cmp (m ! i) x)"
proof (induction l)
  case (Suc l)
  show ?case
  proof (cases "cmp (m ! i) (m ! l)")
    case True
    then show ?thesis using Suc.prems by (simp add: mem_simps)
  next
    case False
    then have "k < l" using Suc.prems by (cases "k = l") auto
    then obtain j where "next_permutation_scan m cmp i l = Some j" "k \<le> j" "j < l" "cmp (m ! i) (m ! j)" "\<forall>x \<in> set (seg m (Suc j) l). \<not> cmp (m ! i) x"
      using Suc.IH Suc.prems by auto
    then show ?thesis using False Suc.prems by (simp add: mem_simps seg_snoc)
  qed
qed simp

text \<open>The range with a pair of positions, and the range after the exchange and the reversal.\<close>

lemma seg_split_pair:
  "f \<le> i \<Longrightarrow> i < j \<Longrightarrow> j < l \<Longrightarrow> l \<le> length m \<Longrightarrow> seg m f l = seg m f i @ m ! i # seg m (Suc i) j @ m ! j # seg m (Suc j) l"
  using seg_append [of f i l m] seg_append [of "Suc i" j l m] by (simp add: seg_Cons)

lemma swap_reverse_eq:
  assumes "f \<le> i" "i < j" "j < l" "l \<le> length m"
  shows "(do { m \<leftarrow> iter_swap m i j; reverse ra m (Suc i) l }) =
    Some (put_at m f (seg m f i @ m ! j # rev (seg m (Suc i) j @ m ! i # seg m (Suc j) l)))"
proof -
  define m1 where "m1 = m[i := m ! j, j := m ! i]"
  define ys where "ys = rev (seg m (Suc i) j @ m ! i # seg m (Suc j) l)"
  have len: "length ys = l - Suc i" "length m1 = length m" using assms by (simp_all add: ys_def m1_def)
  have "seg m1 (Suc i) l = seg m1 (Suc i) j @ m1 ! j # seg m1 (Suc j) l"
    using assms seg_append [of "Suc i" j l m1] by (simp add: seg_Cons len)
  then have "seg m1 (Suc i) l = seg m (Suc i) j @ m ! i # seg m (Suc j) l" using assms by (simp add: m1_def)
  then have "(do { m \<leftarrow> iter_swap m i j; reverse ra m (Suc i) l }) = Some (put_at m1 (Suc i) ys)"
    using assms by (simp add: mem_simps reverse_eq m1_def ys_def)
  moreover have "put_at m1 (Suc i) ys = put_at m1 i (m ! j # ys)" using assms by (simp add: put_at_keep m1_def)
  moreover have "put_at m1 i (m ! j # ys) = put_at m i (m ! j # ys)"
    unfolding m1_def using assms len by (simp add: put_at_overwrites)
  moreover have "put_at m i (m ! j # ys) = put_at m f (seg m f i @ m ! j # ys)"
    using assms len by (intro put_at_prefix) auto
  ultimately show ?thesis by (simp add: ys_def)
qed

lemma decreasing_extend:
  assumes "strict_weak_order cmp" "\<not> cmp (m ! i) (m ! Suc i)" "Suc i < l" "l \<le> length m" "sorted_by (\<lambda>x y. cmp y x) (seg m (Suc i) l)"
  shows "sorted_by (\<lambda>x y. cmp y x) (seg m i l)"
  using assms strict_weak_order.neg_trans [OF assms(1), of "m ! i" "m ! Suc i"] by (auto simp: seg_Cons)

lemma next_permutation_found:
  assumes "strict_weak_order cmp" "f \<le> i" "Suc i < l" "l \<le> length m" "sorted_by (\<lambda>x y. cmp y x) (seg m (Suc i) l)" "cmp (m ! i) (m ! Suc i)"
  shows "\<exists>ys. next_permutation_loop ra m f l cmp (Suc i) = Some (put_at m f ys, l, True) \<and> next_result cmp (seg m f l) ys True"
proof -
  obtain j where j: "next_permutation_scan m cmp i l = Some j" "Suc i \<le> j" "j < l" "cmp (m ! i) (m ! j)" "\<forall>x \<in> set (seg m (Suc j) l). \<not> cmp (m ! i) x"
    using next_permutation_scan_spec [of i "Suc i" l m cmp] assms by auto
  let ?ys = "seg m f i @ m ! j # rev (seg m (Suc i) j @ m ! i # seg m (Suc j) l)"
  have "seg m (Suc i) l = seg m (Suc i) j @ m ! j # seg m (Suc j) l" using j assms seg_append [of "Suc i" j l m] by (simp add: seg_Cons)
  then have dec: "sorted_by (\<lambda>x y. cmp y x) (seg m (Suc i) j @ m ! j # seg m (Suc j) l)" using assms(5) by simp
  have "next_result cmp (seg m f l) ?ys True"
    using next_result_step [OF assms(1) dec j(4,5), of "seg m f i"] seg_split_pair [of f i j l m] assms j by simp
  moreover have "next_permutation_loop ra m f l cmp (Suc i) = Some (put_at m f ?ys, l, True)"
    using swap_reverse_eq [of f i j l m ra] assms j by (simp add: mem_simps bind_eq_Some_conv)
  ultimately show ?thesis by blast
qed

lemma next_permutation_end:
  assumes "strict_weak_order cmp" "Suc f < l" "l \<le> length m" "sorted_by (\<lambda>x y. cmp y x) (seg m (Suc f) l)" "\<not> cmp (m ! f) (m ! Suc f)"
  shows "next_permutation_loop ra m f l cmp (Suc f) = Some (put_at m f (rev (seg m f l)), l, False) \<and> next_result cmp (seg m f l) (rev (seg m f l)) False"
  using next_result_end [OF assms(1) decreasing_extend [OF assms(1,5,2,3,4)]] assms by (simp add: mem_simps reverse_eq)

lemma next_permutation_loop_spec:
  "strict_weak_order cmp \<Longrightarrow> f \<le> i \<Longrightarrow> Suc i < l \<Longrightarrow> l \<le> length m \<Longrightarrow> sorted_by (\<lambda>x y. cmp y x) (seg m (Suc i) l) \<Longrightarrow>
    \<exists>ys b. next_permutation_loop ra m f l cmp (Suc i) = Some (put_at m f ys, l, b) \<and> next_result cmp (seg m f l) ys b"
proof (induction i)
  case 0
  then show ?case using next_permutation_found [of cmp f 0 l m ra] next_permutation_end [of cmp 0 l m ra] by (cases "cmp (m ! 0) (m ! Suc 0)") blast+
next
  case (Suc i)
  show ?case
  proof (cases "cmp (m ! Suc i) (m ! Suc (Suc i)) \<or> f = Suc i")
    case True
    then show ?thesis using next_permutation_found [OF Suc.prems, where ra = ra] next_permutation_end [of cmp "Suc i" l m ra] Suc.prems by blast
  next
    case False
    then have "next_permutation_loop ra m f l cmp (Suc (Suc i)) = next_permutation_loop ra m f l cmp (Suc i)"
      using Suc.prems by (simp add: mem_simps)
    moreover have "sorted_by (\<lambda>x y. cmp y x) (seg m (Suc i) l)"
      using decreasing_extend [of cmp m "Suc i" l] False Suc.prems by blast
    ultimately show ?thesis using Suc.IH Suc.prems False by simp
  qed
qed

lemma next_result_trivial: "length xs \<le> 1 \<Longrightarrow> strict_weak_order cmp \<Longrightarrow> next_result cmp xs xs False"
  using next_result_end [of cmp xs] by (cases xs) auto

lemma next_permutation_impl_spec:
  assumes "strict_weak_order cmp" "f \<le> l" "l \<le> length m"
  shows "\<exists>ys b. next_permutation_impl ra m f l cmp = Some (put_at m f ys, l, b) \<and> next_result cmp (seg m f l) ys b"
proof (cases "l \<le> Suc f")
  case True
  then have "next_permutation_impl ra m f l cmp = Some (put_at m f (seg m f l), l, False)"
    using assms by (auto simp: next_permutation_impl_def put_at_seg_id)
  moreover have "next_result cmp (seg m f l) (seg m f l) False" using next_result_trivial [of "seg m f l" cmp] True assms by simp
  ultimately show ?thesis by blast
next
  case False
  obtain i where i: "l = Suc (Suc i)" "f \<le> i" using False by (metis Suc_le_D linorder_not_le less_Suc_eq_le not_less_eq)
  have "seg m (Suc i) l = [m ! Suc i]" using i assms by (simp add: seg_Cons)
  then show ?thesis using next_permutation_loop_spec [of cmp f i l m ra] assms i by (simp add: next_permutation_impl_def)
qed

section \<open>prev\_permutation\<close>

lemma prev_permutation_scan_eq: "prev_permutation_scan m cmp i j = next_permutation_scan m (\<lambda>x y. cmp y x) i j"
  by (induction j) (auto simp: rd_def)

lemma prev_permutation_loop_eq: "prev_permutation_loop ra m f l cmp i = next_permutation_loop ra m f l (\<lambda>x y. cmp y x) i"
  by (induction i) (auto simp: rd_def prev_permutation_scan_eq)

lemma prev_permutation_eq: "prev_permutation ra m f l cmp = next_permutation ra m f l (\<lambda>x y. cmp y x)"
  by (simp add: prev_permutation_def next_permutation_def prev_permutation_impl_def next_permutation_impl_def prev_permutation_loop_eq)

section \<open>Properties\<close>

lemma put_at_same_place: "length xs = length ys \<Longrightarrow> r + length xs \<le> length m \<Longrightarrow> put_at (put_at m r ys) r xs = put_at m r xs"
  by (simp add: put_at_def put_seg_def)

lemma permuted_put_at:
  assumes "f \<le> l" "l \<le> length m" "mset ys = mset (seg m f l)"
  shows "permuted m (put_at m f ys) f l" "seg (put_at m f ys) f l = ys"
proof -
  have len: "l = f + length ys" using mset_eq_length [OF assms(3)] assms(1,2) by simp
  have "mset (put_at m f ys) = mset m"
    using split_seg [OF assms(1), of m] assms(3) len by (metis mset_append put_at_def put_seg_def)
  then show "permuted m (put_at m f ys) f l" "seg (put_at m f ys) f l = ys"
    using frame_put_at [of f ys m] len assms by (auto simp: permuted_def)
qed

text \<open>
  C25: \<^verbatim>\<open>next_permutation\<close> rearranges the range, and only it: when it returns \<open>True\<close> the range is lexicographically greater than before and no
  rearrangement of its elements lies strictly between; when it returns \<open>False\<close> no rearrangement was greater and the range is sorted.
\<close>

theorem next_permutation_correct:
  assumes "strict_weak_order cmp" "f \<le> l" "l \<le> length m"
  shows "\<exists>m' b. next_permutation ra m f l cmp = Some (m', b) \<and> permuted m m' f l \<and> next_result cmp (seg m f l) (seg m' f l) b"
proof -
  obtain ys b where r: "next_permutation_impl ra m f l cmp = Some (put_at m f ys, l, b)" "next_result cmp (seg m f l) ys b"
    using next_permutation_impl_spec [OF assms, of ra] by auto
  have p: "permuted m (put_at m f ys) f l" "seg (put_at m f ys) f l = ys"
    using permuted_put_at [OF assms(2,3)] r(2) unfolding next_result_def by simp_all
  show ?thesis using r p by (intro exI [of _ "put_at m f ys"] exI [of _ b]) (simp add: next_permutation_def)
qed

theorem next_permutation_correct_witness:
  "strict_weak_order (less_op :: nat \<Rightarrow> nat \<Rightarrow> bool) \<and> next_permutation True [9, 1, 3, 2, 2, 7::nat] 1 5 less_op = Some ([9, 2, 1, 2, 3, 7], True) \<and>
    next_result less_op [1, 3, 2, 2] [2, 1, 2, 3 :: nat] True"
proof -
  have "strict_weak_order (less_op :: nat \<Rightarrow> nat \<Rightarrow> bool)" by (rule less.strict_weak_order_axioms)
  moreover have "next_permutation True [9, 1, 3, 2, 2, 7::nat] 1 5 less_op = Some ([9, 2, 1, 2, 3, 7], True)" by code_simp
  ultimately show ?thesis using next_permutation_correct [of less_op 1 5 "[9, 1, 3, 2, 2, 7::nat]" True] by (auto simp: seg_def)
qed

lemma lex_less_total:
  fixes xs :: "'a::linorder list"
  shows "length xs = length ys \<Longrightarrow> lex_less less_op xs ys \<or> xs = ys \<or> lex_less less_op ys xs"
  by (induction xs ys rule: list_induct2) (auto simp: lex_less_simps less_op_def)

text \<open>For a total order the step back from the result of a step forward is unique.\<close>

lemma next_result_inverse:
  fixes xs ys zs :: "'a::linorder list"
  assumes "next_result less_op xs ys b" "next_result (\<lambda>x y. less_op y x) ys zs b'" "strict_weak_order (less_op :: 'a \<Rightarrow> 'a \<Rightarrow> bool)"
  shows "zs = xs \<and> b' = b"
proof -
  have m: "mset ys = mset xs" "mset zs = mset xs" "mset zs = mset ys" using assms(1,2) unfolding next_result_def by auto
  note len = mset_eq_length [OF m(1)] mset_eq_length [OF m(2)] mset_eq_length [OF m(3)]
  have flip: "lex_less (\<lambda>x y. less_op y x) us vs = lex_less less_op vs us" if "mset us = mset xs" "mset vs = mset xs" for us vs
    using that by (intro lex_less_inverse) (metis mset_eq_length)
  have below: "\<not> (lex_less less_op us ys \<and> lex_less less_op zs us)" "lex_less less_op zs ys" if "b'" "mset us = mset xs" for us
    using assms(2) that m flip unfolding next_result_def by auto
  have least: "\<not> lex_less less_op us ys" if "\<not> b'" "mset us = mset xs" for us
    using assms(2) that m flip unfolding next_result_def by auto
  have tot: "lex_less less_op xs zs \<or> zs = xs \<or> lex_less less_op zs xs" using lex_less_total [of xs zs] len by auto
  show ?thesis
  proof (cases b)
    case True
    then have n: "lex_less less_op xs ys" "\<not> (lex_less less_op xs us \<and> lex_less less_op us ys)" if "mset us = mset xs" for us
      using assms(1) that unfolding next_result_def by auto
    have b': "b'" using least [of xs] n(1) [OF m(1)] by blast
    then show ?thesis using tot below [of xs] n [of zs] True m by blast
  next
    case False
    then have s: "sorted_by less_op ys" "\<not> lex_less less_op xs us" if "mset us = mset xs" for us
      using assms(1) that unfolding next_result_def by auto
    have "\<not> b'"
    proof
      assume "b'"
      then have "lex_less less_op zs ys" using below by blast
      then show False using strict_weak_order.sorted_lex_min [OF assms(3) s(1) same_classes_mset] m len by metis
    qed
    then have "sorted_by (\<lambda>x y. less_op y x) zs" using assms(2) unfolding next_result_def by simp
    then have "\<not> lex_less less_op zs xs" using decreasing_lex_max [OF assms(3) _ same_classes_mset [OF m(2)] len(2)] by blast
    then show ?thesis using tot s(2) [OF m(2)] \<open>\<not> b'\<close> False by blast
  qed
qed

text \<open>
  C26: \<^verbatim>\<open>prev_permutation\<close> undoes \<^verbatim>\<open>next_permutation\<close> for the order of the element type, and returns the same truth value: over the last
  rearrangement too, where the one goes to the sorted range and the other back.
\<close>

theorem permutation_roundtrip:
  fixes m :: "'a::linorder mem"
  assumes "f \<le> l" "l \<le> length m"
  shows "\<exists>m' b. next_permutation_less ra m f l = Some (m', b) \<and> prev_permutation_less ra' m' f l = Some (m, b)"
proof -
  have swo: "strict_weak_order (less_op :: 'a \<Rightarrow> 'a \<Rightarrow> bool)" by (rule less.strict_weak_order_axioms)
  obtain ys b where n: "next_permutation_impl ra m f l less_op = Some (put_at m f ys, l, b)" "next_result less_op (seg m f l) ys b"
    using next_permutation_impl_spec [OF swo assms, of ra] by auto
  let ?m = "put_at m f ys"
  have p: "permuted m ?m f l" "seg ?m f l = ys"
    using permuted_put_at [OF assms] n(2) unfolding next_result_def by simp_all
  obtain zs b' where r: "next_permutation_impl ra' ?m f l (\<lambda>x y. less_op y x) = Some (put_at ?m f zs, l, b')"
      "next_result (\<lambda>x y. less_op y x) ys zs b'"
    using next_permutation_impl_spec [OF strict_weak_order.strict_weak_order_inverse [OF swo], of f l ?m ra'] p assms permuted_length [OF p(1)] by auto
  have zs: "zs = seg m f l" "b' = b" using next_result_inverse [OF n(2) r(2) swo] by auto
  have "length ys = l - f" using p(2) assms permuted_length [OF p(1)] by (metis length_seg)
  then have "put_at ?m f zs = m" using assms put_at_same_place [of zs ys f m] put_at_seg_id [of f l m] zs(1) by simp
  then show ?thesis using n(1) r(1) zs(2)
    by (simp add: next_permutation_less_def prev_permutation_less_def prev_permutation_eq next_permutation_def)
qed

theorem permutation_roundtrip_witness:
  "next_permutation_less True [3, 2, 1 :: nat] 0 3 = Some ([1, 2, 3], False) \<and> prev_permutation_less False [1, 2, 3 :: nat] 0 3 = Some ([3, 2, 1], False)"
proof -
  have "next_permutation_less True [3, 2, 1 :: nat] 0 3 = Some ([1, 2, 3], False)" by code_simp
  then show ?thesis using permutation_roundtrip [of 0 3 "[3, 2, 1 :: nat]" True False] by auto
qed

end
