(* ===== verification/Stable_Partition.thy ===== *)
theory Stable_Partition
  imports Stable_Sort
begin

text \<open>
  \<^verbatim>\<open>stable_partition.h\<close> of \<^verbatim>\<open>cuda/std/__algorithm\<close>: the elements that satisfy a predicate come first, and both groups keep their order.
  There is one version for forward and one for bidirectional iterators; both move through the temporary buffer of \<^verbatim>\<open>temporary_buffer.h\<close>
  where it is large enough, and otherwise divide the range and rotate the two results.
\<close>

section \<open>Definitions\<close>

text \<open>The loop that skips elements that satisfy the predicate, from \<open>m1\<close> towards \<open>last'\<close>; \<open>len_half\<close> is the distance that remains.\<close>

function stable_partition_skip_true :: "'a mem \<Rightarrow> ('a \<Rightarrow> bool) \<Rightarrow> iter \<Rightarrow> iter \<Rightarrow> nat \<Rightarrow> (iter \<times> nat) option" where
  "stable_partition_skip_true m pred m1 last' len_half = do {
     x \<leftarrow> rd m m1;
     if pred x then
       (if Suc m1 = last' then Some (Suc m1, len_half) else stable_partition_skip_true m pred (Suc m1) last' (len_half - 1))
     else Some (m1, len_half)
   }"
  by pat_completeness auto
termination
  by (relation "measure (\<lambda>(m, pred, m1, last', len_half). length m - m1)") auto

text \<open>The loop that skips elements that do not, downwards; \<open>m1\<close> is the iterator before the decrement.\<close>

fun stable_partition_skip_false :: "'a mem \<Rightarrow> ('a \<Rightarrow> bool) \<Rightarrow> iter \<Rightarrow> iter \<Rightarrow> nat \<Rightarrow> (iter \<times> nat) option" where
  "stable_partition_skip_false m pred 0 first len_half = None"
| "stable_partition_skip_false m pred (Suc m1) first len_half = do {
     x \<leftarrow> rd m m1;
     if \<not> pred x then
       (if m1 = first then Some (m1, len_half) else stable_partition_skip_false m pred m1 first (len_half - 1))
     else Some (m1, len_half)
   }"

text \<open>The loop that moves one group to the front of the range and the other to the buffer; \<open>i\<close> is the iterator before the increment.\<close>

function stable_partition_buffer_loop ::
    "'a mem \<Rightarrow> 'a mem \<Rightarrow> ('a \<Rightarrow> bool) \<Rightarrow> iter \<Rightarrow> iter \<Rightarrow> iter \<Rightarrow> iter \<Rightarrow> ('a mem \<times> 'a mem \<times> iter \<times> iter) option" where
  "stable_partition_buffer_loop m buf pred first i last' t =
     (if Suc i \<noteq> last' then do {
        x \<leftarrow> rd m (Suc i);
        if pred x then do {
          m \<leftarrow> wr m first x;
          stable_partition_buffer_loop m buf pred (Suc first) (Suc i) last' t
        } else do {
          buf \<leftarrow> wr buf t x;
          stable_partition_buffer_loop m buf pred first (Suc i) last' (Suc t)
        }
      } else Some (m, buf, first, t))"
  by pat_completeness auto
termination
  by (relation "measure (\<lambda>(m, buf, pred, first, i, last', t). length m - i)") auto

declare stable_partition_skip_true.simps [simp del] stable_partition_buffer_loop.simps [simp del]

lemma stable_partition_skip_true_len:
  "stable_partition_skip_true m pred m1 last' len_half = Some (k, n) \<Longrightarrow> n \<le> len_half"
  by (induction m pred m1 last' len_half rule: stable_partition_skip_true.induct)
    (subst (asm) stable_partition_skip_true.simps, fastforce simp: bind_eq_Some_conv split: if_splits)

lemma stable_partition_skip_false_len:
  "stable_partition_skip_false m pred m1 first len_half = Some (k, n) \<Longrightarrow> n \<le> len_half"
  by (induction m pred m1 first len_half rule: stable_partition_skip_false.induct) (fastforce simp: bind_eq_Some_conv split: if_splits)+

definition stable_partition_forward_buffered ::
    "'a mem \<Rightarrow> 'a mem \<Rightarrow> iter \<Rightarrow> iter \<Rightarrow> ('a \<Rightarrow> bool) \<Rightarrow> ('a mem \<times> 'a mem \<times> iter) option" where
  "stable_partition_forward_buffered m buf first last' pred = do {
     x \<leftarrow> rd m first;
     buf \<leftarrow> wr buf 0 x;
     (m, buf, first, t) \<leftarrow> stable_partition_buffer_loop m buf pred first first last' 1;
     (m, _) \<leftarrow> move_out buf 0 t m first;
     Some (m, buf, first)
   }"

text \<open>
  The lengths are the distances of the iterators: that is what the callers pass.  The result is the memory, the buffer and the end of the
  first group.
\<close>

function stable_partition_forward ::
    "bool \<Rightarrow> 'a mem \<Rightarrow> 'a mem \<Rightarrow> iter \<Rightarrow> iter \<Rightarrow> ('a \<Rightarrow> bool) \<Rightarrow> nat \<Rightarrow> nat \<Rightarrow> ('a mem \<times> 'a mem \<times> iter) option" where
  "stable_partition_forward triv m buf first last' pred len buf_size =
     (if first + len \<noteq> last' then None
      else if len = 1 then Some (m, buf, first)
      else if len = 2 then do {
        x \<leftarrow> rd m (Suc first);
        if pred x then do { m \<leftarrow> iter_swap m first (Suc first); Some (m, buf, Suc first) } else Some (m, buf, first)
      }
      else if len \<le> buf_size then stable_partition_forward_buffered m buf first last' pred
      else do {
        let len2 = len div 2;
        let mid = first + len2;
        (m, buf, first_false) \<leftarrow> stable_partition_forward triv m buf first mid pred len2 buf_size;
        (m1, len_half) \<leftarrow> stable_partition_skip_true m pred mid last' (len - len2);
        (m, buf, second_false) \<leftarrow>
          (if m1 \<noteq> last' then stable_partition_forward triv m buf m1 last' pred len_half buf_size else Some (m, buf, last'));
        (m, r, _) \<leftarrow> rotate_pair Forward triv m first_false mid second_false;
        Some (m, buf, r)
      })"
  by pat_completeness auto
termination
  by (relation "measure (\<lambda>(triv, m, buf, first, last', pred, len, buf_size). len)")
    (auto dest!: stable_partition_skip_true_len)

definition stable_partition_bidirectional_buffered ::
    "'a mem \<Rightarrow> 'a mem \<Rightarrow> iter \<Rightarrow> iter \<Rightarrow> ('a \<Rightarrow> bool) \<Rightarrow> ('a mem \<times> 'a mem \<times> iter) option" where
  "stable_partition_bidirectional_buffered m buf first last' pred = do {
     x \<leftarrow> rd m first;
     buf \<leftarrow> wr buf 0 x;
     (m, buf, first, t) \<leftarrow> stable_partition_buffer_loop m buf pred first first last' 1;
     y \<leftarrow> rd m last';
     m \<leftarrow> wr m first y;
     (m, _) \<leftarrow> move_out buf 0 t m (Suc first);
     Some (m, buf, Suc first)
   }"

text \<open>
  Here \<open>last'\<close> is the last element of the range, which has at least two: the callers see to it that the first one does not satisfy the predicate
  and the last one does.
\<close>

function stable_partition_bidirectional ::
    "category \<Rightarrow> bool \<Rightarrow> 'a mem \<Rightarrow> 'a mem \<Rightarrow> iter \<Rightarrow> iter \<Rightarrow> ('a \<Rightarrow> bool) \<Rightarrow> nat \<Rightarrow> nat \<Rightarrow> ('a mem \<times> 'a mem \<times> iter) option" where
  "stable_partition_bidirectional cat triv m buf first last' pred len buf_size =
     (if first + len \<noteq> Suc last' \<or> len < 2 then None
      else if len = 2 then do { m \<leftarrow> iter_swap m first last'; Some (m, buf, last') }
      else if len = 3 then do {
        let mid = Suc first;
        x \<leftarrow> rd m mid;
        if pred x then do {
          m \<leftarrow> iter_swap m first mid;
          m \<leftarrow> iter_swap m mid last';
          Some (m, buf, last')
        } else do {
          m \<leftarrow> iter_swap m mid last';
          m \<leftarrow> iter_swap m first mid;
          Some (m, buf, mid)
        }
      }
      else if len \<le> buf_size then stable_partition_bidirectional_buffered m buf first last' pred
      else do {
        let len2 = len div 2;
        let mid = first + len2;
        (m1, len_half) \<leftarrow> stable_partition_skip_false m pred mid first len2;
        (m, buf, first_false) \<leftarrow>
          (if m1 \<noteq> first then stable_partition_bidirectional cat triv m buf first m1 pred len_half buf_size else Some (m, buf, first));
        (m1, len_half) \<leftarrow> stable_partition_skip_true m pred mid last' (len - len2);
        (m, buf, second_false) \<leftarrow>
          (if m1 \<noteq> last' then stable_partition_bidirectional cat triv m buf m1 last' pred len_half buf_size else Some (m, buf, Suc last'));
        (m, r, _) \<leftarrow> rotate_pair cat triv m first_false mid second_false;
        Some (m, buf, r)
      })"
  by pat_completeness auto
termination
  by (relation "measure (\<lambda>(cat, triv, m, buf, first, last', pred, len, buf_size). len)")
    (auto dest!: stable_partition_skip_true_len stable_partition_skip_false_len)

declare stable_partition_forward.simps [simp del] stable_partition_bidirectional.simps [simp del]

text \<open>The search for the first element that does not satisfy the predicate, and for the last one that does.\<close>

function stable_partition_first_false :: "'a mem \<Rightarrow> ('a \<Rightarrow> bool) \<Rightarrow> iter \<Rightarrow> iter \<Rightarrow> iter option" where
  "stable_partition_first_false m pred first last' =
     (if first = last' then Some first
      else do { x \<leftarrow> rd m first; if \<not> pred x then Some first else stable_partition_first_false m pred (Suc first) last' })"
  by pat_completeness auto
termination
  by (relation "measure (\<lambda>(m, pred, first, last'). length m - first)") auto

fun stable_partition_last_true :: "'a mem \<Rightarrow> ('a \<Rightarrow> bool) \<Rightarrow> iter \<Rightarrow> iter \<Rightarrow> iter option" where
  "stable_partition_last_true m pred first 0 = None"
| "stable_partition_last_true m pred first (Suc l) =
     (if first = l then Some l
      else do { x \<leftarrow> rd m l; if \<not> pred x then stable_partition_last_true m pred first l else Some l })"

declare stable_partition_first_false.simps [simp del]

definition stable_partition_impl_forward ::
    "bool \<Rightarrow> (nat \<Rightarrow> 'a mem option) \<Rightarrow> nat \<Rightarrow> 'a mem \<Rightarrow> iter \<Rightarrow> iter \<Rightarrow> ('a \<Rightarrow> bool) \<Rightarrow> ('a mem \<times> iter) option" where
  "stable_partition_impl_forward triv alloc elem_size m first last' pred = do {
     first \<leftarrow> stable_partition_first_false m pred first last';
     if first = last' then Some (m, first)
     else do {
       let len = last' - first;
       let (buf, buf_size) = (if len \<ge> 3 then get_temporary_buffer alloc elem_size len else ([], 0));
       (m, _, r) \<leftarrow> stable_partition_forward triv m buf first last' pred len buf_size;
       Some (m, r)
     }
   }"

definition stable_partition_impl_bidirectional ::
    "category \<Rightarrow> bool \<Rightarrow> (nat \<Rightarrow> 'a mem option) \<Rightarrow> nat \<Rightarrow> 'a mem \<Rightarrow> iter \<Rightarrow> iter \<Rightarrow> ('a \<Rightarrow> bool) \<Rightarrow> ('a mem \<times> iter) option" where
  "stable_partition_impl_bidirectional cat triv alloc elem_size m first last' pred = do {
     first \<leftarrow> stable_partition_first_false m pred first last';
     if first = last' then Some (m, first)
     else do {
       last' \<leftarrow> stable_partition_last_true m pred first last';
       if first = last' then Some (m, first)
       else do {
         let len = last' - first + 1;
         let (buf, buf_size) = (if len \<ge> 4 then get_temporary_buffer alloc elem_size len else ([], 0));
         (m, _, r) \<leftarrow> stable_partition_bidirectional cat triv m buf first last' pred len buf_size;
         Some (m, r)
       }
     }
   }"

definition stable_partition ::
    "category \<Rightarrow> bool \<Rightarrow> (nat \<Rightarrow> 'a mem option) \<Rightarrow> nat \<Rightarrow> 'a mem \<Rightarrow> iter \<Rightarrow> iter \<Rightarrow> ('a \<Rightarrow> bool) \<Rightarrow> ('a mem \<times> iter) option" where
  "stable_partition cat triv alloc elem_size m first last' pred =
     (case cat of
        Forward \<Rightarrow> stable_partition_impl_forward triv alloc elem_size m first last' pred
      | _ \<Rightarrow> stable_partition_impl_bidirectional cat triv alloc elem_size m first last' pred)"

section \<open>The loops\<close>

text \<open>The specification: the elements that satisfy \<open>P\<close>, then the others.\<close>

definition parted :: "('a \<Rightarrow> bool) \<Rightarrow> 'a list \<Rightarrow> 'a list" where
  "parted P xs = filter P xs @ filter (\<lambda>x. \<not> P x) xs"

lemma length_parted [simp]: "length (parted P xs) = length xs"
  using sum_length_filter_compl [of P xs] by (simp add: parted_def)

lemma stable_partition_skip_true_eq:
  assumes "a < l" "l \<le> length m"
  shows "\<exists>k n. stable_partition_skip_true m pred a l h = Some (k, n) \<and> a \<le> k \<and> k \<le> l \<and> (k \<noteq> l \<longrightarrow> n = h - (k - a) \<and> \<not> pred (m ! k)) \<and>
    (\<forall>x \<in> set (seg m a k). pred x)"
  using assms
proof (induction "l - a" arbitrary: a h)
  case (Suc d)
  show ?case
  proof (cases "pred (m ! a) \<and> Suc a \<noteq> l")
    case True
    have unfold: "stable_partition_skip_true m pred a l h = stable_partition_skip_true m pred (Suc a) l (h - 1)"
      using True Suc.prems by (subst stable_partition_skip_true.simps) (simp add: mem_simps)
    have d: "d = l - Suc a" "Suc a < l" using Suc.hyps(2) Suc.prems True by auto
    obtain k n where k: "stable_partition_skip_true m pred (Suc a) l (h - 1) = Some (k, n)" "Suc a \<le> k" "k \<le> l"
        "k \<noteq> l \<longrightarrow> n = h - 1 - (k - Suc a) \<and> \<not> pred (m ! k)" "\<forall>x \<in> set (seg m (Suc a) k). pred x"
      using Suc.hyps(1) [OF d Suc.prems(2), of "h - 1"] by blast
    have "seg m a k = m ! a # seg m (Suc a) k" using k(2,3) Suc.prems by (simp add: seg_Cons)
    then show ?thesis using k True unfold by (intro exI [of _ k] exI [of _ n]) auto
  next
    case False
    then show ?thesis using Suc.prems by (subst stable_partition_skip_true.simps) (auto simp: mem_simps seg_Cons)
  qed
qed simp

lemma stable_partition_skip_false_eq:
  assumes "f < k" "k \<le> length m"
  shows "\<exists>i n. stable_partition_skip_false m pred k f (k - f) = Some (i, n) \<and> f \<le> i \<and> i < k \<and> n = i - f + 1 \<and>
    (\<forall>x \<in> set (seg m (Suc i) k). \<not> pred x) \<and> (i = f \<or> pred (m ! i))"
  using assms
proof (induction k)
  case (Suc k)
  show ?case
  proof (cases "\<not> pred (m ! k) \<and> k \<noteq> f")
    case True
    then have "stable_partition_skip_false m pred (Suc k) f (Suc k - f) = stable_partition_skip_false m pred k f (k - f)"
      using Suc.prems by (simp add: mem_simps)
    then show ?thesis using Suc True by (force simp: seg_snoc)
  next
    case False
    then show ?thesis using Suc.prems by (auto simp: mem_simps)
  qed
qed simp

text \<open>
  The loop through the buffer: \<open>ts\<close> are the elements moved to the front, \<open>fs\<close> those in the buffer.
\<close>

lemma stable_partition_buffer_loop_eq:
  assumes "f \<le> i" "i < l" "l \<le> length m" "t + length (filter (\<lambda>x. \<not> pred x) (seg m (Suc i) l)) \<le> length buf"
  shows "stable_partition_buffer_loop m buf pred f i l t =
    (let ts = filter pred (seg m (Suc i) l); fs = filter (\<lambda>x. \<not> pred x) (seg m (Suc i) l)
     in Some (put_at m f ts, put_at buf t fs, f + length ts, t + length fs))"
  using assms
proof (induction "l - i" arbitrary: m buf f i t)
  case (Suc n)
  show ?case
  proof (cases "Suc i = l")
    case False
    have s: "seg m (Suc i) l = m ! Suc i # seg m (Suc (Suc i)) l" using False Suc.prems by (simp add: seg_Cons)
    show ?thesis
    proof (cases "pred (m ! Suc i)")
      case True
      have "stable_partition_buffer_loop m buf pred f i l t = stable_partition_buffer_loop (m[f := m ! Suc i]) buf pred (Suc f) (Suc i) l t"
        using True False Suc.prems by (subst stable_partition_buffer_loop.simps) (simp add: mem_simps)
      then show ?thesis using Suc.hyps(1) [of "Suc i" "Suc f" "m[f := m ! Suc i]" t buf] Suc.hyps(2) Suc.prems False True s
        by (simp add: put_at_Cons Let_def)
    next
      case F: False
      have "stable_partition_buffer_loop m buf pred f i l t = stable_partition_buffer_loop m (buf[t := m ! Suc i]) pred f (Suc i) l (Suc t)"
        using F False Suc.prems s by (subst stable_partition_buffer_loop.simps) (simp add: mem_simps)
      then show ?thesis using Suc.hyps(1) [of "Suc i" f m "Suc t" "buf[t := m ! Suc i]"] Suc.hyps(2) Suc.prems False F s
        by (simp add: put_at_Cons Let_def)
    qed
  qed (use Suc.prems in \<open>subst stable_partition_buffer_loop.simps, simp add: Let_def\<close>)
qed simp


lemma parted_Cons_false: "\<not> P x \<Longrightarrow> parted P (x # xs) = filter P xs @ x # filter (\<lambda>x. \<not> P x) xs"
  by (simp add: parted_def)

lemma stable_partition_forward_buffered_eq:
  assumes "f < l" "l \<le> length m" "l - f \<le> length buf" "\<not> pred (m ! f)"
  shows "stable_partition_forward_buffered m buf f l pred =
    Some (put_at m f (parted pred (seg m f l)), put_at buf 0 (filter (\<lambda>x. \<not> pred x) (seg m f l)), f + length (filter pred (seg m f l)))"
proof -
  define ts fs where "ts = filter pred (seg m (Suc f) l)" and "fs = filter (\<lambda>x. \<not> pred x) (seg m (Suc f) l)"
  have n: "length ts + length fs = l - Suc f" using sum_length_filter_compl [of pred "seg m (Suc f) l"] assms by (simp add: ts_def fs_def)
  have s: "seg m f l = m ! f # seg m (Suc f) l" using assms by (simp add: seg_Cons)
  have fil: "filter pred (seg m f l) = ts" "filter (\<lambda>x. \<not> pred x) (seg m f l) = m ! f # fs" "parted pred (seg m f l) = ts @ m ! f # fs"
    unfolding s ts_def fs_def using assms by (simp_all add: parted_def)
  have "stable_partition_buffer_loop m (buf[0 := m ! f]) pred f f l 1 = Some (put_at m f ts, put_at (buf[0 := m ! f]) 1 fs, f + length ts, 1 + length fs)"
    using stable_partition_buffer_loop_eq [of f f l m 1 pred "buf[0 := m ! f]"] assms n by (simp add: ts_def fs_def Let_def)
  moreover have b: "put_at (buf[0 := m ! f]) 1 fs = put_at buf 0 (m ! f # fs)" using assms put_at_Cons [of 0 buf "m ! f" fs] by fastforce
  moreover have "seg (put_at buf 0 (m ! f # fs)) 0 (1 + length fs) = m ! f # fs" using seg_put_at [of 0 "m ! f # fs" buf] n assms by simp
  moreover have "put_at (put_at m f ts) (f + length ts) (m ! f # fs) = put_at m f (ts @ m ! f # fs)"
    using n assms by (simp add: put_at_append)
  moreover have "move_out (put_at buf 0 (m ! f # fs)) 0 (1 + length fs) (put_at m f ts) (f + length ts) =
      Some (put_at (put_at m f ts) (f + length ts) (seg (put_at buf 0 (m ! f # fs)) 0 (1 + length fs)), f + length ts + (1 + length fs))"
    using n assms by (subst move_out_eq) auto
  moreover have "0 < length buf" "f < length m" using assms by auto
  ultimately show ?thesis using fil by (simp add: stable_partition_forward_buffered_def mem_simps)
qed

lemma stable_partition_bidirectional_buffered_eq:
  assumes "f < l" "l < length m" "l - f < length buf" "\<not> pred (m ! f)" "pred (m ! l)"
  shows "stable_partition_bidirectional_buffered m buf f l pred =
    Some (put_at m f (parted pred (seg m f (Suc l))), put_at buf 0 (filter (\<lambda>x. \<not> pred x) (seg m f l)), f + length (filter pred (seg m f (Suc l))))"
proof -
  define ts fs where "ts = filter pred (seg m (Suc f) l)" and "fs = filter (\<lambda>x. \<not> pred x) (seg m (Suc f) l)"
  have n: "length ts + length fs = l - Suc f" using sum_length_filter_compl [of pred "seg m (Suc f) l"] assms by (simp add: ts_def fs_def)
  have s: "seg m f l = m ! f # seg m (Suc f) l" "seg m f (Suc l) = m ! f # seg m (Suc f) l @ [m ! l]"
    using assms seg_snoc [of f l m] by (simp_all add: seg_Cons [of f l])
  have fil: "filter pred (seg m f (Suc l)) = ts @ [m ! l]" "filter (\<lambda>x. \<not> pred x) (seg m f l) = m ! f # fs" "parted pred (seg m f (Suc l)) = ts @ m ! l # m ! f # fs"
    unfolding s ts_def fs_def using assms by (simp_all add: parted_def)
  have "stable_partition_buffer_loop m (buf[0 := m ! f]) pred f f l 1 = Some (put_at m f ts, put_at (buf[0 := m ! f]) 1 fs, f + length ts, 1 + length fs)"
    using stable_partition_buffer_loop_eq [of f f l m 1 pred "buf[0 := m ! f]"] assms n by (simp add: ts_def fs_def Let_def)
  moreover have b: "put_at (buf[0 := m ! f]) 1 fs = put_at buf 0 (m ! f # fs)" using assms put_at_Cons [of 0 buf "m ! f" fs] by fastforce
  moreover have "seg (put_at buf 0 (m ! f # fs)) 0 (1 + length fs) = m ! f # fs" using seg_put_at [of 0 "m ! f # fs" buf] n assms by simp
  moreover have "put_at m f ts ! l = m ! l" using n assms by (auto simp: put_at_nth)
  moreover have "(put_at m f ts)[f + length ts := m ! l] = put_at m f (ts @ [m ! l])" using n assms by (simp add: put_at_snoc)
  moreover have "put_at (put_at m f (ts @ [m ! l])) (Suc (f + length ts)) (m ! f # fs) = put_at m f (ts @ m ! l # m ! f # fs)"
    using n assms put_at_append [of f "ts @ [m ! l]" "m ! f # fs" m] by simp
  moreover have "move_out (put_at buf 0 (m ! f # fs)) 0 (1 + length fs) (put_at m f (ts @ [m ! l])) (Suc (f + length ts)) =
      Some (put_at (put_at m f (ts @ [m ! l])) (Suc (f + length ts)) (seg (put_at buf 0 (m ! f # fs)) 0 (1 + length fs)), Suc (f + length ts) + (1 + length fs))"
    using n assms by (subst move_out_eq) auto
  moreover have "0 < length buf" "f < length m" "l < length (put_at m f ts)" "f + length ts < length (put_at m f ts)" using n assms by auto
  ultimately show ?thesis using fil by (simp add: stable_partition_bidirectional_buffered_def mem_simps)
qed

lemma seg_put_mid:
  "r + length (xs @ ys @ zs) \<le> length m \<Longrightarrow> seg (put_at m r (xs @ ys @ zs)) (r + length xs) (r + length xs + length ys) = ys"
  by (rule nth_equalityI) (auto simp: put_at_nth nth_append)

lemma put_at_put_mid:
  "r + length (xs @ ys @ zs) \<le> length m \<Longrightarrow> length ys' = length ys \<Longrightarrow>
    put_at (put_at m r (xs @ ys @ zs)) (r + length xs) ys' = put_at m r (xs @ ys' @ zs)"
  by (rule nth_equalityI) (auto simp: put_at_nth nth_append)

text \<open>The rotation that joins the results for two adjacent ranges.\<close>

lemma parted_join:
  assumes "f + length (ps @ fs @ ps' @ fs') \<le> length m"
  shows "rotate_pair cat triv (put_at m f (ps @ fs @ ps' @ fs')) (f + length ps) (f + length ps + length fs) (f + length ps + length fs + length ps') =
    Some (put_at m f (ps @ ps' @ fs @ fs'), f + length ps + length ps', f + length ps + length fs + length ps')"
proof -
  let ?m = "put_at m f (ps @ fs @ ps' @ fs')"
  have len: "f + length (ps @ fs @ ps' @ fs') \<le> length m" "f + length ((ps @ fs) @ ps' @ fs') \<le> length m" "f + length (ps @ (fs @ ps') @ fs') \<le> length m" using assms by simp_all
  have "seg ?m (f + length ps) (f + length ps + length fs) = fs" "seg ?m (f + length ps + length fs) (f + length ps + length fs + length ps') = ps'"
    using seg_put_mid [OF len(1)] seg_put_mid [OF len(2)] by (simp_all add: add.assoc)
  moreover have "put_at ?m (f + length ps) (ps' @ fs) = put_at m f (ps @ ps' @ fs @ fs')"
    using put_at_put_mid [OF len(3), of "ps' @ fs"] by simp
  ultimately show ?thesis using assms rotate_pair_eq [of "f + length ps" "f + length ps + length fs" "f + length ps + length fs + length ps'" ?m cat triv]
    by simp
qed

lemma parted_all: "\<forall>x \<in> set xs. P x \<Longrightarrow> parted P xs = xs" "\<forall>x \<in> set xs. \<not> P x \<Longrightarrow> parted P xs = xs"
  by (simp_all add: parted_def)

lemma parted_true_append: "\<forall>x \<in> set xs. P x \<Longrightarrow> parted P (xs @ ys) = xs @ parted P ys"
  by (simp add: parted_def)

lemma parted_append_false: "\<forall>x \<in> set ys. \<not> P x \<Longrightarrow> parted P (xs @ ys) = parted P xs @ ys"
  by (simp add: parted_def)

text \<open>The memory after both halves are parted, and after the rotation.\<close>

lemma parted_halves_join:
  assumes "f \<le> mid" "mid \<le> l" "l \<le> length m" "m' = put_at (put_at m f (parted pred (seg m f mid))) mid (parted pred (seg m mid l))"
  shows "rotate_pair cat triv m' (f + length (filter pred (seg m f mid))) mid (mid + length (filter pred (seg m mid l))) =
    Some (put_at m f (parted pred (seg m f l)), f + length (filter pred (seg m f l)), mid + length (filter pred (seg m mid l)))"
proof -
  let ?xs = "seg m f mid" and ?ys = "seg m mid l" and ?np = "\<lambda>x. \<not> pred x"
  have s: "seg m f l = ?xs @ ?ys" using assms(1,2) by (rule seg_append)
  have n: "length (filter pred ?xs) + length (filter ?np ?xs) = mid - f" "length (filter pred ?ys) + length (filter ?np ?ys) = l - mid"
    using sum_length_filter_compl [of pred ?xs] sum_length_filter_compl [of pred ?ys] assms by auto
  have "m' = put_at m f (parted pred ?xs @ parted pred ?ys)"
    unfolding assms(4) using put_at_append [of f "parted pred ?xs" "parted pred ?ys" m] assms(1-3) by simp
  then have "m' = put_at m f (filter pred ?xs @ filter ?np ?xs @ filter pred ?ys @ filter ?np ?ys)" by (simp add: parted_def)
  then show ?thesis
    using parted_join [of f "filter pred ?xs" "filter ?np ?xs" "filter pred ?ys" "filter ?np ?ys" m cat triv] n assms s
    by (simp add: parted_def add.assoc)
qed

text \<open>Elements that a skipping loop passes are in their place.\<close>

lemma parted_skip_true:
  assumes "a \<le> k" "k \<le> l" "l \<le> length m" "\<forall>x \<in> set (seg m a k). pred x"
  shows "put_at m k (parted pred (seg m k l)) = put_at m a (parted pred (seg m a l))"
    "k + length (filter pred (seg m k l)) = a + length (filter pred (seg m a l))"
proof -
  have s: "seg m a l = seg m a k @ seg m k l" using assms(1,2) by (rule seg_append)
  show "put_at m k (parted pred (seg m k l)) = put_at m a (parted pred (seg m a l))"
    unfolding s parted_true_append [OF assms(4)] using assms(1-3) by (intro put_at_prefix) simp_all
  show "k + length (filter pred (seg m k l)) = a + length (filter pred (seg m a l))" unfolding s using assms by simp
qed

lemma parted_skip_false:
  assumes "f \<le> k" "k \<le> l" "l \<le> length m" "\<forall>x \<in> set (seg m k l). \<not> pred x"
  shows "put_at m f (parted pred (seg m f k)) = put_at m f (parted pred (seg m f l))"
    "length (filter pred (seg m f k)) = length (filter pred (seg m f l))"
proof -
  have s: "seg m f l = seg m f k @ seg m k l" using assms(1,2) by (rule seg_append)
  let ?m = "put_at m f (parted pred (seg m f k))"
  have "seg ?m k l = seg m k l" using assms(1-3) frame_put_at [of f "parted pred (seg m f k)" m] by (intro frame_seg_out) auto
  then have "put_at ?m k (seg m k l) = ?m" using assms(1-3) put_at_seg_id [of k l ?m] by simp
  moreover have "put_at ?m k (seg m k l) = put_at m f (parted pred (seg m f k) @ seg m k l)"
    using assms(1-3) put_at_append [of f "parted pred (seg m f k)" "seg m k l" m] by simp
  ultimately show "?m = put_at m f (parted pred (seg m f l))" unfolding s parted_append_false [OF assms(4)] by simp
  show "length (filter pred (seg m f k)) = length (filter pred (seg m f l))" unfolding s using assms(4) by simp
qed

text \<open>A part of the memory that was not written.\<close>

lemma seg_put_before: "a + length xs \<le> k \<Longrightarrow> a + length xs \<le> length m \<Longrightarrow> seg (put_at m a xs) k l = seg m k l"
  using frame_put_at [of a xs m] by (intro frame_seg_out) auto

section \<open>The recursion\<close>

lemma stable_partition_forward_small:
  assumes "len = 1 \<or> len = 2" "f + len = l" "l \<le> length m" "\<not> pred (m ! f)"
  shows "stable_partition_forward triv m buf f l pred len n = Some (put_at m f (parted pred (seg m f l)), buf, f + length (filter pred (seg m f l)))"
proof (cases "len = 1")
  case True
  then have "seg m f l = [m ! f]" using assms by (auto simp: seg_Cons)
  then show ?thesis using True assms put_at_seg_id [of f l m] by (subst stable_partition_forward.simps) (auto simp: parted_def)
next
  case False
  then have s: "seg m f l = [m ! f, m ! Suc f]" "l = Suc (Suc f)" using assms by (auto simp: seg_Cons)
  have "put_at m f [y, x] = m[f := y, Suc f := x]" for x y using s assms by (simp add: put_at_Cons [symmetric])
  then show ?thesis using False assms s put_at_seg_id [of f l m]
    by (subst stable_partition_forward.simps) (auto simp: parted_def mem_simps)
qed

lemma stable_partition_forward_eq:
  "f + len = l \<Longrightarrow> 0 < len \<Longrightarrow> l \<le> length m \<Longrightarrow> n \<le> length buf \<Longrightarrow> \<not> pred (m ! f) \<Longrightarrow>
    \<exists>buf'. length buf' = length buf \<and>
      stable_partition_forward triv m buf f l pred len n = Some (put_at m f (parted pred (seg m f l)), buf', f + length (filter pred (seg m f l)))"
proof (induction len arbitrary: m buf f l rule: less_induct)
  case (less len)
  show ?case
  proof (cases "len = 1 \<or> len = 2 \<or> len \<le> n")
    case True
    show ?thesis
    proof (cases "len = 1 \<or> len = 2")
      case True
      then show ?thesis using stable_partition_forward_small [OF True, of f l m pred] less.prems by blast
    next
      case False
      then have "stable_partition_forward triv m buf f l pred len n = stable_partition_forward_buffered m buf f l pred"
        using True less.prems by (subst stable_partition_forward.simps) simp
      moreover have "length (filter (\<lambda>x. \<not> pred x) (seg m f l)) \<le> length buf"
        using length_filter_le [of "\<lambda>x. \<not> pred x" "seg m f l"] True False less.prems by simp
      ultimately show ?thesis using stable_partition_forward_buffered_eq [of f l m buf pred] less.prems True False by auto
    qed
  next
    case False
    define len2 mid where "len2 = len div 2" and "mid = f + len2"
    have mid: "0 < len2" "len2 < len" "f < mid" "mid < l" using False less.prems by (auto simp: len2_def mid_def)
    obtain buf1 where r1: "length buf1 = length buf"
        "stable_partition_forward triv m buf f mid pred len2 n = Some (put_at m f (parted pred (seg m f mid)), buf1, f + length (filter pred (seg m f mid)))"
      using less.IH [OF mid(2), of f mid m buf] mid less.prems by (auto simp: mid_def)
    define m1 where "m1 = put_at m f (parted pred (seg m f mid))"
    have m1: "length m1 = length m" "seg m1 mid l = seg m mid l"
      using mid less.prems by (simp_all add: m1_def seg_put_before)
    obtain k h where k: "stable_partition_skip_true m1 pred mid l (len - len2) = Some (k, h)" "mid \<le> k" "k \<le> l"
        "k \<noteq> l \<longrightarrow> h = len - len2 - (k - mid) \<and> \<not> pred (m1 ! k)" "\<forall>x \<in> set (seg m1 mid k). pred x"
      using stable_partition_skip_true_eq [of mid l m1 pred "len - len2"] mid m1 less.prems by auto
    note skip = parted_skip_true [OF k(2,3) _ k(5)]
    obtain buf2 where r2: "length buf2 = length buf"
        "(if k \<noteq> l then stable_partition_forward triv m1 buf1 k l pred h n else Some (m1, buf1, l)) =
          Some (put_at m1 mid (parted pred (seg m mid l)), buf2, mid + length (filter pred (seg m mid l)))"
    proof (cases "k = l")
      case True
      then show thesis using that [of buf1] skip r1 m1 less.prems by (simp add: parted_def)
    next
      case False
      have "h < len" "k + h = l" "0 < h" using False k mid less.prems by (auto simp: mid_def)
      then show thesis using that less.IH [of h k l m1 buf1] False k skip r1 m1 less.prems by auto
    qed
    have "stable_partition_forward triv m buf f l pred len n =
        Some (put_at m f (parted pred (seg m f l)), buf2, f + length (filter pred (seg m f l)))"
      using False less.prems mid r1(2) k(1) r2(2) parted_halves_join [of f mid l m _ pred Forward triv]
      by (subst stable_partition_forward.simps) (simp add: Let_def len2_def [symmetric] mid_def [symmetric] m1_def [symmetric])
    then show ?thesis using r2(1) by blast
  qed
qed

lemma stable_partition_bidirectional_small:
  assumes "len = 2 \<or> len = 3" "f + len = Suc l" "l < length m" "\<not> pred (m ! f)" "pred (m ! l)"
  shows "stable_partition_bidirectional cat triv m buf f l pred len n =
    Some (put_at m f (parted pred (seg m f (Suc l))), buf, f + length (filter pred (seg m f (Suc l))))"
proof (cases "len = 2")
  case True
  then have s: "seg m f (Suc l) = [m ! f, m ! l]" "l = Suc f" using assms by (auto simp: seg_Cons)
  have "put_at m f [y, x] = m[f := y, l := x]" for x y using s assms by (simp add: put_at_Cons [symmetric])
  then show ?thesis using True assms s by (subst stable_partition_bidirectional.simps) (auto simp: parted_def mem_simps)
next
  case False
  then have s: "seg m f (Suc l) = [m ! f, m ! Suc f, m ! l]" "l = Suc (Suc f)" using assms by (auto simp: seg_Cons)
  have "put_at m f [x, y, z] = m[f := x, Suc f := y, l := z]" for x y z using s assms by (simp add: put_at_Cons [symmetric])
  then show ?thesis using False assms s
    by (subst stable_partition_bidirectional.simps) (auto simp: parted_def mem_simps list_update_swap)
qed

lemma stable_partition_bidirectional_eq:
  "f + len = Suc l \<Longrightarrow> 2 \<le> len \<Longrightarrow> l < length m \<Longrightarrow> n \<le> length buf \<Longrightarrow> \<not> pred (m ! f) \<Longrightarrow> pred (m ! l) \<Longrightarrow>
    \<exists>buf'. length buf' = length buf \<and>
      stable_partition_bidirectional cat triv m buf f l pred len n =
        Some (put_at m f (parted pred (seg m f (Suc l))), buf', f + length (filter pred (seg m f (Suc l))))"
proof (induction len arbitrary: m buf f l rule: less_induct)
  case (less len)
  show ?case
  proof (cases "len = 2 \<or> len = 3 \<or> len \<le> n")
    case True
    show ?thesis
    proof (cases "len = 2 \<or> len = 3")
      case True
      then show ?thesis using stable_partition_bidirectional_small [OF True, of f l m pred] less.prems by blast
    next
      case False
      then have "stable_partition_bidirectional cat triv m buf f l pred len n = stable_partition_bidirectional_buffered m buf f l pred"
        using True less.prems by (subst stable_partition_bidirectional.simps) simp
      moreover have "length (filter (\<lambda>x. \<not> pred x) (seg m f l)) \<le> length buf"
        using length_filter_le [of "\<lambda>x. \<not> pred x" "seg m f l"] True False less.prems by simp
      ultimately show ?thesis using stable_partition_bidirectional_buffered_eq [of f l m buf pred] less.prems True False by auto
    qed
  next
    case False
    define len2 mid where "len2 = len div 2" and "mid = f + len2"
    have mid: "2 \<le> len2" "len2 < len" "f < mid" "mid < l" using False less.prems by (auto simp: len2_def mid_def)
    obtain i h where i: "stable_partition_skip_false m pred mid f len2 = Some (i, h)" "f \<le> i" "i < mid" "h = i - f + 1"
        "\<forall>x \<in> set (seg m (Suc i) mid). \<not> pred x" "i = f \<or> pred (m ! i)"
      using stable_partition_skip_false_eq [of f mid m pred] mid less.prems by (auto simp: mid_def)
    define m1 where "m1 = put_at m f (parted pred (seg m f mid))"
    have m1: "length m1 = length m" "seg m1 mid (Suc l) = seg m mid (Suc l)" "m1 ! l = m ! l"
      using mid less.prems by (simp_all add: m1_def seg_put_before put_at_nth)
    have si: "f \<le> Suc i" "Suc i \<le> mid" "mid \<le> length m" using i mid less.prems by auto
    note skip1 = parted_skip_false [OF si i(5)]
    obtain buf1 where r1: "length buf1 = length buf"
        "(if i \<noteq> f then stable_partition_bidirectional cat triv m buf f i pred h n else Some (m, buf, f)) =
          Some (m1, buf1, f + length (filter pred (seg m f mid)))"
    proof (cases "i = f")
      case True
      have "seg m f (Suc f) = [m ! f]" using mid less.prems by (simp add: seg_Cons)
      then show thesis using that [of buf] True skip1 put_at_seg_id [of f "Suc f" m] mid less.prems by (simp add: m1_def parted_def)
    next
      case False
      have "h < len" "f + h = Suc i" "2 \<le> h" "i < length m" "pred (m ! i)" using False i mid less.prems by (auto simp: mid_def)
      then show thesis using that less.IH [of h f i m buf] False skip1 less.prems by (auto simp: m1_def)
    qed
    obtain k h' where k: "stable_partition_skip_true m1 pred mid l (len - len2) = Some (k, h')" "mid \<le> k" "k \<le> l"
        "k \<noteq> l \<longrightarrow> h' = len - len2 - (k - mid) \<and> \<not> pred (m1 ! k)" "\<forall>x \<in> set (seg m1 mid k). pred x"
      using stable_partition_skip_true_eq [of mid l m1 pred "len - len2"] mid m1 less.prems by auto
    obtain buf2 where r2: "length buf2 = length buf"
        "(if k \<noteq> l then stable_partition_bidirectional cat triv m1 buf1 k l pred h' n else Some (m1, buf1, Suc l)) =
          Some (put_at m1 mid (parted pred (seg m mid (Suc l))), buf2, mid + length (filter pred (seg m mid (Suc l))))"
    proof (cases "k = l")
      case True
      have "\<forall>x \<in> set (seg m1 mid (Suc l)). pred x" using k(5) True mid m1 less.prems by (auto simp: seg_snoc)
      then show thesis using that [of buf1] parted_skip_true [of mid "Suc l" "Suc l" m1 pred] True mid r1 m1 less.prems by (simp add: parted_def)
    next
      case False
      have "h' < len" "k + h' = Suc l" "2 \<le> h'" "k \<le> Suc l" using False k mid less.prems by (auto simp: mid_def)
      then show thesis using that less.IH [of h' k l m1 buf1] parted_skip_true [OF k(2) _ _ k(5), of "Suc l"] False k r1 m1 less.prems by auto
    qed
    have "stable_partition_bidirectional cat triv m buf f l pred len n =
        Some (put_at m f (parted pred (seg m f (Suc l))), buf2, f + length (filter pred (seg m f (Suc l))))"
      using False less.prems mid i(1) r1(2) k(1) r2(2) parted_halves_join [of f mid "Suc l" m _ pred cat triv]
      by (subst stable_partition_bidirectional.simps) (simp add: Let_def len2_def [symmetric] mid_def [symmetric] m1_def [symmetric])
    then show ?thesis using r2(1) by blast
  qed
qed

section \<open>stable\_partition\<close>

lemma stable_partition_first_false_eq:
  assumes "f \<le> l" "l \<le> length m"
  shows "\<exists>k. stable_partition_first_false m pred f l = Some k \<and> f \<le> k \<and> k \<le> l \<and> (\<forall>x \<in> set (seg m f k). pred x) \<and> (k \<noteq> l \<longrightarrow> \<not> pred (m ! k))"
  using assms
proof (induction "l - f" arbitrary: f)
  case (Suc d)
  show ?case
  proof (cases "pred (m ! f)")
    case True
    have d: "d = l - Suc f" "Suc f \<le> l" using Suc.hyps(2) by auto
    obtain k where k: "stable_partition_first_false m pred (Suc f) l = Some k" "Suc f \<le> k" "k \<le> l" "\<forall>x \<in> set (seg m (Suc f) k). pred x" "k \<noteq> l \<longrightarrow> \<not> pred (m ! k)"
      using Suc.hyps(1) [OF d Suc.prems(2)] by blast
    moreover have "stable_partition_first_false m pred f l = stable_partition_first_false m pred (Suc f) l"
      using True d Suc.prems by (subst stable_partition_first_false.simps) (simp add: mem_simps)
    moreover have "seg m f k = m ! f # seg m (Suc f) k" using k(2,3) Suc.prems by (simp add: seg_Cons)
    ultimately show ?thesis using True by auto
  next
    case False
    then show ?thesis using Suc.hyps(2) Suc.prems by (subst stable_partition_first_false.simps) (auto simp: mem_simps)
  qed
qed (subst stable_partition_first_false.simps, simp)

lemma stable_partition_last_true_eq:
  "f < l \<Longrightarrow> l \<le> length m \<Longrightarrow>
    \<exists>k. stable_partition_last_true m pred f l = Some k \<and> f \<le> k \<and> k < l \<and> (\<forall>x \<in> set (seg m (Suc k) l). \<not> pred x) \<and> (k \<noteq> f \<longrightarrow> pred (m ! k))"
proof (induction l)
  case (Suc l)
  show ?case
  proof (cases "f = l \<or> pred (m ! l)")
    case True
    then show ?thesis using Suc.prems by (auto simp: mem_simps)
  next
    case False
    then obtain k where "stable_partition_last_true m pred f l = Some k" "f \<le> k" "k < l" "\<forall>x \<in> set (seg m (Suc k) l). \<not> pred x" "k \<noteq> f \<longrightarrow> pred (m ! k)"
      using Suc by auto
    then show ?thesis using False Suc.prems by (auto simp: mem_simps seg_snoc)
  qed
qed simp

context buffer_allocator
begin

lemma stable_partition_impl_forward_eq:
  assumes "f \<le> l" "l \<le> length m"
  shows "stable_partition_impl_forward triv alloc elem_size m f l pred = Some (put_at m f (parted pred (seg m f l)), f + length (filter pred (seg m f l)))"
proof -
  obtain k where k: "stable_partition_first_false m pred f l = Some k" "f \<le> k" "k \<le> l" "\<forall>x \<in> set (seg m f k). pred x" "k \<noteq> l \<longrightarrow> \<not> pred (m ! k)"
    using stable_partition_first_false_eq [OF assms, of pred] by blast
  note skip = parted_skip_true [OF k(2,3) assms(2) k(4)]
  show ?thesis
  proof (cases "k = l")
    case True
    then show ?thesis using k(1) skip by (simp add: stable_partition_impl_forward_def parted_def)
  next
    case False
    obtain buf n where buf: "(if l - k \<ge> 3 then get_temporary_buffer alloc elem_size (l - k) else ([], 0)) = (buf, n)" by fastforce
    then have "n \<le> length buf" using get_temporary_buffer_size by (fastforce split: if_splits)
    then show ?thesis using stable_partition_forward_eq [of k "l - k" l m n buf pred triv] k skip False buf assms
      by (auto simp: stable_partition_impl_forward_def)
  qed
qed

lemma stable_partition_impl_bidirectional_eq:
  assumes "f \<le> l" "l \<le> length m"
  shows "stable_partition_impl_bidirectional cat triv alloc elem_size m f l pred =
    Some (put_at m f (parted pred (seg m f l)), f + length (filter pred (seg m f l)))"
proof -
  obtain k where k: "stable_partition_first_false m pred f l = Some k" "f \<le> k" "k \<le> l" "\<forall>x \<in> set (seg m f k). pred x" "k \<noteq> l \<longrightarrow> \<not> pred (m ! k)"
    using stable_partition_first_false_eq [OF assms, of pred] by blast
  note skip = parted_skip_true [OF k(2,3) assms(2) k(4)]
  show ?thesis
  proof (cases "k = l")
    case True
    then show ?thesis using k(1) skip by (simp add: stable_partition_impl_bidirectional_def parted_def)
  next
    case False
    then obtain j where j: "stable_partition_last_true m pred k l = Some j" "k \<le> j" "j < l" "\<forall>x \<in> set (seg m (Suc j) l). \<not> pred x" "j \<noteq> k \<longrightarrow> pred (m ! j)"
      using stable_partition_last_true_eq [of k l m pred] k assms by auto
    have sj: "k \<le> Suc j" "Suc j \<le> l" using j by auto
    note skip' = parted_skip_false [OF sj assms(2) j(4)]
    show ?thesis
    proof (cases "j = k")
      case True
      have "seg m k (Suc k) = [m ! k]" using j True assms by (simp add: seg_Cons)
      then have "put_at m k (parted pred (seg m k l)) = m" "filter pred (seg m k l) = []"
        using skip' True k False put_at_seg_id [of k "Suc k" m] j assms by (auto simp: parted_def)
      then show ?thesis using k(1) j(1) skip True False by (simp add: stable_partition_impl_bidirectional_def)
    next
      case F: False
      obtain buf n where buf: "(if j - k + 1 \<ge> 4 then get_temporary_buffer alloc elem_size (j - k + 1) else ([], 0)) = (buf, n)" by fastforce
      then have n: "n \<le> length buf" using get_temporary_buffer_size by (fastforce split: if_splits)
      have "k + (j - k + 1) = Suc j" "2 \<le> j - k + 1" "j < length m" using j F assms by auto
      from stable_partition_bidirectional_eq [OF this n, of pred cat triv] obtain buf' where
        "stable_partition_bidirectional cat triv m buf k j pred (j - k + 1) n = Some (put_at m f (parted pred (seg m f l)), buf', f + length (filter pred (seg m f l)))"
        using k(5) j(5) False F skip skip' by auto
      then show ?thesis using k(1) j(1) False F buf by (auto simp: stable_partition_impl_bidirectional_def split: if_splits)
    qed
  qed
qed

end

section \<open>Properties\<close>

text \<open>
  C24: \<^verbatim>\<open>stable_partition\<close> puts the elements of its range that satisfy the predicate before the others, each group in its old order, writes
  nothing else and returns the end of the first group; for every iterator category and whatever size of buffer the allocator grants.
\<close>

theorem stable_partition_correct:
  assumes "\<forall>n buf. alloc n = Some buf \<longrightarrow> length buf = n" "f \<le> l" "l \<le> length m"
  shows "stable_partition cat triv alloc elem_size m f l pred =
    Some (put_at m f (filter pred (seg m f l) @ filter (\<lambda>x. \<not> pred x) (seg m f l)), f + length (filter pred (seg m f l)))"
proof -
  have loc: "buffer_allocator alloc" using assms(1) by (simp add: buffer_allocator_def)
  show ?thesis
    using buffer_allocator.stable_partition_impl_forward_eq [OF loc assms(2,3)] buffer_allocator.stable_partition_impl_bidirectional_eq [OF loc assms(2,3)]
    by (simp add: stable_partition_def parted_def split: category.split)
qed

theorem stable_partition_correct_witness:
  "stable_partition Forward False (capped_alloc 2 0) 4 [1, 2, 3, 4, 5, 6, 7, 8 :: int] 1 7 (\<lambda>x. x < 4 \<or> 5 < x) = Some ([1, 2, 3, 6, 7, 4, 5, 8], 5)"
  by (subst stable_partition_correct) (auto simp: capped_alloc_def seg_def put_at_def put_seg_def)

end
