(* ===== verification/Spec2Isabelle.thy ===== *)
theory Spec2Isabelle
  imports Heap_Ops Subsequence_Search Rearrange_Ops Introsort Stable_Sort Latch_Ops Barrier_Completion Semaphore_Ops From_Chars Civil_Dates
    Number_Ops Numeric_Scan Permutations Stable_Partition
begin

text \<open>
  Verification of core parts of libcudacxx, the C++ standard library of the CUDA C++ Core Libraries, which
  runs on the host and on the device.  All sources are below \<^verbatim>\<open>src/libcudacxx/include/cuda\<close>; paths below are
  relative to it.

  \<^bold>\<open>The program.\<close>  CUB, Thrust and cudax are built on libcudacxx.  Its own logic is in: the sequence algorithms
  (\<^verbatim>\<open>std/__algorithm\<close>), which call each other (\<^verbatim>\<open>sort\<close> uses the heap functions, \<^verbatim>\<open>stable_sort\<close> the merges,
  \<^verbatim>\<open>inplace_merge\<close> the bisections and \<^verbatim>\<open>rotate\<close>, \<^verbatim>\<open>rotate\<close> the moves and exchanges); the reductions and scans of \<^verbatim>\<open>std/__numeric\<close>; the synchronisation primitives
  (\<^verbatim>\<open>std/__latch\<close>, \<^verbatim>\<open>std/__barrier\<close>, \<^verbatim>\<open>std/__semaphore\<close>), which share the polling loop of \<^verbatim>\<open>std/__thread/poll.h\<close> and
  the wait of \<^verbatim>\<open>std/__atomic\<close>; integers (\<^verbatim>\<open>std/__bit\<close>, \<^verbatim>\<open>__cmath\<close>, \<^verbatim>\<open>__numeric\<close>), on which the conversions of
  \<^verbatim>\<open>std/__charconv\<close> rest; and the calendar of \<^verbatim>\<open>std/__chrono\<close>.

  \<^bold>\<open>Conventions.\<close>  A memory is a list of elements, an iterator a position in it (\<open>Prelude\<close>); a function that
  writes returns the new memory.  A read or write out of range, a failing \<^verbatim>\<open>_CCCL_ASSERT\<close> and the overflow of
  a signed type are the value \<open>None\<close>, so a theorem that says \<open>Some\<close> also says that none of these happens.
  Ranges that may overlap lie in one memory.  Comparators and predicates are parameters without side effects.
  Overloads are separate definitions or flags for what the source decides at compile time (iterator category,
  trivially copyable types, constant evaluation).  Integers whose wrap-around matters are words or have it
  written out.  A thread is a program counter that stands at the next atomic operation; a system step runs one
  operation of one thread, so all interleavings are sequentially consistent ones.

  \<^bold>\<open>Theories.\<close>
  \<^item> \<open>Prelude\<close>: memories, reads, writes, segments, frames, permutations.
  \<^item> \<open>Comparators\<close>: \<^verbatim>\<open>comp.h\<close>, \<^verbatim>\<open>min.h\<close> to \<^verbatim>\<open>minmax_element.h\<close>, \<^verbatim>\<open>clamp.h\<close>, \<^verbatim>\<open>is_sorted.h\<close>, \<^verbatim>\<open>lexicographical_compare.h\<close>;
    the locale \<open>strict_weak_order\<close> of the comparators.
  \<^item> \<open>Binary_Search\<close>: \<^verbatim>\<open>partition_point.h\<close>, \<^verbatim>\<open>lower_bound.h\<close>, \<^verbatim>\<open>upper_bound.h\<close>, \<^verbatim>\<open>equal_range.h\<close>, \<^verbatim>\<open>binary_search.h\<close>.
  \<^item> \<open>Linear_Search\<close>, \<open>Subsequence_Search\<close>: the scans (\<^verbatim>\<open>find_if.h\<close>, \<^verbatim>\<open>mismatch.h\<close>, \<^verbatim>\<open>equal.h\<close>, \<^verbatim>\<open>is_permutation.h\<close> and others) and
    the pattern searches (\<^verbatim>\<open>search.h\<close>, \<^verbatim>\<open>search_n.h\<close>, \<^verbatim>\<open>find_end.h\<close>); the locale \<open>equivalence_pred\<close>.
  \<^item> \<open>Copy_Ops\<close>, \<open>Rearrange_Ops\<close>, \<open>Merge_Ops\<close>: the algorithms that write: copies, fills, transforms; removal, reversal,
    rotation, shifts, partition; merge and the set operations.
  \<^item> \<open>Heap_Ops\<close>: \<^verbatim>\<open>push_heap.h\<close>, \<^verbatim>\<open>sift_down.h\<close>, \<^verbatim>\<open>pop_heap.h\<close>, \<^verbatim>\<open>make_heap.h\<close>, \<^verbatim>\<open>sort_heap.h\<close>, \<^verbatim>\<open>partial_sort.h\<close>.
  \<^item> \<open>Sort_Small\<close>, \<open>Sort_Partition\<close>, \<open>Bitset_Partition\<close>, \<open>Introsort\<close>: \<^verbatim>\<open>sort.h\<close>, bottom up; \<open>Sort_Contract\<close> holds the locale
    \<open>range_sorter\<close> of everything that sorts a range.
  \<^item> \<open>Stable_Sort\<close>: \<^verbatim>\<open>stable_sort.h\<close>, \<^verbatim>\<open>inplace_merge.h\<close> and the temporary buffer, over the locale \<open>buffer_allocator\<close>;
    \<open>Stable_Partition\<close>: \<^verbatim>\<open>stable_partition.h\<close>, over the same buffer.
  \<^item> \<open>Permutations\<close>: \<^verbatim>\<open>next_permutation.h\<close>, \<^verbatim>\<open>prev_permutation.h\<close>.
  \<^item> \<open>Numeric_Scan\<close>: the reductions and scans of \<^verbatim>\<open>std/__numeric\<close>, \<^verbatim>\<open>accumulate.h\<close> to \<^verbatim>\<open>transform_exclusive_scan.h\<close>.
  \<^item> \<open>Atomic_Wait\<close>, \<open>Latch_Ops\<close>, \<open>Barrier_Ops\<close>, \<open>Barrier_Completion\<close>, \<open>Semaphore_Ops\<close>: polling and waiting, the latch, the
    barrier packed into 64 bits, the barrier with a completion function, the counting and binary semaphores.
  \<^item> \<open>Bit_Ops\<close>, \<open>Int_Math\<close>, \<open>Overflow_Ops\<close>: counting zeros, powers of two and rotations; negation, rounded division,
    logarithms, upper half of a product; addition and multiplication with overflow detection.
  \<^item> \<open>Pop_Count\<close>, \<open>Fast_Division\<close>, \<open>Number_Ops\<close>: the number of set bits; division by a precomputed multiplier
    (\<^verbatim>\<open>__cmath/fast_modulo_division.h\<close>); square root, power, rounding, greatest common divisor, least common multiple, midpoint.
  \<^item> \<open>To_Chars\<close>, \<open>From_Chars\<close>: \<^verbatim>\<open>to_chars.h\<close> and \<^verbatim>\<open>from_chars.h\<close> for integers.
  \<^item> \<open>Calendar\<close>, \<open>Civil_Days\<close>, \<open>Civil_Dates\<close>: the fields of dates, conversion between dates and counts of days.

  \<^bold>\<open>Interfaces.\<close>  \<open>strict_weak_order\<close> and \<open>equivalence_pred\<close> are what the algorithms require of their arguments; they
  are interpreted on \<open>less_op\<close> and \<open>equal_to_op\<close>, the comparators of \<^verbatim>\<open>comp.h\<close>.  \<open>range_sorter\<close> is met by the heap sort,
  the introsort and the stable sort, and carries what a client does with a sorted range.
  \<open>stable_range_sorter\<close> adds stability, \<open>buffer_allocator\<close> is the contract of the allocation function the
  buffer is taken from.  \<open>invariant_system\<close> and \<open>ranked_system\<close> (every fair run of a system whose steps lower a
  rank comes to an end) are interpreted on the latch and the barriers, \<open>phased_barrier\<close> on both barriers and
  \<open>lock_contract\<close> on both semaphores.

  \<^bold>\<open>What is shown.\<close>  For the algorithms: each stays inside its range, ends, and yields the result the standard
  specifies (sorted permutation, stability, heap order, the exact output of merges and set operations,
  the first match, the next arrangement, the reductions of all prefixes), for every strict weak order or equivalence, every iterator category and every overload.  For the
  primitives: no assertion fails, nobody returns early, and under every fair schedule everybody returns;
  the semaphores exclude.  For integers: the results are the mathematical ones at every width up to
  128 bits, but for the deviations below, errors are reported exactly when they occur, the division by a multiplier is exact, and \<^verbatim>\<open>from_chars\<close> reads what \<^verbatim>\<open>to_chars\<close> writes.  For
  the calendar: conversions are inverse to each other and follow the Gregorian calendar on all
  representable years.

  \<^bold>\<open>Bounds and fuel.\<close>  Loops are functions with a termination measure.  Three have a bound of their own: the cycle
  of \<open>rotate_gcd\<close> takes the length of the range as its number of rounds, which is shown to suffice; \<open>introsort\<close>
  recurses on the depth limit the source has; the loop of \<open>to_chars_int_width\<close> is a partial function that is
  shown to return.  Systems of threads have any number of threads and of operations, as
  long as the counters the source uses can hold them; that is a hypothesis where it is needed.

  \<^bold>\<open>Deviations of the code.\<close>  Theorems of their own state behaviour that differs from documentation or
  intention: \<^verbatim>\<open>arrive_and_drop\<close> of the packed barrier can lose the reset of the arrivals, \<^verbatim>\<open>try_acquire_for\<close> with a
  duration of 0 does not return, \<^verbatim>\<open>year_month::operator+=\<close> of months does not carry into the year, \<^verbatim>\<open>fast_mod_div\<close> fails for two different types that are
  promoted, \<^verbatim>\<open>ilog10\<close> is one too large for the largest value of an unsigned type of 32 bits other than \<^verbatim>\<open>uint32_t\<close>, \<^verbatim>\<open>ipow\<close> returns 0
  where the result is the highest power of two of the type, the assertion of \<^verbatim>\<open>lcm\<close> rejects some
  results the type holds.

  \<^bold>\<open>Not modelled.\<close>  CUB, Thrust, cudax and the C and Python bindings are built for the execution model of the GPU (thread
  blocks, warps, shared memory, kernel launches), which has no semantics here.  In libcudacxx: memory orders weaker
  than sequential consistency and the PTX of the atomics; generated PTX wrappers; the CUDA runtime and
  driver wrappers; floating point; type-level code (traits, concepts, ranges, mdspan layouts) that computes nothing
  at run time; random numbers, formatting, clocks; the class templates tuple, optional, variant and expected.
\<close>

end
